(* ===== verification/Prelude.thy ===== *)
theory Prelude
  imports "HOL-Library.Word" "HOL-Library.Monad_Syntax"
begin

unbundle bit_operations_syntax

text \<open>
  Machine types, C array access and the generic lemmas that every component theory uses.

  A C function that can leave its arrays is modelled with result type \<open>'a option\<close>: \<open>None\<close> is an
  execution with undefined behaviour (an access outside an array), \<open>Some r\<close> a defined one. The
  \<open>do\<close> syntax of \<open>Monad_Syntax\<close> threads it. Unsigned C integers are words of their width; an
  \<open>int\<close> that the code keeps far away from its bounds is an \<open>int\<close> or a \<open>nat\<close>.
\<close>

type_synonym u8 = "8 word"
type_synonym u16 = "16 word"
type_synonym u32 = "32 word"

named_theorems c_defs \<open>definitions of C helpers that a proof unfolds\<close>
named_theorems c_inv \<open>preservation facts: every operation keeps its component's invariant\<close>

section \<open>Array access\<close>

definition rd :: "'a list \<Rightarrow> nat \<Rightarrow> 'a option" where
  "rd xs i = (if i < length xs then Some (xs ! i) else None)"

definition wr :: "'a list \<Rightarrow> nat \<Rightarrow> 'a \<Rightarrow> 'a list option" where
  "wr xs i v = (if i < length xs then Some (xs[i := v]) else None)"

lemma rd_in [simp]: "i < length xs \<Longrightarrow> rd xs i = Some (xs ! i)"
  by (simp add: rd_def)

lemma rd_out: "\<not> i < length xs \<Longrightarrow> rd xs i = None"
  by (simp add: rd_def)

lemma wr_in [simp]: "i < length xs \<Longrightarrow> wr xs i v = Some (xs[i := v])"
  by (simp add: wr_def)

lemma wr_out: "\<not> i < length xs \<Longrightarrow> wr xs i v = None"
  by (simp add: wr_def)

lemma rd_Some_iff: "rd xs i = Some v \<longleftrightarrow> i < length xs \<and> xs ! i = v"
  by (auto simp: rd_def)

lemma wr_Some_iff: "wr xs i v = Some ys \<longleftrightarrow> i < length xs \<and> ys = xs[i := v]"
  by (auto simp: wr_def)

section \<open>Words\<close>

text \<open>The two bytes of a 16-bit value and their composition \<open>hi << 8 | lo\<close>.\<close>

definition hi_byte :: "u16 \<Rightarrow> u8" where
  "hi_byte w = ucast (drop_bit 8 w)"

definition lo_byte :: "u16 \<Rightarrow> u8" where
  "lo_byte w = ucast w"

definition be16 :: "u8 \<Rightarrow> u8 \<Rightarrow> u16" where
  "be16 h l = push_bit 8 (ucast h) OR ucast l"

lemma bit_hi_byte: "bit (hi_byte w) n \<longleftrightarrow> n < 8 \<and> bit w (n + 8)"
  by (auto simp: hi_byte_def bit_simps add.commute)

lemma bit_lo_byte: "bit (lo_byte w) n \<longleftrightarrow> n < 8 \<and> bit w n"
  by (auto simp: lo_byte_def bit_simps)

lemma bit_be16: "bit (be16 h l) n \<longleftrightarrow> n < 16 \<and> (if n < 8 then bit l n else bit h (n - 8))"
  by (auto simp: be16_def bit_simps dest: bit_imp_le_length)

lemma be16_split [simp]: "be16 (hi_byte w) (lo_byte w) = w"
  by (rule bit_word_eqI) (auto simp: bit_be16 bit_hi_byte bit_lo_byte)

lemma hi_byte_be16 [simp]: "hi_byte (be16 h l) = h"
  by (rule bit_word_eqI) (simp add: bit_be16 bit_hi_byte)

lemma lo_byte_be16 [simp]: "lo_byte (be16 h l) = l"
  by (rule bit_word_eqI) (simp add: bit_be16 bit_lo_byte)

lemma be16_inject [simp]: "be16 h l = be16 h' l' \<longleftrightarrow> h = h' \<and> l = l'"
  by (metis hi_byte_be16 lo_byte_be16)

lemma be16_eq_iff: "be16 h l = w \<longleftrightarrow> h = hi_byte w \<and> l = lo_byte w"
  by (metis hi_byte_be16 lo_byte_be16 be16_split)

lemma word_xor_eq_0 [simp]: "x XOR y = 0 \<longleftrightarrow> x = (y :: 'a::len word)"
  by (auto simp: bit_eq_iff bit_simps)

lemma word_xor_right [simp]: "x XOR z = y XOR z \<longleftrightarrow> x = (y :: 'a::len word)"
  by (auto simp: bit_eq_iff bit_simps)

lemma word_xor_left [simp]: "z XOR x = z XOR y \<longleftrightarrow> x = (y :: 'a::len word)"
  by (auto simp: bit_eq_iff bit_simps)

lemma lo_byte_ucast [simp]: "lo_byte (ucast b) = b"
  by (rule bit_word_eqI) (simp add: bit_lo_byte bit_simps)

lemma ucast_u16_inject [simp]: "(ucast b :: u16) = ucast c \<longleftrightarrow> b = (c :: u8)"
  by (metis lo_byte_ucast)

text \<open>Counters of eight and sixteen bits below their wrap-around.\<close>

lemma unat_u8_Suc: "unat (x :: u8) < 255 \<Longrightarrow> unat (x + 1) = Suc (unat x)"
  by (simp add: unat_word_ariths)

lemma unat_u16_Suc: "unat (x :: u16) < 65535 \<Longrightarrow> unat (x + 1) = Suc (unat x)"
  by (simp add: unat_word_ariths)

lemma unat_minus_one_pos: "0 < (x :: 'a::len word) \<Longrightarrow> unat (x - 1) = unat x - 1"
  by (metis unat_minus_one word_neq_0_conv)

lemma bit_nibbles:
  "bit (0x0F :: int) n \<longleftrightarrow> n < 4" "bit (0xF0 :: int) n \<longleftrightarrow> 4 \<le> n \<and> n < 8"
  "bit (0x0F :: u8) n \<longleftrightarrow> n < 4" "bit (0xF0 :: u8) n \<longleftrightarrow> 4 \<le> n \<and> n < 8"
proof -
  have m: "(0x0F :: int) = mask 4" "(0xF0 :: int) = push_bit 4 (mask 4)"
    by (simp_all add: mask_eq_exp_minus_1)
  show i: "bit (0x0F :: int) n \<longleftrightarrow> n < 4" "bit (0xF0 :: int) n \<longleftrightarrow> 4 \<le> n \<and> n < 8"
    unfolding m by (auto simp: bit_mask_iff bit_push_bit_iff)
  show "bit (0x0F :: u8) n \<longleftrightarrow> n < 4" "bit (0xF0 :: u8) n \<longleftrightarrow> 4 \<le> n \<and> n < 8"
    by (auto simp: i)
qed

text \<open>
  The 256 bytes in order. A property of bytes holds if it holds along this list, which the
  simplifier can walk.
\<close>

definition all_bytes :: "u8 list" where
  "all_bytes =
    [0x00, 0x01, 0x02, 0x03, 0x04, 0x05, 0x06, 0x07, 0x08, 0x09, 0x0A, 0x0B, 0x0C, 0x0D, 0x0E, 0x0F,
     0x10, 0x11, 0x12, 0x13, 0x14, 0x15, 0x16, 0x17, 0x18, 0x19, 0x1A, 0x1B, 0x1C, 0x1D, 0x1E, 0x1F,
     0x20, 0x21, 0x22, 0x23, 0x24, 0x25, 0x26, 0x27, 0x28, 0x29, 0x2A, 0x2B, 0x2C, 0x2D, 0x2E, 0x2F,
     0x30, 0x31, 0x32, 0x33, 0x34, 0x35, 0x36, 0x37, 0x38, 0x39, 0x3A, 0x3B, 0x3C, 0x3D, 0x3E, 0x3F,
     0x40, 0x41, 0x42, 0x43, 0x44, 0x45, 0x46, 0x47, 0x48, 0x49, 0x4A, 0x4B, 0x4C, 0x4D, 0x4E, 0x4F,
     0x50, 0x51, 0x52, 0x53, 0x54, 0x55, 0x56, 0x57, 0x58, 0x59, 0x5A, 0x5B, 0x5C, 0x5D, 0x5E, 0x5F,
     0x60, 0x61, 0x62, 0x63, 0x64, 0x65, 0x66, 0x67, 0x68, 0x69, 0x6A, 0x6B, 0x6C, 0x6D, 0x6E, 0x6F,
     0x70, 0x71, 0x72, 0x73, 0x74, 0x75, 0x76, 0x77, 0x78, 0x79, 0x7A, 0x7B, 0x7C, 0x7D, 0x7E, 0x7F,
     0x80, 0x81, 0x82, 0x83, 0x84, 0x85, 0x86, 0x87, 0x88, 0x89, 0x8A, 0x8B, 0x8C, 0x8D, 0x8E, 0x8F,
     0x90, 0x91, 0x92, 0x93, 0x94, 0x95, 0x96, 0x97, 0x98, 0x99, 0x9A, 0x9B, 0x9C, 0x9D, 0x9E, 0x9F,
     0xA0, 0xA1, 0xA2, 0xA3, 0xA4, 0xA5, 0xA6, 0xA7, 0xA8, 0xA9, 0xAA, 0xAB, 0xAC, 0xAD, 0xAE, 0xAF,
     0xB0, 0xB1, 0xB2, 0xB3, 0xB4, 0xB5, 0xB6, 0xB7, 0xB8, 0xB9, 0xBA, 0xBB, 0xBC, 0xBD, 0xBE, 0xBF,
     0xC0, 0xC1, 0xC2, 0xC3, 0xC4, 0xC5, 0xC6, 0xC7, 0xC8, 0xC9, 0xCA, 0xCB, 0xCC, 0xCD, 0xCE, 0xCF,
     0xD0, 0xD1, 0xD2, 0xD3, 0xD4, 0xD5, 0xD6, 0xD7, 0xD8, 0xD9, 0xDA, 0xDB, 0xDC, 0xDD, 0xDE, 0xDF,
     0xE0, 0xE1, 0xE2, 0xE3, 0xE4, 0xE5, 0xE6, 0xE7, 0xE8, 0xE9, 0xEA, 0xEB, 0xEC, 0xED, 0xEE, 0xEF,
     0xF0, 0xF1, 0xF2, 0xF3, 0xF4, 0xF5, 0xF6, 0xF7, 0xF8, 0xF9, 0xFA, 0xFB, 0xFC, 0xFD, 0xFE, 0xFF]"

lemma all_bytes_of_nat: "all_bytes = map of_nat [0..<256]"
  by (simp add: all_bytes_def upt_rec)

lemma length_all_bytes [simp]: "length all_bytes = 256"
  by (simp add: all_bytes_of_nat)

lemma unat_u8_less [simp]: "unat (b :: u8) < 256"
  using unsigned_less [of b] by simp

lemma all_bytes_nth: "all_bytes ! unat b = b"
  by (simp add: all_bytes_of_nat)

lemma in_all_bytes: "b \<in> set all_bytes"
  by (metis all_bytes_nth length_all_bytes nth_mem unat_u8_less)

lemma all_bytesI: "list_all P all_bytes \<Longrightarrow> P b"
  using in_all_bytes [of b] by (simp add: list_all_iff)

lemma map_all_bytes_eq:
  "map f all_bytes = ys \<Longrightarrow> f b = ys ! unat b"
  by (metis all_bytes_nth length_all_bytes nth_map unat_u8_less)

section \<open>Ring buffers\<close>

text \<open>Two places of a ring at different distances below its size are different.\<close>

lemma mod_add_ne:
  fixes k n s :: nat assumes "k < n" "n < s" shows "(a + k) mod s \<noteq> (a + n) mod s"
proof
  assume "(a + k) mod s = (a + n) mod s"
  then have "s dvd (a + n) - (a + k)" using assms by (metis mod_eq_dvd_iff_nat add_le_mono1 add.commute less_imp_le)
  then have "s dvd n - k" by simp
  with assms show False by (auto dest!: dvd_imp_le)
qed

text \<open>What a full buffer keeps that drops its oldest entries.\<close>

definition newest :: "nat \<Rightarrow> 'a list \<Rightarrow> 'a list" where
  "newest n xs = drop (length xs - n) xs"

lemma newest_simps [simp]: "newest n [] = []" "length xs \<le> n \<Longrightarrow> newest n xs = xs"
  by (simp_all add: newest_def)

lemma newest_append: "newest n (newest n xs @ ys) = newest n (xs @ ys)"
  by (cases "length xs \<le> n") (auto simp: newest_def add.commute)

lemma length_newest [simp]: "length (newest n xs) = min n (length xs)"
  by (auto simp: newest_def)

end
