(* ===== verification/Crc.thy ===== *)
theory Crc
  imports Prelude
begin

text \<open>
  The checksums of the program. \<open>crc16.c\<close> (EEPROM parameters), \<open>agile_modbus_rtu.c\<close> (Modbus
  frames) and \<open>crc16_modbus\<close> of \<open>lms.c\<close> (LMS parameter blocks) are three table-driven copies of
  the Modbus CRC-16; \<open>crc4_itu\<close> of \<open>lms.c\<close> is the bitwise CRC-4 of a lamp command.
\<close>

section \<open>The tables\<close>

definition table_crc_hi :: "u8 list" where
  "table_crc_hi =
    [0x00, 0xC1, 0x81, 0x40, 0x01, 0xC0, 0x80, 0x41, 0x01, 0xC0, 0x80, 0x41, 0x00, 0xC1, 0x81, 0x40,
     0x01, 0xC0, 0x80, 0x41, 0x00, 0xC1, 0x81, 0x40, 0x00, 0xC1, 0x81, 0x40, 0x01, 0xC0, 0x80, 0x41,
     0x01, 0xC0, 0x80, 0x41, 0x00, 0xC1, 0x81, 0x40, 0x00, 0xC1, 0x81, 0x40, 0x01, 0xC0, 0x80, 0x41,
     0x00, 0xC1, 0x81, 0x40, 0x01, 0xC0, 0x80, 0x41, 0x01, 0xC0, 0x80, 0x41, 0x00, 0xC1, 0x81, 0x40,
     0x01, 0xC0, 0x80, 0x41, 0x00, 0xC1, 0x81, 0x40, 0x00, 0xC1, 0x81, 0x40, 0x01, 0xC0, 0x80, 0x41,
     0x00, 0xC1, 0x81, 0x40, 0x01, 0xC0, 0x80, 0x41, 0x01, 0xC0, 0x80, 0x41, 0x00, 0xC1, 0x81, 0x40,
     0x00, 0xC1, 0x81, 0x40, 0x01, 0xC0, 0x80, 0x41, 0x01, 0xC0, 0x80, 0x41, 0x00, 0xC1, 0x81, 0x40,
     0x01, 0xC0, 0x80, 0x41, 0x00, 0xC1, 0x81, 0x40, 0x00, 0xC1, 0x81, 0x40, 0x01, 0xC0, 0x80, 0x41,
     0x01, 0xC0, 0x80, 0x41, 0x00, 0xC1, 0x81, 0x40, 0x00, 0xC1, 0x81, 0x40, 0x01, 0xC0, 0x80, 0x41,
     0x00, 0xC1, 0x81, 0x40, 0x01, 0xC0, 0x80, 0x41, 0x01, 0xC0, 0x80, 0x41, 0x00, 0xC1, 0x81, 0x40,
     0x00, 0xC1, 0x81, 0x40, 0x01, 0xC0, 0x80, 0x41, 0x01, 0xC0, 0x80, 0x41, 0x00, 0xC1, 0x81, 0x40,
     0x01, 0xC0, 0x80, 0x41, 0x00, 0xC1, 0x81, 0x40, 0x00, 0xC1, 0x81, 0x40, 0x01, 0xC0, 0x80, 0x41,
     0x00, 0xC1, 0x81, 0x40, 0x01, 0xC0, 0x80, 0x41, 0x01, 0xC0, 0x80, 0x41, 0x00, 0xC1, 0x81, 0x40,
     0x01, 0xC0, 0x80, 0x41, 0x00, 0xC1, 0x81, 0x40, 0x00, 0xC1, 0x81, 0x40, 0x01, 0xC0, 0x80, 0x41,
     0x01, 0xC0, 0x80, 0x41, 0x00, 0xC1, 0x81, 0x40, 0x00, 0xC1, 0x81, 0x40, 0x01, 0xC0, 0x80, 0x41,
     0x00, 0xC1, 0x81, 0x40, 0x01, 0xC0, 0x80, 0x41, 0x01, 0xC0, 0x80, 0x41, 0x00, 0xC1, 0x81, 0x40]"

definition table_crc_lo :: "u8 list" where
  "table_crc_lo =
    [0x00, 0xC0, 0xC1, 0x01, 0xC3, 0x03, 0x02, 0xC2, 0xC6, 0x06, 0x07, 0xC7, 0x05, 0xC5, 0xC4, 0x04,
     0xCC, 0x0C, 0x0D, 0xCD, 0x0F, 0xCF, 0xCE, 0x0E, 0x0A, 0xCA, 0xCB, 0x0B, 0xC9, 0x09, 0x08, 0xC8,
     0xD8, 0x18, 0x19, 0xD9, 0x1B, 0xDB, 0xDA, 0x1A, 0x1E, 0xDE, 0xDF, 0x1F, 0xDD, 0x1D, 0x1C, 0xDC,
     0x14, 0xD4, 0xD5, 0x15, 0xD7, 0x17, 0x16, 0xD6, 0xD2, 0x12, 0x13, 0xD3, 0x11, 0xD1, 0xD0, 0x10,
     0xF0, 0x30, 0x31, 0xF1, 0x33, 0xF3, 0xF2, 0x32, 0x36, 0xF6, 0xF7, 0x37, 0xF5, 0x35, 0x34, 0xF4,
     0x3C, 0xFC, 0xFD, 0x3D, 0xFF, 0x3F, 0x3E, 0xFE, 0xFA, 0x3A, 0x3B, 0xFB, 0x39, 0xF9, 0xF8, 0x38,
     0x28, 0xE8, 0xE9, 0x29, 0xEB, 0x2B, 0x2A, 0xEA, 0xEE, 0x2E, 0x2F, 0xEF, 0x2D, 0xED, 0xEC, 0x2C,
     0xE4, 0x24, 0x25, 0xE5, 0x27, 0xE7, 0xE6, 0x26, 0x22, 0xE2, 0xE3, 0x23, 0xE1, 0x21, 0x20, 0xE0,
     0xA0, 0x60, 0x61, 0xA1, 0x63, 0xA3, 0xA2, 0x62, 0x66, 0xA6, 0xA7, 0x67, 0xA5, 0x65, 0x64, 0xA4,
     0x6C, 0xAC, 0xAD, 0x6D, 0xAF, 0x6F, 0x6E, 0xAE, 0xAA, 0x6A, 0x6B, 0xAB, 0x69, 0xA9, 0xA8, 0x68,
     0x78, 0xB8, 0xB9, 0x79, 0xBB, 0x7B, 0x7A, 0xBA, 0xBE, 0x7E, 0x7F, 0xBF, 0x7D, 0xBD, 0xBC, 0x7C,
     0xB4, 0x74, 0x75, 0xB5, 0x77, 0xB7, 0xB6, 0x76, 0x72, 0xB2, 0xB3, 0x73, 0xB1, 0x71, 0x70, 0xB0,
     0x50, 0x90, 0x91, 0x51, 0x93, 0x53, 0x52, 0x92, 0x96, 0x56, 0x57, 0x97, 0x55, 0x95, 0x94, 0x54,
     0x9C, 0x5C, 0x5D, 0x9D, 0x5F, 0x9F, 0x9E, 0x5E, 0x5A, 0x9A, 0x9B, 0x5B, 0x99, 0x59, 0x58, 0x98,
     0x88, 0x48, 0x49, 0x89, 0x4B, 0x8B, 0x8A, 0x4A, 0x4E, 0x8E, 0x8F, 0x4F, 0x8D, 0x4D, 0x4C, 0x8C,
     0x44, 0x84, 0x85, 0x45, 0x87, 0x47, 0x46, 0x86, 0x82, 0x42, 0x43, 0x83, 0x41, 0x81, 0x80, 0x40]"

definition rtu_table_crc_hi :: "u8 list" where
  "rtu_table_crc_hi =
    [0x00, 0xC1, 0x81, 0x40, 0x01, 0xC0, 0x80, 0x41, 0x01, 0xC0, 0x80, 0x41, 0x00, 0xC1, 0x81, 0x40,
     0x01, 0xC0, 0x80, 0x41, 0x00, 0xC1, 0x81, 0x40, 0x00, 0xC1, 0x81, 0x40, 0x01, 0xC0, 0x80, 0x41,
     0x01, 0xC0, 0x80, 0x41, 0x00, 0xC1, 0x81, 0x40, 0x00, 0xC1, 0x81, 0x40, 0x01, 0xC0, 0x80, 0x41,
     0x00, 0xC1, 0x81, 0x40, 0x01, 0xC0, 0x80, 0x41, 0x01, 0xC0, 0x80, 0x41, 0x00, 0xC1, 0x81, 0x40,
     0x01, 0xC0, 0x80, 0x41, 0x00, 0xC1, 0x81, 0x40, 0x00, 0xC1, 0x81, 0x40, 0x01, 0xC0, 0x80, 0x41,
     0x00, 0xC1, 0x81, 0x40, 0x01, 0xC0, 0x80, 0x41, 0x01, 0xC0, 0x80, 0x41, 0x00, 0xC1, 0x81, 0x40,
     0x00, 0xC1, 0x81, 0x40, 0x01, 0xC0, 0x80, 0x41, 0x01, 0xC0, 0x80, 0x41, 0x00, 0xC1, 0x81, 0x40,
     0x01, 0xC0, 0x80, 0x41, 0x00, 0xC1, 0x81, 0x40, 0x00, 0xC1, 0x81, 0x40, 0x01, 0xC0, 0x80, 0x41,
     0x01, 0xC0, 0x80, 0x41, 0x00, 0xC1, 0x81, 0x40, 0x00, 0xC1, 0x81, 0x40, 0x01, 0xC0, 0x80, 0x41,
     0x00, 0xC1, 0x81, 0x40, 0x01, 0xC0, 0x80, 0x41, 0x01, 0xC0, 0x80, 0x41, 0x00, 0xC1, 0x81, 0x40,
     0x00, 0xC1, 0x81, 0x40, 0x01, 0xC0, 0x80, 0x41, 0x01, 0xC0, 0x80, 0x41, 0x00, 0xC1, 0x81, 0x40,
     0x01, 0xC0, 0x80, 0x41, 0x00, 0xC1, 0x81, 0x40, 0x00, 0xC1, 0x81, 0x40, 0x01, 0xC0, 0x80, 0x41,
     0x00, 0xC1, 0x81, 0x40, 0x01, 0xC0, 0x80, 0x41, 0x01, 0xC0, 0x80, 0x41, 0x00, 0xC1, 0x81, 0x40,
     0x01, 0xC0, 0x80, 0x41, 0x00, 0xC1, 0x81, 0x40, 0x00, 0xC1, 0x81, 0x40, 0x01, 0xC0, 0x80, 0x41,
     0x01, 0xC0, 0x80, 0x41, 0x00, 0xC1, 0x81, 0x40, 0x00, 0xC1, 0x81, 0x40, 0x01, 0xC0, 0x80, 0x41,
     0x00, 0xC1, 0x81, 0x40, 0x01, 0xC0, 0x80, 0x41, 0x01, 0xC0, 0x80, 0x41, 0x00, 0xC1, 0x81, 0x40]"

definition rtu_table_crc_lo :: "u8 list" where
  "rtu_table_crc_lo =
    [0x00, 0xC0, 0xC1, 0x01, 0xC3, 0x03, 0x02, 0xC2, 0xC6, 0x06, 0x07, 0xC7, 0x05, 0xC5, 0xC4, 0x04,
     0xCC, 0x0C, 0x0D, 0xCD, 0x0F, 0xCF, 0xCE, 0x0E, 0x0A, 0xCA, 0xCB, 0x0B, 0xC9, 0x09, 0x08, 0xC8,
     0xD8, 0x18, 0x19, 0xD9, 0x1B, 0xDB, 0xDA, 0x1A, 0x1E, 0xDE, 0xDF, 0x1F, 0xDD, 0x1D, 0x1C, 0xDC,
     0x14, 0xD4, 0xD5, 0x15, 0xD7, 0x17, 0x16, 0xD6, 0xD2, 0x12, 0x13, 0xD3, 0x11, 0xD1, 0xD0, 0x10,
     0xF0, 0x30, 0x31, 0xF1, 0x33, 0xF3, 0xF2, 0x32, 0x36, 0xF6, 0xF7, 0x37, 0xF5, 0x35, 0x34, 0xF4,
     0x3C, 0xFC, 0xFD, 0x3D, 0xFF, 0x3F, 0x3E, 0xFE, 0xFA, 0x3A, 0x3B, 0xFB, 0x39, 0xF9, 0xF8, 0x38,
     0x28, 0xE8, 0xE9, 0x29, 0xEB, 0x2B, 0x2A, 0xEA, 0xEE, 0x2E, 0x2F, 0xEF, 0x2D, 0xED, 0xEC, 0x2C,
     0xE4, 0x24, 0x25, 0xE5, 0x27, 0xE7, 0xE6, 0x26, 0x22, 0xE2, 0xE3, 0x23, 0xE1, 0x21, 0x20, 0xE0,
     0xA0, 0x60, 0x61, 0xA1, 0x63, 0xA3, 0xA2, 0x62, 0x66, 0xA6, 0xA7, 0x67, 0xA5, 0x65, 0x64, 0xA4,
     0x6C, 0xAC, 0xAD, 0x6D, 0xAF, 0x6F, 0x6E, 0xAE, 0xAA, 0x6A, 0x6B, 0xAB, 0x69, 0xA9, 0xA8, 0x68,
     0x78, 0xB8, 0xB9, 0x79, 0xBB, 0x7B, 0x7A, 0xBA, 0xBE, 0x7E, 0x7F, 0xBF, 0x7D, 0xBD, 0xBC, 0x7C,
     0xB4, 0x74, 0x75, 0xB5, 0x77, 0xB7, 0xB6, 0x76, 0x72, 0xB2, 0xB3, 0x73, 0xB1, 0x71, 0x70, 0xB0,
     0x50, 0x90, 0x91, 0x51, 0x93, 0x53, 0x52, 0x92, 0x96, 0x56, 0x57, 0x97, 0x55, 0x95, 0x94, 0x54,
     0x9C, 0x5C, 0x5D, 0x9D, 0x5F, 0x9F, 0x9E, 0x5E, 0x5A, 0x9A, 0x9B, 0x5B, 0x99, 0x59, 0x58, 0x98,
     0x88, 0x48, 0x49, 0x89, 0x4B, 0x8B, 0x8A, 0x4A, 0x4E, 0x8E, 0x8F, 0x4F, 0x8D, 0x4D, 0x4C, 0x8C,
     0x44, 0x84, 0x85, 0x45, 0x87, 0x47, 0x46, 0x86, 0x82, 0x42, 0x43, 0x83, 0x41, 0x81, 0x80, 0x40]"

definition CRC16_HTab :: "u8 list" where
  "CRC16_HTab =
    [0x00, 0xC1, 0x81, 0x40, 0x01, 0xC0, 0x80, 0x41, 0x01, 0xC0, 0x80, 0x41, 0x00, 0xC1, 0x81, 0x40,
     0x01, 0xC0, 0x80, 0x41, 0x00, 0xC1, 0x81, 0x40, 0x00, 0xC1, 0x81, 0x40, 0x01, 0xC0, 0x80, 0x41,
     0x01, 0xC0, 0x80, 0x41, 0x00, 0xC1, 0x81, 0x40, 0x00, 0xC1, 0x81, 0x40, 0x01, 0xC0, 0x80, 0x41,
     0x00, 0xC1, 0x81, 0x40, 0x01, 0xC0, 0x80, 0x41, 0x01, 0xC0, 0x80, 0x41, 0x00, 0xC1, 0x81, 0x40,
     0x01, 0xC0, 0x80, 0x41, 0x00, 0xC1, 0x81, 0x40, 0x00, 0xC1, 0x81, 0x40, 0x01, 0xC0, 0x80, 0x41,
     0x00, 0xC1, 0x81, 0x40, 0x01, 0xC0, 0x80, 0x41, 0x01, 0xC0, 0x80, 0x41, 0x00, 0xC1, 0x81, 0x40,
     0x00, 0xC1, 0x81, 0x40, 0x01, 0xC0, 0x80, 0x41, 0x01, 0xC0, 0x80, 0x41, 0x00, 0xC1, 0x81, 0x40,
     0x01, 0xC0, 0x80, 0x41, 0x00, 0xC1, 0x81, 0x40, 0x00, 0xC1, 0x81, 0x40, 0x01, 0xC0, 0x80, 0x41,
     0x01, 0xC0, 0x80, 0x41, 0x00, 0xC1, 0x81, 0x40, 0x00, 0xC1, 0x81, 0x40, 0x01, 0xC0, 0x80, 0x41,
     0x00, 0xC1, 0x81, 0x40, 0x01, 0xC0, 0x80, 0x41, 0x01, 0xC0, 0x80, 0x41, 0x00, 0xC1, 0x81, 0x40,
     0x00, 0xC1, 0x81, 0x40, 0x01, 0xC0, 0x80, 0x41, 0x01, 0xC0, 0x80, 0x41, 0x00, 0xC1, 0x81, 0x40,
     0x01, 0xC0, 0x80, 0x41, 0x00, 0xC1, 0x81, 0x40, 0x00, 0xC1, 0x81, 0x40, 0x01, 0xC0, 0x80, 0x41,
     0x00, 0xC1, 0x81, 0x40, 0x01, 0xC0, 0x80, 0x41, 0x01, 0xC0, 0x80, 0x41, 0x00, 0xC1, 0x81, 0x40,
     0x01, 0xC0, 0x80, 0x41, 0x00, 0xC1, 0x81, 0x40, 0x00, 0xC1, 0x81, 0x40, 0x01, 0xC0, 0x80, 0x41,
     0x01, 0xC0, 0x80, 0x41, 0x00, 0xC1, 0x81, 0x40, 0x00, 0xC1, 0x81, 0x40, 0x01, 0xC0, 0x80, 0x41,
     0x00, 0xC1, 0x81, 0x40, 0x01, 0xC0, 0x80, 0x41, 0x01, 0xC0, 0x80, 0x41, 0x00, 0xC1, 0x81, 0x40]"

definition CRC16_LTab :: "u8 list" where
  "CRC16_LTab =
    [0x00, 0xC0, 0xC1, 0x01, 0xC3, 0x03, 0x02, 0xC2, 0xC6, 0x06, 0x07, 0xC7, 0x05, 0xC5, 0xC4, 0x04,
     0xCC, 0x0C, 0x0D, 0xCD, 0x0F, 0xCF, 0xCE, 0x0E, 0x0A, 0xCA, 0xCB, 0x0B, 0xC9, 0x09, 0x08, 0xC8,
     0xD8, 0x18, 0x19, 0xD9, 0x1B, 0xDB, 0xDA, 0x1A, 0x1E, 0xDE, 0xDF, 0x1F, 0xDD, 0x1D, 0x1C, 0xDC,
     0x14, 0xD4, 0xD5, 0x15, 0xD7, 0x17, 0x16, 0xD6, 0xD2, 0x12, 0x13, 0xD3, 0x11, 0xD1, 0xD0, 0x10,
     0xF0, 0x30, 0x31, 0xF1, 0x33, 0xF3, 0xF2, 0x32, 0x36, 0xF6, 0xF7, 0x37, 0xF5, 0x35, 0x34, 0xF4,
     0x3C, 0xFC, 0xFD, 0x3D, 0xFF, 0x3F, 0x3E, 0xFE, 0xFA, 0x3A, 0x3B, 0xFB, 0x39, 0xF9, 0xF8, 0x38,
     0x28, 0xE8, 0xE9, 0x29, 0xEB, 0x2B, 0x2A, 0xEA, 0xEE, 0x2E, 0x2F, 0xEF, 0x2D, 0xED, 0xEC, 0x2C,
     0xE4, 0x24, 0x25, 0xE5, 0x27, 0xE7, 0xE6, 0x26, 0x22, 0xE2, 0xE3, 0x23, 0xE1, 0x21, 0x20, 0xE0,
     0xA0, 0x60, 0x61, 0xA1, 0x63, 0xA3, 0xA2, 0x62, 0x66, 0xA6, 0xA7, 0x67, 0xA5, 0x65, 0x64, 0xA4,
     0x6C, 0xAC, 0xAD, 0x6D, 0xAF, 0x6F, 0x6E, 0xAE, 0xAA, 0x6A, 0x6B, 0xAB, 0x69, 0xA9, 0xA8, 0x68,
     0x78, 0xB8, 0xB9, 0x79, 0xBB, 0x7B, 0x7A, 0xBA, 0xBE, 0x7E, 0x7F, 0xBF, 0x7D, 0xBD, 0xBC, 0x7C,
     0xB4, 0x74, 0x75, 0xB5, 0x77, 0xB7, 0xB6, 0x76, 0x72, 0xB2, 0xB3, 0x73, 0xB1, 0x71, 0x70, 0xB0,
     0x50, 0x90, 0x91, 0x51, 0x93, 0x53, 0x52, 0x92, 0x96, 0x56, 0x57, 0x97, 0x55, 0x95, 0x94, 0x54,
     0x9C, 0x5C, 0x5D, 0x9D, 0x5F, 0x9F, 0x9E, 0x5E, 0x5A, 0x9A, 0x9B, 0x5B, 0x99, 0x59, 0x58, 0x98,
     0x88, 0x48, 0x49, 0x89, 0x4B, 0x8B, 0x8A, 0x4A, 0x4E, 0x8E, 0x8F, 0x4F, 0x8D, 0x4D, 0x4C, 0x8C,
     0x44, 0x84, 0x85, 0x45, 0x87, 0x47, 0x46, 0x86, 0x82, 0x42, 0x43, 0x83, 0x41, 0x81, 0x80, 0x40]"

section \<open>The table-driven routines\<close>

text \<open>
  \<open>crc16 buf\<close> is the call \<open>crc16(buffer, buffer_length)\<close> where \<open>buf\<close> lists the first
  \<open>buffer_length\<close> bytes. The two registers \<open>crc_hi\<close> and \<open>crc_lo\<close> are carried along the buffer;
  an index is the exclusive or of two bytes, so it is below 256, the length of each table.
\<close>

fun crc16_loop :: "u8 \<Rightarrow> u8 \<Rightarrow> u8 list \<Rightarrow> u8 \<times> u8" where
  "crc16_loop crc_hi crc_lo [] = (crc_hi, crc_lo)"
| "crc16_loop crc_hi crc_lo (b # buffer) =
     (let i = unat (crc_hi XOR b)
      in crc16_loop (crc_lo XOR table_crc_hi ! i) (table_crc_lo ! i) buffer)"

definition crc16 :: "u8 list \<Rightarrow> u16" where
  "crc16 buffer = (case crc16_loop 0xFF 0xFF buffer of (crc_hi, crc_lo) \<Rightarrow> be16 crc_hi crc_lo)"

fun rtu_crc16_loop :: "u8 \<Rightarrow> u8 \<Rightarrow> u8 list \<Rightarrow> u8 \<times> u8" where
  "rtu_crc16_loop crc_hi crc_lo [] = (crc_hi, crc_lo)"
| "rtu_crc16_loop crc_hi crc_lo (b # buffer) =
     (let i = unat (crc_hi XOR b)
      in rtu_crc16_loop (crc_lo XOR rtu_table_crc_hi ! i) (rtu_table_crc_lo ! i) buffer)"

definition agile_modbus_rtu_crc16 :: "u8 list \<Rightarrow> u16" where
  "agile_modbus_rtu_crc16 buffer =
     (case rtu_crc16_loop 0xFF 0xFF buffer of (crc_hi, crc_lo) \<Rightarrow> be16 crc_hi crc_lo)"

text \<open>\<open>crc16_modbus\<close> names the registers the other way round: \<open>uchCRCLo\<close> indexes the tables.\<close>

fun crc16_modbus_loop :: "u8 \<Rightarrow> u8 \<Rightarrow> u8 list \<Rightarrow> u8 \<times> u8" where
  "crc16_modbus_loop uchCRCHi uchCRCLo [] = (uchCRCHi, uchCRCLo)"
| "crc16_modbus_loop uchCRCHi uchCRCLo (b # message) =
     (let uIndex = unat (uchCRCLo XOR b)
      in crc16_modbus_loop (CRC16_LTab ! uIndex) (uchCRCHi XOR CRC16_HTab ! uIndex) message)"

definition crc16_modbus :: "u8 list \<Rightarrow> u16" where
  "crc16_modbus message = (case crc16_modbus_loop 0xFF 0xFF message of
     (uchCRCHi, uchCRCLo) \<Rightarrow> be16 uchCRCHi uchCRCLo)"

text \<open>\<open>crc4_itu\<close>: eight shifts per byte on a BYTE register that starts at 0.\<close>

definition crc4_bit :: "u8 \<Rightarrow> u8" where
  "crc4_bit crc = (if crc AND 0x01 \<noteq> 0 then drop_bit 1 crc XOR 0x0C else drop_bit 1 crc)"

fun crc4_loop :: "u8 \<Rightarrow> u8 list \<Rightarrow> u8" where
  "crc4_loop crc [] = crc"
| "crc4_loop crc (b # message) = crc4_loop ((crc4_bit ^^ 8) (crc XOR b)) message"

definition crc4_itu :: "u8 list \<Rightarrow> u8" where
  "crc4_itu message = crc4_loop 0 message"

section \<open>The reference: a shift register\<close>

text \<open>
  The Modbus CRC-16 as its definition gives it: a 16-bit register, started at all ones, fed a byte
  at a time, least significant bit first, with the reflected polynomial \<open>0xA001\<close>.
\<close>

definition crc_bit :: "u16 \<Rightarrow> u16" where
  "crc_bit r = (if bit r 0 then drop_bit 1 r XOR 0xA001 else drop_bit 1 r)"

definition crc_byte :: "u16 \<Rightarrow> u8 \<Rightarrow> u16" where
  "crc_byte r b = (crc_bit ^^ 8) (r XOR ucast b)"

definition crc_reg :: "u8 list \<Rightarrow> u16" where
  "crc_reg bs = foldl crc_byte 0xFFFF bs"

lemma length_tables [simp]:
  "length table_crc_hi = 256" "length table_crc_lo = 256"
  "length rtu_table_crc_hi = 256" "length rtu_table_crc_lo = 256"
  "length CRC16_HTab = 256" "length CRC16_LTab = 256"
  by (simp_all add: table_crc_hi_def table_crc_lo_def rtu_table_crc_hi_def rtu_table_crc_lo_def
      CRC16_HTab_def CRC16_LTab_def)

lemma rtu_tables: "rtu_table_crc_hi = table_crc_hi" "rtu_table_crc_lo = table_crc_lo"
  by (simp_all only: table_crc_hi_def table_crc_lo_def rtu_table_crc_hi_def rtu_table_crc_lo_def)

lemma lms_tables: "CRC16_HTab = table_crc_hi" "CRC16_LTab = table_crc_lo"
  by (simp_all only: table_crc_hi_def table_crc_lo_def CRC16_HTab_def CRC16_LTab_def)

subsection \<open>The register is linear and every step of it is invertible\<close>

lemma crc_bit_xor: "crc_bit (x XOR y) = crc_bit x XOR crc_bit y"
  by (simp add: crc_bit_def bit_xor_iff drop_bit_xor xor.assoc xor.left_commute xor.commute)

lemma crc_bits_xor: "(crc_bit ^^ n) (x XOR y) = (crc_bit ^^ n) x XOR (crc_bit ^^ n) y"
  by (induction n) (simp_all add: crc_bit_xor)

lemma crc_bit_0 [simp]: "crc_bit 0 = 0"
  by (simp add: crc_bit_def)

lemma crc_bits_0 [simp]: "(crc_bit ^^ n) 0 = 0"
  by (induction n) simp_all

lemma crc_bit_eq_0: "crc_bit x = 0 \<longleftrightarrow> x = 0"
proof
  assume z: "crc_bit x = 0"
  have "\<not> bit (crc_bit x) 15" by (simp add: z)
  then have b0: "\<not> bit x 0"
    by (auto simp: crc_bit_def bit_simps split: if_splits dest: bit_imp_le_length)
  show "x = 0"
  proof (rule bit_word_eqI)
    fix n
    have "\<not> bit (crc_bit x) m" for m by (simp add: z)
    with b0 have "\<not> bit x (Suc m)" for m
      by (simp add: crc_bit_def bit_drop_bit_eq)
    with b0 show "bit x n = bit 0 n" by (cases n) auto
  qed
qed simp

lemma crc_bits_inject: "(crc_bit ^^ n) x = (crc_bit ^^ n) y \<longleftrightarrow> x = y"
proof -
  have "(crc_bit ^^ n) z = 0 \<longleftrightarrow> z = 0" for z
    by (induction n) (simp_all add: crc_bit_eq_0)
  from this [of "x XOR y"] show ?thesis
    by (simp add: crc_bits_xor)
qed

lemma crc_bits_shift: "(\<And>i. i < n \<Longrightarrow> \<not> bit w i) \<Longrightarrow> (crc_bit ^^ n) w = drop_bit n w"
proof (induction n arbitrary: w)
  case (Suc n)
  from Suc.prems [of 0] have "crc_bit w = drop_bit 1 w" by (simp add: crc_bit_def)
  moreover have "(crc_bit ^^ n) (drop_bit 1 w) = drop_bit n (drop_bit 1 w)"
    by (rule Suc.IH) (use Suc.prems in \<open>simp add: bit_drop_bit_eq\<close>)
  ultimately show ?case by (simp add: funpow_swap1)
qed simp

text \<open>One byte: the low half of the register indexes a table, the high half is shifted down.\<close>

definition crc_tab :: "u8 \<Rightarrow> u16" where
  "crc_tab x = (crc_bit ^^ 8) (ucast x)"

lemma u16_split: "(w :: u16) = ucast (lo_byte w) XOR push_bit 8 (ucast (hi_byte w))"
  by (rule bit_word_eqI) (auto simp: bit_simps bit_lo_byte bit_hi_byte)

lemma crc_byte_tab: "crc_byte r b = ucast (hi_byte r) XOR crc_tab (lo_byte r XOR b)"
proof -
  have r: "r XOR ucast b = push_bit 8 (ucast (hi_byte r)) XOR ucast (lo_byte r XOR b)"
    by (subst u16_split [of r]) (simp add: unsigned_xor_eq xor.assoc xor.left_commute xor.commute)
  have "(crc_bit ^^ 8) (push_bit 8 (ucast (hi_byte r))) = drop_bit 8 (push_bit 8 (ucast (hi_byte r)))"
    by (rule crc_bits_shift) (simp add: bit_push_bit_iff)
  also have "\<dots> = ucast (hi_byte r)"
    by (rule bit_word_eqI) (auto simp: bit_simps bit_hi_byte)
  finally show ?thesis
    by (simp add: crc_byte_def r crc_bits_xor crc_tab_def)
qed

lemma crc_byte_inject_reg: "crc_byte r b = crc_byte s b \<longleftrightarrow> r = s"
  by (simp add: crc_byte_def crc_bits_inject)

lemma crc_byte_inject_byte: "crc_byte r b = crc_byte r c \<longleftrightarrow> b = c"
  by (simp add: crc_byte_def crc_bits_inject)

lemma crc_reg_append: "foldl crc_byte r (xs @ ys) = foldl crc_byte (foldl crc_byte r xs) ys"
  by simp

lemma foldl_crc_byte_inject: "foldl crc_byte r bs = foldl crc_byte s bs \<longleftrightarrow> r = s"
  by (induction bs arbitrary: r s) (simp_all add: crc_byte_inject_reg)

subsection \<open>The tables hold the eight shifts of each byte\<close>

definition crc_shift8 :: "u16 \<Rightarrow> u16" where
  "crc_shift8 r = crc_bit (crc_bit (crc_bit (crc_bit (crc_bit (crc_bit (crc_bit (crc_bit r)))))))"

lemma crc_bits_8: "(crc_bit ^^ 8) r = crc_shift8 r"
  by (simp add: crc_shift8_def eval_nat_numeral)

lemma crc_bit_and:
  "crc_bit r = (if r AND 1 = 0 then drop_bit 1 r else drop_bit 1 r XOR 0xA001)"
  by (simp add: crc_bit_def bit_0 and_one_eq odd_iff_mod_2_eq_one)

lemma crc_bit_eval:
  "crc_bit 1 = 0xA001"
  "crc_bit (numeral n) = (if numeral n AND (1 :: u16) = 0 then drop_bit 1 (numeral n)
                          else drop_bit 1 (numeral n) XOR 0xA001)"
  by (simp add: crc_bit_and) (rule crc_bit_and)

lemma tables_shift8:
  "map (\<lambda>b. crc_shift8 (ucast b)) all_bytes = map2 be16 table_crc_lo table_crc_hi"
  by (simp add: all_bytes_def crc_shift8_def crc_bit_eval table_crc_lo_def table_crc_hi_def
      be16_def)

lemma crc_tab_table: "crc_tab b = be16 (table_crc_lo ! unat b) (table_crc_hi ! unat b)"
  using map_all_bytes_eq [OF tables_shift8, of b] by (simp add: crc_tab_def crc_bits_8)

lemma crc_byte_be16:
  "crc_byte (be16 h l) b =
     be16 (table_crc_lo ! unat (l XOR b)) (h XOR table_crc_hi ! unat (l XOR b))"
proof -
  have "ucast h XOR be16 u v = be16 u (h XOR v)" for u v
    by (rule bit_word_eqI) (auto simp: bit_be16 bit_simps dest: bit_imp_le_length)
  then show ?thesis by (simp add: crc_byte_tab crc_tab_table)
qed

section \<open>The routines compute the register\<close>

lemma crc16_loop_reg:
  "crc16_loop h l bs = (h', l') \<Longrightarrow> be16 l' h' = foldl crc_byte (be16 l h) bs"
  by (induction h l bs rule: crc16_loop.induct) (auto simp: Let_def crc_byte_be16)

lemma rtu_crc16_loop_eq: "rtu_crc16_loop h l bs = crc16_loop h l bs"
  by (induction h l bs rule: rtu_crc16_loop.induct) (simp_all add: rtu_tables)

lemma crc16_modbus_loop_eq:
  "crc16_modbus_loop h l bs = prod.swap (crc16_loop l h bs)"
  by (induction h l bs rule: crc16_modbus_loop.induct) (simp_all add: lms_tables Let_def)

lemma be16_FF: "be16 0xFF 0xFF = 0xFFFF"
  by (simp add: be16_def)

lemma crc16_eq_reg: "crc16 bs = be16 (lo_byte (crc_reg bs)) (hi_byte (crc_reg bs))"
proof (cases "crc16_loop 0xFF 0xFF bs")
  case (Pair h l)
  then have "be16 l h = crc_reg bs"
    by (simp add: crc16_loop_reg crc_reg_def be16_FF)
  then show ?thesis by (simp add: crc16_def Pair be16_eq_iff)
qed

lemma rtu_crc16_eq: "agile_modbus_rtu_crc16 bs = crc16 bs"
  by (simp add: agile_modbus_rtu_crc16_def crc16_def rtu_crc16_loop_eq)

lemma crc16_modbus_eq_reg: "crc16_modbus bs = crc_reg bs"
proof (cases "crc16_loop 0xFF 0xFF bs")
  case (Pair h l)
  then have "be16 l h = crc_reg bs"
    by (simp add: crc16_loop_reg crc_reg_def be16_FF)
  then show ?thesis by (simp add: crc16_modbus_def crc16_modbus_loop_eq Pair)
qed

lemma hi_byte_crc16: "hi_byte (crc16 bs) = lo_byte (crc_reg bs)"
  and lo_byte_crc16: "lo_byte (crc16 bs) = hi_byte (crc_reg bs)"
  by (simp_all add: crc16_eq_reg)

lemma crc16_inject: "crc16 xs = crc16 ys \<longleftrightarrow> crc_reg xs = crc_reg ys"
  by (metis crc16_eq_reg hi_byte_crc16 lo_byte_crc16 be16_split)

section \<open>Residue and error detection\<close>

lemma crc_byte_own_low: "crc_byte r (lo_byte r) = ucast (hi_byte r)"
  by (simp add: crc_byte_tab crc_tab_def)

lemma crc_byte_ucast: "crc_byte (ucast h) h = 0"
  by (simp add: crc_byte_def)

lemma crc_reg_residue: "crc_reg (bs @ [lo_byte (crc_reg bs), hi_byte (crc_reg bs)]) = 0"
  unfolding crc_reg_def by (simp add: crc_byte_own_low crc_byte_ucast)

lemma crc_byte_two: 
  "crc_byte (crc_byte r b) c = (crc_bit ^^ 16) (r XOR be16 c b)"
proof -
  have 16: "(crc_bit ^^ 16) w = (crc_bit ^^ 8) ((crc_bit ^^ 8) w)" for w
    by (simp flip: funpow_add [THEN fun_cong, unfolded o_def])
  have c: "(crc_bit ^^ 8) (push_bit 8 (ucast c)) = ucast c"
  proof -
    have "(crc_bit ^^ 8) (push_bit 8 (ucast c)) = drop_bit 8 (push_bit 8 (ucast c) :: u16)"
      by (rule crc_bits_shift) (simp add: bit_push_bit_iff)
    also have "\<dots> = ucast c" by (rule bit_word_eqI) (auto simp: bit_simps dest: bit_imp_le_length)
    finally show ?thesis .
  qed
  have "be16 c b = ucast b XOR push_bit 8 (ucast c)"
    by (rule bit_word_eqI) (auto simp: bit_be16 bit_simps dest: bit_imp_le_length)
  then have "(crc_bit ^^ 8) (r XOR be16 c b) = crc_byte r b XOR ucast c"
    by (simp add: crc_byte_def crc_bits_xor c flip: xor.assoc)
  then show ?thesis by (simp add: 16 crc_byte_def)
qed

lemma crc_reg_two_bytes:
  "crc_reg (xs @ [b, c] @ ys) = crc_reg (xs @ [b', c'] @ ys) \<longleftrightarrow> b = b' \<and> c = c'"
  by (auto simp: crc_reg_def foldl_crc_byte_inject crc_byte_two crc_bits_inject)

section \<open>CRC-4\<close>

lemma crc4_bit_xor: "crc4_bit (x XOR y) = crc4_bit x XOR crc4_bit y"
proof -
  have "crc4_bit z = (if bit z 0 then drop_bit 1 z XOR 0x0C else drop_bit 1 z)" for z
    by (simp add: crc4_bit_def bit_0 and_one_eq odd_iff_mod_2_eq_one)
  then show ?thesis
    by (simp add: bit_xor_iff drop_bit_xor xor.assoc xor.left_commute xor.commute)
qed

lemma crc4_bits_xor: "(crc4_bit ^^ n) (x XOR y) = (crc4_bit ^^ n) x XOR (crc4_bit ^^ n) y"
  by (induction n) (simp_all add: crc4_bit_xor)

lemma crc4_bits_0 [simp]: "(crc4_bit ^^ n) 0 = 0"
  by (induction n) (simp_all add: crc4_bit_def)

lemma crc4_bit_high: "4 \<le> n \<Longrightarrow> bit (crc4_bit x) n \<longleftrightarrow> bit x (Suc n)"
proof -
  assume n: "4 \<le> n"
  have "\<not> bit (0x0C :: u8) n"
  proof
    assume "bit (0x0C :: u8) n"
    then have "n < 8" using bit_imp_le_length by fastforce
    with n have "n = 4 \<or> n = 5 \<or> n = 6 \<or> n = 7" by auto
    with \<open>bit (0x0C :: u8) n\<close> show False by auto
  qed
  then show ?thesis by (simp add: crc4_bit_def bit_simps)
qed

lemma crc4_bits_high: "4 \<le> n \<Longrightarrow> bit ((crc4_bit ^^ k) x) n \<longleftrightarrow> bit x (n + k)"
  by (induction k arbitrary: n) (simp_all add: crc4_bit_high)

lemma crc4_loop_append: "crc4_loop c (xs @ ys) = crc4_loop (crc4_loop c xs) ys"
  by (induction c xs rule: crc4_loop.induct) simp_all

lemma crc4_loop_high: "xs \<noteq> [] \<Longrightarrow> 4 \<le> n \<Longrightarrow> \<not> bit (crc4_loop c xs) n"
proof (induction xs rule: rev_induct)
  case (snoc b xs)
  have "\<not> bit (crc4_loop c xs XOR b) (n + 8)"
    by (auto dest: bit_imp_le_length)
  with snoc.prems show ?case by (simp add: crc4_loop_append crc4_bits_high)
qed simp

lemma crc4_itu_high: "4 \<le> n \<Longrightarrow> \<not> bit (crc4_itu xs) n"
  by (cases "xs = []") (simp_all add: crc4_itu_def crc4_loop_high)

lemma crc4_itu_bit: "bit (crc4_itu xs) n \<Longrightarrow> n < 4"
  using crc4_itu_high [of n xs] by (auto simp: not_le [symmetric])

lemma crc4_itu_nibble: "crc4_itu xs AND 0x0F = crc4_itu xs"
proof -
  have m: "(0x0F :: u8) = mask 4" by (simp add: mask_eq_exp_minus_1)
  show ?thesis
    unfolding m by (rule bit_word_eqI) (auto simp: bit_simps dest: crc4_itu_bit)
qed

lemma crc4_itu_residue: "crc4_itu (xs @ [crc4_itu xs]) = 0"
  by (simp add: crc4_itu_def crc4_loop_append)

lemma crc4_loop_xor:
  "length xs = length ys \<Longrightarrow>
   crc4_loop (c XOR d) (map2 (XOR) xs ys) = crc4_loop c xs XOR crc4_loop d ys"
proof (induction xs ys arbitrary: c d rule: list_induct2)
  case (Cons x xs y ys)
  have "crc4_loop (c XOR d) (map2 (XOR) (x # xs) (y # ys)) =
      crc4_loop ((crc4_bit ^^ 8) (c XOR x) XOR (crc4_bit ^^ 8) (d XOR y)) (map2 (XOR) xs ys)"
    by (simp add: crc4_bits_xor xor.assoc xor.left_commute xor.commute)
  then show ?case by (simp only: Cons.IH crc4_loop.simps)
qed simp

lemma crc4_itu_xor:
  "length xs = length ys \<Longrightarrow> crc4_itu (map2 (XOR) xs ys) = crc4_itu xs XOR crc4_itu ys"
  using crc4_loop_xor [of xs ys 0 0] by (simp add: crc4_itu_def)

section \<open>Properties\<close>

text \<open>C6: The three table-driven CRC routines of the repository compute one function, the bitwise
  Modbus CRC-16; \<open>crc16\<close> and its copy in the Modbus library return its bytes swapped.\<close>

theorem crc_routines_agree:
  "crc16_modbus msg = crc_reg msg \<and> agile_modbus_rtu_crc16 msg = crc16 msg \<and>
   crc16 msg = be16 (lo_byte (crc_reg msg)) (hi_byte (crc_reg msg))"
  by (simp add: crc16_modbus_eq_reg rtu_crc16_eq crc16_eq_reg)

text \<open>A message followed by its CRC bytes checks to zero, and two messages that differ only within
  two neighbouring bytes never have the same CRC.\<close>

lemma crc16_detects:
  "crc16_modbus (msg @ [hi_byte (crc16 msg), lo_byte (crc16 msg)]) = 0 \<and>
   (crc16 (xs @ [b, c] @ ys) = crc16 (xs @ [b', c'] @ ys) \<longleftrightarrow> b = b' \<and> c = c')"
proof -
  have "crc16 (xs @ [b, c] @ ys) = crc16 (xs @ [b', c'] @ ys) \<longleftrightarrow> b = b' \<and> c = c'"
    unfolding crc16_inject by (rule crc_reg_two_bytes)
  then show ?thesis
    by (simp add: crc16_modbus_eq_reg hi_byte_crc16 lo_byte_crc16 crc_reg_residue)
qed

section \<open>The default program blocks\<close>

text \<open>The two parameter blocks of \<open>lms.c\<close>, each with its stored Modbus CRC in the last two bytes.\<close>

definition RxProgBlock0 :: "u8 list" where
  "RxProgBlock0 = [0x10, 1, 0, 4, 0, 7, 0, 5, 0, 0x05, 0x5c]"

definition RxProgBlock1 :: "u8 list" where
  "RxProgBlock1 = [0x40, 0x01, 0x01, 42, 40, 0x13, 0xff, 0x07, 0x6f, 0xa2]"

lemma crc_byte_shift8: "crc_byte r b = crc_shift8 (r XOR ucast b)"
  by (simp add: crc_byte_def crc_shift8_def eval_nat_numeral)

lemmas crc_reg_eval = crc_reg_def crc_byte_shift8 crc_shift8_def crc_bit_eval

text \<open>The stored CRC of the first default program block is right; that of the second is not: its
  check value is 0x3A9B, so \<open>crc16_modbus\<close> would reject the block.\<close>

lemma prog_blocks_crc:
  "crc16_modbus RxProgBlock0 = 0 \<and> crc16_modbus RxProgBlock1 = 0x3A9B \<and>
   crc16_modbus (take 8 RxProgBlock1 @ [0xB4, 0xBB]) = 0"
  by (simp add: crc16_modbus_eq_reg RxProgBlock0_def RxProgBlock1_def crc_reg_eval)

end
