(* ===== verification/LmsFrame.thy ===== *)
theory LmsFrame
  imports Crc
begin

text \<open>
  Frame coding of the lamp monitoring bus (\<open>applications/lms.c\<close>): the Hamming (7,4) sync frame
  that opens every message (\<open>GenSyncFrame\<close>, the computed variant \<open>Cal_GenSyncFrame\<close> and the
  decoder \<open>DeSyncFrame\<close>) and the two-byte body of a lamp command protected by \<open>crc4_itu\<close>.
\<close>

section \<open>Constants\<close>

definition SHORT_CMD :: u8 where "SHORT_CMD = 0x00"
definition LONG_CMD :: u8 where "LONG_CMD = 0x01"

definition OpenLamp_Order :: u8 where "OpenLamp_Order = 0x02"
definition CloseLamp_Order :: u8 where "CloseLamp_Order = 0x03"

definition TxSyncFrame :: "u8 list" where
  "TxSyncFrame =
    [0x00, 0x0b,
     0x15, 0x1e,
     0x26, 0x2d,
     0x33, 0x38,
     0x47, 0x4c,
     0x52, 0x59,
     0x61, 0x6a,
     0x74, 0x7f]"

definition Errorpattern :: "u8 list" where
  "Errorpattern = [0x00, 0x01, 0x02, 0x04, 0x03, 0x05, 0x06, 0x07]"

lemmas lms_consts = SHORT_CMD_def LONG_CMD_def OpenLamp_Order_def CloseLamp_Order_def

section \<open>Sync frames\<close>

text \<open>
  The index \<open>(byGroupNo << 1) | IDType\<close> is an \<open>int\<close>: the BYTE arguments are promoted before the
  shift, so a group of 8 or more indexes past the 16 entries of the table.
\<close>

definition sync_index :: "u8 \<Rightarrow> u8 \<Rightarrow> nat" where
  "sync_index byGroupNo IDType = or (2 * unat byGroupNo) (unat IDType)"

definition GenSyncFrame :: "u8 \<Rightarrow> u8 \<Rightarrow> u8 option" where
  "GenSyncFrame byGroupNo IDType = rd TxSyncFrame (sync_index byGroupNo IDType)"

text \<open>
  \<open>Cal_GenSyncFrame\<close> computes the check bits. All its intermediate values fit a BYTE or are masked,
  so the word shifts are the C shifts followed by the conversion to BYTE.
\<close>

definition Cal_GenSyncFrame :: "u8 \<Rightarrow> u8 \<Rightarrow> u8" where
  "Cal_GenSyncFrame byGroupNo IDType =
    (let SyncFrame = push_bit 1 byGroupNo OR IDType;
         c2 = (drop_bit 1 SyncFrame AND 0x04) XOR (SyncFrame AND 0x04) XOR (push_bit 1 SyncFrame AND 0x04);
         c1 = (drop_bit 2 SyncFrame AND 0x02) XOR (drop_bit 1 SyncFrame AND 0x02) XOR (push_bit 1 SyncFrame AND 0x02);
         c0 = (drop_bit 3 SyncFrame AND 0x01) XOR (drop_bit 1 SyncFrame AND 0x01) XOR (SyncFrame AND 0x01)
     in push_bit 3 SyncFrame OR c0 OR c1 OR c2)"

text \<open>
  The decoder. \<open>syndrome\<close> is the value \<open>s2|s1|s0\<close>; the payload of a codeword is
  \<open>ID 0 0 0 0 g2 g1 g0\<close>. The loop of the code counts the table entries equal to the corrected frame.
\<close>

definition syndrome :: "u8 \<Rightarrow> u8" where
  "syndrome RxSyncFrame =
    (let s2 = (drop_bit 4 RxSyncFrame AND 0x04) XOR (drop_bit 3 RxSyncFrame AND 0x04)
                XOR (drop_bit 2 RxSyncFrame AND 0x04) XOR (RxSyncFrame AND 0x04);
         s1 = (drop_bit 5 RxSyncFrame AND 0x02) XOR (drop_bit 4 RxSyncFrame AND 0x02)
                XOR (drop_bit 2 RxSyncFrame AND 0x02) XOR (RxSyncFrame AND 0x02);
         s0 = (drop_bit 6 RxSyncFrame AND 0x01) XOR (drop_bit 4 RxSyncFrame AND 0x01)
                XOR (drop_bit 3 RxSyncFrame AND 0x01) XOR (RxSyncFrame AND 0x01)
     in s2 OR s1 OR s0)"

definition sync_payload :: "u8 \<Rightarrow> u8" where
  "sync_payload RxSyncFrame =
     (drop_bit 4 RxSyncFrame AND 0x07) OR (push_bit 4 RxSyncFrame AND 0x80)"

definition DeSyncFrame :: "u8 \<Rightarrow> u8 option" where
  "DeSyncFrame byValue = do {
     let RxSyncFrame = byValue AND 0x7f;
     ErrorBitLocation \<leftarrow> rd Errorpattern (unat (syndrome RxSyncFrame));
     if ErrorBitLocation = 0x00 then Some (sync_payload RxSyncFrame)
     else do {
       let RxSyncFrame = RxSyncFrame XOR push_bit (unat ErrorBitLocation - 1) 1;
       let s0 = length (filter (\<lambda>f. f = RxSyncFrame) TxSyncFrame);
       if s0 = 1 then Some (sync_payload RxSyncFrame OR 0x40) else Some 0xf0
     }
   }"

section \<open>Lamp commands\<close>

text \<open>
  The body of a long frame as \<open>build_ctrl_cmd\<close> (\<open>lmsuart.c\<close>) fills it and the acceptance test that the
  comment at \<open>crc4_itu\<close> prescribes to the receiver: the CRC-4 over segment, order and received check
  nibble is 0.
\<close>

definition ls_ctl :: "u8 \<Rightarrow> u8 \<Rightarrow> u8" where
  "ls_ctl seg_id cmd = crc4_itu [seg_id, push_bit 4 cmd] OR push_bit 4 cmd"

definition ls_accept :: "u8 \<Rightarrow> u8 \<Rightarrow> bool" where
  "ls_accept seg ctl \<longleftrightarrow> crc4_itu [seg, ctl AND 0xF0, ctl AND 0x0F] = 0"

section \<open>Lemmas\<close>

lemma u8_below_upt:
  assumes "(x :: u8) < of_nat n" "n < 256" shows "x \<in> set (map of_nat [0..<n])"
proof -
  have "unat x < n" using assms by (simp add: word_less_nat_alt unat_of_nat)
  then show ?thesis
    unfolding set_map set_upt by (intro image_eqI [of _ _ "unat x"]) simp_all
qed

lemma u8_below8: "g < 8 \<Longrightarrow> g \<in> {0, 1, 2, 3, 4, 5, 6, 7 :: u8}"
  using u8_below_upt [of g 8] by (simp add: upt_rec)

lemma u8_below2: "k < 2 \<Longrightarrow> k \<in> {0, 1 :: u8}"
  using u8_below_upt [of k 2] by (simp add: upt_rec)

lemma GenSyncFrame_Cal:
  assumes "g < 8" "k < 2" shows "GenSyncFrame g k = Some (Cal_GenSyncFrame g k)"
  using u8_below8 [OF assms(1)] u8_below2 [OF assms(2)]
  by (auto simp: GenSyncFrame_def sync_index_def Cal_GenSyncFrame_def TxSyncFrame_def rd_def Let_def)

lemma GenSyncFrame_out:
  assumes "\<not> g < 8" shows "GenSyncFrame g k = None"
proof -
  have "16 \<le> or (2 * unat g) (unat k)" 
  proof -
    have "8 \<le> unat g" using assms by (simp add: word_less_nat_alt)
    then have "16 \<le> 2 * unat g" by simp
    also have "2 * unat g \<le> or (2 * unat g) (unat k)"
      using or_greater_eq [of "int (unat k)" "int (2 * unat g)"] by (simp add: or_nat_def nat_le_iff le_nat_iff)
    finally show ?thesis .
  qed
  then show ?thesis by (simp add: GenSyncFrame_def sync_index_def rd_def TxSyncFrame_def)
qed

text \<open>Decoding, over all 256 received bytes: the code is perfect, so a correction always lands on a codeword.\<close>

lemmas desync_eval = TxSyncFrame_def rd_def DeSyncFrame_def syndrome_def sync_payload_def
  Errorpattern_def GenSyncFrame_def sync_index_def

lemma DeSync_codeword:
  assumes "g < 8" "k < 2" "GenSyncFrame g k = Some f"
  shows "DeSyncFrame f = Some (g OR push_bit 7 k)"
  using u8_below8 [OF assms(1)] u8_below2 [OF assms(2)] assms(3)
  by (elim insertE emptyE) (simp_all add: desync_eval)

text \<open>
  Correction of a flipped bit: the syndrome is linear, 0 on the codewords, and names the position of
  a single error.
\<close>

lemma less8_cases: "(n :: nat) < 8 \<Longrightarrow> n \<in> {0, 1, 2, 3, 4, 5, 6, 7}"
  by auto

lemma syndrome_xor: "syndrome (x XOR y) = syndrome x XOR syndrome y"
proof (rule bit_word_eqI)
  fix n assume "n < LENGTH(8)"
  then have "n \<in> {0, 1, 2, 3, 4, 5, 6, 7}" by (intro less8_cases) simp
  then show "bit (syndrome (x XOR y)) n = bit (syndrome x XOR syndrome y) n"
    by (elim insertE emptyE) (auto simp: syndrome_def Let_def bit_simps)
qed

lemma syndrome_codeword: "list_all (\<lambda>f. syndrome f = 0 \<and> f AND 0x7f = f) TxSyncFrame"
  by (simp add: TxSyncFrame_def syndrome_def)

lemma syndrome_error:
  "list_all (\<lambda>n. unat (syndrome (push_bit n 1)) < 8 \<and> Errorpattern ! unat (syndrome (push_bit n 1)) = of_nat (Suc n)
      \<and> push_bit n 1 AND 0x7f = (push_bit n 1 :: u8)) [0, 1, 2, 3, 4, 5, 6]"
  by (simp add: syndrome_def Errorpattern_def)

lemma syndrome_kernel:
  "list_all (\<lambda>b. syndrome b = 0 \<longrightarrow> b AND 0x7f \<noteq> b \<or> b \<in> set TxSyncFrame) all_bytes"
  by (simp add: all_bytes_def TxSyncFrame_def syndrome_def)

lemma codeword_counted:
  "list_all (\<lambda>f. length (filter (\<lambda>t. t = f) TxSyncFrame) = 1) TxSyncFrame"
  by (simp add: TxSyncFrame_def)

lemma DeSync_step:
  assumes f: "f \<in> set TxSyncFrame" and n: "n < 7" and r: "b AND 0x7f = f XOR push_bit n 1"
  shows "DeSyncFrame b = Some (sync_payload f OR 0x40)"
proof -
  let ?e = "push_bit n 1 :: u8"
  have "n \<in> set [0, 1, 2, 3, 4, 5, 6]" using n by auto
  then have e: "unat (syndrome ?e) < 8" "Errorpattern ! unat (syndrome ?e) = of_nat (Suc n)"
    using syndrome_error by (simp_all only: list_all_iff)
  have "syndrome f = 0" using f syndrome_codeword by (simp add: list_all_iff)
  then have s: "syndrome (f XOR ?e) = syndrome ?e" by (simp add: syndrome_xor)
  have suc: "unat (of_nat (Suc n) :: u8) = Suc n" using n by (simp only: unat_of_nat) simp
  then have "of_nat (Suc n) \<noteq> (0 :: u8)" by (metis Suc_neq_Zero unat_0)
  moreover have "length (filter (\<lambda>t. t = f) TxSyncFrame) = 1"
    using f codeword_counted by (simp add: list_all_iff)
  moreover have "rd Errorpattern (unat (syndrome ?e)) = Some (of_nat (Suc n))"
    using e by (simp add: rd_def) (simp add: Errorpattern_def)
  ultimately show ?thesis
    unfolding DeSyncFrame_def Let_def r s suc
    by (simp only: bind.bind_lunit if_False suc diff_Suc_1 xor.assoc xor_self_eq xor.right_neutral
        if_True refl)
qed

lemma DeSync_clean:
  assumes "f \<in> set TxSyncFrame" "b AND 0x7f = f"
  shows "DeSyncFrame b = Some (sync_payload f)"
proof -
  have "syndrome f = 0" using assms(1) syndrome_codeword by (simp add: list_all_iff)
  then show ?thesis by (simp add: DeSyncFrame_def assms(2) Errorpattern_def)
qed

lemma syndrome_less: "syndrome b < 8"
  by (rule all_bytesI [of "\<lambda>b. syndrome b < 8"]) (simp add: all_bytes_def syndrome_def)

lemma syndrome_located:
  "list_all (\<lambda>s. s = 0 \<or> unat (Errorpattern ! unat s) - 1 < 7 \<and>
      syndrome (push_bit (unat (Errorpattern ! unat s) - 1) 1) = s) [0, 1, 2, 3, 4, 5, 6, 7]"
  by (simp add: Errorpattern_def syndrome_def)

lemma sync_nearest:
  "\<exists>f \<in> set TxSyncFrame. b AND 0x7f = f \<or> (\<exists>n < 7. b AND 0x7f = f XOR push_bit n 1)"
proof (cases "syndrome (b AND 0x7f) = 0")
  case True
  have "(b AND 0x7f) AND 0x7f = b AND 0x7f" by (simp add: and.assoc)
  with True have "b AND 0x7f \<in> set TxSyncFrame"
    using all_bytesI [OF syndrome_kernel, of "b AND 0x7f"] by simp
  then show ?thesis by blast
next
  case False
  define r n where "r = b AND 0x7f" and "n = unat (Errorpattern ! unat (syndrome r)) - 1"
  have "syndrome r \<in> set [0, 1, 2, 3, 4, 5, 6, 7]"
    using u8_below8 [OF syndrome_less [of r]] by simp
  with False have n: "n < 7" "syndrome (push_bit n 1) = syndrome r"
    using syndrome_located unfolding list_all_iff n_def r_def by blast+
  have "n \<in> set [0, 1, 2, 3, 4, 5, 6]" using n(1) by auto
  then have m: "push_bit n 1 AND 0x7f = (push_bit n 1 :: u8)"
    using syndrome_error by (simp only: list_all_iff)
  define f where "f = r XOR push_bit n 1"
  have "f AND 0x7f = f"
  proof -
    have "r AND 0x7f = r" by (simp add: r_def and.assoc)
    then show ?thesis by (simp only: f_def m bit.conj_xor_distrib2)
  qed
  moreover have "syndrome f = 0" by (simp only: f_def syndrome_xor n xor_self_eq)
  ultimately have "f \<in> set TxSyncFrame"
    using all_bytesI [OF syndrome_kernel, of f] by simp
  moreover have "b AND 0x7f = f XOR push_bit n 1" by (simp add: f_def r_def xor.assoc)
  ultimately show ?thesis using n(1) by blast
qed

lemma DeSync_nearest:
  "\<exists>f \<in> set TxSyncFrame.
     b AND 0x7f = f \<and> DeSyncFrame b = Some (sync_payload f) \<or>
     (\<exists>n < 7. b AND 0x7f = f XOR push_bit n 1 \<and> DeSyncFrame b = Some (sync_payload f OR 0x40))"
  using sync_nearest [of b] DeSync_clean [of _ b] DeSync_step [of _ _ b] by blast

lemma sync_payload_clear: "\<not> bit (sync_payload f) 5" "\<not> bit (sync_payload f OR 0x40) 5"
  by (simp_all add: sync_payload_def bit_simps)

lemma DeSync_not_f0: "DeSyncFrame b \<noteq> Some 0xf0"
proof
  assume "DeSyncFrame b = Some 0xf0"
  with DeSync_nearest [of b] obtain f where "0xf0 = sync_payload f \<or> 0xf0 = sync_payload f OR 0x40"
    by auto
  moreover have "bit (0xf0 :: u8) 5" by simp
  ultimately show False using sync_payload_clear [of f] by metis
qed

subsection \<open>Lamp commands\<close>

lemma ls_ctl_high: "ls_ctl seg cmd AND 0xF0 = push_bit 4 cmd"
  and ls_ctl_low: "ls_ctl seg cmd AND 0x0F = crc4_itu [seg, push_bit 4 cmd]"
proof -
  show "ls_ctl seg cmd AND 0xF0 = push_bit 4 cmd"
    by (rule bit_word_eqI) (auto simp: ls_ctl_def bit_simps bit_nibbles dest: crc4_itu_bit)
  show "ls_ctl seg cmd AND 0x0F = crc4_itu [seg, push_bit 4 cmd]"
    by (rule bit_word_eqI) (auto simp: ls_ctl_def bit_simps bit_nibbles dest: crc4_itu_bit)
qed

lemma ls_accept_ctl: "ls_accept seg (ls_ctl seg cmd)"
  using crc4_itu_residue [of "[seg, push_bit 4 cmd]"]
  by (simp add: ls_accept_def ls_ctl_high ls_ctl_low)

lemma ls_check_xor:
  "crc4_itu [s XOR s', (c XOR c') AND 0xF0, (c XOR c') AND 0x0F] =
   crc4_itu [s, c AND 0xF0, c AND 0x0F] XOR crc4_itu [s', c' AND 0xF0, c' AND 0x0F]"
  using crc4_itu_xor [of "[s, c AND 0xF0, c AND 0x0F]" "[s', c' AND 0xF0, c' AND 0x0F]"]
  by (simp add: bit.conj_xor_distrib2)

lemma ls_accept_xor:
  "ls_accept s c \<Longrightarrow> ls_accept (s XOR s') (c XOR c') \<longleftrightarrow> ls_accept s' c'"
  by (simp add: ls_accept_def ls_check_xor)

lemma crc4_bit_eval:
  "crc4_bit 0 = 0" "crc4_bit 1 = 0x0C"
  "crc4_bit (numeral n) = (if numeral n AND (1 :: u8) = 0 then drop_bit 1 (numeral n)
                           else drop_bit 1 (numeral n) XOR 0x0C)"
  by (simp_all add: crc4_bit_def)

lemma crc4_bits_8:
  "(crc4_bit ^^ 8) r = crc4_bit (crc4_bit (crc4_bit (crc4_bit (crc4_bit (crc4_bit (crc4_bit (crc4_bit r)))))))"
  by (simp add: eval_nat_numeral)

lemma ls_single_bit:
  "list_all (\<lambda>n. \<not> ls_accept (push_bit n 1) 0 \<and> \<not> ls_accept 0 (push_bit n 1)) [0, 1, 2, 3, 4, 5, 6, 7]"
  by (simp add: ls_accept_def crc4_itu_def crc4_bits_8 crc4_bit_eval)

lemma ls_detects:
  assumes "ls_accept s c" "n < 8"
  shows "\<not> ls_accept (s XOR push_bit n 1) c" "\<not> ls_accept s (c XOR push_bit n 1)"
proof -
  have "n \<in> set [0, 1, 2, 3, 4, 5, 6, 7]" using less8_cases [OF assms(2)] by simp
  then have "\<not> ls_accept (push_bit n 1) 0" "\<not> ls_accept 0 (push_bit n 1)"
    using ls_single_bit unfolding list_all_iff by blast+
  then show "\<not> ls_accept (s XOR push_bit n 1) c" "\<not> ls_accept s (c XOR push_bit n 1)"
    using ls_accept_xor [OF assms(1), of "push_bit n 1" 0] ls_accept_xor [OF assms(1), of 0 "push_bit n 1"]
    by simp_all
qed

section \<open>Properties\<close>

text \<open>C5: The sync frame of every group and command type is the computed Hamming code word, decodes to
  the group and the type, and still does, marked as corrected, with any one of its seven bits flipped.\<close>

theorem sync_frame_corrected:
  assumes "g < 8" "k < 2"
  shows "\<exists>f. GenSyncFrame g k = Some f \<and> f = Cal_GenSyncFrame g k \<and>
    DeSyncFrame f = Some (g OR push_bit 7 k) \<and>
    list_all (\<lambda>n. DeSyncFrame (f XOR push_bit n 1) = Some (g OR push_bit 7 k OR 0x40)) [0, 1, 2, 3, 4, 5, 6]"
proof -
  have gen: "GenSyncFrame g k = Some (Cal_GenSyncFrame g k)" by (rule GenSyncFrame_Cal [OF assms])
  have dec: "DeSyncFrame (Cal_GenSyncFrame g k) = Some (g OR push_bit 7 k)"
    by (rule DeSync_codeword [OF assms gen])
  have mem: "Cal_GenSyncFrame g k \<in> set TxSyncFrame"
    using gen unfolding GenSyncFrame_def rd_Some_iff by (auto simp: in_set_conv_nth)
  have low: "Cal_GenSyncFrame g k AND 0x7f = Cal_GenSyncFrame g k"
    using mem syndrome_codeword by (simp add: list_all_iff)
  have pay: "sync_payload (Cal_GenSyncFrame g k) = g OR push_bit 7 k"
    using DeSync_clean [OF mem low] dec by simp
  have "DeSyncFrame (Cal_GenSyncFrame g k XOR push_bit n 1) = Some (g OR push_bit 7 k OR 0x40)"
    if n: "n \<in> set [0, 1, 2, 3, 4, 5, 6]" for n
  proof -
    have "push_bit n 1 AND 0x7f = (push_bit n 1 :: u8)"
      using bspec [OF syndrome_error [unfolded list_all_iff] n] by simp
    then have "(Cal_GenSyncFrame g k XOR push_bit n 1) AND 0x7f = Cal_GenSyncFrame g k XOR push_bit n 1"
      by (simp add: bit.conj_xor_distrib2 low)
    moreover have "n < 7" using n by auto
    ultimately show ?thesis using DeSync_step [OF mem, of n] pay by (simp add: or.assoc)
  qed
  with gen dec show ?thesis unfolding list_all_iff by blast
qed

theorem sync_frame_corrected_witness:
  "\<exists>f. GenSyncFrame 5 LONG_CMD = Some f \<and> DeSyncFrame f = Some 0x85 \<and> DeSyncFrame (f XOR 0x10) = Some 0xC5"
  using sync_frame_corrected [of 5 LONG_CMD] by (auto simp: LONG_CMD_def)

text \<open>\<open>DeSyncFrame\<close> answers on every byte, with the payload of a code word at distance at most one
  from the seven low bits; its \<open>0xf0\<close> result for uncorrectable frames never occurs.\<close>

lemma DeSyncFrame_complete:
  "\<exists>f \<in> set TxSyncFrame. \<exists>v. DeSyncFrame b = Some v \<and> v \<noteq> 0xf0 \<and>
     (b AND 0x7f = f \<and> v = sync_payload f \<or>
      (\<exists>n < 7. b AND 0x7f = f XOR push_bit n 1 \<and> v = sync_payload f OR 0x40))"
  using DeSync_nearest [of b] DeSync_not_f0 [of b] by metis

text \<open>The two-byte body that \<open>build_ctrl_cmd\<close> appends carries the segment and the order and passes
  the CRC-4 check, and no body with a single bit flipped does.\<close>

lemma ls_body_checked:
  "ls_accept seg (ls_ctl seg cmd) \<and> ls_ctl seg cmd AND 0xF0 = push_bit 4 cmd \<and>
   list_all (\<lambda>n. \<not> ls_accept (seg XOR push_bit n 1) (ls_ctl seg cmd) \<and>
                 \<not> ls_accept seg (ls_ctl seg cmd XOR push_bit n 1)) [0, 1, 2, 3, 4, 5, 6, 7]"
proof -
  have "n < 8" if "n \<in> set [0, 1, 2, 3, 4, 5, 6, 7 :: nat]" for n using that by auto
  with ls_detects [OF ls_accept_ctl, of _ seg cmd] show ?thesis
    unfolding list_all_iff by (simp add: ls_accept_ctl ls_ctl_high del: set_simps)
qed

end
