(* ===== verification/BoundedQueue.thy ===== *)
theory BoundedQueue
  imports Main
begin

text \<open>
  The contract between a mailbox and the code that posts to it: a first-in first-out queue of a
  fixed capacity whose \<open>put\<close> drops the item when the queue is full (the callers of \<open>rt_mb_send\<close>
  ignore its error code) and whose \<open>get\<close> fails on an empty queue. Clients reason about posting a
  list of items and about draining a queue from the laws alone.
\<close>

locale bounded_queue =
  fixes inv :: "'q \<Rightarrow> bool" and items :: "'q \<Rightarrow> 'a list" and cap :: "'q \<Rightarrow> nat"
    and put :: "'q \<Rightarrow> 'a \<Rightarrow> 'q" and get :: "'q \<Rightarrow> ('a \<times> 'q) option"
  assumes items_cap: "inv q \<Longrightarrow> length (items q) \<le> cap q"
    and inv_put: "inv q \<Longrightarrow> inv (put q x)"
    and cap_put: "inv q \<Longrightarrow> cap (put q x) = cap q"
    and items_put: "inv q \<Longrightarrow>
          items (put q x) = (if length (items q) < cap q then items q @ [x] else items q)"
    and get_empty: "inv q \<Longrightarrow> items q = [] \<Longrightarrow> get q = None"
    and get_item: "inv q \<Longrightarrow> items q = x # xs \<Longrightarrow>
          \<exists>q'. get q = Some (x, q') \<and> inv q' \<and> cap q' = cap q \<and> items q' = xs"
begin

lemma inv_puts: "inv q \<Longrightarrow> inv (foldl put q xs)"
  by (induction xs arbitrary: q) (simp_all add: inv_put)

lemma cap_puts: "inv q \<Longrightarrow> cap (foldl put q xs) = cap q"
  by (induction xs arbitrary: q) (simp_all add: inv_put cap_put)

text \<open>Posting a list keeps the old items and as long a prefix of the new ones as fits.\<close>

lemma items_puts: "inv q \<Longrightarrow> items (foldl put q xs) = take (cap q) (items q @ xs)"
proof (induction xs arbitrary: q)
  case Nil
  then show ?case using items_cap by simp
next
  case (Cons x xs)
  have le: "length (items q) \<le> cap q" using Cons.prems by (rule items_cap)
  have "items (foldl put q (x # xs)) = take (cap q) (items (put q x) @ xs)"
    using Cons by (simp add: inv_put cap_put)
  also have "\<dots> = take (cap q) (items q @ x # xs)"
    using le by (cases "cap q - length (items q)") (auto simp: items_put [OF Cons.prems] diff_Suc)
  finally show ?case .
qed

lemma items_puts_room:
  "inv q \<Longrightarrow> length (items q) + length xs \<le> cap q \<Longrightarrow> items (foldl put q xs) = items q @ xs"
  by (simp add: items_puts)

lemma get_None_iff: "inv q \<Longrightarrow> get q = None \<longleftrightarrow> items q = []"
  by (cases "items q") (auto simp: get_empty dest: get_item)

lemma get_SomeD:
  assumes "inv q" "get q = Some (x, q')"
  shows "items q = x # items q' \<and> inv q' \<and> cap q' = cap q"
proof (cases "items q")
  case Nil
  with assms get_empty show ?thesis by simp
next
  case (Cons y ys)
  with assms get_item [OF assms(1) Cons] show ?thesis by auto
qed

text \<open>Draining: taking items until the queue is empty returns them in the order they were put.\<close>

fun drain :: "nat \<Rightarrow> 'q \<Rightarrow> 'a list" where
  "drain 0 q = []"
| "drain (Suc n) q = (case get q of None \<Rightarrow> [] | Some (x, q') \<Rightarrow> x # drain n q')"

lemma drain_items: "inv q \<Longrightarrow> drain n q = take n (items q)"
proof (induction n arbitrary: q)
  case (Suc n)
  show ?case
  proof (cases "get q")
    case None
    with get_None_iff [OF Suc.prems] show ?thesis by simp
  next
    case (Some p)
    with get_SomeD [OF Suc.prems, of "fst p" "snd p"] Suc.IH show ?thesis
      by (simp add: split_beta)
  qed
qed simp

end

end
