(* ===== verification/Mailbox.thy ===== *)
theory Mailbox
  imports Prelude BoundedQueue
begin

text \<open>
  The RT-Thread mailbox (\<open>rt-thread/src/ipc.c\<close>) as the application uses it: a static ring of
  \<open>rt_ubase_t\<close> values with 16-bit offsets and entry count. \<open>rt_mb_send\<close> is the non-blocking send
  (time-out 0); a send or receive that would wait is the outcome \<open>Suspended\<close>, since the scheduler is
  not modelled.
\<close>

datatype rt_err = RT_EOK | RT_ERROR | RT_ETIMEOUT | RT_EFULL | RT_EINTR | RT_EINVAL

datatype 'a outcome = Ready 'a | Suspended

record mailbox =
  msg_pool :: "u32 list"
  mb_size :: nat
  entry :: nat
  in_offset :: nat
  out_offset :: nat

definition RT_MB_ENTRY_MAX :: nat where "RT_MB_ENTRY_MAX = 65535"

text \<open>\<open>rt_mb_init\<close>: the size argument is converted to \<open>rt_uint16_t\<close>.\<close>

definition rt_mb_init :: "u32 list \<Rightarrow> nat \<Rightarrow> mailbox" where
  "rt_mb_init msgpool n = \<lparr>msg_pool = msgpool, mb_size = n mod 65536, entry = 0,
     in_offset = 0, out_offset = 0\<rparr>"

text \<open>The offsets are \<open>rt_uint16_t\<close>: \<open>++\<close> wraps at 65536 before the comparison with the size.\<close>

definition next_offset :: "mailbox \<Rightarrow> nat \<Rightarrow> nat" where
  "next_offset mb i = (let i' = (i + 1) mod 65536 in if i' \<ge> mb_size mb then 0 else i')"

definition rt_mb_send_wait :: "mailbox \<Rightarrow> u32 \<Rightarrow> int \<Rightarrow> (rt_err \<times> mailbox) outcome option" where
  "rt_mb_send_wait mb value timeout =
    (if entry mb = mb_size mb then
       (if timeout = 0 then Some (Ready (RT_EFULL, mb)) else Some Suspended)
     else do {
       pool \<leftarrow> wr (msg_pool mb) (in_offset mb) value;
       let mb = mb\<lparr>msg_pool := pool, in_offset := next_offset mb (in_offset mb)\<rparr>;
       if entry mb < RT_MB_ENTRY_MAX
       then Some (Ready (RT_EOK, mb\<lparr>entry := entry mb + 1\<rparr>))
       else Some (Ready (RT_EFULL, mb))
     })"

definition rt_mb_send :: "mailbox \<Rightarrow> u32 \<Rightarrow> (rt_err \<times> mailbox) option" where
  "rt_mb_send mb value = (case rt_mb_send_wait mb value 0 of
     Some (Ready r) \<Rightarrow> Some r | _ \<Rightarrow> None)"

definition rt_mb_recv :: "mailbox \<Rightarrow> int \<Rightarrow> (rt_err \<times> u32 option \<times> mailbox) outcome option" where
  "rt_mb_recv mb timeout =
    (if entry mb = 0 then
       (if timeout = 0 then Some (Ready (RT_ETIMEOUT, None, mb)) else Some Suspended)
     else do {
       value \<leftarrow> rd (msg_pool mb) (out_offset mb);
       let mb = mb\<lparr>out_offset := next_offset mb (out_offset mb)\<rparr>;
       let mb = (if entry mb > 0 then mb\<lparr>entry := entry mb - 1\<rparr> else mb);
       Some (Ready (RT_EOK, Some value, mb))
     })"

section \<open>Well-formed mailboxes and their contents\<close>

definition mb_inv :: "mailbox \<Rightarrow> bool" where
  "mb_inv mb \<longleftrightarrow> 0 < mb_size mb \<and> mb_size mb < 65536 \<and> length (msg_pool mb) = mb_size mb \<and>
     entry mb \<le> mb_size mb \<and> out_offset mb < mb_size mb \<and>
     in_offset mb = (out_offset mb + entry mb) mod mb_size mb"

definition mb_items :: "mailbox \<Rightarrow> u32 list" where
  "mb_items mb = map (\<lambda>k. msg_pool mb ! ((out_offset mb + k) mod mb_size mb)) [0..<entry mb]"

text \<open>The view of a caller that ignores the error code of \<open>rt_mb_send\<close> and polls with \<open>RT_WAITING_NO\<close>.\<close>

definition mb_put :: "mailbox \<Rightarrow> u32 \<Rightarrow> mailbox" where
  "mb_put mb value = (case rt_mb_send mb value of Some (_, mb') \<Rightarrow> mb' | None \<Rightarrow> mb)"

definition mb_get :: "mailbox \<Rightarrow> (u32 \<times> mailbox) option" where
  "mb_get mb = (case rt_mb_recv mb 0 of Some (Ready (_, Some v, mb')) \<Rightarrow> Some (v, mb') | _ \<Rightarrow> None)"

lemma length_mb_items [simp]: "length (mb_items mb) = entry mb"
  by (simp add: mb_items_def)

lemma next_offset_mod:
  "i < mb_size mb \<Longrightarrow> mb_size mb < 65536 \<Longrightarrow> next_offset mb i = (i + 1) mod mb_size mb"
  by (auto simp: next_offset_def Let_def mod_Suc)

lemma mb_inv_init: "0 < length pool \<Longrightarrow> length pool < 65536 \<Longrightarrow> mb_inv (rt_mb_init pool (length pool))"
  by (simp add: mb_inv_def rt_mb_init_def)

lemma mb_items_init [simp]: "mb_items (rt_mb_init pool n) = []"
  by (simp add: mb_items_def rt_mb_init_def)

lemma in_offset_less: "mb_inv mb \<Longrightarrow> in_offset mb < mb_size mb"
  by (simp add: mb_inv_def)

lemma rt_mb_send_inv:
  assumes "mb_inv mb"
  shows "rt_mb_send mb v =
    (if entry mb = mb_size mb then Some (RT_EFULL, mb)
     else Some (RT_EOK, mb\<lparr>msg_pool := (msg_pool mb)[in_offset mb := v],
       in_offset := (in_offset mb + 1) mod mb_size mb, entry := entry mb + 1\<rparr>))"
  using assms in_offset_less [OF assms]
  by (auto simp: rt_mb_send_def rt_mb_send_wait_def mb_inv_def next_offset_mod RT_MB_ENTRY_MAX_def)

lemma rt_mb_send_put: "mb_inv mb \<Longrightarrow>
  rt_mb_send mb v = Some (if entry mb = mb_size mb then RT_EFULL else RT_EOK, mb_put mb v)"
  by (simp add: mb_put_def rt_mb_send_inv)

lemma rt_mb_recv_inv:
  assumes "mb_inv mb" "0 < entry mb"
  shows "rt_mb_recv mb t = Some (Ready (RT_EOK, Some (msg_pool mb ! out_offset mb),
     mb\<lparr>out_offset := (out_offset mb + 1) mod mb_size mb, entry := entry mb - 1\<rparr>))"
  using assms by (simp add: rt_mb_recv_def mb_inv_def next_offset_mod)

lemma mb_items_put:
  assumes inv: "mb_inv mb"
  shows "mb_items (mb_put mb v) =
    (if length (mb_items mb) < mb_size mb then mb_items mb @ [v] else mb_items mb)"
proof (cases "entry mb = mb_size mb")
  case True
  with inv show ?thesis by (simp add: mb_put_def rt_mb_send_inv)
next
  case False
  with inv have less: "entry mb < mb_size mb" by (simp add: mb_inv_def)
  let ?i = "(out_offset mb + entry mb) mod mb_size mb"
  have i: "?i < length (msg_pool mb)" using inv by (simp add: mb_inv_def)
  have "(msg_pool mb)[?i := v] ! ((out_offset mb + k) mod mb_size mb) =
      msg_pool mb ! ((out_offset mb + k) mod mb_size mb)" if "k < entry mb" for k
    using mod_add_ne [OF that less, of "out_offset mb"] by (simp add: nth_list_update_neq)
  with inv False less i show ?thesis
    by (simp add: mb_put_def rt_mb_send_inv) (simp add: mb_items_def mb_inv_def)
qed

lemma mb_inv_put [c_inv]: "mb_inv mb \<Longrightarrow> mb_inv (mb_put mb v)"
  by (auto simp: mb_put_def rt_mb_send_inv) (auto simp: mb_inv_def mod_Suc_eq)

lemma mb_size_put: "mb_inv mb \<Longrightarrow> mb_size (mb_put mb v) = mb_size mb"
  by (simp add: mb_put_def rt_mb_send_inv)

lemma mb_get_cons:
  assumes inv: "mb_inv mb" and ne: "mb_items mb = x # xs"
  shows "\<exists>mb'. mb_get mb = Some (x, mb') \<and> mb_inv mb' \<and> mb_size mb' = mb_size mb \<and> mb_items mb' = xs"
proof -
  have pos: "0 < entry mb" using ne length_mb_items [of mb] by simp
  let ?m = "mb\<lparr>out_offset := (out_offset mb + 1) mod mb_size mb, entry := entry mb - 1\<rparr>"
  have g: "mb_get mb = Some (msg_pool mb ! out_offset mb, ?m)"
    by (simp add: mb_get_def rt_mb_recv_inv [OF inv pos])
  have out: "out_offset mb mod mb_size mb = out_offset mb" using inv by (simp add: mb_inv_def)
  have "[0..<entry mb] = 0 # map Suc [0..<entry mb - 1]"
    using pos by (simp add: map_Suc_upt upt_conv_Cons)
  then have items: "mb_items mb = msg_pool mb ! out_offset mb # mb_items ?m"
    by (simp add: mb_items_def out mod_add_left_eq)
  have "(out_offset mb + entry mb) mod mb_size mb = ((out_offset mb + 1) + (entry mb - 1)) mod mb_size mb"
    using pos by simp
  also have "\<dots> = ((out_offset mb + 1) mod mb_size mb + (entry mb - 1)) mod mb_size mb"
    by (rule mod_add_left_eq [symmetric])
  finally have "mb_inv ?m" using inv pos by (auto simp: mb_inv_def)
  with g ne items show ?thesis by auto
qed

interpretation mbq: bounded_queue mb_inv mb_items mb_size mb_put mb_get
proof unfold_locales
  show "length (mb_items q) \<le> mb_size q" if "mb_inv q" for q
    using that by (simp add: mb_inv_def)
  show "mb_get q = None" if "mb_inv q" "mb_items q = []" for q
    using that length_mb_items [of q] by (simp add: mb_get_def rt_mb_recv_def)
qed (simp_all add: mb_inv_put mb_size_put mb_items_put mb_get_cons)

lemmas mailbox_laws = mb_inv_put mb_size_put rt_mb_send_put mbq.items_puts mbq.inv_puts

section \<open>Properties\<close>

text \<open>The mailbox ring implements a bounded first-in first-out queue: after any list of
  non-blocking sends it holds the old mails followed by the new ones up to its capacity, a send
  reports \<open>RT_EFULL\<close> exactly when it is full, and draining returns the mails in order.\<close>

lemma mailbox_fifo:
  assumes "mb_inv mb"
  shows "mb_items (foldl mb_put mb vs) = take (mb_size mb) (mb_items mb @ vs) \<and> mb_inv (foldl mb_put mb vs) \<and>
    rt_mb_send mb v = Some (if entry mb = mb_size mb then RT_EFULL else RT_EOK, mb_put mb v) \<and>
    mbq.drain n mb = take n (mb_items mb)"
  by (simp add: assms mbq.items_puts mbq.inv_puts rt_mb_send_put mbq.drain_items)

theorem mailbox_fifo_witness:
  "mb_items (foldl mb_put (rt_mb_init [0, 0] 2) [7, 8, 9]) = [7, 8]"
  using mailbox_fifo [of "rt_mb_init [0, 0] 2" "[7, 8, 9]"] by (simp add: mb_inv_def rt_mb_init_def mb_items_def)

end
