(* ===== verification/LmsUart.thy ===== *)
theory LmsUart
  imports LmsFrame Mailbox
begin

text \<open>
  The lamp bus master (\<open>applications/lmsuart.c\<close>): the record \<open>g_lms\<close>, the command buffer that
  \<open>build_ctrl_cmd\<close> fills, the transmit machine run by the 2.5 ms one-shot timer
  (\<open>send_state_machine\<close>) and the machine run at every zero-cross pulse (\<open>lms_state_machine\<close>).

  The environment of the machines is \<open>lms_env\<close>: \<open>g_lms\<close>, the mailbox of changed terminals, whether
  the transmit delay timer is armed, the direction of the RS-485 driver and the bytes handed to the
  transmitter so far. The USART data register is an argument of a tick: \<open>Some b\<close> when the
  receive-buffer flag is set.
\<close>

section \<open>State\<close>

datatype Send_State_E = STATE_TX_SS | STATE_TX_LS

datatype LMS_STATE_E = STATE_INIT | STATE_TX | STATE_WAITRCV | STATE_RECVING

record cmd_t =
  group_id :: u8
  seg_id :: u8
  write_lock :: u8
  cmd_data :: "u8 list"
  cmd_toSend :: u8
  cmd_current_send_index :: u8

record lms_t =
  lms_st :: LMS_STATE_E
  send_state :: Send_State_E
  cmd_info :: cmd_t
  waitToRecvicntLeft :: u8
  terminal_index :: u8
  terminalState :: "u8 list"
  polling_complete_flag :: u8

record lms_env =
  g_lms :: lms_t
  lms_mb :: mailbox
  txDelay :: bool
  sendMode :: bool
  sent :: "u8 list"

definition TERMIANL_NUM :: nat where "TERMIANL_NUM = 32"
definition WAIT_CROSS_CNT :: u8 where "WAIT_CROSS_CNT = 2"
definition poll_byte :: u8 where "poll_byte = 0x15"

abbreviation upd_lms :: "(lms_t \<Rightarrow> lms_t) \<Rightarrow> lms_env \<Rightarrow> lms_env" where
  "upd_lms f e \<equiv> e\<lparr>g_lms := f (g_lms e)\<rparr>"

abbreviation upd_cmd :: "(cmd_t \<Rightarrow> cmd_t) \<Rightarrow> lms_env \<Rightarrow> lms_env" where
  "upd_cmd f e \<equiv> upd_lms (\<lambda>l. l\<lparr>cmd_info := f (cmd_info l)\<rparr>) e"

section \<open>Operations\<close>

definition lms_uart_send_byte :: "u8 \<Rightarrow> lms_env \<Rightarrow> lms_env" where
  "lms_uart_send_byte byte e = e\<lparr>sendMode := True, sent := sent e @ [byte]\<rparr>"

definition lms_uart_recv_byte :: "u8 option \<Rightarrow> u8" where
  "lms_uart_recv_byte rx = (case rx of None \<Rightarrow> 0xff | Some b \<Rightarrow> b)"

text \<open>\<open>lms_mailbox_init\<close>: the pool of 128 bytes holds 32 mails of 4 bytes.\<close>

definition lms_mailbox_init :: "u32 list \<Rightarrow> mailbox" where
  "lms_mailbox_init mb_pool = rt_mb_init mb_pool (4 * length mb_pool div 4)"

definition lms_init :: "u32 list \<Rightarrow> lms_env \<Rightarrow> lms_env" where
  "lms_init mb_pool e = e\<lparr>
     g_lms := \<lparr>lms_st = STATE_INIT, send_state = STATE_TX_SS,
       cmd_info = (cmd_info (g_lms e))\<lparr>group_id := 0x00, seg_id := 0x00, write_lock := 0,
         cmd_current_send_index := 0, cmd_toSend := 0, cmd_data := replicate 3 0\<rparr>,
       waitToRecvicntLeft = WAIT_CROSS_CNT - 1, terminal_index = 0,
       terminalState = replicate TERMIANL_NUM 0xff, polling_complete_flag = 0\<rparr>,
     lms_mb := lms_mailbox_init mb_pool\<rparr>"

text \<open>
  \<open>build_ctrl_cmd\<close>: nothing while a command is being sent; otherwise lock, fill in the message and
  switch the transmit machine to it. \<open>cmd << 4\<close> is stored in a byte.
\<close>

definition build_ctrl_cmd :: "u8 \<Rightarrow> u8 \<Rightarrow> u8 \<Rightarrow> lms_env \<Rightarrow> lms_env option" where
  "build_ctrl_cmd grp seg cmd e =
    (if write_lock (cmd_info (g_lms e)) \<noteq> 0 then Some e
     else do {
       let temp_buf = [seg, push_bit 4 cmd];
       let e = upd_cmd (\<lambda>c. c\<lparr>write_lock := 1, group_id := grp, seg_id := seg, cmd_toSend := cmd\<rparr>) e;
       sync \<leftarrow> GenSyncFrame grp LONG_CMD;
       data \<leftarrow> wr (cmd_data (cmd_info (g_lms e))) 0 sync;
       data \<leftarrow> wr data 1 seg;
       data \<leftarrow> wr data 2 (crc4_itu temp_buf OR push_bit 4 cmd);
       let e = upd_cmd (\<lambda>c. c\<lparr>cmd_data := data\<rparr>) e;
       Some (upd_lms (\<lambda>l. l\<lparr>send_state := STATE_TX_LS\<rparr>) e)
     })"

definition send_state_machine :: "lms_env \<Rightarrow> lms_env option" where
  "send_state_machine e =
    (case send_state (g_lms e) of
       STATE_TX_SS \<Rightarrow>
         (let e = lms_uart_send_byte poll_byte e
          in Some (upd_lms (\<lambda>l. l\<lparr>lms_st := STATE_WAITRCV, waitToRecvicntLeft := WAIT_CROSS_CNT - 1\<rparr>) e))
     | STATE_TX_LS \<Rightarrow>
         (let idx = cmd_current_send_index (cmd_info (g_lms e)) in
          if idx \<le> 2 then do {
            byte \<leftarrow> rd (cmd_data (cmd_info (g_lms e))) (unat idx);
            Some (upd_cmd (\<lambda>c. c\<lparr>cmd_current_send_index := idx + 1\<rparr>) (lms_uart_send_byte byte e))
          } else
            Some (upd_lms (\<lambda>l. l\<lparr>send_state := STATE_TX_SS\<rparr>)
              (upd_cmd (\<lambda>c. c\<lparr>cmd_current_send_index := 0, write_lock := 0\<rparr>) e))))"

definition timer0_txDelay_start :: "lms_env \<Rightarrow> lms_env" where
  "timer0_txDelay_start e = e\<lparr>txDelay := True\<rparr>"

definition timer0_txDelay_stop :: "lms_env \<Rightarrow> lms_env" where
  "timer0_txDelay_stop e = e\<lparr>txDelay := False\<rparr>"

text \<open>The call-back of the one-shot transmit delay (\<open>pulse_generate.c\<close>).\<close>

definition timer0_TxDelay_cb :: "lms_env \<Rightarrow> lms_env option" where
  "timer0_TxDelay_cb e = send_state_machine (timer0_txDelay_stop e)"

definition lms_recving :: "u8 option \<Rightarrow> lms_env \<Rightarrow> lms_env option" where
  "lms_recving rx e =
    (let i = terminal_index (g_lms e) in
     if unat i < TERMIANL_NUM then do {
       let recvdata = lms_uart_recv_byte rx;
       old \<leftarrow> rd (terminalState (g_lms e)) (unat i);
       e \<leftarrow> (if recvdata \<noteq> old then do {
              ts \<leftarrow> wr (terminalState (g_lms e)) (unat i) recvdata;
              (err, m) \<leftarrow> rt_mb_send (lms_mb e) (ucast i);
              Some (upd_lms (\<lambda>l. l\<lparr>terminalState := ts\<rparr>) e\<lparr>lms_mb := m\<rparr>)
            } else Some e);
       Some (upd_lms (\<lambda>l. l\<lparr>terminal_index := i + 1\<rparr>) e)
     } else
       Some (upd_lms (\<lambda>l. l\<lparr>terminal_index := 0, polling_complete_flag := 1, lms_st := STATE_TX\<rparr>) e))"

definition lms_state_machine :: "u8 option \<Rightarrow> lms_env \<Rightarrow> lms_env option" where
  "lms_state_machine rx e =
    (case lms_st (g_lms e) of
       STATE_INIT \<Rightarrow> Some (upd_lms (\<lambda>l. l\<lparr>lms_st := STATE_TX\<rparr>) e\<lparr>sendMode := True\<rparr>)
     | STATE_TX \<Rightarrow> Some (timer0_txDelay_start e)
     | STATE_WAITRCV \<Rightarrow>
         (if waitToRecvicntLeft (g_lms e) > 0
          then Some (upd_lms (\<lambda>l. l\<lparr>waitToRecvicntLeft := waitToRecvicntLeft l - 1\<rparr>) e)
          else Some (upd_lms (\<lambda>l. l\<lparr>lms_st := STATE_RECVING\<rparr>) e\<lparr>sendMode := False\<rparr>))
     | STATE_RECVING \<Rightarrow> lms_recving rx e)"

lemmas lms_ops = lms_uart_send_byte_def timer0_txDelay_start_def timer0_txDelay_stop_def
  timer0_TxDelay_cb_def send_state_machine_def lms_recving_def lms_state_machine_def

section \<open>The builder interleaved with the interrupts\<close>

text \<open>
  \<open>build_ctrl_cmd\<close> runs in a thread (the CAN receiver) and the two machines run in timer interrupts.
  Its statements one at a time, in program order: \<open>pc\<close> 0 is outside the call, and the call is over
  when \<open>pc\<close> is 0 again. \<open>accepted\<close> records the commands that got past the lock test.
\<close>

type_synonym lamp_cmd = "u8 \<times> u8 \<times> u8"

record lms_sys =
  env :: lms_env
  pc :: nat
  args :: lamp_cmd
  accepted :: "lamp_cmd list"

definition build_stmt :: "nat \<Rightarrow> lamp_cmd \<Rightarrow> lms_env \<Rightarrow> lms_env option" where
  "build_stmt n a e = (case a of (grp, seg, cmd) \<Rightarrow>
    (let put = (\<lambda>i v. do { data \<leftarrow> wr (cmd_data (cmd_info (g_lms e))) i v;
                           Some (upd_cmd (\<lambda>c. c\<lparr>cmd_data := data\<rparr>) e) }) in
     if n = 2 then Some (upd_cmd (\<lambda>c. c\<lparr>write_lock := 1\<rparr>) e)
     else if n = 3 then Some (upd_cmd (\<lambda>c. c\<lparr>group_id := grp\<rparr>) e)
     else if n = 4 then Some (upd_cmd (\<lambda>c. c\<lparr>seg_id := seg\<rparr>) e)
     else if n = 5 then Some (upd_cmd (\<lambda>c. c\<lparr>cmd_toSend := cmd\<rparr>) e)
     else if n = 6 then do { sync \<leftarrow> GenSyncFrame grp LONG_CMD; put 0 sync }
     else if n = 7 then put 1 seg
     else if n = 8 then put 2 (crc4_itu [seg, push_bit 4 cmd] OR push_bit 4 cmd)
     else Some (upd_lms (\<lambda>l. l\<lparr>send_state := STATE_TX_LS\<rparr>) e)))"

text \<open>One statement: 1 is the test of the lock, 2 to 9 are the assignments.\<close>

definition build_step :: "lms_sys \<Rightarrow> lms_sys option" where
  "build_step s =
    (if pc s = 1 then
       Some (if write_lock (cmd_info (g_lms (env s))) \<noteq> 0 then s\<lparr>pc := 0\<rparr> else s\<lparr>pc := 2\<rparr>)
     else do {
       e \<leftarrow> build_stmt (pc s) (args s) (env s);
       Some (if pc s = 9 then s\<lparr>env := e, pc := 0, accepted := accepted s @ [args s]\<rparr>
             else s\<lparr>env := e, pc := pc s + 1\<rparr>)
     })"

datatype lms_event = Tick "u8 option" | Delay | Call u8 u8 u8 | Stmt

text \<open>
  One step of the system. The delay timer fires only when armed; a call starts only outside another
  call (one thread builds commands). The result \<open>None\<close> is an event that is not enabled or undefined
  behaviour; \<open>lms_enabled\<close> says which events can happen. A call may name any group.
\<close>

definition lms_enabled :: "lms_sys \<Rightarrow> lms_event \<Rightarrow> bool" where
  "lms_enabled s ev = (case ev of
      Tick rx \<Rightarrow> True | Delay \<Rightarrow> txDelay (env s) | Call g sg c \<Rightarrow> pc s = 0 | Stmt \<Rightarrow> pc s \<noteq> 0)"

definition lms_exec :: "lms_sys \<Rightarrow> lms_event \<Rightarrow> lms_sys option" where
  "lms_exec s ev = (case ev of
      Tick rx \<Rightarrow> map_option (\<lambda>e. s\<lparr>env := e\<rparr>) (lms_state_machine rx (env s))
    | Delay \<Rightarrow> map_option (\<lambda>e. s\<lparr>env := e\<rparr>) (timer0_TxDelay_cb (env s))
    | Call g sg c \<Rightarrow> Some (s\<lparr>pc := 1, args := (g, sg, c)\<rparr>)
    | Stmt \<Rightarrow> build_step s)"

definition lms_start :: "lms_sys \<Rightarrow> bool" where
  "lms_start s \<longleftrightarrow> (\<exists>e pool. env s = lms_init pool e \<and> length pool = 32 \<and> \<not> txDelay e \<and> sent e = [])
     \<and> pc s = 0 \<and> accepted s = []"

inductive lms_reach :: "lms_sys \<Rightarrow> bool" where
  start: "lms_start s \<Longrightarrow> lms_reach s"
| step: "lms_reach s \<Longrightarrow> lms_enabled s ev \<Longrightarrow> lms_exec s ev = Some s' \<Longrightarrow> lms_reach s'"

section \<open>Frames on the wire\<close>

datatype lms_frame = Poll | Lamp lamp_cmd

text \<open>The abstract transmitter: whole frames, and the commands among them in order.\<close>

fun lamp_bytes :: "lamp_cmd \<Rightarrow> u8 list" where
  "lamp_bytes (g, sg, c) = [Cal_GenSyncFrame g LONG_CMD, sg, ls_ctl sg c]"

fun frame_bytes :: "lms_frame \<Rightarrow> u8 list" where
  "frame_bytes Poll = [poll_byte]"
| "frame_bytes (Lamp a) = lamp_bytes a"

definition wire :: "lms_frame list \<Rightarrow> u8 list" where
  "wire fs = concat (map frame_bytes fs)"

fun lamps :: "lms_frame list \<Rightarrow> lamp_cmd list" where
  "lamps [] = []"
| "lamps (Poll # fs) = lamps fs"
| "lamps (Lamp a # fs) = a # lamps fs"

lemma wire_Nil [simp]: "wire [] = []" and wire_append [simp]: "wire (fs @ gs) = wire fs @ wire gs"
  and wire_Cons [simp]: "wire (f # fs) = frame_bytes f @ wire fs"
  by (simp_all add: wire_def)

lemma lamps_append [simp]: "lamps (fs @ gs) = lamps fs @ lamps gs"
  by (induction fs rule: lamps.induct) simp_all

declare lamp_bytes.simps [simp del]

lemma length_lamp_bytes [simp]: "length (lamp_bytes a) = 3"
  by (cases a) (simp add: lamp_bytes.simps)

section \<open>Invariant\<close>

definition env_inv :: "lms_env \<Rightarrow> bool" where
  "env_inv e \<longleftrightarrow>
    (let l = g_lms e; c = cmd_info l in
     mb_inv (lms_mb e) \<and> mb_size (lms_mb e) = 32 \<and>
     length (cmd_data c) = 3 \<and> length (terminalState l) = 32 \<and>
     unat (terminal_index l) \<le> 32 \<and> unat (waitToRecvicntLeft l) \<le> 1 \<and>
     unat (cmd_current_send_index c) \<le> 3 \<and>
     (txDelay e \<longrightarrow> lms_st l = STATE_TX) \<and>
     (lms_st l = STATE_RECVING \<longrightarrow> \<not> sendMode e) \<and>
     (lms_st l \<noteq> STATE_RECVING \<longrightarrow> terminal_index l = 0) \<and>
     (send_state l = STATE_TX_SS \<longrightarrow> cmd_current_send_index c = 0) \<and>
     (send_state l = STATE_TX_LS \<longrightarrow> write_lock c \<noteq> 0))"

lemma WAIT_CROSS_CNT_1 [simp]: "WAIT_CROSS_CNT - 1 = 1"
  by (simp add: WAIT_CROSS_CNT_def)

lemma idx_le2: "(idx :: u8) \<le> 2 \<longleftrightarrow> unat idx \<le> 2"
  by (simp add: word_le_nat_alt)

lemma env_inv_init:
  "length pool = 32 \<Longrightarrow> \<not> txDelay e \<Longrightarrow> env_inv (lms_init pool e)"
  by (simp add: env_inv_def lms_init_def lms_mailbox_init_def rt_mb_init_def mb_inv_def TERMIANL_NUM_def)

text \<open>A zero-cross tick never fails and touches neither the command nor the wire.\<close>

lemma tick_inv:
  assumes "env_inv e"
  shows "\<exists>e'. lms_state_machine rx e = Some e' \<and> env_inv e' \<and> sent e' = sent e \<and>
    cmd_info (g_lms e') = cmd_info (g_lms e) \<and> send_state (g_lms e') = send_state (g_lms e)"
proof (cases "lms_st (g_lms e)")
  case STATE_RECVING
  with assms show ?thesis
    by (auto simp: lms_state_machine_def lms_recving_def env_inv_def Let_def TERMIANL_NUM_def
        rt_mb_send_put mb_inv_put mb_size_put unat_u8_Suc)
next
  case STATE_WAITRCV
  with assms show ?thesis
    by (auto simp: lms_state_machine_def env_inv_def Let_def unat_minus_one_pos)
qed (use assms in \<open>auto simp: lms_state_machine_def timer0_txDelay_start_def env_inv_def Let_def\<close>)

text \<open>The transmit delay: one byte of the command, the unlock, or the poll byte.\<close>

lemma delay_LS:
  assumes "env_inv e" "txDelay e" "send_state (g_lms e) = STATE_TX_LS"
  shows "\<exists>e'. timer0_TxDelay_cb e = Some e' \<and> env_inv e' \<and>
    (let c = cmd_info (g_lms e); c' = cmd_info (g_lms e'); i = unat (cmd_current_send_index c) in
     cmd_data c' = cmd_data c \<and> lms_st (g_lms e') = STATE_TX \<and>
     (if i < 3 then sent e' = sent e @ [cmd_data c ! i] \<and> unat (cmd_current_send_index c') = Suc i \<and>
        send_state (g_lms e') = STATE_TX_LS \<and> write_lock c' = write_lock c
      else sent e' = sent e \<and> cmd_current_send_index c' = 0 \<and>
        send_state (g_lms e') = STATE_TX_SS \<and> write_lock c' = 0))"
  using assms
  by (auto simp: lms_ops env_inv_def Let_def idx_le2 unat_u8_Suc)

lemma delay_SS:
  assumes "env_inv e" "txDelay e" "send_state (g_lms e) = STATE_TX_SS"
  shows "\<exists>e'. timer0_TxDelay_cb e = Some e' \<and> env_inv e' \<and> sent e' = sent e @ [poll_byte] \<and>
    cmd_info (g_lms e') = cmd_info (g_lms e) \<and> send_state (g_lms e') = STATE_TX_SS \<and>
    lms_st (g_lms e') = STATE_WAITRCV"
  using assms by (auto simp: lms_ops env_inv_def Let_def)

text \<open>
  What is on the wire: whole frames and, while a command is being sent, its first bytes. The lamp
  frames are the accepted commands in order.
\<close>

definition wire_inv :: "lms_sys \<Rightarrow> bool" where
  "wire_inv s \<longleftrightarrow>
    (let l = g_lms (env s); c = cmd_info l in
     case send_state l of
       STATE_TX_SS \<Rightarrow> (\<exists>fs. sent (env s) = wire fs \<and> lamps fs = accepted s)
     | STATE_TX_LS \<Rightarrow> (\<exists>fs a. sent (env s) = wire fs @ take (unat (cmd_current_send_index c)) (lamp_bytes a) \<and>
         cmd_data c = lamp_bytes a \<and> lamps fs @ [a] = accepted s))"

definition build_inv :: "lms_sys \<Rightarrow> bool" where
  "build_inv s \<longleftrightarrow>
    (let l = g_lms (env s); c = cmd_info l; b = lamp_bytes (args s) in
     pc s \<le> 9 \<and> (7 \<le> pc s \<longrightarrow> fst (args s) < 8) \<and>
     (2 \<le> pc s \<longrightarrow> send_state l = STATE_TX_SS) \<and>
     (send_state l = STATE_TX_SS \<longrightarrow> write_lock c = (if pc s < 3 then 0 else 1)) \<and>
     (7 \<le> pc s \<longrightarrow> cmd_data c ! 0 = b ! 0) \<and> (8 \<le> pc s \<longrightarrow> cmd_data c ! 1 = b ! 1) \<and>
     (9 \<le> pc s \<longrightarrow> cmd_data c ! 2 = b ! 2))"

definition lms_inv :: "lms_sys \<Rightarrow> bool" where
  "lms_inv s \<longleftrightarrow> env_inv (env s) \<and> build_inv s \<and> wire_inv s"

lemma list3_eq: "length xs = 3 \<Longrightarrow> xs = [a, b, c] \<longleftrightarrow> xs ! 0 = a \<and> xs ! 1 = b \<and> xs ! 2 = c"
  by (auto simp: length_Suc_conv eval_nat_numeral)

lemma wire_inv_pc [simp]: "wire_inv (s\<lparr>pc := n\<rparr>) = wire_inv s"
    "wire_inv (s\<lparr>args := a\<rparr>) = wire_inv s"
  by (simp_all add: wire_inv_def Let_def cong: Send_State_E.case_cong)

lemma wire_inv_env:
  assumes "wire_inv s" "sent e' = sent (env s)" "cmd_info (g_lms e') = cmd_info (g_lms (env s))"
    "send_state (g_lms e') = send_state (g_lms (env s))"
  shows "wire_inv (s\<lparr>env := e'\<rparr>)"
  using assms by (simp add: wire_inv_def Let_def cong: Send_State_E.case_cong)

lemma build_inv_env:
  assumes "build_inv s" "cmd_info (g_lms e') = cmd_info (g_lms (env s))"
    "send_state (g_lms e') = send_state (g_lms (env s))"
  shows "build_inv (s\<lparr>env := e'\<rparr>)"
  using assms by (simp add: build_inv_def Let_def)

lemma wire_inv_SS:
  "send_state (g_lms (env s)) = STATE_TX_SS \<Longrightarrow>
   wire_inv s \<longleftrightarrow> (\<exists>fs. sent (env s) = wire fs \<and> lamps fs = accepted s)"
  by (simp add: wire_inv_def Let_def)

lemma wire_inv_LS:
  assumes "send_state (g_lms (env s)) = STATE_TX_LS"
    "sent (env s) = wire fs @ take (unat (cmd_current_send_index (cmd_info (g_lms (env s))))) (lamp_bytes a)"
    "cmd_data (cmd_info (g_lms (env s))) = lamp_bytes a" "lamps fs @ [a] = accepted s"
  shows "wire_inv s"
  using assms by (simp add: wire_inv_def Let_def del: split_paired_Ex) blast

lemma lms_inv_tick:
  assumes "lms_inv s" shows "\<exists>s'. lms_exec s (Tick rx) = Some s' \<and> lms_inv s'"
proof -
  from assms have "env_inv (env s)" by (simp add: lms_inv_def)
  from tick_inv [OF this, of rx] obtain e' where "lms_state_machine rx (env s) = Some e'" "env_inv e'"
    "sent e' = sent (env s)" "cmd_info (g_lms e') = cmd_info (g_lms (env s))"
    "send_state (g_lms e') = send_state (g_lms (env s))" by blast
  then show ?thesis
    using assms by (simp add: lms_exec_def lms_inv_def wire_inv_env build_inv_env)
qed

lemma lms_inv_delay:
  assumes inv: "lms_inv s" and on: "txDelay (env s)"
  shows "\<exists>s'. lms_exec s Delay = Some s' \<and> lms_inv s'"
proof (cases "send_state (g_lms (env s))")
  case STATE_TX_SS
  from inv have "env_inv (env s)" by (simp add: lms_inv_def)
  from delay_SS [OF this on STATE_TX_SS] obtain e' where
    e': "timer0_TxDelay_cb (env s) = Some e'" "env_inv e'" "sent e' = sent (env s) @ [poll_byte]"
      "cmd_info (g_lms e') = cmd_info (g_lms (env s))" "send_state (g_lms e') = STATE_TX_SS"
    by blast
  from inv STATE_TX_SS obtain fs where "sent (env s) = wire fs" "lamps fs = accepted s"
    by (auto simp: lms_inv_def wire_inv_def Let_def)
  then have "wire_inv (s\<lparr>env := e'\<rparr>)"
    using e' by (auto simp: wire_inv_SS intro!: exI [of _ "fs @ [Poll]"])
  then show ?thesis
    using inv STATE_TX_SS e' by (auto simp: lms_exec_def lms_inv_def build_inv_def Let_def)
next
  case STATE_TX_LS
  from inv have env: "env_inv (env s)" by (simp add: lms_inv_def)
  from inv STATE_TX_LS obtain fs a where wire:
    "sent (env s) = wire fs @ take (unat (cmd_current_send_index (cmd_info (g_lms (env s))))) (lamp_bytes a)"
    "cmd_data (cmd_info (g_lms (env s))) = lamp_bytes a" "lamps fs @ [a] = accepted s"
    by (auto simp: lms_inv_def wire_inv_def Let_def)
  from env have i3: "unat (cmd_current_send_index (cmd_info (g_lms (env s)))) \<le> 3"
    by (simp add: env_inv_def Let_def)
  from delay_LS [OF env on STATE_TX_LS] obtain e' where
    e': "timer0_TxDelay_cb (env s) = Some e'" "env_inv e'" and
    eff: "let c = cmd_info (g_lms (env s)); c' = cmd_info (g_lms e'); i = unat (cmd_current_send_index c) in
     cmd_data c' = cmd_data c \<and> lms_st (g_lms e') = STATE_TX \<and>
     (if i < 3 then sent e' = sent (env s) @ [cmd_data c ! i] \<and> unat (cmd_current_send_index c') = Suc i \<and>
        send_state (g_lms e') = STATE_TX_LS \<and> write_lock c' = write_lock c
      else sent e' = sent (env s) \<and> cmd_current_send_index c' = 0 \<and>
        send_state (g_lms e') = STATE_TX_SS \<and> write_lock c' = 0)"
    by blast
  have "wire_inv (s\<lparr>env := e'\<rparr>)"
  proof (cases "unat (cmd_current_send_index (cmd_info (g_lms (env s)))) < 3")
    case True
    with wire eff show ?thesis
      by (intro wire_inv_LS [of _ fs a]) (simp_all add: Let_def take_Suc_conv_app_nth)
  next
    case False
    with wire eff i3 show ?thesis
      by (auto simp: wire_inv_def Let_def intro!: exI [of _ "fs @ [Lamp a]"])
  qed
  moreover have "build_inv (s\<lparr>env := e'\<rparr>)"
    using inv STATE_TX_LS eff by (auto simp: lms_inv_def build_inv_def Let_def split: if_splits)
  ultimately show ?thesis
    using e' by (auto simp: lms_exec_def lms_inv_def)
qed

lemma lms_inv_call:
  assumes "lms_inv s" "pc s = 0"
  shows "\<exists>s'. lms_exec s (Call g sg c) = Some s' \<and> lms_inv s'"
  using assms by (simp add: lms_exec_def lms_inv_def) (simp add: build_inv_def Let_def)

text \<open>
  The statements after the lock test run with the transmit machine still polling. The one that reads
  the table of sync frames has no value for a group above 7.
\<close>

definition sync_overrun :: "lms_sys \<Rightarrow> bool" where
  "sync_overrun s \<longleftrightarrow> pc s = 6 \<and> \<not> fst (args s) < 8"

lemma lms_overrun: "sync_overrun s \<Longrightarrow> lms_exec s Stmt = None"
  using GenSyncFrame_out [of "fst (args s)" LONG_CMD]
  by (auto simp: sync_overrun_def lms_exec_def build_step_def build_stmt_def split: prod.splits)

lemma lms_inv_assign:
  assumes inv: "lms_inv s" and pc: "2 \<le> pc s" and ok: "\<not> sync_overrun s"
  shows "\<exists>s'. lms_exec s Stmt = Some s' \<and> lms_inv s'"
proof -
  obtain g sg c where a: "args s = (g, sg, c)" by (metis prod_cases3)
  have g: "g < 8" if "6 \<le> pc s"
    using inv ok that a by (cases "pc s = 6") (simp_all add: lms_inv_def build_inv_def sync_overrun_def Let_def)
  have gen: "6 \<le> pc s \<Longrightarrow> GenSyncFrame g LONG_CMD = Some (Cal_GenSyncFrame g LONG_CMD)"
    by (rule GenSyncFrame_Cal [OF g]) (simp_all add: LONG_CMD_def)
  have SS: "send_state (g_lms (env s)) = STATE_TX_SS"
    using inv pc by (simp add: lms_inv_def build_inv_def Let_def)
  obtain fs where wire: "sent (env s) = wire fs" "lamps fs = accepted s"
    using inv SS by (auto simp: lms_inv_def wire_inv_SS)
  have "\<exists>s'. lms_exec s Stmt = Some s' \<and> env_inv (env s') \<and> build_inv s' \<and> sent (env s') = wire fs \<and>
    (if pc s = 9 then send_state (g_lms (env s')) = STATE_TX_LS \<and> accepted s' = accepted s @ [args s] \<and>
       cmd_data (cmd_info (g_lms (env s'))) = lamp_bytes (args s) \<and>
       cmd_current_send_index (cmd_info (g_lms (env s'))) = 0
     else send_state (g_lms (env s')) = STATE_TX_SS \<and> accepted s' = accepted s)"
  proof -
    have "pc s \<in> {2, 3, 4, 5, 6, 7, 8, 9}"
      using inv pc by (auto simp: lms_inv_def build_inv_def Let_def)
    then show ?thesis
      using inv SS wire(1)
      by (elim insertE emptyE)
        (simp_all add: lms_exec_def build_step_def build_stmt_def a gen g lms_inv_def build_inv_def
          env_inv_def Let_def ls_ctl_def nth_list_update list3_eq lamp_bytes.simps)
  qed
  then obtain s' where s': "lms_exec s Stmt = Some s'" "env_inv (env s')" "build_inv s'"
    "sent (env s') = wire fs"
    "if pc s = 9 then send_state (g_lms (env s')) = STATE_TX_LS \<and> accepted s' = accepted s @ [args s] \<and>
       cmd_data (cmd_info (g_lms (env s'))) = lamp_bytes (args s) \<and>
       cmd_current_send_index (cmd_info (g_lms (env s'))) = 0
     else send_state (g_lms (env s')) = STATE_TX_SS \<and> accepted s' = accepted s" by blast
  have "wire_inv s'"
  proof (cases "pc s = 9")
    case True
    with s' wire show ?thesis
      by (intro wire_inv_LS [of _ fs "args s"]) simp_all
  next
    case False
    with s' wire show ?thesis by (auto simp: wire_inv_SS)
  qed
  with s' show ?thesis by (auto simp: lms_inv_def)
qed

lemma lms_inv_stmt:
  assumes inv: "lms_inv s" and pc: "pc s \<noteq> 0" and ok: "\<not> sync_overrun s"
  shows "\<exists>s'. lms_exec s Stmt = Some s' \<and> lms_inv s'"
proof (cases "pc s = 1")
  case True
  with inv show ?thesis
    by (simp add: lms_exec_def build_step_def lms_inv_def)
      (auto simp: build_inv_def env_inv_def Let_def intro: Send_State_E.exhaust)
next
  case False
  with lms_inv_assign [OF inv _ ok] pc show ?thesis by simp
qed

lemma lms_inv_step:
  assumes "lms_inv s" "lms_enabled s ev" "ev = Stmt \<Longrightarrow> \<not> sync_overrun s"
  shows "\<exists>s'. lms_exec s ev = Some s' \<and> lms_inv s'"
  using assms
  by (cases ev) (auto simp only: lms_enabled_def lms_event.case intro: lms_inv_tick lms_inv_delay
      lms_inv_call lms_inv_stmt)

lemma lms_inv_start: "lms_start s \<Longrightarrow> lms_inv s"
  by (auto simp: lms_start_def lms_inv_def env_inv_init build_inv_def wire_inv_SS Let_def)
    (auto simp: lms_init_def wire_inv_def intro: exI [of _ "[]"])

lemma lms_reach_inv: "lms_reach s \<Longrightarrow> lms_inv s"
proof (induction rule: lms_reach.induct)
  case (step s ev s')
  have "\<not> sync_overrun s" if "ev = Stmt" using step.hyps(3) lms_overrun [of s] that by auto
  with lms_inv_step [OF step.IH step.hyps(2)] step.hyps(3) show ?case by auto
qed (rule lms_inv_start)

section \<open>Running the machines\<close>

text \<open>
  A half wave of the mains: the zero-cross tick, then the transmit delay when the tick armed it. The
  delay (2.5 ms) is over well before the next tick (10 ms).
\<close>

definition lms_cycle :: "u8 option \<Rightarrow> lms_env \<Rightarrow> lms_env option" where
  "lms_cycle rx e = do {
     e \<leftarrow> lms_state_machine rx e;
     if txDelay e then timer0_TxDelay_cb e else Some e
   }"

fun lms_cycles :: "u8 option list \<Rightarrow> lms_env \<Rightarrow> lms_env option" where
  "lms_cycles [] e = Some e"
| "lms_cycles (rx # rxs) e = do { e \<leftarrow> lms_cycle rx e; lms_cycles rxs e }"

text \<open>Cycles left until a command is sent and unlocked: at most 39.\<close>

definition cycles_left :: "lms_env \<Rightarrow> nat" where
  "cycles_left e =
    (let l = g_lms e; rest = 4 - unat (cmd_current_send_index (cmd_info l)) in
     case lms_st l of STATE_INIT \<Rightarrow> 1 + rest | STATE_TX \<Rightarrow> rest
     | STATE_WAITRCV \<Rightarrow> unat (waitToRecvicntLeft l) + 34 + rest
     | STATE_RECVING \<Rightarrow> 33 - unat (terminal_index l) + rest)"

lemma cycles_left_le: "env_inv e \<Longrightarrow> cycles_left e \<le> 39"
  by (auto simp: cycles_left_def env_inv_def Let_def split: LMS_STATE_E.splits)

definition unsent :: "lms_env \<Rightarrow> u8 list" where
  "unsent e = drop (unat (cmd_current_send_index (cmd_info (g_lms e)))) (cmd_data (cmd_info (g_lms e)))"

lemma u8_le1: "unat (x :: u8) \<le> 1 \<Longrightarrow> x = 0 \<or> x = 1"
  by (auto simp: word_unat_eq_iff le_Suc_eq)

lemma tick_not_TX:
  assumes "env_inv e" "lms_st (g_lms e) \<noteq> STATE_TX"
  shows "\<exists>e'. lms_cycle rx e = Some e' \<and> env_inv e' \<and> sent e' = sent e \<and>
    cmd_info (g_lms e') = cmd_info (g_lms e) \<and> send_state (g_lms e') = send_state (g_lms e) \<and>
    cycles_left e = Suc (cycles_left e')"
proof -
  from tick_inv [OF assms(1), of rx] obtain e' where e': "lms_state_machine rx e = Some e'" "env_inv e'"
    "sent e' = sent e" "cmd_info (g_lms e') = cmd_info (g_lms e)"
    "send_state (g_lms e') = send_state (g_lms e)" by blast
  have off: "\<not> txDelay e" using assms by (auto simp: env_inv_def Let_def)
  have same: "txDelay e' = txDelay e"
    using e'(1) assms(2)
    by (auto simp: lms_state_machine_def lms_recving_def Let_def bind_eq_Some_conv
        split: LMS_STATE_E.splits if_splits)
  have "unat (waitToRecvicntLeft (g_lms e)) \<le> 1" using assms by (simp add: env_inv_def Let_def)
  then consider "waitToRecvicntLeft (g_lms e) = 0" | "waitToRecvicntLeft (g_lms e) = 1"
    using u8_le1 by blast
  then have "cycles_left e = Suc (cycles_left e')"
    using e'(1,4) assms
    by cases (auto simp: lms_state_machine_def lms_recving_def Let_def bind_eq_Some_conv cycles_left_def
        TERMIANL_NUM_def env_inv_def unat_u8_Suc split: LMS_STATE_E.splits if_splits)
  with e' off same show ?thesis by (simp add: lms_cycle_def)
qed

lemma cycle_TX:
  assumes "env_inv e" "lms_st (g_lms e) = STATE_TX"
  shows "lms_cycle rx e = timer0_TxDelay_cb (e\<lparr>txDelay := True\<rparr>)" "env_inv (e\<lparr>txDelay := True\<rparr>)"
  using assms by (simp_all add: lms_cycle_def lms_state_machine_def timer0_txDelay_start_def env_inv_def Let_def)

lemma unsent_step:
  assumes "length d = 3" "i < 3" shows "drop i d = d ! i # drop (Suc i) d"
  using assms by (simp add: Cons_nth_drop_Suc)

lemma cycle_LS:
  assumes inv: "env_inv e" and LS: "send_state (g_lms e) = STATE_TX_LS"
  shows "\<exists>e'. lms_cycle rx e = Some e' \<and> env_inv e' \<and>
    (if cycles_left e = 1 then sent e' = sent e @ unsent e \<and> send_state (g_lms e') = STATE_TX_SS \<and>
       write_lock (cmd_info (g_lms e')) = 0
     else sent e' @ unsent e' = sent e @ unsent e \<and> send_state (g_lms e') = STATE_TX_LS \<and>
       cycles_left e = Suc (cycles_left e'))"
proof (cases "lms_st (g_lms e) = STATE_TX")
  case False
  from tick_not_TX [OF inv False, of rx] obtain e' where e': "lms_cycle rx e = Some e'" "env_inv e'"
    "sent e' = sent e" "cmd_info (g_lms e') = cmd_info (g_lms e)"
    "send_state (g_lms e') = send_state (g_lms e)" "cycles_left e = Suc (cycles_left e')" by blast
  have "cycles_left e \<noteq> 1"
    using False inv by (auto simp: cycles_left_def env_inv_def Let_def split: LMS_STATE_E.splits)
  with e' LS show ?thesis by (simp add: unsent_def)
next
  case True
  let ?c = "cmd_info (g_lms e)"
  let ?i = "unat (cmd_current_send_index ?c)"
  have i3: "?i \<le> 3" and len: "length (cmd_data ?c) = 3"
    using inv by (simp_all add: env_inv_def Let_def)
  from delay_LS [OF cycle_TX(2) [OF inv True]] LS obtain e' where
    e': "lms_cycle rx e = Some e'" "env_inv e'" and
    eff: "let c' = cmd_info (g_lms e') in
     cmd_data c' = cmd_data ?c \<and> lms_st (g_lms e') = STATE_TX \<and>
     (if ?i < 3 then sent e' = sent e @ [cmd_data ?c ! ?i] \<and> unat (cmd_current_send_index c') = Suc ?i \<and>
        send_state (g_lms e') = STATE_TX_LS \<and> write_lock c' = write_lock ?c
      else sent e' = sent e \<and> cmd_current_send_index c' = 0 \<and>
        send_state (g_lms e') = STATE_TX_SS \<and> write_lock c' = 0)"
    by (auto simp: cycle_TX(1) [OF inv True] Let_def)
  show ?thesis
  proof (cases "?i < 3")
    case less: True
    with eff True e' show ?thesis
      by (auto simp: cycles_left_def unsent_def Let_def unsent_step [OF len less])
  next
    case ge: False
    with eff True e' i3 len show ?thesis by (auto simp: cycles_left_def unsent_def Let_def)
  qed
qed

lemma cycles_LS:
  assumes "env_inv e" "send_state (g_lms e) = STATE_TX_LS" "length rxs = cycles_left e"
  shows "\<exists>e'. lms_cycles rxs e = Some e' \<and> env_inv e' \<and> sent e' = sent e @ unsent e \<and>
    send_state (g_lms e') = STATE_TX_SS \<and> write_lock (cmd_info (g_lms e')) = 0"
  using assms
proof (induction rxs arbitrary: e)
  case Nil
  then show ?case
    by (auto simp: cycles_left_def env_inv_def Let_def split: LMS_STATE_E.splits)
next
  case (Cons rx rxs)
  from cycle_LS [OF Cons.prems(1,2), of rx] obtain e' where e': "lms_cycle rx e = Some e'" "env_inv e'"
    "if cycles_left e = 1 then sent e' = sent e @ unsent e \<and> send_state (g_lms e') = STATE_TX_SS \<and>
       write_lock (cmd_info (g_lms e')) = 0
     else sent e' @ unsent e' = sent e @ unsent e \<and> send_state (g_lms e') = STATE_TX_LS \<and>
       cycles_left e = Suc (cycles_left e')" by blast
  show ?case
  proof (cases "cycles_left e = 1")
    case True
    with Cons.prems(3) e' show ?thesis by auto
  next
    case False
    with e' Cons.prems(3) Cons.IH [OF e'(2)] show ?thesis by auto
  qed
qed

section \<open>A polling round\<close>

fun lms_ticks :: "u8 option list \<Rightarrow> lms_env \<Rightarrow> lms_env option" where
  "lms_ticks [] e = Some e"
| "lms_ticks (rx # rxs) e = do { e \<leftarrow> lms_state_machine rx e; lms_ticks rxs e }"

lemma lms_ticks_append:
  "lms_ticks (xs @ ys) e = do { e \<leftarrow> lms_ticks xs e; lms_ticks ys e }"
  by (induction xs arbitrary: e) (simp_all split: bind_split)

text \<open>The terminals whose answer differs from the stored state, in polling order.\<close>

definition changed_terminals :: "u8 list \<Rightarrow> u8 list \<Rightarrow> u32 list" where
  "changed_terminals old new = map of_nat (filter (\<lambda>i. new ! i \<noteq> old ! i) [0..<length new])"

lemma changed_terminals_snoc:
  "changed_terminals old (new @ [b]) =
   changed_terminals old new @ (if b \<noteq> old ! length new then [of_nat (length new)] else [])"
proof -
  have "filter (\<lambda>i. (new @ [b]) ! i \<noteq> old ! i) [0..<length new] =
      filter (\<lambda>i. new ! i \<noteq> old ! i) [0..<length new]"
    by (rule filter_cong) (auto simp: nth_append)
  then show ?thesis by (simp add: changed_terminals_def)
qed

lemma recv_ticks:
  assumes inv: "env_inv e" and st: "lms_st (g_lms e) = STATE_RECVING" "terminal_index (g_lms e) = 0"
    and len: "length rxs \<le> 32"
  shows "\<exists>e'. lms_ticks rxs e = Some e' \<and> env_inv e' \<and> lms_st (g_lms e') = STATE_RECVING \<and>
    unat (terminal_index (g_lms e')) = length rxs \<and>
    terminalState (g_lms e') = map lms_uart_recv_byte rxs @ drop (length rxs) (terminalState (g_lms e)) \<and>
    lms_mb e' = foldl mb_put (lms_mb e) (changed_terminals (terminalState (g_lms e)) (map lms_uart_recv_byte rxs))"
  using len
proof (induction rxs rule: rev_induct)
  case Nil
  then show ?case using inv st by (simp add: changed_terminals_def)
next
  case (snoc rx rxs)
  let ?old = "terminalState (g_lms e)" and ?b = "lms_uart_recv_byte rx"
  from snoc obtain e1 where e1: "lms_ticks rxs e = Some e1" "env_inv e1" "lms_st (g_lms e1) = STATE_RECVING"
    "unat (terminal_index (g_lms e1)) = length rxs"
    "terminalState (g_lms e1) = map lms_uart_recv_byte rxs @ drop (length rxs) ?old"
    "lms_mb e1 = foldl mb_put (lms_mb e) (changed_terminals ?old (map lms_uart_recv_byte rxs))" by auto
  from tick_inv [OF e1(2), of rx] obtain e2 where e2: "lms_state_machine rx e1 = Some e2" "env_inv e2" by blast
  have old: "length ?old = 32" using inv by (simp add: env_inv_def Let_def)
  have less: "length rxs < 32" using snoc.prems by simp
  have tl: "drop (length rxs) ?old = ?old ! length rxs # drop (Suc (length rxs)) ?old"
    using old less by (simp add: Cons_nth_drop_Suc)
  have idx: "(ucast (terminal_index (g_lms e1)) :: u32) = of_nat (length rxs)"
    using e1(4) by (metis of_nat_unat)
  have mb: "mb_inv (lms_mb e1)" using e1(2) by (simp add: env_inv_def Let_def)
  have "lms_st (g_lms e2) = STATE_RECVING \<and> unat (terminal_index (g_lms e2)) = Suc (length rxs) \<and>
    terminalState (g_lms e2) = (terminalState (g_lms e1))[length rxs := ?b] \<and>
    lms_mb e2 = (if ?b \<noteq> terminalState (g_lms e1) ! length rxs then mb_put (lms_mb e1) (of_nat (length rxs))
                 else lms_mb e1)"
    using e2(1) e1(3,4,5) less old
    by (auto simp: lms_state_machine_def lms_recving_def Let_def TERMIANL_NUM_def idx
        rt_mb_send_put [OF mb] unat_u8_Suc list_update_id)
  moreover have "terminalState (g_lms e1) ! length rxs = ?old ! length rxs"
    using e1(5) tl by (simp add: nth_append)
  ultimately show ?case
    using e1 e2 tl by (simp add: lms_ticks_append list_update_append
      changed_terminals_snoc [of _ "map f xs" for f xs, simplified])
qed

section \<open>The receiver's view\<close>

text \<open>
  A lamp controller reading the bus: \<open>DeSyncFrame\<close> of the sync byte tells a poll from a command, whose
  two-byte body it takes when the check nibble is right.
\<close>

fun bus_decode :: "u8 list \<Rightarrow> lms_frame list" where
  "bus_decode [] = []"
| "bus_decode (b # bs) =
    (case DeSyncFrame b of
       None \<Rightarrow> []
     | Some v \<Rightarrow>
         if bit v 7 then
           (case bs of
              sg # ctl # rest \<Rightarrow>
                (if ls_accept sg ctl then [Lamp (v AND 0x07, sg, drop_bit 4 ctl)] else []) @ bus_decode rest
            | _ \<Rightarrow> [])
         else Poll # bus_decode bs)"

definition sendable :: "lamp_cmd \<Rightarrow> bool" where
  "sendable a \<longleftrightarrow> (case a of (g, sg, c) \<Rightarrow> g < 8 \<and> c < 16)"

lemma DeSync_poll: "DeSyncFrame poll_byte = Some 1"
  by (simp add: poll_byte_def DeSyncFrame_def syndrome_def Errorpattern_def sync_payload_def rd_def)

lemma DeSync_lamp: "g < 8 \<Longrightarrow> DeSyncFrame (Cal_GenSyncFrame g LONG_CMD) = Some (g OR 0x80)"
  using DeSync_codeword [of g LONG_CMD] GenSyncFrame_Cal [of g LONG_CMD]
  by (simp add: LONG_CMD_def)

lemma u8_below_bit:
  assumes "unat (x :: u8) < 2 ^ k" "bit x n" shows "n < k"
proof -
  have "bit (take_bit k (unat x)) n"
    using assms by (simp add: take_bit_nat_eq_self bit_unsigned_iff)
  then show ?thesis by (simp add: bit_take_bit_iff)
qed

lemma sync_lamp_fields:
  assumes "g < (8 :: u8)"
  shows "bit (g OR 0x80) 7" "(g OR 0x80) AND 0x07 = g"
  using u8_below8 [OF assms] by (elim insertE emptyE; simp)+

lemma drop_ls_ctl:
  assumes "c < 16" shows "drop_bit 4 (ls_ctl sg c) = c"
proof (rule bit_word_eqI)
  fix n assume "n < LENGTH(8)"
  have "bit c n \<Longrightarrow> n < 4" using u8_below_bit [of c 4 n] assms by (simp add: word_less_nat_alt)
  then show "bit (drop_bit 4 (ls_ctl sg c)) n = bit c n"
    by (auto simp: ls_ctl_def bit_simps dest: crc4_itu_bit)
qed

lemma bus_decode_poll: "bus_decode (poll_byte # bs) = Poll # bus_decode bs"
  by (simp add: DeSync_poll)

lemma bus_decode_lamp:
  "sendable a \<Longrightarrow> bus_decode (lamp_bytes a @ bs) = Lamp a # bus_decode bs"
  by (auto simp: sendable_def lamp_bytes.simps DeSync_lamp sync_lamp_fields ls_accept_ctl drop_ls_ctl
      split: prod.splits)

lemma bus_decode_partial:
  assumes "sendable a" "k < 3" shows "bus_decode (take k (lamp_bytes a)) = []"
proof -
  have "k \<in> {0, 1, 2}" using assms(2) by auto
  then show ?thesis
    using assms(1) by (elim insertE emptyE)
      (auto simp: sendable_def lamp_bytes.simps DeSync_lamp sync_lamp_fields split: prod.splits)
qed

lemma bus_decode_wire_append:
  "list_all sendable (lamps fs) \<Longrightarrow> bus_decode (wire fs @ bs) = fs @ bus_decode bs"
  by (induction fs rule: lamps.induct)
    (simp_all add: bus_decode_poll bus_decode_lamp del: bus_decode.simps(2))

section \<open>Runs, for concrete executions\<close>

fun lms_run :: "lms_sys \<Rightarrow> lms_event list \<Rightarrow> lms_sys option" where
  "lms_run s [] = Some s"
| "lms_run s (ev # evs) =
    (if lms_enabled s ev then do { s \<leftarrow> lms_exec s ev; lms_run s evs } else None)"

lemma lms_run_reach: "lms_run s evs = Some s' \<Longrightarrow> lms_reach s \<Longrightarrow> lms_reach s'"
  by (induction s evs rule: lms_run.induct)
    (auto simp: bind_eq_Some_conv split: if_splits intro: lms_reach.step)

definition lms_boot :: lms_sys where
  "lms_boot = \<lparr>env = lms_init (replicate 32 0) \<lparr>g_lms = \<lparr>lms_st = STATE_INIT, send_state = STATE_TX_SS,
       cmd_info = \<lparr>group_id = 0, seg_id = 0, write_lock = 0, cmd_data = [0, 0, 0], cmd_toSend = 0,
         cmd_current_send_index = 0\<rparr>, waitToRecvicntLeft = 0, terminal_index = 0, terminalState = [],
       polling_complete_flag = 0\<rparr>, lms_mb = rt_mb_init [] 0, txDelay = False, sendMode = False, sent = []\<rparr>,
     pc = 0, args = (0, 0, 0), accepted = []\<rparr>"

lemma lms_boot_reach: "lms_reach lms_boot"
  by (rule lms_reach.start) (simp add: lms_start_def lms_boot_def, intro exI conjI, rule refl, simp_all)

section \<open>Properties\<close>

definition lms_demo :: "lms_event list" where
  "lms_demo = [Call 3 5 2, Stmt, Stmt, Stmt, Tick None, Stmt, Stmt, Stmt, Stmt, Stmt, Stmt,
     Tick None, Delay, Tick None, Delay]"

definition lms_demo_poll :: "lms_event list" where
  "lms_demo_poll = [Tick None, Tick None, Delay, Tick None, Tick None]"

lemmas lms_eval = lms_boot_def lms_enabled_def lms_exec_def build_step_def build_stmt_def lms_ops Let_def
  lms_init_def lms_mailbox_init_def GenSyncFrame_def sync_index_def TxSyncFrame_def poll_byte_def
  lms_consts crc4_itu_def crc4_bits_8 crc4_bit_eval TERMIANL_NUM_def

lemma replicate_3: "replicate 3 x = [x, x, x]"
  by (simp add: numeral_eq_Suc)

lemma lms_demo_run: "\<exists>s. lms_run lms_boot lms_demo = Some s \<and> send_state (g_lms (env s)) = STATE_TX_LS \<and>
    sent (env s) = [0x38, 5] \<and> accepted s = [(3, 5, 2)] \<and> cmd_current_send_index (cmd_info (g_lms (env s))) = 2
    \<and> cycles_left (env s) = 2 \<and> unsent (env s) = [0x2d]"
  by (simp add: lms_demo_def lms_eval replicate_3) (simp add: cycles_left_def unsent_def drop_Cons')

lemma lms_demo_poll_run: "\<exists>s. lms_run lms_boot lms_demo_poll = Some s \<and> lms_st (g_lms (env s)) = STATE_RECVING \<and>
    pc s = 0 \<and> terminal_index (g_lms (env s)) = 0 \<and> terminalState (g_lms (env s)) = replicate 32 0xff \<and>
    mb_items (lms_mb (env s)) = []"
  by (simp add: lms_demo_poll_def lms_eval)

lemma lms_demo_reach:
  "\<exists>s. lms_reach s \<and> send_state (g_lms (env s)) = STATE_TX_LS \<and> sent (env s) = [0x38, 5] \<and>
     accepted s = [(3, 5, 2)] \<and> cycles_left (env s) = 2 \<and> unsent (env s) = [0x2d]"
  using lms_demo_run lms_run_reach [OF _ lms_boot_reach] by blast

lemma lms_demo_poll_reach:
  "\<exists>s. lms_reach s \<and> lms_st (g_lms (env s)) = STATE_RECVING \<and> pc s = 0 \<and>
     terminal_index (g_lms (env s)) = 0 \<and> terminalState (g_lms (env s)) = replicate 32 0xff \<and> mb_items (lms_mb (env s)) = []"
  using lms_demo_poll_run lms_run_reach [OF _ lms_boot_reach] by blast

text \<open>C1: Under every interleaving of the interrupts with \<open>build_ctrl_cmd\<close>, the bytes handed to the
  transmitter are whole frames followed by at most a prefix of the command being sent, and the
  commands on the wire are exactly the accepted ones, each once and in order.\<close>

theorem lms_wire_frames:
  assumes "lms_reach s"
  shows "case send_state (g_lms (env s)) of
      STATE_TX_SS \<Rightarrow> \<exists>fs. sent (env s) = wire fs \<and> lamps fs = accepted s
    | STATE_TX_LS \<Rightarrow> \<exists>fs a. lamps fs @ [a] = accepted s \<and> sent (env s) =
        wire fs @ take (unat (cmd_current_send_index (cmd_info (g_lms (env s))))) (lamp_bytes a)"
  using lms_reach_inv [OF assms] unfolding lms_inv_def wire_inv_def Let_def
  by (auto split: Send_State_E.splits simp del: split_paired_Ex)

theorem lms_wire_frames_witness:
  "\<exists>s. lms_reach s \<and> accepted s = [(3, 5, 2)] \<and> sent (env s) = [0x38, 5] \<and>
     (\<exists>fs k. lamps fs = [] \<and> sent (env s) = wire fs @ take k (lamp_bytes (3, 5, 2)))"
proof -
  obtain s where s: "lms_reach s" "send_state (g_lms (env s)) = STATE_TX_LS" "sent (env s) = [0x38, 5]"
    "accepted s = [(3, 5, 2)]" using lms_demo_reach by blast
  with lms_wire_frames [OF s(1)] obtain fs a where "lamps fs @ [a] = [(3, 5, 2)]"
    "sent (env s) = wire fs @ take (unat (cmd_current_send_index (cmd_info (g_lms (env s))))) (lamp_bytes a)"
    by auto
  then have "lamps fs = [] \<and> sent (env s) =
      wire fs @ take (unat (cmd_current_send_index (cmd_info (g_lms (env s))))) (lamp_bytes (3, 5, 2))" by simp
  with s show ?thesis by blast
qed

text \<open>C2: In every reachable state every enabled event runs and reaches a state of the model, except the
  one statement of \<open>build_ctrl_cmd\<close> that takes the sync frame of the group: for a group above 7, which
  no caller refuses, it reads beyond \<open>TxSyncFrame\<close>. No other access leaves an array. While answers are
  being received the RS-485 driver is in receive mode and the transmit timer is not armed, so nothing is
  sent over an answer.\<close>

theorem lms_no_fault:
  assumes "lms_reach s" "lms_enabled s ev"
  shows "(if ev = Stmt \<and> pc s = 6 \<and> \<not> fst (args s) < 8 then lms_exec s ev = None
      else \<exists>s'. lms_exec s ev = Some s' \<and> lms_reach s') \<and>
    (lms_st (g_lms (env s)) = STATE_RECVING \<longrightarrow> \<not> sendMode (env s) \<and> \<not> txDelay (env s))"
proof (cases "ev = Stmt \<and> sync_overrun s")
  case True
  then show ?thesis
    using lms_overrun [of s] lms_reach_inv [OF assms(1)] by (auto simp: sync_overrun_def lms_inv_def env_inv_def Let_def)
next
  case False
  have inv: "lms_inv s" using assms(1) by (rule lms_reach_inv)
  from lms_inv_step [OF inv assms(2)] False obtain s' where "lms_exec s ev = Some s'" by blast
  with assms inv False show ?thesis
    by (auto intro: lms_reach.step simp: lms_inv_def env_inv_def sync_overrun_def Let_def)
qed

theorem lms_no_fault_witness:
  "\<exists>s s' s6. lms_st (g_lms (env s)) = STATE_RECVING \<and> \<not> sendMode (env s) \<and> \<not> txDelay (env s) \<and>
     lms_exec s (Call 8 1 3) = Some s' \<and> lms_reach s' \<and>
     lms_run lms_boot [Call 8 1 3, Stmt, Stmt, Stmt, Stmt, Stmt] = Some s6 \<and> lms_exec s6 Stmt = None"
proof -
  obtain s where s: "lms_reach s" "lms_st (g_lms (env s)) = STATE_RECVING" "pc s = 0"
    using lms_demo_poll_reach by blast
  moreover have "lms_enabled s (Call 8 1 3)" using s(3) by (simp add: lms_enabled_def)
  ultimately obtain s' where s': "lms_exec s (Call 8 1 3) = Some s'" "lms_reach s'" "\<not> sendMode (env s)" "\<not> txDelay (env s)"
    using lms_no_fault [of s "Call 8 1 3"] by auto
  have "\<exists>s6. lms_run lms_boot [Call 8 1 3, Stmt, Stmt, Stmt, Stmt, Stmt] = Some s6 \<and> pc s6 = 6 \<and> args s6 = (8, 1, 3)"
    by (simp add: lms_eval)
  then obtain s6 where s6: "lms_run lms_boot [Call 8 1 3, Stmt, Stmt, Stmt, Stmt, Stmt] = Some s6" "pc s6 = 6"
    "args s6 = (8, 1, 3)" by blast
  have "lms_exec s6 Stmt = None"
    using lms_no_fault [OF lms_run_reach [OF s6(1) lms_boot_reach], of Stmt] s6(2,3) by (simp add: lms_enabled_def)
  with s s' s6(1) show ?thesis by blast
qed

text \<open>A receiver that decodes the bus with \<open>DeSyncFrame\<close> and the check nibble recovers exactly the
  frames that were sent, and a command that is still being sent gives nothing yet.\<close>

lemma bus_decode_wire:
  assumes "list_all sendable (lamps fs)" "sendable a" "k < 3"
  shows "bus_decode (wire fs @ take k (lamp_bytes a)) = fs"
  using assms by (simp add: bus_decode_wire_append bus_decode_partial)

theorem bus_decode_wire_witness:
  "bus_decode (wire [Poll, Lamp (3, 5, 2), Poll] @ take 2 (lamp_bytes (7, 0x1F, 3))) = [Poll, Lamp (3, 5, 2), Poll]"
  by (rule bus_decode_wire) (simp_all add: sendable_def)

text \<open>C3: Liveness of a lamp command: from every reachable state with a command being sent, after
  \<open>cycles_left\<close> half waves, at most 39 whatever the receiver delivers, exactly the missing bytes of the
  command have been sent, the lock is released and polling resumes.\<close>

theorem lms_command_sent:
  assumes "lms_reach s" "send_state (g_lms (env s)) = STATE_TX_LS" "length rxs = cycles_left (env s)"
  shows "cycles_left (env s) \<le> 39 \<and>
    (\<exists>e'. lms_cycles rxs (env s) = Some e' \<and> sent e' = sent (env s) @ unsent (env s) \<and>
       send_state (g_lms e') = STATE_TX_SS \<and> write_lock (cmd_info (g_lms e')) = 0)"
proof -
  have "env_inv (env s)" using lms_reach_inv [OF assms(1)] by (simp add: lms_inv_def)
  with cycles_LS [OF this assms(2,3)] cycles_left_le [OF this] show ?thesis by blast
qed

theorem lms_command_sent_witness:
  "\<exists>s e'. lms_reach s \<and> lms_cycles [None, Some 7] (env s) = Some e' \<and> sent (env s) = [0x38, 5] \<and>
     sent e' = [0x38, 5, 0x2d] \<and> write_lock (cmd_info (g_lms e')) = 0"
proof -
  obtain s where s: "lms_reach s" "send_state (g_lms (env s)) = STATE_TX_LS" "sent (env s) = [0x38, 5]"
    "cycles_left (env s) = 2" "unsent (env s) = [0x2d]" using lms_demo_reach by blast
  then show ?thesis using lms_command_sent [OF s(1,2), of "[None, Some 7]"] by auto
qed

text \<open>C4: A polling round: 33 ticks after reception starts, the 32 terminal states are the answers
  received (0xff for a missing one), the index of every terminal that changed has been posted in order,
  as far as the mailbox has room, and the machine is ready to transmit.\<close>

theorem lms_poll_round:
  assumes "lms_reach s" "lms_st (g_lms (env s)) = STATE_RECVING" "terminal_index (g_lms (env s)) = 0"
    "length rxs = 32"
  shows "\<exists>e'. lms_ticks (rxs @ [rx]) (env s) = Some e' \<and> terminalState (g_lms e') = map lms_uart_recv_byte rxs \<and>
    mb_items (lms_mb e') = take 32 (mb_items (lms_mb (env s)) @
      changed_terminals (terminalState (g_lms (env s))) (map lms_uart_recv_byte rxs)) \<and>
    lms_st (g_lms e') = STATE_TX \<and> polling_complete_flag (g_lms e') = 1 \<and> terminal_index (g_lms e') = 0"
proof -
  have inv: "env_inv (env s)" using lms_reach_inv [OF assms(1)] by (simp add: lms_inv_def)
  then have mb: "mb_inv (lms_mb (env s))" "mb_size (lms_mb (env s)) = 32"
    and len: "length (terminalState (g_lms (env s))) = 32" by (simp_all add: env_inv_def Let_def)
  from recv_ticks [OF inv assms(2,3), of rxs] assms(4) obtain e1 where e1: "lms_ticks rxs (env s) = Some e1"
    "lms_st (g_lms e1) = STATE_RECVING" "unat (terminal_index (g_lms e1)) = 32"
    "terminalState (g_lms e1) = map lms_uart_recv_byte rxs"
    "lms_mb e1 = foldl mb_put (lms_mb (env s)) (changed_terminals (terminalState (g_lms (env s))) (map lms_uart_recv_byte rxs))"
    by (auto simp: len)
  then show ?thesis
    by (simp add: lms_ticks_append lms_state_machine_def lms_recving_def TERMIANL_NUM_def
        mbq.items_puts [OF mb(1)] mb(2))
qed

theorem lms_poll_round_witness:
  "\<exists>s e'. lms_reach s \<and> lms_ticks (Some 0x0b # Some 0xff # Some 0x74 # replicate 30 None) (env s) = Some e' \<and>
     mb_items (lms_mb e') = [0, 2]"
proof -
  obtain s where s: "lms_reach s" "lms_st (g_lms (env s)) = STATE_RECVING" "terminal_index (g_lms (env s)) = 0"
    "terminalState (g_lms (env s)) = replicate 32 0xff" "mb_items (lms_mb (env s)) = []"
    using lms_demo_poll_reach by blast
  let ?rxs = "Some 0x0b # Some 0xff # Some 0x74 # replicate 29 None"
  have ch: "changed_terminals (replicate 32 0xff) (map lms_uart_recv_byte ?rxs) = [0, 2]"
  proof -
    have "[0..<32] = 0 # 1 # 2 # [3..<32]" by (simp add: upt_conv_Cons)
    then show ?thesis
      by (auto simp: changed_terminals_def lms_uart_recv_byte_def filter_empty_conv nth_Cons')
  qed
  have app: "?rxs @ [None] = Some 0x0b # Some 0xff # Some 0x74 # replicate 30 None"
    by (simp add: numeral_eq_Suc)
  have "length ?rxs = 32" by simp
  from lms_poll_round [OF s(1,2,3) this, of None] obtain e' where e':
    "lms_ticks (?rxs @ [None]) (env s) = Some e'"
    "mb_items (lms_mb e') = take 32 (mb_items (lms_mb (env s)) @
      changed_terminals (terminalState (g_lms (env s))) (map lms_uart_recv_byte ?rxs))" by blast
  have "mb_items (lms_mb e') = [0, 2]" using e'(2) unfolding s(4,5) ch by simp
  with e'(1) s(1) show ?thesis unfolding app by blast
qed

text \<open>\<open>build_ctrl_cmd\<close> on every branch: a locked buffer is left alone; otherwise the buffer holds the
  sync frame of the group, the segment and the checked order, is locked and selected for sending; a
  group above 7 indexes outside the table of sync frames.\<close>

lemma build_ctrl_cmd_cases:
  assumes "length (cmd_data (cmd_info (g_lms e))) = 3"
  shows "build_ctrl_cmd g sg c e =
    (if write_lock (cmd_info (g_lms e)) \<noteq> 0 then Some e
     else if g < 8 then
       Some (e\<lparr>g_lms := (g_lms e)\<lparr>cmd_info := (cmd_info (g_lms e))\<lparr>write_lock := 1, group_id := g, seg_id := sg,
          cmd_toSend := c, cmd_data := lamp_bytes (g, sg, c)\<rparr>, send_state := STATE_TX_LS\<rparr>\<rparr>)
     else None)"
  using assms GenSyncFrame_Cal [of g LONG_CMD] GenSyncFrame_out [of g LONG_CMD]
  by (auto simp: build_ctrl_cmd_def lamp_bytes.simps ls_ctl_def list3_eq nth_list_update LONG_CMD_def)

theorem build_ctrl_cmd_cases_witness:
  "build_ctrl_cmd 8 0 2 (env lms_boot) = None \<and>
   map_option (\<lambda>e. cmd_data (cmd_info (g_lms e))) (build_ctrl_cmd 3 5 2 (env lms_boot)) = Some [0x38, 5, 0x2d]"
proof -
  have len: "length (cmd_data (cmd_info (g_lms (env lms_boot)))) = 3"
    by (simp add: lms_boot_def lms_init_def)
  have lock: "write_lock (cmd_info (g_lms (env lms_boot))) = 0" by (simp add: lms_boot_def lms_init_def)
  show ?thesis
    by (simp add: build_ctrl_cmd_cases [OF len] lock lamp_bytes.simps ls_ctl_def Cal_GenSyncFrame_def
        lms_consts crc4_itu_def crc4_bits_8 crc4_bit_eval)
qed

end
