(* ===== verification/MultiButton.thy ===== *)
theory MultiButton
  imports Prelude
begin

text \<open>
  The push button driver (\<open>applications/multi_button.c\<close>): the debouncing and click recognising state
  machine \<open>button_handler\<close>, run every 5 ms for each button of a linked list, and the operations on
  that list. Bit fields are words of their width, so \<open>repeat\<close> wraps at 16. A call-back slot is
  \<open>None\<close> or the identity of the function; the handler's result lists the events whose call-back
  it invoked. The list lives in a store from addresses to buttons.
\<close>

section \<open>Data\<close>

datatype PressEvent = PRESS_DOWN | PRESS_UP | PRESS_REPEAT | SINGLE_CLICK | DOUBLE_CLICK
  | LONG_PRESS_START | LONG_PRESS_HOLD | number_of_event | NONE_PRESS

fun press_code :: "PressEvent \<Rightarrow> nat" where
  "press_code PRESS_DOWN = 0"
| "press_code PRESS_UP = 1"
| "press_code PRESS_REPEAT = 2"
| "press_code SINGLE_CLICK = 3"
| "press_code DOUBLE_CLICK = 4"
| "press_code LONG_PRESS_START = 5"
| "press_code LONG_PRESS_HOLD = 6"
| "press_code number_of_event = 7"
| "press_code NONE_PRESS = 8"

definition DEBOUNCE_TICKS :: "3 word" where "DEBOUNCE_TICKS = 3"
definition SHORT_TICKS :: u16 where "SHORT_TICKS = 300 div 5"
definition LONG_TICKS :: u16 where "LONG_TICKS = 1000 div 5"

record Button =
  ticks :: u16
  repeat :: "4 word"
  bt_event :: "4 word"
  bt_state :: "3 word"
  debounce_cnt :: "3 word"
  active_level :: "1 word"
  button_level :: "1 word"
  button_id :: u8
  cb :: "nat option list"
  next_btn :: "nat option"

definition set_event :: "PressEvent \<Rightarrow> Button \<Rightarrow> Button" where
  "set_event ev b = b\<lparr>bt_event := of_nat (press_code ev)\<rparr>"

section \<open>The state machine\<close>

text \<open>The macro \<open>EVENT_CB\<close>: the call-back of an event is invoked when it is not null.\<close>

definition EVENT_CB :: "Button \<Rightarrow> PressEvent \<Rightarrow> PressEvent list" where
  "EVENT_CB b ev = (if cb b ! press_code ev \<noteq> None then [ev] else [])"

definition button_debounce :: "u8 \<Rightarrow> Button \<Rightarrow> Button" where
  "button_debounce read_gpio_level b =
    (if read_gpio_level \<noteq> ucast (button_level b) then
       (let cnt = debounce_cnt b + 1 in
        if cnt \<ge> DEBOUNCE_TICKS
        then b\<lparr>button_level := ucast read_gpio_level, debounce_cnt := 0\<rparr>
        else b\<lparr>debounce_cnt := cnt\<rparr>)
     else b\<lparr>debounce_cnt := 0\<rparr>)"

definition button_machine :: "Button \<Rightarrow> Button \<times> PressEvent list" where
  "button_machine b =
    (let pressed = (button_level b = active_level b) in
     if bt_state b = 0 then
       (if pressed then ((set_event PRESS_DOWN b)\<lparr>ticks := 0, repeat := 1, bt_state := 1\<rparr>, EVENT_CB b PRESS_DOWN)
        else (set_event NONE_PRESS b, []))
     else if bt_state b = 1 then
       (if \<not> pressed then ((set_event PRESS_UP b)\<lparr>ticks := 0, bt_state := 2\<rparr>, EVENT_CB b PRESS_UP)
        else if ticks b > LONG_TICKS then ((set_event LONG_PRESS_START b)\<lparr>bt_state := 5\<rparr>, EVENT_CB b LONG_PRESS_START)
        else (b, []))
     else if bt_state b = 2 then
       (if pressed then
          ((set_event PRESS_DOWN b)\<lparr>repeat := repeat b + 1, ticks := 0, bt_state := 3\<rparr>,
           EVENT_CB b PRESS_DOWN @ EVENT_CB b PRESS_REPEAT)
        else if ticks b > SHORT_TICKS then
          (if repeat b = 1 then ((set_event SINGLE_CLICK b)\<lparr>bt_state := 0\<rparr>, EVENT_CB b SINGLE_CLICK)
           else if repeat b = 2 then ((set_event DOUBLE_CLICK b)\<lparr>bt_state := 0\<rparr>, EVENT_CB b DOUBLE_CLICK)
           else (b\<lparr>bt_state := 0\<rparr>, []))
        else (b, []))
     else if bt_state b = 3 then
       (if \<not> pressed then
          (if ticks b < SHORT_TICKS then ((set_event PRESS_UP b)\<lparr>ticks := 0, bt_state := 2\<rparr>, EVENT_CB b PRESS_UP)
           else ((set_event PRESS_UP b)\<lparr>bt_state := 0\<rparr>, EVENT_CB b PRESS_UP))
        else if ticks b > SHORT_TICKS then (b\<lparr>bt_state := 0\<rparr>, [])
        else (b, []))
     else if bt_state b = 5 then
       (if pressed then (set_event LONG_PRESS_HOLD b, EVENT_CB b LONG_PRESS_HOLD)
        else ((set_event PRESS_UP b)\<lparr>bt_state := 0\<rparr>, EVENT_CB b PRESS_UP))
     else (b\<lparr>bt_state := 0\<rparr>, []))"

text \<open>\<open>button_handler\<close> with the level that \<open>hal_button_Level(button_id)\<close> returns as an argument.\<close>

definition button_handler :: "u8 \<Rightarrow> Button \<Rightarrow> Button \<times> PressEvent list" where
  "button_handler read_gpio_level b =
    button_machine (button_debounce read_gpio_level
      (if bt_state b > 0 then b\<lparr>ticks := ticks b + 1\<rparr> else b))"

definition button_init :: "(u8 \<Rightarrow> u8) \<Rightarrow> u8 \<Rightarrow> u8 \<Rightarrow> Button" where
  "button_init pin_level active bid =
    \<lparr>ticks = 0, repeat = 0, bt_event = of_nat (press_code NONE_PRESS), bt_state = 0, debounce_cnt = 0,
     active_level = ucast active, button_level = ucast (pin_level bid), button_id = bid,
     cb = replicate (press_code number_of_event) None, next_btn = None\<rparr>"

definition button_attach :: "PressEvent \<Rightarrow> nat \<Rightarrow> Button \<Rightarrow> Button option" where
  "button_attach event f b = do {
     c \<leftarrow> wr (cb b) (press_code event) (Some f);
     Some (b\<lparr>cb := c\<rparr>)
   }"

definition get_button_event :: "Button \<Rightarrow> nat" where
  "get_button_event b = unat (bt_event b)"

section \<open>The list of buttons\<close>

record buttons =
  head_handle :: "nat option"
  btn :: "nat \<Rightarrow> Button"

text \<open>The search of \<open>button_start\<close>; it may not end on a cyclic list.\<close>

partial_function (option) started :: "buttons \<Rightarrow> nat option \<Rightarrow> nat \<Rightarrow> bool option" where
  "started s target handle = (case target of None \<Rightarrow> Some False
     | Some t \<Rightarrow> if t = handle then Some True else started s (next_btn (btn s t)) handle)"

definition button_start :: "nat \<Rightarrow> buttons \<Rightarrow> (int \<times> buttons) option" where
  "button_start handle s = do {
     found \<leftarrow> started s (head_handle s) handle;
     if found then Some (- 1, s)
     else Some (0, s\<lparr>btn := (btn s)(handle := (btn s handle)\<lparr>next_btn := head_handle s\<rparr>), head_handle := Some handle\<rparr>)
   }"

text \<open>\<open>curr\<close> points to \<open>head_handle\<close> or to the \<open>next\<close> field of a button.\<close>

datatype link = Head_handle | Next nat

fun deref :: "buttons \<Rightarrow> link \<Rightarrow> nat option" where
  "deref s Head_handle = head_handle s"
| "deref s (Next t) = next_btn (btn s t)"

fun assign :: "buttons \<Rightarrow> link \<Rightarrow> nat option \<Rightarrow> buttons" where
  "assign s Head_handle v = s\<lparr>head_handle := v\<rparr>"
| "assign s (Next t) v = s\<lparr>btn := (btn s)(t := (btn s t)\<lparr>next_btn := v\<rparr>)\<rparr>"

partial_function (option) stop_loop :: "buttons \<Rightarrow> link \<Rightarrow> nat \<Rightarrow> buttons option" where
  "stop_loop s cur handle = (case deref s cur of None \<Rightarrow> Some s
     | Some entry \<Rightarrow> if entry = handle then Some (assign s cur (next_btn (btn s entry)))
                     else stop_loop s (Next entry) handle)"

definition button_stop :: "nat \<Rightarrow> buttons \<Rightarrow> buttons option" where
  "button_stop handle s = stop_loop s Head_handle handle"

partial_function (option) ticks_loop ::
  "(u8 \<Rightarrow> u8) \<Rightarrow> buttons \<Rightarrow> nat option \<Rightarrow> (buttons \<times> (nat \<times> PressEvent) list) option" where
  "ticks_loop hal s target = (case target of None \<Rightarrow> Some (s, [])
     | Some t \<Rightarrow>
        (let (b, evs) = button_handler (hal (button_id (btn s t))) (btn s t);
             s' = s\<lparr>btn := (btn s)(t := b)\<rparr>
         in do { (s'', rest) \<leftarrow> ticks_loop hal s' (next_btn b);
                 Some (s'', map (Pair t) evs @ rest) }))"

text \<open>\<open>button_ticks\<close>: the call-backs invoked, with the button they are invoked for.\<close>

definition button_ticks :: "(u8 \<Rightarrow> u8) \<Rightarrow> buttons \<Rightarrow> (buttons \<times> (nat \<times> PressEvent) list) option" where
  "button_ticks hal s = ticks_loop hal s (head_handle s)"

section \<open>Runs of one button\<close>

fun button_run :: "u8 list \<Rightarrow> Button \<Rightarrow> Button \<times> PressEvent list" where
  "button_run [] b = (b, [])"
| "button_run (l # ls) b =
    (let (b1, e1) = button_handler l b; (b2, e2) = button_run ls b1 in (b2, e1 @ e2))"

abbreviation down :: "Button \<Rightarrow> u8" where "down b \<equiv> ucast (active_level b)"
abbreviation up :: "Button \<Rightarrow> u8" where "up b \<equiv> ucast (active_level b + 1)"

lemma button_run_append:
  "button_run (xs @ ys) b =
    (let (b1, e1) = button_run xs b; (b2, e2) = button_run ys b1 in (b2, e1 @ e2))"
  by (induction xs arbitrary: b) (simp_all add: split_beta Let_def)

lemma one_word_cases: "a = 0 \<or> a = (1 :: 1 word)"
proof -
  have "unat a < 2 ^ LENGTH(1)" by (rule unsigned_less)
  then show ?thesis by (auto simp: word_unat_eq_iff)
qed

lemma ucast_1_8 [simp]: "(ucast (x :: 1 word) :: u8) = ucast y \<longleftrightarrow> x = y" "(ucast (ucast (x :: 1 word) :: u8) :: 1 word) = x"
  using one_word_cases [of x] one_word_cases [of y] by auto

lemma one_word_flip [simp]: "a + 1 \<noteq> (a :: 1 word)" "a \<noteq> a + 1" "a + 1 + 1 = a"
  using one_word_cases [of a] by auto

lemma set_event_simps [simp]:
  "ticks (set_event e b) = ticks b" "repeat (set_event e b) = repeat b" "bt_state (set_event e b) = bt_state b"
  "debounce_cnt (set_event e b) = debounce_cnt b" "active_level (set_event e b) = active_level b"
  "button_level (set_event e b) = button_level b" "cb (set_event e b) = cb b"
  "button_id (set_event e b) = button_id b" "next_btn (set_event e b) = next_btn b"
  "EVENT_CB (set_event e b) = EVENT_CB b"
  by (simp_all add: set_event_def EVENT_CB_def fun_eq_iff)

lemma EVENT_CB_upd [simp]:
  "EVENT_CB (b\<lparr>ticks := t\<rparr>) = EVENT_CB b" "EVENT_CB (b\<lparr>repeat := r\<rparr>) = EVENT_CB b"
  "EVENT_CB (b\<lparr>bt_state := s\<rparr>) = EVENT_CB b" "EVENT_CB (b\<lparr>button_level := l\<rparr>) = EVENT_CB b"
  "EVENT_CB (b\<lparr>debounce_cnt := d\<rparr>) = EVENT_CB b"
  by (simp_all add: EVENT_CB_def fun_eq_iff)

lemmas button_defs = button_handler_def button_debounce_def button_machine_def Let_def
  DEBOUNCE_TICKS_def SHORT_TICKS_def LONG_TICKS_def

text \<open>Between two clicks: the state the machine is in after a debounced edge.\<close>

definition settled :: "3 word \<Rightarrow> bool \<Rightarrow> Button \<Rightarrow> bool" where
  "settled st pressed b \<longleftrightarrow> bt_state b = st \<and> debounce_cnt b = 0 \<and>
     button_level b = (if pressed then active_level b else active_level b + 1)"

lemma w3_le [simp]: "\<not> 3 \<le> (1 :: 3 word)" "\<not> 3 \<le> (2 :: 3 word)"
  by (simp_all add: word_le_nat_alt)

lemma short_eq: "SHORT_TICKS = 60" "LONG_TICKS = 200"
  by (simp_all add: SHORT_TICKS_def LONG_TICKS_def)

lemma EVENT_CB_event [simp]: "EVENT_CB (b\<lparr>bt_event := v\<rparr>) = EVENT_CB b"
  by (simp add: EVENT_CB_def fun_eq_iff)

lemma tick_le:
  assumes "unat (t :: u16) + j \<le> m" "m < 65536"
  shows "unat (t + of_nat j) = unat t + j" "t + of_nat j \<le> of_nat m"
proof -
  show e: "unat (t + of_nat j) = unat t + j"
    using assms by (simp add: unat_word_ariths unat_of_nat take_bit_eq_mod)
  then show "t + of_nat j \<le> of_nat m"
    using assms by (simp add: word_le_nat_alt unat_of_nat take_bit_eq_mod)
qed

text \<open>Samples that only advance the tick counter.\<close>

lemma counting_run:
  assumes "\<And>j. j < k \<Longrightarrow> button_handler l (b\<lparr>ticks := ticks b + of_nat j\<rparr>) = (b\<lparr>ticks := ticks b + of_nat (Suc j)\<rparr>, [])"
  shows "button_run (replicate k l) b = (b\<lparr>ticks := ticks b + of_nat k\<rparr>, [])"
  using assms
proof (induction k)
  case (Suc k)
  then have "button_run (replicate k l) b = (b\<lparr>ticks := ticks b + of_nat k\<rparr>, [])" by simp
  moreover have "replicate (Suc k) l = replicate k l @ [l]" by (simp add: replicate_append_same)
  ultimately show ?case using Suc.prems [of k] by (simp add: button_run_append del: replicate_Suc)
qed simp

lemma counting:
  assumes "settled 1 True b \<and> l = down b \<and> m = 200 \<or> settled 3 True b \<and> l = down b \<and> m = 60 \<or>
      settled 2 False b \<and> l = up b \<and> m = 60"
    and "unat (ticks b) + k \<le> m"
  shows "button_run (replicate k l) b = (b\<lparr>ticks := ticks b + of_nat k\<rparr>, [])"
proof (rule counting_run)
  fix j assume "j < k"
  then have "unat (ticks b) + Suc j \<le> m" using assms(2) by simp
  then have le: "ticks b + of_nat (Suc j) \<le> of_nat m"
    using tick_le(2) [of "ticks b" "Suc j" m] assms(1) by auto
  have suc: "ticks b + of_nat (Suc j) = ticks b + of_nat j + 1" by simp
  have "\<not> of_nat m < ticks b + of_nat j + 1" using le unfolding suc not_less .
  then show "button_handler l (b\<lparr>ticks := ticks b + of_nat j\<rparr>) = (b\<lparr>ticks := ticks b + of_nat (Suc j)\<rparr>, [])"
    using assms(1) unfolding suc
    by (elim disjE conjE)
      (simp_all add: settled_def button_handler_def button_debounce_def button_machine_def Let_def short_eq)
qed

lemma press_from_idle:
  assumes "settled 0 False b"
  shows "button_run [down b, down b, down b] b =
    ((set_event PRESS_DOWN b)\<lparr>ticks := 0, repeat := 1, bt_state := 1, button_level := active_level b\<rparr>,
     EVENT_CB b PRESS_DOWN)"
  using assms by (simp add: settled_def button_defs set_event_def)

lemma release1:
  assumes "settled 1 True b" "unat (ticks b) \<le> 198"
  shows "button_run [up b, up b, up b] b =
    ((set_event PRESS_UP b)\<lparr>ticks := 0, bt_state := 2, button_level := active_level b + 1\<rparr>, EVENT_CB b PRESS_UP)"
proof -
  have "\<not> 200 < ticks b + 1" "\<not> 200 < ticks b + 1 + 1"
    using tick_le(2) [of "ticks b" 1 200] tick_le(2) [of "ticks b" 2 200] assms(2)
    by (simp_all add: not_less ac_simps)
  then show ?thesis
    using assms(1) by (simp add: settled_def button_handler_def button_debounce_def button_machine_def
        Let_def short_eq DEBOUNCE_TICKS_def set_event_def)
qed

lemma press2:
  assumes "settled 2 False b" "unat (ticks b) \<le> 58"
  shows "button_run [down b, down b, down b] b =
    ((set_event PRESS_DOWN b)\<lparr>ticks := 0, repeat := repeat b + 1, bt_state := 3, button_level := active_level b\<rparr>,
     EVENT_CB b PRESS_DOWN @ EVENT_CB b PRESS_REPEAT)"
proof -
  have "\<not> 60 < ticks b + 1" "\<not> 60 < ticks b + 1 + 1"
    using tick_le(2) [of "ticks b" 1 60] tick_le(2) [of "ticks b" 2 60] assms(2)
    by (simp_all add: not_less ac_simps)
  then show ?thesis
    using assms(1) by (simp add: settled_def button_handler_def button_debounce_def button_machine_def
        Let_def short_eq DEBOUNCE_TICKS_def set_event_def)
qed

lemma release3:
  assumes "settled 3 True b" "unat (ticks b) \<le> 56"
  shows "button_run [up b, up b, up b] b =
    ((set_event PRESS_UP b)\<lparr>ticks := 0, bt_state := 2, button_level := active_level b + 1\<rparr>, EVENT_CB b PRESS_UP)"
proof -
  have "\<not> 60 < ticks b + 1" "\<not> 60 < ticks b + 1 + 1"
    using tick_le(2) [of "ticks b" 1 60] tick_le(2) [of "ticks b" 2 60] assms(2)
    by (simp_all add: not_less ac_simps)
  moreover have "ticks b + 3 < 60"
    using tick_le(1) [of "ticks b" 3 60] assms(2) by (simp add: word_less_nat_alt)
  then have "ticks b + 1 + 1 + 1 < 60" by (simp add: add.assoc)
  ultimately show ?thesis
    using assms(1) by (simp add: settled_def button_handler_def button_debounce_def button_machine_def
        Let_def short_eq DEBOUNCE_TICKS_def set_event_def)
qed

lemma button_run_seq:
  "button_run xs b = (b1, e1) \<Longrightarrow> button_run ys b1 = (b2, e2) \<Longrightarrow> button_run (xs @ ys) b = (b2, e1 @ e2)"
  by (simp add: button_run_append)

lemma rep3: "3 \<le> n \<Longrightarrow> replicate n x = [x, x, x] @ replicate (n - 3) x"
  by (cases n; cases "n - 1"; cases "n - 2") auto

lemma unat_small: "n < 65536 \<Longrightarrow> unat (of_nat n :: u16) = n"
  by (simp add: unat_of_nat take_bit_eq_mod)

lemma first_click:
  assumes b: "settled 0 False b" and p: "3 \<le> p" "p \<le> 201" and q: "3 \<le> q" "q \<le> 63"
  shows "\<exists>b'. button_run (replicate p (down b) @ replicate q (up b)) b = (b', EVENT_CB b PRESS_DOWN @ EVENT_CB b PRESS_UP) \<and>
    settled 2 False b' \<and> unat (ticks b') = q - 3 \<and> repeat b' = 1 \<and> EVENT_CB b' = EVENT_CB b \<and> active_level b' = active_level b"
proof -
  let ?b1 = "(set_event PRESS_DOWN b)\<lparr>ticks := 0, repeat := 1, bt_state := 1, button_level := active_level b\<rparr>"
  let ?b2 = "?b1\<lparr>ticks := of_nat (p - 3)\<rparr>"
  let ?b3 = "(set_event PRESS_UP ?b2)\<lparr>ticks := 0, bt_state := 2, button_level := active_level b + 1\<rparr>"
  have s1: "settled 1 True ?b1" using b by (simp add: settled_def)
  have r2: "button_run (replicate (p - 3) (down b)) ?b1 = (?b2, [])"
    using counting [of ?b1 "down b" 200 "p - 3"] s1 p by simp
  have "settled 1 True ?b2" using s1 by (simp add: settled_def)
  moreover have "unat (ticks ?b2) \<le> 198" using unat_small [of "p - 3"] p by simp
  ultimately have r3: "button_run [up b, up b, up b] ?b2 = (?b3, EVENT_CB b PRESS_UP)"
    using release1 [of ?b2] by simp
  have s3: "settled 2 False ?b3" using b by (simp add: settled_def)
  have r4: "button_run (replicate (q - 3) (up b)) ?b3 = (?b3\<lparr>ticks := of_nat (q - 3)\<rparr>, [])"
    using counting [of ?b3 "up b" 60 "q - 3"] s3 q by simp
  have "button_run (replicate p (down b) @ replicate q (up b)) b =
      (?b3\<lparr>ticks := of_nat (q - 3)\<rparr>, EVENT_CB b PRESS_DOWN @ EVENT_CB b PRESS_UP)"
    unfolding rep3 [OF p(1)] rep3 [OF q(1)]
    by (simp only: button_run_append press_from_idle [OF b] r2 r3 r4 Let_def prod.case append_Nil2 append_Nil)
  moreover have "unat (of_nat (q - 3) :: u16) = q - 3" using q by (intro unat_small) simp
  ultimately show ?thesis using b by (simp add: settled_def del: of_nat_diff)
qed

lemma next_click:
  assumes b: "settled 2 False b" "unat (ticks b) \<le> 58" and p: "3 \<le> p" "p \<le> 59" and q: "3 \<le> q" "q \<le> 63"
  shows "\<exists>b'. button_run (replicate p (down b) @ replicate q (up b)) b =
      (b', EVENT_CB b PRESS_DOWN @ EVENT_CB b PRESS_REPEAT @ EVENT_CB b PRESS_UP) \<and>
    settled 2 False b' \<and> unat (ticks b') = q - 3 \<and> repeat b' = repeat b + 1 \<and> EVENT_CB b' = EVENT_CB b \<and>
    active_level b' = active_level b"
proof -
  let ?b1 = "(set_event PRESS_DOWN b)\<lparr>ticks := 0, repeat := repeat b + 1, bt_state := 3, button_level := active_level b\<rparr>"
  let ?b2 = "?b1\<lparr>ticks := of_nat (p - 3)\<rparr>"
  let ?b3 = "(set_event PRESS_UP ?b2)\<lparr>ticks := 0, bt_state := 2, button_level := active_level b + 1\<rparr>"
  have s1: "settled 3 True ?b1" using b by (simp add: settled_def)
  have r2: "button_run (replicate (p - 3) (down b)) ?b1 = (?b2, [])"
    using counting [of ?b1 "down b" 60 "p - 3"] s1 p by simp
  have "settled 3 True ?b2" using s1 by (simp add: settled_def)
  moreover have "unat (ticks ?b2) \<le> 56" using unat_small [of "p - 3"] p by simp
  ultimately have r3: "button_run [up b, up b, up b] ?b2 = (?b3, EVENT_CB b PRESS_UP)"
    using release3 [of ?b2] by simp
  have s3: "settled 2 False ?b3" using b by (simp add: settled_def)
  have r4: "button_run (replicate (q - 3) (up b)) ?b3 = (?b3\<lparr>ticks := of_nat (q - 3)\<rparr>, [])"
    using counting [of ?b3 "up b" 60 "q - 3"] s3 q by simp
  have "button_run (replicate p (down b) @ replicate q (up b)) b =
      (?b3\<lparr>ticks := of_nat (q - 3)\<rparr>, (EVENT_CB b PRESS_DOWN @ EVENT_CB b PRESS_REPEAT) @ EVENT_CB b PRESS_UP)"
    unfolding rep3 [OF p(1)] rep3 [OF q(1)]
    by (simp only: button_run_append press2 [OF b] r2 r3 r4 Let_def prod.case append_Nil2 append_Nil)
  moreover have "unat (of_nat (q - 3) :: u16) = q - 3" using q by (intro unat_small) simp
  ultimately show ?thesis using b by (simp add: settled_def del: of_nat_diff)
qed

lemma idle_run:
  assumes "settled 0 False b"
  shows "\<exists>b'. button_run (replicate k (up b)) b = (b', []) \<and> settled 0 False b'"
proof (cases k)
  case (Suc n)
  have step: "button_handler (up c) c = (set_event NONE_PRESS c, [])" if "settled 0 False c" for c
    using that by (simp add: settled_def button_handler_def button_debounce_def button_machine_def Let_def)
      (simp add: set_event_def)
  have "settled 0 False c \<Longrightarrow> up c = l \<Longrightarrow> button_run (replicate (Suc n) l) c = (set_event NONE_PRESS c, [])" for l c
  proof (induction n arbitrary: c)
    case (Suc n)
    then have "settled 0 False (set_event NONE_PRESS c)" by (simp add: settled_def)
    from Suc.IH [OF this] Suc.prems step [OF Suc.prems(1)] show ?case by (simp add: set_event_def)
  qed (use step in auto)
  with Suc assms show ?thesis by (simp add: settled_def)
qed (use assms in simp)

definition click_event :: "4 word \<Rightarrow> PressEvent option" where
  "click_event r = (if r = 1 then Some SINGLE_CLICK else if r = 2 then Some DOUBLE_CLICK else None)"

lemma click_timeout:
  assumes b: "settled 2 False b" "unat (ticks b) \<le> 60" and r: "61 \<le> unat (ticks b) + r"
  shows "\<exists>b'. button_run (replicate r (up b)) b =
      (b', case click_event (repeat b) of None \<Rightarrow> [] | Some ev \<Rightarrow> EVENT_CB b ev) \<and> settled 0 False b'"
proof -
  define k where "k = 60 - unat (ticks b)"
  let ?b1 = "b\<lparr>ticks := ticks b + of_nat k\<rparr>"
  have tk: "unat (ticks b) + k = 60" using b(2) by (simp add: k_def)
  have t: "unat (ticks b + of_nat k) = 60" using tick_le(1) [of "ticks b" k 60] tk by simp
  then have t60: "ticks b + of_nat k = 60" by (simp add: word_unat_eq_iff)
  have r1: "button_run (replicate k (up b)) b = (?b1, [])"
    using counting [of b "up b" 60 k] b tk by simp
  let ?h = "button_handler (up b) ?b1"
  have "?h = (fst ?h, case click_event (repeat b) of None \<Rightarrow> [] | Some ev \<Rightarrow> EVENT_CB b ev) \<and>
      settled 0 False (fst ?h) \<and> active_level (fst ?h) = active_level b"
    using b(1) by (simp add: settled_def button_handler_def button_debounce_def button_machine_def Let_def short_eq
        t60 click_event_def)
  then obtain b2 where r2: "?h = (b2, case click_event (repeat b) of None \<Rightarrow> [] | Some ev \<Rightarrow> EVENT_CB b ev)"
    "settled 0 False b2" "active_level b2 = active_level b" by blast
  from idle_run [OF r2(2), of "r - k - 1"] obtain b' where
    r3: "button_run (replicate (r - k - 1) (up b)) b2 = (b', [])" "settled 0 False b'" by (auto simp: r2(3))
  have "r = k + (1 + (r - k - 1))" using r tk by simp
  then have "replicate r (up b) = replicate k (up b) @ [up b] @ replicate (r - k - 1) (up b)"
    by (metis replicate_add replicate_0 replicate_Suc One_nat_def)
  then have "button_run (replicate r (up b)) b = (b', case click_event (repeat b) of None \<Rightarrow> [] | Some ev \<Rightarrow> EVENT_CB b ev)"
    using r3(1) by (simp add: button_run_append r1 r2(1))
  with r3(2) show ?thesis by blast
qed


text \<open>A train of clicks: each is a press of some samples and a release of some samples.\<close>

definition clicks :: "Button \<Rightarrow> (nat \<times> nat) list \<Rightarrow> u8 list" where
  "clicks b cs = concat (map (\<lambda>(p, q). replicate p (down b) @ replicate q (up b)) cs)"

definition click_ok :: "nat \<times> nat \<Rightarrow> bool" where
  "click_ok c \<longleftrightarrow> (case c of (p, q) \<Rightarrow> 3 \<le> p \<and> p \<le> 59 \<and> 3 \<le> q \<and> q \<le> 61)"

definition again :: "Button \<Rightarrow> PressEvent list" where
  "again b = EVENT_CB b PRESS_DOWN @ EVENT_CB b PRESS_REPEAT @ EVENT_CB b PRESS_UP"

lemma more_clicks:
  assumes "settled 2 False b" "unat (ticks b) \<le> 58" "list_all click_ok cs"
  shows "\<exists>b'. button_run (clicks b cs) b = (b', concat (replicate (length cs) (again b))) \<and>
    settled 2 False b' \<and> unat (ticks b') \<le> 58 \<and> repeat b' = repeat b + of_nat (length cs) \<and>
    EVENT_CB b' = EVENT_CB b \<and> active_level b' = active_level b"
  using assms
proof (induction cs arbitrary: b)
  case (Cons c cs)
  obtain p q where c: "c = (p, q)" by (cases c)
  from Cons.prems c next_click [of b p q] obtain b1 where b1:
    "button_run (replicate p (down b) @ replicate q (up b)) b = (b1, again b)" "settled 2 False b1"
    "unat (ticks b1) \<le> 58" "repeat b1 = repeat b + 1" "EVENT_CB b1 = EVENT_CB b" "active_level b1 = active_level b"
    by (auto simp: click_ok_def again_def)
  from Cons.IH [OF b1(2,3)] Cons.prems(3) obtain b2 where b2:
    "button_run (clicks b1 cs) b1 = (b2, concat (replicate (length cs) (again b1)))" "settled 2 False b2"
    "unat (ticks b2) \<le> 58" "repeat b2 = repeat b1 + of_nat (length cs)" "EVENT_CB b2 = EVENT_CB b1"
    "active_level b2 = active_level b1" by auto
  have "clicks b (c # cs) = (replicate p (down b) @ replicate q (up b)) @ clicks b1 cs"
    by (simp add: clicks_def c b1(6))
  moreover have "again b1 = again b" by (simp add: again_def b1(5))
  ultimately show ?case
    using b1 b2 by (simp only: button_run_append Let_def prod.case) (simp add: add.assoc)
qed (simp add: clicks_def)

lemma click_train:
  assumes b: "settled 0 False b" and cs: "list_all click_ok (c # cs)" and r: "61 \<le> r"
  shows "\<exists>b'. button_run (clicks b (c # cs) @ replicate r (up b)) b =
     (b', EVENT_CB b PRESS_DOWN @ EVENT_CB b PRESS_UP @ concat (replicate (length cs) (again b)) @
      (case click_event (of_nat (length (c # cs))) of None \<Rightarrow> [] | Some ev \<Rightarrow> EVENT_CB b ev)) \<and> settled 0 False b'"
proof -
  obtain p q where c: "c = (p, q)" by (cases c)
  from first_click [OF b, of p q] cs c obtain b1 where b1:
    "button_run (replicate p (down b) @ replicate q (up b)) b = (b1, EVENT_CB b PRESS_DOWN @ EVENT_CB b PRESS_UP)"
    "settled 2 False b1" "unat (ticks b1) \<le> 58" "repeat b1 = 1" "EVENT_CB b1 = EVENT_CB b" "active_level b1 = active_level b"
    by (auto simp: click_ok_def)
  from more_clicks [OF b1(2,3), of cs] cs obtain b2 where b2:
    "button_run (clicks b1 cs) b1 = (b2, concat (replicate (length cs) (again b1)))" "settled 2 False b2"
    "unat (ticks b2) \<le> 58" "repeat b2 = 1 + of_nat (length cs)" "EVENT_CB b2 = EVENT_CB b"
    "active_level b2 = active_level b" by (auto simp: b1)
  from click_timeout [OF b2(2), of r] b2(3) r obtain b3 where b3: "button_run (replicate r (up b2)) b2 =
      (b3, case click_event (repeat b2) of None \<Rightarrow> [] | Some ev \<Rightarrow> EVENT_CB b2 ev)" "settled 0 False b3" by auto
  have eq: "clicks b (c # cs) @ replicate r (up b) =
      (replicate p (down b) @ replicate q (up b)) @ clicks b1 cs @ replicate r (up b2)"
    by (simp add: clicks_def c b1(6) b2(6))
  have ag: "again b1 = again b" by (simp add: again_def b1(5))
  have "button_run (clicks b (c # cs) @ replicate r (up b)) b = (b3, (EVENT_CB b PRESS_DOWN @ EVENT_CB b PRESS_UP) @
      concat (replicate (length cs) (again b)) @ (case click_event (repeat b2) of None \<Rightarrow> [] | Some ev \<Rightarrow> EVENT_CB b ev))"
    using button_run_seq [OF b1(1) button_run_seq [OF b2(1) b3(1)]] unfolding eq ag b2(5) .
  with b3(2) b2(4) show ?thesis by simp
qed

section \<open>Long presses and glitches\<close>

lemma hold5:
  assumes "bt_state b = 5" "debounce_cnt b = 0" "button_level b = active_level b"
  shows "\<exists>b'. button_run (replicate k (down b)) b = (b', concat (replicate k (EVENT_CB b LONG_PRESS_HOLD))) \<and>
    settled 5 True b' \<and> EVENT_CB b' = EVENT_CB b \<and> active_level b' = active_level b"
  using assms
proof (induction k arbitrary: b)
  case (Suc k)
  let ?b1 = "set_event LONG_PRESS_HOLD (b\<lparr>ticks := ticks b + 1\<rparr>)"
  have st: "button_handler (down b) b = (?b1, EVENT_CB b LONG_PRESS_HOLD)"
    using Suc.prems by (simp add: button_handler_def button_debounce_def button_machine_def Let_def) (simp add: set_event_def)
  from Suc.IH [of ?b1] Suc.prems obtain b' where
    "button_run (replicate k (down b)) ?b1 = (b', concat (replicate k (EVENT_CB b LONG_PRESS_HOLD)))"
    "settled 5 True b'" "EVENT_CB b' = EVENT_CB b" "active_level b' = active_level b" by auto
  with st show ?case by simp
qed (simp add: settled_def)

lemma release5:
  assumes "settled 5 True b"
  shows "\<exists>b'. button_run [up b, up b, up b] b = (b', EVENT_CB b LONG_PRESS_HOLD @ EVENT_CB b LONG_PRESS_HOLD @ EVENT_CB b PRESS_UP) \<and>
    settled 0 False b' \<and> active_level b' = active_level b"
  using assms by (simp add: settled_def button_handler_def button_debounce_def button_machine_def Let_def
        short_eq DEBOUNCE_TICKS_def)

lemma long_start:
  assumes "settled 1 True b" "ticks b = 200"
  shows "\<exists>b'. button_run [down b] b = (b', EVENT_CB b LONG_PRESS_START) \<and> settled 5 True b' \<and>
    EVENT_CB b' = EVENT_CB b \<and> active_level b' = active_level b"
  using assms by (simp add: settled_def button_handler_def button_debounce_def button_machine_def Let_def short_eq)

lemma long_press:
  assumes b: "settled 0 False b" and n: "204 \<le> n" and m: "3 \<le> m"
  shows "\<exists>b'. button_run (replicate n (down b) @ replicate m (up b)) b =
      (b', EVENT_CB b PRESS_DOWN @ EVENT_CB b LONG_PRESS_START @
       concat (replicate (n - 202) (EVENT_CB b LONG_PRESS_HOLD)) @ EVENT_CB b PRESS_UP) \<and> settled 0 False b'"
proof -
  let ?b1 = "(set_event PRESS_DOWN b)\<lparr>ticks := 0, repeat := 1, bt_state := 1, button_level := active_level b\<rparr>"
  let ?b2 = "?b1\<lparr>ticks := of_nat 200\<rparr>"
  have s1: "settled 1 True ?b1" using b by (simp add: settled_def)
  have r2: "button_run (replicate 200 (down b)) ?b1 = (?b2, [])"
    using counting [of ?b1 "down b" 200 200] s1 by simp
  have "settled 1 True ?b2" using s1 by (simp add: settled_def)
  from long_start [OF this] obtain b3 where r3: "button_run [down b] ?b2 = (b3, EVENT_CB b LONG_PRESS_START)"
    "settled 5 True b3" "EVENT_CB b3 = EVENT_CB b" "active_level b3 = active_level b" by auto
  from hold5 [of b3 "n - 204"] r3(2-4) obtain b4 where
    r4: "button_run (replicate (n - 204) (down b)) b3 = (b4, concat (replicate (n - 204) (EVENT_CB b LONG_PRESS_HOLD)))"
    "settled 5 True b4" "EVENT_CB b4 = EVENT_CB b" "active_level b4 = active_level b"
    by (auto simp: settled_def)
  from release5 [OF r4(2)] r4(3,4) obtain b5 where r5: "button_run [up b, up b, up b] b4 =
      (b5, EVENT_CB b LONG_PRESS_HOLD @ EVENT_CB b LONG_PRESS_HOLD @ EVENT_CB b PRESS_UP)"
    "settled 0 False b5" "active_level b5 = active_level b" by auto
  from idle_run [OF r5(2), of "m - 3"] r5(3) obtain b6 where r6: "button_run (replicate (m - 3) (up b)) b5 = (b6, [])"
    "settled 0 False b6" by auto
  have "n = 3 + (200 + (1 + (n - 204)))" using n by simp
  then have en: "replicate n (down b) = [down b, down b, down b] @ replicate 200 (down b) @ [down b] @ replicate (n - 204) (down b)"
    by (metis replicate_add replicate_0 replicate_Suc One_nat_def rep3 append_Nil2 diff_self_eq_0 order_refl)
  let ?h = "EVENT_CB b LONG_PRESS_HOLD"
  have hh: "concat (replicate (n - 204) ?h) @ ?h @ ?h = concat (replicate (n - 202) ?h)"
  proof -
    have "n - 202 = (n - 204) + 2" using n by simp
    moreover have "replicate 2 ?h = [?h, ?h]" by (simp add: numeral_2_eq_2)
    ultimately show ?thesis by (simp only: replicate_add concat_append) simp
  qed
  have "button_run (replicate n (down b) @ replicate m (up b)) b = (b6,
      EVENT_CB b PRESS_DOWN @ EVENT_CB b LONG_PRESS_START @ (concat (replicate (n - 204) ?h) @ ?h @ ?h) @ EVENT_CB b PRESS_UP)"
    using button_run_seq [OF press_from_idle [OF b] button_run_seq [OF r2 button_run_seq [OF r3(1)
        button_run_seq [OF r4(1) button_run_seq [OF r5(1) r6(1)]]]]]
    unfolding en rep3 [OF m] by simp
  then show ?thesis using r6(2) unfolding hh by blast
qed

text \<open>Samples in which the pressed level never lasts three samples in a row.\<close>

fun glitch_free :: "nat \<Rightarrow> u8 \<Rightarrow> u8 list \<Rightarrow> bool" where
  "glitch_free d idle [] = True"
| "glitch_free d idle (l # ls) =
    (if l = idle then glitch_free 0 idle ls else Suc d < 3 \<and> glitch_free (Suc d) idle ls)"

lemma glitch_run:
  assumes "bt_state b = 0" "button_level b = active_level b + 1" "unat (debounce_cnt b) = d" "d < 3"
    "glitch_free d (up b) ls"
  shows "\<exists>b'. button_run ls b = (b', []) \<and> bt_state b' = 0 \<and> button_level b' = active_level b + 1"
  using assms
proof (induction ls arbitrary: b d)
  case (Cons l ls)
  show ?case
  proof (cases "l = up b")
    case True
    then have st: "button_handler l b = (set_event NONE_PRESS (b\<lparr>debounce_cnt := 0\<rparr>), [])"
      using Cons.prems by (simp add: button_handler_def button_debounce_def button_machine_def Let_def)
    have g: "glitch_free 0 (up b) ls" using Cons.prems(5) True by simp
    from Cons.IH [of "set_event NONE_PRESS (b\<lparr>debounce_cnt := 0\<rparr>)" 0] Cons.prems(1,2) g st show ?thesis by simp
  next
    case False
    then have d: "Suc d < 3" and g: "glitch_free (Suc d) (up b) ls" using Cons.prems(5) by (auto split: if_splits)
    have u: "unat (debounce_cnt b + 1) = Suc d"
      using Cons.prems(3) d by (simp add: unat_word_ariths)
    then have "\<not> debounce_cnt b + 1 \<ge> 3" using d by (simp add: word_le_nat_alt)
    then have st: "button_handler l b = (set_event NONE_PRESS (b\<lparr>debounce_cnt := debounce_cnt b + 1\<rparr>), [])"
      using Cons.prems(1,2) False
      by (simp add: button_handler_def button_debounce_def button_machine_def Let_def DEBOUNCE_TICKS_def)
    from Cons.IH [of "set_event NONE_PRESS (b\<lparr>debounce_cnt := debounce_cnt b + 1\<rparr>)" "Suc d"] Cons.prems(1,2) u d g st
    show ?thesis by simp
  qed
qed simp

section \<open>The list\<close>

fun chain :: "buttons \<Rightarrow> nat option \<Rightarrow> nat list \<Rightarrow> bool" where
  "chain s p [] \<longleftrightarrow> p = None"
| "chain s p (x # xs) \<longleftrightarrow> p = Some x \<and> chain s (next_btn (btn s x)) xs"

text \<open>The list of started buttons, each once.\<close>

definition btn_list :: "buttons \<Rightarrow> nat list \<Rightarrow> bool" where
  "btn_list s xs \<longleftrightarrow> chain s (head_handle s) xs \<and> distinct xs"

lemma chain_upd: "x \<notin> set xs \<Longrightarrow> chain (s\<lparr>btn := (btn s)(x := b)\<rparr>) p xs = chain s p xs"
  by (induction xs arbitrary: p) auto

lemma chain_same_next:
  "next_btn b = next_btn (btn s x) \<Longrightarrow> chain (s\<lparr>btn := (btn s)(x := b)\<rparr>) p xs = chain s p xs"
  by (induction xs arbitrary: p) auto

lemma chain_head [simp]: "chain (s\<lparr>head_handle := h\<rparr>) p xs = chain s p xs"
  by (induction xs arbitrary: p) auto

lemma started_chain: "chain s p xs \<Longrightarrow> started s p h = Some (h \<in> set xs)"
  by (induction xs arbitrary: p) (auto simp: started.simps)

lemma start_list:
  assumes "btn_list s xs"
  shows "\<exists>s'. button_start h s = Some (if h \<in> set xs then (- 1, s) else (0, s')) \<and>
    (h \<notin> set xs \<longrightarrow> btn_list s' (h # xs))"
  using assms started_chain [of s "head_handle s" xs h] chain_upd [of h xs s]
  by (auto simp: button_start_def btn_list_def)

lemma assign_next: "deref s c = p \<Longrightarrow> btn (assign s c v) x =
    (case c of Head_handle \<Rightarrow> btn s x | Next t \<Rightarrow> if x = t then (btn s x)\<lparr>next_btn := v\<rparr> else btn s x)"
  by (cases c) auto

text \<open>From a link into the list, the loop unlinks the button from the rest of the list.\<close>

lemma stop_loop_chain:
  assumes "chain s (deref s c) xs" "distinct xs" "\<And>t. c = Next t \<Longrightarrow> t \<notin> set xs"
  shows "\<exists>s'. stop_loop s c h = Some s' \<and> chain s' (deref s' c) (remove1 h xs) \<and>
    (\<forall>t. t \<notin> set xs \<longrightarrow> c \<noteq> Next t \<longrightarrow> btn s' t = btn s t) \<and> (c \<noteq> Head_handle \<longrightarrow> head_handle s' = head_handle s)"
  using assms
proof (induction xs arbitrary: c)
  case (Cons x xs)
  have dx: "deref s c = Some x" and ch: "chain s (next_btn (btn s x)) xs" using Cons.prems(1) by simp_all
  show ?case
  proof (cases "x = h")
    case True
    let ?s = "assign s c (next_btn (btn s x))"
    have "chain ?s (next_btn (btn s x)) xs"
    proof (cases c)
      case (Next t)
      with Cons.prems(3) [of t] ch chain_upd [of t xs s] show ?thesis by simp
    qed (use ch in simp)
    moreover have "deref ?s c = next_btn (btn s x)" by (cases c) simp_all
    ultimately show ?thesis
      using True dx by (cases c) (auto simp: stop_loop.simps)
  next
    case False
    from Cons.IH [of "Next x"] Cons.prems(2) ch obtain s' where s':
      "stop_loop s (Next x) h = Some s'" "chain s' (next_btn (btn s' x)) (remove1 h xs)"
      "\<forall>t. t \<notin> set xs \<longrightarrow> x \<noteq> t \<longrightarrow> btn s' t = btn s t" "head_handle s' = head_handle s" by auto
    have "deref s' c = Some x"
    proof (cases c)
      case (Next t)
      with Cons.prems(3) [of t] s'(3) dx show ?thesis by simp
    qed (use dx s'(4) in simp)
    moreover have "stop_loop s c h = Some s'" using dx False s'(1) by (simp add: stop_loop.simps [of s c])
    ultimately show ?thesis using False s' by auto
  qed
qed (auto simp: stop_loop.simps)

lemma stop_list:
  assumes "btn_list s xs"
  shows "\<exists>s'. button_stop h s = Some s' \<and> btn_list s' (remove1 h xs)"
proof -
  from assms stop_loop_chain [of s Head_handle xs h] obtain s' where
    "stop_loop s Head_handle h = Some s'" "chain s' (head_handle s') (remove1 h xs)"
    by (auto simp: btn_list_def)
  with assms show ?thesis by (auto simp: button_stop_def btn_list_def)
qed

lemma debounce_next [simp]: "next_btn (button_debounce l b) = next_btn b"
  by (simp add: button_debounce_def Let_def)

lemma machine_next [simp]: "next_btn (fst (button_machine b)) = next_btn b"
  by (simp add: button_machine_def Let_def)

lemma handler_next [simp]: "next_btn (fst (button_handler l b)) = next_btn b"
  by (simp add: button_handler_def)

definition handled :: "(u8 \<Rightarrow> u8) \<Rightarrow> buttons \<Rightarrow> nat \<Rightarrow> Button \<times> PressEvent list" where
  "handled hal s t = button_handler (hal (button_id (btn s t))) (btn s t)"

lemma ticks_loop_chain:
  assumes "chain s p xs" "distinct xs"
  shows "ticks_loop hal s p = Some (s\<lparr>btn := (\<lambda>t. if t \<in> set xs then fst (handled hal s t) else btn s t)\<rparr>,
    concat (map (\<lambda>t. map (Pair t) (snd (handled hal s t))) xs))"
  using assms
proof (induction xs arbitrary: s p)
  case (Cons x xs)
  obtain b evs where h: "handled hal s x = (b, evs)" by (cases "handled hal s x")
  let ?s = "s\<lparr>btn := (btn s)(x := b)\<rparr>"
  have nb: "next_btn b = next_btn (btn s x)" using h handler_next unfolding handled_def by (metis fst_conv)
  have ch: "chain ?s (next_btn b) xs" using Cons.prems nb by (simp add: chain_same_next)
  have eq: "t \<in> set xs \<Longrightarrow> handled hal ?s t = handled hal s t" for t
    using Cons.prems(2) by (auto simp: handled_def)
  have "ticks_loop hal s p = do { (s'', rest) \<leftarrow> ticks_loop hal ?s (next_btn b); Some (s'', map (Pair x) evs @ rest) }"
    using Cons.prems(1) h by (simp add: ticks_loop.simps [of hal s "Some x"] handled_def Let_def)
  also have "\<dots> = Some (?s\<lparr>btn := (\<lambda>t. if t \<in> set xs then fst (handled hal ?s t) else btn ?s t)\<rparr>,
      map (Pair x) evs @ concat (map (\<lambda>t. map (Pair t) (snd (handled hal ?s t))) xs))"
    using Cons.IH [OF ch] Cons.prems(2) by simp
  also have "map (\<lambda>t. map (Pair t) (snd (handled hal ?s t))) xs = map (\<lambda>t. map (Pair t) (snd (handled hal s t))) xs"
    using eq by simp
  finally show ?case using h eq Cons.prems(2) by (auto simp: fun_eq_iff)
qed (simp add: ticks_loop.simps)

lemma ticks_list:
  assumes "btn_list s xs"
  shows "\<exists>s'. button_ticks hal s = Some (s', concat (map (\<lambda>t. map (Pair t) (snd (handled hal s t))) xs)) \<and>
    btn_list s' xs \<and> (\<forall>t \<in> set xs. btn s' t = fst (handled hal s t))"
proof -
  let ?s = "s\<lparr>btn := (\<lambda>t. if t \<in> set xs then fst (handled hal s t) else btn s t)\<rparr>"
  have "chain s p ys \<Longrightarrow> set ys \<subseteq> set xs \<Longrightarrow> chain ?s p ys" for p ys
    by (induction ys arbitrary: p) (auto simp: handled_def)
  with assms ticks_loop_chain [of s "head_handle s" xs hal] show ?thesis
    by (auto simp: button_ticks_def btn_list_def)
qed

section \<open>Properties\<close>

definition button_demo :: Button where
  "button_demo = \<lparr>ticks = 0, repeat = 0, bt_event = 8, bt_state = 0, debounce_cnt = 0, active_level = 0,
     button_level = 1, button_id = 0, cb = [None, None, None, Some 0, Some 1, None, None], next_btn = None\<rparr>"

text \<open>C7: A train of clicks, each pressed and released for at least three samples and not too long,
  raises press and release events and, 300 ms after the last release, a single click exactly when the
  number of clicks is 1 modulo 16, a double click when it is 2 modulo 16, and nothing else; then the
  machine is idle again.\<close>

theorem button_click_train:
  assumes "settled 0 False b" "list_all click_ok (c # cs)" "61 \<le> r"
  shows "\<exists>b'. button_run (clicks b (c # cs) @ replicate r (up b)) b =
     (b', EVENT_CB b PRESS_DOWN @ EVENT_CB b PRESS_UP @ concat (replicate (length cs) (again b)) @
      (if length (c # cs) mod 16 = 1 then EVENT_CB b SINGLE_CLICK
       else if length (c # cs) mod 16 = 2 then EVENT_CB b DOUBLE_CLICK else [])) \<and> settled 0 False b'"
proof -
  have m: "(of_nat (length (c # cs)) :: 4 word) = of_nat k \<longleftrightarrow> length (c # cs) mod 16 = k" if "k < 16" for k
    using that by (simp only: word_of_nat_eq_iff) (simp add: take_bit_eq_mod)
  show ?thesis
    using click_train [OF assms] m [of 1, simplified of_nat_1] m [of 2, simplified of_nat_numeral]
    by (auto simp: click_event_def simp del: of_nat_Suc)
qed

theorem button_click_train_witness:
  "\<exists>b'. button_run (clicks button_demo (replicate 17 (10, 20)) @ replicate 100 1) button_demo = (b', [SINGLE_CLICK])"
proof -
  have r: "replicate 17 (10, 20) = (10, 20) # replicate 16 (10, 20 :: nat)" by (simp add: numeral_eq_Suc)
  have "concat (replicate 16 []) = []" by simp
  then show ?thesis
    using button_click_train [of button_demo "(10, 20)" "replicate 16 (10, 20)" 100] unfolding r
    by (auto simp: settled_def button_demo_def click_ok_def EVENT_CB_def again_def list_all_iff)
qed


text \<open>Holding a button for at least 204 samples and releasing it raises press, one long press start
  after a second, a hold event at every later sample, release, and no click.\<close>

lemma button_long_press:
  assumes "settled 0 False b" "204 \<le> n" "3 \<le> m"
  shows "\<exists>b'. button_run (replicate n (down b) @ replicate m (up b)) b =
      (b', EVENT_CB b PRESS_DOWN @ EVENT_CB b LONG_PRESS_START @
       concat (replicate (n - 202) (EVENT_CB b LONG_PRESS_HOLD)) @ EVENT_CB b PRESS_UP) \<and> settled 0 False b'"
  using assms by (rule long_press)

theorem button_long_press_witness:
  "\<exists>b'. button_run (replicate 500 0 @ replicate 10 1) button_demo = (b', [])"
proof -
  have e: "EVENT_CB button_demo ev = []" if "ev \<in> {PRESS_DOWN, LONG_PRESS_START, LONG_PRESS_HOLD, PRESS_UP}" for ev
    using that by (auto simp: EVENT_CB_def button_demo_def)
  have "concat (replicate 298 []) = []" by simp
  then show ?thesis
    using button_long_press [of button_demo 500 10] by (auto simp: settled_def button_demo_def EVENT_CB_def)
qed

text \<open>Debouncing: samples in which the pressed level never lasts three in a row neither raise an
  event nor leave the idle state, whatever their number.\<close>

lemma button_glitches_ignored:
  assumes "settled 0 False b" "glitch_free 0 (up b) ls"
  shows "\<exists>b'. button_run ls b = (b', []) \<and> bt_state b' = 0 \<and> button_level b' = button_level b"
  using glitch_run [of b 0 ls] assms by (simp add: settled_def)

theorem button_glitches_ignored_witness:
  "\<exists>b'. button_run [0, 0, 1, 0, 1, 1, 0, 0, 1] button_demo = (b', [])"
  using button_glitches_ignored [of button_demo "[0, 0, 1, 0, 1, 1, 0, 0, 1]"]
  by (auto simp: settled_def button_demo_def)

text \<open>The linked list of buttons behaves as a list without duplicates: starting adds an absent
  button at the front and refuses a present one, stopping removes it, and a tick runs every handler
  once, in list order, without changing the list; every loop ends.\<close>

lemma button_list_ops:
  assumes "btn_list s xs"
  shows "(\<exists>s'. button_start h s = Some (if h \<in> set xs then (- 1, s) else (0, s')) \<and>
            (h \<notin> set xs \<longrightarrow> btn_list s' (h # xs))) \<and>
    (\<exists>s'. button_stop h s = Some s' \<and> btn_list s' (remove1 h xs)) \<and>
    (\<exists>s'. button_ticks hal s = Some (s', concat (map (\<lambda>t. map (Pair t) (snd (handled hal s t))) xs)) \<and>
       btn_list s' xs \<and> (\<forall>t \<in> set xs. btn s' t = fst (handled hal s t)))"
  using start_list [OF assms, of h] stop_list [OF assms, of h] ticks_list [OF assms, of hal] by blast

theorem button_list_ops_witness:
  "\<exists>s'. button_stop 4 \<lparr>head_handle = Some 4, btn = (\<lambda>_. button_demo)\<rparr> = Some s' \<and> btn_list s' []"
  using button_list_ops [of "\<lparr>head_handle = Some 4, btn = (\<lambda>_. button_demo)\<rparr>" "[4]" 4]
  by (simp add: btn_list_def button_demo_def)

end
