(* ===== verification/KeyMenu.thy ===== *)
theory KeyMenu
  imports MultiButton
begin

text \<open>
  The key functions (\<open>applications/key_function.c\<close>): four buttons polled every 5 ms, whose single click
  runs the entry of \<open>key_func_table\<close> for the current menu page and the key. The page is an unsigned
  enumeration value, the flags are the bytes of \<open>g_hmi_data\<close> that the key functions write.
\<close>

section \<open>State\<close>

record menu_state =
  g_cur_menu :: nat
  show_result_flag :: u8
  reset_factory_flag :: u8
  write_eeprom_flag :: u8

definition MENU_HOME :: nat where "MENU_HOME = 0"
definition MENU_VI :: nat where "MENU_VI = 1"
definition MENU_UPS :: nat where "MENU_UPS = 2"
definition MENU_IO :: nat where "MENU_IO = 3"
definition MENU_SETTING :: nat where "MENU_SETTING = 4"
definition MENU_NUM :: nat where "MENU_NUM = 5"

definition KEY_SET :: nat where "KEY_SET = 0"
definition KEY_UP :: nat where "KEY_UP = 1"
definition KEY_DOWN :: nat where "KEY_DOWN = 2"
definition KEY_ENTER :: nat where "KEY_ENTER = 3"

lemmas menu_consts = MENU_HOME_def MENU_VI_def MENU_UPS_def MENU_IO_def MENU_SETTING_def MENU_NUM_def
  KEY_SET_def KEY_UP_def KEY_DOWN_def KEY_ENTER_def

section \<open>Key functions\<close>

definition page_down :: "menu_state \<Rightarrow> menu_state" where
  "page_down s = (if g_cur_menu s < MENU_NUM - 2 then s\<lparr>g_cur_menu := g_cur_menu s + 1\<rparr>
                  else s\<lparr>g_cur_menu := MENU_HOME\<rparr>)"

definition page_up :: "menu_state \<Rightarrow> menu_state" where
  "page_up s = (if g_cur_menu s > 0 then s\<lparr>g_cur_menu := g_cur_menu s - 1\<rparr>
                else s\<lparr>g_cur_menu := MENU_NUM - 2\<rparr>)"

definition page_home :: "menu_state \<Rightarrow> menu_state" where
  "page_home s = s\<lparr>g_cur_menu := 0\<rparr>"

definition page_settings :: "menu_state \<Rightarrow> menu_state" where
  "page_settings s = s\<lparr>g_cur_menu := MENU_SETTING\<rparr>"

definition menu_home_key_enter_func :: "menu_state \<Rightarrow> menu_state" where
  "menu_home_key_enter_func s = page_home s"

definition menu_io_key_set_func :: "menu_state \<Rightarrow> menu_state" where
  "menu_io_key_set_func s = s"

definition menu_io_key_enter_func :: "menu_state \<Rightarrow> menu_state" where
  "menu_io_key_enter_func s = s\<lparr>show_result_flag := 1\<rparr>"

definition menu_ups_key_set_func :: "menu_state \<Rightarrow> menu_state" where
  "menu_ups_key_set_func s = s"

definition menu_ups_key_enter_func :: "menu_state \<Rightarrow> menu_state" where
  "menu_ups_key_enter_func s = s\<lparr>show_result_flag := 1\<rparr>"

definition menu_setting_key_set_func :: "menu_state \<Rightarrow> menu_state" where
  "menu_setting_key_set_func s = s\<lparr>write_eeprom_flag := 1\<rparr>"

definition menu_setting_key_up_func :: "menu_state \<Rightarrow> menu_state" where
  "menu_setting_key_up_func s = (page_up s)\<lparr>reset_factory_flag := 0\<rparr>"

definition menu_setting_down_func :: "menu_state \<Rightarrow> menu_state" where
  "menu_setting_down_func s = (page_down s)\<lparr>reset_factory_flag := 0\<rparr>"

definition menu_setting_key_enter_func :: "menu_state \<Rightarrow> menu_state" where
  "menu_setting_key_enter_func s = page_home (s\<lparr>reset_factory_flag := 0\<rparr>)"

definition key_func_table :: "(menu_state \<Rightarrow> menu_state) list list" where
  "key_func_table =
    [[page_settings, page_up, page_down, page_home],
     [page_settings, page_up, page_down, menu_home_key_enter_func],
     [menu_ups_key_set_func, page_up, page_down, menu_ups_key_enter_func],
     [menu_io_key_set_func, page_up, page_down, menu_io_key_enter_func],
     [menu_setting_key_set_func, menu_setting_key_up_func, menu_setting_down_func, menu_setting_key_enter_func]]"

text \<open>The call-back of key \<open>k\<close> (\<open>key_set_cb\<close>, \<open>key_up_cb\<close>, \<open>key_down_cb\<close>, \<open>key_enter_cb\<close>).\<close>

definition key_cb :: "nat \<Rightarrow> menu_state \<Rightarrow> menu_state option" where
  "key_cb k s = do {
     row \<leftarrow> rd key_func_table (g_cur_menu s);
     f \<leftarrow> rd row k;
     Some (f s)
   }"

definition btn_cb :: "(menu_state \<Rightarrow> menu_state option) list" where
  "btn_cb = [key_cb KEY_SET, key_cb KEY_UP, key_cb KEY_DOWN, key_cb KEY_ENTER]"

section \<open>Polling the buttons\<close>

text \<open>\<open>pins\<close> gives the level that \<open>rt_pin_read\<close> returns for each of the four key pins.\<close>

definition read_button_GPIO :: "(nat \<Rightarrow> u8) \<Rightarrow> u8 \<Rightarrow> u8" where
  "read_button_GPIO pins bid =
    (if unat bid = KEY_SET then pins 0 else if unat bid = KEY_UP then pins 1
     else if unat bid = KEY_DOWN then pins 2 else if unat bid = KEY_ENTER then pins 3 else 0)"

text \<open>\<open>buttons_init\<close>: button \<open>i\<close> lives at address \<open>i\<close> and its single click calls \<open>btn_cb[i]\<close>.\<close>

definition buttons_init_step :: "(nat \<Rightarrow> u8) \<Rightarrow> nat \<Rightarrow> buttons \<Rightarrow> buttons option" where
  "buttons_init_step pins i s = do {
     let b = button_init (read_button_GPIO pins) 0 (of_nat i);
     b \<leftarrow> button_attach SINGLE_CLICK i b;
     (r, s) \<leftarrow> button_start i (s\<lparr>btn := (btn s)(i := b)\<rparr>);
     Some s
   }"

definition buttons_init :: "(nat \<Rightarrow> u8) \<Rightarrow> buttons \<Rightarrow> buttons option" where
  "buttons_init pins s = do {
     s \<leftarrow> buttons_init_step pins 0 s;
     s \<leftarrow> buttons_init_step pins 1 s;
     s \<leftarrow> buttons_init_step pins 2 s;
     buttons_init_step pins 3 s
   }"

text \<open>A raised event runs the function that the button's slot points to.\<close>

fun run_callbacks :: "buttons \<Rightarrow> (nat \<times> PressEvent) list \<Rightarrow> menu_state \<Rightarrow> menu_state option" where
  "run_callbacks s [] m = Some m"
| "run_callbacks s ((t, ev) # evs) m = do {
     slot \<leftarrow> rd (cb (btn s t)) (press_code ev);
     i \<leftarrow> slot;
     f \<leftarrow> rd btn_cb i;
     m \<leftarrow> f m;
     run_callbacks s evs m
   }"

definition key_poll_timer_cb :: "(nat \<Rightarrow> u8) \<Rightarrow> buttons \<Rightarrow> menu_state \<Rightarrow> (buttons \<times> menu_state) option" where
  "key_poll_timer_cb pins s m = do {
     (s, evs) \<leftarrow> button_ticks (read_button_GPIO pins) s;
     m \<leftarrow> run_callbacks s evs m;
     Some (s, m)
   }"

section \<open>Lemmas\<close>

lemmas key_funcs = page_down_def page_up_def page_home_def page_settings_def menu_home_key_enter_func_def
  menu_io_key_set_func_def menu_io_key_enter_func_def menu_ups_key_set_func_def menu_ups_key_enter_func_def
  menu_setting_key_set_func_def menu_setting_key_up_func_def menu_setting_down_func_def
  menu_setting_key_enter_func_def

lemma menu_cases: "n < 5 \<Longrightarrow> n \<in> {0, 1, 2, 3, 4 :: nat}"
  and key_cases: "n < 4 \<Longrightarrow> n \<in> {0, 1, 2, 3 :: nat}"
  by auto

text \<open>The page after a key, for every page.\<close>

definition menu_next :: "nat \<Rightarrow> nat \<Rightarrow> nat" where
  "menu_next m k =
    ([[4, 3, 1, 0], [4, 0, 2, 0], [2, 1, 3, 2], [3, 2, 0, 3], [4, 3, 0, 0]] ! m) ! k"

lemma key_cb_next:
  assumes "g_cur_menu s < MENU_NUM" "k < 4"
  shows "\<exists>s'. key_cb k s = Some s' \<and> g_cur_menu s' = menu_next (g_cur_menu s) k \<and> g_cur_menu s' < MENU_NUM \<and>
    show_result_flag s' = (if k = KEY_ENTER \<and> g_cur_menu s \<in> {MENU_UPS, MENU_IO} then 1 else show_result_flag s) \<and>
    write_eeprom_flag s' = (if k = KEY_SET \<and> g_cur_menu s = MENU_SETTING then 1 else write_eeprom_flag s) \<and>
    reset_factory_flag s' = (if g_cur_menu s = MENU_SETTING \<and> k \<noteq> KEY_SET then 0 else reset_factory_flag s)"
  using menu_cases [of "g_cur_menu s"] key_cases [OF assms(2)] assms(1)
  by (auto simp: key_cb_def key_func_table_def key_funcs menu_consts menu_next_def)

fun press_keys :: "nat list \<Rightarrow> menu_state \<Rightarrow> menu_state option" where
  "press_keys [] s = Some s"
| "press_keys (k # ks) s = do { s \<leftarrow> key_cb k s; press_keys ks s }"

lemma press_keys_ok:
  "g_cur_menu s < MENU_NUM \<Longrightarrow> list_all (\<lambda>k. k < 4) ks \<Longrightarrow>
   \<exists>s'. press_keys ks s = Some s' \<and> g_cur_menu s' = foldl menu_next (g_cur_menu s) ks \<and> g_cur_menu s' < MENU_NUM"
proof (induction ks arbitrary: s)
  case (Cons k ks)
  from key_cb_next [of s k] Cons.prems obtain s1 where
    "key_cb k s = Some s1" "g_cur_menu s1 = menu_next (g_cur_menu s) k" "g_cur_menu s1 < MENU_NUM" by auto
  with Cons.IH [of s1] Cons.prems show ?case by simp
qed simp

section \<open>The four buttons\<close>

definition click_slot :: "nat \<Rightarrow> nat option list" where
  "click_slot i = [None, None, None, Some i, None, None, None]"

definition keys_ok :: "buttons \<Rightarrow> bool" where
  "keys_ok s \<longleftrightarrow> btn_list s [3, 2, 1, 0] \<and> (\<forall>i \<in> set [3, 2, 1, 0]. cb (btn s i) = click_slot i)"

lemma debounce_cb [simp]: "cb (button_debounce l b) = cb b"
  by (simp add: button_debounce_def Let_def)

lemma EVENT_CB_click: "cb b = click_slot i \<Longrightarrow> EVENT_CB b ev = (if ev = SINGLE_CLICK then [ev] else [])"
  if "ev \<noteq> number_of_event" "ev \<noteq> NONE_PRESS"
  using that by (cases ev) (auto simp: EVENT_CB_def click_slot_def)

lemma machine_click:
  assumes "cb b = click_slot i"
  shows "snd (button_machine b) \<in> {[], [SINGLE_CLICK]} \<and> cb (fst (button_machine b)) = click_slot i"
  using assms by (simp add: button_machine_def Let_def EVENT_CB_click)

lemma handler_click:
  assumes "cb b = click_slot i"
  shows "snd (button_handler l b) \<in> {[], [SINGLE_CLICK]} \<and> cb (fst (button_handler l b)) = click_slot i"
  unfolding button_handler_def by (rule machine_click) (simp add: assms)

text \<open>The keys whose handler raises a click at this poll, in the order of the list.\<close>

definition clicked :: "(nat \<Rightarrow> u8) \<Rightarrow> buttons \<Rightarrow> nat list" where
  "clicked pins s = filter (\<lambda>t. snd (handled (read_button_GPIO pins) s t) \<noteq> []) [3, 2, 1, 0]"

lemma run_callbacks_clicks:
  assumes "\<And>t. t \<in> set ts \<Longrightarrow> t < 4 \<and> cb (btn s t) = click_slot t \<and> es t \<in> {[], [SINGLE_CLICK]}"
  shows "run_callbacks s (concat (map (\<lambda>t. map (Pair t) (es t)) ts)) m = press_keys (filter (\<lambda>t. es t \<noteq> []) ts) m"
  using assms
proof (induction ts arbitrary: m)
  case (Cons t ts)
  have t: "t < 4" "cb (btn s t) = click_slot t" "es t = [] \<or> es t = [SINGLE_CLICK]" using Cons.prems by auto
  have IH: "run_callbacks s (concat (map (\<lambda>t. map (Pair t) (es t)) ts)) = press_keys (filter (\<lambda>t. es t \<noteq> []) ts)"
    using Cons by (intro ext) simp
  have cbs: "rd btn_cb t = Some (key_cb t)"
    using key_cases [OF t(1)] by (auto simp: btn_cb_def menu_consts)
  have sl: "rd (cb (btn s t)) (press_code SINGLE_CLICK) = Some (Some t)" by (simp add: t(2) click_slot_def)
  from t(3) show ?case by (elim disjE) (simp_all add: IH cbs sl del: press_code.simps)
qed simp

lemma key_poll:
  assumes s: "keys_ok s" and m: "g_cur_menu m < MENU_NUM"
  shows "\<exists>s' m'. key_poll_timer_cb pins s m = Some (s', m') \<and> keys_ok s' \<and> g_cur_menu m' < MENU_NUM \<and>
    press_keys (clicked pins s) m = Some m'"
proof -
  let ?hal = "read_button_GPIO pins" and ?ts = "[3, 2, 1, 0 :: nat]"
  from s have l: "btn_list s ?ts" and c: "\<And>i. i \<in> set ?ts \<Longrightarrow> cb (btn s i) = click_slot i"
    unfolding keys_ok_def by blast+
  from ticks_list [OF l, of ?hal] obtain s' where
    s': "button_ticks ?hal s = Some (s', concat (map (\<lambda>t. map (Pair t) (snd (handled ?hal s t))) ?ts))"
    "btn_list s' ?ts" "\<forall>t \<in> set ?ts. btn s' t = fst (handled ?hal s t)" by blast
  have h: "snd (handled ?hal s t) \<in> {[], [SINGLE_CLICK]} \<and> cb (fst (handled ?hal s t)) = click_slot t" if "t \<in> set ?ts" for t
    unfolding handled_def by (rule handler_click [OF c [OF that]])
  have "keys_ok s'" unfolding keys_ok_def using s'(2,3) h by simp
  have "list_all (\<lambda>k. k < 4) (clicked pins s)" by (auto simp: clicked_def list_all_iff)
  from press_keys_ok [OF m this] obtain m' where m': "press_keys (clicked pins s) m = Some m'" "g_cur_menu m' < MENU_NUM"
    by blast
  have "run_callbacks s' (concat (map (\<lambda>t. map (Pair t) (snd (handled ?hal s t))) ?ts)) m = press_keys (clicked pins s) m"
    unfolding clicked_def
  proof (rule run_callbacks_clicks)
    fix t assume t: "t \<in> set ?ts"
    then have "t < 4" by auto
    moreover have "btn s' t = fst (handled ?hal s t)" using s'(3) t by blast
    ultimately show "t < 4 \<and> cb (btn s' t) = click_slot t \<and> snd (handled ?hal s t) \<in> {[], [SINGLE_CLICK]}"
      using h [OF t] by simp
  qed
  then show ?thesis using s'(1) m' \<open>keys_ok s'\<close> by (simp add: key_poll_timer_cb_def)
qed

lemma buttons_init_ok:
  assumes "head_handle s = None"
  shows "\<exists>s'. buttons_init pins s = Some s' \<and> keys_ok s'"
  using assms
  by (simp add: buttons_init_def buttons_init_step_def button_start_def started.simps button_attach_def
      button_init_def numeral_eq_Suc keys_ok_def btn_list_def click_slot_def)

fun key_polls :: "(nat \<Rightarrow> u8) list \<Rightarrow> buttons \<Rightarrow> menu_state \<Rightarrow> (buttons \<times> menu_state) option" where
  "key_polls [] s m = Some (s, m)"
| "key_polls (p # ps) s m = do { (s, m) \<leftarrow> key_poll_timer_cb p s m; key_polls ps s m }"

lemma key_polls_ok:
  "keys_ok s \<Longrightarrow> g_cur_menu m < MENU_NUM \<Longrightarrow>
   \<exists>s' m'. key_polls ps s m = Some (s', m') \<and> keys_ok s' \<and> g_cur_menu m' < MENU_NUM"
proof (induction ps arbitrary: s m)
  case (Cons p ps)
  from key_poll [OF Cons.prems, of p] obtain s1 m1 where "key_poll_timer_cb p s m = Some (s1, m1)" "keys_ok s1"
    "g_cur_menu m1 < MENU_NUM" by blast
  with Cons.IH show ?case by auto
qed simp

section \<open>Properties\<close>

text \<open>From power-up, whatever the key pins read and for any number of polls, no poll indexes outside
  \<open>key_func_table\<close> or calls a null call-back, the menu page stays valid, and one poll performs exactly
  the key functions of the buttons that completed a click.\<close>

lemma key_polling_safe:
  assumes "head_handle s = None" "g_cur_menu m < MENU_NUM" "buttons_init pins s = Some s0"
  shows "\<exists>s1 m1. key_polls ps s0 m = Some (s1, m1) \<and> g_cur_menu m1 < MENU_NUM \<and>
    (\<exists>s2 m2. key_poll_timer_cb p s1 m1 = Some (s2, m2) \<and> press_keys (clicked p s1) m1 = Some m2)"
proof -
  from buttons_init_ok [OF assms(1), of pins] assms(3) have "keys_ok s0" by auto
  from key_polls_ok [OF this assms(2)] obtain s1 m1 where "key_polls ps s0 m = Some (s1, m1)" "keys_ok s1"
    "g_cur_menu m1 < MENU_NUM" by blast
  with key_poll [of s1 m1 p] show ?thesis by blast
qed

theorem key_polling_safe_witness:
  "\<exists>s0 s1 m1. buttons_init (\<lambda>_. 1) \<lparr>head_handle = None, btn = (\<lambda>_. button_demo)\<rparr> = Some s0 \<and>
     key_polls [\<lambda>_. 0, \<lambda>_. 1] s0 \<lparr>g_cur_menu = 4, show_result_flag = 0, reset_factory_flag = 0, write_eeprom_flag = 0\<rparr> = Some (s1, m1)"
proof -
  let ?s = "\<lparr>head_handle = None, btn = (\<lambda>_. button_demo)\<rparr>"
  let ?m = "\<lparr>g_cur_menu = 4, show_result_flag = 0, reset_factory_flag = 0, write_eeprom_flag = 0\<rparr>"
  obtain s0 where "buttons_init (\<lambda>_. 1) ?s = Some s0" using buttons_init_ok [of ?s "\<lambda>_. 1"] by auto
  with key_polling_safe [of ?s ?m "\<lambda>_. 1" s0 "[\<lambda>_. 0, \<lambda>_. 1]" "\<lambda>_. 0"] show ?thesis
    by (auto simp: MENU_NUM_def simp del: key_polls.simps)
qed

text \<open>Menu navigation: the up and down keys walk the four display pages in a ring and undo each
  other there; the settings page is entered by the set key from the first two pages only, and from it
  up leads to the IO page and down and enter lead home; only the set key on the settings page requests
  an EEPROM write.\<close>

lemma menu_navigation:
  assumes "g_cur_menu s < MENU_NUM" "k < 4" "key_cb k s = Some s'"
  shows "(g_cur_menu s \<noteq> MENU_SETTING \<and> k = KEY_DOWN \<longrightarrow> g_cur_menu s' = (g_cur_menu s + 1) mod 4 \<and>
            map_option g_cur_menu (key_cb KEY_UP s') = Some (g_cur_menu s)) \<and>
    (g_cur_menu s' = MENU_SETTING \<longleftrightarrow>
       k = KEY_SET \<and> g_cur_menu s \<in> {MENU_HOME, MENU_VI, MENU_SETTING}) \<and>
    (g_cur_menu s = MENU_SETTING \<longrightarrow> g_cur_menu s' = (if k = KEY_SET then MENU_SETTING
       else if k = KEY_UP then MENU_IO else MENU_HOME)) \<and>
    (write_eeprom_flag s' \<noteq> write_eeprom_flag s \<longrightarrow> k = KEY_SET \<and> g_cur_menu s = MENU_SETTING)"
  using menu_cases [of "g_cur_menu s"] key_cases [OF assms(2)] assms(1,3)
  by (auto simp: key_cb_def key_func_table_def key_funcs menu_consts)

theorem menu_navigation_witness:
  "map_option g_cur_menu (key_cb KEY_DOWN \<lparr>g_cur_menu = 3, show_result_flag = 0, reset_factory_flag = 0, write_eeprom_flag = 0\<rparr>) = Some 0"
  using menu_navigation [of "\<lparr>g_cur_menu = 3, show_result_flag = 0, reset_factory_flag = 0, write_eeprom_flag = 0\<rparr>" KEY_DOWN
    "\<lparr>g_cur_menu = 0, show_result_flag = 0, reset_factory_flag = 0, write_eeprom_flag = 0\<rparr>"]
  by (simp add: key_cb_def key_func_table_def page_down_def menu_consts)

end
