(* ===== verification/SysState.thy ===== *)
theory SysState
  imports Prelude Mailbox
begin

text \<open>
  The shared parameter block \<open>sys.mycan.para\<close> (\<open>struct myPara\<close> of \<open>inc/mycan.h\<close>), which the CAN handlers
  send, the input monitor and the UPS poller fill and the indicator loop reads, and the alarm event
  monitor (\<open>event_monitor.c\<close>) that works on its alarm words. One-bit fields are Booleans; the two
  alarm words are unions, so their named bits are bits of the word.
\<close>

record myPara =
  i_load :: u16
  v_load :: u16
  real_idensity :: u16
  INPUT_P0 :: u8
  INPUT_P1 :: u8
  OUTPUT_P0 :: u8
  cmd_idensity :: u8
  ccr_local_remote :: bool
  ccr_relay_state :: bool
  ccr_power_on_state :: bool
  ccr_alarm_state :: u16
  ups_input_voltage :: u16
  ups_output_voltage :: u16
  ups_battery_voltage :: u16
  ups_battery_capacity :: u16
  ups_battery_duration_min :: u16
  ups_battery_duration_s :: u16
  ups_read_alarm_status :: u16
  ups_alarm_status :: u16
  ups_run_stataus :: u16
  can0_comm_fail_flag :: u8
  can1_comm_fail_flag :: u8
  insResistanceValue :: u16
  insResistanceUnit :: u16
  badLampNum :: u16
  sys_com_indicator :: u8
  seconds :: u32
  ms :: u16

definition para0 :: myPara where
  "para0 = \<lparr>i_load = 0, v_load = 0, real_idensity = 0, INPUT_P0 = 0, INPUT_P1 = 0, OUTPUT_P0 = 0,
     cmd_idensity = 0, ccr_local_remote = False, ccr_relay_state = False, ccr_power_on_state = False,
     ccr_alarm_state = 0, ups_input_voltage = 0, ups_output_voltage = 0, ups_battery_voltage = 0,
     ups_battery_capacity = 0, ups_battery_duration_min = 0, ups_battery_duration_s = 0,
     ups_read_alarm_status = 0, ups_alarm_status = 0, ups_run_stataus = 0, can0_comm_fail_flag = 0,
     can1_comm_fail_flag = 0, insResistanceValue = 0, insResistanceUnit = 0, badLampNum = 0,
     sys_com_indicator = 0, seconds = 0, ms = 0\<rparr>"

text \<open>Assignment to a one-bit field that is bit \<open>n\<close> of a word.\<close>

definition put_bit :: "nat \<Rightarrow> bool \<Rightarrow> 'a::len word \<Rightarrow> 'a word" where
  "put_bit n v w = (if v then set_bit n w else unset_bit n w)"

lemma bit_put_bit:
  "bit (put_bit n v w) k \<longleftrightarrow> (if k = n then v \<and> n < LENGTH('a) else bit (w :: 'a::len word) k)"
  by (auto simp: put_bit_def bit_set_bit_iff bit_unset_bit_iff dest: bit_imp_le_length)

section \<open>Alarm events\<close>

text \<open>
  \<open>alarm_event_monitor\<close> compares an alarm word with its previous value. The events it would mail are
  only logged (the \<open>rt_mb_send\<close> calls are commented out), so its effects are the new old value, the
  counter of changes and the result. The logged event codes are the fourth component: the code of
  the table with bit 15 set when the alarm begins, for each changed bit whose code is not zero,
  while one of the two CAN lines works.
\<close>

fun alarm_loop :: "u16 \<Rightarrow> u16 \<Rightarrow> bool \<Rightarrow> nat \<Rightarrow> u16 list \<Rightarrow> u8 \<Rightarrow> u16 list \<Rightarrow> u8 \<times> u16 list" where
  "alarm_loop alarm_status xor_reg com i [] change_flag log = (change_flag, log)"
| "alarm_loop alarm_status xor_reg com i (code # codes) change_flag log =
    (if bit xor_reg i then
       (let eventCode = (if bit alarm_status i then code OR 0x8000 else code);
            log' = (if code \<noteq> 0 \<and> com then log @ [eventCode] else log)
        in alarm_loop alarm_status xor_reg com (Suc i) codes 1 log')
     else alarm_loop alarm_status xor_reg com (Suc i) codes change_flag log)"

definition alarm_event_monitor ::
  "myPara \<Rightarrow> u16 \<Rightarrow> u16 \<Rightarrow> u16 list \<Rightarrow> u8 \<Rightarrow> u8 \<times> u16 \<times> u8 \<times> u16 list" where
  "alarm_event_monitor p alarm_status alarm_old_status event_code_tab g_alarm_event_cnt =
    (if alarm_old_status \<noteq> alarm_status then
       (let com = (can0_comm_fail_flag p = 0 \<or> can1_comm_fail_flag p = 0);
            (change_flag, log) = alarm_loop alarm_status (alarm_old_status XOR alarm_status) com 0 event_code_tab 0 []
        in (change_flag, alarm_status, g_alarm_event_cnt + 1, log))
     else (0, alarm_old_status, g_alarm_event_cnt, []))"

text \<open>What the loop reports: one entry per changed bit with a code.\<close>

definition alarm_log :: "u16 \<Rightarrow> u16 \<Rightarrow> u16 list \<Rightarrow> nat \<Rightarrow> u16 list" where
  "alarm_log old new codes i =
    map (\<lambda>k. if bit new (i + k) then codes ! k OR 0x8000 else codes ! k)
      (filter (\<lambda>k. bit old (i + k) \<noteq> bit new (i + k) \<and> codes ! k \<noteq> 0) [0..<length codes])"

lemma alarm_log_Cons:
  "alarm_log old new (c # cs) i =
   (if bit old i \<noteq> bit new i \<and> c \<noteq> 0 then [if bit new i then c OR 0x8000 else c] else []) @
   alarm_log old new cs (Suc i)"
proof -
  have "[0..<length (c # cs)] = 0 # map Suc [0..<length cs]"
    by (simp add: map_Suc_upt upt_conv_Cons del: upt_Suc)
  then show ?thesis
    by (simp add: alarm_log_def filter_map comp_def del: upt_Suc)
qed

lemma alarm_loop_spec:
  "alarm_loop new (old XOR new) com i codes f log =
    (if \<exists>k < length codes. bit old (i + k) \<noteq> bit new (i + k) then 1 else f,
     log @ (if com then alarm_log old new codes i else []))"
proof (induction codes arbitrary: i f log)
  case (Cons c cs)
  have ex: "(\<exists>k < length (c # cs). bit old (i + k) \<noteq> bit new (i + k)) \<longleftrightarrow>
      bit old i \<noteq> bit new i \<or> (\<exists>k < length cs. bit old (Suc i + k) \<noteq> bit new (Suc i + k))"
    by (auto simp: less_Suc_eq_0_disj)
  show ?case
    unfolding ex by (simp add: Cons.IH alarm_log_Cons bit_xor_iff)
qed (simp add: alarm_log_def)

end
