(* ===== verification/CanProto.thy ===== *)
theory CanProto
  imports SysState
begin

text \<open>
  The CAN protocol of the monitor (\<open>applications/can_response.c\<close>, \<open>applications/mycan.c\<close>): the table
  of message handlers, framing of an answer, parsing of a received frame, the sync mailboxes and the
  threads that empty them, and the millisecond clock. \<open>None\<close> is undefined behaviour: an access
  outside an array, a null argument that is dereferenced, or a shift by too many bits.
\<close>

section \<open>State\<close>

datatype can_dev = Can0 | Can1

record can_msg =
  can_id :: u32
  can_data :: "u8 list"

record can_sys =
  para :: myPara
  myCANID :: u8
  can_timer :: u16
  can_sync_mb0 :: mailbox
  can_sync_mb1 :: mailbox
  g_send_enable :: u8
  can_out :: "(can_dev \<times> can_msg) list"

text \<open>The \<open>void *arg\<close> of a handler: null, the received data with its device, or an event code.\<close>

datatype can_arg = NullArg | UserData can_dev "u8 list" | Code u32

type_synonym data_box = "u8 list"
type_synonym handler = "can_arg \<Rightarrow> data_box \<Rightarrow> int \<Rightarrow> can_sys \<Rightarrow> (data_box \<times> int \<times> can_sys) option"

definition CMD_SYNC_TIME :: u16 where "CMD_SYNC_TIME = 0x0101"
definition CMD_CTRL_LIGHT_LVL :: u16 where "CMD_CTRL_LIGHT_LVL = 0x02FF"
definition CMD_SYNC :: u16 where "CMD_SYNC = 0x0401"
definition CMD_PACK_UPS_ALARM_STATUS :: u16 where "CMD_PACK_UPS_ALARM_STATUS = 0x0331"
definition CMD_PACK_CCR_IO :: u16 where "CMD_PACK_CCR_IO = 0x0402"
definition CMD_PACK_UPS_IO :: u16 where "CMD_PACK_UPS_IO = 0x0430"
definition CMD_PACK_UPS_ANALOG :: u16 where "CMD_PACK_UPS_ANALOG = 0x0530"
definition CMD_PACK_CCR_LOOP_V_I_INFO :: u16 where "CMD_PACK_CCR_LOOP_V_I_INFO = 0x0503"
definition CMD_PACK_CCR_INSULATION :: u16 where "CMD_PACK_CCR_INSULATION = 0x0507"
definition CMD_PACK_CCR_LIGHT_FAIL_NUM :: u16 where "CMD_PACK_CCR_LIGHT_FAIL_NUM = 0x0508"

lemmas can_cmds = CMD_SYNC_TIME_def CMD_CTRL_LIGHT_LVL_def CMD_SYNC_def CMD_PACK_UPS_ALARM_STATUS_def
  CMD_PACK_CCR_IO_def CMD_PACK_UPS_IO_def CMD_PACK_UPS_ANALOG_def CMD_PACK_CCR_LOOP_V_I_INFO_def
  CMD_PACK_CCR_INSULATION_def CMD_PACK_CCR_LIGHT_FAIL_NUM_def

abbreviation upd_para :: "(myPara \<Rightarrow> myPara) \<Rightarrow> can_sys \<Rightarrow> can_sys" where
  "upd_para f s \<equiv> s\<lparr>para := f (para s)\<rparr>"

section \<open>The data box\<close>

text \<open>\<open>u16_array[i] = v\<close> on the union of eight bytes, little endian.\<close>

definition put16 :: "nat \<Rightarrow> u16 \<Rightarrow> data_box \<Rightarrow> data_box option" where
  "put16 i v box = do { box \<leftarrow> wr box (2 * i) (lo_byte v); wr box (2 * i + 1) (hi_byte v) }"

definition le32 :: "u8 \<Rightarrow> u8 \<Rightarrow> u8 \<Rightarrow> u8 \<Rightarrow> u32" where
  "le32 a b c d = ucast a OR push_bit 8 (ucast b) OR push_bit 16 (ucast c) OR push_bit 24 (ucast d)"

section \<open>Handlers\<close>

definition ccr_sync_time :: handler where
  "ccr_sync_time arg data len s = (case arg of UserData dev d \<Rightarrow> do {
       d2 \<leftarrow> rd d 2; d3 \<leftarrow> rd d 3; d4 \<leftarrow> rd d 4; d5 \<leftarrow> rd d 5; d6 \<leftarrow> rd d 6; d7 \<leftarrow> rd d 7;
       Some (data, - 1, upd_para (\<lambda>p. p\<lparr>seconds := le32 d2 d3 d4 d5, ms := be16 d7 d6\<rparr>) s)
     } | _ \<Rightarrow> None)"

definition sync_cmd_list :: "u16 list" where
  "sync_cmd_list = [CMD_PACK_CCR_IO, CMD_PACK_CCR_LOOP_V_I_INFO, CMD_PACK_UPS_ANALOG, CMD_PACK_UPS_IO]"

text \<open>A loop of \<open>rt_mb_send\<close> over a list of commands; the error code of a full mailbox is ignored.\<close>

fun send_cmds :: "u16 list \<Rightarrow> mailbox \<Rightarrow> mailbox option" where
  "send_cmds [] mb = Some mb"
| "send_cmds (c # cs) mb = do { (err, mb) \<leftarrow> rt_mb_send mb (ucast c); send_cmds cs mb }"

definition ccr_sync :: handler where
  "ccr_sync arg data len s = (case arg of UserData dev d \<Rightarrow>
       (case dev of
          Can0 \<Rightarrow> do { m \<leftarrow> send_cmds sync_cmd_list (can_sync_mb0 s); Some (data, - 1, s\<lparr>can_sync_mb0 := m\<rparr>) }
        | Can1 \<Rightarrow> do { m \<leftarrow> send_cmds sync_cmd_list (can_sync_mb1 s); Some (data, - 1, s\<lparr>can_sync_mb1 := m\<rparr>) })
     | _ \<Rightarrow> None)"

text \<open>\<open>1 << (level - 1)\<close> is a shift of an \<open>int\<close>: by 31 or more bits it is undefined.\<close>

definition light_mask :: "u8 \<Rightarrow> u8 option" where
  "light_mask level =
    (if level = 0 then Some 0
     else if unat level - 1 < 31 then Some (push_bit (unat level - 1) 1) else None)"

definition ccr_ctrl_light_lvl :: handler where
  "ccr_ctrl_light_lvl arg data len s =
    (if ccr_local_remote (para s) then
       (case arg of UserData dev d \<Rightarrow> do {
          d0 \<leftarrow> rd d 0;
          d1 \<leftarrow> rd d 1;
          data \<leftarrow> wr data 0 d0;
          data \<leftarrow> wr data 1 d1;
          let level = d1 - 1;
          mask \<leftarrow> light_mask level;
          Some (data, 0, upd_para (\<lambda>p. p\<lparr>cmd_idensity := level, OUTPUT_P0 := mask\<rparr>) s)
        } | _ \<Rightarrow> None)
     else Some (data, - 1, s))"

definition ccr_io_pack :: handler where
  "ccr_io_pack arg data len s = do {
     data \<leftarrow> put16 0 (ccr_alarm_state (para s)) data;
     let io_state = real_idensity (para s) OR push_bit 3 (ucast (cmd_idensity (para s)))
           OR push_bit 8 (of_bool (ccr_local_remote (para s))) OR push_bit 7 (of_bool (ccr_relay_state (para s)))
           OR push_bit 15 1;
     data \<leftarrow> put16 1 io_state data;
     Some (data, 4, s)
   }"

definition ccr_loop_i_v_info_pack :: handler where
  "ccr_loop_i_v_info_pack arg data len s = do {
     data \<leftarrow> put16 0 (i_load (para s)) data;
     data \<leftarrow> put16 1 (v_load (para s)) data;
     data \<leftarrow> put16 2 5000 data;
     Some (data, 6, s)
   }"

definition ccr_insulation_pack :: handler where
  "ccr_insulation_pack arg data len s = do {
     data \<leftarrow> put16 0 (insResistanceValue (para s)) data;
     data \<leftarrow> put16 1 (insResistanceUnit (para s)) data;
     Some (data, 4, s)
   }"

definition ccr_light_fail_pack :: handler where
  "ccr_light_fail_pack arg data len s = do {
     data \<leftarrow> put16 0 (badLampNum (para s)) data;
     Some (data, 2, s)
   }"

definition ups_io_pack :: handler where
  "ups_io_pack arg data len s = do {
     data \<leftarrow> wr data 0 (lo_byte (ups_run_stataus (para s) OR push_bit 1 (ups_alarm_status (para s))));
     data \<leftarrow> wr data 1 (lo_byte (ups_battery_capacity (para s)));
     data \<leftarrow> put16 1 (ups_battery_duration_min (para s)) data;
     Some (data, 4, s)
   }"

definition ups_alarm_status_pack :: handler where
  "ups_alarm_status_pack arg data len s = do {
     data \<leftarrow> put16 0 (ups_alarm_status (para s) AND 0xff) data;
     Some (data, 1, s)
   }"

definition ups_analog_pack :: handler where
  "ups_analog_pack arg data len s = do {
     data \<leftarrow> put16 0 (ups_input_voltage (para s)) data;
     data \<leftarrow> put16 1 (ups_output_voltage (para s)) data;
     data \<leftarrow> put16 2 (ups_battery_voltage (para s)) data;
     Some (data, 6, s)
   }"

text \<open>The event and status packers that no row of the table uses.\<close>

definition ccr_alarm_event_pack :: handler where
  "ccr_alarm_event_pack arg data len s = (case arg of Code e \<Rightarrow> do {
       data \<leftarrow> put16 0 (ucast e) data;
       data \<leftarrow> put16 1 (ucast (seconds (para s) AND 0xffff)) data;
       data \<leftarrow> put16 2 (ms (para s)) data;
       Some (data, 6, s)
     } | _ \<Rightarrow> None)"

definition ccr_alarm_status_pack :: handler where
  "ccr_alarm_status_pack arg data len s = do {
     data \<leftarrow> put16 0 (ccr_alarm_state (para s)) data;
     Some (data, 2, s)
   }"

definition ccr_v_output_pack :: handler where
  "ccr_v_output_pack arg data len s = do { data \<leftarrow> put16 0 (v_load (para s)) data; Some (data, 2, s) }"

definition ccr_i_output_pack :: handler where
  "ccr_i_output_pack arg data len s = do { data \<leftarrow> put16 0 (i_load (para s)) data; Some (data, 2, s) }"

definition ups_alarm_event_pack :: handler where
  "ups_alarm_event_pack arg data len s = (case arg of Code e \<Rightarrow> do {
       data \<leftarrow> put16 0 (ucast e) data;
       data \<leftarrow> put16 1 (ucast (seconds (para s) AND 0xffff)) data;
       data \<leftarrow> put16 2 (ms (para s)) data;
       Some (data, 6, s)
     } | _ \<Rightarrow> None)"

definition can_msg_handler_map :: "(u16 \<times> handler) list" where
  "can_msg_handler_map =
    [(CMD_SYNC, ccr_sync), (CMD_PACK_CCR_IO, ccr_io_pack), (CMD_SYNC_TIME, ccr_sync_time),
     (CMD_CTRL_LIGHT_LVL, ccr_ctrl_light_lvl), (CMD_PACK_UPS_ALARM_STATUS, ups_alarm_status_pack),
     (CMD_PACK_UPS_IO, ups_io_pack), (CMD_PACK_UPS_ANALOG, ups_analog_pack),
     (CMD_PACK_CCR_LOOP_V_I_INFO, ccr_loop_i_v_info_pack), (CMD_PACK_CCR_INSULATION, ccr_insulation_pack),
     (CMD_PACK_CCR_LIGHT_FAIL_NUM, ccr_light_fail_pack)]"

fun find_loop :: "(u16 \<times> handler) list \<Rightarrow> u16 \<Rightarrow> handler option" where
  "find_loop [] cmd = None"
| "find_loop ((c, h) # t) cmd = (if c = cmd then Some h else find_loop t cmd)"

definition find_cmd_with_msg_cmd :: "u16 \<Rightarrow> handler option" where
  "find_cmd_with_msg_cmd cmd = find_loop can_msg_handler_map cmd"

definition can_msg_response_data_pack :: "u16 \<Rightarrow> handler" where
  "can_msg_response_data_pack cmd arg data len s = (case find_cmd_with_msg_cmd cmd of
     Some msg_handler \<Rightarrow> msg_handler arg data len s
   | None \<Rightarrow> Some (data, len, s))"

section \<open>Frames\<close>

definition send_standard_frame :: "can_dev \<Rightarrow> u16 \<Rightarrow> can_arg \<Rightarrow> can_sys \<Rightarrow> can_sys option" where
  "send_standard_frame dev msg_cmd arg s =
    (if g_send_enable s = 0 then Some s
     else do {
       let id = ucast (msg_cmd AND 0xff00) OR ucast (myCANID s);
       let service = lo_byte (msg_cmd AND 0xff);
       let cmd = (if drop_bit 8 msg_cmd = 0x02 then 0x02ff else msg_cmd);
       (data, len, s) \<leftarrow> can_msg_response_data_pack cmd arg (replicate 8 0) 0 s;
       Some (if 0 \<le> len \<and> len \<le> 6
             then s\<lparr>can_out := can_out s @ [(dev, \<lparr>can_id = id, can_data = 0x00 # service # take (nat len) data\<rparr>)]\<rparr>
             else s)
     })"

text \<open>
  \<open>can_msg_parse\<close>: the eight bytes of \<open>user_data\<close> are an uninitialised local variable (\<open>stack\<close>) whose
  first bytes the received data overwrites. The message class is the low three bits of the second
  identifier byte.
\<close>

definition can_msg_parse :: "u8 list \<Rightarrow> can_dev \<Rightarrow> can_msg \<Rightarrow> can_sys \<Rightarrow> can_sys option" where
  "can_msg_parse stack dev msg s =
    (if length (can_data msg) > length stack then None
     else do {
       let d = can_data msg @ drop (length (can_data msg)) stack;
       dest \<leftarrow> rd d 0;
       service \<leftarrow> rd d 1;
       let msgID = ucast (drop_bit 8 (can_id msg) AND 0x07);
       let cmd = push_bit 8 msgID OR ucast service;
       if dest \<noteq> 0xff \<and> dest \<noteq> myCANID s then Some s
       else send_standard_frame dev cmd (UserData dev d) s
     })"

text \<open>One round of \<open>can_rx_thread\<close>: a frame, or two seconds without one.\<close>

definition can_rx_round :: "u8 list \<Rightarrow> can_dev \<Rightarrow> can_msg option \<Rightarrow> can_sys \<Rightarrow> can_sys option" where
  "can_rx_round stack dev rx s =
    (let flag = (\<lambda>v. case dev of Can0 \<Rightarrow> upd_para (\<lambda>p. p\<lparr>can0_comm_fail_flag := v\<rparr>) s
                                | Can1 \<Rightarrow> upd_para (\<lambda>p. p\<lparr>can1_comm_fail_flag := v\<rparr>) s)
     in case rx of None \<Rightarrow> Some (flag 1) | Some msg \<Rightarrow> can_msg_parse stack dev msg (flag 0))"

text \<open>One round of \<open>can_sync_upload_thread\<close>; \<open>Suspended\<close> while its mailbox is empty.\<close>

definition can_sync_upload_round :: "can_dev \<Rightarrow> can_sys \<Rightarrow> can_sys outcome option" where
  "can_sync_upload_round dev s = do {
     r \<leftarrow> rt_mb_recv (case dev of Can0 \<Rightarrow> can_sync_mb0 s | Can1 \<Rightarrow> can_sync_mb1 s) (- 1);
     case r of
       Suspended \<Rightarrow> Some Suspended
     | Ready (err, value, m) \<Rightarrow> do {
         cmd \<leftarrow> value;
         let s = (case dev of Can0 \<Rightarrow> s\<lparr>can_sync_mb0 := m\<rparr> | Can1 \<Rightarrow> s\<lparr>can_sync_mb1 := m\<rparr>);
         s \<leftarrow> send_standard_frame dev (ucast cmd) NullArg s;
         Some (Ready s)
       }
   }"

section \<open>The clock\<close>

text \<open>\<open>timeout\<close>, the call-back of the timer that fires at every kernel tick, that is every millisecond.\<close>

definition timeout_cb :: "can_sys \<Rightarrow> can_sys" where
  "timeout_cb s =
    (let s = (if ms (para s) < 65530 then upd_para (\<lambda>p. p\<lparr>ms := ms p + 1\<rparr>) s else s);
         s = (if ms (para s) \<ge> 1000 then upd_para (\<lambda>p. p\<lparr>ms := 0, seconds := seconds p + 1\<rparr>) s else s);
         s = (if can_timer s < 65530 then s\<lparr>can_timer := can_timer s + 1\<rparr> else s)
     in if can_timer s > 1000 then s\<lparr>can_timer := can_timer s - 1000\<rparr> else s)"

section \<open>Start-up\<close>

definition CAN_MB_NUM :: nat where "CAN_MB_NUM = 10"

text \<open>The mailboxes of \<open>can_thtead_create\<close>, over the two rows of \<open>can_msg_pool\<close> (40 bytes each).\<close>

definition can_mailboxes_init :: "u32 list \<Rightarrow> u32 list \<Rightarrow> can_sys \<Rightarrow> can_sys" where
  "can_mailboxes_init pool0 pool1 s =
     s\<lparr>can_sync_mb0 := rt_mb_init pool0 CAN_MB_NUM, can_sync_mb1 := rt_mb_init pool1 CAN_MB_NUM\<rparr>"

text \<open>\<open>myCANInit\<close>: node and group are bit fields of the identifier byte.\<close>

definition myCANInit :: "u8 \<Rightarrow> u8 \<Rightarrow> can_sys \<Rightarrow> can_sys" where
  "myCANInit group_no node_no s = s\<lparr>myCANID := push_bit 3 (group_no AND 0x1f) OR (node_no AND 0x07)\<rparr>"

section \<open>Lemmas\<close>

definition le16 :: "u16 \<Rightarrow> u8 list" where
  "le16 w = [lo_byte w, hi_byte w]"

lemma box0: "replicate 8 (0 :: u8) = [0, 0, 0, 0, 0, 0, 0, 0]"
  by (simp add: numeral_eq_Suc)

lemma put16_box:
  "put16 0 v [a, b, c, d, e, f, g, h] = Some [lo_byte v, hi_byte v, c, d, e, f, g, h]"
  "put16 1 v [a, b, c, d, e, f, g, h] = Some [a, b, lo_byte v, hi_byte v, e, f, g, h]"
  "put16 (Suc 0) v [a, b, c, d, e, f, g, h] = Some [a, b, lo_byte v, hi_byte v, e, f, g, h]"
  "put16 2 v [a, b, c, d, e, f, g, h] = Some [a, b, c, d, lo_byte v, hi_byte v, g, h]"
  by (simp_all add: put16_def list_update_code numeral_eq_Suc)

text \<open>The answers to the query commands, as bytes of the parameter block.\<close>

definition answer :: "u16 \<Rightarrow> myPara \<Rightarrow> u8 list option" where
  "answer cmd p =
    (if cmd = CMD_PACK_CCR_IO then
       Some (le16 (ccr_alarm_state p) @ le16 (real_idensity p OR push_bit 3 (ucast (cmd_idensity p))
           OR push_bit 8 (of_bool (ccr_local_remote p)) OR push_bit 7 (of_bool (ccr_relay_state p)) OR push_bit 15 1))
     else if cmd = CMD_PACK_CCR_LOOP_V_I_INFO then Some (le16 (i_load p) @ le16 (v_load p) @ le16 5000)
     else if cmd = CMD_PACK_UPS_ANALOG then
       Some (le16 (ups_input_voltage p) @ le16 (ups_output_voltage p) @ le16 (ups_battery_voltage p))
     else if cmd = CMD_PACK_UPS_IO then
       Some (lo_byte (ups_run_stataus p OR push_bit 1 (ups_alarm_status p)) # lo_byte (ups_battery_capacity p) #
             le16 (ups_battery_duration_min p))
     else if cmd = CMD_PACK_UPS_ALARM_STATUS then Some [lo_byte (ups_alarm_status p AND 0xff)]
     else if cmd = CMD_PACK_CCR_INSULATION then Some (le16 (insResistanceValue p) @ le16 (insResistanceUnit p))
     else if cmd = CMD_PACK_CCR_LIGHT_FAIL_NUM then Some (le16 (badLampNum p))
     else None)"

definition frame_of :: "u16 \<Rightarrow> can_sys \<Rightarrow> u8 list \<Rightarrow> can_msg" where
  "frame_of cmd s bytes = \<lparr>can_id = ucast (cmd AND 0xff00) OR ucast (myCANID s), can_data = 0 # lo_byte cmd # bytes\<rparr>"

lemma find_query [simp]:
  "find_cmd_with_msg_cmd CMD_SYNC = Some ccr_sync"
  "find_cmd_with_msg_cmd CMD_PACK_CCR_IO = Some ccr_io_pack"
  "find_cmd_with_msg_cmd CMD_SYNC_TIME = Some ccr_sync_time"
  "find_cmd_with_msg_cmd CMD_CTRL_LIGHT_LVL = Some ccr_ctrl_light_lvl"
  "find_cmd_with_msg_cmd CMD_PACK_UPS_ALARM_STATUS = Some ups_alarm_status_pack"
  "find_cmd_with_msg_cmd CMD_PACK_UPS_IO = Some ups_io_pack"
  "find_cmd_with_msg_cmd CMD_PACK_UPS_ANALOG = Some ups_analog_pack"
  "find_cmd_with_msg_cmd CMD_PACK_CCR_LOOP_V_I_INFO = Some ccr_loop_i_v_info_pack"
  "find_cmd_with_msg_cmd CMD_PACK_CCR_INSULATION = Some ccr_insulation_pack"
  "find_cmd_with_msg_cmd CMD_PACK_CCR_LIGHT_FAIL_NUM = Some ccr_light_fail_pack"
  by (simp_all add: find_cmd_with_msg_cmd_def can_msg_handler_map_def can_cmds)

lemma find_None:
  "cmd \<notin> fst ` set can_msg_handler_map \<Longrightarrow> find_cmd_with_msg_cmd cmd = None"
  by (auto simp: find_cmd_with_msg_cmd_def can_msg_handler_map_def)

lemma lo_and_ff [simp]: "lo_byte (w AND 0xff) = lo_byte w"
proof -
  have m: "(0xff :: u16) = mask 8" by (simp add: mask_eq_exp_minus_1)
  show ?thesis unfolding m by (rule bit_word_eqI) (simp add: bit_lo_byte bit_simps)
qed

lemma lo_5000: "lo_byte 5000 = 0x88" "hi_byte 5000 = 0x13"
  by (simp_all add: lo_byte_def hi_byte_def)

lemma pack_answer:
  assumes "answer cmd (para s) = Some bytes"
  shows "\<exists>rest. can_msg_response_data_pack cmd arg (replicate 8 0) 0 s = Some (bytes @ rest, int (length bytes), s) \<and>
    length bytes \<le> 6"
  using assms unfolding answer_def box0
  by (auto split: if_splits simp: can_msg_response_data_pack_def le16_def put16_box ccr_io_pack_def
      ccr_loop_i_v_info_pack_def ups_analog_pack_def ups_io_pack_def ups_alarm_status_pack_def
      ccr_insulation_pack_def ccr_light_fail_pack_def list_update_code)

lemma answer_class: "answer cmd p \<noteq> None \<Longrightarrow> drop_bit 8 cmd \<noteq> 2"
  by (auto simp: answer_def can_cmds split: if_splits)

lemma send_answer:
  assumes "g_send_enable s \<noteq> 0" "answer cmd (para s) = Some bytes"
  shows "send_standard_frame dev cmd arg s = Some (s\<lparr>can_out := can_out s @ [(dev, frame_of cmd s bytes)]\<rparr>)"
  using assms pack_answer [OF assms(2), of arg] answer_class [of cmd "para s"]
  by (auto simp: send_standard_frame_def frame_of_def)


definition can_inv :: "can_sys \<Rightarrow> bool" where
  "can_inv s \<longleftrightarrow> mb_inv (can_sync_mb0 s) \<and> mb_size (can_sync_mb0 s) = 10 \<and>
     mb_inv (can_sync_mb1 s) \<and> mb_size (can_sync_mb1 s) = 10"

lemma can_inv_init:
  "length pool0 = 10 \<Longrightarrow> length pool1 = 10 \<Longrightarrow> can_inv (can_mailboxes_init pool0 pool1 s)"
  by (simp add: can_inv_def can_mailboxes_init_def CAN_MB_NUM_def mb_inv_def rt_mb_init_def)

lemma send_cmds_put:
  "mb_inv m \<Longrightarrow> send_cmds cs m = Some (foldl mb_put m (map ucast cs))"
  by (induction cs arbitrary: m) (simp_all add: rt_mb_send_put mb_inv_put)

definition sync_mb :: "can_dev \<Rightarrow> can_sys \<Rightarrow> mailbox" where
  "sync_mb dev s = (case dev of Can0 \<Rightarrow> can_sync_mb0 s | Can1 \<Rightarrow> can_sync_mb1 s)"

definition set_sync_mb :: "can_dev \<Rightarrow> mailbox \<Rightarrow> can_sys \<Rightarrow> can_sys" where
  "set_sync_mb dev m s = (case dev of Can0 \<Rightarrow> s\<lparr>can_sync_mb0 := m\<rparr> | Can1 \<Rightarrow> s\<lparr>can_sync_mb1 := m\<rparr>)"

lemma sync_mb_set [simp]: "sync_mb d (set_sync_mb d m s) = m" "para (set_sync_mb d m s) = para s"
  "can_out (set_sync_mb d m s) = can_out s" "g_send_enable (set_sync_mb d m s) = g_send_enable s"
  "myCANID (set_sync_mb d m s) = myCANID s"
  by (cases d; simp add: sync_mb_def set_sync_mb_def)+

lemma can_inv_mb: "can_inv s \<Longrightarrow> mb_inv (sync_mb d s) \<and> mb_size (sync_mb d s) = 10"
  by (cases d) (simp_all add: can_inv_def sync_mb_def)

lemma ccr_sync_effect:
  assumes "can_inv s"
  shows "ccr_sync (UserData dev d) data len s =
    Some (data, - 1, set_sync_mb dev (foldl mb_put (sync_mb dev s) (map ucast sync_cmd_list)) s)"
  using can_inv_mb [OF assms, of dev]
  by (cases dev) (simp_all add: ccr_sync_def send_cmds_put sync_mb_def set_sync_mb_def)

text \<open>The command word of a received frame and its effect when it is addressed to this node.\<close>

definition msg_cmd_of :: "u32 \<Rightarrow> u8 \<Rightarrow> u16" where
  "msg_cmd_of i service = push_bit 8 (ucast (drop_bit 8 i AND 0x07)) OR ucast service"

lemma cmd_bytes: "lo_byte (msg_cmd_of i b) = b" "hi_byte (msg_cmd_of i b) = ucast (drop_bit 8 i AND 0x07)"
  by (rule bit_word_eqI, auto simp: msg_cmd_of_def bit_lo_byte bit_hi_byte bit_simps dest: bit_imp_le_length)+

lemma drop8_hi: "drop_bit 8 (w :: u16) = 2 \<longleftrightarrow> hi_byte w = 2"
proof -
  have "drop_bit 8 w = ucast (hi_byte w)"
    by (rule bit_word_eqI) (auto simp: bit_simps bit_hi_byte add.commute dest: bit_imp_le_length)
  moreover have "(ucast (2 :: u8) :: u16) = 2" by simp
  ultimately show ?thesis by (metis ucast_u16_inject)
qed

definition addressed :: "u8 list \<Rightarrow> can_sys \<Rightarrow> bool" where
  "addressed d s \<longleftrightarrow> d ! 0 = 0xff \<or> d ! 0 = myCANID s"

text \<open>The bytes that are parsed: the frame's, then what the local variable held before.\<close>

definition parsed_bytes :: "u8 list \<Rightarrow> can_msg \<Rightarrow> u8 list" where
  "parsed_bytes stack msg = can_data msg @ drop (length (can_data msg)) stack"

lemma parse_any:
  assumes "length stack = 8" "length (can_data msg) \<le> 8"
  shows "can_msg_parse stack dev msg s =
    (if addressed (parsed_bytes stack msg) s
     then send_standard_frame dev (msg_cmd_of (can_id msg) (parsed_bytes stack msg ! 1))
            (UserData dev (parsed_bytes stack msg)) s
     else Some s)"
proof -
  have "parsed_bytes stack msg \<noteq> []" "2 \<le> length (parsed_bytes stack msg)" using assms by (auto simp: parsed_bytes_def)
  with assms show ?thesis by (simp add: can_msg_parse_def addressed_def msg_cmd_of_def Let_def flip: parsed_bytes_def)
qed

lemma parse_overrun: "length stack = 8 \<Longrightarrow> 8 < length (can_data msg) \<Longrightarrow> can_msg_parse stack dev msg s = None"
  by (simp add: can_msg_parse_def)

lemma parsed_bytes_full:
  assumes "2 \<le> length (can_data msg)"
  shows "parsed_bytes stack msg ! 1 = can_data msg ! 1" "addressed (parsed_bytes stack msg) s = addressed (can_data msg) s"
proof -
  have "can_data msg \<noteq> []" using assms by auto
  with assms show "parsed_bytes stack msg ! 1 = can_data msg ! 1"
    "addressed (parsed_bytes stack msg) s = addressed (can_data msg) s"
    by (simp_all add: parsed_bytes_def addressed_def nth_append)
qed

lemma parse_send:
  assumes "length stack = 8" "2 \<le> length (can_data msg)" "length (can_data msg) \<le> 8"
  shows "can_msg_parse stack dev msg s =
    (if addressed (can_data msg) s
     then send_standard_frame dev (msg_cmd_of (can_id msg) (can_data msg ! 1))
            (UserData dev (can_data msg @ drop (length (can_data msg)) stack)) s
     else Some s)"
  unfolding parse_any [OF assms(1,3)] parsed_bytes_full [OF assms(2)] by (simp add: parsed_bytes_def)

lemma hi_byte_cmds:
  "hi_byte CMD_SYNC = 4" "hi_byte CMD_SYNC_TIME = 1" "hi_byte CMD_CTRL_LIGHT_LVL = 2" "hi_byte CMD_PACK_CCR_IO = 4"
  "hi_byte CMD_PACK_UPS_ALARM_STATUS = 3" "hi_byte CMD_PACK_UPS_IO = 4" "hi_byte CMD_PACK_UPS_ANALOG = 5"
  "hi_byte CMD_PACK_CCR_LOOP_V_I_INFO = 5" "hi_byte CMD_PACK_CCR_INSULATION = 5" "hi_byte CMD_PACK_CCR_LIGHT_FAIL_NUM = 5"
  by (simp_all add: can_cmds hi_byte_def)

lemma send_sync:
  assumes "can_inv s" "g_send_enable s \<noteq> 0"
  shows "send_standard_frame dev CMD_SYNC (UserData dev d) s =
    Some (set_sync_mb dev (foldl mb_put (sync_mb dev s) (map ucast sync_cmd_list)) s)"
  using assms(2) by (simp add: send_standard_frame_def drop8_hi hi_byte_cmds can_msg_response_data_pack_def
      ccr_sync_effect [OF assms(1)])

lemma send_time:
  assumes "length d = 8" "g_send_enable s \<noteq> 0"
  shows "send_standard_frame dev CMD_SYNC_TIME (UserData dev d) s =
    Some (upd_para (\<lambda>p. p\<lparr>seconds := le32 (d ! 2) (d ! 3) (d ! 4) (d ! 5), ms := be16 (d ! 7) (d ! 6)\<rparr>) s)"
  using assms by (simp add: send_standard_frame_def drop8_hi hi_byte_cmds can_msg_response_data_pack_def ccr_sync_time_def)

lemma send_light:
  assumes "length d = 8" "g_send_enable s \<noteq> 0" "hi_byte cmd = 2"
  shows "send_standard_frame dev cmd (UserData dev d) s =
    (if ccr_local_remote (para s) then
       map_option (\<lambda>m. s\<lparr>para := (para s)\<lparr>cmd_idensity := d ! 1 - 1, OUTPUT_P0 := m\<rparr>,
           can_out := can_out s @ [(dev, frame_of cmd s [])]\<rparr>) (light_mask (d ! 1 - 1))
     else Some s)"
proof -
  have f: "find_cmd_with_msg_cmd 0x02ff = Some ccr_ctrl_light_lvl"
    using find_query(4) by (simp add: CMD_CTRL_LIGHT_LVL_def)
  show ?thesis
    using assms by (cases "light_mask (d ! 1 - 1)")
      (simp_all add: send_standard_frame_def drop8_hi can_msg_response_data_pack_def f ccr_ctrl_light_lvl_def frame_of_def
        list_update_code box0)
qed

lemma send_unknown:
  assumes "g_send_enable s \<noteq> 0" "hi_byte cmd \<noteq> 2" "find_cmd_with_msg_cmd cmd = None"
  shows "send_standard_frame dev cmd arg s = Some (s\<lparr>can_out := can_out s @ [(dev, frame_of cmd s [])]\<rparr>)"
  using assms by (simp add: send_standard_frame_def drop8_hi can_msg_response_data_pack_def frame_of_def)

lemma send_disabled: "g_send_enable s = 0 \<Longrightarrow> send_standard_frame dev cmd arg s = Some s"
  by (simp add: send_standard_frame_def)

text \<open>Every command word belongs to one of five kinds.\<close>

lemma cmd_kinds:
  obtains (light) "hi_byte cmd = 2" | (sync) "cmd = CMD_SYNC" | (time) "cmd = CMD_SYNC_TIME"
    | (query) bytes where "hi_byte cmd \<noteq> 2" "answer cmd p = Some bytes"
    | (unknown) "hi_byte cmd \<noteq> 2" "find_cmd_with_msg_cmd cmd = None"
proof (cases "hi_byte cmd = 2")
  case False
  show thesis
  proof (cases "cmd \<in> fst ` set can_msg_handler_map")
    case True
    then have "cmd = CMD_SYNC \<or> cmd = CMD_SYNC_TIME \<or> answer cmd p \<noteq> None"
      using False by (simp add: can_msg_handler_map_def) (elim disjE; simp add: hi_byte_cmds answer_def)
    then show thesis
    proof (elim disjE)
      assume "answer cmd p \<noteq> None"
      then obtain bytes where "answer cmd p = Some bytes" by auto
      with False show thesis by (rule query)
    qed (rule sync time, assumption)+
  next
    case no: False
    show thesis by (rule unknown [OF False find_None [OF no]])
  qed
qed (rule light)

definition bad_level :: "u8 \<Rightarrow> bool" where
  "bad_level service \<longleftrightarrow> service = 0 \<or> 32 < service"

lemma light_mask_None: "light_mask (service - 1) = None \<longleftrightarrow> bad_level service"
proof (cases "service = 0")
  case False
  then have "unat (service - 1) = unat service - 1" "service \<noteq> 0" by (simp_all add: unat_minus_one)
  moreover have "service - 1 = 0 \<longleftrightarrow> service = 1" by auto
  ultimately show ?thesis by (auto simp: light_mask_def bad_level_def word_less_nat_alt)
next
  case True
  have "service - 1 = 255" using True by simp
  then have "light_mask (service - 1) = None" by (simp only:) (simp add: light_mask_def)
  then show ?thesis using True by (simp add: bad_level_def)
qed

lemma mb_puts_inv: "can_inv s \<Longrightarrow> can_inv (set_sync_mb dev (foldl mb_put (sync_mb dev s) vs) s)"
  by (cases dev) (simp_all add: can_inv_def set_sync_mb_def sync_mb_def mbq.inv_puts mbq.cap_puts)

lemma send_user:
  assumes inv: "can_inv s" and d: "length d = 8" and en: "g_send_enable s \<noteq> 0"
  shows "if hi_byte cmd = 2 \<and> ccr_local_remote (para s) \<and> bad_level (d ! 1)
     then send_standard_frame dev cmd (UserData dev d) s = None
     else \<exists>s'. send_standard_frame dev cmd (UserData dev d) s = Some s' \<and> can_inv s' \<and>
       (can_out s' = can_out s \<or> (\<exists>bytes. length bytes \<le> 6 \<and> can_out s' = can_out s @ [(dev, frame_of cmd s bytes)]))"
proof -
  have e: "\<exists>bytes. length bytes \<le> 6 \<and> frame_of cmd s [] = frame_of cmd s bytes" by (rule exI [of _ "[]"]) simp
  show ?thesis
  proof (cases rule: cmd_kinds [where cmd = cmd and p = "para s"])
  case light
  with send_light [OF d en light, of dev] light_mask_None [of "d ! 1"] inv show ?thesis
    by (auto simp: can_inv_def e)
next
  case sync
  with send_sync [OF inv en, of dev d] mb_puts_inv [OF inv] show ?thesis by (simp add: hi_byte_cmds)
next
  case time
  with send_time [OF d en, of dev] inv show ?thesis by (simp add: hi_byte_cmds can_inv_def)
next
  case (query bytes)
  with send_answer [OF en query(2), of dev "UserData dev d"] pack_answer [OF query(2)] inv show ?thesis
    by (auto simp: can_inv_def)
next
  case unknown
  with send_unknown [OF en unknown, of dev "UserData dev d"] inv show ?thesis
    by (auto simp: can_inv_def e)
qed
qed

section \<open>The upload thread\<close>

lemma recv_cons:
  assumes "mb_inv mb" "mb_items mb = x # xs"
  shows "\<exists>m. rt_mb_recv mb t = Some (Ready (RT_EOK, Some x, m)) \<and> mb_inv m \<and> mb_size m = mb_size mb \<and> mb_items m = xs"
proof -
  from mb_get_cons [OF assms] obtain m where m: "mb_get mb = Some (x, m)" "mb_inv m" "mb_size m = mb_size mb" "mb_items m = xs"
    by blast
  have "0 < entry mb" using assms(2) length_mb_items [of mb] by simp
  with m rt_mb_recv_inv [OF assms(1), of t] rt_mb_recv_inv [OF assms(1), of 0] show ?thesis
    by (auto simp: mb_get_def)
qed

lemma upload_round:
  assumes inv: "can_inv s" and ne: "mb_items (sync_mb dev s) = ucast c # xs"
    and en: "g_send_enable s \<noteq> 0" and ans: "answer c (para s) = Some bytes"
  shows "\<exists>m. can_sync_upload_round dev s =
      Some (Ready ((set_sync_mb dev m s)\<lparr>can_out := can_out s @ [(dev, frame_of c s bytes)]\<rparr>)) \<and>
    mb_inv m \<and> mb_size m = 10 \<and> mb_items m = xs"
proof -
  from can_inv_mb [OF inv] have mb: "mb_inv (sync_mb dev s)" "mb_size (sync_mb dev s) = 10" by auto
  from recv_cons [OF mb(1) ne, of "- 1"] mb(2) obtain m where
    m: "rt_mb_recv (sync_mb dev s) (- 1) = Some (Ready (RT_EOK, Some (ucast c), m))" "mb_inv m" "mb_size m = 10" "mb_items m = xs"
    by auto
  have c: "ucast (ucast c :: u32) = c" by (rule bit_word_eqI) (simp add: bit_simps)
  have f: "frame_of c (set_sync_mb dev m s) bytes = frame_of c s bytes" by (simp add: frame_of_def)
  from send_answer [of "set_sync_mb dev m s" c bytes dev NullArg] en ans
  have "send_standard_frame dev c NullArg (set_sync_mb dev m s) =
      Some ((set_sync_mb dev m s)\<lparr>can_out := can_out s @ [(dev, frame_of c s bytes)]\<rparr>)" by (simp add: f)
  with m show ?thesis
    by (intro exI [of _ m], cases dev) (simp_all add: can_sync_upload_round_def sync_mb_def set_sync_mb_def c)
qed

fun upload_rounds :: "nat \<Rightarrow> can_dev \<Rightarrow> can_sys \<Rightarrow> can_sys option" where
  "upload_rounds 0 dev s = Some s"
| "upload_rounds (Suc n) dev s = (case can_sync_upload_round dev s of
     Some (Ready s') \<Rightarrow> upload_rounds n dev s' | _ \<Rightarrow> None)"

lemma upload_rounds_frames:
  assumes "can_inv s" "mb_items (sync_mb dev s) = map ucast cs" "g_send_enable s \<noteq> 0"
    "\<And>c. c \<in> set cs \<Longrightarrow> answer c (para s) \<noteq> None"
  shows "\<exists>s'. upload_rounds (length cs) dev s = Some s' \<and> mb_items (sync_mb dev s') = [] \<and>
    can_out s' = can_out s @ map (\<lambda>c. (dev, frame_of c s (the (answer c (para s))))) cs"
  using assms
proof (induction cs arbitrary: s)
  case (Cons c cs)
  from Cons.prems(4) [of c] obtain bytes where b: "answer c (para s) = Some bytes" by auto
  from upload_round [OF Cons.prems(1) _ Cons.prems(3) b, of dev "map ucast cs"] Cons.prems(2) obtain m where
    m: "can_sync_upload_round dev s = Some (Ready ((set_sync_mb dev m s)\<lparr>can_out := can_out s @ [(dev, frame_of c s bytes)]\<rparr>))"
    "mb_inv m" "mb_size m = 10" "mb_items m = map ucast cs" by auto
  let ?s = "(set_sync_mb dev m s)\<lparr>can_out := can_out s @ [(dev, frame_of c s bytes)]\<rparr>"
  have inv: "can_inv ?s" using Cons.prems(1) m(2,3) by (cases dev) (simp_all add: can_inv_def set_sync_mb_def)
  have mb: "mb_items (sync_mb dev ?s) = map ucast cs" using m(4) by (cases dev) (simp_all add: sync_mb_def set_sync_mb_def)
  have f: "frame_of c' ?s x = frame_of c' s x" for c' x by (simp add: frame_of_def)
  from Cons.IH [OF inv mb] Cons.prems(3,4) m(1) b show ?case by (auto simp: f)
qed simp

section \<open>Properties\<close>

definition can_demo :: can_sys where
  "can_demo = \<lparr>para = para0\<lparr>i_load := 282, v_load := 4303, ccr_local_remote := True\<rparr>, myCANID = 9, can_timer = 0,
     can_sync_mb0 = rt_mb_init (replicate 10 0) 10, can_sync_mb1 = rt_mb_init (replicate 10 0) 10,
     g_send_enable = 1, can_out = []\<rparr>"

lemma can_demo_inv: "can_inv can_demo"
  by (simp add: can_inv_def can_demo_def mb_inv_def rt_mb_init_def)

text \<open>C8: Parsing any received frame whatever its length. A length above 8 overruns the local copy. A
  shorter frame is completed by what the uninitialised copy held, and nothing checks that it brought the
  address and the service code: a frame of no bytes or one byte is obeyed as the left-over bytes say. On
  the bytes so parsed, no array is left, unless they are a light command for this node in remote mode
  with service code 0 or above 32, whose shift is undefined; otherwise at most one frame is sent, on the
  same line, under the class and service parsed and this node's identifier, with at most six payload
  bytes; bytes for another node change nothing.\<close>

theorem can_parse_safe:
  assumes "can_inv s" "length stack = 8"
  shows "let d = parsed_bytes stack msg; cmd = msg_cmd_of (can_id msg) (d ! 1) in
    if 8 < length (can_data msg) then can_msg_parse stack dev msg s = None
    else if \<not> addressed d s \<or> g_send_enable s = 0 then can_msg_parse stack dev msg s = Some s
    else if hi_byte cmd = 2 \<and> ccr_local_remote (para s) \<and> bad_level (d ! 1)
    then can_msg_parse stack dev msg s = None
    else \<exists>s'. can_msg_parse stack dev msg s = Some s' \<and> can_inv s' \<and>
      (can_out s' = can_out s \<or> (\<exists>bytes. length bytes \<le> 6 \<and> can_out s' = can_out s @ [(dev, frame_of cmd s bytes)]))"
proof (cases "length (can_data msg) \<le> 8")
  case False
  then show ?thesis using parse_overrun [OF assms(2), of msg] by (simp add: Let_def)
next
  case True
  let ?d = "parsed_bytes stack msg"
  have d: "length ?d = 8" using assms True by (simp add: parsed_bytes_def)
  show ?thesis
  proof (cases "g_send_enable s = 0")
    case en: True
    then show ?thesis using True parse_any [OF assms(2) True, of dev s] by (simp add: send_disabled Let_def)
  next
    case False
    from send_user [OF assms(1) d False, of "msg_cmd_of (can_id msg) (?d ! 1)" dev]
    show ?thesis unfolding parse_any [OF assms(2) True, of dev s] using False True
      by (auto simp: Let_def simp del: One_nat_def split: if_splits)
  qed
qed

theorem can_parse_safe_witness:
  "can_msg_parse (replicate 8 0) Can0 \<lparr>can_id = 0x209, can_data = [9, 0]\<rparr> can_demo = None \<and>
   (\<exists>s'. can_msg_parse (replicate 8 0) Can0 \<lparr>can_id = 0x209, can_data = [9, 3]\<rparr> can_demo = Some s') \<and>
   can_msg_parse (9 # replicate 7 0) Can0 \<lparr>can_id = 0x209, can_data = []\<rparr> can_demo = None \<and>
   can_msg_parse (replicate 8 0) Can0 \<lparr>can_id = 0x209, can_data = replicate 9 0\<rparr> can_demo = None"
  using can_parse_safe [OF can_demo_inv, of "replicate 8 0" "\<lparr>can_id = 0x209, can_data = [9, 0]\<rparr>" Can0]
    can_parse_safe [OF can_demo_inv, of "replicate 8 0" "\<lparr>can_id = 0x209, can_data = [9, 3]\<rparr>" Can0]
    can_parse_safe [OF can_demo_inv, of "9 # replicate 7 0" "\<lparr>can_id = 0x209, can_data = []\<rparr>" Can0]
    can_parse_safe [OF can_demo_inv, of "replicate 8 0" "\<lparr>can_id = 0x209, can_data = replicate 9 0\<rparr>" Can0]
  by (auto simp: Let_def addressed_def can_demo_def cmd_bytes bad_level_def parsed_bytes_def)

text \<open>Queries are answered with the current values: for every query command the frame sent carries
  exactly the bytes of the documented fields of the parameter block, low byte first, and nothing else
  changes; an unknown command is still answered, with an empty payload.\<close>

lemma can_query_answered:
  assumes "g_send_enable s \<noteq> 0" "length stack = 8" "addressed [dest, service] s"
  shows "let cmd = msg_cmd_of i service in
    (\<forall>bytes. answer cmd (para s) = Some bytes \<longrightarrow>
       can_msg_parse stack dev \<lparr>can_id = i, can_data = [dest, service]\<rparr> s =
       Some (s\<lparr>can_out := can_out s @ [(dev, frame_of cmd s bytes)]\<rparr>)) \<and>
    (hi_byte cmd \<noteq> 2 \<and> find_cmd_with_msg_cmd cmd = None \<longrightarrow>
       can_msg_parse stack dev \<lparr>can_id = i, can_data = [dest, service]\<rparr> s =
       Some (s\<lparr>can_out := can_out s @ [(dev, frame_of cmd s [])]\<rparr>))"
  using assms by (simp add: Let_def parse_send send_answer send_unknown)

theorem can_query_answered_witness:
  "can_msg_parse (replicate 8 0) Can1 \<lparr>can_id = 0x509, can_data = [9, 3]\<rparr> can_demo =
     Some (can_demo\<lparr>can_out := [(Can1, \<lparr>can_id = 0x509, can_data = [0, 3, 0x1A, 0x01, 0xCF, 0x10, 0x88, 0x13]\<rparr>)]\<rparr>)"
proof -
  have cmd: "msg_cmd_of 0x509 3 = CMD_PACK_CCR_LOOP_V_I_INFO" by (simp add: msg_cmd_of_def can_cmds)
  have ans: "answer CMD_PACK_CCR_LOOP_V_I_INFO (para can_demo) = Some [0x1A, 0x01, 0xCF, 0x10, 0x88, 0x13]"
    by (simp add: answer_def can_cmds le16_def can_demo_def lo_byte_def hi_byte_def)
  have fr: "frame_of CMD_PACK_CCR_LOOP_V_I_INFO can_demo bs = \<lparr>can_id = 0x509, can_data = 0 # 3 # bs\<rparr>" for bs
    by (simp add: frame_of_def can_cmds can_demo_def lo_byte_def)
  have "g_send_enable can_demo \<noteq> 0" "addressed [9, 3] can_demo" "can_out can_demo = []"
    by (simp_all add: can_demo_def addressed_def)
  then show ?thesis
    using can_query_answered [of can_demo "replicate 8 0" 9 3 "0x509" Can1] ans by (simp add: Let_def cmd fr)
qed

text \<open>A light command with service code 1 to 32 in remote mode sets the commanded level to the code
  minus one and the output port to the matching single bit (none for level 0 and above 8) and is
  acknowledged; in local mode it is ignored.\<close>

lemma can_light_command:
  assumes "g_send_enable s \<noteq> 0" "length stack = 8" "addressed [dest, service] s"
    "hi_byte (msg_cmd_of i service) = 2" "1 \<le> service" "service \<le> 32"
  shows "can_msg_parse stack dev \<lparr>can_id = i, can_data = [dest, service]\<rparr> s =
    (if ccr_local_remote (para s) then
       Some (s\<lparr>para := (para s)\<lparr>cmd_idensity := service - 1,
           OUTPUT_P0 := (if service = 1 then 0 else push_bit (unat service - 2) 1)\<rparr>,
         can_out := can_out s @ [(dev, frame_of (msg_cmd_of i service) s [])]\<rparr>)
     else Some s)"
proof -
  have "service \<noteq> 0" using assms(5) by (cases "service = 0") simp_all
  then have n: "unat (service - 1) = unat service - 1" by (rule unat_minus_one)
  have r: "unat service \<le> 32" "1 \<le> unat service" using assms(5,6) by (simp_all add: word_le_nat_alt)
  have z: "service - 1 = 0 \<longleftrightarrow> service = 1" by auto
  have m: "light_mask (service - 1) = Some (if service = 1 then 0 else push_bit (unat service - 2) 1)"
    using r by (auto simp: light_mask_def z n numeral_2_eq_2)
  have d: "length ([dest, service] @ drop 2 stack) = 8" using assms(2) by simp
  have p: "can_msg_parse stack dev \<lparr>can_id = i, can_data = [dest, service]\<rparr> s =
      send_standard_frame dev (msg_cmd_of i service) (UserData dev ([dest, service] @ drop 2 stack)) s"
    using assms(2,3) by (simp add: parse_send numeral_2_eq_2)
  show ?thesis unfolding p send_light [OF d assms(1,4)] using m by simp
qed

theorem can_light_command_witness:
  "\<exists>s'. can_msg_parse (replicate 8 0) Can0 \<lparr>can_id = 0x209, can_data = [9, 4]\<rparr> can_demo = Some s' \<and>
     cmd_idensity (para s') = 3 \<and> OUTPUT_P0 (para s') = 4"
  using can_light_command [of can_demo "replicate 8 0" 9 4 "0x209" Can0]
  by (simp add: can_demo_def addressed_def cmd_bytes)

text \<open>A sync broadcast is not answered but posts its four status commands; four rounds of the upload
  thread then send the switch, loop, UPS analog and UPS status frames in that order and leave the
  mailbox empty.\<close>

lemma can_sync_uploads:
  assumes "can_inv s" "g_send_enable s \<noteq> 0" "length stack = 8" "addressed [dest, 0x01] s"
    "msg_cmd_of i 0x01 = CMD_SYNC" "mb_items (sync_mb dev s) = []"
  shows "\<exists>s1 s2. can_msg_parse stack dev \<lparr>can_id = i, can_data = [dest, 0x01]\<rparr> s = Some s1 \<and> can_out s1 = can_out s \<and>
    upload_rounds 4 dev s1 = Some s2 \<and> mb_items (sync_mb dev s2) = [] \<and>
    can_out s2 = can_out s @ map (\<lambda>c. (dev, frame_of c s (the (answer c (para s)))))
      [CMD_PACK_CCR_IO, CMD_PACK_CCR_LOOP_V_I_INFO, CMD_PACK_UPS_ANALOG, CMD_PACK_UPS_IO]"
proof -
  let ?m = "foldl mb_put (sync_mb dev s) (map ucast sync_cmd_list)" and ?s1 = "set_sync_mb dev (foldl mb_put (sync_mb dev s) (map ucast sync_cmd_list)) s"
  from can_inv_mb [OF assms(1)] have mb: "mb_inv (sync_mb dev s)" "mb_size (sync_mb dev s) = 10" by auto
  have len: "length sync_cmd_list = 4" by (simp add: sync_cmd_list_def)
  have items: "mb_items (sync_mb dev ?s1) = map ucast sync_cmd_list"
    by (simp add: mbq.items_puts [OF mb(1)] mb(2) assms(6) len)
  have ans: "answer c (para ?s1) \<noteq> None" if "c \<in> set sync_cmd_list" for c
    using that by (auto simp: sync_cmd_list_def answer_def)
  have en: "g_send_enable ?s1 \<noteq> 0" using assms(2) by simp
  obtain s2 where s2: "upload_rounds (length sync_cmd_list) dev ?s1 = Some s2" "mb_items (sync_mb dev s2) = []"
    "can_out s2 = can_out ?s1 @ map (\<lambda>c. (dev, frame_of c ?s1 (the (answer c (para ?s1))))) sync_cmd_list"
    using upload_rounds_frames [OF mb_puts_inv [OF assms(1)] items en ans] by blast
  have f: "frame_of c ?s1 bs = frame_of c s bs" for c bs by (simp add: frame_of_def)
  have out: "can_out ?s1 = can_out s" "para ?s1 = para s" by simp_all
  have p: "can_msg_parse stack dev \<lparr>can_id = i, can_data = [dest, 0x01]\<rparr> s = Some ?s1"
    using assms(3,4,5) send_sync [OF assms(1,2)] by (simp add: parse_send)
  show ?thesis
    unfolding sync_cmd_list_def [symmetric]
    using p out(1) s2(1) [unfolded len] s2(2) s2(3) [unfolded f out] by blast
qed

theorem can_sync_uploads_witness:
  "\<exists>s1 s2. can_msg_parse (replicate 8 0) Can0 \<lparr>can_id = 0x400, can_data = [0xff, 1]\<rparr> can_demo = Some s1 \<and>
     upload_rounds 4 Can0 s1 = Some s2 \<and> length (can_out s2) = 4"
proof -
  have "mb_items (sync_mb Can0 can_demo) = []" by (simp add: sync_mb_def can_demo_def)
  moreover have "msg_cmd_of 0x400 1 = CMD_SYNC" by (simp add: msg_cmd_of_def can_cmds)
  moreover have "g_send_enable can_demo \<noteq> 0" "addressed [0xff, 1] can_demo" "can_out can_demo = []"
    by (simp_all add: can_demo_def addressed_def)
  ultimately show ?thesis using can_sync_uploads [OF can_demo_inv, of "replicate 8 0" "0xff" "0x400" Can0] by auto
qed


text \<open>The clock: milliseconds since the epoch, in the 32-bit seconds.\<close>

definition clock_ms :: "can_sys \<Rightarrow> nat" where
  "clock_ms s = 1000 * unat (seconds (para s)) + unat (ms (para s))"

lemma timeout_clock:
  assumes "ms (para s) < 1000"
  shows "ms (para (timeout_cb s)) < 1000 \<and> clock_ms (timeout_cb s) = (clock_ms s + 1) mod (1000 * 2 ^ 32)"
proof -
  have m: "unat (ms (para s)) < 1000" using assms by (simp add: word_less_nat_alt)
  have u: "unat (ms (para s) + 1) = Suc (unat (ms (para s)))" using m by (intro unat_u16_Suc) simp
  have sec: "unat (seconds (para s)) < 2 ^ 32" using unsigned_less [of "seconds (para s)"] by simp
  show ?thesis
  proof (cases "Suc (unat (ms (para s))) = 1000")
    case True
    then have "ms (para s) + 1 = 1000" using u by (simp add: word_unat_eq_iff)
    moreover have "unat (seconds (para s) + 1) = (unat (seconds (para s)) + 1) mod 2 ^ 32" by (simp add: unat_word_ariths)
    moreover have "clock_ms s + 1 = 1000 * (unat (seconds (para s)) + 1)" using True by (simp add: clock_ms_def)
    then have "(clock_ms s + 1) mod (1000 * 2 ^ 32) = 1000 * ((unat (seconds (para s)) + 1) mod 2 ^ 32)"
      by (simp only: mult_mod_right)
    ultimately show ?thesis using assms by (simp add: timeout_cb_def clock_ms_def Let_def word_less_nat_alt)
  next
    case False
    then have "\<not> 1000 \<le> ms (para s) + 1" "ms (para s) + 1 < 1000" "ms (para s) < 65530"
      using u m by (simp_all add: word_less_nat_alt word_le_nat_alt)
    moreover have "clock_ms s + 1 < 1000 * 2 ^ 32" using sec m False by (simp add: clock_ms_def)
    ultimately show ?thesis using u by (simp add: timeout_cb_def clock_ms_def Let_def)
  qed
qed

text \<open>The clock counts milliseconds: from a valid time, \<open>n\<close> timer ticks advance it by \<open>n\<close>, modulo
  the 32-bit seconds, and the millisecond field stays below 1000.\<close>

lemma clock_counts:
  assumes "ms (para s) < 1000"
  shows "ms (para ((timeout_cb ^^ n) s)) < 1000 \<and>
    clock_ms ((timeout_cb ^^ n) s) = (clock_ms s + n) mod (1000 * 2 ^ 32)"
proof (induction n)
  case 0
  have "unat (ms (para s)) < 1000" "unat (seconds (para s)) < 2 ^ 32"
    using assms unsigned_less [of "seconds (para s)"] by (simp_all add: word_less_nat_alt)
  with assms show ?case by (simp add: clock_ms_def)
next
  case (Suc n)
  with timeout_clock [of "(timeout_cb ^^ n) s"] show ?case by (simp add: mod_simps)
qed

theorem clock_counts_witness:
  "clock_ms ((timeout_cb ^^ 61000) can_demo) = 61000"
  using clock_counts [of can_demo 61000] by (simp add: can_demo_def para0_def clock_ms_def)

end
