(* ===== verification/IoMonitor.thy ===== *)
theory IoMonitor
  imports SysState
begin

text \<open>
  The digital inputs and outputs (\<open>applications/tca9535.c\<close>, \<open>applications/io.c\<close>): a TCA9535 port
  expander polled every 80 ms, whose inputs become the switch and alarm state of the parameter block,
  and the light level outputs. The expander is not part of the repository: the two bytes that a poll
  reads are arguments (also when the transfer fails and the local variable keeps an arbitrary
  value), and the register writes are recorded as bus address and bytes.
\<close>

section \<open>Registers\<close>

definition TCA9535_LED_OUT1_ADDR :: u16 where "TCA9535_LED_OUT1_ADDR = 0x21"
definition TCA9535_LED_OUT2_ADDR :: u16 where "TCA9535_LED_OUT2_ADDR = 0x22"
definition TCA9535_PORT0_OUTPUT_CMD :: u8 where "TCA9535_PORT0_OUTPUT_CMD = 0x02"
definition TCA9535_PORT1_OUTPUT_CMD :: u8 where "TCA9535_PORT1_OUTPUT_CMD = 0x03"
definition TCA9535_PORT0_CFG_CMD :: u8 where "TCA9535_PORT0_CFG_CMD = 0x06"
definition TCA9535_PORT1_CFG_CMD :: u8 where "TCA9535_PORT1_CFG_CMD = 0x07"

datatype TCA9535_PORT_ENUM = TCA9535_PORT0 | TCA9535_PORT1

definition EVENT_INTPUT_CHANGED :: u32 where "EVENT_INTPUT_CHANGED = 0x02"

definition event_code_tab :: "u16 list" where
  "event_code_tab = [0x04, 0x07, 0x06, 0x08, 0x0A, 0x0B, 0x02, 0]"

record io_sys =
  io_para :: myPara
  send_enable :: u8
  input0_last :: u16
  input1_last :: u16
  alarm_event_cnt :: u8
  ccr_event_updata0 :: u32
  ccr_event_updata1 :: u32
  i2c_out :: "(u16 \<times> u8 list) list"
  cmd_idensity_last :: u8

section \<open>The bus\<close>

definition write_reg :: "u16 \<Rightarrow> u8 \<Rightarrow> u8 \<Rightarrow> io_sys \<Rightarrow> io_sys" where
  "write_reg addr reg data s = s\<lparr>i2c_out := i2c_out s @ [(addr, [reg, data])]\<rparr>"

definition TCA9535_Write_Port :: "u16 \<Rightarrow> TCA9535_PORT_ENUM \<Rightarrow> u8 \<Rightarrow> io_sys \<Rightarrow> io_sys" where
  "TCA9535_Write_Port addr port_n data s = (case port_n of
     TCA9535_PORT0 \<Rightarrow> write_reg addr TCA9535_PORT0_OUTPUT_CMD data s
   | TCA9535_PORT1 \<Rightarrow> write_reg addr TCA9535_PORT1_OUTPUT_CMD data s)"

definition TCA9535_init :: "io_sys \<Rightarrow> io_sys" where
  "TCA9535_init s =
    write_reg TCA9535_LED_OUT2_ADDR TCA9535_PORT1_CFG_CMD 0
      (write_reg TCA9535_LED_OUT2_ADDR TCA9535_PORT0_CFG_CMD 0
        (write_reg TCA9535_LED_OUT1_ADDR TCA9535_PORT1_CFG_CMD 0
          (write_reg TCA9535_LED_OUT1_ADDR TCA9535_PORT0_CFG_CMD 0 s)))"

section \<open>Inputs\<close>

definition update_ccr_alarm_status :: "myPara \<Rightarrow> myPara" where
  "update_ccr_alarm_status p = p\<lparr>ccr_alarm_state :=
     put_bit 0 (\<not> ccr_power_on_state p)
       (put_bit 12 (bit (INPUT_P0 p) 5)
         (put_bit 10 (bit (INPUT_P0 p) 4)
           (put_bit 5 (bit (INPUT_P0 p) 3)
             (put_bit 8 (bit (INPUT_P0 p) 2)
               (put_bit 1 (bit (INPUT_P0 p) 1)
                 (put_bit 2 (bit (INPUT_P0 p) 0) (ccr_alarm_state p)))))))\<rparr>"

definition update_ccr_io_status :: "myPara \<Rightarrow> myPara" where
  "update_ccr_io_status p =
    (let p = p\<lparr>ccr_local_remote := bit (INPUT_P1 p) 0, ccr_relay_state := bit (INPUT_P1 p) 1,
               ccr_power_on_state := bit (INPUT_P1 p) 2\<rparr>
     in p\<lparr>ccr_alarm_state := put_bit 0 (\<not> ccr_power_on_state p) (ccr_alarm_state p)\<rparr>)"

text \<open>\<open>inverse_byte\<close>: shift in the bits from the lowest to the highest.\<close>

fun inverse_loop :: "u8 \<Rightarrow> nat list \<Rightarrow> u8 \<Rightarrow> u8" where
  "inverse_loop b [] r = r"
| "inverse_loop b (i # js) r = inverse_loop b js (push_bit 1 r OR (drop_bit i b AND 0x01))"

definition inverse_byte :: "u8 \<Rightarrow> u8" where
  "inverse_byte b = inverse_loop b [0, 1, 2, 3, 4, 5, 6, 7] 0"

definition rt_event_send :: "u32 \<Rightarrow> u32 \<Rightarrow> u32" where
  "rt_event_send event flags = event OR flags"

text \<open>One round of \<open>input_check\<close> with the bytes read from the two input ports.\<close>

definition input_latch :: "u8 \<Rightarrow> u8 \<Rightarrow> myPara \<Rightarrow> myPara" where
  "input_latch r0 r1 p =
    (let p = p\<lparr>INPUT_P0 := NOT r0, INPUT_P1 := NOT r1\<rparr>
     in p\<lparr>INPUT_P0 := (if drop_bit 2 (INPUT_P1 p) AND 0x01 \<noteq> 0 then INPUT_P0 p AND NOT 0x40 else INPUT_P0 p OR 0x40)\<rparr>)"

definition input_check_p1 :: "io_sys \<Rightarrow> io_sys" where
  "input_check_p1 s =
    (if ucast (INPUT_P1 (io_para s)) \<noteq> input1_last s then
       (let s = s\<lparr>io_para := update_ccr_io_status (io_para s)\<rparr>;
            s = TCA9535_Write_Port TCA9535_LED_OUT1_ADDR TCA9535_PORT1 (NOT (INPUT_P1 (io_para s))) s;
            s = s\<lparr>input1_last := ucast (INPUT_P1 (io_para s))\<rparr>
        in if can0_comm_fail_flag (io_para s) = 0
           then s\<lparr>ccr_event_updata0 := rt_event_send (ccr_event_updata0 s) EVENT_INTPUT_CHANGED\<rparr>
           else if can1_comm_fail_flag (io_para s) = 0
           then s\<lparr>ccr_event_updata1 := rt_event_send (ccr_event_updata1 s) EVENT_INTPUT_CHANGED\<rparr>
           else s)
     else s)"

definition input_check_p0 :: "io_sys \<Rightarrow> io_sys" where
  "input_check_p0 s =
    (case alarm_event_monitor (io_para s) (ucast (INPUT_P0 (io_para s))) (input0_last s) event_code_tab (alarm_event_cnt s) of
       (change_flag, old, cnt, logged) \<Rightarrow>
         (let s = s\<lparr>input0_last := old, alarm_event_cnt := cnt\<rparr>
          in if change_flag \<noteq> 0 then
               (let s = s\<lparr>io_para := update_ccr_alarm_status (io_para s)\<rparr>;
                    p0_byte = inverse_byte (INPUT_P0 (io_para s))
                in TCA9535_Write_Port TCA9535_LED_OUT1_ADDR TCA9535_PORT0 (NOT p0_byte) s)
             else s))"

definition input_check_round :: "u8 \<Rightarrow> u8 \<Rightarrow> io_sys \<Rightarrow> io_sys" where
  "input_check_round r0 r1 s =
    (let s = s\<lparr>io_para := input_latch r0 r1 (io_para s), send_enable := 1\<rparr>
     in input_check_p0 (input_check_p1 s))"

section \<open>Outputs\<close>

definition idensity_out_map :: "u8 list" where
  "idensity_out_map = [0, 0x01, 0x02, 0x04, 0x08, 0x10, 0x20, 0x40, 0x80]"

definition output_check_round :: "io_sys \<Rightarrow> io_sys option" where
  "output_check_round s =
    (if cmd_idensity_last s \<noteq> cmd_idensity (io_para s) then do {
       outport \<leftarrow> rd idensity_out_map (unat (cmd_idensity (io_para s)));
       let outport = inverse_byte outport;
       let s = TCA9535_Write_Port TCA9535_LED_OUT2_ADDR TCA9535_PORT0 (NOT outport) s;
       Some (s\<lparr>cmd_idensity_last := cmd_idensity (io_para s)\<rparr>)
     } else Some s)"

section \<open>The communication indicator of the main loop\<close>

text \<open>One second of the loop in \<open>main\<close>: bit 7 shows the CAN lines, bit 6 the UPS line.\<close>

definition main_round :: "myPara \<Rightarrow> myPara" where
  "main_round p =
    (let ind = sys_com_indicator p;
         ind = (if can0_comm_fail_flag p \<noteq> 0 \<and> can1_comm_fail_flag p \<noteq> 0 then ind AND NOT 0x80
                else if can0_comm_fail_flag p \<noteq> 0 \<or> can1_comm_fail_flag p \<noteq> 0 then ind XOR 0x80
                else ind OR 0x80);
         ind = (if bit (ups_alarm_status p) 0 then ind AND NOT 0x40 else ind OR 0x40)
     in p\<lparr>sys_com_indicator := ind\<rparr>)"

section \<open>Lemmas\<close>

lemma bit_inverse_byte: "n < 8 \<Longrightarrow> bit (inverse_byte b) n = bit b (7 - n)"
proof -
  assume "n < 8"
  then have "n \<in> {0, 1, 2, 3, 4, 5, 6, 7}" by auto
  then show ?thesis
    unfolding inverse_byte_def inverse_loop.simps bit_or_iff bit_push_bit_iff bit_and_iff bit_drop_bit_eq o_apply
    by (elim insertE emptyE) (simp_all add: bit_1_iff)
qed

lemma inverse_inverse [simp]: "inverse_byte (inverse_byte b) = b"
  by (rule bit_word_eqI) (simp add: bit_inverse_byte)

lemma inverse_inject [simp]: "inverse_byte a = inverse_byte b \<longleftrightarrow> a = b"
  by (metis inverse_inverse)

section \<open>What the poll maintains\<close>

text \<open>The last byte written to a register of the expander at an address.\<close>

definition last_write :: "u16 \<Rightarrow> u8 \<Rightarrow> (u16 \<times> u8 list) list \<Rightarrow> u8 option" where
  "last_write addr reg out = foldl (\<lambda>acc (a, d). if a = addr \<and> d ! 0 = reg then Some (d ! 1) else acc) None out"

lemma last_write_snoc [simp]:
  "last_write addr reg (out @ [(a, [r, v])]) = (if a = addr \<and> r = reg then Some v else last_write addr reg out)"
  by (simp add: last_write_def)

definition led :: "u8 \<Rightarrow> io_sys \<Rightarrow> u8 option" where
  "led reg s = last_write TCA9535_LED_OUT1_ADDR reg (i2c_out s)"

text \<open>The parameter block and the LEDs show the inputs of the last poll.\<close>

definition io_coherent :: "io_sys \<Rightarrow> bool" where
  "io_coherent s \<longleftrightarrow>
    (let p = io_para s; a = ccr_alarm_state p; x = input0_last s; y = input1_last s in
     hi_byte x = 0 \<and> hi_byte y = 0 \<and>
     ccr_local_remote p = bit y 0 \<and> ccr_relay_state p = bit y 1 \<and> ccr_power_on_state p = bit y 2 \<and>
     bit a 2 = bit x 0 \<and> bit a 1 = bit x 1 \<and> bit a 8 = bit x 2 \<and> bit a 5 = bit x 3 \<and> bit a 10 = bit x 4 \<and>
     bit a 12 = bit x 5 \<and> (x = 0 \<and> y = 0 \<or> bit a 0 = (\<not> bit y 2)) \<and>
     (case led TCA9535_PORT0_OUTPUT_CMD s of None \<Rightarrow> x = 0 | Some v \<Rightarrow> v = NOT (inverse_byte (lo_byte x))) \<and>
     (case led TCA9535_PORT1_OUTPUT_CMD s of None \<Rightarrow> y = 0 | Some v \<Rightarrow> v = NOT (lo_byte y)))"

lemma hi_byte_ucast [simp]: "hi_byte (ucast (b :: u8)) = 0"
  by (rule bit_word_eqI) (auto simp: bit_hi_byte bit_simps dest: bit_imp_le_length)

lemma low_u16_eq: "hi_byte x = 0 \<Longrightarrow> x = ucast (lo_byte x)"
proof -
  assume "hi_byte x = 0"
  then have "be16 0 (lo_byte x) = x" by (metis be16_split)
  moreover have "be16 0 (lo_byte x) = ucast (lo_byte x)" by (simp add: be16_def)
  ultimately show ?thesis by simp
qed

lemma bit_ucast_u16 [simp]: "bit (ucast (b :: u8) :: u16) n = bit b n"
  by (auto simp: bit_simps dest: bit_imp_le_length)

lemma led_regs [simp]: "TCA9535_PORT0_OUTPUT_CMD \<noteq> TCA9535_PORT1_OUTPUT_CMD" "TCA9535_PORT1_OUTPUT_CMD \<noteq> TCA9535_PORT0_OUTPUT_CMD"
  by (simp_all add: TCA9535_PORT0_OUTPUT_CMD_def TCA9535_PORT1_OUTPUT_CMD_def)

lemma led_write [simp]:
  "led reg (TCA9535_Write_Port TCA9535_LED_OUT1_ADDR port v s) =
    (if reg = (case port of TCA9535_PORT0 \<Rightarrow> TCA9535_PORT0_OUTPUT_CMD | TCA9535_PORT1 \<Rightarrow> TCA9535_PORT1_OUTPUT_CMD)
     then Some v else led reg s)"
  by (cases port) (auto simp: led_def TCA9535_Write_Port_def write_reg_def)

lemma write_port_para [simp]:
  "io_para (TCA9535_Write_Port a p v s) = io_para s" "input0_last (TCA9535_Write_Port a p v s) = input0_last s"
  "input1_last (TCA9535_Write_Port a p v s) = input1_last s" "send_enable (TCA9535_Write_Port a p v s) = send_enable s"
  by (cases p; simp add: TCA9535_Write_Port_def write_reg_def)+

lemma led_upd [simp]:
  "led r (s\<lparr>io_para := p\<rparr>) = led r s" "led r (s\<lparr>send_enable := e\<rparr>) = led r s" "led r (s\<lparr>input0_last := x\<rparr>) = led r s"
  "led r (s\<lparr>input1_last := x\<rparr>) = led r s" "led r (s\<lparr>alarm_event_cnt := c\<rparr>) = led r s"
  "led r (s\<lparr>ccr_event_updata0 := u\<rparr>) = led r s" "led r (s\<lparr>ccr_event_updata1 := u\<rparr>) = led r s"
  by (simp_all add: led_def)

text \<open>The event table has eight entries, so a change of any bit of the low byte sets the flag.\<close>

lemma event_change:
  fixes b :: u8
  assumes "hi_byte old = 0"
  shows "fst (alarm_event_monitor p (ucast b) old event_code_tab cnt) = (if old = ucast b then 0 else 1)"
    "fst (snd (alarm_event_monitor p (ucast b) old event_code_tab cnt)) = ucast b"
proof -
  have len: "length event_code_tab = 8" by (simp add: event_code_tab_def)
  have ex: "(\<exists>k < length event_code_tab. bit old k \<noteq> bit b k) \<longleftrightarrow> old \<noteq> ucast b"
  proof
    assume "old \<noteq> ucast b"
    then have "lo_byte old \<noteq> b" using low_u16_eq [OF assms] by auto
    then obtain k where "k < 8" "bit (lo_byte old) k \<noteq> bit b k" by (auto simp: bit_eq_iff dest: bit_imp_le_length)
    then have "bit old k \<noteq> bit b k" by (simp add: bit_lo_byte)
    with \<open>k < 8\<close> show "\<exists>k < length event_code_tab. bit old k \<noteq> bit b k" unfolding len by blast
  qed auto
  show "fst (alarm_event_monitor p (ucast b) old event_code_tab cnt) = (if old = ucast b then 0 else 1)"
    "fst (snd (alarm_event_monitor p (ucast b) old event_code_tab cnt)) = ucast b"
    using ex by (auto simp: alarm_event_monitor_def alarm_loop_spec Let_def)
qed

lemma p1_step:
  assumes "io_coherent s"
  shows "io_coherent (input_check_p1 s) \<and> input1_last (input_check_p1 s) = ucast (INPUT_P1 (io_para s)) \<and>
    INPUT_P0 (io_para (input_check_p1 s)) = INPUT_P0 (io_para s) \<and> INPUT_P1 (io_para (input_check_p1 s)) = INPUT_P1 (io_para s) \<and>
    input0_last (input_check_p1 s) = input0_last s \<and> send_enable (input_check_p1 s) = send_enable s"
  using assms
  by (auto simp: io_coherent_def input_check_p1_def Let_def update_ccr_io_status_def bit_put_bit split: option.splits)

lemma p0_step:
  assumes "io_coherent s"
  shows "io_coherent (input_check_p0 s) \<and> input0_last (input_check_p0 s) = ucast (INPUT_P0 (io_para s)) \<and>
    INPUT_P0 (io_para (input_check_p0 s)) = INPUT_P0 (io_para s) \<and> INPUT_P1 (io_para (input_check_p0 s)) = INPUT_P1 (io_para s) \<and>
    input1_last (input_check_p0 s) = input1_last s \<and> send_enable (input_check_p0 s) = send_enable s"
proof -
  have hi: "hi_byte (input0_last s) = 0" using assms by (simp add: io_coherent_def Let_def)
  obtain f x c l where m: "alarm_event_monitor (io_para s) (ucast (INPUT_P0 (io_para s))) (input0_last s) event_code_tab
      (alarm_event_cnt s) = (f, x, c, l)" by (metis prod_cases4)
  have fx: "f = (if input0_last s = ucast (INPUT_P0 (io_para s)) then 0 else 1)" "x = ucast (INPUT_P0 (io_para s))"
    using event_change [OF hi, of "io_para s" "INPUT_P0 (io_para s)" "alarm_event_cnt s"] m by simp_all
  show ?thesis
  proof (cases "input0_last s = ucast (INPUT_P0 (io_para s))")
    case True
    with assms m fx show ?thesis by (simp add: input_check_p0_def Let_def io_coherent_def)
  next
    case False
    with assms m fx show ?thesis
      by (auto simp: input_check_p0_def Let_def io_coherent_def update_ccr_alarm_status_def bit_put_bit split: option.splits)
  qed
qed

lemma io_coherent_latch: "io_coherent s \<Longrightarrow> io_coherent (s\<lparr>io_para := input_latch r0 r1 (io_para s), send_enable := 1\<rparr>)"
  by (simp add: io_coherent_def input_latch_def Let_def)

lemma latch_bits:
  "INPUT_P1 (input_latch r0 r1 p) = NOT r1"
  "k < 8 \<Longrightarrow> bit (INPUT_P0 (input_latch r0 r1 p)) k = (if k = 6 then bit r1 2 else \<not> bit r0 k)"
proof -
  have m: "bit (0x40 :: u8) k \<longleftrightarrow> k = 6" for k
  proof -
    have e: "(0x40 :: u8) = push_bit 6 1" by simp
    show ?thesis unfolding e bit_push_bit_iff bit_1_iff by auto
  qed
  have a: "drop_bit 2 w AND 0x01 = 0 \<longleftrightarrow> \<not> bit w 2" for w :: u8
    by (simp add: and_one_eq bit_iff_odd_drop_bit even_iff_mod_2_eq_zero odd_iff_mod_2_eq_one)
  show "INPUT_P1 (input_latch r0 r1 p) = NOT r1" by (simp add: input_latch_def Let_def)
  show "k < 8 \<Longrightarrow> bit (INPUT_P0 (input_latch r0 r1 p)) k = (if k = 6 then bit r1 2 else \<not> bit r0 k)"
  proof -
    assume k: "k < 8"
    have m': "bit (w AND NOT 0x40) k = (bit w k \<and> k \<noteq> 6)" "bit (w OR 0x40) k = (bit w k \<or> k = 6)" for w :: u8
      unfolding bit_and_iff bit_or_iff bit_not_iff m using k by auto
    have e: "INPUT_P0 (input_latch r0 r1 p) = (if bit (NOT r1) 2 then NOT r0 AND NOT 0x40 else NOT r0 OR 0x40)"
      by (simp add: input_latch_def Let_def a)
    show ?thesis using k unfolding e by (cases "bit (NOT r1) 2") (simp_all only: if_True if_False m', auto simp: bit_not_iff)
  qed
qed

lemma round_step:
  assumes "io_coherent s"
  shows "io_coherent (input_check_round r0 r1 s) \<and>
    input1_last (input_check_round r0 r1 s) = ucast (NOT r1) \<and>
    input0_last (input_check_round r0 r1 s) = ucast (INPUT_P0 (input_latch r0 r1 (io_para s)))"
proof -
  let ?s = "s\<lparr>io_para := input_latch r0 r1 (io_para s), send_enable := 1\<rparr>"
  from p1_step [OF io_coherent_latch [OF assms], of r0 r1] have
    "io_coherent (input_check_p1 ?s)" "input1_last (input_check_p1 ?s) = ucast (NOT r1)"
    "INPUT_P0 (io_para (input_check_p1 ?s)) = INPUT_P0 (input_latch r0 r1 (io_para s))"
    by (simp_all add: latch_bits)
  with p0_step [of "input_check_p1 ?s"] show ?thesis by (simp add: input_check_round_def Let_def)
qed

lemma rounds_coherent:
  "io_coherent s \<Longrightarrow> io_coherent (foldl (\<lambda>s (r0, r1). input_check_round r0 r1 s) s rs)"
  by (induction rs arbitrary: s) (auto simp: round_step)


definition io_start :: io_sys where
  "io_start = \<lparr>io_para = para0, send_enable = 0, input0_last = 0, input1_last = 0, alarm_event_cnt = 0,
     ccr_event_updata0 = 0, ccr_event_updata1 = 0, i2c_out = [], cmd_idensity_last = 0\<rparr>"

lemma io_start_coherent: "io_coherent io_start"
  by (simp add: io_coherent_def io_start_def para0_def led_def last_write_def hi_byte_def)

lemma put_bit_above:
  "LENGTH('a) \<le> n \<Longrightarrow> put_bit n v w = (w :: 'a::len word)"
  by (rule bit_word_eqI) (simp add: bit_put_bit)

text \<open>Clearing, setting and toggling the two indicator bits.\<close>

lemma indicator_bits:
  fixes w :: u8
  assumes "k < 8"
  shows "bit (w AND - 129) k = (bit w k \<and> k \<noteq> 7)" "bit (w OR 128) k = (bit w k \<or> k = 7)"
    "bit (w XOR 128) k = (bit w k \<noteq> (k = 7))" "bit (w AND - 65) k = (bit w k \<and> k \<noteq> 6)"
    "bit (w OR 64) k = (bit w k \<or> k = 6)"
proof -
  have e: "(128 :: u8) = push_bit 7 1" "(64 :: u8) = push_bit 6 1"
    and m: "(- 129 :: u8) = NOT (push_bit 7 1)" "(- 65 :: u8) = NOT (push_bit 6 1)" by simp_all
  show "bit (w AND - 129) k = (bit w k \<and> k \<noteq> 7)" "bit (w OR 128) k = (bit w k \<or> k = 7)"
    "bit (w XOR 128) k = (bit w k \<noteq> (k = 7))" "bit (w AND - 65) k = (bit w k \<and> k \<noteq> 6)"
    "bit (w OR 64) k = (bit w k \<or> k = 6)"
    unfolding e m bit_and_iff bit_or_iff bit_xor_iff bit_not_iff bit_push_bit_iff bit_1_iff using assms by auto
qed

section \<open>Properties\<close>

text \<open>After any number of polls, the switch bits, every alarm bit and both rows of input LEDs agree
  with the bytes read at the last poll (inputs are active low, the power-off alarm is the missing
  power-on input), whatever was read before.\<close>

lemma input_check_tracks:
  assumes "rs = qs @ [(r0, r1)]"
  shows "let s = foldl (\<lambda>s (r0, r1). input_check_round r0 r1 s) io_start rs; a = ccr_alarm_state (io_para s) in
    ccr_local_remote (io_para s) = (\<not> bit r1 0) \<and> ccr_relay_state (io_para s) = (\<not> bit r1 1) \<and>
    ccr_power_on_state (io_para s) = (\<not> bit r1 2) \<and>
    bit a 2 = (\<not> bit r0 0) \<and> bit a 1 = (\<not> bit r0 1) \<and> bit a 8 = (\<not> bit r0 2) \<and> bit a 5 = (\<not> bit r0 3) \<and>
    bit a 10 = (\<not> bit r0 4) \<and> bit a 12 = (\<not> bit r0 5) \<and> bit a 0 = bit r1 2 \<and>
    (\<forall>v. led TCA9535_PORT1_OUTPUT_CMD s = Some v \<longrightarrow> v = r1) \<and>
    (\<forall>v. led TCA9535_PORT0_OUTPUT_CMD s = Some v \<longrightarrow> (\<forall>k < 6. bit v (7 - k) = bit r0 k))"
proof -
  let ?t = "foldl (\<lambda>s (r0, r1). input_check_round r0 r1 s) io_start qs"
  let ?s = "input_check_round r0 r1 ?t" and ?P = "INPUT_P0 (input_latch r0 r1 (io_para ?t))"
  have t: "io_coherent ?t" by (rule rounds_coherent [OF io_start_coherent])
  from round_step [OF t, of r0 r1] have s: "io_coherent ?s" "input1_last ?s = ucast (NOT r1)" "input0_last ?s = ucast ?P" by auto
  have P: "k < 8 \<Longrightarrow> bit ?P k = (if k = 6 then bit r1 2 else \<not> bit r0 k)" for k by (rule latch_bits(2))
  have nz: "\<not> (?P = 0 \<and> NOT r1 = 0)"
  proof
    assume z: "?P = 0 \<and> NOT r1 = 0"
    then have "\<not> bit ?P 6" "\<not> bit (NOT r1) 2" by simp_all
    then show False using P [of 6] by (simp add: bit_not_iff)
  qed
  have z: "(ucast b :: u16) = 0 \<longleftrightarrow> b = 0" for b :: u8 using ucast_u16_inject [of b 0] by simp
  have led0: "led TCA9535_PORT0_OUTPUT_CMD ?s = Some v \<Longrightarrow> v = NOT (inverse_byte ?P)" for v
    using s by (simp add: io_coherent_def Let_def)
  have led1: "led TCA9535_PORT1_OUTPUT_CMD ?s = Some v \<Longrightarrow> v = r1" for v
    using s by (simp add: io_coherent_def Let_def)
  have "bit v (7 - k) = bit r0 k" if "led TCA9535_PORT0_OUTPUT_CMD ?s = Some v" "k < 6" for v k
    using led0 [OF that(1)] that(2) P [of k] by (simp add: bit_not_iff bit_inverse_byte) auto
  moreover have "bit (ccr_alarm_state (io_para ?s)) 0 = bit r1 2"
    using s nz by (simp add: io_coherent_def Let_def z bit_not_iff)
  ultimately show ?thesis
    using s led1 unfolding assms foldl_append foldl.simps prod.case Let_def
    by (simp add: io_coherent_def Let_def P bit_not_iff)
qed

theorem input_check_tracks_witness:
  "let s = foldl (\<lambda>s (r0, r1). input_check_round r0 r1 s) io_start [(0xff, 0xff), (0xfe, 0xfa)] in
     ccr_local_remote (io_para s) \<and> ccr_power_on_state (io_para s) \<and> bit (ccr_alarm_state (io_para s)) 2 \<and>
     \<not> bit (ccr_alarm_state (io_para s)) 0"
  using input_check_tracks [of "[(0xff, 0xff), (0xfe, 0xfa)]" "[(0xff, 0xff)]" "0xfe" "0xfa"] by (simp add: Let_def)


text \<open>The level output drives exactly the relay of the commanded level: for levels up to 8 a change
  writes the complement of the mirrored one-hot byte and no change writes nothing; a level above 8,
  which a light command can set, reads beyond the table.\<close>

lemma output_check_level:
  "output_check_round s =
    (let level = cmd_idensity (io_para s) in
     if cmd_idensity_last s = level then Some s
     else if level \<le> 8 then
       Some (s\<lparr>i2c_out := i2c_out s @ [(TCA9535_LED_OUT2_ADDR, [TCA9535_PORT0_OUTPUT_CMD,
                NOT (if level = 0 then 0 else push_bit (8 - unat level) 1)])], cmd_idensity_last := level\<rparr>)
     else None)"
proof (cases "cmd_idensity (io_para s) \<le> 8")
  case True
  then have "unat (cmd_idensity (io_para s)) < 9" by (simp add: word_le_nat_alt)
  then have "unat (cmd_idensity (io_para s)) \<in> {0, 1, 2, 3, 4, 5, 6, 7, 8}" by auto
  then have "cmd_idensity (io_para s) \<in> {0, 1, 2, 3, 4, 5, 6, 7, 8}" by (auto simp: word_unat_eq_iff)
  then have "rd idensity_out_map (unat (cmd_idensity (io_para s))) =
      Some (inverse_byte (if cmd_idensity (io_para s) = 0 then 0 else push_bit (8 - unat (cmd_idensity (io_para s))) 1))"
    by (elim insertE emptyE) (simp_all add: idensity_out_map_def inverse_byte_def)
  with True show ?thesis
    by (simp add: output_check_round_def TCA9535_Write_Port_def write_reg_def Let_def)
next
  case False
  then have "\<not> unat (cmd_idensity (io_para s)) < length idensity_out_map"
    by (simp add: idensity_out_map_def word_le_nat_alt)
  with False show ?thesis by (simp add: output_check_round_def rd_out Let_def)
qed

lemma main_rounds_bits:
  "let q = (main_round ^^ Suc n) p; down0 = can0_comm_fail_flag p \<noteq> 0; down1 = can1_comm_fail_flag p \<noteq> 0 in
   bit (sys_com_indicator q) 7 =
     (if down0 \<and> down1 then False
      else if down0 \<or> down1 then bit (sys_com_indicator p) 7 = odd n else True) \<and>
   bit (sys_com_indicator q) 6 = (\<not> bit (ups_alarm_status p) 0) \<and>
   (\<forall>k < 6. bit (sys_com_indicator q) k = bit (sys_com_indicator p) k) \<and> q = p\<lparr>sys_com_indicator := sys_com_indicator q\<rparr>"
proof -
  have step: "bit (sys_com_indicator (main_round p)) k = (if k = 7 then
        (if can0_comm_fail_flag p \<noteq> 0 \<and> can1_comm_fail_flag p \<noteq> 0 then False
         else if can0_comm_fail_flag p \<noteq> 0 \<or> can1_comm_fail_flag p \<noteq> 0 then \<not> bit (sys_com_indicator p) 7 else True)
      else if k = 6 then \<not> bit (ups_alarm_status p) 0 else bit (sys_com_indicator p) k)"
    if "k < 8" for p k
    using that by (simp add: main_round_def Let_def indicator_bits)
  have para: "main_round p = p\<lparr>sys_com_indicator := sys_com_indicator (main_round p)\<rparr>" for p
    by (simp add: main_round_def Let_def)
  show ?thesis
  proof (induction n)
    case 0
    then show ?case using step [of _ p] para [of p] by (simp add: Let_def)
  next
    case (Suc n)
    define q where "q = (main_round ^^ Suc n) p"
    have IH: "bit (sys_com_indicator q) 7 =
       (if can0_comm_fail_flag p \<noteq> 0 \<and> can1_comm_fail_flag p \<noteq> 0 then False
        else if can0_comm_fail_flag p \<noteq> 0 \<or> can1_comm_fail_flag p \<noteq> 0
        then bit (sys_com_indicator p) 7 = odd n else True)"
      "\<forall>k < 6. bit (sys_com_indicator q) k = bit (sys_com_indicator p) k" "q = p\<lparr>sys_com_indicator := sys_com_indicator q\<rparr>"
      using Suc.IH unfolding q_def Let_def by blast+
    have f: "can0_comm_fail_flag q = can0_comm_fail_flag p" "can1_comm_fail_flag q = can1_comm_fail_flag p"
      "ups_alarm_status q = ups_alarm_status p" by (subst IH(3), simp)+
    have m: "main_round q = p\<lparr>sys_com_indicator := sys_com_indicator (main_round q)\<rparr>"
      by (subst para, subst IH(3)) simp
    have e: "(main_round ^^ Suc (Suc n)) p = main_round q" by (simp add: q_def)
    show ?case
      unfolding e Let_def using m step [of _ q] IH(1,2) unfolding f by (auto split: if_splits)
  qed
qed

text \<open>The communication lamp: with both CAN lines down it is forced low, with one down it toggles at
  every round, with both up it is high; the UPS lamp follows the UPS line; no other bit changes.\<close>

lemma main_indicator:
  "let q = (main_round ^^ Suc n) p; down0 = can0_comm_fail_flag p \<noteq> 0; down1 = can1_comm_fail_flag p \<noteq> 0 in
   bit (sys_com_indicator q) 7 =
     (if down0 \<and> down1 then False
      else if down0 \<or> down1 then bit (sys_com_indicator p) 7 = odd n else True) \<and>
   bit (sys_com_indicator q) 6 = (\<not> bit (ups_alarm_status p) 0) \<and>
   take_bit 6 (sys_com_indicator q) = take_bit 6 (sys_com_indicator p) \<and>
   q = p\<lparr>sys_com_indicator := sys_com_indicator q\<rparr>"
proof -
  have "take_bit 6 x = take_bit 6 y" if "\<forall>k < 6. bit x k = bit y k" for x y :: u8
    using that by (auto simp: bit_eq_iff bit_take_bit_iff)
  then show ?thesis using main_rounds_bits [of n p] by (simp only: Let_def) blast
qed

end
