(* ===== verification/ModbusRtu.thy ===== *)
theory ModbusRtu
  imports Prelude Crc
begin

text \<open>
  The Modbus protocol library (\<open>packages/agile_modbus-v1.1.2/src/agile_modbus.c\<close>) on its RTU backend
  (\<open>agile_modbus_rtu.c\<close>), which the UPS poller and the register server use: the context and its
  buffers, the framing checks that both sides make, and the master's requests and decoders.

  A buffer is a list of bytes whose length is the size of the C array; \<open>None\<close> is an access outside
  it. A function returns the context with its changed buffers and the C result (\<open>-1\<close> for an error).
  The backend is the C table of functions; its functions get the fields of the context they read.
\<close>

section \<open>Block copies\<close>

definition wr_all :: "'a list \<Rightarrow> nat \<Rightarrow> 'a list \<Rightarrow> 'a list option" where
  "wr_all xs i vs = (if i + length vs \<le> length xs then Some (take i xs @ vs @ drop (i + length vs) xs) else None)"

definition rd_seg :: "'a list \<Rightarrow> nat \<Rightarrow> nat \<Rightarrow> 'a list option" where
  "rd_seg xs i n = (if i + n \<le> length xs then Some (take n (drop i xs)) else None)"

definition be_int :: "u8 \<Rightarrow> u8 \<Rightarrow> int" where
  "be_int h l = uint h * 256 + uint l"

text \<open>C division of an \<open>int\<close> by 8 truncates towards zero.\<close>

definition nb_to_bytes :: "int \<Rightarrow> int" where
  "nb_to_bytes nb = (if 0 \<le> nb then nb div 8 else - (- nb div 8)) + (if nb mod 8 \<noteq> 0 then 1 else 0)"

section \<open>Context and backend\<close>

abbreviation (input) "AGILE_MODBUS_FC_READ_COILS \<equiv> 0x01 :: int"
abbreviation (input) "AGILE_MODBUS_FC_READ_DISCRETE_INPUTS \<equiv> 0x02 :: int"
abbreviation (input) "AGILE_MODBUS_FC_READ_HOLDING_REGISTERS \<equiv> 0x03 :: int"
abbreviation (input) "AGILE_MODBUS_FC_READ_INPUT_REGISTERS \<equiv> 0x04 :: int"
abbreviation (input) "AGILE_MODBUS_FC_WRITE_SINGLE_COIL \<equiv> 0x05 :: int"
abbreviation (input) "AGILE_MODBUS_FC_WRITE_SINGLE_REGISTER \<equiv> 0x06 :: int"
abbreviation (input) "AGILE_MODBUS_FC_READ_EXCEPTION_STATUS \<equiv> 0x07 :: int"
abbreviation (input) "AGILE_MODBUS_FC_WRITE_MULTIPLE_COILS \<equiv> 0x0F :: int"
abbreviation (input) "AGILE_MODBUS_FC_WRITE_MULTIPLE_REGISTERS \<equiv> 0x10 :: int"
abbreviation (input) "AGILE_MODBUS_FC_REPORT_SLAVE_ID \<equiv> 0x11 :: int"
abbreviation (input) "AGILE_MODBUS_FC_MASK_WRITE_REGISTER \<equiv> 0x16 :: int"
abbreviation (input) "AGILE_MODBUS_FC_WRITE_AND_READ_REGISTERS \<equiv> 0x17 :: int"

abbreviation (input) "AGILE_MODBUS_BROADCAST_ADDRESS \<equiv> 0 :: int"
abbreviation (input) "AGILE_MODBUS_MAX_READ_BITS \<equiv> 2000 :: int"
abbreviation (input) "AGILE_MODBUS_MAX_WRITE_BITS \<equiv> 1968 :: int"
abbreviation (input) "AGILE_MODBUS_MAX_READ_REGISTERS \<equiv> 125 :: int"
abbreviation (input) "AGILE_MODBUS_MAX_WRITE_REGISTERS \<equiv> 123 :: int"
abbreviation (input) "AGILE_MODBUS_MAX_WR_WRITE_REGISTERS \<equiv> 121 :: int"
abbreviation (input) "AGILE_MODBUS_MAX_WR_READ_REGISTERS \<equiv> 125 :: int"

datatype agile_modbus_msg_type = AGILE_MODBUS_MSG_INDICATION | AGILE_MODBUS_MSG_CONFIRMATION

record agile_modbus_sft =
  sft_slave :: int
  sft_function :: int
  sft_t_id :: int

record agile_modbus_backend =
  backend_is_rtu :: bool
  header_length :: nat
  checksum_length :: nat
  build_request_basis :: "int \<Rightarrow> int \<Rightarrow> int \<Rightarrow> int \<Rightarrow> u8 list \<Rightarrow> (u8 list \<times> nat) option"
  build_response_basis :: "agile_modbus_sft \<Rightarrow> u8 list \<Rightarrow> (u8 list \<times> nat) option"
  prepare_response_tid :: "u8 list \<Rightarrow> int \<Rightarrow> int \<times> int"
  send_msg_pre :: "u8 list \<Rightarrow> nat \<Rightarrow> (u8 list \<times> nat) option"
  check_integrity :: "u8 list \<Rightarrow> nat \<Rightarrow> int option"
  pre_check_confirmation :: "u8 list \<Rightarrow> u8 list \<Rightarrow> nat \<Rightarrow> int option"

record agile_modbus =
  slave :: int
  send_buf :: "u8 list"
  send_bufsz :: int
  read_buf :: "u8 list"
  read_bufsz :: int
  compute_meta_length_after_function :: "(int \<Rightarrow> agile_modbus_msg_type \<Rightarrow> u8) option"
  compute_data_length_after_meta :: "(u8 list \<Rightarrow> int \<Rightarrow> agile_modbus_msg_type \<Rightarrow> int) option"
  backend :: agile_modbus_backend

section \<open>The RTU backend\<close>

text \<open>The length argument of the CRC routine has sixteen bits.\<close>

definition rtu_crc16_buf :: "u8 list \<Rightarrow> nat \<Rightarrow> u16 option" where
  "rtu_crc16_buf buf n = map_option agile_modbus_rtu_crc16 (rd_seg buf 0 (n mod 65536))"

definition agile_modbus_rtu_build_request_basis ::
  "int \<Rightarrow> int \<Rightarrow> int \<Rightarrow> int \<Rightarrow> u8 list \<Rightarrow> (u8 list \<times> nat) option" where
  "agile_modbus_rtu_build_request_basis sl function addr nb req =
    do {
      req \<leftarrow> wr_all req 0 [of_int sl, of_int function, of_int (addr div 256), of_int addr,
                          of_int (nb div 256), of_int nb];
      Some (req, 6)
    }"

definition agile_modbus_rtu_build_response_basis :: "agile_modbus_sft \<Rightarrow> u8 list \<Rightarrow> (u8 list \<times> nat) option" where
  "agile_modbus_rtu_build_response_basis sft rsp =
    do {
      rsp \<leftarrow> wr_all rsp 0 [of_int (sft_slave sft), of_int (sft_function sft)];
      Some (rsp, 2)
    }"

definition agile_modbus_rtu_prepare_response_tid :: "u8 list \<Rightarrow> int \<Rightarrow> int \<times> int" where
  "agile_modbus_rtu_prepare_response_tid req req_length = (0, req_length - 2)"

definition agile_modbus_rtu_send_msg_pre :: "u8 list \<Rightarrow> nat \<Rightarrow> (u8 list \<times> nat) option" where
  "agile_modbus_rtu_send_msg_pre req req_length =
    do {
      crc \<leftarrow> rtu_crc16_buf req req_length;
      req \<leftarrow> wr_all req req_length [hi_byte crc, lo_byte crc];
      Some (req, req_length + 2)
    }"

definition agile_modbus_rtu_check_integrity :: "u8 list \<Rightarrow> nat \<Rightarrow> int option" where
  "agile_modbus_rtu_check_integrity msg msg_length =
    do {
      crc_calculated \<leftarrow> rtu_crc16_buf msg (msg_length - 2);
      h \<leftarrow> rd msg (msg_length - 2);
      l \<leftarrow> rd msg (msg_length - 1);
      Some (if crc_calculated = be16 h l then int msg_length else -1)
    }"

definition agile_modbus_rtu_pre_check_confirmation :: "u8 list \<Rightarrow> u8 list \<Rightarrow> nat \<Rightarrow> int option" where
  "agile_modbus_rtu_pre_check_confirmation req rsp rsp_length =
    do {
      r0 \<leftarrow> rd req 0;
      s0 \<leftarrow> rd rsp 0;
      Some (if r0 \<noteq> s0 \<and> uint r0 \<noteq> AGILE_MODBUS_BROADCAST_ADDRESS then -1 else 0)
    }"

definition agile_modbus_rtu_backend :: agile_modbus_backend where
  "agile_modbus_rtu_backend =
    \<lparr>backend_is_rtu = True, header_length = 1, checksum_length = 2,
     build_request_basis = agile_modbus_rtu_build_request_basis,
     build_response_basis = agile_modbus_rtu_build_response_basis,
     prepare_response_tid = agile_modbus_rtu_prepare_response_tid,
     send_msg_pre = agile_modbus_rtu_send_msg_pre,
     check_integrity = agile_modbus_rtu_check_integrity,
     pre_check_confirmation = agile_modbus_rtu_pre_check_confirmation\<rparr>"

definition agile_modbus_common_init :: "u8 list \<Rightarrow> u8 list \<Rightarrow> agile_modbus_backend \<Rightarrow> agile_modbus" where
  "agile_modbus_common_init sbuf rbuf be =
    \<lparr>slave = -1, send_buf = sbuf, send_bufsz = int (length sbuf), read_buf = rbuf,
     read_bufsz = int (length rbuf), compute_meta_length_after_function = None,
     compute_data_length_after_meta = None, backend = be\<rparr>"

definition agile_modbus_rtu_init :: "u8 list \<Rightarrow> u8 list \<Rightarrow> agile_modbus" where
  "agile_modbus_rtu_init sbuf rbuf = agile_modbus_common_init sbuf rbuf agile_modbus_rtu_backend"

definition agile_modbus_set_slave :: "agile_modbus \<Rightarrow> int \<Rightarrow> agile_modbus \<times> int" where
  "agile_modbus_set_slave ctx sl = (ctx\<lparr>slave := sl\<rparr>, 0)"

definition agile_modbus_set_compute_meta_length_after_function_cb ::
  "agile_modbus \<Rightarrow> (int \<Rightarrow> agile_modbus_msg_type \<Rightarrow> u8) option \<Rightarrow> agile_modbus" where
  "agile_modbus_set_compute_meta_length_after_function_cb ctx cb =
    ctx\<lparr>compute_meta_length_after_function := cb\<rparr>"

definition agile_modbus_set_compute_data_length_after_meta_cb ::
  "agile_modbus \<Rightarrow> (u8 list \<Rightarrow> int \<Rightarrow> agile_modbus_msg_type \<Rightarrow> int) option \<Rightarrow> agile_modbus" where
  "agile_modbus_set_compute_data_length_after_meta_cb ctx cb = ctx\<lparr>compute_data_length_after_meta := cb\<rparr>"

section \<open>Length of a received frame\<close>

definition agile_modbus_compute_meta_length_after_function ::
  "agile_modbus \<Rightarrow> int \<Rightarrow> agile_modbus_msg_type \<Rightarrow> int" where
  "agile_modbus_compute_meta_length_after_function ctx function msg_type =
    (let other = (\<lambda>dflt. case compute_meta_length_after_function ctx of None \<Rightarrow> dflt
                        | Some cb \<Rightarrow> uint (cb function msg_type))
     in case msg_type of
       AGILE_MODBUS_MSG_INDICATION \<Rightarrow>
         if function \<le> AGILE_MODBUS_FC_WRITE_SINGLE_REGISTER then 4
         else if function = AGILE_MODBUS_FC_WRITE_MULTIPLE_COILS \<or>
                 function = AGILE_MODBUS_FC_WRITE_MULTIPLE_REGISTERS then 5
         else if function = AGILE_MODBUS_FC_MASK_WRITE_REGISTER then 6
         else if function = AGILE_MODBUS_FC_WRITE_AND_READ_REGISTERS then 9
         else other 0
     | AGILE_MODBUS_MSG_CONFIRMATION \<Rightarrow>
         if function = AGILE_MODBUS_FC_READ_COILS \<or> function = AGILE_MODBUS_FC_READ_DISCRETE_INPUTS \<or>
            function = AGILE_MODBUS_FC_READ_HOLDING_REGISTERS \<or> function = AGILE_MODBUS_FC_READ_INPUT_REGISTERS \<or>
            function = AGILE_MODBUS_FC_REPORT_SLAVE_ID \<or> function = AGILE_MODBUS_FC_WRITE_AND_READ_REGISTERS then 1
         else if function = AGILE_MODBUS_FC_WRITE_SINGLE_COIL \<or> function = AGILE_MODBUS_FC_WRITE_SINGLE_REGISTER \<or>
            function = AGILE_MODBUS_FC_WRITE_MULTIPLE_COILS \<or>
            function = AGILE_MODBUS_FC_WRITE_MULTIPLE_REGISTERS then 4
         else if function = AGILE_MODBUS_FC_MASK_WRITE_REGISTER then 6
         else other 1)"

definition agile_modbus_compute_data_length_after_meta ::
  "agile_modbus \<Rightarrow> u8 list \<Rightarrow> int \<Rightarrow> agile_modbus_msg_type \<Rightarrow> int option" where
  "agile_modbus_compute_data_length_after_meta ctx msg msg_length msg_type =
    do {
      f \<leftarrow> rd msg (header_length (backend ctx));
      let function = uint f;
      let other = (case compute_data_length_after_meta ctx of None \<Rightarrow> 0
                   | Some cb \<Rightarrow> cb msg msg_length msg_type);
      length \<leftarrow> (case msg_type of
          AGILE_MODBUS_MSG_INDICATION \<Rightarrow>
            if function = AGILE_MODBUS_FC_WRITE_MULTIPLE_COILS \<or>
               function = AGILE_MODBUS_FC_WRITE_MULTIPLE_REGISTERS
            then map_option uint (rd msg (header_length (backend ctx) + 5))
            else if function = AGILE_MODBUS_FC_WRITE_AND_READ_REGISTERS
            then map_option uint (rd msg (header_length (backend ctx) + 9))
            else Some other
        | AGILE_MODBUS_MSG_CONFIRMATION \<Rightarrow>
            if function \<le> AGILE_MODBUS_FC_READ_INPUT_REGISTERS \<or> function = AGILE_MODBUS_FC_REPORT_SLAVE_ID \<or>
               function = AGILE_MODBUS_FC_WRITE_AND_READ_REGISTERS
            then map_option uint (rd msg (header_length (backend ctx) + 1))
            else Some other);
      Some (length + int (checksum_length (backend ctx)))
    }"

definition agile_modbus_receive_msg_judge ::
  "agile_modbus \<Rightarrow> u8 list \<Rightarrow> int \<Rightarrow> agile_modbus_msg_type \<Rightarrow> int option" where
  "agile_modbus_receive_msg_judge ctx msg msg_length msg_type =
    (let remain_len = msg_length - int (header_length (backend ctx) + 1) in
     if remain_len < 0 then Some (-1)
     else do {
       f \<leftarrow> rd msg (header_length (backend ctx));
       let remain_len = remain_len - agile_modbus_compute_meta_length_after_function ctx (uint f) msg_type;
       if remain_len < 0 then Some (-1)
       else do {
         d \<leftarrow> agile_modbus_compute_data_length_after_meta ctx msg msg_length msg_type;
         let remain_len = remain_len - d;
         if remain_len < 0 then Some (-1)
         else check_integrity (backend ctx) msg (nat (msg_length - remain_len))
       }
     })"

definition agile_modbus_receive_judge :: "agile_modbus \<Rightarrow> int \<Rightarrow> agile_modbus_msg_type \<Rightarrow> int option" where
  "agile_modbus_receive_judge ctx msg_length msg_type =
    (if msg_length \<le> 0 \<or> msg_length > read_bufsz ctx then Some (-1)
     else agile_modbus_receive_msg_judge ctx (read_buf ctx) msg_length msg_type)"

section \<open>The master: checking an answer\<close>

text \<open>\<open>None\<close> inside the option is the code's \<open>AGILE_MODBUS_MSG_LENGTH_UNDEFINED\<close>, \<open>-1\<close> in C.\<close>

definition agile_modbus_compute_response_length_from_request :: "agile_modbus \<Rightarrow> u8 list \<Rightarrow> int option" where
  "agile_modbus_compute_response_length_from_request ctx req =
    (let offset = header_length (backend ctx);
         total = (\<lambda>length. int offset + length + int (checksum_length (backend ctx)))
     in do {
       f \<leftarrow> rd req offset;
       let function = uint f;
       if function = AGILE_MODBUS_FC_READ_COILS \<or> function = AGILE_MODBUS_FC_READ_DISCRETE_INPUTS then do {
         h \<leftarrow> rd req (offset + 3);
         l \<leftarrow> rd req (offset + 4);
         Some (total (2 + nb_to_bytes (be_int h l)))
       }
       else if function = AGILE_MODBUS_FC_WRITE_AND_READ_REGISTERS \<or>
               function = AGILE_MODBUS_FC_READ_HOLDING_REGISTERS \<or>
               function = AGILE_MODBUS_FC_READ_INPUT_REGISTERS then do {
         h \<leftarrow> rd req (offset + 3);
         l \<leftarrow> rd req (offset + 4);
         Some (total (2 + 2 * be_int h l))
       }
       else if function = AGILE_MODBUS_FC_WRITE_SINGLE_COIL \<or> function = AGILE_MODBUS_FC_WRITE_SINGLE_REGISTER \<or>
               function = AGILE_MODBUS_FC_WRITE_MULTIPLE_COILS \<or>
               function = AGILE_MODBUS_FC_WRITE_MULTIPLE_REGISTERS then Some (total 5)
       else if function = AGILE_MODBUS_FC_MASK_WRITE_REGISTER then Some (total 7)
       else Some (-1)
     })"

definition agile_modbus_check_confirmation :: "agile_modbus \<Rightarrow> u8 list \<Rightarrow> u8 list \<Rightarrow> int \<Rightarrow> int option" where
  "agile_modbus_check_confirmation ctx req rsp rsp_length =
    (let offset = header_length (backend ctx)
     in do {
       f \<leftarrow> rd rsp offset;
       let function = uint f;
       rc \<leftarrow> pre_check_confirmation (backend ctx) req rsp (nat rsp_length);
       if rc < 0 then Some (-1)
       else do {
         rsp_length_computed \<leftarrow> agile_modbus_compute_response_length_from_request ctx req;
         rf \<leftarrow> rd req offset;
         if function \<ge> 0x80 then
           if rsp_length = int (offset + 2 + checksum_length (backend ctx)) \<and> uint rf = function - 0x80
           then do {
             e \<leftarrow> rd rsp (offset + 1);
             Some (-128 - uint e)
           }
           else Some (-1)
         else if rsp_length = rsp_length_computed \<or> rsp_length_computed = -1 then
           if function \<noteq> uint rf then Some (-1)
           else do {
             (req_nb_value, rsp_nb_value) \<leftarrow>
               (if function = AGILE_MODBUS_FC_READ_COILS \<or> function = AGILE_MODBUS_FC_READ_DISCRETE_INPUTS then do {
                  h \<leftarrow> rd req (offset + 3);
                  l \<leftarrow> rd req (offset + 4);
                  n \<leftarrow> rd rsp (offset + 1);
                  Some (nb_to_bytes (be_int h l), uint n)
                }
                else if function = AGILE_MODBUS_FC_WRITE_AND_READ_REGISTERS \<or>
                        function = AGILE_MODBUS_FC_READ_HOLDING_REGISTERS \<or>
                        function = AGILE_MODBUS_FC_READ_INPUT_REGISTERS then do {
                  h \<leftarrow> rd req (offset + 3);
                  l \<leftarrow> rd req (offset + 4);
                  n \<leftarrow> rd rsp (offset + 1);
                  Some (be_int h l, uint n div 2)
                }
                else if function = AGILE_MODBUS_FC_WRITE_MULTIPLE_COILS \<or>
                        function = AGILE_MODBUS_FC_WRITE_MULTIPLE_REGISTERS then do {
                  h \<leftarrow> rd req (offset + 3);
                  l \<leftarrow> rd req (offset + 4);
                  h' \<leftarrow> rd rsp (offset + 3);
                  l' \<leftarrow> rd rsp (offset + 4);
                  Some (be_int h l, be_int h' l')
                }
                else if function = AGILE_MODBUS_FC_REPORT_SLAVE_ID then do {
                  n \<leftarrow> rd rsp (offset + 1);
                  Some (uint n, uint n)
                }
                else Some (1, 1));
             Some (if req_nb_value = rsp_nb_value then rsp_nb_value else -1)
           }
         else Some (-1)
       }
     })"

section \<open>The master: requests\<close>

definition min_req_length :: "agile_modbus \<Rightarrow> int" where
  "min_req_length ctx = int (header_length (backend ctx) + 5 + checksum_length (backend ctx))"

definition agile_modbus_serialize_read_bits :: "agile_modbus \<Rightarrow> int \<Rightarrow> int \<Rightarrow> (agile_modbus \<times> int) option" where
  "agile_modbus_serialize_read_bits ctx addr nb =
    (if send_bufsz ctx < min_req_length ctx then Some (ctx, -1)
     else if nb > AGILE_MODBUS_MAX_READ_BITS then Some (ctx, -1)
     else do {
       (sb, req_length) \<leftarrow> build_request_basis (backend ctx) (slave ctx) AGILE_MODBUS_FC_READ_COILS addr nb (send_buf ctx);
       (sb, req_length) \<leftarrow> send_msg_pre (backend ctx) sb req_length;
       Some (ctx\<lparr>send_buf := sb\<rparr>, int req_length)
     })"

definition agile_modbus_serialize_read_input_bits :: "agile_modbus \<Rightarrow> int \<Rightarrow> int \<Rightarrow> (agile_modbus \<times> int) option" where
  "agile_modbus_serialize_read_input_bits ctx addr nb =
    (if send_bufsz ctx < min_req_length ctx then Some (ctx, -1)
     else if nb > AGILE_MODBUS_MAX_READ_BITS then Some (ctx, -1)
     else do {
       (sb, req_length) \<leftarrow>
         build_request_basis (backend ctx) (slave ctx) AGILE_MODBUS_FC_READ_DISCRETE_INPUTS addr nb (send_buf ctx);
       (sb, req_length) \<leftarrow> send_msg_pre (backend ctx) sb req_length;
       Some (ctx\<lparr>send_buf := sb\<rparr>, int req_length)
     })"

definition agile_modbus_serialize_read_registers :: "agile_modbus \<Rightarrow> int \<Rightarrow> int \<Rightarrow> (agile_modbus \<times> int) option" where
  "agile_modbus_serialize_read_registers ctx addr nb =
    (if send_bufsz ctx < min_req_length ctx then Some (ctx, -1)
     else if nb > AGILE_MODBUS_MAX_READ_REGISTERS then Some (ctx, -1)
     else do {
       (sb, req_length) \<leftarrow>
         build_request_basis (backend ctx) (slave ctx) AGILE_MODBUS_FC_READ_HOLDING_REGISTERS addr nb (send_buf ctx);
       (sb, req_length) \<leftarrow> send_msg_pre (backend ctx) sb req_length;
       Some (ctx\<lparr>send_buf := sb\<rparr>, int req_length)
     })"

definition agile_modbus_serialize_read_input_registers ::
  "agile_modbus \<Rightarrow> int \<Rightarrow> int \<Rightarrow> (agile_modbus \<times> int) option" where
  "agile_modbus_serialize_read_input_registers ctx addr nb =
    (if send_bufsz ctx < min_req_length ctx then Some (ctx, -1)
     else if nb > AGILE_MODBUS_MAX_READ_REGISTERS then Some (ctx, -1)
     else do {
       (sb, req_length) \<leftarrow>
         build_request_basis (backend ctx) (slave ctx) AGILE_MODBUS_FC_READ_INPUT_REGISTERS addr nb (send_buf ctx);
       (sb, req_length) \<leftarrow> send_msg_pre (backend ctx) sb req_length;
       Some (ctx\<lparr>send_buf := sb\<rparr>, int req_length)
     })"

definition agile_modbus_serialize_write_bit :: "agile_modbus \<Rightarrow> int \<Rightarrow> int \<Rightarrow> (agile_modbus \<times> int) option" where
  "agile_modbus_serialize_write_bit ctx addr status =
    (if send_bufsz ctx < min_req_length ctx then Some (ctx, -1)
     else do {
       (sb, req_length) \<leftarrow> build_request_basis (backend ctx) (slave ctx) AGILE_MODBUS_FC_WRITE_SINGLE_COIL addr
                             (if status \<noteq> 0 then 0xFF00 else 0) (send_buf ctx);
       (sb, req_length) \<leftarrow> send_msg_pre (backend ctx) sb req_length;
       Some (ctx\<lparr>send_buf := sb\<rparr>, int req_length)
     })"

definition agile_modbus_serialize_write_register :: "agile_modbus \<Rightarrow> int \<Rightarrow> u16 \<Rightarrow> (agile_modbus \<times> int) option" where
  "agile_modbus_serialize_write_register ctx addr value =
    (if send_bufsz ctx < min_req_length ctx then Some (ctx, -1)
     else do {
       (sb, req_length) \<leftarrow>
         build_request_basis (backend ctx) (slave ctx) AGILE_MODBUS_FC_WRITE_SINGLE_REGISTER addr (uint value) (send_buf ctx);
       (sb, req_length) \<leftarrow> send_msg_pre (backend ctx) sb req_length;
       Some (ctx\<lparr>send_buf := sb\<rparr>, int req_length)
     })"

text \<open>
  The two nested loops that pack \<open>nb\<close> flags into bytes. \<open>pack_bits\<close> is the inner one: it sets bit
  \<open>k\<close> of the byte from the next flag while flags are left; the flags not read yet are the list.
\<close>

fun pack_bits :: "nat \<Rightarrow> int \<Rightarrow> u8 list \<Rightarrow> u8 \<Rightarrow> (u8 \<times> int \<times> u8 list) option" where
  "pack_bits k left src acc =
    (if k < 8 \<and> 0 < left then
       (case src of [] \<Rightarrow> None
        | s # rest \<Rightarrow> pack_bits (Suc k) (left - 1) rest
                        (if s \<noteq> 0 then acc OR push_bit k 1 else acc AND NOT (push_bit k 1)))
     else Some (acc, left, src))"

declare pack_bits.simps [simp del]

fun pack_bytes :: "nat \<Rightarrow> int \<Rightarrow> u8 list \<Rightarrow> u8 list option" where
  "pack_bytes 0 left src = Some []"
| "pack_bytes (Suc n) left src =
    do {
      (b, left, src) \<leftarrow> pack_bits 0 left src 0;
      bs \<leftarrow> pack_bytes n left src;
      Some (b # bs)
    }"

definition agile_modbus_serialize_write_bits ::
  "agile_modbus \<Rightarrow> int \<Rightarrow> int \<Rightarrow> u8 list \<Rightarrow> (agile_modbus \<times> int) option" where
  "agile_modbus_serialize_write_bits ctx addr nb src =
    (if send_bufsz ctx < min_req_length ctx then Some (ctx, -1)
     else if nb > AGILE_MODBUS_MAX_WRITE_BITS then Some (ctx, -1)
     else do {
       (sb, req_length) \<leftarrow>
         build_request_basis (backend ctx) (slave ctx) AGILE_MODBUS_FC_WRITE_MULTIPLE_COILS addr nb (send_buf ctx);
       let byte_count = nb_to_bytes nb;
       if send_bufsz ctx < min_req_length ctx + (1 + byte_count) then Some (ctx\<lparr>send_buf := sb\<rparr>, -1)
       else do {
         bs \<leftarrow> pack_bytes (nat byte_count) nb src;
         sb \<leftarrow> wr_all sb req_length (of_int byte_count # bs);
         (sb, req_length) \<leftarrow> send_msg_pre (backend ctx) sb (req_length + 1 + nat byte_count);
         Some (ctx\<lparr>send_buf := sb\<rparr>, int req_length)
       }
     })"

text \<open>The loop that copies \<open>nb\<close> registers as big-endian pairs of bytes.\<close>

definition reg_bytes :: "int \<Rightarrow> u16 list \<Rightarrow> u8 list option" where
  "reg_bytes nb src = map_option (\<lambda>rs. concat (map (\<lambda>r. [hi_byte r, lo_byte r]) rs)) (rd_seg src 0 (nat nb))"

definition agile_modbus_serialize_write_registers ::
  "agile_modbus \<Rightarrow> int \<Rightarrow> int \<Rightarrow> u16 list \<Rightarrow> (agile_modbus \<times> int) option" where
  "agile_modbus_serialize_write_registers ctx addr nb src =
    (if send_bufsz ctx < min_req_length ctx then Some (ctx, -1)
     else if nb > AGILE_MODBUS_MAX_WRITE_REGISTERS then Some (ctx, -1)
     else do {
       (sb, req_length) \<leftarrow>
         build_request_basis (backend ctx) (slave ctx) AGILE_MODBUS_FC_WRITE_MULTIPLE_REGISTERS addr nb (send_buf ctx);
       let byte_count = nb * 2;
       if send_bufsz ctx < min_req_length ctx + (1 + byte_count) then Some (ctx\<lparr>send_buf := sb\<rparr>, -1)
       else do {
         bs \<leftarrow> reg_bytes nb src;
         sb \<leftarrow> wr_all sb req_length (of_int byte_count # bs);
         (sb, req_length) \<leftarrow> send_msg_pre (backend ctx) sb (req_length + 1 + length bs);
         Some (ctx\<lparr>send_buf := sb\<rparr>, int req_length)
       }
     })"

definition agile_modbus_serialize_mask_write_register ::
  "agile_modbus \<Rightarrow> int \<Rightarrow> u16 \<Rightarrow> u16 \<Rightarrow> (agile_modbus \<times> int) option" where
  "agile_modbus_serialize_mask_write_register ctx addr and_mask or_mask =
    (if send_bufsz ctx < min_req_length ctx + 2 then Some (ctx, -1)
     else do {
       (sb, req_length) \<leftarrow>
         build_request_basis (backend ctx) (slave ctx) AGILE_MODBUS_FC_MASK_WRITE_REGISTER addr 0 (send_buf ctx);
       let req_length = req_length - 2;
       sb \<leftarrow> wr_all sb req_length [hi_byte and_mask, lo_byte and_mask, hi_byte or_mask, lo_byte or_mask];
       (sb, req_length) \<leftarrow> send_msg_pre (backend ctx) sb (req_length + 4);
       Some (ctx\<lparr>send_buf := sb\<rparr>, int req_length)
     })"

definition agile_modbus_serialize_write_and_read_registers ::
  "agile_modbus \<Rightarrow> int \<Rightarrow> int \<Rightarrow> u16 list \<Rightarrow> int \<Rightarrow> int \<Rightarrow> (agile_modbus \<times> int) option" where
  "agile_modbus_serialize_write_and_read_registers ctx write_addr write_nb src read_addr read_nb =
    (if send_bufsz ctx < min_req_length ctx then Some (ctx, -1)
     else if write_nb > AGILE_MODBUS_MAX_WR_WRITE_REGISTERS then Some (ctx, -1)
     else if read_nb > AGILE_MODBUS_MAX_WR_READ_REGISTERS then Some (ctx, -1)
     else do {
       (sb, req_length) \<leftarrow>
         build_request_basis (backend ctx) (slave ctx) AGILE_MODBUS_FC_WRITE_AND_READ_REGISTERS read_addr read_nb (send_buf ctx);
       let byte_count = write_nb * 2;
       if send_bufsz ctx < min_req_length ctx + (5 + byte_count) then Some (ctx\<lparr>send_buf := sb\<rparr>, -1)
       else do {
         bs \<leftarrow> reg_bytes write_nb src;
         sb \<leftarrow> wr_all sb req_length
                 ([of_int (write_addr div 256), of_int write_addr, of_int (write_nb div 256), of_int write_nb,
                   of_int byte_count] @ bs);
         (sb, req_length) \<leftarrow> send_msg_pre (backend ctx) sb (req_length + 5 + length bs);
         Some (ctx\<lparr>send_buf := sb\<rparr>, int req_length)
       }
     })"

definition agile_modbus_serialize_report_slave_id :: "agile_modbus \<Rightarrow> (agile_modbus \<times> int) option" where
  "agile_modbus_serialize_report_slave_id ctx =
    (if send_bufsz ctx < min_req_length ctx then Some (ctx, -1)
     else do {
       (sb, req_length) \<leftarrow>
         build_request_basis (backend ctx) (slave ctx) AGILE_MODBUS_FC_REPORT_SLAVE_ID 0 0 (send_buf ctx);
       (sb, req_length) \<leftarrow> send_msg_pre (backend ctx) sb (req_length - 4);
       Some (ctx\<lparr>send_buf := sb\<rparr>, int req_length)
     })"

definition agile_modbus_serialize_raw_request ::
  "agile_modbus \<Rightarrow> u8 list \<Rightarrow> int \<Rightarrow> (agile_modbus \<times> int) option" where
  "agile_modbus_serialize_raw_request ctx raw_req raw_req_length =
    (if raw_req_length < 2 then Some (ctx, -1)
     else if send_bufsz ctx < int (header_length (backend ctx) + 1 + checksum_length (backend ctx)) + raw_req_length - 2
     then Some (ctx, -1)
     else do {
       r0 \<leftarrow> rd raw_req 0;
       r1 \<leftarrow> rd raw_req 1;
       (sb, req_length) \<leftarrow>
         build_response_basis (backend ctx) \<lparr>sft_slave = uint r0, sft_function = uint r1, sft_t_id = 0\<rparr> (send_buf ctx);
       (sb, req_length) \<leftarrow>
         (if raw_req_length > 2 then do {
            body \<leftarrow> rd_seg raw_req 2 (nat raw_req_length - 2);
            sb \<leftarrow> wr_all sb req_length body;
            Some (sb, req_length + (nat raw_req_length - 2))
          }
          else Some (sb, req_length));
       (sb, req_length) \<leftarrow> send_msg_pre (backend ctx) sb req_length;
       Some (ctx\<lparr>send_buf := sb\<rparr>, int req_length)
     })"

section \<open>The master: decoding answers\<close>

text \<open>
  The common part of all decoders, which the code repeats in each: buffer and length checks, frame
  check and confirmation check. The result is the C value of \<open>rc\<close>, which every decoder returns when
  it is negative.
\<close>

definition confirmed :: "agile_modbus \<Rightarrow> int \<Rightarrow> int option" where
  "confirmed ctx msg_length =
    (if send_bufsz ctx < min_req_length ctx then Some (-1)
     else if msg_length \<le> 0 \<or> msg_length > read_bufsz ctx then Some (-1)
     else do {
       rc \<leftarrow> agile_modbus_receive_msg_judge ctx (read_buf ctx) msg_length AGILE_MODBUS_MSG_CONFIRMATION;
       if rc < 0 then Some (-1)
       else agile_modbus_check_confirmation ctx (send_buf ctx) (read_buf ctx) rc
     })"

definition byte_bits :: "u8 \<Rightarrow> u8 list" where
  "byte_bits b = map (\<lambda>k. if bit b k then 1 else 0) [0..<8]"

text \<open>The bits that the decoder stores: bits of \<open>rc\<close> bytes, lowest first, until \<open>nb\<close> are stored.\<close>

definition decode_bits :: "agile_modbus \<Rightarrow> int \<Rightarrow> u8 list \<Rightarrow> (u8 list \<times> int) option" where
  "decode_bits ctx rc dest =
    do {
      h \<leftarrow> rd (send_buf ctx) (header_length (backend ctx) + 3);
      l \<leftarrow> rd (send_buf ctx) (header_length (backend ctx) + 4);
      let nb = be_int h l;
      bytes \<leftarrow> rd_seg (read_buf ctx) (header_length (backend ctx) + 2) (nat rc);
      dest \<leftarrow> wr_all dest 0 (take (nat nb) (concat (map byte_bits bytes)));
      Some (dest, nb)
    }"

definition agile_modbus_deserialize_read_bits :: "agile_modbus \<Rightarrow> int \<Rightarrow> u8 list \<Rightarrow> (u8 list \<times> int) option" where
  "agile_modbus_deserialize_read_bits ctx msg_length dest =
    do {
      rc \<leftarrow> confirmed ctx msg_length;
      if rc < 0 then Some (dest, rc) else decode_bits ctx rc dest
    }"

definition agile_modbus_deserialize_read_input_bits :: "agile_modbus \<Rightarrow> int \<Rightarrow> u8 list \<Rightarrow> (u8 list \<times> int) option" where
  "agile_modbus_deserialize_read_input_bits ctx msg_length dest =
    do {
      rc \<leftarrow> confirmed ctx msg_length;
      if rc < 0 then Some (dest, rc) else decode_bits ctx rc dest
    }"

fun be_words :: "u8 list \<Rightarrow> u16 list" where
  "be_words (h # l # bs) = be16 h l # be_words bs"
| "be_words _ = []"

definition decode_registers :: "agile_modbus \<Rightarrow> int \<Rightarrow> u16 list \<Rightarrow> (u16 list \<times> int) option" where
  "decode_registers ctx rc dest =
    do {
      bytes \<leftarrow> rd_seg (read_buf ctx) (header_length (backend ctx) + 2) (2 * nat rc);
      dest \<leftarrow> wr_all dest 0 (be_words bytes);
      Some (dest, rc)
    }"

definition agile_modbus_deserialize_read_registers ::
  "agile_modbus \<Rightarrow> int \<Rightarrow> u16 list \<Rightarrow> (u16 list \<times> int) option" where
  "agile_modbus_deserialize_read_registers ctx msg_length dest =
    do {
      rc \<leftarrow> confirmed ctx msg_length;
      if rc < 0 then Some (dest, rc) else decode_registers ctx rc dest
    }"

definition agile_modbus_deserialize_read_input_registers ::
  "agile_modbus \<Rightarrow> int \<Rightarrow> u16 list \<Rightarrow> (u16 list \<times> int) option" where
  "agile_modbus_deserialize_read_input_registers ctx msg_length dest =
    do {
      rc \<leftarrow> confirmed ctx msg_length;
      if rc < 0 then Some (dest, rc) else decode_registers ctx rc dest
    }"

definition agile_modbus_deserialize_write_and_read_registers ::
  "agile_modbus \<Rightarrow> int \<Rightarrow> u16 list \<Rightarrow> (u16 list \<times> int) option" where
  "agile_modbus_deserialize_write_and_read_registers ctx msg_length dest =
    do {
      rc \<leftarrow> confirmed ctx msg_length;
      if rc < 0 then Some (dest, rc) else decode_registers ctx rc dest
    }"

text \<open>The decoders without data return \<open>rc\<close> as it is.\<close>

definition agile_modbus_deserialize_write_bit :: "agile_modbus \<Rightarrow> int \<Rightarrow> int option" where
  "agile_modbus_deserialize_write_bit ctx msg_length = confirmed ctx msg_length"

definition agile_modbus_deserialize_write_register :: "agile_modbus \<Rightarrow> int \<Rightarrow> int option" where
  "agile_modbus_deserialize_write_register ctx msg_length = confirmed ctx msg_length"

definition agile_modbus_deserialize_write_bits :: "agile_modbus \<Rightarrow> int \<Rightarrow> int option" where
  "agile_modbus_deserialize_write_bits ctx msg_length = confirmed ctx msg_length"

definition agile_modbus_deserialize_write_registers :: "agile_modbus \<Rightarrow> int \<Rightarrow> int option" where
  "agile_modbus_deserialize_write_registers ctx msg_length = confirmed ctx msg_length"

definition agile_modbus_deserialize_mask_write_register :: "agile_modbus \<Rightarrow> int \<Rightarrow> int option" where
  "agile_modbus_deserialize_mask_write_register ctx msg_length = confirmed ctx msg_length"

definition agile_modbus_deserialize_raw_response :: "agile_modbus \<Rightarrow> int \<Rightarrow> int option" where
  "agile_modbus_deserialize_raw_response ctx msg_length = confirmed ctx msg_length"

definition agile_modbus_deserialize_report_slave_id ::
  "agile_modbus \<Rightarrow> int \<Rightarrow> int \<Rightarrow> u8 list \<Rightarrow> (u8 list \<times> int) option" where
  "agile_modbus_deserialize_report_slave_id ctx msg_length max_dest dest =
    (if \<not> send_bufsz ctx < min_req_length ctx \<and> \<not> (msg_length \<le> 0 \<or> msg_length > read_bufsz ctx) \<and> max_dest \<le> 0
     then Some (dest, -1)
     else do {
       rc \<leftarrow> confirmed ctx msg_length;
       if rc < 0 then Some (dest, rc)
       else do {
         bytes \<leftarrow> rd_seg (read_buf ctx) (header_length (backend ctx) + 2) (nat (min rc max_dest));
         dest \<leftarrow> wr_all dest 0 bytes;
         Some (dest, rc)
       }
     })"

section \<open>Buffers and frames\<close>

lemma wr_all_0: "length vs \<le> length xs \<Longrightarrow> wr_all xs 0 vs = Some (vs @ drop (length vs) xs)"
  by (simp add: wr_all_def)

lemma wr_all_at: "n = length a \<Longrightarrow> length vs \<le> length r \<Longrightarrow> wr_all (a @ r) n vs = Some (a @ vs @ drop (length vs) r)"
  by (simp add: wr_all_def)

lemma rd_seg_0: "n \<le> length xs \<Longrightarrow> rd_seg xs 0 n = Some (take n xs)"
  by (simp add: rd_seg_def)

lemma rd_seg_Some_iff: "rd_seg xs i n = Some ys \<longleftrightarrow> i + n \<le> length xs \<and> ys = take n (drop i xs)"
  by (auto simp: rd_seg_def)

definition rtu_frame :: "u8 list \<Rightarrow> u8 list" where
  "rtu_frame body = body @ [hi_byte (crc16 body), lo_byte (crc16 body)]"

lemma length_rtu_frame [simp]: "length (rtu_frame body) = length body + 2"
  by (simp add: rtu_frame_def)

lemma nth_rtu_frame: "i < length body \<Longrightarrow> rtu_frame body ! i = body ! i"
  by (simp add: rtu_frame_def nth_append)

lemma rtu_backend [simp]:
  "backend_is_rtu agile_modbus_rtu_backend" "header_length agile_modbus_rtu_backend = 1"
  "checksum_length agile_modbus_rtu_backend = 2"
  "build_request_basis agile_modbus_rtu_backend = agile_modbus_rtu_build_request_basis"
  "build_response_basis agile_modbus_rtu_backend = agile_modbus_rtu_build_response_basis"
  "prepare_response_tid agile_modbus_rtu_backend = agile_modbus_rtu_prepare_response_tid"
  "send_msg_pre agile_modbus_rtu_backend = agile_modbus_rtu_send_msg_pre"
  "check_integrity agile_modbus_rtu_backend = agile_modbus_rtu_check_integrity"
  "pre_check_confirmation agile_modbus_rtu_backend = agile_modbus_rtu_pre_check_confirmation"
  by (simp_all add: agile_modbus_rtu_backend_def)

lemma send_msg_pre_frame:
  assumes "n = length body" "n < 65536" "2 \<le> length r"
  shows "agile_modbus_rtu_send_msg_pre (body @ r) n = Some (rtu_frame body @ drop 2 r, n + 2)"
  using assms
  by (simp add: agile_modbus_rtu_send_msg_pre_def rtu_crc16_buf_def rd_seg_0 wr_all_at rtu_crc16_eq rtu_frame_def
      numeral_2_eq_2)

lemma check_integrity_iff:
  assumes "2 \<le> n" "n \<le> length msg" "n < 65536"
  shows "agile_modbus_rtu_check_integrity msg n =
    Some (if take n msg = rtu_frame (take (n - 2) msg) then int n else -1)"
proof -
  obtain k where n: "n = k + 2" using assms(1) by (metis le_add_diff_inverse2)
  have "take n msg = take k msg @ [msg ! k, msg ! (k + 1)]"
    using assms(2) n by (simp add: take_Suc_conv_app_nth)
  then show ?thesis
    using assms n
    by (auto simp: agile_modbus_rtu_check_integrity_def rtu_crc16_buf_def rd_seg_0 rtu_crc16_eq rtu_frame_def
          be16_eq_iff eq_commute [of "crc16 _"])
qed

definition modbus_ok :: "agile_modbus \<Rightarrow> bool" where
  "modbus_ok ctx \<longleftrightarrow> backend ctx = agile_modbus_rtu_backend \<and> send_bufsz ctx = int (length (send_buf ctx)) \<and>
     read_bufsz ctx = int (length (read_buf ctx)) \<and> length (send_buf ctx) < 65536 \<and> length (read_buf ctx) < 65536 \<and>
     compute_meta_length_after_function ctx = None \<and> compute_data_length_after_meta ctx = None"

lemma modbus_okD [dest]:
  assumes "modbus_ok ctx"
  shows "backend ctx = agile_modbus_rtu_backend" "send_bufsz ctx = int (length (send_buf ctx))"
    "read_bufsz ctx = int (length (read_buf ctx))" "length (send_buf ctx) < 65536" "length (read_buf ctx) < 65536"
    "compute_meta_length_after_function ctx = None" "compute_data_length_after_meta ctx = None"
  using assms by (auto simp: modbus_ok_def)

text \<open>The length a frame must have, by its function code and length bytes (the two sums of the code).\<close>

definition frame_length_of :: "agile_modbus_msg_type \<Rightarrow> u8 list \<Rightarrow> nat" where
  "frame_length_of ty msg =
    (let f = uint (msg ! 1) in
     4 + (case ty of
       AGILE_MODBUS_MSG_INDICATION \<Rightarrow>
         if f \<le> 6 then 4 else if f = 15 \<or> f = 16 then 5 + unat (msg ! 6) else if f = 22 then 6
         else if f = 23 then 9 + unat (msg ! 10) else 0
     | AGILE_MODBUS_MSG_CONFIRMATION \<Rightarrow>
         if f \<le> 4 \<or> f = 17 \<or> f = 23 then 1 + unat (msg ! 2)
         else if f \<le> 6 \<or> f = 15 \<or> f = 16 then 4 else if f = 22 then 6 else 1))"

text \<open>A message is a frame exactly when the CRC register over all its bytes ends at zero.\<close>

lemma frame_iff_residue:
  assumes "2 \<le> length xs"
  shows "xs = rtu_frame (take (length xs - 2) xs) \<longleftrightarrow> crc_reg xs = 0"
proof -
  obtain ys b c where xs: "xs = ys @ [b, c]"
    using assms by (metis One_nat_def Suc_1 append_Cons append_Nil append_assoc length_append_singleton
        list.size(3) not_less_eq_eq rev_exhaust zero_le)
  have "crc_reg xs = (crc_bit ^^ 16) (crc_reg ys XOR be16 c b)"
    by (simp only: xs crc_reg_def crc_reg_append foldl.simps crc_byte_two)
  then have "crc_reg xs = 0 \<longleftrightarrow> crc_reg ys = be16 c b"
    by (metis crc_bits_0 crc_bits_inject word_xor_eq_0)
  then show ?thesis
    by (auto simp: xs rtu_frame_def hi_byte_crc16 lo_byte_crc16 be16_eq_iff eq_commute [of "crc_reg ys"])
qed

text \<open>
  The frame check is defined for every content of the buffer and accepts exactly the messages that
  start with a whole frame of that length with the right check sum.
\<close>

definition frame_ok :: "agile_modbus_msg_type \<Rightarrow> u8 list \<Rightarrow> int \<Rightarrow> bool" where
  "frame_ok ty msg n \<longleftrightarrow> 2 \<le> n \<and> int (frame_length_of ty msg) \<le> n \<and> crc_reg (take (frame_length_of ty msg) msg) = 0"

lemma msg_judge_eq:
  assumes ok: "modbus_ok ctx" and n: "n \<le> int (length msg)" and len: "length msg < 65536"
  shows "agile_modbus_receive_msg_judge ctx msg n ty =
    Some (if frame_ok ty msg n then int (frame_length_of ty msg) else -1)"
proof (cases "2 \<le> n")
  case True
  have l: "Suc 0 < length msg" using True n by simp
  have e2: "msg ! Suc (Suc 0) = msg ! 2" by (simp add: numeral_2_eq_2)
  define meta where "meta = agile_modbus_compute_meta_length_after_function ctx (uint (msg ! 1)) ty"
  have m0: "0 \<le> meta"
    by (simp add: meta_def agile_modbus_compute_meta_length_after_function_def Let_def modbus_okD [OF ok]
        split: agile_modbus_msg_type.split)
  show ?thesis
  proof (cases "n - 2 - meta < 0")
    case True
    have "int (frame_length_of ty msg) > n"
      using True
      by (auto simp: frame_length_of_def meta_def agile_modbus_compute_meta_length_after_function_def Let_def
          modbus_okD [OF ok] split: agile_modbus_msg_type.splits if_splits;
        insert uint_ge_0 [of "msg ! 2"] uint_ge_0 [of "msg ! 6"] uint_ge_0 [of "msg ! 10"]; linarith)
    then show ?thesis
      using True \<open>2 \<le> n\<close> l ok by (simp add: agile_modbus_receive_msg_judge_def modbus_okD [OF ok] meta_def frame_ok_def)
  next
    case False
    have d: "\<exists>d. agile_modbus_compute_data_length_after_meta ctx msg n ty = Some d \<and>
       int (frame_length_of ty msg) = 2 + meta + d \<and> 2 \<le> d"
      using False l n by (auto simp: agile_modbus_compute_data_length_after_meta_def frame_length_of_def meta_def
          agile_modbus_compute_meta_length_after_function_def Let_def modbus_okD [OF ok] rd_def e2
          split: agile_modbus_msg_type.splits if_splits)
    then obtain d where d: "agile_modbus_compute_data_length_after_meta ctx msg n ty = Some d"
       "int (frame_length_of ty msg) = 2 + meta + d" "2 \<le> d" by blast
    define m where "m = frame_length_of ty msg"
    have m: "n - (n - 2 - meta - d) = int m" "2 \<le> m" using d m0 by (simp_all add: m_def)
    have "agile_modbus_receive_msg_judge ctx msg n ty =
      (if n < int m then Some (-1) else agile_modbus_rtu_check_integrity msg m)"
      using False True l d m m0 meta_def
      by (simp add: agile_modbus_receive_msg_judge_def Let_def modbus_okD [OF ok])
    also have "\<dots> = Some (if frame_ok ty msg n then int m else -1)"
    proof (cases "n < int m")
      case False
      then have "m \<le> length msg" using n by simp
      then show ?thesis
        using m(2) False len True frame_iff_residue [of "take m msg"]
        by (simp add: check_integrity_iff frame_ok_def min_absorb2 flip: m_def)
    qed (simp add: frame_ok_def flip: m_def)
    finally show ?thesis by (simp add: m_def)
  qed
qed (simp add: agile_modbus_receive_msg_judge_def modbus_okD [OF ok] frame_ok_def)

lemma receive_judge_eq:
  assumes ok: "modbus_ok ctx"
  shows "agile_modbus_receive_judge ctx n ty =
    Some (if n \<le> read_bufsz ctx \<and> frame_ok ty (read_buf ctx) n then int (frame_length_of ty (read_buf ctx)) else -1)"
  using msg_judge_eq [OF ok, of n "read_buf ctx" ty] modbus_okD [OF ok]
  by (auto simp: agile_modbus_receive_judge_def frame_ok_def)

section \<open>Packed flags\<close>

text \<open>The specification of the packing loops: eight flags per byte, lowest bit first.\<close>

function pack_flags :: "bool list \<Rightarrow> u8 list" where
  "pack_flags bs = (if bs = [] then [] else horner_sum of_bool 2 (take 8 bs) # pack_flags (drop 8 bs))"
  by pat_completeness auto
termination by (relation "measure length") auto

declare pack_flags.simps [simp del]

lemma pack_flags_Nil [simp]: "pack_flags [] = []"
  by (simp add: pack_flags.simps)

lemma up_div_8: "(n + 7) div 8 = n div 8 + (if n mod 8 = 0 then 0 else (1 :: nat))"
proof -
  have "(n + 7) div 8 = (8 * (n div 8) + (n mod 8 + 7)) div 8" by (simp add: add.assoc)
  also have "\<dots> = n div 8 + (n mod 8 + 7) div 8" by (simp only: add.commute [of "8 * _"] div_mult_self2)
  also have "(n mod 8 + 7) div 8 = (if n mod 8 = 0 then 0 else 1)"
    using mod_less_divisor [of 8 n] by (auto intro!: div_nat_eqI)
  finally show ?thesis .
qed

lemma nb_to_bytes_nat: "nb_to_bytes (int n) = int ((n + 7) div 8)"
proof -
  have "int n mod 8 = int (n mod 8)" "int n div 8 = int (n div 8)" by (simp_all add: zmod_int zdiv_int)
  then show ?thesis by (simp only: nb_to_bytes_def up_div_8) simp
qed

lemma length_pack_flags [simp]: "length (pack_flags bs) = (length bs + 7) div 8"
proof (induction bs rule: pack_flags.induct)
  case (1 bs)
  show ?case
  proof (cases "bs = []")
    case False
    then have "length (pack_flags bs) = Suc ((length bs - 8 + 7) div 8)"
      using 1 by (simp add: pack_flags.simps [of bs])
    also have "\<dots> = (length bs + 7) div 8" using False by (cases bs) (auto, presburger)
    finally show ?thesis .
  qed simp
qed

lemma pack_bits_spec:
  assumes "length a = k" "k \<le> 8" "m = min (length b) (8 - k)"
  shows "pack_bits k (int (length b)) (b @ r) (horner_sum of_bool 2 (map ((\<noteq>) 0) a)) =
    Some (horner_sum of_bool 2 (map ((\<noteq>) 0) (take 8 (a @ b))), int (length b - m), drop m b @ r)"
  using assms
proof (induction "8 - k" arbitrary: k m a b)
  case 0
  then show ?case by (simp add: pack_bits.simps)
next
  case (Suc d)
  show ?case
  proof (cases b)
    case Nil
    then show ?thesis using Suc.prems by (simp add: pack_bits.simps)
  next
    case (Cons s c)
    let ?w = "horner_sum of_bool 2 (map ((\<noteq>) 0) a) :: u8"
    have k: "k < 8" using Suc.hyps(2) by simp
    have w: "(if s \<noteq> 0 then ?w OR push_bit k 1 else ?w AND NOT (push_bit k 1)) =
        horner_sum of_bool 2 (map ((\<noteq>) 0) (a @ [s]))"
      using k Suc.prems(1)
      by (intro bit_word_eqI) (auto simp: bit_simps bit_horner_sum_bit_word_iff nth_append less_Suc_eq)
    have IH: "pack_bits (Suc k) (int (length c)) (c @ r) (horner_sum of_bool 2 (map ((\<noteq>) 0) (a @ [s]))) =
      Some (horner_sum of_bool 2 (map ((\<noteq>) 0) (take 8 ((a @ [s]) @ c))), int (length c - (m - 1)), drop (m - 1) c @ r)"
      using Suc.prems Suc.hyps(2) Cons k by (intro Suc.hyps(1)) auto
    have "0 < m" using Suc.prems Cons k by simp
    then obtain m' where m: "m = Suc m'" by (cases m) auto
    show ?thesis
      using IH Cons k w m by (subst pack_bits.simps) simp
  qed
qed

lemma pack_bytes_spec:
  "pack_bytes ((length src + 7) div 8) (int (length src)) (src @ r) = Some (pack_flags (map ((\<noteq>) 0) src))"
proof (induction "length src" arbitrary: src rule: less_induct)
  case less
  show ?case
  proof (cases "src = []")
    case False
    define m where "m = min (length src) 8"
    have m: "0 < m" "m \<le> length src" using False by (auto simp: m_def)
    have "(length src + 7) div 8 = length (pack_flags (map ((\<noteq>) 0) src))" by simp
    also have "\<dots> = Suc ((length (drop 8 src) + 7) div 8)"
      using False by (subst pack_flags.simps) (simp add: drop_map)
    finally have n: "(length src + 7) div 8 = Suc ((length (drop 8 src) + 7) div 8)" .
    have d: "drop m src = drop 8 src" by (auto simp: m_def min_def)
    have l: "length src - m = length (drop 8 src)" by (simp flip: d)
    have b: "pack_bits 0 (int (length src)) (src @ r) 0 =
        Some (horner_sum of_bool 2 (map ((\<noteq>) 0) (take 8 src)), int (length (drop 8 src)), drop 8 src @ r)"
      using pack_bits_spec [of "[]" 0 m src r] m_def by (simp add: d [symmetric] l [symmetric] m(2) min_def)
    have "pack_bytes ((length (drop 8 src) + 7) div 8) (int (length (drop 8 src))) (drop 8 src @ r) =
       Some (pack_flags (map ((\<noteq>) 0) (drop 8 src)))"
      using False by (intro less) (cases src, auto)
    then show ?thesis
      unfolding n by (subst pack_flags.simps) (simp add: b False take_map drop_map)
  qed simp
qed

lemma length_concat_byte_bits [simp]: "length (concat (map byte_bits bs)) = 8 * length bs"
  by (induction bs) (simp_all add: byte_bits_def)

text \<open>Unpacking the packed flags gives them back.\<close>

lemma byte_bits_horner:
  "length bs \<le> 8 \<Longrightarrow> take (length bs) (byte_bits (horner_sum of_bool 2 bs)) = map of_bool bs"
  by (intro nth_equalityI) (auto simp: byte_bits_def bit_horner_sum_bit_word_iff)

lemma unpack_flags: "take (length bs) (concat (map byte_bits (pack_flags bs))) = map of_bool bs"
proof (induction bs rule: pack_flags.induct)
  case (1 bs)
  show ?case
  proof (cases "bs = []")
    case False
    have l: "length (byte_bits b) = 8" for b by (simp add: byte_bits_def)
    have IH: "take (length bs - 8) (concat (map byte_bits (pack_flags (drop 8 bs)))) = map of_bool (drop 8 bs)"
      using 1 [OF False] by simp
    have h: "take (length bs) (byte_bits (horner_sum of_bool 2 (take 8 bs))) = map of_bool (take 8 bs)"
      using byte_bits_horner [of "take 8 bs"] l [of "horner_sum of_bool 2 (take 8 bs)"]
      by (cases "length bs \<le> 8") (simp_all add: min_def)
    show ?thesis
      using False
      by (subst pack_flags.simps) (simp add: l h IH flip: map_append)
  qed simp
qed

section \<open>Requests\<close>

text \<open>The requests of the master as data, and their bytes on the wire without the check sum.\<close>

datatype modbus_request =
    Read_Bits int nat
  | Read_Input_Bits int nat
  | Read_Registers int nat
  | Read_Input_Registers int nat
  | Write_Bit int bool
  | Write_Register int u16
  | Write_Bits int "u8 list"
  | Write_Registers int "u16 list"
  | Mask_Write_Register int u16 u16
  | Write_And_Read_Registers int "u16 list" int nat
  | Report_Slave_Id

definition be2 :: "int \<Rightarrow> u8 list" where
  "be2 x = [of_int (x div 256), of_int x]"

definition be_regs :: "u16 list \<Rightarrow> u8 list" where
  "be_regs rs = concat (map (\<lambda>r. [hi_byte r, lo_byte r]) rs)"

fun request_pdu :: "modbus_request \<Rightarrow> u8 list" where
  "request_pdu (Read_Bits a n) = 1 # be2 a @ be2 (int n)"
| "request_pdu (Read_Input_Bits a n) = 2 # be2 a @ be2 (int n)"
| "request_pdu (Read_Registers a n) = 3 # be2 a @ be2 (int n)"
| "request_pdu (Read_Input_Registers a n) = 4 # be2 a @ be2 (int n)"
| "request_pdu (Write_Bit a v) = 5 # be2 a @ [if v then 0xFF else 0, 0]"
| "request_pdu (Write_Register a v) = 6 # be2 a @ be2 (uint v)"
| "request_pdu (Write_Bits a src) = 15 # be2 a @ be2 (int (length src)) @ of_nat ((length src + 7) div 8) #
    pack_flags (map ((\<noteq>) 0) src)"
| "request_pdu (Write_Registers a src) = 16 # be2 a @ be2 (int (length src)) @ of_nat (2 * length src) # be_regs src"
| "request_pdu (Mask_Write_Register a x y) = 22 # be2 a @ be_regs [x, y]"
| "request_pdu (Write_And_Read_Registers wa src ra n) =
    23 # be2 ra @ be2 (int n) @ be2 wa @ be2 (int (length src)) @ of_nat (2 * length src) # be_regs src"
| "request_pdu Report_Slave_Id = [17]"

text \<open>The code's function for each request, with the number of values it is given.\<close>

fun serialize :: "agile_modbus \<Rightarrow> modbus_request \<Rightarrow> (agile_modbus \<times> int) option" where
  "serialize ctx (Read_Bits a n) = agile_modbus_serialize_read_bits ctx a (int n)"
| "serialize ctx (Read_Input_Bits a n) = agile_modbus_serialize_read_input_bits ctx a (int n)"
| "serialize ctx (Read_Registers a n) = agile_modbus_serialize_read_registers ctx a (int n)"
| "serialize ctx (Read_Input_Registers a n) = agile_modbus_serialize_read_input_registers ctx a (int n)"
| "serialize ctx (Write_Bit a v) = agile_modbus_serialize_write_bit ctx a (of_bool v)"
| "serialize ctx (Write_Register a v) = agile_modbus_serialize_write_register ctx a v"
| "serialize ctx (Write_Bits a src) = agile_modbus_serialize_write_bits ctx a (int (length src)) src"
| "serialize ctx (Write_Registers a src) = agile_modbus_serialize_write_registers ctx a (int (length src)) src"
| "serialize ctx (Mask_Write_Register a x y) = agile_modbus_serialize_mask_write_register ctx a x y"
| "serialize ctx (Write_And_Read_Registers wa src ra n) =
    agile_modbus_serialize_write_and_read_registers ctx wa (int (length src)) src ra (int n)"
| "serialize ctx Report_Slave_Id = agile_modbus_serialize_report_slave_id ctx"

text \<open>The quantities a request may carry.\<close>

fun request_ok :: "modbus_request \<Rightarrow> bool" where
  "request_ok (Read_Bits a n) = (n \<le> 2000)"
| "request_ok (Read_Input_Bits a n) = (n \<le> 2000)"
| "request_ok (Read_Registers a n) = (n \<le> 125)"
| "request_ok (Read_Input_Registers a n) = (n \<le> 125)"
| "request_ok (Write_Bits a src) = (length src \<le> 1968)"
| "request_ok (Write_Registers a src) = (length src \<le> 123)"
| "request_ok (Write_And_Read_Registers wa src ra n) = (length src \<le> 121 \<and> n \<le> 125)"
| "request_ok _ = True"

lemma length_be2 [simp]: "length (be2 x) = 2"
  by (simp add: be2_def)

lemma length_be_regs [simp]: "length (be_regs rs) = 2 * length rs"
  by (induction rs) (simp_all add: be_regs_def)

lemma reg_bytes_eq: "reg_bytes (int (length src)) src = Some (be_regs src)"
  by (simp add: reg_bytes_def be_regs_def rd_seg_0)

lemma request_basis:
  "6 \<le> length sb \<Longrightarrow> agile_modbus_rtu_build_request_basis sl f a n sb =
    Some ([of_int sl, of_int f] @ be2 a @ be2 n @ drop 6 sb, 6)"
  by (simp add: agile_modbus_rtu_build_request_basis_def wr_all_0 be2_def numeral_eq_Suc)

lemma request_frame:
  assumes "length body < 65536" "length body + 2 \<le> length body + length r" "n = length body"
  shows "agile_modbus_rtu_send_msg_pre (body @ r) n = Some (rtu_frame body @ drop 2 r, length body + 2)"
  using assms by (simp add: send_msg_pre_frame)

text \<open>
  What every request function does: too small a buffer or too large a quantity is refused; otherwise
  the buffer starts with the frame of the request's bytes and the result is its length.
\<close>

definition request_body :: "agile_modbus \<Rightarrow> modbus_request \<Rightarrow> u8 list" where
  "request_body ctx r = of_int (slave ctx) # request_pdu r"

lemma serialize_refused:
  assumes "modbus_ok ctx" "length (send_buf ctx) < 8 \<or> \<not> request_ok r"
  shows "serialize ctx r = Some (ctx, -1)"
  using assms(2) by (cases r) (auto simp: min_req_length_def modbus_okD [OF assms(1)]
    agile_modbus_serialize_read_bits_def agile_modbus_serialize_read_input_bits_def
    agile_modbus_serialize_read_registers_def agile_modbus_serialize_read_input_registers_def
    agile_modbus_serialize_write_bit_def agile_modbus_serialize_write_register_def
    agile_modbus_serialize_write_bits_def agile_modbus_serialize_write_registers_def
    agile_modbus_serialize_mask_write_register_def agile_modbus_serialize_write_and_read_registers_def
    agile_modbus_serialize_report_slave_id_def)

lemmas basis_requests = agile_modbus_serialize_read_bits_def agile_modbus_serialize_read_input_bits_def
    agile_modbus_serialize_read_registers_def agile_modbus_serialize_read_input_registers_def
    agile_modbus_serialize_write_bit_def agile_modbus_serialize_write_register_def

lemma basis_frame:
  assumes "length sb < 65536" "8 \<le> length sb"
  shows "do {
      (sb, req_length) \<leftarrow> agile_modbus_rtu_build_request_basis sl f a n sb;
      (sb, req_length) \<leftarrow> agile_modbus_rtu_send_msg_pre sb req_length;
      Some (g sb, int req_length) } =
     Some (g (rtu_frame (of_int sl # of_int f # be2 a @ be2 n) @ drop 8 sb), 8)"
  using assms send_msg_pre_frame [of 6 "of_int sl # of_int f # be2 a @ be2 n" "drop 6 sb"]
  by (simp add: request_basis)

lemma extend_frame:
  assumes "length sb < 65536" "k + length p + 2 \<le> length sb" "length b = k"
  shows "do {
      sb \<leftarrow> wr_all (b @ drop k sb) k p;
      (sb, req_length) \<leftarrow> agile_modbus_rtu_send_msg_pre sb (k + length p);
      Some (g sb, int req_length) } =
     Some (g (rtu_frame (b @ p) @ drop (k + length p + 2) sb), int (k + length p) + 2)"
  using assms send_msg_pre_frame [of "k + length p" "b @ p" "drop (length p) (drop k sb)"]
  by (simp add: wr_all_at add.commute)

text \<open>Each request's frame on the wire.\<close>

definition framed :: "agile_modbus \<Rightarrow> modbus_request \<Rightarrow> (agile_modbus \<times> int) option" where
  "framed ctx r =
    (let b = request_body ctx r in
     Some (ctx\<lparr>send_buf := rtu_frame b @
             (if r = Report_Slave_Id then 0 # 0 # drop 6 (send_buf ctx) else drop (length b + 2) (send_buf ctx))\<rparr>,
           int (length b) + 2))"

lemma write_bits_frame:
  assumes ok: "modbus_ok ctx" and r: "length src \<le> 1968" "(length src + 7) div 8 + 9 \<le> length (send_buf ctx)"
  shows "serialize ctx (Write_Bits a src) = framed ctx (Write_Bits a src)"
proof -
  let ?n = "(length src + 7) div 8" and ?b = "of_int (slave ctx) # 15 # be2 a @ be2 (int (length src))"
  let ?p = "of_nat ?n # pack_flags (map ((\<noteq>) 0) src) :: u8 list"
  note ctx = modbus_okD [OF ok]
  have p: "pack_bytes ?n (int (length src)) src = Some (pack_flags (map ((\<noteq>) 0) src))"
    using pack_bytes_spec [of src "[]"] by simp
  have k: "6 + 1 + ?n = 6 + length ?p" by simp
  have l: "length (request_body ctx (Write_Bits a src)) = 7 + (length src + 7) div 8" by (simp add: request_body_def)
  have "serialize ctx (Write_Bits a src) = do {
      sb \<leftarrow> wr_all (?b @ drop 6 (send_buf ctx)) 6 ?p;
      (sb, req_length) \<leftarrow> agile_modbus_rtu_send_msg_pre sb (6 + length ?p);
      Some (ctx\<lparr>send_buf := sb\<rparr>, int req_length) }"
    using r by (simp add: agile_modbus_serialize_write_bits_def ctx min_req_length_def nb_to_bytes_nat request_basis p)
  also have "\<dots> = framed ctx (Write_Bits a src)"
    using r ctx(4) by (subst extend_frame) (simp_all add: framed_def Let_def l, simp_all add: request_body_def)
  finally show ?thesis .
qed

lemma write_registers_frame:
  assumes ok: "modbus_ok ctx" and r: "length src \<le> 123" "2 * length src + 9 \<le> length (send_buf ctx)"
  shows "serialize ctx (Write_Registers a src) = framed ctx (Write_Registers a src)"
proof -
  let ?b = "of_int (slave ctx) # 16 # be2 a @ be2 (int (length src))"
  let ?p = "of_nat (2 * length src) # be_regs src"
  note ctx = modbus_okD [OF ok]
  have l: "length (request_body ctx (Write_Registers a src)) = 7 + 2 * length src" by (simp add: request_body_def)
  have "serialize ctx (Write_Registers a src) = do {
      sb \<leftarrow> wr_all (?b @ drop 6 (send_buf ctx)) 6 ?p;
      (sb, req_length) \<leftarrow> agile_modbus_rtu_send_msg_pre sb (6 + length ?p);
      Some (ctx\<lparr>send_buf := sb\<rparr>, int req_length) }"
    using r by (simp add: agile_modbus_serialize_write_registers_def ctx min_req_length_def request_basis reg_bytes_eq
        mult.commute)
  also have "\<dots> = framed ctx (Write_Registers a src)"
    using r ctx(4) by (subst extend_frame) (simp_all add: framed_def Let_def l, simp_all add: request_body_def)
  finally show ?thesis .
qed

lemma write_and_read_frame:
  assumes ok: "modbus_ok ctx" and r: "length src \<le> 121" "n \<le> 125" "2 * length src + 13 \<le> length (send_buf ctx)"
  shows "serialize ctx (Write_And_Read_Registers wa src ra n) = framed ctx (Write_And_Read_Registers wa src ra n)"
proof -
  let ?b = "of_int (slave ctx) # 23 # be2 ra @ be2 (int n)"
  let ?p = "be2 wa @ be2 (int (length src)) @ of_nat (2 * length src) # be_regs src"
  note ctx = modbus_okD [OF ok]
  have l: "length (request_body ctx (Write_And_Read_Registers wa src ra n)) = 11 + 2 * length src" by (simp add: request_body_def)
  have "serialize ctx (Write_And_Read_Registers wa src ra n) = do {
      sb \<leftarrow> wr_all (?b @ drop 6 (send_buf ctx)) 6 ?p;
      (sb, req_length) \<leftarrow> agile_modbus_rtu_send_msg_pre sb (6 + length ?p);
      Some (ctx\<lparr>send_buf := sb\<rparr>, int req_length) }"
    using r by (simp add: agile_modbus_serialize_write_and_read_registers_def ctx min_req_length_def request_basis
        reg_bytes_eq be2_def mult.commute)
  also have "\<dots> = framed ctx (Write_And_Read_Registers wa src ra n)"
    using r ctx(4) by (subst extend_frame) (simp_all add: framed_def Let_def l, simp_all add: request_body_def)
  finally show ?thesis .
qed

lemma mask_write_frame:
  assumes ok: "modbus_ok ctx" and r: "10 \<le> length (send_buf ctx)"
  shows "serialize ctx (Mask_Write_Register a x y) = framed ctx (Mask_Write_Register a x y)"
proof -
  let ?b = "of_int (slave ctx) # 22 # be2 a"
  note ctx = modbus_okD [OF ok]
  have w: "wr_all (?b @ be2 0 @ drop 6 (send_buf ctx)) 4 (be_regs [x, y]) =
      wr_all (?b @ drop 4 (send_buf ctx)) 4 (be_regs [x, y])"
    using r by (subst (1 2) wr_all_at) (simp_all add: be2_def)
  have l: "length (request_body ctx (Mask_Write_Register a x y)) = 8" by (simp add: request_body_def)
  have "serialize ctx (Mask_Write_Register a x y) = do {
      sb \<leftarrow> wr_all (?b @ be2 0 @ drop 6 (send_buf ctx)) 4 (be_regs [x, y]);
      (sb, req_length) \<leftarrow> agile_modbus_rtu_send_msg_pre sb (4 + length (be_regs [x, y]));
      Some (ctx\<lparr>send_buf := sb\<rparr>, int req_length) }"
    using r by (simp add: agile_modbus_serialize_mask_write_register_def ctx min_req_length_def request_basis)
      (simp add: be_regs_def)
  also have "\<dots> = framed ctx (Mask_Write_Register a x y)"
    unfolding w using r ctx(4) by (subst extend_frame) (simp_all add: framed_def Let_def l, simp_all add: request_body_def)
  finally show ?thesis .
qed

lemma report_slave_id_frame:
  assumes ok: "modbus_ok ctx" and r: "8 \<le> length (send_buf ctx)"
  shows "serialize ctx Report_Slave_Id = framed ctx Report_Slave_Id"
  using r modbus_okD [OF ok] send_msg_pre_frame [of 2 "[of_int (slave ctx), 17]" "be2 0 @ be2 0 @ drop 6 (send_buf ctx)"]
  by (simp add: agile_modbus_serialize_report_slave_id_def min_req_length_def request_basis framed_def request_body_def
      be2_def numeral_2_eq_2)

lemma serialize_frame:
  assumes ok: "modbus_ok ctx" and r: "request_ok r" and sz: "8 \<le> length (send_buf ctx)"
    "length (request_body ctx r) + 2 \<le> length (send_buf ctx)"
  shows "serialize ctx r = framed ctx r"
proof -
  note ctx = modbus_okD [OF ok]
  have basic: "serialize ctx r = framed ctx r"
    if "serialize ctx r = do {
        (sb, req_length) \<leftarrow> agile_modbus_rtu_build_request_basis (slave ctx) f a n (send_buf ctx);
        (sb, req_length) \<leftarrow> agile_modbus_rtu_send_msg_pre sb req_length;
        Some (ctx\<lparr>send_buf := sb\<rparr>, int req_length) }"
      "request_pdu r = of_int f # be2 a @ be2 n" "r \<noteq> Report_Slave_Id" for f a n
  proof -
    have l: "length (request_body ctx r) = 6" by (simp add: request_body_def that)
    show ?thesis
      unfolding that(1) basis_frame [OF ctx(4) sz(1)] using that(3)
      by (simp add: framed_def Let_def l) (simp add: request_body_def that)
  qed
  show ?thesis
  proof (cases r)
    case (Read_Bits a n)
    with r sz show ?thesis by (intro basic [of 1 a "int n"]) (simp_all add: basis_requests ctx min_req_length_def)
  next
    case (Read_Input_Bits a n)
    with r sz show ?thesis by (intro basic [of 2 a "int n"]) (simp_all add: basis_requests ctx min_req_length_def)
  next
    case (Read_Registers a n)
    with r sz show ?thesis by (intro basic [of 3 a "int n"]) (simp_all add: basis_requests ctx min_req_length_def)
  next
    case (Read_Input_Registers a n)
    with r sz show ?thesis by (intro basic [of 4 a "int n"]) (simp_all add: basis_requests ctx min_req_length_def)
  next
    case (Write_Bit a v)
    have "be2 (if v then 0xFF00 else 0) = [if v then 0xFF else 0, 0]" by (simp add: be2_def)
    with Write_Bit sz show ?thesis
      by (intro basic [of 5 a "if v then 0xFF00 else 0"]) (simp_all add: basis_requests ctx min_req_length_def)
  next
    case (Write_Register a v)
    with sz show ?thesis by (intro basic [of 6 a "uint v"]) (simp_all add: basis_requests ctx min_req_length_def)
  next
    case (Write_Bits a src)
    with r sz(2) show ?thesis by (simp add: write_bits_frame [OF ok] request_body_def del: serialize.simps)
  next
    case (Write_Registers a src)
    with r sz(2) show ?thesis by (simp add: write_registers_frame [OF ok] request_body_def del: serialize.simps)
  next
    case (Mask_Write_Register a x y)
    with sz(2) show ?thesis by (simp add: mask_write_frame [OF ok] request_body_def del: serialize.simps)
  next
    case (Write_And_Read_Registers wa src ra n)
    with r sz(2) show ?thesis by (simp add: write_and_read_frame [OF ok] request_body_def del: serialize.simps)
  next
    case Report_Slave_Id
    with sz(1) show ?thesis by (simp add: report_slave_id_frame [OF ok] del: serialize.simps)
  qed
qed

lemma serialize_no_room:
  assumes ok: "modbus_ok ctx" and r: "request_ok r" and sz: "8 \<le> length (send_buf ctx)"
    "\<not> length (request_body ctx r) + 2 \<le> length (send_buf ctx)"
  shows "\<exists>sb. serialize ctx r = Some (ctx\<lparr>send_buf := sb\<rparr>, -1)"
  using r sz(2)
  by (cases r) (use sz(1) in \<open>auto simp: request_body_def be2_def min_req_length_def modbus_okD [OF ok] nb_to_bytes_nat
      request_basis agile_modbus_serialize_write_bits_def agile_modbus_serialize_write_registers_def
      agile_modbus_serialize_mask_write_register_def agile_modbus_serialize_write_and_read_registers_def\<close>,
      auto intro: exI [of _ "send_buf ctx"])

lemma unat_of_nat_u8: "n < 256 \<Longrightarrow> unat (of_nat n :: u8) = n"
  by (simp add: unat_of_nat)

lemma unat_double_u8: "n < 128 \<Longrightarrow> unat (2 * of_nat n :: u8) = 2 * n"
  using unat_of_nat_u8 [of "2 * n"] by simp

lemma request_frame_length:
  assumes r: "request_ok r" and m: "take (length b + 2) msg = rtu_frame b" and b: "b = request_body ctx r"
  shows "frame_length_of AGILE_MODBUS_MSG_INDICATION msg = length b + 2"
proof -
  have nth: "msg ! k = b ! k" if "k < length b" for k
    using that nth_rtu_frame [of k b] nth_take [of k "length b + 2" msg] m by (metis trans_less_add1)
  have l: "2 \<le> length b" by (cases r) (simp_all add: b request_body_def)
  have f: "msg ! 1 = request_pdu r ! 0" using nth [of 1] l by (cases "request_pdu r") (simp_all add: b request_body_def)
  show ?thesis
  proof (cases "(\<exists>a src. r = Write_Bits a src) \<or> (\<exists>a src. r = Write_Registers a src)")
    case True
    then have "6 < length b" by (auto simp: b request_body_def)
    then have "msg ! 6 = b ! 6" by (rule nth)
    then show ?thesis
      using True f r by (auto simp: frame_length_of_def b request_body_def be2_def Let_def unat_of_nat_u8 unat_double_u8)
  next
    case False
    show ?thesis
    proof (cases "\<exists>wa src ra n. r = Write_And_Read_Registers wa src ra n")
      case True
      then have "10 < length b" by (auto simp: b request_body_def)
      then have "msg ! 10 = b ! 10" by (rule nth)
      then show ?thesis
        using True f r by (auto simp: frame_length_of_def b request_body_def be2_def Let_def unat_of_nat_u8 unat_double_u8)
    next
      case no: False
      then show ?thesis
        using False f by (cases r) (auto simp: frame_length_of_def b request_body_def Let_def)
    qed
  qed
qed

text \<open>A message that starts with a request's frame is judged to be that frame.\<close>

lemma request_judged:
  assumes "modbus_ok srv" "request_ok r" "b = request_body ctx r" "take (length b + 2) (read_buf srv) = rtu_frame b"
    "int (length b) + 2 \<le> m" "m \<le> read_bufsz srv"
  shows "agile_modbus_receive_judge srv m AGILE_MODBUS_MSG_INDICATION = Some (int (length b) + 2)"
proof -
  have l: "frame_length_of AGILE_MODBUS_MSG_INDICATION (read_buf srv) = length b + 2"
    by (rule request_frame_length [OF assms(2,4,3)])
  have "crc_reg (rtu_frame b) = 0"
    using frame_iff_residue [of "rtu_frame b"] by (simp add: rtu_frame_def)
  then show ?thesis
    using assms(4-6) by (simp add: receive_judge_eq [OF assms(1)] frame_ok_def l)
qed



end
