(* ===== verification/ModbusSlave.thy ===== *)
theory ModbusSlave
  imports ModbusRtu
begin

text \<open>
  The server side of the Modbus library: \<open>agile_modbus_slave_handle\<close> with its access helpers
  (\<open>agile_modbus.c\<close>), the generic register server behind it (\<open>agile_modbus_slave_util.c\<close>) and the
  register map the program gives it (\<open>modbus_master.c\<close>: 22 registers over \<open>sys.mycan.mb_buffer\<close>).

  The application state that the call-backs change is the type parameter \<open>'s\<close>. A NULL function
  pointer or table is \<open>None\<close>.
\<close>

section \<open>Access helpers\<close>

text \<open>Byte and register access relative to a pointer \<open>buf + base\<close>.\<close>

definition agile_modbus_slave_io_set :: "u8 list \<Rightarrow> nat \<Rightarrow> nat \<Rightarrow> u8 \<Rightarrow> u8 list option" where
  "agile_modbus_slave_io_set buf base index status =
    (let offset = index div 8; shift = index mod 8 in
     do {
       b \<leftarrow> rd buf (base + offset);
       wr buf (base + offset) (if status \<noteq> 0 then b OR push_bit shift 1 else b AND NOT (push_bit shift 1))
     })"

definition agile_modbus_slave_io_get :: "u8 list \<Rightarrow> nat \<Rightarrow> nat \<Rightarrow> u8 option" where
  "agile_modbus_slave_io_get buf base index =
    (let offset = index div 8; shift = index mod 8 in
     do {
       b \<leftarrow> rd buf (base + offset);
       Some (if b AND push_bit shift 1 \<noteq> 0 then 1 else 0)
     })"

definition agile_modbus_slave_register_set :: "u8 list \<Rightarrow> nat \<Rightarrow> nat \<Rightarrow> u16 \<Rightarrow> u8 list option" where
  "agile_modbus_slave_register_set buf base index data =
    do {
      buf \<leftarrow> wr buf (base + index * 2) (hi_byte data);
      wr buf (base + index * 2 + 1) (lo_byte data)
    }"

definition agile_modbus_slave_register_get :: "u8 list \<Rightarrow> nat \<Rightarrow> nat \<Rightarrow> u16 option" where
  "agile_modbus_slave_register_get buf base index =
    do {
      h \<leftarrow> rd buf (base + index * 2);
      l \<leftarrow> rd buf (base + index * 2 + 1);
      Some (be16 h l)
    }"

section \<open>The request handler\<close>

text \<open>\<open>slave_info.buf\<close> points into the request or at a local \<open>int\<close>.\<close>

datatype info_buf = Buf_null | Buf_req nat | Buf_int int

record agile_modbus_slave_info =
  si_sft :: agile_modbus_sft
  si_rsp_length :: nat
  si_address :: int
  si_nb :: int
  si_buf :: info_buf
  si_send_index :: nat

type_synonym 's slave_callback =
  "'s \<Rightarrow> agile_modbus \<Rightarrow> agile_modbus_slave_info \<Rightarrow> ('s \<times> agile_modbus \<times> agile_modbus_slave_info \<times> int) option"

abbreviation (input) "AGILE_MODBUS_EXCEPTION_ILLEGAL_FUNCTION \<equiv> 1 :: int"
abbreviation (input) "AGILE_MODBUS_EXCEPTION_ILLEGAL_DATA_ADDRESS \<equiv> 2 :: int"
abbreviation (input) "AGILE_MODBUS_EXCEPTION_ILLEGAL_DATA_VALUE \<equiv> 3 :: int"
abbreviation (input) "AGILE_MODBUS_EXCEPTION_NEGATIVE_ACKNOWLEDGE \<equiv> 7 :: int"
abbreviation (input) "AGILE_MODBUS_EXCEPTION_UNKNOW \<equiv> 0xff :: int"

definition AGILE_MODBUS_VERSION_STRING :: "u8 list" where
  "AGILE_MODBUS_VERSION_STRING = map of_char ''AMB_1.1.0''"

text \<open>
  What the cases of the switch produce: the response buffer so far, the response length, the
  information for the call-back and the exception code (0 for none). \<open>job_cb\<close> is False where the case
  clears the call-back pointer.
\<close>

record slave_job =
  job_rsp :: "u8 list"
  job_rsp_length :: nat
  job_info :: agile_modbus_slave_info
  job_exception :: int
  job_cb :: bool

definition reject :: "int \<Rightarrow> slave_job \<Rightarrow> slave_job option" where
  "reject code j = Some (j\<lparr>job_exception := code\<rparr>)"

definition be_rd :: "u8 list \<Rightarrow> nat \<Rightarrow> int option" where
  "be_rd buf i = do { h \<leftarrow> rd buf i; l \<leftarrow> rd buf (i + 1); Some (be_int h l) }"

definition no_room :: "agile_modbus \<Rightarrow> int \<Rightarrow> bool" where
  "no_room ctx n = (send_bufsz ctx < n + int (checksum_length (backend ctx)))"

definition handle_read_bits :: "agile_modbus \<Rightarrow> slave_job \<Rightarrow> slave_job option" where
  "handle_read_bits ctx j =
    (let offset = header_length (backend ctx); info = job_info j in
     do {
       nb \<leftarrow> be_rd (read_buf ctx) (offset + 3);
       if nb < 1 \<or> AGILE_MODBUS_MAX_READ_BITS < nb then reject AGILE_MODBUS_EXCEPTION_ILLEGAL_DATA_VALUE j
       else if si_address info + nb - 1 > 0xFFFF then reject AGILE_MODBUS_EXCEPTION_ILLEGAL_DATA_ADDRESS j
       else do {
         (rsp, rsp_length) \<leftarrow> build_response_basis (backend ctx) (si_sft info) (job_rsp j);
         rsp \<leftarrow> wr rsp rsp_length (of_int (nb_to_bytes nb));
         let rsp_length = rsp_length + 1;
         let j = j\<lparr>job_rsp := rsp, job_rsp_length := rsp_length + nat (nb_to_bytes nb),
                   job_info := info\<lparr>si_send_index := rsp_length, si_nb := nb\<rparr>\<rparr>;
         if no_room ctx (int (job_rsp_length j)) then reject AGILE_MODBUS_EXCEPTION_NEGATIVE_ACKNOWLEDGE j
         else Some j
       }
     })"

definition handle_read_registers :: "agile_modbus \<Rightarrow> slave_job \<Rightarrow> slave_job option" where
  "handle_read_registers ctx j =
    (let offset = header_length (backend ctx); info = job_info j in
     do {
       nb \<leftarrow> be_rd (read_buf ctx) (offset + 3);
       if nb < 1 \<or> AGILE_MODBUS_MAX_READ_REGISTERS < nb then reject AGILE_MODBUS_EXCEPTION_ILLEGAL_DATA_VALUE j
       else if si_address info + nb - 1 > 0xFFFF then reject AGILE_MODBUS_EXCEPTION_ILLEGAL_DATA_ADDRESS j
       else do {
         (rsp, rsp_length) \<leftarrow> build_response_basis (backend ctx) (si_sft info) (job_rsp j);
         rsp \<leftarrow> wr rsp rsp_length (of_int (nb * 2));
         let rsp_length = rsp_length + 1;
         let j = j\<lparr>job_rsp := rsp, job_rsp_length := rsp_length + nat (nb * 2),
                   job_info := info\<lparr>si_send_index := rsp_length, si_nb := nb\<rparr>\<rparr>;
         if no_room ctx (int (job_rsp_length j)) then reject AGILE_MODBUS_EXCEPTION_NEGATIVE_ACKNOWLEDGE j
         else Some j
       }
     })"

text \<open>The echo of the request as the response, after the check for room.\<close>

definition echo_request :: "agile_modbus \<Rightarrow> int \<Rightarrow> slave_job \<Rightarrow> slave_job option" where
  "echo_request ctx req_length j =
    (let j = j\<lparr>job_rsp_length := nat req_length\<rparr> in
     if no_room ctx req_length then reject AGILE_MODBUS_EXCEPTION_NEGATIVE_ACKNOWLEDGE j
     else do {
       body \<leftarrow> rd_seg (read_buf ctx) 0 (nat req_length);
       rsp \<leftarrow> wr_all (job_rsp j) 0 body;
       Some (j\<lparr>job_rsp := rsp\<rparr>)
     })"

definition handle_write_coil :: "agile_modbus \<Rightarrow> int \<Rightarrow> slave_job \<Rightarrow> slave_job option" where
  "handle_write_coil ctx req_length j =
    (let offset = header_length (backend ctx); info = job_info j in
     if si_address info > 0xFFFF then reject AGILE_MODBUS_EXCEPTION_ILLEGAL_DATA_ADDRESS j
     else do {
       data \<leftarrow> be_rd (read_buf ctx) (offset + 3);
       if data = 0xFF00 \<or> data = 0 then
         echo_request ctx req_length (j\<lparr>job_info := info\<lparr>si_buf := Buf_int (if data \<noteq> 0 then 1 else 0)\<rparr>\<rparr>)
       else reject AGILE_MODBUS_EXCEPTION_ILLEGAL_DATA_VALUE j
     })"

definition handle_write_register :: "agile_modbus \<Rightarrow> int \<Rightarrow> slave_job \<Rightarrow> slave_job option" where
  "handle_write_register ctx req_length j =
    (let offset = header_length (backend ctx); info = job_info j in
     if si_address info > 0xFFFF then reject AGILE_MODBUS_EXCEPTION_ILLEGAL_DATA_ADDRESS j
     else do {
       data \<leftarrow> be_rd (read_buf ctx) (offset + 3);
       echo_request ctx req_length (j\<lparr>job_info := info\<lparr>si_buf := Buf_int data\<rparr>\<rparr>)
     })"

text \<open>The answer to a multiple write: address and quantity of the request.\<close>

definition answer_multiple :: "agile_modbus \<Rightarrow> int \<Rightarrow> slave_job \<Rightarrow> slave_job option" where
  "answer_multiple ctx nb j =
    (let offset = header_length (backend ctx); info = job_info j in
     do {
       (rsp, rsp_length) \<leftarrow> build_response_basis (backend ctx) (si_sft info) (job_rsp j);
       let j = j\<lparr>job_rsp := rsp, job_rsp_length := rsp_length,
                 job_info := info\<lparr>si_nb := nb, si_buf := Buf_req (offset + 6)\<rparr>\<rparr>;
       if no_room ctx (int rsp_length + 4) then reject AGILE_MODBUS_EXCEPTION_NEGATIVE_ACKNOWLEDGE j
       else do {
         four \<leftarrow> rd_seg (read_buf ctx) rsp_length 4;
         rsp \<leftarrow> wr_all rsp rsp_length four;
         Some (j\<lparr>job_rsp := rsp, job_rsp_length := rsp_length + 4\<rparr>)
       }
     })"

definition handle_write_coils :: "agile_modbus \<Rightarrow> slave_job \<Rightarrow> slave_job option" where
  "handle_write_coils ctx j =
    (let offset = header_length (backend ctx); info = job_info j in
     do {
       nb \<leftarrow> be_rd (read_buf ctx) (offset + 3);
       nb_bits \<leftarrow> rd (read_buf ctx) (offset + 5);
       if nb < 1 \<or> AGILE_MODBUS_MAX_WRITE_BITS < nb \<or> uint nb_bits * 8 < nb
       then reject AGILE_MODBUS_EXCEPTION_ILLEGAL_DATA_VALUE j
       else if si_address info + nb - 1 > 0xFFFF then reject AGILE_MODBUS_EXCEPTION_ILLEGAL_DATA_ADDRESS j
       else answer_multiple ctx nb j
     })"

definition handle_write_registers :: "agile_modbus \<Rightarrow> slave_job \<Rightarrow> slave_job option" where
  "handle_write_registers ctx j =
    (let offset = header_length (backend ctx); info = job_info j in
     do {
       nb \<leftarrow> be_rd (read_buf ctx) (offset + 3);
       nb_bytes \<leftarrow> rd (read_buf ctx) (offset + 5);
       if nb < 1 \<or> AGILE_MODBUS_MAX_WRITE_REGISTERS < nb \<or> uint nb_bytes \<noteq> nb * 2
       then reject AGILE_MODBUS_EXCEPTION_ILLEGAL_DATA_VALUE j
       else if si_address info + nb - 1 > 0xFFFF then reject AGILE_MODBUS_EXCEPTION_ILLEGAL_DATA_ADDRESS j
       else answer_multiple ctx nb j
     })"

definition handle_report_slave_id :: "agile_modbus \<Rightarrow> slave_job \<Rightarrow> slave_job option" where
  "handle_report_slave_id ctx j =
    do {
      let j = j\<lparr>job_cb := False\<rparr>;
      (rsp, rsp_length) \<leftarrow> build_response_basis (backend ctx) (si_sft (job_info j)) (job_rsp j);
      let byte_count_pos = rsp_length;
      let rsp_length = rsp_length + 1;
      rsp \<leftarrow> wr rsp rsp_length (of_int (slave ctx));
      rsp \<leftarrow> wr rsp (rsp_length + 1) 0xFF;
      let rsp_length = rsp_length + 2;
      let str_len = length AGILE_MODBUS_VERSION_STRING;
      let j = j\<lparr>job_rsp := rsp, job_rsp_length := rsp_length\<rparr>;
      if no_room ctx (int (rsp_length + str_len)) then reject AGILE_MODBUS_EXCEPTION_NEGATIVE_ACKNOWLEDGE j
      else do {
        rsp \<leftarrow> wr_all rsp rsp_length AGILE_MODBUS_VERSION_STRING;
        let rsp_length = rsp_length + str_len;
        rsp \<leftarrow> wr rsp byte_count_pos (of_nat (rsp_length - byte_count_pos - 1));
        Some (j\<lparr>job_rsp := rsp, job_rsp_length := rsp_length\<rparr>)
      }
    }"

definition handle_mask_write :: "agile_modbus \<Rightarrow> int \<Rightarrow> slave_job \<Rightarrow> slave_job option" where
  "handle_mask_write ctx req_length j =
    (let offset = header_length (backend ctx); info = job_info j in
     if si_address info > 0xFFFF then reject AGILE_MODBUS_EXCEPTION_ILLEGAL_DATA_ADDRESS j
     else echo_request ctx req_length (j\<lparr>job_info := info\<lparr>si_buf := Buf_req (offset + 3)\<rparr>\<rparr>))"

definition handle_write_read :: "agile_modbus \<Rightarrow> slave_job \<Rightarrow> slave_job option" where
  "handle_write_read ctx j =
    (let offset = header_length (backend ctx); info = job_info j; req = read_buf ctx in
     do {
       nb \<leftarrow> be_rd req (offset + 3);
       address_write \<leftarrow> be_rd req (offset + 5);
       nb_write \<leftarrow> be_rd req (offset + 7);
       nb_write_bytes \<leftarrow> rd req (offset + 9);
       if nb_write < 1 \<or> AGILE_MODBUS_MAX_WR_WRITE_REGISTERS < nb_write \<or>
          nb < 1 \<or> AGILE_MODBUS_MAX_WR_READ_REGISTERS < nb \<or> uint nb_write_bytes \<noteq> nb_write * 2
       then reject AGILE_MODBUS_EXCEPTION_ILLEGAL_DATA_VALUE j
       else if si_address info + nb - 1 > 0xFFFF \<or> address_write + nb_write - 1 > 0xFFFF
       then reject AGILE_MODBUS_EXCEPTION_ILLEGAL_DATA_ADDRESS j
       else do {
         (rsp, rsp_length) \<leftarrow> build_response_basis (backend ctx) (si_sft info) (job_rsp j);
         rsp \<leftarrow> wr rsp rsp_length (of_int (nb * 2));
         let rsp_length = rsp_length + 1;
         let j = j\<lparr>job_rsp := rsp, job_rsp_length := rsp_length + nat (nb * 2),
                   job_info := info\<lparr>si_buf := Buf_req (offset + 3), si_send_index := rsp_length\<rparr>\<rparr>;
         if no_room ctx (int (job_rsp_length j)) then reject AGILE_MODBUS_EXCEPTION_NEGATIVE_ACKNOWLEDGE j
         else Some j
       }
     })"

definition handle_other :: "agile_modbus \<Rightarrow> int \<Rightarrow> bool \<Rightarrow> slave_job \<Rightarrow> slave_job option" where
  "handle_other ctx req_length has_cb j =
    (let offset = header_length (backend ctx); info = job_info j in
     if \<not> has_cb then reject AGILE_MODBUS_EXCEPTION_ILLEGAL_FUNCTION j
     else do {
       (rsp, rsp_length) \<leftarrow> build_response_basis (backend ctx) (si_sft info) (job_rsp j);
       Some (j\<lparr>job_rsp := rsp, job_rsp_length := rsp_length,
               job_info := info\<lparr>si_send_index := rsp_length, si_buf := Buf_req (offset + 1),
                                si_nb := req_length - int offset - 1\<rparr>\<rparr>)
     })"

text \<open>The switch over the function code.\<close>

definition slave_switch :: "agile_modbus \<Rightarrow> int \<Rightarrow> int \<Rightarrow> bool \<Rightarrow> slave_job \<Rightarrow> slave_job option" where
  "slave_switch ctx function req_length has_cb j =
    (if function = AGILE_MODBUS_FC_READ_COILS \<or> function = AGILE_MODBUS_FC_READ_DISCRETE_INPUTS
     then handle_read_bits ctx j
     else if function = AGILE_MODBUS_FC_READ_HOLDING_REGISTERS \<or> function = AGILE_MODBUS_FC_READ_INPUT_REGISTERS
     then handle_read_registers ctx j
     else if function = AGILE_MODBUS_FC_WRITE_SINGLE_COIL then handle_write_coil ctx req_length j
     else if function = AGILE_MODBUS_FC_WRITE_SINGLE_REGISTER then handle_write_register ctx req_length j
     else if function = AGILE_MODBUS_FC_WRITE_MULTIPLE_COILS then handle_write_coils ctx j
     else if function = AGILE_MODBUS_FC_WRITE_MULTIPLE_REGISTERS then handle_write_registers ctx j
     else if function = AGILE_MODBUS_FC_REPORT_SLAVE_ID then handle_report_slave_id ctx j
     else if function = AGILE_MODBUS_FC_READ_EXCEPTION_STATUS then reject AGILE_MODBUS_EXCEPTION_ILLEGAL_FUNCTION j
     else if function = AGILE_MODBUS_FC_MASK_WRITE_REGISTER then handle_mask_write ctx req_length j
     else if function = AGILE_MODBUS_FC_WRITE_AND_READ_REGISTERS then handle_write_read ctx j
     else handle_other ctx req_length has_cb j)"

definition agile_modbus_serialize_response_exception ::
  "agile_modbus \<Rightarrow> agile_modbus_sft \<Rightarrow> int \<Rightarrow> (agile_modbus \<times> nat) option" where
  "agile_modbus_serialize_response_exception ctx sft exception_code =
    do {
      (rsp, rsp_length) \<leftarrow>
        build_response_basis (backend ctx) (sft\<lparr>sft_function := sft_function sft + 0x80\<rparr>) (send_buf ctx);
      rsp \<leftarrow> wr rsp rsp_length (of_int exception_code);
      Some (ctx\<lparr>send_buf := rsp\<rparr>, rsp_length + 1)
    }"

text \<open>After the switch: the exception answer, or the call-back and its result.\<close>

definition run_callback ::
  "'s slave_callback option \<Rightarrow> 's \<Rightarrow> agile_modbus \<Rightarrow> slave_job \<Rightarrow> ('s \<times> agile_modbus \<times> nat) option" where
  "run_callback slave_cb s ctx j =
    (let ctx = ctx\<lparr>send_buf := job_rsp j\<rparr> in
     if job_exception j \<noteq> 0 then
       map_option (Pair s) (agile_modbus_serialize_response_exception ctx (si_sft (job_info j)) (job_exception j))
     else if job_cb j then
       (case slave_cb of None \<Rightarrow> Some (s, ctx, job_rsp_length j)
        | Some cb \<Rightarrow> do {
            (s, ctx, info, ret) \<leftarrow> cb s ctx ((job_info j)\<lparr>si_rsp_length := job_rsp_length j\<rparr>);
            if ret < 0 then
              if ret = - AGILE_MODBUS_EXCEPTION_UNKNOW then Some (s, ctx, 0)
              else map_option (Pair s) (agile_modbus_serialize_response_exception ctx (si_sft info) (- ret))
            else Some (s, ctx, si_rsp_length info)
          })
     else Some (s, ctx, job_rsp_length j))"

definition agile_modbus_slave_handle ::
  "agile_modbus \<Rightarrow> int \<Rightarrow> u8 \<Rightarrow> 's slave_callback option \<Rightarrow> 's \<Rightarrow> int option \<Rightarrow>
   ('s \<times> agile_modbus \<times> int option \<times> int) option" where
  "agile_modbus_slave_handle ctx msg_length slave_strict slave_cb s frame_length =
    (if send_bufsz ctx < min_req_length ctx then Some (s, ctx, frame_length, -1)
     else do {
       req_length \<leftarrow> agile_modbus_receive_judge ctx msg_length AGILE_MODBUS_MSG_INDICATION;
       if req_length < 0 then Some (s, ctx, frame_length, -1)
       else do {
         let frame_length = map_option (\<lambda>_. req_length) frame_length;
         let req = read_buf ctx;
         rsp \<leftarrow> wr_all (send_buf ctx) 0 (replicate (nat (send_bufsz ctx)) 0);
         let ctx = ctx\<lparr>send_buf := rsp\<rparr>;
         let offset = header_length (backend ctx);
         sl \<leftarrow> rd req (offset - 1);
         function \<leftarrow> rd req offset;
         ah \<leftarrow> rd req (offset + 1);
         al \<leftarrow> rd req (offset + 2);
         let (t_id, req_length) = prepare_response_tid (backend ctx) req req_length;
         let sft = \<lparr>sft_slave = uint sl, sft_function = uint function, sft_t_id = t_id\<rparr>;
         let info = \<lparr>si_sft = sft, si_rsp_length = 0, si_address = be_int ah al, si_nb = 0, si_buf = Buf_null,
                     si_send_index = 0\<rparr>;
         if slave_strict \<noteq> 0 \<and> uint sl \<noteq> slave ctx \<and> uint sl \<noteq> AGILE_MODBUS_BROADCAST_ADDRESS
         then Some (s, ctx, frame_length, 0)
         else do {
           j \<leftarrow> slave_switch ctx (uint function) req_length (slave_cb \<noteq> None)
                  \<lparr>job_rsp = rsp, job_rsp_length = 0, job_info = info, job_exception = 0, job_cb = True\<rparr>;
           (s, ctx, rsp_length) \<leftarrow> run_callback slave_cb s ctx j;
           if rsp_length \<noteq> 0 then
             if backend_is_rtu (backend ctx) \<and> uint sl = AGILE_MODBUS_BROADCAST_ADDRESS
             then Some (s, ctx, frame_length, 0)
             else do {
               (rsp, rsp_length) \<leftarrow> send_msg_pre (backend ctx) (send_buf ctx) rsp_length;
               Some (s, ctx\<lparr>send_buf := rsp\<rparr>, frame_length, int rsp_length)
             }
           else Some (s, ctx, frame_length, 0)
         }
       }
     })"

section \<open>The register server\<close>

text \<open>
  \<open>map_buf\<close> holds 253 bytes, which the code also reads as little-endian 16-bit values. \<open>map_get\<close>
  fills it, \<open>map_set\<close> gets index, length and the filled buffer.
\<close>

abbreviation (input) "AGILE_MODBUS_MAX_PDU_LENGTH \<equiv> 253 :: nat"

definition rd_u16 :: "u8 list \<Rightarrow> nat \<Rightarrow> u16 option" where
  "rd_u16 buf k = do { l \<leftarrow> rd buf (2 * k); h \<leftarrow> rd buf (2 * k + 1); Some (be16 h l) }"

definition wr_u16 :: "u8 list \<Rightarrow> nat \<Rightarrow> u16 \<Rightarrow> u8 list option" where
  "wr_u16 buf k v = wr_all buf (2 * k) [lo_byte v, hi_byte v]"

record 's agile_modbus_slave_util_map =
  start_addr :: int
  end_addr :: int
  map_get :: "('s \<Rightarrow> u8 list \<Rightarrow> u8 list option) option"
  map_set :: "('s \<Rightarrow> nat \<Rightarrow> nat \<Rightarrow> u8 list \<Rightarrow> ('s \<times> int) option) option"

record 's agile_modbus_slave_util =
  tab_bits :: "'s agile_modbus_slave_util_map list option"
  tab_input_bits :: "'s agile_modbus_slave_util_map list option"
  tab_registers :: "'s agile_modbus_slave_util_map list option"
  tab_input_registers :: "'s agile_modbus_slave_util_map list option"
  util_addr_check :: "(agile_modbus \<Rightarrow> agile_modbus_slave_info \<Rightarrow> int) option"
  special_function :: "'s slave_callback option"
  util_done :: "('s \<Rightarrow> agile_modbus \<Rightarrow> agile_modbus_slave_info \<Rightarrow> int \<Rightarrow> 's) option"

fun get_map_by_addr :: "'s agile_modbus_slave_util_map list \<Rightarrow> int \<Rightarrow> 's agile_modbus_slave_util_map option" where
  "get_map_by_addr [] address = None"
| "get_map_by_addr (mp # maps) address =
    (if address \<ge> start_addr mp \<and> address \<le> end_addr mp then Some mp else get_map_by_addr maps address)"

lemma get_map_by_addr_bounds:
  "get_map_by_addr maps a = Some mp \<Longrightarrow> start_addr mp \<le> a \<and> a \<le> end_addr mp"
  by (induction maps) (auto split: if_splits)

definition fresh_map_buf :: "'s \<Rightarrow> 's agile_modbus_slave_util_map \<Rightarrow> u8 list option" where
  "fresh_map_buf s mp =
    (let zero = replicate AGILE_MODBUS_MAX_PDU_LENGTH 0 in
     case map_get mp of None \<Rightarrow> Some zero | Some get \<Rightarrow> get s zero)"

text \<open>The inner copy loops, for \<open>j\<close> from 0 to below \<open>need_len\<close>.\<close>

primrec put_bits :: "u8 list \<Rightarrow> nat \<Rightarrow> nat \<Rightarrow> u8 list \<Rightarrow> nat \<Rightarrow> nat \<Rightarrow> u8 list option" where
  "put_bits sb send_index i map_buf index 0 = Some sb"
| "put_bits sb send_index i map_buf index (Suc j) =
    do {
      sb \<leftarrow> put_bits sb send_index i map_buf index j;
      v \<leftarrow> rd map_buf (index + j);
      agile_modbus_slave_io_set sb send_index (i + j) v
    }"

primrec put_registers :: "u8 list \<Rightarrow> nat \<Rightarrow> nat \<Rightarrow> u8 list \<Rightarrow> nat \<Rightarrow> nat \<Rightarrow> u8 list option" where
  "put_registers sb send_index i map_buf index 0 = Some sb"
| "put_registers sb send_index i map_buf index (Suc j) =
    do {
      sb \<leftarrow> put_registers sb send_index i map_buf index j;
      v \<leftarrow> rd_u16 map_buf (index + j);
      agile_modbus_slave_register_set sb send_index (i + j) v
    }"

primrec take_bits :: "u8 list \<Rightarrow> nat \<Rightarrow> u8 list \<Rightarrow> nat \<Rightarrow> nat \<Rightarrow> nat \<Rightarrow> u8 list option" where
  "take_bits map_buf index req pos i 0 = Some map_buf"
| "take_bits map_buf index req pos i (Suc j) =
    do {
      map_buf \<leftarrow> take_bits map_buf index req pos i j;
      data \<leftarrow> agile_modbus_slave_io_get req pos (i + j);
      wr map_buf (index + j) data
    }"

primrec take_registers :: "u8 list \<Rightarrow> nat \<Rightarrow> u8 list \<Rightarrow> nat \<Rightarrow> nat \<Rightarrow> nat \<Rightarrow> u8 list option" where
  "take_registers map_buf index req pos i 0 = Some map_buf"
| "take_registers map_buf index req pos i (Suc j) =
    do {
      map_buf \<leftarrow> take_registers map_buf index req pos i j;
      data \<leftarrow> agile_modbus_slave_register_get req pos (i + j);
      wr_u16 map_buf (index + j) data
    }"

text \<open>
  The address loop of \<open>read_registers\<close> and of the reading half of \<open>write_read_registers\<close>: from
  \<open>now_address\<close>, answer position \<open>i\<close>, up to \<open>stop = address + nb\<close>. Addresses of no map are skipped.
\<close>

function read_loop ::
  "'s agile_modbus_slave_util_map list \<Rightarrow> bool \<Rightarrow> nat \<Rightarrow> int \<Rightarrow> 's \<Rightarrow> int \<Rightarrow> nat \<Rightarrow> u8 list \<Rightarrow> u8 list option" where
  "read_loop maps bits send_index stop s now_address i sb =
    (if now_address < stop then
       (case get_map_by_addr maps now_address of
          None \<Rightarrow> read_loop maps bits send_index stop s (now_address + 1) (i + 1) sb
        | Some mp \<Rightarrow>
            (let map_len = end_addr mp - now_address + 1;
                 sb' = (if map_get mp = None then Some sb
                        else do {
                          map_buf \<leftarrow> fresh_map_buf s mp;
                          let index = nat (now_address - start_addr mp);
                          let need_len = nat (min (stop - now_address) map_len);
                          if bits then put_bits sb send_index i map_buf index need_len
                          else put_registers sb send_index i map_buf index need_len
                        })
             in case sb' of None \<Rightarrow> None
                | Some sb \<Rightarrow> read_loop maps bits send_index stop s (now_address + map_len) (i + nat map_len) sb))
     else Some sb)"
  by pat_completeness auto

termination read_loop
  by (relation "measure (\<lambda>(maps, bits, send_index, stop, s, now_address, i, sb). nat (stop - now_address))")
    (auto dest: get_map_by_addr_bounds)

declare read_loop.simps [simp del]

definition read_registers ::
  "'s agile_modbus_slave_util \<Rightarrow> 's \<Rightarrow> agile_modbus \<Rightarrow> agile_modbus_slave_info \<Rightarrow> ('s \<times> agile_modbus \<times> int) option" where
  "read_registers util s ctx info =
    (let function = sft_function (si_sft info);
         address = si_address info;
         serve = (\<lambda>tab bits. case tab util of None \<Rightarrow> Some (s, ctx, 0)
            | Some maps \<Rightarrow> do {
                sb \<leftarrow> read_loop maps bits (si_send_index info) (address + si_nb info) s address 0 (send_buf ctx);
                Some (s, ctx\<lparr>send_buf := sb\<rparr>, 0)
              })
     in if function = AGILE_MODBUS_FC_READ_COILS then serve tab_bits True
        else if function = AGILE_MODBUS_FC_READ_DISCRETE_INPUTS then serve tab_input_bits True
        else if function = AGILE_MODBUS_FC_READ_HOLDING_REGISTERS then serve tab_registers False
        else if function = AGILE_MODBUS_FC_READ_INPUT_REGISTERS then serve tab_input_registers False
        else Some (s, ctx, - AGILE_MODBUS_EXCEPTION_ILLEGAL_FUNCTION))"

text \<open>
  What one step of a write loop puts into the map buffer: the value of a single write, or
  \<open>need_len\<close> bits or registers of the request from byte \<open>pos\<close>.
\<close>

datatype write_source = Single_bit int | Single_register int | Many_bits nat | Many_registers nat

definition fill_map_buf ::
  "write_source \<Rightarrow> u8 list \<Rightarrow> nat \<Rightarrow> nat \<Rightarrow> nat \<Rightarrow> u8 list \<Rightarrow> u8 list option" where
  "fill_map_buf src req index i need_len map_buf =
    (case src of
       Single_bit data \<Rightarrow> wr map_buf index (of_int data)
     | Single_register data \<Rightarrow> wr_u16 map_buf index (of_int data)
     | Many_bits pos \<Rightarrow> take_bits map_buf index req pos i need_len
     | Many_registers pos \<Rightarrow> take_registers map_buf index req pos i need_len)"

text \<open>The address loop of the writes. It stops with the result of \<open>map_set\<close> when that is not 0.\<close>

function write_loop ::
  "'s agile_modbus_slave_util_map list \<Rightarrow> write_source \<Rightarrow> u8 list \<Rightarrow> int \<Rightarrow> 's \<Rightarrow> int \<Rightarrow> nat \<Rightarrow> ('s \<times> int) option" where
  "write_loop maps src req stop s now_address i =
    (if now_address < stop then
       (case get_map_by_addr maps now_address of
          None \<Rightarrow> write_loop maps src req stop s (now_address + 1) (i + 1)
        | Some mp \<Rightarrow>
            (let map_len = end_addr mp - now_address + 1;
                 r = (case map_set mp of None \<Rightarrow> Some (s, 0)
                      | Some set_cb \<Rightarrow> do {
                          map_buf \<leftarrow> fresh_map_buf s mp;
                          let index = nat (now_address - start_addr mp);
                          let need_len = nat (min (stop - now_address) map_len);
                          map_buf \<leftarrow> fill_map_buf src req index i need_len map_buf;
                          set_cb s index need_len map_buf
                        })
             in case r of None \<Rightarrow> None
                | Some (s, rc) \<Rightarrow> if rc \<noteq> 0 then Some (s, rc)
                    else write_loop maps src req stop s (now_address + map_len) (i + nat map_len)))
     else Some (s, 0))"
  by pat_completeness auto

termination write_loop
  by (relation "measure (\<lambda>(maps, src, req, stop, s, now_address, i). nat (stop - now_address))")
    (auto dest: get_map_by_addr_bounds)

declare write_loop.simps [simp del]

definition write_registers ::
  "'s agile_modbus_slave_util \<Rightarrow> 's \<Rightarrow> agile_modbus \<Rightarrow> agile_modbus_slave_info \<Rightarrow> ('s \<times> agile_modbus \<times> int) option" where
  "write_registers util s ctx info =
    (let function = sft_function (si_sft info);
         address = si_address info;
         serve = (\<lambda>tab nb src. case tab util of None \<Rightarrow> Some (s, ctx, 0)
            | Some maps \<Rightarrow> do {
                (s, rc) \<leftarrow> write_loop maps src (read_buf ctx) (address + nb) s address 0;
                Some (s, ctx, rc)
              })
     in if function = AGILE_MODBUS_FC_WRITE_SINGLE_COIL
        then (case si_buf info of Buf_int d \<Rightarrow> serve tab_bits 1 (Single_bit d) | _ \<Rightarrow> None)
        else if function = AGILE_MODBUS_FC_WRITE_MULTIPLE_COILS
        then (case si_buf info of Buf_req pos \<Rightarrow> serve tab_bits (si_nb info) (Many_bits pos) | _ \<Rightarrow> None)
        else if function = AGILE_MODBUS_FC_WRITE_SINGLE_REGISTER
        then (case si_buf info of Buf_int d \<Rightarrow> serve tab_registers 1 (Single_register d) | _ \<Rightarrow> None)
        else if function = AGILE_MODBUS_FC_WRITE_MULTIPLE_REGISTERS
        then (case si_buf info of Buf_req pos \<Rightarrow> serve tab_registers (si_nb info) (Many_registers pos) | _ \<Rightarrow> None)
        else Some (s, ctx, - AGILE_MODBUS_EXCEPTION_ILLEGAL_FUNCTION))"

definition mask_write_register ::
  "'s agile_modbus_slave_util \<Rightarrow> 's \<Rightarrow> agile_modbus \<Rightarrow> agile_modbus_slave_info \<Rightarrow> ('s \<times> agile_modbus \<times> int) option" where
  "mask_write_register util s ctx info =
    (case tab_registers util of None \<Rightarrow> Some (s, ctx, 0)
     | Some maps \<Rightarrow>
        (case get_map_by_addr maps (si_address info) of None \<Rightarrow> Some (s, ctx, 0)
         | Some mp \<Rightarrow>
            (case map_set mp of None \<Rightarrow> Some (s, ctx, 0)
             | Some set_cb \<Rightarrow> (case si_buf info of Buf_req pos \<Rightarrow>
                 do {
                   map_buf \<leftarrow> fresh_map_buf s mp;
                   let index = nat (si_address info - start_addr mp);
                   data \<leftarrow> rd_u16 map_buf index;
                   and_mask \<leftarrow> agile_modbus_slave_register_get (read_buf ctx) pos 0;
                   or_mask \<leftarrow> agile_modbus_slave_register_get (read_buf ctx) pos 1;
                   map_buf \<leftarrow> wr_u16 map_buf index ((data AND and_mask) OR (or_mask AND NOT and_mask));
                   (s, rc) \<leftarrow> set_cb s index 1 map_buf;
                   Some (s, ctx, rc)
                 }
               | _ \<Rightarrow> None))))"

definition write_read_registers ::
  "'s agile_modbus_slave_util \<Rightarrow> 's \<Rightarrow> agile_modbus \<Rightarrow> agile_modbus_slave_info \<Rightarrow> ('s \<times> agile_modbus \<times> int) option" where
  "write_read_registers util s ctx info =
    (case si_buf info of Buf_req pos \<Rightarrow>
      do {
        let address = si_address info;
        nb \<leftarrow> be_rd (read_buf ctx) pos;
        address_write \<leftarrow> be_rd (read_buf ctx) (pos + 2);
        nb_write \<leftarrow> be_rd (read_buf ctx) (pos + 4);
        (case tab_registers util of None \<Rightarrow> Some (s, ctx, 0)
         | Some maps \<Rightarrow> do {
            (s, rc) \<leftarrow> write_loop maps (Many_registers (pos + 7)) (read_buf ctx) (address_write + nb_write) s address_write 0;
            if rc \<noteq> 0 then Some (s, ctx, rc)
            else do {
              sb \<leftarrow> read_loop maps False (si_send_index info) (address + nb) s address 0 (send_buf ctx);
              Some (s, ctx\<lparr>send_buf := sb\<rparr>, 0)
            }
          })
      }
     | _ \<Rightarrow> None)"

definition agile_modbus_slave_util_callback :: "'s agile_modbus_slave_util option \<Rightarrow> 's slave_callback" where
  "agile_modbus_slave_util_callback data s ctx info =
    (case data of None \<Rightarrow> Some (s, ctx, info, 0)
     | Some util \<Rightarrow>
        (let function = sft_function (si_sft info);
             ret = (case util_addr_check util of None \<Rightarrow> 0 | Some check \<Rightarrow> check ctx info);
             wrap = map_option (\<lambda>(s, ctx, ret). (s, ctx, info, ret))
         in if ret \<noteq> 0 then Some (s, ctx, info, ret)
            else do {
              (s, ctx, info, ret) \<leftarrow>
                (if function = AGILE_MODBUS_FC_READ_COILS \<or> function = AGILE_MODBUS_FC_READ_DISCRETE_INPUTS \<or>
                    function = AGILE_MODBUS_FC_READ_HOLDING_REGISTERS \<or> function = AGILE_MODBUS_FC_READ_INPUT_REGISTERS
                 then wrap (read_registers util s ctx info)
                 else if function = AGILE_MODBUS_FC_WRITE_SINGLE_COIL \<or>
                    function = AGILE_MODBUS_FC_WRITE_MULTIPLE_COILS \<or>
                    function = AGILE_MODBUS_FC_WRITE_SINGLE_REGISTER \<or>
                    function = AGILE_MODBUS_FC_WRITE_MULTIPLE_REGISTERS
                 then wrap (write_registers util s ctx info)
                 else if function = AGILE_MODBUS_FC_MASK_WRITE_REGISTER then wrap (mask_write_register util s ctx info)
                 else if function = AGILE_MODBUS_FC_WRITE_AND_READ_REGISTERS
                 then wrap (write_read_registers util s ctx info)
                 else (case special_function util of
                         None \<Rightarrow> Some (s, ctx, info, - AGILE_MODBUS_EXCEPTION_ILLEGAL_FUNCTION)
                       | Some special \<Rightarrow> special s ctx info));
              Some (case util_done util of None \<Rightarrow> s | Some dn \<Rightarrow> dn s ctx info ret, ctx, info, ret)
            }))"

section \<open>The register map of the program\<close>

text \<open>
  \<open>modbus_master.c\<close>: registers 0 to 0x15 are the first entries of \<open>sys.mycan.mb_buffer\<close> (30 entries),
  the state of these call-backs. The mutex around the copies is left out: the model runs one call-back
  at a time.
\<close>

primrec map_out :: "u16 list \<Rightarrow> u8 list \<Rightarrow> nat \<Rightarrow> u8 list option" where
  "map_out mb_buffer ptr 0 = Some ptr"
| "map_out mb_buffer ptr (Suc n) =
    do { ptr \<leftarrow> map_out mb_buffer ptr n; v \<leftarrow> rd mb_buffer n; wr_u16 ptr n v }"

definition get_map_buf :: "u16 list \<Rightarrow> u8 list \<Rightarrow> u8 list option" where
  "get_map_buf mb_buffer buf = map_out mb_buffer buf (length mb_buffer)"

primrec map_in :: "u16 list \<Rightarrow> u8 list \<Rightarrow> nat \<Rightarrow> nat \<Rightarrow> u16 list option" where
  "map_in mb_buffer ptr index 0 = Some mb_buffer"
| "map_in mb_buffer ptr index (Suc i) =
    do { mb_buffer \<leftarrow> map_in mb_buffer ptr index i; v \<leftarrow> rd_u16 ptr (index + i); wr mb_buffer (index + i) v }"

definition set_map_buf :: "u16 list \<Rightarrow> nat \<Rightarrow> nat \<Rightarrow> u8 list \<Rightarrow> (u16 list \<times> int) option" where
  "set_map_buf mb_buffer index len buf = map_option (\<lambda>mb. (mb, 0)) (map_in mb_buffer buf index len)"

definition register_maps :: "u16 list agile_modbus_slave_util_map list" where
  "register_maps = [\<lparr>start_addr = 0x0, end_addr = 0x15, map_get = Some get_map_buf, map_set = Some set_map_buf\<rparr>]"

definition addr_check :: "agile_modbus \<Rightarrow> agile_modbus_slave_info \<Rightarrow> int" where
  "addr_check ctx info =
    (let sl = sft_slave (si_sft info)
     in if sl \<noteq> slave ctx \<and> sl \<noteq> AGILE_MODBUS_BROADCAST_ADDRESS \<and> sl \<noteq> 0xFF
        then - AGILE_MODBUS_EXCEPTION_UNKNOW else 0)"

definition slave_util :: "u16 list agile_modbus_slave_util" where
  "slave_util = \<lparr>tab_bits = None, tab_input_bits = None, tab_registers = Some register_maps,
     tab_input_registers = None, util_addr_check = Some addr_check, special_function = None, util_done = None\<rparr>"

section \<open>Registers in byte buffers\<close>

lemma wr_all_length: "wr_all xs i vs = Some ys \<Longrightarrow> length ys = length xs"
  by (auto simp: wr_all_def split: if_split_asm)

lemma wr_all_nth:
  "wr_all xs i vs = Some ys \<Longrightarrow> ys ! k = (if i \<le> k \<and> k < i + length vs then vs ! (k - i) else xs ! k)"
  by (auto simp: wr_all_def nth_append split: if_splits)

lemma wr_all_ok [simp]: "wr_all xs i vs \<noteq> None \<longleftrightarrow> i + length vs \<le> length xs"
  by (simp add: wr_all_def)

lemma rd_u16_in: "2 * k + 1 < length buf \<Longrightarrow> rd_u16 buf k = Some (be16 (buf ! (2 * k + 1)) (buf ! (2 * k)))"
  by (simp add: rd_u16_def)

lemma wr_u16_in: "2 * k + 1 < length buf \<Longrightarrow> \<exists>buf'. wr_u16 buf k v = Some buf'"
  by (simp add: wr_u16_def wr_all_def)

lemma wr_u16_length: "wr_u16 buf k v = Some buf' \<Longrightarrow> length buf' = length buf"
  by (auto simp: wr_u16_def dest: wr_all_length)

lemma rd_u16_wr_u16:
  assumes "wr_u16 buf k v = Some buf'"
  shows "rd_u16 buf' j = (if j = k then Some v else rd_u16 buf j)"
proof -
  have l: "length buf' = length buf" and k: "2 * k + 1 < length buf"
    using assms by (auto simp: wr_u16_def wr_all_def split: if_splits)
  have nth: "buf' ! i = (if i = 2 * k then lo_byte v else if i = 2 * k + 1 then hi_byte v else buf ! i)" for i
    using wr_all_nth [OF assms [unfolded wr_u16_def], of i] by (auto simp: nth_Cons' split: if_splits)
  show ?thesis
  proof (cases "j = k")
    case True
    then show ?thesis using k by (simp add: rd_u16_in l nth)
  next
    case False
    then have "buf' ! (2 * j) = buf ! (2 * j)" "buf' ! (2 * j + 1) = buf ! (2 * j + 1)"
      by (auto simp: nth)
    then show ?thesis using False by (simp add: rd_u16_def rd_def l)
  qed
qed

text \<open>The map buffer after \<open>get_map_buf\<close> holds the registers.\<close>

definition holds :: "u8 list \<Rightarrow> u16 list \<Rightarrow> bool" where
  "holds buf rs \<longleftrightarrow> length buf = 253 \<and> (\<forall>k < length rs. rd_u16 buf k = Some (rs ! k))"

lemma map_out_spec:
  assumes "n \<le> length mb" "2 * n \<le> length buf"
  shows "\<exists>buf'. map_out mb buf n = Some buf' \<and> length buf' = length buf \<and> (\<forall>k < n. rd_u16 buf' k = Some (mb ! k))"
  using assms
proof (induction n)
  case (Suc n)
  then obtain b where b: "map_out mb buf n = Some b" "length b = length buf" "\<forall>k < n. rd_u16 b k = Some (mb ! k)"
    by auto
  obtain b' where b': "wr_u16 b n (mb ! n) = Some b'" using wr_u16_in [of n b "mb ! n"] b Suc.prems by auto
  show ?case
    using b b' Suc.prems rd_u16_wr_u16 [OF b'] wr_u16_length [OF b'] by (auto simp: less_Suc_eq)
qed simp

lemma get_map_buf_holds:
  "length mb = 30 \<Longrightarrow> \<exists>buf. get_map_buf mb (replicate 253 0) = Some buf \<and> holds buf mb"
  using map_out_spec [of 30 mb "replicate 253 0"] by (auto simp: get_map_buf_def holds_def)

lemma register_set_spec:
  "base + 2 * i + 1 < length sb \<Longrightarrow> agile_modbus_slave_register_set sb base i v =
    Some (take (base + 2 * i) sb @ [hi_byte v, lo_byte v] @ drop (base + 2 * i + 2) sb)"
  by (simp add: agile_modbus_slave_register_set_def mult.commute upd_conv_take_nth_drop drop_update_swap take_update_swap
      nth_append Suc_diff_le min_def)

lemma put_registers_spec:
  assumes "base + 2 * (i + n) \<le> length sb" "holds buf rs" "index + n \<le> length rs"
  shows "put_registers sb base i buf index n =
    Some (take (base + 2 * i) sb @ be_regs (take n (drop index rs)) @ drop (base + 2 * (i + n)) sb)"
  using assms
proof (induction n)
  case (Suc n)
  let ?sb = "take (base + 2 * i) sb @ be_regs (take n (drop index rs)) @ drop (base + 2 * (i + n)) sb"
  have l: "length (be_regs (take n (drop index rs))) = 2 * n" using Suc.prems(3) by simp
  have v: "rd_u16 buf (index + n) = Some (rs ! (index + n))" using Suc.prems by (simp add: holds_def)
  have t: "take (Suc n) (drop index rs) = take n (drop index rs) @ [rs ! (index + n)]"
    using Suc.prems(3) by (simp add: take_Suc_conv_app_nth)
  have "agile_modbus_slave_register_set ?sb base (i + n) (rs ! (index + n)) =
     Some (take (base + 2 * (i + n)) ?sb @ [hi_byte (rs ! (index + n)), lo_byte (rs ! (index + n))] @
           drop (base + 2 * (i + n) + 2) ?sb)"
    using Suc.prems(1) l by (intro register_set_spec) simp
  also have "take (base + 2 * (i + n)) ?sb = take (base + 2 * i) sb @ be_regs (take n (drop index rs))"
    using Suc.prems(1) l by simp
  also have "drop (base + 2 * (i + n) + 2) ?sb = drop (base + 2 * (i + Suc n)) sb"
    using Suc.prems(1) l by (simp add: algebra_simps)
  finally show ?case
    using Suc v unfolding t by (simp add: be_regs_def)
qed (simp add: be_regs_def)


section \<open>The register map\<close>

lemma get_map_register_maps:
  "get_map_by_addr register_maps a =
    (if 0 \<le> a \<and> a \<le> 21 then
       Some \<lparr>start_addr = 0x0, end_addr = 0x15, map_get = Some get_map_buf, map_set = Some set_map_buf\<rparr> else None)"
  by (simp add: register_maps_def)

lemma read_loop_skip:
  "22 \<le> now \<Longrightarrow> read_loop register_maps b si stop s now i sb = Some sb"
proof (induction "nat (stop - now)" arbitrary: now i rule: less_induct)
  case less
  then show ?case by (subst read_loop.simps) (simp add: get_map_register_maps)
qed

lemma write_loop_skip:
  "22 \<le> now \<Longrightarrow> write_loop register_maps src req stop s now i = Some (s, 0)"
proof (induction "nat (stop - now)" arbitrary: now i rule: less_induct)
  case less
  then show ?case by (subst write_loop.simps) (simp add: get_map_register_maps)
qed

text \<open>What a read of \<open>n\<close> registers from address \<open>a\<close> shows: registers 0 to 21, zeros beyond.\<close>

definition reg_values :: "u16 list \<Rightarrow> nat \<Rightarrow> nat \<Rightarrow> u16 list" where
  "reg_values mb a n = map (\<lambda>k. if k \<le> 21 then mb ! k else 0) [a..<a + n]"

lemma length_reg_values [simp]: "length (reg_values mb a n) = n"
  by (simp add: reg_values_def)

lemma reg_values_split:
  assumes "length mb = 30"
  shows "reg_values mb a n = take (min n (22 - a)) (drop a mb) @ replicate (n - (22 - a)) 0"
  using assms by (intro nth_equalityI) (auto simp: reg_values_def nth_append min_def)

lemma be_regs_append [simp]: "be_regs (xs @ ys) = be_regs xs @ be_regs ys"
  by (simp add: be_regs_def)

lemma be_regs_replicate_0 [simp]: "be_regs (replicate n 0) = replicate (2 * n) 0"
  by (induction n) (simp_all add: be_regs_def hi_byte_def lo_byte_def)

lemma read_loop_registers:
  assumes mb: "length mb = 30" and stop: "stop = int (a + n)" and si: "length pre = si"
  shows "read_loop register_maps False si stop mb (int a) 0 (pre @ replicate (2 * n) 0 @ post) =
    Some (pre @ be_regs (reg_values mb a n) @ post)"
proof -
  let ?sb = "pre @ replicate (2 * n) 0 @ post" and ?m = "min n (22 - a)"
  show ?thesis
  proof (cases "a \<le> 21 \<and> 0 < n")
    case True
    obtain buf where buf: "get_map_buf mb (replicate 253 0) = Some buf" "holds buf mb"
      using get_map_buf_holds [OF mb] by blast
    have m: "nat (min (stop - int a) (21 - int a + 1)) = ?m" using True by (simp add: stop)
    have "a + ?m \<le> length mb" "?m \<le> n" using True mb by auto
    then have put: "put_registers ?sb si 0 buf a ?m =
        Some (pre @ be_regs (take ?m (drop a mb)) @ replicate (2 * n - 2 * ?m) 0 @ post)"
      using put_registers_spec [of si 0 ?m ?sb buf mb a] buf si by simp
    have "2 * n - 2 * ?m = 2 * (n - (22 - a))" by auto
    then show ?thesis
      using True m put buf(1)
      by (subst read_loop.simps)
        (simp add: get_map_register_maps fresh_map_buf_def read_loop_skip reg_values_split [OF mb] stop)
  next
    case False
    have "reg_values mb a n = replicate n 0"
      using False by (intro nth_equalityI) (auto simp: reg_values_def)
    then show ?thesis
      using False by (cases "n = 0") (simp_all add: read_loop_skip, subst read_loop.simps, simp add: stop be_regs_def)
  qed
qed

text \<open>Replacing registers from an index on.\<close>

definition splice :: "'a list \<Rightarrow> nat \<Rightarrow> 'a list \<Rightarrow> 'a list" where
  "splice xs i vs = take i xs @ vs @ drop (i + length vs) xs"

lemma length_splice [simp]: "i + length vs \<le> length xs \<Longrightarrow> length (splice xs i vs) = length xs"
  by (simp add: splice_def)

lemma splice_nth:
  "i + length vs \<le> length xs \<Longrightarrow> k < length xs \<Longrightarrow>
   splice xs i vs ! k = (if i \<le> k \<and> k < i + length vs then vs ! (k - i) else xs ! k)"
  by (auto simp: splice_def nth_append min_def)

lemma splice_Nil [simp]: "splice xs i [] = xs"
  by (simp add: splice_def)

lemma splice_snoc:
  assumes "i + length vs < length xs"
  shows "(splice xs i vs)[i + length vs := v] = splice xs i (vs @ [v])"
  using assms by (intro nth_equalityI) (auto simp: splice_nth nth_list_update nth_append)

lemma wr_u16_holds:
  assumes "holds buf rs" "k < length rs" "2 * length rs \<le> 253"
  shows "\<exists>buf'. wr_u16 buf k v = Some buf' \<and> holds buf' (rs[k := v])"
proof -
  obtain buf' where b: "wr_u16 buf k v = Some buf'"
    using wr_u16_in [of k buf v] assms by (auto simp: holds_def)
  then show ?thesis
    using assms wr_u16_length [OF b] rd_u16_wr_u16 [OF b] by (auto simp: holds_def nth_list_update)
qed

lemma take_registers_spec:
  assumes "holds buf rs" "index + n \<le> length rs" "2 * length rs \<le> 253"
    "\<forall>j < n. agile_modbus_slave_register_get req pos (i + j) = Some (vs ! j)" "length vs = n"
  shows "\<exists>buf'. take_registers buf index req pos i n = Some buf' \<and> holds buf' (splice rs index vs)"
  using assms(2,4,5)
proof (induction n arbitrary: vs)
  case 0
  then show ?case using assms(1) by simp
next
  case (Suc n)
  then obtain us v where vs: "vs = us @ [v]" "length us = n" by (metis length_Suc_conv_rev)
  have "\<forall>j < n. agile_modbus_slave_register_get req pos (i + j) = Some (us ! j)"
    using Suc.prems(2) vs by (auto simp: nth_append dest: spec)
  then obtain buf1 where b1: "take_registers buf index req pos i n = Some buf1" "holds buf1 (splice rs index us)"
    using Suc.IH [of us] Suc.prems vs by auto
  have v: "agile_modbus_slave_register_get req pos (i + n) = Some v"
    using Suc.prems(2) vs by (auto simp: nth_append)
  obtain buf' where "wr_u16 buf1 (index + n) v = Some buf'" "holds buf' ((splice rs index us)[index + n := v])"
    using wr_u16_holds [OF b1(2), of "index + n" v] Suc.prems(1) vs assms(3) by auto
  then show ?case
    using b1 v splice_snoc [of index us rs v] Suc.prems(1) vs by auto
qed

lemma map_in_spec:
  assumes "holds buf rs" "index + n \<le> length mb" "length rs = length mb"
  shows "map_in mb buf index n = Some (splice mb index (take n (drop index rs)))"
  using assms(2)
proof (induction n)
  case (Suc n)
  have "take (Suc n) (drop index rs) = take n (drop index rs) @ [rs ! (index + n)]"
    using Suc.prems assms(3) by (simp add: take_Suc_conv_app_nth)
  moreover have "rd_u16 buf (index + n) = Some (rs ! (index + n))" using assms Suc.prems by (simp add: holds_def)
  moreover have "length (take n (drop index rs)) = n" using Suc.prems assms(3) by simp
  ultimately show ?case
    using Suc splice_snoc [of index "take n (drop index rs)" mb "rs ! (index + n)"] by simp
qed simp

lemma set_map_buf_splice:
  assumes "holds buf (splice mb index vs)" "index + length vs \<le> length mb" "length vs = n"
  shows "set_map_buf mb index n buf = Some (splice mb index vs, 0)"
proof -
  have "take n (drop index (splice mb index vs)) = vs" using assms(2,3) by (simp add: splice_def)
  then show ?thesis using map_in_spec [OF assms(1), of index n mb] assms(2,3) by (simp add: set_map_buf_def)
qed

text \<open>What a write of registers from address \<open>a\<close> stores: values for addresses above 21 are dropped.\<close>

definition write_values :: "u16 list \<Rightarrow> nat \<Rightarrow> u16 list \<Rightarrow> u16 list" where
  "write_values mb a vs = (if a \<le> 21 then splice mb a (take (22 - a) vs) else mb)"

lemma length_write_values [simp]: "length mb = 30 \<Longrightarrow> length (write_values mb a vs) = 30"
  by (simp add: write_values_def)

lemma write_loop_registers:
  assumes mb: "length mb = 30" and fill: "\<And>buf. holds buf mb \<Longrightarrow> a \<le> 21 \<Longrightarrow>
      \<exists>buf'. fill_map_buf src req a 0 (min (length vs) (22 - a)) buf = Some buf' \<and>
        holds buf' (splice mb a (take (22 - a) vs))"
    and vs: "0 < length vs"
  shows "write_loop register_maps src req (int (a + length vs)) mb (int a) 0 = Some (write_values mb a vs, 0)"
proof (cases "a \<le> 21")
  case True
  let ?m = "min (length vs) (22 - a)"
  obtain buf where buf: "get_map_buf mb (replicate 253 0) = Some buf" "holds buf mb"
    using get_map_buf_holds [OF mb] by blast
  obtain buf' where buf': "fill_map_buf src req a 0 ?m buf = Some buf'" "holds buf' (splice mb a (take (22 - a) vs))"
    using fill [OF buf(2) True] by blast
  have m: "nat (min (int (a + length vs) - int a) (21 - int a + 1)) = ?m" using True by simp
  have "set_map_buf mb a ?m buf' = Some (splice mb a (take (22 - a) vs), 0)"
    using buf'(2) True mb by (intro set_map_buf_splice) auto
  then show ?thesis
    using True m buf(1) buf'(1) vs
    by (subst write_loop.simps)
      (simp add: get_map_register_maps fresh_map_buf_def write_loop_skip write_values_def)
next
  case False
  then show ?thesis by (simp add: write_loop_skip write_values_def)
qed

lemma write_many:
  assumes "length mb = 30" "0 < length vs" "pos + 2 * length vs \<le> length req"
    "take (2 * length vs) (drop pos req) = be_regs vs"
  shows "write_loop register_maps (Many_registers pos) req (int (a + length vs)) mb (int a) 0 =
    Some (write_values mb a vs, 0)"
proof (rule write_loop_registers [OF assms(1) _ assms(2)])
  fix buf assume buf: "holds buf mb" and a: "a \<le> 21"
  have get: "agile_modbus_slave_register_get req pos j = Some (vs ! j)" if "j < length vs" for j
  proof -
    have n: "be_regs vs ! k = req ! (pos + k)" if "k < 2 * length vs" for k
      using that assms(3) unfolding assms(4) [symmetric] by simp
    have r: "be_regs vs ! (2 * j) = hi_byte (vs ! j) \<and> be_regs vs ! (2 * j + 1) = lo_byte (vs ! j)"
      using that
    proof (induction vs arbitrary: j)
      case (Cons v vs)
      then show ?case by (cases j) (auto simp: be_regs_def)
    qed simp
    show ?thesis
      using that n [of "2 * j"] n [of "2 * j + 1"] r assms(3)
      by (simp add: agile_modbus_slave_register_get_def mult.commute)
  qed
  show "\<exists>buf'. fill_map_buf (Many_registers pos) req a 0 (min (length vs) (22 - a)) buf = Some buf' \<and>
      holds buf' (splice mb a (take (22 - a) vs))"
    using get a assms(1) by (simp add: fill_map_buf_def) (intro take_registers_spec [OF buf]; auto)
qed

lemma write_single:
  assumes "length mb = 30"
  shows "write_loop register_maps (Single_register d) req (int (a + 1)) mb (int a) 0 =
    Some (write_values mb a [of_int d], 0)"
proof -
  have "\<exists>buf'. fill_map_buf (Single_register d) req a 0 (min (length [of_int d :: u16]) (22 - a)) buf = Some buf' \<and>
      holds buf' (splice mb a (take (22 - a) [of_int d]))" if "holds buf mb" "a \<le> 21" for buf
    using wr_u16_holds [OF that(1), of a "of_int d"] splice_snoc [of a "[]" mb "of_int d"] assms that(2)
    by (simp add: fill_map_buf_def)
  from write_loop_registers [OF assms this] show ?thesis by simp
qed

section \<open>Requests and answers\<close>

lemma replicate_drop_0 [simp]: "drop n (replicate m x) = replicate (m - n) x"
  by (simp add: drop_replicate)

text \<open>The handler on a whole frame with the bytes \<open>b\<close>: the switch, the call-back and the closing CRC.\<close>

definition fresh_job :: "agile_modbus \<Rightarrow> u8 list \<Rightarrow> slave_job" where
  "fresh_job ctx b = \<lparr>job_rsp = send_buf ctx, job_rsp_length = 0,
     job_info = \<lparr>si_sft = \<lparr>sft_slave = uint (b ! 0), sft_function = uint (b ! 1), sft_t_id = 0\<rparr>, si_rsp_length = 0,
       si_address = be_int (b ! 2) (b ! 3), si_nb = 0, si_buf = Buf_null, si_send_index = 0\<rparr>,
     job_exception = 0, job_cb = True\<rparr>"

definition finish :: "u8 \<Rightarrow> 's \<times> agile_modbus \<times> nat \<Rightarrow> ('s \<times> agile_modbus \<times> int option \<times> int) option" where
  "finish sl r = (case r of (s, ctx, rsp_length) \<Rightarrow>
    if rsp_length \<noteq> 0 then
      if backend_is_rtu (backend ctx) \<and> sl = 0 then Some (s, ctx, None, 0)
      else do { (rsp, n) \<leftarrow> send_msg_pre (backend ctx) (send_buf ctx) rsp_length;
                Some (s, ctx\<lparr>send_buf := rsp\<rparr>, None, int n) }
    else Some (s, ctx, None, 0))"

definition cleared :: "agile_modbus \<Rightarrow> agile_modbus" where
  "cleared ctx = ctx\<lparr>send_buf := replicate (length (send_buf ctx)) 0\<rparr>"

lemma cleared_simps [simp]:
  "read_buf (cleared ctx) = read_buf ctx" "send_buf (cleared ctx) = replicate (length (send_buf ctx)) 0"
  "slave (cleared ctx) = slave ctx" "backend (cleared ctx) = backend ctx" "send_bufsz (cleared ctx) = send_bufsz ctx"
  "modbus_ok ctx \<Longrightarrow> modbus_ok (cleared ctx)"
  by (auto simp: cleared_def modbus_ok_def)

lemma slave_handle_frame:
  assumes ok: "modbus_ok srv" and sz: "8 \<le> length (send_buf srv)"
    and judge: "agile_modbus_receive_judge srv m AGILE_MODBUS_MSG_INDICATION = Some (int k + 2)"
    and b: "4 \<le> length (read_buf srv)"
  shows "agile_modbus_slave_handle srv m 0 cb s None =
    do {
      j \<leftarrow> slave_switch (cleared srv) (uint (read_buf srv ! 1)) (int k) (cb \<noteq> None)
             (fresh_job (cleared srv) (read_buf srv));
      r \<leftarrow> run_callback cb s (cleared srv) j;
      finish (read_buf srv ! 0) r
    }"
proof -
  have e: "read_buf srv ! Suc (Suc 0) = read_buf srv ! 2" "read_buf srv ! Suc (Suc (Suc 0)) = read_buf srv ! 3"
    by (simp_all add: eval_nat_numeral)
  have r0: "rd (read_buf srv) 0 = Some (read_buf srv ! 0)" using b by (intro rd_in) auto
  show ?thesis
    using b sz
    by (simp add: agile_modbus_slave_handle_def modbus_okD [OF ok] min_req_length_def judge wr_all_0 Let_def
        agile_modbus_rtu_prepare_response_tid_def fresh_job_def e r0 uint_0_iff cleared_def [symmetric] finish_def
        split_def cong: if_cong)
qed


text \<open>Exception answers.\<close>

lemma run_callback_reject:
  assumes "job_exception j = code" "code \<noteq> 0" "length (job_rsp j) = length (send_buf srv)" "3 \<le> length (send_buf srv)"
    "modbus_ok srv"
  shows "run_callback cb s srv j =
    Some (s, srv\<lparr>send_buf := [of_int (sft_slave (si_sft (job_info j))),
      of_int (sft_function (si_sft (job_info j)) + 0x80), of_int code] @ drop 3 (job_rsp j)\<rparr>, 3)"
proof -
  have "drop 2 (job_rsp j) \<noteq> []" using assms by simp
  then obtain x xs where d: "drop 2 (job_rsp j) = x # xs" by (cases "drop 2 (job_rsp j)") auto
  then have "drop 3 (job_rsp j) = xs" by (metis drop_Suc drop_tl list.sel(3) numeral_2_eq_2 numeral_3_eq_3)
  then show ?thesis
    using assms d
    by (simp add: run_callback_def agile_modbus_serialize_response_exception_def modbus_okD [OF assms(5)]
        agile_modbus_rtu_build_response_basis_def wr_all_0 numeral_2_eq_2)
qed

lemma finish_frame:
  assumes "modbus_ok ctx" "send_buf ctx = body @ r" "length body = n" "0 < n" "2 \<le> length r" "sl \<noteq> 0"
  shows "finish sl (s, ctx, n) = Some (s, ctx\<lparr>send_buf := rtu_frame body @ drop 2 r\<rparr>, None, int n + 2)"
proof -
  have "n < 65536" using modbus_okD(4) [OF assms(1)] assms(2,3) by simp
  then show ?thesis
    using assms send_msg_pre_frame [of n body r] by (simp add: finish_def modbus_okD [OF assms(1)])
qed

lemma fresh_job_simps [simp]:
  "job_rsp (fresh_job ctx b) = send_buf ctx" "job_exception (fresh_job ctx b) = 0" "job_cb (fresh_job ctx b)"
  "si_address (job_info (fresh_job ctx b)) = be_int (b ! 2) (b ! 3)"
  "sft_slave (si_sft (job_info (fresh_job ctx b))) = uint (b ! 0)"
  "sft_function (si_sft (job_info (fresh_job ctx b))) = uint (b ! 1)"
  by (simp_all add: fresh_job_def)

lemma be_int_be2: "0 \<le> x \<Longrightarrow> x < 65536 \<Longrightarrow> be_int (of_int (x div 256)) (of_int x) = x"
  by (simp add: be_int_def uint_word_of_int)

lemma be_rd_be2:
  assumes "0 \<le> x" "x < 65536" "buf ! i = of_int (x div 256)" "buf ! (i + 1) = of_int x" "i + 1 < length buf"
  shows "be_rd buf i = Some x"
  using assms be_int_be2 [of x] by (simp add: be_rd_def)

text \<open>The register server on the program's map, serving one frame.\<close>

definition serve :: "u16 list \<Rightarrow> agile_modbus \<Rightarrow> int \<Rightarrow> (u16 list \<times> agile_modbus \<times> int option \<times> int) option" where
  "serve mb srv m = agile_modbus_slave_handle srv m 0 (Some (agile_modbus_slave_util_callback (Some slave_util))) mb None"

text \<open>A server whose receive buffer starts with the frame of a request.\<close>

definition asked :: "agile_modbus \<Rightarrow> int \<Rightarrow> modbus_request \<Rightarrow> bool" where
  "asked srv sl r \<longleftrightarrow> modbus_ok srv \<and> 8 \<le> length (send_buf srv) \<and> request_ok r \<and> 0 < sl \<and> sl < 256 \<and>
     (sl = slave srv \<or> sl = 0xFF) \<and>
     (\<exists>rest. read_buf srv = rtu_frame (of_int sl # request_pdu r) @ rest)"

text \<open>The outcome: new registers, and an answer frame at the start of the send buffer.\<close>

definition answers :: "u16 list \<Rightarrow> agile_modbus \<Rightarrow> int \<Rightarrow> u16 list \<Rightarrow> u8 list \<Rightarrow> bool" where
  "answers mb srv m mb' ans \<longleftrightarrow> (\<exists>sb. serve mb srv m = Some (mb', srv\<lparr>send_buf := sb\<rparr>, None, int (length ans) + 2) \<and>
     length sb = length (send_buf srv) \<and> take (length ans + 2) sb = rtu_frame ans)"

lemma uint_of_int_u8: "0 \<le> x \<Longrightarrow> x < 256 \<Longrightarrow> uint (of_int x :: u8) = x"
  by (simp add: uint_word_of_int)

lemma serve_asked:
  assumes q: "asked srv sl r" and l: "3 \<le> length (request_pdu r)" and m: "m = int (length (request_pdu r)) + 3"
  shows "serve mb srv m =
    do {
      j \<leftarrow> slave_switch (cleared srv) (uint (request_pdu r ! 0)) (int (length (request_pdu r)) + 1) True
             (fresh_job (cleared srv) (of_int sl # request_pdu r));
      x \<leftarrow> run_callback (Some (agile_modbus_slave_util_callback (Some slave_util))) mb (cleared srv) j;
      finish (of_int sl) x
    }"
proof -
  let ?b = "of_int sl # request_pdu r"
  obtain rest where ok: "modbus_ok srv" and sz: "8 \<le> length (send_buf srv)" and r: "request_ok r"
    and b: "read_buf srv = rtu_frame ?b @ rest"
    using q by (auto simp: asked_def)
  have bl: "?b = request_body (srv\<lparr>slave := sl\<rparr>) r" by (simp add: request_body_def)
  have judge: "agile_modbus_receive_judge srv m AGILE_MODBUS_MSG_INDICATION = Some (int (length ?b) + 2)"
    using r b m modbus_okD(3) [OF ok] by (intro request_judged [OF ok r bl]) (simp_all add: b)
  have n: "read_buf srv ! k = ?b ! k" if "k < length ?b" for k
    using that nth_rtu_frame [OF that] by (simp add: b nth_append)
  have ne: "request_pdu r \<noteq> []" using l by auto
  have "fresh_job (cleared srv) (read_buf srv) = fresh_job (cleared srv) ?b"
    using n [of 0] n [of 1] n [of 2] n [of 3] l ne by (simp add: fresh_job_def)
  then show ?thesis
    unfolding serve_def
    using slave_handle_frame [OF ok sz judge, of "Some (agile_modbus_slave_util_callback (Some slave_util))" mb] b n [of 0] n [of 1] l ne by (simp add: add.commute)
qed

text \<open>Rejected requests get an exception answer and change nothing.\<close>

lemma rejected:
  assumes q: "asked srv sl r" and l: "3 \<le> length (request_pdu r)" and m: "m = int (length (request_pdu r)) + 3"
    and j: "slave_switch (cleared srv) (uint (request_pdu r ! 0)) (int (length (request_pdu r)) + 1) True
             (fresh_job (cleared srv) (of_int sl # request_pdu r)) = Some j"
      "job_exception j = code" "code \<noteq> 0" "length (job_rsp j) = length (send_buf srv)"
      "si_sft (job_info j) = si_sft (job_info (fresh_job (cleared srv) (of_int sl # request_pdu r)))"
  shows "answers mb srv m mb [of_int sl, request_pdu r ! 0 + 0x80, of_int code]"
proof -
  let ?ans = "[of_int sl, request_pdu r ! 0 + 0x80, of_int code]"
  have ok: "modbus_ok srv" and sz: "8 \<le> length (send_buf srv)" and sl: "0 < sl" "sl < 256"
    using q by (auto simp: asked_def)
  have s: "(of_int sl :: u8) \<noteq> 0"
    using uint_of_int_u8 [of sl] sl by auto
  have w: "of_int (uint (request_pdu r ! 0) + 0x80) = request_pdu r ! 0 + (0x80 :: u8)" by simp
  have "run_callback (Some (agile_modbus_slave_util_callback (Some slave_util))) mb (cleared srv) j =
      Some (mb, srv\<lparr>send_buf := ?ans @ drop 3 (job_rsp j)\<rparr>, 3)"
    using run_callback_reject [of j code "cleared srv" _ mb] j ok sz sl w cleared_simps(6) [OF ok]
    by (simp add: uint_of_int_u8) (simp add: cleared_def)
  moreover have "modbus_ok (srv\<lparr>send_buf := ?ans @ drop 3 (job_rsp j)\<rparr>)"
    using ok j(4) sz by (auto simp: modbus_ok_def)
  then have "finish (of_int sl) (mb, srv\<lparr>send_buf := ?ans @ drop 3 (job_rsp j)\<rparr>, 3) =
      Some (mb, srv\<lparr>send_buf := rtu_frame ?ans @ drop 2 (drop 3 (job_rsp j))\<rparr>, None, 5)"
    using s j(4) sz by (subst finish_frame [of _ ?ans "drop 3 (job_rsp j)"]) simp_all
  ultimately have "serve mb srv m =
      Some (mb, srv\<lparr>send_buf := rtu_frame ?ans @ drop 2 (drop 3 (job_rsp j))\<rparr>, None, 5)"
    using serve_asked [OF q l m] j(1) by simp
  then show ?thesis
    using j(4) sz by (auto simp: answers_def intro!: exI [of _ "rtu_frame ?ans @ drop 2 (drop 3 (job_rsp j))"])
qed

lemma be_rd_pdu:
  assumes "asked srv sl r" "0 \<le> x" "x < 65536" "i + 1 < length (request_pdu r)"
    "take 2 (drop i (request_pdu r)) = be2 x"
  shows "be_rd (read_buf srv) (i + 1) = Some x"
proof -
  obtain rest where b: "read_buf srv = rtu_frame (of_int sl # request_pdu r) @ rest"
    using assms(1) by (auto simp: asked_def)
  have n: "read_buf srv ! (k + 1) = request_pdu r ! k" if "k < length (request_pdu r)" for k
    using that nth_rtu_frame [of "k + 1" "of_int sl # request_pdu r"] by (simp add: b nth_append)
  have "request_pdu r ! (i + k) = be2 x ! k" if "k < 2" for k
    unfolding assms(5) [symmetric] using that assms(4) by simp
  from this [of 0] this [of 1] show ?thesis
    using n [of i] n [of "i + 1"] assms(2-4) by (intro be_rd_be2) (simp_all add: be2_def b)
qed

lemma asked_address:
  assumes "asked srv sl r" "request_pdu r = f # be2 (int a) @ ps" "a < 65536"
  shows "be_int ((of_int sl # request_pdu r) ! 2) ((of_int sl # request_pdu r) ! 3) = int a"
  using assms be_int_be2 [of "int a"] by (simp add: be2_def numeral_2_eq_2 numeral_3_eq_3)

lemma finish_answers:
  assumes q: "asked srv sl r" and l: "3 \<le> length (request_pdu r)" and m: "m = int (length (request_pdu r)) + 3"
    and j: "slave_switch (cleared srv) (uint (request_pdu r ! 0)) (int (length (request_pdu r)) + 1) True
             (fresh_job (cleared srv) (of_int sl # request_pdu r)) = Some j"
    and c: "run_callback (Some (agile_modbus_slave_util_callback (Some slave_util))) mb (cleared srv) j =
      Some (mb', srv\<lparr>send_buf := ans @ rest\<rparr>, length ans)"
    and r: "length ans + length rest = length (send_buf srv)" "2 \<le> length rest" "ans \<noteq> []"
  shows "answers mb srv m mb' ans"
proof -
  have ok: "modbus_ok (srv\<lparr>send_buf := ans @ rest\<rparr>)" and sl: "0 < sl" "sl < 256"
    using q r by (auto simp: asked_def modbus_ok_def)
  have s: "(of_int sl :: u8) \<noteq> 0" using uint_of_int_u8 [of sl] sl by auto
  have "finish (of_int sl) (mb', srv\<lparr>send_buf := ans @ rest\<rparr>, length ans) =
      Some (mb', srv\<lparr>send_buf := rtu_frame ans @ drop 2 rest\<rparr>, None, int (length ans) + 2)"
    using s r by (subst finish_frame [OF ok, of ans rest]) simp_all
  then have "serve mb srv m = Some (mb', srv\<lparr>send_buf := rtu_frame ans @ drop 2 rest\<rparr>, None, int (length ans) + 2)"
    using serve_asked [OF q l m] j c by simp
  then show ?thesis using r by (auto simp: answers_def)
qed

lemma addr_check_ok:
  "asked srv sl r \<Longrightarrow> sft_slave (si_sft info) = sl \<Longrightarrow> addr_check (srv\<lparr>send_buf := sb\<rparr>) info = 0"
  by (auto simp: addr_check_def asked_def)

lemma slave_util_simps [simp]:
  "tab_bits slave_util = None" "tab_input_bits slave_util = None" "tab_registers slave_util = Some register_maps"
  "tab_input_registers slave_util = None" "util_addr_check slave_util = Some addr_check"
  "special_function slave_util = None" "util_done slave_util = None"
  by (simp_all add: slave_util_def)

text \<open>Reading holding registers.\<close>

definition read_answer :: "u16 list \<Rightarrow> agile_modbus \<Rightarrow> int \<Rightarrow> nat \<Rightarrow> nat \<Rightarrow> u8 list" where
  "read_answer mb srv sl a n =
    (if n = 0 then [of_int sl, 0x83, 3]
     else if a + n > 65536 then [of_int sl, 0x83, 2]
     else if 2 * n + 5 > length (send_buf srv) then [of_int sl, 0x83, 7]
     else of_int sl # 3 # of_nat (2 * n) # be_regs (reg_values mb a n))"

lemma wr_2: "wr (x # y # z # zs) 2 v = Some (x # y # v # zs)"
  by (simp add: wr_def numeral_2_eq_2)

lemma read_answers:
  assumes q: "asked srv sl (Read_Registers (int a) n)" and mb: "length mb = 30" and a: "a < 65536"
  shows "answers mb srv 8 mb (read_answer mb srv sl a n)"
proof -
  let ?r = "Read_Registers (int a) n" and ?len = "length (send_buf srv)"
  define j0 where "j0 = fresh_job (cleared srv) (of_int sl # request_pdu ?r)"
  have ok: "modbus_ok srv" and sz: "8 \<le> ?len" and n: "n \<le> 125" and sl: "0 < sl" "sl < 256"
    using q by (auto simp: asked_def)
  note ctx = modbus_okD [OF ok]
  define zs where "zs = replicate (?len - 3) (0 :: u8)"
  have z: "replicate ?len (0 :: u8) = 0 # 0 # 0 # zs"
    using sz by (simp add: zs_def numeral_3_eq_3 flip: replicate_Suc)
  have nb: "be_rd (read_buf srv) 4 = Some (int n)"
    using be_rd_pdu [OF q, of "int n" 3] n by (simp add: be2_def)
  have j0: "job_rsp j0 = 0 # 0 # 0 # zs" "si_address (job_info j0) = int a" "job_exception j0 = 0" "job_cb j0"
    "sft_slave (si_sft (job_info j0)) = sl" "sft_function (si_sft (job_info j0)) = 3"
    using asked_address [OF q _ a] sl z by (simp_all add: j0_def uint_of_int_u8)
  have sw: "slave_switch (cleared srv) (uint (request_pdu ?r ! 0)) (int (length (request_pdu ?r)) + 1) True j0 =
      handle_read_registers (cleared srv) j0" by (simp add: slave_switch_def)
  define j1 where "j1 = j0\<lparr>job_rsp := of_int sl # 3 # of_nat (2 * n) # zs, job_rsp_length := 3 + 2 * n,
      job_info := (job_info j0)\<lparr>si_send_index := 3, si_nb := int n\<rparr>\<rparr>"
  have h: "handle_read_registers (cleared srv) j0 =
      (if n = 0 then Some (j0\<lparr>job_exception := 3\<rparr>)
       else if a + n > 65536 then Some (j0\<lparr>job_exception := 2\<rparr>)
       else if 2 * n + 5 > ?len then Some (j1\<lparr>job_exception := 7\<rparr>) else Some j1)"
    using n sz
    by (simp add: handle_read_registers_def Let_def ctx nb j0 reject_def agile_modbus_rtu_build_response_basis_def wr_all_0
        no_room_def j1_def wr_2 nat_mult_distrib mult.commute add.commute)
  have len: "3 \<le> length (request_pdu ?r)" and m: "8 = int (length (request_pdu ?r)) + 3" by simp_all
  have rej: "answers mb srv 8 mb [of_int sl, 0x83, of_int code]"
    if "handle_read_registers (cleared srv) j0 = Some j" "job_exception j = code" "code \<noteq> 0"
      "length (job_rsp j) = ?len" "si_sft (job_info j) = si_sft (job_info j0)" for j code
    using rejected [OF q len m, of j code mb] that sw unfolding j0_def by simp
  have j01: "length (job_rsp j0) = ?len" "length (job_rsp j1) = ?len" "si_sft (job_info j1) = si_sft (job_info j0)"
    using sz by (simp_all add: j1_def j0 zs_def)
  show ?thesis
  proof (cases "n = 0 \<or> a + n > 65536 \<or> 2 * n + 5 > ?len")
    case True
    then show ?thesis
      using h rej [of "j0\<lparr>job_exception := 3\<rparr>" 3] rej [of "j0\<lparr>job_exception := 2\<rparr>" 2]
        rej [of "j1\<lparr>job_exception := 7\<rparr>" 7] j01
      by (auto simp: read_answer_def split: if_splits)
  next
    case False
    let ?pre = "of_int sl # 3 # [of_nat (2 * n)] :: u8 list" and ?post = "replicate (?len - (3 + 2 * n)) (0 :: u8)"
    have buf: "job_rsp j1 = ?pre @ replicate (2 * n) 0 @ ?post"
      using False by (simp add: j1_def zs_def flip: replicate_add)
    have loop: "read_loop register_maps False 3 (int (a + n)) mb (int a) 0 (job_rsp j1) =
        Some (?pre @ be_regs (reg_values mb a n) @ ?post)"
      unfolding buf by (rule read_loop_registers [OF mb]) simp_all
    have cb: "run_callback (Some (agile_modbus_slave_util_callback (Some slave_util))) mb (cleared srv) j1 =
      Some (mb, srv\<lparr>send_buf := (?pre @ be_regs (reg_values mb a n)) @ ?post\<rparr>,
            length (?pre @ be_regs (reg_values mb a n)))"
      using loop addr_check_ok [OF q] j0
      by (simp add: run_callback_def j1_def agile_modbus_slave_util_callback_def read_registers_def cleared_def Let_def)
    have "answers mb srv 8 mb (?pre @ be_regs (reg_values mb a n))"
    proof (rule finish_answers [OF q len m _ cb])
      show "slave_switch (cleared srv) (uint (request_pdu ?r ! 0)) (int (length (request_pdu ?r)) + 1) True
          (fresh_job (cleared srv) (of_int sl # request_pdu ?r)) = Some j1"
        unfolding j0_def [symmetric] sw using False h by simp
    qed (use False in auto)
    then show ?thesis using False by (simp add: read_answer_def)
  qed
qed

text \<open>Writing holding registers.\<close>

lemma read_buf_asked:
  assumes "asked srv sl r"
  shows "take (length (request_pdu r) + 1) (read_buf srv) = of_int sl # request_pdu r"
    and "k < length (request_pdu r) \<Longrightarrow> read_buf srv ! Suc k = request_pdu r ! k"
    and "length (request_pdu r) + 3 \<le> length (read_buf srv)"
proof -
  obtain rest where b: "read_buf srv = rtu_frame (of_int sl # request_pdu r) @ rest"
    using assms by (auto simp: asked_def)
  show "take (length (request_pdu r) + 1) (read_buf srv) = of_int sl # request_pdu r"
    "length (request_pdu r) + 3 \<le> length (read_buf srv)" by (simp_all add: b rtu_frame_def)
  show "read_buf srv ! Suc k = request_pdu r ! k" if "k < length (request_pdu r)"
    using that nth_rtu_frame [of "Suc k" "of_int sl # request_pdu r"] by (simp add: b nth_append)
qed

definition write_answer :: "int \<Rightarrow> nat \<Rightarrow> nat \<Rightarrow> u8 list" where
  "write_answer sl a n =
    (if n = 0 then [of_int sl, 0x90, 3]
     else if a + n > 65536 then [of_int sl, 0x90, 2]
     else of_int sl # 16 # be2 (int a) @ be2 (int n))"

lemma write_answers:
  assumes q: "asked srv sl (Write_Registers (int a) src)" and mb: "length mb = 30" and a: "a < 65536"
    and m: "m = int (2 * length src) + 9"
  shows "answers mb srv m (if a + length src \<le> 65536 then write_values mb a src else mb) (write_answer sl a (length src))"
proof -
  let ?r = "Write_Registers (int a) src" and ?len = "length (send_buf srv)" and ?n = "length src"
  define j0 where "j0 = fresh_job (cleared srv) (of_int sl # request_pdu ?r)"
  have ok: "modbus_ok srv" and sz: "8 \<le> ?len" and n: "?n \<le> 123" and sl: "0 < sl" "sl < 256"
    using q by (auto simp: asked_def)
  note ctx = modbus_okD [OF ok]
  define zs where "zs = replicate (?len - 6) (0 :: u8)"
  have z: "replicate ?len (0 :: u8) = 0 # 0 # 0 # 0 # 0 # 0 # zs"
    using sz by (simp add: zs_def eval_nat_numeral flip: replicate_Suc)
  have rb: "take 7 (read_buf srv) = of_int sl # 16 # be2 (int a) @ be2 (int ?n) @ [of_nat (2 * ?n)]"
  proof -
    have "take 7 (take (length (request_pdu ?r) + 1) (read_buf srv)) = take 7 (of_int sl # request_pdu ?r)"
      by (simp only: read_buf_asked(1) [OF q])
    then show ?thesis by (simp add: min_def)
  qed
  have four: "rd_seg (read_buf srv) 2 4 = Some (be2 (int a) @ be2 (int ?n))"
  proof -
    have "take 4 (drop 2 (read_buf srv)) = take 4 (drop 2 (take 7 (read_buf srv)))" by (simp add: drop_take)
    then show ?thesis
      using read_buf_asked(3) [OF q] unfolding rb by (simp add: rd_seg_def be2_def)
  qed
  have nb: "be_rd (read_buf srv) 4 = Some (int ?n)"
    using be_rd_pdu [OF q, of "int ?n" 3] n by (simp add: be2_def)
  have cnt: "rd (read_buf srv) 6 = Some (of_nat (2 * ?n))"
    using read_buf_asked(2) [OF q, of 5] read_buf_asked(3) [OF q] by (simp add: be2_def)
  have j0: "job_rsp j0 = 0 # 0 # 0 # 0 # 0 # 0 # zs" "si_address (job_info j0) = int a" "job_exception j0 = 0" "job_cb j0"
    "sft_slave (si_sft (job_info j0)) = sl" "sft_function (si_sft (job_info j0)) = 16"
    using asked_address [OF q _ a] sl z by (simp_all add: j0_def uint_of_int_u8)
  have sw: "slave_switch (cleared srv) (uint (request_pdu ?r ! 0)) (int (length (request_pdu ?r)) + 1) True j0 =
      handle_write_registers (cleared srv) j0" by (simp add: slave_switch_def)
  define j1 where "j1 = j0\<lparr>job_rsp := (of_int sl # 16 # be2 (int a) @ be2 (int ?n)) @ zs, job_rsp_length := 6,
      job_info := (job_info j0)\<lparr>si_nb := int ?n, si_buf := Buf_req 7\<rparr>\<rparr>"
  have w: "wr_all (of_int sl # 16 # 0 # 0 # 0 # 0 # zs) 2 (be2 (int a) @ be2 (int ?n)) =
      Some (of_int sl # 16 # be2 (int a) @ be2 (int ?n) @ zs)"
    by (simp add: wr_all_def be2_def numeral_2_eq_2)
  have u: "uint (of_nat (2 * ?n) :: u8) = int ?n * 2"
    using n unat_of_nat_u8 [of "2 * ?n"] by (simp only: uint_nat)
  have h: "handle_write_registers (cleared srv) j0 =
      (if ?n = 0 then Some (j0\<lparr>job_exception := 3\<rparr>)
       else if a + ?n > 65536 then Some (j0\<lparr>job_exception := 2\<rparr>) else Some j1)"
    using n sz u
    by (simp add: handle_write_registers_def answer_multiple_def Let_def ctx nb cnt four j0 reject_def
        agile_modbus_rtu_build_response_basis_def wr_all_0 no_room_def j1_def w del: of_nat_mult)
  have len: "3 \<le> length (request_pdu ?r)" and m': "m = int (length (request_pdu ?r)) + 3" using m by simp_all
  have rej: "answers mb srv m mb [of_int sl, 0x90, of_int code]"
    if "handle_write_registers (cleared srv) j0 = Some (j0\<lparr>job_exception := code\<rparr>)" "code \<noteq> 0" for code
    using rejected [OF q len m', of "j0\<lparr>job_exception := code\<rparr>" code mb] that sw sz j0(1) unfolding j0_def
    by (simp add: zs_def)
  show ?thesis
  proof (cases "?n = 0 \<or> a + ?n > 65536")
    case True
    then show ?thesis
      using h rej [of 3] rej [of 2] mb by (auto simp: write_answer_def write_values_def split: if_splits)
  next
    case False
    have d: "take (2 * ?n) (drop 7 (read_buf srv)) = be_regs src"
    proof (rule nth_equalityI)
      fix k assume "k < length (take (2 * ?n) (drop 7 (read_buf srv)))"
      then have k: "k < 2 * ?n" "7 + k < length (read_buf srv)" by auto
      then show "take (2 * ?n) (drop 7 (read_buf srv)) ! k = be_regs src ! k"
        using read_buf_asked(2) [OF q, of "6 + k"] by (simp add: be2_def nth_append)
    qed (use read_buf_asked(3) [OF q] in simp)
    have loop: "write_loop register_maps (Many_registers 7) (read_buf srv) (int (a + ?n)) mb (int a) 0 =
        Some (write_values mb a src, 0)"
      using False read_buf_asked(3) [OF q] by (intro write_many [OF mb _ _ d]) auto
    have cb: "run_callback (Some (agile_modbus_slave_util_callback (Some slave_util))) mb (cleared srv) j1 =
      Some (write_values mb a src, srv\<lparr>send_buf := (of_int sl # 16 # be2 (int a) @ be2 (int ?n)) @ zs\<rparr>,
            length (of_int sl # 16 # be2 (int a) @ be2 (int ?n) :: u8 list))"
      using loop addr_check_ok [OF q] j0
      by (simp add: run_callback_def j1_def agile_modbus_slave_util_callback_def write_registers_def cleared_def Let_def)
    have "answers mb srv m (write_values mb a src) (of_int sl # 16 # be2 (int a) @ be2 (int ?n))"
    proof (rule finish_answers [OF q len m' _ cb])
      show "slave_switch (cleared srv) (uint (request_pdu ?r ! 0)) (int (length (request_pdu ?r)) + 1) True
          (fresh_job (cleared srv) (of_int sl # request_pdu ?r)) = Some j1"
        unfolding j0_def [symmetric] sw using False h by simp
    qed (use sz zs_def in auto)
    then show ?thesis using False by (simp add: write_answer_def)
  qed
qed

text \<open>Requests that the server echoes: a single register and a masked write.\<close>

lemma echo_answers:
  assumes q: "asked srv sl r" and l: "3 \<le> length (request_pdu r)" and m: "m = int (length (request_pdu r)) + 3"
    and j0: "j0 = fresh_job (cleared srv) (of_int sl # request_pdu r)"
    and sw: "slave_switch (cleared srv) (uint (request_pdu r ! 0)) (int (length (request_pdu r)) + 1) True j0 =
      echo_request (cleared srv) (int (length (request_pdu r)) + 1) (j0\<lparr>job_info := info\<rparr>)"
    and room: "length (request_pdu r) + 3 \<le> length (send_buf srv)"
    and cb: "\<And>sb. agile_modbus_slave_util_callback (Some slave_util) mb (srv\<lparr>send_buf := sb\<rparr>)
        (info\<lparr>si_rsp_length := length (request_pdu r) + 1\<rparr>) =
      Some (mb', srv\<lparr>send_buf := sb\<rparr>, info\<lparr>si_rsp_length := length (request_pdu r) + 1\<rparr>, 0)"
  shows "answers mb srv m mb' (of_int sl # request_pdu r)"
proof -
  let ?k = "length (request_pdu r) + 1"
  have ok: "modbus_ok srv" using q by (simp add: asked_def)
  note ctx = modbus_okD [OF ok]
  let ?rest = "replicate (length (send_buf srv) - ?k) (0 :: u8)"
  define j1 where "j1 = j0\<lparr>job_info := info, job_rsp_length := ?k, job_rsp := (of_int sl # request_pdu r) @ ?rest\<rparr>"
  have "rd_seg (read_buf srv) 0 ?k = Some (of_int sl # request_pdu r)"
    using read_buf_asked(1,3) [OF q] by (simp add: rd_seg_def)
  then have e: "slave_switch (cleared srv) (uint (request_pdu r ! 0)) (int (length (request_pdu r)) + 1) True j0 = Some j1"
    using room unfolding sw j1_def
    by (simp add: echo_request_def no_room_def ctx j0 wr_all_0 nat_add_distrib Let_def)
  have "run_callback (Some (agile_modbus_slave_util_callback (Some slave_util))) mb (cleared srv) j1 =
      Some (mb', srv\<lparr>send_buf := (of_int sl # request_pdu r) @ ?rest\<rparr>, length (of_int sl # request_pdu r))"
    using cb by (simp add: run_callback_def j1_def j0 cleared_def)
  then show ?thesis
    using e room unfolding j0 by (intro finish_answers [OF q l m]) auto
qed

lemma write_register_answers:
  assumes q: "asked srv sl (Write_Register (int a) v)" and mb: "length mb = 30" and a: "a < 65536"
  shows "answers mb srv 8 (write_values mb a [v]) (of_int sl # request_pdu (Write_Register (int a) v))"
proof -
  let ?r = "Write_Register (int a) v"
  define j0 where "j0 = fresh_job (cleared srv) (of_int sl # request_pdu ?r)"
  have sz: "8 \<le> length (send_buf srv)" and sl: "0 < sl" "sl < 256" using q by (auto simp: asked_def)
  note ctx = modbus_okD [of srv]
  have ok: "modbus_ok srv" using q by (simp add: asked_def)
  have ad: "si_address (job_info j0) = int a" using asked_address [OF q _ a] by (simp add: j0_def)
  have v: "be_rd (read_buf srv) 4 = Some (uint v)"
    using be_rd_pdu [OF q, of "uint v" 3] uint_lt2p [of v] by (simp add: be2_def)
  have f: "sft_slave (si_sft (job_info j0)) = sl" "sft_function (si_sft (job_info j0)) = 6"
    using sl by (simp_all add: j0_def uint_of_int_u8)
  show ?thesis
  proof (rule echo_answers [OF q _ _ j0_def])
    show "slave_switch (cleared srv) (uint (request_pdu ?r ! 0)) (int (length (request_pdu ?r)) + 1) True j0 =
      echo_request (cleared srv) (int (length (request_pdu ?r)) + 1) (j0\<lparr>job_info := (job_info j0)\<lparr>si_buf := Buf_int (uint v)\<rparr>\<rparr>)"
      using a by (simp add: slave_switch_def handle_write_register_def modbus_okD [OF ok] v ad Let_def)
    show "agile_modbus_slave_util_callback (Some slave_util) mb (srv\<lparr>send_buf := sb\<rparr>)
        ((job_info j0)\<lparr>si_buf := Buf_int (uint v)\<rparr>\<lparr>si_rsp_length := length (request_pdu ?r) + 1\<rparr>) =
      Some (write_values mb a [v], srv\<lparr>send_buf := sb\<rparr>,
        (job_info j0)\<lparr>si_buf := Buf_int (uint v)\<rparr>\<lparr>si_rsp_length := length (request_pdu ?r) + 1\<rparr>, 0)" for sb
      using write_single [OF mb, of "uint v" "read_buf srv" a] addr_check_ok [OF q] f ad
      by (simp add: agile_modbus_slave_util_callback_def write_registers_def Let_def add.commute)
  qed (use sz in auto)
qed

definition masked :: "u16 list \<Rightarrow> nat \<Rightarrow> u16 \<Rightarrow> u16 \<Rightarrow> u16 list" where
  "masked mb a x y = (if a \<le> 21 then mb[a := (mb ! a AND x) OR (y AND NOT x)] else mb)"

lemma mask_write_answers:
  assumes q: "asked srv sl (Mask_Write_Register (int a) x y)" and mb: "length mb = 30" and a: "a < 65536"
    and sz: "10 \<le> length (send_buf srv)"
  shows "answers mb srv 10 (masked mb a x y) (of_int sl # request_pdu (Mask_Write_Register (int a) x y))"
proof -
  let ?r = "Mask_Write_Register (int a) x y"
  define j0 where "j0 = fresh_job (cleared srv) (of_int sl # request_pdu ?r)"
  have ok: "modbus_ok srv" and sl: "0 < sl" "sl < 256" using q by (auto simp: asked_def)
  have ad: "si_address (job_info j0) = int a" using asked_address [OF q _ a] by (simp add: j0_def)
  have f: "sft_slave (si_sft (job_info j0)) = sl" "sft_function (si_sft (job_info j0)) = 22"
    using sl by (simp_all add: j0_def uint_of_int_u8)
  have reg: "agile_modbus_slave_register_get (read_buf srv) 4 0 = Some x"
    "agile_modbus_slave_register_get (read_buf srv) 4 1 = Some y"
    using read_buf_asked(2) [OF q, of 3] read_buf_asked(2) [OF q, of 4] read_buf_asked(2) [OF q, of 5]
      read_buf_asked(2) [OF q, of 6] read_buf_asked(3) [OF q]
    by (simp_all add: agile_modbus_slave_register_get_def be2_def be_regs_def)
  have w: "mask_write_register slave_util mb (srv\<lparr>send_buf := sb\<rparr>) info =
      Some (masked mb a x y, srv\<lparr>send_buf := sb\<rparr>, 0)" if "si_address info = int a" "si_buf info = Buf_req 4" for sb info
  proof (cases "a \<le> 21")
    case True
    obtain buf where buf: "get_map_buf mb (replicate 253 0) = Some buf" "holds buf mb"
      using get_map_buf_holds [OF mb] by blast
    let ?v = "(mb ! a AND x) OR (y AND NOT x)"
    obtain buf' where b': "wr_u16 buf a ?v = Some buf'" "holds buf' (mb[a := ?v])"
      using wr_u16_holds [OF buf(2), of a ?v] mb True by auto
    have "set_map_buf mb a 1 buf' = Some (mb[a := ?v], 0)"
      using b'(2) mb True set_map_buf_splice [of buf' mb a "[?v]" 1] splice_snoc [of a "[]" mb ?v] by simp
    then show ?thesis
      using True buf b' mb that reg
      by (simp add: mask_write_register_def get_map_register_maps fresh_map_buf_def masked_def holds_def)
  next
    case False
    then show ?thesis using that by (simp add: mask_write_register_def get_map_register_maps masked_def)
  qed
  show ?thesis
  proof (rule echo_answers [OF q _ _ j0_def])
    show "slave_switch (cleared srv) (uint (request_pdu ?r ! 0)) (int (length (request_pdu ?r)) + 1) True j0 =
      echo_request (cleared srv) (int (length (request_pdu ?r)) + 1) (j0\<lparr>job_info := (job_info j0)\<lparr>si_buf := Buf_req 4\<rparr>\<rparr>)"
      using a by (simp add: slave_switch_def handle_mask_write_def modbus_okD [OF ok] ad Let_def)
    show "agile_modbus_slave_util_callback (Some slave_util) mb (srv\<lparr>send_buf := sb\<rparr>)
        ((job_info j0)\<lparr>si_buf := Buf_req 4\<rparr>\<lparr>si_rsp_length := length (request_pdu ?r) + 1\<rparr>) =
      Some (masked mb a x y, srv\<lparr>send_buf := sb\<rparr>,
        (job_info j0)\<lparr>si_buf := Buf_req 4\<rparr>\<lparr>si_rsp_length := length (request_pdu ?r) + 1\<rparr>, 0)" for sb
      using w [of "(job_info j0)\<lparr>si_buf := Buf_req 4\<rparr>\<lparr>si_rsp_length := length (request_pdu ?r) + 1\<rparr>" sb]
        addr_check_ok [OF q] f ad
      by (simp add: agile_modbus_slave_util_callback_def Let_def)
  qed (use sz in auto)
qed

section \<open>A master and a server on one line\<close>

definition receive :: "u8 list \<Rightarrow> agile_modbus \<Rightarrow> agile_modbus" where
  "receive bytes ctx = ctx\<lparr>read_buf := bytes @ drop (length bytes) (read_buf ctx)\<rparr>"

text \<open>One round: the master sends, the server handles the bytes and answers, the master gets the answer.\<close>

definition exchange ::
  "agile_modbus \<Rightarrow> agile_modbus \<Rightarrow> u16 list \<Rightarrow> modbus_request \<Rightarrow> (agile_modbus \<times> agile_modbus \<times> u16 list \<times> int) option" where
  "exchange master srv mb r =
    do {
      (master, n) \<leftarrow> serialize master r;
      (mb, srv, _, m) \<leftarrow> serve mb (receive (take (nat n) (send_buf master)) srv) n;
      Some (receive (take (nat m) (send_buf srv)) master, srv, mb, m)
    }"

text \<open>Both ends have initialised contexts, the server the address that the master asks or the address 0xFF.\<close>

definition line_ok :: "agile_modbus \<Rightarrow> agile_modbus \<Rightarrow> modbus_request \<Rightarrow> bool" where
  "line_ok master srv r \<longleftrightarrow> modbus_ok master \<and> modbus_ok srv \<and> 8 \<le> length (send_buf master) \<and> 8 \<le> length (send_buf srv) \<and>
     request_ok r \<and> length (request_pdu r) + 3 \<le> length (send_buf master) \<and>
     length (request_pdu r) + 3 \<le> length (read_buf srv) \<and>
     0 < slave master \<and> slave master < 256 \<and> (slave master = slave srv \<or> slave master = 0xFF)"

lemma exchange_answers:
  assumes ok: "line_ok master srv r"
    and ans: "\<forall>srv'. asked srv' (slave master) r \<and> length (send_buf srv') = length (send_buf srv) \<longrightarrow>
      answers mb srv' (int (length (request_pdu r)) + 3) mb' ans"
    and fit: "length ans + 2 \<le> length (read_buf master)"
  obtains srv' rest rest' where "exchange master srv mb r =
    Some (master\<lparr>send_buf := rtu_frame (request_body master r) @ rest', read_buf := rtu_frame ans @ rest\<rparr>,
          srv', mb', int (length ans) + 2)"
    "modbus_ok (master\<lparr>send_buf := rtu_frame (request_body master r) @ rest', read_buf := rtu_frame ans @ rest\<rparr>)"
    "length (rtu_frame (request_body master r) @ rest') = length (send_buf master)"
proof -
  let ?b = "request_body master r"
  have l: "length ?b = length (request_pdu r) + 1" by (simp add: request_body_def)
  have s: "serialize master r = framed master r"
    using ok by (intro serialize_frame) (auto simp: line_ok_def l)
  obtain rest' where f: "framed master r = Some (master\<lparr>send_buf := rtu_frame ?b @ rest'\<rparr>, int (length ?b) + 2)"
    "length (rtu_frame ?b @ rest') = length (send_buf master)"
  proof (rule that)
    let ?t = "if r = Report_Slave_Id then 0 # 0 # drop 6 (send_buf master) else drop (length ?b + 2) (send_buf master)"
    show "framed master r = Some (master\<lparr>send_buf := rtu_frame ?b @ ?t\<rparr>, int (length ?b) + 2)"
      by (simp add: framed_def Let_def)
    show "length (rtu_frame ?b @ ?t) = length (send_buf master)"
      using ok l by (auto simp: line_ok_def)
  qed
  let ?srv = "receive (rtu_frame ?b) srv"
  have q: "asked ?srv (slave master) r"
    using ok l by (auto simp: asked_def line_ok_def receive_def request_body_def modbus_ok_def)
  obtain sb where a: "serve mb ?srv (int (length ?b) + 2) = Some (mb', ?srv\<lparr>send_buf := sb\<rparr>, None, int (length ans) + 2)"
    "length sb = length (send_buf srv)" "take (length ans + 2) sb = rtu_frame ans"
    using ans q by (auto simp: answers_def l receive_def add.commute)
  have "exchange master srv mb r =
    Some (master\<lparr>send_buf := rtu_frame ?b @ rest', read_buf := rtu_frame ans @ drop (length ans + 2) (read_buf master)\<rparr>,
          ?srv\<lparr>send_buf := sb\<rparr>, mb', int (length ans) + 2)"
    using a by (simp add: exchange_def s f nat_add_distrib) (simp add: receive_def)
  moreover have "modbus_ok (master\<lparr>send_buf := rtu_frame ?b @ rest', read_buf := rtu_frame ans @ drop (length ans + 2) (read_buf master)\<rparr>)"
    using ok f(2) fit by (auto simp: line_ok_def modbus_ok_def)
  ultimately show thesis using f(2) by (rule that)
qed

lemma confirmed_frame:
  assumes ok: "modbus_ok ctx" and sz: "8 \<le> length (send_buf ctx)" and b: "read_buf ctx = rtu_frame ans @ rest"
    and l: "frame_length_of AGILE_MODBUS_MSG_CONFIRMATION (read_buf ctx) = length ans + 2"
  shows "confirmed ctx (int (length ans) + 2) =
    agile_modbus_check_confirmation ctx (send_buf ctx) (read_buf ctx) (int (length ans) + 2)"
proof -
  have "crc_reg (rtu_frame ans) = 0" using frame_iff_residue [of "rtu_frame ans"] by (simp add: rtu_frame_def)
  then have "frame_ok AGILE_MODBUS_MSG_CONFIRMATION (read_buf ctx) (int (length ans) + 2)"
    by (simp add: frame_ok_def l) (simp add: b)
  then show ?thesis
    using msg_judge_eq [OF ok, of "int (length ans) + 2" "read_buf ctx" AGILE_MODBUS_MSG_CONFIRMATION] sz
      modbus_okD(5) [OF ok]
    by (simp add: confirmed_def min_req_length_def modbus_okD [OF ok] l) (simp add: b add.commute)
qed

lemma confirmed_exception:
  assumes ok: "modbus_ok ctx" and sb: "send_buf ctx = x # f # sb" "6 \<le> length sb" and f: "f \<in> {3, 16}"
    and b: "read_buf ctx = rtu_frame [x, f + 0x80, code] @ rest"
  shows "confirmed ctx 5 = Some (-128 - uint code)"
proof -
  have n: "read_buf ctx ! 0 = x" "read_buf ctx ! 1 = f + 0x80" "read_buf ctx ! 2 = code"
    by (simp_all add: b rtu_frame_def)
  have n2: "read_buf ctx ! Suc (Suc 0) = code" using n(3) by (simp add: numeral_2_eq_2)
  have u: "uint (f + 0x80) = uint f + 128" "uint f \<in> {3, 16}" using f by auto
  have l: "frame_length_of AGILE_MODBUS_MSG_CONFIRMATION (read_buf ctx) = length [x, f + 0x80, code] + 2"
    unfolding frame_length_of_def n u using u(2) by auto
  have c: "agile_modbus_compute_response_length_from_request ctx (send_buf ctx) \<noteq> None"
    using f sb by (auto simp: agile_modbus_compute_response_length_from_request_def modbus_okD [OF ok] Let_def)
  have "confirmed ctx 5 = agile_modbus_check_confirmation ctx (send_buf ctx) (read_buf ctx) 5"
    using confirmed_frame [OF ok _ b l] sb by simp
  also have "\<dots> = Some (-128 - uint code)"
    using c sb n n2 u b by (auto simp: agile_modbus_check_confirmation_def modbus_okD [OF ok] Let_def
        agile_modbus_rtu_pre_check_confirmation_def)
  finally show ?thesis .
qed

lemma be_words_be_regs [simp]: "be_words (be_regs rs) = rs"
  by (induction rs) (simp_all add: be_regs_def)

lemma confirmed_read:
  assumes ok: "modbus_ok ctx" and n: "n = length vals" "n \<le> 125"
    and sb: "send_buf ctx = rtu_frame (x # 3 # be2 a @ be2 (int n)) @ rest'"
    and b: "read_buf ctx = rtu_frame (x # 3 # of_nat (2 * n) # be_regs vals) @ rest"
  shows "confirmed ctx (2 * int n + 5) = Some (int n)"
    "n \<le> length dest \<Longrightarrow> decode_registers ctx (int n) dest = Some (vals @ drop n dest, int n)"
proof -
  let ?ans = "x # 3 # of_nat (2 * n) # be_regs vals"
  have c: "uint (of_nat (2 * n) :: u8) = 2 * int n" "unat (of_nat (2 * n) :: u8) = 2 * n"
    using n unat_of_nat_u8 [of "2 * n"] by (simp_all only: uint_nat)
  have r: "rd (read_buf ctx) 0 = Some x" "rd (read_buf ctx) (Suc 0) = Some 3" "rd (read_buf ctx) (Suc (Suc 0)) = Some (of_nat (2 * n))"
    by (simp_all add: b rtu_frame_def rd_def)
  have s: "rd (send_buf ctx) 0 = Some x" "rd (send_buf ctx) (Suc 0) = Some 3"
    "rd (send_buf ctx) 4 = Some (of_int (int n div 256))" "rd (send_buf ctx) 5 = Some (of_int (int n))"
    by (simp_all add: sb rtu_frame_def rd_def be2_def)
  have nb: "be_int 0 (of_nat (length vals)) = int (length vals)"
    using n unat_of_nat_u8 [of n] by (simp add: be_int_def uint_nat)
  have l: "frame_length_of AGILE_MODBUS_MSG_CONFIRMATION (read_buf ctx) = length ?ans + 2"
  proof -
    have "read_buf ctx ! Suc 0 = 3" "read_buf ctx ! 2 = of_nat (2 * n)"
      using r unfolding numeral_2_eq_2 by (simp_all add: rd_Some_iff)
    then show ?thesis using c n by (simp add: frame_length_of_def Let_def del: of_nat_mult)
  qed
  have "confirmed ctx (int (length ?ans) + 2) =
      agile_modbus_check_confirmation ctx (send_buf ctx) (read_buf ctx) (int (length ?ans) + 2)"
    by (rule confirmed_frame [OF ok _ b l]) (simp add: sb)
  also have "\<dots> = Some (int n)"
    using n c by (simp add: agile_modbus_check_confirmation_def modbus_okD [OF ok] r s nb Let_def
        agile_modbus_rtu_pre_check_confirmation_def agile_modbus_compute_response_length_from_request_def
        del: of_nat_mult)
  finally show "confirmed ctx (2 * int n + 5) = Some (int n)" using n by (simp add: add.commute)
  have "rd_seg (read_buf ctx) (Suc (Suc (Suc 0))) (2 * n) = Some (be_regs vals)"
    using n by (simp add: rd_seg_def b rtu_frame_def)
  then show "n \<le> length dest \<Longrightarrow> decode_registers ctx (int n) dest = Some (vals @ drop n dest, int n)"
    using n by (simp add: decode_registers_def modbus_okD [OF ok] wr_all_0)
qed

lemma confirmed_write:
  assumes ok: "modbus_ok ctx" and n: "n < 65536"
    and sb: "send_buf ctx = rtu_frame (x # 16 # be2 a @ be2 (int n) @ ps) @ rest'" "8 \<le> length (send_buf ctx)"
    and b: "read_buf ctx = rtu_frame (x # 16 # be2 a @ be2 (int n)) @ rest"
  shows "confirmed ctx 8 = Some (int n)"
proof -
  let ?ans = "x # 16 # be2 a @ be2 (int n)"
  have r: "rd (read_buf ctx) 0 = Some x" "rd (read_buf ctx) (Suc 0) = Some 16"
    "rd (read_buf ctx) 4 = Some (of_int (int n div 256))" "rd (read_buf ctx) 5 = Some (of_int (int n))"
    by (simp_all add: b rtu_frame_def rd_def be2_def)
  have s: "rd (send_buf ctx) 0 = Some x" "rd (send_buf ctx) (Suc 0) = Some 16"
    "rd (send_buf ctx) 4 = Some (of_int (int n div 256))" "rd (send_buf ctx) 5 = Some (of_int (int n))"
    by (simp_all add: sb rtu_frame_def rd_def be2_def)
  have nb: "be_int (of_int (int n div 256)) (of_int (int n)) = int n"
    using n by (intro be_int_be2) auto
  have l: "frame_length_of AGILE_MODBUS_MSG_CONFIRMATION (read_buf ctx) = length ?ans + 2"
    using r by (simp add: frame_length_of_def rd_Some_iff Let_def)
  have "confirmed ctx (int (length ?ans) + 2) =
      agile_modbus_check_confirmation ctx (send_buf ctx) (read_buf ctx) (int (length ?ans) + 2)"
    by (rule confirmed_frame [OF ok _ b l]) (simp add: sb)
  also have "\<dots> = Some (int n)"
    by (simp add: agile_modbus_check_confirmation_def modbus_okD [OF ok] r s nb [simplified] Let_def
        agile_modbus_rtu_pre_check_confirmation_def agile_modbus_compute_response_length_from_request_def)
  finally show ?thesis by simp
qed

text \<open>C10: Reading registers over the line: whatever the buffers held before, the master gets exactly the
  registers of the program's map (zeros for addresses the map lacks) and their number, or the
  exception of the server as \<open>-128 - code\<close>: 3 for no registers, 2 beyond address 65535, 7 for an answer
  that does not fit the server's buffer. The server's registers do not change.\<close>

theorem modbus_read_exchange:
  assumes "line_ok master srv (Read_Registers (int a) n)" "a < 65536" "length mb = 30" "n \<le> length dest"
    "2 * n + 5 \<le> length (read_buf master)"
  shows "\<exists>master' srv' m. exchange master srv mb (Read_Registers (int a) n) = Some (master', srv', mb, m) \<and>
    agile_modbus_deserialize_read_registers master' m dest = Some
     (if n = 0 then (dest, -131) else if a + n > 65536 then (dest, -130)
      else if 2 * n + 5 > length (send_buf srv) then (dest, -135)
      else (reg_values mb a n @ drop n dest, int n))"
proof -
  let ?r = "Read_Registers (int a) n"
  let ?ans = "read_answer mb srv (slave master) a n"
  have n: "n \<le> 125" using assms(1) by (simp add: line_ok_def)
  have fit: "length ?ans + 2 \<le> length (read_buf master)" using assms(5) by (simp add: read_answer_def)
  have ans: "\<forall>srv'. asked srv' (slave master) ?r \<and> length (send_buf srv') = length (send_buf srv) \<longrightarrow>
      answers mb srv' (int (length (request_pdu ?r)) + 3) mb ?ans"
  proof (intro allI impI, elim conjE)
    fix srv' assume q: "asked srv' (slave master) ?r" "length (send_buf srv') = length (send_buf srv)"
    have "read_answer mb srv' (slave master) a n = ?ans" by (simp only: read_answer_def q(2))
    then show "answers mb srv' (int (length (request_pdu ?r)) + 3) mb ?ans"
      using read_answers [OF q(1) assms(3,2)] by simp
  qed
  obtain srv' rest rest' where e: "exchange master srv mb ?r =
      Some (master\<lparr>send_buf := rtu_frame (request_body master ?r) @ rest', read_buf := rtu_frame ?ans @ rest\<rparr>,
          srv', mb, int (length ?ans) + 2)"
    and ok: "modbus_ok (master\<lparr>send_buf := rtu_frame (request_body master ?r) @ rest', read_buf := rtu_frame ?ans @ rest\<rparr>)"
    by (rule exchange_answers [OF assms(1) ans fit])
  let ?m = "master\<lparr>send_buf := rtu_frame (request_body master ?r) @ rest', read_buf := rtu_frame ?ans @ rest\<rparr>"
  have "agile_modbus_deserialize_read_registers ?m (int (length ?ans) + 2) dest = Some
     (if n = 0 then (dest, -131) else if a + n > 65536 then (dest, -130)
      else if 2 * n + 5 > length (send_buf srv) then (dest, -135)
      else (reg_values mb a n @ drop n dest, int n))"
  proof (cases "n = 0 \<or> a + n > 65536 \<or> 2 * n + 5 > length (send_buf srv)")
    case True
    define code :: u8 where "code = (if n = 0 then 3 else if a + n > 65536 then 2 else 7)"
    have a3: "?ans = [of_int (slave master), 3 + 0x80, code]" using True by (auto simp: read_answer_def code_def)
    have c: "(if n = 0 then -131 else if a + n > 65536 then -130 else -135 :: int) = -128 - uint code"
      by (simp add: code_def)
    have "confirmed ?m 5 = Some (-128 - uint code)"
      by (rule confirmed_exception [OF ok, of "of_int (slave master)" 3 _ code])
        (simp_all add: rtu_frame_def request_body_def a3, simp)
    then show ?thesis
      using True by (auto simp: agile_modbus_deserialize_read_registers_def a3 code_def)
  next
    case False
    then have a3: "?ans = of_int (slave master) # 3 # of_nat (2 * n) # be_regs (reg_values mb a n)"
      by (simp add: read_answer_def)
    have "confirmed ?m (2 * int n + 5) = Some (int n)"
      "decode_registers ?m (int n) dest = Some (reg_values mb a n @ drop n dest, int n)"
      using confirmed_read [OF ok, of n "reg_values mb a n" "of_int (slave master)" "int a" rest' rest] n assms(4)
      by (simp_all add: request_body_def a3)
    then show ?thesis
      using False by (simp add: agile_modbus_deserialize_read_registers_def a3 add.commute)
  qed
  then show ?thesis using e by blast
qed


theorem modbus_read_exchange_witness:
  "\<exists>master' srv' m. exchange (agile_modbus_rtu_init (replicate 64 0) (replicate 64 0)\<lparr>slave := 1\<rparr>)
      (agile_modbus_rtu_init (replicate 64 0) (replicate 64 0)\<lparr>slave := 1\<rparr>) (map of_nat [100..<130])
      (Read_Registers 20 3) = Some (master', srv', map of_nat [100..<130], m) \<and>
    agile_modbus_deserialize_read_registers master' m [7, 7, 7, 7] = Some ([120, 121, 0, 7], 3)"
  using modbus_read_exchange [of "agile_modbus_rtu_init (replicate 64 0) (replicate 64 0)\<lparr>slave := 1\<rparr>"
      "agile_modbus_rtu_init (replicate 64 0) (replicate 64 0)\<lparr>slave := 1\<rparr>" 20 3 "map of_nat [100..<130]" "[7, 7, 7, 7]"]
  by (simp add: line_ok_def modbus_ok_def agile_modbus_rtu_init_def agile_modbus_common_init_def reg_values_def be2_def
      upt_rec)

lemma reg_values_write:
  assumes "length mb = 30"
  shows "a + length vs \<le> 22 \<Longrightarrow> reg_values (write_values mb a vs) a (length vs) = vs"
    and "k < 30 \<Longrightarrow> \<not> (a \<le> k \<and> k < a + length vs \<and> k < 22) \<Longrightarrow> write_values mb a vs ! k = mb ! k"
proof -
  show "reg_values (write_values mb a vs) a (length vs) = vs" if "a + length vs \<le> 22"
    using that assms by (intro nth_equalityI) (auto simp: reg_values_def write_values_def splice_nth)
  show "write_values mb a vs ! k = mb ! k" if "k < 30" "\<not> (a \<le> k \<and> k < a + length vs \<and> k < 22)"
    using that assms by (auto simp: write_values_def splice_nth)
qed

text \<open>C11: Writing registers over the line: the server stores exactly the values whose addresses its map
  has and confirms the number, so a read of registers just written gives them back and every other
  register keeps its value; a request for no registers or beyond address 65535 changes nothing and
  the master gets the exception.\<close>

theorem modbus_write_exchange:
  assumes "line_ok master srv (Write_Registers (int a) src)" "a < 65536" "length mb = 30" "8 \<le> length (read_buf master)"
  shows "\<exists>master' srv' m. exchange master srv mb (Write_Registers (int a) src) =
      Some (master', srv', if a + length src \<le> 65536 then write_values mb a src else mb, m) \<and>
    agile_modbus_deserialize_write_registers master' m = Some
     (if src = [] then -131 else if a + length src > 65536 then -130 else int (length src)) \<and>
    (a + length src \<le> 22 \<longrightarrow> reg_values (write_values mb a src) a (length src) = src) \<and>
    (\<forall>k < 30. a \<le> k \<and> k < a + length src \<and> k < 22 \<or> write_values mb a src ! k = mb ! k)"
proof -
  let ?r = "Write_Registers (int a) src" and ?n = "length src"
  let ?ans = "write_answer (slave master) a ?n" and ?mb = "if a + ?n \<le> 65536 then write_values mb a src else mb"
  have n: "?n \<le> 123" using assms(1) by (simp add: line_ok_def)
  have fit: "length ?ans + 2 \<le> length (read_buf master)" using assms(4) by (simp add: write_answer_def)
  have ans: "\<forall>srv'. asked srv' (slave master) ?r \<and> length (send_buf srv') = length (send_buf srv) \<longrightarrow>
      answers mb srv' (int (length (request_pdu ?r)) + 3) ?mb ?ans"
    using write_answers [OF _ assms(3,2) refl] by (simp add: add.commute)
  obtain srv' rest rest' where e: "exchange master srv mb ?r =
      Some (master\<lparr>send_buf := rtu_frame (request_body master ?r) @ rest', read_buf := rtu_frame ?ans @ rest\<rparr>,
          srv', ?mb, int (length ?ans) + 2)"
    and ok: "modbus_ok (master\<lparr>send_buf := rtu_frame (request_body master ?r) @ rest', read_buf := rtu_frame ?ans @ rest\<rparr>)"
    by (rule exchange_answers [OF assms(1) ans fit])
  let ?m = "master\<lparr>send_buf := rtu_frame (request_body master ?r) @ rest', read_buf := rtu_frame ?ans @ rest\<rparr>"
  have "agile_modbus_deserialize_write_registers ?m (int (length ?ans) + 2) = Some
     (if src = [] then -131 else if a + ?n > 65536 then -130 else int ?n)"
  proof (cases "src = [] \<or> a + ?n > 65536")
    case True
    define code :: u8 where "code = (if src = [] then 3 else 2)"
    have a3: "?ans = [of_int (slave master), 16 + 0x80, code]" using True by (auto simp: write_answer_def code_def)
    have "confirmed ?m 5 = Some (-128 - uint code)"
      by (rule confirmed_exception [OF ok, of "of_int (slave master)" 16 _ code])
        (simp_all add: rtu_frame_def request_body_def a3, simp)
    then show ?thesis
      using True by (auto simp: agile_modbus_deserialize_write_registers_def a3 code_def)
  next
    case False
    then have a3: "?ans = of_int (slave master) # 16 # be2 (int a) @ be2 (int ?n)" by (simp add: write_answer_def)
    have "confirmed ?m 8 = Some (int ?n)"
      using confirmed_write [OF ok, of ?n "of_int (slave master)" "int a" "of_nat (2 * ?n) # be_regs src" rest' rest] n
      by (simp add: request_body_def a3)
    then show ?thesis using False by (simp add: agile_modbus_deserialize_write_registers_def a3)
  qed
  then show ?thesis using e reg_values_write [OF assms(3), where a = a and vs = src] by blast
qed

theorem modbus_write_exchange_witness:
  "\<exists>master' srv' m. exchange (agile_modbus_rtu_init (replicate 64 0) (replicate 64 0)\<lparr>slave := 1\<rparr>)
      (agile_modbus_rtu_init (replicate 64 0) (replicate 64 0)\<lparr>slave := 1\<rparr>) (replicate 30 0)
      (Write_Registers 1 [5, 6]) = Some (master', srv', [0, 5, 6] @ replicate 27 0, m) \<and>
    agile_modbus_deserialize_write_registers master' m = Some 2"
  using modbus_write_exchange [of "agile_modbus_rtu_init (replicate 64 0) (replicate 64 0)\<lparr>slave := 1\<rparr>"
      "agile_modbus_rtu_init (replicate 64 0) (replicate 64 0)\<lparr>slave := 1\<rparr>" 1 "[5, 6]" "replicate 30 0"]
  by (simp add: line_ok_def modbus_ok_def agile_modbus_rtu_init_def agile_modbus_common_init_def be2_def
      write_values_def splice_def) blast

lemma computed_read_length:
  assumes ok: "modbus_ok ctx" and n: "n \<le> 125" and sb: "send_buf ctx = rtu_frame (x # 3 # be2 a @ be2 (int n)) @ rest'"
  shows "agile_modbus_compute_response_length_from_request ctx (send_buf ctx) = Some (2 * int n + 5)"
proof -
  have s: "rd (send_buf ctx) (Suc 0) = Some 3" "rd (send_buf ctx) 4 = Some (of_int (int n div 256))"
    "rd (send_buf ctx) 5 = Some (of_int (int n))"
    by (simp_all add: sb rtu_frame_def rd_def be2_def)
  have nb: "be_int (of_int (int n div 256)) (of_int (int n)) = int n"
    using n by (intro be_int_be2) auto
  show ?thesis
    by (simp add: agile_modbus_compute_response_length_from_request_def modbus_okD [OF ok] s nb [simplified] Let_def)
qed

text \<open>An answer of another length than the request asks for is refused, unless it is the exception to it.\<close>

lemma wrong_length_refused:
  assumes ok: "modbus_ok ctx" and n: "n \<le> 125" and sb: "send_buf ctx = rtu_frame (x # 3 # be2 a @ be2 (int n)) @ rest'"
    and r: "2 \<le> length (read_buf ctx)" "read_buf ctx ! 1 \<noteq> 0x83" and m: "m \<noteq> 2 * int n + 5"
  shows "agile_modbus_check_confirmation ctx (send_buf ctx) (read_buf ctx) m = Some (-1)"
proof -
  have s: "rd (send_buf ctx) 0 = Some x" "rd (send_buf ctx) (Suc 0) = Some 3"
    by (simp_all add: sb rtu_frame_def rd_def)
  have f: "uint (read_buf ctx ! 1) \<noteq> 131" using r(2) by (metis word_of_int_numeral word_of_int_uint)
  have rs: "rd (read_buf ctx) 0 = Some (read_buf ctx ! 0)" "rd (read_buf ctx) (Suc 0) = Some (read_buf ctx ! 1)"
    using r(1) by (auto simp: rd_def)
  show ?thesis
    using m f [unfolded One_nat_def] by (auto simp: agile_modbus_check_confirmation_def modbus_okD [OF ok] s rs computed_read_length [OF ok n sb]
        agile_modbus_rtu_pre_check_confirmation_def Let_def split: option.splits)
qed

text \<open>An answer to a register read in which one byte or two neighbouring bytes arrived wrong, whichever
  they are and whatever follows in the buffer, is refused with -1 and no register is touched, unless
  the damage turns the function code into that of the exception (0x83).\<close>

lemma modbus_damage_refused:
  assumes "modbus_ok ctx" "0 < length vals" "length vals \<le> 125"
    "send_buf ctx = rtu_frame (x # 3 # be2 a @ be2 (int (length vals))) @ rest'"
    "rtu_frame (x # 3 # of_nat (2 * length vals) # be_regs vals) = xs @ [b, c] @ ys" "b \<noteq> b' \<or> c \<noteq> c'"
    "read_buf ctx = xs @ [b', c'] @ ys @ rest" "read_buf ctx ! 1 \<noteq> 0x83"
  shows "agile_modbus_deserialize_read_registers ctx (2 * int (length vals) + 5) dest = Some (dest, -1)"
proof -
  let ?n = "length vals" and ?good = "xs @ [b, c] @ ys" and ?bad = "xs @ [b', c'] @ ys"
  let ?ty = "AGILE_MODBUS_MSG_CONFIRMATION"
  note ctx = modbus_okD [OF assms(1)]
  have lg: "length ?good = 2 * ?n + 5" using arg_cong [OF assms(5), of length] by simp
  have lr: "2 * ?n + 5 \<le> length (read_buf ctx)" using lg by (simp add: assms(7))
  have "crc_reg (rtu_frame (x # 3 # of_nat (2 * ?n) # be_regs vals)) = 0"
    using frame_iff_residue [of "rtu_frame (x # 3 # of_nat (2 * ?n) # be_regs vals)"] by (simp add: rtu_frame_def)
  then have "crc_reg ?good = 0" by (simp only: assms(5))
  then have crc: "crc_reg ?bad \<noteq> 0" using crc_reg_two_bytes [of xs b c ys b' c'] assms(6) by metis
  have lb: "length ?bad = 2 * ?n + 5" using lg by simp
  have "read_buf ctx = ?bad @ rest" by (simp add: assms(7))
  then have "take (2 * ?n + 5) (read_buf ctx) = ?bad" using lb by (metis append_eq_conv_conj)
  then have len: "frame_ok ?ty (read_buf ctx) (2 * int ?n + 5) \<Longrightarrow> frame_length_of ?ty (read_buf ctx) \<noteq> 2 * ?n + 5"
    using crc by (auto simp: frame_ok_def)
  have j: "agile_modbus_receive_msg_judge ctx (read_buf ctx) (2 * int ?n + 5) ?ty =
      Some (if frame_ok ?ty (read_buf ctx) (2 * int ?n + 5) then int (frame_length_of ?ty (read_buf ctx)) else -1)"
    using lr ctx(5) by (intro msg_judge_eq [OF assms(1)]) simp_all
  have "confirmed ctx (2 * int ?n + 5) = Some (-1)"
  proof (cases "frame_ok ?ty (read_buf ctx) (2 * int ?n + 5)")
    case False
    then show ?thesis using j lr assms(4) by (simp add: confirmed_def min_req_length_def ctx)
  next
    case True
    have "int (frame_length_of ?ty (read_buf ctx)) \<noteq> 2 * int ?n + 5" using len [OF True] by linarith
    then have "agile_modbus_check_confirmation ctx (send_buf ctx) (read_buf ctx) (int (frame_length_of ?ty (read_buf ctx))) =
        Some (-1)"
      using lr by (intro wrong_length_refused [OF assms(1,3,4) _ assms(8)]) simp_all
    then show ?thesis using j lr True assms(4) by (simp add: confirmed_def min_req_length_def ctx)
  qed
  then show ?thesis by (simp add: agile_modbus_deserialize_read_registers_def)
qed

theorem modbus_damage_refused_witness:
  "agile_modbus_deserialize_read_registers (agile_modbus_rtu_init (rtu_frame [1, 3, 0, 20, 0, 1])
      ([1, 3, 2] @ [4, 7] @ drop 5 (rtu_frame [1, 3, 2, 0, 7]))) 7 [9] = Some ([9], -1)"
proof -
  have "rtu_frame [1, 3, 2, 0, 7] = [1, 3, 2] @ [0, 7] @ drop 5 (rtu_frame [1, 3, 2, 0, 7])"
    by (simp add: rtu_frame_def)
  then show ?thesis
    using modbus_damage_refused [of "agile_modbus_rtu_init (rtu_frame [1, 3, 0, 20, 0, 1])
        ([1, 3, 2] @ [4, 7] @ drop 5 (rtu_frame [1, 3, 2, 0, 7]))" "[7]" 1 20 "[]" "[1, 3, 2]" 0 7
        "drop 5 (rtu_frame [1, 3, 2, 0, 7])" 4 7 "[]" "[9]"]
    by (simp add: modbus_ok_def agile_modbus_rtu_init_def agile_modbus_common_init_def be2_def be_regs_def hi_byte_def lo_byte_def)
qed

end
