(* ===== verification/Eeprom.thy ===== *)
theory Eeprom
  imports Prelude Crc
begin

text \<open>
  Storage of the system parameters in the EEPROM (\<open>i2c_app.c\<close>). The \<open>at24cxx\<close> driver is not part of
  the repository: its two page operations are arguments. \<open>page_read dev addr len\<close> gives the bytes read or
  \<open>None\<close> for an error code; \<open>page_write dev addr bytes\<close> gives the device afterwards and whether the result
  was \<open>RT_EOK\<close>. \<open>struct sys_param\<close> is five floats; the code only copies them, so it is its 20 bytes.
\<close>

section \<open>Model\<close>

type_synonym 'd page_read = "'d \<Rightarrow> nat \<Rightarrow> nat \<Rightarrow> u8 list option"
type_synonym 'd page_write = "'d \<Rightarrow> nat \<Rightarrow> u8 list \<Rightarrow> 'd \<times> bool"

definition SYS_PARA_ADDR :: nat where "SYS_PARA_ADDR = 0"
definition SYS_DATA_SIZE :: nat where "SYS_DATA_SIZE = 20"

text \<open>The default parameters 0, 10.42, 0, 577.7 and -9.04 as little-endian single-precision floats.\<close>

definition sys_default_para :: "u8 list" where
  "sys_default_para =
    [0, 0, 0, 0, 0x52, 0xB8, 0x26, 0x41, 0, 0, 0, 0, 0xCD, 0x6C, 0x10, 0x44, 0xD7, 0xA3, 0x10, 0xC1]"

datatype eeprom_write_type = EEPROM_WRITE_DEFAULT_VALUE | EEPROM_WRITE_DATABASE_VALUE

record 'd eeprom_sys =
  at24c02_dev :: 'd
  g_sys_param :: "u8 list"
  page_writes :: nat

text \<open>The record that is written: the bytes, then their CRC with the low byte first.\<close>

definition sys_record :: "u8 list \<Rightarrow> u8 list" where
  "sys_record tmp = (let crc = crc16 (take SYS_DATA_SIZE tmp) in take SYS_DATA_SIZE tmp @ [lo_byte crc, hi_byte crc])"

text \<open>
  The do-while loop of the write: it repeats while the result is an error and the counter, which was
  just decremented, is not zero. \<open>page_writes\<close> counts the calls of the driver.
\<close>

fun write_tries :: "'d page_write \<Rightarrow> u8 list \<Rightarrow> nat \<Rightarrow> 'd eeprom_sys \<Rightarrow> 'd eeprom_sys" where
  "write_tries wrp tmp 0 s = s"
| "write_tries wrp tmp (Suc cnt) s =
    (let (d, ok) = wrp (at24c02_dev s) SYS_PARA_ADDR tmp;
         s = s\<lparr>at24c02_dev := d, page_writes := page_writes s + 1\<rparr>
     in if \<not> ok \<and> cnt \<noteq> 0 then write_tries wrp tmp cnt s else s)"

definition write_sysdata_to_eeprom :: "'d page_write \<Rightarrow> eeprom_write_type \<Rightarrow> 'd eeprom_sys \<Rightarrow> 'd eeprom_sys" where
  "write_sysdata_to_eeprom wrp type s =
    (let tmp = (case type of EEPROM_WRITE_DATABASE_VALUE \<Rightarrow> g_sys_param s | EEPROM_WRITE_DEFAULT_VALUE \<Rightarrow> sys_default_para)
     in write_tries wrp (sys_record tmp) 3 s)"

definition stored_crc :: "u8 list \<Rightarrow> u16" where
  "stored_crc d = be16 (d ! (SYS_DATA_SIZE + 1)) (d ! SYS_DATA_SIZE)"

text \<open>
  Loading. After a wrong check sum the defaults are written and read back, and the parameters are
  taken from the buffer without another check: when that second read fails, the buffer still holds
  the bytes of the first one.
\<close>

definition read_sysdata_from_eeprom :: "'d page_read \<Rightarrow> 'd page_write \<Rightarrow> 'd eeprom_sys \<Rightarrow> 'd eeprom_sys" where
  "read_sysdata_from_eeprom rdp wrp s =
    (case rdp (at24c02_dev s) SYS_PARA_ADDR (SYS_DATA_SIZE + 2) of
       None \<Rightarrow> s
     | Some sys_data \<Rightarrow>
         if crc16 (take SYS_DATA_SIZE sys_data) \<noteq> stored_crc sys_data then
           (let s = write_sysdata_to_eeprom wrp EEPROM_WRITE_DEFAULT_VALUE s;
                sys_data = (case rdp (at24c02_dev s) SYS_PARA_ADDR (SYS_DATA_SIZE + 2) of
                              None \<Rightarrow> sys_data | Some d \<Rightarrow> d)
            in s\<lparr>g_sys_param := take SYS_DATA_SIZE sys_data\<rparr>)
         else s\<lparr>g_sys_param := take SYS_DATA_SIZE sys_data\<rparr>)"

definition eeprom_init :: "'d page_read \<Rightarrow> 'd page_write \<Rightarrow> 'd eeprom_sys \<Rightarrow> 'd eeprom_sys" where
  "eeprom_init rdp wrp s = read_sysdata_from_eeprom rdp wrp s"

definition reset_eeprom_data :: "'d page_write \<Rightarrow> 'd eeprom_sys \<Rightarrow> 'd eeprom_sys" where
  "reset_eeprom_data wrp s =
    (let s = write_sysdata_to_eeprom wrp EEPROM_WRITE_DEFAULT_VALUE s in s\<lparr>g_sys_param := sys_default_para\<rparr>)"

text \<open>
  The two bus helpers; the transfers of \<open>rt_i2c_transfer\<close>, which give the number of messages moved,
  are arguments.
\<close>

definition EEPROM_ADDR :: u8 where "EEPROM_ADDR = drop_bit 1 0xa0"

definition write_reg :: "('b \<Rightarrow> u8 \<Rightarrow> u8 list \<Rightarrow> 'b \<times> nat) \<Rightarrow> 'b \<Rightarrow> u8 \<Rightarrow> (u8 \<times> u8) option \<Rightarrow> 'b \<times> bool" where
  "write_reg xfer bus reg data =
    (let buf = reg # (case data of None \<Rightarrow> [] | Some (a, b) \<Rightarrow> [a, b]);
         (bus, n) = xfer bus EEPROM_ADDR buf
     in (bus, n = 1))"

definition read_regs :: "('b \<Rightarrow> u8 \<Rightarrow> nat \<Rightarrow> ('b \<times> u8 list) \<times> nat) \<Rightarrow> 'b \<Rightarrow> nat \<Rightarrow> ('b \<times> u8 list) \<times> bool" where
  "read_regs xfer bus len = (let (r, n) = xfer bus EEPROM_ADDR len in (r, n = 1))"

section \<open>Records and their check\<close>

lemma length_default [simp]: "length sys_default_para = 20"
  by (simp add: sys_default_para_def)

lemma sys_record_check:
  assumes "length p = 20"
  shows "take SYS_DATA_SIZE (sys_record p) = p" "stored_crc (sys_record p) = crc16 p" "length (sys_record p) = 22"
  using assms by (simp_all add: sys_record_def stored_crc_def SYS_DATA_SIZE_def Let_def nth_append)

lemma crc_reg_one_byte: "crc_reg (xs @ [b] @ ys) = crc_reg (xs @ [b'] @ ys) \<longleftrightarrow> b = b'"
  by (simp add: crc_reg_def foldl_crc_byte_inject crc_byte_inject_byte)

lemma crc16_update:
  assumes "i < length p" "p ! i \<noteq> v"
  shows "crc16 (p[i := v]) \<noteq> crc16 p"
proof -
  have "p = take i p @ [p ! i] @ drop (Suc i) p" using assms(1) by (simp add: id_take_nth_drop)
  moreover have "p[i := v] = take i p @ [v] @ drop (Suc i) p" using assms(1) by (simp add: upd_conv_take_nth_drop)
  ultimately show ?thesis using assms(2) crc_reg_one_byte unfolding crc16_inject by metis
qed

text \<open>One damaged byte of a record, in the parameters or in the check sum, is always noticed.\<close>

lemma damaged_record:
  assumes p: "length p = 20" and i: "i < 22" "sys_record p ! i \<noteq> v"
  shows "crc16 (take SYS_DATA_SIZE ((sys_record p)[i := v])) \<noteq> stored_crc ((sys_record p)[i := v])"
proof (cases "i < 20")
  case True
  have "take SYS_DATA_SIZE ((sys_record p)[i := v]) = p[i := v]"
    using True sys_record_check(1) [OF p] by (simp add: take_update_swap SYS_DATA_SIZE_def)
  moreover have "stored_crc ((sys_record p)[i := v]) = crc16 p"
    using True sys_record_check(2) [OF p] by (simp add: stored_crc_def SYS_DATA_SIZE_def)
  moreover have "p ! i \<noteq> v" using i True p by (simp add: sys_record_def SYS_DATA_SIZE_def Let_def nth_append)
  ultimately show ?thesis using crc16_update [of i p v] True p by simp
next
  case False
  have "take SYS_DATA_SIZE ((sys_record p)[i := v]) = p"
    using False sys_record_check(1) [OF p] by (simp add: SYS_DATA_SIZE_def)
  moreover have "stored_crc ((sys_record p)[i := v]) \<noteq> crc16 p"
  proof -
    have "i = 20 \<or> i = 21" using False i(1) by auto
    then show ?thesis
      using i(2) sys_record_check(3) [OF p]
      by (auto simp: stored_crc_def SYS_DATA_SIZE_def be16_eq_iff sys_record_def Let_def nth_append p)
  qed
  ultimately show ?thesis by simp
qed

section \<open>Writing and loading\<close>

text \<open>The device after \<open>k\<close> attempts, and the outcome of the loop.\<close>

definition after_tries :: "'d page_write \<Rightarrow> u8 list \<Rightarrow> nat \<Rightarrow> 'd \<Rightarrow> 'd" where
  "after_tries wrp tmp k = (\<lambda>d. fst (wrp d SYS_PARA_ADDR tmp)) ^^ k"

lemma write_tries_ok:
  assumes "k < n" "snd (wrp (after_tries wrp tmp k (at24c02_dev s)) SYS_PARA_ADDR tmp)"
    "\<forall>j < k. \<not> snd (wrp (after_tries wrp tmp j (at24c02_dev s)) SYS_PARA_ADDR tmp)"
  shows "write_tries wrp tmp n s =
    s\<lparr>at24c02_dev := after_tries wrp tmp (Suc k) (at24c02_dev s), page_writes := page_writes s + Suc k\<rparr>"
  using assms
proof (induction k arbitrary: n s)
  case 0
  then show ?case by (cases n) (simp_all add: after_tries_def split_def)
next
  case (Suc k)
  obtain m where n: "n = Suc m" using Suc.prems(1) by (cases n) auto
  let ?s = "s\<lparr>at24c02_dev := fst (wrp (at24c02_dev s) SYS_PARA_ADDR tmp), page_writes := page_writes s + 1\<rparr>"
  have a: "after_tries wrp tmp j (at24c02_dev ?s) = after_tries wrp tmp (Suc j) (at24c02_dev s)" for j
    using funpow_swap1 [of "\<lambda>d. fst (wrp d SYS_PARA_ADDR tmp)" j "at24c02_dev s"] by (simp add: after_tries_def)
  have f: "\<not> snd (wrp (at24c02_dev s) SYS_PARA_ADDR tmp)"
    using Suc.prems(3) [rule_format, of 0] by (simp add: after_tries_def)
  have "write_tries wrp tmp m ?s =
      ?s\<lparr>at24c02_dev := after_tries wrp tmp (Suc k) (at24c02_dev ?s), page_writes := page_writes ?s + Suc k\<rparr>"
    using Suc.prems unfolding n by (intro Suc.IH) (auto simp: a [simplified])
  then show ?case using f Suc.prems(1) unfolding n a by (simp add: split_def)
qed

lemma write_tries_count: "page_writes (write_tries wrp tmp n s) \<le> page_writes s + n"
proof (induction n arbitrary: s)
  case (Suc n)
  show ?case
    using Suc [of "s\<lparr>at24c02_dev := fst (wrp (at24c02_dev s) SYS_PARA_ADDR tmp), page_writes := page_writes s + 1\<rparr>"]
    by (simp add: split_def Let_def)
qed simp

text \<open>A store of the current parameters that one of the three attempts completes.\<close>

definition store_works :: "'d page_write \<Rightarrow> u8 list \<Rightarrow> 'd \<Rightarrow> bool" where
  "store_works wrp p d \<longleftrightarrow> (\<exists>k < 3. snd (wrp (after_tries wrp (sys_record p) k d) SYS_PARA_ADDR (sys_record p)))"

text \<open>What is relied on of the driver: bytes that were written with \<open>RT_EOK\<close> are read back.\<close>

definition page_law :: "'d page_read \<Rightarrow> 'd page_write \<Rightarrow> bool" where
  "page_law rdp wrp \<longleftrightarrow>
    (\<forall>d bs d'. wrp d SYS_PARA_ADDR bs = (d', True) \<longrightarrow> rdp d' SYS_PARA_ADDR (length bs) = Some bs)"

lemma page_lawD:
  assumes "page_law rdp wrp" "wrp d SYS_PARA_ADDR bs = (d', True)"
  shows "rdp d' SYS_PARA_ADDR (length bs) = Some bs"
  using assms unfolding page_law_def by blast

lemma write_works:
  assumes law: "page_law rdp wrp"
    and p: "length p = 20" and w: "store_works wrp p (at24c02_dev s)"
  shows "\<exists>d k. k < 3 \<and> write_tries wrp (sys_record p) 3 s = s\<lparr>at24c02_dev := d, page_writes := page_writes s + Suc k\<rparr> \<and>
    rdp d SYS_PARA_ADDR (SYS_DATA_SIZE + 2) = Some (sys_record p)"
proof -
  let ?P = "\<lambda>k. snd (wrp (after_tries wrp (sys_record p) k (at24c02_dev s)) SYS_PARA_ADDR (sys_record p))"
  obtain k where k: "k < 3" "?P k" "\<forall>j < k. \<not> ?P j"
    using w exists_least_iff [of "\<lambda>k. k < 3 \<and> ?P k"] by (auto simp: store_works_def)
  have "wrp (after_tries wrp (sys_record p) k (at24c02_dev s)) SYS_PARA_ADDR (sys_record p) =
      (after_tries wrp (sys_record p) (Suc k) (at24c02_dev s), True)"
    using k(2) by (simp add: after_tries_def prod_eq_iff)
  from page_lawD [OF law this] show ?thesis
    using write_tries_ok [of k 3 wrp "sys_record p" s, OF k] k(1) sys_record_check(3) [OF p]
    by (intro exI [of _ "after_tries wrp (sys_record p) (Suc k) (at24c02_dev s)"] exI [of _ k])
      (simp add: SYS_DATA_SIZE_def)
qed

lemma load_good:
  assumes "rdp (at24c02_dev s) SYS_PARA_ADDR (SYS_DATA_SIZE + 2) = Some (sys_record p)" "length p = 20"
  shows "read_sysdata_from_eeprom rdp wrp s = s\<lparr>g_sys_param := p\<rparr>"
  using assms sys_record_check(1,2) [OF assms(2)] by (simp add: read_sysdata_from_eeprom_def)

text \<open>C12: Storing the parameters calls the driver at most three times, and once one attempt succeeds the
  next start loads exactly these parameters, whatever they are, without writing again.\<close>

theorem eeprom_store_load:
  assumes "page_law rdp wrp"
    "length (g_sys_param s) = 20" "s' = write_sysdata_to_eeprom wrp EEPROM_WRITE_DATABASE_VALUE s"
  shows "page_writes s' \<le> page_writes s + 3 \<and>
    (store_works wrp (g_sys_param s) (at24c02_dev s) \<longrightarrow>
     eeprom_init rdp wrp (s'\<lparr>g_sys_param := other\<rparr>) = s')"
proof -
  have s': "s' = write_tries wrp (sys_record (g_sys_param s)) 3 s"
    by (simp add: assms(3) write_sysdata_to_eeprom_def)
  have "eeprom_init rdp wrp (s'\<lparr>g_sys_param := other\<rparr>) = s'" if works: "store_works wrp (g_sys_param s) (at24c02_dev s)"
  proof -
    obtain d k where dk: "s' = s\<lparr>at24c02_dev := d, page_writes := page_writes s + Suc k\<rparr>"
      "rdp d SYS_PARA_ADDR (SYS_DATA_SIZE + 2) = Some (sys_record (g_sys_param s))"
      using write_works [OF assms(1,2), of s] works s' by blast
    show ?thesis
      using load_good [of rdp "s'\<lparr>g_sys_param := other\<rparr>" "g_sys_param s" wrp] dk assms(2) by (simp add: eeprom_init_def)
  qed
  then show ?thesis using write_tries_count [of wrp _ 3 s] s' by blast
qed

theorem eeprom_store_load_witness:
  "let wrp = (\<lambda>(d :: u8 list) (a :: nat) bs. (bs, True)); rdp = (\<lambda>d (a :: nat) n. if length d = n then Some d else None);
       s = \<lparr>at24c02_dev = [], g_sys_param = replicate 20 7, page_writes = 0\<rparr>
   in g_sys_param (eeprom_init rdp wrp ((write_sysdata_to_eeprom wrp EEPROM_WRITE_DATABASE_VALUE s)\<lparr>g_sys_param := []\<rparr>)) =
      replicate 20 7"
proof -
  let ?wrp = "\<lambda>(d :: u8 list) (a :: nat) bs. (bs, True)"
  let ?rdp = "\<lambda>d (a :: nat) n. if length d = n then Some d else None"
  let ?s = "\<lparr>at24c02_dev = [], g_sys_param = replicate 20 7, page_writes = 0\<rparr>"
  have "store_works ?wrp (g_sys_param ?s) (at24c02_dev ?s)" by (auto simp: store_works_def intro: exI [of _ 0])
  moreover have "page_law ?rdp ?wrp" by (auto simp: page_law_def)
  ultimately have "eeprom_init ?rdp ?wrp ((write_sysdata_to_eeprom ?wrp EEPROM_WRITE_DATABASE_VALUE ?s)\<lparr>g_sys_param := []\<rparr>) =
      write_sysdata_to_eeprom ?wrp EEPROM_WRITE_DATABASE_VALUE ?s"
    using eeprom_store_load [of ?rdp ?wrp ?s "write_sysdata_to_eeprom ?wrp EEPROM_WRITE_DATABASE_VALUE ?s" "[]"]
    by auto
  then show ?thesis by (simp add: Let_def write_sysdata_to_eeprom_def numeral_3_eq_3)
qed

text \<open>
  What follows a damaged record whose repair fails: the damaged bytes themselves become the parameters,
  because the second read is not checked.
\<close>

lemma eeprom_damage_loaded:
  assumes "length p = 20" "i < 22" "sys_record p ! i \<noteq> v"
    "rdp (at24c02_dev s) SYS_PARA_ADDR 22 = Some ((sys_record p)[i := v])" "\<forall>d bs. wrp d SYS_PARA_ADDR bs = (d, False)"
  shows "g_sys_param (eeprom_init rdp wrp s) = take SYS_DATA_SIZE ((sys_record p)[i := v])"
proof -
  have "at24c02_dev (write_tries wrp tmp n s) = at24c02_dev s" for tmp n s
    using assms(5) by (induction n arbitrary: s) (simp_all add: Let_def)
  then show ?thesis
    using damaged_record [OF assms(1-3)] assms(4)
    by (simp add: eeprom_init_def read_sysdata_from_eeprom_def write_sysdata_to_eeprom_def SYS_DATA_SIZE_def Let_def)
qed

lemma write_tries_calls: "page_writes s < page_writes (write_tries wrp tmp (Suc n) s)"
proof (induction n arbitrary: s)
  case (Suc n)
  show ?case
    using Suc [of "s\<lparr>at24c02_dev := fst (wrp (at24c02_dev s) SYS_PARA_ADDR tmp), page_writes := page_writes s + 1\<rparr>"]
    by (simp add: split_def Let_def)
qed (simp add: split_def Let_def)

lemma write_tries_param: "g_sys_param (write_tries wrp tmp n s) = g_sys_param s"
  by (induction n arbitrary: s) (simp_all add: split_def Let_def)

lemma damage_repaired:
  assumes "page_law rdp wrp" "length p = 20" "i < 22" "sys_record p ! i \<noteq> v"
    "rdp (at24c02_dev s) SYS_PARA_ADDR 22 = Some ((sys_record p)[i := v])"
    "store_works wrp sys_default_para (at24c02_dev s)" "s' = eeprom_init rdp wrp s"
  shows "g_sys_param s' = sys_default_para \<and> eeprom_init rdp wrp s' = s'"
proof -
  obtain d k where w: "write_tries wrp (sys_record sys_default_para) 3 s =
      s\<lparr>at24c02_dev := d, page_writes := page_writes s + Suc k\<rparr>"
      "rdp d SYS_PARA_ADDR (SYS_DATA_SIZE + 2) = Some (sys_record sys_default_para)"
    using write_works [OF assms(1) length_default, of s] assms(6) by blast
  have s': "s' = s\<lparr>at24c02_dev := d, page_writes := page_writes s + Suc k, g_sys_param := sys_default_para\<rparr>"
    using damaged_record [OF assms(2-4)] assms(5) w sys_record_check(1) [OF length_default]
    by (simp add: assms(7) eeprom_init_def read_sysdata_from_eeprom_def write_sysdata_to_eeprom_def SYS_DATA_SIZE_def Let_def)
  show ?thesis
    using load_good [of rdp s' sys_default_para wrp] w(2) by (simp add: s' eeprom_init_def)
qed

text \<open>C13: A stored record with one damaged byte is always noticed: the start writes the default parameters
  over it, in one to three attempts, and reads the record again. When an attempt succeeds, and the
  driver reads back what it wrote, the defaults are used and the following start loads them without
  another write. The second read is not checked: whatever it delivers becomes the parameters, and when
  it fails the damaged bytes themselves do.\<close>

theorem eeprom_damage_defaults:
  assumes "length p = 20" "i < 22" "sys_record p ! i \<noteq> v"
    "rdp (at24c02_dev s) SYS_PARA_ADDR 22 = Some ((sys_record p)[i := v])" "s' = eeprom_init rdp wrp s"
  shows "page_writes s < page_writes s' \<and> page_writes s' \<le> page_writes s + 3 \<and>
    (page_law rdp wrp \<and> store_works wrp sys_default_para (at24c02_dev s) \<longrightarrow>
       g_sys_param s' = sys_default_para \<and> eeprom_init rdp wrp s' = s') \<and>
    g_sys_param s' = take 20 (case rdp (at24c02_dev s') SYS_PARA_ADDR 22 of
       None \<Rightarrow> (sys_record p)[i := v] | Some bytes \<Rightarrow> bytes)"
proof -
  let ?w = "write_tries wrp (sys_record sys_default_para) 3 s"
  have s': "s' = ?w\<lparr>g_sys_param := take 20 (case rdp (at24c02_dev ?w) SYS_PARA_ADDR 22 of
       None \<Rightarrow> (sys_record p)[i := v] | Some bytes \<Rightarrow> bytes)\<rparr>"
    using damaged_record [OF assms(1-3)] assms(4)
    by (simp add: assms(5) eeprom_init_def read_sysdata_from_eeprom_def write_sysdata_to_eeprom_def SYS_DATA_SIZE_def Let_def)
  have "page_writes s < page_writes s'" "page_writes s' \<le> page_writes s + 3"
    using write_tries_calls [of s wrp _ 2] write_tries_count [of wrp _ 3 s] by (simp_all add: s' eval_nat_numeral)
  then show ?thesis
    using damage_repaired [of rdp wrp, OF _ assms(1-4) _ assms(5)] by (auto simp: s')
qed

theorem eeprom_damage_defaults_witness:
  "let wrp = (\<lambda>(d :: u8 list) (a :: nat) bs. (bs, True)); rdp = (\<lambda>d (a :: nat) n. if length d = n then Some d else None);
       s = \<lparr>at24c02_dev = (sys_record (replicate 20 7))[4 := 8], g_sys_param = [], page_writes = 0\<rparr>;
       stuck = (\<lambda>(d :: u8 list) (a :: nat) bs. (d, False))
   in g_sys_param (eeprom_init rdp wrp s) = sys_default_para \<and>
      page_writes (eeprom_init rdp stuck s) \<le> 3"
proof -
  let ?wrp = "\<lambda>(d :: u8 list) (a :: nat) bs. (bs, True)"
  let ?rdp = "\<lambda>d (a :: nat) n. if length d = n then Some d else None"
  let ?s = "\<lparr>at24c02_dev = (sys_record (replicate 20 7))[4 := 8], g_sys_param = [], page_writes = 0\<rparr>"
  let ?stuck = "\<lambda>(d :: u8 list) (a :: nat) (bs :: u8 list). (d, False)"
  have "store_works ?wrp sys_default_para (at24c02_dev ?s)" by (auto simp: store_works_def intro: exI [of _ 0])
  moreover have "page_law ?rdp ?wrp" by (auto simp: page_law_def)
  moreover have "sys_record (replicate 20 7) ! 4 \<noteq> 8" by (simp add: sys_record_def SYS_DATA_SIZE_def Let_def nth_append)
  ultimately show ?thesis
    using eeprom_damage_defaults [of "replicate 20 7" 4 8 ?rdp ?s "eeprom_init ?rdp ?wrp ?s" ?wrp]
      eeprom_damage_defaults [of "replicate 20 7" 4 8 ?rdp ?s "eeprom_init ?rdp ?stuck ?s" ?stuck]
      sys_record_check(3) [of "replicate 20 7"] by (simp add: Let_def)
qed

end
