(* ===== verification/Pulse.thy ===== *)
theory Pulse
  imports LmsUart
begin

text \<open>
  The zero-cross pulse generator (\<open>pulse_generate.c\<close>): the interrupt that measures the comparator pulse,
  the one-shot timers and their call-backs, and a run of the whole on a clock in microseconds. The
  timers are their deadlines: writing a time-out to a timer sets the deadline, the stop control clears
  it, and a one-shot timer is stopped by its driver before its call-back runs.
\<close>

section \<open>Model\<close>

record pulse_gen =
  clock_us :: nat
  g_calibrate_flag :: u8
  icr1_time :: u32
  t1_us :: u32
  t2_us :: u32
  cross_pulse_us :: u32
  t1_max :: u32
  t2_max :: u32
  timer0_at :: "nat option"
  timer2_at :: "nat option"
  timer3_at :: "nat option"
  pulse_led :: bool
  pulses :: "nat list"
  adc_windows :: nat
  lms_side :: lms_env

definition TX_DELAY_US :: nat where "TX_DELAY_US = 2500"

text \<open>\<open>PULSE_ON\<close> and \<open>PULSE_OFF\<close> write the pin; \<open>pulses\<close> records when a pulse began.\<close>

definition PULSE_ON :: "pulse_gen \<Rightarrow> pulse_gen" where
  "PULSE_ON s = s\<lparr>pulse_led := True, pulses := pulses s @ [clock_us s]\<rparr>"

definition PULSE_OFF :: "pulse_gen \<Rightarrow> pulse_gen" where "PULSE_OFF s = s\<lparr>pulse_led := False\<rparr>"

definition start_timer3_pulseWidth :: "u32 \<Rightarrow> pulse_gen \<Rightarrow> pulse_gen" where
  "start_timer3_pulseWidth delay_us s = s\<lparr>timer3_at := Some (clock_us s + unat delay_us)\<rparr>"

definition stop_timer3_pulseWidth :: "pulse_gen \<Rightarrow> pulse_gen" where
  "stop_timer3_pulseWidth s = s\<lparr>timer3_at := None\<rparr>"

definition timer3_pulseWidth_cb :: "pulse_gen \<Rightarrow> pulse_gen" where
  "timer3_pulseWidth_cb s = PULSE_OFF (stop_timer3_pulseWidth s)"

definition start_timer2_crossPulse :: "u32 \<Rightarrow> pulse_gen \<Rightarrow> pulse_gen" where
  "start_timer2_crossPulse delay_us s = s\<lparr>timer2_at := Some (clock_us s + unat delay_us)\<rparr>"

definition stop_timer2_crossPulse :: "pulse_gen \<Rightarrow> pulse_gen" where
  "stop_timer2_crossPulse s = s\<lparr>timer2_at := None\<rparr>"

text \<open>
  The step of the lamp bus machine inside the call-back. The machine starts the transmit delay exactly
  in \<open>STATE_TX\<close>; then the deadline of that timer is set.
\<close>

definition lms_step :: "u8 option \<Rightarrow> pulse_gen \<Rightarrow> pulse_gen option" where
  "lms_step rx s =
    map_option (\<lambda>e. s\<lparr>lms_side := e,
        timer0_at := if lms_st (g_lms (lms_side s)) = STATE_TX then Some (clock_us s + TX_DELAY_US) else timer0_at s\<rparr>)
      (lms_state_machine rx (lms_side s))"

text \<open>
  The zero-cross call-back; \<open>get_dma_data\<close> and \<open>cal_rms\<close> hand one window of samples to the RMS
  computation, which touches none of this state: the windows are counted.
\<close>

definition timer2_crossPulse_cb :: "u8 option \<Rightarrow> pulse_gen \<Rightarrow> pulse_gen option" where
  "timer2_crossPulse_cb rx s =
    (let s = start_timer3_pulseWidth 1000 (PULSE_ON s);
         s = (if g_calibrate_flag s \<noteq> 0
              then (start_timer2_crossPulse 10000 s)\<lparr>g_calibrate_flag := 0, adc_windows := adc_windows s + 1\<rparr>
              else s)
     in lms_step rx s)"

definition timer0_TxDelay_expire :: "pulse_gen \<Rightarrow> pulse_gen option" where
  "timer0_TxDelay_expire s = map_option (\<lambda>e. s\<lparr>lms_side := e, timer0_at := None\<rparr>) (timer0_TxDelay_cb (lms_side s))"

definition MinCaptureCurWidth_us :: u32 where "MinCaptureCurWidth_us = 10500"
definition MaxCaptureCurWidth_us :: u32 where "MaxCaptureCurWidth_us = 19500"

text \<open>The width of the low phase; the capture timer wraps at a second.\<close>

definition pulse_width :: "u32 \<Rightarrow> u32 \<Rightarrow> u32" where
  "pulse_width t1 t2 = (if t2 > t1 then t2 - t1 else 1000000 - t1 + t2)"

definition valid_width :: "u32 \<Rightarrow> bool" where
  "valid_width x \<longleftrightarrow> MinCaptureCurWidth_us \<le> x \<and> x \<le> MaxCaptureCurWidth_us"

text \<open>
  The edge interrupt: \<open>low\<close> says that the pin reads low, \<open>usec\<close> is the microseconds of the capture timer.
\<close>

definition int1_callback :: "bool \<Rightarrow> u32 \<Rightarrow> pulse_gen \<Rightarrow> pulse_gen" where
  "int1_callback low usec s =
    (if low then
       (let s = (if t1_us s > t1_max s then s\<lparr>t1_max := t1_us s\<rparr> else s);
            s = s\<lparr>t1_us := usec\<rparr>
        in if g_calibrate_flag s \<noteq> 0 then start_timer2_crossPulse (cross_pulse_us s) s else s)
     else
       (let s = s\<lparr>t2_us := usec\<rparr>;
            s = (if t2_us s > t2_max s then s\<lparr>t2_max := t2_us s\<rparr> else s);
            s = s\<lparr>icr1_time := pulse_width (t1_us s) (t2_us s)\<rparr>
        in if valid_width (icr1_time s)
           then s\<lparr>cross_pulse_us := icr1_time s div 2 - 5 * 1000, g_calibrate_flag := 1\<rparr>
           else s))"

text \<open>The state after \<open>pulse_generate_init\<close>: the statics are zero and no timer runs.\<close>

definition pulse_generate_init :: "u32 list \<Rightarrow> lms_env \<Rightarrow> pulse_gen" where
  "pulse_generate_init mb_pool e =
    \<lparr>clock_us = 0, g_calibrate_flag = 0, icr1_time = 0, t1_us = 0, t2_us = 0, cross_pulse_us = 0, t1_max = 0,
     t2_max = 0, timer0_at = None, timer2_at = None, timer3_at = None, pulse_led = False, pulses = [],
     adc_windows = 0, lms_side = lms_init mb_pool e\<rparr>"

section \<open>Running on a clock\<close>

text \<open>
  The interrupts in the order of their times. \<open>due t s\<close> is the running timer with the earliest
  deadline not after \<open>t\<close>.
\<close>

datatype hw_timer = Timer0 | Timer2 | Timer3

fun armed :: "hw_timer \<Rightarrow> nat option \<Rightarrow> (nat \<times> hw_timer) list" where
  "armed tm None = []"
| "armed tm (Some d) = [(d, tm)]"

definition running :: "pulse_gen \<Rightarrow> (nat \<times> hw_timer) list" where
  "running s = armed Timer2 (timer2_at s) @ armed Timer3 (timer3_at s) @ armed Timer0 (timer0_at s)"

fun earliest :: "(nat \<times> hw_timer) list \<Rightarrow> (nat \<times> hw_timer) option" where
  "earliest [] = None"
| "earliest (x # xs) = (case earliest xs of None \<Rightarrow> Some x | Some y \<Rightarrow> if fst y < fst x then Some y else Some x)"

definition due :: "nat \<Rightarrow> pulse_gen \<Rightarrow> (nat \<times> hw_timer) option" where
  "due t s = earliest (filter (\<lambda>x. fst x \<le> t) (running s))"

definition fire :: "(nat \<Rightarrow> u8 option) \<Rightarrow> hw_timer \<Rightarrow> pulse_gen \<Rightarrow> pulse_gen option" where
  "fire rx tm s =
    (case tm of Timer0 \<Rightarrow> timer0_TxDelay_expire s
     | Timer2 \<Rightarrow> timer2_crossPulse_cb (rx (clock_us s)) (stop_timer2_crossPulse s)
     | Timer3 \<Rightarrow> Some (timer3_pulseWidth_cb s))"

text \<open>All call-backs up to time \<open>t\<close>; the first argument bounds their number.\<close>

fun run_timers :: "nat \<Rightarrow> (nat \<Rightarrow> u8 option) \<Rightarrow> nat \<Rightarrow> pulse_gen \<Rightarrow> pulse_gen option" where
  "run_timers 0 rx t s = None"
| "run_timers (Suc n) rx t s =
    (case due t s of
       None \<Rightarrow> Some (s\<lparr>clock_us := t\<rparr>)
     | Some (d, tm) \<Rightarrow> do { s \<leftarrow> fire rx tm (s\<lparr>clock_us := d\<rparr>); run_timers n rx t s })"

definition edge_at :: "(nat \<Rightarrow> u8 option) \<Rightarrow> nat \<Rightarrow> bool \<Rightarrow> pulse_gen \<Rightarrow> pulse_gen option" where
  "edge_at rx t low s = do {
     s \<leftarrow> run_timers 10 rx t s;
     Some (int1_callback low (of_nat (t mod 1000000)) s)
   }"

text \<open>
  A period of the 50 Hz mains that begins at \<open>t\<close>: the comparator falls, rises after \<open>w\<close> microseconds,
  and falls again 20 ms after the first edge.
\<close>

definition mains_period :: "(nat \<Rightarrow> u8 option) \<Rightarrow> nat \<Rightarrow> nat \<Rightarrow> pulse_gen \<Rightarrow> pulse_gen option" where
  "mains_period rx w t s = do {
     s \<leftarrow> edge_at rx t True s;
     s \<leftarrow> edge_at rx (t + w) False s;
     run_timers 10 rx (t + 20000) s
   }"

fun mains_periods :: "(nat \<Rightarrow> u8 option) \<Rightarrow> nat \<Rightarrow> nat \<Rightarrow> nat \<Rightarrow> pulse_gen \<Rightarrow> pulse_gen option" where
  "mains_periods rx w 0 t s = Some s"
| "mains_periods rx w (Suc n) t s = do { s \<leftarrow> mains_period rx w t s; mains_periods rx w n (t + 20000) s }"

section \<open>The measurement\<close>

lemmas pulse_defs = PULSE_ON_def PULSE_OFF_def start_timer3_pulseWidth_def stop_timer3_pulseWidth_def
  timer3_pulseWidth_cb_def start_timer2_crossPulse_def stop_timer2_crossPulse_def

text \<open>The width is measured right across the wrap of the capture timer.\<close>

lemma width_measured:
  assumes "0 < w" "w < 1000000"
  shows "pulse_width (of_nat (t mod 1000000)) (of_nat ((t + w) mod 1000000)) = of_nat w"
proof -
  let ?a = "t mod 1000000" and ?b = "(t + w) mod 1000000"
  have lt: "?a < 1000000" "?b < 1000000" by simp_all
  have b: "?b = (if ?a + w < 1000000 then ?a + w else ?a + w - 1000000)"
    using assms lt(1) by (simp add: mod_if [of "?a + w"] mod_add_left_eq [of t, symmetric])
  have u: "unat (of_nat n :: u32) = n" if "n < 1000000" for n
    using that by (simp add: unat_of_nat)
  have less: "(of_nat ?b :: u32) > of_nat ?a \<longleftrightarrow> ?b > ?a"
    unfolding word_less_nat_alt using u lt by simp
  show ?thesis
  proof (cases "?a + w < 1000000")
    case True
    then have "of_nat ?b = (of_nat ?a + of_nat w :: u32)" "?b > ?a" using b assms by simp_all
    then show ?thesis unfolding pulse_width_def less by simp
  next
    case False
    then have "?b + 1000000 = ?a + w" "\<not> ?b > ?a" using b assms lt by simp_all
    then have "of_nat (?b + 1000000) = (of_nat (?a + w) :: u32)" by simp
    then have "of_nat ?b + 1000000 = (of_nat ?a + of_nat w :: u32)" by simp
    then show ?thesis unfolding pulse_width_def less using \<open>\<not> ?b > ?a\<close> by (simp add: algebra_simps)
  qed
qed

section \<open>Half waves\<close>

lemma lms_cycle_ok:
  assumes "env_inv e" "\<not> txDelay e"
  shows "\<exists>e'. lms_cycle rx e = Some e' \<and> env_inv e' \<and> \<not> txDelay e'"
proof (cases "lms_st (g_lms e) = STATE_TX")
  case True
  have "\<exists>e'. timer0_TxDelay_cb (e\<lparr>txDelay := True\<rparr>) = Some e' \<and> env_inv e'"
    using delay_LS [OF cycle_TX(2) [OF assms(1) True]] delay_SS [OF cycle_TX(2) [OF assms(1) True]]
    by (cases "send_state (g_lms e)") auto
  then obtain e' where e': "timer0_TxDelay_cb (e\<lparr>txDelay := True\<rparr>) = Some e'" "env_inv e'" by blast
  have "\<not> txDelay e'"
    using e'(1) by (auto simp: lms_ops Let_def bind_eq_Some_conv split: Send_State_E.splits if_splits)
  with e' show ?thesis by (simp add: cycle_TX(1) [OF assms(1) True])
next
  case False
  from tick_inv [OF assms(1), of rx] obtain e' where e': "lms_state_machine rx e = Some e'" "env_inv e'" by blast
  have "txDelay e' = txDelay e"
    using e'(1) False
    by (auto simp: lms_state_machine_def lms_recving_def Let_def bind_eq_Some_conv
        split: LMS_STATE_E.splits if_splits)
  with e' assms(2) show ?thesis by (simp add: lms_cycle_def)
qed

lemma run_timers_step:
  "due t s = Some (d, tm) \<Longrightarrow> fire rx tm (s\<lparr>clock_us := d\<rparr>) = Some s' \<Longrightarrow> run_timers n rx t s' = Some r \<Longrightarrow>
     run_timers (Suc n) rx t s = Some r"
  by simp

lemma run_timers_more: "run_timers n rx t s = Some r \<Longrightarrow> run_timers (Suc n) rx t s = Some r"
proof (induction n arbitrary: s)
  case (Suc n)
  show ?case
  proof (cases "due t s")
    case None
    then show ?thesis using Suc.prems by simp
  next
    case (Some x)
    obtain d tm where x: "x = (d, tm)" by (cases x)
    obtain s' where s': "fire rx tm (s\<lparr>clock_us := d\<rparr>) = Some s'" "run_timers n rx t s' = Some r"
      using Suc.prems Some x by (auto simp: bind_eq_Some_conv)
    show ?thesis by (rule run_timers_step [OF Some [unfolded x] s'(1) Suc.IH [OF s'(2)]])
  qed
qed simp

lemma run_timers_mono: "run_timers n rx t s = Some r \<Longrightarrow> n \<le> m \<Longrightarrow> run_timers m rx t s = Some r"
  by (induction m) (auto simp: le_Suc_eq simp del: run_timers.simps dest: run_timers_more)

lemma run_timers_clock: fixes s :: pulse_gen shows "run_timers n rx t (s\<lparr>clock_us := c\<rparr>) = run_timers n rx t s"
  by (cases n) (auto simp: due_def running_def split: option.splits)

text \<open>
  One zero crossing: the pulse begins at the deadline and ends 1 ms later, the machine makes one cycle,
  and the timer is running again for the second crossing exactly when the flag was set.
\<close>

definition crossed :: "nat \<Rightarrow> lms_env \<Rightarrow> pulse_gen \<Rightarrow> pulse_gen" where
  "crossed p e s = s\<lparr>clock_us := p, g_calibrate_flag := 0,
     timer0_at := None, timer2_at := if g_calibrate_flag s \<noteq> 0 then Some (p + 10000) else None, timer3_at := None,
     pulse_led := False, pulses := pulses s @ [p],
     adc_windows := adc_windows s + (if g_calibrate_flag s \<noteq> 0 then 1 else 0), lms_side := e\<rparr>"

lemma crossing:
  assumes inv: "env_inv (lms_side s)" "\<not> txDelay (lms_side s)"
    and tm: "timer2_at s = Some p" "timer3_at s = None" "timer0_at s = None" and t: "p + 2500 \<le> t"
  shows "\<exists>e. lms_cycle (rx p) (lms_side s) = Some e \<and> env_inv e \<and> \<not> txDelay e \<and>
    (\<forall>n r. run_timers n rx t (crossed p e s) = Some r \<longrightarrow> run_timers (n + 3) rx t s = Some r)"
proof -
  obtain e where e: "lms_cycle (rx p) (lms_side s) = Some e" "env_inv e" "\<not> txDelay e"
    using lms_cycle_ok [OF inv] by blast
  obtain e1 where e1: "lms_state_machine (rx p) (lms_side s) = Some e1" using e(1) by (auto simp: lms_cycle_def bind_eq_Some_conv)
  let ?f = "g_calibrate_flag s \<noteq> 0" and ?tx = "lms_st (g_lms (lms_side s)) = STATE_TX"
  have tx: "txDelay e1 = ?tx"
    using e1 inv(2) by (auto simp: lms_state_machine_def lms_recving_def timer0_txDelay_start_def Let_def bind_eq_Some_conv
        split: LMS_STATE_E.splits if_splits)
  define s1 where "s1 = s\<lparr>clock_us := p, g_calibrate_flag := 0,
     timer0_at := if ?tx then Some (p + 2500) else None, timer2_at := if ?f then Some (p + 10000) else None,
     timer3_at := Some (p + 1000), pulse_led := True, pulses := pulses s @ [p],
     adc_windows := adc_windows s + (if ?f then 1 else 0), lms_side := e1\<rparr>"
  define s2 where "s2 = s1\<lparr>clock_us := p + 1000, timer3_at := None, pulse_led := False\<rparr>"
  have f1: "due t s = Some (p, Timer2)" using tm t by (simp add: due_def running_def)
  have "fire rx Timer2 (s\<lparr>clock_us := p\<rparr>) = Some s1"
    using e1 tm by (simp add: fire_def timer2_crossPulse_cb_def pulse_defs lms_step_def Let_def TX_DELAY_US_def s1_def)
  note step1 = run_timers_step [OF f1 this]
  have f2: "due t s1 = Some (p + 1000, Timer3)" using t by (simp add: due_def running_def s1_def)
  have "fire rx Timer3 (s1\<lparr>clock_us := p + 1000\<rparr>) = Some s2" by (simp add: fire_def pulse_defs s2_def)
  note step2 = run_timers_step [OF f2 this]
  have "\<forall>n r. run_timers n rx t (crossed p e s) = Some r \<longrightarrow> run_timers (Suc n) rx t s2 = Some r"
  proof (cases ?tx)
    case True
    have f3: "due t s2 = Some (p + 2500, Timer0)" using t True by (simp add: due_def running_def s2_def s1_def)
    have "fire rx Timer0 (s2\<lparr>clock_us := p + 2500\<rparr>) = Some ((crossed p e s)\<lparr>clock_us := p + 2500\<rparr>)"
      using e(1) e1 tx True
      by (simp add: fire_def timer0_TxDelay_expire_def s2_def s1_def lms_cycle_def crossed_def)
    from run_timers_step [OF f3 this] show ?thesis by (simp only: run_timers_clock) blast
  next
    case False
    then have s2: "s2 = (crossed p e s)\<lparr>clock_us := p + 1000\<rparr>" using e(1) e1 tx by (simp add: s2_def s1_def crossed_def lms_cycle_def)
    show ?thesis unfolding s2 run_timers_clock using run_timers_more by blast
  qed
  then have "\<forall>n r. run_timers n rx t (crossed p e s) = Some r \<longrightarrow> run_timers (n + 3) rx t s = Some r"
    using step1 step2 by (simp add: numeral_3_eq_3)
  with e show ?thesis by blast
qed

section \<open>Cutting a run at an edge\<close>

lemma earliest_filter:
  assumes "t1 \<le> t2" "earliest (filter (\<lambda>x. fst x \<le> t1) xs) = Some y"
  shows "earliest (filter (\<lambda>x. fst x \<le> t2) xs) = Some y"
proof -
  have none: "earliest xs = None \<longleftrightarrow> xs = []" for xs by (cases xs) (auto split: option.splits)
  have mem: "earliest xs = Some y \<Longrightarrow> y \<in> set xs" for xs y
    by (induction xs arbitrary: y) (auto split: option.splits if_splits)
  show ?thesis using assms(2)
  proof (induction xs arbitrary: y)
    case (Cons x xs)
    let ?f = "\<lambda>t. earliest (filter (\<lambda>x. fst x \<le> t) xs)"
    show ?case
    proof (cases "?f t1")
      case None
      then have y: "y = x" "fst x \<le> t1" "\<forall>z \<in> set xs. t1 < fst z"
        using Cons.prems by (auto simp: none filter_empty_conv not_le split: if_splits)
      then have "?f t2 = Some z \<Longrightarrow> t1 < fst z" for z using mem by fastforce
      then show ?thesis using y assms(1) by (auto split: option.splits)
    next
      case (Some z)
      then have "fst z \<le> t1" using mem by fastforce
      then show ?thesis using Cons.prems Cons.IH [OF Some] Some assms(1) by (auto split: if_splits)
    qed
  qed simp
qed

lemma run_timers_cut:
  assumes "t1 \<le> t2" "run_timers n rx t2 s = Some r"
  shows "\<exists>s'. run_timers n rx t1 s = Some s' \<and> run_timers n rx t2 s' = Some r"
  using assms(2)
proof (induction n arbitrary: s)
  case (Suc n)
  show ?case
  proof (cases "due t1 s")
    case None
    then show ?thesis using Suc.prems run_timers_clock [where n = "Suc n" and s = s] by simp
  next
    case (Some x)
    obtain d tm where x: "x = (d, tm)" by (cases x)
    have d2: "due t2 s = Some (d, tm)" using earliest_filter [OF assms(1)] Some x unfolding due_def by blast
    obtain s1 where s1: "fire rx tm (s\<lparr>clock_us := d\<rparr>) = Some s1" "run_timers n rx t2 s1 = Some r"
      using Suc.prems d2 by (auto simp: bind_eq_Some_conv)
    obtain s' where s': "run_timers n rx t1 s1 = Some s'" "run_timers n rx t2 s' = Some r" using Suc.IH [OF s1(2)] by blast
    then show ?thesis using run_timers_step [OF Some [unfolded x] s1(1) s'(1)] run_timers_more [OF s'(2)] by blast
  qed
qed simp

text \<open>A rising edge in one update, and that it may come before or after the call-backs of the other two timers.\<close>

lemma rising_eq:
  "int1_callback False u s = s\<lparr>t2_us := u, t2_max := if u > t2_max s then u else t2_max s,
     icr1_time := pulse_width (t1_us s) u,
     cross_pulse_us := if valid_width (pulse_width (t1_us s) u) then pulse_width (t1_us s) u div 2 - 5000 else cross_pulse_us s,
     g_calibrate_flag := if valid_width (pulse_width (t1_us s) u) then 1 else g_calibrate_flag s\<rparr>"
  by (cases "u > t2_max s"; cases "valid_width (pulse_width (t1_us s) u)") (simp_all add: int1_callback_def Let_def)

lemma rising_fire:
  assumes "tm \<noteq> Timer2" "fire rx tm s = Some s'"
  shows "fire rx tm (int1_callback False u s) = Some (int1_callback False u s')"
  using assms
  by (cases tm) (auto simp: fire_def pulse_defs timer0_TxDelay_expire_def rising_eq cong: if_cong split del: if_split)

lemma earliest_mem: "earliest xs = Some y \<Longrightarrow> y \<in> set xs"
  by (induction xs arbitrary: y) (auto split: option.splits if_splits)

lemma due_armed:
  assumes "due t s = Some (d, Timer2)" shows "timer2_at s = Some d"
proof -
  have "(d, Timer2) \<in> set (running s)" using earliest_mem assms unfolding due_def by fastforce
  then show ?thesis
    by (cases "timer2_at s"; cases "timer3_at s"; cases "timer0_at s") (simp_all add: running_def)
qed

lemma fire_keeps_timer2:
  "tm \<noteq> Timer2 \<Longrightarrow> fire rx tm s = Some s' \<Longrightarrow> timer2_at s' = timer2_at s"
  by (cases tm) (auto simp: fire_def pulse_defs timer0_TxDelay_expire_def)

lemma run_timers_rising:
  assumes "timer2_at s = None" "run_timers n rx t s = Some r"
  shows "run_timers n rx t (int1_callback False u s) = Some (int1_callback False u r)"
  using assms
proof (induction n arbitrary: s)
  case (Suc n)
  have due: "due t (int1_callback False u s) = due t s"
    by (simp add: due_def running_def rising_eq)
  have clk: "(int1_callback False u s)\<lparr>clock_us := d\<rparr> = int1_callback False u (s\<lparr>clock_us := d\<rparr>)" for d
    by (simp add: rising_eq)
  show ?case
  proof (cases "due t s")
    case None
    then show ?thesis using Suc.prems by (auto simp: due clk)
  next
    case (Some x)
    obtain d tm where x: "x = (d, tm)" by (cases x)
    obtain s1 where s1: "fire rx tm (s\<lparr>clock_us := d\<rparr>) = Some s1" "run_timers n rx t s1 = Some r"
      using Suc.prems Some x by (auto simp: bind_eq_Some_conv)
    have tm: "tm \<noteq> Timer2" using due_armed [of t s d] Some x Suc.prems(1) by auto
    have "timer2_at s1 = None" using fire_keeps_timer2 [OF tm s1(1)] Suc.prems(1) by simp
    then show ?thesis
      using Suc.IH s1(2) rising_fire [OF tm s1(1)] Some x by (simp add: due clk)
  qed
qed simp

lemma run_timers_no_timer2:
  "timer2_at s = None \<Longrightarrow> run_timers n rx t s = Some r \<Longrightarrow> timer2_at r = None"
proof (induction n arbitrary: s)
  case (Suc n)
  show ?case
  proof (cases "due t s")
    case (Some x)
    obtain d tm where x: "x = (d, tm)" by (cases x)
    obtain s1 where s1: "fire rx tm (s\<lparr>clock_us := d\<rparr>) = Some s1" "run_timers n rx t s1 = Some r"
      using Suc.prems Some x by (auto simp: bind_eq_Some_conv)
    have "tm \<noteq> Timer2" using due_armed [of t s d] Some x Suc.prems(1) by auto
    then show ?thesis using Suc.IH [OF _ s1(2)] fire_keeps_timer2 [OF _ s1(1)] Suc.prems(1) by simp
  qed (use Suc.prems in auto)
qed simp

lemma last_crossing:
  assumes "timer2_at s = Some p" "timer3_at s = None" "timer0_at s = None" "g_calibrate_flag s = 0" "p \<le> t"
    "run_timers n rx t s = Some r"
  shows "timer2_at r = None"
proof (cases n)
  case (Suc m)
  have due: "due t s = Some (p, Timer2)" using assms by (simp add: due_def running_def)
  obtain s1 where s1: "fire rx Timer2 (s\<lparr>clock_us := p\<rparr>) = Some s1" "run_timers m rx t s1 = Some r"
    using assms(6) due Suc by (auto simp: bind_eq_Some_conv)
  have "timer2_at s1 = None"
    using s1(1) assms(4) by (auto simp: fire_def timer2_crossPulse_cb_def pulse_defs lms_step_def Let_def)
  then show ?thesis using run_timers_no_timer2 s1(2) by blast
qed (use assms in simp)

section \<open>Periods of the mains\<close>

text \<open>The state between two periods, when the last low phase had width \<open>w\<close>.\<close>

definition locked :: "nat \<Rightarrow> pulse_gen \<Rightarrow> bool" where
  "locked w s \<longleftrightarrow> g_calibrate_flag s = 1 \<and> cross_pulse_us s = of_nat (w div 2 - 5000) \<and>
     timer0_at s = None \<and> timer2_at s = None \<and> timer3_at s = None \<and> \<not> pulse_led s \<and>
     env_inv (lms_side s) \<and> \<not> txDelay (lms_side s)"

lemma width_ok:
  assumes "10500 \<le> w" "w \<le> 19500"
  shows "valid_width (of_nat w)" "unat (of_nat (w div 2 - 5000) :: u32) = w div 2 - 5000"
    "(of_nat w :: u32) div 2 - 5000 = of_nat (w div 2 - 5000)"
proof -
  have w: "unat (of_nat w :: u32) = w" using assms by (simp add: unat_of_nat)
  then show "valid_width (of_nat w)" using assms
    by (simp add: valid_width_def MinCaptureCurWidth_us_def MaxCaptureCurWidth_us_def word_le_nat_alt)
  show "unat (of_nat (w div 2 - 5000) :: u32) = w div 2 - 5000"
    unfolding unat_of_nat using assms by simp
  have "(of_nat w :: u32) div 2 = of_nat (w div 2)" using w by (simp add: word_arith_nat_div)
  then show "(of_nat w :: u32) div 2 - 5000 = of_nat (w div 2 - 5000)" using assms by simp
qed

lemma idle_timers_run:
  assumes "timer0_at s = None" "timer2_at s = None" "timer3_at s = None"
  shows "run_timers (Suc n) rx t s = Some (s\<lparr>clock_us := t\<rparr>)"
  using assms by (simp add: due_def running_def)

lemma one_period:
  fixes t :: nat
  assumes w: "10500 \<le> w" "w \<le> 19500" and s: "locked w s"
  defines "p \<equiv> t + w div 2 - 5000"
  shows "\<exists>s'. mains_period rx w t s = Some s' \<and> locked w s' \<and> pulses s' = pulses s @ [p, p + 10000] \<and>
    lms_cycles [rx p, rx (p + 10000)] (lms_side s) = Some (lms_side s') \<and> adc_windows s' = adc_windows s + 1"
proof -
  let ?u = "of_nat (t mod 1000000) :: u32" and ?v = "of_nat ((t + w) mod 1000000) :: u32"
  define s1 where "s1 = int1_callback True ?u (s\<lparr>clock_us := t\<rparr>)"
  have s1: "timer2_at s1 = Some p" "timer3_at s1 = None" "timer0_at s1 = None" "g_calibrate_flag s1 = 1"
    "t1_us s1 = ?u" "lms_side s1 = lms_side s" "pulses s1 = pulses s" "adc_windows s1 = adc_windows s"
    using s w width_ok(2) [OF w]
    by (simp_all add: s1_def int1_callback_def locked_def Let_def start_timer2_crossPulse_def p_def)
  have inv1: "env_inv (lms_side s1)" "\<not> txDelay (lms_side s1)" using s s1 by (simp_all add: locked_def)
  obtain e1 where e1: "lms_cycle (rx p) (lms_side s1) = Some e1" "env_inv e1" "\<not> txDelay e1"
    "\<forall>n r. run_timers n rx (t + w) (crossed p e1 s1) = Some r \<longrightarrow> run_timers (n + 3) rx (t + w) s1 = Some r"
    using crossing [OF inv1 s1(1-3), of "t + w" rx] w unfolding p_def by fastforce
  define s2 where "s2 = crossed p e1 s1"
  have s2: "timer2_at s2 = Some (p + 10000)" "timer3_at s2 = None" "timer0_at s2 = None" "g_calibrate_flag s2 = 0"
    "lms_side s2 = e1" using s1 by (simp_all add: s2_def crossed_def)
  have inv2: "env_inv (lms_side s2)" "\<not> txDelay (lms_side s2)" using e1 s2 by simp_all
  obtain e2 where e2: "lms_cycle (rx (p + 10000)) e1 = Some e2" "env_inv e2" "\<not> txDelay e2"
    "\<forall>n r. run_timers n rx (t + 20000) (crossed (p + 10000) e2 s2) = Some r \<longrightarrow> run_timers (n + 3) rx (t + 20000) s2 = Some r"
    using crossing [OF inv2 s2(1-3), of "t + 20000" rx] w s2(5) unfolding p_def by fastforce
  define r where "r = (crossed (p + 10000) e2 s2)\<lparr>clock_us := t + 20000\<rparr>"
  have "run_timers 1 rx (t + 20000) (crossed (p + 10000) e2 s2) = Some r"
    using idle_timers_run [of "crossed (p + 10000) e2 s2" 0] s2(4) unfolding r_def by (simp add: crossed_def)
  with e2(4) have "run_timers (1 + 3) rx (t + 20000) s2 = Some r" by blast
  from run_timers_cut [OF _ this, of "t + w"] w obtain sw where sw: "run_timers 4 rx (t + w) s2 = Some sw"
    "run_timers 4 rx (t + 20000) sw = Some r" by auto
  have none: "timer2_at sw = None"
    by (rule last_crossing [OF s2(1-4) _ sw(1)]) (use w in \<open>simp add: p_def\<close>)
  have "run_timers (4 + 3) rx (t + w) s1 = Some sw" using e1(4) sw(1) unfolding s2_def by blast
  then have a: "run_timers 10 rx (t + w) s1 = Some sw" by (rule run_timers_mono) simp
  have b: "run_timers 10 rx (t + 20000) (int1_callback False ?v sw) = Some (int1_callback False ?v r)"
    by (rule run_timers_mono [OF run_timers_rising [OF none sw(2)]]) simp
  have "run_timers 10 rx t s = Some (s\<lparr>clock_us := t\<rparr>)"
    using idle_timers_run [of s 9 rx t] s by (simp add: locked_def del: run_timers.simps)
  then have m: "mains_period rx w t s = Some (int1_callback False ?v r)"
    using a b by (simp add: mains_period_def edge_at_def s1_def del: run_timers.simps)
  have "pulse_width (t1_us r) ?v = of_nat w"
    using width_measured [of w t] w s1(5) by (simp add: r_def crossed_def s2_def)
  then have fin: "int1_callback False ?v r = r\<lparr>t2_us := ?v, t2_max := if ?v > t2_max r then ?v else t2_max r,
      icr1_time := of_nat w, cross_pulse_us := of_nat (w div 2 - 5000), g_calibrate_flag := 1\<rparr>"
    using width_ok [OF w] by (simp add: rising_eq)
  show ?thesis
    unfolding m fin using s1 s2 e1 e2 by (simp add: locked_def r_def crossed_def s2_def)
qed

text \<open>The first low phase is only measured; from then on every period gives two crossings.\<close>

lemma first_period:
  assumes w: "10500 \<le> w" "w \<le> 19500" and pool: "length pool = 32" "\<not> txDelay e"
  shows "\<exists>s. mains_period rx w t (pulse_generate_init pool e) = Some s \<and> locked w s \<and> pulses s = [] \<and>
    lms_side s = lms_init pool e \<and> adc_windows s = 0"
proof -
  let ?u = "of_nat (t mod 1000000) :: u32" and ?v = "of_nat ((t + w) mod 1000000) :: u32"
  define s0 where "s0 = pulse_generate_init pool e"
  have s0: "timer0_at s0 = None" "timer2_at s0 = None" "timer3_at s0 = None" "g_calibrate_flag s0 = 0"
    "pulses s0 = []" "lms_side s0 = lms_init pool e" "adc_windows s0 = 0" "\<not> pulse_led s0"
    by (simp_all add: s0_def pulse_generate_init_def)
  define s1 where "s1 = int1_callback True ?u (s0\<lparr>clock_us := t\<rparr>)"
  have s1: "timer0_at s1 = None" "timer2_at s1 = None" "timer3_at s1 = None" "g_calibrate_flag s1 = 0"
    "pulses s1 = []" "lms_side s1 = lms_init pool e" "adc_windows s1 = 0" "\<not> pulse_led s1" "t1_us s1 = ?u"
    using s0 by (simp_all add: s1_def int1_callback_def Let_def)
  have run: "run_timers 10 rx t' s = Some (s\<lparr>clock_us := t'\<rparr>)"
    if "timer0_at s = None" "timer2_at s = None" "timer3_at s = None" for s t'
    using idle_timers_run [OF that, of 9 rx t'] by (simp del: run_timers.simps)
  define s2 where "s2 = int1_callback False ?v (s1\<lparr>clock_us := t + w\<rparr>)"
  have "pulse_width (t1_us s1) ?v = of_nat w" using width_measured [of w t] w s1(9) by simp
  then have s2: "timer0_at s2 = None" "timer2_at s2 = None" "timer3_at s2 = None" "g_calibrate_flag s2 = 1"
    "pulses s2 = []" "lms_side s2 = lms_init pool e" "adc_windows s2 = 0" "\<not> pulse_led s2"
    "cross_pulse_us s2 = of_nat (w div 2 - 5000)"
    using s1 width_ok [OF w] unfolding s2_def rising_eq by simp_all
  have "mains_period rx w t s0 = Some (s2\<lparr>clock_us := t + 20000\<rparr>)"
    using run [OF s0(1-3)] run [OF s1(1-3)] run [OF s2(1-3)]
    by (simp add: mains_period_def edge_at_def s1_def s2_def del: run_timers.simps)
  moreover have "env_inv (lms_init pool e)" "\<not> txDelay (lms_init pool e)"
    using env_inv_init [OF pool] pool by (simp_all add: lms_init_def)
  ultimately show ?thesis using s2 unfolding s0_def locked_def by simp
qed

text \<open>The crossings of \<open>n\<close> periods: the middle of each low phase less and plus 5 ms.\<close>

fun crossings :: "nat \<Rightarrow> nat \<Rightarrow> nat \<Rightarrow> nat list" where
  "crossings w 0 t = []"
| "crossings w (Suc n) t = [t + w div 2 - 5000, t + w div 2 + 5000] @ crossings w n (t + 20000)"

lemma lms_cycles_append: "lms_cycles (xs @ ys) e = do { e \<leftarrow> lms_cycles xs e; lms_cycles ys e }"
proof (induction xs arbitrary: e)
  case (Cons a xs)
  then show ?case by (cases "lms_cycle a e") simp_all
qed simp

lemma locked_periods:
  assumes w: "10500 \<le> w" "w \<le> 19500"
  shows "locked w s \<Longrightarrow> \<exists>s'. mains_periods rx w n t s = Some s' \<and> locked w s' \<and>
    pulses s' = pulses s @ crossings w n t \<and> lms_cycles (map rx (crossings w n t)) (lms_side s) = Some (lms_side s') \<and>
    adc_windows s' = adc_windows s + n"
proof (induction n arbitrary: s t)
  case (Suc n)
  have p: "t + w div 2 - 5000 + 10000 = t + w div 2 + 5000" using w by simp
  obtain s1 where s1: "mains_period rx w t s = Some s1" "locked w s1"
    "pulses s1 = pulses s @ [t + w div 2 - 5000, t + w div 2 + 5000]"
    "lms_cycles [rx (t + w div 2 - 5000), rx (t + w div 2 + 5000)] (lms_side s) = Some (lms_side s1)"
    "adc_windows s1 = adc_windows s + 1"
    using one_period [OF w Suc.prems, of rx t, unfolded p] by (elim exE conjE) (rule that)
  obtain s2 where s2: "mains_periods rx w n (t + 20000) s1 = Some s2" "locked w s2"
    "pulses s2 = pulses s1 @ crossings w n (t + 20000)"
    "lms_cycles (map rx (crossings w n (t + 20000))) (lms_side s1) = Some (lms_side s2)"
    "adc_windows s2 = adc_windows s1 + n" using Suc.IH [OF s1(2), of "t + 20000"] by (elim exE conjE) (rule that)
  have "lms_cycles ([rx (t + w div 2 - 5000), rx (t + w div 2 + 5000)] @ map rx (crossings w n (t + 20000))) (lms_side s) =
      Some (lms_side s2)" using s1(4) s2(4) by (simp only: lms_cycles_append bind.bind_lunit)
  then show ?case using s1 s2 by simp
qed simp



section \<open>Any comparator signal\<close>

text \<open>
  The steps under an arbitrary signal: time passes while no timer is due, a timer that is due runs its
  call-back, an edge of either kind comes. The capture timer is read as a single-precision float, which
  gets coarser the longer the board runs: its reading is any number, unless \<open>exact\<close> asks for the
  microseconds of the clock.
\<close>

inductive pulse_step :: "(nat \<Rightarrow> u8 option) \<Rightarrow> bool \<Rightarrow> pulse_gen \<Rightarrow> pulse_gen \<Rightarrow> bool" for rx exact where
  time: "clock_us s < t \<Longrightarrow> due (t - 1) s = None \<Longrightarrow> pulse_step rx exact s (s\<lparr>clock_us := t\<rparr>)"
| timer: "due (clock_us s) s = Some (d, tm) \<Longrightarrow> fire rx tm s = Some s' \<Longrightarrow> pulse_step rx exact s s'"
| edge: "\<not> exact \<or> usec = of_nat (clock_us s mod 1000000) \<Longrightarrow> pulse_step rx exact s (int1_callback low usec s)"

inductive pulse_reach :: "(nat \<Rightarrow> u8 option) \<Rightarrow> bool \<Rightarrow> pulse_gen \<Rightarrow> bool" for rx exact where
  start: "length pool = 32 \<Longrightarrow> \<not> txDelay e \<Longrightarrow> pulse_reach rx exact (pulse_generate_init pool e)"
| step: "pulse_reach rx exact s \<Longrightarrow> pulse_step rx exact s s' \<Longrightarrow> pulse_reach rx exact s'"

inductive_cases pulse_stepE: "pulse_step rx exact s s'"

definition within :: "nat \<Rightarrow> nat \<Rightarrow> nat option \<Rightarrow> bool" where
  "within c k x = (case x of None \<Rightarrow> True | Some d \<Rightarrow> c \<le> d \<and> d \<le> c + k)"

definition pulse_inv :: "pulse_gen \<Rightarrow> bool" where
  "pulse_inv s \<longleftrightarrow> env_inv (lms_side s) \<and>
     (g_calibrate_flag s = 0 \<or> g_calibrate_flag s = 1 \<and> 250 \<le> unat (cross_pulse_us s) \<and> unat (cross_pulse_us s) \<le> 4750) \<and>
     within (clock_us s) 10000 (timer2_at s) \<and> within (clock_us s) 1000 (timer3_at s) \<and>
     within (clock_us s) 2500 (timer0_at s) \<and> (txDelay (lms_side s) \<longleftrightarrow> timer0_at s \<noteq> None) \<and>
     (pulse_led s \<longleftrightarrow> timer3_at s \<noteq> None) \<and>
     (timer3_at s = None \<or> pulses s \<noteq> [] \<and> timer3_at s = Some (last (pulses s) + 1000))"

lemma within_simps [simp]: "within c k None" "within c k (Some d) \<longleftrightarrow> c \<le> d \<and> d \<le> c + k"
  by (simp_all add: within_def)

lemma within_later:
  assumes "within c k x" "c \<le> t" "\<And>d. x = Some d \<Longrightarrow> t \<le> d" shows "within t k x"
  using assms by (cases x) auto

lemma earliest_None: "earliest xs = None \<longleftrightarrow> xs = []"
  by (cases xs) (auto split: option.splits)

lemma armed_simps [simp]: "x \<in> set (armed tm a) \<longleftrightarrow> snd x = tm \<and> a = Some (fst x)"
  by (cases a; cases x) auto

lemma due_None:
  assumes "due t s = None"
  shows "timer0_at s = Some d \<Longrightarrow> t < d" "timer2_at s = Some d \<Longrightarrow> t < d" "timer3_at s = Some d \<Longrightarrow> t < d"
proof -
  have "\<forall>x \<in> set (running s). t < fst x"
    using assms unfolding due_def earliest_None by (simp only: filter_empty_conv not_le) 
  then show "timer0_at s = Some d \<Longrightarrow> t < d" "timer2_at s = Some d \<Longrightarrow> t < d" "timer3_at s = Some d \<Longrightarrow> t < d"
    by (auto simp: running_def)
qed

lemma due_running: "due t s = Some x \<Longrightarrow> x \<in> set (running s) \<and> fst x \<le> t"
  using earliest_mem [of "filter (\<lambda>x. fst x \<le> t) (running s)" x] by (simp add: due_def)

lemma due_deadline:
  assumes "due t s = Some (d, tm)"
  shows "(case tm of Timer0 \<Rightarrow> timer0_at s | Timer2 \<Rightarrow> timer2_at s | Timer3 \<Rightarrow> timer3_at s) = Some d \<and> d \<le> t"
  using due_running [OF assms]
  by (cases "timer2_at s"; cases "timer3_at s"; cases "timer0_at s") (auto simp: running_def)

lemma valid_cross:
  assumes "valid_width x" shows "250 \<le> unat (x div 2 - 5000)" "unat (x div 2 - 5000) \<le> 4750"
proof -
  have x: "10500 \<le> unat x" "unat x \<le> 19500"
    using assms by (simp_all add: valid_width_def MinCaptureCurWidth_us_def MaxCaptureCurWidth_us_def word_le_nat_alt)
  have d: "unat (x div 2) = unat x div 2" by (simp add: unat_div)
  then have "unat (x div 2 - 5000) = unat x div 2 - 5000"
    using x by (subst unat_sub) (simp_all add: word_le_nat_alt)
  then show "250 \<le> unat (x div 2 - 5000)" "unat (x div 2 - 5000) \<le> 4750" using x by simp_all
qed

lemma falling_eq:
  "int1_callback True u s = s\<lparr>t1_max := if t1_us s > t1_max s then t1_us s else t1_max s, t1_us := u,
     timer2_at := if g_calibrate_flag s \<noteq> 0 then Some (clock_us s + unat (cross_pulse_us s)) else timer2_at s\<rparr>"
  by (cases "t1_us s > t1_max s"; cases "g_calibrate_flag s = 0")
    (simp_all add: int1_callback_def Let_def start_timer2_crossPulse_def)

lemma fire_timer2:
  assumes "lms_state_machine (rx (clock_us s)) (lms_side s) = Some e"
  shows "fire rx Timer2 s = Some (s\<lparr>g_calibrate_flag := 0,
     timer0_at := if lms_st (g_lms (lms_side s)) = STATE_TX then Some (clock_us s + 2500) else timer0_at s,
     timer2_at := if g_calibrate_flag s \<noteq> 0 then Some (clock_us s + 10000) else None,
     timer3_at := Some (clock_us s + 1000), pulse_led := True, pulses := pulses s @ [clock_us s],
     adc_windows := adc_windows s + (if g_calibrate_flag s \<noteq> 0 then 1 else 0), lms_side := e\<rparr>)"
  using assms by (simp add: fire_def timer2_crossPulse_cb_def pulse_defs lms_step_def Let_def TX_DELAY_US_def)

lemma edge_inv: "pulse_inv s \<Longrightarrow> pulse_inv (int1_callback low u s)"
proof (cases low)
  case True
  assume "pulse_inv s"
  then show ?thesis using True by (auto simp: falling_eq pulse_inv_def)
next
  case False
  assume "pulse_inv s"
  then show ?thesis using False valid_cross [of "pulse_width (t1_us s) u"] by (simp add: rising_eq pulse_inv_def)
qed

lemma machine_tx:
  assumes "env_inv e" "lms_state_machine rx e = Some e'"
  shows "env_inv e'" "txDelay e' \<longleftrightarrow> txDelay e \<or> lms_st (g_lms e) = STATE_TX"
proof -
  show "env_inv e'" using tick_inv [OF assms(1), of rx] assms(2) by auto
  show "txDelay e' \<longleftrightarrow> txDelay e \<or> lms_st (g_lms e) = STATE_TX"
  proof (cases "lms_st (g_lms e) = STATE_TX")
    case True
    then show ?thesis using assms(2) by (auto simp: lms_state_machine_def timer0_txDelay_start_def)
  next
    case False
    then show ?thesis
      using assms(2)
      by (auto simp: lms_state_machine_def lms_recving_def Let_def bind_eq_Some_conv
          split: LMS_STATE_E.splits if_splits)
  qed
qed

lemma timer_inv:
  assumes inv: "pulse_inv s" and due: "due (clock_us s) s = Some (d, tm)"
  shows "\<exists>s'. fire rx tm s = Some s' \<and> pulse_inv s'"
proof (cases tm)
  case Timer0
  then have tx: "txDelay (lms_side s)" and e: "env_inv (lms_side s)"
    using due_deadline [OF due] inv by (auto simp: pulse_inv_def)
  have "\<exists>e'. timer0_TxDelay_cb (lms_side s) = Some e' \<and> env_inv e'"
    using delay_LS [OF e tx] delay_SS [OF e tx] by (cases "send_state (g_lms (lms_side s))") auto
  then obtain e' where e': "timer0_TxDelay_cb (lms_side s) = Some e'" "env_inv e'" by blast
  have "\<not> txDelay e'"
    using e'(1) by (auto simp: lms_ops Let_def bind_eq_Some_conv split: Send_State_E.splits if_splits)
  then show ?thesis using e' inv Timer0 by (simp add: fire_def timer0_TxDelay_expire_def pulse_inv_def)
next
  case Timer3
  then show ?thesis using inv by (simp add: fire_def pulse_defs pulse_inv_def)
next
  case Timer2
  have e: "env_inv (lms_side s)" using inv by (simp add: pulse_inv_def)
  obtain e' where e': "lms_state_machine (rx (clock_us s)) (lms_side s) = Some e'" using tick_inv [OF e] by blast
  show ?thesis
    unfolding Timer2 fire_timer2 [where rx = rx, OF e'] using machine_tx [OF e e'] inv by (simp add: pulse_inv_def)
qed

lemma reach_inv: "pulse_reach rx exact s \<Longrightarrow> pulse_inv s"
proof (induction rule: pulse_reach.induct)
  case (start pool e)
  then show ?case using env_inv_init [OF start] by (simp add: pulse_inv_def pulse_generate_init_def lms_init_def)
next
  case (step s s')
  from step.hyps(2) show ?case
  proof (cases rule: pulse_step.cases)
    case (time t)
    have later: "within (clock_us s) k x \<Longrightarrow> (\<And>d. x = Some d \<Longrightarrow> t - 1 < d) \<Longrightarrow> within t k x" for k x
      by (rule within_later) (use time(2) in fastforce)+
    then show ?thesis
      using step.IH later [OF _ due_None(1) [OF time(3)]] later [OF _ due_None(2) [OF time(3)]]
        later [OF _ due_None(3) [OF time(3)]] unfolding time(1) by (simp add: pulse_inv_def)
  next
    case (timer d tm)
    then show ?thesis using timer_inv [OF step.IH timer(1), of rx] by auto
  next
    case (edge low u)
    then show ?thesis using edge_inv [OF step.IH] by simp
  qed
qed

text \<open>
  How close zero crossings can come when the capture timer is read exactly. \<open>f\<close> is the time of the last
  falling edge. A crossing is brought forward only by a falling edge that finds the flag set, and the
  flag is set only by a rising edge 10.5 ms or more after the last falling one.
\<close>

definition spaced :: "nat \<Rightarrow> pulse_gen \<Rightarrow> bool" where
  "spaced f s \<longleftrightarrow> f \<le> clock_us s \<and> t1_us s = of_nat (f mod 1000000) \<and>
     (pulses s \<noteq> [] \<longrightarrow> last (pulses s) \<le> clock_us s \<and>
        (\<forall>d. timer2_at s = Some d \<longrightarrow> last (pulses s) + 10000 \<le> d \<or> last (pulses s) \<le> f)) \<and>
     (butlast (pulses s) \<noteq> [] \<longrightarrow> (let k = last (butlast (pulses s)) in
        (k + 10000 \<le> last (pulses s) \<or> k \<le> f) \<and>
        (\<forall>d. timer2_at s = Some d \<longrightarrow> k + 10000 \<le> d) \<and>
        (g_calibrate_flag s \<noteq> 0 \<longrightarrow> k + 10000 \<le> clock_us s))) \<and>
     (\<forall>i. i + 2 < length (pulses s) \<longrightarrow> pulses s ! i + 10000 \<le> pulses s ! (i + 2))"

lemma valid_elapsed:
  assumes "valid_width (pulse_width (of_nat (f mod 1000000)) (of_nat (t mod 1000000)))" "f \<le> t"
  shows "f + 10500 \<le> t"
proof (rule ccontr)
  assume n: "\<not> f + 10500 \<le> t"
  show False
  proof (cases "t = f")
    case True
    then show False
      using assms(1) by (simp add: pulse_width_def valid_width_def MaxCaptureCurWidth_us_def)
  next
    case False
    then have "pulse_width (of_nat (f mod 1000000)) (of_nat (t mod 1000000)) = of_nat (t - f)"
      using width_measured [of "t - f" f] assms(2) n by simp
    moreover have "unat (of_nat (t - f) :: u32) = t - f" using n by (simp add: unat_of_nat)
    ultimately show False
      using assms(1) n by (auto simp: valid_width_def MinCaptureCurWidth_us_def word_le_nat_alt)
  qed
qed

lemma spaced_falling:
  assumes "pulse_inv s" "spaced f s"
  shows "spaced (clock_us s) (int1_callback True (of_nat (clock_us s mod 1000000)) s)"
  using assms by (auto simp: falling_eq spaced_def Let_def pulse_inv_def)

lemma spaced_rising:
  assumes "spaced f s" "pulses s \<noteq> [] \<longrightarrow> last (pulses s) \<le> clock_us s"
  shows "spaced f (int1_callback False (of_nat (clock_us s mod 1000000)) s)"
proof (cases "valid_width (pulse_width (t1_us s) (of_nat (clock_us s mod 1000000)))")
  case True
  then have "f + 10500 \<le> clock_us s" using valid_elapsed [of f "clock_us s"] assms(1) by (simp add: spaced_def)
  then have "butlast (pulses s) \<noteq> [] \<Longrightarrow> last (butlast (pulses s)) + 10000 \<le> clock_us s"
    using assms by (cases "pulses s = []") (auto simp: spaced_def Let_def)
  then show ?thesis using assms(1) True by (auto simp: rising_eq spaced_def Let_def)
next
  case False
  then show ?thesis using assms(1) by (simp add: rising_eq spaced_def Let_def)
qed

lemma spaced_append:
  assumes "\<forall>i. i + 2 < length ps \<longrightarrow> ps ! i + 10000 \<le> ps ! (i + 2)"
    "butlast ps \<noteq> [] \<Longrightarrow> last (butlast ps) + 10000 \<le> (d :: nat)"
  shows "\<forall>i. i + 2 < length (ps @ [d]) \<longrightarrow> (ps @ [d]) ! i + 10000 \<le> (ps @ [d]) ! (i + 2)"
proof (intro allI impI)
  fix i assume i: "i + 2 < length (ps @ [d])"
  show "(ps @ [d]) ! i + 10000 \<le> (ps @ [d]) ! (i + 2)"
  proof (cases "i + 2 = length ps")
    case True
    then obtain qs a b where ps: "ps = qs @ [a, b]" "length qs = i"
      by (metis add_2_eq_Suc' append_butlast_last_id append_eq_append_conv_if append_take_drop_id
          butlast_conv_take diff_Suc_1 length_0_conv length_append_singleton nat.distinct(1) append.assoc append_Cons append_Nil)
    then show ?thesis using assms(2) by (simp add: nth_append butlast_append)
  next
    case False
    then have "i + 2 < length ps" using i by simp
    then show ?thesis using assms(1) by (simp add: nth_append)
  qed
qed

lemma spaced_crossing:
  assumes "spaced f s" "timer2_at s = Some (clock_us s)" and e: "lms_state_machine (rx (clock_us s)) (lms_side s) = Some e"
    and "fire rx Timer2 s = Some s'"
  shows "spaced f s'"
proof -
  note fired = fire_timer2 [where rx = rx, OF e]
  have s': "pulses s' = pulses s @ [clock_us s]" "g_calibrate_flag s' = 0" "clock_us s' = clock_us s" "t1_us s' = t1_us s"
    "timer2_at s' = (if g_calibrate_flag s \<noteq> 0 then Some (clock_us s + 10000) else None)"
    using assms(4) by (auto simp: fired)
  have far: "\<forall>i. i + 2 < length (pulses s') \<longrightarrow> pulses s' ! i + 10000 \<le> pulses s' ! (i + 2)"
    unfolding s'(1) by (rule spaced_append) (use assms(1,2) in \<open>auto simp: spaced_def Let_def\<close>)
  show ?thesis
    using assms(1,2) far unfolding spaced_def [of f s'] s'(2-5)
    by (auto simp: s'(1) spaced_def Let_def)
qed

lemma spaced_time: "spaced f s \<Longrightarrow> clock_us s \<le> t \<Longrightarrow> spaced f (s\<lparr>clock_us := t\<rparr>)"
  unfolding spaced_def Let_def by (simp, elim conjE, intro conjI impI; simp)

lemma spaced_same:
  assumes "spaced f s" "clock_us s' = clock_us s" "t1_us s' = t1_us s" "timer2_at s' = timer2_at s"
    "pulses s' = pulses s" "g_calibrate_flag s' = g_calibrate_flag s"
  shows "spaced f s'"
  using assms by (simp add: spaced_def)

lemma spaced_edge:
  assumes "pulse_inv s" "spaced f s" shows "\<exists>f. spaced f (int1_callback low (of_nat (clock_us s mod 1000000)) s)"
proof (cases low)
  case True
  then show ?thesis using spaced_falling [OF assms] by (simp only:) (rule exI)
next
  case False
  have "spaced f (int1_callback False (of_nat (clock_us s mod 1000000)) s)"
    by (rule spaced_rising [OF assms(2)]) (use assms(2) in \<open>simp add: spaced_def\<close>)
  then show ?thesis using False by (simp only:) (rule exI)
qed

lemma reach_spaced:
  assumes "pulse_reach rx True s" shows "\<exists>f. spaced f s"
  using assms
proof (induction rule: pulse_reach.induct)
  case (start pool e)
  show ?case by (rule exI [of _ 0]) (simp add: spaced_def pulse_generate_init_def)
next
  case (step s s')
  obtain f where f: "spaced f s" using step.IH by blast
  have inv: "pulse_inv s" by (rule reach_inv [OF step.hyps(1)])
  from step.hyps(2) show ?case
  proof (cases rule: pulse_step.cases)
    case (time t)
    then have "spaced f s'" using spaced_time [OF f, of t] by simp
    then show ?thesis ..
  next
    case (timer d tm)
    show ?thesis
    proof (cases tm)
      case Timer2
      have d: "timer2_at s = Some d" "d \<le> clock_us s" using due_deadline [OF timer(1)] Timer2 by simp_all
      then have "timer2_at s = Some (clock_us s)" using inv by (auto simp: pulse_inv_def)
      moreover have "env_inv (lms_side s)" using inv by (simp add: pulse_inv_def)
      then obtain e where "lms_state_machine (rx (clock_us s)) (lms_side s) = Some e"
        using tick_inv by blast
      ultimately have "spaced f s'" using spaced_crossing [OF f] timer(2) Timer2 by blast
      then show ?thesis ..
    next
      case Timer0
      then have "spaced f s'"
        using timer(2) by (intro spaced_same [OF f]) (auto simp: fire_def timer0_TxDelay_expire_def)
      then show ?thesis ..
    next
      case Timer3
      then have "spaced f s'" using timer(2) by (intro spaced_same [OF f]) (auto simp: fire_def pulse_defs)
      then show ?thesis ..
    qed
  next
    case (edge usec low)
    then show ?thesis using spaced_edge [OF inv f, of low] by simp
  qed
qed

text \<open>C15: Whatever the comparator does and whatever the capture timer reads, in every reachable state no
  call-back that is due fails, the zero crossing is at most 10 ms ahead, and a delay it would be started
  with lies between 0.25 and 4.75 ms. The pulse output is on exactly while the pulse timer is armed, and
  that timer switches it off 1 ms after the latest crossing: a crossing within this millisecond prolongs
  the pulse. When the capture timer is read exactly, three crossings always take at least 10 ms, so a
  pulse is prolonged at most once and ends within 2 ms of its beginning.\<close>

theorem pulse_bounded:
  assumes "pulse_reach rx exact s"
  shows "(g_calibrate_flag s \<noteq> 0 \<longrightarrow> 250 \<le> unat (cross_pulse_us s) \<and> unat (cross_pulse_us s) \<le> 4750) \<and>
    within (clock_us s) 10000 (timer2_at s) \<and> within (clock_us s) 1000 (timer3_at s) \<and>
    (if pulse_led s then pulses s \<noteq> [] \<and> timer3_at s = Some (last (pulses s) + 1000) else timer3_at s = None) \<and>
    (exact \<longrightarrow> (\<forall>i. i + 2 < length (pulses s) \<longrightarrow> pulses s ! i + 10000 \<le> pulses s ! (i + 2))) \<and>
    (\<forall>d tm. due (clock_us s) s = Some (d, tm) \<longrightarrow> (\<exists>s'. fire rx tm s = Some s'))"
proof -
  have inv: "pulse_inv s" by (rule reach_inv [OF assms])
  have "\<exists>s'. fire rx tm s = Some s'" if "due (clock_us s) s = Some (d, tm)" for d tm
    using timer_inv [OF inv that] by blast
  moreover have "exact \<longrightarrow> (\<forall>i. i + 2 < length (pulses s) \<longrightarrow> pulses s ! i + 10000 \<le> pulses s ! (i + 2))"
    using reach_spaced [of rx s] assms by (auto simp: spaced_def)
  ultimately show ?thesis using inv by (auto simp: pulse_inv_def)
qed

text \<open>A low phase of 10.5 ms in the middle of which the timer would be started 0.25 ms after the edge.\<close>

theorem pulse_bounded_witness:
  "let s = int1_callback False 10500 ((int1_callback True 0 (pulse_generate_init (replicate 32 0) (env lms_boot)))\<lparr>clock_us := 10500\<rparr>)
   in g_calibrate_flag s \<noteq> 0 \<and> 250 \<le> unat (cross_pulse_us s)"
proof -
  let ?p = "pulse_generate_init (replicate 32 0) (env lms_boot)"
  let ?q = "int1_callback True 0 ?p" and ?r = "(int1_callback True 0 ?p)\<lparr>clock_us := 10500\<rparr>"
  let ?u = "int1_callback False 10500 ?r"
  have "\<not> txDelay (env lms_boot)" by (simp add: lms_boot_def lms_init_def)
  then have r0: "pulse_reach (\<lambda>t. None) True ?p" by (intro pulse_reach.start) simp_all
  have "pulse_step (\<lambda>t. None) True ?p ?q" by (rule pulse_step.edge) (simp add: pulse_generate_init_def)
  note r1 = pulse_reach.step [OF r0 this]
  have "pulse_step (\<lambda>t. None) True ?q ?r"
    by (rule pulse_step.time) (simp_all add: falling_eq pulse_generate_init_def due_def running_def)
  note r2 = pulse_reach.step [OF r1 this]
  have "pulse_step (\<lambda>t. None) True ?r ?u" by (rule pulse_step.edge) simp
  note r3 = pulse_reach.step [OF r2 this]
  have "g_calibrate_flag ?u \<noteq> 0"
    by (simp add: int1_callback_def Let_def pulse_generate_init_def pulse_width_def valid_width_def
        MinCaptureCurWidth_us_def MaxCaptureCurWidth_us_def)
  then show ?thesis using pulse_bounded [OF r3] unfolding Let_def by blast
qed

end
