(* ===== verification/Shell.thy ===== *)
theory Shell
  imports LmsUart
begin

text \<open>
  The shell commands of \<open>main.c\<close> that act on the lamp bus, and the hook of the idle thread. A string
  is the list of its characters before the terminating zero, \<open>argv\<close> the list of the words typed.
\<close>

section \<open>Numbers\<close>

text \<open>
  \<open>my_atoi\<close>: the digits are not checked, the result is a \<open>rt_uint16_t\<close> that wraps, and a null pointer
  (\<open>None\<close>) gives 0. The result is converted to \<open>rt_int16_t\<close>, which has the same bits.
\<close>

fun my_atoi_loop :: "u8 list \<Rightarrow> u16 \<Rightarrow> u16" where
  "my_atoi_loop [] result = result"
| "my_atoi_loop (c # pstr) result = my_atoi_loop pstr (10 * result + (ucast c - 48))"

definition my_atoi :: "u8 list option \<Rightarrow> u16" where
  "my_atoi str =
    (case str of None \<Rightarrow> 0
     | Some (c # pstr) \<Rightarrow> if c = 45 then - my_atoi_loop pstr 0 else my_atoi_loop (c # pstr) 0
     | Some [] \<Rightarrow> 0)"

section \<open>Commands\<close>

definition argument :: "u8 list list \<Rightarrow> nat \<Rightarrow> u8 list option" where
  "argument argv i = (if i < length argv then Some (argv ! i) else None)"

text \<open>The \<open>rt_int16_t\<close> arguments are cut to bytes by the parameters of \<open>build_ctrl_cmd\<close>.\<close>

definition light_on :: "u8 list list \<Rightarrow> lms_env \<Rightarrow> lms_env option" where
  "light_on argv e =
    (if length argv < 3 then Some e
     else build_ctrl_cmd (ucast (my_atoi (argument argv 1))) (ucast (my_atoi (argument argv 2))) CloseLamp_Order e)"

definition light_off :: "u8 list list \<Rightarrow> lms_env \<Rightarrow> lms_env option" where
  "light_off argv e =
    (if length argv < 3 then Some e
     else build_ctrl_cmd (ucast (my_atoi (argument argv 1))) (ucast (my_atoi (argument argv 2))) OpenLamp_Order e)"

text \<open>What \<open>disp_lms_state\<close> prints; \<open>%X\<close> of a terminal state is the item \<open>Hex\<close>.\<close>

datatype console = Str string | Hex u8

definition tab_prefix :: "string list" where
  "tab_prefix = map (\<lambda>s. s @ [CHR 0x09]) [''1-8:'', ''9-16:'', ''17-24:'', ''25-32:'']"

fun disp_loop :: "u8 list \<Rightarrow> nat list \<Rightarrow> nat \<Rightarrow> console list \<Rightarrow> console list option" where
  "disp_loop ts [] line out = Some out"
| "disp_loop ts (i # is) line out = do {
     t \<leftarrow> rd ts i;
     let out = out @ [Hex t];
     if (i + 1) AND 7 = 0 then do {
       prefix \<leftarrow> rd tab_prefix (line + 1);
       disp_loop ts is (line + 1) (out @ [Str [CHR 0x0D, CHR 0x0A], Str prefix])
     } else disp_loop ts is line out
   }"

definition disp_lms_state :: "lms_env \<Rightarrow> console list option" where
  "disp_lms_state e = do {
     prefix \<leftarrow> rd tab_prefix 0;
     disp_loop (terminalState (g_lms e)) [0..<TERMIANL_NUM] 0 [Str prefix]
   }"

text \<open>
  \<open>change_lms_state\<close>: the index is a \<open>rt_int8_t\<close> that is not checked; its value, sign-extended, is posted.
\<close>

definition change_lms_state :: "u8 list list \<Rightarrow> lms_env \<Rightarrow> lms_env option" where
  "change_lms_state argv e =
    (if length argv < 3 then Some e
     else do {
       let index = (ucast (my_atoi (argument argv 1)) :: u8);
       let data = (ucast (my_atoi (argument argv 2)) :: u8);
       ts \<leftarrow> (if sint index < 0 then None else wr (terminalState (g_lms e)) (unat index) data);
       (err, m) \<leftarrow> rt_mb_send (lms_mb e) (scast index);
       Some (upd_lms (\<lambda>l. l\<lparr>terminalState := ts\<rparr>) e\<lparr>lms_mb := m\<rparr>)
     })"

text \<open>The idle hook feeds the watchdog and toggles the lamp every 200000 calls.\<close>

record idle_state =
  idle_cnt :: u32
  pin_levle :: bool
  keepalives :: nat
  led1 :: bool

definition idle_hook :: "idle_state \<Rightarrow> idle_state" where
  "idle_hook s =
    (let s = s\<lparr>keepalives := keepalives s + 1, idle_cnt := idle_cnt s + 1\<rparr>
     in if idle_cnt s \<ge> 200000
        then s\<lparr>idle_cnt := 0, led1 := pin_levle s, pin_levle := \<not> pin_levle s\<rparr>
        else s)"

section \<open>Typed numbers\<close>

text \<open>The decimal digits of a number as they are typed.\<close>

fun dec_digits :: "nat \<Rightarrow> u8 list" where
  "dec_digits n = (if n < 10 then [] else dec_digits (n div 10)) @ [48 + of_nat (n mod 10)]"

declare dec_digits.simps [simp del]

lemma atoi_append: "my_atoi_loop (xs @ ys) r = my_atoi_loop ys (my_atoi_loop xs r)"
  by (induction xs arbitrary: r) simp_all

lemma digit_value:
  assumes "d < 10" shows "(ucast (48 + of_nat d :: u8) :: u16) - 48 = of_nat d"
proof -
  have "unat (48 + of_nat d :: u8) = 48 + d" using assms by (simp add: unat_word_ariths unat_of_nat)
  then have "(ucast (48 + of_nat d :: u8) :: u16) = of_nat (48 + d)" by (metis of_nat_unat)
  then show ?thesis by simp
qed

lemma atoi_digits: "my_atoi_loop (dec_digits n) 0 = of_nat n"
proof (induction n rule: dec_digits.induct)
  case (1 n)
  have n: "(of_nat n :: u16) = 10 * of_nat (n div 10) + of_nat (n mod 10)"
    by (metis mult_div_mod_eq of_nat_add of_nat_mult of_nat_numeral)
  show ?case
  proof (cases "n < 10")
    case True
    then show ?thesis by (subst dec_digits.simps) (simp add: atoi_append digit_value)
  next
    case False
    then show ?thesis using 1 by (subst dec_digits.simps) (simp add: atoi_append digit_value n)
  qed
qed

lemma digits_not_minus:
  obtains c cs where "dec_digits n = c # cs" "c \<noteq> 45"
proof (induction n arbitrary: thesis rule: dec_digits.induct)
  case (1 n)
  have d: "(48 + of_nat d :: u8) \<noteq> 45" if "d < 10" for d
  proof -
    have "unat (48 + of_nat d :: u8) = 48 + d" using that by (simp add: unat_word_ariths unat_of_nat)
    moreover have "unat (45 :: u8) = 45" by simp
    ultimately have "unat (48 + of_nat d :: u8) \<noteq> unat (45 :: u8)" by linarith
    then show ?thesis by metis
  qed
  show ?case
  proof (cases "n < 10")
    case True
    then show ?thesis using 1(2) d [of n] by (subst (asm) dec_digits.simps) simp
  next
    case False
    then obtain c cs where "dec_digits (n div 10) = c # cs" "c \<noteq> 45" using 1(1) by metis
    then show ?thesis using 1(2) False by (subst (asm) dec_digits.simps) simp
  qed
qed

lemma my_atoi_digits: "my_atoi (Some (dec_digits n)) = of_nat n" "my_atoi (Some (45 # dec_digits n)) = - of_nat n"
proof -
  obtain c cs where c: "dec_digits n = c # cs" "c \<noteq> 45" by (rule digits_not_minus)
  then show "my_atoi (Some (dec_digits n)) = of_nat n"
    using atoi_digits [of n] by (simp add: my_atoi_def del: my_atoi_loop.simps)
  show "my_atoi (Some (45 # dec_digits n)) = - of_nat n"
    using atoi_digits [of n] by (simp add: my_atoi_def)
qed

section \<open>Properties\<close>

lemma build_ctrl_cmd_free:
  assumes "env_inv e" "write_lock (cmd_info (g_lms e)) = 0" "g < 8"
  shows "\<exists>e'. build_ctrl_cmd g sg c e = Some e' \<and> env_inv e' \<and> send_state (g_lms e') = STATE_TX_LS \<and>
    unsent e' = lamp_bytes (g, sg, c) \<and> sent e' = sent e"
proof -
  let ?c = "cmd_info (g_lms e)"
  have ss: "send_state (g_lms e) = STATE_TX_SS"
    using assms(1,2) by (cases "send_state (g_lms e)") (auto simp: env_inv_def Let_def)
  then have i: "cmd_current_send_index ?c = 0" and len: "length (cmd_data ?c) = 3"
    using assms(1) by (simp_all add: env_inv_def Let_def)
  have d: "(cmd_data ?c)[0 := x, 1 := y, 2 := z] = [x, y, z]" for x y z
    by (simp add: list3_eq len nth_list_update)
  show ?thesis
    using assms GenSyncFrame_Cal [of g LONG_CMD]
    by (simp add: build_ctrl_cmd_def env_inv_def Let_def lamp_bytes.simps ls_ctl_def LONG_CMD_def unsent_def ss i len
        d [unfolded One_nat_def])
qed

lemma build_ctrl_cmd_sent:
  assumes "env_inv e" "write_lock (cmd_info (g_lms e)) = 0" "g < 8"
  shows "\<exists>e'. build_ctrl_cmd g sg c e = Some e' \<and> cycles_left e' \<le> 39 \<and>
    (\<forall>rxs. length rxs = cycles_left e' \<longrightarrow>
       map_option sent (lms_cycles rxs e') = Some (sent e @ lamp_bytes (g, sg, c)))"
proof -
  obtain e' where e': "build_ctrl_cmd g sg c e = Some e'" "env_inv e'" "send_state (g_lms e') = STATE_TX_LS"
    "unsent e' = lamp_bytes (g, sg, c)" "sent e' = sent e" using build_ctrl_cmd_free [OF assms] by blast
  have "map_option sent (lms_cycles rxs e') = Some (sent e @ lamp_bytes (g, sg, c))"
    if "length rxs = cycles_left e'" for rxs
    using cycles_LS [OF e'(2,3) that] e'(4,5) by auto
  then show ?thesis using e'(1) cycles_left_le [OF e'(2)] by blast
qed

lemma u16_u8: "ucast (of_nat n :: u16) = (of_nat n :: u8)"
  by (simp add: word_unat_eq_iff unsigned_ucast_eq unat_of_nat take_bit_eq_mod mod_mod_cancel)

text \<open>A shell command with a group and a segment typed in decimal puts, within 39 half waves, the lamp
  command for exactly that group and segment on the bus: "on" closes the lamp contact (order 3), "off"
  opens it (order 2). Numbers are taken modulo 256 by the cut to a byte.\<close>

lemma shell_lamp_command:
  assumes "lms_reach s" "write_lock (cmd_info (g_lms (env s))) = 0" "g mod 256 < 8"
    "argv = [name, dec_digits g, dec_digits sg]"
  shows "\<exists>on off. light_on argv (env s) = Some on \<and> light_off argv (env s) = Some off \<and>
    (\<forall>rxs. length rxs = cycles_left on \<longrightarrow>
       map_option sent (lms_cycles rxs on) = Some (sent (env s) @ lamp_bytes (of_nat g, of_nat sg, 3))) \<and>
    (\<forall>rxs. length rxs = cycles_left off \<longrightarrow>
       map_option sent (lms_cycles rxs off) = Some (sent (env s) @ lamp_bytes (of_nat g, of_nat sg, 2))) \<and>
    cycles_left on \<le> 39 \<and> cycles_left off \<le> 39"
proof -
  have inv: "env_inv (env s)" using lms_reach_inv [OF assms(1)] by (simp add: lms_inv_def)
  have g: "(of_nat g :: u8) < 8" using assms(3) by (simp add: word_less_nat_alt unat_of_nat)
  have "light_on argv (env s) = build_ctrl_cmd (of_nat g) (of_nat sg) 3 (env s)" "light_off argv (env s) = build_ctrl_cmd (of_nat g) (of_nat sg) 2 (env s)"
    by (simp_all add: light_on_def light_off_def assms(4) argument_def my_atoi_digits u16_u8 CloseLamp_Order_def
        OpenLamp_Order_def)
  then show ?thesis
    using build_ctrl_cmd_sent [OF inv assms(2) g, of "of_nat sg" 3] build_ctrl_cmd_sent [OF inv assms(2) g, of "of_nat sg" 2]
    by auto
qed

theorem shell_lamp_command_witness:
  "\<exists>on. light_on [[], [48 + 3], [48 + 1, 48 + 7]] (env lms_boot) = Some on \<and> cycles_left on \<le> 39"
proof -
  have "write_lock (cmd_info (g_lms (env lms_boot))) = 0" by (simp add: lms_boot_def lms_init_def)
  moreover have "dec_digits 3 = [48 + 3]" "dec_digits 17 = [48 + 1, 48 + 7]" by (simp_all add: dec_digits.simps)
  ultimately show ?thesis
    using shell_lamp_command [OF lms_boot_reach, of 3 "[[], [48 + 3], [48 + 1, 48 + 7]]" "[]" 17] by auto
qed

text \<open>
  Printing the states reads one entry beyond the table of line heads, whatever the states: the head of a
  fifth line is printed after the last terminal. A changed state is stored and posted only for the
  indices 0 to 31; the others write outside the array.
\<close>

lemma and_7: "(n :: nat) AND 7 = n mod 8"
  using take_bit_eq_mask [of 3 n] by (simp add: take_bit_eq_mod mask_eq_exp_minus_1)

lemma disp_loop_beyond: "i < 32 \<Longrightarrow> disp_loop ts [i..<32] (i div 8) out = None"
proof (induction "31 - i" arbitrary: i out)
  case 0
  then have i: "i = 31" by simp
  show ?case by (cases "rd ts 31") (simp_all add: i upt_rec [of 31] and_7 rd_def tab_prefix_def)
next
  case (Suc k)
  then have i: "i < 31" "[i..<32] = i # [Suc i..<32]" by (simp_all add: upt_conv_Cons)
  have "disp_loop ts [Suc i..<32] (Suc i div 8) out' = None" for out'
    by (rule Suc.hyps(1)) (use Suc.hyps(2) i(1) in arith)+
  moreover have "(i + 1) mod 8 = 0 \<Longrightarrow> Suc i div 8 = i div 8 + 1" "(i + 1) mod 8 \<noteq> 0 \<Longrightarrow> Suc i div 8 = i div 8"
    by (simp_all add: div_Suc)
  ultimately show ?case unfolding i(2) disp_loop.simps and_7
    by (cases "rd ts i"; cases "rd tab_prefix (i div 8 + 1)"; cases "Suc i mod 8 = 0") (simp_all add: Let_def)
qed

lemma disp_lms_state_beyond: "disp_lms_state e = None"
  using disp_loop_beyond [of 0 "terminalState (g_lms e)"]
  by (simp add: disp_lms_state_def TERMIANL_NUM_def rd_def tab_prefix_def)

lemma change_lms_state_cases:
  assumes "length argv = 3" "env_inv e"
  defines "i \<equiv> ucast (my_atoi (Some (argv ! 1))) :: u8"
  shows "change_lms_state argv e =
    (if unat i < 32 then Some (upd_lms (\<lambda>l. l\<lparr>terminalState := (terminalState l)[unat i := ucast (my_atoi (Some (argv ! 2)))]\<rparr>) e
       \<lparr>lms_mb := mb_put (lms_mb e) (ucast i)\<rparr>)
     else None)"
proof -
  have len: "length (terminalState (g_lms e)) = 32" and mb: "mb_inv (lms_mb e)"
    using assms(2) by (simp_all add: env_inv_def Let_def)
  have ext: "0 \<le> sint i \<and> (scast i :: u32) = ucast i" if "unat i < 32"
  proof -
    have "uint i < 2 ^ 7" using that by (simp add: word_le_nat_alt flip: nat_uint_eq)
    moreover have "- (2 ^ 7) \<le> uint i" by (rule order_trans [OF _ uint_ge_0]) simp
    ultimately have "signed_take_bit 7 (uint i) = uint i" by (intro signed_take_bit_int_eq_self)
    then have "sint i = uint i" by (simp add: sint_uint)
    then show ?thesis by (metis of_int_sint of_int_uint uint_ge_0)
  qed
  show ?thesis
  proof (cases "unat i < 32")
    case True
    then show ?thesis
      using assms(1) ext by (simp add: change_lms_state_def argument_def len rt_mb_send_put [OF mb] Let_def i_def)
  next
    case False
    then show ?thesis
      using assms(1) by (simp add: change_lms_state_def argument_def len wr_out Let_def i_def)
  qed
qed

end
