(* ===== verification/Serial.thy ===== *)
theory Serial
  imports Prelude
begin

text \<open>
  The receiving half of a serial port: the framework's \<open>serial.c\<close> over the UART routines of
  \<open>drv_usart.c\<close>. A port is opened for interrupt reception, when every byte goes into a ring buffer and
  the owner is told, or for polling, when a byte stays in the data register of the UART until somebody
  reads it. Configuration (baud rate, parity) and DMA, which the board does not use, are left out.
\<close>

section \<open>State\<close>

record rt_serial_rx_fifo =
  rx_buffer :: "u8 list"
  put_index :: nat
  get_index :: nat
  is_full :: bool

text \<open>
  \<open>serial_rx\<close> is the ring buffer, \<open>None\<close> without one. \<open>data_reg\<close> is the receive register of the UART:
  a byte that finds it occupied is lost, as the manual says of an overrun. The receive interrupt is
  enabled when the ring buffer is created and with it only.
\<close>

record serial_port =
  config_bufsz :: nat
  open_flag :: u16
  serial_rx :: "rt_serial_rx_fifo option"
  data_reg :: "u8 option"

definition RT_DEVICE_FLAG_RDWR :: u16 where "RT_DEVICE_FLAG_RDWR = 0x003"
definition RT_DEVICE_FLAG_INT_RX :: u16 where "RT_DEVICE_FLAG_INT_RX = 0x100"
definition RT_DEVICE_FLAG_STREAM :: u16 where "RT_DEVICE_FLAG_STREAM = 0x040"
definition RT_SERIAL_RB_BUFSZ :: nat where "RT_SERIAL_RB_BUFSZ = 64"

definition rt_serial_init :: "nat \<Rightarrow> serial_port" where
  "rt_serial_init n = \<lparr>config_bufsz = n, open_flag = 0, serial_rx = None, data_reg = None\<rparr>"

text \<open>\<open>rt_serial_open\<close> of a port registered with the flags for interrupt reception.\<close>

definition rt_serial_open :: "serial_port \<Rightarrow> u16 \<Rightarrow> serial_port" where
  "rt_serial_open p oflag =
    (let stream_flag = (if oflag AND RT_DEVICE_FLAG_STREAM \<noteq> 0 \<or> open_flag p AND RT_DEVICE_FLAG_STREAM \<noteq> 0
                        then RT_DEVICE_FLAG_STREAM else 0);
         p = p\<lparr>open_flag := oflag AND 0xff\<rparr>;
         p = (case serial_rx p of
                None \<Rightarrow> if oflag AND RT_DEVICE_FLAG_INT_RX \<noteq> 0
                        then p\<lparr>serial_rx := Some \<lparr>rx_buffer = replicate (config_bufsz p) 0, put_index = 0, get_index = 0, is_full = False\<rparr>,
                               open_flag := open_flag p OR RT_DEVICE_FLAG_INT_RX\<rparr>
                        else p
              | Some _ \<Rightarrow> if oflag AND RT_DEVICE_FLAG_INT_RX \<noteq> 0
                        then p\<lparr>open_flag := open_flag p OR RT_DEVICE_FLAG_INT_RX\<rparr> else p)
     in p\<lparr>open_flag := open_flag p OR stream_flag\<rparr>)"

section \<open>Receiving\<close>

text \<open>\<open>gd32_uart_getc\<close>: -1 is \<open>None\<close>.\<close>

definition gd32_uart_getc :: "serial_port \<Rightarrow> u8 option \<times> serial_port" where
  "gd32_uart_getc p = (data_reg p, p\<lparr>data_reg := None\<rparr>)"

text \<open>The indices are 16 bits wide.\<close>

definition next_index :: "nat \<Rightarrow> nat \<Rightarrow> nat" where
  "next_index n i = (let i' = (i + 1) mod 65536 in if i' \<ge> n then 0 else i')"

text \<open>One byte into the ring buffer: when the next place is the oldest byte, that one goes.\<close>

definition fifo_put :: "nat \<Rightarrow> u8 \<Rightarrow> rt_serial_rx_fifo \<Rightarrow> rt_serial_rx_fifo option" where
  "fifo_put n ch f = do {
     b \<leftarrow> wr (rx_buffer f) (put_index f) ch;
     let f = f\<lparr>rx_buffer := b, put_index := next_index n (put_index f)\<rparr>;
     Some (if put_index f = get_index f then f\<lparr>is_full := True, get_index := next_index n (get_index f)\<rparr> else f)
   }"

definition rx_length :: "nat \<Rightarrow> rt_serial_rx_fifo \<Rightarrow> nat" where
  "rx_length n f = (if put_index f \<ge> get_index f then put_index f - get_index f else n - (get_index f - put_index f))"

text \<open>
  \<open>rt_hw_serial_isr\<close> for a received byte. The loop takes bytes until the register is empty, which one
  read makes it. \<open>True\<close>: the owner is told. \<open>None\<close>: the assertion that there is a ring buffer.
\<close>

definition rt_hw_serial_isr :: "serial_port \<Rightarrow> (bool \<times> serial_port) option" where
  "rt_hw_serial_isr p = do {
     f \<leftarrow> serial_rx p;
     (f, p) \<leftarrow> (case gd32_uart_getc p of
        (None, p) \<Rightarrow> Some (f, p)
      | (Some ch, p) \<Rightarrow> do { f \<leftarrow> fifo_put (config_bufsz p) ch f; Some (f, p) });
     Some (rx_length (config_bufsz p) f \<noteq> 0, p\<lparr>serial_rx := Some f\<rparr>)
   }"

text \<open>A byte from the line. With the receive interrupt enabled it is served at once.\<close>

definition uart_receive :: "serial_port \<Rightarrow> u8 \<Rightarrow> serial_port option" where
  "uart_receive p b =
    (let p = (if data_reg p = None then p\<lparr>data_reg := Some b\<rparr> else p)
     in if serial_rx p = None then Some p else map_option snd (rt_hw_serial_isr p))"

text \<open>Several bytes in a row.\<close>

fun feed :: "('p \<Rightarrow> 'b \<Rightarrow> 'p option) \<Rightarrow> 'p \<Rightarrow> 'b list \<Rightarrow> 'p option" where
  "feed recv p [] = Some p"
| "feed recv p (b # bs) = do { p \<leftarrow> recv p b; feed recv p bs }"

section \<open>Reading\<close>

text \<open>One pass of the loop of \<open>_serial_int_rx\<close>: the oldest byte, \<open>None\<close> when there is none.\<close>

definition fifo_get :: "nat \<Rightarrow> rt_serial_rx_fifo \<Rightarrow> (u8 \<times> rt_serial_rx_fifo) option option" where
  "fifo_get n f =
    (if get_index f = put_index f \<and> \<not> is_full f then Some None
     else do {
       ch \<leftarrow> rd (rx_buffer f) (get_index f);
       Some (Some (ch, f\<lparr>get_index := next_index n (get_index f), is_full := False\<rparr>))
     })"

fun serial_int_rx :: "nat \<Rightarrow> nat \<Rightarrow> rt_serial_rx_fifo \<Rightarrow> (u8 list \<times> rt_serial_rx_fifo) option" where
  "serial_int_rx n 0 f = Some ([], f)"
| "serial_int_rx n (Suc len) f = do {
     r \<leftarrow> fifo_get n f;
     (case r of
        None \<Rightarrow> Some ([], f)
      | Some (ch, f) \<Rightarrow> do { (data, f) \<leftarrow> serial_int_rx n len f; Some (ch # data, f) })
   }"

fun serial_poll_rx :: "nat \<Rightarrow> serial_port \<Rightarrow> u8 list \<times> serial_port" where
  "serial_poll_rx 0 p = ([], p)"
| "serial_poll_rx (Suc len) p =
    (case gd32_uart_getc p of
       (None, p) \<Rightarrow> ([], p)
     | (Some ch, p) \<Rightarrow>
         if open_flag p AND RT_DEVICE_FLAG_STREAM \<noteq> 0 \<and> ch = 10 then ([ch], p)
         else (let (data, p) = serial_poll_rx len p in (ch # data, p)))"

definition rt_serial_read :: "nat \<Rightarrow> serial_port \<Rightarrow> (u8 list \<times> serial_port) option" where
  "rt_serial_read n p =
    (if n = 0 then Some ([], p)
     else if open_flag p AND RT_DEVICE_FLAG_INT_RX \<noteq> 0 then do {
       f \<leftarrow> serial_rx p;
       (data, f) \<leftarrow> serial_int_rx (config_bufsz p) n f;
       Some (data, p\<lparr>serial_rx := Some f\<rparr>)
     } else Some (serial_poll_rx n p))"

section \<open>Writing\<close>

text \<open>\<open>_serial_poll_tx\<close>: the bytes handed to the UART, each of which waits for an empty register.\<close>

fun serial_poll_tx :: "serial_port \<Rightarrow> u8 list \<Rightarrow> u8 list" where
  "serial_poll_tx p [] = []"
| "serial_poll_tx p (d # data) =
    (if d = 10 \<and> open_flag p AND RT_DEVICE_FLAG_STREAM \<noteq> 0 then 13 # d # serial_poll_tx p data
     else d # serial_poll_tx p data)"

lemma poll_tx_raw: "open_flag p AND RT_DEVICE_FLAG_STREAM = 0 \<Longrightarrow> serial_poll_tx p data = data"
  by (induction data) simp_all

section \<open>The ring buffer\<close>

definition fifo_ok :: "nat \<Rightarrow> rt_serial_rx_fifo \<Rightarrow> bool" where
  "fifo_ok n f \<longleftrightarrow> 2 \<le> n \<and> n < 65536 \<and> length (rx_buffer f) = n \<and> put_index f < n \<and> get_index f < n \<and>
     (is_full f \<longrightarrow> put_index f \<noteq> get_index f)"

definition fifo_items :: "nat \<Rightarrow> rt_serial_rx_fifo \<Rightarrow> u8 list" where
  "fifo_items n f = map (\<lambda>k. rx_buffer f ! ((get_index f + k) mod n)) [0..<rx_length n f]"

lemma length_fifo_items [simp]: "length (fifo_items n f) = rx_length n f"
  by (simp add: fifo_items_def)

lemma next_index_mod: "i < n \<Longrightarrow> n < 65536 \<Longrightarrow> next_index n i = (i + 1) mod n"
  by (auto simp: next_index_def Let_def mod_Suc)

lemma rx_length_less: "fifo_ok n f \<Longrightarrow> rx_length n f < n"
  by (auto simp: fifo_ok_def rx_length_def)

lemma put_eq: "fifo_ok n f \<Longrightarrow> put_index f = (get_index f + rx_length n f) mod n"
  by (auto simp: fifo_ok_def rx_length_def mod_if)

lemma rx_length_eqI:
  assumes "g < n" "p = (g + k) mod n" "k < n" "get_index f = g" "put_index f = p"
  shows "rx_length n f = k"
  using assms by (auto simp: rx_length_def mod_if split: if_splits)

lemma fifo_get_ok:
  assumes "fifo_ok n f"
  shows "fifo_get n f = Some (if rx_length n f = 0 then None
     else Some (hd (fifo_items n f), f\<lparr>get_index := (get_index f + 1) mod n, is_full := False\<rparr>))"
proof -
  have "rx_length n f = 0 \<longleftrightarrow> get_index f = put_index f \<and> \<not> is_full f"
    using assms by (auto simp: fifo_ok_def rx_length_def)
  moreover have "rx_length n f \<noteq> 0 \<Longrightarrow> hd (fifo_items n f) = rx_buffer f ! get_index f"
    using assms by (simp add: fifo_items_def hd_map upt_rec [of 0] fifo_ok_def)
  ultimately show ?thesis
    using assms by (simp add: fifo_get_def fifo_ok_def next_index_mod)
qed

lemma fifo_drop1:
  assumes "fifo_ok n f" "rx_length n f \<noteq> 0"
  defines "f' \<equiv> f\<lparr>get_index := (get_index f + 1) mod n, is_full := False\<rparr>"
  shows "fifo_ok n f'" "fifo_items n f' = tl (fifo_items n f)"
proof -
  show "fifo_ok n f'" using assms by (simp add: fifo_ok_def)
  obtain m where m: "rx_length n f = Suc m" using assms(2) by (cases "rx_length n f") auto
  have l: "rx_length n f' = m"
    by (rule rx_length_eqI [of "(get_index f + 1) mod n"])
      (use assms put_eq [OF assms(1)] rx_length_less [OF assms(1)] m in \<open>auto simp: fifo_ok_def mod_simps\<close>)
  have g: "get_index f' = (get_index f + 1) mod n" "rx_buffer f' = rx_buffer f" by (simp_all add: f'_def)
  show "fifo_items n f' = tl (fifo_items n f)"
  proof (rule nth_equalityI)
    fix j assume "j < length (fifo_items n f')"
    then show "fifo_items n f' ! j = tl (fifo_items n f) ! j"
      using l m by (simp add: fifo_items_def nth_tl g mod_simps del: upt_Suc)
  qed (simp add: l m)
qed

lemma fifo_put_room:
  assumes ok: "fifo_ok n f" and k: "Suc (rx_length n f) < n"
  shows "\<exists>f'. fifo_put n ch f = Some f' \<and> fifo_ok n f' \<and> fifo_items n f' = fifo_items n f @ [ch]"
proof -
  let ?k = "rx_length n f" and ?g = "get_index f"
  obtain f' where f': "f' = f\<lparr>rx_buffer := (rx_buffer f)[put_index f := ch], put_index := (put_index f + 1) mod n\<rparr>" by blast
  have b: "put_index f < n" "n < 65536" "length (rx_buffer f) = n" "?g < n" using ok by (auto simp: fifo_ok_def)
  have p: "(put_index f + 1) mod n = (?g + Suc ?k) mod n" by (simp add: put_eq [OF ok] mod_simps)
  have ne: "(?g + Suc ?k) mod n \<noteq> ?g" using mod_add_ne [of 0 "Suc ?k" n ?g] k b(4) by simp
  have put: "fifo_put n ch f = Some f'" using b p ne by (simp add: f' fifo_put_def next_index_mod)
  have l: "rx_length n f' = Suc ?k" by (rule rx_length_eqI [of ?g]) (use b k p in \<open>auto simp: f'\<close>)
  have "fifo_ok n f'" using ok p ne b by (auto simp: f' fifo_ok_def)
  moreover have g: "get_index f' = ?g" "rx_buffer f' = (rx_buffer f)[put_index f := ch]" by (simp_all add: f')
  moreover have "fifo_items n f' = fifo_items n f @ [ch]"
  proof (rule nth_equalityI)
    fix j assume "j < length (fifo_items n f')"
    then have j: "j < Suc ?k" by (simp add: l)
    show "fifo_items n f' ! j = (fifo_items n f @ [ch]) ! j"
    proof (cases "j = ?k")
      case True
      then show ?thesis using b l by (simp add: g fifo_items_def nth_append put_eq [OF ok] del: upt_Suc)
    next
      case False
      then show ?thesis using j l b mod_add_ne [of j ?k n ?g] k
        by (simp add: g fifo_items_def nth_append put_eq [OF ok] nth_list_update_neq [OF not_sym] del: upt_Suc)
    qed
  qed (simp add: l)
  ultimately show ?thesis using put by blast
qed

lemma fifo_put_full:
  assumes ok: "fifo_ok n f" and k: "Suc (rx_length n f) = n"
  shows "\<exists>f'. fifo_put n ch f = Some f' \<and> fifo_ok n f' \<and> fifo_items n f' = tl (fifo_items n f) @ [ch]"
proof -
  let ?k = "rx_length n f" and ?g = "get_index f"
  obtain f' where f': "f' = f\<lparr>rx_buffer := (rx_buffer f)[put_index f := ch], put_index := ?g, is_full := True,
      get_index := (?g + 1) mod n\<rparr>" by blast
  have b: "put_index f < n" "n < 65536" "length (rx_buffer f) = n" "?g < n" "2 \<le> n" using ok by (auto simp: fifo_ok_def)
  have p: "(put_index f + 1) mod n = ?g"
  proof -
    have "(put_index f + 1) mod n = (?g + Suc ?k) mod n" by (simp add: put_eq [OF ok] mod_simps)
    then show ?thesis using k b(4) by simp
  qed
  have ne: "(?g + 1) mod n \<noteq> ?g" using mod_add_ne [of 0 1 n ?g] b(4,5) by simp
  have put: "fifo_put n ch f = Some f'" using b p by (simp add: f' fifo_put_def next_index_mod)
  have kk: "((?g + 1) mod n + ?k) mod n = ?g"
  proof -
    have "((?g + 1) mod n + ?k) mod n = (?g + Suc ?k) mod n" by (simp add: mod_simps)
    then show ?thesis using k b(4) by simp
  qed
  have l: "rx_length n f' = ?k" by (rule rx_length_eqI [of "(?g + 1) mod n"]) (use b k kk in \<open>auto simp: f'\<close>)
  have "fifo_ok n f'" using ok ne b by (auto simp: f' fifo_ok_def)
  moreover have g: "get_index f' = (?g + 1) mod n" "rx_buffer f' = (rx_buffer f)[put_index f := ch]" by (simp_all add: f')
  moreover have "fifo_items n f' = tl (fifo_items n f) @ [ch]"
  proof (rule nth_equalityI)
    fix j assume "j < length (fifo_items n f')"
    then have j: "j < ?k" by (simp add: l)
    have e: "(Suc ?g mod n + j) mod n = (?g + Suc j) mod n" by (simp add: mod_simps)
    show "fifo_items n f' ! j = (tl (fifo_items n f) @ [ch]) ! j"
    proof (cases "?k = Suc j")
      case True
      then show ?thesis using b l j by (simp add: g fifo_items_def nth_append put_eq [OF ok] e del: upt_Suc)
    next
      case False
      then have "j < ?k - Suc 0" using j by simp
      then show ?thesis using j l b mod_add_ne [of "Suc j" ?k n ?g] k
        by (simp add: g fifo_items_def nth_append nth_tl put_eq [OF ok] e nth_list_update_neq [OF not_sym] del: upt_Suc)
    qed
  qed (use k b in \<open>simp add: l\<close>)
  ultimately show ?thesis using put by blast
qed

lemma fifo_put_ok:
  assumes "fifo_ok n f"
  shows "\<exists>f'. fifo_put n ch f = Some f' \<and> fifo_ok n f' \<and> fifo_items n f' = newest (n - 1) (fifo_items n f @ [ch])"
proof (cases "Suc (rx_length n f) = n")
  case True
  have "newest (n - 1) (fifo_items n f @ [ch]) = tl (fifo_items n f) @ [ch]"
    using True assms by (cases "fifo_items n f") (auto simp: newest_def fifo_ok_def dest: arg_cong [of _ _ length])
  then show ?thesis using fifo_put_full [OF assms True, of ch] by simp
next
  case False
  then have k: "Suc (rx_length n f) < n" using rx_length_less [OF assms] by simp
  then show ?thesis using fifo_put_room [OF assms k, of ch] by (simp add: newest_def)
qed

lemma serial_int_rx_ok:
  "fifo_ok n f \<Longrightarrow> \<exists>f'. serial_int_rx n len f = Some (take len (fifo_items n f), f') \<and> fifo_ok n f' \<and>
     fifo_items n f' = drop len (fifo_items n f)"
proof (induction len arbitrary: f)
  case (Suc len)
  show ?case
  proof (cases "rx_length n f = 0")
    case True
    then have "fifo_items n f = []" by (simp add: fifo_items_def)
    then show ?thesis using Suc.prems True by (simp add: fifo_get_ok)
  next
    case False
    let ?f = "f\<lparr>get_index := (get_index f + 1) mod n, is_full := False\<rparr>"
    have ne: "fifo_items n f \<noteq> []" using False by (metis length_0_conv length_fifo_items)
    note d = fifo_drop1 [OF Suc.prems False]
    obtain f' where f': "serial_int_rx n len ?f = Some (take len (tl (fifo_items n f)), f')" "fifo_ok n f'"
      "fifo_items n f' = drop len (tl (fifo_items n f))"
      using Suc.IH [OF d(1)] unfolding d(2) by blast
    show ?thesis
      using f' ne False by (simp add: fifo_get_ok [OF Suc.prems] take_Suc drop_Suc)
  qed
qed simp

section \<open>The port as a queue\<close>

text \<open>
  Bytes waiting in an opened port. \<open>port_ok\<close> excludes the line-feed treatment of the STREAM flag, which
  the ports of the application do not have.
\<close>

definition port_ok :: "serial_port \<Rightarrow> bool" where
  "port_ok p \<longleftrightarrow> open_flag p AND RT_DEVICE_FLAG_STREAM = 0 \<and>
     (case serial_rx p of
        None \<Rightarrow> open_flag p AND RT_DEVICE_FLAG_INT_RX = 0
      | Some f \<Rightarrow> open_flag p AND RT_DEVICE_FLAG_INT_RX \<noteq> 0 \<and> fifo_ok (config_bufsz p) f \<and> data_reg p = None)"

definition int_port :: "serial_port \<Rightarrow> bool" where "int_port p \<longleftrightarrow> serial_rx p \<noteq> None"

definition rx_items :: "serial_port \<Rightarrow> u8 list" where
  "rx_items p = (case serial_rx p of None \<Rightarrow> (case data_reg p of None \<Rightarrow> [] | Some b \<Rightarrow> [b]) | Some f \<Rightarrow> fifo_items (config_bufsz p) f)"

text \<open>What is kept of a byte that arrives: the ring buffer drops the oldest, the register the new one.\<close>

definition kept :: "bool \<Rightarrow> nat \<Rightarrow> u8 list \<Rightarrow> u8 \<Rightarrow> u8 list" where
  "kept int_rx n q b = (if int_rx then newest (n - 1) (q @ [b]) else if q = [] then [b] else q)"

lemma uart_receive_ok:
  assumes "port_ok p"
  shows "\<exists>p'. uart_receive p b = Some p' \<and> port_ok p' \<and> int_port p' = int_port p \<and> config_bufsz p' = config_bufsz p \<and>
    rx_items p' = kept (int_port p) (config_bufsz p) (rx_items p) b"
proof (cases "serial_rx p")
  case None
  then show ?thesis
    using assms by (cases "data_reg p") (auto simp: uart_receive_def port_ok_def int_port_def rx_items_def kept_def)
next
  case (Some f)
  with assms have ok: "fifo_ok (config_bufsz p) f" and d: "data_reg p = None" by (simp_all add: port_ok_def)
  obtain f' where f': "fifo_put (config_bufsz p) b f = Some f'" "fifo_ok (config_bufsz p) f'"
    "fifo_items (config_bufsz p) f' = newest (config_bufsz p - 1) (fifo_items (config_bufsz p) f @ [b])"
    using fifo_put_ok [OF ok] by blast
  show ?thesis
    using assms Some d f'
    by (simp add: uart_receive_def rt_hw_serial_isr_def gd32_uart_getc_def port_ok_def int_port_def rx_items_def kept_def)
qed

lemma poll_rx_ok: "open_flag p AND RT_DEVICE_FLAG_STREAM = 0 \<Longrightarrow>
  serial_poll_rx n p = (case data_reg p of None \<Rightarrow> ([], p) | Some b \<Rightarrow> if n = 0 then ([], p) else ([b], p\<lparr>data_reg := None\<rparr>))"
proof (induction n arbitrary: p)
  case (Suc n)
  then show ?case
    by (cases "data_reg p") (auto simp: gd32_uart_getc_def Suc.IH split: option.splits)
qed (simp split: option.splits)

lemma serial_read_ok:
  assumes "port_ok p"
  shows "\<exists>p'. rt_serial_read n p = Some (take n (rx_items p), p') \<and> port_ok p' \<and> int_port p' = int_port p \<and>
    config_bufsz p' = config_bufsz p \<and> rx_items p' = drop n (rx_items p)"
proof (cases "serial_rx p")
  case None
  then show ?thesis
    using assms
    by (cases n; cases "data_reg p")
      (simp_all add: rt_serial_read_def port_ok_def int_port_def rx_items_def poll_rx_ok del: serial_poll_rx.simps)
next
  case (Some f)
  with assms have ok: "fifo_ok (config_bufsz p) f" by (simp add: port_ok_def)
  obtain f' where f': "serial_int_rx (config_bufsz p) n f = Some (take n (fifo_items (config_bufsz p) f), f')"
    "fifo_ok (config_bufsz p) f'" "fifo_items (config_bufsz p) f' = drop n (fifo_items (config_bufsz p) f)"
    using serial_int_rx_ok [OF ok] by blast
  show ?thesis
    using assms Some f'
    by (cases n) (simp_all add: rt_serial_read_def port_ok_def int_port_def rx_items_def del: serial_int_rx.simps)
qed

text \<open>The ports as \<open>rs_485_init\<close> opens them: the first one for interrupts, the second one for polling.\<close>

lemma port_open_ok:
  assumes "2 \<le> n" "n < 65536"
  shows "port_ok (rt_serial_open (rt_serial_init n) RT_DEVICE_FLAG_INT_RX)"
    "int_port (rt_serial_open (rt_serial_init n) RT_DEVICE_FLAG_INT_RX)"
    "rx_items (rt_serial_open (rt_serial_init n) RT_DEVICE_FLAG_INT_RX) = []"
    "config_bufsz (rt_serial_open (rt_serial_init n) oflag) = n"
    "port_ok (rt_serial_open (rt_serial_init n) RT_DEVICE_FLAG_RDWR)"
    "\<not> int_port (rt_serial_open (rt_serial_init n) RT_DEVICE_FLAG_RDWR)"
    "rx_items (rt_serial_open (rt_serial_init n) RT_DEVICE_FLAG_RDWR) = []"
  using assms
  by (simp_all add: rt_serial_open_def rt_serial_init_def port_ok_def int_port_def rx_items_def fifo_ok_def fifo_items_def
      rx_length_def RT_DEVICE_FLAG_INT_RX_def RT_DEVICE_FLAG_RDWR_def RT_DEVICE_FLAG_STREAM_def Let_def)

section \<open>The contract of a port\<close>

text \<open>
  What the code that receives frames relies on: bytes that fit wait in their order until they are read,
  and neither an arrival nor a read ever fails. A port of either kind keeps this contract; they differ
  in their room, 63 bytes or one.
\<close>

locale byte_queue =
  fixes ok :: "'p \<Rightarrow> bool" and items :: "'p \<Rightarrow> 'b list" and room :: "'p \<Rightarrow> nat" and mode :: "'p \<Rightarrow> bool"
    and recv :: "'p \<Rightarrow> 'b \<Rightarrow> 'p option" and read :: "nat \<Rightarrow> 'p \<Rightarrow> ('b list \<times> 'p) option"
  assumes recv_ok: "ok p \<Longrightarrow> \<exists>p'. recv p b = Some p' \<and> ok p' \<and> room p' = room p \<and> mode p' = mode p \<and>
      (length (items p) < room p \<longrightarrow> items p' = items p @ [b])"
    and read_ok: "ok p \<Longrightarrow> \<exists>p'. read n p = Some (take n (items p), p') \<and> ok p' \<and> room p' = room p \<and> mode p' = mode p \<and>
      items p' = drop n (items p)"
    and items_room: "ok p \<Longrightarrow> length (items p) \<le> room p"
begin

lemma feed_ok:
  "ok p \<Longrightarrow> \<exists>p'. feed recv p bs = Some p' \<and> ok p' \<and> room p' = room p \<and> mode p' = mode p \<and>
     (length (items p) + length bs \<le> room p \<longrightarrow> items p' = items p @ bs)"
proof (induction bs arbitrary: p)
  case (Cons b bs)
  obtain p1 where p1: "recv p b = Some p1" "ok p1" "room p1 = room p" "mode p1 = mode p"
    "length (items p) < room p \<longrightarrow> items p1 = items p @ [b]" using recv_ok [OF Cons.prems] by blast
  obtain p2 where "feed recv p1 bs = Some p2" "ok p2" "room p2 = room p1" "mode p2 = mode p1"
    "length (items p1) + length bs \<le> room p1 \<longrightarrow> items p2 = items p1 @ bs" using Cons.IH [OF p1(2)] by blast
  then show ?case using p1 by auto
qed simp

lemma read_some: "ok p \<Longrightarrow> read n p = Some (data, p') \<Longrightarrow> ok p' \<and> room p' = room p \<and> mode p' = mode p \<and>
    data = take n (items p) \<and> items p' = drop n (items p)"
  using read_ok [of p n] by auto

lemma feed_some: "ok p \<Longrightarrow> feed recv p bs = Some p' \<Longrightarrow> ok p' \<and> room p' = room p \<and> mode p' = mode p \<and>
    (length (items p) + length bs \<le> room p \<longrightarrow> items p' = items p @ bs)"
  using feed_ok [of p bs] by auto

end

definition rx_room :: "serial_port \<Rightarrow> nat" where
  "rx_room p = (if int_port p then config_bufsz p - 1 else 1)"

lemma rx_items_room: "port_ok p \<Longrightarrow> length (rx_items p) \<le> rx_room p"
proof (cases "serial_rx p")
  case (Some f)
  moreover assume "port_ok p"
  ultimately have "rx_length (config_bufsz p) f < config_bufsz p" by (simp add: port_ok_def rx_length_less)
  then show ?thesis using Some by (simp add: rx_items_def rx_room_def int_port_def)
qed (simp add: rx_items_def rx_room_def int_port_def split: option.splits)

interpretation port: byte_queue port_ok rx_items rx_room int_port uart_receive rt_serial_read
proof
  fix p :: serial_port and b n
  assume ok: "port_ok p"
  show "\<exists>p'. uart_receive p b = Some p' \<and> port_ok p' \<and> rx_room p' = rx_room p \<and> int_port p' = int_port p \<and>
      (length (rx_items p) < rx_room p \<longrightarrow> rx_items p' = rx_items p @ [b])"
  proof -
    obtain p' where p': "uart_receive p b = Some p'" "port_ok p'" "int_port p' = int_port p" "config_bufsz p' = config_bufsz p"
      "rx_items p' = kept (int_port p) (config_bufsz p) (rx_items p) b" using uart_receive_ok [OF ok] by blast
    have "length (rx_items p) < rx_room p \<Longrightarrow> kept (int_port p) (config_bufsz p) (rx_items p) b = rx_items p @ [b]"
      by (simp add: rx_room_def kept_def split: if_splits)
    then show ?thesis using p' by (intro exI [of _ p']) (simp add: rx_room_def)
  qed
  show "\<exists>p'. rt_serial_read n p = Some (take n (rx_items p), p') \<and> port_ok p' \<and> rx_room p' = rx_room p \<and>
      int_port p' = int_port p \<and> rx_items p' = drop n (rx_items p)"
  proof -
    obtain p' where "rt_serial_read n p = Some (take n (rx_items p), p')" "port_ok p'" "int_port p' = int_port p"
      "config_bufsz p' = config_bufsz p" "rx_items p' = drop n (rx_items p)" using serial_read_ok [OF ok] by blast
    then show ?thesis by (intro exI [of _ p']) (simp add: rx_room_def)
  qed
  show "length (rx_items p) \<le> rx_room p"
    using rx_items_room [OF ok] .
qed

section \<open>Properties\<close>

datatype port_op = Byte u8 | Read nat

text \<open>A history of a port: bytes from the line and reads in any order, with what the reads return.\<close>

fun port_run :: "port_op list \<Rightarrow> serial_port \<Rightarrow> u8 list list option" where
  "port_run [] p = Some []"
| "port_run (Byte b # ops) p = do { p \<leftarrow> uart_receive p b; port_run ops p }"
| "port_run (Read n # ops) p = do { (data, p) \<leftarrow> rt_serial_read n p; r \<leftarrow> port_run ops p; Some (data # r) }"

fun queue_run :: "(u8 list \<Rightarrow> u8 \<Rightarrow> u8 list) \<Rightarrow> port_op list \<Rightarrow> u8 list \<Rightarrow> u8 list list" where
  "queue_run put [] q = []"
| "queue_run put (Byte b # ops) q = queue_run put ops (put q b)"
| "queue_run put (Read n # ops) q = take n q # queue_run put ops (drop n q)"

lemma port_run_ok:
  "port_ok p \<Longrightarrow> port_run ops p = Some (queue_run (kept (int_port p) (config_bufsz p)) ops (rx_items p))"
proof (induction ops arbitrary: p)
  case (Cons a ops)
  show ?case
  proof (cases a)
    case (Byte b)
    then show ?thesis using uart_receive_ok [OF Cons.prems, of b] Cons.IH by auto
  next
    case (Read n)
    then show ?thesis using serial_read_ok [OF Cons.prems, of n] Cons.IH by auto
  qed
qed simp

text \<open>C21: A serial port with the board's buffer of 64 bytes behaves, under every history of received bytes
  and reads, as a queue of bytes and meets no failing assertion: opened for interrupt reception it keeps
  the newest 63 bytes, opened for reading and writing only it keeps the oldest single byte.\<close>

theorem serial_port_refines:
  "port_run ops (rt_serial_open (rt_serial_init RT_SERIAL_RB_BUFSZ) RT_DEVICE_FLAG_INT_RX) =
     Some (queue_run (\<lambda>q b. newest 63 (q @ [b])) ops []) \<and>
   port_run ops (rt_serial_open (rt_serial_init RT_SERIAL_RB_BUFSZ) RT_DEVICE_FLAG_RDWR) =
     Some (queue_run (\<lambda>q b. if q = [] then [b] else q) ops [])"
proof -
  have n: "2 \<le> RT_SERIAL_RB_BUFSZ" "RT_SERIAL_RB_BUFSZ < 65536" by (simp_all add: RT_SERIAL_RB_BUFSZ_def)
  have k: "kept True RT_SERIAL_RB_BUFSZ = (\<lambda>q b. newest 63 (q @ [b]))" "kept False RT_SERIAL_RB_BUFSZ = (\<lambda>q b. if q = [] then [b] else q)"
    by (simp_all add: kept_def fun_eq_iff RT_SERIAL_RB_BUFSZ_def)
  show ?thesis
    using port_run_ok [OF port_open_ok(1) [OF n]] port_run_ok [OF port_open_ok(5) [OF n]] by (simp add: port_open_ok [OF n] k)
qed

end
