(* ===== verification/UpsMaster.thy ===== *)
theory UpsMaster
  imports ModbusSlave SysState Serial
begin

text \<open>
  The poller of the UPS (\<open>ups_master_poll\<close> and \<open>update_ups_data\<close> of \<open>modbus_master.c\<close>) and the RS-485
  line it uses (\<open>rs_485.c\<close>). The serial device is its receive buffer and the bytes still on the way, in
  chunks with the milliseconds since the previous one; the device at the other end is a function from
  the frame sent to the chunks of its answer.
\<close>

section \<open>The RS-485 line\<close>

type_synonym chunks = "(nat \<times> u8 list) list"

record uart =
  port :: serial_port
  arrivals :: chunks
  tx_frames :: "u8 list list"
  dr_high :: bool

text \<open>How \<open>rs_485_init\<close> opens the two ports.\<close>

datatype rs_485_port = RS_485_UART0 | RS_485_UART2

definition rs_485_oflag :: "rs_485_port \<Rightarrow> u16" where
  "rs_485_oflag i = (if i = RS_485_UART0 then RT_DEVICE_FLAG_INT_RX else RT_DEVICE_FLAG_RDWR)"

definition rs_485_open :: "rs_485_port \<Rightarrow> uart" where
  "rs_485_open i = \<lparr>port = rt_serial_open (rt_serial_init RT_SERIAL_RB_BUFSZ) (rs_485_oflag i), arrivals = [],
     tx_frames = [], dr_high = False\<rparr>"

text \<open>\<open>rt_thread_mdelay\<close>: what arrives meanwhile goes to the port.\<close>

fun pass_time :: "nat \<Rightarrow> serial_port \<Rightarrow> chunks \<Rightarrow> (serial_port \<times> chunks) option" where
  "pass_time d p [] = Some (p, [])"
| "pass_time d p ((g, bs) # r) =
    (if g \<le> d then do { p \<leftarrow> feed uart_receive p bs; pass_time (d - g) p r } else Some (p, (g - d, bs) # r))"

definition rt_thread_mdelay :: "nat \<Rightarrow> uart \<Rightarrow> uart option" where
  "rt_thread_mdelay d u = do { (p, a) \<leftarrow> pass_time d (port u) (arrivals u); Some (u\<lparr>port := p, arrivals := a\<rparr>) }"

text \<open>Sending: drive the line, write, wait 3 ms and release the line.\<close>

definition rs_485_send_data :: "(u8 list \<Rightarrow> chunks) \<Rightarrow> u8 list \<Rightarrow> int \<Rightarrow> uart \<Rightarrow> uart option" where
  "rs_485_send_data dev buf len u =
    (let u = u\<lparr>dr_high := True\<rparr>;
         frame = serial_poll_tx (port u) (take (nat len) buf);
         u = u\<lparr>tx_frames := tx_frames u @ [frame], arrivals := arrivals u @ dev frame\<rparr>
     in do {
       u \<leftarrow> rt_thread_mdelay 3 u;
       Some (u\<lparr>dr_high := False\<rparr>)
     })"

text \<open>
  Waiting on the receive semaphore, which the loop has just reset: the next byte that the interrupt
  handler puts into the ring buffer releases it, or the time-out passes. A port that polls never does.
\<close>

fun rx_wait :: "nat \<Rightarrow> serial_port \<Rightarrow> chunks \<Rightarrow> (bool \<times> serial_port \<times> chunks) option" where
  "rx_wait t p [] = Some (False, p, [])"
| "rx_wait t p ((g, bs) # r) =
    (if g < t then do {
       p \<leftarrow> feed uart_receive p bs;
       if int_port p \<and> bs \<noteq> [] then Some (True, p, r) else rx_wait (t - g) p r
     } else Some (False, p, (g - t, bs) # r))"

definition rx_sem_take :: "nat \<Rightarrow> uart \<Rightarrow> (bool \<times> uart) option" where
  "rx_sem_take timeout u = do {
     (ok, p, a) \<leftarrow> rx_wait timeout (port u) (arrivals u);
     Some (ok, u\<lparr>port := p, arrivals := a\<rparr>)
   }"

lemma rx_wait_arrivals: "rx_wait t p a = Some (ok, p', a') \<Longrightarrow> length a' \<le> length a \<and> (ok \<longrightarrow> length a' < length a)"
  by (induction t p a rule: rx_wait.induct) (fastforce split: if_splits bind_splits)+

lemma rx_sem_take_less: "rx_sem_take t u = Some (True, u') \<Longrightarrow> length (arrivals u') < length (arrivals u)"
  by (auto simp: rx_sem_take_def dest!: rx_wait_arrivals split: bind_splits)

lemma serial_read_0: "rt_serial_read 0 p = Some ([], p)"
  by (simp add: rt_serial_read_def)

function receive_loop :: "u8 list \<Rightarrow> nat \<Rightarrow> nat \<Rightarrow> nat \<Rightarrow> nat \<Rightarrow> uart \<Rightarrow> (u8 list \<times> nat \<times> uart) option" where
  "receive_loop buf len bufsz timeout bytes_timeout u =
    (case rt_serial_read bufsz (port u) of
       None \<Rightarrow> None
     | Some (data, p) \<Rightarrow>
         let u = u\<lparr>port := p\<rparr>; n = length data in
         if n > 0 then
           (case wr_all buf len data of
              None \<Rightarrow> None
            | Some buf \<Rightarrow>
                if bufsz - n = 0 then Some (buf, len + n, u)
                else receive_loop buf (len + n) (bufsz - n) bytes_timeout bytes_timeout u)
         else
           (case rx_sem_take timeout u of
              None \<Rightarrow> None
            | Some (True, u) \<Rightarrow> receive_loop buf len bufsz bytes_timeout bytes_timeout u
            | Some (False, u) \<Rightarrow> Some (buf, len, u)))"
  by pat_completeness auto

termination
  by (relation "measure (\<lambda>(buf, len, bufsz, timeout, bytes_timeout, u). bufsz + length (arrivals u))")
    (auto dest!: rx_sem_take_less)

declare receive_loop.simps [simp del]

definition rs_485_receive :: "u8 list \<Rightarrow> nat \<Rightarrow> nat \<Rightarrow> nat \<Rightarrow> uart \<Rightarrow> (u8 list \<times> nat \<times> uart) option" where
  "rs_485_receive buf bufsz timeout bytes_timeout u = receive_loop buf 0 bufsz timeout bytes_timeout u"

section \<open>The poller\<close>

definition ups_reg_map :: "int list" where "ups_reg_map = [0x60, 0x69, 0x7C, 0x7E, 0x80, 0x81, 0x30]"

definition UPS_EVENT_CODE_COMM_FAIL :: u16 where "UPS_EVENT_CODE_COMM_FAIL = 0x0D"
definition UPS_EVENT_CODE_POWER_FAIL :: u16 where "UPS_EVENT_CODE_POWER_FAIL = 0x0E"
definition UPS_EVENT_CODE_BATERY_LOW :: u16 where "UPS_EVENT_CODE_BATERY_LOW = 0x0F"

definition ups_event_code_tab :: "u16 list" where
  "ups_event_code_tab = [UPS_EVENT_CODE_COMM_FAIL, UPS_EVENT_CODE_POWER_FAIL, UPS_EVENT_CODE_BATERY_LOW]"

record ups_state =
  ups_ctx :: agile_modbus
  ups_hold_register :: "u16 list"
  comm_fail_retry_cnt :: int
  ups_alarm_last :: u16
  ups_para :: myPara
  alarm_event_cnt :: u8
  event_log :: "u16 list"
  ups_uart :: uart

text \<open>
  The three one-bit fields \<open>ups_comm_fail\<close>, \<open>ups_power_down\<close> and \<open>ups_battery_low\<close> are the bits 0 to 2 of
  \<open>ups_alarm_status\<close>.
\<close>

definition set_ups_comm_fail :: "bool \<Rightarrow> myPara \<Rightarrow> myPara" where
  "set_ups_comm_fail v p = p\<lparr>ups_alarm_status := put_bit 0 v (ups_alarm_status p)\<rparr>"

definition update_ups_data :: "ups_state \<Rightarrow> ups_state option" where
  "update_ups_data s = do {
     b \<leftarrow> rd_seg (ups_hold_register s) 0 7;
     let p = (ups_para s)\<lparr>ups_input_voltage := b ! 0, ups_output_voltage := b ! 1, ups_battery_voltage := b ! 2,
               ups_battery_capacity := b ! 3, ups_battery_duration_min := b ! 4, ups_battery_duration_s := b ! 5,
               ups_read_alarm_status := b ! 6\<rparr>;
     let p = p\<lparr>ups_alarm_status := put_bit 1 (bit (ups_read_alarm_status p) 7) (ups_alarm_status p)\<rparr>;
     let p = p\<lparr>ups_run_stataus := if bit (ups_alarm_status p) 1 then 1 else 0\<rparr>;
     let p = p\<lparr>ups_alarm_status := put_bit 2 (bit (ups_read_alarm_status p) 6) (ups_alarm_status p)\<rparr>;
     let (flag, last, cnt, log) =
       alarm_event_monitor p (ups_alarm_status p) (ups_alarm_last s) ups_event_code_tab (alarm_event_cnt s);
     Some (s\<lparr>ups_para := p, ups_alarm_last := last, alarm_event_cnt := cnt, event_log := event_log s @ log\<rparr>)
   }"

text \<open>The label \<open>update\<close>: publish what is known and pause.\<close>

definition ups_update :: "ups_state \<Rightarrow> ups_state option" where
  "ups_update s = do {
     s \<leftarrow> update_ups_data s;
     u \<leftarrow> rt_thread_mdelay 50 (ups_uart s);
     Some (s\<lparr>ups_uart := u\<rparr>)
   }"

text \<open>One pass of the inner loop.\<close>

definition ups_poll_register :: "(u8 list \<Rightarrow> chunks) \<Rightarrow> nat \<Rightarrow> ups_state \<Rightarrow> ups_state option" where
  "ups_poll_register dev i s = do {
     reg \<leftarrow> rd ups_reg_map i;
     (ctx, send_len) \<leftarrow> agile_modbus_serialize_read_registers (ups_ctx s) reg 1;
     u \<leftarrow> rs_485_send_data dev (send_buf ctx) send_len (ups_uart s);
     (rb, read_len, u) \<leftarrow> rs_485_receive (read_buf ctx) (nat (read_bufsz ctx)) 1000 20 u;
     let s = s\<lparr>ups_ctx := ctx\<lparr>read_buf := rb\<rparr>, ups_uart := u\<rparr>;
     if read_len = 0 then
       (let s = s\<lparr>comm_fail_retry_cnt := comm_fail_retry_cnt s + 1\<rparr>
        in if comm_fail_retry_cnt s = 3
           then ups_update (s\<lparr>comm_fail_retry_cnt := 0, ups_para := set_ups_comm_fail True (ups_para s)\<rparr>)
           else Some s)
     else do {
       let s = s\<lparr>ups_para := set_ups_comm_fail False (ups_para s)\<rparr>;
       (dest, rc) \<leftarrow> agile_modbus_deserialize_read_registers (ups_ctx s) (int read_len) (drop i (ups_hold_register s));
       let s = s\<lparr>ups_hold_register := take i (ups_hold_register s) @ dest\<rparr>;
       if rc < 0 then Some s else ups_update s
     }
   }"

fun ups_poll_registers :: "(u8 list \<Rightarrow> chunks) \<Rightarrow> nat list \<Rightarrow> ups_state \<Rightarrow> ups_state option" where
  "ups_poll_registers dev [] s = Some s"
| "ups_poll_registers dev (i # is) s = do { s \<leftarrow> ups_poll_register dev i s; ups_poll_registers dev is s }"

text \<open>One pass of the thread's loop, and its start.\<close>

definition ups_master_poll :: "(u8 list \<Rightarrow> chunks) \<Rightarrow> ups_state \<Rightarrow> ups_state option" where
  "ups_master_poll dev s = do {
     u \<leftarrow> rt_thread_mdelay 200 (ups_uart s);
     ups_poll_registers dev [0..<length ups_reg_map] (s\<lparr>ups_uart := u\<rparr>)
   }"

text \<open>The two buffers of the poller; the library of this repository sets 64 in place of 260.\<close>

definition AGILE_MODBUS_MAX_ADU_LENGTH :: nat where [simp]: "AGILE_MODBUS_MAX_ADU_LENGTH = 64"

definition ups_master_start :: "u8 list \<Rightarrow> u8 list \<Rightarrow> myPara \<Rightarrow> uart \<Rightarrow> ups_state" where
  "ups_master_start send_b read_b p u =
    \<lparr>ups_ctx = fst (agile_modbus_set_slave (agile_modbus_rtu_init send_b read_b) 1),
     ups_hold_register = replicate 34 0, comm_fail_retry_cnt = 0, ups_alarm_last = 0, ups_para = p,
     alarm_event_cnt = 0, event_log = [], ups_uart = u\<rparr>"

section \<open>Receiving an answer\<close>

text \<open>A port after some traffic: still sound, of the same kind and size.\<close>

definition like :: "serial_port \<Rightarrow> serial_port \<Rightarrow> bool" where
  "like p p' \<longleftrightarrow> port_ok p' \<and> rx_room p' = rx_room p \<and> int_port p' = int_port p"

lemma like_trans: "like p p' \<Longrightarrow> like p' p'' \<Longrightarrow> like p p''"
  by (simp add: like_def)

lemma like_refl [simp]: "like p p \<longleftrightarrow> port_ok p"
  by (simp add: like_def)

lemma read_like:
  assumes "port_ok p"
  shows "\<exists>p'. rt_serial_read n p = Some (take n (rx_items p), p') \<and> like p p' \<and> rx_items p' = drop n (rx_items p)"
  using port.read_ok [OF assms, of n] by (auto simp: like_def)

lemma feed_like:
  assumes "port_ok p"
  shows "\<exists>p'. feed uart_receive p bs = Some p' \<and> like p p' \<and>
    (length (rx_items p) + length bs \<le> rx_room p \<longrightarrow> rx_items p' = rx_items p @ bs)"
  using port.feed_ok [OF assms, of bs] by (auto simp: like_def)

text \<open>Chunks that keep the loop waiting: the first within the time-out, the others within 20 ms.\<close>

definition in_time :: "nat \<Rightarrow> bool \<Rightarrow> chunks \<Rightarrow> bool" where
  "in_time t e a \<longleftrightarrow> (\<forall>x \<in> set a. snd x \<noteq> []) \<and> (\<forall>x \<in> set (tl a). fst x < 20) \<and>
     (a \<noteq> [] \<longrightarrow> fst (hd a) < (if e then t else 20))"

definition well_timed :: "nat \<Rightarrow> uart \<Rightarrow> bool" where
  "well_timed t u \<longleftrightarrow> in_time t (rx_items (port u) = []) (arrivals u)"

definition chunk_bytes :: "chunks \<Rightarrow> u8 list" where
  "chunk_bytes a = concat (map snd a)"

definition rx_bytes :: "uart \<Rightarrow> u8 list" where
  "rx_bytes u = rx_items (port u) @ chunk_bytes (arrivals u)"

lemma chunk_bytes_simps [simp]: "chunk_bytes [] = []" "chunk_bytes ((g, bs) # a) = bs @ chunk_bytes a"
  "chunk_bytes (a @ a') = chunk_bytes a @ chunk_bytes a'"
  by (simp_all add: chunk_bytes_def)

lemma in_time_Cons:
  "in_time t e ((g, bs) # r) \<Longrightarrow> bs \<noteq> [] \<and> g < (if e then t else 20) \<and> in_time 20 e' r"
  by (cases r) (auto simp: in_time_def)

lemma receive_all:
  assumes "port_ok (port u)" "arrivals u = [] \<or> int_port (port u)" "well_timed t u" "20 \<le> t"
    "length (rx_bytes u) < bufsz" "length (rx_bytes u) \<le> rx_room (port u)" "len + length (rx_bytes u) \<le> length buf"
  shows "\<exists>p'. receive_loop buf len bufsz t 20 u =
    Some (take len buf @ rx_bytes u @ drop (len + length (rx_bytes u)) buf, len + length (rx_bytes u),
      u\<lparr>port := p', arrivals := []\<rparr>) \<and> like (port u) p' \<and> rx_items p' = []"
  using assms
proof (induction "bufsz + length (arrivals u)" arbitrary: buf len bufsz t u rule: less_induct)
  case (less bufsz u)
  let ?n = "length (rx_items (port u))"
  have n: "take bufsz (rx_items (port u)) = rx_items (port u)" "?n < bufsz" using less.prems(5) by (simp_all add: rx_bytes_def)
  obtain p1 where p1: "rt_serial_read bufsz (port u) = Some (rx_items (port u), p1)" "like (port u) p1" "rx_items p1 = []"
    using read_like [OF less.prems(1), of bufsz] n by auto
  show ?case
  proof (cases "rx_items (port u) = []")
    case False
    let ?u = "u\<lparr>port := p1\<rparr>" and ?b = "take len buf @ rx_items (port u) @ drop (len + ?n) buf"
    have w: "wr_all buf len (rx_items (port u)) = Some ?b" using less.prems(7) by (simp add: wr_all_def rx_bytes_def)
    have wt: "well_timed 20 ?u"
      using less.prems(3) False p1(3) by (auto simp: well_timed_def in_time_def)
    have m: "bufsz - ?n + length (arrivals ?u) < bufsz + length (arrivals u)" using False n by simp
    have pre: "port_ok (port ?u)" "arrivals ?u = [] \<or> int_port (port ?u)" "length (rx_bytes ?u) < bufsz - ?n"
      "length (rx_bytes ?u) \<le> rx_room (port ?u)" "len + ?n + length (rx_bytes ?u) \<le> length ?b" "(20::nat) \<le> 20"
      using less.prems p1 n by (auto simp: like_def rx_bytes_def)
    obtain p' where p':
      "receive_loop ?b (len + ?n) (bufsz - ?n) 20 20 ?u =
        Some (take (len + ?n) ?b @ rx_bytes ?u @ drop (len + ?n + length (rx_bytes ?u)) ?b, len + ?n + length (rx_bytes ?u),
        ?u\<lparr>port := p', arrivals := []\<rparr>)" "like p1 p'" "rx_items p' = []"
      using less.hyps [OF m pre(1,2) wt pre(6,3-5)] by auto
    show ?thesis
      using p' p1 less.prems False n w like_trans [OF p1(2) p'(2)]
      by (intro exI [of _ p'], subst receive_loop.simps) (simp add: Let_def rx_bytes_def ac_simps)
  next
    case True
    have ok1: "port_ok p1" and i1: "int_port p1 = int_port (port u)" and r1: "rx_room p1 = rx_room (port u)"
      using p1(2) by (simp_all add: like_def)
    show ?thesis
    proof (cases "arrivals u")
      case Nil
      then show ?thesis using True p1
        by (intro exI [of _ p1], subst receive_loop.simps) (simp add: Let_def rx_bytes_def rx_sem_take_def)
    next
      case (Cons x r)
      obtain g bs where x: "x = (g, bs)" by (cases x)
      have t: "bs \<noteq> []" "g < t" "\<And>e. in_time 20 e r"
        using less.prems(3) True Cons x in_time_Cons [of t True g bs r] by (auto simp: well_timed_def)
      have i: "int_port p1" using less.prems(2) Cons i1 by simp
      obtain p2 where p2: "feed uart_receive p1 bs = Some p2" "like p1 p2" "rx_items p2 = bs"
        using feed_like [OF ok1, of bs] p1(3) r1 less.prems(6) Cons x by (auto simp: rx_bytes_def)
      let ?u = "u\<lparr>port := p2, arrivals := r\<rparr>"
      have i2: "int_port p2" using p2(2) i by (auto simp: like_def)
      have s: "rx_sem_take t (u\<lparr>port := p1\<rparr>) = Some (True, ?u)"
        using t p2 i2 Cons x by (simp add: rx_sem_take_def)
      have wt: "well_timed 20 ?u" using t(3) by (simp add: well_timed_def)
      have m: "bufsz + length (arrivals ?u) < bufsz + length (arrivals u)" using Cons by simp
      have pre: "port_ok (port ?u)" "arrivals ?u = [] \<or> int_port (port ?u)" "length (rx_bytes ?u) < bufsz"
        "length (rx_bytes ?u) \<le> rx_room (port ?u)" "len + length (rx_bytes ?u) \<le> length buf" "(20::nat) \<le> 20"
        using less.prems p1 p2 i2 Cons x True by (auto simp: like_def rx_bytes_def)
      obtain p' where p':
        "receive_loop buf len bufsz 20 20 ?u =
          Some (take len buf @ rx_bytes ?u @ drop (len + length (rx_bytes ?u)) buf, len + length (rx_bytes ?u),
          ?u\<lparr>port := p', arrivals := []\<rparr>)" "like p2 p'" "rx_items p' = []"
        using less.hyps [OF m pre(1,2) wt pre(6,3-5)] by auto
      show ?thesis
        using p' p1 p2 s x Cons True like_trans [OF like_trans [OF p1(2) p2(2)] p'(2)]
        by (intro exI [of _ p'], subst receive_loop.simps) (simp add: Let_def rx_bytes_def)
    qed
  qed
qed

lemma pass_time_ok:
  assumes "port_ok p" "length (rx_items p @ chunk_bytes a) \<le> rx_room p" "in_time t (rx_items p = []) a" "20 \<le> t"
  shows "\<exists>p' a'. pass_time d p a = Some (p', a') \<and> like p p' \<and> rx_items p' @ chunk_bytes a' = rx_items p @ chunk_bytes a \<and>
    in_time t (rx_items p' = []) a' \<and> (a = [] \<longrightarrow> a' = [])"
  using assms
proof (induction d p a rule: pass_time.induct)
  case (2 d p g bs r)
  show ?case
  proof (cases "g \<le> d")
    case True
    obtain p1 where p1: "feed uart_receive p bs = Some p1" "like p p1" "rx_items p1 = rx_items p @ bs"
      using feed_like [OF 2(2), of bs] 2(3) by auto
    have t: "bs \<noteq> []" "\<And>e. in_time 20 e r" using in_time_Cons [OF 2(4)] by auto
    have tt: "in_time t (rx_items p1 = []) r" using t(2) [of False] 2(5) p1(3) t(1) by (auto simp: in_time_def)
    show ?thesis
      using 2(1) [OF True p1(1)] p1 2 tt True by (auto simp: like_def)
  next
    case False
    then show ?thesis using 2 by (auto simp: in_time_def split: if_splits)
  qed
qed simp

lemma pass_time_total: "port_ok p \<Longrightarrow> \<exists>p' a'. pass_time d p a = Some (p', a') \<and> like p p'"
proof (induction d p a rule: pass_time.induct)
  case (2 d p g bs r)
  obtain p1 where p1: "feed uart_receive p bs = Some p1" "like p p1" using feed_like [OF 2(2), of bs] by auto
  show ?case
  proof (cases "g \<le> d")
    case True
    then obtain p2 a' where p2: "pass_time (d - g) p1 r = Some (p2, a')" "like p1 p2"
      using 2(1) [OF True p1(1)] p1(2) by (auto simp: like_def)
    then show ?thesis using True p1 like_trans [OF p1(2) p2(2)] by simp
  qed (use 2 in simp)
qed simp

lemma delay_idle [simp]: "arrivals u = [] \<Longrightarrow> rt_thread_mdelay d u = Some u"
  by (cases u) (simp add: rt_thread_mdelay_def)

section \<open>Polling a register\<close>

text \<open>The state between two polls; \<open>ups_ok\<close> when nothing is on the line.\<close>

definition ups_wf :: "ups_state \<Rightarrow> bool" where
  "ups_wf s \<longleftrightarrow> modbus_ok (ups_ctx s) \<and> slave (ups_ctx s) = 1 \<and> length (send_buf (ups_ctx s)) = AGILE_MODBUS_MAX_ADU_LENGTH \<and>
     length (read_buf (ups_ctx s)) = AGILE_MODBUS_MAX_ADU_LENGTH \<and> length (ups_hold_register s) = 34 \<and>
     port_ok (port (ups_uart s))"

definition ups_ok :: "ups_state \<Rightarrow> bool" where
  "ups_ok s \<longleftrightarrow> ups_wf s \<and> rx_items (port (ups_uart s)) = [] \<and> arrivals (ups_uart s) = []"

text \<open>The line of a port that receives by interrupts and has room for an answer.\<close>

definition int_line :: "serial_port \<Rightarrow> bool" where
  "int_line p \<longleftrightarrow> int_port p \<and> 7 \<le> rx_room p"

lemma like_line: "like p p' \<Longrightarrow> int_line p' = int_line p"
  by (simp add: like_def int_line_def)

text \<open>The request for the register of index \<open>i\<close> and an answer with value \<open>v\<close>, in chunks that arrive in time.\<close>

definition ups_request :: "nat \<Rightarrow> u8 list" where
  "ups_request i = rtu_frame (1 # 3 # be2 (ups_reg_map ! i) @ be2 1)"

definition ups_answers :: "(u8 list \<Rightarrow> chunks) \<Rightarrow> nat \<Rightarrow> u16 \<Rightarrow> bool" where
  "ups_answers dev i v \<longleftrightarrow> chunk_bytes (dev (ups_request i)) = rtu_frame (1 # 3 # 2 # be_regs [v]) \<and>
     in_time 1000 True (dev (ups_request i))"

text \<open>The alarm word: line failed, power down, battery low; the other bits are kept.\<close>

definition ups_alarm_word :: "u16 \<Rightarrow> bool \<Rightarrow> u16 \<Rightarrow> u16" where
  "ups_alarm_word r failed w = put_bit 2 (bit r 6) (put_bit 1 (bit r 7) (put_bit 0 failed w))"

text \<open>What an update publishes of the registers and the state of the line.\<close>

definition ups_view :: "u16 list \<Rightarrow> bool \<Rightarrow> myPara \<Rightarrow> myPara" where
  "ups_view h failed p = p\<lparr>ups_input_voltage := h ! 0, ups_output_voltage := h ! 1, ups_battery_voltage := h ! 2,
     ups_battery_capacity := h ! 3, ups_battery_duration_min := h ! 4, ups_battery_duration_s := h ! 5,
     ups_read_alarm_status := h ! 6,
     ups_alarm_status := ups_alarm_word (h ! 6) failed (ups_alarm_status p),
     ups_run_stataus := if bit (h ! 6) 7 then 1 else 0\<rparr>"

lemma ups_alarm_word_again: "ups_alarm_word r a (ups_alarm_word r' b w) = ups_alarm_word r a w"
  by (rule bit_word_eqI) (simp add: ups_alarm_word_def bit_put_bit)

lemma ups_view_again: "ups_view h a (ups_view h' b p) = ups_view h a p"
  by (simp add: ups_view_def ups_alarm_word_again split del: if_split)

lemma update_view:
  assumes "7 \<le> length (ups_hold_register s)" "ups_para s = set_ups_comm_fail failed p"
  shows "\<exists>s'. update_ups_data s = Some s' \<and>
    ups_para s' = ups_view (ups_hold_register s) failed p \<and>
    ups_alarm_last s' = ups_alarm_status (ups_para s') \<and>
    ups_ctx s' = ups_ctx s \<and> ups_hold_register s' = ups_hold_register s \<and>
    comm_fail_retry_cnt s' = comm_fail_retry_cnt s \<and> ups_uart s' = ups_uart s"
  using assms
  by (simp add: update_ups_data_def rd_seg_0 Let_def alarm_event_monitor_def split_def ups_view_def set_ups_comm_fail_def
      ups_alarm_word_def bit_put_bit)

lemma ups_reg_bounds: "i < 7 \<Longrightarrow> 0 \<le> ups_reg_map ! i \<and> ups_reg_map ! i < 65536"
  by (auto simp: ups_reg_map_def less_Suc_eq numeral_eq_Suc)

lemma poll_request:
  assumes "ups_wf s" "i < 7"
  shows "\<exists>rest. agile_modbus_serialize_read_registers (ups_ctx s) (ups_reg_map ! i) 1 =
    Some (ups_ctx s\<lparr>send_buf := ups_request i @ rest\<rparr>, 8) \<and> length (ups_request i @ rest) = 64"
proof -
  let ?r = "Read_Registers (ups_reg_map ! i) 1"
  have ok: "modbus_ok (ups_ctx s)" "slave (ups_ctx s) = 1" "length (send_buf (ups_ctx s)) = 64"
    using assms(1) by (simp_all add: ups_wf_def)
  have b: "request_body (ups_ctx s) ?r = 1 # 3 # be2 (ups_reg_map ! i) @ be2 1" using ok(2) by (simp add: request_body_def)
  have "serialize (ups_ctx s) ?r = framed (ups_ctx s) ?r"
    using ok by (intro serialize_frame) (simp_all add: b [simplified])
  then show ?thesis using ok(3)
    by (intro exI [of _ "drop 8 (send_buf (ups_ctx s))"]) (simp add: framed_def b [simplified] ups_request_def Let_def)
qed

lemma request_length: "length (ups_request i) = 8"
  by (simp add: ups_request_def)

text \<open>Sending a request and collecting what comes back.\<close>

lemma poll_receive:
  assumes u: "port_ok (port u)" "rx_items (port u) = []" "arrivals u = []" and b: "length buf = 64"
    and dev: "in_time 1000 True (dev frame)" "dev frame = [] \<or> int_port (port u)"
    and bytes: "bytes = chunk_bytes (dev frame)" "length bytes < 64" "length bytes \<le> rx_room (port u)"
    and sb: "take (nat n) sb = frame"
  shows "\<exists>u0 u'. rs_485_send_data dev sb n u = Some u0 \<and>
      rs_485_receive buf 64 1000 20 u0 = Some (bytes @ drop (length bytes) buf, length bytes, u') \<and>
      like (port u) (port u') \<and> rx_items (port u') = [] \<and> arrivals u' = [] \<and>
      tx_frames u' = tx_frames u @ [frame] \<and> \<not> dr_high u'"
proof -
  have raw: "serial_poll_tx (port u) frame = frame" using u(1) by (simp add: poll_tx_raw port_ok_def)
  obtain p a where p: "pass_time 3 (port u) (dev frame) = Some (p, a)" "like (port u) p"
    "rx_items p @ chunk_bytes a = bytes" "in_time 1000 (rx_items p = []) a" "dev frame = [] \<longrightarrow> a = []"
    using pass_time_ok [of "port u" "dev frame" 1000 3] u bytes(1,3) dev(1) by auto
  let ?u0 = "u\<lparr>port := p, arrivals := a, tx_frames := tx_frames u @ [frame], dr_high := False\<rparr>"
  have s0: "rs_485_send_data dev sb n u = Some ?u0"
    using u p(1) sb raw by (simp add: rs_485_send_data_def rt_thread_mdelay_def Let_def)
  obtain u0 where u0: "rs_485_send_data dev sb n u = Some u0" "port u0 = p" "arrivals u0 = a"
    "tx_frames u0 = tx_frames u @ [frame]" "\<not> dr_high u0"
    by (rule that [OF s0]) simp_all
  have rb: "rx_bytes u0 = bytes" using p(3) u0 by (simp add: rx_bytes_def)
  have pre: "port_ok (port u0)" "arrivals u0 = [] \<or> int_port (port u0)" "well_timed 1000 u0"
    "length (rx_bytes u0) \<le> rx_room (port u0)"
    using p u0 dev(2) bytes(3) rb by (auto simp: like_def well_timed_def)
  obtain p' where p': "receive_loop buf 0 64 1000 20 u0 =
      Some (bytes @ drop (length bytes) buf, length bytes, u0\<lparr>port := p', arrivals := []\<rparr>)" "like (port u0) p'" "rx_items p' = []"
    using receive_all [OF pre(1-3) _ _ pre(4), of 64 0 buf] bytes(2) b rb by auto
  show ?thesis
    using u0 p' like_trans [OF p(2)] by (auto simp: rs_485_receive_def)
qed

lemma poll_answered:
  assumes s: "ups_ok s" and l: "int_line (port (ups_uart s))" and i: "i < 7" and dev: "ups_answers dev i v"
  shows "\<exists>s'. ups_poll_register dev i s = Some s' \<and> ups_ok s' \<and> int_line (port (ups_uart s')) \<and>
    ups_hold_register s' = (ups_hold_register s)[i := v] \<and>
    ups_para s' = ups_view (ups_hold_register s') False (ups_para s) \<and>
    ups_alarm_last s' = ups_alarm_status (ups_para s') \<and> comm_fail_retry_cnt s' = comm_fail_retry_cnt s"
proof -
  let ?ans = "rtu_frame (1 # 3 # 2 # be_regs [v])"
  obtain rest where req: "agile_modbus_serialize_read_registers (ups_ctx s) (ups_reg_map ! i) 1 =
      Some (ups_ctx s\<lparr>send_buf := ups_request i @ rest\<rparr>, 8)" "length (ups_request i @ rest) = 64"
    using poll_request [OF _ i] s unfolding ups_ok_def by blast
  have ok: "modbus_ok (ups_ctx s)" "length (read_buf (ups_ctx s)) = 64" "length (ups_hold_register s) = 34"
    "port_ok (port (ups_uart s))" "rx_items (port (ups_uart s)) = []" "arrivals (ups_uart s) = []" "length (send_buf (ups_ctx s)) = 64"
    using s by (simp_all add: ups_ok_def ups_wf_def)
  have lr: "length ?ans = 7" "int_port (port (ups_uart s))" "7 \<le> rx_room (port (ups_uart s))"
    using l by (simp_all add: be_regs_def int_line_def)
  obtain u0 u where u: "rs_485_send_data dev (ups_request i @ rest) 8 (ups_uart s) = Some u0"
    "rs_485_receive (read_buf (ups_ctx s)) 64 1000 20 u0 = Some (?ans @ drop 7 (read_buf (ups_ctx s)), 7, u)"
    "like (port (ups_uart s)) (port u)" "rx_items (port u) = []" "arrivals u = []"
  proof -
    have d: "in_time 1000 True (dev (ups_request i))" "?ans = chunk_bytes (dev (ups_request i))"
      using dev by (simp_all add: ups_answers_def)
    have t: "take (nat 8) (ups_request i @ rest) = ups_request i" by (simp add: request_length)
    have "length ?ans < 64" "length ?ans \<le> rx_room (port (ups_uart s))" using lr by simp_all
    moreover have "dev (ups_request i) = [] \<or> int_port (port (ups_uart s))" using lr(2) by simp
    ultimately show thesis
      using poll_receive [where dev = dev and frame = "ups_request i" and bytes = ?ans and n = 8, OF ok(4-6,2) d(1) _ d(2) _ _ t]
      unfolding lr(1) using that by blast
  qed
  let ?ctx = "ups_ctx s\<lparr>send_buf := ups_request i @ rest, read_buf := ?ans @ drop 7 (read_buf (ups_ctx s))\<rparr>"
  have okc: "modbus_ok ?ctx" using ok req(2) by (auto simp: modbus_ok_def)
  have rs: "read_bufsz (ups_ctx s) = 64" using ok by (auto simp: modbus_ok_def)
  have d: "agile_modbus_deserialize_read_registers ?ctx 7 (drop i (ups_hold_register s)) =
      Some (v # drop (Suc i) (ups_hold_register s), 1)"
    using confirmed_read(1) [OF okc, of 1 "[v]" 1 "ups_reg_map ! i" rest "drop 7 (read_buf (ups_ctx s))"]
      confirmed_read(2) [OF okc, of 1 "[v]" 1 "ups_reg_map ! i" rest "drop 7 (read_buf (ups_ctx s))" "drop i (ups_hold_register s)"]
      ok(3) i by (simp add: agile_modbus_deserialize_read_registers_def ups_request_def)
  let ?s = "s\<lparr>ups_ctx := ?ctx, ups_uart := u, ups_para := set_ups_comm_fail False (ups_para s),
      ups_hold_register := (ups_hold_register s)[i := v]\<rparr>"
  obtain s1 where s1: "update_ups_data ?s = Some s1"
    "ups_para s1 = ups_view (ups_hold_register ?s) False (ups_para s)" "ups_alarm_last s1 = ups_alarm_status (ups_para s1)"
    "ups_ctx s1 = ?ctx" "ups_hold_register s1 = ups_hold_register ?s" "comm_fail_retry_cnt s1 = comm_fail_retry_cnt s"
    "ups_uart s1 = u"
    using update_view [of ?s False "ups_para s"] ok(3) by auto
  have h: "take i (ups_hold_register s) @ v # drop (Suc i) (ups_hold_register s) = (ups_hold_register s)[i := v]"
    using i ok(3) by (simp add: upd_conv_take_nth_drop)
  have "ups_poll_register dev i s = Some (s1\<lparr>ups_uart := u\<rparr>)"
    using req(1) u d s1(1) h i s1(7)
    by (simp add: ups_poll_register_def ups_reg_map_def rd_def rs Let_def ups_update_def)
  moreover have "ups_ok (s1\<lparr>ups_uart := u\<rparr>)" "int_line (port u)"
    using s1(4,5) okc ok req(2) u(3-5) s l like_line [OF u(3)] by (simp_all add: ups_ok_def ups_wf_def like_def)
  ultimately show ?thesis using s1 by (intro exI [of _ "s1\<lparr>ups_uart := u\<rparr>"]) simp
qed

lemma poll_silent:
  assumes s: "ups_ok s" and i: "i < 7" and dev: "dev (ups_request i) = []"
    and c: "0 \<le> comm_fail_retry_cnt s" "comm_fail_retry_cnt s < 3"
  shows "\<exists>s'. ups_poll_register dev i s = Some s' \<and> ups_ok s' \<and> ups_hold_register s' = ups_hold_register s \<and>
    comm_fail_retry_cnt s' = (comm_fail_retry_cnt s + 1) mod 3 \<and>
    ups_para s' = (if comm_fail_retry_cnt s = 2 then ups_view (ups_hold_register s) True (ups_para s) else ups_para s)"
proof -
  obtain rest where req: "agile_modbus_serialize_read_registers (ups_ctx s) (ups_reg_map ! i) 1 =
      Some (ups_ctx s\<lparr>send_buf := ups_request i @ rest\<rparr>, 8)" "length (ups_request i @ rest) = 64"
    using poll_request [OF _ i] s unfolding ups_ok_def by blast
  have ok: "modbus_ok (ups_ctx s)" "length (read_buf (ups_ctx s)) = 64" "length (ups_hold_register s) = 34"
    "port_ok (port (ups_uart s))" "rx_items (port (ups_uart s)) = []" "arrivals (ups_uart s) = []" "length (send_buf (ups_ctx s)) = 64"
    using s by (simp_all add: ups_ok_def ups_wf_def)
  obtain u0 u where u: "rs_485_send_data dev (ups_request i @ rest) 8 (ups_uart s) = Some u0"
    "rs_485_receive (read_buf (ups_ctx s)) 64 1000 20 u0 = Some (read_buf (ups_ctx s), 0, u)"
    "like (port (ups_uart s)) (port u)" "rx_items (port u) = []" "arrivals u = []"
    using poll_receive [OF ok(4-6,2), of dev "ups_request i" "[]" 8 "ups_request i @ rest"] dev
    by (auto simp: request_length in_time_def)
  let ?ctx = "ups_ctx s\<lparr>send_buf := ups_request i @ rest, read_buf := read_buf (ups_ctx s)\<rparr>"
  have okc: "modbus_ok ?ctx" using ok req(2) by (auto simp: modbus_ok_def)
  have rs: "read_bufsz (ups_ctx s) = 64" using ok by (auto simp: modbus_ok_def)
  let ?s = "s\<lparr>ups_ctx := ?ctx, ups_uart := u, comm_fail_retry_cnt := comm_fail_retry_cnt s + 1\<rparr>"
  have p: "ups_poll_register dev i s =
      (if comm_fail_retry_cnt s = 2
       then ups_update (?s\<lparr>comm_fail_retry_cnt := 0, ups_para := set_ups_comm_fail True (ups_para s)\<rparr>) else Some ?s)"
    using req(1) u i by (simp add: ups_poll_register_def ups_reg_map_def rd_def rs Let_def)
  have okS: "ups_ok ?s" using okc ok req(2) u s by (simp add: ups_ok_def ups_wf_def like_def)
  show ?thesis
  proof (cases "comm_fail_retry_cnt s = 2")
    case False
    then show ?thesis using p okS c by simp
  next
    case True
    let ?t = "?s\<lparr>comm_fail_retry_cnt := 0, ups_para := set_ups_comm_fail True (ups_para s)\<rparr>"
    obtain s1 where s1: "update_ups_data ?t = Some s1" "ups_para s1 = ups_view (ups_hold_register s) True (ups_para s)"
      "ups_ctx s1 = ?ctx" "ups_hold_register s1 = ups_hold_register s" "comm_fail_retry_cnt s1 = 0" "ups_uart s1 = u"
      using update_view [of ?t True "ups_para s"] ok(3) by auto
    have "ups_poll_register dev i s = Some (s1\<lparr>ups_uart := u\<rparr>)"
      using p True s1(1) u(5) by (simp add: ups_update_def s1(6))
    then show ?thesis using s1 okS True by (simp add: ups_ok_def ups_wf_def)
  qed
qed

section \<open>Properties\<close>

lemma poll_append:
  "ups_poll_registers dev (is @ [j]) s = do { s \<leftarrow> ups_poll_registers dev is s; ups_poll_register dev j s }"
proof (induction "is" arbitrary: s)
  case Nil
  then show ?case by (cases "ups_poll_register dev j s") simp_all
next
  case (Cons a "is")
  then show ?case by (cases "ups_poll_register dev a s") simp_all
qed

lemma polls_answered:
  assumes "ups_ok s" "int_line (port (ups_uart s))" "k \<le> 7" "length vals = 7" "\<forall>i < 7. ups_answers dev i (vals ! i)"
  shows "\<exists>s'. ups_poll_registers dev [0..<k] s = Some s' \<and> ups_ok s' \<and> int_line (port (ups_uart s')) \<and>
    ups_hold_register s' = take k vals @ drop k (ups_hold_register s) \<and>
    (0 < k \<longrightarrow> ups_para s' = ups_view (ups_hold_register s') False (ups_para s) \<and>
       ups_alarm_last s' = ups_alarm_status (ups_para s')) \<and>
    comm_fail_retry_cnt s' = comm_fail_retry_cnt s"
  using assms(3)
proof (induction k)
  case 0
  then show ?case using assms(1,2) by simp
next
  case (Suc k)
  obtain s1 where s1: "ups_poll_registers dev [0..<k] s = Some s1" "ups_ok s1" "int_line (port (ups_uart s1))"
    "ups_hold_register s1 = take k vals @ drop k (ups_hold_register s)"
    "0 < k \<longrightarrow> ups_para s1 = ups_view (ups_hold_register s1) False (ups_para s)"
    "comm_fail_retry_cnt s1 = comm_fail_retry_cnt s" using Suc by auto
  have app: "ups_poll_registers dev (is @ [j]) s = do { s \<leftarrow> ups_poll_registers dev is s; ups_poll_register dev j s }" for "is" j
    by (rule poll_append)
  obtain s2 where s2: "ups_poll_register dev k s1 = Some s2" "ups_ok s2" "int_line (port (ups_uart s2))"
    "ups_hold_register s2 = (ups_hold_register s1)[k := vals ! k]"
    "ups_para s2 = ups_view (ups_hold_register s2) False (ups_para s1)"
    "ups_alarm_last s2 = ups_alarm_status (ups_para s2)" "comm_fail_retry_cnt s2 = comm_fail_retry_cnt s1"
    using poll_answered [OF s1(2,3), of k dev "vals ! k"] assms(5) Suc.prems by auto
  have "length (ups_hold_register s) = 34" using assms(1) by (simp add: ups_ok_def ups_wf_def)
  then have h: "ups_hold_register s2 = take (Suc k) vals @ drop (Suc k) (ups_hold_register s)"
    unfolding s2(4) s1(4) using Suc.prems assms(4)
    by (simp add: list_update_append take_Suc_conv_app_nth Cons_nth_drop_Suc [symmetric])
  have "ups_para s2 = ups_view (ups_hold_register s2) False (ups_para s)"
    unfolding s2(5) using s1(1,5) by (cases "k = 0") (auto simp: ups_view_again)
  then show ?case using s1 s2 h by (simp add: app)
qed

lemma polls_silent:
  assumes "ups_ok s" "\<forall>i \<in> set is. i < 7 \<and> dev (ups_request i) = []" "0 \<le> comm_fail_retry_cnt s" "comm_fail_retry_cnt s < 3"
  shows "\<exists>s'. ups_poll_registers dev is s = Some s' \<and> ups_ok s' \<and> ups_hold_register s' = ups_hold_register s \<and>
    comm_fail_retry_cnt s' = (comm_fail_retry_cnt s + int (length is)) mod 3 \<and>
    ups_para s' = (if 3 \<le> comm_fail_retry_cnt s + int (length is) then ups_view (ups_hold_register s) True (ups_para s) else ups_para s)"
  using assms
proof (induction "is" arbitrary: s)
  case Nil
  then show ?case by simp
next
  case (Cons i "is")
  let ?c = "comm_fail_retry_cnt s"
  obtain s1 where s1: "ups_poll_register dev i s = Some s1" "ups_ok s1" "ups_hold_register s1 = ups_hold_register s"
    "comm_fail_retry_cnt s1 = (?c + 1) mod 3"
    "ups_para s1 = (if ?c = 2 then ups_view (ups_hold_register s) True (ups_para s) else ups_para s)"
    using poll_silent [of s i dev] Cons.prems by auto
  obtain s2 where s2: "ups_poll_registers dev is s1 = Some s2" "ups_ok s2" "ups_hold_register s2 = ups_hold_register s1"
    "comm_fail_retry_cnt s2 = (comm_fail_retry_cnt s1 + int (length is)) mod 3"
    "ups_para s2 = (if 3 \<le> comm_fail_retry_cnt s1 + int (length is) then ups_view (ups_hold_register s1) True (ups_para s1) else ups_para s1)"
    using Cons.IH [OF s1(2)] Cons.prems s1(4) by auto
  have c: "?c = 0 \<or> ?c = 1 \<or> ?c = 2" using Cons.prems by auto
  have "comm_fail_retry_cnt s2 = (?c + int (length (i # is))) mod 3"
    unfolding s2(4) s1(4) by (simp add: mod_add_left_eq add.assoc)
  moreover have "ups_para s2 = (if 3 \<le> ?c + int (length (i # is)) then ups_view (ups_hold_register s) True (ups_para s) else ups_para s)"
    using c unfolding s2(5) s1(3-5) by (elim disjE) (simp_all add: ups_view_again)
  ultimately show ?case using s1 s2 by simp
qed

text \<open>C16: While the UPS answers every request, in chunks that arrive in time, one round of the poller is
  defined and publishes exactly its seven registers, with the alarm word (line good, power down from
  bit 7 and battery low from bit 6 of the alarm register, other bits kept) and the supply state that
  follow from them, whatever was known before; the line is idle again and the alarm monitor has seen
  the word.\<close>

theorem ups_mirrored:
  assumes "ups_ok s" "int_line (port (ups_uart s))" "length vals = 7" "\<forall>i < 7. ups_answers dev i (vals ! i)"
  shows "\<exists>s'. ups_master_poll dev s = Some s' \<and> ups_ok s' \<and> int_line (port (ups_uart s')) \<and>
    ups_para s' = (ups_para s)\<lparr>ups_input_voltage := vals ! 0, ups_output_voltage := vals ! 1, ups_battery_voltage := vals ! 2,
     ups_battery_capacity := vals ! 3, ups_battery_duration_min := vals ! 4, ups_battery_duration_s := vals ! 5,
     ups_read_alarm_status := vals ! 6,
     ups_alarm_status := put_bit 2 (bit (vals ! 6) 6) (put_bit 1 (bit (vals ! 6) 7) (put_bit 0 False (ups_alarm_status (ups_para s)))),
     ups_run_stataus := if bit (vals ! 6) 7 then 1 else 0\<rparr> \<and>
    ups_alarm_last s' = ups_alarm_status (ups_para s') \<and> take 7 (ups_hold_register s') = vals"
proof -
  have "length ups_reg_map = 7" "rt_thread_mdelay 200 (ups_uart s) = Some (ups_uart s)"
    using assms(1) by (simp_all add: ups_reg_map_def ups_ok_def ups_wf_def)
  then have "ups_master_poll dev s = ups_poll_registers dev [0..<7] s" by (simp add: ups_master_poll_def)
  then show ?thesis
    using polls_answered [OF assms(1,2) le_refl assms(3,4)] assms(3)
    by (auto simp: ups_view_def ups_alarm_word_def nth_append)
qed

text \<open>A UPS that sends its answer in two chunks, one of them after 100 ms.\<close>

definition ups_demo :: "u8 list \<Rightarrow> chunks" where
  "ups_demo frame = (let a = rtu_frame [1, 3, 2, 0, 0xC0] in [(100, take 3 a), (5, drop 3 a)])"

lemma ups_demo_answers: "ups_answers ups_demo i 0xC0"
  by (simp add: ups_answers_def ups_demo_def Let_def be_regs_def hi_byte_def lo_byte_def in_time_def rtu_frame_def)

definition ups_demo_start :: "rs_485_port \<Rightarrow> ups_state" where
  "ups_demo_start i = ups_master_start (replicate AGILE_MODBUS_MAX_ADU_LENGTH 0) (replicate AGILE_MODBUS_MAX_ADU_LENGTH 0) para0 (rs_485_open i)"

lemma rs_485_open_ok:
  "port_ok (port (rs_485_open i))" "rx_items (port (rs_485_open i)) = []" "int_port (port (rs_485_open i)) \<longleftrightarrow> i = RS_485_UART0"
  "rx_room (port (rs_485_open i)) = (if i = RS_485_UART0 then 63 else 1)" "arrivals (rs_485_open i) = []"
proof -
  have n: "2 \<le> RT_SERIAL_RB_BUFSZ" "RT_SERIAL_RB_BUFSZ < 65536" "RT_SERIAL_RB_BUFSZ - 1 = 63"
    by (simp_all add: RT_SERIAL_RB_BUFSZ_def)
  show "port_ok (port (rs_485_open i))" "rx_items (port (rs_485_open i)) = []" "int_port (port (rs_485_open i)) \<longleftrightarrow> i = RS_485_UART0"
    "rx_room (port (rs_485_open i)) = (if i = RS_485_UART0 then 63 else 1)" "arrivals (rs_485_open i) = []"
    using port_open_ok [OF n(1,2)] n(3) by (simp_all add: rs_485_open_def rs_485_oflag_def rx_room_def)
qed

lemma ups_start_ok: "ups_ok (ups_demo_start i)"
  by (simp add: ups_ok_def ups_wf_def ups_demo_start_def ups_master_start_def agile_modbus_set_slave_def agile_modbus_rtu_init_def
      agile_modbus_common_init_def modbus_ok_def rs_485_open_ok)

theorem ups_mirrored_witness:
  "\<exists>s'. ups_master_poll ups_demo (ups_demo_start RS_485_UART0) = Some s' \<and>
     ups_battery_voltage (ups_para s') = 0xC0 \<and> ups_run_stataus (ups_para s') = 1"
proof -
  have "\<forall>i < 7. ups_answers ups_demo i (replicate 7 0xC0 ! i)" by (simp add: ups_demo_answers)
  moreover have "int_line (port (ups_uart (ups_demo_start RS_485_UART0)))"
    by (simp add: ups_demo_start_def ups_master_start_def int_line_def rs_485_open_ok)
  ultimately show ?thesis using ups_mirrored [OF ups_start_ok, of RS_485_UART0 "replicate 7 0xC0" ups_demo] by auto
qed

text \<open>While the UPS is silent, every third unanswered request marks the line as failed and publishes
  the last known registers with that mark; nothing else changes, no answer is invented, and the
  poller stays ready for the next request.\<close>

lemma ups_line_failure:
  assumes "ups_ok s" "\<forall>i < 7. dev (ups_request i) = []" "0 \<le> comm_fail_retry_cnt s" "comm_fail_retry_cnt s < 3"
    "\<forall>i \<in> set is. i < 7"
  shows "\<exists>s'. ups_poll_registers dev is s = Some s' \<and> ups_ok s' \<and> ups_hold_register s' = ups_hold_register s \<and>
    comm_fail_retry_cnt s' = (comm_fail_retry_cnt s + int (length is)) mod 3 \<and>
    (if 3 \<le> comm_fail_retry_cnt s + int (length is) then bit (ups_alarm_status (ups_para s')) 0
     else ups_para s' = ups_para s)"
  using polls_silent [OF assms(1) _ assms(3,4), of "is" dev] assms(2,5)
  by (auto simp: ups_view_def ups_alarm_word_def bit_put_bit)

theorem ups_line_failure_witness:
  "\<exists>s'. ups_poll_registers (\<lambda>f. []) [0, 1, 2] (ups_demo_start RS_485_UART2) = Some s' \<and>
     bit (ups_alarm_status (ups_para s')) 0 \<and> comm_fail_retry_cnt s' = 0"
proof -
  have "comm_fail_retry_cnt (ups_demo_start RS_485_UART2) = 0"
    by (simp add: ups_demo_start_def ups_master_start_def)
  then show ?thesis
    using ups_line_failure [OF ups_start_ok, of "\<lambda>f. []" RS_485_UART2 "[0, 1, 2]"] by auto
qed

text \<open>A good answer does not reset the counter: three requests lost at any distance raise the mark.\<close>

lemma ups_retry_not_reset:
  assumes "ups_ok s" "int_line (port (ups_uart s))" "i < 7" "ups_answers dev i v"
  shows "map_option comm_fail_retry_cnt (ups_poll_register dev i s) = Some (comm_fail_retry_cnt s)"
  using poll_answered [OF assms] by auto

section \<open>Every line\<close>

lemma rx_wait_total:
  "port_ok p \<Longrightarrow> \<exists>ok p' a'. rx_wait t p a = Some (ok, p', a') \<and> like p p' \<and> (ok \<longrightarrow> int_port p) \<and>
     (length (rx_items p @ chunk_bytes a) \<le> rx_room p \<longrightarrow> rx_items p' @ chunk_bytes a' = rx_items p @ chunk_bytes a)"
proof (induction t p a rule: rx_wait.induct)
  case (2 t p g bs r)
  obtain p1 where p1: "feed uart_receive p bs = Some p1" "like p p1"
    "length (rx_items p) + length bs \<le> rx_room p \<longrightarrow> rx_items p1 = rx_items p @ bs" using feed_like [OF 2(2), of bs] by auto
  have ok1: "port_ok p1" "rx_room p1 = rx_room p" "int_port p1 = int_port p" using p1(2) by (simp_all add: like_def)
  show ?case
  proof (cases "g < t \<and> \<not> (int_port p1 \<and> bs \<noteq> [])")
    case True
    then obtain ok p2 a' where p2: "rx_wait (t - g) p1 r = Some (ok, p2, a')" "like p1 p2" "ok \<longrightarrow> int_port p1"
      "length (rx_items p1 @ chunk_bytes r) \<le> rx_room p1 \<longrightarrow> rx_items p2 @ chunk_bytes a' = rx_items p1 @ chunk_bytes r"
      using 2(1) [OF _ p1(1) _ ok1(1)] by blast
    show ?thesis
      using p1 p2 True ok1 like_trans [OF p1(2) p2(2)] by auto
  qed (use p1 ok1 2(2) in \<open>auto split: if_splits\<close>)
qed auto

lemma receive_loop_ends:
  assumes "port_ok (port u)" "len + bufsz \<le> length buf"
  shows "\<exists>buf' n u'. receive_loop buf len bufsz t bt u = Some (buf', len + n, u') \<and> n \<le> bufsz \<and>
    length buf' = length buf \<and> take len buf' = take len buf \<and> like (port u) (port u') \<and>
    (length (rx_bytes u) \<le> rx_room (port u) \<longrightarrow> take n (drop len buf') @ rx_bytes u' = rx_bytes u)"
  using assms
proof (induction "bufsz + length (arrivals u)" arbitrary: buf len bufsz t u rule: less_induct)
  case (less bufsz u)
  let ?d = "take bufsz (rx_items (port u))"
  obtain p1 where p1: "rt_serial_read bufsz (port u) = Some (?d, p1)" "like (port u) p1" "rx_items p1 = drop bufsz (rx_items (port u))"
    using read_like [OF less.prems(1), of bufsz] by auto
  have ok1: "port_ok p1" "rx_room p1 = rx_room (port u)" using p1(2) by (simp_all add: like_def)
  show ?case
  proof (cases "?d = []")
    case False
    let ?n = "length ?d"
    let ?b = "take len buf @ ?d @ drop (len + ?n) buf" and ?u = "u\<lparr>port := p1\<rparr>"
    have w: "wr_all buf len ?d = Some ?b" using less.prems(2) by (simp add: wr_all_def)
    have lb: "length ?b = length buf" using less.prems(2) by simp
    have bd: "?d @ rx_bytes ?u = rx_bytes u" by (simp add: rx_bytes_def p1(3))
    have room: "length (rx_bytes ?u) \<le> rx_room (port ?u)" if "length (rx_bytes u) \<le> rx_room (port u)"
      using arg_cong [OF bd, of length] that ok1(2) by simp
    show ?thesis
    proof (cases "bufsz - ?n = 0")
      case True
      have "receive_loop buf len bufsz t bt u = Some (?b, len + ?n, ?u)"
        using w True False p1(1) by (subst receive_loop.simps) (simp add: Let_def)
      moreover have "take (min (length (rx_items (port u))) bufsz) (rx_items (port u)) = ?d" by (simp add: min_def)
      ultimately show ?thesis using bd less.prems(2) p1(2) lb
        by (intro exI [of _ ?b] exI [of _ ?n] exI [of _ ?u]) simp
    next
      case go: False
      have lt: "bufsz - ?n + length (arrivals ?u) < bufsz + length (arrivals u)" using False go by simp
      have lb2: "len + ?n + (bufsz - ?n) \<le> length ?b" using less.prems(2) by simp
      have okU: "port_ok (port ?u)" using ok1(1) by simp
      have pu: "port ?u = p1" by simp
      obtain buf' m u' where r:
        "receive_loop ?b (len + ?n) (bufsz - ?n) bt bt ?u = Some (buf', len + ?n + m, u')" "m \<le> bufsz - ?n"
        "length buf' = length ?b" "take (len + ?n) buf' = take (len + ?n) ?b" "like p1 (port u')"
        "length (rx_bytes ?u) \<le> rx_room p1 \<longrightarrow> take m (drop (len + ?n) buf') @ rx_bytes u' = rx_bytes ?u"
        using less.hyps [OF lt okU lb2, of bt] unfolding pu by blast
      have "receive_loop buf len bufsz t bt u = Some (buf', len + (?n + m), u')"
        using w go False r(1) p1(1) by (subst receive_loop.simps) (simp add: Let_def add.assoc)
      moreover have "take len buf' = take len buf"
        using arg_cong [OF r(4), of "take len"] less.prems by simp
      moreover have "take (?n + m) (drop len buf') @ rx_bytes u' = rx_bytes u" if "length (rx_bytes u) \<le> rx_room (port u)"
      proof -
        have "take ?n (drop len buf') = take ?n (drop len (take (len + ?n) buf'))" by (simp add: drop_take)
        also have "\<dots> = ?d" unfolding r(4) using less.prems by (simp add: min_def)
        finally have a: "take ?n (drop len buf') = ?d" .
        have "take (?n + m) (drop len buf') = take ?n (drop len buf') @ take m (drop (len + ?n) buf')"
          by (simp only: take_add drop_drop add.commute [of ?n len])
        then show ?thesis unfolding a using r(6) room [OF that] bd by simp
      qed
      ultimately show ?thesis using r(2,3) False lb like_trans [OF p1(2) r(5)]
        by (intro exI [of _ buf'] exI [of _ "?n + m"] exI [of _ u']) auto
    qed
  next
    case True
    then have bd: "bufsz = 0 \<or> rx_items (port u) = []" by simp
    have bytes: "rx_items p1 = rx_items (port u)" using bd p1(3) by auto
    obtain ok p2 a where s: "rx_wait t p1 (arrivals u) = Some (ok, p2, a)" "like p1 p2"
      "length (rx_items p1 @ chunk_bytes (arrivals u)) \<le> rx_room p1 \<longrightarrow> rx_items p2 @ chunk_bytes a = rx_items p1 @ chunk_bytes (arrivals u)"
      using rx_wait_total [OF ok1(1), of t "arrivals u"] by blast
    let ?u = "u\<lparr>port := p2, arrivals := a\<rparr>"
    have t: "rx_sem_take t (u\<lparr>port := p1\<rparr>) = Some (ok, ?u)" using s(1) by (simp add: rx_sem_take_def)
    have l: "like (port u) p2" by (rule like_trans [OF p1(2) s(2)])
    have b: "length (rx_bytes u) \<le> rx_room (port u) \<Longrightarrow> rx_bytes ?u = rx_bytes u"
      using s(3) ok1(2) bytes by (simp add: rx_bytes_def)
    show ?thesis
    proof (cases ok)
      case ok: True
      have lt: "bufsz + length (arrivals ?u) < bufsz + length (arrivals u)" using rx_wait_arrivals [OF s(1)] ok by simp
      have e: "receive_loop buf len bufsz t bt u = receive_loop buf len bufsz bt bt ?u"
        using True p1(1) t ok by (subst receive_loop.simps) (simp add: Let_def)
      have pre: "port_ok (port ?u)" using l by (simp add: like_def)
      obtain buf' n u' where r: "receive_loop buf len bufsz bt bt ?u = Some (buf', len + n, u')" "n \<le> bufsz"
        "length buf' = length buf" "take len buf' = take len buf" "like p2 (port u')"
        "length (rx_bytes ?u) \<le> rx_room p2 \<longrightarrow> take n (drop len buf') @ rx_bytes u' = rx_bytes ?u"
        using less.hyps [OF lt pre less.prems(2), of bt] by auto
      have "rx_room p2 = rx_room (port u)" using l by (simp add: like_def)
      then show ?thesis unfolding e using r b like_trans [OF l r(5)]
        by (intro exI [of _ buf'] exI [of _ n] exI [of _ u']) simp
    next
      case stop: False
      have "receive_loop buf len bufsz t bt u = Some (buf, len, ?u)"
        using True p1(1) t stop by (subst receive_loop.simps) (simp add: Let_def)
      then show ?thesis using l b
        by (intro exI [of _ buf] exI [of _ 0] exI [of _ ?u]) simp
    qed
  qed
qed

section \<open>A port opened for polling\<close>

lemma poll_loop_empty:
  assumes "port_ok (port u)" "\<not> int_port (port u)" "rx_items (port u) = []"
  shows "\<exists>u'. receive_loop buf len bufsz t bt u = Some (buf, len, u') \<and> like (port u) (port u')"
proof -
  obtain p1 where p1: "rt_serial_read bufsz (port u) = Some ([], p1)" "like (port u) p1"
    using read_like [OF assms(1), of bufsz] assms(3) by auto
  have "port_ok p1" "\<not> int_port p1" using p1(2) assms(2) by (simp_all add: like_def)
  then obtain p2 a where p2: "rx_wait t p1 (arrivals u) = Some (False, p2, a)" "like p1 p2"
    using rx_wait_total [of p1 t "arrivals u"] by auto
  show ?thesis
    using p1 p2 like_trans [OF p1(2) p2(2)] by (subst receive_loop.simps) (simp add: Let_def rx_sem_take_def)
qed

lemma poll_receive_one:
  assumes ok: "port_ok (port u)" and i: "\<not> int_port (port u)" and l: "2 \<le> bufsz" "bufsz \<le> length buf"
  shows "\<exists>buf' n u'. rs_485_receive buf bufsz t bt u = Some (buf', n, u') \<and> n \<le> 1 \<and> length buf' = length buf \<and>
    like (port u) (port u')"
proof (cases "rx_items (port u) = []")
  case True
  then show ?thesis using poll_loop_empty [OF ok i True, of buf 0 bufsz t bt] by (auto simp: rs_485_receive_def)
next
  case False
  have "length (rx_items (port u)) \<le> 1" using rx_items_room [OF ok] i by (simp add: rx_room_def)
  with False obtain b where b: "rx_items (port u) = [b]" by (cases "rx_items (port u)") auto
  obtain p1 where p1: "rt_serial_read bufsz (port u) = Some ([b], p1)" "like (port u) p1" "rx_items p1 = []"
    using read_like [OF ok, of bufsz] b l(1) by auto
  have w: "wr_all buf 0 [b] = Some (b # drop 1 buf)" using l by (simp add: wr_all_def)
  have q: "port_ok p1" "\<not> int_port p1" using p1(2) i by (simp_all add: like_def)
  obtain u' where u': "receive_loop (b # drop 1 buf) 1 (bufsz - 1) bt bt (u\<lparr>port := p1\<rparr>) = Some (b # drop 1 buf, 1, u')"
    "like p1 (port u')"
    using poll_loop_empty [of "u\<lparr>port := p1\<rparr>" "b # drop 1 buf" 1 "bufsz - 1" bt bt] q p1(3) by auto
  have "rs_485_receive buf bufsz t bt u = Some (b # drop 1 buf, 1, u')"
    unfolding rs_485_receive_def using p1(1) w u'(1) l by (subst receive_loop.simps) (simp add: Let_def)
  then show ?thesis using l like_trans [OF p1(2) u'(2)] by auto
qed

lemma send_like:
  assumes "port_ok (port u)"
  shows "\<exists>u'. rs_485_send_data dev buf n u = Some u' \<and> like (port u) (port u')"
  using pass_time_total [OF assms, of 3 "arrivals u @ dev (serial_poll_tx (port u) (take (nat n) buf))"]
  by (auto simp: rs_485_send_data_def rt_thread_mdelay_def Let_def)

lemma delay_like: "port_ok (port u) \<Longrightarrow> \<exists>u'. rt_thread_mdelay d u = Some u' \<and> like (port u) (port u')"
  using pass_time_total [of "port u" d "arrivals u"] by (auto simp: rt_thread_mdelay_def)

lemma one_byte_refused:
  assumes "modbus_ok ctx" "length (send_buf ctx) = 64" "length (read_buf ctx) = 64"
  shows "agile_modbus_deserialize_read_registers ctx 1 dest = Some (dest, -1)"
  using assms modbus_okD [OF assms(1)]
  by (simp add: agile_modbus_deserialize_read_registers_def confirmed_def agile_modbus_receive_msg_judge_def Let_def)

definition ups_deaf :: "ups_state \<Rightarrow> bool" where
  "ups_deaf s \<longleftrightarrow> ups_wf s \<and> \<not> int_port (port (ups_uart s))"

lemma update_deaf:
  assumes "ups_deaf s" "ups_para s = set_ups_comm_fail failed p"
  shows "\<exists>s'. ups_update s = Some s' \<and> ups_deaf s' \<and> ups_hold_register s' = ups_hold_register s"
proof -
  have l: "7 \<le> length (ups_hold_register s)" "port_ok (port (ups_uart s))" using assms(1) by (simp_all add: ups_deaf_def ups_wf_def)
  obtain s1 where s1: "update_ups_data s = Some s1" "ups_ctx s1 = ups_ctx s" "ups_hold_register s1 = ups_hold_register s"
    "ups_uart s1 = ups_uart s"
    using update_view [OF l(1) assms(2)] by blast
  obtain u where "rt_thread_mdelay 50 (ups_uart s1) = Some u" "like (port (ups_uart s)) (port u)"
    using delay_like [OF l(2), of 50] s1(4) by auto
  then show ?thesis using assms(1) s1 by (auto simp: ups_update_def ups_deaf_def ups_wf_def like_def)
qed

lemma poll_deaf:
  assumes d: "ups_deaf s" and i: "i < 7"
  shows "\<exists>s'. ups_poll_register dev i s = Some s' \<and> ups_deaf s' \<and> ups_hold_register s' = ups_hold_register s"
proof -
  have ok: "modbus_ok (ups_ctx s)" "length (read_buf (ups_ctx s)) = 64" "length (ups_hold_register s) = 34"
    "port_ok (port (ups_uart s))" "\<not> int_port (port (ups_uart s))" "slave (ups_ctx s) = 1"
    "length (send_buf (ups_ctx s)) = 64" and w: "ups_wf s"
    using d by (simp_all add: ups_deaf_def ups_wf_def)
  obtain rest where req: "agile_modbus_serialize_read_registers (ups_ctx s) (ups_reg_map ! i) 1 =
      Some (ups_ctx s\<lparr>send_buf := ups_request i @ rest\<rparr>, 8)" "length (ups_request i @ rest) = 64"
    using poll_request [OF w i] by blast
  obtain u0 where u0: "rs_485_send_data dev (ups_request i @ rest) 8 (ups_uart s) = Some u0" "like (port (ups_uart s)) (port u0)"
    using send_like [OF ok(4)] by blast
  have pre: "port_ok (port u0)" "\<not> int_port (port u0)" "2 \<le> (64::nat)" "64 \<le> length (read_buf (ups_ctx s))"
    using u0(2) ok by (simp_all add: like_def)
  obtain rb n u where r: "rs_485_receive (read_buf (ups_ctx s)) 64 1000 20 u0 = Some (rb, n, u)" "n \<le> 1" "length rb = 64"
    "like (port u0) (port u)"
    using poll_receive_one [OF pre, of 1000 20] ok(2) by auto
  have rs: "read_bufsz (ups_ctx s) = 64" using ok by (auto simp: modbus_ok_def)
  let ?ctx = "ups_ctx s\<lparr>send_buf := ups_request i @ rest, read_buf := rb\<rparr>"
  let ?s = "s\<lparr>ups_ctx := ?ctx, ups_uart := u\<rparr>"
  have okc: "modbus_ok ?ctx" using ok req(2) r(3) by (auto simp: modbus_ok_def)
  have dS: "ups_deaf (?s\<lparr>ups_para := p\<rparr>)" "ups_deaf (?s\<lparr>comm_fail_retry_cnt := c\<rparr>)"
    "ups_deaf (?s\<lparr>comm_fail_retry_cnt := c, ups_para := p\<rparr>)" for p c
    using like_trans [OF u0(2) r(4)] ok okc req(2) r(3) by (simp_all add: ups_deaf_def ups_wf_def like_def)
  show ?thesis
  proof (cases "n = 0")
    case True
    show ?thesis
    proof (cases "comm_fail_retry_cnt s = 2")
      case f: True
      let ?t = "?s\<lparr>comm_fail_retry_cnt := 0, ups_para := set_ups_comm_fail True (ups_para s)\<rparr>"
      have "ups_poll_register dev i s = ups_update ?t"
        using req(1) u0(1) r(1) True f i by (simp add: ups_poll_register_def ups_reg_map_def rd_def rs Let_def)
      then show ?thesis using update_deaf [OF dS(3) [where c = 0 and p = "set_ups_comm_fail True (ups_para s)"], of True "ups_para s"] by simp
    next
      case f: False
      then have "ups_poll_register dev i s = Some (?s\<lparr>comm_fail_retry_cnt := comm_fail_retry_cnt s + 1\<rparr>)"
        using req(1) u0(1) r(1) True i by (simp add: ups_poll_register_def ups_reg_map_def rd_def rs Let_def)
      then show ?thesis using dS(2) [where c = "comm_fail_retry_cnt s + 1"] by simp
    qed
  next
    case False
    then have n: "n = 1" using r(2) by simp
    have "agile_modbus_deserialize_read_registers ?ctx 1 (drop i (ups_hold_register s)) = Some (drop i (ups_hold_register s), -1)"
      by (rule one_byte_refused [OF okc]) (use req(2) r(3) in simp_all)
    then have "ups_poll_register dev i s = Some (?s\<lparr>ups_para := set_ups_comm_fail False (ups_para s)\<rparr>)"
      using req(1) u0(1) r(1) n i by (simp add: ups_poll_register_def ups_reg_map_def rd_def rs Let_def)
    then show ?thesis using dS(1) [where p = "set_ups_comm_fail False (ups_para s)"] by simp
  qed
qed

lemma polls_deaf:
  assumes "ups_deaf s" "\<forall>i \<in> set is. i < 7"
  shows "\<exists>s'. ups_poll_registers dev is s = Some s' \<and> ups_deaf s' \<and> ups_hold_register s' = ups_hold_register s"
  using assms
proof (induction "is" arbitrary: s)
  case (Cons i "is")
  obtain s1 where s1: "ups_poll_register dev i s = Some s1" "ups_deaf s1" "ups_hold_register s1 = ups_hold_register s"
    using poll_deaf [OF Cons.prems(1), of i dev] Cons.prems(2) by auto
  then show ?case using Cons.IH [OF s1(2)] Cons.prems(2) by auto
qed simp

lemma round_deaf:
  assumes d: "ups_deaf s"
  shows "\<exists>s'. ups_master_poll dev s = Some s' \<and> ups_deaf s' \<and> ups_hold_register s' = ups_hold_register s"
proof -
  have "port_ok (port (ups_uart s))" using d by (simp add: ups_deaf_def ups_wf_def)
  then obtain u where u: "rt_thread_mdelay 200 (ups_uart s) = Some u" "like (port (ups_uart s)) (port u)"
    using delay_like by blast
  have l: "length ups_reg_map = 7" by (simp add: ups_reg_map_def)
  have "ups_deaf (s\<lparr>ups_uart := u\<rparr>)" using d u(2) by (simp add: ups_deaf_def ups_wf_def like_def)
  then show ?thesis using polls_deaf [of "s\<lparr>ups_uart := u\<rparr>" "[0..<7]" dev] u(1) by (simp add: ups_master_poll_def l)
qed

fun ups_rounds :: "(u8 list \<Rightarrow> chunks) \<Rightarrow> nat \<Rightarrow> ups_state \<Rightarrow> ups_state option" where
  "ups_rounds dev 0 s = Some s"
| "ups_rounds dev (Suc n) s = do { s \<leftarrow> ups_master_poll dev s; ups_rounds dev n s }"

lemma rounds_deaf:
  "ups_deaf s \<Longrightarrow> \<exists>s'. ups_rounds dev n s = Some s' \<and> ups_deaf s' \<and> ups_hold_register s' = ups_hold_register s"
proof (induction n arbitrary: s)
  case (Suc n)
  obtain s1 where s1: "ups_master_poll dev s = Some s1" "ups_deaf s1" "ups_hold_register s1 = ups_hold_register s"
    using round_deaf [OF Suc.prems] by blast
  then show ?case using Suc.IH [OF s1(2)] by auto
qed simp

text \<open>Receiving ends on every line and port, whatever arrives in whatever chunks and at whatever times,
  and stays within the buffer; if all that is on the line fits into the port, nothing is lost: the bytes
  stored, followed by what is still on the line, are the bytes that were on the line.\<close>

lemma rs_485_receive_ends:
  assumes "port_ok (port u)" "bufsz \<le> length buf"
  shows "\<exists>buf' n u'. rs_485_receive buf bufsz t bt u = Some (buf', n, u') \<and> n \<le> bufsz \<and> length buf' = length buf \<and>
    (length (rx_bytes u) \<le> rx_room (port u) \<longrightarrow> take n buf' @ rx_bytes u' = rx_bytes u)"
  using receive_loop_ends [of u 0 bufsz buf t bt] assms by (auto simp: rs_485_receive_def)

theorem rs_485_receive_ends_witness:
  "\<exists>buf' n u'. rs_485_receive [0, 0] 2 1000 20 ((rs_485_open RS_485_UART0)\<lparr>arrivals := [(5, [1, 2]), (0, [3])]\<rparr>) =
     Some (buf', n, u') \<and> n \<le> 2 \<and> take n buf' @ rx_bytes u' = [1, 2, 3]"
  using rs_485_receive_ends [of "(rs_485_open RS_485_UART0)\<lparr>arrivals := [(5, [1, 2]), (0, [3])]\<rparr>" 2 "[0, 0]" 1000 20]
  by (simp add: rs_485_open_ok rx_bytes_def) blast

text \<open>C22: With the second RS-485 port opened as \<open>rs_485_init\<close> opens it, for polling, the poller never learns a
  value: whatever the UPS answers and when, after any number of rounds the registers are still the
  zeroes of the start, since a read finds at most the one byte in the data register.\<close>

theorem ups_uart2_deaf:
  "map_option ups_hold_register
     (ups_rounds dev n (ups_master_start (replicate AGILE_MODBUS_MAX_ADU_LENGTH 0) (replicate AGILE_MODBUS_MAX_ADU_LENGTH 0) p (rs_485_open RS_485_UART2))) =
   Some (replicate 34 0)"
proof -
  have "ups_deaf (ups_master_start (replicate AGILE_MODBUS_MAX_ADU_LENGTH 0) (replicate AGILE_MODBUS_MAX_ADU_LENGTH 0) p (rs_485_open RS_485_UART2))"
    by (simp add: ups_deaf_def ups_wf_def ups_master_start_def agile_modbus_set_slave_def agile_modbus_rtu_init_def
      agile_modbus_common_init_def modbus_ok_def rs_485_open_ok)
  from rounds_deaf [OF this, of dev n] show ?thesis by (auto simp: ups_master_start_def)
qed

end
