(* ===== verification/Oled.thy ===== *)
theory Oled
  imports Prelude
begin

text \<open>
  The serial display: the bit-banged SPI of \<open>spi_driver.c\<close> as the sequence of pin writes, and the drawing
  and text routines of \<open>oled_driver.c\<close> as the bytes they send. A string is the list of its bytes before
  the terminating zero. The busy pin, on which every send first waits, is not modelled: a display that
  stays busy stops the thread.
\<close>

section \<open>SPI\<close>

datatype spi_pin = SPI_CS bool | SPI_CLK bool | SPI_SDI bool

fun spi_bits :: "nat \<Rightarrow> u8 \<Rightarrow> spi_pin list" where
  "spi_bits 0 data = []"
| "spi_bits (Suc i) data =
    [SPI_CLK False, SPI_SDI (data AND 0x80 \<noteq> 0), SPI_CLK True] @ spi_bits i (push_bit 1 data)"

definition spi_send_byte :: "u8 \<Rightarrow> spi_pin list" where
  "spi_send_byte data = SPI_CS False # spi_bits 8 data @ [SPI_CS True]"

section \<open>Commands and drawing\<close>

record oled =
  oled_out :: "u8 list"
  x_pos :: u8
  y_pos :: u8

datatype OLED_CMD_ENUM = CMD_DISP_ON | CMD_DISP_OFF | CMD_DISP_CONTRAST | CMD_CLR | CMD_CHAR_DISP
  | CMD_LOCAL_CHAR_DISP | CMD_BMP_DISP | CMD_PLOT_POINT | CMD_PLOT_LINE | CMD_PLOT_REC_FRAME | CMD_PLOT_REC_BLOCK
  | CMD_PLOT_CIRCLE | CMD_CURSOR_DISP_ON | CMD_CUSTOM_CHAR | CMD_DISP_MODE

fun cmd_table :: "OLED_CMD_ENUM \<Rightarrow> u8" where
  "cmd_table CMD_DISP_ON = 0x51"
| "cmd_table CMD_DISP_OFF = 0x50"
| "cmd_table CMD_DISP_CONTRAST = 0x52"
| "cmd_table CMD_CLR = 0x58"
| "cmd_table CMD_CHAR_DISP = 0x5A"
| "cmd_table CMD_LOCAL_CHAR_DISP = 0x5B"
| "cmd_table CMD_BMP_DISP = 0x5D"
| "cmd_table CMD_PLOT_POINT = 0x60"
| "cmd_table CMD_PLOT_LINE = 0x61"
| "cmd_table CMD_PLOT_REC_FRAME = 0x62"
| "cmd_table CMD_PLOT_REC_BLOCK = 0x63"
| "cmd_table CMD_PLOT_CIRCLE = 0x64"
| "cmd_table CMD_CURSOR_DISP_ON = 0x70"
| "cmd_table CMD_CUSTOM_CHAR = 0x81"
| "cmd_table CMD_DISP_MODE = 0x91"

definition oled_data_send :: "u8 \<Rightarrow> oled \<Rightarrow> oled" where
  "oled_data_send data s = s\<lparr>oled_out := oled_out s @ [data]\<rparr>"

definition oled_cmd_send :: "OLED_CMD_ENUM \<Rightarrow> oled \<Rightarrow> oled" where
  "oled_cmd_send cmd s = s\<lparr>oled_out := oled_out s @ [cmd_table cmd]\<rparr>"

text \<open>The pin writes behind the bytes sent.\<close>

definition oled_pins :: "oled \<Rightarrow> spi_pin list" where
  "oled_pins s = concat (map spi_send_byte (oled_out s))"

abbreviation sends :: "u8 list \<Rightarrow> oled \<Rightarrow> oled" where "sends \<equiv> fold oled_data_send"

definition oled_clear :: "oled \<Rightarrow> oled" where "oled_clear s = oled_cmd_send CMD_CLR s"

definition draw_circle :: "u8 \<Rightarrow> u8 \<Rightarrow> u8 \<Rightarrow> u8 \<Rightarrow> u8 \<Rightarrow> oled \<Rightarrow> oled" where
  "draw_circle x y r fil z s = sends [0x64, x, y, r, fil, z] s"

definition draw_line :: "u8 \<Rightarrow> u8 \<Rightarrow> u8 \<Rightarrow> u8 \<Rightarrow> u8 \<Rightarrow> oled \<Rightarrow> oled" where
  "draw_line y1 x1 y2 x2 fill s = sends [0x61, y1, x1, y2, x2, fill] s"

definition draw_rec :: "u8 \<Rightarrow> u8 \<Rightarrow> u8 \<Rightarrow> u8 \<Rightarrow> u8 \<Rightarrow> u8 \<Rightarrow> oled \<Rightarrow> oled" where
  "draw_rec y1 x1 y2 x2 fill display s =
    sends [y1, x1, y2, x2, display] (oled_data_send (if fill \<noteq> 0 then 0x63 else 0x62) s)"

definition cursor :: "u8 \<Rightarrow> u8 \<Rightarrow> u8 \<Rightarrow> u8 \<Rightarrow> oled \<Rightarrow> oled" where
  "cursor x y n z s = sends [0x70, x, y, n, z] s"

section \<open>Text\<close>

definition INTER_chhzes :: "u8 \<Rightarrow> u8 \<Rightarrow> u8 \<Rightarrow> u8 \<Rightarrow> u8 \<Rightarrow> u8 list \<Rightarrow> oled \<Rightarrow> oled" where
  "INTER_chhzes y x m n rv str s =
    sends str (sends [y, x, m, n, of_nat (length str), rv] (oled_cmd_send CMD_LOCAL_CHAR_DISP s))"

definition oled_displayChar :: "u8 \<Rightarrow> u8 \<Rightarrow> u8 \<Rightarrow> u8 list \<Rightarrow> oled \<Rightarrow> oled" where
  "oled_displayChar char_with y x str s =
    (let len = of_nat (length str);
         s = sends [(y - 1) * char_with, (x - 1) * char_with] (oled_cmd_send CMD_LOCAL_CHAR_DISP s);
         s = (if char_with > 8 then sends [char_with, char_with] s else sends [char_with * 2, char_with] s);
         s = sends str (sends [len, 0] s)
     in s\<lparr>x_pos := x + len, y_pos := y\<rparr>)"

definition oled_clear_line :: "u8 \<Rightarrow> oled \<Rightarrow> oled" where
  "oled_clear_line line s =
    (let coloums = 240 div 8 :: u8
     in sends (replicate (unat coloums) 32) (sends [line * 16, 0, 16, 8, coloums, 0] (oled_cmd_send CMD_LOCAL_CHAR_DISP s)))"

text \<open>
  \<open>num2String\<close>: the digits, least significant first, from index 1 of a buffer of 64 bytes; index 0 gets
  their number. The result here is what the buffer holds from index 1, and \<open>None\<close> when a byte would go
  beyond the buffer.
\<close>

definition put_char :: "u8 \<Rightarrow> u8 list \<Rightarrow> u8 list option" where
  "put_char c buff = (if length buff < 63 then Some (buff @ [c]) else None)"

fun num_loop :: "nat \<Rightarrow> nat \<Rightarrow> nat \<Rightarrow> u8 list \<Rightarrow> (nat \<times> u8 list) option" where
  "num_loop data dicNum cnt buff =
    (if data = 0 then Some (cnt, buff)
     else case put_char (of_nat (data mod 10) + 48) buff of
       None \<Rightarrow> None
     | Some buff \<Rightarrow>
         (case (if length buff = dicNum then put_char 46 buff else Some buff) of
            None \<Rightarrow> None
          | Some buff \<Rightarrow> num_loop (data div 10) dicNum (cnt + 1) buff))"

declare num_loop.simps [simp del]

function zero_loop :: "nat \<Rightarrow> u8 list \<Rightarrow> u8 list option" where
  "zero_loop dicNum buff =
    (if length buff \<le> dicNum then
       (case put_char 48 buff of None \<Rightarrow> None | Some buff \<Rightarrow> zero_loop dicNum buff)
     else Some buff)"
  by pat_completeness auto

termination
  by (relation "measure (\<lambda>(d, b). Suc d - length b)") (auto simp: put_char_def split: if_splits)

declare zero_loop.simps [simp del]

definition num2String :: "u16 \<Rightarrow> u8 \<Rightarrow> u8 list option" where
  "num2String data dicNum =
    (if data = 0 then Some [48]
     else do {
       (cnt, buff) \<leftarrow> num_loop (unat data) (unat dicNum) 0 [];
       if cnt < unat dicNum then do {
         buff \<leftarrow> zero_loop (unat dicNum) buff;
         buff \<leftarrow> put_char 46 buff;
         put_char 48 buff
       } else if cnt = unat dicNum then put_char 48 buff
       else Some buff
     })"

definition oled_displaynumber :: "u8 \<Rightarrow> u8 \<Rightarrow> u16 \<Rightarrow> u8 \<Rightarrow> oled \<Rightarrow> oled option" where
  "oled_displaynumber y x data dicNum s = do {
     pstr \<leftarrow> num2String data dicNum;
     let len = of_nat (length pstr);
     let s = sends [y * 16, x * 8, 16, 8, len, 0] (oled_cmd_send CMD_LOCAL_CHAR_DISP s);
     let s = sends (rev pstr) s;
     Some (s\<lparr>x_pos := x + len, y_pos := y\<rparr>)
   }"

definition oled_displaynumberAppend :: "u16 \<Rightarrow> u8 \<Rightarrow> oled \<Rightarrow> oled option" where
  "oled_displaynumberAppend data dicNum s = oled_displaynumber (y_pos s) (x_pos s) data dicNum s"

text \<open>\<open>oled_displayHex\<close> writes the bits of the number into an array of eight characters.\<close>

fun hex_loop :: "nat \<Rightarrow> nat \<Rightarrow> u8 list \<Rightarrow> u8 list option" where
  "hex_loop data i hex =
    (if data > 0 then
       (case wr hex i (of_nat (data mod 2) + 48) of None \<Rightarrow> None | Some hex \<Rightarrow> hex_loop (data div 2) (i + 1) hex)
     else Some hex)"

declare hex_loop.simps [simp del]

definition oled_displayHex :: "u8 \<Rightarrow> u8 \<Rightarrow> u16 \<Rightarrow> oled \<Rightarrow> oled option" where
  "oled_displayHex y x data s = do {
     hex \<leftarrow> hex_loop (unat data) 0 (replicate 8 48);
     let s = sends [y * 16, x * 8, 16, 8, 8, 0] (oled_cmd_send CMD_LOCAL_CHAR_DISP s);
     let s = sends (rev hex) s;
     Some (s\<lparr>x_pos := x + 8, y_pos := y\<rparr>)
   }"

definition oled_displayHexAppend :: "u16 \<Rightarrow> oled \<Rightarrow> oled option" where
  "oled_displayHexAppend data s = oled_displayHex (y_pos s) (x_pos s) data s"

definition spaces10 :: "u8 list" where "spaces10 = replicate 10 32"

definition oled_displayVoltage :: "u8 \<Rightarrow> u8 \<Rightarrow> u16 \<Rightarrow> oled \<Rightarrow> oled option" where
  "oled_displayVoltage y x data s = do {
     s \<leftarrow> oled_displaynumber y x data 1 s;
     Some (oled_displayChar 16 y (x_pos s) (0x56 # spaces10) s)
   }"

definition oled_displayVoltageAppend :: "u16 \<Rightarrow> oled \<Rightarrow> oled option" where
  "oled_displayVoltageAppend data s = oled_displayVoltage (y_pos s) (x_pos s) data s"

definition oled_displayCurrent :: "u8 \<Rightarrow> u8 \<Rightarrow> u16 \<Rightarrow> oled \<Rightarrow> oled option" where
  "oled_displayCurrent y x data s = do {
     s \<leftarrow> oled_displaynumber y x data 2 s;
     Some (oled_displayChar 16 y (x_pos s) (0x41 # spaces10) s)
   }"

definition oled_displayCurrentAppend :: "u16 \<Rightarrow> oled \<Rightarrow> oled option" where
  "oled_displayCurrentAppend data s = oled_displayCurrent (y_pos s) (x_pos s) data s"

definition oled_displayGBK_24 :: "u8 \<Rightarrow> u8 \<Rightarrow> u8 list \<Rightarrow> oled \<Rightarrow> oled" where
  "oled_displayGBK_24 y x str s =
    sends str (sends [y * 24, x * 24, 24, 24, of_nat (length str) div 2, 0] (oled_cmd_send CMD_LOCAL_CHAR_DISP s))"

text \<open>
  \<open>oled_displayGBK_16\<close> fills a line of fifteen cells with the text from cell \<open>x\<close>. The counters are bytes
  and \<open>while (coloums--)\<close> runs \<open>coloums\<close> times.
\<close>

definition oled_displayGBK_16 :: "u8 \<Rightarrow> u8 \<Rightarrow> u8 list \<Rightarrow> oled \<Rightarrow> oled" where
  "oled_displayGBK_16 y x str s =
    (let coloums = 240 div 16 :: u8;
         len = of_nat (length str) :: u8;
         s = sends [y * 16, 0, 16, 16, coloums, 0] (oled_cmd_send CMD_LOCAL_CHAR_DISP s);
         s = sends (replicate (2 * unat x) 32) s;
         coloums = coloums - x;
         s = sends str s;
         coloums = coloums - len div 2
     in sends (replicate (2 * unat coloums) 32) s)"

text \<open>
  \<open>get_char_number\<close>: the pointer is advanced in the loop condition, so the loop looks at the bytes after
  the first one, and at the terminating zero.
\<close>

fun char_loop :: "u8 list \<Rightarrow> int \<Rightarrow> int \<Rightarrow> int" where
  "char_loop [] len even_flag = len"
| "char_loop (c # s) len even_flag =
    (let d = (case s of [] \<Rightarrow> 0 | d # _ \<Rightarrow> d) in
     if 0x20 \<le> d \<and> d \<le> 0x7F then char_loop s (len + 1) even_flag
     else if 0x81 \<le> d \<and> d \<le> 0xFE then
       char_loop s (if even_flag mod 2 = 0 then len + 1 else len) (even_flag + 1)
     else char_loop s len even_flag)"

record oled_char_t =
  total_bytes :: u8
  char_number :: u8

definition get_char_number :: "u8 list \<Rightarrow> oled_char_t" where
  "get_char_number str = \<lparr>total_bytes = of_nat (length str), char_number = of_int (char_loop str 0 0)\<rparr>"

definition oled_displayMix :: "u8 \<Rightarrow> u8 \<Rightarrow> u8 list \<Rightarrow> oled \<Rightarrow> oled" where
  "oled_displayMix y x str s =
    (let str_stru = get_char_number str;
         len = uint (char_number str_stru);
         leftBytes = 30 - uint (total_bytes str_stru);
         s = sends [y * 16, x * 16, 16, 16, of_int (len + leftBytes), 0] (oled_cmd_send CMD_LOCAL_CHAR_DISP s);
         s = sends (replicate (2 * unat x) 32) s;
         s = sends str s;
         n = leftBytes - uint x * 2
     in sends (replicate (2 * nat n) 32) s)"

text \<open>
  These read a buffer of given contents; \<open>None\<close> is a read beyond its end. The loop counter of the first
  is a byte, so that it never ends for more than 255 characters, which reads beyond any buffer.
\<close>

definition INTER_chhzes2 :: "u8 \<Rightarrow> u8 \<Rightarrow> u8 \<Rightarrow> u8 \<Rightarrow> u16 \<Rightarrow> u8 \<Rightarrow> u8 list \<Rightarrow> oled \<Rightarrow> oled option" where
  "INTER_chhzes2 y x m n k rv buf s = do {
     let s = sends [0x5B, y, x, m, n, ucast k, rv] s;
     c \<leftarrow> rd buf 0;
     let i_runs = unat k;
     if 0x20 \<le> c \<and> c \<le> 0x7F then
       (if i_runs \<le> 255 \<and> i_runs \<le> length buf then Some (sends (take i_runs buf) s) else None)
     else if 0x81 \<le> c \<and> c \<le> 0xFE then
       (if i_runs \<le> 255 \<and> 2 * i_runs \<le> length buf then Some (sends (take (2 * i_runs) buf) s) else None)
     else Some s
   }"

definition chhzes :: "u8 \<Rightarrow> u8 \<Rightarrow> u8 \<Rightarrow> u8 \<Rightarrow> u8 \<Rightarrow> u8 \<Rightarrow> u8 list \<Rightarrow> oled \<Rightarrow> oled option" where
  "chhzes x y m n k rv buf s =
    (let s = sends [0x5A, x, y, m, n, k, rv] s
     in if 16 * unat k \<le> length buf then Some (sends (take (16 * unat k) buf) s) else None)"

definition oled_init :: "oled \<Rightarrow> oled" where
  "oled_init s =
    (let s = oled_cmd_send CMD_CLR (oled_cmd_send CMD_DISP_ON (oled_cmd_send CMD_DISP_OFF s))
     in INTER_chhzes 0 0 16 16 0 [48, 49, 50, 51, 52, 53, 54, 55, 56, 57, 48, 49, 50, 51, 52] s)"

section \<open>The receiver of the pins\<close>

text \<open>
  A display in SPI mode 3: while it is selected it shifts in the data pin at every rising edge of the
  clock, highest bit first, and takes a byte after eight edges.
\<close>

record spi_slave =
  cs_low :: bool
  clk_high :: bool
  sdi_high :: bool
  shift_reg :: u8
  shift_cnt :: nat
  rx_data :: "u8 list"

fun spi_sample :: "spi_pin \<Rightarrow> spi_slave \<Rightarrow> spi_slave" where
  "spi_sample (SPI_CS h) s = s\<lparr>cs_low := \<not> h, shift_reg := 0, shift_cnt := 0\<rparr>"
| "spi_sample (SPI_SDI h) s = s\<lparr>sdi_high := h\<rparr>"
| "spi_sample (SPI_CLK h) s =
    (let rising = h \<and> \<not> clk_high s;
         s = s\<lparr>clk_high := h\<rparr>
     in if rising \<and> cs_low s then
          (let r = push_bit 1 (shift_reg s) OR of_bool (sdi_high s)
           in if shift_cnt s = 7 then s\<lparr>shift_reg := 0, shift_cnt := 0, rx_data := rx_data s @ [r]\<rparr>
              else s\<lparr>shift_reg := r, shift_cnt := shift_cnt s + 1\<rparr>)
        else s)"

definition spi_idle :: "spi_slave \<Rightarrow> bool" where
  "spi_idle s \<longleftrightarrow> \<not> cs_low s \<and> clk_high s"

lemma top_bit: "k < 8 \<Longrightarrow> (push_bit (7 - k) (d :: u8) AND 0x80 \<noteq> 0) = bit d k"
proof -
  assume k: "k < 8"
  have "(push_bit (7 - k) d AND 2 ^ 7 = 0) = (\<not> bit (push_bit (7 - k) d) 7)" by (rule and_exp_eq_0_iff_not_bit)
  then show ?thesis using k by (simp add: bit_push_bit_iff)
qed

lemma shift_in: "push_bit 1 (drop_bit (Suc k) (d :: u8)) OR of_bool (bit d k) = drop_bit k d"
proof (rule bit_word_eqI)
  fix n assume "n < LENGTH(8)"
  then show "bit (push_bit 1 (drop_bit (Suc k) d) OR of_bool (bit d k)) n = bit (drop_bit k d) n"
    unfolding bit_or_iff bit_push_bit_iff bit_drop_bit_eq bit_of_bool_iff comp_def by (cases n) auto
qed

lemma spi_bits_received:
  assumes "k < 8" "cs_low s" "clk_high s" "shift_cnt s = 7 - k" "shift_reg s = drop_bit (Suc k) d"
  shows "cs_low (fold spi_sample (spi_bits (Suc k) (push_bit (7 - k) d)) s)"
    "clk_high (fold spi_sample (spi_bits (Suc k) (push_bit (7 - k) d)) s)"
    "rx_data (fold spi_sample (spi_bits (Suc k) (push_bit (7 - k) d)) s) = rx_data s @ [d]"
proof -
  let ?rx = "\<lambda>k s. fold spi_sample (spi_bits (Suc k) (push_bit (7 - k) d)) s"
  have "cs_low (?rx k s) \<and> clk_high (?rx k s) \<and> rx_data (?rx k s) = rx_data s @ [d]" using assms
  proof (induction k arbitrary: s)
    case 0
    have r: "push_bit 1 (shift_reg s) OR of_bool (bit d 0) = d" using shift_in [of 0 d] 0(5) by simp
    show ?case
      using 0(2-4) top_bit [of 0 d] r by (simp add: Let_def del: push_bit_Suc)
  next
    case (Suc k)
    let ?s = "s\<lparr>sdi_high := bit d (Suc k), clk_high := True, shift_reg := drop_bit (Suc k) d, shift_cnt := Suc (6 - k)\<rparr>"
    have r: "push_bit 1 (shift_reg s) OR of_bool (bit d (Suc k)) = drop_bit (Suc k) d"
      using shift_in [of "Suc k" d] Suc.prems(5) by simp
    have "1 + (7 - Suc k) = 7 - k" using Suc.prems(1) by arith
    then have p: "push_bit 1 (push_bit (7 - Suc k) d) = push_bit (7 - k) d" by (simp only: push_bit_push_bit)
    have "?rx (Suc k) s = ?rx k ?s"
      unfolding spi_bits.simps(2) [of "Suc k"] p top_bit [OF Suc.prems(1)]
      using Suc.prems(1-4) r by (auto simp: Let_def simp del: spi_bits.simps push_bit_Suc)
    moreover have "cs_low (?rx k ?s) \<and> clk_high (?rx k ?s) \<and> rx_data (?rx k ?s) = rx_data ?s @ [d]"
      using Suc.prems by (intro Suc.IH) auto
    ultimately show ?case by simp
  qed
  then show "cs_low (?rx k s)" "clk_high (?rx k s)" "rx_data (?rx k s) = rx_data s @ [d]" by auto
qed

lemma spi_byte_received:
  assumes "spi_idle s"
  shows "spi_idle (fold spi_sample (spi_send_byte d) s)" "rx_data (fold spi_sample (spi_send_byte d) s) = rx_data s @ [d]"
proof -
  let ?s = "s\<lparr>cs_low := True, shift_reg := 0, shift_cnt := 0\<rparr>"
  have "drop_bit (Suc 7) d = 0" by (rule bit_word_eqI) (simp add: bit_drop_bit_eq bit_word.rep_eq)
  then have "clk_high (fold spi_sample (spi_bits 8 d) ?s)" "rx_data (fold spi_sample (spi_bits 8 d) ?s) = rx_data ?s @ [d]"
    using spi_bits_received [of 7 ?s d] assms by (simp_all add: spi_idle_def del: spi_bits.simps)
  then show "spi_idle (fold spi_sample (spi_send_byte d) s)" "rx_data (fold spi_sample (spi_send_byte d) s) = rx_data s @ [d]"
    by (simp_all add: spi_send_byte_def spi_idle_def del: spi_bits.simps)
qed

text \<open>A display in SPI mode 3 that watches the pins receives exactly the bytes that were sent, highest bit
  first, and is deselected with the clock high between any two of them.\<close>

lemma spi_bytes_received:
  assumes "spi_idle s"
  shows "rx_data (fold spi_sample (oled_pins scr) s) = rx_data s @ oled_out scr \<and>
    spi_idle (fold spi_sample (oled_pins scr) s)"
proof -
  have "rx_data (fold spi_sample (concat (map spi_send_byte bs)) s) = rx_data s @ bs \<and>
    spi_idle (fold spi_sample (concat (map spi_send_byte bs)) s)" for bs
    using assms by (induction bs arbitrary: s) (simp_all add: spi_byte_received)
  then show ?thesis by (simp add: oled_pins_def)
qed

theorem spi_bytes_received_witness:
  "rx_data (fold spi_sample (oled_pins (oled_clear \<lparr>oled_out = [], x_pos = 0, y_pos = 0\<rparr>))
     \<lparr>cs_low = False, clk_high = True, sdi_high = False, shift_reg = 0, shift_cnt = 0, rx_data = []\<rparr>) = [0x58]"
  using spi_bytes_received [of "\<lparr>cs_low = False, clk_high = True, sdi_high = False, shift_reg = 0, shift_cnt = 0, rx_data = []\<rparr>"
      "oled_clear \<lparr>oled_out = [], x_pos = 0, y_pos = 0\<rparr>"]
  by (simp add: spi_idle_def oled_clear_def oled_cmd_send_def)

section \<open>Numbers on the display\<close>

text \<open>
  A number smaller than a tenth gets a zero too many: 5 with two decimals is shown as 0.005. A number of
  more than eight bits overruns the array of the binary display.
\<close>

lemma num2String_small: "num2String 5 2 = Some (map (\<lambda>c. of_nat (of_char c)) (rev ''0.005''))"
  by (simp add: num2String_def num_loop.simps zero_loop.simps put_char_def)

lemma displayHex_overrun: "oled_displayHex y x 256 s = None"
  by (simp add: oled_displayHex_def hex_loop.simps wr_def)

text \<open>The count of the characters leaves out the first byte: two letters count as one.\<close>

lemma get_char_number_short: "char_number (get_char_number [65, 66]) = 1"
  by (simp add: get_char_number_def Let_def)

end
