(* ===== verification/Hmi.thy ===== *)
theory Hmi
  imports Oled LmsUart KeyMenu SysState Shell
begin

text \<open>
  The display thread (\<open>hmi.c\<close>): the pages, and the loop that shows the current one. The home page draws a
  mark for each of the 32 terminals of the lamp bus when it is opened and then, for every notice in the
  mailbox, the mark of the changed terminal. Its screen is read back from the bytes sent, which gives
  the property of this theory: what the page shows is what the lamp bus master knows.
\<close>

section \<open>Texts\<close>

text \<open>Strings as bytes; the Chinese ones are in GBK. \<open>printf\<close> formats are written out.\<close>

definition ascii :: "string \<Rightarrow> u8 list" where "ascii s = map (\<lambda>c. of_nat (of_char c)) s"

definition two_digits :: "nat \<Rightarrow> u8 list" where
  "two_digits n = (if n < 10 then 48 # dec_digits n else dec_digits n)"

definition hex_digit :: "nat \<Rightarrow> u8" where "hex_digit d = of_nat (if d < 10 then 48 + d else 55 + d)"

definition hex2 :: "u8 \<Rightarrow> u8 list" where "hex2 b = [hex_digit (unat b div 16), hex_digit (unat b mod 16)]"

text \<open>The copy of the parameters that the pages show (\<open>g_ccr_data.ccr_info\<close> of \<open>database.h\<close>).\<close>

record ccr_datastruct = myPara +
  local_i_load :: u16
  local_v_load :: u16

section \<open>The pages\<close>

definition vi_disp :: "ccr_datastruct \<Rightarrow> oled \<Rightarrow> oled" where
  "vi_disp d s =
    (let fault = (\<lambda>f. if f then [210, 236, 179, 163] else [213, 253, 179, 163]);
         s = oled_displayMix 0 0 (ascii ''Relay:'' @ (if ccr_relay_state d then [177, 213, 186, 207] else [182, 207, 191, 170]) @
               ascii '' R/L:'' @ (if ccr_local_remote d then [212, 182, 179, 204] else [177, 190, 181, 216]) @
               [32, 32, 185, 226, 188, 182, 58] @ dec_digits (unat (real_idensity d))) s;
         s = oled_displayChar 16 4 2 (dec_digits (unat (local_i_load d) div 100) @ 46 #
               two_digits (unat (local_i_load d) mod 100) @ ascii ''A '') s;
         s = oled_displayChar 16 4 9 (dec_digits (unat (local_v_load d) div 10) @ 46 #
               dec_digits (unat (local_v_load d) mod 10) @ ascii ''V   '') s
     in oled_displayMix 6 0 (ascii ''Can0:'' @ fault (can0_comm_fail_flag d \<noteq> 0) @ ascii '' Can1:'' @
          fault (can1_comm_fail_flag d \<noteq> 0) @ ascii '' 485:'' @ fault (bit (ups_alarm_status d) 0)) s)"

definition io_disp :: "ccr_datastruct \<Rightarrow> oled \<Rightarrow> oled" where
  "io_disp d s =
    (let s = oled_displayMix 0 3 [73, 79, 215, 180, 204, 172] s;
         s = oled_displayMix 3 0 ([202, 228, 200, 235] @ ascii ''P0:    0X'' @ hex2 (INPUT_P0 d)) s;
         s = oled_displayMix 4 0 ([202, 228, 200, 235] @ ascii ''P1:    0X'' @ hex2 (INPUT_P1 d)) s
     in oled_displayMix 5 0 ([202, 228, 179, 246] @ ascii ''P0:    0X'' @ hex2 (OUTPUT_P0 d)) s)"

definition tenths :: "u16 \<Rightarrow> u8 list" where
  "tenths v = dec_digits (unat v div 10) @ 46 # dec_digits (unat v mod 10)"

definition ups_disp :: "ccr_datastruct \<Rightarrow> oled \<Rightarrow> oled" where
  "ups_disp d s =
    (let s = oled_displayMix 0 2 (ascii ''UPS'' @ [212, 203, 208, 208, 178, 206, 202, 253]) s;
         s = oled_displayMix 2 0 ([202, 228, 200, 235, 181, 231, 209, 185] @ ascii '':    '' @ tenths (ups_input_voltage d) @ ascii ''V'') s;
         s = oled_displayMix 3 0 ([202, 228, 179, 246, 181, 231, 209, 185] @ ascii '':    '' @ tenths (ups_output_voltage d) @ ascii ''V'') s;
         s = oled_displayMix 4 0 ([181, 231, 179, 216, 181, 231, 209, 185] @ ascii '':    '' @ tenths (ups_battery_voltage d) @ ascii ''V'') s;
         s = oled_displayMix 5 0 ([181, 231, 179, 216, 200, 221, 193, 191] @ ascii '':    '' @ dec_digits (unat (ups_battery_capacity d)) @ [37]) s;
         s = oled_displayMix 6 0 ([181, 231, 179, 216, 179, 214, 208, 248, 202, 177, 188, 228] @ ascii '': '' @
               dec_digits (unat (ups_battery_duration_min d)) @ [183, 214, 214, 211]) s
     in oled_displayMix 7 0 ([185, 169, 181, 231, 215, 180, 204, 172] @ ascii '':   '' @
          (if ups_run_stataus d \<noteq> 0 then ascii ''UPS'' else [202, 208, 181, 231]) @ [185, 169, 181, 231] @ [32]) s)"

definition settings_disp :: "menu_state \<Rightarrow> oled \<Rightarrow> oled" where
  "settings_disp m s =
    (let s = oled_displayGBK_16 0 3 [187, 214, 184, 180, 208, 163, 215, 188, 196, 172, 200, 207, 178, 206, 202, 253] s
     in if reset_factory_flag m \<noteq> 0 then oled_displayGBK_16 2 4 [187, 214, 184, 180, 179, 201, 185, 166] s else s)"

section \<open>The home page\<close>

definition RADIUS :: u8 where "RADIUS = 8"

definition draw_mark :: "u8 \<Rightarrow> u8 \<Rightarrow> u8 \<Rightarrow> u8 \<Rightarrow> oled \<Rightarrow> oled" where
  "draw_mark data row column display s =
    (let y = (row - 1) * 3 * RADIUS; x = (column - 1) * 3 * RADIUS in
     if data = 0x00 then draw_circle (y + RADIUS) (x + RADIUS) RADIUS 1 display s
     else if data = 0x0b then draw_circle (y + RADIUS) (x + RADIUS) RADIUS 0 display s
     else if data = 0x74 then
       draw_line (y + RADIUS) x (y + RADIUS) (x + 2 * RADIUS) display
         (draw_circle (y + RADIUS) (x + RADIUS) RADIUS 0 display s)
     else if data = 0x7f then
       draw_line y (x + RADIUS) (y + 2 * RADIUS) (x + RADIUS) display
         (draw_circle (y + RADIUS) (x + RADIUS) RADIUS 0 display s)
     else if data = 0xff then
       draw_line (y + RADIUS + 5) (x + RADIUS - 5) (y + RADIUS - 5) (x + RADIUS + 5) display
         (draw_line (y + RADIUS - 5) (x + RADIUS - 5) (y + RADIUS + 5) (x + RADIUS + 5) display
           (draw_circle (y + RADIUS) (x + RADIUS) RADIUS 0 1 s))
     else s)"

record hmi =
  g_firstrun :: u8
  last_menu :: nat
  screen :: oled

definition home_labels :: "oled \<Rightarrow> oled" where
  "home_labels s =
    (let s = oled_displayChar 8 1 1 (ascii ''   01 02 03 04 05 06 07 08'') s;
         s = oled_displayChar 8 4 1 (ascii ''01'') s;
         s = oled_displayChar 8 7 1 (ascii ''02'') s;
         s = oled_displayChar 8 10 1 (ascii ''03'') s;
         s = oled_displayChar 8 13 1 (ascii ''04'') s
     in oled_displayChar 8 16 1 (ascii ''05'') s)"

text \<open>
  \<open>lms_status_disp\<close> up to its first mark, and the cells it goes on to redraw one after the other. The row
  of a notice is the byte of \<open>lms_index / 8\<close>.
\<close>

definition all_cells :: "(nat \<times> nat) list" where "all_cells = List.product [0..<4] [0..<8]"

definition lms_status_disp :: "mailbox \<Rightarrow> hmi \<Rightarrow> (mailbox \<times> hmi \<times> (nat \<times> nat) list) option" where
  "lms_status_disp mb h =
    (if g_firstrun h \<noteq> 0
     then Some (mb, h\<lparr>screen := home_labels (screen h), g_firstrun := 0\<rparr>, all_cells)
     else
       (case rt_mb_recv mb 0 of
          Some (Ready (RT_EOK, Some lms_index, mb)) \<Rightarrow>
            (let lms_row = (unat lms_index div 8) mod 256; lms_col = unat lms_index mod 8
             in Some (mb, h, [(lms_row, lms_col)]))
        | Some (Ready (_, _, mb)) \<Rightarrow> Some (mb, h, [])
        | _ \<Rightarrow> None))"

section \<open>The loop\<close>

text \<open>The call through entry \<open>p\<close> of the table.\<close>

definition display_table ::
  "nat \<Rightarrow> menu_state \<Rightarrow> ccr_datastruct \<Rightarrow> lms_env \<Rightarrow> hmi \<Rightarrow> (lms_env \<times> hmi \<times> (nat \<times> nat) list) option" where
  "display_table p m d e h =
    (if p = MENU_HOME then map_option (\<lambda>(mb, r). (e\<lparr>lms_mb := mb\<rparr>, r)) (lms_status_disp (lms_mb e) h)
     else if p = MENU_VI then Some (e, h\<lparr>screen := vi_disp d (screen h)\<rparr>, [])
     else if p = MENU_UPS then Some (e, h\<lparr>screen := ups_disp d (screen h)\<rparr>, [])
     else if p = MENU_IO then Some (e, h\<lparr>screen := io_disp d (screen h)\<rparr>, [])
     else if p = MENU_SETTING then Some (e, h\<lparr>screen := settings_disp m (screen h)\<rparr>, [])
     else None)"

text \<open>
  Keys and lamp bus run in interrupts, so every access of the display thread to what they change is a
  step of its own: the three reads of \<open>g_cur_menu\<close> in a pass (the comparison, the assignment and the
  call through the table), and for each mark the read of the terminal's state, with the slow writes to
  the display between them. \<open>hmi_at\<close> says what the thread does next: \<open>Run p\<close> calls entry \<open>p\<close>; \<open>Erase\<close>
  erases the first of the remaining cells, \<open>Fetch\<close> reads the state for it and \<open>Draw\<close> draws that state.
\<close>

datatype hmi_at = At_compare | At_assign | At_clear | At_first | At_result | At_table | Run nat
  | Erase "(nat \<times> nat) list" | Fetch nat nat "(nat \<times> nat) list" | Draw u8 nat nat "(nat \<times> nat) list"

text \<open>
  The display thread in its environment. For the statements only: \<open>opened\<close> is the number of bytes sent up
  to the last clearing, \<open>overdrawn\<close> says that a page other than the home page was drawn since then, and
  \<open>lost\<close> collects the terminals whose notice found the mailbox full since then.
\<close>

record home_sys =
  hs_env :: lms_env
  hs_menu :: menu_state
  hs_hmi :: hmi
  hs_at :: hmi_at
  opened :: nat
  overdrawn :: bool
  lost :: "nat set"

definition hmi_step :: "ccr_datastruct \<Rightarrow> home_sys \<Rightarrow> home_sys option" where
  "hmi_step d s =
    (let h = hs_hmi s in case hs_at s of
       At_compare \<Rightarrow> Some (s\<lparr>hs_at := if g_cur_menu (hs_menu s) \<noteq> last_menu h then At_assign else At_table\<rparr>)
     | At_assign \<Rightarrow> Some (s\<lparr>hs_hmi := h\<lparr>last_menu := g_cur_menu (hs_menu s)\<rparr>, hs_at := At_clear\<rparr>)
     | At_clear \<Rightarrow>
         (let scr = oled_clear (screen h)
          in Some (s\<lparr>hs_hmi := h\<lparr>screen := scr\<rparr>, hs_at := At_first, opened := length (oled_out scr),
                     overdrawn := False, lost := {}\<rparr>))
     | At_first \<Rightarrow> Some (s\<lparr>hs_hmi := h\<lparr>g_firstrun := 1\<rparr>, hs_at := At_result\<rparr>)
     | At_result \<Rightarrow> Some (s\<lparr>hs_menu := (hs_menu s)\<lparr>show_result_flag := 0\<rparr>, hs_at := At_table\<rparr>)
     | At_table \<Rightarrow> Some (s\<lparr>hs_at := Run (g_cur_menu (hs_menu s))\<rparr>)
     | Run p \<Rightarrow> do {
         (e, h, cells) \<leftarrow> display_table p (hs_menu s) d (hs_env s) h;
         Some (s\<lparr>hs_env := e, hs_hmi := h, hs_at := Erase cells, overdrawn := overdrawn s \<or> p \<noteq> MENU_HOME\<rparr>)
       }
     | Erase [] \<Rightarrow> Some (s\<lparr>hs_at := At_compare\<rparr>)
     | Erase ((i, j) # ps) \<Rightarrow>
         Some (s\<lparr>hs_hmi := h\<lparr>screen := draw_mark 0x00 (of_nat (i + 2)) (of_nat (j + 2)) 0 (screen h)\<rparr>,
                 hs_at := Fetch i j ps\<rparr>)
     | Fetch i j ps \<Rightarrow> do {
         t \<leftarrow> rd (terminalState (g_lms (hs_env s))) (i * 8 + j);
         Some (s\<lparr>hs_at := Draw t i j ps\<rparr>)
       }
     | Draw t i j ps \<Rightarrow>
         Some (s\<lparr>hs_hmi := h\<lparr>screen := draw_mark t (of_nat (i + 2)) (of_nat (j + 2)) 1 (screen h)\<rparr>,
                 hs_at := Erase ps\<rparr>))"

text \<open>The thread starts with \<open>last_menu = MENU_NUM\<close>.\<close>

definition hmi_start :: "oled \<Rightarrow> hmi" where
  "hmi_start s = \<lparr>g_firstrun = 1, last_menu = MENU_NUM, screen = oled_init s\<rparr>"

section \<open>Reading the screen back\<close>

text \<open>
  What the display does with the bytes of the home page: whole figures, texts of ASCII characters, and
  commands of one byte. A mark's cell is 24 dots wide and high; a circle belongs to the cell of its
  centre, a line to the cell of its first point, and a full circle in the background colour erases
  what the cell shows.
\<close>

datatype figure = Clear | Circle u8 u8 u8 u8 u8 | Line u8 u8 u8 u8 u8 | Text u8 u8 "u8 list"

fun figures :: "u8 list \<Rightarrow> figure list" where
  "figures [] = []"
| "figures (c # bs) =
    (if c = 0x58 then Clear # figures bs
     else if c = 0x64 then (case bs of x # y # r # f # z # t \<Rightarrow> Circle x y r f z # figures t | _ \<Rightarrow> [])
     else if c = 0x61 then (case bs of a # b # a' # b' # z # t \<Rightarrow> Line a b a' b' z # figures t | _ \<Rightarrow> [])
     else if c = 0x5B then
       (case bs of y # x # m # n # k # rv # t \<Rightarrow> Text y x (take (unat k) t) # figures (drop (unat k) t) | _ \<Rightarrow> [])
     else figures bs)"

type_synonym cells = "nat \<times> nat \<Rightarrow> figure list"

definition cell_of :: "u8 \<Rightarrow> u8 \<Rightarrow> nat \<times> nat" where "cell_of y x = (unat y div 24, unat x div 24)"

fun show_figure :: "figure \<Rightarrow> cells \<Rightarrow> cells" where
  "show_figure Clear c = (\<lambda>_. [])"
| "show_figure (Circle x y r f z) c =
    (if z \<noteq> 0 then c(cell_of x y := c (cell_of x y) @ [Circle x y r f z])
     else if f \<noteq> 0 then c(cell_of x y := []) else c)"
| "show_figure (Line a b a' b' z) c =
    (if z \<noteq> 0 then c(cell_of a b := c (cell_of a b) @ [Line a b a' b' z]) else c)"
| "show_figure (Text y x t) c = c"

definition shown :: "u8 list \<Rightarrow> cells" where "shown bs = fold show_figure (figures bs) (\<lambda>_. [])"

text \<open>The bytes of a mark, and what its cell shows then.\<close>

definition blank :: oled where "blank = \<lparr>oled_out = [], x_pos = 0, y_pos = 0\<rparr>"

definition mark_bytes :: "u8 \<Rightarrow> nat \<Rightarrow> nat \<Rightarrow> u8 \<Rightarrow> u8 list" where
  "mark_bytes data row col display = oled_out (draw_mark data (of_nat (row + 2)) (of_nat (col + 2)) display blank)"

definition mark :: "u8 \<Rightarrow> nat \<Rightarrow> figure list" where
  "mark data i = figures (mark_bytes data (i div 8) (i mod 8) 1)"

definition cell :: "nat \<Rightarrow> nat \<times> nat" where "cell i = (i div 8 + 1, i mod 8 + 1)"

definition whole :: "u8 list \<Rightarrow> bool" where
  "whole bs \<longleftrightarrow> (\<forall>rest. figures (bs @ rest) = figures bs @ figures rest)"

lemma whole_append: "whole a \<Longrightarrow> whole b \<Longrightarrow> whole (a @ b)"
  by (simp add: whole_def)

lemma shown_append: "whole a \<Longrightarrow> shown (a @ b) = fold show_figure (figures b) (shown a)"
  by (simp add: shown_def whole_def)

lemma sends_out [simp]: "oled_out (sends bs s) = oled_out s @ bs"
  by (induction bs arbitrary: s) (simp_all add: oled_data_send_def)

lemma draw_mark_out: "oled_out (draw_mark t (of_nat (row + 2)) (of_nat (col + 2)) z s) = oled_out s @ mark_bytes t row col z"
  by (simp add: mark_bytes_def draw_mark_def draw_circle_def draw_line_def blank_def Let_def del: fold.simps)

lemma whole_mark: "whole (mark_bytes t row col z)"
  unfolding whole_def mark_bytes_def draw_mark_def draw_circle_def draw_line_def blank_def Let_def
  by (simp del: fold.simps)

text \<open>The 32 marks are in different cells, and a mark stays in its cell.\<close>

definition at_dot :: "nat \<Rightarrow> u8" where "at_dot r = (of_nat (r + 2) - 1) * 3 * RADIUS"

lemma in_cell:
  assumes "r < 8" "k < 24"
  shows "unat (at_dot r + of_nat k) div 24 = r + 1"
proof -
  have "at_dot r + of_nat k = of_nat ((r + 1) * 24 + k)"
    by (simp add: at_dot_def RADIUS_def algebra_simps)
  then have "unat (at_dot r + of_nat k) = (r + 1) * 24 + k" using assms by (simp only: unat_of_nat) simp
  then show ?thesis using assms(2) by simp
qed

lemma dot_cells:
  assumes "r < 8"
  shows "unat (at_dot r) div 24 = r + 1" "unat (at_dot r + RADIUS) div 24 = r + 1"
    "unat (at_dot r + RADIUS - 5) div 24 = r + 1" "unat (at_dot r + RADIUS + 5) div 24 = r + 1"
proof -
  have e: "at_dot r + RADIUS - 5 = at_dot r + of_nat 3" "at_dot r + RADIUS + 5 = at_dot r + of_nat 13"
    "at_dot r + RADIUS = at_dot r + of_nat 8" "at_dot r = at_dot r + of_nat 0" by (simp_all add: RADIUS_def)
  show "unat (at_dot r) div 24 = r + 1" by (subst e(4)) (rule in_cell [OF assms], simp)
  show "unat (at_dot r + RADIUS) div 24 = r + 1" unfolding e(3) by (rule in_cell [OF assms]) simp
  show "unat (at_dot r + RADIUS - 5) div 24 = r + 1" unfolding e(1) by (rule in_cell [OF assms]) simp
  show "unat (at_dot r + RADIUS + 5) div 24 = r + 1" unfolding e(2) by (rule in_cell [OF assms]) simp
qed

lemma mark_bytes_eq:
  "mark_bytes t r c z =
    (let y = at_dot r; x = at_dot c; ring = [0x64, y + RADIUS, x + RADIUS, RADIUS, 0] in
     if t = 0 then [0x64, y + RADIUS, x + RADIUS, RADIUS, 1, z] else if t = 0x0b then ring @ [z]
     else if t = 0x74 then ring @ [z, 0x61, y + RADIUS, x, y + RADIUS, x + 2 * RADIUS, z]
     else if t = 0x7f then ring @ [z, 0x61, y, x + RADIUS, y + 2 * RADIUS, x + RADIUS, z]
     else if t = 0xff then
       ring @ [1, 0x61, y + RADIUS - 5, x + RADIUS - 5, y + RADIUS + 5, x + RADIUS + 5, z,
               0x61, y + RADIUS + 5, x + RADIUS - 5, y + RADIUS - 5, x + RADIUS + 5, z]
     else [])"
  unfolding mark_bytes_def draw_mark_def Let_def at_dot_def [symmetric]
  by (simp add: draw_circle_def draw_line_def blank_def del: fold.simps of_nat_add)

lemma mark_shown:
  assumes "r < 8" "c < 8"
  shows "fold show_figure (figures (mark_bytes t r c 1)) f =
    f((r + 1, c + 1) := f (r + 1, c + 1) @ figures (mark_bytes t r c 1))"
  unfolding mark_bytes_eq Let_def
  by (simp add: cell_of_def dot_cells [OF assms(1)] dot_cells [OF assms(2)])

lemma mark_erased:
  assumes "r < 8" "c < 8"
  shows "fold show_figure (figures (mark_bytes 0 r c 0)) f = f((r + 1, c + 1) := [])"
  unfolding mark_bytes_eq Let_def
  by (simp add: cell_of_def dot_cells [OF assms(1)] dot_cells [OF assms(2)])

lemma cell_inject: "cell i = cell j \<longleftrightarrow> i = j"
  unfolding cell_def by (metis Pair_inject add_right_cancel div_mult_mod_eq)

lemma whole_text:
  assumes "length str < 256"
  shows "whole ([0x5B, y, x, m, n, of_nat (length str), rv] @ str)"
proof -
  have "unat (of_nat (length str) :: u8) = length str" using assms by (simp add: unat_of_nat)
  then show ?thesis by (simp add: whole_def)
qed

lemma displayChar_out:
  assumes "length str < 256"
  shows "\<exists>bs. oled_out (oled_displayChar 8 y x str s) = oled_out s @ bs \<and> whole bs"
  by (intro exI [of _ "[0x5B, (y - 1) * 8, (x - 1) * 8, 8 * 2, 8, of_nat (length str), 0] @ str"] conjI whole_text [OF assms])
    (simp add: oled_displayChar_def oled_cmd_send_def Let_def del: fold.simps)

lemma home_labels_out: "\<exists>bs. oled_out (home_labels s) = oled_out s @ bs \<and> whole bs"
proof -
  have step: "\<exists>bs. oled_out (oled_displayChar 8 y x (ascii str) t) = oled_out s @ bs \<and> whole bs"
    if "length str < 256" "\<exists>bs. oled_out t = oled_out s @ bs \<and> whole bs" for y x str t
    using displayChar_out [of "ascii str" y x t] that whole_append by (fastforce simp: ascii_def)
  show ?thesis unfolding home_labels_def Let_def
    by (intro step) (auto simp: whole_def intro: exI [of _ "[]"])
qed

lemma all_terminals: "k < 32 \<Longrightarrow> k \<in> (\<lambda>(i, j). i * 8 + j) ` set all_cells"
proof -
  assume "k < 32"
  then have "k = (\<lambda>(i, j). i * 8 + j) (k div 8, k mod 8)" "(k div 8, k mod 8) \<in> set all_cells"
    by (auto simp: all_cells_def)
  then show ?thesis by (rule image_eqI)
qed

lemma all_cells_in: "\<forall>(i, j) \<in> set all_cells. i < 4 \<and> j < 8"
  by (auto simp: all_cells_def)

section \<open>The display and the lamp bus together\<close>

text \<open>
  The display thread, the key functions, the two interrupts of the lamp bus machine and the command
  builder, in any order; \<open>build_ctrl_cmd\<close> touches nothing that the display reads.
\<close>

definition notice_lost :: "u8 option \<Rightarrow> lms_env \<Rightarrow> nat set" where
  "notice_lost rx e =
    (let i = unat (terminal_index (g_lms e)) in
     if lms_st (g_lms e) = STATE_RECVING \<and> i < TERMIANL_NUM \<and> lms_uart_recv_byte rx \<noteq> terminalState (g_lms e) ! i \<and>
        entry (lms_mb e) = mb_size (lms_mb e)
     then {i} else {})"

inductive home_step :: "home_sys \<Rightarrow> home_sys \<Rightarrow> bool" where
  tick: "lms_state_machine rx (hs_env s) = Some e \<Longrightarrow>
    home_step s (s\<lparr>hs_env := e, lost := lost s \<union> notice_lost rx (hs_env s)\<rparr>)"
| delay: "txDelay (hs_env s) \<Longrightarrow> timer0_TxDelay_cb (hs_env s) = Some e \<Longrightarrow> home_step s (s\<lparr>hs_env := e\<rparr>)"
| command: "build_ctrl_cmd g sg c (hs_env s) = Some e \<Longrightarrow> home_step s (s\<lparr>hs_env := e\<rparr>)"
| key: "k < 4 \<Longrightarrow> key_cb k (hs_menu s) = Some m \<Longrightarrow> home_step s (s\<lparr>hs_menu := m\<rparr>)"
| display: "hmi_step d s = Some s' \<Longrightarrow> home_step s s'"

inductive home_reach :: "home_sys \<Rightarrow> bool" where
  start: "length pool = 32 \<Longrightarrow> \<not> txDelay e \<Longrightarrow> g_cur_menu m < MENU_NUM \<Longrightarrow>
    home_reach \<lparr>hs_env = lms_init pool e, hs_menu = m, hs_hmi = hmi_start scr, hs_at = At_compare, opened = 0,
      overdrawn = False, lost = {}\<rparr>"
| step: "home_reach s \<Longrightarrow> home_step s s' \<Longrightarrow> home_reach s'"

text \<open>The bytes of the present page.\<close>

definition page_bytes :: "home_sys \<Rightarrow> u8 list" where
  "page_bytes s = drop (opened s) (oled_out (screen (hs_hmi s)))"

text \<open>
  A terminal whose change is still to be noticed or was lost, a cell that shows its terminal, and the
  cells that the running call has still to draw.
\<close>

abbreviation state_of :: "home_sys \<Rightarrow> nat \<Rightarrow> u8" where
  "state_of s i \<equiv> terminalState (g_lms (hs_env s)) ! i"

definition noticed :: "home_sys \<Rightarrow> nat \<Rightarrow> bool" where
  "noticed s i \<longleftrightarrow> of_nat i \<in> set (mb_items (lms_mb (hs_env s))) \<or> i \<in> lost s"

definition cell_ok :: "home_sys \<Rightarrow> nat \<Rightarrow> bool" where
  "cell_ok s i \<longleftrightarrow> shown (page_bytes s) (cell i) = mark (state_of s i) i \<or> noticed s i"

abbreviation nums :: "(nat \<times> nat) list \<Rightarrow> nat set" where "nums ps \<equiv> (\<lambda>(i, j). i * 8 + j) ` set ps"

fun pending :: "hmi_at \<Rightarrow> nat set" where
  "pending (Erase ps) = nums ps"
| "pending (Fetch i j ps) = nums ((i, j) # ps)"
| "pending (Draw t i j ps) = nums ((i, j) # ps)"
| "pending _ = {}"

fun cells_in :: "(nat \<times> nat) list \<Rightarrow> bool" where
  "cells_in ps \<longleftrightarrow> (\<forall>(i, j) \<in> set ps. i < 4 \<and> j < 8)"

fun at_ok :: "hmi_at \<Rightarrow> bool" where
  "at_ok (Run p) \<longleftrightarrow> p < MENU_NUM"
| "at_ok (Erase ps) \<longleftrightarrow> cells_in ps"
| "at_ok (Fetch i j ps) \<longleftrightarrow> cells_in ((i, j) # ps)"
| "at_ok (Draw t i j ps) \<longleftrightarrow> cells_in ((i, j) # ps)"
| "at_ok _ \<longleftrightarrow> True"

definition bytes_ok :: "home_sys \<Rightarrow> bool" where
  "bytes_ok s \<longleftrightarrow> whole (page_bytes s) \<and> opened s \<le> length (oled_out (screen (hs_hmi s)))"

definition page_ok :: "home_sys \<Rightarrow> bool" where
  "page_ok s \<longleftrightarrow> bytes_ok s \<and> g_firstrun (hs_hmi s) = 0 \<and> (\<forall>k < 32. k \<notin> pending (hs_at s) \<longrightarrow> cell_ok s k)"

definition cleared :: "home_sys \<Rightarrow> bool" where "cleared s \<longleftrightarrow> bytes_ok s \<and> g_firstrun (hs_hmi s) \<noteq> 0"

text \<open>A cell that is about to be drawn is empty, and a change after its state was read has a notice.\<close>

definition drawing :: "home_sys \<Rightarrow> u8 \<Rightarrow> nat \<Rightarrow> bool" where
  "drawing s t k \<longleftrightarrow> shown (page_bytes s) (cell k) = [] \<and> (t = state_of s k \<or> noticed s k)"

definition page_inv :: "home_sys \<Rightarrow> bool" where
  "page_inv s \<longleftrightarrow> (case hs_at s of
     At_clear \<Rightarrow> True | At_first \<Rightarrow> bytes_ok s | At_result \<Rightarrow> cleared s
   | At_table \<Rightarrow> cleared s \<or> page_ok s | Run p \<Rightarrow> cleared s \<or> page_ok s
   | Fetch i j ps \<Rightarrow> page_ok s \<and> shown (page_bytes s) (cell (i * 8 + j)) = []
   | Draw t i j ps \<Rightarrow> page_ok s \<and> drawing s t (i * 8 + j)
   | _ \<Rightarrow> page_ok s)"

definition home_inv :: "home_sys \<Rightarrow> bool" where
  "home_inv s \<longleftrightarrow> env_inv (hs_env s) \<and> (\<forall>v \<in> set (mb_items (lms_mb (hs_env s))). unat v < 32) \<and>
     g_cur_menu (hs_menu s) < MENU_NUM \<and> at_ok (hs_at s) \<and>
     (last_menu (hs_hmi s) = MENU_HOME \<and> \<not> overdrawn s \<longrightarrow> page_inv s)"

lemma tick_effect:
  assumes "env_inv e" "lms_state_machine rx e = Some e'"
  obtains (same) "terminalState (g_lms e') = terminalState (g_lms e)" "lms_mb e' = lms_mb e"
  | (posted) i where "i < 32" "terminalState (g_lms e') = (terminalState (g_lms e))[i := lms_uart_recv_byte rx]"
      "lms_mb e' = mb_put (lms_mb e) (of_nat i)" "notice_lost rx e = (if entry (lms_mb e) = mb_size (lms_mb e) then {i} else {})"
proof (cases "lms_st (g_lms e) = STATE_RECVING")
  case False
  then show thesis using assms(2) same
    by (cases "lms_st (g_lms e)") (auto simp: lms_state_machine_def timer0_txDelay_start_def split: if_splits)
next
  case True
  let ?i = "unat (terminal_index (g_lms e))"
  have len: "length (terminalState (g_lms e)) = 32" and mb: "mb_inv (lms_mb e)"
    using assms(1) by (simp_all add: env_inv_def Let_def)
  show thesis
  proof (cases "?i < 32 \<and> lms_uart_recv_byte rx \<noteq> terminalState (g_lms e) ! ?i")
    case False
    then show thesis using assms(2) same True
      by (auto simp: lms_state_machine_def lms_recving_def TERMIANL_NUM_def Let_def len split: if_splits)
  next
    case i: True
    have "terminalState (g_lms e') = (terminalState (g_lms e))[?i := lms_uart_recv_byte rx]"
      "lms_mb e' = mb_put (lms_mb e) (of_nat ?i)"
      using assms(2) True i
      by (auto simp: lms_state_machine_def lms_recving_def TERMIANL_NUM_def Let_def len rt_mb_send_put [OF mb])
    then show thesis using i True posted [of ?i] by (auto simp: notice_lost_def TERMIANL_NUM_def Let_def)
  qed
qed

lemma delay_effect:
  assumes "env_inv e" "txDelay e" "timer0_TxDelay_cb e = Some e'"
  shows "env_inv e' \<and> terminalState (g_lms e') = terminalState (g_lms e) \<and> lms_mb e' = lms_mb e"
proof -
  have "env_inv e'"
    using delay_LS [OF assms(1,2)] delay_SS [OF assms(1,2)] assms(3) by (cases "send_state (g_lms e)") auto
  moreover have "terminalState (g_lms e') = terminalState (g_lms e) \<and> lms_mb e' = lms_mb e"
    using assms(3) by (auto simp: lms_ops Let_def bind_eq_Some_conv split: Send_State_E.splits if_splits)
  ultimately show ?thesis by blast
qed

lemma command_effect:
  assumes "env_inv e" "build_ctrl_cmd g sg c e = Some e'"
  shows "env_inv e' \<and> terminalState (g_lms e') = terminalState (g_lms e) \<and> lms_mb e' = lms_mb e"
proof -
  have "env_inv e'"
  proof (cases "write_lock (cmd_info (g_lms e)) = 0")
    case False
    then show ?thesis using assms by (simp add: build_ctrl_cmd_def)
  next
    case True
    have g: "g < 8"
      by (rule ccontr) (use assms(2) True GenSyncFrame_out [of g LONG_CMD] in \<open>simp add: build_ctrl_cmd_def\<close>)
    then show ?thesis using build_ctrl_cmd_free [OF assms(1) True g, of sg c] assms(2) by auto
  qed
  moreover have "terminalState (g_lms e') = terminalState (g_lms e) \<and> lms_mb e' = lms_mb e"
    using assms(2) by (auto simp: build_ctrl_cmd_def Let_def bind_eq_Some_conv split: if_splits)
  ultimately show ?thesis by blast
qed

lemma mb_items_range:
  assumes "mb_inv mb" "\<forall>v \<in> set (mb_items mb). unat v < 32" "i < 32"
  shows "\<forall>v \<in> set (mb_items (mb_put mb (of_nat i))). unat v < 32"
  using assms by (auto simp: mb_items_put unat_of_nat)

text \<open>What the interrupts keep of the page: its bytes, and every cell that is right or noticed.\<close>

lemma page_inv_env:
  assumes p: "page_inv s" and at: "at_ok (hs_at s)"
    and same: "hs_hmi s' = hs_hmi s" "hs_at s' = hs_at s" "opened s' = opened s"
    and keep: "\<And>k. k < 32 \<Longrightarrow> noticed s k \<Longrightarrow> noticed s' k"
      "\<And>k. k < 32 \<Longrightarrow> state_of s' k = state_of s k \<or> noticed s' k"
  shows "page_inv s'"
proof -
  have b: "page_bytes s' = page_bytes s" "bytes_ok s' = bytes_ok s" "cleared s' = cleared s"
    using same by (simp_all add: page_bytes_def bytes_ok_def cleared_def)
  have c: "k < 32 \<Longrightarrow> cell_ok s k \<Longrightarrow> cell_ok s' k" for k
    using keep [of k] by (auto simp: cell_ok_def b)
  have ok: "page_ok s \<Longrightarrow> page_ok s'" using c same b by (auto simp: page_ok_def)
  have "drawing s t k \<Longrightarrow> k < 32 \<Longrightarrow> drawing s' t k" for t k
    using keep [of k] by (auto simp: drawing_def b)
  then show ?thesis
    using p at ok b by (cases "hs_at s") (auto simp: page_inv_def same)
qed

lemma inv_env_same:
  assumes inv: "home_inv s" and env: "env_inv e" "terminalState (g_lms e) = terminalState (g_lms (hs_env s))"
      "lms_mb e = lms_mb (hs_env s)"
  shows "home_inv (s\<lparr>hs_env := e, lost := lost s \<union> L\<rparr>)"
proof -
  have "page_inv (s\<lparr>hs_env := e, lost := lost s \<union> L\<rparr>)" if "page_inv s"
    by (rule page_inv_env [OF that]) (use inv env in \<open>auto simp: home_inv_def noticed_def\<close>)
  then show ?thesis using inv env by (simp add: home_inv_def)
qed

lemma inv_env_same0:
  assumes "home_inv s" "env_inv e \<and> terminalState (g_lms e) = terminalState (g_lms (hs_env s)) \<and> lms_mb e = lms_mb (hs_env s)"
  shows "home_inv (s\<lparr>hs_env := e\<rparr>)"
  using inv_env_same [OF assms(1), of e "{}"] assms(2) by simp

lemma inv_tick:
  assumes inv: "home_inv s" and e: "lms_state_machine rx (hs_env s) = Some e"
  shows "home_inv (s\<lparr>hs_env := e, lost := lost s \<union> notice_lost rx (hs_env s)\<rparr>)"
proof -
  let ?e = "hs_env s" and ?s = "s\<lparr>hs_env := e, lost := lost s \<union> notice_lost rx (hs_env s)\<rparr>"
  have env: "env_inv ?e" using inv by (simp add: home_inv_def)
  have env': "env_inv e" using tick_inv [OF env, of rx] e by auto
  show ?thesis
  proof (rule tick_effect [OF env e])
    assume "terminalState (g_lms e) = terminalState (g_lms ?e)" "lms_mb e = lms_mb ?e"
    then show ?thesis using inv_env_same [OF inv env'] by blast
  next
    fix i assume i: "i < 32" "terminalState (g_lms e) = (terminalState (g_lms ?e))[i := lms_uart_recv_byte rx]"
      "lms_mb e = mb_put (lms_mb ?e) (of_nat i)"
      "notice_lost rx ?e = (if entry (lms_mb ?e) = mb_size (lms_mb ?e) then {i} else {})"
    have mb: "mb_inv (lms_mb ?e)" using env by (simp add: env_inv_def Let_def)
    have full: "entry (lms_mb ?e) \<noteq> mb_size (lms_mb ?e) \<Longrightarrow> entry (lms_mb ?e) < mb_size (lms_mb ?e)"
      using mb by (simp add: mb_inv_def)
    have keep: "noticed s k \<Longrightarrow> noticed ?s k" for k using full by (auto simp: noticed_def i(3) mb_items_put [OF mb])
    have "noticed ?s i" using full by (auto simp: noticed_def i(3,4) mb_items_put [OF mb])
    then have change: "state_of ?s k = state_of s k \<or> noticed ?s k" for k by (cases "k = i") (simp_all add: i(2))
    have "page_inv ?s" if "page_inv s"
      by (rule page_inv_env [OF that]) (use inv keep change in \<open>simp_all add: home_inv_def\<close>)
    then show ?thesis using inv env' mb_items_range [OF mb _ i(1)] unfolding home_inv_def by (simp add: i(3))
  qed
qed

section \<open>The steps of the display thread\<close>

lemma env_inv_mailbox:
  "env_inv e \<Longrightarrow> mb_inv mb \<Longrightarrow> mb_size mb = mb_size (lms_mb e) \<Longrightarrow> env_inv (e\<lparr>lms_mb := mb\<rparr>)"
  by (simp add: env_inv_def Let_def)

lemma page_bytes_more:
  assumes "bytes_ok s" "oled_out (screen h) = oled_out (screen (hs_hmi s)) @ bs" "whole bs" "hs_hmi s' = h" "opened s' = opened s"
  shows "bytes_ok s'" "page_bytes s' = page_bytes s @ bs"
  using assms by (auto simp: bytes_ok_def page_bytes_def intro: whole_append)

text \<open>Opening the home page draws the labels and makes all cells pending.\<close>

lemma run_first:
  assumes inv: "home_inv s" and at: "hs_at s = Run MENU_HOME" and f: "g_firstrun (hs_hmi s) \<noteq> 0"
  shows "\<exists>s'. hmi_step d s = Some s' \<and> home_inv s'"
proof -
  let ?h = "(hs_hmi s)\<lparr>screen := home_labels (screen (hs_hmi s)), g_firstrun := 0\<rparr>"
  let ?s = "s\<lparr>hs_hmi := ?h, hs_at := Erase all_cells\<rparr>"
  obtain bs where bs: "oled_out (screen ?h) = oled_out (screen (hs_hmi s)) @ bs" "whole bs"
    using home_labels_out [of "screen (hs_hmi s)"] by auto
  have "hmi_step d s = Some ?s"
    using at f by (simp add: hmi_step_def display_table_def lms_status_disp_def Let_def)
  moreover have "page_inv ?s" if "page_inv s"
  proof -
    have "bytes_ok s" using that at by (auto simp: page_inv_def cleared_def page_ok_def)
    then have "bytes_ok ?s" using page_bytes_more(1) [OF _ bs, of ?s] by simp
    then show ?thesis using all_terminals by (auto simp: page_inv_def page_ok_def)
  qed
  ultimately show ?thesis using inv all_cells_in by (auto simp: home_inv_def)
qed

text \<open>Taking a notice makes the cell of its terminal pending.\<close>

lemma run_notice:
  assumes inv: "home_inv s" and at: "hs_at s = Run MENU_HOME" and f: "g_firstrun (hs_hmi s) = 0"
  shows "\<exists>s'. hmi_step d s = Some s' \<and> home_inv s'"
proof -
  let ?mb = "lms_mb (hs_env s)"
  have env: "env_inv (hs_env s)" and range: "\<forall>v \<in> set (mb_items ?mb). unat v < 32"
    using inv by (simp_all add: home_inv_def)
  have mb: "mb_inv ?mb" using env by (simp add: env_inv_def Let_def)
  have ok: "page_inv s \<Longrightarrow> page_ok s" using at f by (simp add: page_inv_def cleared_def)
  show ?thesis
  proof (cases "mb_items ?mb")
    case Nil
    then have "entry ?mb = 0" using length_mb_items [of ?mb] by simp
    then have "hmi_step d s = Some (s\<lparr>hs_at := Erase []\<rparr>)"
      using f at by (simp add: hmi_step_def display_table_def lms_status_disp_def rt_mb_recv_def)
    moreover have "page_inv (s\<lparr>hs_at := Erase []\<rparr>)" if "page_inv s"
      using ok [OF that] at by (simp add: page_inv_def page_ok_def bytes_ok_def page_bytes_def cell_ok_def noticed_def)
    ultimately show ?thesis using inv by (auto simp: home_inv_def)
  next
    case (Cons v vs)
    obtain mb' where mb': "mb_get ?mb = Some (v, mb')" "mb_inv mb'" "mb_size mb' = mb_size ?mb" "mb_items mb' = vs"
      using mb_get_cons [OF mb Cons] by blast
    have pos: "0 < entry ?mb" using Cons length_mb_items [of ?mb] by simp
    have recv: "rt_mb_recv ?mb 0 = Some (Ready (RT_EOK, Some v, mb'))"
      using mb'(1) by (simp add: mb_get_def rt_mb_recv_inv [OF mb pos])
    let ?k = "unat v"
    have k: "?k < 32" using range Cons by simp
    have div: "?k div 8 mod 256 = ?k div 8" "?k div 8 * 8 + ?k mod 8 = ?k" using k by simp_all
    let ?s = "s\<lparr>hs_env := (hs_env s)\<lparr>lms_mb := mb'\<rparr>, hs_at := Erase [(?k div 8, ?k mod 8)]\<rparr>"
    have step: "hmi_step d s = Some ?s"
      using f at recv div(1) by (simp add: hmi_step_def display_table_def lms_status_disp_def Let_def)
    have "page_inv ?s" if "page_inv s"
    proof -
      have "cell_ok ?s i" if "i < 32" "i \<noteq> ?k" "cell_ok s i" for i
      proof -
        have "(of_nat i :: u32) \<noteq> v" using that(1,2) by (auto simp: unat_of_nat)
        then show ?thesis using that(3) by (auto simp: cell_ok_def noticed_def page_bytes_def Cons mb'(4))
      qed
      then show ?thesis
        using ok [OF that] at div(2) by (auto simp: page_inv_def page_ok_def bytes_ok_def page_bytes_def)
    qed
    moreover have "?k div 8 < 4" "?k mod 8 < 8" using k by auto
    moreover have "env_inv (hs_env ?s)" using env_inv_mailbox [OF env mb'(2,3)] by simp
    ultimately have "home_inv ?s" using inv range unfolding home_inv_def by (simp add: mb'(4) Cons)
    then show ?thesis using step by blast
  qed
qed

text \<open>Another page counts as drawn over what was there.\<close>

lemma run_other:
  assumes inv: "home_inv s" and at: "hs_at s = Run p" and p: "p \<noteq> MENU_HOME"
  shows "\<exists>s'. hmi_step d s = Some s' \<and> home_inv s'"
proof -
  have "p < MENU_NUM" using inv at by (simp add: home_inv_def)
  then have "\<exists>scr. display_table p (hs_menu s) d (hs_env s) (hs_hmi s) = Some (hs_env s, (hs_hmi s)\<lparr>screen := scr\<rparr>, [])"
    using p by (auto simp: display_table_def menu_consts)
  then obtain scr where "hmi_step d s = Some (s\<lparr>hs_hmi := (hs_hmi s)\<lparr>screen := scr\<rparr>, hs_at := Erase [], overdrawn := True\<rparr>)"
    using at p by (auto simp: hmi_step_def)
  then show ?thesis using inv by (simp add: home_inv_def)
qed

text \<open>Erasing, reading and drawing one cell.\<close>

lemma cell_grid: "i < 4 \<Longrightarrow> j < 8 \<Longrightarrow> cell (i * 8 + j) = (i + 1, j + 1)"
  by (simp add: cell_def)

lemma cell_number: "i < 4 \<Longrightarrow> j < (8 :: nat) \<Longrightarrow> i * 8 + j < 32"
  by simp

lemma redraw_screen:
  assumes b: "bytes_ok s" and ij: "i < 4" "j < 8" and z: "t = 0 \<and> z = 0 \<or> z = 1"
    and h: "hs_hmi s' = (hs_hmi s)\<lparr>screen := draw_mark t (of_nat (i + 2)) (of_nat (j + 2)) z (screen (hs_hmi s))\<rparr>"
    and o: "opened s' = opened s"
  shows "bytes_ok s'" "shown (page_bytes s') = (shown (page_bytes s))(cell (i * 8 + j) :=
    if z = 0 then [] else shown (page_bytes s) (cell (i * 8 + j)) @ mark t (i * 8 + j))"
proof -
  let ?m = "mark_bytes t i j z" and ?k = "i * 8 + j"
  have out: "oled_out (screen (hs_hmi s')) = oled_out (screen (hs_hmi s)) @ ?m"
    using draw_mark_out [of t i j z "screen (hs_hmi s)"] unfolding h by simp
  have pb: "bytes_ok s'" "page_bytes s' = page_bytes s @ ?m"
    using page_bytes_more [OF b out whole_mark refl o] by blast+
  have w: "whole (page_bytes s)" using b by (simp add: bytes_ok_def)
  have ij8: "i < 8" using ij(1) by simp
  have km: "mark t ?k = figures (mark_bytes t i j 1)" using ij by (simp add: mark_def)
  show "bytes_ok s'" by (rule pb(1))
  show "shown (page_bytes s') = (shown (page_bytes s))(cell ?k := if z = 0 then [] else shown (page_bytes s) (cell ?k) @ mark t ?k)"
    using z mark_shown [OF ij8 ij(2)] mark_erased [OF ij8 ij(2)]
    by (auto simp: pb(2) shown_append [OF w] cell_grid [OF ij] km)
qed

lemma redraw_page:
  assumes p: "page_ok s" and b: "bytes_ok s'" and f: "g_firstrun (hs_hmi s') = 0"
    and sh: "shown (page_bytes s') = (shown (page_bytes s))(cell k := x)"
    and same: "hs_env s' = hs_env s" "lost s' = lost s"
    and pend: "pending (hs_at s) \<subseteq> insert k (pending (hs_at s'))" "k \<notin> pending (hs_at s') \<Longrightarrow> cell_ok s' k"
  shows "page_ok s'"
proof -
  have "cell_ok s' n" if "n < 32" "n \<notin> pending (hs_at s')" for n
  proof (cases "n = k")
    case True
    then show ?thesis using pend(2) that by simp
  next
    case False
    then have "cell_ok s' n = cell_ok s n" using same by (simp add: cell_ok_def noticed_def sh cell_inject)
    then show ?thesis using p that pend(1) False by (auto simp: page_ok_def)
  qed
  then show ?thesis using b f by (simp add: page_ok_def)
qed

lemma erase_step:
  assumes inv: "home_inv s" and at: "hs_at s = Erase ((i, j) # ps)"
  shows "\<exists>s'. hmi_step d s = Some s' \<and> home_inv s'"
proof -
  obtain s' where s': "s' = s\<lparr>hs_hmi := (hs_hmi s)\<lparr>screen := draw_mark 0x00 (of_nat (i + 2)) (of_nat (j + 2)) 0 (screen (hs_hmi s))\<rparr>,
      hs_at := Fetch i j ps\<rparr>" by blast
  have ij: "i < 4" "j < 8" using inv at by (simp_all add: home_inv_def)
  have step: "hmi_step d s = Some s'" by (simp only: hmi_step_def at Let_def hmi_at.case list.case prod.case s')
  have same: "hs_env s' = hs_env s" "lost s' = lost s" "opened s' = opened s" "hs_at s' = Fetch i j ps"
      "g_firstrun (hs_hmi s') = g_firstrun (hs_hmi s)" "last_menu (hs_hmi s') = last_menu (hs_hmi s)"
      "hs_menu s' = hs_menu s" "overdrawn s' = overdrawn s"
    unfolding s' by simp_all
  have h: "hs_hmi s' = (hs_hmi s)\<lparr>screen := draw_mark 0 (of_nat (i + 2)) (of_nat (j + 2)) 0 (screen (hs_hmi s))\<rparr>"
    unfolding s' by simp
  have "page_inv s'" if "page_inv s"
  proof -
    have p: "page_ok s" using that at by (simp add: page_inv_def)
    note r = redraw_screen [OF _ ij _ h same(3)]
    have r': "bytes_ok s'" "shown (page_bytes s') = (shown (page_bytes s))(cell (i * 8 + j) := [])"
      using p r by (simp_all add: page_ok_def)
    have "page_ok s'"
      by (rule redraw_page [OF p r'(1) _ r'(2) same(1,2)]) (use p in \<open>auto simp: page_ok_def same at\<close>)
    then show ?thesis using r'(2) same(4) by (simp add: page_inv_def)
  qed
  then show ?thesis using step inv at by (simp add: home_inv_def same)
qed

lemma fetch_step:
  assumes inv: "home_inv s" and at: "hs_at s = Fetch i j ps"
  shows "\<exists>s'. hmi_step d s = Some s' \<and> home_inv s'"
proof -
  let ?s = "s\<lparr>hs_at := Draw (state_of s (i * 8 + j)) i j ps\<rparr>"
  have ij: "i < 4" "j < 8" using inv at by (simp_all add: home_inv_def)
  have "length (terminalState (g_lms (hs_env s))) = 32" using inv by (simp add: home_inv_def env_inv_def Let_def)
  then have step: "hmi_step d s = Some ?s" using at cell_number [OF ij] by (simp add: hmi_step_def)
  have "page_inv ?s" if "page_inv s"
    using that at by (auto simp: page_inv_def page_ok_def bytes_ok_def page_bytes_def cell_ok_def noticed_def drawing_def)
  then show ?thesis using step inv at by (simp add: home_inv_def)
qed

lemma draw_step:
  assumes inv: "home_inv s" and at: "hs_at s = Draw t i j ps"
  shows "\<exists>s'. hmi_step d s = Some s' \<and> home_inv s'"
proof -
  obtain s' where s': "s' = s\<lparr>hs_hmi := (hs_hmi s)\<lparr>screen := draw_mark t (of_nat (i + 2)) (of_nat (j + 2)) 1 (screen (hs_hmi s))\<rparr>,
      hs_at := Erase ps\<rparr>" by blast
  let ?k = "i * 8 + j"
  have ij: "i < 4" "j < 8" using inv at by (simp_all add: home_inv_def)
  have step: "hmi_step d s = Some s'" by (simp only: hmi_step_def at Let_def hmi_at.case s')
  have same: "hs_env s' = hs_env s" "lost s' = lost s" "opened s' = opened s" "hs_at s' = Erase ps"
      "g_firstrun (hs_hmi s') = g_firstrun (hs_hmi s)" "last_menu (hs_hmi s') = last_menu (hs_hmi s)"
      "hs_menu s' = hs_menu s" "overdrawn s' = overdrawn s"
    unfolding s' by simp_all
  have h: "hs_hmi s' = (hs_hmi s)\<lparr>screen := draw_mark t (of_nat (i + 2)) (of_nat (j + 2)) 1 (screen (hs_hmi s))\<rparr>"
    unfolding s' by simp
  have "page_inv s'" if "page_inv s"
  proof -
    have p: "page_ok s" "drawing s t ?k" using that at by (simp_all add: page_inv_def)
    note r = redraw_screen [OF _ ij _ h same(3)]
    have r': "bytes_ok s'" "shown (page_bytes s') = (shown (page_bytes s))(cell ?k := mark t ?k)"
      using p r by (simp_all add: page_ok_def drawing_def)
    have "cell_ok s' ?k" using p(2) r'(2) same(1,2) by (auto simp: cell_ok_def drawing_def noticed_def)
    then have "page_ok s'"
      by (intro redraw_page [OF p(1) r'(1) _ r'(2) same(1,2)]) (use p in \<open>auto simp: page_ok_def same at\<close>)
    then show ?thesis using same(4) by (simp add: page_inv_def)
  qed
  then show ?thesis using step inv at by (simp add: home_inv_def same)
qed

lemma hmi_step_inv:
  assumes inv: "home_inv s" shows "\<exists>s'. hmi_step d s = Some s' \<and> home_inv s'"
proof -
  have simple: "\<exists>s'. hmi_step d s = Some s' \<and> home_inv s'"
    if "hmi_step d s = Some s'" "hs_env s' = hs_env s" "g_cur_menu (hs_menu s') = g_cur_menu (hs_menu s)" "at_ok (hs_at s')"
      "last_menu (hs_hmi s') = MENU_HOME \<Longrightarrow> \<not> overdrawn s' \<Longrightarrow> page_inv s'" for s'
    using that inv by (simp add: home_inv_def)
  note same = page_inv_def page_ok_def cleared_def bytes_ok_def page_bytes_def cell_ok_def noticed_def
  have page: "last_menu (hs_hmi s) = MENU_HOME \<Longrightarrow> \<not> overdrawn s \<Longrightarrow> page_inv s" using inv by (simp add: home_inv_def)
  have cur: "g_cur_menu (hs_menu s) < MENU_NUM" using inv by (simp add: home_inv_def)
  show ?thesis
  proof (cases "hs_at s")
    case At_compare
    then show ?thesis
      by (intro simple [of "s\<lparr>hs_at := if g_cur_menu (hs_menu s) \<noteq> last_menu (hs_hmi s) then At_assign else At_table\<rparr>"])
        (use page in \<open>auto simp: hmi_step_def same\<close>)
  next
    case At_assign
    then show ?thesis
      by (intro simple [of "s\<lparr>hs_hmi := (hs_hmi s)\<lparr>last_menu := g_cur_menu (hs_menu s)\<rparr>, hs_at := At_clear\<rparr>"])
        (auto simp: hmi_step_def page_inv_def)
  next
    case At_clear
    let ?scr = "oled_clear (screen (hs_hmi s))"
    show ?thesis
      by (rule simple [of "s\<lparr>hs_hmi := (hs_hmi s)\<lparr>screen := ?scr\<rparr>, hs_at := At_first, opened := length (oled_out ?scr),
            overdrawn := False, lost := {}\<rparr>"])
        (use At_clear in \<open>simp_all add: hmi_step_def page_inv_def bytes_ok_def page_bytes_def whole_def Let_def\<close>)
  next
    case At_first
    then show ?thesis
      by (intro simple [of "s\<lparr>hs_hmi := (hs_hmi s)\<lparr>g_firstrun := 1\<rparr>, hs_at := At_result\<rparr>"])
        (use page in \<open>auto simp: hmi_step_def same\<close>)
  next
    case At_result
    then show ?thesis
      by (intro simple [of "s\<lparr>hs_menu := (hs_menu s)\<lparr>show_result_flag := 0\<rparr>, hs_at := At_table\<rparr>"])
        (use page in \<open>auto simp: hmi_step_def same\<close>)
  next
    case At_table
    then show ?thesis
      by (intro simple [of "s\<lparr>hs_at := Run (g_cur_menu (hs_menu s))\<rparr>"])
        (use page cur in \<open>auto simp: hmi_step_def same\<close>)
  next
    case (Run p)
    then show ?thesis using run_first [OF inv] run_notice [OF inv] run_other [OF inv Run]
      by (cases "p = MENU_HOME"; cases "g_firstrun (hs_hmi s) = 0") simp_all
  next
    case (Erase ps)
    show ?thesis
    proof (cases ps)
      case Nil
      then show ?thesis using Erase
        by (intro simple [of "s\<lparr>hs_at := At_compare\<rparr>"]) (use page in \<open>auto simp: hmi_step_def same\<close>)
    next
      case (Cons q qs)
      then show ?thesis using erase_step [OF inv, of "fst q" "snd q" qs] Erase by simp
    qed
  next
    case (Fetch i j ps)
    then show ?thesis by (rule fetch_step [OF inv])
  next
    case (Draw t i j ps)
    then show ?thesis by (rule draw_step [OF inv])
  qed
qed

lemma home_step_inv:
  assumes "home_inv s" "home_step s s'" shows "home_inv s'"
proof -
  have env: "env_inv (hs_env s)" using assms(1) by (simp add: home_inv_def)
  show ?thesis using assms(2)
  proof (cases rule: home_step.cases)
    case (tick rx e)
    then show ?thesis using inv_tick [OF assms(1)] by simp
  next
    case (delay e)
    show ?thesis unfolding delay(1) by (rule inv_env_same0 [OF assms(1) delay_effect [OF env delay(2,3)]])
  next
    case (command g sg c e)
    show ?thesis unfolding command(1) by (rule inv_env_same0 [OF assms(1) command_effect [OF env command(2)]])
  next
    case (key k m)
    have "page_inv (s\<lparr>hs_menu := m\<rparr>)" if "page_inv s"
      by (rule page_inv_env [OF that]) (use assms(1) in \<open>auto simp: home_inv_def noticed_def\<close>)
    then show ?thesis using key assms(1) key_cb_next [of "hs_menu s" k] by (auto simp: home_inv_def)
  next
    case (display d)
    then show ?thesis using hmi_step_inv [OF assms(1), of d] by auto
  qed
qed

lemma home_reach_inv: "home_reach s \<Longrightarrow> home_inv s"
proof (induction rule: home_reach.induct)
  case (start pool e m scr)
  then show ?case using env_inv_init [OF start(1,2)]
    by (simp add: home_inv_def hmi_start_def menu_consts lms_init_def lms_mailbox_init_def)
next
  case (step s s')
  then show ?case using home_step_inv by blast
qed

text \<open>The five known states have different marks; every other state has an empty cell.\<close>

lemma mark_distinct:
  assumes "a \<in> {0x00, 0x0b, 0x74, 0x7f, 0xff}" "mark a i = mark b i"
  shows "a = b"
proof -
  have m: "mark t i = (let y = at_dot (i div 8); x = at_dot (i mod 8); ring = Circle (y + RADIUS) (x + RADIUS) RADIUS 0 1 in
    if t = 0 then [Circle (y + RADIUS) (x + RADIUS) RADIUS 1 1] else if t = 0x0b then [ring]
    else if t = 0x74 then [ring, Line (y + RADIUS) x (y + RADIUS) (x + 2 * RADIUS) 1]
    else if t = 0x7f then [ring, Line y (x + RADIUS) (y + 2 * RADIUS) (x + RADIUS) 1]
    else if t = 0xff then
       [ring, Line (y + RADIUS - 5) (x + RADIUS - 5) (y + RADIUS + 5) (x + RADIUS + 5) 1,
        Line (y + RADIUS + 5) (x + RADIUS - 5) (y + RADIUS - 5) (x + RADIUS + 5) 1]
    else [])" for t
    by (simp add: mark_def mark_bytes_eq Let_def)
  show ?thesis using assms unfolding m Let_def by (auto simp: RADIUS_def split: if_splits)
qed

text \<open>C17: Keys and lamp bus interrupt the display thread between any two of its accesses to the page number,
  the mailbox and the states of the terminals. Whatever the order of half waves, transmissions, commands,
  key presses and steps of the display thread: the thread never fails on any page; and whenever the home
  page is open and no other page was drawn over it since the display was cleared, each of the 32 cells
  shows exactly the mark of its terminal's present state, unless a notice for the terminal is in the
  mailbox or was lost to a full mailbox since the clearing, or, during a call of the page, the cell is
  among those it has still to draw. Between two passes none is.\<close>

theorem home_page_shows_lamps:
  assumes "home_reach s"
  shows "hmi_step d s \<noteq> None \<and>
    (last_menu (hs_hmi s) = MENU_HOME \<and> \<not> overdrawn s \<and>
       (case hs_at s of At_compare \<Rightarrow> True | At_assign \<Rightarrow> True | Erase ps \<Rightarrow> True | Fetch i j ps \<Rightarrow> True | Draw t i j ps \<Rightarrow> True | _ \<Rightarrow> False) \<longrightarrow>
     (\<forall>i < 32. shown (page_bytes s) (cell i) = mark (terminalState (g_lms (hs_env s)) ! i) i \<or>
        of_nat i \<in> set (mb_items (lms_mb (hs_env s))) \<or> i \<in> lost s \<or> i \<in> pending (hs_at s)))"
proof -
  have inv: "home_inv s" by (rule home_reach_inv [OF assms])
  have "hmi_step d s \<noteq> None" using hmi_step_inv [OF inv, of d] by auto
  then show ?thesis
    using inv by (cases "hs_at s") (auto simp: home_inv_def page_inv_def page_ok_def cell_ok_def noticed_def)
qed

text \<open>A run of the display thread alone, and of the thread until it has drawn the cells.\<close>

lemma home_hmi: "home_reach s \<Longrightarrow> hmi_step d s = Some s' \<Longrightarrow> home_reach s'"
  by (rule home_reach.step [OF _ home_step.display])

lemma cells_drawn:
  assumes "home_reach s" "hs_at s = Erase ps"
  shows "\<exists>s'. home_reach s' \<and> hs_at s' = At_compare \<and> hs_env s' = hs_env s \<and> hs_menu s' = hs_menu s \<and> overdrawn s' = overdrawn s \<and>
    last_menu (hs_hmi s') = last_menu (hs_hmi s) \<and> lost s' = lost s"
  using assms
proof (induction ps arbitrary: s)
  case Nil
  then have "hmi_step d s = Some (s\<lparr>hs_at := At_compare\<rparr>)" for d by (simp add: hmi_step_def)
  from home_hmi [OF Nil.prems(1) this] show ?case by (intro exI [of _ "s\<lparr>hs_at := At_compare\<rparr>"]) simp
next
  case (Cons p ps)
  obtain i j where p: "p = (i, j)" by (cases p)
  let ?h = "\<lambda>s t z. (hs_hmi s)\<lparr>screen := draw_mark t (of_nat (i + 2)) (of_nat (j + 2)) z (screen (hs_hmi s))\<rparr>"
  obtain s1 where s1: "s1 = s\<lparr>hs_hmi := ?h s 0x00 0, hs_at := Fetch i j ps\<rparr>" by blast
  have "hmi_step d s = Some s1" for d
    by (simp only: hmi_step_def Cons.prems(2) p Let_def hmi_at.case list.case prod.case s1)
  then have r1: "home_reach s1" by (rule home_hmi [OF Cons.prems(1)])
  have at1: "hs_at s1 = Fetch i j ps" unfolding s1 by simp
  obtain t where "rd (terminalState (g_lms (hs_env s1))) (i * 8 + j) = Some t"
    using hmi_step_inv [OF home_reach_inv [OF r1]] by (fastforce simp: hmi_step_def at1 bind_eq_Some_conv)
  then have "hmi_step d s1 = Some (s1\<lparr>hs_at := Draw t i j ps\<rparr>)" for d by (simp add: hmi_step_def at1)
  then have r2: "home_reach (s1\<lparr>hs_at := Draw t i j ps\<rparr>)" by (rule home_hmi [OF r1])
  obtain s3 where s3: "s3 = s1\<lparr>hs_hmi := ?h s1 t 1, hs_at := Erase ps\<rparr>" by blast
  have "hmi_step d (s1\<lparr>hs_at := Draw t i j ps\<rparr>) = Some s3" for d
    unfolding s3 hmi_step_def Let_def by simp
  then have r3: "home_reach s3" by (rule home_hmi [OF r2])
  have "hs_at s3 = Erase ps" unfolding s3 by simp
  from Cons.IH [OF r3 this] show ?case by (simp add: s3 s1)
qed

lemma home_opened:
  "\<exists>s. home_reach s \<and> hs_at s = At_compare \<and> \<not> overdrawn s \<and> last_menu (hs_hmi s) = MENU_HOME \<and>
     g_cur_menu (hs_menu s) = MENU_HOME \<and> hs_env s = env lms_boot \<and> lost s = {}"
proof -
  let ?e = "env lms_boot" and ?m = "\<lparr>g_cur_menu = 0, show_result_flag = 0, reset_factory_flag = 0, write_eeprom_flag = 0\<rparr>"
  obtain e0 where e0: "?e = lms_init (replicate 32 0) e0" "\<not> txDelay e0" by (simp add: lms_boot_def)
  obtain s0 where s0: "s0 = \<lparr>hs_env = ?e, hs_menu = ?m, hs_hmi = hmi_start blank, hs_at = At_compare, opened = 0,
      overdrawn = False, lost = {}\<rparr>" by blast
  have r0: "home_reach s0" unfolding e0(1) s0 using e0(2) by (intro home_reach.start) (simp_all add: menu_consts)
  have st: "hs_at s0 = At_compare" "g_cur_menu (hs_menu s0) = MENU_HOME" "last_menu (hs_hmi s0) \<noteq> MENU_HOME" "hs_env s0 = ?e"
    by (simp_all add: s0 hmi_start_def menu_consts)
  obtain d :: ccr_datastruct where True by blast
  have go: "\<exists>s'. home_reach s' \<and> P s'" if "home_reach s" "hmi_step d s = Some s'" "P s'" for s s' and P :: "home_sys \<Rightarrow> bool"
    using that home_hmi by blast
  let ?a = "\<lambda>s a. hs_at s = a \<and> g_cur_menu (hs_menu s) = MENU_HOME \<and> hs_env s = ?e"
  obtain s1 where s1: "home_reach s1" "?a s1 At_assign"
    using go [OF r0, of "s0\<lparr>hs_at := At_assign\<rparr>" "\<lambda>s. ?a s At_assign"] st by (auto simp: hmi_step_def)
  obtain s2 where s2: "home_reach s2" "?a s2 At_clear \<and> last_menu (hs_hmi s2) = MENU_HOME"
    using go [OF s1(1), of "s1\<lparr>hs_hmi := (hs_hmi s1)\<lparr>last_menu := g_cur_menu (hs_menu s1)\<rparr>, hs_at := At_clear\<rparr>"
      "\<lambda>s. ?a s At_clear \<and> last_menu (hs_hmi s) = MENU_HOME"] s1(2) by (auto simp: hmi_step_def)
  let ?b = "\<lambda>s a. ?a s a \<and> last_menu (hs_hmi s) = MENU_HOME \<and> \<not> overdrawn s \<and> lost s = {}"
  obtain s3 where s3: "home_reach s3" "?b s3 At_first"
    using go [OF s2(1), of "the (hmi_step d s2)" "\<lambda>s. ?b s At_first"] s2(2) by (auto simp: hmi_step_def Let_def)
  obtain s4 where s4: "home_reach s4" "?b s4 At_result \<and> g_firstrun (hs_hmi s4) \<noteq> 0"
    using go [OF s3(1), of "the (hmi_step d s3)" "\<lambda>s. ?b s At_result \<and> g_firstrun (hs_hmi s) \<noteq> 0"] s3(2) by (auto simp: hmi_step_def)
  obtain s5 where s5: "home_reach s5" "?b s5 At_table \<and> g_firstrun (hs_hmi s5) \<noteq> 0"
    using go [OF s4(1), of "the (hmi_step d s4)" "\<lambda>s. ?b s At_table \<and> g_firstrun (hs_hmi s) \<noteq> 0"] s4(2) by (auto simp: hmi_step_def)
  obtain s6 where s6: "home_reach s6" "?b s6 (Run MENU_HOME) \<and> g_firstrun (hs_hmi s6) \<noteq> 0"
    using go [OF s5(1), of "the (hmi_step d s5)" "\<lambda>s. ?b s (Run MENU_HOME) \<and> g_firstrun (hs_hmi s) \<noteq> 0"] s5(2)
    by (auto simp: hmi_step_def)
  obtain s7 where s7: "home_reach s7" "?b s7 (Erase all_cells)"
    using go [OF s6(1), of "the (hmi_step d s6)" "\<lambda>s. ?b s (Erase all_cells)"] s6(2)
    by (auto simp: hmi_step_def display_table_def lms_status_disp_def Let_def)
  from cells_drawn [OF s7(1)] s7(2) show ?thesis by auto
qed

theorem home_page_shows_lamps_witness:
  "\<exists>s. home_reach s \<and> last_menu (hs_hmi s) = MENU_HOME \<and> hs_at s = At_compare \<and> shown (page_bytes s) (cell 5) = mark 0xff 5"
proof -
  obtain s where s: "home_reach s" "hs_at s = At_compare" "\<not> overdrawn s" "last_menu (hs_hmi s) = MENU_HOME"
    "hs_env s = env lms_boot" "lost s = {}" using home_opened by blast
  have "mb_items (lms_mb (env lms_boot)) = []" "terminalState (g_lms (env lms_boot)) ! 5 = 0xff"
    by (simp_all add: lms_boot_def lms_init_def lms_mailbox_init_def TERMIANL_NUM_def)
  then show ?thesis using home_page_shows_lamps [OF s(1)] s by (intro exI [of _ s]) simp
qed

text \<open>
  The race that the condition leaves out happens: two keys that are pressed around one pass leave the
  home page open, with another page drawn over it and the clearing not to come.
\<close>

lemma home_page_overdrawn:
  "\<exists>s. home_reach s \<and> hs_at s = At_compare \<and> overdrawn s \<and> last_menu (hs_hmi s) = MENU_HOME \<and>
     g_cur_menu (hs_menu s) = MENU_HOME \<and> (\<forall>d. hmi_step d s = Some (s\<lparr>hs_at := At_table\<rparr>))"
proof -
  obtain s where s: "home_reach s" "hs_at s = At_compare" "last_menu (hs_hmi s) = MENU_HOME" "g_cur_menu (hs_menu s) = MENU_HOME"
    using home_opened by blast
  obtain d :: ccr_datastruct where True by blast
  have "hmi_step d s = Some (s\<lparr>hs_at := At_table\<rparr>)" using s by (simp add: hmi_step_def)
  then have r1: "home_reach (s\<lparr>hs_at := At_table\<rparr>)" by (rule home_hmi [OF s(1)])
  obtain m where m: "key_cb KEY_DOWN (hs_menu s) = Some m" "g_cur_menu m = MENU_VI"
    using key_cb_next [of "hs_menu s" KEY_DOWN] s(4) by (auto simp: menu_next_def menu_consts)
  have r2: "home_reach (s\<lparr>hs_at := At_table, hs_menu := m\<rparr>)"
    using home_reach.step [OF r1 home_step.key [of KEY_DOWN _ m]] m(1) by (simp add: menu_consts)
  have "hmi_step d (s\<lparr>hs_at := At_table, hs_menu := m\<rparr>) = Some (s\<lparr>hs_at := Run MENU_VI, hs_menu := m\<rparr>)"
    using m(2) by (simp add: hmi_step_def)
  then have r3: "home_reach (s\<lparr>hs_at := Run MENU_VI, hs_menu := m\<rparr>)" by (rule home_hmi [OF r2])
  let ?h = "(hs_hmi s)\<lparr>screen := vi_disp d (screen (hs_hmi s))\<rparr>"
  let ?s = "s\<lparr>hs_hmi := ?h, hs_at := Erase [], hs_menu := m, overdrawn := True\<rparr>"
  have "hmi_step d (s\<lparr>hs_at := Run MENU_VI, hs_menu := m\<rparr>) = Some ?s"
    by (simp add: hmi_step_def display_table_def menu_consts Let_def)
  then have r4: "home_reach ?s" by (rule home_hmi [OF r3])
  obtain s5 where s5: "home_reach s5" "hs_at s5 = At_compare" "hs_menu s5 = m" "overdrawn s5" "last_menu (hs_hmi s5) = MENU_HOME"
    using cells_drawn [OF r4] s(3) by auto
  obtain m' where m': "key_cb KEY_UP m = Some m'" "g_cur_menu m' = MENU_HOME"
    using key_cb_next [of m KEY_UP] m(2) by (auto simp: menu_next_def menu_consts)
  have "home_reach (s5\<lparr>hs_menu := m'\<rparr>)"
    using home_reach.step [OF s5(1) home_step.key [of KEY_UP _ m']] m'(1) s5(3) by (simp add: menu_consts)
  then show ?thesis using s5 m'(2) by (intro exI [of _ "s5\<lparr>hs_menu := m'\<rparr>"]) (simp add: hmi_step_def)
qed

end
