(* ===== verification/I2cBus.thy ===== *)
theory I2cBus
  imports Prelude
begin

text \<open>
  The bit-banged I2C master (\<open>rt-thread/components/drivers/i2c/i2c-bit-ops.c\<close>) that carries every access
  to the port expanders and the EEPROM, over the pins of \<open>gd32_drivers/drv_soft_i2c.c\<close>.

  \<open>struct rt_i2c_bit_ops\<close> is a record of functions on a world, as in the code; the world of the pins
  has two open-drain lines, a clock of microseconds and a chip. The chip is not part of the
  repository: it is any state machine on bytes behind a receiver that follows the I2C protocol
  edge by edge, and it may hold the clock low. \<open>None\<close> is an access outside a message buffer or a
  wait that does not end.
\<close>

section \<open>Messages and operations\<close>

text \<open>
  The error codes of \<open>rtdef.h\<close>. The build defines \<open>RT_USING_LIBC\<close> and a version number, so these are
  \<open>ETIMEDOUT\<close>, 255 and \<open>EIO\<close>; \<open>CMakeLists.txt\<close> builds with newlib, whose \<open>errno.h\<close> gives 116 and 5.
\<close>

definition RT_ETIMEOUT_CODE :: int where "RT_ETIMEOUT_CODE = 116"
definition RT_ERROR_CODE :: int where "RT_ERROR_CODE = 255"
definition RT_EIO_CODE :: int where "RT_EIO_CODE = 5"

text \<open>The flag bits of a message.\<close>

definition RT_I2C_RD :: nat where "RT_I2C_RD = 0"
definition RT_I2C_ADDR_10BIT :: nat where "RT_I2C_ADDR_10BIT = 2"
definition RT_I2C_NO_START :: nat where "RT_I2C_NO_START = 4"
definition RT_I2C_IGNORE_NACK :: nat where "RT_I2C_IGNORE_NACK = 5"
definition RT_I2C_NO_READ_ACK :: nat where "RT_I2C_NO_READ_ACK = 6"
definition RT_I2C_NO_STOP :: nat where "RT_I2C_NO_STOP = 7"

record rt_i2c_msg =
  msg_addr :: u16
  msg_flags :: u16
  msg_len :: u16
  msg_buf :: "u8 list"

record 'w rt_i2c_bit_ops =
  set_sda :: "int \<Rightarrow> 'w \<Rightarrow> 'w"
  set_scl :: "int \<Rightarrow> 'w \<Rightarrow> 'w"
  get_sda :: "'w \<Rightarrow> int"
  get_scl :: "('w \<Rightarrow> int) option"
  udelay :: "u32 \<Rightarrow> 'w \<Rightarrow> 'w"
  rt_tick_get :: "'w \<Rightarrow> u32"
  delay_us :: u32
  scl_timeout :: u32

record 'w rt_i2c_bus =
  bus_ops :: "'w rt_i2c_bit_ops"
  bus_retries :: u32

section \<open>Bits\<close>

definition i2c_delay :: "'w rt_i2c_bit_ops \<Rightarrow> 'w \<Rightarrow> 'w" where
  "i2c_delay ops w = udelay ops (drop_bit 1 (delay_us ops + 1)) w"

definition i2c_delay2 :: "'w rt_i2c_bit_ops \<Rightarrow> 'w \<Rightarrow> 'w" where
  "i2c_delay2 ops w = udelay ops (delay_us ops) w"

text \<open>The loop of \<open>SCL_H\<close> need not end: its result is \<open>None\<close> then.\<close>

partial_function (option) scl_wait ::
  "'w rt_i2c_bit_ops \<Rightarrow> ('w \<Rightarrow> int) \<Rightarrow> u32 \<Rightarrow> 'w \<Rightarrow> (int \<times> 'w) option" where
  "scl_wait ops get start w =
    (if get w = 0 then
       (if rt_tick_get ops w - start > scl_timeout ops then Some (- RT_ETIMEOUT_CODE, w)
        else scl_wait ops get start (i2c_delay ops w))
     else Some (0, w))"

definition SCL_H :: "'w rt_i2c_bit_ops \<Rightarrow> 'w \<Rightarrow> (int \<times> 'w) option" where
  "SCL_H ops w =
    (let w = set_scl ops 1 w
     in case get_scl ops of
          None \<Rightarrow> Some (0, i2c_delay ops w)
        | Some get \<Rightarrow> do {
            (r, w) \<leftarrow> scl_wait ops get (rt_tick_get ops w) w;
            if r < 0 then Some (r, w) else Some (0, i2c_delay ops w)
          })"

definition i2c_start :: "'w rt_i2c_bit_ops \<Rightarrow> 'w \<Rightarrow> 'w" where
  "i2c_start ops w = set_scl ops 0 (i2c_delay ops (set_sda ops 0 w))"

definition i2c_restart :: "'w rt_i2c_bit_ops \<Rightarrow> 'w \<Rightarrow> 'w option" where
  "i2c_restart ops w = do {
     (_, w) \<leftarrow> SCL_H ops (set_sda ops 1 w);
     let w = set_sda ops 0 (i2c_delay ops w);
     Some (set_scl ops 0 (i2c_delay ops w))
   }"

definition i2c_stop :: "'w rt_i2c_bit_ops \<Rightarrow> 'w \<Rightarrow> 'w option" where
  "i2c_stop ops w = do {
     (_, w) \<leftarrow> SCL_H ops (i2c_delay ops (set_sda ops 0 w));
     Some (i2c_delay2 ops (set_sda ops 1 (i2c_delay ops w)))
   }"

definition i2c_waitack :: "'w rt_i2c_bit_ops \<Rightarrow> 'w \<Rightarrow> (int \<times> 'w) option" where
  "i2c_waitack ops w = do {
     (r, w) \<leftarrow> SCL_H ops (i2c_delay ops (set_sda ops 1 w));
     if r < 0 then Some (- RT_ETIMEOUT_CODE, w)
     else Some (if get_sda ops w = 0 then 1 else 0, set_scl ops 0 w)
   }"

section \<open>Bytes\<close>

text \<open>The loop of \<open>i2c_writeb\<close>; \<open>n\<close> is \<open>i + 1\<close>.\<close>

fun write_bits :: "'w rt_i2c_bit_ops \<Rightarrow> u8 \<Rightarrow> nat \<Rightarrow> 'w \<Rightarrow> (int \<times> 'w) option" where
  "write_bits ops data 0 w = Some (0, w)"
| "write_bits ops data (Suc i) w = do {
     let w = set_sda ops (uint (drop_bit i data AND 1)) (set_scl ops 0 w);
     (r, w) \<leftarrow> SCL_H ops (i2c_delay ops w);
     if r < 0 then Some (- RT_ETIMEOUT_CODE, w) else write_bits ops data i w
   }"

definition i2c_writeb :: "'w rt_i2c_bit_ops \<Rightarrow> u8 \<Rightarrow> 'w \<Rightarrow> (int \<times> 'w) option" where
  "i2c_writeb ops data w = do {
     (r, w) \<leftarrow> write_bits ops data 8 w;
     if r < 0 then Some (r, w)
     else i2c_waitack ops (i2c_delay ops (set_scl ops 0 w))
   }"

text \<open>The loop of \<open>i2c_readb\<close>; \<open>n\<close> is \<open>8 - i\<close>.\<close>

fun read_bits :: "'w rt_i2c_bit_ops \<Rightarrow> nat \<Rightarrow> u8 \<Rightarrow> 'w \<Rightarrow> (int \<times> 'w) option" where
  "read_bits ops 0 data w = Some (uint data, w)"
| "read_bits ops (Suc n) data w = do {
     let data = push_bit 1 data;
     (r, w) \<leftarrow> SCL_H ops w;
     if r < 0 then Some (- RT_ETIMEOUT_CODE, w)
     else do {
       let data = (if get_sda ops w \<noteq> 0 then data OR 1 else data);
       read_bits ops n data (i2c_delay2 ops (set_scl ops 0 w))
     }
   }"

definition i2c_readb :: "'w rt_i2c_bit_ops \<Rightarrow> 'w \<Rightarrow> (int \<times> 'w) option" where
  "i2c_readb ops w = read_bits ops 8 0 (i2c_delay ops (set_sda ops 1 w))"

definition i2c_send_ack_or_nack :: "'w rt_i2c_bit_ops \<Rightarrow> int \<Rightarrow> 'w \<Rightarrow> (int \<times> 'w) option" where
  "i2c_send_ack_or_nack ops ack w = do {
     let w = (if ack \<noteq> 0 then set_sda ops 0 w else w);
     (r, w) \<leftarrow> SCL_H ops (i2c_delay ops w);
     if r < 0 then Some (- RT_ETIMEOUT_CODE, w) else Some (0, set_scl ops 0 w)
   }"

section \<open>Messages\<close>

text \<open>
  The loops over a message: \<open>p\<close> is the offset of \<open>ptr\<close>, which equals \<open>bytes\<close>, and the number counts down.
\<close>

fun send_loop :: "'w rt_i2c_bit_ops \<Rightarrow> bool \<Rightarrow> u8 list \<Rightarrow> nat \<Rightarrow> nat \<Rightarrow> 'w \<Rightarrow> (int \<times> 'w) option" where
  "send_loop ops ignore_nack mbuf p 0 w = Some (int p, w)"
| "send_loop ops ignore_nack mbuf p (Suc count) w = do {
     b \<leftarrow> rd mbuf p;
     (ret, w) \<leftarrow> i2c_writeb ops b w;
     if ret > 0 \<or> (ignore_nack \<and> ret = 0) then send_loop ops ignore_nack mbuf (p + 1) count w
     else if ret = 0 then Some (0, w)
     else Some (ret, w)
   }"

definition i2c_send_bytes :: "'w rt_i2c_bus \<Rightarrow> rt_i2c_msg \<Rightarrow> 'w \<Rightarrow> (int \<times> 'w) option" where
  "i2c_send_bytes bus m w =
    send_loop (bus_ops bus) (bit (msg_flags m) RT_I2C_IGNORE_NACK) (msg_buf m) 0 (unat (msg_len m)) w"

fun recv_loop :: "'w rt_i2c_bit_ops \<Rightarrow> bool \<Rightarrow> u8 list \<Rightarrow> nat \<Rightarrow> nat \<Rightarrow> 'w \<Rightarrow> (int \<times> u8 list \<times> 'w) option" where
  "recv_loop ops no_ack mbuf p 0 w = Some (int p, mbuf, w)"
| "recv_loop ops no_ack mbuf p (Suc count) w = do {
     (val, w) \<leftarrow> i2c_readb ops w;
     if val \<ge> 0 then do {
       mbuf \<leftarrow> wr mbuf p (of_int val);
       if no_ack then recv_loop ops no_ack mbuf (p + 1) count w
       else do {
         (r, w) \<leftarrow> i2c_send_ack_or_nack ops (int count) w;
         if r < 0 then Some (r, mbuf, w) else recv_loop ops no_ack mbuf (p + 1) count w
       }
     } else Some (int p, mbuf, w)
   }"

definition i2c_recv_bytes :: "'w rt_i2c_bus \<Rightarrow> rt_i2c_msg \<Rightarrow> 'w \<Rightarrow> (int \<times> u8 list \<times> 'w) option" where
  "i2c_recv_bytes bus m w =
    recv_loop (bus_ops bus) (bit (msg_flags m) RT_I2C_NO_READ_ACK) (msg_buf m) 0 (unat (msg_len m)) w"

text \<open>The address byte and its repetitions; \<open>k\<close> is \<open>retries - i\<close>. Negative \<open>retries\<close> send nothing.\<close>

fun address_loop :: "'w rt_i2c_bit_ops \<Rightarrow> u8 \<Rightarrow> nat \<Rightarrow> 'w \<Rightarrow> (int \<times> 'w) option" where
  "address_loop ops a 0 w = i2c_writeb ops a w"
| "address_loop ops a (Suc k) w = do {
     (ret, w) \<leftarrow> i2c_writeb ops a w;
     if ret = 1 then Some (ret, w)
     else do {
       w \<leftarrow> i2c_stop ops w;
       address_loop ops a k (i2c_start ops (i2c_delay2 ops w))
     }
   }"

definition i2c_send_address :: "'w rt_i2c_bus \<Rightarrow> u8 \<Rightarrow> int \<Rightarrow> 'w \<Rightarrow> (int \<times> 'w) option" where
  "i2c_send_address bus a retries w =
    (if retries < 0 then Some (0, w) else address_loop (bus_ops bus) a (nat retries) w)"

definition i2c_bit_send_address :: "'w rt_i2c_bus \<Rightarrow> rt_i2c_msg \<Rightarrow> 'w \<Rightarrow> (int \<times> 'w) option" where
  "i2c_bit_send_address bus m w =
    (let flags = msg_flags m;
         ignore_nack = bit flags RT_I2C_IGNORE_NACK;
         retries = (if ignore_nack then 0 else sint (bus_retries bus))
     in if bit flags RT_I2C_ADDR_10BIT then do {
          let addr1 = 0xf0 OR (ucast (drop_bit 7 (msg_addr m)) AND 0x06);
          let addr2 = ucast (msg_addr m);
          (ret, w) \<leftarrow> i2c_send_address bus addr1 retries w;
          if ret \<noteq> 1 \<and> \<not> ignore_nack then Some (- RT_EIO_CODE, w)
          else do {
            (ret, w) \<leftarrow> i2c_writeb (bus_ops bus) addr2 w;
            if ret \<noteq> 1 \<and> \<not> ignore_nack then Some (- RT_EIO_CODE, w)
            else if bit flags RT_I2C_RD then do {
              w \<leftarrow> i2c_restart (bus_ops bus) w;
              (ret, w) \<leftarrow> i2c_send_address bus (addr1 OR 0x01) retries w;
              if ret \<noteq> 1 \<and> \<not> ignore_nack then Some (- RT_EIO_CODE, w) else Some (0, w)
            } else Some (0, w)
          }
        } else do {
          let addr1 = ucast (push_bit 1 (msg_addr m));
          (ret, w) \<leftarrow> i2c_send_address bus (if bit flags RT_I2C_RD then addr1 OR 1 else addr1) retries w;
          if ret \<noteq> 1 \<and> \<not> ignore_nack then Some (- RT_EIO_CODE, w) else Some (0, w)
        })"

text \<open>
  One message: \<open>Inl ret\<close> leaves for \<open>out\<close>, \<open>Inr\<close> goes on. The addresses of \<open>i2c_bit_xfer\<close> are sent before
  the first byte unless the message has no start condition.
\<close>

definition xfer_data :: "'w rt_i2c_bus \<Rightarrow> rt_i2c_msg \<Rightarrow> 'w \<Rightarrow> (int option \<times> rt_i2c_msg \<times> 'w) option" where
  "xfer_data bus m w =
    (if bit (msg_flags m) RT_I2C_RD then do {
       (ret, mbuf, w) \<leftarrow> i2c_recv_bytes bus m w;
       let m = m\<lparr>msg_buf := mbuf\<rparr>;
       Some (if ret < int (unat (msg_len m)) then Some (if ret \<ge> 0 then - RT_EIO_CODE else ret) else None, m, w)
     } else do {
       (ret, w) \<leftarrow> i2c_send_bytes bus m w;
       Some (if ret < int (unat (msg_len m)) then Some (if ret \<ge> 0 then - RT_ERROR_CODE else ret) else None, m, w)
     })"

definition xfer_msg :: "'w rt_i2c_bus \<Rightarrow> nat \<Rightarrow> rt_i2c_msg \<Rightarrow> 'w \<Rightarrow> (int option \<times> rt_i2c_msg \<times> 'w) option" where
  "xfer_msg bus i m w =
    (if \<not> bit (msg_flags m) RT_I2C_NO_START then do {
       w \<leftarrow> (if i \<noteq> 0 then i2c_restart (bus_ops bus) w else Some (i2c_start (bus_ops bus) w));
       (ret, w) \<leftarrow> i2c_bit_send_address bus m w;
       if ret \<noteq> 0 \<and> \<not> bit (msg_flags m) RT_I2C_IGNORE_NACK then Some (Some ret, m, w) else xfer_data bus m w
     } else xfer_data bus m w)"

text \<open>The end of the transfer after message \<open>m\<close>.\<close>

definition xfer_out :: "'w rt_i2c_bus \<Rightarrow> rt_i2c_msg \<Rightarrow> 'w \<Rightarrow> 'w option" where
  "xfer_out bus m w = (if bit (msg_flags m) RT_I2C_NO_STOP then Some w else i2c_stop (bus_ops bus) w)"

text \<open>The loop: the messages done so far in reverse, the message at hand and the messages to come.\<close>

fun xfer_loop :: "'w rt_i2c_bus \<Rightarrow> rt_i2c_msg list \<Rightarrow> rt_i2c_msg \<Rightarrow> rt_i2c_msg list \<Rightarrow> 'w \<Rightarrow>
    (int \<times> rt_i2c_msg list \<times> 'w) option" where
  "xfer_loop bus done_msgs m rest w = do {
     (ret, m, w) \<leftarrow> xfer_msg bus (length done_msgs) m w;
     case (ret, rest) of
       (Some r, _) \<Rightarrow> do { w \<leftarrow> xfer_out bus m w; Some (r, rev done_msgs @ m # rest, w) }
     | (None, []) \<Rightarrow> do { w \<leftarrow> xfer_out bus m w; Some (int (length done_msgs) + 1, rev done_msgs @ [m], w) }
     | (None, m' # rest') \<Rightarrow> xfer_loop bus (m # done_msgs) m' rest' w
   }"

definition i2c_bit_xfer :: "'w rt_i2c_bus \<Rightarrow> rt_i2c_msg list \<Rightarrow> 'w \<Rightarrow> (int \<times> rt_i2c_msg list \<times> 'w) option" where
  "i2c_bit_xfer bus msgs w = (case msgs of [] \<Rightarrow> Some (0, [], w) | m # rest \<Rightarrow> xfer_loop bus [] m rest w)"

section \<open>The transfer byte by byte\<close>

text \<open>
  What a chip does with the bytes it is sent: \<open>chip_address\<close> and \<open>chip_write\<close> give \<open>None\<close> for a byte it
  does not acknowledge, \<open>chip_read\<close> the next byte it sends, and \<open>chip_stop\<close> is its reaction to the end of
  a transfer.
\<close>

record 'c i2c_chip =
  chip_address :: "u8 \<Rightarrow> 'c \<Rightarrow> 'c option"
  chip_write :: "u8 \<Rightarrow> 'c \<Rightarrow> 'c option"
  chip_read :: "'c \<Rightarrow> u8 \<times> 'c"
  chip_stop :: "'c \<Rightarrow> 'c"

text \<open>
  The state of the connection between two bytes: nobody is addressed, a start condition was given, the
  chip takes data, the chip sends data.
\<close>

datatype i2c_link = Off | Addressed | Receiving | Sending

fun byte_in :: "'c i2c_chip \<Rightarrow> u8 \<Rightarrow> i2c_link \<Rightarrow> 'c \<Rightarrow> bool \<times> i2c_link \<times> 'c" where
  "byte_in ch b Addressed c = (case chip_address ch b c of
     None \<Rightarrow> (False, Off, c) | Some c \<Rightarrow> (True, if bit b 0 then Sending else Receiving, c))"
| "byte_in ch b Receiving c = (case chip_write ch b c of None \<Rightarrow> (False, Off, c) | Some c \<Rightarrow> (True, Receiving, c))"
| "byte_in ch b l c = (False, Off, c)"

definition byte_out :: "'c i2c_chip \<Rightarrow> i2c_link \<Rightarrow> 'c \<Rightarrow> u8 \<times> 'c" where
  "byte_out ch l c = (if l = Sending then chip_read ch c else (0xFF, c))"

text \<open>A byte sequence sent to the chip until it refuses one, and a number of bytes taken from it.\<close>

fun chip_writes :: "'c i2c_chip \<Rightarrow> u8 list \<Rightarrow> 'c \<Rightarrow> bool \<times> 'c" where
  "chip_writes ch [] c = (True, c)"
| "chip_writes ch (b # bs) c = (case chip_write ch b c of None \<Rightarrow> (False, c) | Some c \<Rightarrow> chip_writes ch bs c)"

fun chip_reads :: "'c i2c_chip \<Rightarrow> nat \<Rightarrow> 'c \<Rightarrow> u8 list \<times> 'c" where
  "chip_reads ch 0 c = ([], c)"
| "chip_reads ch (Suc n) c = (let (b, c) = chip_read ch c; (bs, c) = chip_reads ch n c in (b # bs, c))"

text \<open>The address is repeated after a stop condition.\<close>

fun chip_addressed :: "'c i2c_chip \<Rightarrow> u8 \<Rightarrow> nat \<Rightarrow> 'c \<Rightarrow> bool \<times> 'c" where
  "chip_addressed ch a 0 c = (case chip_address ch a c of None \<Rightarrow> (False, c) | Some c \<Rightarrow> (True, c))"
| "chip_addressed ch a (Suc k) c =
    (case chip_address ch a c of None \<Rightarrow> chip_addressed ch a k (chip_stop ch c) | Some c \<Rightarrow> (True, c))"

text \<open>
  The messages the firmware uses: seven address bits, no other flag than the direction, a buffer for
  the whole message, and no empty read.
\<close>

definition plain_msg :: "rt_i2c_msg \<Rightarrow> bool" where
  "plain_msg m \<longleftrightarrow> (msg_flags m = 0 \<or> msg_flags m = 1 \<and> msg_len m \<noteq> 0) \<and> unat (msg_len m) \<le> length (msg_buf m)"

definition msg_address :: "rt_i2c_msg \<Rightarrow> u8" where
  "msg_address m = (let a = ucast (push_bit 1 (msg_addr m)) in if msg_flags m = 1 then a OR 1 else a)"

text \<open>What a transfer is on bytes: one message, then all of them up to the first that fails.\<close>

definition msg_served :: "'c i2c_chip \<Rightarrow> nat \<Rightarrow> rt_i2c_msg \<Rightarrow> 'c \<Rightarrow> int option \<times> rt_i2c_msg \<times> 'c" where
  "msg_served ch k m c = (case chip_addressed ch (msg_address m) k c of
     (False, c) \<Rightarrow> (Some (- RT_EIO_CODE), m, c)
   | (True, c) \<Rightarrow>
       let n = unat (msg_len m) in
       if msg_flags m = 1 then
         (case chip_reads ch n c of (bs, c) \<Rightarrow> (None, m\<lparr>msg_buf := bs @ drop n (msg_buf m)\<rparr>, c))
       else (case chip_writes ch (take n (msg_buf m)) c of
               (True, c) \<Rightarrow> (None, m, c) | (False, c) \<Rightarrow> (Some (- RT_ERROR_CODE), m, c)))"

fun msgs_served :: "'c i2c_chip \<Rightarrow> nat \<Rightarrow> nat \<Rightarrow> rt_i2c_msg list \<Rightarrow> 'c \<Rightarrow> int \<times> rt_i2c_msg list \<times> 'c" where
  "msgs_served ch k n [] c = (int n, [], c)"
| "msgs_served ch k n (m # ms) c = (case msg_served ch k m c of
     (Some r, m, c) \<Rightarrow> (r, m # ms, c)
   | (None, m, c) \<Rightarrow> (case msgs_served ch k (Suc n) ms c of (r, ms, c) \<Rightarrow> (r, m # ms, c)))"

lemma plain_flags:
  assumes "plain_msg m"
  shows "bit (msg_flags m) RT_I2C_RD \<longleftrightarrow> msg_flags m = 1" "\<not> bit (msg_flags m) RT_I2C_ADDR_10BIT"
    "\<not> bit (msg_flags m) RT_I2C_NO_START" "\<not> bit (msg_flags m) RT_I2C_IGNORE_NACK"
    "\<not> bit (msg_flags m) RT_I2C_NO_READ_ACK" "\<not> bit (msg_flags m) RT_I2C_NO_STOP"
  using assms by (auto simp: plain_msg_def RT_I2C_RD_def RT_I2C_ADDR_10BIT_def RT_I2C_NO_START_def
      RT_I2C_IGNORE_NACK_def RT_I2C_NO_READ_ACK_def RT_I2C_NO_STOP_def bit_1_iff)

lemma bit_msg_address: "bit (msg_address m) 0 \<longleftrightarrow> msg_flags m = 1"
proof -
  have "\<not> bit (ucast (push_bit 1 (msg_addr m)) :: u8) 0" by (simp add: bit_simps del: push_bit_Suc push_bit_of_Suc_0)
  then show ?thesis by (simp add: msg_address_def Let_def bit_or_iff)
qed

text \<open>
  What the loops over messages rely on: after each of the bit routines the connection is in the state
  that the byte just moved leads to.
\<close>

locale i2c_byte_bus =
  fixes ops :: "'w rt_i2c_bit_ops" and ch :: "'c i2c_chip"
    and rests :: "'w \<Rightarrow> i2c_link \<Rightarrow> 'c \<Rightarrow> bool" and free :: "'w \<Rightarrow> 'c \<Rightarrow> bool"
  assumes starts: "free w c \<Longrightarrow> rests (i2c_start ops w) Addressed c"
    and pauses: "free w c \<Longrightarrow> free (i2c_delay2 ops w) c"
    and restarts: "rests w l c \<Longrightarrow> l \<noteq> Sending \<Longrightarrow> \<exists>w'. i2c_restart ops w = Some w' \<and> rests w' Addressed c"
    and stops: "rests w l c \<Longrightarrow> l \<noteq> Sending \<Longrightarrow> \<exists>w'. i2c_stop ops w = Some w' \<and> free w' (chip_stop ch c)"
    and sends: "rests w l c \<Longrightarrow> l \<noteq> Sending \<Longrightarrow> byte_in ch b l c = (a, l', c') \<Longrightarrow>
        \<exists>w'. i2c_writeb ops b w = Some (of_bool a, w') \<and> rests w' l' c'"
    and receives: "rests w l c \<Longrightarrow> l = Sending \<or> l = Off \<Longrightarrow> byte_out ch l c = (b, c') \<Longrightarrow>
        \<exists>w1 w2. i2c_readb ops w = Some (uint b, w1) \<and> i2c_send_ack_or_nack ops k w1 = Some (0, w2) \<and>
          rests w2 (if k = 0 then Off else l) c'"
begin

lemma send_loop_served:
  assumes "rests w Receiving c" "p + n \<le> length mbuf" "chip_writes ch (take n (drop p mbuf)) c = (ok, c')"
  shows "\<exists>w' l. send_loop ops False mbuf p n w = Some (if ok then int (p + n) else 0, w') \<and>
    rests w' l c' \<and> l \<noteq> Sending \<and> (\<not> ok \<longrightarrow> 0 < n)"
  using assms
proof (induction n arbitrary: p w c)
  case (Suc n)
  have p: "p < length mbuf" using Suc.prems(2) by simp
  define b where "b = mbuf ! p"
  have b: "rd mbuf p = Some b" "take (Suc n) (drop p mbuf) = b # take n (drop (Suc p) mbuf)"
    using p by (simp_all add: b_def flip: Cons_nth_drop_Suc)
  show ?case
  proof (cases "chip_write ch b c")
    case None
    then obtain w1 where "i2c_writeb ops b w = Some (0, w1)" "rests w1 Off c"
      using sends [OF Suc.prems(1), of b False Off c] by auto
    then show ?thesis using Suc.prems(3) b None by (intro exI [of _ w1] exI [of _ Off]) simp
  next
    case (Some c1)
    then obtain w1 where w1: "i2c_writeb ops b w = Some (1, w1)" "rests w1 Receiving c1"
      using sends [OF Suc.prems(1), of b True Receiving c1] by auto
    have "chip_writes ch (take n (drop (Suc p) mbuf)) c1 = (ok, c')" using Suc.prems(3) b Some by simp
    from Suc.IH [OF w1(2) _ this] obtain w2 l where
      "send_loop ops False mbuf (Suc p) n w1 = Some (if ok then int (Suc p + n) else 0, w2)" "rests w2 l c'" "l \<noteq> Sending"
      using Suc.prems(2) by auto
    then show ?thesis using w1(1) b(1) by (intro exI [of _ w2] exI [of _ l]) simp
  qed
qed auto

lemma recv_loop_served:
  assumes "rests w Sending c" "0 < n" "p + n \<le> length mbuf" "chip_reads ch n c = (bs, c')"
  shows "\<exists>w'. recv_loop ops False mbuf p n w = Some (int (p + n), take p mbuf @ bs @ drop (p + n) mbuf, w') \<and> rests w' Off c'"
  using assms
proof (induction n arbitrary: p w c mbuf bs)
  case (Suc n)
  obtain b c1 bs1 where r: "chip_read ch c = (b, c1)" "chip_reads ch n c1 = (bs1, c')" "bs = b # bs1"
    using Suc.prems(4) by (auto split: prod.splits)
  obtain w1 w2 where w: "i2c_readb ops w = Some (uint b, w1)" "i2c_send_ack_or_nack ops (int n) w1 = Some (0, w2)"
    "rests w2 (if int n = 0 then Off else Sending) c1"
    using receives [OF Suc.prems(1), of b c1 "int n"] r(1) by (auto simp: byte_out_def)
  have step: "recv_loop ops False mbuf p (Suc n) w = recv_loop ops False (mbuf[p := b]) (p + 1) n w2"
    using Suc.prems(3) w(1,2) by simp
  show ?case
  proof (cases n)
    case 0
    then show ?thesis using w(3) r Suc.prems(3) unfolding step by (auto simp: upd_conv_take_nth_drop)
  next
    case (Suc k)
    have e: "take (p + 1) (mbuf[p := b]) @ bs1 @ drop (p + 1 + n) (mbuf[p := b]) = take p mbuf @ bs @ drop (p + Suc n) mbuf"
      using Suc.prems(3) r(3) by (simp add: upd_conv_take_nth_drop add.commute)
    have "rests w2 Sending c1" "0 < n" "p + 1 + n \<le> length (mbuf[p := b])" using w(3) Suc Suc.prems(3) by simp_all
    from Suc.IH [OF this r(2)] show ?thesis unfolding e step by (simp add: add.assoc)
  qed
qed simp

lemma address_loop_served:
  assumes "rests w Addressed c" "chip_addressed ch a k c = (ok, c')"
  shows "\<exists>w'. address_loop ops a k w = Some (of_bool ok, w') \<and>
    rests w' (if \<not> ok then Off else if bit a 0 then Sending else Receiving) c'"
  using assms
proof (induction k arbitrary: w c)
  case 0
  then show ?case using sends [OF 0(1), of a] by (auto split: option.splits)
next
  case (Suc k)
  show ?case
  proof (cases "chip_address ch a c")
    case None
    then obtain w1 where w1: "i2c_writeb ops a w = Some (0, w1)" "rests w1 Off c"
      using sends [OF Suc.prems(1), of a False Off c] by auto
    obtain w2 where w2: "i2c_stop ops w1 = Some w2" "free w2 (chip_stop ch c)" using stops [OF w1(2)] by auto
    have "chip_addressed ch a k (chip_stop ch c) = (ok, c')" using Suc.prems(2) None by simp
    from Suc.IH [OF starts [OF pauses [OF w2(2)]] this] show ?thesis using w1(1) w2(1) by simp
  next
    case (Some c1)
    then show ?thesis using sends [OF Suc.prems(1), of a True _ c1] Suc.prems(2) by (auto split: if_splits)
  qed
qed

lemma send_address_served:
  assumes "rests w Addressed c" "plain_msg m" "bus_ops bus = ops" "0 \<le> sint (bus_retries bus)"
    "chip_addressed ch (msg_address m) (nat (sint (bus_retries bus))) c = (ok, c')"
  shows "\<exists>w'. i2c_bit_send_address bus m w = Some (if ok then 0 else - RT_EIO_CODE, w') \<and>
    rests w' (if \<not> ok then Off else if msg_flags m = 1 then Sending else Receiving) c'"
proof -
  have b: "bit (msg_address m) 0 \<longleftrightarrow> msg_flags m = 1" by (simp add: bit_msg_address)
  show ?thesis
    using address_loop_served [OF assms(1,5)] assms(3,4) unfolding b
    by (auto simp: i2c_bit_send_address_def i2c_send_address_def plain_flags [OF assms(2)] msg_address_def Let_def)
qed

lemma data_served:
  assumes "rests w (if msg_flags m = 1 then Sending else Receiving) c" "plain_msg m" "bus_ops bus = ops"
    "chip_addressed ch (msg_address m) k c0 = (True, c)" "msg_served ch k m c0 = (r, m', c')"
  shows "\<exists>w' l. xfer_data bus m w = Some (r, m', w') \<and> rests w' l c' \<and> l \<noteq> Sending"
proof (cases "msg_flags m = 1")
  case True
  obtain bs where bs: "chip_reads ch (unat (msg_len m)) c = (bs, c')"
    "r = None" "m' = m\<lparr>msg_buf := bs @ drop (unat (msg_len m)) (msg_buf m)\<rparr>"
    using assms(4,5) True by (auto simp: msg_served_def Let_def split: prod.splits)
  have n: "0 < unat (msg_len m)" "unat (msg_len m) \<le> length (msg_buf m)"
    using assms(2) True by (auto simp: plain_msg_def unat_gt_0)
  show ?thesis
    using recv_loop_served [of w c "unat (msg_len m)" 0 "msg_buf m", OF _ n(1) _ bs(1)] assms(1,3) n(2)
    by (auto simp: xfer_data_def i2c_recv_bytes_def plain_flags [OF assms(2)] bs(2,3) if_P [OF True])
next
  case False
  obtain ok where ok: "chip_writes ch (take (unat (msg_len m)) (msg_buf m)) c = (ok, c')"
    "r = (if ok then None else Some (- RT_ERROR_CODE))" "m' = m"
    using assms(4,5) False by (auto simp: msg_served_def Let_def split: prod.splits bool.splits if_splits)
  have n: "0 + unat (msg_len m) \<le> length (msg_buf m)" using assms(2) by (auto simp: plain_msg_def)
  have "rests w Receiving c" "chip_writes ch (take (unat (msg_len m)) (drop 0 (msg_buf m))) c = (ok, c')"
    using assms(1) False ok(1) by simp_all
  from send_loop_served [OF this(1) n this(2)] obtain w' l where
    w': "send_loop ops False (msg_buf m) 0 (unat (msg_len m)) w = Some (if ok then int (0 + unat (msg_len m)) else 0, w')"
      "rests w' l c'" "l \<noteq> Sending" "\<not> ok \<longrightarrow> 0 < unat (msg_len m)" by blast
  have l: "(if ok then int (0 + unat (msg_len m)) else 0) < int (unat (msg_len m)) \<longleftrightarrow> \<not> ok"
    using w'(4) by (simp only: of_nat_0_less_iff add_0 less_irrefl split: if_split) simp
  have "xfer_data bus m w = Some (r, m', w')"
    unfolding xfer_data_def i2c_send_bytes_def if_not_P [OF False [folded plain_flags(1) [OF assms(2)]]] assms(3)
    using plain_flags(4) [OF assms(2)] ok(2,3) by (simp only: w'(1) l bind.bind_lunit prod.case) (simp add: RT_ERROR_CODE_def)
  then show ?thesis using w'(2,3) by blast
qed

lemma msg_done:
  assumes "if i = 0 then free w c else rests w l c \<and> l \<noteq> Sending" "plain_msg m" "bus_ops bus = ops"
    "0 \<le> sint (bus_retries bus)" "msg_served ch (nat (sint (bus_retries bus))) m c = (r, m', c')"
  shows "\<exists>w' l. xfer_msg bus i m w = Some (r, m', w') \<and> rests w' l c' \<and> l \<noteq> Sending"
proof -
  let ?k = "nat (sint (bus_retries bus))"
  obtain w1 where w1: "(if i \<noteq> 0 then i2c_restart (bus_ops bus) w else Some (i2c_start (bus_ops bus) w)) = Some w1"
    "rests w1 Addressed c"
    using assms(1,3) starts restarts by (cases "i = 0") (simp_all, blast)
  obtain ok c1 where a: "chip_addressed ch (msg_address m) ?k c = (ok, c1)" by fastforce
  obtain w2 where w2: "i2c_bit_send_address bus m w1 = Some (if ok then 0 else - RT_EIO_CODE, w2)"
    "rests w2 (if \<not> ok then Off else if msg_flags m = 1 then Sending else Receiving) c1"
    using send_address_served [OF w1(2) assms(2-4) a] by blast
  show ?thesis
  proof (cases ok)
    case True
    then have "chip_addressed ch (msg_address m) ?k c = (True, c1)" using a by simp
    from data_served [OF _ assms(2,3) this assms(5), of w2] show ?thesis using w1(1) w2 True
      by (simp add: xfer_msg_def plain_flags [OF assms(2)])
  next
    case False
    then show ?thesis
      using a w1(1) w2 assms(5) plain_flags [OF assms(2)] by (auto simp: xfer_msg_def msg_served_def RT_EIO_CODE_def)
  qed
qed

lemma msg_served_flags: "msg_served ch k m c = (r, m', c') \<Longrightarrow> msg_flags m' = msg_flags m"
  by (auto simp: msg_served_def Let_def split: prod.splits bool.splits if_splits)

lemma xfer_loop_served:
  assumes "if ds = [] then free w c else rests w l c \<and> l \<noteq> Sending" "list_all plain_msg (m # ms)" "bus_ops bus = ops"
    "0 \<le> sint (bus_retries bus)" "msgs_served ch (nat (sint (bus_retries bus))) (length ds) (m # ms) c = (r, ms', c')"
  shows "\<exists>w'. xfer_loop bus ds m ms w = Some (r, rev ds @ ms', w') \<and> free w' (chip_stop ch c')"
  using assms
proof (induction ms arbitrary: ds m w c l ms')
  case Nil
  obtain x m1 c1 where s: "msg_served ch (nat (sint (bus_retries bus))) m c = (x, m1, c1)" by (metis prod_cases3)
  obtain w1 l1 where w1: "xfer_msg bus (length ds) m w = Some (x, m1, w1)" "rests w1 l1 c1" "l1 \<noteq> Sending"
    using msg_done [of "length ds" w c l m bus x m1 c1] Nil.prems s by auto
  obtain w2 where w2: "i2c_stop ops w1 = Some w2" "free w2 (chip_stop ch c1)" using stops [OF w1(2,3)] by blast
  have "xfer_out bus m1 w1 = Some w2"
    using w2(1) Nil.prems(2,3) msg_served_flags [OF s] by (simp add: xfer_out_def plain_flags)
  then show ?case using Nil.prems(5) s w1(1) w2(2) by (cases x) auto
next
  case (Cons m2 ms)
  obtain x m1 c1 where s: "msg_served ch (nat (sint (bus_retries bus))) m c = (x, m1, c1)" by (metis prod_cases3)
  obtain w1 l1 where w1: "xfer_msg bus (length ds) m w = Some (x, m1, w1)" "rests w1 l1 c1" "l1 \<noteq> Sending"
    using msg_done [of "length ds" w c l m bus x m1 c1] Cons.prems s by auto
  show ?case
  proof (cases x)
    case (Some e)
    obtain w2 where w2: "i2c_stop ops w1 = Some w2" "free w2 (chip_stop ch c1)" using stops [OF w1(2,3)] by blast
    have "xfer_out bus m1 w1 = Some w2"
      using w2(1) Cons.prems(2,3) msg_served_flags [OF s] by (simp add: xfer_out_def plain_flags)
    then show ?thesis using Cons.prems(5) s w1(1) w2(2) Some by auto
  next
    case None
    obtain ms1 where ms1: "msgs_served ch (nat (sint (bus_retries bus))) (Suc (length ds)) (m2 # ms) c1 = (r, ms1, c')"
      "ms' = m1 # ms1"
      using Cons.prems(5) s None by (auto split: prod.splits simp del: msgs_served.simps(2) simp: msgs_served.simps(2) [of ch _ _ m])
    have "\<exists>w'. xfer_loop bus (m1 # ds) m2 ms w1 = Some (r, rev (m1 # ds) @ ms1, w') \<and> free w' (chip_stop ch c')"
      using Cons.IH [of "m1 # ds" w1 c1 l1 m2 ms1] w1(2,3) Cons.prems(2-4) ms1(1) by simp
    then show ?thesis using w1(1) None ms1(2) by simp
  qed
qed

lemma bit_xfer_served:
  assumes "free w c" "list_all plain_msg ms" "ms \<noteq> []" "bus_ops bus = ops" "0 \<le> sint (bus_retries bus)"
    "msgs_served ch (nat (sint (bus_retries bus))) 0 ms c = (r, ms', c')"
  shows "\<exists>w'. i2c_bit_xfer bus ms w = Some (r, ms', w') \<and> free w' (chip_stop ch c')"
  using xfer_loop_served [of "[]" w c _ "hd ms" "tl ms"] assms by (cases ms) (simp_all add: i2c_bit_xfer_def del: msgs_served.simps)

end

end
