(* ===== verification/I2cWires.thy ===== *)
theory I2cWires
  imports I2cBus
begin

text \<open>
  The pins of the bit-banged bus (\<open>gd32_drivers/drv_soft_i2c.c\<close>) with a chip on the other end of the two
  lines: the chip follows the I2C protocol edge by edge, may hold the clock low, and hands bytes to an
  arbitrary state machine. The theory interprets the byte-level contract of \<open>I2cBus\<close> on these pins.
\<close>

section \<open>Pins and chip\<close>

text \<open>
  The phases of a receiver: waiting for a start condition, taking the bits of an address or data
  byte, holding the acknowledge bit, giving the bits of a byte, waiting for the master's acknowledge bit.
\<close>

datatype i2c_phase = Quiet | Getting bool "bool list" | Acking bool | Giving "bool list" | Awaiting "bool option"

definition byte_of :: "u8 \<Rightarrow> bool list \<Rightarrow> u8" where
  "byte_of = foldl (\<lambda>v b. if b then push_bit 1 v OR 1 else push_bit 1 v)"

definition byte_bits :: "nat \<Rightarrow> u8 \<Rightarrow> bool list" where
  "byte_bits n b = map (bit b) (rev [0..<n])"

definition chip_load :: "'c i2c_chip \<Rightarrow> 'c \<Rightarrow> i2c_phase \<times> bool \<times> 'c" where
  "chip_load ch c = (case chip_read ch c of (b, c) \<Rightarrow> (Giving (byte_bits 7 b), \<not> bit b 7, c))"

text \<open>The clock rises with the given data level: a bit is taken. It falls: the chip may change the data line.\<close>

fun clock_rises :: "i2c_phase \<Rightarrow> bool \<Rightarrow> i2c_phase" where
  "clock_rises (Getting f bs) d = Getting f (bs @ [d])"
| "clock_rises (Awaiting a) d = Awaiting (Some d)"
| "clock_rises ph d = ph"

fun clock_falls :: "'c i2c_chip \<Rightarrow> i2c_phase \<Rightarrow> bool \<Rightarrow> 'c \<Rightarrow> i2c_phase \<times> bool \<times> 'c" where
  "clock_falls ch (Getting f bs) p c =
    (if length bs < 8 then (Getting f bs, p, c)
     else if f then (case chip_address ch (byte_of 0 bs) c of
                       None \<Rightarrow> (Quiet, p, c) | Some c' \<Rightarrow> (Acking (bit (byte_of 0 bs) 0), True, c'))
     else (case chip_write ch (byte_of 0 bs) c of None \<Rightarrow> (Quiet, p, c) | Some c' \<Rightarrow> (Acking False, True, c')))"
| "clock_falls ch (Acking rw) p c = (if rw then chip_load ch c else (Getting False [], False, c))"
| "clock_falls ch (Giving []) p c = (Awaiting None, False, c)"
| "clock_falls ch (Giving (x # xs)) p c = (Giving xs, \<not> x, c)"
| "clock_falls ch (Awaiting a) p c = (if a = Some False then chip_load ch c else (Quiet, p, c))"
| "clock_falls ch Quiet p c = (Quiet, p, c)"

text \<open>
  The world of the pins: the levels the master puts out (\<open>True\<close> is released), microseconds, the levels the
  chip saw last, its phase, whether it pulls the data line, and how much longer it holds the clock
  after a falling edge.
\<close>

record 'c wires =
  sda_out :: bool
  scl_out :: bool
  now_us :: nat
  seen_sda :: bool
  seen_scl :: bool
  phase :: i2c_phase
  pulls_sda :: bool
  held_us :: nat
  stretch_us :: nat
  chip :: 'c

definition sda_line :: "'c wires \<Rightarrow> bool" where "sda_line w \<longleftrightarrow> sda_out w \<and> \<not> pulls_sda w"
definition scl_line :: "'c wires \<Rightarrow> bool" where "scl_line w \<longleftrightarrow> scl_out w \<and> held_us w = 0"

text \<open>The chip looks at the lines: a change of the data line while the clock is high is a start or a stop.\<close>

definition chip_sees :: "'c i2c_chip \<Rightarrow> 'c wires \<Rightarrow> 'c wires" where
  "chip_sees ch w =
    (let w' =
       (if seen_scl w \<and> scl_line w then
          (if seen_sda w \<and> \<not> sda_line w then w\<lparr>phase := Getting True [], pulls_sda := False\<rparr>
           else if \<not> seen_sda w \<and> sda_line w then w\<lparr>phase := Quiet, pulls_sda := False, chip := chip_stop ch (chip w)\<rparr>
           else w)
        else if scl_line w then w\<lparr>phase := clock_rises (phase w) (sda_line w)\<rparr>
        else if seen_scl w then
          (case clock_falls ch (phase w) (pulls_sda w) (chip w) of
             (ph, p, c) \<Rightarrow> w\<lparr>phase := ph, pulls_sda := p, chip := c, held_us := stretch_us w\<rparr>)
        else w)
     in w'\<lparr>seen_sda := sda_line w', seen_scl := scl_line w'\<rparr>)"

definition gd32_set_sda :: "'c i2c_chip \<Rightarrow> int \<Rightarrow> 'c wires \<Rightarrow> 'c wires" where
  "gd32_set_sda ch state w = chip_sees ch (w\<lparr>sda_out := state \<noteq> 0\<rparr>)"

definition gd32_set_scl :: "'c i2c_chip \<Rightarrow> int \<Rightarrow> 'c wires \<Rightarrow> 'c wires" where
  "gd32_set_scl ch state w = chip_sees ch (w\<lparr>scl_out := state \<noteq> 0\<rparr>)"

definition gd32_get_sda :: "'c wires \<Rightarrow> int" where "gd32_get_sda w = of_bool (sda_line w)"
definition gd32_get_scl :: "'c wires \<Rightarrow> int" where "gd32_get_scl w = of_bool (scl_line w)"

definition gd32_udelay :: "'c i2c_chip \<Rightarrow> u32 \<Rightarrow> 'c wires \<Rightarrow> 'c wires" where
  "gd32_udelay ch us w = chip_sees ch (w\<lparr>now_us := now_us w + unat us, held_us := held_us w - unat us\<rparr>)"

text \<open>The system tick counts milliseconds.\<close>

definition gd32_bit_ops_default :: "'c i2c_chip \<Rightarrow> 'c wires rt_i2c_bit_ops" where
  "gd32_bit_ops_default ch =
    \<lparr>set_sda = gd32_set_sda ch, set_scl = gd32_set_scl ch, get_sda = gd32_get_sda, get_scl = Some gd32_get_scl,
     udelay = gd32_udelay ch, rt_tick_get = (\<lambda>w. of_nat (now_us w div 1000)), delay_us = 1, scl_timeout = 100\<rparr>"

section \<open>The lines in the hand of the master\<close>

definition low :: "'c wires \<Rightarrow> bool \<Rightarrow> bool \<Rightarrow> i2c_phase \<Rightarrow> 'c \<Rightarrow> bool" where
  "low w d p ph c \<longleftrightarrow> \<not> scl_out w \<and> \<not> seen_scl w \<and> sda_out w = d \<and> pulls_sda w = p \<and> seen_sda w = (d \<and> \<not> p) \<and>
     held_us w \<le> 100000 \<and> stretch_us w \<le> 100000 \<and> phase w = ph \<and> chip w = c"

definition high :: "'c wires \<Rightarrow> bool \<Rightarrow> bool \<Rightarrow> i2c_phase \<Rightarrow> 'c \<Rightarrow> bool" where
  "high w d p ph c \<longleftrightarrow> scl_out w \<and> seen_scl w \<and> sda_out w = d \<and> pulls_sda w = p \<and> seen_sda w = (d \<and> \<not> p) \<and>
     held_us w = 0 \<and> stretch_us w \<le> 100000 \<and> phase w = ph \<and> chip w = c"

lemmas line_defs = chip_sees_def sda_line_def scl_line_def Let_def gd32_set_sda_def gd32_set_scl_def
  gd32_get_sda_def gd32_get_scl_def gd32_udelay_def

lemma ops_simps [simp]:
  "set_sda (gd32_bit_ops_default ch) = gd32_set_sda ch" "set_scl (gd32_bit_ops_default ch) = gd32_set_scl ch"
  "get_sda (gd32_bit_ops_default ch) = gd32_get_sda" "get_scl (gd32_bit_ops_default ch) = Some gd32_get_scl"
  "udelay (gd32_bit_ops_default ch) = gd32_udelay ch" "scl_timeout (gd32_bit_ops_default ch) = 100"
  "i2c_delay (gd32_bit_ops_default ch) = gd32_udelay ch 1" "i2c_delay2 (gd32_bit_ops_default ch) = gd32_udelay ch 1"
  "rt_tick_get (gd32_bit_ops_default ch) w = of_nat (now_us w div 1000)"
  by (auto simp: gd32_bit_ops_default_def i2c_delay_def i2c_delay2_def fun_eq_iff)

lemma low_sda: "low w d p ph c \<Longrightarrow> low (gd32_set_sda ch v w) (v \<noteq> 0) p ph c"
  by (simp add: low_def line_defs)

lemma low_scl: "low w d p ph c \<Longrightarrow> low (gd32_set_scl ch 0 w) d p ph c"
  by (simp add: low_def line_defs)

lemma low_delay: "low w d p ph c \<Longrightarrow> low (gd32_udelay ch us w) d p ph c"
  by (auto simp: low_def line_defs)

lemma high_delay: "high w d p ph c \<Longrightarrow> high (gd32_udelay ch us w) d p ph c"
  by (auto simp: high_def line_defs)

lemma high_falls:
  "high w d p ph c \<Longrightarrow> clock_falls ch ph p c = (ph', p', c') \<Longrightarrow> low (gd32_set_scl ch 0 w) d p' ph' c'"
  by (simp add: high_def low_def line_defs)

lemma high_start: "high w True False ph c \<Longrightarrow> high (gd32_set_sda ch 0 w) False False (Getting True []) c"
  by (simp add: high_def line_defs)

lemma high_stop: "high w False False ph c \<Longrightarrow> high (gd32_set_sda ch 1 w) True False Quiet (chip_stop ch c)"
  by (simp add: high_def line_defs)

lemma get_sda_line: "high w d p ph c \<Longrightarrow> gd32_get_sda w = of_bool (d \<and> \<not> p)"
  by (simp add: high_def line_defs)

text \<open>The master has released the clock and the chip still holds it.\<close>

definition waiting :: "'c wires \<Rightarrow> bool \<Rightarrow> bool \<Rightarrow> i2c_phase \<Rightarrow> 'c \<Rightarrow> bool" where
  "waiting w d p ph c \<longleftrightarrow> scl_out w \<and> \<not> seen_scl w \<and> sda_out w = d \<and> pulls_sda w = p \<and> seen_sda w = (d \<and> \<not> p) \<and>
     0 < held_us w \<and> stretch_us w \<le> 100000 \<and> phase w = ph \<and> chip w = c"

lemma low_release:
  "low w d p ph c \<Longrightarrow>
    (let w' = gd32_set_scl ch 1 w in
      high w' d p (clock_rises ph (d \<and> \<not> p)) c \<or> waiting w' d p ph c \<and> held_us w' \<le> 100000)"
  by (cases "held_us w = 0") (auto simp: low_def high_def waiting_def line_defs)

lemma waiting_delay:
  "waiting w d p ph c \<Longrightarrow>
    (let w' = gd32_udelay ch 1 w in
      if held_us w = 1 then high w' d p (clock_rises ph (d \<and> \<not> p)) c
      else waiting w' d p ph c \<and> held_us w' = held_us w - 1 \<and> now_us w' = now_us w + 1)"
  by (auto simp: high_def waiting_def line_defs)

lemma ticks_apart:
  assumes "t0 \<le> t" "t < t0 + 100000"
  shows "\<not> (100 :: u32) < of_nat (t div 1000) - of_nat (t0 div 1000)"
proof -
  have "t0 div 1000 \<le> t div 1000" "t div 1000 - t0 div 1000 \<le> 100" using assms by (simp_all add: div_le_mono)
  moreover from this(1) have "of_nat (t div 1000) - of_nat (t0 div 1000) = (of_nat (t div 1000 - t0 div 1000) :: u32)"
    by (simp add: of_nat_diff)
  ultimately have "of_nat (t div 1000) - of_nat (t0 div 1000) = (of_nat k :: u32)" "k \<le> 100"
    if "k = t div 1000 - t0 div 1000" for k using that by simp_all
  then show ?thesis by (simp add: word_less_nat_alt unat_of_nat)
qed

lemma scl_wait_ends:
  assumes "waiting w d p ph c" "t0 \<le> now_us w" "now_us w + held_us w \<le> t0 + 100000"
  shows "\<exists>w'. scl_wait (gd32_bit_ops_default ch) gd32_get_scl (of_nat (t0 div 1000)) w = Some (0, w') \<and>
    high w' d p (clock_rises ph (d \<and> \<not> p)) c"
  using assms
proof (induction "held_us w" arbitrary: w)
  case 0
  then show ?case by (simp add: waiting_def)
next
  case (Suc h)
  let ?ops = "gd32_bit_ops_default ch" and ?t = "of_nat (t0 div 1000) :: u32"
  have g: "gd32_get_scl w = 0" using Suc.prems(1) Suc.hyps(2) by (simp add: waiting_def line_defs)
  have nt: "\<not> 100 < of_nat (now_us w div 1000) - ?t" using Suc.prems Suc.hyps(2) by (intro ticks_apart) simp_all
  have step: "scl_wait ?ops gd32_get_scl ?t w = scl_wait ?ops gd32_get_scl ?t (gd32_udelay ch 1 w)"
    using g nt by (subst scl_wait.simps) simp
  show ?case
  proof (cases "held_us w = 1")
    case True
    then have "high (gd32_udelay ch 1 w) d p (clock_rises ph (d \<and> \<not> p)) c"
      using waiting_delay [OF Suc.prems(1), of ch] by simp
    moreover from this have "gd32_get_scl (gd32_udelay ch 1 w) \<noteq> 0" by (simp add: high_def gd32_get_scl_def scl_line_def)
    ultimately show ?thesis unfolding step by (subst scl_wait.simps) simp
  next
    case False
    then show ?thesis
      using waiting_delay [OF Suc.prems(1), of ch] Suc.hyps Suc.prems by (auto simp: step Let_def intro!: Suc.hyps(1))
  qed
qed

lemma SCL_H_up:
  assumes "low w d p ph c"
  shows "\<exists>w'. SCL_H (gd32_bit_ops_default ch) w = Some (0, w') \<and> high w' d p (clock_rises ph (d \<and> \<not> p)) c"
proof -
  let ?w = "gd32_set_scl ch 1 w"
  have "\<exists>w'. scl_wait (gd32_bit_ops_default ch) gd32_get_scl (of_nat (now_us ?w div 1000)) ?w = Some (0, w') \<and>
      high w' d p (clock_rises ph (d \<and> \<not> p)) c"
    using low_release [OF assms, of ch] unfolding Let_def
  proof
    assume h: "high ?w d p (clock_rises ph (d \<and> \<not> p)) c"
    then have "gd32_get_scl ?w \<noteq> 0" by (simp add: high_def gd32_get_scl_def scl_line_def)
    with h show ?thesis by (subst scl_wait.simps) simp
  qed (auto intro: scl_wait_ends)
  then show ?thesis by (auto simp: SCL_H_def Let_def intro: high_delay)
qed

section \<open>Bytes on the pins\<close>

definition wires_rest :: "'c i2c_chip \<Rightarrow> 'c wires \<Rightarrow> i2c_link \<Rightarrow> 'c \<Rightarrow> bool" where
  "wires_rest ch w l c \<longleftrightarrow> (\<exists>d p ph c'. low w d p ph c' \<and>
     (case l of Off \<Rightarrow> ph = Quiet \<and> \<not> p \<and> c' = c
      | Addressed \<Rightarrow> ph = Getting True [] \<and> \<not> p \<and> c' = c
      | Receiving \<Rightarrow> ph = Getting False [] \<and> \<not> p \<and> c' = c
      | Sending \<Rightarrow> (ph, p, c') = chip_load ch c))"

definition wires_free :: "'c wires \<Rightarrow> 'c \<Rightarrow> bool" where
  "wires_free w c \<longleftrightarrow> high w True False Quiet c"

lemma byte_bits_Suc: "byte_bits (Suc n) b = bit b n # byte_bits n b"
  by (simp add: byte_bits_def)

lemma drop_bit_Suc_shift:
  "(if bit b n then push_bit 1 (drop_bit (Suc n) b) OR 1 else push_bit 1 (drop_bit (Suc n) b)) = drop_bit n (b :: u8)"
proof (rule bit_word_eqI)
  fix i :: nat
  assume "i < LENGTH(8)"
  then show "bit (if bit b n then push_bit 1 (drop_bit (Suc n) b) OR 1 else push_bit 1 (drop_bit (Suc n) b)) i =
      bit (drop_bit n b) i"
    by (cases i) (auto simp: bit_or_iff bit_push_bit_iff bit_drop_bit_eq bit_1_iff simp del: push_bit_Suc
        push_bit_of_Suc_0 push_bit_numeral)
qed

lemma byte_of_shifted: "byte_of (drop_bit n b) (byte_bits n b) = b"
proof (induction n)
  case (Suc n)
  then show ?case unfolding byte_bits_Suc byte_of_def foldl_Cons drop_bit_Suc_shift by simp
qed (simp add: byte_bits_def byte_of_def)

lemma byte_of_bits: "byte_of 0 (byte_bits 8 b) = b"
proof -
  have "drop_bit 8 b = 0" by (rule bit_word_eqI) (simp add: bit_simps bit_imp_le_length)
  then show ?thesis using byte_of_shifted [of 8 b] by simp
qed

lemma sent_bit: "uint (drop_bit n (data :: u8) AND 1) \<noteq> 0 \<longleftrightarrow> bit data n"
proof -
  have "drop_bit n data AND 1 = of_bool (bit data n)" by (rule bit_word_eqI) (auto simp: bit_simps)
  then show ?thesis by simp
qed

text \<open>A receiver that takes \<open>n\<close> more bits, or none at all.\<close>

fun takes_bits :: "i2c_phase \<Rightarrow> nat \<Rightarrow> bool" where
  "takes_bits (Getting f bs) n \<longleftrightarrow> length bs + n \<le> 8"
| "takes_bits Quiet n \<longleftrightarrow> True"
| "takes_bits ph n \<longleftrightarrow> False"

lemma takes_rise: "takes_bits ph (Suc n) \<Longrightarrow> takes_bits (clock_rises ph d) n"
  by (cases "(ph, n)" rule: takes_bits.cases) auto

lemma takes_fall: "takes_bits ph (Suc n) \<Longrightarrow> clock_falls ch ph False c = (ph, False, c)"
  by (cases "(ph, n)" rule: takes_bits.cases) auto

text \<open>One bit: the data line set while the clock is low, then the clock released.\<close>

lemma bit_sent:
  assumes "low (gd32_set_scl ch 0 w) d False ph c"
  shows "\<exists>w'. SCL_H (gd32_bit_ops_default ch)
      (gd32_udelay ch 1 (gd32_set_sda ch (uint (drop_bit n (data :: u8) AND 1)) (gd32_set_scl ch 0 w))) = Some (0, w') \<and>
    high w' (bit data n) False (clock_rises ph (bit data n)) c"
  using SCL_H_up [OF low_delay [OF low_sda [OF assms, of ch "uint (drop_bit n data AND 1)"], of ch 1], of ch]
  unfolding sent_bit not_False_eq_True simp_thms .

lemma write_bits_taken:
  assumes "low (gd32_set_scl ch 0 w) d False ph c" "takes_bits ph (Suc n)"
  shows "\<exists>w' d'. write_bits (gd32_bit_ops_default ch) data (Suc n) w = Some (0, w') \<and>
    high w' d' False (foldl clock_rises ph (byte_bits (Suc n) data)) c"
  using assms
proof (induction n arbitrary: w d ph)
  case (Suc n)
  let ?b = "bit data (Suc n)"
  obtain w1 where w1: "SCL_H (gd32_bit_ops_default ch)
      (gd32_udelay ch 1 (gd32_set_sda ch (uint (drop_bit (Suc n) data AND 1)) (gd32_set_scl ch 0 w))) = Some (0, w1)"
    "high w1 ?b False (clock_rises ph ?b) c"
    using bit_sent [OF Suc.prems(1)] by blast
  have t: "takes_bits (clock_rises ph ?b) (Suc n)" by (rule takes_rise [OF Suc.prems(2)])
  have "low (gd32_set_scl ch 0 w1) ?b False (clock_rises ph ?b) c"
    by (rule high_falls [OF w1(2) takes_fall [OF t]])
  from Suc.IH [OF this t] obtain w2 d2 where
    "write_bits (gd32_bit_ops_default ch) data (Suc n) w1 = Some (0, w2)"
    "high w2 d2 False (foldl clock_rises (clock_rises ph ?b) (byte_bits (Suc n) data)) c" by blast
  then show ?case
    using w1(1) by (subst write_bits.simps(2), subst byte_bits_Suc) (auto simp del: write_bits.simps)
next
  case 0
  show ?case using bit_sent [OF 0(1), of 0 data] by (auto simp: byte_bits_def)
qed

lemma low_next:
  assumes "high w d p ph c" "clock_falls ch ph p c = (ph', p', c')"
  shows "low (gd32_udelay ch 1 (gd32_set_scl ch 0 w)) d p' ph' c'"
  by (rule low_delay [OF high_falls [OF assms]])

lemma rest_low:
  assumes "wires_rest ch w l c" "l \<noteq> Sending"
  obtains d where "low w d False (case l of Off \<Rightarrow> Quiet | Addressed \<Rightarrow> Getting True [] | Receiving \<Rightarrow> Getting False []) c"
  using assms by (cases l) (auto simp: wires_rest_def)

lemma low_rest:
  "low w d False Quiet c \<Longrightarrow> wires_rest ch w Off c"
  "low w d False (Getting True []) c \<Longrightarrow> wires_rest ch w Addressed c"
  "low w d False (Getting False []) c \<Longrightarrow> wires_rest ch w Receiving c"
  "low w d p ph c' \<Longrightarrow> chip_load ch c = (ph, p, c') \<Longrightarrow> wires_rest ch w Sending c"
  by (auto simp: wires_rest_def)

text \<open>The ninth clock of a byte from the master: the level the chip puts out is its answer.\<close>

lemma waitack_reads:
  assumes "low w d p ph c"
  shows "\<exists>w1. i2c_waitack (gd32_bit_ops_default ch) w = Some (of_bool p, gd32_set_scl ch 0 w1) \<and>
    high w1 True p (clock_rises ph (\<not> p)) c"
proof -
  have "low (gd32_udelay ch 1 (gd32_set_sda ch 1 w)) True p ph c"
    using low_delay [OF low_sda [OF assms, of ch 1], of ch 1] by simp
  from SCL_H_up [OF this, of ch] obtain w1 where
    w1: "SCL_H (gd32_bit_ops_default ch) (gd32_udelay ch 1 (gd32_set_sda ch 1 w)) = Some (0, w1)"
    "high w1 True p (clock_rises ph (\<not> p)) c" by auto
  have "i2c_waitack (gd32_bit_ops_default ch) w = Some (of_bool p, gd32_set_scl ch 0 w1)"
    using get_sda_line [OF w1(2)] by (simp add: i2c_waitack_def w1(1))
  then show ?thesis using w1(2) by blast
qed

lemma wires_sends:
  assumes "wires_rest ch w l c" "l \<noteq> Sending" "byte_in ch b l c = (a, l', c')"
  shows "\<exists>w'. i2c_writeb (gd32_bit_ops_default ch) b w = Some (of_bool a, w') \<and> wires_rest ch w' l' c'"
proof -
  let ?ops = "gd32_bit_ops_default ch"
  define ph where "ph = (case l of Off \<Rightarrow> Quiet | Addressed \<Rightarrow> Getting True [] | Receiving \<Rightarrow> Getting False [])"
  obtain d where d: "low w d False ph c" using rest_low [OF assms(1,2)] unfolding ph_def .
  have t: "takes_bits ph (Suc 7)" using assms(2) by (cases l) (simp_all add: ph_def)
  obtain w1 d1 where w1: "write_bits ?ops b 8 w = Some (0, w1)"
    "high w1 d1 False (foldl clock_rises ph (byte_bits 8 b)) c"
    using write_bits_taken [OF low_scl [OF d, of ch] t, where data = b] by auto
  have g: "foldl clock_rises (Getting f bs) ds = Getting f (bs @ ds)" for f bs ds
    by (induction ds arbitrary: bs) simp_all
  have q: "foldl clock_rises Quiet ds = Quiet" for ds by (induction ds) simp_all
  have len: "length (byte_bits 8 b) = 8" by (simp add: byte_bits_def)
  obtain ph2 p2 c2 where f2: "clock_falls ch (foldl clock_rises ph (byte_bits 8 b)) False c = (ph2, p2, c2)"
    by (metis prod_cases3)
  obtain w2 where w2: "i2c_waitack ?ops (gd32_udelay ch 1 (gd32_set_scl ch 0 w1)) = Some (of_bool p2, gd32_set_scl ch 0 w2)"
    "high w2 True p2 (clock_rises ph2 (\<not> p2)) c2"
    using waitack_reads [OF low_next [OF w1(2) f2]] by blast
  have r: "i2c_writeb ?ops b w = Some (of_bool p2, gd32_set_scl ch 0 w2)"
    by (simp add: i2c_writeb_def w1(1) w2(1))
  obtain ph3 p3 c3 where f3: "clock_falls ch (clock_rises ph2 (\<not> p2)) p2 c2 = (ph3, p3, c3)"
    by (metis prod_cases3)
  have "a = p2 \<and> wires_rest ch (gd32_set_scl ch 0 w2) l' c'"
    using high_falls [OF w2(2) f3] f2 f3 assms(2,3) len
    by (cases l) (auto simp: ph_def g q byte_of_bits low_rest split: option.splits if_splits)
  then show ?thesis using r by blast
qed

text \<open>Reading: the chip gives its bits one by one, or nobody drives the line.\<close>

lemma bit_taken:
  assumes "low w True p ph c" "clock_rises ph (\<not> p) = ph" "clock_falls ch ph p c = (ph', p', c')"
  shows "\<exists>w1. SCL_H (gd32_bit_ops_default ch) w = Some (0, w1) \<and> gd32_get_sda w1 = of_bool (\<not> p) \<and>
    low (gd32_udelay ch 1 (gd32_set_scl ch 0 w1)) True p' ph' c'"
proof -
  obtain w1 where w1: "SCL_H (gd32_bit_ops_default ch) w = Some (0, w1)" "high w1 True p ph c"
    using SCL_H_up [OF assms(1), of ch] assms(2) by auto
  show ?thesis using w1 get_sda_line [OF w1(2)] low_next [OF w1(2) assms(3)] by auto
qed

lemma read_bits_step:
  assumes "SCL_H (gd32_bit_ops_default ch) w = Some (0, w1)" "gd32_get_sda w1 = of_bool x"
  shows "read_bits (gd32_bit_ops_default ch) (Suc n) data w =
    read_bits (gd32_bit_ops_default ch) n (byte_of data [x]) (gd32_udelay ch 1 (gd32_set_scl ch 0 w1))"
  using assms by (simp add: byte_of_def Let_def)

lemma byte_of_Cons: "byte_of data (x # xs) = byte_of (byte_of data [x]) xs"
  by (simp add: byte_of_def)

lemma read_bits_given:
  assumes "low w True (\<not> x) (Giving xs) c" "length xs = n"
  shows "\<exists>w'. read_bits (gd32_bit_ops_default ch) (Suc n) data w = Some (uint (byte_of data (x # xs)), w') \<and>
    low w' True False (Awaiting None) c"
  using assms
proof (induction xs arbitrary: w x n data)
  case Nil
  from bit_taken [OF Nil(1), of ch] obtain w1 where
    w1: "SCL_H (gd32_bit_ops_default ch) w = Some (0, w1)" "gd32_get_sda w1 = of_bool x"
      "low (gd32_udelay ch 1 (gd32_set_scl ch 0 w1)) True False (Awaiting None) c" by auto
  show ?case using w1(3) Nil(2) unfolding read_bits_step [OF w1(1,2)] by simp
next
  case (Cons y ys)
  obtain m where n: "n = Suc m" "length ys = m" using Cons.prems(2) by auto
  from bit_taken [OF Cons.prems(1), of ch] obtain w1 where
    w1: "SCL_H (gd32_bit_ops_default ch) w = Some (0, w1)" "gd32_get_sda w1 = of_bool x"
      "low (gd32_udelay ch 1 (gd32_set_scl ch 0 w1)) True (\<not> y) (Giving ys) c" by auto
  from Cons.IH [OF w1(3) n(2)] show ?case
    unfolding n(1) read_bits_step [OF w1(1,2)] by (subst byte_of_Cons)
qed

lemma read_bits_idle:
  assumes "low w True False Quiet c"
  shows "\<exists>w'. read_bits (gd32_bit_ops_default ch) n data w = Some (uint (byte_of data (replicate n True)), w') \<and>
    low w' True False Quiet c"
  using assms
proof (induction n arbitrary: w data)
  case (Suc n)
  from bit_taken [OF Suc.prems, of ch] obtain w1 where
    w1: "SCL_H (gd32_bit_ops_default ch) w = Some (0, w1)" "gd32_get_sda w1 = of_bool True"
      "low (gd32_udelay ch 1 (gd32_set_scl ch 0 w1)) True False Quiet c" by auto
  from Suc.IH [OF w1(3)] show ?case
    unfolding replicate_Suc read_bits_step [OF w1(1,2)] by (subst byte_of_Cons)
qed (simp add: byte_of_def)

text \<open>The master's answer to a byte.\<close>

lemma ack_given:
  assumes "low w True False ph c" "clock_falls ch (clock_rises ph (k = 0)) False c = (ph', p', c')"
  shows "\<exists>w'. i2c_send_ack_or_nack (gd32_bit_ops_default ch) k w = Some (0, w') \<and> low w' (k = 0) p' ph' c'"
proof -
  have "low (gd32_udelay ch 1 (if k \<noteq> 0 then gd32_set_sda ch 0 w else w)) (k = 0) False ph c"
    using assms(1) low_sda [OF assms(1), of ch 0] by (auto intro: low_delay)
  from SCL_H_up [OF this, of ch] obtain w1 where
    w1: "SCL_H (gd32_bit_ops_default ch) (gd32_udelay ch 1 (if k \<noteq> 0 then gd32_set_sda ch 0 w else w)) = Some (0, w1)"
    "high w1 (k = 0) False (clock_rises ph (k = 0)) c" by auto
  show ?thesis
    using high_falls [OF w1(2) assms(2)] w1(1) by (auto simp: i2c_send_ack_or_nack_def Let_def)
qed

lemma byte_of_idle: "byte_of 0 (replicate 8 True) = 0xFF"
  by code_simp

lemma readb_sending:
  assumes "wires_rest ch w Sending c" "chip_read ch c = (b, c')"
  shows "\<exists>w1. i2c_readb (gd32_bit_ops_default ch) w = Some (uint b, w1) \<and> low w1 True False (Awaiting None) c'"
proof -
  obtain d where d: "low w d (\<not> bit b 7) (Giving (byte_bits 7 b)) c'"
    using assms by (auto simp: wires_rest_def chip_load_def)
  have l: "low (gd32_udelay ch 1 (gd32_set_sda ch 1 w)) True (\<not> bit b 7) (Giving (byte_bits 7 b)) c'"
    using low_delay [OF low_sda [OF d, of ch 1], of ch 1] by simp
  have n: "length (byte_bits 7 b) = 7" by (simp add: byte_bits_def)
  have e: "bit b 7 # byte_bits 7 b = byte_bits 8 b" using byte_bits_Suc [of 7 b] by simp
  show ?thesis
    using read_bits_given [OF l n, where ch = ch and data = 0] unfolding e byte_of_bits i2c_readb_def ops_simps by simp
qed

lemma readb_off:
  assumes "wires_rest ch w Off c"
  shows "\<exists>w1. i2c_readb (gd32_bit_ops_default ch) w = Some (uint (0xFF :: u8), w1) \<and> low w1 True False Quiet c"
proof -
  obtain d where d: "low w d False Quiet c" using assms by (auto simp: wires_rest_def)
  have l: "low (gd32_udelay ch 1 (gd32_set_sda ch 1 w)) True False Quiet c"
    using low_delay [OF low_sda [OF d, of ch 1], of ch 1] by simp
  show ?thesis
    using read_bits_idle [OF l, where n = 8 and data = 0] unfolding byte_of_idle i2c_readb_def ops_simps .
qed

lemma wires_receives:
  assumes "wires_rest ch w l c" "l = Sending \<or> l = Off" "byte_out ch l c = (b, c')"
  shows "\<exists>w1 w2. i2c_readb (gd32_bit_ops_default ch) w = Some (uint b, w1) \<and>
    i2c_send_ack_or_nack (gd32_bit_ops_default ch) k w1 = Some (0, w2) \<and> wires_rest ch w2 (if k = 0 then Off else l) c'"
proof -
  let ?ops = "gd32_bit_ops_default ch"
  define ph where "ph = (if l = Sending then Awaiting None else Quiet)"
  have "\<exists>w1. i2c_readb ?ops w = Some (uint b, w1) \<and> low w1 True False ph c'"
    using assms readb_sending [of ch w c b c'] readb_off [of ch w c] by (auto simp: byte_out_def ph_def)
  then obtain w1 where w1: "i2c_readb ?ops w = Some (uint b, w1)" "low w1 True False ph c'" by blast
  obtain ph' p' c'' where f: "clock_falls ch (clock_rises ph (k = 0)) False c' = (ph', p', c'')" by (metis prod_cases3)
  obtain w2 where w2: "i2c_send_ack_or_nack ?ops k w1 = Some (0, w2)" "low w2 (k = 0) p' ph' c''"
    using ack_given [OF w1(2) f] by blast
  have "wires_rest ch w2 (if k = 0 then Off else l) c'"
    using w2(2) f assms(2) unfolding ph_def by (auto split: if_splits intro: low_rest)
  then show ?thesis using w1(1) w2(1) by blast
qed

lemma wires_starts: "wires_free w c \<Longrightarrow> wires_rest ch (i2c_start (gd32_bit_ops_default ch) w) Addressed c"
  unfolding wires_free_def i2c_start_def ops_simps
  by (rule low_rest(2), rule high_falls [OF high_delay [OF high_start]]) auto

lemma wires_pauses: "wires_free w c \<Longrightarrow> wires_free (i2c_delay2 (gd32_bit_ops_default ch) w) c"
  unfolding wires_free_def ops_simps by (rule high_delay)

lemma wires_restarts:
  assumes "wires_rest ch w l c" "l \<noteq> Sending"
  shows "\<exists>w'. i2c_restart (gd32_bit_ops_default ch) w = Some w' \<and> wires_rest ch w' Addressed c"
proof -
  obtain d ph where "low w d False ph c" using rest_low [OF assms] by metis
  from low_sda [OF this, of ch 1] have "low (gd32_set_sda ch 1 w) True False ph c" by simp
  from SCL_H_up [OF this, of ch] obtain w1 where
    w1: "SCL_H (gd32_bit_ops_default ch) (gd32_set_sda ch 1 w) = Some (0, w1)" "high w1 True False (clock_rises ph True) c"
    by auto
  have "wires_rest ch (gd32_set_scl ch 0 (gd32_udelay ch 1 (gd32_set_sda ch 0 (gd32_udelay ch 1 w1)))) Addressed c"
    by (rule low_rest(2), rule high_falls [OF high_delay [OF high_start [OF high_delay [OF w1(2)]]]]) simp
  then show ?thesis by (simp add: i2c_restart_def w1(1))
qed

lemma wires_stops:
  assumes "wires_rest ch w l c" "l \<noteq> Sending"
  shows "\<exists>w'. i2c_stop (gd32_bit_ops_default ch) w = Some w' \<and> wires_free w' (chip_stop ch c)"
proof -
  obtain d ph where "low w d False ph c" using rest_low [OF assms] by metis
  from low_delay [OF low_sda [OF this, of ch 0], of ch 1]
  have "low (gd32_udelay ch 1 (gd32_set_sda ch 0 w)) False False ph c" by simp
  from SCL_H_up [OF this, of ch] obtain w1 where
    w1: "SCL_H (gd32_bit_ops_default ch) (gd32_udelay ch 1 (gd32_set_sda ch 0 w)) = Some (0, w1)"
      "high w1 False False (clock_rises ph False) c" by auto
  have "wires_free (gd32_udelay ch 1 (gd32_set_sda ch 1 (gd32_udelay ch 1 w1))) (chip_stop ch c)"
    unfolding wires_free_def by (rule high_delay [OF high_stop [OF high_delay [OF w1(2)]]])
  then show ?thesis by (simp add: i2c_stop_def w1(1))
qed

interpretation pins: i2c_byte_bus "gd32_bit_ops_default ch" ch "wires_rest ch" wires_free
  for ch :: "'c i2c_chip"
  by unfold_locales (fact wires_starts wires_pauses wires_restarts wires_stops wires_sends wires_receives)+

section \<open>Every transfer ends\<close>

text \<open>The master does not hang on a clock that is held: the wait has a time-out.\<close>

definition returns :: "('w \<Rightarrow> ('a \<times> 'w) option) \<Rightarrow> bool" where
  "returns f \<longleftrightarrow> (\<forall>w. \<exists>r w'. f w = Some (r, w'))"

lemma returnsD: "returns f \<Longrightarrow> \<exists>r w'. f w = Some (r, w')"
  by (simp add: returns_def)

lemma returns_write_bits: "returns (SCL_H ops) \<Longrightarrow> returns (write_bits ops data n)"
proof (induction n)
  case (Suc n)
  show ?case unfolding returns_def
  proof
    fix w
    obtain r w1 where s: "SCL_H ops (i2c_delay ops (set_sda ops (uint (drop_bit n data AND 1)) (set_scl ops 0 w))) = Some (r, w1)"
      using returnsD [OF Suc.prems] by blast
    show "\<exists>r w'. write_bits ops data (Suc n) w = Some (r, w')"
      using s returnsD [OF Suc.IH [OF Suc.prems], of w1] by (simp add: Let_def)
  qed
qed (simp add: returns_def)

lemma returns_read_bits: "returns (SCL_H ops) \<Longrightarrow> returns (read_bits ops n data)"
proof (induction n arbitrary: data)
  case (Suc n)
  show ?case unfolding returns_def
  proof
    fix w
    obtain r w1 where s: "SCL_H ops w = Some (r, w1)" using returnsD [OF Suc.prems] by blast
    show "\<exists>r w'. read_bits ops (Suc n) data w = Some (r, w')"
      using s returnsD [OF Suc.IH [OF Suc.prems]] by (simp add: Let_def)
  qed
qed (simp add: returns_def)

lemma returns_waitack: "returns (SCL_H ops) \<Longrightarrow> \<exists>r w'. i2c_waitack ops w = Some (r, w')"
  using returnsD [of "SCL_H ops" "i2c_delay ops (set_sda ops 1 w)"] by (auto simp: i2c_waitack_def)

lemma returns_writeb: "returns (SCL_H ops) \<Longrightarrow> \<exists>r w'. i2c_writeb ops b w = Some (r, w')"
  using returnsD [OF returns_write_bits, of ops b 8 w] returns_waitack [of ops] by (auto simp: i2c_writeb_def)

lemma returns_readb: "returns (SCL_H ops) \<Longrightarrow> \<exists>r w'. i2c_readb ops w = Some (r, w')"
  using returnsD [OF returns_read_bits] by (auto simp: i2c_readb_def)

lemma returns_ack: "returns (SCL_H ops) \<Longrightarrow> \<exists>r w'. i2c_send_ack_or_nack ops k w = Some (r, w')"
  using returnsD [of "SCL_H ops" "i2c_delay ops (if k \<noteq> 0 then set_sda ops 0 w else w)"]
  by (auto simp: i2c_send_ack_or_nack_def Let_def)

lemma returns_restart: "returns (SCL_H ops) \<Longrightarrow> \<exists>w'. i2c_restart ops w = Some w'"
  using returnsD [of "SCL_H ops" "set_sda ops 1 w"] by (auto simp: i2c_restart_def)

lemma returns_stop: "returns (SCL_H ops) \<Longrightarrow> \<exists>w'. i2c_stop ops w = Some w'"
  using returnsD [of "SCL_H ops" "i2c_delay ops (set_sda ops 0 w)"] by (auto simp: i2c_stop_def)

lemma returns_send_loop:
  "returns (SCL_H ops) \<Longrightarrow> p + n \<le> length mbuf \<Longrightarrow> \<exists>r w'. send_loop ops ign mbuf p n w = Some (r, w')"
proof (induction n arbitrary: p w)
  case (Suc n)
  obtain r w1 where "i2c_writeb ops (mbuf ! p) w = Some (r, w1)" using returns_writeb [OF Suc.prems(1)] by blast
  then show ?case using Suc.IH [OF Suc.prems(1), of "p + 1" w1] Suc.prems(2) by simp
qed simp

lemma returns_recv_loop:
  "returns (SCL_H ops) \<Longrightarrow> p + n \<le> length mbuf \<Longrightarrow> \<exists>r b w'. recv_loop ops na mbuf p n w = Some (r, b, w')"
proof (induction n arbitrary: p w mbuf)
  case (Suc n)
  obtain r w1 where r: "i2c_readb ops w = Some (r, w1)" using returns_readb [OF Suc.prems(1)] by blast
  obtain a w2 where a: "i2c_send_ack_or_nack ops (int n) w1 = Some (a, w2)" using returns_ack [OF Suc.prems(1)] by blast
  have "\<exists>x b w'. recv_loop ops na (mbuf[p := v]) (p + 1) n w0 = Some (x, b, w')" for w0 v
    using Suc.prems(2) by (intro Suc.IH [OF Suc.prems(1)]) simp
  then show ?case using r a Suc.prems(2) by (cases na) auto
qed simp

lemma returns_address_loop: "returns (SCL_H ops) \<Longrightarrow> \<exists>r w'. address_loop ops a k w = Some (r, w')"
proof (induction k arbitrary: w)
  case (Suc k)
  obtain r w1 where "i2c_writeb ops a w = Some (r, w1)" using returns_writeb [OF Suc.prems] by blast
  moreover obtain w2 where "i2c_stop ops w1 = Some w2" using returns_stop [OF Suc.prems] by blast
  ultimately show ?case using Suc.IH [OF Suc.prems] by simp
qed (simp add: returns_writeb)

lemma returns_send_address:
  assumes "returns (SCL_H (bus_ops bus))"
  shows "\<exists>r w'. i2c_bit_send_address bus m w = Some (r, w')"
proof -
  have a: "\<exists>r w'. i2c_send_address bus x k w = Some (r, w')" for x k w
    using returns_address_loop [OF assms] by (simp add: i2c_send_address_def)
  obtain r1 w1 where r1: "i2c_send_address bus (0xf0 OR (ucast (drop_bit 7 (msg_addr m)) AND 0x06))
      (if bit (msg_flags m) RT_I2C_IGNORE_NACK then 0 else sint (bus_retries bus)) w = Some (r1, w1)"
    using a by blast
  obtain r2 w2 where r2: "i2c_writeb (bus_ops bus) (ucast (msg_addr m)) w1 = Some (r2, w2)"
    using returns_writeb [OF assms] by blast
  obtain w3 where w3: "i2c_restart (bus_ops bus) w2 = Some w3" using returns_restart [OF assms] by blast
  obtain r4 w4 where r4: "i2c_send_address bus ((0xf0 OR (ucast (drop_bit 7 (msg_addr m)) AND 0x06)) OR 0x01)
      (if bit (msg_flags m) RT_I2C_IGNORE_NACK then 0 else sint (bus_retries bus)) w3 = Some (r4, w4)"
    using a by blast
  obtain r5 w5 where r5: "i2c_send_address bus (if bit (msg_flags m) RT_I2C_RD then ucast (push_bit 1 (msg_addr m)) OR 1
        else ucast (push_bit 1 (msg_addr m)))
      (if bit (msg_flags m) RT_I2C_IGNORE_NACK then 0 else sint (bus_retries bus)) w = Some (r5, w5)"
    using a by blast
  show ?thesis
    unfolding i2c_bit_send_address_def Let_def
    by (cases "bit (msg_flags m) RT_I2C_ADDR_10BIT")
      (simp_all only: if_True if_False r1 r2 w3 r4 r5 bind.bind_lunit prod.case split: if_split, auto)
qed

lemma returns_data:
  assumes "returns (SCL_H (bus_ops bus))" "unat (msg_len m) \<le> length (msg_buf m)"
  shows "\<exists>r m' w'. xfer_data bus m w = Some (r, m', w')"
proof -
  obtain r w1 where "i2c_send_bytes bus m w = Some (r, w1)"
    using returns_send_loop [OF assms(1), of 0] assms(2) unfolding i2c_send_bytes_def by (metis add_0)
  moreover obtain r' b w2 where "i2c_recv_bytes bus m w = Some (r', b, w2)"
    using returns_recv_loop [OF assms(1), of 0] assms(2) unfolding i2c_recv_bytes_def by (metis add_0)
  ultimately show ?thesis by (simp add: xfer_data_def)
qed

lemma returns_msg:
  assumes "returns (SCL_H (bus_ops bus))" "unat (msg_len m) \<le> length (msg_buf m)"
  shows "\<exists>r m' w'. xfer_msg bus i m w = Some (r, m', w')"
proof -
  obtain w1 where w1: "(if i \<noteq> 0 then i2c_restart (bus_ops bus) w else Some (i2c_start (bus_ops bus) w)) = Some w1"
    using returns_restart [OF assms(1), of w] by (cases "i = 0") auto
  obtain r w2 where "i2c_bit_send_address bus m w1 = Some (r, w2)" using returns_send_address [OF assms(1)] by blast
  then show ?thesis using w1 returns_data [OF assms] by (simp add: xfer_msg_def)
qed

lemma returns_out: "returns (SCL_H (bus_ops bus)) \<Longrightarrow> \<exists>w'. xfer_out bus m w = Some w'"
  using returns_stop by (auto simp: xfer_out_def)

lemma returns_xfer:
  assumes "returns (SCL_H (bus_ops bus))"
  shows "list_all (\<lambda>m. unat (msg_len m) \<le> length (msg_buf m)) (m # ms) \<Longrightarrow>
    \<exists>r ms' w'. xfer_loop bus ds m ms w = Some (r, ms', w')"
proof (induction ms arbitrary: ds m w)
  case Nil
  obtain r m1 w1 where x: "xfer_msg bus (length ds) m w = Some (r, m1, w1)" using returns_msg [OF assms] Nil by force
  obtain w2 where "xfer_out bus m1 w1 = Some w2" using returns_out [OF assms] by blast
  then show ?case using x by (cases r) simp_all
next
  case (Cons m2 ms)
  obtain r m1 w1 where x: "xfer_msg bus (length ds) m w = Some (r, m1, w1)" using returns_msg [OF assms] Cons.prems by force
  obtain w2 where "xfer_out bus m1 w1 = Some w2" using returns_out [OF assms] by blast
  then show ?case using x Cons.IH [of m2 "m1 # ds" w1] Cons.prems by (cases r) simp_all
qed

text \<open>The wait for the clock ends after at most 101 ticks, whatever the chip does.\<close>

lemma now_us_udelay: "now_us (gd32_udelay ch us w) = now_us w + unat us"
  by (simp add: line_defs split: prod.splits)

lemma scl_wait_returns:
  assumes "t0 \<le> now_us w" "now_us w \<le> (t0 div 1000 + 101) * 1000"
  shows "\<exists>r w'. scl_wait (gd32_bit_ops_default ch) gd32_get_scl (of_nat (t0 div 1000)) w = Some (r, w') \<and>
    now_us w' \<le> (t0 div 1000 + 101) * 1000"
  using assms
proof (induction "(t0 div 1000 + 101) * 1000 - now_us w" arbitrary: w)
  case 0
  let ?d = "now_us w div 1000 - t0 div 1000"
  have n: "now_us w = (t0 div 1000 + 101) * 1000" using 0 by simp
  have "of_nat (now_us w div 1000) - of_nat (t0 div 1000) = (101 :: u32)" unfolding n by simp
  then show ?case using n by (subst scl_wait.simps) simp
next
  case (Suc n)
  let ?t = "of_nat (t0 div 1000) :: u32" and ?w = "gd32_udelay ch 1 w"
  have "\<exists>r w'. scl_wait (gd32_bit_ops_default ch) gd32_get_scl ?t ?w = Some (r, w') \<and> now_us w' \<le> (t0 div 1000 + 101) * 1000"
    using Suc.hyps(2) Suc.prems by (intro Suc.hyps(1)) (simp_all add: now_us_udelay)
  then show ?case using Suc.prems by (subst scl_wait.simps) auto
qed

lemma now_us_set_scl: "now_us (gd32_set_scl ch v w) = now_us w"
  by (simp add: line_defs split: prod.splits)

lemma SCL_H_ends:
  "\<exists>r w'. SCL_H (gd32_bit_ops_default ch) w = Some (r, w') \<and> now_us w' \<le> now_us w + 101001"
proof -
  let ?w = "gd32_set_scl ch 1 w"
  have start_us: "now_us w \<le> (now_us w div 1000 + 101) * 1000" by simp
  obtain r w1 where w1: "scl_wait (gd32_bit_ops_default ch) gd32_get_scl (of_nat (now_us w div 1000)) ?w = Some (r, w1)"
    "now_us w1 \<le> (now_us w div 1000 + 101) * 1000"
    using scl_wait_returns [of "now_us w" ?w ch] unfolding now_us_set_scl by (metis le_refl start_us)
  have "(now_us w div 1000 + 101) * 1000 \<le> now_us w + 101000" by simp
  then show ?thesis using w1 by (auto simp: SCL_H_def Let_def now_us_set_scl now_us_udelay)
qed

lemma SCL_H_returns: "returns (SCL_H (gd32_bit_ops_default ch))"
  using SCL_H_ends [of ch] unfolding returns_def by blast

section \<open>Properties\<close>

definition gd32_bus :: "'c i2c_chip \<Rightarrow> u32 \<Rightarrow> 'c wires rt_i2c_bus" where
  "gd32_bus ch retries = \<lparr>bus_ops = gd32_bit_ops_default ch, bus_retries = retries\<rparr>"

text \<open>C18: On an idle bus, for a list of plain messages (a write without flags, or a read of at least one
  byte with only the read flag, the length within the buffer: no 10-bit address, no message without
  start, nothing that ignores or omits acknowledges), a retry count that is not negative and a chip that
  holds the clock for at most 100 ms after each bit: a bit-banged transfer does exactly what the same
  transfer does byte by byte. The chip gets the address and data bytes the messages hold and no other,
  its answers arrive in the buffers of the reading messages, a missing acknowledge stops the transfer
  with \<open>RT_EIO\<close> for the address, after the prescribed repetitions, and \<open>RT_ERROR\<close> for a data byte, and
  the bus is idle again with a stop condition given.\<close>

theorem i2c_transfer_bytes:
  assumes "wires_free w c" "list_all plain_msg ms" "ms \<noteq> []" "0 \<le> sint retries"
    "msgs_served ch (nat (sint retries)) 0 ms c = (r, ms', c')"
  shows "\<exists>w'. i2c_bit_xfer (gd32_bus ch retries) ms w = Some (r, ms', w') \<and> wires_free w' (chip_stop ch c')"
  using pins.bit_xfer_served [OF assms(1-3), of "gd32_bus ch retries" ch r ms' c'] assms(4,5)
  by (simp add: gd32_bus_def)

text \<open>A memory of bytes with a pointer that the first data byte sets, at address 0x50.\<close>

definition demo_chip :: "(bool \<times> nat \<times> u8 list) i2c_chip" where
  "demo_chip =
    \<lparr>chip_address = (\<lambda>a (f, p, m). if a = 0xA0 then Some (True, p, m) else if a = 0xA1 then Some (False, p, m) else None),
     chip_write = (\<lambda>b (f, p, m). if f then Some (False, unat b, m)
        else if p < length m then Some (False, p + 1, m[p := b]) else None),
     chip_read = (\<lambda>(f, p, m). (m ! p, f, (p + 1) mod length m, m)),
     chip_stop = (\<lambda>c. c)\<rparr>"

definition demo_wires :: "'c \<Rightarrow> nat \<Rightarrow> 'c wires" where
  "demo_wires c k = \<lparr>sda_out = True, scl_out = True, now_us = 0, seen_sda = True, seen_scl = True, phase = Quiet,
     pulls_sda = False, held_us = 0, stretch_us = k, chip = c\<rparr>"

theorem i2c_transfer_bytes_witness:
  "\<exists>w'. i2c_bit_xfer (gd32_bus demo_chip 0)
      [\<lparr>msg_addr = 0x50, msg_flags = 0, msg_len = 3, msg_buf = [1, 0xAB, 0xCD]\<rparr>,
       \<lparr>msg_addr = 0x50, msg_flags = 0, msg_len = 1, msg_buf = [2]\<rparr>,
       \<lparr>msg_addr = 0x50, msg_flags = 1, msg_len = 2, msg_buf = [0, 0]\<rparr>]
      (demo_wires (False, 0, [1, 2, 3, 4]) 500) =
    Some (3,
      [\<lparr>msg_addr = 0x50, msg_flags = 0, msg_len = 3, msg_buf = [1, 0xAB, 0xCD]\<rparr>,
       \<lparr>msg_addr = 0x50, msg_flags = 0, msg_len = 1, msg_buf = [2]\<rparr>,
       \<lparr>msg_addr = 0x50, msg_flags = 1, msg_len = 2, msg_buf = [0xCD, 4]\<rparr>], w') \<and>
    wires_free w' (chip_stop demo_chip (False, 0, [1, 0xAB, 0xCD, 4]))"
proof (rule i2c_transfer_bytes)
  show "wires_free (demo_wires (False, 0, [1, 2, 3, 4]) 500) (False, 0, [1, 2, 3, 4])"
    by (simp add: wires_free_def high_def demo_wires_def)
  show "msgs_served demo_chip (nat (sint (0 :: u32))) 0
      [\<lparr>msg_addr = 0x50, msg_flags = 0, msg_len = 3, msg_buf = [1, 0xAB, 0xCD]\<rparr>,
       \<lparr>msg_addr = 0x50, msg_flags = 0, msg_len = 1, msg_buf = [2]\<rparr>,
       \<lparr>msg_addr = 0x50, msg_flags = 1, msg_len = 2, msg_buf = [0, 0]\<rparr>] (False, 0, [1, 2, 3, 4]) =
    (3, [\<lparr>msg_addr = 0x50, msg_flags = 0, msg_len = 3, msg_buf = [1, 0xAB, 0xCD]\<rparr>,
       \<lparr>msg_addr = 0x50, msg_flags = 0, msg_len = 1, msg_buf = [2]\<rparr>,
       \<lparr>msg_addr = 0x50, msg_flags = 1, msg_len = 2, msg_buf = [0xCD, 4]\<rparr>], False, 0, [1, 0xAB, 0xCD, 4])"
    by code_simp
qed (simp_all add: plain_msg_def)

text \<open>C19: No chip can hang the master: whatever it does with the lines, even if it never releases the clock,
  a transfer returns, and a wait for the clock takes at most 101 system ticks.\<close>

theorem i2c_transfer_ends:
  assumes "list_all (\<lambda>m. unat (msg_len m) \<le> length (msg_buf m)) ms"
  shows "(\<exists>r ms' w'. i2c_bit_xfer (gd32_bus ch retries) ms w = Some (r, ms', w')) \<and>
    (\<exists>r w'. SCL_H (gd32_bit_ops_default ch) w = Some (r, w') \<and> now_us w' \<le> now_us w + 101001)"
  using returns_xfer [of "gd32_bus ch retries" "hd ms" "tl ms" "[]"] SCL_H_ends [of ch w] assms
  by (cases ms) (simp_all add: i2c_bit_xfer_def gd32_bus_def SCL_H_returns del: xfer_loop.simps)

theorem i2c_transfer_ends_witness:
  "(\<exists>r ms' w'. i2c_bit_xfer (gd32_bus demo_chip 2)
      [\<lparr>msg_addr = 0x50, msg_flags = 0, msg_len = 1, msg_buf = [7]\<rparr>] (demo_wires (False, 0, []) 1000000) = Some (r, ms', w')) \<and>
    (\<exists>r w'. SCL_H (gd32_bit_ops_default demo_chip) (demo_wires (False, 0, []) 1000000) = Some (r, w') \<and>
      now_us w' \<le> 101001)"
  using i2c_transfer_ends [of "[\<lparr>msg_addr = 0x50, msg_flags = 0, msg_len = 1, msg_buf = [7]\<rparr>]" demo_chip 2
      "demo_wires (False, 0, []) 1000000"] by (simp add: demo_wires_def)


end
