(* ===== verification/Ipc.thy ===== *)
theory Ipc
  imports Mailbox "HOL-Library.Multiset"
begin

text \<open>
  Waiting in the kernel (\<open>rt-thread/src/ipc.c\<close>, \<open>thread.c\<close>): the list of suspended threads of an IPC
  object, how a thread enters it, and the two ways out of it, a resume by the object and the expiry of
  the thread's timer. The scheduler is not modelled: a blocking call is its part up to \<open>rt_schedule\<close>, and
  the thread's error code at the moment it becomes ready is what the rest of the call returns.
  Priorities are numbers, the smaller the more urgent.
\<close>

section \<open>Threads and suspend lists\<close>

text \<open>
  \<open>thread_timer\<close> is the number of ticks the thread's own timer was started with, \<open>None\<close> while it does not
  run. \<open>event_set\<close> and \<open>event_info\<close> belong to the wait for an event.
\<close>

record rt_thread =
  current_priority :: u8
  suspended :: bool
  th_error :: rt_err
  thread_timer :: "u32 option"
  event_set :: u32
  event_info :: u8

datatype ipc_flag = RT_IPC_FLAG_FIFO | RT_IPC_FLAG_PRIO

record ipc_object =
  ipc_flag :: ipc_flag
  suspend_thread :: "nat list"

type_synonym threads = "nat \<Rightarrow> rt_thread"

text \<open>The search of a place in order of priority: behind the threads of the same priority.\<close>

fun prio_insert :: "threads \<Rightarrow> nat \<Rightarrow> nat list \<Rightarrow> nat list" where
  "prio_insert ths t [] = [t]"
| "prio_insert ths t (s # q) =
    (if current_priority (ths t) < current_priority (ths s) then t # s # q else s # prio_insert ths t q)"

text \<open>
  The caller of \<open>_ipc_list_suspend\<close> is the running thread, so \<open>rt_thread_suspend_with_flag\<close> succeeds.
\<close>

definition ipc_list_suspend :: "ipc_flag \<Rightarrow> nat \<Rightarrow> threads \<Rightarrow> nat list \<Rightarrow> threads \<times> nat list" where
  "ipc_list_suspend flag t ths q =
    (let ths = (if \<not> suspended (ths t) then ths(t := (ths t)\<lparr>suspended := True\<rparr>) else ths)
     in (ths, case flag of RT_IPC_FLAG_FIFO \<Rightarrow> q @ [t] | RT_IPC_FLAG_PRIO \<Rightarrow> prio_insert ths t q))"

definition rt_thread_resume :: "nat \<Rightarrow> threads \<Rightarrow> nat list \<Rightarrow> threads \<times> nat list" where
  "rt_thread_resume t ths q =
    (if \<not> suspended (ths t) then (ths, q)
     else (ths(t := (ths t)\<lparr>suspended := False, thread_timer := None\<rparr>), removeAll t q))"

text \<open>\<open>None\<close>: the first entry of an empty list is not a thread.\<close>

definition ipc_list_resume :: "threads \<Rightarrow> nat list \<Rightarrow> (threads \<times> nat list) option" where
  "ipc_list_resume ths q = (case q of
     [] \<Rightarrow> None
   | t # _ \<Rightarrow> Some (rt_thread_resume t (ths(t := (ths t)\<lparr>th_error := RT_EOK\<rparr>)) q))"

text \<open>
  The loop of \<open>_ipc_list_resume_all\<close> does not end when \<open>rt_thread_resume\<close> refuses a thread of the list.
\<close>

partial_function (option) ipc_list_resume_all :: "threads \<Rightarrow> nat list \<Rightarrow> (threads \<times> nat list) option" where
  "ipc_list_resume_all ths q = (case q of
     [] \<Rightarrow> Some (ths, [])
   | t # _ \<Rightarrow> (case rt_thread_resume t (ths(t := (ths t)\<lparr>th_error := RT_ERROR\<rparr>)) q of
                 (ths, q) \<Rightarrow> ipc_list_resume_all ths q))"

text \<open>The timer of a suspended thread expires.\<close>

definition thread_timeout :: "nat \<Rightarrow> threads \<Rightarrow> nat list \<Rightarrow> threads \<times> nat list" where
  "thread_timeout t ths q =
    (ths(t := (ths t)\<lparr>th_error := RT_ETIMEOUT, suspended := False, thread_timer := None\<rparr>), removeAll t q)"

text \<open>A positive time-out starts the timer of the thread that is about to wait; a negative one waits for ever.\<close>

definition start_thread_timer :: "nat \<Rightarrow> int \<Rightarrow> threads \<Rightarrow> threads" where
  "start_thread_timer t timeout ths =
    (if timeout > 0 then ths(t := (ths t)\<lparr>thread_timer := Some (of_int timeout)\<rparr>) else ths)"

section \<open>Well-formed lists\<close>

text \<open>
  The list holds exactly the threads that wait, each once, and only waiting threads have a running
  timer.
\<close>

definition list_ok :: "threads \<Rightarrow> nat list \<Rightarrow> bool" where
  "list_ok ths q \<longleftrightarrow> distinct q \<and> (\<forall>t. suspended (ths t) \<longleftrightarrow> t \<in> set q) \<and>
     (\<forall>t. thread_timer (ths t) \<noteq> None \<longrightarrow> t \<in> set q)"

lemma list_okD:
  assumes "list_ok ths q"
  shows "distinct q" "suspended (ths t) \<longleftrightarrow> t \<in> set q" "thread_timer (ths t) = Some n \<Longrightarrow> t \<in> set q"
  using assms by (auto simp: list_ok_def)

lemma set_prio_insert [simp]: "set (prio_insert ths t q) = insert t (set q)"
  by (induction q) auto

lemma distinct_prio_insert [simp]: "distinct (prio_insert ths t q) \<longleftrightarrow> t \<notin> set q \<and> distinct q"
  by (induction q) auto

lemma suspend_ok:
  assumes "list_ok ths q" "\<not> suspended (ths t)" "ipc_list_suspend flag t ths q = (ths', q')"
  shows "list_ok (start_thread_timer t timeout ths') q'" "set q' = insert t (set q)"
proof -
  have s: "set q' = insert t (set q)" "distinct q'"
    using assms by (auto simp: ipc_list_suspend_def Let_def list_ok_def split: ipc_flag.splits)
  then show "set q' = insert t (set q)" by simp
  show "list_ok (start_thread_timer t timeout ths') q'"
    using assms s by (auto simp: ipc_list_suspend_def Let_def list_ok_def start_thread_timer_def split: if_splits)
qed

lemma removeAll_hd: "distinct (t # q) \<Longrightarrow> removeAll t (t # q) = q"
  by simp

lemma resume_head:
  assumes "list_ok ths (t # q)"
  shows "ipc_list_resume ths (t # q) =
    Some (ths(t := (ths t)\<lparr>th_error := RT_EOK, suspended := False, thread_timer := None\<rparr>), q)"
    and "list_ok (ths(t := (ths t)\<lparr>th_error := e, suspended := False, thread_timer := None\<rparr>)) q"
  using assms by (auto simp: ipc_list_resume_def rt_thread_resume_def list_ok_def)

lemma timeout_ok:
  assumes "list_ok ths q" "thread_timeout t ths q = (ths', q')"
  shows "list_ok ths' q'"
  using assms by (auto simp: thread_timeout_def list_ok_def distinct_removeAll split: if_splits)

text \<open>Waking everybody ends, and everybody gets the error code.\<close>

lemma resume_all_part:
  "list_ok ths (q @ r) \<Longrightarrow> ipc_list_resume_all ths q =
    Some (\<lambda>t. if t \<in> set q then (ths t)\<lparr>th_error := RT_ERROR, suspended := False, thread_timer := None\<rparr> else ths t, [])"
proof (induction q arbitrary: ths)
  case (Cons t q)
  let ?ths = "ths(t := (ths t)\<lparr>th_error := RT_ERROR, suspended := False, thread_timer := None\<rparr>)"
  have ok: "list_ok ?ths (q @ r)" by (rule resume_head(2)) (use Cons.prems in simp)
  have r: "rt_thread_resume t (ths(t := (ths t)\<lparr>th_error := RT_ERROR\<rparr>)) (t # q) = (?ths, q)"
    using Cons.prems by (auto simp: rt_thread_resume_def list_ok_def)
  have "t \<notin> set q" using Cons.prems by (simp add: list_ok_def)
  then show ?case
    by (subst ipc_list_resume_all.simps) (auto simp: r Cons.IH [OF ok] fun_eq_iff)
qed (simp add: ipc_list_resume_all.simps)

lemma resume_all_ok:
  "list_ok ths q \<Longrightarrow> ipc_list_resume_all ths q =
    Some (\<lambda>t. if t \<in> set q then (ths t)\<lparr>th_error := RT_ERROR, suspended := False, thread_timer := None\<rparr> else ths t, [])"
  by (rule resume_all_part [of _ _ "[]"]) simp

lemma resume_all_rest:
  assumes "list_ok ths (q @ r)" "ipc_list_resume_all ths q = Some (ths', q')"
  shows "list_ok ths' r" "q' = []"
proof -
  have e: "ths' = (\<lambda>t. if t \<in> set q then (ths t)\<lparr>th_error := RT_ERROR, suspended := False, thread_timer := None\<rparr> else ths t)"
    "q' = []" using assms(2) by (simp_all add: resume_all_part [OF assms(1)])
  then show "q' = []" by simp
  have "thread_timer (ths t) = None \<or> t \<in> set q \<or> t \<in> set r" for t using assms(1) by (auto simp: list_ok_def)
  then show "list_ok ths' r" using assms(1) by (auto simp: list_ok_def e(1))
qed

lemma resume_all_list_ok:
  assumes "list_ok ths q" "ipc_list_resume_all ths q = Some (ths', q')"
  shows "list_ok ths' q'" "q' = []"
  using assms(2) assms(1) by (auto simp: resume_all_ok [OF assms(1)] list_ok_def split: if_splits)

section \<open>Order of waiting\<close>

text \<open>
  The order the flag promises, as a function of the order of arrival: first come first served, or by
  priority and first come first served among equals.
\<close>

definition wait_order :: "ipc_flag \<Rightarrow> (nat \<Rightarrow> u8) \<Rightarrow> nat list \<Rightarrow> nat list" where
  "wait_order flag prio arrived = (case flag of RT_IPC_FLAG_FIFO \<Rightarrow> arrived | RT_IPC_FLAG_PRIO \<Rightarrow> sort_key prio arrived)"

lemma sorted_prio_insert:
  assumes "sorted (map (\<lambda>s. current_priority (ths s)) q)"
  shows "sorted (map (\<lambda>s. current_priority (ths s)) (prio_insert ths t q))"
  using assms by (induction q) (auto simp: not_less less_imp_le order_trans)

lemma filter_prio_insert:
  assumes "sorted (map (\<lambda>s. current_priority (ths s)) q)"
  shows "filter (\<lambda>s. k = current_priority (ths s)) (prio_insert ths t q) =
    filter (\<lambda>s. k = current_priority (ths s)) (q @ [t])"
  using assms
proof (induction q)
  case (Cons s q)
  show ?case
  proof (cases "current_priority (ths t) < current_priority (ths s)")
    case True
    then have "\<forall>x \<in> set (s # q). current_priority (ths x) \<noteq> current_priority (ths t)" using Cons.prems by auto
    then have "filter (\<lambda>x. current_priority (ths t) = current_priority (ths x)) (s # q) = []"
      by (auto simp: filter_empty_conv)
    then show ?thesis using True by (cases "k = current_priority (ths t)") auto
  qed (use Cons in auto)
qed simp

lemma prio_insert_sort:
  "prio_insert ths t (sort_key (\<lambda>s. current_priority (ths s)) arrived) =
    sort_key (\<lambda>s. current_priority (ths s)) (arrived @ [t])"
proof (rule properties_for_sort_key [symmetric])
  let ?f = "\<lambda>s. current_priority (ths s)"
  show "mset (prio_insert ths t (sort_key ?f arrived)) = mset (arrived @ [t])"
  proof -
    have "mset (prio_insert ths t q) = mset (q @ [t])" for q by (induction q) auto
    then show ?thesis by simp
  qed
  show "filter (\<lambda>x. ?f k = ?f x) (prio_insert ths t (sort_key ?f arrived)) = filter (\<lambda>x. ?f k = ?f x) (arrived @ [t])"
    if "k \<in> set (prio_insert ths t (sort_key ?f arrived))" for k
    using filter_prio_insert [of ths "sort_key ?f arrived" "?f k" t] sort_key_stable [of ?f "?f k" arrived]
    by (simp add: eq_commute [of "?f k"])
  show "sorted (map ?f (prio_insert ths t (sort_key ?f arrived)))" by (rule sorted_prio_insert) simp
qed

lemma suspend_order:
  assumes "q = wait_order flag (\<lambda>s. current_priority (ths s)) arrived" "ipc_list_suspend flag t ths q = (ths', q')"
  shows "q' = wait_order flag (\<lambda>s. current_priority (ths' s)) (arrived @ [t])"
proof -
  have p: "current_priority (ths' s) = current_priority (ths s)" for s
    using assms(2) by (auto simp: ipc_list_suspend_def Let_def split: if_splits)
  have i: "prio_insert ths1 t q = prio_insert ths t q" if "\<And>s. current_priority (ths1 s) = current_priority (ths s)" for ths1
    using that by (induction q) auto
  show ?thesis
    using assms i [of ths'] p by (cases flag) (auto simp: ipc_list_suspend_def Let_def wait_order_def prio_insert_sort)
qed

lemma wait_order_removeAll:
  "removeAll t (wait_order flag prio arrived) = wait_order flag prio (removeAll t arrived)"
  by (cases flag) (auto simp: wait_order_def removeAll_filter_not_eq filter_sort)

lemma set_wait_order [simp]: "set (wait_order flag prio arrived) = set arrived"
  by (cases flag) (simp_all add: wait_order_def)

lemma distinct_wait_order [simp]: "distinct (wait_order flag prio arrived) \<longleftrightarrow> distinct arrived"
  by (cases flag) (simp_all add: wait_order_def)

text \<open>The thread at the head is as urgent as any, and came before those as urgent as it.\<close>

lemma wait_order_head:
  assumes "wait_order RT_IPC_FLAG_PRIO prio arrived = t # q"
  shows "\<forall>s \<in> set q. prio t \<le> prio s" "hd (filter (\<lambda>s. prio s = prio t) arrived) = t"
proof -
  have "sorted (map prio (t # q))" using assms by (metis sorted_sort_key wait_order_def ipc_flag.simps(4))
  then show "\<forall>s \<in> set q. prio t \<le> prio s" by auto
  have "filter (\<lambda>s. prio s = prio t) arrived = filter (\<lambda>s. prio s = prio t) (t # q)"
    using assms sort_key_stable [of prio "prio t" arrived] by (simp add: wait_order_def)
  then show "hd (filter (\<lambda>s. prio s = prio t) arrived) = t" by simp
qed

section \<open>Woken threads\<close>

text \<open>The threads of a list that are ready now, with the results of their calls.\<close>

definition woken :: "nat list \<Rightarrow> threads \<Rightarrow> (nat \<times> rt_err) list" where
  "woken q ths = map (\<lambda>t. (t, th_error (ths t))) (filter (\<lambda>t. \<not> suspended (ths t)) q)"

lemma filter_woken:
  assumes "list_ok ths q" "t \<in> set q" "\<not> suspended (ths' t)" "\<And>u. u \<noteq> t \<Longrightarrow> ths' u = ths u"
  shows "filter (\<lambda>u. \<not> suspended (ths' u)) q = [t]"
proof -
  have "\<not> suspended (ths' u) \<longleftrightarrow> u = t" if "u \<in> set q" for u
    using assms that by (cases "u = t") (simp_all add: list_ok_def)
  then have "filter (\<lambda>u. \<not> suspended (ths' u)) q = filter (\<lambda>u. u = t) q" by (simp cong: filter_cong)
  also have "\<dots> = [t]"
  proof -
    obtain xs ys where "q = xs @ t # ys" "t \<notin> set xs" "t \<notin> set ys"
      using assms(1,2) by (auto simp: list_ok_def dest!: split_list)
    moreover from this have "filter (\<lambda>u. u = t) xs = []" "filter (\<lambda>u. u = t) ys = []" by (auto simp: filter_empty_conv)
    ultimately show ?thesis by simp
  qed
  finally show ?thesis .
qed

lemma woken_one:
  assumes "list_ok ths q" "t \<in> set q" "\<not> suspended (ths' t)" "\<And>u. u \<noteq> t \<Longrightarrow> ths' u = ths u"
  shows "woken q ths' = [(t, th_error (ths' t))]"
  using filter_woken [OF assms] by (simp add: woken_def)

lemma filter_asleep:
  assumes "list_ok ths q" "\<And>u. u \<in> set q \<Longrightarrow> suspended (ths' u) = suspended (ths u)"
  shows "filter (\<lambda>u. \<not> suspended (ths' u)) q = []"
  using assms by (auto simp: list_ok_def filter_empty_conv)

text \<open>
  An object with two lists: \<open>list_ok\<close> of both together does not depend on their order, and holds after a
  thread enters or leaves either of them.
\<close>

lemma list_ok_mset: "mset q = mset q' \<Longrightarrow> list_ok ths q \<longleftrightarrow> list_ok ths q'"
  unfolding list_ok_def by (metis distinct_count_atmost_1 set_mset_mset mset_eq_imp_distinct_iff)

lemma list_ok_wake:
  "list_ok ths q \<Longrightarrow> list_ok (ths(t := (ths t)\<lparr>th_error := e, suspended := False, thread_timer := None\<rparr>)) (removeAll t q)"
  by (auto simp: list_ok_def distinct_removeAll)

lemma list_ok_error [simp]: "list_ok (ths(t := (ths t)\<lparr>th_error := e\<rparr>)) q \<longleftrightarrow> list_ok ths q"
  by (auto simp: list_ok_def)

lemma mset_prio_insert [simp]: "mset (prio_insert ths t q) = add_mset t (mset q)"
  by (induction q) auto

lemma mset_list_suspend: "ipc_list_suspend flag t ths q = (ths', q') \<Longrightarrow> mset q' = add_mset t (mset q)"
  by (auto simp: ipc_list_suspend_def Let_def split: ipc_flag.splits)

lemma suspend_ok_part:
  assumes "list_ok ths (q @ r)" "\<not> suspended (ths t)" "ipc_list_suspend flag t ths q = (ths', q')"
  shows "list_ok (start_thread_timer t timeout ths') (q' @ r)"
proof -
  have "list_ok (start_thread_timer t timeout ths') (t # q @ r)"
    using assms unfolding ipc_list_suspend_def Let_def list_ok_def start_thread_timer_def
    by (auto split: if_splits) blast+
  then show ?thesis
    using list_ok_mset [of "t # q @ r" "q' @ r"] mset_list_suspend [OF assms(3)] by simp
qed

lemma suspend_unchanged:
  assumes "ipc_list_suspend flag t ths q = (ths', q')" "u \<noteq> t"
  shows "start_thread_timer t timeout ths' u = ths u"
  using assms by (auto simp: ipc_list_suspend_def Let_def start_thread_timer_def split: if_splits)

text \<open>Before a system runs no thread waits.\<close>

definition fresh_threads :: "threads \<Rightarrow> bool" where
  "fresh_threads ths \<longleftrightarrow> (\<forall>t. \<not> suspended (ths t) \<and> thread_timer (ths t) = None)"

text \<open>Example threads; thread 1 is the least urgent one.\<close>

definition demo_threads :: threads where
  "demo_threads t = \<lparr>current_priority = (if t = 1 then 20 else 10), suspended = False, th_error = RT_EOK, thread_timer = None,
     event_set = 0, event_info = 0\<rparr>"

lemma fresh_demo [simp]: "fresh_threads demo_threads"
  by (simp add: fresh_threads_def demo_threads_def)

end
