(* ===== verification/Semaphore.thy ===== *)
theory Semaphore
  imports Ipc
begin

text \<open>
  The semaphores of the kernel (\<open>rt-thread/src/ipc.c\<close>): the receive call-backs of the CAN and RS-485 lines
  release them from interrupts, the line threads take them with a time-out. A system of threads
  around one semaphore is a step relation over takes, releases, timer expiries and resets in any order.
\<close>

section \<open>Operations\<close>

record semaphore = ipc_object +
  sem_value :: u16

definition RT_SEM_VALUE_MAX :: u16 where "RT_SEM_VALUE_MAX = 0xFFFF"

definition rt_sem_init :: "u32 \<Rightarrow> ipc_flag \<Rightarrow> semaphore" where
  "rt_sem_init v flag = \<lparr>ipc_flag = flag, suspend_thread = [], sem_value = ucast v\<rparr>"

text \<open>\<open>_rt_sem_take\<close> up to \<open>rt_schedule\<close>: a call that waits returns the thread's error code when it is ready again.\<close>

definition rt_sem_take :: "nat \<Rightarrow> int \<Rightarrow> threads \<Rightarrow> semaphore \<Rightarrow> rt_err outcome \<times> threads \<times> semaphore" where
  "rt_sem_take t timeout ths sem =
    (if sem_value sem > 0 then (Ready RT_EOK, ths, sem\<lparr>sem_value := sem_value sem - 1\<rparr>)
     else if timeout = 0 then (Ready RT_ETIMEOUT, ths, sem)
     else (let ths = ths(t := (ths t)\<lparr>th_error := RT_EINTR\<rparr>);
               (ths, q) = ipc_list_suspend (ipc_flag sem) t ths (suspend_thread sem)
           in (Suspended, start_thread_timer t timeout ths, sem\<lparr>suspend_thread := q\<rparr>)))"

definition rt_sem_trytake :: "nat \<Rightarrow> threads \<Rightarrow> semaphore \<Rightarrow> rt_err outcome \<times> threads \<times> semaphore" where
  "rt_sem_trytake t ths sem = rt_sem_take t 0 ths sem"

definition rt_sem_release :: "threads \<Rightarrow> semaphore \<Rightarrow> (rt_err \<times> threads \<times> semaphore) option" where
  "rt_sem_release ths sem =
    (if suspend_thread sem \<noteq> [] then do {
       (ths, q) \<leftarrow> ipc_list_resume ths (suspend_thread sem);
       Some (RT_EOK, ths, sem\<lparr>suspend_thread := q\<rparr>)
     } else if sem_value sem < RT_SEM_VALUE_MAX then Some (RT_EOK, ths, sem\<lparr>sem_value := sem_value sem + 1\<rparr>)
     else Some (RT_EFULL, ths, sem))"

text \<open>\<open>rt_sem_control\<close> with \<open>RT_IPC_CMD_RESET\<close>, and \<open>rt_sem_detach\<close>, which wakes the waiting threads too.\<close>

definition rt_sem_reset :: "u32 \<Rightarrow> threads \<Rightarrow> semaphore \<Rightarrow> (threads \<times> semaphore) option" where
  "rt_sem_reset v ths sem = do {
     (ths, q) \<leftarrow> ipc_list_resume_all ths (suspend_thread sem);
     Some (ths, sem\<lparr>suspend_thread := q, sem_value := ucast v\<rparr>)
   }"

definition rt_sem_detach :: "threads \<Rightarrow> semaphore \<Rightarrow> (threads \<times> semaphore) option" where
  "rt_sem_detach ths sem = do {
     (ths, q) \<leftarrow> ipc_list_resume_all ths (suspend_thread sem);
     Some (ths, sem\<lparr>suspend_thread := q\<rparr>)
   }"

section \<open>Threads around a semaphore\<close>

text \<open>
  \<open>returned\<close> lists the takes that are over with their results, \<open>tokens\<close> counts the tokens put in, both
  since the start or the last reset; \<open>arrived\<close> lists the waiting threads in the order of their calls.
\<close>

record sem_sys =
  sem_threads :: threads
  sem :: semaphore
  returned :: "(nat \<times> rt_err) list"
  tokens :: nat
  arrived :: "nat list"

definition sem_start :: "u32 \<Rightarrow> ipc_flag \<Rightarrow> threads \<Rightarrow> sem_sys" where
  "sem_start v flag ths =
    \<lparr>sem_threads = ths, sem = rt_sem_init v flag, returned = [], tokens = unat v, arrived = []\<rparr>"

inductive sem_step :: "sem_sys \<Rightarrow> sem_sys \<Rightarrow> bool" where
  sem_take: "\<not> suspended (sem_threads s t) \<Longrightarrow> rt_sem_take t timeout (sem_threads s) (sem s) = (Ready e, ths, m) \<Longrightarrow>
    sem_step s (s\<lparr>sem_threads := ths, sem := m, returned := returned s @ [(t, e)]\<rparr>)"
| sem_wait: "\<not> suspended (sem_threads s t) \<Longrightarrow> rt_sem_take t timeout (sem_threads s) (sem s) = (Suspended, ths, m) \<Longrightarrow>
    sem_step s (s\<lparr>sem_threads := ths, sem := m, arrived := arrived s @ [t]\<rparr>)"
| sem_release: "rt_sem_release (sem_threads s) (sem s) = Some (e, ths, m) \<Longrightarrow>
    sem_step s (s\<lparr>sem_threads := ths, sem := m, returned := returned s @ woken (suspend_thread (sem s)) ths,
      tokens := (if e = RT_EOK then tokens s + 1 else tokens s),
      arrived := filter (\<lambda>t. suspended (ths t)) (arrived s)\<rparr>)"
| sem_timeout: "thread_timer (sem_threads s t) \<noteq> None \<Longrightarrow>
    thread_timeout t (sem_threads s) (suspend_thread (sem s)) = (ths, q) \<Longrightarrow>
    sem_step s (s\<lparr>sem_threads := ths, sem := (sem s)\<lparr>suspend_thread := q\<rparr>,
      returned := returned s @ woken (suspend_thread (sem s)) ths, arrived := filter (\<lambda>t. suspended (ths t)) (arrived s)\<rparr>)"
| sem_reset: "v < 0x10000 \<Longrightarrow> rt_sem_reset v (sem_threads s) (sem s) = Some (ths, m) \<Longrightarrow>
    sem_step s (s\<lparr>sem_threads := ths, sem := m, returned := [], tokens := unat v, arrived := []\<rparr>)"

inductive sem_reach :: "sem_sys \<Rightarrow> sem_sys \<Rightarrow> bool" for s0 where
  start: "sem_reach s0 s0"
| step: "sem_reach s0 s \<Longrightarrow> sem_step s s' \<Longrightarrow> sem_reach s0 s'"

definition granted :: "(nat \<times> rt_err) list \<Rightarrow> nat" where
  "granted rs = length (filter (\<lambda>(t, e). e = RT_EOK) rs)"

lemma granted_simps [simp]:
  "granted [] = 0" "granted (rs @ rs') = granted rs + granted rs'"
  "granted ((t, e) # rs) = (if e = RT_EOK then 1 else 0) + granted rs"
  by (simp_all add: granted_def)

section \<open>Invariant\<close>

definition sem_inv :: "sem_sys \<Rightarrow> bool" where
  "sem_inv s \<longleftrightarrow> list_ok (sem_threads s) (suspend_thread (sem s)) \<and>
     tokens s = unat (sem_value (sem s)) + granted (returned s) \<and>
     (suspend_thread (sem s) \<noteq> [] \<longrightarrow> sem_value (sem s) = 0) \<and> distinct (arrived s) \<and>
     wait_order (ipc_flag (sem s)) (\<lambda>t. current_priority (sem_threads s t)) (arrived s) = suspend_thread (sem s)"

lemma sem_start_inv:
  assumes "v < 0x10000" "\<forall>t. \<not> suspended (ths t) \<and> thread_timer (ths t) = None"
  shows "sem_inv (sem_start v flag ths)"
proof -
  have "unat (ucast v :: u16) = unat v" using assms(1) by (simp add: unsigned_ucast_eq word_less_nat_alt take_bit_nat_eq_self)
  then show ?thesis
    using assms(2) by (cases flag) (auto simp: sem_inv_def sem_start_def rt_sem_init_def list_ok_def wait_order_def)
qed

lemma arrived_filter:
  assumes "wait_order flag prio as = q" "distinct as" "list_ok ths q" "\<And>u. u \<noteq> t \<Longrightarrow> ths' u = ths u" "\<not> suspended (ths' t)"
  shows "wait_order flag prio (filter (\<lambda>u. suspended (ths' u)) as) = removeAll t q"
proof -
  have "suspended (ths' u) \<longleftrightarrow> u \<noteq> t" if "u \<in> set as" for u
    using assms that by (cases "u = t") (auto simp: list_ok_def)
  then have "filter (\<lambda>u. suspended (ths' u)) as = removeAll t as"
    unfolding removeAll_filter_not_eq by (intro filter_cong) auto
  then show ?thesis using assms(1) wait_order_removeAll [of t flag prio as] by simp
qed

lemma wait_order_cong: "(\<And>t. prio t = prio' t) \<Longrightarrow> wait_order flag prio as = wait_order flag prio' as"
  by (metis ext)

lemma release_inv:
  assumes inv: "sem_inv s" and r: "rt_sem_release (sem_threads s) (sem s) = Some (e, ths, m)"
  shows "sem_inv (s\<lparr>sem_threads := ths, sem := m, returned := returned s @ woken (suspend_thread (sem s)) ths,
      tokens := (if e = RT_EOK then tokens s + 1 else tokens s), arrived := filter (\<lambda>t. suspended (ths t)) (arrived s)\<rparr>)"
proof (cases "suspend_thread (sem s)")
  case Nil
  have a: "arrived s = []" using inv Nil by (metis sem_inv_def set_empty set_wait_order)
  show ?thesis
    using r inv Nil a by (auto simp: sem_inv_def rt_sem_release_def woken_def RT_SEM_VALUE_MAX_def unat_u16_Suc
        word_less_nat_alt split: if_splits)
next
  case (Cons t q)
  let ?ths = "(sem_threads s)(t := (sem_threads s t)\<lparr>th_error := RT_EOK, suspended := False, thread_timer := None\<rparr>)"
  have ok: "list_ok (sem_threads s) (t # q)" using inv Cons by (simp add: sem_inv_def)
  have e: "e = RT_EOK" "ths = ?ths" "m = (sem s)\<lparr>suspend_thread := q\<rparr>"
    using r Cons resume_head(1) [OF ok] by (auto simp: rt_sem_release_def)
  have w: "woken (t # q) ?ths = [(t, RT_EOK)]" by (subst woken_one [OF ok]) auto
  have q: "wait_order (ipc_flag (sem s)) (\<lambda>t. current_priority (sem_threads s t)) (filter (\<lambda>t. suspended (?ths t)) (arrived s)) = q"
    using arrived_filter [where q = "t # q" and as = "arrived s" and ths = "sem_threads s" and t = t and ths' = ?ths] inv Cons ok
    by (auto simp: sem_inv_def list_ok_def)
  have p: "current_priority (?ths u) = current_priority (sem_threads s u)" for u by simp
  show ?thesis
    using inv resume_head(2) [OF ok, of RT_EOK] q Cons unfolding e
    by (auto simp: sem_inv_def w p simp del: fun_upd_apply)
qed

lemma timeout_inv:
  assumes inv: "sem_inv s" and t: "thread_timer (sem_threads s t) \<noteq> None"
    and r: "thread_timeout t (sem_threads s) (suspend_thread (sem s)) = (ths, q)"
  shows "sem_inv (s\<lparr>sem_threads := ths, sem := (sem s)\<lparr>suspend_thread := q\<rparr>,
      returned := returned s @ woken (suspend_thread (sem s)) ths, arrived := filter (\<lambda>t. suspended (ths t)) (arrived s)\<rparr>)"
proof -
  have ok: "list_ok (sem_threads s) (suspend_thread (sem s))" using inv by (simp add: sem_inv_def)
  have tq: "t \<in> set (suspend_thread (sem s))" using ok t by (auto simp: list_ok_def)
  have e: "ths = (sem_threads s)(t := (sem_threads s t)\<lparr>th_error := RT_ETIMEOUT, suspended := False, thread_timer := None\<rparr>)"
    "q = removeAll t (suspend_thread (sem s))"
    using r by (simp_all add: thread_timeout_def)
  have w: "woken (suspend_thread (sem s)) ths = [(t, RT_ETIMEOUT)]"
    by (subst woken_one [OF ok tq]) (auto simp: e)
  have q: "wait_order (ipc_flag (sem s)) (\<lambda>t. current_priority (sem_threads s t)) (filter (\<lambda>t. suspended (ths t)) (arrived s)) = q"
    unfolding e(2) using inv ok by (intro arrived_filter) (auto simp: sem_inv_def e)
  have p: "current_priority (ths u) = current_priority (sem_threads s u)" for u by (simp add: e)
  have "suspend_thread (sem s) \<noteq> []" using tq by auto
  then show ?thesis using inv timeout_ok [OF ok r] q by (auto simp: sem_inv_def w p)
qed

lemma wait_inv:
  assumes inv: "sem_inv s" and t: "\<not> suspended (sem_threads s t)"
    and r: "rt_sem_take t timeout (sem_threads s) (sem s) = (Suspended, ths, m)"
  shows "sem_inv (s\<lparr>sem_threads := ths, sem := m, arrived := arrived s @ [t]\<rparr>)"
proof -
  let ?ths = "(sem_threads s)(t := (sem_threads s t)\<lparr>th_error := RT_EINTR\<rparr>)"
  have ok: "list_ok (sem_threads s) (suspend_thread (sem s))" using inv by (simp add: sem_inv_def)
  have v: "sem_value (sem s) = 0" using r by (auto simp: rt_sem_take_def word_gt_0 split: if_splits)
  obtain ths1 q1 where l: "ipc_list_suspend (ipc_flag (sem s)) t ?ths (suspend_thread (sem s)) = (ths1, q1)" by fastforce
  have e: "ths = start_thread_timer t timeout ths1" "m = (sem s)\<lparr>suspend_thread := q1\<rparr>"
    using r l v by (auto simp: rt_sem_take_def split: if_splits)
  have ok1: "list_ok ?ths (suspend_thread (sem s))" using ok by (auto simp: list_ok_def)
  have ns: "\<not> suspended (?ths t)" using t by simp
  have p0: "current_priority (?ths u) = current_priority (sem_threads s u)" for u by simp
  have qo: "wait_order (ipc_flag (sem s)) (\<lambda>u. current_priority (ths1 u)) (arrived s @ [t]) = q1"
    using inv by (intro suspend_order [OF _ l, symmetric]) (simp add: sem_inv_def p0 del: fun_upd_apply)
  have p: "current_priority (ths u) = current_priority (ths1 u)" for u by (simp add: e start_thread_timer_def)
  have d: "t \<notin> set (arrived s)" using inv t by (metis list_okD(2) sem_inv_def set_wait_order)
  show ?thesis
    using inv suspend_ok(1) [OF ok1 ns l, of timeout] qo v d by (auto simp: sem_inv_def e p [unfolded e])
qed

lemma reset_inv:
  assumes inv: "sem_inv s" and v: "v < 0x10000" and r: "rt_sem_reset v (sem_threads s) (sem s) = Some (ths, m)"
  shows "sem_inv (s\<lparr>sem_threads := ths, sem := m, returned := [], tokens := unat v, arrived := []\<rparr>)"
proof -
  have ok: "list_ok (sem_threads s) (suspend_thread (sem s))" using inv by (simp add: sem_inv_def)
  have u: "unat (ucast v :: u16) = unat v" using v by (simp add: unsigned_ucast_eq word_less_nat_alt take_bit_nat_eq_self)
  obtain q where q: "ipc_list_resume_all (sem_threads s) (suspend_thread (sem s)) = Some (ths, q)"
    "m = (sem s)\<lparr>suspend_thread := q, sem_value := ucast v\<rparr>"
    using r by (auto simp: rt_sem_reset_def split: bind_splits)
  show ?thesis
    using resume_all_list_ok [OF ok q(1)] u by (cases "ipc_flag (sem s)") (simp_all add: sem_inv_def q(2) wait_order_def)
qed

lemma sem_step_inv [c_inv]: "sem_step s s' \<Longrightarrow> sem_inv s \<Longrightarrow> sem_inv s'"
proof (induction rule: sem_step.induct)
  case (sem_take s t timeout e ths m)
  have "unat (sem_value (sem s)) = Suc (unat (sem_value (sem s) - 1))" if "0 < sem_value (sem s)"
    using that by (simp add: unat_minus_one_pos word_less_nat_alt)
  then show ?case
    using sem_take by (auto simp: rt_sem_take_def sem_inv_def split: if_splits prod.splits)
qed (simp_all add: wait_inv release_inv timeout_inv reset_inv del: not_None_eq)

lemma sem_reach_inv: "sem_reach s0 s \<Longrightarrow> sem_inv s0 \<Longrightarrow> sem_inv s"
  by (induction rule: sem_reach.induct) (auto intro: sem_step_inv)

section \<open>Properties\<close>

lemma sem_reach_start:
  "v < 0x10000 \<Longrightarrow> fresh_threads ths \<Longrightarrow> sem_reach (sem_start v flag ths) s \<Longrightarrow> sem_inv s"
  by (erule sem_reach_inv) (simp add: sem_start_inv fresh_threads_def)

text \<open>Thread 1 waits, then thread 2 with a higher priority: the list is 2, 1.\<close>

lemma sem_demo:
  "\<exists>s. sem_reach (sem_start 0 RT_IPC_FLAG_PRIO demo_threads) s \<and> suspend_thread (sem s) = [2, 1]"
proof -
  let ?s0 = "sem_start 0 RT_IPC_FLAG_PRIO demo_threads"
  obtain o1 ths1 m1 where e1: "rt_sem_take 1 (-1) (sem_threads ?s0) (sem ?s0) = (o1, ths1, m1)" by (metis prod_cases3)
  have t1: "rt_sem_take 1 (-1) (sem_threads ?s0) (sem ?s0) = (Suspended, ths1, m1)"
    "suspend_thread m1 = [1]" "ipc_flag m1 = RT_IPC_FLAG_PRIO" "sem_value m1 = 0"
    "\<not> suspended (ths1 2)" "current_priority (ths1 1) = 20" "current_priority (ths1 2) = 10"
    using e1 by (auto simp: sem_start_def rt_sem_init_def rt_sem_take_def ipc_list_suspend_def start_thread_timer_def
        demo_threads_def Let_def)
  let ?s1 = "?s0\<lparr>sem_threads := ths1, sem := m1, arrived := arrived ?s0 @ [1]\<rparr>"
  have r1: "sem_reach ?s0 ?s1"
    by (rule sem_reach.step [OF sem_reach.start sem_wait [OF _ t1(1)]]) (simp add: sem_start_def demo_threads_def)
  obtain o2 ths2 m2 where e2: "rt_sem_take 2 (-1) (sem_threads ?s1) (sem ?s1) = (o2, ths2, m2)" by (metis prod_cases3)
  have t2: "rt_sem_take 2 (-1) (sem_threads ?s1) (sem ?s1) = (Suspended, ths2, m2)" "suspend_thread m2 = [2, 1]"
    using e2 t1(2-) by (auto simp: rt_sem_take_def ipc_list_suspend_def start_thread_timer_def Let_def)
  have "sem_reach ?s0 (?s1\<lparr>sem_threads := ths2, sem := m2, arrived := arrived ?s1 @ [2]\<rparr>)"
    by (rule sem_reach.step [OF r1 sem_wait [OF _ t2(1)]]) (simp add: t1(5))
  then show ?thesis using t2(2) by (intro exI conjI) (assumption, simp)
qed

text \<open>In every interleaving of takes, releases, time-outs and resets, tokens are neither lost nor
  invented: those put in since the last reset are those in the counter and those granted by a take
  that returned \<open>RT_EOK\<close>; a thread waits only while the counter is 0, the suspend list holds exactly
  the suspended threads, and its order is the order of arrival, sorted by priority if the flag says so.\<close>

lemma sem_tokens:
  assumes "v < 0x10000" "fresh_threads ths" "sem_reach (sem_start v flag ths) s"
  shows "tokens s = unat (sem_value (sem s)) + granted (returned s) \<and>
    (suspend_thread (sem s) \<noteq> [] \<longrightarrow> sem_value (sem s) = 0) \<and>
    (\<forall>t. suspended (sem_threads s t) \<longleftrightarrow> t \<in> set (suspend_thread (sem s))) \<and>
    wait_order (ipc_flag (sem s)) (\<lambda>t. current_priority (sem_threads s t)) (arrived s) = suspend_thread (sem s)"
  using sem_reach_start [OF assms] by (auto simp: sem_inv_def list_ok_def)

theorem sem_tokens_witness:
  "\<exists>s :: sem_sys. suspend_thread (sem s) = [2, 1] \<and> tokens s = unat (sem_value (sem s)) + granted (returned s) \<and> sem_value (sem s) = 0"
proof -
  obtain s where s: "sem_reach (sem_start 0 RT_IPC_FLAG_PRIO demo_threads) s" "suspend_thread (sem s) = [2, 1]"
    using sem_demo by blast
  have z: "(0::u32) < 0x10000" by simp
  show ?thesis using sem_tokens [OF z fresh_demo s(1)] s(2) by (intro exI [of _ s]) simp
qed

text \<open>A release while threads wait hands its token straight to one of them, which returns \<open>RT_EOK\<close>,
  and wakes no other: the one that came first, or with the priority flag the first to come among the
  most urgent ones.\<close>

lemma sem_release_wakes:
  assumes "v < 0x10000" "fresh_threads ths" "sem_reach (sem_start v flag ths) s" "suspend_thread (sem s) = t # q"
  shows "\<exists>ths'. rt_sem_release (sem_threads s) (sem s) = Some (RT_EOK, ths', (sem s)\<lparr>suspend_thread := q\<rparr>) \<and>
    woken (t # q) ths' = [(t, RT_EOK)] \<and>
    (case ipc_flag (sem s) of
       RT_IPC_FLAG_FIFO \<Rightarrow> hd (arrived s) = t
     | RT_IPC_FLAG_PRIO \<Rightarrow> (\<forall>u \<in> set q. current_priority (sem_threads s t) \<le> current_priority (sem_threads s u)) \<and>
         hd (filter (\<lambda>u. current_priority (sem_threads s u) = current_priority (sem_threads s t)) (arrived s)) = t)"
proof -
  have inv: "sem_inv s" by (rule sem_reach_start [OF assms(1-3)])
  have ok: "list_ok (sem_threads s) (t # q)" using inv assms(4) by (simp add: sem_inv_def)
  have w: "wait_order (ipc_flag (sem s)) (\<lambda>t. current_priority (sem_threads s t)) (arrived s) = t # q"
    using inv assms(4) by (simp add: sem_inv_def)
  have "case ipc_flag (sem s) of
       RT_IPC_FLAG_FIFO \<Rightarrow> hd (arrived s) = t
     | RT_IPC_FLAG_PRIO \<Rightarrow> (\<forall>u \<in> set q. current_priority (sem_threads s t) \<le> current_priority (sem_threads s u)) \<and>
         hd (filter (\<lambda>u. current_priority (sem_threads s u) = current_priority (sem_threads s t)) (arrived s)) = t"
  proof (cases "ipc_flag (sem s)")
    case RT_IPC_FLAG_FIFO
    then show ?thesis using w by (simp add: wait_order_def)
  next
    case RT_IPC_FLAG_PRIO
    then show ?thesis using wait_order_head [OF w [unfolded RT_IPC_FLAG_PRIO]] by simp
  qed
  moreover have "woken (t # q) ((sem_threads s)(t := (sem_threads s t)\<lparr>th_error := RT_EOK, suspended := False, thread_timer := None\<rparr>)) =
      [(t, RT_EOK)]"
    by (subst woken_one [OF ok, of t]) simp_all
  ultimately show ?thesis using resume_head(1) [OF ok] assms(4) by (simp add: rt_sem_release_def)
qed

theorem sem_release_wakes_witness:
  "\<exists>(s :: sem_sys) ths'. suspend_thread (sem s) = [2, 1] \<and>
    rt_sem_release (sem_threads s) (sem s) = Some (RT_EOK, ths', (sem s)\<lparr>suspend_thread := [1]\<rparr>) \<and>
    woken [2, 1] ths' = [(2, RT_EOK)]"
proof -
  obtain s where s: "sem_reach (sem_start 0 RT_IPC_FLAG_PRIO demo_threads) s" "suspend_thread (sem s) = [2, 1]"
    using sem_demo by blast
  have z: "(0::u32) < 0x10000" by simp
  show ?thesis using sem_release_wakes [OF z fresh_demo s] s(2) by blast
qed

end
