(* ===== verification/EventFlags.thy ===== *)
theory EventFlags
  imports Ipc
begin

text \<open>
  The event flags of the kernel (\<open>rt-thread/src/ipc.c\<close>): 32 bits that \<open>TCA9535\<close>'s input thread sets for
  the up-load of the CAN lines, and threads that wait for one bit or all bits of a set. The system around
  one event is a step relation; the promise to the waiting threads is a specification without lists.
\<close>

section \<open>Operations\<close>

record rt_event = ipc_object +
  ev_set :: u32

definition RT_EVENT_FLAG_AND :: u8 where "RT_EVENT_FLAG_AND = 0x01"
definition RT_EVENT_FLAG_OR :: u8 where "RT_EVENT_FLAG_OR = 0x02"
definition RT_EVENT_FLAG_CLEAR :: u8 where "RT_EVENT_FLAG_CLEAR = 0x04"

definition rt_event_init :: "ipc_flag \<Rightarrow> rt_event" where
  "rt_event_init flag = \<lparr>ipc_flag = flag, suspend_thread = [], ev_set = 0\<rparr>"

text \<open>
  The loop of \<open>rt_event_send\<close> over the nodes \<open>ns\<close> of the suspend list \<open>q\<close>, with \<open>need_clear_set\<close>. It
  stops with \<open>False\<close> at a thread whose option is neither AND nor OR.
\<close>

fun event_scan :: "u32 \<Rightarrow> nat list \<Rightarrow> threads \<Rightarrow> nat list \<Rightarrow> u32 \<Rightarrow> bool \<times> threads \<times> nat list \<times> u32" where
  "event_scan eset [] ths q clear = (True, ths, q, clear)"
| "event_scan eset (t # ns) ths q clear =
    (let th = ths t; info = event_info th in
     if info AND RT_EVENT_FLAG_AND = 0 \<and> info AND RT_EVENT_FLAG_OR = 0 then (False, ths, q, clear)
     else (let (status, th) =
         (if info AND RT_EVENT_FLAG_AND \<noteq> 0 then (event_set th AND eset = event_set th, th)
          else if event_set th AND eset \<noteq> 0 then (True, th\<lparr>event_set := event_set th AND eset\<rparr>)
          else (False, th))
       in if status then
         (let clear = (if info AND RT_EVENT_FLAG_CLEAR \<noteq> 0 then clear OR event_set th else clear);
              (ths, q) = rt_thread_resume t (ths(t := th)) q;
              ths = ths(t := (ths t)\<lparr>th_error := RT_EOK\<rparr>)
          in event_scan eset ns ths q clear)
       else event_scan eset ns ths q clear))"

definition rt_event_send :: "threads \<Rightarrow> rt_event \<Rightarrow> u32 \<Rightarrow> rt_err \<times> threads \<times> rt_event" where
  "rt_event_send ths ev eset =
    (if eset = 0 then (RT_ERROR, ths, ev)
     else (let ev = ev\<lparr>ev_set := ev_set ev OR eset\<rparr> in
       case event_scan (ev_set ev) (suspend_thread ev) ths (suspend_thread ev) 0 of
         (False, ths, q, clear) \<Rightarrow> (RT_EINVAL, ths, ev\<lparr>suspend_thread := q\<rparr>)
       | (True, ths, q, clear) \<Rightarrow>
           (RT_EOK, ths, ev\<lparr>suspend_thread := q,
              ev_set := (if clear \<noteq> 0 then ev_set ev AND NOT clear else ev_set ev)\<rparr>)))"

text \<open>
  \<open>_rt_event_recv\<close> up to \<open>rt_schedule\<close>; \<open>None\<close> is the assertion that the option names AND or OR. The
  result of a finished call is the error code and what it writes to \<open>recved\<close>; \<open>event_recv_rest\<close> is the
  part after \<open>rt_schedule\<close>.
\<close>

definition rt_event_recv :: "nat \<Rightarrow> threads \<Rightarrow> rt_event \<Rightarrow> u32 \<Rightarrow> u8 \<Rightarrow> int
    \<Rightarrow> ((rt_err \<times> u32 option) outcome \<times> threads \<times> rt_event) option" where
  "rt_event_recv t ths ev eset option timeout =
    (if eset = 0 then Some (Ready (RT_ERROR, None), ths, ev)
     else (let ths = ths(t := (ths t)\<lparr>th_error := RT_EINTR\<rparr>) in do {
       status \<leftarrow> (if option AND RT_EVENT_FLAG_AND \<noteq> 0 then Some (ev_set ev AND eset = eset)
                  else if option AND RT_EVENT_FLAG_OR \<noteq> 0 then Some (ev_set ev AND eset \<noteq> 0)
                  else None);
       Some (if status then
           (Ready (RT_EOK, Some (ev_set ev AND eset)),
            ths(t := (ths t)\<lparr>th_error := RT_EOK, event_set := ev_set ev AND eset, event_info := option\<rparr>),
            if option AND RT_EVENT_FLAG_CLEAR \<noteq> 0 then ev\<lparr>ev_set := ev_set ev AND NOT eset\<rparr> else ev)
         else if timeout = 0 then
           (Ready (RT_ETIMEOUT, None), ths(t := (ths t)\<lparr>th_error := RT_ETIMEOUT\<rparr>), ev)
         else (let ths = ths(t := (ths t)\<lparr>event_set := eset, event_info := option\<rparr>);
                   (ths, q) = ipc_list_suspend (ipc_flag ev) t ths (suspend_thread ev)
               in (Suspended, start_thread_timer t timeout ths, ev\<lparr>suspend_thread := q\<rparr>)))
     }))"

definition event_recv_rest :: "rt_thread \<Rightarrow> rt_err \<times> u32 option" where
  "event_recv_rest th = (if th_error th \<noteq> RT_EOK then (th_error th, None) else (RT_EOK, Some (event_set th)))"

text \<open>\<open>rt_event_control\<close> with \<open>RT_IPC_CMD_RESET\<close>, and \<open>rt_event_detach\<close>.\<close>

definition rt_event_reset :: "threads \<Rightarrow> rt_event \<Rightarrow> (threads \<times> rt_event) option" where
  "rt_event_reset ths ev = do {
     (ths, q) \<leftarrow> ipc_list_resume_all ths (suspend_thread ev);
     Some (ths, ev\<lparr>suspend_thread := q, ev_set := 0\<rparr>)
   }"

definition rt_event_detach :: "threads \<Rightarrow> rt_event \<Rightarrow> (threads \<times> rt_event) option" where
  "rt_event_detach ths ev = do {
     (ths, q) \<leftarrow> ipc_list_resume_all ths (suspend_thread ev);
     Some (ths, ev\<lparr>suspend_thread := q\<rparr>)
   }"

section \<open>What a waiting thread is promised\<close>

text \<open>
  \<open>wants opt eset bits\<close>: the condition of a receive. \<open>event_wants\<close> is the condition of a thread.
\<close>

definition wants :: "u8 \<Rightarrow> u32 \<Rightarrow> u32 \<Rightarrow> bool" where
  "wants opt eset bits \<longleftrightarrow> (if bit opt 0 then eset AND bits = eset else eset AND bits \<noteq> 0)"

definition valid_wait :: "rt_thread \<Rightarrow> bool" where
  "valid_wait th \<longleftrightarrow> (bit (event_info th) 0 \<or> bit (event_info th) 1) \<and> event_set th \<noteq> 0"

abbreviation event_wants :: "u32 \<Rightarrow> rt_thread \<Rightarrow> bool" where
  "event_wants bits th \<equiv> wants (event_info th) (event_set th) bits"

text \<open>What a list of threads takes away when they are woken at \<open>bits\<close>.\<close>

definition taken :: "u32 \<Rightarrow> rt_thread list \<Rightarrow> u32" where
  "taken bits ths = foldr (OR) (map (\<lambda>th. event_set th AND bits) (filter (\<lambda>th. bit (event_info th) 2) ths)) 0"

lemma flag_bits [simp]:
  "opt AND RT_EVENT_FLAG_AND = 0 \<longleftrightarrow> \<not> bit opt 0" "opt AND RT_EVENT_FLAG_OR = 0 \<longleftrightarrow> \<not> bit opt (Suc 0)"
  "opt AND RT_EVENT_FLAG_CLEAR = 0 \<longleftrightarrow> \<not> bit opt 2"
proof -
  have m: "opt AND 2 ^ n = 0 \<longleftrightarrow> \<not> bit opt n" if "n < 8" for n
    using that by (auto simp: and_exp_eq_0_iff_not_bit)
  show "opt AND RT_EVENT_FLAG_AND = 0 \<longleftrightarrow> \<not> bit opt 0" "opt AND RT_EVENT_FLAG_OR = 0 \<longleftrightarrow> \<not> bit opt (Suc 0)"
    "opt AND RT_EVENT_FLAG_CLEAR = 0 \<longleftrightarrow> \<not> bit opt 2"
    using m [of 0] m [of 1] m [of 2] by (simp_all add: RT_EVENT_FLAG_AND_def RT_EVENT_FLAG_OR_def RT_EVENT_FLAG_CLEAR_def)
qed

lemma wants_mono:
  assumes "wants opt eset bits" "bits AND bits' = bits"
  shows "wants opt eset bits'"
proof (cases "bit opt 0")
  case True
  with assms(1) have s: "eset AND bits = eset" by (simp add: wants_def)
  have "eset AND bits' = (eset AND bits) AND bits'" using s by simp
  also have "\<dots> = eset AND (bits AND bits')" by (simp add: and.assoc)
  also have "\<dots> = eset" using s assms(2) by simp
  finally show ?thesis using True by (simp add: wants_def)
next
  case False
  with assms(1) have s: "eset AND bits \<noteq> 0" by (simp add: wants_def)
  have "eset AND bits' \<noteq> 0"
  proof
    assume z: "eset AND bits' = 0"
    have "eset AND bits = eset AND (bits AND bits')" using assms(2) by simp
    also have "\<dots> = (eset AND bits') AND bits" by (simp add: and.commute and.left_commute)
    also have "\<dots> = 0" using z by simp
    finally show False using s by simp
  qed
  then show ?thesis using False by (simp add: wants_def)
qed

lemma and_not_below: "(bits AND NOT c) AND bits = bits AND NOT (c :: u32)"
  by (rule bit_word_eqI) (auto simp: bit_simps)

section \<open>The scan of the waiting threads\<close>

definition woken_thread :: "u32 \<Rightarrow> rt_thread \<Rightarrow> rt_thread" where
  "woken_thread bits th =
    th\<lparr>event_set := event_set th AND bits, suspended := False, thread_timer := None, th_error := RT_EOK\<rparr>"

definition wake :: "u32 \<Rightarrow> nat list \<Rightarrow> threads \<Rightarrow> threads" where
  "wake bits ns ths = (\<lambda>t. if t \<in> set ns \<and> event_wants bits (ths t) then woken_thread bits (ths t) else ths t)"

lemma event_scan_step:
  assumes "list_ok ths (pre @ t # ns)" "valid_wait (ths t)"
  shows "event_scan bits (t # ns) ths (pre @ t # ns) c =
    (if event_wants bits (ths t) then event_scan bits ns (ths(t := woken_thread bits (ths t))) (pre @ ns)
       (if bit (event_info (ths t)) 2 then c OR (event_set (ths t) AND bits) else c)
     else event_scan bits ns ths (pre @ t # ns) c)"
proof -
  have s: "suspended (ths t)" and r: "removeAll t (pre @ t # ns) = pre @ ns"
    using assms(1) by (auto simp: list_ok_def)
  have v: "bit (event_info (ths t)) 0 \<or> bit (event_info (ths t)) 1" using assms(2) by (simp add: valid_wait_def)
  show ?thesis
    using s v r
    by (auto simp: Let_def wants_def woken_thread_def rt_thread_resume_def split: prod.split)
qed

lemma list_ok_drop:
  assumes "list_ok ths (pre @ t # ns)" "\<not> suspended th" "thread_timer th = None"
  shows "list_ok (ths(t := th)) (pre @ ns)"
  using assms by (auto simp: list_ok_def)

lemma taken_Cons: "taken bits (th # ths) =
  (if bit (event_info th) 2 then (event_set th AND bits) OR taken bits ths else taken bits ths)"
  by (simp add: taken_def)

lemma bit_taken_set: "bit (taken bits ths) n \<longleftrightarrow> bit bits n \<and> (\<exists>th \<in> set ths. bit (event_info th) 2 \<and> bit (event_set th) n)"
  by (induction ths) (auto simp: taken_Cons bit_simps, auto simp: taken_def)

lemma event_scan_ok:
  assumes "list_ok ths (pre @ ns)" "\<forall>t \<in> set ns. valid_wait (ths t)"
  shows "event_scan bits ns ths (pre @ ns) c =
    (True, wake bits ns ths, pre @ filter (\<lambda>t. \<not> event_wants bits (ths t)) ns,
     c OR taken bits (map ths (filter (\<lambda>t. event_wants bits (ths t)) ns)))"
  using assms
proof (induction ns arbitrary: pre ths c)
  case Nil
  then show ?case by (simp add: wake_def taken_def)
next
  case (Cons t ns)
  have v: "valid_wait (ths t)" and d: "t \<notin> set ns" using Cons.prems by (auto simp: list_ok_def)
  show ?case
  proof (cases "event_wants bits (ths t)")
    case True
    let ?ths = "ths(t := woken_thread bits (ths t))"
    have u: "?ths u = ths u" if "u \<in> set ns" for u using that d by auto
    have ok: "list_ok ?ths (pre @ ns)" by (rule list_ok_drop [OF Cons.prems(1)]) (simp_all add: woken_thread_def)
    have m: "map ?ths (filter (\<lambda>t. event_wants bits (?ths t)) ns) = map ths (filter (\<lambda>t. event_wants bits (ths t)) ns)"
      "filter (\<lambda>t. \<not> event_wants bits (?ths t)) ns = filter (\<lambda>t. \<not> event_wants bits (ths t)) ns"
      using u by (auto cong: filter_cong)
    have w: "wake bits ns ?ths = wake bits (t # ns) ths" using True d by (auto simp: wake_def fun_eq_iff)
    show ?thesis
      using Cons.prems(2) True u
      by (simp add: event_scan_step [OF Cons.prems(1) v] Cons.IH [OF ok] m w taken_Cons or.assoc del: event_scan.simps fun_upd_apply)
  next
    case False
    have w: "wake bits (t # ns) ths = wake bits ns ths" using False by (auto simp: wake_def fun_eq_iff)
    show ?thesis
      using Cons.prems Cons.IH [of ths "pre @ [t]" c] False
      by (simp add: event_scan_step [OF Cons.prems(1) v] w del: event_scan.simps)
  qed
qed

lemma event_send_ok:
  assumes "list_ok ths (suspend_thread ev)" "\<forall>t \<in> set (suspend_thread ev). valid_wait (ths t)" "b \<noteq> 0"
    and "bits = ev_set ev OR b"
  shows "rt_event_send ths ev b =
    (RT_EOK, wake bits (suspend_thread ev) ths,
     ev\<lparr>suspend_thread := filter (\<lambda>t. \<not> event_wants bits (ths t)) (suspend_thread ev),
       ev_set := bits AND NOT (taken bits (map ths (filter (\<lambda>t. event_wants bits (ths t)) (suspend_thread ev))))\<rparr>)"
  using event_scan_ok [of ths "[]" "suspend_thread ev" bits 0] assms by (simp add: rt_event_send_def Let_def)

lemma wake_apply: "wake bits ns ths t = (if t \<in> set ns \<and> event_wants bits (ths t) then woken_thread bits (ths t) else ths t)"
  by (simp add: wake_def)

lemma wake_list_ok:
  assumes "list_ok ths q"
  shows "list_ok (wake bits q ths) (filter (\<lambda>t. \<not> event_wants bits (ths t)) q)"
  using assms by (auto simp: list_ok_def wake_def woken_thread_def)

section \<open>Threads around an event\<close>

inductive event_step :: "threads \<times> rt_event \<Rightarrow> threads \<times> rt_event \<Rightarrow> bool" where
  ev_recv: "\<not> suspended (ths t) \<Longrightarrow> rt_event_recv t ths ev eset option timeout = Some (r, ths', ev') \<Longrightarrow>
    event_step (ths, ev) (ths', ev')"
| ev_send: "rt_event_send ths ev b = (e, ths', ev') \<Longrightarrow> event_step (ths, ev) (ths', ev')"
| ev_timeout: "thread_timer (ths t) \<noteq> None \<Longrightarrow> thread_timeout t ths (suspend_thread ev) = (ths', q) \<Longrightarrow>
    event_step (ths, ev) (ths', ev\<lparr>suspend_thread := q\<rparr>)"
| ev_reset: "rt_event_reset ths ev = Some (ths', ev') \<Longrightarrow> event_step (ths, ev) (ths', ev')"

inductive event_reach :: "threads \<times> rt_event \<Rightarrow> threads \<times> rt_event \<Rightarrow> bool" for s0 where
  start: "event_reach s0 s0"
| step: "event_reach s0 s \<Longrightarrow> event_step s s' \<Longrightarrow> event_reach s0 s'"

definition ev_inv :: "threads \<times> rt_event \<Rightarrow> bool" where
  "ev_inv s \<longleftrightarrow> (case s of (ths, ev) \<Rightarrow> list_ok ths (suspend_thread ev) \<and>
     (\<forall>t \<in> set (suspend_thread ev). valid_wait (ths t) \<and> \<not> event_wants (ev_set ev) (ths t)))"

lemma recv_inv:
  assumes inv: "ev_inv (ths, ev)" and t: "\<not> suspended (ths t)"
    and r: "rt_event_recv t ths ev eset option timeout = Some (res, ths', ev')"
  shows "ev_inv (ths', ev')"
proof -
  let ?th = "\<lambda>ths' ev'. list_ok ths' (suspend_thread ev') \<and> ev_inv (ths', ev')"
  have ok: "list_ok ths (suspend_thread ev)" and tq: "t \<notin> set (suspend_thread ev)"
    using inv t by (auto simp: ev_inv_def list_ok_def)
  have other: "ev_inv (ths(t := th), ev\<lparr>ev_set := ev_set ev AND c\<rparr>)"
    if "\<not> suspended th" "thread_timer th = thread_timer (ths t)" for th c
    using inv tq that wants_mono [of _ _ "ev_set ev AND c" "ev_set ev"]
    by (auto simp: ev_inv_def list_ok_def and.assoc and.commute and.left_commute)
  have same: "ev_inv (ths(t := th), ev)" if "\<not> suspended th" "thread_timer th = thread_timer (ths t)" for th
    using inv tq that by (auto simp: ev_inv_def list_ok_def)
  show ?thesis
  proof (cases res)
    case (Ready x)
    then show ?thesis
      using r inv t other same by (auto simp: rt_event_recv_def Let_def split: if_splits bind_splits prod.splits)
  next
    case Suspended
    let ?ths = "ths(t := (ths t)\<lparr>th_error := RT_EINTR, event_set := eset, event_info := option\<rparr>)"
    obtain ths1 q1 where l: "ipc_list_suspend (ipc_flag ev) t ?ths (suspend_thread ev) = (ths1, q1)" by fastforce
    have e: "ths' = start_thread_timer t timeout ths1" "ev' = ev\<lparr>suspend_thread := q1\<rparr>"
      and v: "bit option 0 \<or> bit option 1" "eset \<noteq> 0" "\<not> wants option eset (ev_set ev)"
      using r l Suspended
      by (auto simp: rt_event_recv_def Let_def wants_def and.commute [of eset "ev_set ev"] split: if_splits bind_splits prod.splits)
    have ok1: "list_ok ?ths (suspend_thread ev)" using ok by (auto simp: list_ok_def)
    have ns: "\<not> suspended (?ths t)" using t by simp
    note so = suspend_ok [OF ok1 ns l]
    have same: "event_info (ths' u) = event_info (?ths u)" "event_set (ths' u) = event_set (?ths u)" for u
      using l by (auto simp: e start_thread_timer_def ipc_list_suspend_def Let_def split: if_splits)
    show ?thesis
      using inv so v tq by (auto simp: ev_inv_def e valid_wait_def same [unfolded e])
  qed
qed

lemma send_inv:
  assumes inv: "ev_inv (ths, ev)" and r: "rt_event_send ths ev b = (e, ths', ev')"
  shows "ev_inv (ths', ev')"
proof (cases "b = 0")
  case False
  have ok: "list_ok ths (suspend_thread ev)" "\<forall>t \<in> set (suspend_thread ev). valid_wait (ths t)"
    using inv by (auto simp: ev_inv_def)
  let ?bits = "ev_set ev OR b"
  have m: "\<not> wants opt es (?bits AND NOT c)" if "\<not> wants opt es ?bits" for opt es c
    using that wants_mono and_not_below by blast
  show ?thesis
    using r ok(2) m event_send_ok [OF ok False refl] wake_list_ok [OF ok(1), of ?bits]
    by (auto simp: ev_inv_def wake_apply)
qed (use assms in \<open>simp add: rt_event_send_def\<close>)

lemma event_step_inv [c_inv]:
  assumes "event_step s s'" "ev_inv s"
  shows "ev_inv s'"
  using assms
proof (induction rule: event_step.induct)
  case (ev_timeout ths t ev ths' q)
  have ok: "list_ok ths' q" by (rule timeout_ok [OF _ ev_timeout(2)]) (use ev_timeout(3) in \<open>simp add: ev_inv_def\<close>)
  have e: "ths' u = ths u" if "u \<noteq> t" for u using ev_timeout(2) that by (auto simp: thread_timeout_def)
  have q: "q = removeAll t (suspend_thread ev)" using ev_timeout(2) by (simp add: thread_timeout_def)
  show ?case using ev_timeout(3) ok e by (auto simp: ev_inv_def q)
next
  case (ev_reset ths ev ths' ev')
  have ok: "list_ok ths (suspend_thread ev)" using ev_reset(2) by (simp add: ev_inv_def)
  obtain q where q: "ipc_list_resume_all ths (suspend_thread ev) = Some (ths', q)"
    "ev' = ev\<lparr>suspend_thread := q, ev_set := 0\<rparr>"
    using ev_reset(1) by (auto simp: rt_event_reset_def split: bind_splits)
  show ?case using resume_all_list_ok [OF ok q(1)] by (simp add: ev_inv_def q(2))
next
  case (ev_recv ths t ev eset option timeout r ths' ev')
  show ?case by (rule recv_inv [OF ev_recv(3,1,2)])
next
  case (ev_send ths ev b e ths' ev')
  show ?case by (rule send_inv [OF ev_send(2,1)])
qed

lemma event_reach_inv:
  assumes "event_reach (ths0, rt_event_init flag) s" "fresh_threads ths0"
  shows "ev_inv s"
  using assms(1)
proof (induction rule: event_reach.induct)
  case start
  then show ?case using assms(2) by (auto simp: ev_inv_def fresh_threads_def rt_event_init_def list_ok_def)
qed (rule event_step_inv)

section \<open>Properties\<close>

text \<open>Thread 1 waits for bit 0 and clears it, then thread 2 for the bits 0 and 1.\<close>

lemma event_demo:
  "\<exists>ths ev. event_reach (demo_threads, rt_event_init RT_IPC_FLAG_FIFO) (ths, ev) \<and> suspend_thread ev = [1, 2] \<and>
    ev_set ev = 0 \<and> event_set (ths 1) = 1 \<and> event_info (ths 1) = 6 \<and> event_set (ths 2) = 3 \<and> event_info (ths 2) = 1"
proof -
  let ?s0 = "(demo_threads, rt_event_init RT_IPC_FLAG_FIFO)"
  have "\<exists>ths1 ev1. rt_event_recv 1 demo_threads (rt_event_init RT_IPC_FLAG_FIFO) 1 6 (-1) = Some (Suspended, ths1, ev1) \<and>
      suspend_thread ev1 = [1] \<and> ev_set ev1 = 0 \<and> ipc_flag ev1 = RT_IPC_FLAG_FIFO \<and> event_set (ths1 1) = 1 \<and>
      event_info (ths1 1) = 6 \<and> \<not> suspended (ths1 2)"
    by (simp add: rt_event_recv_def rt_event_init_def ipc_list_suspend_def start_thread_timer_def demo_threads_def Let_def)
  then obtain ths1 ev1 where r1: "rt_event_recv 1 demo_threads (rt_event_init RT_IPC_FLAG_FIFO) 1 6 (-1) = Some (Suspended, ths1, ev1)"
    and s1: "suspend_thread ev1 = [1]" "ev_set ev1 = 0" "ipc_flag ev1 = RT_IPC_FLAG_FIFO" "event_set (ths1 1) = 1"
      "event_info (ths1 1) = 6" "\<not> suspended (ths1 2)"
    by blast
  have t1: "event_reach ?s0 (ths1, ev1)"
    by (rule event_reach.step [OF event_reach.start ev_recv [OF _ r1]]) (simp add: demo_threads_def)
  have "\<exists>ths2 ev2. rt_event_recv 2 ths1 ev1 3 1 (-1) = Some (Suspended, ths2, ev2) \<and>
      suspend_thread ev2 = [1, 2] \<and> ev_set ev2 = 0 \<and> event_set (ths2 1) = 1 \<and> event_info (ths2 1) = 6 \<and>
      event_set (ths2 2) = 3 \<and> event_info (ths2 2) = 1"
    using s1 by (simp add: rt_event_recv_def ipc_list_suspend_def start_thread_timer_def Let_def)
  then obtain ths2 ev2 where r2: "rt_event_recv 2 ths1 ev1 3 1 (-1) = Some (Suspended, ths2, ev2)"
    and s2: "suspend_thread ev2 = [1, 2]" "ev_set ev2 = 0" "event_set (ths2 1) = 1" "event_info (ths2 1) = 6"
      "event_set (ths2 2) = 3" "event_info (ths2 2) = 1"
    by blast
  have "event_reach ?s0 (ths2, ev2)" by (rule event_reach.step [OF t1 ev_recv [OF s1(6) r2]])
  then show ?thesis using s2 by blast
qed

text \<open>C20: No wake-up of an event is lost: in every interleaving of receives, sends, time-outs and resets the
  suspended threads are those of the list, and the bits of the event satisfy the condition of none of
  them; so a thread whose condition holds never waits.\<close>

theorem event_no_lost_wakeup:
  assumes "fresh_threads ths0" "event_reach (ths0, rt_event_init flag) (ths, ev)"
  shows "distinct (suspend_thread ev) \<and>
    (\<forall>t. suspended (ths t) \<longleftrightarrow> t \<in> set (suspend_thread ev)) \<and>
    (\<forall>t \<in> set (suspend_thread ev). \<not> event_wants (ev_set ev) (ths t))"
  using event_reach_inv [OF assms(2,1)] by (auto simp: ev_inv_def list_ok_def)

theorem event_no_lost_wakeup_witness:
  "\<exists>(ths :: threads) ev. suspend_thread ev = [1, 2] \<and> (\<forall>t. suspended (ths t) \<longleftrightarrow> t \<in> {1, 2}) \<and>
    \<not> event_wants (ev_set (ev :: rt_event)) (ths 1) \<and> \<not> event_wants (ev_set ev) (ths 2)"
proof -
  obtain ths ev where s: "event_reach (demo_threads, rt_event_init RT_IPC_FLAG_FIFO) (ths, ev)" "suspend_thread ev = [1, 2]"
    using event_demo by blast
  show ?thesis using event_no_lost_wakeup [OF fresh_demo s(1)] s(2) by (intro exI [of _ ths] exI [of _ ev]) simp
qed

text \<open>A send of bits gives them to all threads at once: it ends with \<open>RT_EOK\<close>, wakes exactly the threads
  whose condition holds under the old and the new bits, each with the bits of its set, whatever another
  woken thread clears; the others keep their places; afterwards the bits are the old and the new ones
  without those that woken threads clear.\<close>

lemma event_send_wakes:
  assumes "fresh_threads ths0" "event_reach (ths0, rt_event_init flag) (ths, ev)" "b \<noteq> 0"
  defines "bits \<equiv> ev_set ev OR b"
  shows "\<exists>ths' ev'. rt_event_send ths ev b = (RT_EOK, ths', ev') \<and>
    suspend_thread ev' = filter (\<lambda>t. \<not> event_wants bits (ths t)) (suspend_thread ev) \<and>
    (\<forall>t. event_recv_rest (ths' t) =
       (if suspended (ths t) \<and> event_wants bits (ths t) then (RT_EOK, Some (event_set (ths t) AND bits)) else event_recv_rest (ths t))) \<and>
    (\<forall>n. bit (ev_set ev') n \<longleftrightarrow> bit bits n \<and>
       \<not> (\<exists>t. suspended (ths t) \<and> event_wants bits (ths t) \<and> bit (event_info (ths t)) 2 \<and> bit (event_set (ths t)) n))"
proof -
  have ok: "list_ok ths (suspend_thread ev)" "\<forall>t \<in> set (suspend_thread ev). valid_wait (ths t)"
    using event_reach_inv [OF assms(2,1)] by (auto simp: ev_inv_def)
  have s: "suspended (ths t) \<longleftrightarrow> t \<in> set (suspend_thread ev)" for t using ok(1) by (simp add: list_ok_def)
  show ?thesis
    using event_send_ok [OF ok assms(3) bits_def [THEN meta_eq_to_obj_eq]]
    by (intro exI conjI, assumption) (auto simp: s wake_apply woken_thread_def event_recv_rest_def bit_simps bit_taken_set dest: bit_imp_le_length)
qed

text \<open>Both threads are woken, though the first one clears bit 0, and bit 1 stays.\<close>

theorem event_send_wakes_witness:
  "\<exists>(ths :: threads) (ev :: rt_event) ths' ev'. rt_event_send ths ev 3 = (RT_EOK, ths', ev') \<and> suspend_thread ev = [1, 2] \<and> suspend_thread ev' = [] \<and>
    event_recv_rest (ths' 1) = (RT_EOK, Some 1) \<and> event_recv_rest (ths' 2) = (RT_EOK, Some 3) \<and>
    bit (ev_set ev') 1 \<and> \<not> bit (ev_set ev') 0"
proof -
  obtain ths ev where r: "event_reach (demo_threads, rt_event_init RT_IPC_FLAG_FIFO) (ths, ev)"
    and s: "suspend_thread ev = [1, 2]" "ev_set ev = 0" "event_set (ths 1) = 1" "event_info (ths 1) = 6"
      "event_set (ths 2) = 3" "event_info (ths 2) = 1"
    using event_demo by blast
  have w: "suspended (ths t) \<longleftrightarrow> t = 1 \<or> t = 2" for t
    using event_reach_inv [OF r fresh_demo] s(1) by (auto simp: ev_inv_def list_ok_def)
  have b: "(3 :: u32) \<noteq> 0" by simp
  obtain ths' ev' where
      e: "rt_event_send ths ev 3 = (RT_EOK, ths', ev')" "suspend_thread ev' = filter (\<lambda>t. \<not> event_wants (ev_set ev OR 3) (ths t)) [1, 2]"
    and f: "\<And>t. event_recv_rest (ths' t) = (if suspended (ths t) \<and> event_wants (ev_set ev OR 3) (ths t)
      then (RT_EOK, Some (event_set (ths t) AND (ev_set ev OR 3))) else event_recv_rest (ths t))"
    and g: "\<And>n. bit (ev_set ev') n \<longleftrightarrow> bit (ev_set ev OR 3) n \<and> \<not> (\<exists>t. suspended (ths t) \<and>
      event_wants (ev_set ev OR 3) (ths t) \<and> bit (event_info (ths t)) 2 \<and> bit (event_set (ths t)) n)"
    using event_send_wakes [OF fresh_demo r b] unfolding s(1) by auto
  have b1: "bit (ev_set ev') 1" unfolding g by (auto simp: s s [unfolded One_nat_def] w wants_def)
  have b0: "\<not> bit (ev_set ev') 0" unfolding g by (auto simp: s s [unfolded One_nat_def] w wants_def intro!: exI [of _ 1])
  have f1: "event_recv_rest (ths' 1) = (RT_EOK, Some 1)" and f2: "event_recv_rest (ths' 2) = (RT_EOK, Some 3)"
    by (simp_all add: f s s [unfolded One_nat_def] w wants_def)
  have "suspend_thread ev' = []" by (simp add: e(2) s s [unfolded One_nat_def] wants_def)
  then show ?thesis using e(1) s(1) b0 b1 f1 f2 by blast
qed

end
