(* ===== verification/MailboxWait.thy ===== *)
theory MailboxWait
  imports Ipc
begin

text \<open>
  The rest of the mailbox (\<open>rt-thread/src/ipc.c\<close>): threads that wait for mail or for room, urgent mail
  and reset. A call that waited tries again when it is resumed, in the loop of the code, and may wait
  again; between the resume and the next try other threads run. The system is a step relation over
  calls, second tries, time-outs, urgent mail from interrupts and resets, in any order.
\<close>

section \<open>Operations\<close>

record mb_object =
  box :: mailbox
  mb_flag :: ipc_flag
  receivers :: "nat list"
  senders :: "nat list"

text \<open>\<open>rt_mb_recv\<close>: the loop with what follows it, and the call with its first test.\<close>

definition mb_recv_loop :: "nat \<Rightarrow> int \<Rightarrow> threads \<Rightarrow> mb_object
    \<Rightarrow> ((rt_err \<times> u32 option) outcome \<times> threads \<times> mb_object) option" where
  "mb_recv_loop t timeout ths m =
    (if entry (box m) = 0 then
       (let ths = ths(t := (ths t)\<lparr>th_error := RT_EINTR\<rparr>) in
        if timeout = 0 then Some (Ready (RT_ETIMEOUT, None), ths(t := (ths t)\<lparr>th_error := RT_ETIMEOUT\<rparr>), m)
        else (let (ths, q) = ipc_list_suspend (mb_flag m) t ths (receivers m)
              in Some (Suspended, start_thread_timer t timeout ths, m\<lparr>receivers := q\<rparr>)))
     else do {
       r \<leftarrow> rt_mb_recv (box m) timeout;
       (case r of
          Suspended \<Rightarrow> None
        | Ready (e, value, b) \<Rightarrow>
            let m = m\<lparr>box := b\<rparr> in
            if senders m \<noteq> [] then do {
              (ths, q) \<leftarrow> ipc_list_resume ths (senders m);
              Some (Ready (RT_EOK, value), ths, m\<lparr>senders := q\<rparr>)
            } else Some (Ready (RT_EOK, value), ths, m))
     })"

definition mb_recv :: "nat \<Rightarrow> int \<Rightarrow> threads \<Rightarrow> mb_object
    \<Rightarrow> ((rt_err \<times> u32 option) outcome \<times> threads \<times> mb_object) option" where
  "mb_recv t timeout ths m =
    (if entry (box m) = 0 \<and> timeout = 0 then Some (Ready (RT_ETIMEOUT, None), ths, m)
     else mb_recv_loop t timeout ths m)"

text \<open>\<open>rt_mb_send_wait\<close> in the same two parts; the new mail resumes a receiver.\<close>

definition mb_send_loop :: "nat \<Rightarrow> u32 \<Rightarrow> int \<Rightarrow> threads \<Rightarrow> mb_object
    \<Rightarrow> ((rt_err \<times> u32 option) outcome \<times> threads \<times> mb_object) option" where
  "mb_send_loop t value timeout ths m =
    (if entry (box m) = mb_size (box m) then
       (let ths = ths(t := (ths t)\<lparr>th_error := RT_EINTR\<rparr>) in
        if timeout = 0 then Some (Ready (RT_EFULL, None), ths, m)
        else (let (ths, q) = ipc_list_suspend (mb_flag m) t ths (senders m)
              in Some (Suspended, start_thread_timer t timeout ths, m\<lparr>senders := q\<rparr>)))
     else do {
       r \<leftarrow> rt_mb_send_wait (box m) value timeout;
       (case r of
          Suspended \<Rightarrow> None
        | Ready (e, b) \<Rightarrow>
            let m = m\<lparr>box := b\<rparr> in
            if e \<noteq> RT_EOK then Some (Ready (e, None), ths, m)
            else if receivers m \<noteq> [] then do {
              (ths, q) \<leftarrow> ipc_list_resume ths (receivers m);
              Some (Ready (RT_EOK, None), ths, m\<lparr>receivers := q\<rparr>)
            } else Some (Ready (RT_EOK, None), ths, m))
     })"

definition mb_send_wait :: "nat \<Rightarrow> u32 \<Rightarrow> int \<Rightarrow> threads \<Rightarrow> mb_object
    \<Rightarrow> ((rt_err \<times> u32 option) outcome \<times> threads \<times> mb_object) option" where
  "mb_send_wait t value timeout ths m =
    (if entry (box m) = mb_size (box m) \<and> timeout = 0 then Some (Ready (RT_EFULL, None), ths, m)
     else mb_send_loop t value timeout ths m)"

text \<open>\<open>rt_mb_urgent\<close> puts the mail in front of the others.\<close>

definition rt_mb_urgent :: "u32 \<Rightarrow> threads \<Rightarrow> mb_object \<Rightarrow> (rt_err \<times> threads \<times> mb_object) option" where
  "rt_mb_urgent value ths m =
    (let b = box m in
     if entry b = mb_size b then Some (RT_EFULL, ths, m)
     else (let b = b\<lparr>out_offset := (if out_offset b > 0 then out_offset b - 1 else mb_size b - 1)\<rparr> in do {
       pool \<leftarrow> wr (msg_pool b) (out_offset b) value;
       let m = m\<lparr>box := b\<lparr>msg_pool := pool, entry := (entry b + 1) mod 65536\<rparr>\<rparr>;
       if receivers m \<noteq> [] then do {
         (ths, q) \<leftarrow> ipc_list_resume ths (receivers m);
         Some (RT_EOK, ths, m\<lparr>receivers := q\<rparr>)
       } else Some (RT_EOK, ths, m)
     }))"

text \<open>\<open>rt_mb_control\<close> with \<open>RT_IPC_CMD_RESET\<close>.\<close>

definition rt_mb_reset :: "threads \<Rightarrow> mb_object \<Rightarrow> (threads \<times> mb_object) option" where
  "rt_mb_reset ths m = do {
     (ths, q) \<leftarrow> ipc_list_resume_all ths (receivers m);
     (ths, q') \<leftarrow> ipc_list_resume_all ths (senders m);
     Some (ths, m\<lparr>receivers := q, senders := q', box := (box m)\<lparr>entry := 0, in_offset := 0, out_offset := 0\<rparr>\<rparr>)
   }"

section \<open>Threads around a mailbox\<close>

datatype mb_call = MbRecv int | MbSend u32 int

text \<open>One try of a call; \<open>first\<close> distinguishes the call from its later tries.\<close>

definition mb_try :: "bool \<Rightarrow> nat \<Rightarrow> mb_call \<Rightarrow> threads \<Rightarrow> mb_object
    \<Rightarrow> ((rt_err \<times> u32 option) outcome \<times> threads \<times> mb_object) option" where
  "mb_try first t c ths m = (case c of
     MbRecv timeout \<Rightarrow> if first then mb_recv t timeout ths m else mb_recv_loop t timeout ths m
   | MbSend value timeout \<Rightarrow> if first then mb_send_wait t value timeout ths m else mb_send_loop t value timeout ths m)"

text \<open>The call with the time-out that is left: the same if it waits for ever, else anything up to the old one.\<close>

fun later :: "mb_call \<Rightarrow> mb_call \<Rightarrow> bool" where
  "later (MbRecv a) (MbRecv b) \<longleftrightarrow> (if a > 0 then 0 \<le> b \<and> b \<le> a else b = a)"
| "later (MbSend v a) (MbSend w b) \<longleftrightarrow> v = w \<and> (if a > 0 then 0 \<le> b \<and> b \<le> a else b = a)"
| "later _ _ \<longleftrightarrow> False"

fun is_recv :: "mb_call \<Rightarrow> bool" where
  "is_recv (MbRecv _) = True"
| "is_recv (MbSend _ _) = False"

text \<open>
  \<open>calls\<close>: the call of a thread that waits or was resumed; \<open>pending\<close>: resumed threads that have not
  tried again yet. \<open>accepted\<close> and \<open>delivered\<close> collect the mail of finished calls since the last reset.
\<close>

record mb_sys =
  mb_threads :: threads
  mbo :: mb_object
  calls :: "nat \<Rightarrow> mb_call"
  pending :: "nat list"
  accepted :: "u32 list"
  delivered :: "u32 list"

definition resumed :: "mb_object \<Rightarrow> threads \<Rightarrow> nat list" where
  "resumed m ths = filter (\<lambda>t. \<not> suspended (ths t)) (receivers m @ senders m)"

text \<open>What a finished call contributes.\<close>

definition mail_in :: "mb_call \<Rightarrow> rt_err \<Rightarrow> u32 list" where
  "mail_in c e = (case c of MbSend v _ \<Rightarrow> if e = RT_EOK then [v] else [] | MbRecv _ \<Rightarrow> [])"

definition mail_out :: "u32 option \<Rightarrow> u32 list" where
  "mail_out v = (case v of None \<Rightarrow> [] | Some v \<Rightarrow> [v])"

definition finish :: "mb_sys \<Rightarrow> nat \<Rightarrow> mb_call \<Rightarrow> rt_err \<times> u32 option \<Rightarrow> threads \<Rightarrow> mb_object \<Rightarrow> mb_sys" where
  "finish s t c r ths m = s\<lparr>mb_threads := ths, mbo := m, pending := removeAll t (pending s) @ resumed (mbo s) ths,
     accepted := accepted s @ mail_in c (fst r), delivered := delivered s @ mail_out (snd r)\<rparr>"

definition wait_again :: "mb_sys \<Rightarrow> nat \<Rightarrow> mb_call \<Rightarrow> threads \<Rightarrow> mb_object \<Rightarrow> mb_sys" where
  "wait_again s t c ths m = s\<lparr>mb_threads := ths, mbo := m, calls := (calls s)(t := c), pending := removeAll t (pending s)\<rparr>"

inductive mb_step :: "mb_sys \<Rightarrow> mb_sys \<Rightarrow> bool" where
  call_ends: "\<not> suspended (mb_threads s t) \<Longrightarrow> t \<notin> set (pending s) \<Longrightarrow>
    mb_try True t c (mb_threads s) (mbo s) = Some (Ready r, ths, m) \<Longrightarrow> mb_step s (finish s t c r ths m)"
| call_waits: "\<not> suspended (mb_threads s t) \<Longrightarrow> t \<notin> set (pending s) \<Longrightarrow>
    mb_try True t c (mb_threads s) (mbo s) = Some (Suspended, ths, m) \<Longrightarrow> mb_step s (wait_again s t c ths m)"
| again_ends: "t \<in> set (pending s) \<Longrightarrow> later (calls s t) c \<Longrightarrow>
    mb_try False t c (mb_threads s) (mbo s) = Some (Ready r, ths, m) \<Longrightarrow> mb_step s (finish s t c r ths m)"
| again_waits: "t \<in> set (pending s) \<Longrightarrow> later (calls s t) c \<Longrightarrow>
    mb_try False t c (mb_threads s) (mbo s) = Some (Suspended, ths, m) \<Longrightarrow> mb_step s (wait_again s t c ths m)"
| mb_timeout: "thread_timer (mb_threads s t) \<noteq> None \<Longrightarrow>
    thread_timeout t (mb_threads s) (receivers (mbo s)) = (ths, q) \<Longrightarrow> q' = removeAll t (senders (mbo s)) \<Longrightarrow>
    mb_step s (s\<lparr>mb_threads := ths, mbo := (mbo s)\<lparr>receivers := q, senders := q'\<rparr>\<rparr>)"
| mb_urgent: "rt_mb_urgent v (mb_threads s) (mbo s) = Some (e, ths, m) \<Longrightarrow>
    mb_step s (s\<lparr>mb_threads := ths, mbo := m, pending := pending s @ resumed (mbo s) ths,
      accepted := accepted s @ (if e = RT_EOK then [v] else [])\<rparr>)"
| mb_reset: "rt_mb_reset (mb_threads s) (mbo s) = Some (ths, m) \<Longrightarrow>
    mb_step s (s\<lparr>mb_threads := ths, mbo := m, accepted := [], delivered := []\<rparr>)"

inductive mb_reach :: "mb_sys \<Rightarrow> mb_sys \<Rightarrow> bool" for s0 where
  start: "mb_reach s0 s0"
| step: "mb_reach s0 s \<Longrightarrow> mb_step s s' \<Longrightarrow> mb_reach s0 s'"

definition mb_start :: "u32 list \<Rightarrow> ipc_flag \<Rightarrow> threads \<Rightarrow> mb_sys" where
  "mb_start pool flag ths = \<lparr>mb_threads = ths,
     mbo = \<lparr>box = rt_mb_init pool (length pool), mb_flag = flag, receivers = [], senders = []\<rparr>,
     calls = (\<lambda>t. MbRecv 0), pending = [], accepted = [], delivered = []\<rparr>"

section \<open>What a try does\<close>

definition mbo_ok :: "threads \<Rightarrow> mb_object \<Rightarrow> bool" where
  "mbo_ok ths m \<longleftrightarrow> list_ok ths (receivers m @ senders m) \<and> mb_inv (box m)"

lemma mb_send_room:
  assumes "mb_inv b" "entry b \<noteq> mb_size b"
  shows "rt_mb_send_wait b v timeout = Some (Ready (RT_EOK, mb_put b v))"
proof -
  have "mb_put b v = b\<lparr>msg_pool := (msg_pool b)[in_offset b := v], in_offset := (in_offset b + 1) mod mb_size b,
      entry := entry b + 1\<rparr>"
    using assms by (simp add: mb_put_def rt_mb_send_inv)
  then show ?thesis
    using assms in_offset_less [OF assms(1)]
    by (auto simp: rt_mb_send_wait_def mb_inv_def next_offset_mod RT_MB_ENTRY_MAX_def)
qed

lemma mb_recv_mail:
  assumes "mb_inv b" "entry b \<noteq> 0"
  shows "\<exists>v b'. rt_mb_recv b timeout = Some (Ready (RT_EOK, Some v, b')) \<and> mb_items b = v # mb_items b' \<and> mb_inv b' \<and>
    mb_size b' = mb_size b \<and> Suc (entry b') = entry b"
proof -
  have r: "rt_mb_recv b timeout = rt_mb_recv b 0" using assms by (simp add: rt_mb_recv_inv)
  obtain x xs where x: "mb_items b = x # xs" using assms(2) by (cases "mb_items b") (auto simp: mb_items_def)
  obtain b' where g: "mb_get b = Some (x, b')" "mb_inv b'" "mb_size b' = mb_size b" "mb_items b' = xs"
    using mbq.get_item [OF assms(1) x] by blast
  have "rt_mb_recv b 0 = Some (Ready (RT_EOK, Some x, b'))"
    using g(1) assms by (auto simp: mb_get_def rt_mb_recv_inv)
  moreover have "Suc (entry b') = entry b" using x g(4) by (metis length_Cons length_mb_items)
  ultimately show ?thesis using r x g by auto
qed

lemma urgent_items:
  assumes inv: "mb_inv b" and ne: "entry b \<noteq> mb_size b"
  defines "o' \<equiv> if out_offset b > 0 then out_offset b - 1 else mb_size b - 1"
  shows "\<exists>pool. wr (msg_pool b) o' v = Some pool \<and>
    mb_inv (b\<lparr>out_offset := o', msg_pool := pool, entry := entry b + 1\<rparr>) \<and>
    mb_items (b\<lparr>out_offset := o', msg_pool := pool, entry := entry b + 1\<rparr>) = v # mb_items b"
proof -
  have s: "0 < mb_size b" "length (msg_pool b) = mb_size b" "entry b < mb_size b" "out_offset b < mb_size b"
    using inv ne by (auto simp: mb_inv_def)
  have o: "o' < mb_size b" and n: "(o' + 1) mod mb_size b = out_offset b" using s by (auto simp: o'_def mod_Suc)
  have sh: "(o' + Suc k) mod mb_size b = (out_offset b + k) mod mb_size b" for k
    using n by (metis add_Suc_right add_Suc_shift mod_add_left_eq Suc_eq_plus1)
  have ne0: "(out_offset b + k) mod mb_size b \<noteq> o'" if "k < entry b" for k
    using mod_add_ne [of 0 "Suc k" "mb_size b" o'] that s(3) o sh [of k] by simp
  let ?b = "b\<lparr>out_offset := o', msg_pool := (msg_pool b)[o' := v], entry := entry b + 1\<rparr>"
  have "mb_items ?b = v # mb_items b"
  proof (rule nth_equalityI)
    fix k assume "k < length (mb_items ?b)"
    then have k: "k < Suc (entry b)" by simp
    show "mb_items ?b ! k = (v # mb_items b) ! k"
    proof (cases k)
      case 0
      then show ?thesis using o s by (simp add: mb_items_def del: upt_Suc)
    next
      case (Suc j)
      then show ?thesis using k s ne0 [of j] sh [of j] by (simp add: mb_items_def del: upt_Suc)
    qed
  qed simp
  moreover have "mb_inv ?b" using inv s o sh [of "entry b"] by (simp add: mb_inv_def)
  ultimately show ?thesis using o s by simp
qed

text \<open>
  A finished try either gave up with everything as before, or took a mail and resumed a sender, or put
  one and resumed a receiver.
\<close>

definition gave_up :: "mb_call \<Rightarrow> mb_object \<Rightarrow> bool" where
  "gave_up c m \<longleftrightarrow> (if is_recv c then entry (box m) = 0 else entry (box m) = mb_size (box m))"

lemma resume_first:
  assumes "list_ok ths (p @ (t # q) @ r)"
  shows "ipc_list_resume ths (t # q) = Some (ths(t := (ths t)\<lparr>th_error := RT_EOK, suspended := False, thread_timer := None\<rparr>), q)"
    and "list_ok (ths(t := (ths t)\<lparr>th_error := RT_EOK, suspended := False, thread_timer := None\<rparr>)) (p @ q @ r)"
    and "filter (\<lambda>u. \<not> suspended ((ths(t := (ths t)\<lparr>th_error := RT_EOK, suspended := False, thread_timer := None\<rparr>)) u)) (p @ (t # q) @ r) = [t]"
proof -
  have s: "suspended (ths t)" "distinct (p @ (t # q) @ r)" using assms by (auto simp: list_ok_def)
  then show "ipc_list_resume ths (t # q) = Some (ths(t := (ths t)\<lparr>th_error := RT_EOK, suspended := False, thread_timer := None\<rparr>), q)"
    by (simp add: ipc_list_resume_def rt_thread_resume_def)
  have "removeAll t (p @ (t # q) @ r) = p @ q @ r" using s(2) by auto
  then show "list_ok (ths(t := (ths t)\<lparr>th_error := RT_EOK, suspended := False, thread_timer := None\<rparr>)) (p @ q @ r)"
    using list_ok_wake [OF assms, of t RT_EOK] by simp
  show "filter (\<lambda>u. \<not> suspended ((ths(t := (ths t)\<lparr>th_error := RT_EOK, suspended := False, thread_timer := None\<rparr>)) u)) (p @ (t # q) @ r) = [t]"
    by (rule filter_woken [OF assms]) auto
qed

lemma recv_loop_mail:
  assumes ok: "mbo_ok ths m" and ne: "entry (box m) \<noteq> 0"
  shows "\<exists>v ths' b. mb_recv_loop t timeout ths m = Some (Ready (RT_EOK, Some v), ths', m\<lparr>box := b, senders := tl (senders m)\<rparr>) \<and>
    mbo_ok ths' (m\<lparr>box := b, senders := tl (senders m)\<rparr>) \<and> mb_items (box m) = v # mb_items b \<and> mb_size b = mb_size (box m) \<and>
    Suc (entry b) = entry (box m) \<and> resumed m ths' = take 1 (senders m) \<and> (\<forall>u. u \<notin> set (resumed m ths') \<longrightarrow> ths' u = ths u)"
proof -
  have l: "list_ok ths (receivers m @ senders m)" and inv: "mb_inv (box m)" using ok by (simp_all add: mbo_ok_def)
  obtain v b where b: "rt_mb_recv (box m) timeout = Some (Ready (RT_EOK, Some v, b))" "mb_items (box m) = v # mb_items b"
    "mb_inv b" "mb_size b = mb_size (box m)" "Suc (entry b) = entry (box m)" using mb_recv_mail [OF inv ne] by blast
  show ?thesis
  proof (cases "senders m")
    case Nil
    moreover from this have "m\<lparr>box := b, senders := []\<rparr> = m\<lparr>box := b\<rparr>" by simp
    ultimately show ?thesis
      using b ne l filter_asleep [OF l, of ths]
      by (intro exI [of _ v] exI [of _ ths] exI [of _ b]) (simp add: mb_recv_loop_def mbo_ok_def resumed_def Let_def)
  next
    case (Cons x q)
    note r = resume_first [of ths "receivers m" x q "[]", simplified append_Nil2, OF l [unfolded Cons]]
    let ?ths = "ths(x := (ths x)\<lparr>th_error := RT_EOK, suspended := False, thread_timer := None\<rparr>)"
    have "mb_recv_loop t timeout ths m = Some (Ready (RT_EOK, Some v), ?ths, m\<lparr>box := b, senders := tl (senders m)\<rparr>)"
      using b ne r(1) Cons by (simp add: mb_recv_loop_def Let_def)
    moreover have "resumed m ?ths = [x]" using r(3) Cons by (simp add: resumed_def)
    ultimately show ?thesis
      using b r(2) Cons by (intro exI [of _ v] exI [of _ ?ths] exI [of _ b]) (simp add: mbo_ok_def)
  qed
qed

lemma send_loop_mail:
  assumes ok: "mbo_ok ths m" and ne: "entry (box m) \<noteq> mb_size (box m)"
  shows "\<exists>ths' b. mb_send_loop t v timeout ths m = Some (Ready (RT_EOK, None), ths', m\<lparr>box := b, receivers := tl (receivers m)\<rparr>) \<and>
    mbo_ok ths' (m\<lparr>box := b, receivers := tl (receivers m)\<rparr>) \<and> mb_items b = mb_items (box m) @ [v] \<and> mb_size b = mb_size (box m) \<and>
    entry b = Suc (entry (box m)) \<and> resumed m ths' = take 1 (receivers m) \<and> (\<forall>u. u \<notin> set (resumed m ths') \<longrightarrow> ths' u = ths u)"
proof -
  have l: "list_ok ths (receivers m @ senders m)" and inv: "mb_inv (box m)" using ok by (simp_all add: mbo_ok_def)
  let ?b = "mb_put (box m) v"
  have le: "entry (box m) < mb_size (box m)" using inv ne by (simp add: mb_inv_def)
  have b: "mb_items ?b = mb_items (box m) @ [v]" "mb_inv ?b" "mb_size ?b = mb_size (box m)"
    using mb_items_put [OF inv] le by (simp_all add: inv mb_inv_put mb_size_put)
  have e: "entry ?b = Suc (entry (box m))" using arg_cong [OF b(1), of length] by simp
  show ?thesis
  proof (cases "receivers m")
    case Nil
    moreover from this have "m\<lparr>box := ?b, receivers := []\<rparr> = m\<lparr>box := ?b\<rparr>" by simp
    ultimately show ?thesis
      using b e ne l filter_asleep [OF l, of ths] mb_send_room [OF inv ne]
      by (intro exI [of _ ths] exI [of _ ?b]) (simp add: mb_send_loop_def mbo_ok_def resumed_def Let_def)
  next
    case (Cons x q)
    note r = resume_first [of ths "[]" x q "senders m", simplified append_Nil, OF l [unfolded Cons]]
    let ?ths = "ths(x := (ths x)\<lparr>th_error := RT_EOK, suspended := False, thread_timer := None\<rparr>)"
    have "mb_send_loop t v timeout ths m = Some (Ready (RT_EOK, None), ?ths, m\<lparr>box := ?b, receivers := tl (receivers m)\<rparr>)"
      using ne r(1) Cons mb_send_room [OF inv ne] by (simp add: mb_send_loop_def Let_def)
    moreover have "resumed m ?ths = [x]" using r(3) Cons by (simp add: resumed_def)
    ultimately show ?thesis
      using b e r(2) Cons by (intro exI [of _ ?ths] exI [of _ ?b]) (simp add: mbo_ok_def)
  qed
qed

text \<open>The three ways a try ends, and the way it waits.\<close>

definition try_failed :: "mb_call \<Rightarrow> nat \<Rightarrow> rt_err \<times> u32 option \<Rightarrow> threads \<Rightarrow> mb_object \<Rightarrow> threads \<Rightarrow> mb_object \<Rightarrow> bool" where
  "try_failed c t r ths m ths' m' \<longleftrightarrow> gave_up c m \<and> m' = m \<and> mail_in c (fst r) = [] \<and> snd r = None \<and>
     mbo_ok ths' m \<and> resumed m ths' = [] \<and> (\<forall>u. suspended (ths' u) = suspended (ths u))"

definition try_took :: "mb_call \<Rightarrow> rt_err \<times> u32 option \<Rightarrow> threads \<Rightarrow> mb_object \<Rightarrow> threads \<Rightarrow> mb_object \<Rightarrow> bool" where
  "try_took c r ths m ths' m' \<longleftrightarrow> is_recv c \<and> (\<exists>v b. r = (RT_EOK, Some v) \<and> m' = m\<lparr>box := b, senders := tl (senders m)\<rparr> \<and>
     mb_items (box m) = v # mb_items b \<and> mb_size b = mb_size (box m) \<and> Suc (entry b) = entry (box m)) \<and>
     mbo_ok ths' m' \<and> resumed m ths' = take 1 (senders m) \<and> (\<forall>u. u \<notin> set (resumed m ths') \<longrightarrow> ths' u = ths u)"

definition try_put :: "mb_call \<Rightarrow> rt_err \<times> u32 option \<Rightarrow> threads \<Rightarrow> mb_object \<Rightarrow> threads \<Rightarrow> mb_object \<Rightarrow> bool" where
  "try_put c r ths m ths' m' \<longleftrightarrow> (\<exists>v timeout b. c = MbSend v timeout \<and> r = (RT_EOK, None) \<and>
     m' = m\<lparr>box := b, receivers := tl (receivers m)\<rparr> \<and>
     mb_items b = mb_items (box m) @ [v] \<and> mb_size b = mb_size (box m) \<and> entry b = Suc (entry (box m))) \<and>
     mbo_ok ths' m' \<and> resumed m ths' = take 1 (receivers m) \<and> (\<forall>u. u \<notin> set (resumed m ths') \<longrightarrow> ths' u = ths u)"

definition try_waits :: "mb_call \<Rightarrow> nat \<Rightarrow> threads \<Rightarrow> mb_object \<Rightarrow> threads \<Rightarrow> mb_object \<Rightarrow> bool" where
  "try_waits c t ths m ths' m' \<longleftrightarrow> gave_up c m \<and> box m' = box m \<and> mbo_ok ths' m' \<and> (\<forall>u. u \<noteq> t \<longrightarrow> ths' u = ths u) \<and>
     (if is_recv c then set (receivers m') = insert t (set (receivers m)) \<and> senders m' = senders m
      else set (senders m') = insert t (set (senders m)) \<and> receivers m' = receivers m)"

lemma set_list_suspend: "ipc_list_suspend flag t ths q = (ths', q') \<Longrightarrow> set q' = insert t (set q)"
  using mset_list_suspend [THEN arg_cong [of _ _ set_mset]] by simp

lemma failed_same:
  assumes "mbo_ok ths m" "gave_up c m" "e \<noteq> RT_EOK \<or> is_recv c"
  shows "try_failed c t (e, None) ths m ths m" "try_failed c t (e, None) ths m (ths(t := (ths t)\<lparr>th_error := e'\<rparr>)) m"
proof -
  have l: "list_ok ths (receivers m @ senders m)" using assms(1) by (simp add: mbo_ok_def)
  have i: "mail_in c e = []" using assms(3) by (cases c) (auto simp: mail_in_def)
  show "try_failed c t (e, None) ths m ths m"
    using assms i filter_asleep [OF l, of ths] by (simp add: try_failed_def resumed_def)
  show "try_failed c t (e, None) ths m (ths(t := (ths t)\<lparr>th_error := e'\<rparr>)) m"
    using assms i filter_asleep [OF l, of "ths(t := (ths t)\<lparr>th_error := e'\<rparr>)"]
    by (simp add: try_failed_def resumed_def mbo_ok_def)
qed

lemma waits_part:
  assumes ok: "mbo_ok ths m" and t: "\<not> suspended (ths t)" and g: "gave_up c m"
  shows "is_recv c \<Longrightarrow> ipc_list_suspend (mb_flag m) t (ths(t := (ths t)\<lparr>th_error := e\<rparr>)) (receivers m) = (ths1, q) \<Longrightarrow>
      try_waits c t ths m (start_thread_timer t timeout ths1) (m\<lparr>receivers := q\<rparr>)"
    and "\<not> is_recv c \<Longrightarrow> ipc_list_suspend (mb_flag m) t (ths(t := (ths t)\<lparr>th_error := e\<rparr>)) (senders m) = (ths1, q) \<Longrightarrow>
      try_waits c t ths m (start_thread_timer t timeout ths1) (m\<lparr>senders := q\<rparr>)"
proof -
  let ?ths = "ths(t := (ths t)\<lparr>th_error := e\<rparr>)"
  have l: "list_ok ?ths (receivers m @ senders m)" and inv: "mb_inv (box m)" and ns: "\<not> suspended (?ths t)"
    using ok t by (simp_all add: mbo_ok_def)
  have l': "list_ok ?ths (senders m @ receivers m)" using l list_ok_mset [of "senders m @ receivers m" "receivers m @ senders m"] by simp
  {
    assume c: "is_recv c" and q: "ipc_list_suspend (mb_flag m) t ?ths (receivers m) = (ths1, q)"
    show "try_waits c t ths m (start_thread_timer t timeout ths1) (m\<lparr>receivers := q\<rparr>)"
      using suspend_ok_part [OF l ns q, of timeout] suspend_unchanged [OF q] set_list_suspend [OF q] c inv g
      by (simp add: try_waits_def mbo_ok_def gave_up_def)
  next
    assume c: "\<not> is_recv c" and q: "ipc_list_suspend (mb_flag m) t ?ths (senders m) = (ths1, q)"
    have "list_ok (start_thread_timer t timeout ths1) (receivers m @ q)"
      using suspend_ok_part [OF l' ns q, of timeout] list_ok_mset [of "q @ receivers m" "receivers m @ q"] by simp
    then show "try_waits c t ths m (start_thread_timer t timeout ths1) (m\<lparr>senders := q\<rparr>)"
      using suspend_unchanged [OF q] set_list_suspend [OF q] c inv g
      by (simp add: try_waits_def mbo_ok_def gave_up_def)
  }
qed

lemma try_cases:
  assumes ok: "mbo_ok ths m" and t: "\<not> suspended (ths t)" and r: "mb_try first t c ths m = Some (out, ths', m')"
  shows "case out of
      Ready r \<Rightarrow> try_failed c t r ths m ths' m' \<or> try_took c r ths m ths' m' \<or> try_put c r ths m ths' m'
    | Suspended \<Rightarrow> try_waits c t ths m ths' m'"
proof (cases c)
  case (MbRecv timeout)
  show ?thesis
  proof (cases "entry (box m) = 0")
    case True
    then have g: "gave_up c m" using MbRecv by (simp add: gave_up_def)
    have c: "is_recv c" using MbRecv by simp
    obtain ths1 q where q: "ipc_list_suspend (mb_flag m) t (ths(t := (ths t)\<lparr>th_error := RT_EINTR\<rparr>)) (receivers m) = (ths1, q)"
      by fastforce
    show ?thesis
      using r True MbRecv failed_same [OF ok g, of RT_ETIMEOUT t] waits_part(1) [OF ok t g c q, of timeout] q
      by (auto simp: mb_try_def mb_recv_def mb_recv_loop_def Let_def split: if_splits)
  next
    case False
    show ?thesis
      using recv_loop_mail [OF ok False, of t timeout] r False MbRecv
      by (auto simp: mb_try_def mb_recv_def try_took_def split: if_splits)
  qed
next
  case (MbSend v timeout)
  show ?thesis
  proof (cases "entry (box m) = mb_size (box m)")
    case True
    then have g: "gave_up c m" using MbSend by (simp add: gave_up_def)
    have c: "\<not> is_recv c" using MbSend by simp
    obtain ths1 q where q: "ipc_list_suspend (mb_flag m) t (ths(t := (ths t)\<lparr>th_error := RT_EINTR\<rparr>)) (senders m) = (ths1, q)"
      by fastforce
    show ?thesis
      using r True MbSend failed_same [OF ok g, of RT_EFULL t] waits_part(2) [OF ok t g c q, of timeout] q
      by (auto simp: mb_try_def mb_send_wait_def mb_send_loop_def Let_def split: if_splits)
  next
    case False
    show ?thesis
      using send_loop_mail [OF ok False, of t v timeout] r False MbSend
      by (auto simp: mb_try_def mb_send_wait_def try_put_def split: if_splits)
  qed
qed

section \<open>Invariant\<close>

text \<open>
  While receivers wait there are at least as many resumed receivers on their way as mails in the box;
  while senders wait, at least as many resumed senders as free places.
\<close>

definition on_way :: "mb_sys \<Rightarrow> bool \<Rightarrow> nat" where
  "on_way s r = length (filter (\<lambda>t. is_recv (calls s t) = r) (pending s))"

definition mb_sys_inv :: "mb_sys \<Rightarrow> bool" where
  "mb_sys_inv s \<longleftrightarrow> mbo_ok (mb_threads s) (mbo s) \<and>
     (\<forall>t \<in> set (receivers (mbo s)). is_recv (calls s t)) \<and> (\<forall>t \<in> set (senders (mbo s)). \<not> is_recv (calls s t)) \<and>
     distinct (pending s) \<and> (\<forall>t \<in> set (pending s). \<not> suspended (mb_threads s t)) \<and>
     (receivers (mbo s) \<noteq> [] \<longrightarrow> entry (box (mbo s)) \<le> on_way s True) \<and>
     (senders (mbo s) \<noteq> [] \<longrightarrow> mb_size (box (mbo s)) - entry (box (mbo s)) \<le> on_way s False) \<and>
     mset (accepted s) = mset (delivered s) + mset (mb_items (box (mbo s)))"

lemma mb_sys_invI:
  assumes "mbo_ok (mb_threads s) (mbo s)"
    "\<And>t. t \<in> set (receivers (mbo s)) \<Longrightarrow> is_recv (calls s t)" "\<And>t. t \<in> set (senders (mbo s)) \<Longrightarrow> \<not> is_recv (calls s t)"
    "distinct (pending s)" "\<And>t. t \<in> set (pending s) \<Longrightarrow> \<not> suspended (mb_threads s t)"
    "receivers (mbo s) \<noteq> [] \<Longrightarrow> entry (box (mbo s)) \<le> on_way s True"
    "senders (mbo s) \<noteq> [] \<Longrightarrow> mb_size (box (mbo s)) - entry (box (mbo s)) \<le> on_way s False"
    "mset (accepted s) = mset (delivered s) + mset (mb_items (box (mbo s)))"
  shows "mb_sys_inv s"
  using assms by (auto simp: mb_sys_inv_def)

lemma mb_sys_invD:
  assumes "mb_sys_inv s"
  shows "mbo_ok (mb_threads s) (mbo s)"
    "t \<in> set (receivers (mbo s)) \<Longrightarrow> is_recv (calls s t)" "t \<in> set (senders (mbo s)) \<Longrightarrow> \<not> is_recv (calls s t)"
    "distinct (pending s)" "t \<in> set (pending s) \<Longrightarrow> \<not> suspended (mb_threads s t)"
    "receivers (mbo s) \<noteq> [] \<Longrightarrow> entry (box (mbo s)) \<le> on_way s True"
    "senders (mbo s) \<noteq> [] \<Longrightarrow> mb_size (box (mbo s)) - entry (box (mbo s)) \<le> on_way s False"
    "mset (accepted s) = mset (delivered s) + mset (mb_items (box (mbo s)))"
  using assms by (auto simp: mb_sys_inv_def)

text \<open>Resumed threads on their way, after a thread went ahead and others were resumed.\<close>

lemma length_filter_removeAll:
  "distinct xs \<Longrightarrow> length (filter P (removeAll t xs)) = length (filter P xs) - (if t \<in> set xs \<and> P t then 1 else 0)"
proof (induction xs)
  case (Cons x xs)
  have "x \<in> set xs \<Longrightarrow> length (filter P xs) > 0" if "P x" for x using that by (auto simp: length_greater_0_conv filter_empty_conv)
  then show ?case using Cons by auto
qed simp

definition went_on :: "mb_sys \<Rightarrow> nat \<Rightarrow> mb_call \<Rightarrow> bool" where
  "went_on s t c \<longleftrightarrow> \<not> suspended (mb_threads s t) \<and> (t \<in> set (pending s) \<longrightarrow> is_recv (calls s t) = is_recv c)"

lemma went_on_count:
  assumes "distinct (pending s)" "went_on s t c"
  shows "length (filter (\<lambda>u. is_recv (calls s u) = k) (removeAll t (pending s))) + (if is_recv c = k then 1 else 0) \<ge> on_way s k"
    and "is_recv c \<noteq> k \<Longrightarrow> length (filter (\<lambda>u. is_recv (calls s u) = k) (removeAll t (pending s))) = on_way s k"
  using assms length_filter_removeAll [OF assms(1), of "\<lambda>u. is_recv (calls s u) = k" t]
  by (auto simp: on_way_def went_on_def)

lemma mbo_waiting: "mbo_ok ths m \<Longrightarrow> suspended (ths t) \<longleftrightarrow> t \<in> set (receivers m) \<or> t \<in> set (senders m)"
  by (simp add: mbo_ok_def list_ok_def)

lemma resumed_waited: "t \<in> set (resumed m ths') \<Longrightarrow> mbo_ok ths m \<Longrightarrow> suspended (ths t) \<and> \<not> suspended (ths' t)"
  by (auto simp: resumed_def mbo_waiting)

lemma distinct_resumed: "mbo_ok ths m \<Longrightarrow> distinct (resumed m ths')"
  by (auto simp: resumed_def mbo_ok_def list_ok_def)

lemma set_tl: "x \<in> set (tl xs) \<Longrightarrow> x \<in> set xs"
  by (cases xs) auto

text \<open>The parts of the invariant that every finished call keeps.\<close>

lemma finish_pending:
  assumes inv: "mb_sys_inv s" and u: "\<forall>u. u \<notin> set (resumed (mbo s) ths) \<longrightarrow> suspended (ths u) = suspended (mb_threads s u)"
  shows "distinct (pending (finish s t c r ths m))" "x \<in> set (pending (finish s t c r ths m)) \<Longrightarrow> \<not> suspended (ths x)"
proof -
  note D = mb_sys_invD [OF inv]
  show "distinct (pending (finish s t c r ths m))"
    using D(4) D(5) resumed_waited [OF _ D(1)] distinct_resumed [OF D(1), of ths] by (auto simp: finish_def distinct_removeAll)
  show "x \<in> set (pending (finish s t c r ths m)) \<Longrightarrow> \<not> suspended (ths x)"
    using D(5) [of x] resumed_waited [OF _ D(1), of x ths] u by (cases "x \<in> set (resumed (mbo s) ths)") (auto simp: finish_def)
qed

lemma finish_on_way:
  "on_way (finish s t c r ths m) k =
    length (filter (\<lambda>u. is_recv (calls s u) = k) (removeAll t (pending s))) +
    length (filter (\<lambda>u. is_recv (calls s u) = k) (resumed (mbo s) ths))"
  by (simp add: on_way_def finish_def)

lemma finish_sel [simp]:
  "mb_threads (finish s t c r ths m) = ths" "mbo (finish s t c r ths m) = m" "calls (finish s t c r ths m) = calls s"
  "accepted (finish s t c r ths m) = accepted s @ mail_in c (fst r)" "delivered (finish s t c r ths m) = delivered s @ mail_out (snd r)"
  by (simp_all add: finish_def)

lemma finish_inv:
  assumes inv: "mb_sys_inv s" and g: "went_on s t c"
    and r: "mb_try first t c (mb_threads s) (mbo s) = Some (Ready r, ths, m)"
  shows "mb_sys_inv (finish s t c r ths m)"
proof -
  let ?m = "mbo s" and ?ths = "mb_threads s"
  note D = mb_sys_invD [OF inv]
  note cnt = went_on_count [OF D(4) g]
  have t: "\<not> suspended (?ths t)" using g by (simp add: went_on_def)
  have size: "entry (box ?m) \<le> mb_size (box ?m)" using D(1) by (simp add: mbo_ok_def mb_inv_def)
  consider "try_failed c t r ?ths ?m ths m" | "try_took c r ?ths ?m ths m" | "try_put c r ?ths ?m ths m"
    using try_cases [OF D(1) t r] by auto
  then show ?thesis
  proof cases
    case 1
    then have f: "gave_up c ?m" "m = ?m" "mail_in c (fst r) = []" "snd r = None" "mbo_ok ths ?m" "resumed ?m ths = []"
      "\<forall>u. suspended (ths u) = suspended (?ths u)" by (simp_all add: try_failed_def)
    show ?thesis
    proof (rule mb_sys_invI)
      show "receivers (mbo (finish s t c r ths m)) \<noteq> [] \<Longrightarrow> entry (box (mbo (finish s t c r ths m))) \<le> on_way (finish s t c r ths m) True"
        using D(6) cnt(2) [of True] f(1,2) unfolding finish_on_way f(6) by (cases "is_recv c") (auto simp: gave_up_def)
      show "senders (mbo (finish s t c r ths m)) \<noteq> [] \<Longrightarrow>
          mb_size (box (mbo (finish s t c r ths m))) - entry (box (mbo (finish s t c r ths m))) \<le> on_way (finish s t c r ths m) False"
        using D(7) cnt(2) [of False] f(1,2) unfolding finish_on_way f(6) by (cases "is_recv c") (auto simp: gave_up_def)
    qed (use f D finish_pending [OF inv, of ths] in \<open>simp_all add: mail_out_def\<close>)
  next
    case 2
    then obtain v b where b: "r = (RT_EOK, Some v)" "m = ?m\<lparr>box := b, senders := tl (senders ?m)\<rparr>"
      "mb_items (box ?m) = v # mb_items b" "mb_size b = mb_size (box ?m)" "Suc (entry b) = entry (box ?m)"
      and k: "is_recv c" "mbo_ok ths m" "resumed ?m ths = take 1 (senders ?m)" "\<forall>u. u \<notin> set (resumed ?m ths) \<longrightarrow> ths u = ?ths u"
      by (auto simp: try_took_def)
    have i: "mail_in c (fst r) = []" using k(1) by (cases c) (auto simp: mail_in_def)
    have rs: "filter (\<lambda>u. is_recv (calls s u) = False) (take 1 (senders ?m)) = take 1 (senders ?m)"
      using D(3) by (cases "senders ?m") auto
    show ?thesis
    proof (rule mb_sys_invI)
      show "receivers (mbo (finish s t c r ths m)) \<noteq> [] \<Longrightarrow> entry (box (mbo (finish s t c r ths m))) \<le> on_way (finish s t c r ths m) True"
        using D(6) cnt(1) [of True] k(1) b(2,5) unfolding finish_on_way by simp
      show "senders (mbo (finish s t c r ths m)) \<noteq> [] \<Longrightarrow>
          mb_size (box (mbo (finish s t c r ths m))) - entry (box (mbo (finish s t c r ths m))) \<le> on_way (finish s t c r ths m) False"
        using D(7) cnt(2) [of False] k(1) b(2,4,5) rs unfolding finish_on_way k(3) by (cases "senders ?m") simp_all
    qed (use b k i D finish_pending [OF inv, of ths] in \<open>simp_all add: mail_out_def set_tl\<close>)
  next
    case 3
    then obtain v timeout b where b: "c = MbSend v timeout" "r = (RT_EOK, None)" "m = ?m\<lparr>box := b, receivers := tl (receivers ?m)\<rparr>"
      "mb_items b = mb_items (box ?m) @ [v]" "mb_size b = mb_size (box ?m)" "entry b = Suc (entry (box ?m))"
      and k: "mbo_ok ths m" "resumed ?m ths = take 1 (receivers ?m)" "\<forall>u. u \<notin> set (resumed ?m ths) \<longrightarrow> ths u = ?ths u"
      by (auto simp: try_put_def)
    have rr: "filter (\<lambda>u. is_recv (calls s u) = True) (take 1 (receivers ?m)) = take 1 (receivers ?m)"
      using D(2) by (cases "receivers ?m") auto
    show ?thesis
    proof (rule mb_sys_invI)
      show "receivers (mbo (finish s t c r ths m)) \<noteq> [] \<Longrightarrow> entry (box (mbo (finish s t c r ths m))) \<le> on_way (finish s t c r ths m) True"
        using D(6) cnt(2) [of True] b(1,3,6) rr unfolding finish_on_way k(2) by (cases "receivers ?m") simp_all
      show "senders (mbo (finish s t c r ths m)) \<noteq> [] \<Longrightarrow>
          mb_size (box (mbo (finish s t c r ths m))) - entry (box (mbo (finish s t c r ths m))) \<le> on_way (finish s t c r ths m) False"
        using D(7) cnt(1) [of False] b(1,3,5,6) unfolding finish_on_way by simp
    qed (use b k D finish_pending [OF inv, of ths] in \<open>simp_all add: mail_out_def mail_in_def set_tl\<close>)
  qed
qed

lemma wait_sel [simp]:
  "mb_threads (wait_again s t c ths m) = ths" "mbo (wait_again s t c ths m) = m" "calls (wait_again s t c ths m) = (calls s)(t := c)"
  "pending (wait_again s t c ths m) = removeAll t (pending s)"
  "accepted (wait_again s t c ths m) = accepted s" "delivered (wait_again s t c ths m) = delivered s"
  by (simp_all add: wait_again_def)

lemma mb_wait_inv:
  assumes inv: "mb_sys_inv s" and g: "went_on s t c"
    and r: "mb_try first t c (mb_threads s) (mbo s) = Some (Suspended, ths, m)"
  shows "mb_sys_inv (wait_again s t c ths m)"
proof -
  let ?m = "mbo s" and ?ths = "mb_threads s"
  note D = mb_sys_invD [OF inv]
  note cnt = went_on_count [OF D(4) g]
  have t: "\<not> suspended (?ths t)" using g by (simp add: went_on_def)
  then have tw: "t \<notin> set (receivers ?m)" "t \<notin> set (senders ?m)" using mbo_waiting [OF D(1), of t] by auto
  have w: "gave_up c ?m" "box m = box ?m" "mbo_ok ths m" "\<forall>u. u \<noteq> t \<longrightarrow> ths u = ?ths u"
    "if is_recv c then set (receivers m) = insert t (set (receivers ?m)) \<and> senders m = senders ?m
      else set (senders m) = insert t (set (senders ?m)) \<and> receivers m = receivers ?m"
    using try_cases [OF D(1) t r] by (simp_all add: try_waits_def)
  have f: "on_way (wait_again s t c ths m) k = length (filter (\<lambda>u. is_recv (calls s u) = k) (removeAll t (pending s)))" for k
    unfolding on_way_def wait_sel by (rule arg_cong [of _ _ length], rule filter_cong) auto
  show ?thesis
  proof (rule mb_sys_invI)
    fix u
    show "u \<in> set (receivers (mbo (wait_again s t c ths m))) \<Longrightarrow> is_recv (calls (wait_again s t c ths m) u)"
      using w(5) D(2) [of u] tw by (cases "is_recv c") auto
    show "u \<in> set (senders (mbo (wait_again s t c ths m))) \<Longrightarrow> \<not> is_recv (calls (wait_again s t c ths m) u)"
      using w(5) D(3) [of u] tw by (cases "is_recv c") auto
    show "receivers (mbo (wait_again s t c ths m)) \<noteq> [] \<Longrightarrow>
        entry (box (mbo (wait_again s t c ths m))) \<le> on_way (wait_again s t c ths m) True"
      using w(1,2,5) D(6) cnt(2) [of True] unfolding f by (cases "is_recv c") (auto simp: gave_up_def)
    show "senders (mbo (wait_again s t c ths m)) \<noteq> [] \<Longrightarrow>
        mb_size (box (mbo (wait_again s t c ths m))) - entry (box (mbo (wait_again s t c ths m))) \<le> on_way (wait_again s t c ths m) False"
      using w(1,2,5) D(7) cnt(2) [of False] unfolding f by (cases "is_recv c") (auto simp: gave_up_def)
  qed (use w D in \<open>simp_all add: distinct_removeAll\<close>)
qed

lemma mb_timeout_inv:
  assumes inv: "mb_sys_inv s" and r: "thread_timeout t (mb_threads s) (receivers (mbo s)) = (ths, q)"
  shows "mb_sys_inv (s\<lparr>mb_threads := ths, mbo := (mbo s)\<lparr>receivers := q, senders := removeAll t (senders (mbo s))\<rparr>\<rparr>)"
proof -
  note D = mb_sys_invD [OF inv]
  have e: "ths = (mb_threads s)(t := (mb_threads s t)\<lparr>th_error := RT_ETIMEOUT, suspended := False, thread_timer := None\<rparr>)"
    "q = removeAll t (receivers (mbo s))" using r by (simp_all add: thread_timeout_def)
  have l: "list_ok ths (removeAll t (receivers (mbo s) @ senders (mbo s)))"
    unfolding e(1) by (rule list_ok_wake) (use D(1) in \<open>simp add: mbo_ok_def\<close>)
  have o: "on_way (s\<lparr>mb_threads := ths, mbo := m\<rparr>) k = on_way s k" for m k by (simp add: on_way_def)
  show ?thesis
  proof (rule mb_sys_invI)
    let ?s = "s\<lparr>mb_threads := ths, mbo := (mbo s)\<lparr>receivers := q, senders := removeAll t (senders (mbo s))\<rparr>\<rparr>"
    show "receivers (mbo ?s) \<noteq> [] \<Longrightarrow> entry (box (mbo ?s)) \<le> on_way ?s True"
      unfolding o using D(6) e(2) by fastforce
    show "senders (mbo ?s) \<noteq> [] \<Longrightarrow> mb_size (box (mbo ?s)) - entry (box (mbo ?s)) \<le> on_way ?s False"
      unfolding o using D(7) by fastforce
  qed (use D l e in \<open>auto simp: mbo_ok_def\<close>)
qed

lemma urgent_inv:
  assumes inv: "mb_sys_inv s" and r: "rt_mb_urgent v (mb_threads s) (mbo s) = Some (e, ths, m)"
  shows "mb_sys_inv (s\<lparr>mb_threads := ths, mbo := m, pending := pending s @ resumed (mbo s) ths,
      accepted := accepted s @ (if e = RT_EOK then [v] else [])\<rparr>)" (is "mb_sys_inv ?s")
proof -
  let ?m = "mbo s" and ?ths = "mb_threads s"
  note D = mb_sys_invD [OF inv]
  have l: "list_ok ?ths (receivers ?m @ senders ?m)" and mi: "mb_inv (box ?m)" using D(1) by (simp_all add: mbo_ok_def)
  show ?thesis
  proof (cases "entry (box ?m) = mb_size (box ?m)")
    case True
    then have e: "ths = ?ths" "m = ?m" "e = RT_EFULL" using r by (auto simp: rt_mb_urgent_def Let_def)
    have "resumed ?m ?ths = []" unfolding resumed_def by (rule filter_asleep [OF l]) simp
    then have "?s = s" using e by simp
    then show ?thesis using inv by simp
  next
    case False
    let ?o = "if out_offset (box ?m) > 0 then out_offset (box ?m) - 1 else mb_size (box ?m) - 1"
    obtain pool where pool: "wr (msg_pool (box ?m)) ?o v = Some pool"
      "mb_inv ((box ?m)\<lparr>out_offset := ?o, msg_pool := pool, entry := entry (box ?m) + 1\<rparr>)"
      "mb_items ((box ?m)\<lparr>out_offset := ?o, msg_pool := pool, entry := entry (box ?m) + 1\<rparr>) = v # mb_items (box ?m)"
      using urgent_items [OF mi False, of v] by blast
    let ?b = "(box ?m)\<lparr>out_offset := ?o, msg_pool := pool, entry := entry (box ?m) + 1\<rparr>"
    have sz: "(entry (box ?m) + 1) mod 65536 = entry (box ?m) + 1" "entry ?b = Suc (entry (box ?m))" "mb_size ?b = mb_size (box ?m)"
      using mi False by (auto simp: mb_inv_def)
    have "\<exists>ths' b. ths = ths' \<and> m = ?m\<lparr>box := b, receivers := tl (receivers ?m)\<rparr> \<and> e = RT_EOK \<and> b = ?b \<and> mbo_ok ths m \<and>
        resumed ?m ths = take 1 (receivers ?m) \<and> (\<forall>u. u \<notin> set (resumed ?m ths) \<longrightarrow> ths u = ?ths u)"
    proof (cases "receivers ?m")
      case Nil
      then have "ths = ?ths" "m = ?m\<lparr>box := ?b\<rparr>" "e = RT_EOK"
        using r False pool(1) sz(1) by (auto simp: rt_mb_urgent_def Let_def)
      moreover have "?m\<lparr>box := ?b, receivers := []\<rparr> = ?m\<lparr>box := ?b\<rparr>" using Nil by simp
      ultimately show ?thesis
        using Nil pool(2) l filter_asleep [OF l, of ?ths] by (simp add: mbo_ok_def resumed_def)
    next
      case (Cons x q)
      note f = resume_first [of ?ths "[]" x q "senders ?m", simplified append_Nil, OF l [unfolded Cons]]
      have "ths = ?ths(x := (?ths x)\<lparr>th_error := RT_EOK, suspended := False, thread_timer := None\<rparr>)"
        "m = ?m\<lparr>box := ?b, receivers := q\<rparr>" "e = RT_EOK"
        using r False pool(1) sz(1) Cons f(1) by (auto simp: rt_mb_urgent_def Let_def)
      moreover from this have "resumed ?m ths = [x]" using f(3) Cons by (simp add: resumed_def)
      ultimately show ?thesis using f(2) pool(2) Cons by (simp add: mbo_ok_def)
    qed
    then have h: "m = ?m\<lparr>box := ?b, receivers := tl (receivers ?m)\<rparr>" "e = RT_EOK" "mbo_ok ths m"
      "resumed ?m ths = take 1 (receivers ?m)" "\<forall>u. u \<notin> set (resumed ?m ths) \<longrightarrow> ths u = ?ths u" by blast+
    have rr: "filter (\<lambda>u. is_recv (calls s u) = True) (take 1 (receivers ?m)) = take 1 (receivers ?m)"
      using D(2) by (cases "receivers ?m") auto
    have o: "on_way ?s k = on_way s k + length (filter (\<lambda>u. is_recv (calls s u) = k) (take 1 (receivers ?m)))" for k
      unfolding on_way_def h(4) by simp
    show ?thesis
    proof (rule mb_sys_invI)
      show "receivers (mbo ?s) \<noteq> [] \<Longrightarrow> entry (box (mbo ?s)) \<le> on_way ?s True"
        unfolding o using D(6) h(1) sz(2) rr by (cases "receivers ?m") auto
      show "senders (mbo ?s) \<noteq> [] \<Longrightarrow> mb_size (box (mbo ?s)) - entry (box (mbo ?s)) \<le> on_way ?s False"
        unfolding o using D(7) h(1) sz(2,3) by simp
      show "distinct (pending ?s)"
        using D(4) D(5) resumed_waited [OF _ D(1)] distinct_resumed [OF D(1), of ths] by auto
      show "\<not> suspended (mb_threads ?s u)" if "u \<in> set (pending ?s)" for u
        using that D(5) [of u] resumed_waited [OF _ D(1), of u ths] h(5) by (cases "u \<in> set (resumed ?m ths)") auto
    qed (use h D pool in \<open>simp_all add: set_tl\<close>)
  qed
qed

lemma mb_reset_inv:
  assumes inv: "mb_sys_inv s" and r: "rt_mb_reset (mb_threads s) (mbo s) = Some (ths, m)"
  shows "mb_sys_inv (s\<lparr>mb_threads := ths, mbo := m, accepted := [], delivered := []\<rparr>)" (is "mb_sys_inv ?s")
proof -
  note D = mb_sys_invD [OF inv]
  have l: "list_ok (mb_threads s) (receivers (mbo s) @ senders (mbo s))" and mi: "mb_inv (box (mbo s))"
    using D(1) by (simp_all add: mbo_ok_def)
  obtain ths1 q q' where q: "ipc_list_resume_all (mb_threads s) (receivers (mbo s)) = Some (ths1, q)"
    "ipc_list_resume_all ths1 (senders (mbo s)) = Some (ths, q')"
    "m = (mbo s)\<lparr>receivers := q, senders := q', box := (box (mbo s))\<lparr>entry := 0, in_offset := 0, out_offset := 0\<rparr>\<rparr>"
    using r by (auto simp: rt_mb_reset_def split: bind_splits)
  note r1 = resume_all_rest [OF l q(1)]
  have l1: "list_ok ths1 (senders (mbo s) @ [])" using r1(1) by simp
  note r2 = resume_all_rest [OF l1 q(2)]
  have ns: "\<not> suspended (ths u)" for u using r2(1) by (simp add: list_ok_def)
  have b: "mb_inv ((box (mbo s))\<lparr>entry := 0, in_offset := 0, out_offset := 0\<rparr>)" using mi by (simp add: mb_inv_def)
  show ?thesis
    by (rule mb_sys_invI) (use q(3) r1 r2 D(4) ns b in \<open>simp_all add: mbo_ok_def mb_items_def\<close>)
qed

lemma later_recv: "later c c' \<Longrightarrow> is_recv c' = is_recv c"
  by (cases c; cases c') auto

lemma mb_step_inv [c_inv]:
  assumes "mb_step s s'" "mb_sys_inv s"
  shows "mb_sys_inv s'"
  using assms
proof (induction rule: mb_step.induct)
  case (call_ends s t c r ths m)
  show ?case by (rule finish_inv [OF call_ends(4) _ call_ends(3)]) (use call_ends(1,2) in \<open>simp add: went_on_def\<close>)
next
  case (call_waits s t c ths m)
  show ?case by (rule mb_wait_inv [OF call_waits(4) _ call_waits(3)]) (use call_waits(1,2) in \<open>simp add: went_on_def\<close>)
next
  case (again_ends t s c r ths m)
  show ?case
    by (rule finish_inv [OF again_ends(4) _ again_ends(3)])
      (use mb_sys_invD(5) [OF again_ends(4,1)] later_recv [OF again_ends(2)] in \<open>simp add: went_on_def\<close>)
next
  case (again_waits t s c ths m)
  show ?case
    by (rule mb_wait_inv [OF again_waits(4) _ again_waits(3)])
      (use mb_sys_invD(5) [OF again_waits(4,1)] later_recv [OF again_waits(2)] in \<open>simp add: went_on_def\<close>)
next
  case (mb_timeout s t ths q q')
  show ?case unfolding mb_timeout(3) by (rule mb_timeout_inv [OF mb_timeout(4,2)])
next
  case (mb_urgent v s e ths m)
  show ?case by (rule urgent_inv [OF mb_urgent(2,1)])
next
  case (mb_reset s ths m)
  show ?case by (rule mb_reset_inv [OF mb_reset(2,1)])
qed

lemma mb_reach_inv:
  assumes "mb_reach (mb_start pool flag ths) s" "0 < length pool" "length pool < 65536" "fresh_threads ths"
  shows "mb_sys_inv s"
  using assms(1)
proof (induction rule: mb_reach.induct)
  case start
  have "mbo_ok ths (mbo (mb_start pool flag ths))"
    using assms(2-4) by (auto simp: mbo_ok_def mb_start_def mb_inv_init list_ok_def fresh_threads_def)
  then show ?case by (intro mb_sys_invI) (simp_all add: mb_start_def)
qed (rule mb_step_inv)

section \<open>Properties\<close>

text \<open>C23: No wake-up is lost at a mailbox: in every interleaving of calls, second tries, urgent mail, time-outs
  and resets, when no resumed receiver is on its way to its second try, receivers wait only at an empty
  mailbox, and in the same way senders only at a full one; and every mail accepted since the last reset
  is delivered once or still in the box.\<close>

theorem mailbox_no_lost_wakeup:
  assumes "0 < length pool" "length pool < 65536" "fresh_threads ths" "mb_reach (mb_start pool flag ths) s"
  shows "(receivers (mbo s) \<noteq> [] \<and> (\<forall>t \<in> set (pending s). \<not> is_recv (calls s t)) \<longrightarrow> entry (box (mbo s)) = 0) \<and>
    (senders (mbo s) \<noteq> [] \<and> (\<forall>t \<in> set (pending s). is_recv (calls s t)) \<longrightarrow> entry (box (mbo s)) = mb_size (box (mbo s))) \<and>
    mset (accepted s) = mset (delivered s) + mset (mb_items (box (mbo s)))"
proof -
  note D = mb_sys_invD [OF mb_reach_inv [OF assms(4,1-3)]]
  have le: "entry (box (mbo s)) \<le> mb_size (box (mbo s))" using D(1) by (simp add: mbo_ok_def mb_inv_def)
  have "on_way s k = 0" if "\<forall>t \<in> set (pending s). is_recv (calls s t) \<noteq> k" for k
    using that by (auto simp: on_way_def filter_empty_conv)
  then show ?thesis using D(6-8) le by fastforce
qed

text \<open>Thread 1 waits for mail in an empty mailbox of two places.\<close>

lemma mb_demo:
  "\<exists>s. mb_reach (mb_start [0, 0] RT_IPC_FLAG_FIFO demo_threads) s \<and> receivers (mbo s) = [1] \<and> pending s = []"
proof -
  let ?s0 = "mb_start [0, 0] RT_IPC_FLAG_FIFO demo_threads"
  obtain ths m where e: "mb_try True 1 (MbRecv (-1)) (mb_threads ?s0) (mbo ?s0) = Some (Suspended, ths, m)" "receivers m = [1]"
  proof -
    have "\<exists>ths m. mb_try True 1 (MbRecv (-1)) (mb_threads ?s0) (mbo ?s0) = Some (Suspended, ths, m) \<and> receivers m = [1]"
      by (simp add: mb_try_def mb_recv_def mb_recv_loop_def mb_start_def rt_mb_init_def ipc_list_suspend_def demo_threads_def Let_def)
    then show thesis using that by blast
  qed
  have "mb_reach ?s0 (wait_again ?s0 1 (MbRecv (-1)) ths m)"
    by (rule mb_reach.step [OF mb_reach.start call_waits [OF _ _ e(1)]]) (simp_all add: mb_start_def demo_threads_def)
  moreover have "pending (wait_again ?s0 1 (MbRecv (-1)) ths m) = []" by (simp add: mb_start_def)
  ultimately show ?thesis using e(2) by (intro exI [of _ "wait_again ?s0 1 (MbRecv (-1)) ths m"]) simp
qed

theorem mailbox_no_lost_wakeup_witness:
  "\<exists>s :: mb_sys. receivers (mbo s) = [1] \<and> entry (box (mbo s)) = 0 \<and> mset (accepted s) = mset (delivered s) + mset (mb_items (box (mbo s)))"
proof -
  obtain s where s: "mb_reach (mb_start [0, 0] RT_IPC_FLAG_FIFO demo_threads) s" "receivers (mbo s) = [1]" "pending s = []"
    using mb_demo by blast
  have l: "0 < length [0, 0 :: u32]" "length [0, 0 :: u32] < 65536" by simp_all
  show ?thesis using mailbox_no_lost_wakeup [OF l fresh_demo s(1)] s(2,3) by (intro exI [of _ s]) simp
qed

end
