(* ===== verification/CanFifo.thy ===== *)
theory CanFifo
  imports CanProto Semaphore
begin

text \<open>
  Reception in the CAN framework (\<open>can.c\<close>): a pool of message nodes on a free list and a list of received
  messages in order, with a list per connected filter; the interrupt handler fills nodes, a reader takes
  one, copies it with interrupts enabled and gives it back. Then the line of the application: the
  handler's call-back releases a semaphore and \<open>can_rx_thread\<close> of \<open>mycan.c\<close> reads one message per token.
\<close>

section \<open>State\<close>

record can_node =
  node_msg :: can_msg
  node_owner :: "nat option"

record can_hdr =
  connected :: bool
  hdr_list :: "nat list"
  hdr_msgs :: nat

text \<open>Nodes are named by their index in the buffer, filters by their index.\<close>

record can_rx_fifo =
  nodes :: "can_node list"
  freelist :: "nat list"
  uselist :: "nat list"
  freenumbers :: nat
  hdrs :: "can_hdr list"
  rcvpkg :: u32
  dropedrcvpkg :: u32

definition RT_CANMSG_BOX_SZ :: nat where "RT_CANMSG_BOX_SZ = 16"

definition maxhdr :: nat where "maxhdr = 28"

text \<open>The receiving part of \<open>rt_can_open\<close>.\<close>

definition rt_can_open :: "nat \<Rightarrow> nat \<Rightarrow> can_rx_fifo" where
  "rt_can_open msgboxsz n =
    \<lparr>nodes = replicate msgboxsz \<lparr>node_msg = \<lparr>can_id = 0, can_data = []\<rparr>, node_owner = None\<rparr>,
     freelist = [0..<msgboxsz], uselist = [], freenumbers = msgboxsz,
     hdrs = replicate n \<lparr>connected = False, hdr_list = [], hdr_msgs = 0\<rparr>, rcvpkg = 0, dropedrcvpkg = 0\<rparr>"

text \<open>\<open>RT_CAN_CMD_SET_FILTER\<close> for one active item: a bank outside the range is skipped.\<close>

definition can_connect :: "int \<Rightarrow> can_rx_fifo \<Rightarrow> can_rx_fifo" where
  "can_connect hdr_bank c =
    (if hdr_bank \<ge> int (length (hdrs c)) \<or> hdr_bank < 0 then c
     else if connected (hdrs c ! nat hdr_bank) then c
     else c\<lparr>hdrs := (hdrs c)[nat hdr_bank := \<lparr>connected = True, hdr_list = [], hdr_msgs = 0\<rparr>]\<rparr>)"

section \<open>Operations\<close>

text \<open>
  A node leaves its lists, the count of its filter goes down unless it is 0, and it has no owner any more.
\<close>

definition unlink :: "nat \<Rightarrow> can_rx_fifo \<Rightarrow> can_rx_fifo" where
  "unlink n c =
    (let c = c\<lparr>freelist := removeAll n (freelist c), uselist := removeAll n (uselist c),
               hdrs := map (\<lambda>h. h\<lparr>hdr_list := removeAll n (hdr_list h)\<rparr>) (hdrs c)\<rparr>;
         c = (case node_owner (nodes c ! n) of
                None \<Rightarrow> c
              | Some h \<Rightarrow> c\<lparr>hdrs := (hdrs c)[h := (hdrs c ! h)\<lparr>hdr_msgs := hdr_msgs (hdrs c ! h) - 1\<rparr>]\<rparr>)
     in c\<lparr>nodes := (nodes c)[n := (nodes c ! n)\<lparr>node_owner := None\<rparr>]\<rparr>)"

text \<open>
  The node for a new message: a free one, else the oldest one in use, which is lost. \<open>None\<close> outside
  is the assertion that the number of free nodes is positive.
\<close>

definition can_alloc :: "can_rx_fifo \<Rightarrow> (nat option \<times> can_rx_fifo) option" where
  "can_alloc c = (case freelist c of
     n # _ \<Rightarrow> (let c = unlink n c in
              if freenumbers c > 0 then Some (Some n, c\<lparr>freenumbers := freenumbers c - 1\<rparr>) else None)
   | [] \<Rightarrow> (case uselist c of
       n # _ \<Rightarrow> Some (Some n, unlink n (c\<lparr>dropedrcvpkg := dropedrcvpkg c + 1\<rparr>))
     | [] \<Rightarrow> Some (None, c)))"

text \<open>The message goes to the end of the used list and of the list of its filter, if that is connected.\<close>

definition can_link :: "nat \<Rightarrow> nat \<Rightarrow> can_msg \<Rightarrow> can_rx_fifo \<Rightarrow> can_rx_fifo option" where
  "can_link n hdr msg c =
    (let c = c\<lparr>nodes := (nodes c)[n := (nodes c ! n)\<lparr>node_msg := msg\<rparr>], uselist := uselist c @ [n]\<rparr>
     in do {
       h \<leftarrow> rd (hdrs c) hdr;
       Some (if connected h
         then c\<lparr>hdrs := (hdrs c)[hdr := h\<lparr>hdr_list := hdr_list h @ [n], hdr_msgs := hdr_msgs h + 1\<rparr>],
                nodes := (nodes c)[n := (nodes c ! n)\<lparr>node_owner := Some hdr\<rparr>]\<rparr>
         else c)
     })"

text \<open>\<open>rt_hw_can_isr\<close> for a message, with or without the mark of an overrun of the controller.\<close>

definition can_isr_rx :: "bool \<Rightarrow> nat \<Rightarrow> can_msg \<Rightarrow> can_rx_fifo \<Rightarrow> can_rx_fifo option" where
  "can_isr_rx overrun hdr msg c =
    (let c = (if overrun then c\<lparr>dropedrcvpkg := dropedrcvpkg c + 1\<rparr> else c);
         c = c\<lparr>rcvpkg := rcvpkg c + 1\<rparr>
     in do {
       (listmsg, c) \<leftarrow> can_alloc c;
       (case listmsg of None \<Rightarrow> Some c | Some n \<Rightarrow> can_link n hdr msg c)
     })"

text \<open>
  One pass of the loop of \<open>_can_int_rx\<close>: taking a node, the first of a filter or of all, and, after the
  copy, giving it back; \<open>None\<close> is the assertion on the number of free nodes.
\<close>

definition can_take :: "int \<Rightarrow> can_rx_fifo \<Rightarrow> nat option \<times> can_rx_fifo" where
  "can_take hdr c =
    (if 0 \<le> hdr \<and> hdr < int (length (hdrs c)) \<and> hdr_list (hdrs c ! nat hdr) \<noteq> []
     then (let n = hd (hdr_list (hdrs c ! nat hdr)) in (Some n, unlink n c))
     else if hdr = -1 then (case uselist c of [] \<Rightarrow> (None, c) | n # _ \<Rightarrow> (Some n, unlink n c))
     else (None, c))"

definition can_put :: "nat \<Rightarrow> can_rx_fifo \<Rightarrow> can_rx_fifo option" where
  "can_put n c =
    (let c = c\<lparr>freelist := freelist c @ [n], freenumbers := freenumbers c + 1\<rparr>
     in if freenumbers c \<le> length (nodes c) then Some c else None)"

definition can_int_rx :: "int \<Rightarrow> can_rx_fifo \<Rightarrow> (can_msg option \<times> can_rx_fifo) option" where
  "can_int_rx hdr c = (case can_take hdr c of
     (None, c) \<Rightarrow> Some (None, c)
   | (Some n, c) \<Rightarrow> do { c' \<leftarrow> can_put n c; Some (Some (node_msg (nodes c ! n)), c') })"

section \<open>The pool\<close>

text \<open>
  The nodes the readers hold at the moment belong to no list. Every node is in one place; the list of a
  filter is the part of the used list that it owns, and its count the length of that.
\<close>

definition can_ok :: "nat list \<Rightarrow> can_rx_fifo \<Rightarrow> bool" where
  "can_ok held c \<longleftrightarrow> mset (freelist c @ uselist c @ held) = mset [0..<length (nodes c)] \<and>
     freenumbers c = length (freelist c) \<and>
     (\<forall>n \<in> set (freelist c) \<union> set held. node_owner (nodes c ! n) = None) \<and>
     (\<forall>n \<in> set (uselist c). \<forall>h. node_owner (nodes c ! n) = Some h \<longrightarrow> h < length (hdrs c) \<and> connected (hdrs c ! h)) \<and>
     (\<forall>h < length (hdrs c). hdr_list (hdrs c ! h) = filter (\<lambda>n. node_owner (nodes c ! n) = Some h) (uselist c) \<and>
        hdr_msgs (hdrs c ! h) = length (hdr_list (hdrs c ! h)))"

lemma can_okD:
  assumes "can_ok held c"
  shows "mset (freelist c @ uselist c @ held) = mset [0..<length (nodes c)]" "freenumbers c = length (freelist c)"
    "n \<in> set (freelist c) \<union> set held \<Longrightarrow> node_owner (nodes c ! n) = None"
    "n \<in> set (uselist c) \<Longrightarrow> node_owner (nodes c ! n) = Some h \<Longrightarrow> h < length (hdrs c) \<and> connected (hdrs c ! h)"
    "h < length (hdrs c) \<Longrightarrow> hdr_list (hdrs c ! h) = filter (\<lambda>n. node_owner (nodes c ! n) = Some h) (uselist c)"
    "h < length (hdrs c) \<Longrightarrow> hdr_msgs (hdrs c ! h) = length (hdr_list (hdrs c ! h))"
  using assms by (auto simp: can_ok_def)

lemma can_ok_nodes:
  assumes "can_ok held c"
  shows "set (freelist c) \<union> set (uselist c) \<union> set held = {0..<length (nodes c)}" "distinct (freelist c @ uselist c @ held)"
    "length (freelist c) + length (uselist c) + length held = length (nodes c)"
proof -
  note m = can_okD(1) [OF assms]
  show "set (freelist c) \<union> set (uselist c) \<union> set held = {0..<length (nodes c)}"
    using arg_cong [OF m, of set_mset] by auto
  show "distinct (freelist c @ uselist c @ held)" using mset_eq_imp_distinct_iff [OF m] by simp
  show "length (freelist c) + length (uselist c) + length held = length (nodes c)"
    using arg_cong [OF m, of size] by simp
qed

text \<open>The messages in order, each with the filter that owns it.\<close>

definition can_contents :: "can_rx_fifo \<Rightarrow> (nat option \<times> can_msg) list" where
  "can_contents c = map (\<lambda>n. (node_owner (nodes c ! n), node_msg (nodes c ! n))) (uselist c)"

lemma can_open_ok: "can_ok [] (rt_can_open n h)" "can_contents (rt_can_open n h) = []"
  by (simp_all add: can_ok_def rt_can_open_def can_contents_def)

lemma can_connect_ok:
  assumes "can_ok held c"
  shows "can_ok held (can_connect b c)" "can_contents (can_connect b c) = can_contents c"
proof -
  have n: "connected (hdrs c ! h)" if "node_owner (nodes c ! m) = Some h" "m \<in> set (uselist c)" for m h
    using can_okD(4) [OF assms that(2,1)] by simp
  have e: "filter (\<lambda>m. node_owner (nodes c ! m) = Some h) (uselist c) = []" if "\<not> connected (hdrs c ! h)" for h
    using n that by (auto simp: filter_empty_conv)
  show "can_ok held (can_connect b c)"
    using assms e unfolding can_ok_def can_connect_def by (auto simp: nth_list_update)
  show "can_contents (can_connect b c) = can_contents c" by (simp add: can_connect_def can_contents_def)
qed

text \<open>Taking a node off its lists, as one step for all callers.\<close>

lemma unlink_simps [simp]:
  "freelist (unlink n c) = removeAll n (freelist c)" "uselist (unlink n c) = removeAll n (uselist c)"
  "freenumbers (unlink n c) = freenumbers c" "length (nodes (unlink n c)) = length (nodes c)"
  "length (hdrs (unlink n c)) = length (hdrs c)" "rcvpkg (unlink n c) = rcvpkg c"
  "dropedrcvpkg (unlink n c) = dropedrcvpkg c"
  by (simp_all add: unlink_def Let_def split: option.split)

lemma unlink_nodes:
  "nodes (unlink n c) = (nodes c)[n := (nodes c ! n)\<lparr>node_owner := None\<rparr>]"
  by (simp add: unlink_def Let_def split: option.split)

lemma unlink_msg [simp]: "node_msg (nodes (unlink n c) ! k) = node_msg (nodes c ! k)"
  by (cases "n < length (nodes c)") (auto simp: unlink_nodes nth_list_update list_update_beyond)

lemma unlink_owner:
  "n < length (nodes c) \<Longrightarrow> node_owner (nodes (unlink n c) ! k) = (if k = n then None else node_owner (nodes c ! k))"
  by (auto simp: unlink_nodes nth_list_update)

lemma unlink_hdr:
  assumes "h < length (hdrs c)"
  shows "connected (hdrs (unlink n c) ! h) = connected (hdrs c ! h)"
    "hdr_list (hdrs (unlink n c) ! h) = removeAll n (hdr_list (hdrs c ! h))"
    "hdr_msgs (hdrs (unlink n c) ! h) = hdr_msgs (hdrs c ! h) - (if node_owner (nodes c ! n) = Some h then 1 else 0)"
  using assms by (cases "node_owner (nodes c ! n)"; cases "node_owner (nodes c ! n) = Some h"; simp add: unlink_def Let_def)+

text \<open>The invariant without the count of free nodes, which the callers adjust.\<close>

definition can_lists :: "nat list \<Rightarrow> can_rx_fifo \<Rightarrow> bool" where
  "can_lists held c \<longleftrightarrow> can_ok held (c\<lparr>freenumbers := length (freelist c)\<rparr>)"

lemma can_ok_lists: "can_ok held c \<longleftrightarrow> can_lists held c \<and> freenumbers c = length (freelist c)"
  by (auto simp: can_lists_def can_ok_def)

lemma unlink_lists:
  assumes ok: "can_ok held c" and n: "n \<in> set (freelist c) \<union> set (uselist c)"
  shows "can_lists (n # held) (unlink n c)"
proof -
  note D = can_okD [OF ok]
  have len: "n < length (nodes c)" using can_ok_nodes(1) [OF ok] n by auto
  have dist: "distinct (freelist c @ uselist c @ held)" by (rule can_ok_nodes(2) [OF ok])
  have m: "mset (removeAll n (freelist c) @ removeAll n (uselist c) @ n # held) = mset [0..<length (nodes c)]"
  proof (cases "n \<in> set (freelist c)")
    case True
    then have u: "removeAll n (uselist c) = uselist c" using dist by (auto intro: removeAll_id)
    have "mset (removeAll n (freelist c)) = mset (freelist c) - {#n#}"
      using dist by (simp flip: distinct_remove1_removeAll)
    then have "mset (removeAll n (freelist c) @ removeAll n (uselist c) @ n # held) = mset (freelist c @ uselist c @ held)"
      using True u by simp
    then show ?thesis by (rule trans [OF _ D(1)])
  next
    case False
    then have n: "n \<in> set (uselist c)" and u: "removeAll n (freelist c) = freelist c" using n by auto
    have "mset (removeAll n (uselist c)) = mset (uselist c) - {#n#}"
      using dist by (simp flip: distinct_remove1_removeAll)
    then have "mset (removeAll n (freelist c) @ removeAll n (uselist c) @ n # held) = mset (freelist c @ uselist c @ held)"
      using n u by simp
    then show ?thesis by (rule trans [OF _ D(1)])
  qed
  have f: "filter (\<lambda>k. node_owner (nodes (unlink n c) ! k) = Some h) (removeAll n (uselist c)) =
      removeAll n (filter (\<lambda>k. node_owner (nodes c ! k) = Some h) (uselist c))" for h
    by (auto simp: unlink_owner [OF len] removeAll_filter_not_eq conj_commute intro: filter_cong)
  have l: "length (removeAll n (filter (\<lambda>k. node_owner (nodes c ! k) = Some h) (uselist c))) =
      length (filter (\<lambda>k. node_owner (nodes c ! k) = Some h) (uselist c)) - (if node_owner (nodes c ! n) = Some h then 1 else 0)" for h
  proof (cases "n \<in> set (uselist c) \<and> node_owner (nodes c ! n) = Some h")
    case True
    then show ?thesis using dist by (simp add: length_remove1 flip: distinct_remove1_removeAll)
  next
    case False
    then have "n \<notin> set (filter (\<lambda>k. node_owner (nodes c ! k) = Some h) (uselist c))" by simp
    moreover have "node_owner (nodes c ! n) \<noteq> Some h" using False n D(3) [of n] by auto
    ultimately show ?thesis by (simp add: removeAll_id)
  qed
  have o: "\<forall>k \<in> set (removeAll n (freelist c)) \<union> set (n # held). node_owner (nodes (unlink n c) ! k) = None"
    "\<forall>k \<in> set (removeAll n (uselist c)). \<forall>h. node_owner (nodes (unlink n c) ! k) = Some h \<longrightarrow>
       h < length (hdrs c) \<and> connected (hdrs (unlink n c) ! h)"
    using D(3) D(4) by (auto simp: unlink_owner [OF len] unlink_hdr)
  have "\<forall>h < length (hdrs c). hdr_list (hdrs (unlink n c) ! h) =
       filter (\<lambda>k. node_owner (nodes (unlink n c) ! k) = Some h) (removeAll n (uselist c)) \<and>
       hdr_msgs (hdrs (unlink n c) ! h) = length (hdr_list (hdrs (unlink n c) ! h))"
    by (simp add: unlink_hdr f l D(5) D(6))
  then show ?thesis unfolding can_lists_def can_ok_def using m o by simp
qed

lemma unlink_contents:
  assumes "n < length (nodes c)"
  shows "can_contents (unlink n c) = map (\<lambda>k. (node_owner (nodes c ! k), node_msg (nodes c ! k))) (removeAll n (uselist c))"
  using assms by (auto simp: can_contents_def unlink_owner)

text \<open>The node for a message: with all nodes held by readers there is none.\<close>

lemma can_alloc_ok:
  assumes ok: "can_ok held c"
  shows "if length held = length (nodes c) then can_alloc c = Some (None, c) \<and> uselist c = []
    else \<exists>n c'. can_alloc c = Some (Some n, c') \<and> can_ok (n # held) c' \<and> n < length (nodes c) \<and> n \<notin> set held \<and>
      nodes c' = (nodes c)[n := (nodes c ! n)\<lparr>node_owner := None\<rparr>] \<and> length (hdrs c') = length (hdrs c) \<and>
      (\<forall>h < length (hdrs c). connected (hdrs c' ! h) = connected (hdrs c ! h)) \<and>
      can_contents c' = newest (length (nodes c) - length held - 1) (can_contents c)"
proof (cases "freelist c")
  case (Cons n ns)
  have "n < length (nodes c)" and h: "n \<notin> set held" using can_ok_nodes(1,2) [OF ok] Cons by auto
  then have len: "n < length (nodes c)" "length held \<noteq> length (nodes c)" "length (can_contents c) \<le> length (nodes c) - length held - 1"
    using can_ok_nodes(3) [OF ok] Cons by (auto simp: can_contents_def)
  have f: "removeAll n (n # ns) = ns" "removeAll n (uselist c) = uselist c"
    using can_ok_nodes(2) [OF ok] Cons by (auto simp: removeAll_id)
  have L: "can_lists (n # held) (unlink n c)" using unlink_lists [OF ok] Cons by simp
  have a: "can_alloc c = Some (Some n, (unlink n c)\<lparr>freenumbers := length ns\<rparr>)"
    using Cons can_okD(2) [OF ok] by (simp add: can_alloc_def Let_def)
  have "can_ok (n # held) ((unlink n c)\<lparr>freenumbers := length ns\<rparr>)" using L f Cons by (simp add: can_lists_def)
  moreover have "can_contents ((unlink n c)\<lparr>freenumbers := length ns\<rparr>) = can_contents c"
    using unlink_contents [OF len(1)] f by (simp add: can_contents_def)
  ultimately show ?thesis
    using a len h unlink_hdr(1) by (auto simp: unlink_nodes)
next
  case Nil
  show ?thesis
  proof (cases "uselist c")
    case Nil2: Nil
    then show ?thesis using Nil can_ok_nodes(3) [OF ok] by (simp add: can_alloc_def)
  next
    case (Cons n ns)
    let ?c = "c\<lparr>dropedrcvpkg := dropedrcvpkg c + 1\<rparr>"
    have ok': "can_ok held ?c" using ok by (simp add: can_ok_def)
    have len: "n < length (nodes c)" "length (nodes c) - length held - 1 = length ns" "length held \<noteq> length (nodes c)"
      and h: "n \<notin> set held"
      using can_ok_nodes [OF ok] Cons Nil by auto
    have f: "removeAll n (n # ns) = ns" using can_ok_nodes(2) [OF ok] Cons by (auto simp: removeAll_id)
    have a: "can_alloc c = Some (Some n, unlink n ?c)" using Nil Cons by (simp add: can_alloc_def)
    have "can_ok (n # held) (unlink n ?c)"
      using unlink_lists [OF ok'] Cons Nil can_okD(2) [OF ok] by (simp add: can_ok_lists)
    moreover have "can_contents (unlink n ?c) = newest (length ns) (can_contents c)"
      using unlink_contents [of n ?c] len(1) Cons by (simp add: can_contents_def newest_def f [simplified])
    ultimately show ?thesis using a len h unlink_hdr(1) [of _ ?c n] by (auto simp: unlink_nodes)
  qed
qed

lemma can_link_ok:
  assumes ok: "can_ok (n # held) c" and h: "h < length (hdrs c)"
  shows "\<exists>c'. can_link n h msg c = Some c' \<and> can_ok held c' \<and> length (nodes c') = length (nodes c) \<and>
      length (hdrs c') = length (hdrs c) \<and> (\<forall>h < length (hdrs c). connected (hdrs c' ! h) = connected (hdrs c ! h)) \<and>
      (\<forall>k. k \<noteq> n \<longrightarrow> nodes c' ! k = nodes c ! k) \<and>
      can_contents c' = can_contents c @ [(if connected (hdrs c ! h) then Some h else None, msg)]"
proof -
  note D = can_okD [OF ok]
  obtain own where own_def: "own = (if connected (hdrs c ! h) then Some h else None)" by blast
  have n: "n < length (nodes c)" "n \<notin> set (uselist c)" "n \<notin> set (freelist c)" "n \<notin> set held"
    using can_ok_nodes(1,2) [OF ok] by auto
  obtain c' where c'_def: "c' = c\<lparr>nodes := (nodes c)[n := \<lparr>node_msg = msg, node_owner = own\<rparr>], uselist := uselist c @ [n],
      hdrs := (if own = None then hdrs c else (hdrs c)[h := (hdrs c ! h)\<lparr>hdr_list := hdr_list (hdrs c ! h) @ [n], hdr_msgs := hdr_msgs (hdrs c ! h) + 1\<rparr>])\<rparr>" by blast
  have e: "can_link n h msg c = Some c'"
    using n(1) h D(3) [of n] by (cases "nodes c ! n") (auto simp: can_link_def Let_def rd_def c'_def own_def)
  have o: "k \<noteq> n \<Longrightarrow> nodes c' ! k = nodes c ! k" "nodes c' ! n = \<lparr>node_msg = msg, node_owner = own\<rparr>" for k
    using n(1) by (simp_all add: c'_def)
  have oo: "nodes c' ! k = nodes c ! k" if "k \<in> set (uselist c)" for k using n(2) o(1) that by (cases "k = n") simp_all
  have f: "filter (\<lambda>k. node_owner (nodes c' ! k) = Some x) (uselist c) = filter (\<lambda>k. node_owner (nodes c ! k) = Some x) (uselist c)" for x
    by (rule filter_cong [OF refl]) (simp add: oo)
  have conn: "connected (hdrs c' ! x) = connected (hdrs c ! x)" if "x < length (hdrs c)" for x
    using that by (cases "x = h") (simp_all add: c'_def)
  have m: "mset (freelist c' @ uselist c' @ held) = mset [0..<length (nodes c')]"
    using D(1) by (simp add: c'_def ac_simps)
  have u: "\<forall>k \<in> set (uselist c'). \<forall>x. node_owner (nodes c' ! k) = Some x \<longrightarrow> x < length (hdrs c') \<and> connected (hdrs c' ! x)"
  proof (intro ballI allI impI)
    fix k x assume k: "k \<in> set (uselist c')" "node_owner (nodes c' ! k) = Some x"
    show "x < length (hdrs c') \<and> connected (hdrs c' ! x)"
    proof (cases "k = n")
      case True
      then show ?thesis using k o(2) h by (auto simp: own_def c'_def split: if_splits)
    next
      case False
      then have "x < length (hdrs c) \<and> connected (hdrs c ! x)" using k o(1) D(4) [of k x] by (simp add: c'_def)
      then show ?thesis using conn by (simp add: c'_def)
    qed
  qed
  have i: "\<forall>k \<in> set (freelist c') \<union> set held. node_owner (nodes c' ! k) = None"
    using D(3) n o(1) by (auto simp: c'_def nth_list_update)
  have l: "\<forall>x < length (hdrs c'). hdr_list (hdrs c' ! x) = filter (\<lambda>k. node_owner (nodes c' ! k) = Some x) (uselist c') \<and>
      hdr_msgs (hdrs c' ! x) = length (hdr_list (hdrs c' ! x))"
  proof (intro allI impI)
    fix x assume "x < length (hdrs c')"
    then have x': "x < length (hdrs c)" by (simp add: c'_def split: if_splits)
    have F: "filter (\<lambda>k. node_owner (nodes c' ! k) = Some x) (uselist c') =
        filter (\<lambda>k. node_owner (nodes c ! k) = Some x) (uselist c) @ (if own = Some x then [n] else [])"
      using f [of x] o(2) by (simp add: c'_def)
    show "hdr_list (hdrs c' ! x) = filter (\<lambda>k. node_owner (nodes c' ! k) = Some x) (uselist c') \<and>
      hdr_msgs (hdrs c' ! x) = length (hdr_list (hdrs c' ! x))"
      unfolding F using D(5,6) [OF x'] h by (cases "x = h") (auto simp: c'_def own_def)
  qed
  have ok': "can_ok held c'" unfolding can_ok_def using m u i l D(2) by (simp add: c'_def)
  have C: "can_contents c' = can_contents c @ [(own, msg)]"
  proof -
    have "map (\<lambda>k. (node_owner (nodes c' ! k), node_msg (nodes c' ! k))) (uselist c) = can_contents c"
      unfolding can_contents_def by (rule map_cong [OF refl]) (simp add: oo)
    moreover have "uselist c' = uselist c @ [n]" by (simp add: c'_def)
    ultimately show ?thesis using o(2) by (simp add: can_contents_def)
  qed
  have "length (nodes c') = length (nodes c)" "length (hdrs c') = length (hdrs c)"
    "\<forall>x < length (hdrs c). connected (hdrs c' ! x) = connected (hdrs c ! x)" using conn by (simp_all add: c'_def)
  then show ?thesis using e ok' o(1) C unfolding own_def by blast
qed

text \<open>
  A message comes in. \<open>same_shape\<close>: the numbers of nodes and filters and which filters are connected stay.
\<close>

definition same_shape :: "can_rx_fifo \<Rightarrow> can_rx_fifo \<Rightarrow> bool" where
  "same_shape c c' \<longleftrightarrow> length (nodes c') = length (nodes c) \<and> map connected (hdrs c') = map connected (hdrs c)"

lemma same_shapeI:
  assumes "length (nodes c') = length (nodes c)" "length (hdrs c') = length (hdrs c)"
    "\<forall>h < length (hdrs c). connected (hdrs c' ! h) = connected (hdrs c ! h)"
  shows "same_shape c c'"
  using assms by (simp add: same_shape_def list_eq_iff_nth_eq)

definition owner_of :: "can_rx_fifo \<Rightarrow> nat \<Rightarrow> nat option" where
  "owner_of c h = (if connected (hdrs c ! h) then Some h else None)"

lemma same_shapeD:
  assumes "same_shape c c'"
  shows "length (nodes c') = length (nodes c)" "length (hdrs c') = length (hdrs c)"
    "h < length (hdrs c) \<Longrightarrow> owner_of c' h = owner_of c h"
proof -
  have m: "map connected (hdrs c') = map connected (hdrs c)" and "length (nodes c') = length (nodes c)"
    using assms by (simp_all add: same_shape_def)
  then show "length (nodes c') = length (nodes c)" by simp
  show l: "length (hdrs c') = length (hdrs c)" by (rule map_eq_imp_length_eq [OF m])
  show "owner_of c' h = owner_of c h" if "h < length (hdrs c)"
    using arg_cong [OF m, of "\<lambda>xs. xs ! h"] that l by (simp add: owner_of_def)
qed

lemma can_isr_rx_ok:
  assumes ok: "can_ok held c" and h: "h < length (hdrs c)"
  shows "\<exists>c'. can_isr_rx ov h msg c = Some c' \<and> can_ok held c' \<and> same_shape c c' \<and>
      (\<forall>k \<in> set held. nodes c' ! k = nodes c ! k) \<and>
      can_contents c' = newest (length (nodes c) - length held) (can_contents c @ [(owner_of c h, msg)])"
proof -
  obtain c0 where c0: "c0 = (let c = (if ov then c\<lparr>dropedrcvpkg := dropedrcvpkg c + 1\<rparr> else c) in c\<lparr>rcvpkg := rcvpkg c + 1\<rparr>)" by blast
  have s: "can_isr_rx ov h msg c = do { (listmsg, c) \<leftarrow> can_alloc c0; (case listmsg of None \<Rightarrow> Some c | Some n \<Rightarrow> can_link n h msg c) }"
    by (simp add: can_isr_rx_def c0 Let_def)
  have ok0: "can_ok held c0" and e0: "nodes c0 = nodes c" "hdrs c0 = hdrs c" "can_contents c0 = can_contents c" "uselist c0 = uselist c"
    using ok by (auto simp: c0 can_ok_def can_contents_def Let_def)
  show ?thesis
  proof (cases "length held = length (nodes c0)")
    case True
    then have "can_alloc c0 = Some (None, c0)" "uselist c0 = []" using can_alloc_ok [OF ok0] by simp_all
    then show ?thesis using s ok0 e0 True by (auto simp: can_contents_def same_shape_def newest_def)
  next
    case False
    let ?k = "length (nodes c) - length held"
    obtain n c1 where a: "can_alloc c0 = Some (Some n, c1)" "can_ok (n # held) c1" "n < length (nodes c)" "n \<notin> set held"
      "nodes c1 = (nodes c)[n := (nodes c ! n)\<lparr>node_owner := None\<rparr>]" "length (hdrs c1) = length (hdrs c)"
      "\<forall>h < length (hdrs c). connected (hdrs c1 ! h) = connected (hdrs c ! h)"
      "can_contents c1 = newest (?k - 1) (can_contents c)"
      using can_alloc_ok [OF ok0] False e0 by auto
    obtain c2 where l: "can_link n h msg c1 = Some c2" "can_ok held c2" "length (nodes c2) = length (nodes c1)"
      "length (hdrs c2) = length (hdrs c1)" "\<forall>h < length (hdrs c1). connected (hdrs c2 ! h) = connected (hdrs c1 ! h)"
      "\<forall>k. k \<noteq> n \<longrightarrow> nodes c2 ! k = nodes c1 ! k"
      "can_contents c2 = can_contents c1 @ [(if connected (hdrs c1 ! h) then Some h else None, msg)]"
      using can_link_ok [OF a(2), of h msg] h a(6) by auto
    have k: "0 < ?k" using can_ok_nodes(3) [OF ok0] False e0 by simp
    have "newest ?k (can_contents c @ [x]) = newest (?k - 1) (can_contents c) @ [x]" for x
      using k by (cases ?k) (simp_all add: newest_def)
    then have "can_contents c2 = newest ?k (can_contents c @ [(owner_of c h, msg)])"
      using l(7) a(7,8) h by (simp add: owner_of_def)
    moreover have "same_shape c c2" by (rule same_shapeI) (use l(3,4,5) a(5,6,7) in simp_all)
    moreover have "\<forall>k \<in> set held. nodes c2 ! k = nodes c ! k" using l(6) a(4,5) by auto
    moreover have "can_isr_rx ov h msg c = Some c2" using s a(1) l(1) by simp
    ultimately show ?thesis using l(2) by blast
  qed
qed

text \<open>A reader takes a node and gives one back.\<close>

lemma take_first_filter:
  assumes "distinct ns" "filter P ns = n # rest"
  shows "n \<in> set ns" "P n" "removeAll n ns = takeWhile (\<lambda>k. \<not> P k) ns @ tl (dropWhile (\<lambda>k. \<not> P k) ns)"
    "\<exists>xs. dropWhile (\<lambda>k. \<not> P k) ns = n # xs"
proof -
  show "n \<in> set ns" "P n" using arg_cong [OF assms(2), of set] by auto
  obtain a b where a: "ns = a @ n # b" "\<forall>k \<in> set a. \<not> P k" "P n" using assms(2) by (auto simp: filter_eq_Cons_iff)
  have t: "takeWhile (\<lambda>k. \<not> P k) (a @ n # b) = a" "dropWhile (\<lambda>k. \<not> P k) (a @ n # b) = n # b"
    using a(2,3) by (simp_all add: takeWhile_append2 dropWhile_append2)
  show "removeAll n ns = takeWhile (\<lambda>k. \<not> P k) ns @ tl (dropWhile (\<lambda>k. \<not> P k) ns)"
    unfolding a(1) t using assms(1) a(1) by (auto simp: removeAll_id)
  show "\<exists>xs. dropWhile (\<lambda>k. \<not> P k) ns = n # xs" unfolding a(1) t by simp
qed

text \<open>The entry a reader gets: the first of a filter, or the first of all; and what stays.\<close>

definition wanted :: "int \<Rightarrow> nat option \<times> can_msg \<Rightarrow> bool" where
  "wanted hdr x \<longleftrightarrow> (if 0 \<le> hdr then fst x = Some (nat hdr) else hdr = -1)"

definition take_entry :: "int \<Rightarrow> (nat option \<times> can_msg) list \<Rightarrow> can_msg option \<times> (nat option \<times> can_msg) list" where
  "take_entry hdr xs = (case dropWhile (\<lambda>x. \<not> wanted hdr x) xs of
     [] \<Rightarrow> (None, xs) | x # rest \<Rightarrow> (Some (snd x), takeWhile (\<lambda>x. \<not> wanted hdr x) xs @ rest))"

lemma can_take_ok:
  assumes ok: "can_ok held c" and t: "can_take hdr c = (r, c')"
  shows "same_shape c c'" "map_option (\<lambda>n. node_msg (nodes c' ! n)) r = fst (take_entry hdr (can_contents c))"
    "can_contents c' = snd (take_entry hdr (can_contents c))" "can_ok (case r of None \<Rightarrow> held | Some n \<Rightarrow> n # held) c'"
    "case r of None \<Rightarrow> c' = c | Some n \<Rightarrow> n \<notin> set held"
    "k \<in> set held \<Longrightarrow> node_msg (nodes c' ! k) = node_msg (nodes c ! k)"
proof -
  note D = can_okD [OF ok]
  let ?f = "\<lambda>k. (node_owner (nodes c ! k), node_msg (nodes c ! k))"
  have dist: "distinct (freelist c @ uselist c @ held)" by (rule can_ok_nodes(2) [OF ok])
  have own: "hdr_list (hdrs c ! nat hdr) = filter (\<lambda>k. wanted hdr (?f k)) (uselist c)" if "0 \<le> hdr" "hdr < int (length (hdrs c))"
    using D(5) [of "nat hdr"] that by (simp add: wanted_def)
  have far: "filter (\<lambda>k. wanted hdr (?f k)) (uselist c) = []" if "0 \<le> hdr" "\<not> hdr < int (length (hdrs c))"
    using D(4) that by (fastforce simp: wanted_def filter_empty_conv)
  have neg: "filter (\<lambda>k. wanted hdr (?f k)) (uselist c) = (if hdr = -1 then uselist c else [])" if "\<not> 0 \<le> hdr"
    using that by (simp add: wanted_def)
  have e: "can_take hdr c = (case filter (\<lambda>k. wanted hdr (?f k)) (uselist c) of [] \<Rightarrow> (None, c) | n # _ \<Rightarrow> (Some n, unlink n c))"
  proof (cases "0 \<le> hdr")
    case True
    then show ?thesis using own far by (cases "hdr < int (length (hdrs c))") (auto simp: can_take_def split: list.split)
  next
    case False
    then show ?thesis using neg by (simp add: can_take_def)
  qed
  have dw: "dropWhile (\<lambda>x. \<not> wanted hdr x) (can_contents c) = map ?f (dropWhile (\<lambda>k. \<not> wanted hdr (?f k)) (uselist c))"
    and tw: "takeWhile (\<lambda>x. \<not> wanted hdr x) (can_contents c) = map ?f (takeWhile (\<lambda>k. \<not> wanted hdr (?f k)) (uselist c))"
    by (simp_all add: can_contents_def dropWhile_map takeWhile_map comp_def)
  have all: "same_shape c c' \<and> map_option (\<lambda>n. node_msg (nodes c' ! n)) r = fst (take_entry hdr (can_contents c)) \<and>
    can_contents c' = snd (take_entry hdr (can_contents c)) \<and> can_ok (case r of None \<Rightarrow> held | Some n \<Rightarrow> n # held) c' \<and>
    (case r of None \<Rightarrow> c' = c | Some n \<Rightarrow> n \<notin> set held) \<and> (\<forall>k \<in> set held. node_msg (nodes c' ! k) = node_msg (nodes c ! k))"
  proof (cases "filter (\<lambda>k. wanted hdr (?f k)) (uselist c)")
    case Nil
    then have "dropWhile (\<lambda>x. \<not> wanted hdr x) (can_contents c) = []" by (auto simp: can_contents_def filter_empty_conv)
    then have "take_entry hdr (can_contents c) = (None, can_contents c)" by (simp only: take_entry_def list.case)
    then show ?thesis using Nil e t ok by (simp add: same_shape_def)
  next
    case (Cons n ns)
    have du: "distinct (uselist c)" using dist by simp
    note F = take_first_filter [OF du Cons]
    have c': "r = Some n" "c' = unlink n c" using Cons e t by simp_all
    have n: "n < length (nodes c)" "n \<notin> set held" "n \<notin> set (freelist c)"
      using can_ok_nodes(1) [OF ok] F(1) dist by auto
    have okc: "can_ok (n # held) c'"
      using unlink_lists [OF ok, of n] F(1) n(3) D(2) c'(2) by (simp add: can_ok_lists removeAll_id)
    obtain xs where xs: "dropWhile (\<lambda>k. \<not> wanted hdr (?f k)) (uselist c) = n # xs" using F(4) by blast
    have te: "take_entry hdr (can_contents c) = (Some (node_msg (nodes c ! n)), map ?f (removeAll n (uselist c)))"
      by (simp add: take_entry_def dw tw xs F(3))
    have "can_contents c' = map ?f (removeAll n (uselist c))" using unlink_contents [OF n(1)] c'(2) by simp
    moreover have "same_shape c c'" by (rule same_shapeI) (simp_all add: c'(2) unlink_hdr)
    ultimately show ?thesis using te okc n(2) c' by simp
  qed
  show "same_shape c c'" "map_option (\<lambda>n. node_msg (nodes c' ! n)) r = fst (take_entry hdr (can_contents c))"
    "can_contents c' = snd (take_entry hdr (can_contents c))" "can_ok (case r of None \<Rightarrow> held | Some n \<Rightarrow> n # held) c'"
    "case r of None \<Rightarrow> c' = c | Some n \<Rightarrow> n \<notin> set held"
    "k \<in> set held \<Longrightarrow> node_msg (nodes c' ! k) = node_msg (nodes c ! k)"
    using all by simp_all
qed

lemma can_put_ok:
  assumes ok: "can_ok held c" and n: "n \<in> set held"
  shows "\<exists>c'. can_put n c = Some c' \<and> can_ok (remove1 n held) c' \<and> same_shape c c' \<and> nodes c' = nodes c \<and> can_contents c' = can_contents c"
proof -
  note D = can_okD [OF ok]
  have d: "distinct held" using can_ok_nodes(2) [OF ok] by simp
  have l: "length (freelist c) < length (nodes c)"
    using can_ok_nodes(3) [OF ok] n by (cases held) auto
  have m: "add_mset n (mset (freelist c) + (mset (uselist c) + mset (remove1 n held))) = mset [0..<length (nodes c)]"
  proof -
    have "mset held = add_mset n (mset (remove1 n held))" using n by simp
    then show ?thesis using D(1) by (simp del: mset_remove1)
  qed
  have "can_ok (remove1 n held) (c\<lparr>freelist := freelist c @ [n], freenumbers := freenumbers c + 1\<rparr>)"
    unfolding can_ok_def using m D(2-6) n set_remove1_subset [of n held] by auto
  then show ?thesis using l D(2) by (auto simp: can_put_def Let_def same_shape_def can_contents_def)
qed

section \<open>Interrupts and readers in any order\<close>

text \<open>
  A reader holds a node between its two sections without interrupts; the message is copied in between,
  here at the end of that time. \<open>reading\<close>: the nodes held; \<open>copied\<close>: the messages read.
\<close>

datatype can_event = CanRx bool nat can_msg | CanTake int | CanGive nat

record can_rx_sys =
  rx :: can_rx_fifo
  reading :: "nat list"
  copied :: "can_msg list"

fun can_do :: "can_event \<Rightarrow> can_rx_sys \<Rightarrow> can_rx_sys option" where
  "can_do (CanRx overrun hdr msg) s = do { c \<leftarrow> can_isr_rx overrun hdr msg (rx s); Some (s\<lparr>rx := c\<rparr>) }"
| "can_do (CanTake hdr) s =
    (let (r, c) = can_take hdr (rx s) in
     Some (s\<lparr>rx := c, reading := (case r of None \<Rightarrow> reading s | Some n \<Rightarrow> n # reading s)\<rparr>))"
| "can_do (CanGive k) s =
    (if k < length (reading s) then
       (let n = reading s ! k in do {
         c \<leftarrow> can_put n (rx s);
         Some (s\<lparr>rx := c, reading := take k (reading s) @ drop (Suc k) (reading s), copied := copied s @ [node_msg (nodes c ! n)]\<rparr>)
       })
     else Some s)"

fun can_run :: "can_event list \<Rightarrow> can_rx_sys \<Rightarrow> can_rx_sys option" where
  "can_run [] s = Some s"
| "can_run (e # es) s = do { s \<leftarrow> can_do e s; can_run es s }"

definition can_begin :: "int list \<Rightarrow> can_rx_sys" where
  "can_begin banks = \<lparr>rx = fold can_connect banks (rt_can_open RT_CANMSG_BOX_SZ maxhdr), reading = [], copied = []\<rparr>"

fun in_range :: "nat \<Rightarrow> can_event \<Rightarrow> bool" where
  "in_range n (CanRx _ hdr _) \<longleftrightarrow> hdr < n"
| "in_range n _ \<longleftrightarrow> True"

text \<open>What a user sees: the messages that wait, those that readers hold, those read.\<close>

type_synonym can_view = "(nat option \<times> can_msg) list \<times> can_msg list \<times> can_msg list"

fun queue_event :: "nat \<Rightarrow> (nat \<Rightarrow> nat option) \<Rightarrow> can_event \<Rightarrow> can_view \<Rightarrow> can_view" where
  "queue_event n owner (CanRx _ hdr msg) (q, r, out) = (newest (n - length r) (q @ [(owner hdr, msg)]), r, out)"
| "queue_event n owner (CanTake hdr) (q, r, out) =
    (let (m, q) = take_entry hdr q in (q, case m of None \<Rightarrow> r | Some m \<Rightarrow> m # r, out))"
| "queue_event n owner (CanGive k) (q, r, out) =
    (if k < length r then (q, take k r @ drop (Suc k) r, out @ [r ! k]) else (q, r, out))"

definition can_view :: "can_rx_sys \<Rightarrow> can_view" where
  "can_view s = (can_contents (rx s), map (\<lambda>n. node_msg (nodes (rx s) ! n)) (reading s), copied s)"

lemma can_ok_mset: "mset h = mset h' \<Longrightarrow> can_ok h c \<Longrightarrow> can_ok h' c"
  by (auto simp: can_ok_def dest: mset_eq_setD)

lemma can_do_ok:
  assumes ok: "can_ok (reading s) (rx s)" and r: "in_range (length (hdrs (rx s))) e"
  shows "\<exists>s'. can_do e s = Some s' \<and> can_ok (reading s') (rx s') \<and> same_shape (rx s) (rx s') \<and>
      can_view s' = queue_event (length (nodes (rx s))) (owner_of (rx s)) e (can_view s)"
proof (cases e)
  case (CanRx ov h msg)
  with r have "h < length (hdrs (rx s))" by simp
  from can_isr_rx_ok [OF ok this, of ov msg] CanRx show ?thesis by (auto simp: can_view_def)
next
  case (CanTake hdr)
  obtain n c where t: "can_take hdr (rx s) = (n, c)" by fastforce
  note T = can_take_ok [OF ok t]
  have m: "map (\<lambda>k. node_msg (nodes c ! k)) (reading s) = map (\<lambda>k. node_msg (nodes (rx s) ! k)) (reading s)"
    using T(6) by simp
  obtain x q where te: "take_entry hdr (can_contents (rx s)) = (x, q)" by fastforce
  show ?thesis
    using CanTake t T(1-4) te m by (cases n) (auto simp: can_view_def split: option.splits)
next
  case (CanGive k)
  show ?thesis
  proof (cases "k < length (reading s)")
    case True
    then have "reading s ! k \<in> set (reading s)" by simp
    from can_put_ok [OF ok this] obtain c where c: "can_put (reading s ! k) (rx s) = Some c"
      "can_ok (remove1 (reading s ! k) (reading s)) c" "same_shape (rx s) c" "nodes c = nodes (rx s)" "can_contents c = can_contents (rx s)"
      by blast
    have "mset (take k (reading s) @ drop (Suc k) (reading s)) = mset (remove1 (reading s ! k) (reading s))"
      using arg_cong [OF id_take_nth_drop [OF True], of mset] by simp
    with c(2) have "can_ok (take k (reading s) @ drop (Suc k) (reading s)) c" using can_ok_mset by metis
    then show ?thesis using CanGive True c by (simp add: can_view_def take_map drop_map)
  next
    case False
    then show ?thesis using CanGive ok by (simp add: can_view_def same_shape_def)
  qed
qed

lemma can_run_ok:
  assumes "can_ok (reading s) (rx s)" "\<forall>e \<in> set es. in_range (length (hdrs (rx s))) e"
  shows "\<exists>s'. can_run es s = Some s' \<and> can_ok (reading s') (rx s') \<and> same_shape (rx s) (rx s') \<and>
      can_view s' = fold (queue_event (length (nodes (rx s))) (owner_of (rx s))) es (can_view s)"
  using assms
proof (induction es arbitrary: s)
  case (Cons e es)
  obtain s1 where s1: "can_do e s = Some s1" "can_ok (reading s1) (rx s1)" "same_shape (rx s) (rx s1)"
    "can_view s1 = queue_event (length (nodes (rx s))) (owner_of (rx s)) e (can_view s)"
    using can_do_ok [OF Cons.prems(1), of e] Cons.prems(2) by auto
  note sh = same_shapeD [OF s1(3)]
  have "\<forall>e \<in> set es. in_range (length (hdrs (rx s1))) e" using Cons.prems(2) sh(2) by simp
  from Cons.IH [OF s1(2) this] obtain s2 where s2: "can_run es s1 = Some s2" "can_ok (reading s2) (rx s2)"
    "same_shape (rx s1) (rx s2)"
    "can_view s2 = fold (queue_event (length (nodes (rx s1))) (owner_of (rx s1))) es (can_view s1)" by blast
  have q: "queue_event n (owner_of (rx s1)) x v = queue_event n (owner_of (rx s)) x v" if "x \<in> set es" for n x v
  proof -
    have "in_range (length (hdrs (rx s))) x" using that Cons.prems(2) by simp
    then show ?thesis using sh(3) by (cases x; cases v) auto
  qed
  have "fold (queue_event (length (nodes (rx s1))) (owner_of (rx s1))) es (can_view s1) =
      fold (queue_event (length (nodes (rx s))) (owner_of (rx s))) es (can_view s1)"
    unfolding sh(1) by (rule fold_cong) (auto simp: fun_eq_iff q)
  moreover have "same_shape (rx s) (rx s2)" using s1(3) s2(3) by (simp add: same_shape_def)
  ultimately show ?case using s1 s2 by auto
qed (auto simp: same_shape_def)

lemma can_connects:
  "can_ok held c \<Longrightarrow> can_ok held (fold can_connect bs c) \<and> can_contents (fold can_connect bs c) = can_contents c \<and>
    length (nodes (fold can_connect bs c)) = length (nodes c) \<and> length (hdrs (fold can_connect bs c)) = length (hdrs c)"
proof (induction bs arbitrary: c)
  case (Cons b bs)
  have "length (nodes (can_connect b c)) = length (nodes c)" "length (hdrs (can_connect b c)) = length (hdrs c)"
    by (simp_all add: can_connect_def)
  then show ?case using can_connect_ok [OF Cons.prems, of b] Cons.IH [of "can_connect b c"] by simp
qed simp

lemma can_begin_ok:
  "can_ok (reading (can_begin bs)) (rx (can_begin bs))" "can_view (can_begin bs) = ([], [], [])"
  "length (nodes (rx (can_begin bs))) = 16" "length (hdrs (rx (can_begin bs))) = 28"
proof -
  have "length (nodes (rt_can_open 16 28)) = 16" "length (hdrs (rt_can_open 16 28)) = 28" by (simp_all add: rt_can_open_def)
  then show "can_ok (reading (can_begin bs)) (rx (can_begin bs))" "can_view (can_begin bs) = ([], [], [])"
    "length (nodes (rx (can_begin bs))) = 16" "length (hdrs (rx (can_begin bs))) = 28"
    using can_connects [OF can_open_ok(1), of bs 16 28] can_open_ok(2) [of 16 28]
    by (simp_all add: can_begin_def can_view_def RT_CANMSG_BOX_SZ_def maxhdr_def)
qed

section \<open>The receiving thread\<close>

text \<open>
  \<open>can0_rx_call\<close> releases the semaphore for every message; the handler calls it if messages wait (the
  application's filter has no call-back of its own). \<open>can_rx_thread\<close> takes the semaphore for at most two
  seconds, and then reads one message into the variable \<open>rxmsg\<close> that it keeps.
\<close>

record can_line =
  line_threads :: threads
  rx_sem :: semaphore
  line_rx :: can_rx_fifo
  rxmsg :: can_msg
  line_sys :: can_sys

definition RT_TICK_PER_SECOND :: int where "RT_TICK_PER_SECOND = 1000"

definition can_rx_irq :: "bool \<Rightarrow> nat \<Rightarrow> can_msg \<Rightarrow> can_line \<Rightarrow> can_line option" where
  "can_rx_irq overrun hdr msg l = do {
     c \<leftarrow> can_isr_rx overrun hdr msg (line_rx l);
     let l = l\<lparr>line_rx := c\<rparr>;
     if uselist c \<noteq> [] then do {
       (_, ths, q) \<leftarrow> rt_sem_release (line_threads l) (rx_sem l);
       Some (l\<lparr>line_threads := ths, rx_sem := q\<rparr>)
     } else Some l
   }"

fun can_irqs :: "(bool \<times> nat \<times> can_msg) list \<Rightarrow> can_line \<Rightarrow> can_line option" where
  "can_irqs [] l = Some l"
| "can_irqs ((overrun, hdr, msg) # is) l = do { l \<leftarrow> can_rx_irq overrun hdr msg l; can_irqs is l }"

text \<open>A pass of the loop: what follows the take with its result, and the whole pass.\<close>

definition can_rx_rest :: "u8 list \<Rightarrow> can_dev \<Rightarrow> rt_err \<Rightarrow> can_line \<Rightarrow> can_line option" where
  "can_rx_rest stack dev e l =
    (if e \<noteq> RT_EOK then do { s \<leftarrow> can_rx_round stack dev None (line_sys l); Some (l\<lparr>line_sys := s\<rparr>) }
     else do {
       (r, c) \<leftarrow> can_int_rx (- 1) (line_rx l);
       let msg = (case r of None \<Rightarrow> rxmsg l | Some msg \<Rightarrow> msg);
       s \<leftarrow> can_rx_round stack dev (Some msg) (line_sys l);
       Some (l\<lparr>line_rx := c, rxmsg := msg, line_sys := s\<rparr>)
     })"

definition can_rx_pass :: "nat \<Rightarrow> u8 list \<Rightarrow> can_dev \<Rightarrow> can_line \<Rightarrow> (unit outcome \<times> can_line) option" where
  "can_rx_pass t stack dev l =
    (case rt_sem_take t (RT_TICK_PER_SECOND * 2) (line_threads l) (rx_sem l) of
       (Suspended, ths, q) \<Rightarrow> Some (Suspended, l\<lparr>line_threads := ths, rx_sem := q\<rparr>)
     | (Ready e, ths, q) \<Rightarrow> do {
         l \<leftarrow> can_rx_rest stack dev e (l\<lparr>line_threads := ths, rx_sem := q\<rparr>);
         Some (Ready (), l)
       })"

fun can_passes :: "nat \<Rightarrow> nat \<Rightarrow> u8 list \<Rightarrow> can_dev \<Rightarrow> can_line \<Rightarrow> (unit outcome \<times> can_line) option" where
  "can_passes 0 t stack dev l = Some (Ready (), l)"
| "can_passes (Suc n) t stack dev l = do {
     (r, l) \<leftarrow> can_rx_pass t stack dev l;
     (case r of Suspended \<Rightarrow> Some (Suspended, l) | Ready _ \<Rightarrow> can_passes n t stack dev l)
   }"

text \<open>The application's reaction to a list of messages.\<close>

fun feed :: "u8 list \<Rightarrow> can_dev \<Rightarrow> can_msg list \<Rightarrow> can_sys \<Rightarrow> can_sys option" where
  "feed stack dev [] s = Some s"
| "feed stack dev (m # msgs) s = do { s \<leftarrow> can_rx_round stack dev (Some m) s; feed stack dev msgs s }"

lemma can_int_rx_any:
  assumes ok: "can_ok [] c"
  shows "\<exists>c'. can_int_rx (- 1) c = Some (case can_contents c of [] \<Rightarrow> None | x # _ \<Rightarrow> Some (snd x), c') \<and> can_ok [] c' \<and>
    can_contents c' = tl (can_contents c)"
proof -
  obtain r c1 where t: "can_take (- 1) c = (r, c1)" by fastforce
  note T = can_take_ok [OF ok t]
  have e: "take_entry (- 1) xs = (case xs of [] \<Rightarrow> (None, xs) | x # rest \<Rightarrow> (Some (snd x), rest))" for xs
    by (cases xs) (simp_all add: take_entry_def wanted_def)
  show ?thesis
  proof (cases r)
    case None
    then have "can_contents c = []" using T(2) by (simp add: e split: list.splits)
    then show ?thesis using None t ok T(5) by (simp add: can_int_rx_def)
  next
    case (Some n)
    then obtain c2 where p: "can_put n c1 = Some c2" "can_ok [] c2" "can_contents c2 = can_contents c1"
      using can_put_ok [of "[n]" c1 n] T(4) by auto
    show ?thesis
      using Some t p T(2,3) by (auto simp: can_int_rx_def e split: list.splits)
  qed
qed

lemma can_passes_feed:
  assumes "can_ok [] (line_rx l)" "map snd (can_contents (line_rx l)) = xs" "k = unat (sem_value (rx_sem l))" "length xs \<le> k"
  shows "map_option (\<lambda>(r, l). (r, line_sys l)) (can_passes k t stack dev l) =
    map_option (Pair (Ready ())) (feed stack dev (xs @ replicate (k - length xs) (last (rxmsg l # xs))) (line_sys l))"
  using assms
proof (induction k arbitrary: l xs)
  case (Suc k)
  have "0 < sem_value (rx_sem l)" using Suc.prems(3) by (simp add: word_less_nat_alt)
  then have take: "rt_sem_take t (RT_TICK_PER_SECOND * 2) (line_threads l) (rx_sem l) =
      (Ready RT_EOK, line_threads l, (rx_sem l)\<lparr>sem_value := sem_value (rx_sem l) - 1\<rparr>)"
    and v: "unat (sem_value (rx_sem l) - 1) = k"
    using Suc.prems(3) by (simp_all add: rt_sem_take_def unat_minus_one_pos)
  obtain c where c: "can_int_rx (- 1) (line_rx l) = Some (case can_contents (line_rx l) of [] \<Rightarrow> None | x # _ \<Rightarrow> Some (snd x), c)"
    "can_ok [] c" "can_contents c = tl (can_contents (line_rx l))"
    using can_int_rx_any [OF Suc.prems(1)] by blast
  obtain m where m: "m = (case xs of [] \<Rightarrow> rxmsg l | x # _ \<Rightarrow> x)" by blast
  have msg: "(case (case can_contents (line_rx l) of [] \<Rightarrow> None | x # _ \<Rightarrow> Some (snd x)) of None \<Rightarrow> rxmsg l | Some msg \<Rightarrow> msg) = m"
    using Suc.prems(2) by (auto simp: m split: list.splits)
  have xs': "map snd (can_contents c) = tl xs" using c(3) Suc.prems(2) by (simp add: map_tl)
  have seq: "xs @ replicate (Suc k - length xs) (last (rxmsg l # xs)) = m # (tl xs @ replicate (k - length (tl xs)) (last (m # tl xs)))"
    by (cases xs) (simp_all add: m)
  obtain l0 where l0: "l0 = l\<lparr>rx_sem := (rx_sem l)\<lparr>sem_value := sem_value (rx_sem l) - 1\<rparr>\<rparr>" by blast
  have rest: "can_rx_rest stack dev RT_EOK l0 =
      do { s \<leftarrow> can_rx_round stack dev (Some m) (line_sys l); Some (l0\<lparr>line_rx := c, rxmsg := m, line_sys := s\<rparr>) }"
  proof -
    have "line_rx l0 = line_rx l" "rxmsg l0 = rxmsg l" "line_sys l0 = line_sys l" by (simp_all add: l0)
    then show ?thesis by (simp only: can_rx_rest_def c(1) bind.bind_lunit case_prod_conv Let_def msg not_True_eq_False if_False simp_thms)
  qed
  have p: "can_rx_pass t stack dev l = do { l \<leftarrow> can_rx_rest stack dev RT_EOK l0; Some (Ready (), l) }"
    by (simp add: can_rx_pass_def take l0)
  show ?case
  proof (cases "can_rx_round stack dev (Some m) (line_sys l)")
    case None
    then show ?thesis unfolding seq by (simp add: p rest)
  next
    case (Some s)
    obtain l' where l': "l' = l0\<lparr>line_rx := c, rxmsg := m, line_sys := s\<rparr>" by blast
    have "map_option (\<lambda>(r, l). (r, line_sys l)) (can_passes k t stack dev l') =
        map_option (Pair (Ready ())) (feed stack dev (tl xs @ replicate (k - length (tl xs)) (last (rxmsg l' # tl xs))) (line_sys l'))"
      by (rule Suc.IH) (use c xs' v Suc.prems(4) in \<open>simp_all add: l' l0\<close>)
    then show ?thesis unfolding seq by (simp add: p rest Some l')
  qed
qed simp

lemma map_newest: "map f (newest n xs) = newest n (map f xs)"
  by (simp only: newest_def drop_map length_map)

lemma can_irqs_ok:
  assumes "can_ok [] (line_rx l)" "suspend_thread (rx_sem l) = []" "unat (sem_value (rx_sem l)) + length is < 65536"
    "\<forall>i \<in> set is. fst (snd i) < length (hdrs (line_rx l))" "0 < length (nodes (line_rx l))"
    "length (can_contents (line_rx l)) \<le> unat (sem_value (rx_sem l))"
  shows "\<exists>l'. can_irqs is l = Some l' \<and> can_ok [] (line_rx l') \<and>
    map snd (can_contents (line_rx l')) = newest (length (nodes (line_rx l))) (map snd (can_contents (line_rx l)) @ map (snd \<circ> snd) is) \<and>
    unat (sem_value (rx_sem l')) = unat (sem_value (rx_sem l)) + length is \<and> line_sys l' = line_sys l \<and> rxmsg l' = rxmsg l"
  using assms
proof (induction "is" arbitrary: l)
  case Nil
  have "length (can_contents (line_rx l)) \<le> length (nodes (line_rx l))"
    using can_ok_nodes(3) [OF Nil.prems(1)] by (simp add: can_contents_def)
  then show ?case using Nil by simp
next
  case (Cons i js)
  obtain ov h msg where i: "i = (ov, h, msg)" by (cases i) auto
  let ?n = "length (nodes (line_rx l))"
  obtain c where c: "can_isr_rx ov h msg (line_rx l) = Some c" "can_ok [] c" "same_shape (line_rx l) c"
    "can_contents c = newest ?n (can_contents (line_rx l) @ [(owner_of (line_rx l) h, msg)])"
    using can_isr_rx_ok [OF Cons.prems(1), of h ov msg] Cons.prems(4) i by auto
  note sh = same_shapeD [OF c(3)]
  have u: "uselist c \<noteq> []"
    using arg_cong [OF c(4), of length] Cons.prems(5) by (auto simp: can_contents_def simp flip: length_greater_0_conv)
  have v: "unat (sem_value (rx_sem l)) < 65535" using Cons.prems(3) by simp
  obtain sem' where sem': "sem' = (rx_sem l)\<lparr>sem_value := sem_value (rx_sem l) + 1\<rparr>" by blast
  have rel: "rt_sem_release ths (rx_sem l) = Some (RT_EOK, ths, sem')" for ths
    using Cons.prems(2) v by (simp add: rt_sem_release_def RT_SEM_VALUE_MAX_def word_less_nat_alt sem')
  obtain l1 where l1: "l1 = l\<lparr>line_rx := c, rx_sem := sem'\<rparr>" by blast
  have step: "can_rx_irq ov h msg l = Some l1" using c(1) u rel by (simp add: can_rx_irq_def l1)
  have sv: "unat (sem_value sem') = Suc (unat (sem_value (rx_sem l)))" using v by (simp add: sem' unat_u16_Suc)
  have "\<exists>l'. can_irqs js l1 = Some l' \<and> can_ok [] (line_rx l') \<and>
    map snd (can_contents (line_rx l')) = newest (length (nodes (line_rx l1))) (map snd (can_contents (line_rx l1)) @ map (snd \<circ> snd) js) \<and>
    unat (sem_value (rx_sem l')) = unat (sem_value (rx_sem l1)) + length js \<and> line_sys l' = line_sys l1 \<and> rxmsg l' = rxmsg l1"
    by (rule Cons.IH) (use c(2,4) Cons.prems sh sv in \<open>auto simp: l1 sem'\<close>)
  moreover have "map snd (can_contents c) = newest ?n (map snd (can_contents (line_rx l)) @ [msg])"
    by (simp add: c(4) map_newest)
  ultimately show ?case using step i sh(1) sv by (auto simp: l1 newest_append comp_def)
qed

section \<open>Properties\<close>

text \<open>C24: The data of the receive side stay well formed under every interleaving of receive interrupts
  (with or without an overrun), readers that take a message, of one filter or of any, and readers that
  finish their copy: every node of the pool is in exactly one place, the list and the count of a filter
  are its part of the list of messages, the count of free nodes is right, and none of the assertions of
  the code fails.\<close>

theorem can_rx_pool:
  assumes "\<forall>e \<in> set es. in_range maxhdr e"
  shows "\<exists>s. can_run es (can_begin banks) = Some s \<and> can_ok (reading s) (rx s)"
  using can_run_ok [OF can_begin_ok(1), of es banks] assms can_begin_ok(4) [of banks] by (auto simp: maxhdr_def)

theorem can_rx_pool_witness:
  "\<exists>s. can_run [CanRx False 3 \<lparr>can_id = 9, can_data = [1]\<rparr>, CanTake 3, CanRx True 0 \<lparr>can_id = 9, can_data = [2]\<rparr>, CanGive 0] (can_begin [3]) = Some s \<and>
     can_ok (reading s) (rx s)"
  by (rule can_rx_pool) (simp add: maxhdr_def)

text \<open>C25: The receive side is a queue: messages come in with the filter that claims them, a reader gets
  the oldest message, or the oldest of its filter, and exactly the message it took, even when more
  messages come in while it copies; of the messages that wait, the newest are kept, as many as the box
  has room for beside those being read.\<close>

theorem can_rx_queue:
  assumes "\<forall>e \<in> set es. in_range maxhdr e" "can_run es (can_begin banks) = Some s"
  shows "can_view s = fold (queue_event RT_CANMSG_BOX_SZ (owner_of (rx (can_begin banks)))) es ([], [], [])"
  using can_run_ok [OF can_begin_ok(1), of es banks] assms can_begin_ok(2-4)
  by (auto simp: maxhdr_def RT_CANMSG_BOX_SZ_def)

theorem can_rx_queue_witness:
  "\<exists>s. can_run [CanRx False 3 \<lparr>can_id = 9, can_data = [1]\<rparr>, CanTake 3, CanRx True 0 \<lparr>can_id = 9, can_data = [2]\<rparr>, CanGive 0] (can_begin [3]) = Some s \<and>
     can_view s = ([(None, \<lparr>can_id = 9, can_data = [2]\<rparr>)], [], [\<lparr>can_id = 9, can_data = [1]\<rparr>])"
proof -
  let ?es = "[CanRx False 3 \<lparr>can_id = 9, can_data = [1]\<rparr>, CanTake 3, CanRx True 0 \<lparr>can_id = 9, can_data = [2]\<rparr>, CanGive 0]"
  have r: "\<forall>e \<in> set ?es. in_range maxhdr e" by (simp add: maxhdr_def)
  obtain s where s: "can_run ?es (can_begin [3]) = Some s"
    using can_run_ok [OF can_begin_ok(1), of ?es "[3]"] r can_begin_ok(4) [of "[3]"] by (auto simp: maxhdr_def)
  have o: "owner_of (rx (can_begin [3])) 3 = Some 3" "owner_of (rx (can_begin [3])) 0 = None"
    by (simp_all add: owner_of_def can_begin_def can_connect_def rt_can_open_def maxhdr_def)
  show ?thesis using s can_rx_queue [OF r s] o by (simp add: take_entry_def wanted_def newest_def RT_CANMSG_BOX_SZ_def)
qed

text \<open>C26: A burst of messages while the receiving thread is busy is answered wrongly when it is longer than
  the message box: the thread handles the newest 16 messages and then the last one again, once for each
  message that was lost, because the semaphore counts all of them and the result of the read is not
  tested. A burst of at most 16 messages is handled completely and in order.\<close>

theorem can_burst_repeats:
  assumes "can_ok [] (line_rx l)" "can_contents (line_rx l) = []" "length (nodes (line_rx l)) = RT_CANMSG_BOX_SZ"
    "suspend_thread (rx_sem l) = []" "sem_value (rx_sem l) = 0" "is \<noteq> []" "length is < 65536"
    "\<forall>i \<in> set is. fst (snd i) < length (hdrs (line_rx l))" "msgs = map (snd \<circ> snd) is"
  shows "\<exists>l'. can_irqs is l = Some l' \<and>
    map_option (\<lambda>(r, l). (r, line_sys l)) (can_passes (length msgs) t stack dev l') =
    map_option (Pair (Ready ())) (feed stack dev (newest 16 msgs @ replicate (length msgs - 16) (last msgs)) (line_sys l))"
proof -
  obtain l' where l': "can_irqs is l = Some l'" "can_ok [] (line_rx l')" "map snd (can_contents (line_rx l')) = newest 16 msgs"
    "unat (sem_value (rx_sem l')) = length msgs" "line_sys l' = line_sys l"
    using can_irqs_ok [of l "is"] assms by (auto simp: RT_CANMSG_BOX_SZ_def)
  have "newest 16 msgs \<noteq> []" "last (newest 16 msgs) = last msgs"
    using assms(6,9) by (auto simp: newest_def last_drop simp flip: length_greater_0_conv)
  then show ?thesis
    using l'(1) can_passes_feed [OF l'(2,3) l'(4) [symmetric], of t stack dev] l'(5) by (auto simp: min_def)
qed

text \<open>A line with nothing received yet, at the demonstration node.\<close>

definition can_line0 :: can_line where
  "can_line0 = \<lparr>line_threads = demo_threads, rx_sem = rt_sem_init 0 RT_IPC_FLAG_FIFO, line_rx = rt_can_open RT_CANMSG_BOX_SZ maxhdr,
     rxmsg = \<lparr>can_id = 0, can_data = []\<rparr>, line_sys = can_demo\<rparr>"

theorem can_burst_repeats_witness:
  "\<exists>l'. can_irqs (map (\<lambda>k. (False, 0, \<lparr>can_id = 0x509, can_data = [9, of_nat k]\<rparr>)) [0..<18]) can_line0 = Some l' \<and>
    map_option (\<lambda>(r, l). (r, line_sys l)) (can_passes 18 1 (replicate 8 0) Can0 l') =
    map_option (Pair (Ready ())) (feed (replicate 8 0) Can0
      (map (\<lambda>k. \<lparr>can_id = 0x509, can_data = [9, of_nat k]\<rparr>) [2..<18] @ replicate 2 \<lparr>can_id = 0x509, can_data = [9, 17]\<rparr>) can_demo)"
proof -
  let ?is = "map (\<lambda>k. (False, 0, \<lparr>can_id = 0x509, can_data = [9, of_nat k]\<rparr>)) [0..<18]"
  have a: "can_ok [] (line_rx can_line0)" "can_contents (line_rx can_line0) = []" "length (nodes (line_rx can_line0)) = RT_CANMSG_BOX_SZ"
    "suspend_thread (rx_sem can_line0) = []" "sem_value (rx_sem can_line0) = 0" "line_sys can_line0 = can_demo"
    "length (hdrs (line_rx can_line0)) = 28"
    using can_open_ok [of 16 28] by (simp_all add: can_line0_def RT_CANMSG_BOX_SZ_def maxhdr_def rt_sem_init_def rt_can_open_def)
  have m: "map (snd \<circ> snd) ?is = map (\<lambda>k. \<lparr>can_id = 0x509, can_data = [9, of_nat k]\<rparr>) [0..<18]" by simp
  have n: "newest 16 (map f [0..<18]) = map f [2..<18]" "last (map f [0..<18]) = f 17" for f :: "nat \<Rightarrow> can_msg"
  proof -
    have "(0::nat) + (18 - 0 - 16) = 2" by simp
    then show "newest 16 (map f [0..<18]) = map f [2..<18]"
      by (simp only: newest_def drop_map length_map length_upt drop_upt)
  qed (simp add: last_map)
  show ?thesis
    using can_burst_repeats [OF a(1-5), of ?is, OF _ _ _ m [symmetric], of 1 "replicate 8 0" Can0] a(6,7) n
    by (simp del: upt_Suc)
qed

end
