(* ===== verification/KTimer.thy ===== *)
theory KTimer
  imports Mailbox
begin

text \<open>
  The timers of the kernel (\<open>rt-thread/src/timer.c\<close>), from which time-outs and delays of threads are made:
  timers on a list ordered by the tick they fall due, in 32-bit ticks that wrap around, and the check at every
  tick that runs the call-backs. A call-back may start, stop and change timers, its own included.
\<close>

section \<open>Operations\<close>

record rt_timer =
  activated :: bool
  periodic :: bool
  init_tick :: u32
  timeout_tick :: u32

text \<open>\<open>temp_list\<close> is the local list of \<open>rt_timer_check\<close>, on which the timer is while its call-back runs.\<close>

record timer_sys =
  timers :: "nat \<Rightarrow> rt_timer"
  timer_list :: "nat list"
  temp_list :: "nat list"
  rt_tick :: u32

definition RT_TICK_MAX :: u32 where "RT_TICK_MAX = 0xFFFFFFFF"

definition timer_remove :: "nat \<Rightarrow> timer_sys \<Rightarrow> timer_sys" where
  "timer_remove t s = s\<lparr>timer_list := removeAll t (timer_list s), temp_list := removeAll t (temp_list s)\<rparr>"

text \<open>The search for the place of a timer that falls due at \<open>w\<close>, for the one level that is configured.\<close>

fun timer_insert :: "(nat \<Rightarrow> rt_timer) \<Rightarrow> u32 \<Rightarrow> nat \<Rightarrow> nat list \<Rightarrow> nat list" where
  "timer_insert ts w t [] = [t]"
| "timer_insert ts w t (u # q) =
    (if timeout_tick (ts u) - w = 0 then u # timer_insert ts w t q
     else if timeout_tick (ts u) - w < RT_TICK_MAX div 2 then t # u # q
     else u # timer_insert ts w t q)"

definition rt_timer_start :: "nat \<Rightarrow> timer_sys \<Rightarrow> timer_sys" where
  "rt_timer_start t s =
    (let s = timer_remove t s;
         w = rt_tick s + init_tick (timers s t)
     in s\<lparr>timers := (timers s)(t := (timers s t)\<lparr>timeout_tick := w, activated := True\<rparr>),
          timer_list := timer_insert (timers s) w t (timer_list s)\<rparr>)"

definition rt_timer_stop :: "nat \<Rightarrow> timer_sys \<Rightarrow> rt_err \<times> timer_sys" where
  "rt_timer_stop t s =
    (if \<not> activated (timers s t) then (RT_ERROR, s)
     else (let s = timer_remove t s in (RT_EOK, s\<lparr>timers := (timers s)(t := (timers s t)\<lparr>activated := False\<rparr>)\<rparr>)))"

text \<open>\<open>rt_timer_control\<close>: the commands that change a timer; \<open>None\<close> is the assertion on the time.\<close>

definition rt_timer_set_time :: "nat \<Rightarrow> u32 \<Rightarrow> timer_sys \<Rightarrow> timer_sys option" where
  "rt_timer_set_time t n s =
    (if n < RT_TICK_MAX div 2 then Some (s\<lparr>timers := (timers s)(t := (timers s t)\<lparr>init_tick := n\<rparr>)\<rparr>) else None)"

definition rt_timer_set_periodic :: "bool \<Rightarrow> nat \<Rightarrow> timer_sys \<Rightarrow> timer_sys" where
  "rt_timer_set_periodic b t s = s\<lparr>timers := (timers s)(t := (timers s t)\<lparr>periodic := b\<rparr>)\<rparr>"

text \<open>A call on a timer, by a thread or by a call-back.\<close>

datatype timer_op = TimerStart nat | TimerStop nat | TimerSetTime nat u32 | TimerSetPeriodic bool nat

fun do_timer :: "timer_op \<Rightarrow> timer_sys \<Rightarrow> timer_sys option" where
  "do_timer (TimerStart t) s = Some (rt_timer_start t s)"
| "do_timer (TimerStop t) s = Some (snd (rt_timer_stop t s))"
| "do_timer (TimerSetTime t n) s = rt_timer_set_time t n s"
| "do_timer (TimerSetPeriodic b t) s = Some (rt_timer_set_periodic b t s)"

fun timer_ops :: "timer_op list \<Rightarrow> timer_sys \<Rightarrow> timer_sys option" where
  "timer_ops [] s = Some s"
| "timer_ops (x # xs) s = do { s \<leftarrow> do_timer x s; timer_ops xs s }"

text \<open>One round of \<open>rt_timer_check\<close> for the timer that is due; \<open>callback\<close> is what its function does with timers.\<close>

definition timer_expire :: "timer_op list \<Rightarrow> nat \<Rightarrow> timer_sys \<Rightarrow> timer_sys option" where
  "timer_expire callback t s =
    (let s = timer_remove t s;
         s = (if \<not> periodic (timers s t) then s\<lparr>timers := (timers s)(t := (timers s t)\<lparr>activated := False\<rparr>)\<rparr> else s);
         s = s\<lparr>temp_list := [t]\<rparr>
     in do {
       s \<leftarrow> timer_ops callback s;
       if temp_list s = [] then Some s
       else (let s = s\<lparr>temp_list := removeAll t (temp_list s)\<rparr> in
         if periodic (timers s t) \<and> activated (timers s t)
         then Some (rt_timer_start t (s\<lparr>timers := (timers s)(t := (timers s t)\<lparr>activated := False\<rparr>)\<rparr>))
         else Some s)
     })"

text \<open>The loop, with the timers whose call-backs ran in their order. A timer of time 0 that starts itself never lets it end.\<close>

partial_function (option) rt_timer_check :: "(nat \<Rightarrow> timer_op list) \<Rightarrow> timer_sys \<Rightarrow> (nat list \<times> timer_sys) option" where
  "rt_timer_check callbacks s = (case timer_list s of
     [] \<Rightarrow> Some ([], s)
   | t # _ \<Rightarrow>
       (if rt_tick s - timeout_tick (timers s t) < RT_TICK_MAX div 2 then do {
          s \<leftarrow> timer_expire (callbacks t) t s;
          (ts, s) \<leftarrow> rt_timer_check callbacks s;
          Some (t # ts, s)
        } else Some ([], s)))"

text \<open>\<open>rt_tick_increase\<close>, as far as timers go.\<close>

definition rt_tick_increase :: "(nat \<Rightarrow> timer_op list) \<Rightarrow> timer_sys \<Rightarrow> (nat list \<times> timer_sys) option" where
  "rt_tick_increase callbacks s = rt_timer_check callbacks (s\<lparr>rt_tick := rt_tick s + 1\<rparr>)"

definition rt_timer_next_timeout_tick :: "timer_sys \<Rightarrow> u32" where
  "rt_timer_next_timeout_tick s = (case timer_list s of [] \<Rightarrow> RT_TICK_MAX | t # _ \<Rightarrow> timeout_tick (timers s t))"

text \<open>A run: calls of threads and ticks, with what the call-backs do at that tick; the result lists who expired at each tick.\<close>

datatype timer_event = Call timer_op | Tick "nat \<Rightarrow> timer_op list"

fun timer_run :: "timer_event list \<Rightarrow> timer_sys \<Rightarrow> (nat list list \<times> timer_sys) option" where
  "timer_run [] s = Some ([], s)"
| "timer_run (Call x # es) s = do { s \<leftarrow> do_timer x s; timer_run es s }"
| "timer_run (Tick callbacks # es) s = do {
     (ts, s) \<leftarrow> rt_tick_increase callbacks s;
     (log, s) \<leftarrow> timer_run es s;
     Some (ts # log, s)
   }"

section \<open>Specification\<close>

text \<open>
  A queue of timers with the number of ticks until they fall due; \<open>current\<close> is the periodic timer whose
  call-back runs, as long as it has not been started or stopped.
\<close>

record timer_spec =
  queue :: "(nat \<times> nat) list"
  period :: "nat \<Rightarrow> nat"
  repeats :: "nat \<Rightarrow> bool"
  current :: "nat option"

fun enqueue :: "nat \<Rightarrow> nat \<Rightarrow> (nat \<times> nat) list \<Rightarrow> (nat \<times> nat) list" where
  "enqueue t n [] = [(t, n)]"
| "enqueue t n ((u, m) # q) = (if n < m then (t, n) # (u, m) # q else (u, m) # enqueue t n q)"

definition forget :: "nat \<Rightarrow> timer_spec \<Rightarrow> timer_spec" where
  "forget t a = a\<lparr>queue := filter (\<lambda>x. fst x \<noteq> t) (queue a), current := (if current a = Some t then None else current a)\<rparr>"

definition spec_start :: "nat \<Rightarrow> timer_spec \<Rightarrow> timer_spec" where
  "spec_start t a = (let a = forget t a in a\<lparr>queue := enqueue t (period a t) (queue a)\<rparr>)"

fun spec_op :: "timer_op \<Rightarrow> timer_spec \<Rightarrow> timer_spec" where
  "spec_op (TimerStart t) a = spec_start t a"
| "spec_op (TimerStop t) a = forget t a"
| "spec_op (TimerSetTime t n) a = a\<lparr>period := (period a)(t := unat n)\<rparr>"
| "spec_op (TimerSetPeriodic b t) a = a\<lparr>repeats := (repeats a)(t := b)\<rparr>"

definition spec_expire :: "timer_op list \<Rightarrow> nat \<Rightarrow> timer_spec \<Rightarrow> timer_spec" where
  "spec_expire callback t a =
    (let a = (forget t a)\<lparr>current := (if repeats a t then Some t else None)\<rparr>;
         a = fold spec_op callback a
     in if current a = Some t \<and> repeats a t then spec_start t a else a\<lparr>current := None\<rparr>)"

text \<open>The timers with 0 ticks left expire, in their order; \<open>k\<close> bounds their number.\<close>

fun spec_check :: "nat \<Rightarrow> (nat \<Rightarrow> timer_op list) \<Rightarrow> timer_spec \<Rightarrow> nat list \<times> timer_spec" where
  "spec_check 0 callbacks a = ([], a)"
| "spec_check (Suc k) callbacks a = (case queue a of
     (t, 0) # _ \<Rightarrow> (let (ts, a) = spec_check k callbacks (spec_expire (callbacks t) t a) in (t # ts, a))
   | _ \<Rightarrow> ([], a))"

definition spec_tick :: "(nat \<Rightarrow> timer_op list) \<Rightarrow> timer_spec \<Rightarrow> nat list \<times> timer_spec" where
  "spec_tick callbacks a = spec_check (length (queue a)) callbacks (a\<lparr>queue := map (\<lambda>(t, n). (t, n - 1)) (queue a)\<rparr>)"

fun spec_run :: "timer_event list \<Rightarrow> timer_spec \<Rightarrow> nat list list \<times> timer_spec" where
  "spec_run [] a = ([], a)"
| "spec_run (Call x # es) a = spec_run es (spec_op x a)"
| "spec_run (Tick callbacks # es) a =
    (let (ts, a) = spec_tick callbacks a; (log, a) = spec_run es a in (ts # log, a))"

text \<open>
  Histories in which no timer runs with time 0: times are below half the range of a tick, as the kernel
  asserts; a timer is started only when its time is positive, and the time is not set to 0 while the
  timer runs. The timers of threads begin with time 0 and are set before every start.
\<close>

fun op_ok :: "timer_spec \<Rightarrow> timer_op \<Rightarrow> bool" where
  "op_ok a (TimerStart t) \<longleftrightarrow> 0 < period a t"
| "op_ok a (TimerSetTime t n) \<longleftrightarrow> n < RT_TICK_MAX div 2 \<and> (n = 0 \<longrightarrow> t \<notin> fst ` set (queue a) \<and> current a \<noteq> Some t)"
| "op_ok a _ \<longleftrightarrow> True"

fun ops_ok :: "timer_op list \<Rightarrow> timer_spec \<Rightarrow> bool" where
  "ops_ok [] a \<longleftrightarrow> True"
| "ops_ok (x # xs) a \<longleftrightarrow> op_ok a x \<and> ops_ok xs (spec_op x a)"

definition expire_ok :: "timer_op list \<Rightarrow> nat \<Rightarrow> timer_spec \<Rightarrow> bool" where
  "expire_ok callback t a \<longleftrightarrow> ops_ok callback ((forget t a)\<lparr>current := (if repeats a t then Some t else None)\<rparr>)"

fun check_ok :: "nat \<Rightarrow> (nat \<Rightarrow> timer_op list) \<Rightarrow> timer_spec \<Rightarrow> bool" where
  "check_ok 0 callbacks a \<longleftrightarrow> True"
| "check_ok (Suc k) callbacks a \<longleftrightarrow> (case queue a of
     (t, 0) # _ \<Rightarrow> expire_ok (callbacks t) t a \<and> check_ok k callbacks (spec_expire (callbacks t) t a)
   | _ \<Rightarrow> True)"

definition tick_ok :: "(nat \<Rightarrow> timer_op list) \<Rightarrow> timer_spec \<Rightarrow> bool" where
  "tick_ok callbacks a \<longleftrightarrow> check_ok (length (queue a)) callbacks (a\<lparr>queue := map (\<lambda>(t, n). (t, n - 1)) (queue a)\<rparr>)"

fun run_ok :: "timer_event list \<Rightarrow> timer_spec \<Rightarrow> bool" where
  "run_ok [] a \<longleftrightarrow> True"
| "run_ok (Call x # es) a \<longleftrightarrow> op_ok a x \<and> run_ok es (spec_op x a)"
| "run_ok (Tick callbacks # es) a \<longleftrightarrow> tick_ok callbacks a \<and> run_ok es (snd (spec_tick callbacks a))"

text \<open>A timer that runs, or whose call-back runs, has a positive time.\<close>

definition armed :: "timer_spec \<Rightarrow> bool" where
  "armed a \<longleftrightarrow> (\<forall>t. t \<in> fst ` set (queue a) \<or> current a = Some t \<longrightarrow> 0 < period a t)"

section \<open>Ticks that wrap around\<close>

lemma tick_max: "RT_TICK_MAX div 2 = 0x7FFFFFFF"
  by (simp add: RT_TICK_MAX_def)

lemma of_nat_tick: "n < 0x7FFFFFFF \<Longrightarrow> unat (of_nat n :: u32) = n"
  by (simp add: unat_of_nat)

lemma tick_diff:
  assumes "m < 0x7FFFFFFF" "n < 0x7FFFFFFF"
  shows "((of_nat m :: u32) - of_nat n = 0) = (m = n)"
    "m \<noteq> n \<Longrightarrow> ((of_nat m :: u32) - of_nat n < 0x7FFFFFFF) = (n < m)"
proof -
  have inj: "((of_nat m :: u32) = of_nat n) = (m = n)"
    using assms of_nat_tick by (metis)
  then show "((of_nat m :: u32) - of_nat n = 0) = (m = n)" by simp
  show "((of_nat m :: u32) - of_nat n < 0x7FFFFFFF) = (n < m)" if "m \<noteq> n"
    using that assms of_nat_tick [OF assms(1)] of_nat_tick [OF assms(2)]
    by (auto simp: word_less_nat_alt unat_sub_if')
qed

lemma insert_enqueue:
  assumes "\<forall>(u, m) \<in> set q. m < 0x7FFFFFFF \<and> timeout_tick (ts u) - now = of_nat m" "n < 0x7FFFFFFF"
  shows "timer_insert ts (now + of_nat n) t (map fst q) = map fst (enqueue t n q)"
  using assms(1)
proof (induction q)
  case (Cons x q)
  obtain u m where x: "x = (u, m)" by fastforce
  with Cons.prems have m: "m < 0x7FFFFFFF" "timeout_tick (ts u) - now = of_nat m" by auto
  then have d: "timeout_tick (ts u) - (now + of_nat n) = of_nat m - of_nat n" by (simp add: algebra_simps)
  show ?case using Cons x tick_diff [OF m(1) assms(2)] by (cases "m = n") (auto simp: tick_max d)
qed simp

section \<open>Refinement\<close>

text \<open>The relation to the specification, between the calls on timers.\<close>

definition timers_rel :: "timer_sys \<Rightarrow> timer_spec \<Rightarrow> bool" where
  "timers_rel s a \<longleftrightarrow> timer_list s = map fst (queue a) \<and> distinct (map fst (queue a)) \<and> sorted (map snd (queue a)) \<and>
     (\<forall>(t, n) \<in> set (queue a). n < 0x7FFFFFFF \<and> timeout_tick (timers s t) - rt_tick s = of_nat n \<and> activated (timers s t)) \<and>
     (\<forall>t. init_tick (timers s t) = of_nat (period a t) \<and> period a t < 0x7FFFFFFF \<and>
        periodic (timers s t) = repeats a t)"

definition temp_rel :: "timer_sys \<Rightarrow> timer_spec \<Rightarrow> bool" where
  "temp_rel s a \<longleftrightarrow> (case temp_list s of [] \<Rightarrow> current a = None
     | t # ts \<Rightarrow> ts = [] \<and> t \<notin> fst ` set (queue a) \<and> current a = (if activated (timers s t) then Some t else None))"

lemma timers_relD:
  assumes "timers_rel s a"
  shows "timer_list s = map fst (queue a)" "distinct (map fst (queue a))" "sorted (map snd (queue a))"
    "(t, n) \<in> set (queue a) \<Longrightarrow> n < 0x7FFFFFFF \<and> timeout_tick (timers s t) - rt_tick s = of_nat n \<and> activated (timers s t)"
    "init_tick (timers s t) = of_nat (period a t)" "period a t < 0x7FFFFFFF" "periodic (timers s t) = repeats a t"
  using assms by (auto simp: timers_rel_def)

lemma timers_relI:
  assumes "timer_list s = map fst (queue a)" "distinct (map fst (queue a))" "sorted (map snd (queue a))"
    "\<And>t n. (t, n) \<in> set (queue a) \<Longrightarrow> n < 0x7FFFFFFF \<and> timeout_tick (timers s t) - rt_tick s = of_nat n \<and> activated (timers s t)"
    "\<And>t. init_tick (timers s t) = of_nat (period a t) \<and> period a t < 0x7FFFFFFF \<and> periodic (timers s t) = repeats a t"
  shows "timers_rel s a"
  using assms by (auto simp: timers_rel_def)

lemma set_enqueue [simp]: "set (enqueue t n q) = insert (t, n) (set q)"
  by (induction t n q rule: enqueue.induct) auto

lemma start_fields [simp]:
  "period (spec_start u a) = period a" "repeats (spec_start u a) = repeats a" "period (forget u a) = period a"
  "repeats (forget u a) = repeats a"
  "current (spec_start u a) = (if current a = Some u then None else current a)"
  "current (forget u a) = (if current a = Some u then None else current a)"
  by (simp_all add: spec_start_def forget_def Let_def)

lemma armed_op:
  assumes "armed a" "op_ok a x" shows "armed (spec_op x a)"
  using assms by (cases x) (auto simp: armed_def spec_start_def forget_def Let_def unat_gt_0 image_iff)

lemma armed_ops: "armed a \<Longrightarrow> ops_ok xs a \<Longrightarrow> armed (fold spec_op xs a)"
  by (induction xs arbitrary: a) (simp_all add: armed_op)

lemma armed_expire:
  assumes a: "armed a" and t: "t \<in> fst ` set (queue a)" and ok: "expire_ok callback t a"
  shows "armed (spec_expire callback t a)"
proof -
  obtain a1 where a1: "a1 = (forget t a)\<lparr>current := (if repeats a t then Some t else None)\<rparr>" by blast
  obtain a2 where a2: "a2 = fold spec_op callback a1" by blast
  have "armed a1" using a t by (auto simp: armed_def a1 forget_def)
  then have "armed a2" using armed_ops ok by (simp add: a2 a1 expire_ok_def)
  moreover from this have "current a2 = Some t \<Longrightarrow> armed (spec_start t a2)"
    using armed_op [of a2 "TimerStart t"] by (simp add: armed_def)
  ultimately show ?thesis by (auto simp: spec_expire_def Let_def armed_def simp flip: a1 a2)
qed

lemma sorted_enqueue: "sorted (map snd q) \<Longrightarrow> sorted (map snd (enqueue t n q))"
  by (induction t n q rule: enqueue.induct) force+

lemma distinct_enqueue: "distinct (map fst q) \<Longrightarrow> t \<notin> fst ` set q \<Longrightarrow> distinct (map fst (enqueue t n q))"
  by (induction t n q rule: enqueue.induct) auto

lemma map_fst_forget: "map fst (filter (\<lambda>x. fst x \<noteq> t) q) = removeAll t (map fst q)"
  by (induction q) auto

lemma forget_rel:
  assumes "timers_rel s a"
  shows "timers_rel (timer_remove t s) (forget t a)" "temp_rel s a \<Longrightarrow> temp_rel (timer_remove t s) (forget t a)"
proof -
  note D = timers_relD [OF assms]
  show "timers_rel (timer_remove t s) (forget t a)"
    by (rule timers_relI)
      (use D(1-3) in \<open>auto simp: timer_remove_def forget_def map_fst_forget sorted_filter distinct_removeAll D(4-7)\<close>)
  show "temp_rel s a \<Longrightarrow> temp_rel (timer_remove t s) (forget t a)"
    by (auto simp: temp_rel_def timer_remove_def forget_def split: list.splits if_splits)
qed

lemma start_rel:
  assumes "timers_rel s a"
  shows "timers_rel (rt_timer_start t s) (spec_start t a)" "temp_rel s a \<Longrightarrow> temp_rel (rt_timer_start t s) (spec_start t a)"
proof -
  obtain s1 a1 where s1: "s1 = timer_remove t s" and a1: "a1 = forget t a" by blast
  have R: "timers_rel s1 a1" and new: "t \<notin> fst ` set (queue a1)" and tm: "t \<notin> set (temp_list s1)"
    using forget_rel(1) [OF assms] by (auto simp: s1 a1 forget_def timer_remove_def)
  note D = timers_relD [OF R]
  let ?n = "period a1 t"
  have e: "rt_timer_start t s = s1\<lparr>timers := (timers s1)(t := (timers s1 t)\<lparr>timeout_tick := rt_tick s1 + of_nat ?n, activated := True\<rparr>),
      timer_list := map fst (enqueue t ?n (queue a1))\<rparr>"
    using insert_enqueue [of "queue a1" "timers s1" "rt_tick s1" ?n t] D(1,5,6) D(4)
    by (fastforce simp: rt_timer_start_def Let_def s1 [symmetric])
  have f: "spec_start t a = a1\<lparr>queue := enqueue t ?n (queue a1)\<rparr>" by (simp add: spec_start_def a1 Let_def)
  show "timers_rel (rt_timer_start t s) (spec_start t a)"
    unfolding e f
  proof (rule timers_relI)
    fix u m assume "(u, m) \<in> set (queue (a1\<lparr>queue := enqueue t ?n (queue a1)\<rparr>))"
    then consider "u = t" "m = ?n" | "u \<noteq> t" "(u, m) \<in> set (queue a1)" using new by force
    then show "m < 0x7FFFFFFF \<and> timeout_tick (timers (s1\<lparr>timers := (timers s1)(t := (timers s1 t)\<lparr>timeout_tick := rt_tick s1 + of_nat ?n, activated := True\<rparr>),
      timer_list := map fst (enqueue t ?n (queue a1))\<rparr>) u) - rt_tick (s1\<lparr>timers := (timers s1)(t := (timers s1 t)\<lparr>timeout_tick := rt_tick s1 + of_nat ?n, activated := True\<rparr>),
      timer_list := map fst (enqueue t ?n (queue a1))\<rparr>) = of_nat m \<and> activated (timers (s1\<lparr>timers := (timers s1)(t := (timers s1 t)\<lparr>timeout_tick := rt_tick s1 + of_nat ?n, activated := True\<rparr>),
      timer_list := map fst (enqueue t ?n (queue a1))\<rparr>) u)"
      by cases (use D(6) D(4) in simp_all)
  qed (use D(2,3) D(5-7) new in \<open>simp_all add: sorted_enqueue distinct_enqueue\<close>)
  show "temp_rel (rt_timer_start t s) (spec_start t a)" if "temp_rel s a"
  proof -
    have "temp_rel s1 a1" using forget_rel(2) [OF assms that, of t] by (simp add: s1 a1)
    then consider "temp_list s1 = []" "current a1 = None"
      | u where "temp_list s1 = [u]" "u \<noteq> t" "u \<notin> fst ` set (queue a1)" "current a1 = (if activated (timers s1 u) then Some u else None)"
      using tm by (auto simp: temp_rel_def split: list.splits)
    then show ?thesis unfolding e f by cases (simp_all add: temp_rel_def)
  qed
qed

lemma rel_flags:
  assumes "timers_rel s a" "t \<notin> fst ` set (queue a)"
  shows "timers_rel (s\<lparr>timers := (timers s)(t := (timers s t)\<lparr>activated := b\<rparr>), temp_list := l\<rparr>) (a\<lparr>current := c\<rparr>)"
proof -
  note D = timers_relD [OF assms(1)]
  have "u \<noteq> t" if "(u, n) \<in> set (queue a)" for u n using that assms(2) by force
  then show ?thesis by (intro timers_relI) (use D(1-3) in \<open>auto simp: D(4-7)\<close>)
qed

lemma do_timer_rel:
  assumes "timers_rel s a" "temp_rel s a" "op_ok a x"
  shows "\<exists>s'. do_timer x s = Some s' \<and> timers_rel s' (spec_op x a) \<and> temp_rel s' (spec_op x a) \<and> rt_tick s' = rt_tick s \<and>
    set (temp_list s') \<subseteq> set (temp_list s)"
proof (cases x)
  case (TimerStart t)
  then show ?thesis using start_rel [OF assms(1), of t] assms(2) by (auto simp: rt_timer_start_def Let_def timer_remove_def)
next
  case (TimerStop t)
  note F = forget_rel [OF assms(1), of t]
  show ?thesis
  proof (cases "activated (timers s t)")
    case True
    have n: "t \<notin> fst ` set (queue (forget t a))" by (auto simp: forget_def)
    obtain s' where s': "s' = (timer_remove t s)\<lparr>timers := (timers s)(t := (timers s t)\<lparr>activated := False\<rparr>)\<rparr>" by blast
    have "timers_rel s' (forget t a)"
      using rel_flags [OF F(1) n, where b = False and l = "temp_list (timer_remove t s)" and c = "current (forget t a)"]
      by (cases s) (simp add: s' timer_remove_def del: start_fields)
    moreover have "temp_rel s' (forget t a)"
    proof -
      have m: "t \<notin> set (temp_list (timer_remove t s))" "timers (timer_remove t s) = timers s" by (simp_all add: timer_remove_def)
      from F(2) [OF assms(2)] consider "temp_list (timer_remove t s) = []" "current (forget t a) = None"
        | u where "temp_list (timer_remove t s) = [u]" "u \<noteq> t" "u \<notin> fst ` set (queue (forget t a))"
          "current (forget t a) = (if activated (timers s u) then Some u else None)"
        using m by (auto simp: temp_rel_def split: list.splits)
      then show ?thesis by cases (simp_all add: s' temp_rel_def)
    qed
    ultimately show ?thesis using TimerStop True by (auto simp: rt_timer_stop_def s' timer_remove_def)
  next
    case False
    then have "\<forall>y \<in> set (queue a). fst y \<noteq> t" "current a \<noteq> Some t"
      using timers_relD(4) [OF assms(1)] assms(2) by (force simp: temp_rel_def split: list.splits if_splits)+
    then have "forget t a = a" by (simp add: forget_def)
    then show ?thesis using TimerStop False assms by (simp add: rt_timer_stop_def)
  qed
next
  case (TimerSetTime t n)
  then have n: "n < 0x7FFFFFFF" using assms(3) by (simp add: tick_max)
  note D = timers_relD [OF assms(1)]
  have "timers_rel (s\<lparr>timers := (timers s)(t := (timers s t)\<lparr>init_tick := n\<rparr>)\<rparr>) (a\<lparr>period := (period a)(t := unat n)\<rparr>)"
    by (intro timers_relI) (use D(1-3) n in \<open>auto simp: D(4-7) word_less_nat_alt\<close>)
  then show ?thesis using TimerSetTime n assms(2) by (auto simp: rt_timer_set_time_def tick_max temp_rel_def split: list.splits)
next
  case (TimerSetPeriodic b t)
  note D = timers_relD [OF assms(1)]
  have "timers_rel (rt_timer_set_periodic b t s) (a\<lparr>repeats := (repeats a)(t := b)\<rparr>)"
    by (intro timers_relI) (use D(1-3) in \<open>auto simp: D(4-7) rt_timer_set_periodic_def\<close>)
  then show ?thesis using TimerSetPeriodic assms(2) by (auto simp: rt_timer_set_periodic_def temp_rel_def split: list.splits)
qed

lemma timer_ops_rel:
  assumes "timers_rel s a" "temp_rel s a" "ops_ok xs a"
  shows "\<exists>s'. timer_ops xs s = Some s' \<and> timers_rel s' (fold spec_op xs a) \<and> temp_rel s' (fold spec_op xs a) \<and> rt_tick s' = rt_tick s \<and>
    set (temp_list s') \<subseteq> set (temp_list s)"
  using assms
proof (induction xs arbitrary: s a)
  case (Cons x xs)
  obtain s1 where s1: "do_timer x s = Some s1" "timers_rel s1 (spec_op x a)" "temp_rel s1 (spec_op x a)" "rt_tick s1 = rt_tick s"
    "set (temp_list s1) \<subseteq> set (temp_list s)"
    using do_timer_rel [OF Cons.prems(1,2), of x] Cons.prems(3) by auto
  have "ops_ok xs (spec_op x a)" using Cons.prems(3) by simp
  from Cons.IH [OF s1(2,3) this] s1 show ?case by force
qed simp

text \<open>Outside the check: no call-back runs and every timer has a tick to go.\<close>

definition idle :: "timer_sys \<Rightarrow> timer_spec \<Rightarrow> bool" where
  "idle s a \<longleftrightarrow> timers_rel s a \<and> temp_list s = [] \<and> current a = None \<and> armed a"

lemma idle_temp: "idle s a \<Longrightarrow> temp_rel s a"
  by (simp add: idle_def temp_rel_def)

lemma timer_expire_rel:
  assumes "idle s a" "t \<in> fst ` set (queue a)" "expire_ok callback t a"
  shows "\<exists>s'. timer_expire callback t s = Some s' \<and> idle s' (spec_expire callback t a) \<and> rt_tick s' = rt_tick s"
proof -
  have R: "timers_rel s a" using assms(1) by (simp add: idle_def)
  have A: "armed (spec_expire callback t a)" using armed_expire [OF _ assms(2,3)] assms(1) by (simp add: idle_def)
  note D = timers_relD [OF R]
  obtain a1 where a1: "a1 = (forget t a)\<lparr>current := (if repeats a t then Some t else None)\<rparr>" by blast
  obtain s1 where s1: "s1 = (timer_remove t s)\<lparr>timers := (timers s)(t := (timers s t)\<lparr>activated := repeats a t\<rparr>), temp_list := [t]\<rparr>" by blast
  have n: "t \<notin> fst ` set (queue (forget t a))" by (auto simp: forget_def)
  have act: "activated (timers s t)" using assms(2) D(4) by force
  have "(timers s)(t := (timers s t)\<lparr>activated := True\<rparr>) = timers s" using act by (simp add: fun_eq_iff)
  then have e: "timer_expire callback t s = do {
       s \<leftarrow> timer_ops callback s1;
       if temp_list s = [] then Some s
       else (let s = s\<lparr>temp_list := removeAll t (temp_list s)\<rparr> in
         if periodic (timers s t) \<and> activated (timers s t)
         then Some (rt_timer_start t (s\<lparr>timers := (timers s)(t := (timers s t)\<lparr>activated := False\<rparr>)\<rparr>))
         else Some s) }"
    using D(7) [of t] by (simp add: timer_expire_def Let_def s1 timer_remove_def)
  have "timers_rel s1 a1" "temp_rel s1 a1"
    using rel_flags [OF forget_rel(1) [OF R] n, where b = "repeats a t" and l = "[t]" and c = "if repeats a t then Some t else None"] n
    by (simp_all add: s1 a1 timer_remove_def temp_rel_def)
  from timer_ops_rel [OF this] assms(3) obtain s2 where s2: "timer_ops callback s1 = Some s2"
    "timers_rel s2 (fold spec_op callback a1)" "temp_rel s2 (fold spec_op callback a1)" "rt_tick s2 = rt_tick s"
    "set (temp_list s2) \<subseteq> {t}" by (auto simp: s1 timer_remove_def expire_ok_def a1)
  obtain a2 where a2: "a2 = fold spec_op callback a1" by blast
  have x: "spec_expire callback t a = (if current a2 = Some t \<and> repeats a2 t then spec_start t a2 else a2\<lparr>current := None\<rparr>)"
    by (simp add: spec_expire_def Let_def a2 a1)
  show ?thesis
  proof (cases "temp_list s2 = []")
    case True
    then have "current a2 = None" using s2(3) by (simp add: temp_rel_def a2)
    then have u: "a2\<lparr>current := None\<rparr> = a2" by (cases a2) simp
    have "timers_rel s2 (a2\<lparr>current := None\<rparr>)" unfolding u using s2(2) by (simp only: a2)
    then show ?thesis using e s2(1,4) True A \<open>current a2 = None\<close> by (simp add: x idle_def)
  next
    case False
    then obtain u us where l: "temp_list s2 = u # us" by (cases "temp_list s2") simp_all
    have "u = t" using s2(5) by (simp add: l)
    then have t2: "temp_list s2 = [t]" "t \<notin> fst ` set (queue a2)" "current a2 = (if activated (timers s2 t) then Some t else None)"
      using s2(3) by (simp_all add: temp_rel_def l flip: a2)
    have R2: "timers_rel s2 a2" using s2(2) by (simp add: a2)
    obtain s3 where s3: "s3 = s2\<lparr>timers := (timers s2)(t := (timers s2 t)\<lparr>activated := False\<rparr>), temp_list := []\<rparr>" by blast
    have s3': "s3 = s2\<lparr>temp_list := [], timers := (timers s2)(t := (timers s2 t)\<lparr>activated := False\<rparr>)\<rparr>"
      unfolding s3 by (rule timer_sys.equality) simp_all
    have R3: "timers_rel s3 (a2\<lparr>current := None\<rparr>)" using rel_flags [OF R2 t2(2), where b = False and l = "[]" and c = None] by (simp only: s3)
    have p: "periodic (timers s2 t) = repeats a2 t" by (rule timers_relD(7) [OF R2])
    show ?thesis
    proof (cases "periodic (timers s2 t) \<and> activated (timers s2 t)")
      case True
      have "spec_start t (a2\<lparr>current := None\<rparr>) = spec_start t a2"
        using True t2(3) by (simp add: spec_start_def forget_def Let_def)
      then have "timers_rel (rt_timer_start t s3) (spec_start t a2)" using start_rel(1) [OF R3, of t] by simp
      moreover have "temp_list (rt_timer_start t s3) = []" "rt_tick (rt_timer_start t s3) = rt_tick s" "current (spec_start t a2) = None"
        using s2(4) True t2(3) by (simp_all add: rt_timer_start_def Let_def timer_remove_def s3 spec_start_def forget_def)
      ultimately show ?thesis using e s2(1) True t2 p A by (simp add: x idle_def Let_def flip: s3')
    next
      case False
      have "timers_rel (s2\<lparr>temp_list := []\<rparr>) (a2\<lparr>current := None\<rparr>)"
        using rel_flags [OF R2 t2(2), where b = "activated (timers s2 t)" and l = "[]" and c = None] by simp
      moreover have "timer_expire callback t s = Some (s2\<lparr>temp_list := []\<rparr>)"
        unfolding e s2(1) using False t2(1) by (simp add: Let_def) blast
      moreover have "spec_expire callback t a = a2\<lparr>current := None\<rparr>"
      proof -
        have "\<not> (current a2 = Some t \<and> repeats a2 t)" using False t2(3) p by (auto split: if_splits)
        then show ?thesis by (simp only: x if_False)
      qed
      ultimately show ?thesis using s2(4) A by (simp add: idle_def)
    qed
  qed
qed

text \<open>The check of a tick. Every round leaves fewer timers without a tick to go.\<close>

definition due :: "timer_spec \<Rightarrow> nat" where
  "due a = length (filter (\<lambda>x. snd x = 0) (queue a))"

lemma due_enqueue [simp]: "0 < n \<Longrightarrow> length (filter (\<lambda>x. snd x = 0) (enqueue t n q)) = length (filter (\<lambda>x. snd x = 0) q)"
  by (induction t n q rule: enqueue.induct) auto

lemma due_forget: "due (forget t a) \<le> due a"
proof -
  have "length (filter (\<lambda>x. fst x \<noteq> t \<and> snd x = 0) q) \<le> length (filter (\<lambda>x. snd x = 0) q)" for q :: "(nat \<times> nat) list"
    by (induction q) auto
  then show ?thesis by (simp add: due_def forget_def)
qed

lemma due_op:
  assumes "op_ok a x" shows "due (spec_op x a) \<le> due a"
proof -
  have "due (spec_start t a) \<le> due a" if "0 < period a t" for t
    using that due_forget [of t a] by (simp add: spec_start_def due_def forget_def Let_def)
  then show ?thesis using due_forget assms by (cases x) (simp_all add: due_def)
qed

lemma due_ops: "ops_ok xs a \<Longrightarrow> due (fold spec_op xs a) \<le> due a"
proof (induction xs arbitrary: a)
  case (Cons x xs)
  have "due (spec_op x a) \<le> due a" "due (fold spec_op xs (spec_op x a)) \<le> due (spec_op x a)"
    using due_op [of a x] Cons by simp_all
  then show ?case by simp
qed simp

lemma due_expire:
  assumes "armed a" "expire_ok callback t a" "queue a = (t, 0) # q"
  shows "due (spec_expire callback t a) < due a"
proof -
  obtain a1 where a1: "a1 = (forget t a)\<lparr>current := (if repeats a t then Some t else None)\<rparr>" by blast
  obtain a2 where a2: "a2 = fold spec_op callback a1" by blast
  have "armed a1" using assms(1,3) by (auto simp: armed_def a1 forget_def)
  then have r: "armed a2" using armed_ops assms(2) by (simp add: a2 a1 expire_ok_def)
  have "due a1 < due a"
    using due_forget [of t "a\<lparr>queue := q\<rparr>"] assms(3) by (simp add: a1 due_def forget_def)
  then have d: "due a2 < due a" using due_ops [of callback a1] assms(2) a2 by (simp add: expire_ok_def a1)
  have "current a2 = Some t \<Longrightarrow> due (spec_start t a2) \<le> due a2"
    using due_op [of a2 "TimerStart t"] r by (simp add: armed_def)
  then show ?thesis
    using d by (auto simp: spec_expire_def Let_def simp flip: a1 a2 simp: due_def)
qed

lemma check_due:
  assumes "n < 0x7FFFFFFF" "w - r = (of_nat n :: u32)"
  shows "(r - w < RT_TICK_MAX div 2) = (n = 0)"
proof -
  have "r - w = - (w - r)" by simp
  then have "r - w = of_nat 0 - of_nat n" unfolding assms(2) by simp
  then show ?thesis using tick_diff [of 0 n] assms(1) by (cases "n = 0") (simp_all add: tick_max)
qed

lemma timer_check_rel:
  assumes "idle s a" "check_ok k callbacks a" "due a \<le> k"
  shows "\<exists>s'. rt_timer_check callbacks s = Some (fst (spec_check k callbacks a), s') \<and> idle s' (snd (spec_check k callbacks a)) \<and>
    rt_tick s' = rt_tick s \<and> due (snd (spec_check k callbacks a)) = 0"
  using assms
proof (induction k arbitrary: s a)
  case 0
  have R: "timers_rel s a" using 0(1) by (simp add: idle_def)
  note D = timers_relD [OF R]
  show ?case
  proof (cases "queue a")
    case Nil
    then show ?thesis using 0 D(1) by (simp add: rt_timer_check.simps)
  next
    case (Cons x q)
    obtain t n where x: "x = (t, n)" by fastforce
    have "n \<noteq> 0" using 0(3) Cons x by (auto simp: due_def split: if_splits)
    then have "\<not> rt_tick s - timeout_tick (timers s t) < RT_TICK_MAX div 2"
      using check_due [of n "timeout_tick (timers s t)" "rt_tick s"] D(4) [of t n] Cons x by simp
    then show ?thesis using 0 D(1) Cons x by (simp add: rt_timer_check.simps)
  qed
next
  case (Suc k)
  have R: "timers_rel s a" using Suc.prems(1) by (simp add: idle_def)
  note D = timers_relD [OF R]
  show ?case
  proof (cases "queue a")
    case Nil
    then show ?thesis using Suc.prems D(1) by (simp add: rt_timer_check.simps due_def)
  next
    case (Cons x q)
    obtain t n where x: "x = (t, n)" by fastforce
    have c: "(rt_tick s - timeout_tick (timers s t) < RT_TICK_MAX div 2) = (n = 0)"
      using check_due [of n "timeout_tick (timers s t)" "rt_tick s"] D(4) [of t n] Cons x by simp
    have l: "timer_list s = t # map fst q" using D(1) Cons x by simp
    show ?thesis
    proof (cases n)
      case 0
      have ok: "expire_ok (callbacks t) t a" "check_ok k callbacks (spec_expire (callbacks t) t a)"
        using Suc.prems(2) Cons x 0 by simp_all
      have "t \<in> fst ` set (queue a)" using Cons x by simp
      from timer_expire_rel [OF Suc.prems(1) this ok(1)]
      obtain s1 where s1: "timer_expire (callbacks t) t s = Some s1" "idle s1 (spec_expire (callbacks t) t a)" "rt_tick s1 = rt_tick s"
        by auto
      have "due (spec_expire (callbacks t) t a) \<le> k"
        using due_expire [of a "callbacks t" t q] ok(1) Suc.prems(1,3) Cons x 0 by (simp add: idle_def)
      from Suc.IH [OF s1(2) ok(2) this] obtain s2 where s2:
        "rt_timer_check callbacks s1 = Some (fst (spec_check k callbacks (spec_expire (callbacks t) t a)), s2)"
        "idle s2 (snd (spec_check k callbacks (spec_expire (callbacks t) t a)))" "rt_tick s2 = rt_tick s1"
        "due (snd (spec_check k callbacks (spec_expire (callbacks t) t a))) = 0" by blast
      have "rt_timer_check callbacks s = Some (t # fst (spec_check k callbacks (spec_expire (callbacks t) t a)), s2)"
        by (subst rt_timer_check.simps) (simp add: l c 0 s1(1) s2(1))
      then show ?thesis using s2(2-4) s1(3) Cons x 0 by (simp add: case_prod_beta)
    next
      case (Suc m)
      have "\<forall>y \<in> set (queue a). snd y \<noteq> 0" using D(3) Cons x Suc by (auto simp: sorted_simps)
      then have "due a = 0" by (simp add: due_def filter_empty_conv)
      then show ?thesis using Suc.prems Cons x Suc c l by (simp add: rt_timer_check.simps)
    qed
  qed
qed

definition ready :: "timer_sys \<Rightarrow> timer_spec \<Rightarrow> bool" where
  "ready s a \<longleftrightarrow> idle s a \<and> due a = 0"

lemma timer_call_rel:
  assumes "ready s a" "op_ok a x"
  shows "\<exists>s'. do_timer x s = Some s' \<and> ready s' (spec_op x a)"
proof -
  have i: "idle s a" "due a = 0" using assms(1) by (simp_all add: ready_def)
  have R: "timers_rel s a" and e: "temp_list s = []" using i(1) by (simp_all add: idle_def)
  obtain s' where s': "do_timer x s = Some s'" "timers_rel s' (spec_op x a)" "temp_rel s' (spec_op x a)" "set (temp_list s') \<subseteq> set (temp_list s)"
    using do_timer_rel [OF R idle_temp [OF i(1)] assms(2)] by blast
  have "temp_list s' = []" using s'(4) e by simp
  moreover have "armed (spec_op x a)" using armed_op [OF _ assms(2)] i(1) by (simp add: idle_def)
  ultimately have "idle s' (spec_op x a)" using s'(2,3) by (simp add: idle_def temp_rel_def)
  moreover have "due (spec_op x a) = 0" using due_op [OF assms(2)] i(2) by simp
  ultimately show ?thesis using s'(1) by (auto simp: ready_def)
qed

lemma tick_idle:
  assumes "ready s a"
  shows "idle (s\<lparr>rt_tick := rt_tick s + 1\<rparr>) (a\<lparr>queue := map (\<lambda>(t, n). (t, n - 1)) (queue a)\<rparr>)"
proof -
  have R: "timers_rel s a" and z: "due a = 0" and e: "temp_list s = []" "current a = None" and A: "armed a"
    using assms by (simp_all add: ready_def idle_def)
  note D = timers_relD [OF R]
  have f: "map (fst \<circ> (\<lambda>(t, n). (t, n - Suc 0))) q = map fst q" for q :: "(nat \<times> nat) list"
    by (induction q) auto
  have g: "sorted (map snd (map (\<lambda>(t, n). (t, n - 1)) q))" if "sorted (map snd q)" for q :: "(nat \<times> nat) list"
    using that by (induction q) (auto simp: diff_le_mono)
  have "timers_rel (s\<lparr>rt_tick := rt_tick s + 1\<rparr>) (a\<lparr>queue := map (\<lambda>(t, n). (t, n - 1)) (queue a)\<rparr>)"
  proof (rule timers_relI)
    fix t n assume "(t, n) \<in> set (queue (a\<lparr>queue := map (\<lambda>(t, n). (t, n - 1)) (queue a)\<rparr>))"
    then obtain m where m: "(t, m) \<in> set (queue a)" "n = m - 1" by auto
    have "0 < m" using z m(1) by (force simp: due_def filter_empty_conv)
    then have "(of_nat n :: u32) = of_nat m - 1" using m(2) by (simp add: of_nat_diff)
    moreover have "timeout_tick (timers s t) - (rt_tick s + 1) = (timeout_tick (timers s t) - rt_tick s) - 1" by simp
    ultimately show "n < 0x7FFFFFFF \<and> timeout_tick (timers (s\<lparr>rt_tick := rt_tick s + 1\<rparr>) t) - rt_tick (s\<lparr>rt_tick := rt_tick s + 1\<rparr>) = of_nat n \<and>
      activated (timers (s\<lparr>rt_tick := rt_tick s + 1\<rparr>) t)"
      using D(4) [OF m(1)] m(2) by (simp add: less_imp_diff_less)
  qed (use D(1,2) g [OF D(3)] D(5-7) in \<open>simp_all add: f\<close>)
  moreover have "armed (a\<lparr>queue := map (\<lambda>(t, n). (t, n - 1)) (queue a)\<rparr>)" using A by (force simp: armed_def)
  ultimately show ?thesis using e by (simp add: idle_def)
qed

lemma timer_tick_rel:
  assumes "ready s a" "tick_ok callbacks a"
  shows "\<exists>s'. rt_tick_increase callbacks s = Some (fst (spec_tick callbacks a), s') \<and> ready s' (snd (spec_tick callbacks a))"
proof -
  have "due (a\<lparr>queue := map (\<lambda>(t, n). (t, n - 1)) (queue a)\<rparr>) \<le> length (queue a)"
    by (simp add: due_def order_trans [OF length_filter_le])
  from timer_check_rel [OF tick_idle [OF assms(1)] assms(2) [unfolded tick_ok_def] this] show ?thesis
    by (auto simp: rt_tick_increase_def spec_tick_def ready_def)
qed

lemma timer_run_rel:
  assumes "ready s a" "run_ok es a"
  shows "\<exists>s'. timer_run es s = Some (fst (spec_run es a), s') \<and> ready s' (snd (spec_run es a))"
  using assms
proof (induction es arbitrary: s a)
  case (Cons e es)
  show ?case
  proof (cases e)
    case (Call x)
    then obtain s1 where "do_timer x s = Some s1" "ready s1 (spec_op x a)" using timer_call_rel [OF Cons.prems(1)] Cons.prems(2) by auto
    then show ?thesis using Cons.IH [of s1 "spec_op x a"] Cons.prems(2) Call by simp
  next
    case (Tick callbacks)
    then obtain s1 where s1: "rt_tick_increase callbacks s = Some (fst (spec_tick callbacks a), s1)" "ready s1 (snd (spec_tick callbacks a))"
      using timer_tick_rel [OF Cons.prems(1), of callbacks] Cons.prems(2) by auto
    obtain s2 where "timer_run es s1 = Some (fst (spec_run es (snd (spec_tick callbacks a))), s2)"
      "ready s2 (snd (spec_run es (snd (spec_tick callbacks a))))"
      using Cons.IH [OF s1(2)] Cons.prems(2) Tick by auto
    then show ?thesis using Tick s1(1) by (simp add: case_prod_beta)
  qed
qed simp

text \<open>Timers as \<open>rt_timer_init\<close> leaves them, at any tick.\<close>

definition timer_init :: "u32 \<Rightarrow> bool \<Rightarrow> rt_timer" where
  "timer_init time per = \<lparr>activated = False, periodic = per, init_tick = time, timeout_tick = 0\<rparr>"

definition timers_begin :: "u32 \<Rightarrow> (nat \<Rightarrow> u32 \<times> bool) \<Rightarrow> timer_sys" where
  "timers_begin now cfg = \<lparr>timers = (\<lambda>t. timer_init (fst (cfg t)) (snd (cfg t))), timer_list = [], temp_list = [], rt_tick = now\<rparr>"

definition spec_begin :: "(nat \<Rightarrow> u32 \<times> bool) \<Rightarrow> timer_spec" where
  "spec_begin cfg = \<lparr>queue = [], period = (\<lambda>t. unat (fst (cfg t))), repeats = (\<lambda>t. snd (cfg t)), current = None\<rparr>"

definition cfg_ok :: "(nat \<Rightarrow> u32 \<times> bool) \<Rightarrow> bool" where
  "cfg_ok cfg \<longleftrightarrow> (\<forall>t. fst (cfg t) < RT_TICK_MAX div 2)"

lemma begin_ready: "cfg_ok cfg \<Longrightarrow> ready (timers_begin now cfg) (spec_begin cfg)"
  by (auto simp: ready_def idle_def timers_rel_def timers_begin_def spec_begin_def due_def timer_init_def cfg_ok_def tick_max
      word_less_nat_alt armed_def)

section \<open>Who touches a timer\<close>

text \<open>No call of \<open>x\<close>, and then no event, is about timer \<open>t\<close>.\<close>

fun leaves_op :: "nat \<Rightarrow> timer_op \<Rightarrow> bool" where
  "leaves_op t (TimerStart u) \<longleftrightarrow> u \<noteq> t"
| "leaves_op t (TimerStop u) \<longleftrightarrow> u \<noteq> t"
| "leaves_op t (TimerSetTime u n) \<longleftrightarrow> u \<noteq> t"
| "leaves_op t (TimerSetPeriodic b u) \<longleftrightarrow> u \<noteq> t"

fun leaves :: "nat \<Rightarrow> timer_event \<Rightarrow> bool" where
  "leaves t (Call x) \<longleftrightarrow> leaves_op t x"
| "leaves t (Tick callbacks) \<longleftrightarrow> (\<forall>u. \<forall>x \<in> set (callbacks u). leaves_op t x)"

fun is_tick :: "timer_event \<Rightarrow> bool" where
  "is_tick (Tick _) = True"
| "is_tick (Call _) = False"

text \<open>The entry of a timer in the queue.\<close>

definition entry_of :: "nat \<Rightarrow> timer_spec \<Rightarrow> (nat \<times> nat) list" where
  "entry_of t a = filter (\<lambda>x. fst x = t) (queue a)"

lemma entry_enqueue: "u \<noteq> t \<Longrightarrow> filter (\<lambda>x. fst x = t) (enqueue u n q) = filter (\<lambda>x. fst x = t) q"
  by (induction u n q rule: enqueue.induct) auto

lemma entry_enqueue_self: "t \<notin> fst ` set q \<Longrightarrow> filter (\<lambda>x. fst x = t) (enqueue t n q) = [(t, n)]"
  by (induction t n q rule: enqueue.induct) (auto simp: filter_empty_conv)

lemma entry_forget: "entry_of t (forget u a) = (if u = t then [] else entry_of t a)"
  by (auto simp: entry_of_def forget_def filter_empty_conv intro: filter_cong)

lemma entry_start: "entry_of t (spec_start u a) = (if u = t then [(t, period a t)] else entry_of t a)"
proof (cases "u = t")
  case True
  have "t \<notin> fst ` set (queue (forget t a))" by (auto simp: forget_def)
  then show ?thesis using True by (simp add: entry_of_def spec_start_def Let_def entry_enqueue_self)
next
  case False
  then show ?thesis using entry_forget [of t u a] by (simp add: entry_of_def spec_start_def Let_def entry_enqueue)
qed

definition unchanged :: "nat \<Rightarrow> timer_spec \<Rightarrow> timer_spec \<Rightarrow> bool" where
  "unchanged t a b \<longleftrightarrow> period b t = period a t \<and> repeats b t = repeats a t"

lemma leaves_spec_op:
  assumes "leaves_op t x"
  shows "entry_of t (spec_op x a) = entry_of t a \<and> unchanged t a (spec_op x a) \<and> (current (spec_op x a) = Some t) = (current a = Some t)"
  using assms by (cases x) (auto simp: entry_start entry_forget unchanged_def, simp_all add: entry_of_def)

lemma leaves_spec_ops:
  assumes "\<forall>x \<in> set xs. leaves_op t x"
  shows "entry_of t (fold spec_op xs a) = entry_of t a \<and> unchanged t a (fold spec_op xs a) \<and>
    (current (fold spec_op xs a) = Some t) = (current a = Some t)"
  using assms
proof (induction xs arbitrary: a)
  case (Cons x xs)
  then show ?case using leaves_spec_op [of t x a] Cons.IH [of "spec_op x a"] by (simp add: unchanged_def)
qed (simp add: unchanged_def)

lemma leaves_expire:
  assumes "\<forall>x \<in> set callback. leaves_op t x"
  shows "entry_of t (spec_expire callback u a) = (if u = t then (if repeats a t then [(t, period a t)] else []) else entry_of t a)"
    "unchanged t a (spec_expire callback u a)"
proof -
  obtain a1 where a1: "a1 = (forget u a)\<lparr>current := (if repeats a u then Some u else None)\<rparr>" by blast
  obtain a2 where a2: "a2 = fold spec_op callback a1" by blast
  have f: "entry_of t a2 = entry_of t a1" "unchanged t a1 a2" "(current a2 = Some t) = (current a1 = Some t)"
    using leaves_spec_ops [OF assms, of a1] a2 by simp_all
  have e1: "entry_of t a1 = (if u = t then [] else entry_of t a)" "unchanged t a a1"
    using entry_forget [of t u a] by (simp_all add: a1 entry_of_def unchanged_def)
  have x: "spec_expire callback u a = (if current a2 = Some u \<and> repeats a2 u then spec_start u a2 else a2\<lparr>current := None\<rparr>)"
    by (simp add: spec_expire_def Let_def a2 a1)
  have n: "entry_of t (a2\<lparr>current := None\<rparr>) = entry_of t a2" by (simp add: entry_of_def)
  show "unchanged t a (spec_expire callback u a)"
    using f(2) e1(2) by (simp add: x unchanged_def)
  show "entry_of t (spec_expire callback u a) = (if u = t then (if repeats a t then [(t, period a t)] else []) else entry_of t a)"
  proof (cases "u = t")
    case True
    then have "current a2 = Some t \<longleftrightarrow> repeats a t" using f(3) by (simp add: a1)
    then show ?thesis using f(1,2) e1 by (simp add: x [unfolded True] True n entry_start unchanged_def)
  next
    case False
    then show ?thesis using f(1) e1(1) by (simp add: x n entry_start)
  qed
qed

lemma leaves_check:
  assumes "idle s a" "check_ok k callbacks a" "due a \<le> k" "\<forall>u. \<forall>x \<in> set (callbacks u). leaves_op t x"
    "spec_check k callbacks a = (ts, b)"
  shows "count_list ts t = (if entry_of t a = [(t, 0)] then 1 else 0) \<and>
    entry_of t b = (if entry_of t a = [(t, 0)] then (if repeats a t then [(t, period a t)] else []) else entry_of t a) \<and>
    unchanged t a b"
  using assms
proof (induction k arbitrary: s a ts b)
  case 0
  then have "\<forall>x \<in> set (queue a). snd x \<noteq> 0" by (simp add: due_def filter_empty_conv)
  then have "entry_of t a \<noteq> [(t, 0)]" by (auto simp: entry_of_def filter_eq_Cons_iff)
  then show ?case using 0 by (simp add: unchanged_def)
next
  case (Suc k)
  have R: "timers_rel s a" using Suc.prems(1) by (simp add: idle_def)
  note D = timers_relD [OF R]
  show ?case
  proof (cases "\<exists>u q. queue a = (u, 0) # q")
    case True
    then obtain u q where q: "queue a = (u, 0) # q" by blast
    obtain a1 where a1: "a1 = spec_expire (callbacks u) u a" by blast
    have ok: "expire_ok (callbacks u) u a" "check_ok k callbacks a1" using Suc.prems(2) q a1 by simp_all
    have "u \<in> fst ` set (queue a)" by (simp add: q)
    then obtain s1 where s1: "idle s1 a1" using timer_expire_rel [OF Suc.prems(1) _ ok(1)] a1 by blast
    have d: "due a1 \<le> k"
      using due_expire [of a "callbacks u" u q] ok(1) Suc.prems(1,3) q a1 by (simp add: idle_def)
    obtain ts1 where ts1: "spec_check k callbacks a1 = (ts1, b)" "ts = u # ts1"
      using Suc.prems(5) by (auto simp: q a1 split: prod.splits)
    have L: "entry_of t a1 = (if u = t then (if repeats a t then [(t, period a t)] else []) else entry_of t a)" "unchanged t a a1"
      using leaves_expire [of "callbacks u" t, where u = u and a = a] Suc.prems(4) a1 by simp_all
    have IH: "count_list ts1 t = (if entry_of t a1 = [(t, 0)] then 1 else 0) \<and>
      entry_of t b = (if entry_of t a1 = [(t, 0)] then (if repeats a1 t then [(t, period a1 t)] else []) else entry_of t a1) \<and>
      unchanged t a1 b"
      by (rule Suc.IH [OF s1 ok(2) d Suc.prems(4) ts1(1)])
    have p: "u = t \<Longrightarrow> 0 < period a t" using Suc.prems(1) q by (simp add: idle_def armed_def)
    show ?thesis
    proof (cases "u = t")
      case True
      have "t \<notin> fst ` set q" using D(2) q True by simp
      then have "filter (\<lambda>x. fst x = t) q = []" by (force simp: filter_empty_conv)
      then have e: "entry_of t a = [(t, 0)]" using q True by (simp add: entry_of_def)
      show ?thesis using IH L p True ts1(2) e by (auto simp: unchanged_def split: if_splits)
    next
      case False
      then show ?thesis using IH L ts1(2) by (simp add: unchanged_def)
    qed
  next
    case False
    then have "spec_check (Suc k) callbacks a = ([], a)" by (auto split: list.split nat.split)
    moreover have "\<forall>x \<in> set (queue a). snd x \<noteq> 0"
    proof (cases "queue a")
      case (Cons x q)
      obtain u n where x: "x = (u, n)" by fastforce
      have "n \<noteq> 0" using False Cons x by auto
      then show ?thesis using D(3) Cons x by auto
    qed simp
    then have "entry_of t a \<noteq> [(t, 0)]" by (auto simp: entry_of_def filter_eq_Cons_iff)
    ultimately show ?thesis using Suc.prems(5) by (simp add: unchanged_def)
  qed
qed

lemma leaves_tick:
  assumes "ready s a" "tick_ok callbacks a" "\<forall>u. \<forall>x \<in> set (callbacks u). leaves_op t x"
    "spec_tick callbacks a = (ts, b)"
  shows "entry_of t a = [] \<Longrightarrow> count_list ts t = 0 \<and> entry_of t b = []"
    "entry_of t a = [(t, n)] \<Longrightarrow> count_list ts t = (if n = 1 then 1 else 0) \<and>
      entry_of t b = (if n = 1 then (if repeats a t then [(t, period a t)] else []) else [(t, n - 1)])"
    "unchanged t a b"
proof -
  obtain a1 where a1: "a1 = a\<lparr>queue := map (\<lambda>(t, n). (t, n - 1)) (queue a)\<rparr>" by blast
  have e: "entry_of t a1 = map (\<lambda>(t, n). (t, n - 1)) (entry_of t a)"
  proof -
    have "filter (\<lambda>x. fst x = t) (map (\<lambda>(t, n). (t, n - 1)) q) = map (\<lambda>(t, n). (t, n - 1)) (filter (\<lambda>x. fst x = t) q)"
      for q :: "(nat \<times> nat) list" by (induction q) auto
    then show ?thesis by (simp add: entry_of_def a1)
  qed
  have u: "unchanged t a a1" by (simp add: a1 unchanged_def)
  have d: "due a1 \<le> length (queue a)"
    by (simp add: a1 due_def order_trans [OF length_filter_le])
  have c: "spec_check (length (queue a)) callbacks a1 = (ts, b)" using assms(4) by (simp add: spec_tick_def a1)
  have i: "idle (s\<lparr>rt_tick := rt_tick s + 1\<rparr>) a1" unfolding a1 by (rule tick_idle [OF assms(1)])
  note L = leaves_check [OF i _ d assms(3) c]
  have ok: "check_ok (length (queue a)) callbacks a1" using assms(2) by (simp add: tick_ok_def a1)
  note L = L [OF ok]
  have z: "n \<noteq> 0" if "entry_of t a = [(t, n)]" for n
  proof -
    have "(t, n) \<in> set (entry_of t a)" using that by simp
    then show ?thesis using assms(1) by (auto simp: entry_of_def ready_def due_def filter_empty_conv)
  qed
  show "entry_of t a = [] \<Longrightarrow> count_list ts t = 0 \<and> entry_of t b = []" using L e by simp
  show "entry_of t a = [(t, n)] \<Longrightarrow> count_list ts t = (if n = 1 then 1 else 0) \<and>
      entry_of t b = (if n = 1 then (if repeats a t then [(t, period a t)] else []) else [(t, n - 1)])"
    using L e u z by (auto simp: unchanged_def)
  show "unchanged t a b" using L u by (simp add: unchanged_def)
qed

text \<open>When a timer with \<open>r\<close> ticks to go expires: at tick \<open>k\<close>, and if it is periodic every \<open>p\<close> ticks after that.\<close>

definition expires_at :: "bool \<Rightarrow> nat \<Rightarrow> nat \<Rightarrow> nat \<Rightarrow> bool" where
  "expires_at rep p r k \<longleftrightarrow> (if rep then r \<le> k \<and> p dvd k - r else k = r)"

lemma leaves_run:
  assumes "ready s a" "run_ok es a" "\<forall>e \<in> set es. leaves t e" "entry_of t a = (if gone then [] else [(t, r)])"
    "gone \<longrightarrow> \<not> repeats a t" "k < length (filter is_tick es)"
  shows "k < length (fst (spec_run es a)) \<and>
    count_list (fst (spec_run es a) ! k) t = (if \<not> gone \<and> expires_at (repeats a t) (period a t) r (Suc k) then 1 else 0)"
  using assms
proof (induction es arbitrary: s a gone r k)
  case (Cons e es)
  show ?case
  proof (cases e)
    case (Call x)
    obtain s1 where s1: "ready s1 (spec_op x a)" using timer_call_rel [OF Cons.prems(1)] Cons.prems(2) Call by auto
    have l: "entry_of t (spec_op x a) = entry_of t a" "unchanged t a (spec_op x a)"
      using leaves_spec_op [of t x a] Cons.prems(3) Call by simp_all
    show ?thesis
      using Cons.IH [OF s1, of gone r k] Cons.prems l Call by (simp add: unchanged_def)
  next
    case (Tick callbacks)
    obtain ts b where b: "spec_tick callbacks a = (ts, b)" by fastforce
    have c: "tick_ok callbacks a" "\<forall>u. \<forall>x \<in> set (callbacks u). leaves_op t x" "run_ok es b"
      using Cons.prems(2,3) Tick b by simp_all
    obtain s1 where s1: "ready s1 b" using timer_tick_rel [OF Cons.prems(1) c(1)] b by auto
    note T = leaves_tick [OF Cons.prems(1) c(1,2) b]
    have u: "period b t = period a t" "repeats b t = repeats a t" using T(3) by (simp_all add: unchanged_def)
    have p: "0 < period a t" if "\<not> gone"
    proof -
      have "(t, r) \<in> set (entry_of t a)" using Cons.prems(4) that by simp
      then show ?thesis using Cons.prems(1) by (force simp: entry_of_def ready_def idle_def armed_def)
    qed
    have run: "fst (spec_run (e # es) a) = ts # fst (spec_run es b)" using Tick b by (simp add: case_prod_beta)
    have r: "0 < r" if "\<not> gone"
    proof -
      have "(t, r) \<in> set (entry_of t a)" using Cons.prems(4) that by simp
      then show ?thesis using Cons.prems(1) by (auto simp: entry_of_def ready_def due_def filter_empty_conv)
    qed
    obtain g2 r2 where g2: "g2 = (gone \<or> (r = 1 \<and> \<not> repeats a t))" "r2 = (if r = 1 then period a t else r - 1)" by blast
    have eb: "entry_of t b = (if g2 then [] else [(t, r2)])" "g2 \<longrightarrow> \<not> repeats b t"
      using T(1,2) Cons.prems(4,5) u g2 by (cases gone; auto)+
    show ?thesis
    proof (cases k)
      case 0
      have "count_list ts t = (if \<not> gone \<and> r = 1 then 1 else 0)" using T(1,2) Cons.prems(4) by (cases gone) auto
      moreover have "expires_at (repeats a t) (period a t) r (Suc 0) \<longleftrightarrow> r = 1" if "\<not> gone"
        using r [OF that] by (auto simp: expires_at_def)
      ultimately show ?thesis using 0 run by auto
    next
      case (Suc j)
      have "j < length (filter is_tick es)" using Cons.prems(6) Suc Tick by simp
      from Cons.IH [OF s1 c(3) _ eb(1,2) this] Cons.prems(3)
      have IH: "j < length (fst (spec_run es b))"
        "count_list (fst (spec_run es b) ! j) t = (if \<not> g2 \<and> expires_at (repeats a t) (period a t) r2 (Suc j) then 1 else 0)"
        using u by simp_all
      have "expires_at (repeats a t) (period a t) r (Suc (Suc j)) \<longleftrightarrow> \<not> g2 \<and> expires_at (repeats a t) (period a t) r2 (Suc j)" if "\<not> gone"
        using r [OF that] p [OF that] that g2 by (auto simp: expires_at_def dvd_minus_self not_less dest: dvd_imp_le)
      then show ?thesis using IH run Suc g2(1) by auto
    qed
  qed
qed simp

lemma run_ok_append: "run_ok (es @ fs) a \<longleftrightarrow> run_ok es a \<and> run_ok fs (snd (spec_run es a))"
proof (induction es arbitrary: a)
  case (Cons e es)
  then show ?case by (cases e) (simp_all add: case_prod_beta)
qed simp

section \<open>A timer that runs with time 0\<close>

text \<open>A periodic timer with time 0 falls due again in the check that runs it.\<close>

definition spinning :: "nat \<Rightarrow> timer_sys \<Rightarrow> bool" where
  "spinning t s \<longleftrightarrow> timer_list s = [t] \<and> temp_list s = [] \<and> init_tick (timers s t) = 0 \<and> periodic (timers s t) \<and>
     activated (timers s t) \<and> rt_tick s - timeout_tick (timers s t) < RT_TICK_MAX div 2"

lemma spinning_expire:
  assumes "spinning t s" shows "\<exists>s'. timer_expire [] t s = Some s' \<and> spinning t s'"
  using assms
  by (simp add: spinning_def timer_expire_def timer_remove_def rt_timer_start_def tick_max Let_def)

lemma spinning_check:
  assumes "rt_timer_check callbacks s = Some r" "callbacks t = []" shows "\<not> spinning t s"
proof (rule rt_timer_check.raw_induct [where P = "\<lambda>c s r. c = callbacks \<longrightarrow> \<not> spinning t s", OF _ assms(1), simplified])
  fix check c s r
  assume IH: "\<And>c s r. check c s = Some r \<Longrightarrow> c = callbacks \<longrightarrow> \<not> spinning t s"
    and body: "(case timer_list s of [] \<Rightarrow> Some ([], s)
     | t # _ \<Rightarrow>
       (if rt_tick s - timeout_tick (timers s t) < RT_TICK_MAX div 2 then do {
          s \<leftarrow> timer_expire (c t) t s;
          (ts, s) \<leftarrow> check c s;
          Some (t # ts, s)
        } else Some ([], s))) = Some r"
  show "c = callbacks \<longrightarrow> \<not> spinning t s"
  proof (intro impI notI)
    assume c: "c = callbacks" and sp: "spinning t s"
    then obtain s' where s': "timer_expire (c t) t s = Some s'" "spinning t s'"
      using spinning_expire assms(2) by auto
    have "timer_list s = [t]" "rt_tick s - timeout_tick (timers s t) < RT_TICK_MAX div 2" using sp by (simp_all add: spinning_def)
    then obtain x where "check c s' = Some x" using body s'(1) by (auto simp: bind_eq_Some_conv)
    with IH s'(2) c show False by blast
  qed
qed

lemma zero_period_hangs:
  assumes "cfg t = (0, True)" "callbacks t = []"
  shows "timer_run (Call (TimerStart t) # Tick callbacks # es) (timers_begin now cfg) = None"
proof -
  obtain s where s: "s = (rt_timer_start t (timers_begin now cfg))\<lparr>rt_tick := now + 1\<rparr>" by blast
  have "now + 1 - now < RT_TICK_MAX div 2" by (simp add: tick_max)
  then have "spinning t s"
    using assms(1) by (simp add: spinning_def s rt_timer_start_def timer_remove_def timers_begin_def timer_init_def Let_def)
  then have "rt_timer_check callbacks s = None" using spinning_check [of callbacks s _ t] assms(2) by (cases "rt_timer_check callbacks s") auto
  moreover have "rt_tick (rt_timer_start t (timers_begin now cfg)) = now"
    by (simp add: rt_timer_start_def timer_remove_def timers_begin_def Let_def)
  ultimately show ?thesis by (simp add: rt_tick_increase_def s)
qed

section \<open>Properties\<close>

text \<open>C27: Take any history of calls and ticks in which no timer runs with time 0 (\<open>run_ok\<close>: when a timer is
  started its time is positive, and it is not set to 0 while the timer runs; every time is below half the
  range of a tick, as the kernel asserts). Whatever threads and call-backs do with timers, and wherever
  the 32-bit tick stands and wraps around, the timers expire at the ticks and in the order of a queue
  that counts the ticks down: by the tick they fall due, timers of the same tick in the order in which
  they were started. The check of every tick ends, and between ticks the list of the code is that queue,
  each timer with its ticks to go. The kernel does not check the condition, and it is needed: a periodic
  timer started with time 0 keeps the check of the next tick from ever ending.\<close>

theorem timer_run_refines:
  assumes "cfg_ok cfg"
  shows "(run_ok es (spec_begin cfg) \<longrightarrow>
      (\<exists>s. timer_run es (timers_begin now cfg) = Some (fst (spec_run es (spec_begin cfg)), s) \<and>
        timers_rel s (snd (spec_run es (spec_begin cfg))))) \<and>
    (cfg t = (0, True) \<and> callbacks t = [] \<longrightarrow>
      timer_run (Call (TimerStart t) # Tick callbacks # es) (timers_begin now cfg) = None)"
proof (intro conjI impI)
  assume "run_ok es (spec_begin cfg)"
  from timer_run_rel [OF begin_ready [OF assms] this, of now]
  show "\<exists>s. timer_run es (timers_begin now cfg) = Some (fst (spec_run es (spec_begin cfg)), s) \<and>
      timers_rel s (snd (spec_run es (spec_begin cfg)))" by (auto simp: ready_def idle_def)
next
  assume "cfg t = (0, True) \<and> callbacks t = []"
  then show "timer_run (Call (TimerStart t) # Tick callbacks # es) (timers_begin now cfg) = None"
    using zero_period_hangs by blast
qed

text \<open>
  Timer 1 is periodic with two ticks, timer 0 begins with time 0 and is set to three ticks before it is
  started, as a thread's timer; the others take three ticks once. The call-back of timer 0 stops timer 1.
\<close>

definition demo_cfg :: "nat \<Rightarrow> u32 \<times> bool" where
  "demo_cfg t = (if t = 0 then 0 else if t = 1 then 2 else 3, t = 1)"

definition demo_calls :: "nat \<Rightarrow> timer_op list" where
  "demo_calls t = (if t = 0 then [TimerStop 1] else [])"

lemma demo_timers_ok: "cfg_ok demo_cfg"
  by (simp add: cfg_ok_def demo_cfg_def tick_max)

theorem timer_run_refines_witness:
  "(\<exists>s. timer_run [Call (TimerSetTime 0 3), Call (TimerStart 0), Call (TimerStart 1), Tick demo_calls, Tick demo_calls, Tick demo_calls,
        Tick demo_calls] (timers_begin 0xFFFFFFFE demo_cfg) = Some ([[], [1], [0], []], s) \<and> timer_list s = []) \<and>
   timer_run [Call (TimerStart 0), Tick (\<lambda>_. [])] (timers_begin 7 (\<lambda>_. (0, True))) = None"
proof -
  let ?es = "[Call (TimerSetTime 0 3), Call (TimerStart 0), Call (TimerStart 1), Tick demo_calls, Tick demo_calls, Tick demo_calls,
        Tick demo_calls]"
  have r: "fst (spec_run ?es (spec_begin demo_cfg)) = [[], [1], [0], []]" "map fst (queue (snd (spec_run ?es (spec_begin demo_cfg)))) = []"
    "run_ok ?es (spec_begin demo_cfg)" by code_simp+
  obtain s where s: "timer_run ?es (timers_begin 0xFFFFFFFE demo_cfg) = Some (fst (spec_run ?es (spec_begin demo_cfg)), s)"
    "timers_rel s (snd (spec_run ?es (spec_begin demo_cfg)))"
    using timer_run_refines [OF demo_timers_ok, of ?es "0xFFFFFFFE"] r(3) by blast
  have "cfg_ok (\<lambda>_. (0, True))" by (simp add: cfg_ok_def tick_max)
  then have "timer_run [Call (TimerStart 0), Tick (\<lambda>_. [])] (timers_begin 7 (\<lambda>_. (0, True))) = None"
    using timer_run_refines [of "\<lambda>_. (0, True)" "[]" 7 0 "\<lambda>_. []"] by simp
  then show ?thesis using s(1) timers_relD(1) [OF s(2)] unfolding r(1,2) by blast
qed

text \<open>C28: A timer is exact, in any history in which no timer runs with time 0. Started with time \<open>n\<close> in
  any reachable state and then left alone, a timer expires exactly once at tick \<open>n\<close> and at no other tick if it is a one-shot timer, and exactly once at every
  multiple of \<open>n\<close> ticks, without drift, if it is periodic, whatever other timers and call-backs do and
  even if the 32-bit tick wraps around.\<close>

theorem timer_on_time:
  assumes "cfg_ok cfg" "run_ok (es0 @ Call (TimerStart t) # es) (spec_begin cfg)" "timer_run es0 (timers_begin now cfg) = Some (log0, s0)"
    "\<forall>e \<in> set es. leaves t e" "n = unat (init_tick (timers s0 t))"
  shows "\<exists>log s. timer_run (Call (TimerStart t) # es) s0 = Some (log, s) \<and>
    (\<forall>k < length (filter is_tick es). k < length log \<and>
      count_list (log ! k) t = (if (if periodic (timers s0 t) then n dvd Suc k else Suc k = n) then 1 else 0))"
proof -
  obtain a where a: "ready s0 a" "run_ok (Call (TimerStart t) # es) a"
    using timer_run_rel [OF begin_ready [OF assms(1)], of es0 now] assms(2,3) by (auto simp: run_ok_append simp del: run_ok.simps(2))
  then have R: "timers_rel s0 a" by (simp add: ready_def idle_def)
  have n: "n = period a t" "periodic (timers s0 t) = repeats a t" "0 < n"
    using timers_relD(5-7) [OF R, of t] assms(5) a(2) by (simp_all add: of_nat_tick)
  obtain s1 where s1: "do_timer (TimerStart t) s0 = Some s1" "ready s1 (spec_start t a)"
    using timer_call_rel [OF a(1), of "TimerStart t"] a(2) by auto
  have ok: "run_ok es (spec_start t a)" using a(2) by simp
  obtain s2 where s2: "timer_run es s1 = Some (fst (spec_run es (spec_start t a)), s2)"
    using timer_run_rel [OF s1(2) ok] by blast
  have m: "expires_at (repeats a t) (period a t) (period a t) (Suc k) \<longleftrightarrow> (if periodic (timers s0 t) then n dvd Suc k else Suc k = n)" for k
    using n by (auto simp: expires_at_def dvd_minus_self dest: dvd_imp_le)
  have "k < length (fst (spec_run es (spec_start t a))) \<and> count_list (fst (spec_run es (spec_start t a)) ! k) t =
      (if (if periodic (timers s0 t) then n dvd Suc k else Suc k = n) then 1 else 0)" if "k < length (filter is_tick es)" for k
    using leaves_run [OF s1(2) ok assms(4), of False "period a t" k] that by (simp add: entry_start m)
  then show ?thesis using s1(1) s2 by auto
qed

theorem timer_on_time_witness:
  "\<exists>log s. timer_run (Call (TimerStart 1) # replicate 5 (Tick (\<lambda>_. []))) (timers_begin 0xFFFFFFFE demo_cfg) = Some (log, s) \<and>
    map (\<lambda>ts. count_list ts 1) (take 5 log) = [0, 1, 0, 1, 0]"
proof -
  let ?es = "replicate 5 (Tick (\<lambda>_. []))"
  have t: "periodic (timers (timers_begin 0xFFFFFFFE demo_cfg) 1)" "unat (init_tick (timers (timers_begin 0xFFFFFFFE demo_cfg) 1)) = 2"
    by (simp_all add: timers_begin_def timer_init_def demo_cfg_def)
  have ok: "run_ok (Call (TimerStart 1) # ?es) (spec_begin demo_cfg)" by code_simp
  obtain log s where l: "timer_run (Call (TimerStart 1) # ?es) (timers_begin 0xFFFFFFFE demo_cfg) = Some (log, s)"
    "\<forall>k < length (filter is_tick ?es). k < length log \<and> count_list (log ! k) 1 = (if 2 dvd Suc k then 1 else 0)"
    using timer_on_time [OF demo_timers_ok, of "[]" 1 ?es "0xFFFFFFFE" "[]" "timers_begin 0xFFFFFFFE demo_cfg" 2] t ok by auto
  have len: "length (filter is_tick ?es) = 5" by (simp add: numeral_eq_Suc)
  have more: "\<forall>k < 5. k < length log" and cnt: "\<forall>k < 5. count_list (log ! k) 1 = (if 2 dvd Suc k then 1 else 0)"
    using l(2) len by auto
  have "length (take 5 log) = 5" using more [rule_format, of 4] by simp
  then have five: "map (\<lambda>ts. count_list ts 1) (take 5 log) = map (\<lambda>k. if 2 dvd Suc k then 1 else 0) [0..<5]"
    by (intro nth_equalityI) (use cnt in simp_all)
  have "map (\<lambda>k. if 2 dvd Suc k then 1 else (0 :: nat)) [0..<5] = [0, 1, 0, 1, 0]" by code_simp
  then show ?thesis using l(1) five by metis
qed

end
