(* ===== verification/Scheduler.thy ===== *)
theory Scheduler
  imports Mailbox
begin

text \<open>
  The scheduler for one processor (\<open>rt-thread/src/scheduler_up.c\<close>, with what \<open>thread.c\<close>, \<open>clock.c\<close> and \<open>kservice.c\<close>
  add): a list of ready threads per priority, a bit map of the priorities with ready threads, the search
  for its lowest bit by a table, and the calls that make threads ready, suspend them, end their time
  slices and change their priorities.
\<close>

section \<open>The lowest bit\<close>

definition lowest_bit_bitmap :: "nat list" where
  "lowest_bit_bitmap =
    [0, 0, 1, 0, 2, 0, 1, 0, 3, 0, 1, 0, 2, 0, 1, 0,
     4, 0, 1, 0, 2, 0, 1, 0, 3, 0, 1, 0, 2, 0, 1, 0,
     5, 0, 1, 0, 2, 0, 1, 0, 3, 0, 1, 0, 2, 0, 1, 0,
     4, 0, 1, 0, 2, 0, 1, 0, 3, 0, 1, 0, 2, 0, 1, 0,
     6, 0, 1, 0, 2, 0, 1, 0, 3, 0, 1, 0, 2, 0, 1, 0,
     4, 0, 1, 0, 2, 0, 1, 0, 3, 0, 1, 0, 2, 0, 1, 0,
     5, 0, 1, 0, 2, 0, 1, 0, 3, 0, 1, 0, 2, 0, 1, 0,
     4, 0, 1, 0, 2, 0, 1, 0, 3, 0, 1, 0, 2, 0, 1, 0,
     7, 0, 1, 0, 2, 0, 1, 0, 3, 0, 1, 0, 2, 0, 1, 0,
     4, 0, 1, 0, 2, 0, 1, 0, 3, 0, 1, 0, 2, 0, 1, 0,
     5, 0, 1, 0, 2, 0, 1, 0, 3, 0, 1, 0, 2, 0, 1, 0,
     4, 0, 1, 0, 2, 0, 1, 0, 3, 0, 1, 0, 2, 0, 1, 0,
     6, 0, 1, 0, 2, 0, 1, 0, 3, 0, 1, 0, 2, 0, 1, 0,
     4, 0, 1, 0, 2, 0, 1, 0, 3, 0, 1, 0, 2, 0, 1, 0,
     5, 0, 1, 0, 2, 0, 1, 0, 3, 0, 1, 0, 2, 0, 1, 0,
     4, 0, 1, 0, 2, 0, 1, 0, 3, 0, 1, 0, 2, 0, 1, 0]"

text \<open>\<open>__rt_ffs\<close>: bits are numbered from 1, and 0 has none.\<close>

definition rt_ffs :: "u32 \<Rightarrow> nat" where
  "rt_ffs value =
    (if value = 0 then 0
     else if value AND 0xff \<noteq> 0 then lowest_bit_bitmap ! unat (value AND 0xff) + 1
     else if value AND 0xff00 \<noteq> 0 then lowest_bit_bitmap ! unat (drop_bit 8 (value AND 0xff00)) + 9
     else if value AND 0xff0000 \<noteq> 0 then lowest_bit_bitmap ! unat (drop_bit 16 (value AND 0xff0000)) + 17
     else lowest_bit_bitmap ! unat (drop_bit 24 (value AND 0xff000000)) + 25)"

definition low_bit :: "u8 \<Rightarrow> nat" where
  "low_bit b = (if bit b 0 then 0 else if bit b 1 then 1 else if bit b 2 then 2 else if bit b 3 then 3
    else if bit b 4 then 4 else if bit b 5 then 5 else if bit b 6 then 6 else if bit b 7 then 7 else 0)"

lemma bitmap_low_bit: "lowest_bit_bitmap ! unat b = low_bit b"
proof (rule map_all_bytes_eq [symmetric])
  show "map low_bit all_bytes = lowest_bit_bitmap"
    unfolding all_bytes_def lowest_bit_bitmap_def list.map by (simp add: low_bit_def bit_numeral_word_iff)
qed

lemma low_bit_lowest:
  assumes "b \<noteq> 0"
  shows "bit b (low_bit b)" "i < low_bit b \<Longrightarrow> \<not> bit b i"
proof -
  have "\<exists>j. bit b j" using assms bit_eq_iff [of b 0] by auto
  then obtain j where "bit b j" "j < 8" using bit_imp_le_length [of b] by auto
  then have "\<exists>j \<in> {0, 1, 2, 3, 4, 5, 6, 7}. bit b j" by (auto simp: less_Suc_eq numeral_eq_Suc)
  then show "bit b (low_bit b)" by (auto simp: low_bit_def)
  show "i < low_bit b \<Longrightarrow> \<not> bit b i"
    by (auto simp: low_bit_def less_Suc_eq numeral_eq_Suc split: if_splits)
qed

text \<open>One byte of a word.\<close>

lemma bit_ff: "bit (0xff :: u32) j \<longleftrightarrow> j < 8"
proof -
  have "(0xff :: u32) = mask 8" by (simp add: mask_eq_exp_minus_1)
  then have "bit (0xff :: u32) j \<longleftrightarrow> bit (mask 8 :: u32) j" by (simp only:)
  also have "\<dots> \<longleftrightarrow> j < 8" unfolding bit_mask_iff possible_bit_word by auto
  finally show ?thesis .
qed

lemma bit_byte:
  assumes "k + 8 \<le> 32"
  shows "bit (w AND push_bit k 0xff :: u32) i \<longleftrightarrow> bit w i \<and> k \<le> i \<and> i < k + 8"
proof -
  have "bit (w AND push_bit k 0xff) i \<longleftrightarrow> bit w i \<and> k \<le> i \<and> i < 32 \<and> i - k < 8"
    by (simp only: bit_and_iff bit_push_bit_iff bit_ff possible_bit_word len_num1 len_num0 len_bit0 len_bit1) auto
  then show ?thesis using assms by auto
qed

lemma byte_lowest:
  fixes w :: u32
  assumes "w AND push_bit k 0xff \<noteq> 0" "k + 8 \<le> 32"
  shows "\<exists>n. lowest_bit_bitmap ! unat (drop_bit k (w AND push_bit k 0xff)) = n \<and> bit w (n + k) \<and> (\<forall>i. k \<le> i \<and> i < n + k \<longrightarrow> \<not> bit w i)"
proof -
  obtain d :: u32 where d: "d = drop_bit k (w AND push_bit k 0xff)" by blast
  obtain b :: u8 where b: "b = ucast d" by blast
  have bits: "bit d i \<longleftrightarrow> i < 8 \<and> bit w (i + k)" for i
  proof -
    have "bit d i = bit (w AND push_bit k 0xff) (k + i)" unfolding d bit_drop_bit_eq by (rule comp_apply)
    then show ?thesis using bit_byte [OF assms(2), of w "k + i"] by (auto simp only: add.commute [of k])
  qed
  have bb: "bit b i \<longleftrightarrow> i < 8 \<and> bit w (i + k)" for i
    by (auto simp: b bit_ucast_iff bits)
  have "d = ucast b" by (rule bit_eqI) (auto simp: bit_ucast_iff bits bb)
  moreover have "unat (ucast b :: u32) = unat b"
    by (simp add: unsigned_ucast_eq take_bit_nat_eq_self less_trans [OF unat_u8_less])
  ultimately have u: "unat d = unat b" by simp
  have "\<exists>j. bit (w AND push_bit k 0xff) j" using assms(1) bit_eq_iff [of "w AND push_bit k 0xff" 0] by auto
  then obtain j where j: "bit w j" "k \<le> j" "j < k + 8" using bit_byte [OF assms(2)] by blast
  then have "bit b (j - k)" by (simp add: bb)
  then have "b \<noteq> 0" by auto
  note L = low_bit_lowest [OF this]
  have "\<not> bit w i" if "k \<le> i" "i < low_bit b + k" for i
  proof -
    have "i - k < low_bit b" using that by simp
    moreover have "low_bit b < 8" using L(1) bb by blast
    ultimately show ?thesis using L(2) [of "i - k"] bb [of "i - k"] that(1) by auto
  qed
  then show ?thesis unfolding d [symmetric] using L(1) bb by (auto simp: u bitmap_low_bit)
qed

lemma rt_ffs_lowest:
  assumes "w \<noteq> 0"
  shows "0 < rt_ffs w" "bit w (rt_ffs w - 1)" "i < rt_ffs w - 1 \<Longrightarrow> \<not> bit w i"
proof -
  have m: "(0xff :: u32) = push_bit 0 0xff" "(0xff00 :: u32) = push_bit 8 0xff" "(0xff0000 :: u32) = push_bit 16 0xff"
    "(0xff000000 :: u32) = push_bit 24 0xff" by simp_all
  have z: "\<not> bit w i" if "w AND push_bit k 0xff = 0" "k \<le> i" "i < k + 8" "k + 8 \<le> 32" for k i
    using bit_byte [OF that(4), of w i] that(1-3) by simp
  consider "w AND push_bit 0 0xff \<noteq> 0"
    | "w AND push_bit 0 0xff = 0" "w AND push_bit 8 0xff \<noteq> 0"
    | "w AND push_bit 0 0xff = 0" "w AND push_bit 8 0xff = 0" "w AND push_bit 16 0xff \<noteq> 0"
    | "w AND push_bit 0 0xff = 0" "w AND push_bit 8 0xff = 0" "w AND push_bit 16 0xff = 0" by blast
  then have "0 < rt_ffs w \<and> bit w (rt_ffs w - 1) \<and> (\<forall>i < rt_ffs w - 1. \<not> bit w i)"
  proof cases
    case 1
    then obtain n where n: "lowest_bit_bitmap ! unat (drop_bit 0 (w AND push_bit 0 0xff)) = n" "bit w n" "\<forall>i. i < n \<longrightarrow> \<not> bit w i"
      using byte_lowest [of w 0] by auto
    then have "rt_ffs w = n + 1" using 1 assms by (simp add: rt_ffs_def)
    then show ?thesis using n by simp
  next
    case 2
    then obtain n where n: "lowest_bit_bitmap ! unat (drop_bit 8 (w AND push_bit 8 0xff)) = n" "bit w (n + 8)"
      "\<forall>i. 8 \<le> i \<and> i < n + 8 \<longrightarrow> \<not> bit w i"
      using byte_lowest [of w 8] by auto
    have r: "rt_ffs w = n + 9" using 2 n(1) assms by (simp add: rt_ffs_def)
    have "\<not> bit w i" if "i < n + 8" for i using n(3) z [OF 2(1), of i] that by (cases "i < 8") auto
    then show ?thesis using n(2) by (simp add: r add.commute)
  next
    case 3
    then obtain n where n: "lowest_bit_bitmap ! unat (drop_bit 16 (w AND push_bit 16 0xff)) = n" "bit w (n + 16)"
      "\<forall>i. 16 \<le> i \<and> i < n + 16 \<longrightarrow> \<not> bit w i"
      using byte_lowest [of w 16] by auto
    have r: "rt_ffs w = n + 17" using 3 n(1) assms by (simp add: rt_ffs_def)
    have "\<not> bit w i" if "i < n + 16" for i
      using n(3) z [OF 3(1), of i] z [OF 3(2), of i] that by (cases "i < 8"; cases "i < 16") auto
    then show ?thesis using n(2) by (simp add: r add.commute)
  next
    case 4
    have "\<exists>j. bit w j" using assms bit_eq_iff [of w 0] by auto
    then obtain j where j: "bit w j" "j < 32" using bit_imp_le_length [of w] by auto
    have "w AND push_bit 24 0xff \<noteq> 0"
    proof
      assume a: "w AND push_bit 24 0xff = 0"
      show False using j z [OF 4(1), of j] z [OF 4(2), of j] z [OF 4(3), of j] z [OF a, of j]
        by (cases "j < 8"; cases "j < 16"; cases "j < 24") auto
    qed
    then obtain n where n: "lowest_bit_bitmap ! unat (drop_bit 24 (w AND push_bit 24 0xff)) = n" "bit w (n + 24)"
      "\<forall>i. 24 \<le> i \<and> i < n + 24 \<longrightarrow> \<not> bit w i"
      using byte_lowest [of w 24] by auto
    have r: "rt_ffs w = n + 25" using 4 n(1) assms by (simp add: rt_ffs_def)
    have "\<not> bit w i" if "i < n + 24" for i
      using n(3) z [OF 4(1), of i] z [OF 4(2), of i] z [OF 4(3), of i] that
      by (cases "i < 8"; cases "i < 16"; cases "i < 24") auto
    then show ?thesis using n(2) by (simp add: r add.commute)
  qed
  then show "0 < rt_ffs w" "bit w (rt_ffs w - 1)" "i < rt_ffs w - 1 \<Longrightarrow> \<not> bit w i" by auto
qed

section \<open>State and operations\<close>

datatype thread_state = RT_THREAD_INIT | RT_THREAD_READY | RT_THREAD_RUNNING | RT_THREAD_SUSPEND

text \<open>
  \<open>stat\<close> is split into the state and the bit \<open>RT_THREAD_STAT_YIELD\<close>. The lock counter is an \<open>rt_int16_t\<close>: 16 bits
  that wrap around, read with their sign where the code compares.
\<close>

record sthread =
  thread_state :: thread_state
  stat_yield :: bool
  prio :: nat
  number_mask :: u32
  slice :: u32
  slice_left :: u32

record scheduler =
  sthreads :: "nat \<Rightarrow> sthread"
  priority_table :: "nat list list"
  ready_group :: u32
  rt_current_thread :: nat
  lock_nest :: "16 word"

definition RT_THREAD_PRIORITY_MAX :: nat where "RT_THREAD_PRIORITY_MAX = 32"

definition upd_thread :: "nat \<Rightarrow> (sthread \<Rightarrow> sthread) \<Rightarrow> scheduler \<Rightarrow> scheduler" where
  "upd_thread t f s = s\<lparr>sthreads := (sthreads s)(t := f (sthreads s t))\<rparr>"

text \<open>\<open>_scheduler_get_highest_priority_thread\<close>; \<open>None\<close>: the head of an empty list is not a thread.\<close>

definition get_highest_priority_thread :: "scheduler \<Rightarrow> (nat \<times> nat) option" where
  "get_highest_priority_thread s = (let p = rt_ffs (ready_group s) - 1 in do {
     q \<leftarrow> rd (priority_table s) p;
     (case q of [] \<Rightarrow> None | t # _ \<Rightarrow> Some (p, t))
   })"

definition rt_schedule_insert_thread :: "nat \<Rightarrow> scheduler \<Rightarrow> scheduler" where
  "rt_schedule_insert_thread t s =
    (if t = rt_current_thread s then upd_thread t (\<lambda>th. th\<lparr>thread_state := RT_THREAD_RUNNING\<rparr>) s
     else (let s = upd_thread t (\<lambda>th. th\<lparr>thread_state := RT_THREAD_READY\<rparr>) s;
               th = sthreads s t; q = priority_table s ! prio th
           in s\<lparr>priority_table := (priority_table s)[prio th := (if stat_yield th then q @ [t] else t # q)],
                ready_group := ready_group s OR number_mask th\<rparr>))"

definition rt_schedule_remove_thread :: "nat \<Rightarrow> scheduler \<Rightarrow> scheduler" where
  "rt_schedule_remove_thread t s =
    (let s = s\<lparr>priority_table := map (removeAll t) (priority_table s)\<rparr>; th = sthreads s t
     in if priority_table s ! prio th = [] then s\<lparr>ready_group := ready_group s AND NOT (number_mask th)\<rparr> else s)"

definition rt_schedule :: "scheduler \<Rightarrow> scheduler option" where
  "rt_schedule s =
    (if lock_nest s = 0 \<and> ready_group s \<noteq> 0 then do {
       (hp, to) \<leftarrow> get_highest_priority_thread s;
       let cur = rt_current_thread s;
       let th = sthreads s cur;
       let runs = (thread_state th = RT_THREAD_RUNNING);
       let keep = (runs \<and> (prio th < hp \<or> prio th = hp \<and> \<not> stat_yield th));
       let s = (if runs then upd_thread cur (\<lambda>th. th\<lparr>stat_yield := False\<rparr>) s else s);
       let to = (if keep then cur else to);
       Some (if to \<noteq> cur
         then (let s = s\<lparr>rt_current_thread := to\<rparr>;
                   s = (if runs then rt_schedule_insert_thread cur s else s);
                   s = rt_schedule_remove_thread to s
               in upd_thread to (\<lambda>th. th\<lparr>thread_state := RT_THREAD_RUNNING\<rparr>) s)
         else upd_thread cur (\<lambda>th. th\<lparr>thread_state := RT_THREAD_RUNNING\<rparr>) (rt_schedule_remove_thread cur s))
     } else Some s)"

text \<open>The part of \<open>rt_thread_resume\<close> and \<open>rt_thread_suspend_with_flag\<close> about the scheduler; only the current thread suspends.\<close>

definition sched_resume :: "nat \<Rightarrow> scheduler \<Rightarrow> rt_err \<times> scheduler" where
  "sched_resume t s =
    (if thread_state (sthreads s t) \<noteq> RT_THREAD_SUSPEND then (RT_ERROR, s) else (RT_EOK, rt_schedule_insert_thread t s))"

definition sched_suspend :: "scheduler \<Rightarrow> rt_err \<times> scheduler" where
  "sched_suspend s = (let t = rt_current_thread s; st = thread_state (sthreads s t) in
     if st \<noteq> RT_THREAD_READY \<and> st \<noteq> RT_THREAD_RUNNING then (RT_ERROR, s)
     else (RT_EOK, upd_thread t (\<lambda>th. th\<lparr>thread_state := RT_THREAD_SUSPEND\<rparr>) (rt_schedule_remove_thread t s)))"

text \<open>\<open>None\<close> is the assertion that the thread has not been started.\<close>

definition rt_thread_startup :: "nat \<Rightarrow> scheduler \<Rightarrow> scheduler option" where
  "rt_thread_startup t s =
    (if thread_state (sthreads s t) \<noteq> RT_THREAD_INIT then None
     else rt_schedule (snd (sched_resume t
       (upd_thread t (\<lambda>th. th\<lparr>number_mask := push_bit (prio th) 1, thread_state := RT_THREAD_SUSPEND\<rparr>) s))))"

definition rt_thread_yield :: "scheduler \<Rightarrow> scheduler option" where
  "rt_thread_yield s =
    rt_schedule (upd_thread (rt_current_thread s) (\<lambda>th. th\<lparr>slice_left := slice th, stat_yield := True\<rparr>) s)"

text \<open>\<open>rt_tick_increase\<close> up to the check of the timers.\<close>

definition sched_tick :: "scheduler \<Rightarrow> scheduler option" where
  "sched_tick s =
    (let t = rt_current_thread s; s = upd_thread t (\<lambda>th. th\<lparr>slice_left := slice_left th - 1\<rparr>) s
     in if slice_left (sthreads s t) = 0
        then rt_schedule (upd_thread t (\<lambda>th. th\<lparr>slice_left := slice th, stat_yield := True\<rparr>) s)
        else Some s)"

text \<open>\<open>rt_thread_control\<close> with \<open>RT_THREAD_CTRL_CHANGE_PRIORITY\<close>.\<close>

definition change_priority :: "nat \<Rightarrow> nat \<Rightarrow> scheduler \<Rightarrow> scheduler" where
  "change_priority t p s =
    (if thread_state (sthreads s t) = RT_THREAD_READY
     then rt_schedule_insert_thread t
       (upd_thread t (\<lambda>th. th\<lparr>prio := p, number_mask := push_bit p 1\<rparr>) (rt_schedule_remove_thread t s))
     else upd_thread t (\<lambda>th. th\<lparr>prio := p, number_mask := push_bit p 1\<rparr>) s)"

definition rt_enter_critical :: "scheduler \<Rightarrow> scheduler" where
  "rt_enter_critical s = s\<lparr>lock_nest := lock_nest s + 1\<rparr>"

definition rt_exit_critical :: "scheduler \<Rightarrow> scheduler option" where
  "rt_exit_critical s =
    (let s = s\<lparr>lock_nest := lock_nest s - 1\<rparr>
     in if sint (lock_nest s) \<le> 0 then rt_schedule (s\<lparr>lock_nest := 0\<rparr>) else Some s)"

section \<open>Ready lists\<close>

text \<open>
  Ready threads, \<open>X\<close> apart, and no others, wait once in the list of their priority; the bits tell which lists
  hold threads. \<open>X\<close> is a thread on its way from or to a list.
\<close>

definition ready_but :: "nat set \<Rightarrow> scheduler \<Rightarrow> bool" where
  "ready_but X s \<longleftrightarrow> length (priority_table s) = 32 \<and>
     (\<forall>p. bit (ready_group s) p \<longleftrightarrow> p < 32 \<and> priority_table s ! p \<noteq> []) \<and>
     (\<forall>p < 32. distinct (priority_table s ! p)) \<and>
     (\<forall>p < 32. \<forall>t. t \<in> set (priority_table s ! p) \<longleftrightarrow> t \<notin> X \<and> thread_state (sthreads s t) = RT_THREAD_READY \<and> prio (sthreads s t) = p) \<and>
     (\<forall>t. prio (sthreads s t) < 32) \<and>
     (\<forall>t. thread_state (sthreads s t) \<noteq> RT_THREAD_INIT \<longrightarrow> number_mask (sthreads s t) = push_bit (prio (sthreads s t)) 1)"

lemma ready_butD:
  assumes "ready_but X s"
  shows "length (priority_table s) = 32" "bit (ready_group s) p \<longleftrightarrow> p < 32 \<and> priority_table s ! p \<noteq> []"
    "p < 32 \<Longrightarrow> distinct (priority_table s ! p)"
    "p < 32 \<Longrightarrow> t \<in> set (priority_table s ! p) \<longleftrightarrow> t \<notin> X \<and> thread_state (sthreads s t) = RT_THREAD_READY \<and> prio (sthreads s t) = p"
    "prio (sthreads s t) < 32"
    "thread_state (sthreads s t) \<noteq> RT_THREAD_INIT \<Longrightarrow> number_mask (sthreads s t) = push_bit (prio (sthreads s t)) 1"
  using assms by (auto simp: ready_but_def)

lemma ready_butI:
  assumes "length (priority_table s) = 32" "\<And>p. bit (ready_group s) p \<longleftrightarrow> p < 32 \<and> priority_table s ! p \<noteq> []"
    "\<And>p. p < 32 \<Longrightarrow> distinct (priority_table s ! p)"
    "\<And>p t. p < 32 \<Longrightarrow> t \<in> set (priority_table s ! p) \<longleftrightarrow> t \<notin> X \<and> thread_state (sthreads s t) = RT_THREAD_READY \<and> prio (sthreads s t) = p"
    "\<And>t. prio (sthreads s t) < 32 \<and>
      (thread_state (sthreads s t) \<noteq> RT_THREAD_INIT \<longrightarrow> number_mask (sthreads s t) = push_bit (prio (sthreads s t)) 1)"
  shows "ready_but X s"
  using assms by (auto simp: ready_but_def)

lemma bit_mask_of:
  assumes "p < 32"
  shows "bit (g OR push_bit p (1 :: u32)) i \<longleftrightarrow> bit g i \<or> i = p" "bit (g AND NOT (push_bit p (1 :: u32))) i \<longleftrightarrow> bit g i \<and> i \<noteq> p"
  using assms bit_imp_le_length [of g i] by (auto simp: bit_simps)

lemma upd_thread_simps [simp]:
  "sthreads (upd_thread t f s) u = (if u = t then f (sthreads s t) else sthreads s u)"
  "priority_table (upd_thread t f s) = priority_table s" "ready_group (upd_thread t f s) = ready_group s"
  "rt_current_thread (upd_thread t f s) = rt_current_thread s" "lock_nest (upd_thread t f s) = lock_nest s"
  by (simp_all add: upd_thread_def)

text \<open>A change of a thread that is on its way, or of what does not matter for the lists.\<close>

lemma ready_upd:
  assumes "ready_but X s" "prio (f (sthreads s t)) < 32"
    "thread_state (f (sthreads s t)) \<noteq> RT_THREAD_INIT \<longrightarrow> number_mask (f (sthreads s t)) = push_bit (prio (f (sthreads s t))) 1"
    "t \<in> X \<or> (thread_state (f (sthreads s t)) = RT_THREAD_READY \<longleftrightarrow> thread_state (sthreads s t) = RT_THREAD_READY) \<and>
      prio (f (sthreads s t)) = prio (sthreads s t)"
  shows "ready_but X (upd_thread t f s)"
  by (rule ready_butI) (use ready_butD [OF assms(1)] assms(2-4) in auto)

lemma ready_back: "ready_but X s \<Longrightarrow> thread_state (sthreads s t) \<noteq> RT_THREAD_READY \<Longrightarrow> ready_but (X - {t}) s"
  by (rule ready_butI) (auto simp: ready_butD)

lemma ready_out: "ready_but X s \<Longrightarrow> thread_state (sthreads s t) \<noteq> RT_THREAD_READY \<Longrightarrow> ready_but (insert t X) s"
  by (rule ready_butI) (auto simp: ready_butD)

lemma ready_current: "ready_but X s \<Longrightarrow> ready_but X (s\<lparr>rt_current_thread := c\<rparr>)"
  by (simp add: ready_but_def)

lemma ready_insert:
  assumes "ready_but X s" "t \<in> X" "t \<noteq> rt_current_thread s" "thread_state (sthreads s t) \<noteq> RT_THREAD_INIT"
  shows "ready_but (X - {t}) (rt_schedule_insert_thread t s)"
proof -
  note D = ready_butD [OF assms(1)]
  let ?p = "prio (sthreads s t)"
  obtain s1 where s1: "s1 = upd_thread t (\<lambda>th. th\<lparr>thread_state := RT_THREAD_READY\<rparr>) s" by blast
  have t1: "sthreads s1 u = (if u = t then (sthreads s t)\<lparr>thread_state := RT_THREAD_READY\<rparr> else sthreads s u)"
    "priority_table s1 = priority_table s" "ready_group s1 = ready_group s" for u by (simp_all add: s1)
  obtain q where q: "q = (if stat_yield (sthreads s t) then priority_table s ! ?p @ [t] else t # priority_table s ! ?p)" by blast
  have e: "rt_schedule_insert_thread t s = s1\<lparr>priority_table := (priority_table s)[?p := q], ready_group := ready_group s OR push_bit ?p 1\<rparr>"
    using assms(3) D(6) [OF assms(4)] by (simp add: rt_schedule_insert_thread_def s1 [symmetric] Let_def t1 q)
  have n: "t \<notin> set (priority_table s ! ?p)" using D(4) [OF D(5)] assms(2) by blast
  show ?thesis unfolding e
  proof (rule ready_butI, goal_cases)
    case 1 show ?case using D(1) by simp
  next
    case (2 p) show ?case using D(1,2) bit_mask_of(1) [OF D(5)] D(5) by (cases "p = ?p") (auto simp: q)
  next
    case (3 p) then show ?case using D(1,3) n by (cases "p = ?p") (auto simp: q)
  next
    case (4 p u) then show ?case using D(1) D(4) [OF 4, of u] assms(2) D(4) [OF D(5), of u t]
      by (cases "p = ?p"; cases "u = t") (auto simp: q t1)
  next
    case (5 u) show ?case using D(5,6) assms(4) by (simp add: t1)
  qed
qed

lemma ready_remove:
  assumes "ready_but X s" "thread_state (sthreads s t) \<noteq> RT_THREAD_INIT"
  shows "ready_but (insert t X) (rt_schedule_remove_thread t s)"
proof -
  note D = ready_butD [OF assms(1)]
  let ?p = "prio (sthreads s t)"
  let ?T = "map (removeAll t) (priority_table s)"
  obtain g where g: "g = (if removeAll t (priority_table s ! ?p) = [] then ready_group s AND NOT (push_bit ?p 1) else ready_group s)" by blast
  have e: "rt_schedule_remove_thread t s = s\<lparr>priority_table := ?T, ready_group := g\<rparr>"
    using D(1) D(5) [of t] D(6) [OF assms(2)] by (simp add: rt_schedule_remove_thread_def Let_def g)
  have o: "removeAll t (priority_table s ! p) = priority_table s ! p" if "p < 32" "p \<noteq> ?p" for p
    using D(4) [OF that(1), of t] that(2) by (auto intro: removeAll_id)
  show ?thesis unfolding e
  proof (rule ready_butI, goal_cases)
    case 1 show ?case using D(1) by simp
  next
    case (2 p)
    show ?case using D(1) D(2) [of p] D(2) [of ?p] bit_mask_of(2) [OF D(5)] D(5) [of t] o [of p]
      by (cases "p = ?p"; cases "p < 32") (auto simp: g)
  next
    case (3 p) then show ?case using D(1,3) by (simp add: distinct_removeAll)
  next
    case (4 p u) then show ?case using D(1) D(4) [OF 4, of u] by auto
  next
    case (5 u) show ?case using D(5,6) by simp
  qed
qed

section \<open>Invariant\<close>

definition sched_ok :: "scheduler \<Rightarrow> bool" where
  "sched_ok s \<longleftrightarrow> ready_but {} s \<and> (\<forall>t. thread_state (sthreads s t) = RT_THREAD_RUNNING \<longrightarrow> t = rt_current_thread s) \<and>
     thread_state (sthreads s (rt_current_thread s)) \<in> {RT_THREAD_RUNNING, RT_THREAD_SUSPEND}"

lemma sched_okI:
  assumes "ready_but {} s" "\<And>t. thread_state (sthreads s t) = RT_THREAD_RUNNING \<Longrightarrow> t = rt_current_thread s"
    "thread_state (sthreads s (rt_current_thread s)) \<in> {RT_THREAD_RUNNING, RT_THREAD_SUSPEND}"
  shows "sched_ok s"
  using assms by (auto simp: sched_ok_def)

lemma sched_okD:
  assumes "sched_ok s"
  shows "ready_but {} s" "thread_state (sthreads s t) = RT_THREAD_RUNNING \<Longrightarrow> t = rt_current_thread s"
    "thread_state (sthreads s (rt_current_thread s)) \<in> {RT_THREAD_RUNNING, RT_THREAD_SUSPEND}"
  using assms by (auto simp: sched_ok_def)

abbreviation is_ready :: "scheduler \<Rightarrow> nat \<Rightarrow> bool" where
  "is_ready s t \<equiv> thread_state (sthreads s t) = RT_THREAD_READY"

abbreviation is_running :: "scheduler \<Rightarrow> nat \<Rightarrow> bool" where
  "is_running s t \<equiv> thread_state (sthreads s t) = RT_THREAD_RUNNING"

lemma get_highest:
  assumes "ready_but {} s" "ready_group s \<noteq> 0"
  shows "\<exists>p t q. get_highest_priority_thread s = Some (p, t) \<and> p < 32 \<and> priority_table s ! p = t # q \<and> is_ready s t \<and>
    prio (sthreads s t) = p \<and> (\<forall>u. is_ready s u \<longrightarrow> p \<le> prio (sthreads s u))"
proof -
  note D = ready_butD [OF assms(1)]
  let ?p = "rt_ffs (ready_group s) - 1"
  have p: "?p < 32" "priority_table s ! ?p \<noteq> []"
    using rt_ffs_lowest(2) [OF assms(2)] D(2) [of ?p] by simp_all
  obtain t q where q: "priority_table s ! ?p = t # q" using p(2) by (cases "priority_table s ! ?p") auto
  have t: "is_ready s t" "prio (sthreads s t) = ?p" using D(4) [OF p(1), of t] q by simp_all
  have "?p \<le> prio (sthreads s u)" if "is_ready s u" for u
  proof (rule ccontr)
    assume "\<not> ?p \<le> prio (sthreads s u)"
    then have "prio (sthreads s u) < ?p" by simp
    then have "\<not> bit (ready_group s) (prio (sthreads s u))" by (rule rt_ffs_lowest(3) [OF assms(2)])
    then show False using D(2) [of "prio (sthreads s u)"] D(4) [OF D(5), of u u] D(5) [of u] that by auto
  qed
  then show ?thesis using p q t D(1) by (auto simp: get_highest_priority_thread_def Let_def rd_def)
qed

lemma no_ready_group:
  assumes "ready_but {} s"
  shows "ready_group s = 0 \<longleftrightarrow> (\<forall>u. \<not> is_ready s u)"
proof
  assume z: "ready_group s = 0"
  show "\<forall>u. \<not> is_ready s u"
  proof
    fix u
    show "\<not> is_ready s u"
      using ready_butD(2) [OF assms, of "prio (sthreads s u)"] ready_butD(4) [OF assms ready_butD(5) [OF assms], of u u]
        ready_butD(5) [OF assms, of u] z by auto
  qed
next
  assume n: "\<forall>u. \<not> is_ready s u"
  show "ready_group s = 0"
  proof (rule ccontr)
    assume "ready_group s \<noteq> 0"
    then show False using get_highest [OF assms] n by blast
  qed
qed

text \<open>What one call of the scheduler does.\<close>

lemma schedule_keep:
  assumes "sched_ok s" "lock_nest s = 0" "is_running s (rt_current_thread s)" "ready_group s \<noteq> 0"
    "get_highest_priority_thread s = Some (hp, to)" "p = prio (sthreads s (rt_current_thread s))"
    "p < hp \<or> p = hp \<and> \<not> stat_yield (sthreads s (rt_current_thread s))"
  shows "rt_schedule s = Some (upd_thread (rt_current_thread s) (\<lambda>th. th\<lparr>thread_state := RT_THREAD_RUNNING\<rparr>)
    (rt_schedule_remove_thread (rt_current_thread s) (upd_thread (rt_current_thread s) (\<lambda>th. th\<lparr>stat_yield := False\<rparr>) s)))"
  using assms(2-7) by (auto simp: rt_schedule_def Let_def)

lemma schedule_switch:
  assumes "lock_nest s = 0" "ready_group s \<noteq> 0" "get_highest_priority_thread s = Some (hp, to)" "to \<noteq> rt_current_thread s"
    "r = is_running s (rt_current_thread s)" "p = prio (sthreads s (rt_current_thread s))"
    "\<not> (r \<and> (p < hp \<or> p = hp \<and> \<not> stat_yield (sthreads s (rt_current_thread s))))"
    "s1 = (if r then rt_schedule_insert_thread (rt_current_thread s)
        ((upd_thread (rt_current_thread s) (\<lambda>th. th\<lparr>stat_yield := False\<rparr>) s)\<lparr>rt_current_thread := to\<rparr>)
      else s\<lparr>rt_current_thread := to\<rparr>)"
  shows "rt_schedule s = Some (upd_thread to (\<lambda>th. th\<lparr>thread_state := RT_THREAD_RUNNING\<rparr>) (rt_schedule_remove_thread to s1))"
  using assms by (auto simp: rt_schedule_def Let_def)

lemma remove_simps [simp]:
  "sthreads (rt_schedule_remove_thread t s) = sthreads s" "rt_current_thread (rt_schedule_remove_thread t s) = rt_current_thread s"
  "lock_nest (rt_schedule_remove_thread t s) = lock_nest s"
  by (simp_all add: rt_schedule_remove_thread_def Let_def)

lemma insert_simps [simp]:
  "sthreads (rt_schedule_insert_thread t s) u = (if u = t then (sthreads s t)\<lparr>thread_state :=
     (if t = rt_current_thread s then RT_THREAD_RUNNING else RT_THREAD_READY)\<rparr> else sthreads s u)"
  "rt_current_thread (rt_schedule_insert_thread t s) = rt_current_thread s"
  "lock_nest (rt_schedule_insert_thread t s) = lock_nest s"
  by (simp_all add: rt_schedule_insert_thread_def Let_def)

text \<open>The thread that runs after a call of the scheduler.\<close>

definition best :: "scheduler \<Rightarrow> bool" where
  "best s \<longleftrightarrow> is_running s (rt_current_thread s) \<and>
     (\<forall>u. is_ready s u \<longrightarrow> prio (sthreads s (rt_current_thread s)) \<le> prio (sthreads s u))"

lemma schedule_ok:
  assumes ok: "sched_ok s"
  shows "\<exists>s'. rt_schedule s = Some s' \<and> sched_ok s' \<and> lock_nest s' = lock_nest s \<and>
    (lock_nest s = 0 \<and> (is_running s (rt_current_thread s) \<or> (\<exists>u. is_ready s u)) \<longrightarrow> best s')"
proof -
  let ?c = "rt_current_thread s"
  have R: "ready_but {} s" and only: "\<And>t. is_running s t \<Longrightarrow> t = ?c" and cs: "thread_state (sthreads s ?c) \<in> {RT_THREAD_RUNNING, RT_THREAD_SUSPEND}"
    using ok by (auto simp: sched_ok_def)
  note D = ready_butD [OF R]
  show ?thesis
  proof (cases "lock_nest s = 0 \<and> ready_group s \<noteq> 0")
    case False
    then have "rt_schedule s = Some s" by (auto simp: rt_schedule_def)
    moreover have "best s" if "lock_nest s = 0" "is_running s ?c \<or> (\<exists>u. is_ready s u)"
      using False that no_ready_group [OF R] by (auto simp: best_def)
    ultimately show ?thesis using ok by auto
  next
    case True
    then obtain p to q where h: "get_highest_priority_thread s = Some (p, to)" "p < 32" "priority_table s ! p = to # q" "is_ready s to"
      "prio (sthreads s to) = p" "\<forall>u. is_ready s u \<longrightarrow> p \<le> prio (sthreads s u)"
      using get_highest [OF R] by blast
    have tc: "to \<noteq> ?c" using h(4) cs by auto
    let ?y = "upd_thread ?c (\<lambda>th. th\<lparr>stat_yield := False\<rparr>) s"
    have Y: "ready_but {} ?y" by (rule ready_upd [OF R]) (use D(5,6) in auto)
    show ?thesis
    proof (cases "is_running s ?c \<and> (prio (sthreads s ?c) < p \<or> prio (sthreads s ?c) = p \<and> \<not> stat_yield (sthreads s ?c))")
      case keep: True
      let ?s' = "upd_thread ?c (\<lambda>th. th\<lparr>thread_state := RT_THREAD_RUNNING\<rparr>) (rt_schedule_remove_thread ?c ?y)"
      have e: "rt_schedule s = Some ?s'" by (rule schedule_keep [OF ok _ _ _ h(1) refl]) (use True keep in auto)
      have "ready_but (insert ?c {}) (rt_schedule_remove_thread ?c ?y)" by (rule ready_remove [OF Y]) (use keep in simp)
      then have "ready_but {?c} ?s'" by (rule ready_upd) (use D(5,6) keep in auto)
      then have "ready_but ({?c} - {?c}) ?s'" by (rule ready_back) simp
      then have "sched_ok ?s'" using only by (auto simp: sched_ok_def split: if_splits)
      moreover have "best ?s'" using h(6) keep by (auto simp: best_def)
      ultimately show ?thesis using e by simp
    next
      case switch: False
      obtain s1 where s1: "s1 = (if is_running s ?c then rt_schedule_insert_thread ?c (?y\<lparr>rt_current_thread := to\<rparr>) else s\<lparr>rt_current_thread := to\<rparr>)" by blast
      let ?s' = "upd_thread to (\<lambda>th. th\<lparr>thread_state := RT_THREAD_RUNNING\<rparr>) (rt_schedule_remove_thread to s1)"
      have e: "rt_schedule s = Some ?s'" by (rule schedule_switch [OF _ _ h(1) tc refl refl switch s1]) (use True in auto)
      have t1: "sthreads s1 u = (if u = ?c \<and> is_running s ?c then (sthreads s ?c)\<lparr>stat_yield := False, thread_state := RT_THREAD_READY\<rparr> else sthreads s u)"
        "rt_current_thread s1 = to" "lock_nest s1 = lock_nest s" for u using tc by (auto simp: s1)
      have "ready_but {} s1"
      proof (cases "is_running s ?c")
        case True
        have "ready_but {?c} (?y\<lparr>rt_current_thread := to\<rparr>)"
          by (rule ready_current, rule ready_out [OF Y]) (use True in simp)
        then have "ready_but ({?c} - {?c}) (rt_schedule_insert_thread ?c (?y\<lparr>rt_current_thread := to\<rparr>))"
          by (rule ready_insert) (use True tc in auto)
        then show ?thesis using True by (simp add: s1)
      next
        case False
        then show ?thesis using ready_current [OF R] by (simp add: s1)
      qed
      then have "ready_but (insert to {}) (rt_schedule_remove_thread to s1)" by (rule ready_remove) (use h(4) tc in \<open>simp add: t1\<close>)
      then have "ready_but {to} ?s'" by (rule ready_upd) (use D(5,6) h(4,5) tc in \<open>auto simp: t1\<close>)
      then have "ready_but ({to} - {to}) ?s'" by (rule ready_back) simp
      then have "sched_ok ?s'" using only by (auto simp: sched_ok_def t1 split: if_splits)
      moreover have "best ?s'" using h(5,6) tc switch by (auto simp: best_def t1 not_less)
      ultimately show ?thesis using e by (simp add: t1)
    qed
  qed
qed

section \<open>Runs\<close>

datatype sched_event = Resume nat | Suspend | Schedule | Yield | SliceTick | ChangePriority nat nat | Lock | Unlock | Startup nat

fun sched_do :: "sched_event \<Rightarrow> scheduler \<Rightarrow> scheduler option" where
  "sched_do (Resume t) s = Some (snd (sched_resume t s))"
| "sched_do Suspend s = Some (snd (sched_suspend s))"
| "sched_do Schedule s = rt_schedule s"
| "sched_do Yield s = rt_thread_yield s"
| "sched_do SliceTick s = sched_tick s"
| "sched_do (ChangePriority t p) s = Some (change_priority t p s)"
| "sched_do Lock s = Some (rt_enter_critical s)"
| "sched_do Unlock s = rt_exit_critical s"
| "sched_do (Startup t) s = rt_thread_startup t s"

fun sched_run :: "sched_event list \<Rightarrow> scheduler \<Rightarrow> scheduler option" where
  "sched_run [] s = Some s"
| "sched_run (e # es) s = do { s \<leftarrow> sched_do e s; sched_run es s }"

fun sched_event_ok :: "sched_event \<Rightarrow> bool" where
  "sched_event_ok (ChangePriority t p) \<longleftrightarrow> p < RT_THREAD_PRIORITY_MAX"
| "sched_event_ok _ \<longleftrightarrow> True"

text \<open>A thread that has been started is started again: the assertion of \<open>rt_thread_startup\<close>.\<close>

fun started_again :: "sched_event \<Rightarrow> scheduler \<Rightarrow> bool" where
  "started_again (Startup t) s \<longleftrightarrow> thread_state (sthreads s t) \<noteq> RT_THREAD_INIT"
| "started_again _ s \<longleftrightarrow> False"

text \<open>The system after its first thread, here thread 0, was switched to; the others have been initialised.\<close>

definition sched_begin :: "(nat \<Rightarrow> nat) \<Rightarrow> (nat \<Rightarrow> u32) \<Rightarrow> scheduler" where
  "sched_begin pr sl = \<lparr>sthreads = (\<lambda>t. \<lparr>thread_state = (if t = 0 then RT_THREAD_RUNNING else RT_THREAD_INIT), stat_yield = False,
      prio = pr t, number_mask = (if t = 0 then push_bit (pr t) 1 else 0), slice = sl t, slice_left = sl t\<rparr>),
    priority_table = replicate RT_THREAD_PRIORITY_MAX [], ready_group = 0, rt_current_thread = 0, lock_nest = 0\<rparr>"

lemma sched_begin_ok: "\<forall>t. pr t < RT_THREAD_PRIORITY_MAX \<Longrightarrow> sched_ok (sched_begin pr sl)"
  by (auto simp: sched_ok_def sched_begin_def RT_THREAD_PRIORITY_MAX_def intro!: ready_butI split: if_splits)

lemma ready_lock: "ready_but X (s\<lparr>lock_nest := n\<rparr>) = ready_but X s"
  by (simp add: ready_but_def)

lemma sched_ok_lock: "sched_ok (s\<lparr>lock_nest := n\<rparr>) = sched_ok s"
  by (simp add: sched_ok_def ready_lock)

lemma sched_ok_upd:
  assumes "sched_ok s" "thread_state (f (sthreads s t)) = thread_state (sthreads s t)" "prio (f (sthreads s t)) = prio (sthreads s t)"
    "number_mask (f (sthreads s t)) = number_mask (sthreads s t)"
  shows "sched_ok (upd_thread t f s)"
proof -
  have R: "ready_but {} s" using assms(1) by (simp add: sched_ok_def)
  have "ready_but {} (upd_thread t f s)" by (rule ready_upd [OF R]) (use ready_butD(5,6) [OF R] assms(2-4) in auto)
  moreover have "thread_state (sthreads (upd_thread t f s) u) = thread_state (sthreads s u)" for u using assms(2) by simp
  ultimately show ?thesis using assms(1) by (simp add: sched_ok_def del: upd_thread_simps(1))
qed

lemma resume_ok:
  assumes "sched_ok s"
  shows "sched_ok (snd (sched_resume t s))"
proof (cases "thread_state (sthreads s t) = RT_THREAD_SUSPEND")
  case True
  have R: "ready_but {} s" using assms by (simp add: sched_ok_def)
  note D = ready_butD [OF R]
  show ?thesis
  proof (cases "t = rt_current_thread s")
    case cur: True
    have "ready_but {} (upd_thread t (\<lambda>th. th\<lparr>thread_state := RT_THREAD_RUNNING\<rparr>) s)"
      by (rule ready_upd [OF R]) (use D(5,6) True in auto)
    then show ?thesis using assms True cur
      by (simp add: sched_resume_def rt_schedule_insert_thread_def sched_ok_def)
  next
    case other: False
    have "ready_but ({t} - {t}) (rt_schedule_insert_thread t s)"
      by (rule ready_insert) (use ready_out [OF R, of t] True other in auto)
    then show ?thesis using assms True other by (auto simp: sched_resume_def sched_ok_def split: if_splits)
  qed
qed (use assms in \<open>simp add: sched_resume_def\<close>)

lemma sched_suspend_ok:
  assumes "sched_ok s"
  shows "sched_ok (snd (sched_suspend s))"
proof (cases "is_running s (rt_current_thread s)")
  case True
  let ?c = "rt_current_thread s"
  have R: "ready_but {} s" using assms by (simp add: sched_ok_def)
  have "ready_but {?c} (rt_schedule_remove_thread ?c s)" using ready_remove [OF R, of ?c] True by simp
  then have "ready_but {?c} (upd_thread ?c (\<lambda>th. th\<lparr>thread_state := RT_THREAD_SUSPEND\<rparr>) (rt_schedule_remove_thread ?c s))"
    by (rule ready_upd) (use ready_butD(5,6) [OF R] True in auto)
  then have "ready_but ({?c} - {?c}) (upd_thread ?c (\<lambda>th. th\<lparr>thread_state := RT_THREAD_SUSPEND\<rparr>) (rt_schedule_remove_thread ?c s))"
    by (rule ready_back) simp
  then have "sched_ok (upd_thread ?c (\<lambda>th. th\<lparr>thread_state := RT_THREAD_SUSPEND\<rparr>) (rt_schedule_remove_thread ?c s))"
    by (intro sched_okI) (use sched_okD(2) [OF assms] in \<open>auto split: if_splits\<close>)
  then show ?thesis using True by (simp add: sched_suspend_def Let_def)
next
  case False
  then have "thread_state (sthreads s (rt_current_thread s)) = RT_THREAD_SUSPEND" using assms by (auto simp: sched_ok_def)
  then show ?thesis using assms by (simp add: sched_suspend_def)
qed

lemma change_priority_ok:
  assumes "sched_ok s" "p < 32"
  shows "sched_ok (change_priority t p s)"
proof -
  have R: "ready_but {} s" using assms by (simp add: sched_ok_def)
  note D = ready_butD [OF R]
  let ?f = "\<lambda>th. th\<lparr>prio := p, number_mask := push_bit p 1\<rparr>"
  show ?thesis
  proof (cases "is_ready s t")
    case True
    have c: "t \<noteq> rt_current_thread s" using True sched_okD(3) [OF assms(1)] by auto
    have "ready_but {t} (rt_schedule_remove_thread t s)" using ready_remove [OF R, of t] True by simp
    then have "ready_but {t} (upd_thread t ?f (rt_schedule_remove_thread t s))" by (rule ready_upd) (use assms(2) in auto)
    then have "ready_but ({t} - {t}) (rt_schedule_insert_thread t (upd_thread t ?f (rt_schedule_remove_thread t s)))"
      by (rule ready_insert) (use True c in auto)
    then have "sched_ok (rt_schedule_insert_thread t (upd_thread t ?f (rt_schedule_remove_thread t s)))"
      by (intro sched_okI) (use sched_okD(2,3) [OF assms(1)] c in \<open>auto split: if_splits\<close>)
    then show ?thesis using True by (simp add: change_priority_def)
  next
    case False
    have "ready_but {t} (upd_thread t ?f s)" by (rule ready_upd [OF ready_out [OF R False]]) (use assms(2) in auto)
    then have "ready_but ({t} - {t}) (upd_thread t ?f s)" by (rule ready_back) (use False in simp)
    then have "sched_ok (upd_thread t ?f s)"
      by (intro sched_okI) (use sched_okD(2,3) [OF assms(1)] in \<open>auto split: if_splits\<close>)
    then show ?thesis using False by (simp add: change_priority_def)
  qed
qed

lemma startup_ok:
  assumes "sched_ok s" "thread_state (sthreads s t) = RT_THREAD_INIT"
  shows "sched_ok (upd_thread t (\<lambda>th. th\<lparr>number_mask := push_bit (prio th) 1, thread_state := RT_THREAD_SUSPEND\<rparr>) s)"
proof -
  have R: "ready_but {} s" using assms by (simp add: sched_ok_def)
  have "ready_but {} (upd_thread t (\<lambda>th. th\<lparr>number_mask := push_bit (prio th) 1, thread_state := RT_THREAD_SUSPEND\<rparr>) s)"
    by (rule ready_upd [OF R]) (use ready_butD(5) [OF R] assms(2) in auto)
  then show ?thesis using assms by (auto simp: sched_ok_def)
qed

lemma sched_do_ok:
  assumes "sched_ok s" "sched_event_ok e"
  shows "sched_do e s = Some s' \<Longrightarrow> sched_ok s'" "sched_do e s = None \<longleftrightarrow> started_again e s"
proof -
  have S: "\<exists>s'. rt_schedule s1 = Some s' \<and> sched_ok s'" if "sched_ok s1" for s1 using schedule_ok [OF that] by blast
  have "if started_again e s then sched_do e s = None else \<exists>s'. sched_do e s = Some s' \<and> sched_ok s'"
  proof (cases e)
    case (Startup t)
    show ?thesis
    proof (cases "thread_state (sthreads s t) = RT_THREAD_INIT")
      case True
      show ?thesis using S [OF resume_ok [OF startup_ok [OF assms(1) True], of t]] True Startup
        by (simp add: rt_thread_startup_def)
    qed (use Startup in \<open>simp add: rt_thread_startup_def\<close>)
  next
    case Yield
    have "sched_ok (upd_thread (rt_current_thread s) (\<lambda>th. th\<lparr>slice_left := slice th, stat_yield := True\<rparr>) s)"
      by (rule sched_ok_upd [OF assms(1)]) simp_all
    from S [OF this] show ?thesis using Yield by (simp add: rt_thread_yield_def)
  next
    case SliceTick
    let ?t = "rt_current_thread s"
    let ?s = "upd_thread ?t (\<lambda>th. th\<lparr>slice_left := slice_left th - 1\<rparr>) s"
    have 1: "sched_ok ?s" by (rule sched_ok_upd [OF assms(1)]) simp_all
    have "sched_ok (upd_thread ?t (\<lambda>th. th\<lparr>slice_left := slice th, stat_yield := True\<rparr>) ?s)"
      by (rule sched_ok_upd [OF 1]) simp_all
    from S [OF this] 1 show ?thesis using SliceTick by (simp add: sched_tick_def Let_def)
  next
    case Unlock
    then show ?thesis using S [of "s\<lparr>lock_nest := 0\<rparr>"] assms(1) by (simp add: rt_exit_critical_def sched_ok_lock Let_def)
  next
    case (ChangePriority t p)
    then show ?thesis using change_priority_ok [OF assms(1), of p t] assms(2) by (simp add: RT_THREAD_PRIORITY_MAX_def)
  qed (use assms S [OF assms(1)] in \<open>simp_all add: resume_ok sched_suspend_ok rt_enter_critical_def sched_ok_lock\<close>)
  then show "sched_do e s = Some s' \<Longrightarrow> sched_ok s'" "sched_do e s = None \<longleftrightarrow> started_again e s"
    by (auto split: if_splits)
qed

lemma sched_run_ok:
  "sched_run es s = Some s' \<Longrightarrow> sched_ok s \<Longrightarrow> \<forall>e \<in> set es. sched_event_ok e \<Longrightarrow> sched_ok s'"
proof (induction es arbitrary: s)
  case (Cons e es)
  then obtain s1 where "sched_do e s = Some s1" "sched_run es s1 = Some s'" by (auto split: bind_splits)
  then show ?case using Cons.IH [of s1] Cons.prems(2,3) sched_do_ok(1) [of s e s1] by simp
qed simp

section \<open>Time slices\<close>

text \<open>Thread \<open>a\<close> runs, \<open>b\<close> is the first of the other ready threads \<open>b # cs\<close> of its priority, no thread is more urgent.\<close>

definition duo :: "nat \<Rightarrow> nat list \<Rightarrow> nat \<Rightarrow> nat \<Rightarrow> scheduler \<Rightarrow> bool" where
  "duo p cs a b s \<longleftrightarrow> sched_ok s \<and> lock_nest s = 0 \<and> rt_current_thread s = a \<and> prio (sthreads s a) = p \<and>
     priority_table s ! p = b # cs \<and> best s"

lemma duo_switch:
  assumes d: "duo p cs a b s" and y: "stat_yield (sthreads s a)"
  shows "\<exists>s'. rt_schedule s = Some s' \<and> duo p cs b a s'"
proof -
  have ok: "sched_ok s" and l: "lock_nest s = 0" and a: "rt_current_thread s = a" "prio (sthreads s a) = p"
    and q: "priority_table s ! p = b # cs" and best: "best s"
    using d by (simp_all add: duo_def)
  have run: "is_running s a" and le: "\<And>u. is_ready s u \<Longrightarrow> p \<le> prio (sthreads s u)"
    using best [unfolded best_def a] by blast+
  have R: "ready_but {} s" by (rule sched_okD(1) [OF ok])
  note D = ready_butD [OF R]
  have p: "p < 32" using D(5) [of a] a by simp
  have b: "is_ready s b" "prio (sthreads s b) = p" using D(4) [OF p, of b] q by simp_all
  have g: "ready_group s \<noteq> 0" using no_ready_group [OF R] b(1) by blast
  obtain p' t q' where h: "get_highest_priority_thread s = Some (p', t)" "priority_table s ! p' = t # q'" "is_ready s t" "prio (sthreads s t) = p'"
    "\<forall>u. is_ready s u \<longrightarrow> p' \<le> prio (sthreads s u)" using get_highest [OF R g] by blast
  have "p' \<le> p" using h(5) [rule_format, OF b(1)] b(2) by simp
  moreover have "p \<le> p'" using le [OF h(3)] h(4) by simp
  ultimately have e: "p' = p" by simp
  then have e': "t = b" using h(2) q by simp
  have ba: "b \<noteq> a" using b(1) run by auto
  obtain s1 where s1: "s1 = (if is_running s (rt_current_thread s) then rt_schedule_insert_thread (rt_current_thread s)
      ((upd_thread (rt_current_thread s) (\<lambda>th. th\<lparr>stat_yield := False\<rparr>) s)\<lparr>rt_current_thread := b\<rparr>)
    else s\<lparr>rt_current_thread := b\<rparr>)" by blast
  have sch: "rt_schedule s = Some (upd_thread b (\<lambda>th. th\<lparr>thread_state := RT_THREAD_RUNNING\<rparr>) (rt_schedule_remove_thread b s1))"
    by (rule schedule_switch [OF l g h(1) [unfolded e e'] _ refl refl _ s1]) (use ba a y in simp_all)
  have "priority_table s1 ! p = a # b # cs"
    using run a ba q p D(1) by (simp add: s1 rt_schedule_insert_thread_def Let_def)
  moreover have "length (priority_table s1) = 32"
    using run a ba D(1) by (simp add: s1 rt_schedule_insert_thread_def Let_def)
  moreover have "removeAll b cs = cs" using D(3) [OF p] q by (auto intro: removeAll_id)
  ultimately have tab: "priority_table (rt_schedule_remove_thread b s1) ! p = a # cs"
    using p ba by (simp add: rt_schedule_remove_thread_def Let_def)
  obtain s' where s': "rt_schedule s = Some s'" "sched_ok s'" "lock_nest s' = 0" "best s'"
    using schedule_ok [OF ok] l run a by metis
  have n: "s' = upd_thread b (\<lambda>th. th\<lparr>thread_state := RT_THREAD_RUNNING\<rparr>) (rt_schedule_remove_thread b s1)" using sch s'(1) by simp
  have "rt_current_thread s' = b" "prio (sthreads s' b) = p" "priority_table s' ! p = a # cs"
    using tab b(2) ba a run by (simp_all add: n s1)
  then show ?thesis using s' by (simp add: duo_def)
qed

lemma duo_upd:
  assumes "duo p cs a b s" "\<And>th. thread_state (f th) = thread_state th \<and> prio (f th) = prio th \<and> number_mask (f th) = number_mask th"
  shows "duo p cs a b (upd_thread a f s)"
  using assms sched_ok_upd [of s f a] by (auto simp: duo_def best_def)

lemma duo_event:
  assumes "duo p cs a b s" "e = Yield \<or> e = SliceTick"
  shows "\<exists>s'. sched_do e s = Some s' \<and> (duo p cs a b s' \<and> e = SliceTick \<or> duo p cs b a s')"
proof -
  have a: "rt_current_thread s = a" using assms(1) by (simp add: duo_def)
  show ?thesis
  proof (cases "e = Yield")
    case True
    have "duo p cs a b (upd_thread a (\<lambda>th. th\<lparr>slice_left := slice th, stat_yield := True\<rparr>) s)"
      by (rule duo_upd [OF assms(1)]) simp
    from duo_switch [OF this] show ?thesis using True a by (auto simp: rt_thread_yield_def)
  next
    case False
    let ?s = "upd_thread a (\<lambda>th. th\<lparr>slice_left := slice_left th - 1\<rparr>) s"
    have 1: "duo p cs a b ?s" by (rule duo_upd [OF assms(1)]) simp
    have "duo p cs a b (upd_thread a (\<lambda>th. th\<lparr>slice_left := slice th, stat_yield := True\<rparr>) ?s)" by (rule duo_upd [OF 1]) simp
    from duo_switch [OF this] show ?thesis using 1 False assms(2) a by (auto simp: sched_tick_def Let_def)
  qed
qed

lemma duo_run:
  assumes "duo p cs a b s" "\<forall>e \<in> set es. e = Yield \<or> e = SliceTick"
  shows "\<exists>s'. sched_run es s = Some s' \<and> (duo p cs a b s' \<or> duo p cs b a s')"
  using assms
proof (induction es arbitrary: s a b)
  case (Cons e es)
  obtain s1 where s1: "sched_do e s = Some s1" "duo p cs a b s1 \<or> duo p cs b a s1"
    using duo_event [OF Cons.prems(1), of e] Cons.prems(2) by auto
  then show ?case using Cons.IH [of a b s1] Cons.IH [of b a s1] Cons.prems(2) by auto
qed auto

section \<open>Properties\<close>

text \<open>
  The lock counter counts the nesting of the locks up to 32767. One lock more makes it negative, and after
  two more the next unlock takes the sum for unlocked and schedules, though all but one are still held.
\<close>

lemma locks_count: "sched_run (replicate n Lock) s = Some (s\<lparr>lock_nest := lock_nest s + of_nat n\<rparr>)"
  by (induction n arbitrary: s) (simp_all add: rt_enter_critical_def algebra_simps)

lemma lock_overflow:
  assumes "lock_nest s = 0"
  shows "sched_run (replicate 32769 Lock @ [Unlock]) s = rt_schedule (s\<lparr>lock_nest := 0\<rparr>)"
proof -
  have app: "sched_run (xs @ ys) z = sched_run xs z \<bind> sched_run ys" for xs ys z
    by (induction xs arbitrary: z) (auto split: bind_splits)
  have tail: "x \<bind> sched_run [] = x" for x :: "scheduler option" by (cases x) simp_all
  have "sched_run [Unlock] (s\<lparr>lock_nest := lock_nest s + of_nat 32769\<rparr>) = rt_schedule (s\<lparr>lock_nest := 0\<rparr>)"
    using assms by (simp add: rt_exit_critical_def Let_def tail)
  then show ?thesis unfolding app locks_count bind.simps .
qed

text \<open>C29: The scheduler runs the most urgent thread. After any history of threads starting, suspending,
  resuming, yielding, using up their time slices, changing priorities and locking and unlocking the
  scheduler, in which no started thread is started again, the bit map and the ready lists are consistent
  (every ready thread waits exactly once, in the list of its priority); no call, a start included, takes
  a thread from an empty list: the only call that fails is the start of a started thread, on its
  assertion; and a scheduling with the lock counter at 0 leaves a running thread that no ready thread is
  more urgent than. The counter wraps around at 16 bits; the statement holds whatever it has come to.\<close>

theorem sched_highest:
  assumes "\<forall>t. pr t < RT_THREAD_PRIORITY_MAX" "\<forall>e \<in> set es. sched_event_ok e" "sched_run es (sched_begin pr sl) = Some s"
  shows "sched_ok s \<and>
    (\<forall>e. sched_event_ok e \<longrightarrow>
       (sched_do e s = None \<longleftrightarrow> (\<exists>t. e = Startup t \<and> thread_state (sthreads s t) \<noteq> RT_THREAD_INIT))) \<and>
    (\<exists>s'. rt_schedule s = Some s' \<and>
      (lock_nest s = 0 \<and> (is_running s (rt_current_thread s) \<or> (\<exists>t. is_ready s t)) \<longrightarrow>
       is_running s' (rt_current_thread s') \<and>
       (\<forall>t. is_ready s' t \<longrightarrow> prio (sthreads s' (rt_current_thread s')) \<le> prio (sthreads s' t))))"
proof -
  have ok: "sched_ok s" by (rule sched_run_ok [OF assms(3) sched_begin_ok [OF assms(1)] assms(2)])
  have "started_again e s \<longleftrightarrow> (\<exists>t. e = Startup t \<and> thread_state (sthreads s t) \<noteq> RT_THREAD_INIT)" for e
    by (cases e) simp_all
  then have "sched_event_ok e \<Longrightarrow> sched_do e s = None \<longleftrightarrow> (\<exists>t. e = Startup t \<and> thread_state (sthreads s t) \<noteq> RT_THREAD_INIT)" for e
    using sched_do_ok(2) [OF ok, of e] by simp
  then show ?thesis using ok schedule_ok [OF ok] by (fastforce simp: best_def)
qed

text \<open>Thread 0 at priority 10 starts three threads of priority 15 and suspends itself.\<close>

definition demo_prio :: "nat \<Rightarrow> nat" where "demo_prio t = (if t = 0 then 10 else 15)"

definition demo_events :: "sched_event list" where
  "demo_events = [Startup 1, Startup 2, Startup 3, Suspend, Schedule]"

lemma demo_run:
  "map_option (\<lambda>s. (rt_current_thread s, lock_nest s, priority_table s, thread_state (sthreads s 3), prio (sthreads s 3), prio (sthreads s 2)))
     (sched_run demo_events (sched_begin demo_prio (\<lambda>_. 5))) =
   Some (3, 0, (replicate 32 [])[15 := [2, 1]], RT_THREAD_RUNNING, 15, 15)"
  by code_simp

theorem sched_highest_witness:
  "\<exists>s. sched_run demo_events (sched_begin demo_prio (\<lambda>_. 5)) = Some s \<and> sched_ok s \<and> rt_current_thread s = 3"
proof -
  obtain s where s: "sched_run demo_events (sched_begin demo_prio (\<lambda>_. 5)) = Some s" "rt_current_thread s = 3"
    using demo_run by auto
  have "sched_ok s"
    using sched_highest [OF _ _ s(1)] by (simp add: demo_prio_def demo_events_def RT_THREAD_PRIORITY_MAX_def)
  then show ?thesis using s by blast
qed

text \<open>C30: Time slices are not shared among more than two threads. When a thread yields or its slice ends and
  several threads of its priority are ready, the first of them runs next, but the thread that gave way
  goes to the front of their list, because its yield mark is cleared before it is put there: from then
  on these two alternate, and the other ready threads of that priority keep their place and never run,
  however often the running threads yield and however many slices pass.\<close>

theorem slices_starve:
  assumes "sched_ok s" "lock_nest s = 0" "rt_current_thread s = a" "is_running s a" "priority_table s ! prio (sthreads s a) = b # cs"
    "\<forall>t. is_ready s t \<longrightarrow> prio (sthreads s a) \<le> prio (sthreads s t)" "\<forall>e \<in> set es. e = Yield \<or> e = SliceTick"
  shows "\<exists>s'. sched_run es s = Some s' \<and> rt_current_thread s' \<in> {a, b} \<and>
    priority_table s' ! prio (sthreads s a) = (if rt_current_thread s' = a then b else a) # cs \<and> (\<forall>c \<in> set cs. is_ready s' c)"
proof -
  let ?p = "prio (sthreads s a)"
  have "duo ?p cs a b s" using assms(1-6) by (simp add: duo_def best_def)
  from duo_run [OF this assms(7)] obtain s' where s': "sched_run es s = Some s'" "duo ?p cs a b s' \<or> duo ?p cs b a s'" by blast
  have R: "ready_but {} s" "ready_but {} s'" using assms(1) s'(2) sched_okD(1) by (auto simp: duo_def)
  have p: "?p < 32" by (rule ready_butD(5) [OF R(1)])
  have "a \<noteq> b" using ready_butD(4) [OF R(1) p, of b] assms(4,5) by auto
  moreover have "is_ready s' c" if "c \<in> set cs" for c
    using ready_butD(4) [OF R(2) p, of c] that s'(2) by (auto simp: duo_def)
  ultimately show ?thesis using s' by (auto simp: duo_def)
qed

theorem slices_starve_witness:
  "\<exists>s. sched_run (demo_events @ replicate 100 Yield @ replicate 1000 SliceTick) (sched_begin demo_prio (\<lambda>_. 5)) = Some s \<and>
     rt_current_thread s \<in> {3, 2} \<and> is_ready s 1"
proof -
  let ?es = "replicate 100 Yield @ replicate 1000 SliceTick"
  obtain s where s: "sched_run demo_events (sched_begin demo_prio (\<lambda>_. 5)) = Some s" "rt_current_thread s = 3" "lock_nest s = 0"
    "priority_table s = (replicate 32 [])[15 := [2, 1]]" "is_running s 3" "prio (sthreads s 3) = 15"
    using demo_run by auto
  have ok: "sched_ok s"
    by (rule sched_run_ok [OF s(1) sched_begin_ok]) (simp_all add: demo_prio_def demo_events_def RT_THREAD_PRIORITY_MAX_def)
  have "prio (sthreads s t) = 15" if "is_ready s t" for t
    using ready_butD(4) [OF sched_okD(1) [OF ok] ready_butD(5) [OF sched_okD(1) [OF ok]], of t t] that
      ready_butD(5) [OF sched_okD(1) [OF ok], of t] by (auto simp: s(4) nth_list_update split: if_splits)
  then obtain s' where s': "sched_run ?es s = Some s'" "rt_current_thread s' \<in> {3, 2}" "is_ready s' 1"
    using slices_starve [OF ok s(3,2,5), of 2 "[1]" ?es] s(4,6) by auto
  have app: "sched_run (xs @ ys) z = sched_run xs z \<bind> sched_run ys" for xs ys z
    by (induction xs arbitrary: z) (auto split: bind_splits)
  show ?thesis using s' s(1) by (simp add: app [of demo_events])
qed

end
