(* ===== verification/Simulation.thy ===== *)
theory Simulation
  imports Prelude
begin

text \<open>
  Forward simulation of operations that may fail and return results by a specification whose operations do not fail,
  for callers that keep to its rules: proved for one operation, it holds for every history.
\<close>

fun run_impl :: "('e \<Rightarrow> 's \<Rightarrow> ('r \<times> 's) option) \<Rightarrow> 'e list \<Rightarrow> 's \<Rightarrow> ('r list \<times> 's) option" where
  "run_impl f [] s = Some ([], s)"
| "run_impl f (e # es) s = do {
     (r, s) \<leftarrow> f e s;
     (rs, s) \<leftarrow> run_impl f es s;
     Some (r # rs, s)
   }"

fun run_spec :: "('e \<Rightarrow> 'b \<Rightarrow> 'r \<times> 'b) \<Rightarrow> 'e list \<Rightarrow> 'b \<Rightarrow> 'r list \<times> 'b" where
  "run_spec g [] b = ([], b)"
| "run_spec g (e # es) b = (let (r, b) = g e b; (rs, b) = run_spec g es b in (r # rs, b))"

fun all_ok :: "('e \<Rightarrow> 'b \<Rightarrow> 'r \<times> 'b) \<Rightarrow> ('e \<Rightarrow> 'b \<Rightarrow> bool) \<Rightarrow> 'e list \<Rightarrow> 'b \<Rightarrow> bool" where
  "all_ok g ok [] b = True"
| "all_ok g ok (e # es) b = (ok e b \<and> all_ok g ok es (snd (g e b)))"

lemma run_impl_append: "run_impl f (es @ fs) s = do { (rs, s) \<leftarrow> run_impl f es s; (qs, s) \<leftarrow> run_impl f fs s; Some (rs @ qs, s) }"
  by (induction es arbitrary: s) (auto split: bind_splits prod.splits)

lemma run_spec_append: "run_spec g (es @ fs) b = (let (rs, b) = run_spec g es b; (qs, b) = run_spec g fs b in (rs @ qs, b))"
  by (induction es arbitrary: b) (auto split: prod.splits)

lemma all_ok_append: "all_ok g ok (es @ fs) b \<longleftrightarrow> all_ok g ok es b \<and> all_ok g ok fs (snd (run_spec g es b))"
  by (induction es arbitrary: b) (auto split: prod.splits)

lemma all_ok_conj: "all_ok g (\<lambda>e b. ok e b \<and> P e) es b \<longleftrightarrow> all_ok g ok es b \<and> (\<forall>e \<in> set es. P e)"
  by (induction es arbitrary: b) auto

locale simulation =
  fixes rel :: "'s \<Rightarrow> 'b \<Rightarrow> bool" and impl :: "'e \<Rightarrow> 's \<Rightarrow> ('r \<times> 's) option"
    and spec :: "'e \<Rightarrow> 'b \<Rightarrow> 'r \<times> 'b" and ok :: "'e \<Rightarrow> 'b \<Rightarrow> bool"
  assumes step: "rel s b \<Longrightarrow> ok e b \<Longrightarrow> \<exists>s'. impl e s = Some (fst (spec e b), s') \<and> rel s' (snd (spec e b))"
begin

lemma run:
  "rel s b \<Longrightarrow> all_ok spec ok es b \<Longrightarrow>
   \<exists>s'. run_impl impl es s = Some (fst (run_spec spec es b), s') \<and> rel s' (snd (run_spec spec es b))"
proof (induction es arbitrary: s b)
  case (Cons e es)
  obtain r b1 where b1: "spec e b = (r, b1)" by fastforce
  obtain s1 where s1: "impl e s = Some (r, s1)" "rel s1 b1" using step [OF Cons.prems(1), of e] Cons.prems(2) b1 by auto
  obtain s' where "run_impl impl es s1 = Some (fst (run_spec spec es b1), s')" "rel s' (snd (run_spec spec es b1))"
    using Cons.IH [OF s1(2)] Cons.prems(2) b1 by auto
  then show ?case using s1(1) b1 by (auto split: prod.splits)
qed simp

end

end
