(* ===== verification/SmallMem.thy ===== *)
theory SmallMem
  imports Simulation
begin

text \<open>
  The heap of the kernel (\<open>rt-thread/src/mem.c\<close>, and its callers in \<open>rt-thread/src/kservice.c\<close>). A block is a header of 12 bytes,
  padded to 16, and its data; the headers form a doubly linked list over the whole heap in the order of the
  addresses and live in the same bytes as the data of the clients. Offsets count from \<open>heap_ptr\<close>; a user's
  pointer is the offset of the data, and the null pointer is \<open>None\<close>.
\<close>

section \<open>Bytes\<close>

type_synonym bytes = "nat \<Rightarrow> u8"

definition get32 :: "bytes \<Rightarrow> nat \<Rightarrow> u32" where
  "get32 b a = ucast (b a) OR push_bit 8 (ucast (b (a + 1))) OR push_bit 16 (ucast (b (a + 2))) OR push_bit 24 (ucast (b (a + 3)))"

definition put32 :: "nat \<Rightarrow> u32 \<Rightarrow> bytes \<Rightarrow> bytes" where
  "put32 a w b = b(a := ucast w, a + 1 := ucast (drop_bit 8 w), a + 2 := ucast (drop_bit 16 w), a + 3 := ucast (drop_bit 24 w))"

lemma get_put32 [simp]: "get32 (put32 a w b) a = w"
proof (rule bit_word_eqI)
  fix n assume "n < LENGTH(32)"
  then show "bit (get32 (put32 a w b) a) n = bit w n"
    by (cases "24 \<le> n"; cases "16 \<le> n"; cases "8 \<le> n") (auto simp: get32_def put32_def bit_simps)
qed

lemma get32_cong:
  assumes "\<And>i. i < 4 \<Longrightarrow> b (a + i) = b' (a + i)"
  shows "get32 b a = get32 b' a"
  using assms [of 0] assms [of 1] assms [of 2] assms [of 3] by (simp add: get32_def)

lemma put32_other: "c < a \<or> a + 4 \<le> c \<Longrightarrow> put32 a w b c = b c"
  by (auto simp: put32_def)

lemma get_put32_other: "c + 4 \<le> a \<or> a + 4 \<le> c \<Longrightarrow> get32 (put32 a w b) c = get32 b c"
  by (rule get32_cong) (auto simp: put32_other)

section \<open>Operations\<close>

text \<open>The header is 12 bytes, without \<open>RT_USING_MEMTRACE\<close>; \<open>sub\<close> is a difference that does not wrap.\<close>

definition RT_ALIGN_SIZE :: nat where "RT_ALIGN_SIZE = 8"

definition MIN_SIZE :: nat where "MIN_SIZE = 12"

definition MIN_SIZE_ALIGNED :: nat where "MIN_SIZE_ALIGNED = 16"

definition SIZEOF_STRUCT_MEM :: nat where "SIZEOF_STRUCT_MEM = 16"

definition RT_ALIGN :: "u32 \<Rightarrow> u32" where
  "RT_ALIGN n = (n + 8 - 1) AND NOT (8 - 1)"

definition sub :: "nat \<Rightarrow> nat \<Rightarrow> nat option" where
  "sub a b = (if b \<le> a then Some (a - b) else None)"

text \<open>\<open>small_mem\<close> is the address of the structure itself, which the headers of its blocks carry.\<close>

record rt_small_mem =
  mem_bytes :: bytes
  small_mem :: u32
  heap_ptr :: nat
  heap_end :: nat
  lfree :: nat
  mem_size_aligned :: nat
  mem_used :: nat
  mem_max :: nat

definition MEM_MASK :: u32 where "MEM_MASK = NOT 0 - 1"

definition MEM_USED :: "rt_small_mem \<Rightarrow> u32" where
  "MEM_USED s = (small_mem s AND MEM_MASK) OR 1"

definition MEM_FREED :: "rt_small_mem \<Rightarrow> u32" where
  "MEM_FREED s = (small_mem s AND MEM_MASK) OR 0"

definition item_pool :: "rt_small_mem \<Rightarrow> nat \<Rightarrow> u32" where "item_pool s p = get32 (mem_bytes s) p"

definition item_next :: "rt_small_mem \<Rightarrow> nat \<Rightarrow> nat" where "item_next s p = unat (get32 (mem_bytes s) (p + 4))"

definition item_prev :: "rt_small_mem \<Rightarrow> nat \<Rightarrow> nat" where "item_prev s p = unat (get32 (mem_bytes s) (p + 8))"

definition set_pool :: "nat \<Rightarrow> u32 \<Rightarrow> rt_small_mem \<Rightarrow> rt_small_mem" where
  "set_pool p w s = s\<lparr>mem_bytes := put32 p w (mem_bytes s)\<rparr>"

definition set_next :: "nat \<Rightarrow> nat \<Rightarrow> rt_small_mem \<Rightarrow> rt_small_mem" where
  "set_next p n s = s\<lparr>mem_bytes := put32 (p + 4) (of_nat n) (mem_bytes s)\<rparr>"

definition set_prev :: "nat \<Rightarrow> nat \<Rightarrow> rt_small_mem \<Rightarrow> rt_small_mem" where
  "set_prev p n s = s\<lparr>mem_bytes := put32 (p + 8) (of_nat n) (mem_bytes s)\<rparr>"

definition MEM_ISUSED :: "rt_small_mem \<Rightarrow> nat \<Rightarrow> bool" where
  "MEM_ISUSED s p = (item_pool s p AND NOT MEM_MASK \<noteq> 0)"

definition MEM_POOL :: "rt_small_mem \<Rightarrow> nat \<Rightarrow> u32" where
  "MEM_POOL s p = item_pool s p AND MEM_MASK"

definition plug_forward :: "nat \<Rightarrow> rt_small_mem \<Rightarrow> rt_small_mem" where
  "plug_forward p s = (let nmem = item_next s p in
     if p \<noteq> nmem \<and> \<not> MEM_ISUSED s nmem \<and> nmem \<noteq> heap_end s
     then (let s = (if lfree s = nmem then s\<lparr>lfree := p\<rparr> else s);
               s = set_pool nmem 0 s;
               s = set_next p (item_next s nmem) s
           in set_prev (item_next s nmem) p s)
     else s)"

definition plug_backward :: "nat \<Rightarrow> rt_small_mem \<Rightarrow> rt_small_mem" where
  "plug_backward p s = (let pmem = item_prev s p in
     if pmem \<noteq> p \<and> \<not> MEM_ISUSED s pmem
     then (let s = (if lfree s = p then s\<lparr>lfree := pmem\<rparr> else s);
               s = set_pool p 0 s;
               s = set_next pmem (item_next s p) s
           in set_prev (item_next s p) pmem s)
     else s)"

definition plug_holes :: "nat \<Rightarrow> rt_small_mem \<Rightarrow> rt_small_mem option" where
  "plug_holes p s = (if p < heap_end s then Some (plug_backward p (plug_forward p s)) else None)"

definition rt_smem_init :: "bytes \<Rightarrow> nat \<Rightarrow> nat \<Rightarrow> rt_small_mem option" where
  "rt_smem_init b begin_addr n =
    (let sm = (begin_addr + 7) div 8 * 8;
         start_addr = sm + 56;
         begin_align = (start_addr + 7) div 8 * 8;
         end_align = (begin_addr + n) div 8 * 8
     in if end_align > 2 * SIZEOF_STRUCT_MEM \<and> end_align - 2 * SIZEOF_STRUCT_MEM \<ge> start_addr
        then do {
          l \<leftarrow> sub end_align begin_align;
          m \<leftarrow> sub l (2 * SIZEOF_STRUCT_MEM);
          let s = \<lparr>mem_bytes = b, small_mem = of_nat sm, heap_ptr = begin_align, heap_end = 0, lfree = 0,
            mem_size_aligned = m, mem_used = 0, mem_max = 0\<rparr>;
          let s = set_prev 0 0 (set_next 0 (m + SIZEOF_STRUCT_MEM) (set_pool 0 (MEM_FREED s) s));
          let e = item_next s 0;
          let s = s\<lparr>heap_end := e\<rparr>;
          Some (set_prev e (m + SIZEOF_STRUCT_MEM) (set_next e (m + SIZEOF_STRUCT_MEM) (set_pool e (MEM_USED s) s)))
        } else None)"

definition rt_system_heap_init :: "bytes \<Rightarrow> nat \<Rightarrow> nat \<Rightarrow> rt_small_mem option" where
  "rt_system_heap_init b begin_addr end_addr =
    (let begin_align = (begin_addr + 7) div 8 * 8; end_align = end_addr div 8 * 8
     in if end_align > begin_align then rt_smem_init b begin_addr (end_align - begin_align) else None)"

text \<open>The first free block of at least \<open>n\<close> bytes from \<open>p\<close> on, and the first free block at all.\<close>

partial_function (option) smem_find :: "rt_small_mem \<Rightarrow> nat \<Rightarrow> nat \<Rightarrow> nat option option" where
  "smem_find s n p = do {
     last \<leftarrow> sub (mem_size_aligned s) n;
     if p \<le> last
     then if \<not> MEM_ISUSED s p
       then do {
         l \<leftarrow> sub (item_next s p) (p + SIZEOF_STRUCT_MEM);
         if l \<ge> n then Some (Some p) else smem_find s n (item_next s p)
       }
       else smem_find s n (item_next s p)
     else Some None
   }"

partial_function (option) smem_lowest :: "rt_small_mem \<Rightarrow> nat \<Rightarrow> nat option" where
  "smem_lowest s p = (if MEM_ISUSED s p \<and> p \<noteq> heap_end s then smem_lowest s (item_next s p) else Some p)"

definition smem_account :: "nat \<Rightarrow> rt_small_mem \<Rightarrow> rt_small_mem" where
  "smem_account n s = (let s = s\<lparr>mem_used := mem_used s + n\<rparr>
     in if mem_max s < mem_used s then s\<lparr>mem_max := mem_used s\<rparr> else s)"

text \<open>A new header at \<open>ptr2\<close> behind \<open>ptr\<close>, of a free block that takes the rest.\<close>

definition smem_split :: "nat \<Rightarrow> nat \<Rightarrow> rt_small_mem \<Rightarrow> rt_small_mem" where
  "smem_split ptr ptr2 s =
    (let s = set_prev ptr2 ptr (set_next ptr2 (item_next s ptr) (set_pool ptr2 (MEM_FREED s) s));
         s = set_next ptr ptr2 s
     in if item_next s ptr2 \<noteq> mem_size_aligned s + SIZEOF_STRUCT_MEM then set_prev (item_next s ptr2) ptr2 s else s)"

definition smem_take :: "nat \<Rightarrow> nat \<Rightarrow> rt_small_mem \<Rightarrow> (nat \<times> rt_small_mem) option" where
  "smem_take n ptr s = do {
     l \<leftarrow> sub (item_next s ptr) (ptr + SIZEOF_STRUCT_MEM);
     let s = (if l \<ge> n + SIZEOF_STRUCT_MEM + MIN_SIZE_ALIGNED
       then smem_account (n + SIZEOF_STRUCT_MEM) (smem_split ptr (ptr + SIZEOF_STRUCT_MEM + n) s)
       else smem_account (item_next s ptr - ptr) s);
     let s = set_pool ptr (MEM_USED s) s;
     s \<leftarrow> (if ptr = lfree s then do {
         f \<leftarrow> smem_lowest s (lfree s);
         if f = heap_end s \<or> \<not> MEM_ISUSED s f then Some (s\<lparr>lfree := f\<rparr>) else None
       } else Some s);
     if ptr + SIZEOF_STRUCT_MEM + n \<le> heap_end s \<and> (heap_ptr s + ptr + SIZEOF_STRUCT_MEM) mod RT_ALIGN_SIZE = 0
     then Some (ptr + SIZEOF_STRUCT_MEM, s) else None
   }"

definition rt_smem_alloc :: "u32 \<Rightarrow> rt_small_mem \<Rightarrow> (nat option \<times> rt_small_mem) option" where
  "rt_smem_alloc n s =
    (if n = 0 then Some (None, s)
     else (let n = unat (RT_ALIGN n); n = (if n < MIN_SIZE_ALIGNED then MIN_SIZE_ALIGNED else n) in
       if n > mem_size_aligned s then Some (None, s)
       else do {
         f \<leftarrow> smem_find s n (lfree s);
         (case f of None \<Rightarrow> Some (None, s)
          | Some ptr \<Rightarrow> do { (r, s) \<leftarrow> smem_take n ptr s; Some (Some r, s) })
       }))"

definition rt_smem_free :: "nat option \<Rightarrow> rt_small_mem \<Rightarrow> rt_small_mem option" where
  "rt_smem_free rmem s = (case rmem of None \<Rightarrow> Some s
   | Some r \<Rightarrow> do {
       mem \<leftarrow> sub r SIZEOF_STRUCT_MEM;
       if (heap_ptr s + r) mod RT_ALIGN_SIZE = 0 \<and> MEM_POOL s mem = small_mem s \<and> MEM_ISUSED s mem \<and> r < heap_end s \<and>
          MEM_POOL s (item_next s mem) = small_mem s
       then do {
         let s = set_pool mem (MEM_FREED s) s;
         let s = (if mem < lfree s then s\<lparr>lfree := mem\<rparr> else s);
         n \<leftarrow> sub (item_next s mem) mem;
         u \<leftarrow> sub (mem_used s) n;
         plug_holes mem (s\<lparr>mem_used := u\<rparr>)
       } else None
     })"

definition rt_memcpy :: "nat \<Rightarrow> nat \<Rightarrow> nat \<Rightarrow> bytes \<Rightarrow> bytes" where
  "rt_memcpy dst src n b = (\<lambda>a. if dst \<le> a \<and> a < dst + n then b (src + (a - dst)) else b a)"

definition rt_smem_realloc :: "nat option \<Rightarrow> u32 \<Rightarrow> rt_small_mem \<Rightarrow> (nat option \<times> rt_small_mem) option" where
  "rt_smem_realloc rmem newsize s =
    (let n = unat (RT_ALIGN newsize) in
     if n > mem_size_aligned s then Some (None, s)
     else if n = 0 then do { s \<leftarrow> rt_smem_free rmem s; Some (None, s) }
     else (case rmem of None \<Rightarrow> rt_smem_alloc (RT_ALIGN newsize) s
     | Some r \<Rightarrow>
       if (heap_ptr s + r) mod RT_ALIGN_SIZE = 0 \<and> r < heap_end s then do {
         ptr \<leftarrow> sub r SIZEOF_STRUCT_MEM;
         l \<leftarrow> sub (item_next s ptr) (ptr + SIZEOF_STRUCT_MEM);
         if l = n then Some (Some r, s)
         else if n + SIZEOF_STRUCT_MEM + MIN_SIZE < l then do {
           u \<leftarrow> sub (mem_used s) (l - n);
           let ptr2 = ptr + SIZEOF_STRUCT_MEM + n;
           let s = smem_split ptr ptr2 (s\<lparr>mem_used := u\<rparr>);
           let s = (if ptr2 < lfree s then s\<lparr>lfree := ptr2\<rparr> else s);
           s \<leftarrow> plug_holes ptr2 s;
           Some (Some r, s)
         }
         else do {
           (nmem, s) \<leftarrow> rt_smem_alloc (RT_ALIGN newsize) s;
           (case nmem of None \<Rightarrow> Some (None, s)
            | Some d \<Rightarrow> do {
                s \<leftarrow> rt_smem_free (Some r) (s\<lparr>mem_bytes := rt_memcpy d r (if l < n then l else n) (mem_bytes s)\<rparr>);
                Some (Some d, s)
              })
         }
       } else None))"

text \<open>\<open>rt_malloc\<close>, \<open>rt_free\<close> and \<open>rt_realloc\<close> are these under a lock; \<open>rt_calloc\<close> multiplies in 32 bits.\<close>

definition rt_calloc :: "u32 \<Rightarrow> u32 \<Rightarrow> rt_small_mem \<Rightarrow> (nat option \<times> rt_small_mem) option" where
  "rt_calloc count n s = do {
     (p, s) \<leftarrow> rt_smem_alloc (count * n) s;
     (case p of None \<Rightarrow> Some (None, s)
      | Some r \<Rightarrow> Some (Some r, s\<lparr>mem_bytes := (\<lambda>a. if r \<le> a \<and> a < r + unat (count * n) then 0 else mem_bytes s a)\<rparr>))
   }"

section \<open>Blocks\<close>

text \<open>The heap as the list of its blocks, in use or free, with their sizes, headers included.\<close>

type_synonym blocks = "(bool \<times> nat) list"

definition total :: "blocks \<Rightarrow> nat" where "total bs = sum_list (map snd bs)"

fun live :: "nat \<Rightarrow> blocks \<Rightarrow> (nat \<times> nat) list" where
  "live p [] = []"
| "live p ((u, l) # bs) = (if u then (p + 16, l - 16) # live (p + l) bs else live (p + l) bs)"

fun live_byte :: "nat \<Rightarrow> blocks \<Rightarrow> nat \<Rightarrow> bool" where
  "live_byte p [] a = False"
| "live_byte p ((u, l) # bs) a = ((u \<and> p + 16 \<le> a \<and> a < p + l) \<or> live_byte (p + l) bs a)"

fun lowest :: "nat \<Rightarrow> blocks \<Rightarrow> nat" where
  "lowest p [] = p"
| "lowest p ((u, l) # bs) = (if u then lowest (p + l) bs else p)"

fun in_use :: "blocks \<Rightarrow> nat" where
  "in_use [] = 0"
| "in_use ((u, l) # bs) = (if u then l + in_use bs else in_use bs)"

fun last_start :: "nat \<Rightarrow> nat \<Rightarrow> blocks \<Rightarrow> nat" where
  "last_start q p [] = q"
| "last_start q p ((u, l) # bs) = last_start p (p + l) bs"

definition blocks_ok :: "blocks \<Rightarrow> bool" where
  "blocks_ok bs \<longleftrightarrow> (\<forall>(u, l) \<in> set bs. 16 \<le> l \<and> 8 dvd l \<and> (u \<longrightarrow> 24 \<le> l))"

fun linked :: "u32 \<Rightarrow> bytes \<Rightarrow> nat \<Rightarrow> nat \<Rightarrow> blocks \<Rightarrow> bool" where
  "linked w b q p [] = True"
| "linked w b q p ((u, l) # bs) =
    (get32 b p = (if u then w OR 1 else w) \<and> unat (get32 b (p + 4)) = p + l \<and> unat (get32 b (p + 8)) = q \<and> linked w b p (p + l) bs)"

lemma total_simps [simp]: "total [] = 0" "total ((u, l) # bs) = l + total bs" "total (xs @ ys) = total xs + total ys"
  by (simp_all add: total_def)

lemma blocks_ok_simps [simp]: "blocks_ok []" "blocks_ok ((u, l) # bs) \<longleftrightarrow> 16 \<le> l \<and> 8 dvd l \<and> (u \<longrightarrow> 24 \<le> l) \<and> blocks_ok bs"
  "blocks_ok (xs @ ys) \<longleftrightarrow> blocks_ok xs \<and> blocks_ok ys"
  by (auto simp: blocks_ok_def)

lemma live_byte_append: "live_byte p (xs @ ys) a \<longleftrightarrow> live_byte p xs a \<or> live_byte (p + total xs) ys a"
  by (induction p xs a rule: live_byte.induct) (auto simp: add.assoc)

lemma live_byte_bounds: "live_byte p bs a \<Longrightarrow> blocks_ok bs \<Longrightarrow> p + 16 \<le> a \<and> a < p + total bs"
  by (induction p bs a rule: live_byte.induct) auto

lemma live_append: "live p (xs @ ys) = live p xs @ live (p + total xs) ys"
  by (induction p xs rule: live.induct) (auto simp: add.assoc)

lemma live_byte_iff: "live_byte p bs a \<longleftrightarrow> (\<exists>(r, n) \<in> set (live p bs). r \<le> a \<and> a < r + n)"
  by (induction p bs a rule: live_byte.induct) auto

lemma live_bounds: "(r, n) \<in> set (live p bs) \<Longrightarrow> blocks_ok bs \<Longrightarrow> p + 16 \<le> r \<and> r + n \<le> p + total bs \<and> 8 \<le> n"
  by (induction p bs rule: live.induct) (auto split: if_splits)

lemma lowest_append: "lowest p (xs @ ys) = (if \<forall>x \<in> set xs. fst x then lowest (p + total xs) ys else lowest p xs)"
  by (induction p xs rule: lowest.induct) (auto simp: add.assoc)

lemma in_use_append [simp]: "in_use (xs @ ys) = in_use xs + in_use ys"
  by (induction xs rule: in_use.induct) auto

lemma linked_append: "linked w b q p (xs @ ys) \<longleftrightarrow> linked w b q p xs \<and> linked w b (last_start q p xs) (p + total xs) ys"
  by (induction w b q p xs rule: linked.induct) (auto simp: add.assoc)

lemma last_start_snoc [simp]: "last_start q p (xs @ [x]) = p + total xs"
  by (induction q p xs rule: last_start.induct) (cases x; auto)+

lemma last_start_le: "last_start q p xs \<le> max q (p + total xs)"
  by (induction q p xs rule: last_start.induct) auto

text \<open>The links depend on the headers only.\<close>

fun header_byte :: "nat \<Rightarrow> blocks \<Rightarrow> nat \<Rightarrow> bool" where
  "header_byte p [] a = False"
| "header_byte p ((u, l) # bs) a = (p \<le> a \<and> a < p + 12 \<or> header_byte (p + l) bs a)"

lemma header_byte_bounds: "header_byte p bs a \<Longrightarrow> blocks_ok bs \<Longrightarrow> p \<le> a \<and> a < p + total bs"
  by (induction p bs a rule: header_byte.induct) auto

lemma header_not_live: "header_byte p bs a \<Longrightarrow> blocks_ok bs \<Longrightarrow> \<not> live_byte p bs a"
proof (induction p bs a rule: header_byte.induct)
  case (2 p u l bs a)
  then show ?case using live_byte_bounds [of "p + l" bs a] header_byte_bounds [of "p + l" bs a] by auto
qed simp

lemma linked_cong:
  "linked w b q p bs \<Longrightarrow> (\<And>a. header_byte p bs a \<Longrightarrow> b' a = b a) \<Longrightarrow> linked w b' q p bs"
proof (induction w b q p bs rule: linked.induct)
  case (2 w b q p u l bs)
  have "get32 b' (p + k) = get32 b (p + k)" if "k \<le> 8" for k
    by (rule get32_cong) (rule 2(3), use that in auto)
  from this [of 0] this [of 4] this [of 8] show ?case using 2 by auto
qed simp

lemma linked_outside:
  assumes "linked w b q p bs" "blocks_ok bs" "\<And>a. p \<le> a \<Longrightarrow> a < p + total bs \<Longrightarrow> b' a = b a"
  shows "linked w b' q p bs"
  by (rule linked_cong [OF assms(1)]) (use header_byte_bounds [OF _ assms(2)] assms(3) in auto)

lemma linked_prev:
  assumes "linked w b q p bs" "blocks_ok bs" "q' < 2 ^ 32"
  shows "linked w (put32 (p + 8) (of_nat q') b) q' p bs"
proof (cases bs)
  case (Cons x ys)
  obtain u l where x: "x = (u, l)" by (cases x)
  have "linked w (put32 (p + 8) (of_nat q') b) p (p + l) ys"
    by (rule linked_outside [of w b]) (use assms Cons x in \<open>auto simp: put32_other\<close>)
  then show ?thesis using assms Cons x by (simp add: get_put32_other take_bit_nat_eq_self unat_of_nat)
qed simp

section \<open>Representation\<close>

definition heap_rep :: "rt_small_mem \<Rightarrow> blocks \<Rightarrow> bool" where
  "heap_rep s bs \<longleftrightarrow> linked (small_mem s) (mem_bytes s) 0 0 bs \<and> blocks_ok bs \<and> total bs = mem_size_aligned s + 16 \<and>
     heap_end s = total bs \<and> total bs + 16 < 2 ^ 32 \<and> get32 (mem_bytes s) (total bs) = small_mem s OR 1 \<and>
     small_mem s AND 1 = 0 \<and> 8 dvd heap_ptr s"

text \<open>Bytes that are not the allocator's: the data of blocks in use, and what lies behind the heap.\<close>

definition client :: "blocks \<Rightarrow> nat \<Rightarrow> bool" where
  "client bs a \<longleftrightarrow> live_byte 0 bs a \<or> total bs + 16 \<le> a"

definition keeps :: "blocks \<Rightarrow> rt_small_mem \<Rightarrow> rt_small_mem \<Rightarrow> bool" where
  "keeps bs s s' \<longleftrightarrow> (\<forall>a. client bs a \<longrightarrow> mem_bytes s' a = mem_bytes s a)"

lemma mem_mask: "MEM_MASK = NOT 1"
  by (simp add: MEM_MASK_def)

lemma pool_words:
  fixes w :: u32
  assumes "w AND 1 = 0"
  shows "w AND MEM_MASK = w" "(w OR 1) AND MEM_MASK = w" "w AND NOT MEM_MASK = 0" "(w OR 1) AND NOT MEM_MASK = 1"
proof -
  have e: "\<not> bit w 0" using assms by (simp add: and_one_eq even_iff_mod_2_eq_zero [symmetric] bit_0)
  show "w AND MEM_MASK = w" "(w OR 1) AND MEM_MASK = w" "w AND NOT MEM_MASK = 0" "(w OR 1) AND NOT MEM_MASK = 1"
    by (rule bit_word_eqI; use e in \<open>auto simp: mem_mask bit_simps bit_1_iff elim: contrapos_np\<close>)+
qed

lemma heap_repD:
  assumes "heap_rep s bs"
  shows "linked (small_mem s) (mem_bytes s) 0 0 bs" "blocks_ok bs" "total bs = mem_size_aligned s + 16" "heap_end s = total bs"
    "total bs + 16 < 2 ^ 32" "get32 (mem_bytes s) (total bs) = small_mem s OR 1" "small_mem s AND 1 = 0" "8 dvd heap_ptr s"
  using assms [unfolded heap_rep_def] by blast+

lemma rep_block:
  assumes "heap_rep s (xs @ (u, l) # ys)" "p = total xs"
  shows "item_next s p = p + l" "item_prev s p = last_start 0 0 xs" "MEM_ISUSED s p = u" "MEM_POOL s p = small_mem s"
    "p + l \<le> heap_end s" "16 \<le> l" "p < heap_end s"
proof -
  note D = heap_repD [OF assms(1)]
  show "16 \<le> l" "p + l \<le> heap_end s" using D(2,4) assms(2) by auto
  then show "p < heap_end s" by simp
  show "item_next s p = p + l" "item_prev s p = last_start 0 0 xs" "MEM_ISUSED s p = u" "MEM_POOL s p = small_mem s"
    using D(1) assms(2) pool_words [OF D(7)]
    by (auto simp: linked_append item_next_def item_prev_def MEM_ISUSED_def MEM_POOL_def item_pool_def)
qed

lemma rep_end:
  assumes "heap_rep s bs"
  shows "MEM_ISUSED s (heap_end s)" "MEM_POOL s (heap_end s) = small_mem s"
  using heap_repD [OF assms] pool_words [of "small_mem s"] by (simp_all add: MEM_ISUSED_def MEM_POOL_def item_pool_def)

lemma blocks_dvd: "blocks_ok bs \<Longrightarrow> 8 dvd total bs"
  by (induction bs) auto

lemma set_simps [simp]:
  "small_mem (set_pool p w s) = small_mem s" "heap_ptr (set_pool p w s) = heap_ptr s" "heap_end (set_pool p w s) = heap_end s"
  "lfree (set_pool p w s) = lfree s" "mem_size_aligned (set_pool p w s) = mem_size_aligned s" "mem_used (set_pool p w s) = mem_used s"
  "mem_max (set_pool p w s) = mem_max s"
  "small_mem (set_next p n s) = small_mem s" "heap_ptr (set_next p n s) = heap_ptr s" "heap_end (set_next p n s) = heap_end s"
  "lfree (set_next p n s) = lfree s" "mem_size_aligned (set_next p n s) = mem_size_aligned s" "mem_used (set_next p n s) = mem_used s"
  "mem_max (set_next p n s) = mem_max s"
  "small_mem (set_prev p n s) = small_mem s" "heap_ptr (set_prev p n s) = heap_ptr s" "heap_end (set_prev p n s) = heap_end s"
  "lfree (set_prev p n s) = lfree s" "mem_size_aligned (set_prev p n s) = mem_size_aligned s" "mem_used (set_prev p n s) = mem_used s"
  "mem_max (set_prev p n s) = mem_max s"
  by (simp_all add: set_pool_def set_next_def set_prev_def)

lemma set_bytes [simp]:
  "mem_bytes (set_pool p w s) = put32 p w (mem_bytes s)" "mem_bytes (set_next p n s) = put32 (p + 4) (of_nat n) (mem_bytes s)"
  "mem_bytes (set_prev p n s) = put32 (p + 8) (of_nat n) (mem_bytes s)"
  by (simp_all add: set_pool_def set_next_def set_prev_def)

text \<open>A block is marked, split or joined with the next one.\<close>

lemma rep_mark:
  assumes "heap_rep s (xs @ (u, l) # ys)" "p = total xs" "v \<longrightarrow> 24 \<le> l"
  shows "heap_rep (set_pool p (if v then MEM_USED s else MEM_FREED s) s) (xs @ (v, l) # ys)"
    "keeps (xs @ (v, l) # ys) s (set_pool p (if v then MEM_USED s else MEM_FREED s) s)"
proof -
  note D = heap_repD [OF assms(1)]
  let ?w = "if v then MEM_USED s else MEM_FREED s" and ?b = "mem_bytes s"
  let ?b' = "put32 p ?w ?b"
  have ok: "blocks_ok xs" "blocks_ok ys" "16 \<le> l" "8 dvd l" using D(2) by simp_all
  have w: "?w = (if v then small_mem s OR 1 else small_mem s)" using pool_words [OF D(7)] by (simp add: MEM_USED_def MEM_FREED_def)
  have L: "linked (small_mem s) ?b 0 0 xs" "linked (small_mem s) ?b p (p + l) ys" "unat (get32 ?b (p + 4)) = p + l"
    "unat (get32 ?b (p + 8)) = last_start 0 0 xs"
    using D(1) assms(2) by (auto simp: linked_append)
  have "linked (small_mem s) ?b' 0 0 xs" by (rule linked_outside [OF L(1) ok(1)]) (use assms(2) in \<open>auto simp: put32_other\<close>)
  moreover have "linked (small_mem s) ?b' p (p + l) ys" by (rule linked_outside [OF L(2) ok(2)]) (use ok in \<open>auto simp: put32_other\<close>)
  ultimately have "linked (small_mem s) ?b' 0 0 (xs @ (v, l) # ys)"
    using L(3,4) assms(2) by (simp add: linked_append w get_put32_other)
  moreover have "get32 ?b' (total (xs @ (v, l) # ys)) = small_mem s OR 1" using D(6) assms(2) ok by (simp add: get_put32_other)
  ultimately show "heap_rep (set_pool p ?w s) (xs @ (v, l) # ys)" using D ok assms(3) by (simp add: heap_rep_def)
  show "keeps (xs @ (v, l) # ys) s (set_pool p ?w s)"
    using live_byte_bounds [of 0 xs] live_byte_bounds [of "p + l" ys] ok assms(2)
    by (auto simp: keeps_def client_def live_byte_append intro!: put32_other) fastforce+
qed

lemma unat_of_nat32: "n < 2 ^ 32 \<Longrightarrow> unat (of_nat n :: u32) = n"
  by (simp add: unat_of_nat take_bit_nat_eq_self)

lemma rep_bytes:
  assumes "heap_rep s bs" "linked (small_mem s) b 0 0 bs'" "blocks_ok bs'" "total bs' = total bs"
    "get32 b (total bs) = small_mem s OR 1"
  shows "heap_rep (s\<lparr>mem_bytes := b\<rparr>) bs'"
  using assms by (simp add: heap_rep_def)

lemma rep_split:
  assumes "heap_rep s (xs @ (u, l) # ys)" "p = total xs" "k + 16 \<le> l" "8 dvd k" "24 \<le> k"
  shows "heap_rep (smem_split p (p + k) s) (xs @ (u, k) # (False, l - k) # ys)"
    "keeps (xs @ (u, k) # (False, l - k) # ys) s (smem_split p (p + k) s)"
    "\<exists>b. smem_split p (p + k) s = s\<lparr>mem_bytes := b\<rparr>"
proof -
  note D = heap_repD [OF assms(1)]
  let ?b = "mem_bytes s" and ?w = "small_mem s" and ?q = "p + k" and ?r = "p + l"
  have ok: "blocks_ok xs" "blocks_ok ys" "16 \<le> l" "8 dvd l" "u \<longrightarrow> 24 \<le> l" using D(2) by simp_all
  have nx: "item_next s p = ?r" by (rule rep_block(1) [OF assms(1,2)])
  have tot: "total (xs @ (u, l) # ys) = ?r + total ys" using assms(2) by simp
  have big: "?r + total ys + 16 < 2 ^ 32" using D(5) tot by simp
  have fr: "MEM_FREED s = ?w" using pool_words [OF D(7)] by (simp add: MEM_FREED_def)
  let ?b1 = "put32 (p + 4) (of_nat ?q) (put32 (?q + 8) (of_nat p) (put32 (?q + 4) (of_nat ?r) (put32 ?q ?w ?b)))"
  obtain b' where b': "b' = (if ys = [] then ?b1 else put32 (?r + 8) (of_nat ?q) ?b1)" by blast
  have "item_next (set_next p ?q (set_prev ?q p (set_next ?q (item_next s p) (set_pool ?q (MEM_FREED s) s)))) ?q = ?r"
    using assms(3,5) big unat_of_nat32 [of ?r] by (simp add: item_next_def get_put32_other nx [unfolded item_next_def])
  moreover have "?r \<noteq> mem_size_aligned s + 16 \<longleftrightarrow> ys \<noteq> []"
    using D(3) assms(2) ok(2) by (cases ys) auto
  ultimately have e: "smem_split p ?q s = s\<lparr>mem_bytes := b'\<rparr>"
    using nx by (simp add: smem_split_def Let_def SIZEOF_STRUCT_MEM_def b' fr set_next_def set_prev_def set_pool_def)
  then show "\<exists>b. smem_split p ?q s = s\<lparr>mem_bytes := b\<rparr>" by blast
  have L: "linked ?w ?b 0 0 xs" "linked ?w ?b p ?r ys" "get32 ?b p = (if u then ?w OR 1 else ?w)" "unat (get32 ?b (p + 8)) = last_start 0 0 xs"
    using D(1) assms(2) by (auto simp: linked_append)
  have same: "b' a = ?b a" if "a < p \<or> p + 8 \<le> a \<and> a < ?q \<or> ?q + 12 \<le> a \<and> a < ?r \<or> ?r + 12 \<le> a \<or> p \<le> a \<and> a < p + 4" for a
    using that assms(3,5) by (auto simp: b' put32_other)
  have "linked ?w b' 0 0 xs" by (rule linked_outside [OF L(1) ok(1)]) (use same assms(2) in auto)
  moreover have "linked ?w b' ?q ?r ys"
  proof -
    have "linked ?w ?b1 p ?r ys" by (rule linked_outside [OF L(2) ok(2)]) (use assms(3) in \<open>auto simp: put32_other\<close>)
    then have "linked ?w (put32 (?r + 8) (of_nat ?q) ?b1) ?q ?r ys" by (rule linked_prev) (use ok assms(3) big in auto)
    then show ?thesis by (auto simp: b')
  qed
  moreover have "get32 b' p = get32 ?b p" "get32 b' (p + 8) = get32 ?b (p + 8)"
    by (rule get32_cong, rule same, use assms(3,5) in auto)+
  moreover have "unat (get32 b' (p + 4)) = ?q" "get32 b' ?q = ?w" "unat (get32 b' (?q + 4)) = ?r" "unat (get32 b' (?q + 8)) = p"
    using assms(3,5) big by (simp_all add: b' get_put32_other unat_of_nat32 del: of_nat_add)
  ultimately have "linked ?w b' 0 0 (xs @ (u, k) # (False, l - k) # ys)"
    using L assms(2,3) by (simp add: linked_append)
  moreover have "get32 b' (?r + total ys) = ?w OR 1"
  proof -
    have "get32 b' (?r + total ys) = get32 ?b (?r + total ys)"
      by (cases ys) (use assms(3,5) ok in \<open>auto simp: b' get_put32_other\<close>)
    then show ?thesis using D(6) [unfolded tot] by simp
  qed
  ultimately show "heap_rep (smem_split p ?q s) (xs @ (u, k) # (False, l - k) # ys)"
    unfolding e by (intro rep_bytes [OF assms(1)]) (use tot ok assms(2-5) in \<open>auto simp: add.assoc\<close>)
  show "keeps (xs @ (u, k) # (False, l - k) # ys) s (smem_split p ?q s)"
    unfolding keeps_def e
  proof (intro allI impI)
    fix a assume "client (xs @ (u, k) # (False, l - k) # ys) a"
    then have "a < p \<or> p + 16 \<le> a \<and> a < ?q \<or> ?r + 16 \<le> a"
      using live_byte_bounds [of 0 xs a] live_byte_bounds [of ?r ys a] ok assms(2,3) by (auto simp: client_def live_byte_append)
    then show "mem_bytes (s\<lparr>mem_bytes := b'\<rparr>) a = mem_bytes s a" using same [of a] by auto
  qed
qed

lemma rep_join:
  assumes "heap_rep s (xs @ (False, l) # (v, m) # ys)" "p = total xs" "q = p + l"
    "s' = set_prev (item_next (set_next p (item_next (set_pool q 0 s) q) (set_pool q 0 s)) q) p (set_next p (item_next (set_pool q 0 s) q) (set_pool q 0 s))"
  shows "heap_rep s' (xs @ (False, l + m) # ys)" "keeps (xs @ (False, l + m) # ys) s s'" "\<exists>b. s' = s\<lparr>mem_bytes := b\<rparr>"
    "item_next (set_next p (item_next (set_pool q 0 s) q) (set_pool q 0 s)) p = q + m"
proof -
  note D = heap_repD [OF assms(1)]
  let ?b = "mem_bytes s" and ?w = "small_mem s" and ?r = "q + m"
  have ok: "blocks_ok xs" "blocks_ok ys" "16 \<le> l" "8 dvd l" "16 \<le> m" "8 dvd m" using D(2) by simp_all
  have nx: "item_next s q = ?r" using rep_block(1) [of s "xs @ [(False, l)]" v m ys q] assms(1-3) by simp
  have tot: "total (xs @ (False, l) # (v, m) # ys) = ?r + total ys" using assms(2,3) by simp
  have big: "?r + total ys + 16 < 2 ^ 32" using D(5) tot by simp
  let ?b1 = "put32 (p + 4) (of_nat ?r) (put32 q 0 ?b)"
  obtain b' where b': "b' = put32 (?r + 8) (of_nat p) ?b1" by blast
  have n1: "item_next (set_pool q 0 s) q = ?r" using nx ok by (simp add: item_next_def get_put32_other)
  have n2: "item_next (set_next p ?r (set_pool q 0 s)) q = ?r" using nx ok assms(3) by (simp add: item_next_def get_put32_other)
  show "item_next (set_next p (item_next (set_pool q 0 s) q) (set_pool q 0 s)) p = q + m"
    unfolding n1 using big unat_of_nat32 [of ?r] by (simp add: item_next_def)
  have e: "s' = s\<lparr>mem_bytes := b'\<rparr>"
    unfolding assms(4) n1 n2 by (simp add: set_next_def set_prev_def set_pool_def b')
  then show "\<exists>b. s' = s\<lparr>mem_bytes := b\<rparr>" by blast
  have L: "linked ?w ?b 0 0 xs" "linked ?w ?b q ?r ys" "get32 ?b p = ?w" "unat (get32 ?b (p + 8)) = last_start 0 0 xs"
    using D(1) assms(2,3) by (auto simp: linked_append)
  have same: "b' a = ?b a" if "a < p + 4 \<or> p + 8 \<le> a \<and> a < q \<or> q + 4 \<le> a \<and> a < ?r + 8 \<or> ?r + 12 \<le> a" for a
    using that assms(3) ok by (auto simp: b' put32_other)
  have "linked ?w b' 0 0 xs" by (rule linked_outside [OF L(1) ok(1)]) (use same assms(2) in auto)
  moreover have "linked ?w b' p ?r ys"
  proof -
    have "linked ?w ?b1 q ?r ys" by (rule linked_outside [OF L(2) ok(2)]) (use assms(3) ok in \<open>auto simp: put32_other\<close>)
    then show ?thesis unfolding b' by (rule linked_prev) (use ok assms(3) big in auto)
  qed
  moreover have "get32 b' p = get32 ?b p" "get32 b' (p + 8) = get32 ?b (p + 8)"
    by (rule get32_cong, rule same, use assms(3) ok in auto)+
  moreover have "unat (get32 b' (p + 4)) = ?r" using assms(3) ok big by (simp add: b' get_put32_other unat_of_nat32 del: of_nat_add)
  ultimately have "linked ?w b' 0 0 (xs @ (False, l + m) # ys)"
    using L assms(2,3) by (simp add: linked_append add.assoc)
  moreover have "get32 b' (?r + total ys) = ?w OR 1"
  proof -
    have "get32 b' (?r + total ys) = get32 ?b (?r + total ys)"
      by (cases ys) (use assms(3) ok in \<open>auto simp: b' get_put32_other\<close>)
    then show ?thesis using D(6) [unfolded tot] by simp
  qed
  ultimately show "heap_rep s' (xs @ (False, l + m) # ys)"
    unfolding e by (intro rep_bytes [OF assms(1)]) (use tot ok assms(2,3) in \<open>auto simp: add.assoc\<close>)
  show "keeps (xs @ (False, l + m) # ys) s s'"
    unfolding keeps_def e
  proof (intro allI impI)
    fix a assume "client (xs @ (False, l + m) # ys) a"
    then have "a < p \<or> ?r + 16 \<le> a"
      using live_byte_bounds [of 0 xs a] live_byte_bounds [of ?r ys a] ok assms(2,3) by (auto simp: client_def live_byte_append add.assoc)
    then show "mem_bytes (s\<lparr>mem_bytes := b'\<rparr>) a = mem_bytes s a" using same [of a] by auto
  qed
qed

section \<open>Specification\<close>

text \<open>First fit: the rest of a block is split off when it can hold a header and 16 bytes.\<close>

fun place :: "nat \<Rightarrow> nat \<Rightarrow> blocks \<Rightarrow> (nat \<times> blocks) option" where
  "place n p [] = None"
| "place n p ((u, l) # bs) =
    (if \<not> u \<and> n + 16 \<le> l
     then Some (p + 16, if n + 48 \<le> l then (True, n + 16) # (False, l - (n + 16)) # bs else (True, l) # bs)
     else map_option (\<lambda>(r, bs). (r, (u, l) # bs)) (place n (p + l) bs))"

definition spec_alloc :: "nat \<Rightarrow> blocks \<Rightarrow> nat option \<times> blocks" where
  "spec_alloc n bs = (case place n 0 bs of None \<Rightarrow> (None, bs) | Some (r, bs) \<Rightarrow> (Some r, bs))"

text \<open>The size of the data for a request.\<close>

definition rounded :: "u32 \<Rightarrow> nat" where
  "rounded n = max 16 (unat (RT_ALIGN n))"

text \<open>Neighbours that are both free are joined.\<close>

fun coalesce :: "blocks \<Rightarrow> blocks" where
  "coalesce [] = []"
| "coalesce [x] = [x]"
| "coalesce ((u, l) # (v, m) # bs) = (if \<not> u \<and> \<not> v then coalesce ((False, l + m) # bs) else (u, l) # coalesce ((v, m) # bs))"

fun release :: "nat \<Rightarrow> nat \<Rightarrow> blocks \<Rightarrow> blocks" where
  "release r p [] = []"
| "release r p ((u, l) # bs) = (if p + 16 = r then (False, l) # bs else (u, l) # release r (p + l) bs)"

definition spec_free :: "nat \<Rightarrow> blocks \<Rightarrow> blocks" where
  "spec_free r bs = coalesce (release r 0 bs)"

fun shrink :: "nat \<Rightarrow> nat \<Rightarrow> nat \<Rightarrow> blocks \<Rightarrow> blocks" where
  "shrink r n p [] = []"
| "shrink r n p ((u, l) # bs) = (if p + 16 = r then (True, n + 16) # (False, l - (n + 16)) # bs else (u, l) # shrink r n (p + l) bs)"

definition apart :: "blocks \<Rightarrow> bool" where
  "apart bs \<longleftrightarrow> successively (\<lambda>x y. fst x \<or> fst y) bs"

definition heap_ok :: "rt_small_mem \<Rightarrow> blocks \<Rightarrow> bool" where
  "heap_ok s bs \<longleftrightarrow> heap_rep s bs \<and> lfree s = lowest 0 bs \<and> mem_used s = in_use bs \<and> mem_used s \<le> mem_max s \<and> apart bs"

lemma heap_okD:
  assumes "heap_ok s bs"
  shows "heap_rep s bs" "lfree s = lowest 0 bs" "mem_used s = in_use bs" "mem_used s \<le> mem_max s" "apart bs"
  using assms [unfolded heap_ok_def] by blast+

lemma apart_simps [simp]:
  "apart []" "apart [x]" "apart (x # y # bs) \<longleftrightarrow> (fst x \<or> fst y) \<and> apart (y # bs)"
  by (simp_all add: apart_def)

lemma apart_append: "apart (xs @ ys) \<longleftrightarrow> apart xs \<and> apart ys \<and> (xs = [] \<or> ys = [] \<or> fst (last xs) \<or> fst (hd ys))"
  by (auto simp: apart_def successively_append_iff)

lemma apart_Cons: "apart (x # bs) \<longleftrightarrow> apart bs \<and> (bs = [] \<or> fst x \<or> fst (hd bs))"
  by (cases bs) auto

section \<open>Allocation\<close>

lemma place_None: "total bs < n + 16 \<Longrightarrow> place n p bs = None"
  by (induction n p bs rule: place.induct) auto

lemma place_used: "\<forall>x \<in> set xs. fst x \<Longrightarrow> place n p (xs @ ys) = map_option (\<lambda>(r, bs). (r, xs @ bs)) (place n (p + total xs) ys)"
  by (induction xs arbitrary: p) (auto simp: add.assoc option.map_comp comp_def split_def option.map_ident)

lemma place_at:
  "\<forall>(u, l) \<in> set xs. u \<or> l < n + 16 \<Longrightarrow> n + 16 \<le> l \<Longrightarrow>
   place n p (xs @ (False, l) # ys) = Some (p + total xs + 16,
     xs @ (if n + 48 \<le> l then (True, n + 16) # (False, l - (n + 16)) # ys else (True, l) # ys))"
  by (induction xs arbitrary: p) (auto simp: add.assoc)

lemma smem_find_place:
  assumes "heap_rep s (xs @ ys)" "n \<le> mem_size_aligned s"
  shows "case place n (total xs) ys of
      None \<Rightarrow> smem_find s n (total xs) = Some None
    | Some _ \<Rightarrow> (\<exists>zs l ws. ys = zs @ (False, l) # ws \<and> (\<forall>(u, l) \<in> set zs. u \<or> l < n + 16) \<and> n + 16 \<le> l \<and>
        smem_find s n (total xs) = Some (Some (total xs + total zs)))"
  using assms(1)
proof (induction ys arbitrary: xs)
  case Nil
  then show ?case using heap_repD(3) [OF Nil] assms(2) by (subst smem_find.simps) (auto simp: sub_def)
next
  case (Cons y ys)
  obtain u l where y: "y = (u, l)" by (cases y)
  note B = rep_block [OF Cons.prems [unfolded y] refl]
  have f: "smem_find s n (total xs) = (if total xs \<le> mem_size_aligned s - n
      then if \<not> u \<and> n \<le> l - 16 then Some (Some (total xs)) else smem_find s n (total xs + l) else Some None)"
    using assms(2) B(1,3,6) by (simp add: smem_find.simps [of s n "total xs"] sub_def SIZEOF_STRUCT_MEM_def)
  have tot: "total xs + l + total ys = mem_size_aligned s + 16" using heap_repD(3) [OF Cons.prems] y by simp
  show ?case
  proof (cases "total xs \<le> mem_size_aligned s - n")
    case False
    then have "place n (total xs) (y # ys) = None" using tot assms(2) y by (intro place_None) simp
    then show ?thesis using False f by simp
  next
    case True
    show ?thesis
    proof (cases "\<not> u \<and> n + 16 \<le> l")
      case here: True
      have "n \<le> l - 16" using here by linarith
      then have "smem_find s n (total xs) = Some (Some (total xs + total []))" using f True here by simp
      moreover have "y # ys = [] @ (False, l) # ys" using here y by simp
      ultimately have "\<exists>zs l ws. y # ys = zs @ (False, l) # ws \<and> (\<forall>(u, l) \<in> set zs. u \<or> l < n + 16) \<and> n + 16 \<le> l \<and>
          smem_find s n (total xs) = Some (Some (total xs + total zs))" using here by (intro exI [of _ "[]"] exI [of _ l] exI [of _ ys]) simp
      then show ?thesis using here y by (simp del: total_simps)
    next
      case skip: False
      have r: "smem_find s n (total xs) = smem_find s n (total (xs @ [y]))" using f True skip B(6) y by auto
      have p: "place n (total xs) (y # ys) = map_option (\<lambda>(r, bs). (r, (u, l) # bs)) (place n (total xs + l) ys)"
        using skip y by auto
      have IH: "case place n (total xs + l) ys of
          None \<Rightarrow> smem_find s n (total (xs @ [y])) = Some None
        | Some _ \<Rightarrow> (\<exists>zs l ws. ys = zs @ (False, l) # ws \<and> (\<forall>(u, l) \<in> set zs. u \<or> l < n + 16) \<and> n + 16 \<le> l \<and>
            smem_find s n (total (xs @ [y])) = Some (Some (total (xs @ [y]) + total zs)))"
        using Cons.IH [of "xs @ [y]"] Cons.prems y by simp
      show ?thesis
      proof (cases "place n (total xs + l) ys")
        case None
        then show ?thesis using IH r p by simp
      next
        case (Some z)
        then obtain zs k ws where z: "ys = zs @ (False, k) # ws" "\<forall>(u, l) \<in> set zs. u \<or> l < n + 16" "n + 16 \<le> k"
          "smem_find s n (total (xs @ [y])) = Some (Some (total (xs @ [y]) + total zs))" using IH by auto
        have "y # ys = (y # zs) @ (False, k) # ws" "\<forall>(u, l) \<in> set (y # zs). u \<or> l < n + 16"
          "smem_find s n (total xs) = Some (Some (total xs + total (y # zs)))"
          using z skip y r by (auto simp: add.assoc)
        then have "\<exists>zs l ws. y # ys = zs @ (False, l) # ws \<and> (\<forall>(u, l) \<in> set zs. u \<or> l < n + 16) \<and> n + 16 \<le> l \<and>
            smem_find s n (total xs) = Some (Some (total xs + total zs))" using z(3) by blast
        then show ?thesis by (simp only: p Some option.map option.case)
      qed
    qed
  qed
qed

lemma smem_lowest_from:
  assumes "heap_rep s (xs @ ys)"
  shows "smem_lowest s (total xs) = Some (lowest (total xs) ys)"
  using assms
proof (induction ys arbitrary: xs)
  case Nil
  then show ?case using heap_repD(4) [OF Nil] by (simp add: smem_lowest.simps [of s "total xs"])
next
  case (Cons y ys)
  obtain u l where y: "y = (u, l)" by (cases y)
  note B = rep_block [OF Cons.prems [unfolded y] refl]
  show ?case using B(1,3,7) Cons.IH [of "xs @ [y]"] Cons.prems y by (simp add: smem_lowest.simps [of s "total xs"])
qed

lemma rep_fields [simp]:
  "heap_rep (s\<lparr>lfree := f\<rparr>) bs = heap_rep s bs" "heap_rep (s\<lparr>mem_used := n\<rparr>) bs = heap_rep s bs" "heap_rep (s\<lparr>mem_max := n\<rparr>) bs = heap_rep s bs"
  by (simp_all add: heap_rep_def)

lemma account_simps [simp]:
  "heap_rep (smem_account n s) bs = heap_rep s bs" "mem_bytes (smem_account n s) = mem_bytes s" "lfree (smem_account n s) = lfree s"
  "mem_used (smem_account n s) = mem_used s + n" "mem_used s + n \<le> mem_max (smem_account n s)"
  by (simp_all add: smem_account_def Let_def)

lemma keeps_trans: "keeps bs s s1 \<Longrightarrow> keeps bs s1 s2 \<Longrightarrow> keeps bs s s2"
  by (simp add: keeps_def)

lemma keeps_less: "keeps bs s s' \<Longrightarrow> (\<And>a. client bs' a \<Longrightarrow> client bs a) \<Longrightarrow> keeps bs' s s'"
  by (simp add: keeps_def)

lemma keeps_bytes: "mem_bytes s' = mem_bytes s \<Longrightarrow> keeps bs s s'"
  by (simp add: keeps_def)

lemma first_free:
  assumes "\<not> (\<forall>x \<in> set bs. fst x)"
  obtains xs l ys where "bs = xs @ (False, l) # ys" "\<forall>x \<in> set xs. fst x" "lowest p bs = p + total xs"
proof -
  obtain xs x ys where "bs = xs @ x # ys" "\<not> fst x" "\<forall>y \<in> set xs. fst y" using split_list_first_prop [of bs "\<lambda>x. \<not> fst x"] assms by auto
  then show thesis by (intro that [of xs "snd x" ys]) (cases x; auto simp: lowest_append)+
qed

lemma lowest_used: "\<forall>x \<in> set bs. fst x \<Longrightarrow> lowest p bs = p + total bs"
  using lowest_append [of p bs "[]"] by simp

lemma lowest_less: "\<not> (\<forall>x \<in> set xs. fst x) \<Longrightarrow> blocks_ok xs \<Longrightarrow> lowest p xs < p + total xs"
  by (erule first_free [of _ p]) auto

lemma lowest_free:
  assumes "heap_rep s bs"
  shows "lowest 0 bs = heap_end s \<or> \<not> MEM_ISUSED s (lowest 0 bs)"
proof (cases "\<forall>x \<in> set bs. fst x")
  case True
  then show ?thesis using lowest_used [of bs 0] heap_repD(4) [OF assms] by simp
next
  case False
  then obtain xs l ys where "bs = xs @ (False, l) # ys" "lowest 0 bs = 0 + total xs" by (rule first_free)
  then show ?thesis using rep_block(3) [of s xs False l ys] assms by simp
qed

lemma heap_okI:
  assumes "heap_rep s bs" "lfree s = lowest 0 bs" "mem_used s = in_use bs" "mem_used s \<le> mem_max s" "apart bs"
  shows "heap_ok s bs"
  using assms by (simp add: heap_ok_def)

text \<open>A free block is taken: marked, after the rest has been split off or not, and the lowest free block sought anew.\<close>

lemma take_marks:
  assumes rep: "heap_rep s (xs @ (False, l) # ys)" and low: "lfree s = lowest 0 (xs @ (False, z) # zs)" and l: "24 \<le> l"
    and use: "mem_used s = in_use (xs @ (True, l) # ys)" "mem_used s \<le> mem_max s" and ap: "apart (xs @ (True, l) # ys)"
    and p: "p = total xs" "s2 = set_pool p (MEM_USED s) s"
  shows "\<exists>f. (if p = lfree s2 then do {
        f \<leftarrow> smem_lowest s2 (lfree s2);
        if f = heap_end s2 \<or> \<not> MEM_ISUSED s2 f then Some (s2\<lparr>lfree := f\<rparr>) else None
      } else Some s2) = Some (s2\<lparr>lfree := f\<rparr>) \<and> heap_ok (s2\<lparr>lfree := f\<rparr>) (xs @ (True, l) # ys)"
proof -
  have r: "heap_rep s2 (xs @ (True, l) # ys)" using rep_mark(1) [OF rep p(1), of True] l p(2) by simp
  have ok: "blocks_ok xs" using heap_repD(2) [OF rep] by simp
  have fields: "lfree s2 = lfree s" "mem_used s2 = mem_used s" "mem_max s2 = mem_max s" using p(2) by simp_all
  show ?thesis
  proof (cases "\<forall>x \<in> set xs. fst x")
    case True
    have e: "p = lfree s2" using True low p fields by (simp add: lowest_append)
    have f: "smem_lowest s2 p = Some (lowest 0 (xs @ (True, l) # ys))"
      using smem_lowest_from [OF r] True p(1) by (simp add: lowest_append)
    have "heap_ok (s2\<lparr>lfree := lowest 0 (xs @ (True, l) # ys)\<rparr>) (xs @ (True, l) # ys)"
      by (rule heap_okI) (use r use ap fields in simp_all)
    then show ?thesis using e [symmetric] f lowest_free [OF r] by auto
  next
    case False
    then have e: "lfree s2 = lowest 0 (xs @ (True, l) # ys)" "lfree s2 < p"
      using low p(1) fields lowest_less [OF False ok, of 0] by (auto simp: lowest_append)
    have "heap_ok s2 (xs @ (True, l) # ys)" by (rule heap_okI) (use r use ap fields e(1) in simp_all)
    moreover have "s2\<lparr>lfree := lfree s2\<rparr> = s2" by simp
    ultimately show ?thesis using e(2) by (intro exI [of _ "lfree s2"]) simp
  qed
qed

lemma smem_take_ok:
  assumes "heap_ok s (xs @ (False, l) # ys)" "n + 16 \<le> l" "8 dvd n" "16 \<le> n" "p = total xs"
    "bs = xs @ (if n + 48 \<le> l then (True, n + 16) # (False, l - (n + 16)) # ys else (True, l) # ys)"
  shows "\<exists>s'. smem_take n p s = Some (p + 16, s') \<and> heap_ok s' bs \<and> keeps (xs @ (False, l) # ys) s s'"
proof -
  note H = heap_okD [OF assms(1)]
  note D = heap_repD [OF H(1)] and B = rep_block [OF H(1) assms(5)]
  have ok: "blocks_ok xs" "blocks_ok ys" "8 dvd p" using D(2) blocks_dvd [of xs] assms(5) by simp_all
  have ap: "apart xs" "apart ys" "ys = [] \<or> fst (hd ys)" using H(5) by (auto simp: apart_append apart_Cons)
  obtain s1 where s1: "s1 = (if l - 16 \<ge> n + 16 + 16 then smem_account (n + 16) (smem_split p (p + 16 + n) s)
      else smem_account (item_next s p - p) s)" by blast
  obtain k zs where kz: "bs = xs @ (True, k) # zs" "heap_rep s1 (xs @ (False, k) # zs)" "24 \<le> k" "keeps (xs @ (False, k) # zs) s s1"
    "mem_used s1 = in_use bs" "mem_used s1 \<le> mem_max s1" "lfree s1 = lfree s" "n + 16 \<le> k" "apart bs"
    "\<And>a. client (xs @ (False, l) # ys) a \<Longrightarrow> client (xs @ (False, k) # zs) a"
  proof (cases "n + 48 \<le> l")
    case True
    then have e: "s1 = smem_account (n + 16) (smem_split p (p + (n + 16)) s)" by (simp add: s1 add_ac)
    note S = rep_split [OF H(1) assms(5), of "n + 16"]
    have S': "heap_rep (smem_split p (p + (n + 16)) s) (xs @ (False, n + 16) # (False, l - (n + 16)) # ys)"
      "keeps (xs @ (False, n + 16) # (False, l - (n + 16)) # ys) s (smem_split p (p + (n + 16)) s)"
      "\<exists>b. smem_split p (p + (n + 16)) s = s\<lparr>mem_bytes := b\<rparr>" using S True assms(3,4) by simp_all
    obtain b where b: "smem_split p (p + (n + 16)) s = s\<lparr>mem_bytes := b\<rparr>" using S'(3) by blast
    show thesis
    proof (rule that [of "n + 16" "(False, l - (n + 16)) # ys"])
      show "keeps (xs @ (False, n + 16) # (False, l - (n + 16)) # ys) s s1" using S'(2) by (simp add: keeps_def e)
      show "mem_used s1 = in_use bs" "mem_used s1 \<le> mem_max s1" "lfree s1 = lfree s"
        using H(3) True account_simps(5) [of "s\<lparr>mem_bytes := b\<rparr>" "n + 16"] by (simp_all add: e b assms(6))
      show "apart bs" using ap True by (auto simp: assms(6) apart_append apart_Cons)
    qed (use True assms(4) S' in \<open>auto simp: assms(6) e client_def live_byte_append add_ac\<close>)
  next
    case False
    then have e: "s1 = smem_account l s" using B(1,6) by (simp add: s1)
    show thesis
    proof (rule that [of l ys])
      show "apart bs" using ap False by (auto simp: assms(6) apart_append apart_Cons)
    qed (use False assms(2,4) H account_simps(5) [of s l] in \<open>auto simp: assms(6) e keeps_def\<close>)
  qed
  obtain s2 where s2: "s2 = set_pool p (MEM_USED s1) s1" by blast
  obtain f where f: "(if p = lfree s2 then do {
        f \<leftarrow> smem_lowest s2 (lfree s2);
        if f = heap_end s2 \<or> \<not> MEM_ISUSED s2 f then Some (s2\<lparr>lfree := f\<rparr>) else None
      } else Some s2) = Some (s2\<lparr>lfree := f\<rparr>)" "heap_ok (s2\<lparr>lfree := f\<rparr>) bs"
    using take_marks [OF kz(2) _ kz(3) _ kz(6) _ assms(5) s2, of l ys] kz(1,5,7,9) H(2) by auto
  have "p + k \<le> heap_end s1" by (rule rep_block(5) [OF kz(2) assms(5)])
  then have "p + 16 + n \<le> heap_end s2" "(heap_ptr s2 + p + 16) mod 8 = 0"
    using kz(8) ok(3) heap_repD(8) [OF kz(2)] by (auto simp: s2 mod_eq_0_iff_dvd)
  moreover have "smem_take n p s = do {
      s \<leftarrow> (if p = lfree s2 then do {
        f \<leftarrow> smem_lowest s2 (lfree s2);
        if f = heap_end s2 \<or> \<not> MEM_ISUSED s2 f then Some (s2\<lparr>lfree := f\<rparr>) else None
      } else Some s2);
      if p + 16 + n \<le> heap_end s \<and> (heap_ptr s + p + 16) mod 8 = 0 then Some (p + 16, s) else None
    }"
  proof -
    have "sub (p + l) (p + 16) = Some (l - 16)" using B(6) by (simp add: sub_def)
    then show ?thesis
      by (simp only: smem_take_def SIZEOF_STRUCT_MEM_def MIN_SIZE_ALIGNED_def RT_ALIGN_SIZE_def B(1) Option.bind.simps Let_def s1 s2)
  qed
  ultimately have "smem_take n p s = Some (p + 16, s2\<lparr>lfree := f\<rparr>)" unfolding f(1) by simp
  moreover have "keeps (xs @ (False, k) # zs) s1 s2"
    using rep_mark(2) [OF kz(2) assms(5), of True] kz(3)
    by (auto simp: s2 keeps_def client_def live_byte_append)
  then have "keeps (xs @ (False, l) # ys) s s2" using keeps_less [OF keeps_trans [OF kz(4)] kz(10)] by blast
  then have "keeps (xs @ (False, l) # ys) s (s2\<lparr>lfree := f\<rparr>)" by (simp add: keeps_def)
  ultimately show ?thesis using f(2) by blast
qed

lemma rt_align:
  "unat (RT_ALIGN n) = (if unat n \<le> 0xFFFFFFF8 then (unat n + 7) div 8 * 8 else 0)"
proof -
  have e: "RT_ALIGN n = (n + 7) AND NOT (mask 3)" by (simp add: RT_ALIGN_def mask_eq_exp_minus_1 add.commute)
  have d: "unat ((n + 7) AND NOT (mask 3)) = unat (n + 7) div 8 * 8"
  proof -
    have "unat (push_bit 3 (drop_bit 3 (n + 7))) = unat (n + 7) div 8 * 8"
      by transfer (simp add: push_bit_eq_mult drop_bit_eq_div take_bit_eq_mod nat_mult_distrib nat_div_distrib)
    moreover have "(n + 7) AND NOT (mask 3) = push_bit 3 (drop_bit 3 (n + 7))"
      by (rule bit_word_eqI) (auto simp: bit_simps not_less)
    ultimately show ?thesis by simp
  qed
  have n: "unat n < 2 ^ 32" by (rule order.strict_trans2 [OF unsigned_less]) simp
  have w: "unat (n + 7) = (if unat n \<le> 0xFFFFFFF8 then unat n + 7 else unat n + 7 - 2 ^ 32)"
    using n by (simp add: unat_word_ariths le_mod_geq)
  show ?thesis unfolding e d w using n by simp
qed

lemma rounded_simps: "8 dvd rounded n" "16 \<le> rounded n" "rounded n = (if unat (RT_ALIGN n) < 16 then 16 else unat (RT_ALIGN n))"
  by (auto simp: rounded_def rt_align max_def)

lemma alloc_ok:
  assumes "heap_ok s bs" "n \<noteq> 0"
  shows "\<exists>s'. rt_smem_alloc n s = Some (fst (spec_alloc (rounded n) bs), s') \<and> heap_ok s' (snd (spec_alloc (rounded n) bs)) \<and> keeps bs s s'"
proof -
  note H = heap_okD [OF assms(1)]
  let ?n = "rounded n"
  have a: "rt_smem_alloc n s = (if ?n > mem_size_aligned s then Some (None, s) else do {
      f \<leftarrow> smem_find s ?n (lfree s);
      (case f of None \<Rightarrow> Some (None, s) | Some ptr \<Rightarrow> do { (r, s) \<leftarrow> smem_take ?n ptr s; Some (Some r, s) })
    })"
    by (simp only: rt_smem_alloc_def Let_def MIN_SIZE_ALIGNED_def rounded_simps(3) assms(2) if_False)
  show ?thesis
  proof (cases "?n > mem_size_aligned s")
    case True
    then have "place ?n 0 bs = None" using heap_repD(3) [OF H(1)] by (intro place_None) simp
    then show ?thesis using a True assms(1) by (simp add: spec_alloc_def keeps_def)
  next
    case False
    obtain xs ys where xy: "bs = xs @ ys" "\<forall>x \<in> set xs. fst x" "lowest 0 bs = total xs"
    proof (cases "\<forall>x \<in> set bs. fst x")
      case True
      then show thesis by (intro that [of bs "[]"]) (auto simp: lowest_used)
    next
      case False
      then obtain xs l ys where "bs = xs @ (False, l) # ys" "\<forall>x \<in> set xs. fst x" "lowest 0 bs = 0 + total xs" by (rule first_free)
      then show thesis by (intro that [of xs "(False, l) # ys"]) auto
    qed
    have P: "place ?n 0 bs = map_option (\<lambda>(r, bs). (r, xs @ bs)) (place ?n (total xs) ys)"
      using place_used [OF xy(2), of ?n 0 ys] xy(1) by simp
    note F = smem_find_place [OF H(1) [unfolded xy(1)], of ?n]
    show ?thesis
    proof (cases "place ?n (total xs) ys")
      case None
      then show ?thesis using F False a P H(2) xy(3) assms(1) by (simp add: spec_alloc_def keeps_def)
    next
      case (Some z)
      then obtain zs l ws where z: "ys = zs @ (False, l) # ws" "\<forall>(u, l) \<in> set zs. u \<or> l < ?n + 16" "?n + 16 \<le> l"
        "smem_find s ?n (total xs) = Some (Some (total xs + total zs))" using F False by auto
      obtain bs' where bs': "bs' = (xs @ zs) @ (if ?n + 48 \<le> l then (True, ?n + 16) # (False, l - (?n + 16)) # ws else (True, l) # ws)"
        by blast
      have p: "spec_alloc ?n bs = (Some (total (xs @ zs) + 16), bs')"
        using P place_at [OF z(2,3), of "total xs" ws] z(1) by (simp add: spec_alloc_def bs')
      have "\<exists>s'. smem_take ?n (total (xs @ zs)) s = Some (total (xs @ zs) + 16, s') \<and> heap_ok s' bs' \<and> keeps ((xs @ zs) @ (False, l) # ws) s s'"
        by (rule smem_take_ok [OF _ z(3) rounded_simps(1,2) refl bs']) (use assms(1) xy(1) z(1) in simp)
      then obtain s' where s': "smem_take ?n (total (xs @ zs)) s = Some (total (xs @ zs) + 16, s')" "heap_ok s' bs'"
        "keeps ((xs @ zs) @ (False, l) # ws) s s'" by blast
      have "rt_smem_alloc n s = Some (Some (total (xs @ zs) + 16), s')"
        using a False z(4) s'(1) H(2) xy(3) by simp
      then show ?thesis using s'(2,3) xy(1) z(1) p by simp
    qed
  qed
qed

section \<open>Release\<close>

lemma coalesce_used: "apart (ws @ [(True, k)]) \<Longrightarrow> coalesce (ws @ (True, k) # zs) = ws @ (True, k) # coalesce zs"
proof (induction ws rule: coalesce.induct)
  case 1 show ?case by (cases zs) auto
next
  case (2 x) then show ?case by (cases zs; cases x) auto
next
  case (3 u l v m bs) then show ?case by auto
qed

lemma coalesce_apart: "apart bs \<Longrightarrow> coalesce bs = bs"
  by (induction bs rule: coalesce.induct) auto

lemma coalesce_free:
  assumes "apart (ws @ [(False, k)])"
  shows "coalesce (ws @ (False, k) # zs) = ws @ coalesce ((False, k) # zs)"
proof (cases ws rule: rev_cases)
  case (snoc vs x)
  then obtain m where x: "x = (True, m)" using assms by (cases x) (auto simp: apart_append)
  then have "apart (vs @ [(True, m)])" using assms snoc by (auto simp: apart_append)
  from coalesce_used [OF this, of "(False, k) # zs"] show ?thesis using snoc x by simp
qed simp

lemma release_at: "p + total xs + 16 = r \<Longrightarrow> blocks_ok xs \<Longrightarrow> release r p (xs @ (u, l) # ys) = xs @ (False, l) # ys"
  by (induction xs arbitrary: p) auto

lemma shrink_at: "p + total xs + 16 = r \<Longrightarrow> blocks_ok xs \<Longrightarrow>
    shrink r n p (xs @ (u, l) # ys) = xs @ (True, n + 16) # (False, l - (n + 16)) # ys"
  by (induction xs arbitrary: p) auto

lemma live_at:
  assumes "(r, n) \<in> set (live p bs)"
  obtains xs l ys where "bs = xs @ (True, l) # ys" "r = p + total xs + 16" "n = l - 16"
  using assms
proof (induction p bs arbitrary: thesis rule: live.induct)
  case (2 p u l bs)
  show ?case
  proof (cases "u \<and> (r, n) = (p + 16, l - 16)")
    case True
    then show ?thesis using 2(3) [of "[]" l bs] by simp
  next
    case False
    then have m: "(r, n) \<in> set (live (p + l) bs)" using 2(4) by (auto split: if_splits)
    obtain xs k ys where "bs = xs @ (True, k) # ys" "r = p + l + total xs + 16" "n = k - 16"
    proof (cases u)
      case True show thesis by (rule 2(1) [OF True that m])
    next
      case F: False show thesis by (rule 2(2) [OF F that m])
    qed
    then show ?thesis using 2(3) [of "(u, l) # xs" k ys] by simp
  qed
qed simp

lemma lowest_ge: "p \<le> lowest p bs"
  by (induction p bs rule: lowest.induct) auto

lemma lowest_upto: "lowest p (xs @ (False, l) # ys) \<le> p + total xs"
  by (induction xs arbitrary: p) (auto simp: add.assoc [symmetric])

lemma plug_forward_ok:
  assumes "heap_rep s (xs @ (False, l) # ys)" "lfree s \<le> p" "p = total xs" "apart ys"
  shows "\<exists>b k zs. plug_forward p s = s\<lparr>mem_bytes := b\<rparr> \<and> heap_rep (plug_forward p s) (xs @ (False, k) # zs) \<and>
    coalesce ((False, l) # ys) = (False, k) # zs \<and> keeps (xs @ (False, k) # zs) s (plug_forward p s) \<and> in_use zs = in_use ys \<and>
    (\<forall>a. client (xs @ (False, l) # ys) a \<longrightarrow> client (xs @ (False, k) # zs) a) \<and> apart zs \<and> (zs = [] \<or> fst (hd zs))"
proof -
  note B = rep_block [OF assms(1,3)]
  have free: "\<not> MEM_ISUSED s (p + l) \<and> p + l \<noteq> heap_end s \<longleftrightarrow> ys \<noteq> [] \<and> \<not> fst (hd ys)"
  proof (cases ys)
    case Nil
    then show ?thesis using heap_repD(4) [OF assms(1)] assms(3) by simp
  next
    case (Cons y zs)
    then show ?thesis using rep_block(3,7) [of s "xs @ [(False, l)]" "fst y" "snd y" zs "p + l"] assms(1,3) by (cases y) simp
  qed
  show ?thesis
  proof (cases "ys \<noteq> [] \<and> \<not> fst (hd ys)")
    case True
    then obtain m zs where y: "ys = (False, m) # zs" by (cases ys) auto
    obtain s' where s': "s' = set_prev (item_next (set_next p (item_next (set_pool (p + l) 0 s) (p + l)) (set_pool (p + l) 0 s)) (p + l)) p
        (set_next p (item_next (set_pool (p + l) 0 s) (p + l)) (set_pool (p + l) 0 s))" by blast
    note J = rep_join [OF assms(1) [unfolded y] assms(3) refl s']
    have e: "plug_forward p s = s'"
      using free True B(1,6) assms(2) by (auto simp: plug_forward_def Let_def s')
    have z: "apart zs" "zs = [] \<or> fst (hd zs)" using assms(4) y by (auto simp: apart_Cons)
    have c: "coalesce ((False, l) # ys) = (False, l + m) # zs"
      using coalesce_apart [of "(False, l + m) # zs"] z y by (auto simp: apart_Cons)
    obtain b where "s' = s\<lparr>mem_bytes := b\<rparr>" using J(3) by blast
    moreover have "\<forall>a. client (xs @ (False, l) # ys) a \<longrightarrow> client (xs @ (False, l + m) # zs) a"
      by (auto simp: client_def live_byte_append y add.assoc)
    ultimately show ?thesis using e J(1,2) c z y by auto
  next
    case False
    then have "plug_forward p s = s" using free B(1) by (auto simp: plug_forward_def Let_def)
    moreover have "coalesce ((False, l) # ys) = (False, l) # ys"
      by (rule coalesce_apart) (use False assms(4) in \<open>auto simp: apart_Cons\<close>)
    moreover have "s = s\<lparr>mem_bytes := mem_bytes s\<rparr>" by simp
    ultimately show ?thesis using assms(1,4) False
      by (intro exI [of _ "mem_bytes s"] exI [of _ l] exI [of _ ys]) (auto simp: keeps_def)
  qed
qed

lemma coalesce_hd: "coalesce ((u, l) # bs) \<noteq> [] \<and> fst (hd (coalesce ((u, l) # bs))) = u"
  by (induction "(u, l) # bs" arbitrary: u l bs rule: coalesce.induct) auto

lemma apart_coalesce: "apart (coalesce bs)"
proof (induction bs rule: coalesce.induct)
  case (3 u l v m bs)
  then show ?case using coalesce_hd [of v m bs] by (auto simp: apart_Cons)
qed auto

lemma coalesce_simps [simp]:
  "total (coalesce bs) = total bs" "in_use (coalesce bs) = in_use bs" "lowest p (coalesce bs) = lowest p bs"
  "live p (coalesce bs) = live p bs" "live_byte p (coalesce bs) a = live_byte p bs a"
  by (induction bs arbitrary: p rule: coalesce.induct) (auto simp: add.assoc)

lemma client_coalesce [simp]: "client (coalesce bs) a = client bs a"
  by (simp add: client_def)

lemma keeps_coalesce [simp]: "keeps (coalesce bs) s s' = keeps bs s s'"
  by (simp add: keeps_def)

lemma plug_backward_ok:
  assumes "heap_rep s (xs @ (False, l) # ys)" "lfree s = lowest 0 (xs @ (False, l) # ys)" "p = total xs" "apart xs" "apart ys"
    "ys = [] \<or> fst (hd ys)"
  shows "\<exists>b. plug_backward p s = s\<lparr>mem_bytes := b\<rparr> \<and> heap_rep (s\<lparr>mem_bytes := b\<rparr>) (coalesce (xs @ (False, l) # ys)) \<and>
    keeps (xs @ (False, l) # ys) s (s\<lparr>mem_bytes := b\<rparr>)"
proof -
  note B = rep_block [OF assms(1,3)]
  show ?thesis
  proof (cases "xs \<noteq> [] \<and> \<not> fst (last xs)")
    case True
    then obtain ws k where x: "xs = ws @ [(False, k)]" by (cases xs rule: rev_cases) (auto split: prod.splits)
    have r: "heap_rep s (ws @ (False, k) # (False, l) # ys)" using assms(1) x by simp
    note B' = rep_block [OF r refl]
    have m: "item_prev s p = total ws" "total ws \<noteq> p" "p = total ws + k" using B(2) B'(6) x assms(3) by simp_all
    have lf: "lfree s \<noteq> p" using lowest_upto [of 0 ws k "(False, l) # ys"] assms(2) x m(2,3) B'(6) by simp
    obtain s' where s': "s' = set_prev (item_next (set_next (total ws) (item_next (set_pool p 0 s) p) (set_pool p 0 s)) p) (total ws)
        (set_next (total ws) (item_next (set_pool p 0 s) p) (set_pool p 0 s))" by blast
    note J = rep_join [OF r refl m(3) s']
    have e: "plug_backward p s = s'" using m B'(3) lf by (simp add: plug_backward_def Let_def s')
    have a: "apart (ws @ [(False, k)])" using assms(4) x by simp
    have "coalesce ((False, k) # (False, l) # ys) = (False, k + l) # ys"
      using coalesce_apart [of "(False, k + l) # ys"] assms(5,6) by (auto simp: apart_Cons)
    then have c: "coalesce (xs @ (False, l) # ys) = ws @ (False, k + l) # ys"
      using coalesce_free [OF a, of "(False, l) # ys"] x by simp
    have "keeps (xs @ (False, l) # ys) s s'"
      by (rule keeps_less [OF J(2)]) (auto simp: client_def live_byte_append x add.assoc)
    then show ?thesis using e J(1,3) c by auto
  next
    case False
    have "plug_backward p s = s"
    proof (cases xs rule: rev_cases)
      case Nil
      then show ?thesis using B(2) assms(3) by (simp add: plug_backward_def Let_def)
    next
      case (snoc ws x)
      then obtain k where x: "x = (True, k)" using False by (cases x) simp
      have "MEM_ISUSED s (total ws)" using rep_block(3) [of s ws True k "(False, l) # ys"] assms(1) snoc x by simp
      then show ?thesis using B(2) snoc by (simp add: plug_backward_def Let_def)
    qed
    moreover have "coalesce (xs @ (False, l) # ys) = xs @ (False, l) # ys"
      by (rule coalesce_apart) (use False assms(4-6) in \<open>auto simp: apart_append apart_Cons\<close>)
    ultimately show ?thesis using assms(1) by (intro exI [of _ "mem_bytes s"]) (simp add: keeps_def)
  qed
qed

lemma coalesce_more: "coalesce ((False, l) # ys) = (False, k) # zs \<Longrightarrow> coalesce ((False, m + l) # ys) = (False, m + k) # zs"
proof (induction ys arbitrary: l)
  case (Cons y ys)
  then show ?case by (cases y; cases "fst y") (auto simp: add.assoc)
qed simp

lemma plug_holes_ok:
  assumes "heap_rep s (xs @ (False, l) # ys)" "lfree s = lowest 0 (xs @ (False, l) # ys)" "p = total xs" "apart xs" "apart ys"
  shows "\<exists>b. plug_holes p s = Some (s\<lparr>mem_bytes := b\<rparr>) \<and> heap_rep (s\<lparr>mem_bytes := b\<rparr>) (coalesce (xs @ (False, l) # ys)) \<and>
    keeps (xs @ (False, l) # ys) s (s\<lparr>mem_bytes := b\<rparr>)"
proof -
  have "lfree s \<le> p" using lowest_upto [of 0 xs l ys] assms(2,3) by simp
  from plug_forward_ok [OF assms(1) this assms(3,5)] obtain b k zs where f: "plug_forward p s = s\<lparr>mem_bytes := b\<rparr>"
    "heap_rep (s\<lparr>mem_bytes := b\<rparr>) (xs @ (False, k) # zs)" "coalesce ((False, l) # ys) = (False, k) # zs"
    "keeps (xs @ (False, k) # zs) s (s\<lparr>mem_bytes := b\<rparr>)"
    "\<And>a. client (xs @ (False, l) # ys) a \<Longrightarrow> client (xs @ (False, k) # zs) a" "apart zs" "zs = [] \<or> fst (hd zs)" by auto
  have "lfree (s\<lparr>mem_bytes := b\<rparr>) = lowest 0 (xs @ (False, k) # zs)" using assms(2) by (simp add: lowest_append)
  from plug_backward_ok [OF f(2) this assms(3,4) f(6,7)] obtain b' where
    g: "plug_backward p (s\<lparr>mem_bytes := b\<rparr>) = s\<lparr>mem_bytes := b'\<rparr>" "heap_rep (s\<lparr>mem_bytes := b'\<rparr>) (coalesce (xs @ (False, k) # zs))"
    "keeps (xs @ (False, k) # zs) (s\<lparr>mem_bytes := b\<rparr>) (s\<lparr>mem_bytes := b'\<rparr>)" by auto
  have "coalesce (xs @ (False, l) # ys) = coalesce (xs @ (False, k) # zs)"
  proof (cases "xs \<noteq> [] \<and> \<not> fst (last xs)")
    case True
    then obtain ws m where x: "xs = ws @ [(False, m)]" by (cases xs rule: rev_cases) (auto split: prod.splits)
    have a: "apart (ws @ [(False, m)])" using assms(4) x by simp
    have "coalesce ((False, m) # (False, l) # ys) = coalesce ((False, m) # (False, k) # zs)"
      using coalesce_more [OF f(3), of m] coalesce_apart [of "(False, m + k) # zs"] f(6,7) by (auto simp: apart_Cons)
    then show ?thesis using coalesce_free [OF a] x by simp
  next
    case False
    show ?thesis
    proof (cases xs rule: rev_cases)
      case Nil
      then show ?thesis using f(3) coalesce_apart [of "(False, k) # zs"] f(6,7) by (auto simp: apart_Cons)
    next
      case (snoc ws x)
      then obtain m where x: "x = (True, m)" using False by (cases x) simp
      have a: "apart (ws @ [(True, m)])" using assms(4) snoc x by simp
      have "coalesce ((False, k) # zs) = (False, k) # zs" by (rule coalesce_apart) (use f(6,7) in \<open>auto simp: apart_Cons\<close>)
      then show ?thesis using coalesce_used [OF a] f(3) snoc x by simp
    qed
  qed
  moreover have "p < heap_end s" by (rule rep_block(7) [OF assms(1,3)])
  moreover have "keeps (xs @ (False, l) # ys) s (s\<lparr>mem_bytes := b'\<rparr>)"
    using keeps_less [OF keeps_trans [OF f(4) g(3)] f(5)] by blast
  ultimately show ?thesis using f(1) g(1,2) by (auto simp: plug_holes_def)
qed

lemma free_ok:
  assumes "heap_ok s bs" "(r, n) \<in> set (live 0 bs)"
  shows "\<exists>s'. rt_smem_free (Some r) s = Some s' \<and> heap_ok s' (spec_free r bs) \<and> keeps (spec_free r bs) s s'"
proof -
  note H = heap_okD [OF assms(1)]
  obtain xs l ys where bs: "bs = xs @ (True, l) # ys" "r = 0 + total xs + 16" by (rule live_at [OF assms(2)])
  let ?p = "total xs" and ?bs = "xs @ (False, l) # ys"
  note R = H(1) [unfolded bs(1)]
  note D = heap_repD [OF R] and B = rep_block [OF R refl]
  have ok: "blocks_ok xs" "blocks_ok ys" using D(2) by simp_all
  have sf: "spec_free r bs = coalesce ?bs" using release_at [of 0 xs r True l ys] ok bs by (simp add: spec_free_def)
  have nx: "MEM_POOL s (?p + l) = small_mem s"
  proof (cases ys)
    case Nil
    then show ?thesis using rep_end(2) [OF R] D(4) by simp
  next
    case (Cons y zs)
    then show ?thesis using rep_block(4) [of s "xs @ [(True, l)]" "fst y" "snd y" zs "?p + l"] R by (cases y) simp
  qed
  have "8 dvd heap_ptr s + r" using D(8) blocks_dvd [OF ok(1)] bs(2) by simp
  then have asserts: "(heap_ptr s + r) mod RT_ALIGN_SIZE = 0" "sub r SIZEOF_STRUCT_MEM = Some ?p" "r < heap_end s"
    using bs(2) B(5) D(2) by (auto simp: RT_ALIGN_SIZE_def SIZEOF_STRUCT_MEM_def sub_def)
  obtain s1 where s1: "s1 = set_pool ?p (MEM_FREED s) s" by blast
  have M: "heap_rep s1 ?bs" "keeps ?bs s s1" using rep_mark [OF R refl, of False] by (simp_all add: s1)
  obtain s2 where s2: "s2 = (if ?p < lfree s1 then s1\<lparr>lfree := ?p\<rparr> else s1)" by blast
  have "?p + 16 \<le> lowest (?p + l) ys" using B(6) lowest_ge [of "?p + l" ys] by simp
  then have lf: "lfree s2 = lowest 0 ?bs"
    using H(2) lowest_less [OF _ ok(1), of 0] by (cases "\<forall>x \<in> set xs. fst x") (auto simp: s2 s1 bs(1) lowest_append)
  have nx1: "item_next s2 ?p = ?p + l" using rep_block(1) [OF M(1) refl] by (simp add: s2 item_next_def)
  have u: "mem_used s2 = in_use xs + l + in_use ys" using H(3) by (simp add: s2 s1 bs(1))
  obtain s3 where s3: "s3 = s2\<lparr>mem_used := in_use xs + in_use ys\<rparr>" by blast
  have "heap_rep s3 ?bs" "lfree s3 = lowest 0 ?bs" using M(1) lf by (simp_all add: s3 s2)
  moreover have "apart xs" "apart ys" using H(5) by (auto simp: bs(1) apart_append apart_Cons)
  ultimately obtain b where b: "plug_holes ?p s3 = Some (s3\<lparr>mem_bytes := b\<rparr>)" "heap_rep (s3\<lparr>mem_bytes := b\<rparr>) (coalesce ?bs)"
    "keeps ?bs s3 (s3\<lparr>mem_bytes := b\<rparr>)" using plug_holes_ok [of s3 xs l ys ?p] by blast
  have "rt_smem_free (Some r) s = plug_holes ?p s3"
    using asserts B(1,3,4) nx nx1 u by (simp add: rt_smem_free_def Let_def s3 sub_def flip: s1 s2)
  moreover have "heap_ok (s3\<lparr>mem_bytes := b\<rparr>) (coalesce ?bs)"
    by (rule heap_okI) (use b(2) lf H(3,4) apart_coalesce in \<open>auto simp: s3 s2 s1 bs(1)\<close>)
  moreover have "keeps ?bs s (s3\<lparr>mem_bytes := b\<rparr>)" using M(2) b(3) by (auto simp: keeps_def s3 s2 s1)
  ultimately show ?thesis using b(1) sf by simp
qed

text \<open>Clients write what they like into the data of their blocks.\<close>

lemma client_writes:
  assumes "heap_ok s bs" "\<And>a. \<not> live_byte 0 bs a \<Longrightarrow> b a = mem_bytes s a"
  shows "heap_ok (s\<lparr>mem_bytes := b\<rparr>) bs"
proof -
  note H = heap_okD [OF assms(1)]
  note D = heap_repD [OF H(1)]
  have "linked (small_mem s) b 0 0 bs"
    by (rule linked_cong [OF D(1)]) (rule assms(2), rule header_not_live [OF _ D(2)])
  moreover have "get32 b (total bs) = get32 (mem_bytes s) (total bs)"
    by (rule get32_cong, rule assms(2)) (use live_byte_bounds [OF _ D(2), of 0] in force)
  ultimately have "heap_rep (s\<lparr>mem_bytes := b\<rparr>) bs" by (intro rep_bytes [OF H(1)]) (use D in auto)
  then show ?thesis by (intro heap_okI) (use H in auto)
qed

definition spec_realloc :: "nat option \<Rightarrow> u32 \<Rightarrow> nat \<Rightarrow> blocks \<Rightarrow> nat option \<times> blocks" where
  "spec_realloc rmem newsize m bs = (let n = unat (RT_ALIGN newsize) in
     if n > m then (None, bs)
     else if n = 0 then (None, case rmem of None \<Rightarrow> bs | Some r \<Rightarrow> spec_free r bs)
     else (case rmem of None \<Rightarrow> spec_alloc (max 16 n) bs
     | Some r \<Rightarrow> (case map_of (live 0 bs) r of None \<Rightarrow> (None, bs) | Some l \<Rightarrow>
         if l = n then (Some r, bs)
         else if n + 28 < l then (Some r, coalesce (shrink r n 0 bs))
         else (case spec_alloc (max 16 n) bs of
           (None, bs) \<Rightarrow> (None, bs)
         | (Some d, bs) \<Rightarrow> (Some d, spec_free r bs)))))"

text \<open>The bytes of block \<open>r\<close> are at \<open>d\<close>, up to the smaller of the two sizes.\<close>

definition moved :: "nat \<Rightarrow> nat \<Rightarrow> nat \<Rightarrow> rt_small_mem \<Rightarrow> rt_small_mem \<Rightarrow> bool" where
  "moved r d n s s' \<longleftrightarrow> (\<forall>i < n. mem_bytes s' (d + i) = mem_bytes s (r + i))"

lemma live_map_of: "blocks_ok bs \<Longrightarrow> (r, n) \<in> set (live p bs) \<Longrightarrow> map_of (live p bs) r = Some n"
proof (induction p bs rule: live.induct)
  case (2 p u l bs)
  then show ?case using live_bounds [of r n "p + l" bs] by (auto split: if_splits)
qed simp

lemma align_again: "RT_ALIGN n \<noteq> 0 \<Longrightarrow> unat (RT_ALIGN (RT_ALIGN n)) = unat (RT_ALIGN n)"
proof -
  assume "RT_ALIGN n \<noteq> 0"
  then have "unat (RT_ALIGN n) \<noteq> 0" by (simp add: unat_eq_0)
  then have "unat n \<le> 0xFFFFFFF8" "unat (RT_ALIGN n) = (unat n + 7) div 8 * 8" using rt_align [of n] by (auto split: if_splits)
  then show ?thesis using rt_align [of "RT_ALIGN n"] by auto
qed

lemma place_live:
  "place n p bs = Some (r, bs') \<Longrightarrow> blocks_ok bs \<Longrightarrow> (\<exists>k. n \<le> k \<and> (r, k) \<in> set (live p bs') \<and>
     (\<forall>x. x \<in> set (live p bs') \<longleftrightarrow> x = (r, k) \<or> x \<in> set (live p bs)) \<and> (\<forall>a. r \<le> a \<and> a < r + k \<longrightarrow> \<not> live_byte p bs a)) \<and>
     total bs' = total bs \<and> p + 16 \<le> r"
proof (induction n p bs arbitrary: r bs' rule: place.induct)
  case (2 n p u l bs)
  show ?case
  proof (cases "\<not> u \<and> n + 16 \<le> l")
    case True
    have far: "\<not> live_byte (p + l) bs a" if "a < p + l" for a using live_byte_bounds [of "p + l" bs a] 2(3) that by auto
    show ?thesis
    proof (cases "n + 48 \<le> l")
      case T: True
      then show ?thesis using 2(2) True far by (intro conjI exI [of _ n]) auto
    next
      case F: False
      then show ?thesis using 2(2) True far by (intro conjI exI [of _ "l - 16"]) auto
    qed
  next
    case False
    then obtain bs1 where p: "place n (p + l) bs = Some (r, bs1)" "bs' = (u, l) # bs1" using 2(2) by (auto split: if_splits)
    from 2(1) [OF False p(1)] 2(3) obtain k where k: "n \<le> k" "(r, k) \<in> set (live (p + l) bs1)"
      "\<And>x. x \<in> set (live (p + l) bs1) \<longleftrightarrow> x = (r, k) \<or> x \<in> set (live (p + l) bs)"
      "\<And>a. r \<le> a \<Longrightarrow> a < r + k \<Longrightarrow> \<not> live_byte (p + l) bs a" "total bs1 = total bs" "p + l + 16 \<le> r" by auto
    then show ?thesis using p(2) by (intro conjI exI [of _ k]) auto
  qed
qed simp

lemma live_Cons: "set (live p ((u, l) # bs)) = (if u then insert (p + 16, l - 16) (set (live (p + l) bs)) else set (live (p + l) bs))"
  by simp

lemma live_far: "blocks_ok bs \<Longrightarrow> r < p + 16 \<Longrightarrow> {x \<in> set (live p bs). fst x \<noteq> r} = set (live p bs)"
  using live_bounds [of "fst x" "snd x" p bs for x] by fastforce

lemma filter_insert: "{x \<in> insert a A. P x} = (if P a then insert a {x \<in> A. P x} else {x \<in> A. P x})"
  by auto

lemma live_release: "blocks_ok bs \<Longrightarrow> set (live p (release r p bs)) = {x \<in> set (live p bs). fst x \<noteq> r}"
proof (induction bs arbitrary: p)
  case (Cons x bs)
  obtain u l where x: "x = (u, l)" by (cases x)
  have ok: "blocks_ok bs" "16 \<le> l" using Cons.prems x by simp_all
  show ?case
  proof (cases "p + 16 = r")
    case True
    then have "{y \<in> set (live (p + l) bs). fst y \<noteq> r} = set (live (p + l) bs)" using ok by (intro live_far) auto
    then show ?thesis using True unfolding x live_Cons release.simps if_P [OF True]
      by (cases u) (simp_all only: if_True if_False filter_insert fst_conv, simp_all)
  next
    case False
    then show ?thesis using Cons.IH [OF ok(1), of "p + l"] unfolding x release.simps if_not_P [OF False] live_Cons
      by (cases u) (simp_all only: if_True if_False filter_insert fst_conv, simp)
  qed
qed simp

lemma live_free: "blocks_ok bs \<Longrightarrow> set (live 0 (spec_free r bs)) = {x \<in> set (live 0 bs). fst x \<noteq> r}"
  by (simp add: spec_free_def live_release)

definition same_block :: "nat \<times> nat \<Rightarrow> rt_small_mem \<Rightarrow> rt_small_mem \<Rightarrow> bool" where
  "same_block x s s' \<longleftrightarrow> (\<forall>a. fst x \<le> a \<and> a < fst x + snd x \<longrightarrow> mem_bytes s' a = mem_bytes s a)"

lemma keeps_block: "keeps bs s s' \<Longrightarrow> x \<in> set (live 0 bs) \<Longrightarrow> same_block x s s'"
  by (cases x) (auto simp: keeps_def same_block_def client_def live_byte_iff)

lemma keeps_behind: "keeps bs s s' \<Longrightarrow> total bs + 16 \<le> a \<Longrightarrow> mem_bytes s' a = mem_bytes s a"
  by (simp add: keeps_def client_def)

lemma heap_blocks: "heap_ok s bs \<Longrightarrow> blocks_ok bs \<and> total bs = mem_size_aligned s + 16"
  by (simp add: heap_ok_def heap_rep_def)

lemma spec_alloc_live:
  assumes "spec_alloc n bs = (Some d, bs')" "blocks_ok bs"
  obtains k where "n \<le> k" "(d, k) \<in> set (live 0 bs')" "\<And>x. x \<in> set (live 0 bs') \<longleftrightarrow> x = (d, k) \<or> x \<in> set (live 0 bs)"
    "\<And>a. d \<le> a \<Longrightarrow> a < d + k \<Longrightarrow> \<not> live_byte 0 bs a" "total bs' = total bs"
  using place_live [of n 0 bs d bs'] assms by (auto simp: spec_alloc_def split: option.splits)

lemma shrink_ok:
  assumes "heap_ok s (xs @ (True, l + 16) # ys)" "n + 28 < l" "8 dvd n" "n \<noteq> 0" "p = total xs"
    "s1 = smem_split p (p + 16 + n) (s\<lparr>mem_used := mem_used s - (l - n)\<rparr>)"
    "s2 = (if p + 16 + n < lfree s1 then s1\<lparr>lfree := p + 16 + n\<rparr> else s1)"
    "bs = xs @ (True, n + 16) # (False, l - n) # ys"
  shows "\<exists>s'. plug_holes (p + 16 + n) s2 = Some s' \<and> heap_ok s' (coalesce bs) \<and> keeps bs s s'" "l - n \<le> mem_used s"
proof -
  note H = heap_okD [OF assms(1)]
  note D = heap_repD [OF H(1)] and B = rep_block [OF H(1) assms(5)]
  show "l - n \<le> mem_used s" using H(3) by simp
  have ok: "blocks_ok xs" "blocks_ok ys" using D(2) by simp_all
  have n: "8 \<le> n" using assms(3,4) by (auto dest: dvd_imp_le)
  let ?s = "s\<lparr>mem_used := mem_used s - (l - n)\<rparr>"
  have r: "heap_rep ?s (xs @ (True, l + 16) # ys)" using H(1) by simp
  have e: "p + 16 + n = p + (n + 16)" "l + 16 - (n + 16) = l - n" by simp_all
  have S: "heap_rep s1 bs" "keeps bs ?s s1" "\<exists>b. s1 = ?s\<lparr>mem_bytes := b\<rparr>"
    using rep_split [OF r assms(5), of "n + 16"] assms(2,3) n unfolding assms(6,8) e by simp_all
  obtain b1 where b1: "s1 = ?s\<lparr>mem_bytes := b1\<rparr>" using S(3) by blast
  have bs: "bs = (xs @ [(True, n + 16)]) @ (False, l - n) # ys" by (simp add: assms(8))
  have lf: "lfree s2 = lowest 0 bs"
    using H(2) lowest_less [OF _ ok(1), of 0] lowest_ge [of "p + (l + 16)" ys] assms(2,5)
    by (cases "\<forall>x \<in> set xs. fst x") (auto simp: assms(7,8) b1 lowest_append)
  have "heap_rep s2 bs" using S(1) by (simp add: assms(7))
  moreover have "apart (xs @ [(True, n + 16)])" "apart ys" using H(5) by (auto simp: apart_append apart_Cons)
  ultimately obtain b where b: "plug_holes (p + 16 + n) s2 = Some (s2\<lparr>mem_bytes := b\<rparr>)" "heap_rep (s2\<lparr>mem_bytes := b\<rparr>) (coalesce bs)"
    "keeps bs s2 (s2\<lparr>mem_bytes := b\<rparr>)"
    using plug_holes_ok [of s2 "xs @ [(True, n + 16)]" "l - n" ys "p + 16 + n"] lf assms(5) unfolding bs by auto
  have "heap_ok (s2\<lparr>mem_bytes := b\<rparr>) (coalesce bs)"
  proof (rule heap_okI)
    show "lfree (s2\<lparr>mem_bytes := b\<rparr>) = lowest 0 (coalesce bs)" using lf by simp
    show "mem_used (s2\<lparr>mem_bytes := b\<rparr>) = in_use (coalesce bs)"
      using H(3) assms(2) by (simp add: assms(7,8) b1)
    show "mem_used (s2\<lparr>mem_bytes := b\<rparr>) \<le> mem_max (s2\<lparr>mem_bytes := b\<rparr>)" using H(4) by (simp add: assms(7) b1)
  qed (use b(2) apart_coalesce in auto)
  moreover have "keeps bs s (s2\<lparr>mem_bytes := b\<rparr>)" using S(2) b(3) by (auto simp: keeps_def assms(7))
  ultimately show "\<exists>s'. plug_holes (p + 16 + n) s2 = Some s' \<and> heap_ok s' (coalesce bs) \<and> keeps bs s s'" using b(1) by blast
qed

text \<open>Every block but the one that is reallocated stays, and with it its bytes; what lies behind the heap stays too.\<close>

definition others_stay :: "nat option \<Rightarrow> blocks \<Rightarrow> blocks \<Rightarrow> rt_small_mem \<Rightarrow> rt_small_mem \<Rightarrow> bool" where
  "others_stay rmem bs bs' s s' \<longleftrightarrow>
     (\<forall>x \<in> set (live 0 bs). rmem \<noteq> Some (fst x) \<longrightarrow> x \<in> set (live 0 bs') \<and> same_block x s s') \<and>
     (\<forall>a \<ge> total bs + 16. mem_bytes s' a = mem_bytes s a)"

lemma keeps_others:
  assumes "keeps bs' s s'" "total bs' = total bs" "\<And>x. x \<in> set (live 0 bs) \<Longrightarrow> rmem \<noteq> Some (fst x) \<Longrightarrow> x \<in> set (live 0 bs')"
  shows "others_stay rmem bs bs' s s'"
  using assms(3) keeps_block [OF assms(1)] keeps_behind [OF assms(1)] assms(2) by (simp add: others_stay_def)

lemma spec_alloc_stay:
  assumes "blocks_ok bs" "keeps bs s s'"
  shows "others_stay None bs (snd (spec_alloc n bs)) s s'"
proof (cases "spec_alloc n bs")
  case (Pair d bs')
  then show ?thesis
  proof (cases d)
    case None
    then show ?thesis using Pair keeps_others [OF assms(2)] by (auto simp: spec_alloc_def split: option.splits)
  next
    case (Some e)
    then obtain k where "\<And>x. x \<in> set (live 0 bs') \<longleftrightarrow> x = (e, k) \<or> x \<in> set (live 0 bs)"
      using Pair by (auto elim!: spec_alloc_live [OF _ assms(1)])
    then show ?thesis using Pair keeps_block [OF assms(2)] keeps_behind [OF assms(2)] by (simp add: others_stay_def)
  qed
qed

lemma align_rounded:
  assumes "unat (RT_ALIGN k) \<noteq> 0"
  shows "RT_ALIGN k \<noteq> 0" "rounded (RT_ALIGN k) = max 16 (unat (RT_ALIGN k))"
proof -
  show n: "RT_ALIGN k \<noteq> 0" using assms by auto
  show "rounded (RT_ALIGN k) = max 16 (unat (RT_ALIGN k))" by (simp only: rounded_def align_again [OF n])
qed

lemma alloc_fresh:
  assumes "\<And>a. e \<le> a \<Longrightarrow> a < e + m \<Longrightarrow> \<not> live_byte 0 bs a" "16 \<le> m" "(r, l) \<in> set (live 0 bs)" "blocks_ok bs"
  shows "e \<noteq> r"
proof
  assume "e = r"
  then show False using assms(1) [of e] assms(2) live_bounds [OF assms(3,4)] assms(3) by (auto simp: live_byte_iff)
qed

lemma total_release [simp]: "total (release r p bs) = total bs"
  by (induction r p bs rule: release.induct) auto

lemma total_free [simp]: "total (spec_free r bs) = total bs"
  by (simp add: spec_free_def)

lemma live_shrink:
  assumes "r = total xs + 16" "n < l"
  shows "set (live 0 (coalesce (xs @ (True, n + 16) # (False, l - n) # ys))) =
    insert (r, n) (set (live 0 xs) \<union> set (live (total xs + l + 16) ys))"
  using assms by (simp add: live_append add_ac)

lemma live_mid: "set (live 0 (xs @ (True, l + 16) # ys)) = insert (total xs + 16, l) (set (live 0 xs) \<union> set (live (total xs + l + 16) ys))"
  by (simp add: live_append add.assoc)

lemma realloc_null_ok:
  assumes "heap_ok s bs"
  shows "\<exists>s'. rt_smem_realloc None k s = Some (fst (spec_realloc None k (mem_size_aligned s) bs), s') \<and>
    heap_ok s' (snd (spec_realloc None k (mem_size_aligned s) bs)) \<and>
    others_stay None bs (snd (spec_realloc None k (mem_size_aligned s) bs)) s s'"
proof -
  let ?n = "unat (RT_ALIGN k)"
  have ok: "blocks_ok bs" using heap_blocks [OF assms(1)] by simp
  have rfl: "others_stay None bs bs s s" by (simp add: others_stay_def same_block_def)
  show ?thesis
  proof (cases "?n > mem_size_aligned s \<or> ?n = 0")
    case True
    then show ?thesis using assms rfl by (auto simp: rt_smem_realloc_def spec_realloc_def Let_def rt_smem_free_def)
  next
    case False
    then have rk: "RT_ALIGN k \<noteq> 0" "rounded (RT_ALIGN k) = max 16 ?n" using align_rounded [of k] by auto
    from alloc_ok [OF assms rk(1)] spec_alloc_stay [OF ok] rk(2) False show ?thesis
      by (auto simp: rt_smem_realloc_def spec_realloc_def Let_def)
  qed
qed

lemma realloc_block_ok:
  assumes "heap_ok s bs" "(r, l) \<in> set (live 0 bs)"
  shows "\<exists>s'. rt_smem_realloc (Some r) k s = Some (fst (spec_realloc (Some r) k (mem_size_aligned s) bs), s') \<and>
    heap_ok s' (snd (spec_realloc (Some r) k (mem_size_aligned s) bs)) \<and>
    others_stay (Some r) bs (snd (spec_realloc (Some r) k (mem_size_aligned s) bs)) s s' \<and>
    (\<forall>d. fst (spec_realloc (Some r) k (mem_size_aligned s) bs) = Some d \<longrightarrow> moved r d (min l (unat (RT_ALIGN k))) s s')"
proof -
  let ?n = "unat (RT_ALIGN k)"
  have ok: "blocks_ok bs" using heap_blocks [OF assms(1)] by simp
  have rfl: "others_stay (Some r) bs bs s s" by (simp add: others_stay_def same_block_def)
  have n8: "8 dvd ?n" by (simp add: rt_align)
  have ml: "map_of (live 0 bs) r = Some l" by (rule live_map_of [OF ok assms(2)])
  obtain xs m ys where "bs = xs @ (True, m) # ys" "r = 0 + total xs + 16" "l = m - 16" by (rule live_at [OF assms(2)])
  then have bs: "bs = xs @ (True, l + 16) # ys" "r = total xs + 16" using ok by auto
  have rep: "heap_rep s (xs @ (True, l + 16) # ys)" using heap_okD(1) [OF assms(1)] bs(1) by simp
  note B = rep_block [OF rep refl]
  have "8 dvd heap_ptr s + r" using heap_repD(8) [OF rep] blocks_dvd [of xs] ok bs by simp
  then have a: "(heap_ptr s + r) mod RT_ALIGN_SIZE = 0 \<and> r < heap_end s" "sub r SIZEOF_STRUCT_MEM = Some (total xs)"
    "sub (item_next s (total xs)) (total xs + SIZEOF_STRUCT_MEM) = Some l"
    using B(1,5) bs ok by (auto simp: RT_ALIGN_SIZE_def SIZEOF_STRUCT_MEM_def sub_def)
  consider "?n > mem_size_aligned s" | "\<not> ?n > mem_size_aligned s" "?n = 0"
    | "\<not> ?n > mem_size_aligned s" "?n \<noteq> 0" "l = ?n" | "\<not> ?n > mem_size_aligned s" "?n \<noteq> 0" "?n + 28 < l"
    | "\<not> ?n > mem_size_aligned s" "?n \<noteq> 0" "l \<noteq> ?n" "\<not> ?n + 28 < l" by blast
  then show ?thesis
  proof cases
    case 1
    then show ?thesis using assms(1) rfl by (simp add: rt_smem_realloc_def spec_realloc_def Let_def)
  next
    case 2
    obtain s' where s': "rt_smem_free (Some r) s = Some s'" "heap_ok s' (spec_free r bs)" "keeps (spec_free r bs) s s'"
      using free_ok [OF assms] by blast
    have "others_stay (Some r) bs (spec_free r bs) s s'"
      by (rule keeps_others [OF s'(3)]) (use live_free [OF ok] in auto)
    then show ?thesis using 2 s'(1,2) by (simp add: rt_smem_realloc_def spec_realloc_def Let_def)
  next
    case 3
    then show ?thesis using assms(1) rfl a ml by (simp add: rt_smem_realloc_def spec_realloc_def Let_def moved_def)
  next
    case 4
    let ?bs = "xs @ (True, ?n + 16) # (False, l - ?n) # ys"
    obtain u where u: "u = mem_used s - (l - ?n)" by blast
    obtain s1 where s1: "s1 = smem_split (total xs) (total xs + 16 + ?n) (s\<lparr>mem_used := u\<rparr>)" by blast
    obtain s2 where s2: "s2 = (if total xs + 16 + ?n < lfree s1 then s1\<lparr>lfree := total xs + 16 + ?n\<rparr> else s1)" by blast
    note S = shrink_ok [OF assms(1) [unfolded bs(1)] 4(3) n8 4(2) refl s1 [unfolded u] s2 refl]
    obtain s' where s': "plug_holes (total xs + 16 + ?n) s2 = Some s'" "heap_ok s' (coalesce ?bs)" "keeps ?bs s s'" using S(1) by blast
    have sh: "coalesce (shrink r ?n 0 bs) = coalesce ?bs"
      using shrink_at [of 0 xs r ?n True "l + 16" ys] bs ok by simp
    have c: "rt_smem_realloc (Some r) k s = Some (Some r, s')"
    proof -
      have "sub (mem_used s) (l - ?n) = Some u" using S(2) by (simp add: sub_def u)
      then show ?thesis
        using 4 a(1) s'(1) [unfolded s2] unfolding rt_smem_realloc_def Let_def MIN_SIZE_def SIZEOF_STRUCT_MEM_def
        by (simp add: a(2,3) [unfolded SIZEOF_STRUCT_MEM_def] flip: s1 split: if_splits)
    qed
    have sp: "spec_realloc (Some r) k (mem_size_aligned s) bs = (Some r, coalesce ?bs)"
      using 4 ml sh by (simp add: spec_realloc_def Let_def)
    have lv: "set (live 0 (coalesce ?bs)) = insert (r, ?n) (set (live 0 xs) \<union> set (live (total xs + l + 16) ys))"
      by (rule live_shrink) (use bs 4 in auto)
    have "others_stay (Some r) bs (coalesce ?bs) s s'"
    proof (rule keeps_others)
      show "keeps (coalesce ?bs) s s'" using s'(3) by simp
      show "total (coalesce ?bs) = total bs" using bs 4 by simp
      show "x \<in> set (live 0 (coalesce ?bs))" if "x \<in> set (live 0 bs)" "Some r \<noteq> Some (fst x)" for x
        using that unfolding lv bs(1) live_mid bs(2) [symmetric] by auto
    qed
    moreover have "moved r r (min l ?n) s s'"
      using keeps_block [OF s'(3), of "(r, ?n)"] lv by (auto simp: moved_def same_block_def)
    ultimately show ?thesis using c s'(2) unfolding sp by simp
  next
    case 5
    then have rk: "RT_ALIGN k \<noteq> 0" "rounded (RT_ALIGN k) = max 16 ?n" using align_rounded [of k] by auto
    obtain s1 where s1: "rt_smem_alloc (RT_ALIGN k) s = Some (fst (spec_alloc (max 16 ?n) bs), s1)"
      "heap_ok s1 (snd (spec_alloc (max 16 ?n) bs))" "keeps bs s s1" using alloc_ok [OF assms(1) rk(1)] rk(2) by auto
    obtain d bs1 where d: "spec_alloc (max 16 ?n) bs = (d, bs1)" by fastforce
    have c: "rt_smem_realloc (Some r) k s = do {
        (nmem, s) \<leftarrow> rt_smem_alloc (RT_ALIGN k) s;
        (case nmem of None \<Rightarrow> Some (None, s)
         | Some d \<Rightarrow> do {
             s \<leftarrow> rt_smem_free (Some r) (s\<lparr>mem_bytes := rt_memcpy d r (if l < ?n then l else ?n) (mem_bytes s)\<rparr>);
             Some (Some d, s)
           })
      }"
      using 5 a by (simp add: rt_smem_realloc_def Let_def MIN_SIZE_def SIZEOF_STRUCT_MEM_def)
    show ?thesis
    proof (cases d)
      case None
      have "bs1 = bs" using d None by (auto simp: spec_alloc_def split: option.splits)
      moreover have "others_stay (Some r) bs bs s s1" by (rule keeps_others [OF s1(3)]) auto
      ultimately show ?thesis using c s1 d None 5 ml by (simp add: spec_realloc_def Let_def)
    next
      case (Some e)
      obtain m where m: "max 16 ?n \<le> m" "(e, m) \<in> set (live 0 bs1)" "\<And>x. x \<in> set (live 0 bs1) \<longleftrightarrow> x = (e, m) \<or> x \<in> set (live 0 bs)"
        "\<And>a. e \<le> a \<Longrightarrow> a < e + m \<Longrightarrow> \<not> live_byte 0 bs a" "total bs1 = total bs"
        using spec_alloc_live [OF d [unfolded Some] ok] by blast
      let ?c = "if l < ?n then l else ?n"
      obtain s2 where s2: "s2 = s1\<lparr>mem_bytes := rt_memcpy e r ?c (mem_bytes s1)\<rparr>" by blast
      have h2: "heap_ok s2 bs1" unfolding s2
      proof (rule client_writes)
        show "heap_ok s1 bs1" using s1(2) d by simp
        show "rt_memcpy e r ?c (mem_bytes s1) a = mem_bytes s1 a" if "\<not> live_byte 0 bs1 a" for a
          using that m(1,2) by (auto simp: rt_memcpy_def live_byte_iff split: if_splits)
      qed
      have r1: "(r, l) \<in> set (live 0 bs1)" using m(3) assms(2) by blast
      obtain s3 where s3: "rt_smem_free (Some r) s2 = Some s3" "heap_ok s3 (spec_free r bs1)" "keeps (spec_free r bs1) s2 s3"
        using free_ok [OF h2 r1] by blast
      have sp: "spec_realloc (Some r) k (mem_size_aligned s) bs = (Some e, spec_free r bs1)"
        using 5 ml d Some by (simp add: spec_realloc_def Let_def)
      have cc: "rt_smem_realloc (Some r) k s = Some (Some e, s3)" using c s1(1) d Some s3(1) s2 by simp
      have ok1: "blocks_ok bs1" using heap_blocks [OF h2] by simp
      have lf: "set (live 0 (spec_free r bs1)) = {x \<in> set (live 0 bs1). fst x \<noteq> r}" by (rule live_free [OF ok1])
      have er: "e \<noteq> r" by (rule alloc_fresh [OF m(4) _ assms(2) ok]) (use m(1) in auto)
      have same2: "mem_bytes s2 a = mem_bytes s a" if "client bs a" for a
      proof -
        have "\<not> (e \<le> a \<and> a < e + ?c)"
          using that m(1) m(4) [of a] live_bounds [OF m(2) ok1] m(5) by (auto simp: client_def)
        then show ?thesis using s1(3) that by (auto simp: s2 rt_memcpy_def keeps_def)
      qed
      have "others_stay (Some r) bs (spec_free r bs1) s s3"
        unfolding others_stay_def
      proof (intro conjI ballI allI impI)
        fix x assume x: "x \<in> set (live 0 bs)" "Some r \<noteq> Some (fst x)"
        show "x \<in> set (live 0 (spec_free r bs1))" using x m(3) lf by auto
        then have "same_block x s2 s3" by (rule keeps_block [OF s3(3)])
        moreover have "same_block x s s2"
          using same2 x(1) by (cases x) (auto simp: same_block_def client_def live_byte_iff)
        ultimately show "same_block x s s3" by (simp add: same_block_def)
      next
        fix a assume "total bs + 16 \<le> a"
        then show "mem_bytes s3 a = mem_bytes s a"
          using keeps_behind [OF s3(3), of a] same2 [of a] m(5) by (simp add: client_def)
      qed
      moreover have "moved r e (min l ?n) s s3"
        unfolding moved_def
      proof (intro allI impI)
        fix i assume i: "i < min l ?n"
        have "(e, m) \<in> set (live 0 (spec_free r bs1))" using lf m(2) er by simp
        then have "mem_bytes s3 (e + i) = mem_bytes s2 (e + i)"
          using keeps_block [OF s3(3)] i m(1) by (fastforce simp: same_block_def)
        also have "\<dots> = mem_bytes s1 (r + i)" using i by (auto simp: s2 rt_memcpy_def)
        also have "\<dots> = mem_bytes s (r + i)"
          using keeps_block [OF s1(3) assms(2)] i by (auto simp: same_block_def)
        finally show "mem_bytes s3 (e + i) = mem_bytes s (r + i)" .
      qed
      ultimately show ?thesis using cc s3(2) unfolding sp by simp
    qed
  qed
qed

section \<open>Runs\<close>

lemma init_fields:
  assumes "rt_smem_init b begin_addr n = Some s" "begin_addr + n < 2 ^ 32"
  shows "heap_ok s [(False, mem_size_aligned s + 16)]" "mem_size_aligned s + 88 \<le> n"
proof -
  obtain A where A: "A = (begin_addr + 7) div 8" by blast
  obtain E where E: "E = (begin_addr + n) div 8" by blast
  have al: "(A * 8 + 56 + 7) div 8 * 8 = A * 8 + 56" by simp
  have lt: "begin_addr \<le> A * 8" "A * 8 \<le> begin_addr + 7" "E * 8 \<le> begin_addr + n" using A E by simp_all
  obtain m where m: "m = E * 8 - (A * 8 + 56) - 32" by blast
  obtain s1 where s1: "s1 = \<lparr>mem_bytes = b, small_mem = of_nat (A * 8), heap_ptr = A * 8 + 56, heap_end = 0, lfree = 0,
            mem_size_aligned = m, mem_used = 0, mem_max = 0\<rparr>" by blast
  have u: "MEM_FREED s1 = of_nat (A * 8)" "MEM_USED s1 = of_nat (A * 8) OR 1" "of_nat (A * 8) AND 1 = (0 :: u32)"
  proof -
    show e: "of_nat (A * 8) AND 1 = (0 :: u32)" by (simp add: and_one_eq mod2_eq_if)
    show "MEM_FREED s1 = of_nat (A * 8)" "MEM_USED s1 = of_nat (A * 8) OR 1"
      using pool_words(1) [OF e] by (simp_all add: MEM_FREED_def MEM_USED_def s1 del: of_nat_mult)
  qed
  have c: "E * 8 - 32 \<ge> A * 8 + 56" "E * 8 > 32" 
    using assms(1) unfolding rt_smem_init_def Let_def SIZEOF_STRUCT_MEM_def A [symmetric] E [symmetric] by (auto split: if_splits)
  have big: "m + 32 < 2 ^ 32" using m lt assms(2) c by simp
  let ?h = "set_prev 0 0 (set_next 0 (m + 16) (set_pool 0 (of_nat (A * 8)) s1))"
  have e0: "item_next ?h 0 = m + 16"
    using big unat_of_nat32 [of "m + 16"] by (simp add: item_next_def get_put32_other del: of_nat_add)
  obtain t where t: "t = ?h\<lparr>heap_end := m + 16\<rparr>" by blast
  have "sub (E * 8) (A * 8 + 56) = Some (E * 8 - (A * 8 + 56))" "sub (E * 8 - (A * 8 + 56)) 32 = Some m"
    using c m by (auto simp: sub_def)
  then have s: "s = set_prev (m + 16) (m + 16) (set_next (m + 16) (m + 16) (set_pool (m + 16) (MEM_USED t) t))"
    using assms(1) c e0 unfolding rt_smem_init_def Let_def SIZEOF_STRUCT_MEM_def A [symmetric] E [symmetric] al
    by (simp add: u(1) t del: of_nat_mult of_nat_add flip: s1)
  have ut: "MEM_USED t = of_nat (A * 8) OR 1" using u(2) by (simp add: t MEM_USED_def s1)
  have f: "mem_size_aligned s = m" "heap_end s = m + 16" "lfree s = 0" "mem_used s = 0" "mem_max s = 0" "heap_ptr s = A * 8 + 56"
    "small_mem s = of_nat (A * 8)" by (simp_all add: s t s1)
  have "8 dvd m" using m c by (simp add: dvd_diff_nat)
  moreover have "linked (of_nat (A * 8)) (mem_bytes s) 0 0 [(False, m + 16)]"
    using big unat_of_nat32 [of "m + 16"] by (simp add: s t get_put32_other del: of_nat_add of_nat_mult)
  moreover have "get32 (mem_bytes s) (m + 16) = of_nat (A * 8) OR 1"
    by (simp add: s t [symmetric] ut get_put32_other del: of_nat_add of_nat_mult)
  ultimately have "heap_rep s [(False, m + 16)]"
    using f u(3) big unfolding heap_rep_def by simp
  then show "heap_ok s [(False, mem_size_aligned s + 16)]" using f by (simp add: heap_ok_def)
  show "mem_size_aligned s + 88 \<le> n" using f(1) m lt c by simp
qed

lemma init_works:
  assumes "102 \<le> n"
  shows "\<exists>s. rt_smem_init b begin_addr n = Some s \<and>
    mem_size_aligned s = (begin_addr + n) div 8 * 8 - ((begin_addr + 7) div 8 * 8 + 56) - 32"
proof -
  obtain A where A: "A = (begin_addr + 7) div 8" by blast
  obtain E where E: "E = (begin_addr + n) div 8" by blast
  have al: "(A * 8 + 56 + 7) div 8 * 8 = A * 8 + 56" by simp
  have lt: "A * 8 \<le> begin_addr + 7" "begin_addr + n \<le> E * 8 + 7" using A E by simp_all
  then have c: "E * 8 - 32 \<ge> A * 8 + 56" "E * 8 > 32" using assms by simp_all
  then have "sub (E * 8) (A * 8 + 56) = Some (E * 8 - (A * 8 + 56))" "sub (E * 8 - (A * 8 + 56)) 32 = Some (E * 8 - (A * 8 + 56) - 32)"
    by (auto simp: sub_def)
  then show ?thesis using c unfolding rt_smem_init_def Let_def SIZEOF_STRUCT_MEM_def A [symmetric] E [symmetric] al by simp
qed

datatype heap_op = Malloc u32 | Calloc u32 u32 | Realloc "nat option" u32 | Free "nat option" | Store nat u8

fun heap_do :: "heap_op \<Rightarrow> rt_small_mem \<Rightarrow> (nat option \<times> rt_small_mem) option" where
  "heap_do (Malloc n) s = rt_smem_alloc n s"
| "heap_do (Calloc c n) s = rt_calloc c n s"
| "heap_do (Realloc r n) s = rt_smem_realloc r n s"
| "heap_do (Free r) s = do { s \<leftarrow> rt_smem_free r s; Some (None, s) }"
| "heap_do (Store a v) s = Some (None, s\<lparr>mem_bytes := (mem_bytes s)(a := v)\<rparr>)"

fun spec_do :: "heap_op \<Rightarrow> blocks \<Rightarrow> nat option \<times> blocks" where
  "spec_do (Malloc n) bs = (if n = 0 then (None, bs) else spec_alloc (rounded n) bs)"
| "spec_do (Calloc c n) bs = (if c * n = 0 then (None, bs) else spec_alloc (rounded (c * n)) bs)"
| "spec_do (Realloc r n) bs = spec_realloc r n (total bs - 16) bs"
| "spec_do (Free r) bs = (None, case r of None \<Rightarrow> bs | Some r \<Rightarrow> spec_free r bs)"
| "spec_do (Store a v) bs = (None, bs)"

text \<open>
  What clients may do: give back and write only what is theirs. A product in \<open>rt_calloc\<close> above \<open>0xFFFFFFF8\<close> is
  left out here, since the block gets too small for what is cleared.
\<close>

fun op_ok :: "heap_op \<Rightarrow> blocks \<Rightarrow> bool" where
  "op_ok (Malloc n) bs = True"
| "op_ok (Calloc c n) bs = (unat (c * n) \<le> 0xFFFFFFF8)"
| "op_ok (Realloc r n) bs = (case r of None \<Rightarrow> True | Some r \<Rightarrow> r \<in> fst ` set (live 0 bs))"
| "op_ok (Free r) bs = (case r of None \<Rightarrow> True | Some r \<Rightarrow> r \<in> fst ` set (live 0 bs))"
| "op_ok (Store a v) bs = live_byte 0 bs a"

text \<open>A history of calls and of writes of the clients.\<close>

abbreviation heap_run :: "heap_op list \<Rightarrow> rt_small_mem \<Rightarrow> (nat option list \<times> rt_small_mem) option" where
  "heap_run \<equiv> run_impl heap_do"

abbreviation spec_run :: "heap_op list \<Rightarrow> blocks \<Rightarrow> nat option list \<times> blocks" where
  "spec_run \<equiv> run_spec spec_do"

abbreviation ops_ok :: "heap_op list \<Rightarrow> blocks \<Rightarrow> bool" where
  "ops_ok \<equiv> all_ok spec_do op_ok"

fun gone :: "heap_op \<Rightarrow> nat option" where
  "gone (Realloc r n) = r"
| "gone (Free r) = r"
| "gone _ = None"

lemma rounded_ge: "unat n \<le> 0xFFFFFFF8 \<Longrightarrow> unat n \<le> rounded n"
  by (simp add: rounded_def rt_align)

lemma live_ptr: "r \<in> fst ` set (live p bs) \<longleftrightarrow> (\<exists>l. (r, l) \<in> set (live p bs))"
  by force

lemma spec_alloc_total: "blocks_ok bs \<Longrightarrow> total (snd (spec_alloc n bs)) = total bs"
  using place_live [of n 0 bs] by (auto simp: spec_alloc_def split: option.splits)

lemma shrink_total: "(r, l) \<in> set (live p bs) \<Longrightarrow> blocks_ok bs \<Longrightarrow> n < l \<Longrightarrow> total (shrink r n p bs) = total bs"
proof (induction bs arbitrary: p)
  case (Cons x bs)
  obtain u m where x: "x = (u, m)" by (cases x)
  have "l = m - 16" if "p + 16 = r"
    using Cons.prems(1,2) live_bounds [of r l "p + m" bs] that x by (auto split: if_splits)
  then show ?case using Cons x by (auto split: if_splits)
qed simp

lemma spec_do_total:
  assumes "op_ok e bs" "blocks_ok bs"
  shows "total (snd (spec_do e bs)) = total bs"
proof (cases e)
  case (Realloc r n)
  have A: "total (snd (spec_alloc k bs)) = total bs" for k by (rule spec_alloc_total [OF assms(2)])
  have A': "total bs' = total bs" if "spec_alloc k bs = (d, bs')" for k d bs' using A [of k] that by simp
  show ?thesis
  proof (cases r)
    case None
    then show ?thesis using A Realloc by (simp add: spec_realloc_def Let_def)
  next
    case (Some q)
    then obtain l where l: "(q, l) \<in> set (live 0 bs)" using assms(1) Realloc by (auto simp: live_ptr)
    have "total (shrink q k 0 bs) = total bs" if "k + 28 < l" for k by (rule shrink_total [OF l assms(2)]) (use that in simp)
    then show ?thesis using A Realloc Some live_map_of [OF assms(2) l]
      by (auto simp: spec_realloc_def Let_def split: option.splits prod.splits dest: A')
  qed
qed (use assms(2) spec_alloc_total in \<open>auto split: option.splits\<close>)

definition step_keeps :: "heap_op \<Rightarrow> blocks \<Rightarrow> rt_small_mem \<Rightarrow> rt_small_mem \<Rightarrow> bool" where
  "step_keeps e bs s s' \<longleftrightarrow>
     (\<forall>x \<in> set (live 0 bs). gone e \<noteq> Some (fst x) \<longrightarrow> x \<in> set (live 0 (snd (spec_do e bs))) \<and>
        (\<forall>a. fst x \<le> a \<and> a < fst x + snd x \<and> (\<forall>v. e \<noteq> Store a v) \<longrightarrow> mem_bytes s' a = mem_bytes s a)) \<and>
     (\<forall>a \<ge> total bs + 16. mem_bytes s' a = mem_bytes s a)"

lemma others_step:
  assumes "others_stay (gone e) bs (snd (spec_do e bs)) s s'"
  shows "step_keeps e bs s s'"
  using assms by (simp add: others_stay_def step_keeps_def same_block_def)

lemma heap_do_ok:
  assumes "heap_ok s bs" "op_ok e bs"
  shows "\<exists>s'. heap_do e s = Some (fst (spec_do e bs), s') \<and> heap_ok s' (snd (spec_do e bs)) \<and> step_keeps e bs s s'"
proof -
  have ok: "blocks_ok bs" "mem_size_aligned s = total bs - 16" using heap_blocks [OF assms(1)] by simp_all
  have rfl: "others_stay None bs bs s s" by (simp add: others_stay_def same_block_def)
  show ?thesis
  proof (cases e)
    case (Malloc n)
    show ?thesis
    proof (cases "n = 0")
      case True
      have "step_keeps e bs s s" by (rule others_step) (use rfl Malloc True in simp)
      then show ?thesis using Malloc True assms(1) by (simp add: rt_smem_alloc_def)
    next
      case False
      obtain s' where s': "rt_smem_alloc n s = Some (fst (spec_alloc (rounded n) bs), s')" "heap_ok s' (snd (spec_alloc (rounded n) bs))"
        "keeps bs s s'" using alloc_ok [OF assms(1) False] by blast
      have "step_keeps e bs s s'" by (rule others_step) (use spec_alloc_stay [OF ok(1) s'(3)] Malloc False in simp)
      then show ?thesis using Malloc False s' by simp
    qed
  next
    case (Calloc c n)
    let ?k = "c * n"
    show ?thesis
    proof (cases "?k = 0")
      case True
      have "step_keeps e bs s s" by (rule others_step) (use rfl Calloc True in simp)
      then show ?thesis using Calloc True assms(1) by (simp add: rt_smem_alloc_def rt_calloc_def)
    next
      case False
      obtain s1 where s1: "rt_smem_alloc ?k s = Some (fst (spec_alloc (rounded ?k) bs), s1)" "heap_ok s1 (snd (spec_alloc (rounded ?k) bs))"
        "keeps bs s s1" using alloc_ok [OF assms(1) False] by blast
      obtain d bs1 where d: "spec_alloc (rounded ?k) bs = (d, bs1)" by fastforce
      show ?thesis
      proof (cases d)
        case None
        have "step_keeps e bs s s1" by (rule others_step) (use spec_alloc_stay [OF ok(1) s1(3)] Calloc False in simp)
        then show ?thesis using Calloc False s1 None d by (simp add: rt_calloc_def)
      next
        case (Some q)
        obtain m where m: "rounded ?k \<le> m" "(q, m) \<in> set (live 0 bs1)" "\<And>x. x \<in> set (live 0 bs1) \<longleftrightarrow> x = (q, m) \<or> x \<in> set (live 0 bs)"
          "\<And>a. q \<le> a \<Longrightarrow> a < q + m \<Longrightarrow> \<not> live_byte 0 bs a" "total bs1 = total bs"
          using spec_alloc_live [OF d [unfolded Some] ok(1)] by blast
        have k: "unat ?k \<le> m" using rounded_ge [of ?k] m(1) assms(2) Calloc by simp
        obtain b where b: "b = (\<lambda>a. if q \<le> a \<and> a < q + unat ?k then 0 else mem_bytes s1 a)" by blast
        have h: "heap_ok (s1\<lparr>mem_bytes := b\<rparr>) bs1"
          by (rule client_writes) (use s1(2) d m(2) k in \<open>auto simp: b live_byte_iff\<close>)
        have ok1: "blocks_ok bs1" using heap_blocks [OF h] by simp
        have "keeps bs s (s1\<lparr>mem_bytes := b\<rparr>)"
          unfolding keeps_def
        proof (intro allI impI)
          fix a assume a: "client bs a"
          have "\<not> (q \<le> a \<and> a < q + unat ?k)"
            using a k m(4) [of a] live_bounds [OF m(2) ok1] m(5) by (auto simp: client_def)
          then show "mem_bytes (s1\<lparr>mem_bytes := b\<rparr>) a = mem_bytes s a" using s1(3) a by (auto simp: b keeps_def)
        qed
        then have "step_keeps e bs s (s1\<lparr>mem_bytes := b\<rparr>)"
          by (intro others_step) (use spec_alloc_stay [OF ok(1)] Calloc False in simp)
        then show ?thesis using Calloc False s1 Some d h b by (simp add: rt_calloc_def)
      qed
    qed
  next
    case (Realloc r n)
    show ?thesis
    proof (cases r)
      case None
      obtain s' where "rt_smem_realloc None n s = Some (fst (spec_realloc None n (mem_size_aligned s) bs), s')"
        "heap_ok s' (snd (spec_realloc None n (mem_size_aligned s) bs))"
        "others_stay None bs (snd (spec_realloc None n (mem_size_aligned s) bs)) s s'" using realloc_null_ok [OF assms(1)] by blast
      then show ?thesis using Realloc None others_step [of e bs s s'] by (simp add: ok(2))
    next
      case (Some q)
      then obtain l where l: "(q, l) \<in> set (live 0 bs)" using assms(2) Realloc by (auto simp: live_ptr)
      obtain s' where "rt_smem_realloc (Some q) n s = Some (fst (spec_realloc (Some q) n (mem_size_aligned s) bs), s')"
        "heap_ok s' (snd (spec_realloc (Some q) n (mem_size_aligned s) bs))"
        "others_stay (Some q) bs (snd (spec_realloc (Some q) n (mem_size_aligned s) bs)) s s'" using realloc_block_ok [OF assms(1) l] by blast
      then show ?thesis using Realloc Some others_step [of e bs s s'] by (simp add: ok(2))
    qed
  next
    case (Free r)
    show ?thesis
    proof (cases r)
      case None
      have "step_keeps e bs s s" by (rule others_step) (use rfl Free None in simp)
      then show ?thesis using Free None assms(1) by (simp add: rt_smem_free_def)
    next
      case (Some q)
      then obtain l where l: "(q, l) \<in> set (live 0 bs)" using assms(2) Free by (auto simp: live_ptr)
      obtain s' where s': "rt_smem_free (Some q) s = Some s'" "heap_ok s' (spec_free q bs)" "keeps (spec_free q bs) s s'"
        using free_ok [OF assms(1) l] by blast
      have "others_stay (Some q) bs (spec_free q bs) s s'"
        by (rule keeps_others [OF s'(3)]) (use live_free [OF ok(1)] in auto)
      then show ?thesis using Free Some s' others_step [of e bs s s'] by simp
    qed
  next
    case (Store a v)
    have l: "live_byte 0 bs a" using assms(2) Store by simp
    have "heap_ok (s\<lparr>mem_bytes := (mem_bytes s)(a := v)\<rparr>) bs" by (rule client_writes [OF assms(1)]) (use l in auto)
    moreover have "step_keeps e bs s (s\<lparr>mem_bytes := (mem_bytes s)(a := v)\<rparr>)"
      using live_byte_bounds [OF l ok(1)] Store by (auto simp: step_keeps_def)
    ultimately show ?thesis using Store by simp
  qed
qed

text \<open>The blocks are a simulation; so are, with the bytes that do not change, the blocks and one byte of a client.\<close>

definition heap_with :: "nat \<Rightarrow> bytes \<Rightarrow> rt_small_mem \<Rightarrow> blocks \<Rightarrow> bool" where
  "heap_with n b s bs \<longleftrightarrow> heap_ok s bs \<and> total bs = n \<and> (\<forall>a \<ge> n + 16. mem_bytes s a = b a)"

interpretation heap_sim: simulation "heap_with n b" heap_do spec_do op_ok for n b
proof unfold_locales
  fix s bs e assume h: "heap_with n b s bs" "op_ok e bs"
  then have ok: "heap_ok s bs" by (simp add: heap_with_def)
  obtain s' where s': "heap_do e s = Some (fst (spec_do e bs), s')" "heap_ok s' (snd (spec_do e bs))" "step_keeps e bs s s'"
    using heap_do_ok [OF ok h(2)] by blast
  have "total (snd (spec_do e bs)) = total bs" by (rule spec_do_total [OF h(2)]) (use heap_blocks [OF ok] in simp)
  then have "heap_with n b s' (snd (spec_do e bs))" using s'(2,3) h(1) by (auto simp: heap_with_def step_keeps_def)
  then show "\<exists>s'. heap_do e s = Some (fst (spec_do e bs), s') \<and> heap_with n b s' (snd (spec_do e bs))" using s'(1) by blast
qed

definition holds_byte :: "nat \<times> nat \<Rightarrow> nat \<Rightarrow> u8 \<Rightarrow> rt_small_mem \<Rightarrow> blocks \<Rightarrow> bool" where
  "holds_byte x a v s bs \<longleftrightarrow> heap_ok s bs \<and> x \<in> set (live 0 bs) \<and> fst x \<le> a \<and> a < fst x + snd x \<and> mem_bytes s a = v"

interpretation byte_sim: simulation "holds_byte x a v" heap_do spec_do
  "\<lambda>e bs. op_ok e bs \<and> gone e \<noteq> Some (fst x) \<and> (\<forall>w. e \<noteq> Store a w)" for x a v
proof unfold_locales
  fix s bs e assume h: "holds_byte x a v s bs" "op_ok e bs \<and> gone e \<noteq> Some (fst x) \<and> (\<forall>w. e \<noteq> Store a w)"
  obtain s' where s': "heap_do e s = Some (fst (spec_do e bs), s')" "heap_ok s' (snd (spec_do e bs))" "step_keeps e bs s s'"
    using heap_do_ok [of s bs e] h by (auto simp: holds_byte_def)
  then have "holds_byte x a v s' (snd (spec_do e bs))" using h unfolding holds_byte_def step_keeps_def by metis
  then show "\<exists>s'. heap_do e s = Some (fst (spec_do e bs), s') \<and> holds_byte x a v s' (snd (spec_do e bs))" using s'(1) by blast
qed

lemma heap_run_ok:
  assumes "heap_ok s bs" "ops_ok es bs"
  shows "\<exists>s'. heap_run es s = Some (fst (spec_run es bs), s') \<and> heap_ok s' (snd (spec_run es bs)) \<and> total (snd (spec_run es bs)) = total bs \<and>
    (\<forall>a \<ge> total bs + 16. mem_bytes s' a = mem_bytes s a)"
  using heap_sim.run [of "total bs" "mem_bytes s" s bs es] assms by (auto simp: heap_with_def)

lemma contents_stay:
  assumes "heap_ok s bs" "ops_ok es bs" "x \<in> set (live 0 bs)" "fst x \<le> a" "a < fst x + snd x"
    "\<forall>e \<in> set es. gone e \<noteq> Some (fst x) \<and> (\<forall>w. e \<noteq> Store a w)"
  shows "\<exists>s'. heap_run es s = Some (fst (spec_run es bs), s') \<and> x \<in> set (live 0 (snd (spec_run es bs))) \<and> mem_bytes s' a = mem_bytes s a"
  using byte_sim.run [of x a "mem_bytes s a" s bs es] assms by (auto simp: holds_byte_def all_ok_conj)

lemma system_heap_ok:
  assumes "rt_system_heap_init b begin_addr end_addr = Some s" "end_addr < 2 ^ 32"
  shows "heap_ok s [(False, mem_size_aligned s + 16)]"
proof -
  have i: "rt_smem_init b begin_addr (end_addr div 8 * 8 - (begin_addr + 7) div 8 * 8) = Some s" "end_addr div 8 * 8 > (begin_addr + 7) div 8 * 8"
    using assms(1) by (auto simp: rt_system_heap_init_def Let_def split: if_splits)
  have "begin_addr + (end_addr div 8 * 8 - (begin_addr + 7) div 8 * 8) < 2 ^ 32" using assms(2) i(2) by simp
  then show ?thesis by (rule init_fields(1) [OF i(1)])
qed

lemma live_disjoint:
  "blocks_ok bs \<Longrightarrow> (r, n) \<in> set (live p bs) \<Longrightarrow> (q, m) \<in> set (live p bs) \<Longrightarrow> r \<noteq> q \<Longrightarrow> r + n \<le> q \<or> q + m \<le> r"
proof (induction p bs rule: live.induct)
  case (2 p u l bs)
  have ok: "blocks_ok bs" using 2(3) by simp
  show ?case
  proof (cases u)
    case True
    then consider "(r, n) \<in> set (live (p + l) bs)" "(q, m) \<in> set (live (p + l) bs)"
      | "r = p + 16" "n = l - 16" "(q, m) \<in> set (live (p + l) bs)" | "q = p + 16" "m = l - 16" "(r, n) \<in> set (live (p + l) bs)"
      using 2(4-6) by auto
    then show ?thesis
    proof cases
      case 1 then show ?thesis using 2(1) [OF True ok] 2(6) by blast
    next
      case 2 then show ?thesis using live_bounds [OF 2(3) ok] \<open>blocks_ok ((u, l) # bs)\<close> by simp
    next
      case 3 then show ?thesis using live_bounds [OF 3(3) ok] \<open>blocks_ok ((u, l) # bs)\<close> by simp
    qed
  next
    case False
    then show ?thesis using 2(2) [OF False ok] 2(4-6) by simp
  qed
qed simp

lemma live_aligned: "(r, n) \<in> set (live p bs) \<Longrightarrow> blocks_ok bs \<Longrightarrow> 8 dvd p \<Longrightarrow> 8 dvd r"
  by (induction p bs rule: live.induct) (auto split: if_splits)

lemma apart_all_free: "apart bs \<Longrightarrow> live 0 bs = [] \<Longrightarrow> 0 < total bs \<Longrightarrow> bs = [(False, total bs)]"
proof -
  assume a: "apart bs" "live 0 bs = []" "0 < total bs"
  have free: "live p cs = [] \<Longrightarrow> \<forall>x \<in> set cs. \<not> fst x" for p cs by (induction p cs rule: live.induct) (auto split: if_splits)
  show ?thesis using a(1,3) free [OF a(2)] by (cases bs; cases "tl bs") auto
qed

text \<open>Three blocks, a hole that is filled again, a block that moves, one that shrinks, and writes.\<close>

definition heap_demo :: "heap_op list" where
  "heap_demo = [Malloc 20, Malloc 100, Malloc 7, Free (Some 56), Calloc 3 8, Realloc (Some 16) 60, Realloc (Some 96) 8, Store 176 1]"

lemma heap_demo_spec:
  "spec_run heap_demo [(False, 1000)] =
    ([Some 16, Some 56, Some 176, None, Some 56, Some 96, Some 96, None],
     [(False, 40), (True, 40), (True, 24), (False, 56), (True, 32), (False, 808)])"
  "ops_ok heap_demo [(False, 1000)]"
  by (simp_all add: heap_demo_def spec_alloc_def spec_free_def spec_realloc_def rounded_def rt_align)

lemma heap_demo_init:
  "\<exists>s. rt_system_heap_init (\<lambda>_. 0) 0x20000000 0x20000430 = Some s \<and> [(False, mem_size_aligned s + 16)] = [(False, 1000)]"
  using init_works [where n = 1072 and begin_addr = "0x20000000" and b = "\<lambda>_. 0"] by (simp add: rt_system_heap_init_def)

lemma alloc_size:
  assumes "place n p bs = Some (r, bs')"
  shows "\<exists>m < n + 32. (r, m) \<in> set (live p bs')"
  using assms
proof (induction n p bs arbitrary: r bs' rule: place.induct)
  case (2 n p u l bs)
  show ?case
  proof (cases "\<not> u \<and> n + 16 \<le> l")
    case True
    show ?thesis
    proof (cases "n + 48 \<le> l")
      case S: True
      then show ?thesis using 2(2) True by (intro exI [of _ n]) auto
    next
      case F: False
      then show ?thesis using 2(2) True by (intro exI [of _ "l - 16"]) auto
    qed
  next
    case False
    then obtain bs1 where "place n (p + l) bs = Some (r, bs1)" "bs' = (u, l) # bs1" using 2(2) by (auto split: if_splits)
    then show ?thesis using 2(1) [OF False] by fastforce
  qed
qed simp

lemma realloc_result:
  assumes "heap_ok s bs" "(r, l) \<in> set (live 0 bs)" "spec_realloc (Some r) k m bs = (Some d, bs')" "0 < unat k" "unat k \<le> 0xFFFFFFF8"
  shows "\<exists>n \<ge> unat k. (d, n) \<in> set (live 0 bs')"
proof -
  let ?n = "unat (RT_ALIGN k)"
  have ok: "blocks_ok bs" using heap_blocks [OF assms(1)] by simp
  have ml: "map_of (live 0 bs) r = Some l" by (rule live_map_of [OF ok assms(2)])
  have n: "unat k \<le> ?n" "?n \<noteq> 0" using assms(4,5) by (auto simp: rt_align)
  consider "l = ?n" "d = r" "bs' = bs" | "?n + 28 < l" "d = r" "bs' = coalesce (shrink r ?n 0 bs)"
    | bs1 where "spec_alloc (max 16 ?n) bs = (Some d, bs1)" "bs' = spec_free r bs1"
    using assms(3) ml n(2) by (auto simp: spec_realloc_def Let_def split: if_splits option.splits prod.splits)
  then show ?thesis
  proof cases
    case 1
    then show ?thesis using assms(2) n(1) by auto
  next
    case 2
    obtain xs j ys where bs: "bs = xs @ (True, j) # ys" "r = 0 + total xs + 16" by (rule live_at [OF assms(2)])
    have "(r, ?n) \<in> set (live 0 (xs @ (True, ?n + 16) # (False, j - (?n + 16)) # ys))" using bs(2) by (simp add: live_append)
    then show ?thesis using 2 bs ok shrink_at [of 0 xs r ?n True j ys] n(1) by auto
  next
    case 3
    obtain j where j: "max 16 ?n \<le> j" "(d, j) \<in> set (live 0 bs1)" "\<And>a. d \<le> a \<Longrightarrow> a < d + j \<Longrightarrow> \<not> live_byte 0 bs a"
      using spec_alloc_live [OF 3(1) ok] by metis
    have "d \<noteq> r" by (rule alloc_fresh [OF j(3) _ assms(2) ok]) (use j(1) in auto)
    have "blocks_ok bs1"
    proof -
      have "RT_ALIGN k \<noteq> 0" "rounded (RT_ALIGN k) = max 16 ?n" using align_rounded [OF n(2)] by simp_all
      then show ?thesis using alloc_ok [OF assms(1), of "RT_ALIGN k"] 3(1) heap_blocks by fastforce
    qed
    then have "(d, j) \<in> set (live 0 (spec_free r bs1))" using live_free [of bs1 r] j(2) \<open>d \<noteq> r\<close> by simp
    then show ?thesis using 3(2) j(1) n(1) by (intro exI [of _ j]) simp
  qed
qed

lemma heap_demo_run:
  "\<exists>s0 s. rt_system_heap_init (\<lambda>_. 0) 0x20000000 0x20000430 = Some s0 \<and>
     heap_run heap_demo s0 = Some ([Some 16, Some 56, Some 176, None, Some 56, Some 96, Some 96, None], s) \<and>
     heap_ok s [(False, 40), (True, 40), (True, 24), (False, 56), (True, 32), (False, 808)]"
proof -
  obtain s0 where s0: "rt_system_heap_init (\<lambda>_. 0) 0x20000000 0x20000430 = Some s0" "[(False, mem_size_aligned s0 + 16)] = [(False, 1000)]"
    using heap_demo_init by blast
  then have "heap_ok s0 [(False, 1000)]" using system_heap_ok [OF s0(1)] by simp
  from heap_run_ok [OF this heap_demo_spec(2)] s0(1) heap_demo_spec(1) show ?thesis by auto
qed

section \<open>Properties\<close>

text \<open>C31: The heap refines a list of blocks. From any region of memory that holds a heap, for every history of
  requests of clients that only give back and only write what they were given, no assertion of the allocator
  fails and every search ends; each call returns what first fit on the list of blocks returns; the blocks in
  use are aligned to 8 bytes, lie inside the heap and do not overlap; and no byte behind the heap is written.\<close>

theorem heap_run_refines:
  assumes "rt_system_heap_init b begin_addr end_addr = Some s0" "end_addr < 2 ^ 32"
    "bs0 = [(False, mem_size_aligned s0 + 16)]" "ops_ok es bs0" "spec_run es bs0 = (rs, bs)"
  shows "\<exists>s. heap_run es s0 = Some (rs, s) \<and> heap_ok s bs \<and>
    (\<forall>(r, n) \<in> set (live 0 bs). (heap_ptr s + r) mod 8 = 0 \<and> r + n \<le> heap_end s \<and>
       (\<forall>(q, m) \<in> set (live 0 bs). r = q \<or> r + n \<le> q \<or> q + m \<le> r)) \<and>
    (\<forall>a \<ge> heap_end s0 + 16. mem_bytes s a = mem_bytes s0 a)"
proof -
  have h0: "heap_ok s0 bs0" using system_heap_ok [OF assms(1,2)] assms(3) by simp
  obtain s where s: "heap_run es s0 = Some (rs, s)" "heap_ok s bs" "\<forall>a \<ge> total bs0 + 16. mem_bytes s a = mem_bytes s0 a"
    using heap_run_ok [OF h0 assms(4)] assms(5) by auto
  note R = heap_okD(1) [OF s(2)]
  have ok: "blocks_ok bs" "heap_end s = total bs" "8 dvd heap_ptr s" using heap_repD(2,4,8) [OF R] by simp_all
  have "(heap_ptr s + r) mod 8 = 0" "r + n \<le> heap_end s" if "(r, n) \<in> set (live 0 bs)" for r n
    using live_aligned [OF that ok(1)] live_bounds [OF that ok(1)] ok(2,3) by auto
  moreover have "heap_end s0 = total bs0" by (rule heap_repD(4) [OF heap_okD(1) [OF h0]])
  ultimately show ?thesis using s live_disjoint [OF ok(1)] by fastforce
qed


theorem heap_run_refines_witness:
  "\<exists>s0 s. rt_system_heap_init (\<lambda>_. 0) 0x20000000 0x20000430 = Some s0 \<and>
     heap_run heap_demo s0 = Some ([Some 16, Some 56, Some 176, None, Some 56, Some 96, Some 96, None], s) \<and>
     heap_ok s [(False, 40), (True, 40), (True, 24), (False, 56), (True, 32), (False, 808)]"
proof -
  obtain s0 where s0: "rt_system_heap_init (\<lambda>_. 0) 0x20000000 0x20000430 = Some s0" "[(False, mem_size_aligned s0 + 16)] = [(False, 1000)]"
    using heap_demo_init by blast
  show ?thesis using heap_run_refines [OF s0(1) _ s0(2) [symmetric] heap_demo_spec(2,1)] s0(1) by auto
qed

text \<open>C32: What a client writes into its block it reads again. After any history, a byte stored in a block keeps its
  value, and the block its owner, through every history that follows in which nobody stores to that byte and
  the block is not freed or reallocated, whatever other blocks are taken, moved, split, joined and cleared.\<close>

theorem heap_contents:
  assumes "rt_system_heap_init b begin_addr end_addr = Some s0" "end_addr < 2 ^ 32" "bs0 = [(False, mem_size_aligned s0 + 16)]"
    "ops_ok (es @ Store a v # fs) bs0" "(r, n) \<in> set (live 0 (snd (spec_run es bs0)))" "r \<le> a" "a < r + n"
    "\<forall>f \<in> set fs. gone f \<noteq> Some r \<and> (\<forall>w. f \<noteq> Store a w)"
  shows "\<exists>rs s. heap_run (es @ Store a v # fs) s0 = Some (rs, s) \<and> mem_bytes s a = v \<and>
    (r, n) \<in> set (live 0 (snd (spec_run (es @ Store a v # fs) bs0)))"
proof -
  have h0: "heap_ok s0 bs0" using system_heap_ok [OF assms(1,2)] assms(3) by simp
  obtain rs bs where sp: "spec_run es bs0 = (rs, bs)" by fastforce
  have o: "ops_ok es bs0" "op_ok (Store a v) bs" "ops_ok fs bs" using assms(4) sp by (auto simp: all_ok_append)
  obtain s1 where s1: "heap_run es s0 = Some (rs, s1)" "heap_ok s1 bs" using heap_run_ok [OF h0 o(1)] sp by auto
  obtain s2 where s2: "heap_do (Store a v) s1 = Some (None, s2)" "heap_ok s2 bs" "mem_bytes s2 a = v"
    using heap_do_ok [OF s1(2) o(2)] by auto
  have x: "(r, n) \<in> set (live 0 bs)" using assms(5) sp by simp
  obtain s3 where "heap_run fs s2 = Some (fst (spec_run fs bs), s3)" "(r, n) \<in> set (live 0 (snd (spec_run fs bs)))" "mem_bytes s3 a = mem_bytes s2 a"
    using contents_stay [OF s2(2) o(3) x, of a] assms(6-8) by auto
  then show ?thesis using s1(1) s2(1,3) sp by (auto simp: run_impl_append run_spec_append split: prod.splits)
qed

theorem heap_contents_witness:
  "\<exists>s0 rs s. rt_system_heap_init (\<lambda>_. 0) 0x20000000 0x20000430 = Some s0 \<and>
     heap_run ([Malloc 20, Malloc 100, Malloc 7] @ Store 180 42 # [Free (Some 56), Calloc 3 8, Realloc (Some 16) 60]) s0 = Some (rs, s) \<and>
     mem_bytes s 180 = 42"
proof -
  obtain s0 where s0: "rt_system_heap_init (\<lambda>_. 0) 0x20000000 0x20000430 = Some s0" "[(False, mem_size_aligned s0 + 16)] = [(False, 1000)]"
    using heap_demo_init by blast
  show ?thesis
    using heap_contents [OF s0(1) _ s0(2) [symmetric], of "[Malloc 20, Malloc 100, Malloc 7]" 180 42 "[Free (Some 56), Calloc 3 8, Realloc (Some 16) 60]" 176 16]
      s0(1) by (simp add: spec_alloc_def spec_free_def spec_realloc_def rounded_def rt_align)
qed

text \<open>Nothing leaks. After any history in which every block has been freed again, the heap is one free block
  as at the start, no memory is accounted as used, and a request of any size up to the whole heap succeeds.\<close>

lemma heap_no_leak:
  assumes "rt_system_heap_init b begin_addr end_addr = Some s0" "end_addr < 2 ^ 32" "bs0 = [(False, mem_size_aligned s0 + 16)]"
    "ops_ok es bs0" "live 0 (snd (spec_run es bs0)) = []"
  shows "\<exists>rs s. heap_run es s0 = Some (rs, s) \<and> snd (spec_run es bs0) = bs0 \<and> mem_used s = 0 \<and>
    (\<forall>k. k \<noteq> 0 \<and> rounded k \<le> mem_size_aligned s0 \<longrightarrow> (\<exists>s'. rt_smem_alloc k s = Some (Some 16, s')))"
proof -
  have h0: "heap_ok s0 bs0" using system_heap_ok [OF assms(1,2)] assms(3) by simp
  obtain rs bs where sp: "spec_run es bs0 = (rs, bs)" by fastforce
  obtain s where s: "heap_run es s0 = Some (rs, s)" "heap_ok s bs" "total bs = total bs0" using heap_run_ok [OF h0 assms(4)] sp by auto
  have "bs = [(False, total bs)]" by (rule apart_all_free) (use heap_okD(5) [OF s(2)] assms(3,5) s(3) sp in simp_all)
  then have bs: "bs = bs0" using s(3) assms(3) by simp
  have "mem_used s = 0" using heap_okD(3) [OF s(2)] bs assms(3) by simp
  moreover have "\<exists>s'. rt_smem_alloc k s = Some (Some 16, s')" if "k \<noteq> 0" "rounded k \<le> mem_size_aligned s0" for k
    using alloc_ok [OF s(2) that(1)] that(2) bs assms(3) by (auto simp: spec_alloc_def)
  ultimately show ?thesis using s(1) sp bs by auto
qed

theorem heap_no_leak_witness:
  "\<exists>s0 rs s s'. rt_system_heap_init (\<lambda>_. 0) 0x20000000 0x20000430 = Some s0 \<and>
     heap_run (heap_demo @ [Free (Some 96), Free (Some 176), Free (Some 56)]) s0 = Some (rs, s) \<and> mem_used s = 0 \<and>
     rt_smem_alloc 984 s = Some (Some 16, s')"
proof -
  obtain s0 where s0: "rt_system_heap_init (\<lambda>_. 0) 0x20000000 0x20000430 = Some s0" "[(False, mem_size_aligned s0 + 16)] = [(False, 1000)]"
    using heap_demo_init by blast
  let ?es = "heap_demo @ [Free (Some 96), Free (Some 176), Free (Some 56)]"
  have e: "ops_ok ?es [(False, 1000)]" "live 0 (snd (spec_run ?es [(False, 1000)])) = []"
    using heap_demo_spec by (simp_all add: all_ok_append run_spec_append spec_free_def)
  obtain rs s where r: "heap_run ?es s0 = Some (rs, s)" "mem_used s = 0"
    "\<And>k. k \<noteq> 0 \<Longrightarrow> rounded k \<le> mem_size_aligned s0 \<Longrightarrow> \<exists>s'. rt_smem_alloc k s = Some (Some 16, s')"
    using heap_no_leak [OF s0(1) _ s0(2) [symmetric] e] by auto
  have "\<exists>s'. rt_smem_alloc 984 s = Some (Some 16, s')" by (rule r(3)) (use s0(2) in \<open>simp_all add: rounded_def rt_align\<close>)
  then show ?thesis using s0(1) r(1,2) by blast
qed

text \<open>Reallocation keeps the contents. For a live block and a size that can be rounded up, \<open>rt_realloc\<close> either
  returns nothing and leaves all blocks as they are, or it returns a block of at least that size which begins with the
  bytes of the old one, up to the smaller of the two sizes, while every other block stays with all its bytes.\<close>

lemma heap_realloc:
  assumes "heap_ok s bs" "(r, l) \<in> set (live 0 bs)" "0 < unat k" "unat k \<le> 0xFFFFFFF8"
  shows "\<exists>d s' bs'. rt_smem_realloc (Some r) k s = Some (d, s') \<and> heap_ok s' bs' \<and>
    (case d of None \<Rightarrow> bs' = bs
     | Some d \<Rightarrow> (\<exists>n \<ge> unat k. (d, n) \<in> set (live 0 bs')) \<and> (\<forall>i < min l (unat k). mem_bytes s' (d + i) = mem_bytes s (r + i)) \<and>
        (\<forall>(q, m) \<in> set (live 0 bs). q \<noteq> r \<longrightarrow> (q, m) \<in> set (live 0 bs') \<and> (\<forall>a. q \<le> a \<and> a < q + m \<longrightarrow> mem_bytes s' a = mem_bytes s a)))"
proof -
  obtain d bs' where sp: "spec_realloc (Some r) k (mem_size_aligned s) bs = (d, bs')" by fastforce
  obtain s' where s': "rt_smem_realloc (Some r) k s = Some (d, s')" "heap_ok s' bs'" "others_stay (Some r) bs bs' s s'"
    "\<And>e. d = Some e \<Longrightarrow> moved r e (min l (unat (RT_ALIGN k))) s s'" using realloc_block_ok [OF assms(1,2), of k] sp by auto
  have n: "unat k \<le> unat (RT_ALIGN k)" "unat (RT_ALIGN k) \<noteq> 0" using assms(3,4) by (auto simp: rt_align)
  show ?thesis
  proof (cases d)
    case None
    then have "bs' = bs"
      using sp n(2) by (auto simp: spec_realloc_def spec_alloc_def Let_def split: if_splits option.splits prod.splits)
    then show ?thesis using s'(1,2) None by auto
  next
    case (Some e)
    have "\<forall>i < min l (unat k). mem_bytes s' (e + i) = mem_bytes s (r + i)" using s'(4) [OF Some] n(1) by (auto simp: moved_def)
    moreover have "\<exists>n \<ge> unat k. (e, n) \<in> set (live 0 bs')" by (rule realloc_result [OF assms(1,2) sp [unfolded Some] assms(3,4)])
    moreover have "\<forall>(q, m) \<in> set (live 0 bs). q \<noteq> r \<longrightarrow> (q, m) \<in> set (live 0 bs') \<and> (\<forall>a. q \<le> a \<and> a < q + m \<longrightarrow> mem_bytes s' a = mem_bytes s a)"
      using s'(3) by (fastforce simp: others_stay_def same_block_def)
    ultimately show ?thesis using s'(1,2) Some by (intro exI [of _ d] exI [of _ s'] exI [of _ bs']) simp
  qed
qed

theorem heap_realloc_witness:
  "\<exists>s d s'. heap_ok s [(False, 40), (True, 40), (True, 24), (False, 56), (True, 32), (False, 808)] \<and>
     rt_smem_realloc (Some 56) 200 s = Some (d, s') \<and> (d \<noteq> None \<longrightarrow> (\<forall>i < 24. mem_bytes s' (the d + i) = mem_bytes s (56 + i)))"
proof -
  obtain s0 s where s: "rt_system_heap_init (\<lambda>_. 0) 0x20000000 0x20000430 = Some s0"
    "heap_run heap_demo s0 = Some ([Some 16, Some 56, Some 176, None, Some 56, Some 96, Some 96, None], s)"
    "heap_ok s [(False, 40), (True, 40), (True, 24), (False, 56), (True, 32), (False, 808)]"
    using heap_demo_run by blast
  obtain d s' bs' where r: "rt_smem_realloc (Some 56) 200 s = Some (d, s')"
    "case d of None \<Rightarrow> True | Some d \<Rightarrow> \<forall>i < min 24 (unat (200 :: u32)). mem_bytes s' (d + i) = mem_bytes s (56 + i)"
    using heap_realloc [OF s(3), of 56 24 200] by (auto split: option.splits)
  have "min 24 (unat (200 :: u32)) = 24" by simp
  then have "d \<noteq> None \<longrightarrow> (\<forall>i < 24. mem_bytes s' (the d + i) = mem_bytes s (56 + i))" using r(2) by (cases d) auto
  then show ?thesis using s(3) r(1) by blast
qed

text \<open>C33: Sizes wrap around. A request of more than \<open>0xFFFFFFF8\<close> bytes is rounded up to 0: \<open>rt_malloc\<close> then returns a block of
  less than 48 bytes instead of nothing, and \<open>rt_realloc\<close> frees the block; \<open>rt_calloc\<close> multiplies without a check, so
  that a product beyond 32 bits gives a block smaller than what was asked for.\<close>

theorem heap_wraps:
  assumes "heap_ok s bs"
  shows "(\<forall>n. 0xFFFFFFF8 < unat n \<longrightarrow>
      (\<exists>s'. rt_smem_alloc n s = Some (fst (spec_alloc 16 bs), s') \<and> heap_ok s' (snd (spec_alloc 16 bs)) \<and>
        (\<forall>r. fst (spec_alloc 16 bs) = Some r \<longrightarrow> (\<exists>m < 48. (r, m) \<in> set (live 0 (snd (spec_alloc 16 bs)))))) \<and>
      (\<forall>(r, l) \<in> set (live 0 bs). \<exists>s'. rt_smem_realloc (Some r) n s = Some (None, s') \<and> heap_ok s' (spec_free r bs))) \<and>
    (\<forall>c k q s'. 2 ^ 32 + 32 \<le> unat c * unat k \<and> unat (c * k) \<le> 0xFFFFFFF8 \<and> rt_calloc c k s = Some (Some q, s') \<longrightarrow>
      (\<exists>bs'. heap_ok s' bs' \<and> (\<exists>m < unat c * unat k. (q, m) \<in> set (live 0 bs'))))"
proof (intro conjI allI impI ballI)
  have place: "\<exists>m < j + 32. (q, m) \<in> set (live 0 (snd (spec_alloc j bs)))" if "fst (spec_alloc j bs) = Some q" for j q
    using alloc_size [of j 0 bs] that by (auto simp: spec_alloc_def split: option.splits)
  fix n :: u32 assume n: "0xFFFFFFF8 < unat n"
  then have "n \<noteq> 0" "rounded n = 16" by (auto simp: rounded_def rt_align)
  then obtain s' where "rt_smem_alloc n s = Some (fst (spec_alloc 16 bs), s')" "heap_ok s' (snd (spec_alloc 16 bs))"
    using alloc_ok [OF assms, of n] by auto
  then show "\<exists>s'. rt_smem_alloc n s = Some (fst (spec_alloc 16 bs), s') \<and> heap_ok s' (snd (spec_alloc 16 bs)) \<and>
        (\<forall>r. fst (spec_alloc 16 bs) = Some r \<longrightarrow> (\<exists>m < 48. (r, m) \<in> set (live 0 (snd (spec_alloc 16 bs)))))"
    using place [of 16] by simp
next
  fix n :: u32 and x assume n: "0xFFFFFFF8 < unat n" and x: "x \<in> set (live 0 bs)"
  obtain r l where r: "x = (r, l)" by (cases x)
  have "spec_realloc (Some r) n (mem_size_aligned s) bs = (None, spec_free r bs)" using n by (simp add: spec_realloc_def rt_align Let_def)
  then show "case x of (r, l) \<Rightarrow> \<exists>s'. rt_smem_realloc (Some r) n s = Some (None, s') \<and> heap_ok s' (spec_free r bs)"
    using realloc_block_ok [OF assms x [unfolded r], of n] r by auto
next
  fix c k q s' assume h: "2 ^ 32 + 32 \<le> unat c * unat k \<and> unat (c * k) \<le> 0xFFFFFFF8 \<and> rt_calloc c k s = Some (Some q, s')"
  then have nz: "c * k \<noteq> 0" by (auto simp: rt_calloc_def rt_smem_alloc_def)
  have d: "fst (spec_alloc (rounded (c * k)) bs) = Some q" "heap_ok s' (snd (spec_alloc (rounded (c * k)) bs))"
    using heap_do_ok [OF assms, of "Calloc c k"] h nz by auto
  obtain m where m: "m < rounded (c * k) + 32" "(q, m) \<in> set (live 0 (snd (spec_alloc (rounded (c * k)) bs)))"
    using alloc_size [of "rounded (c * k)" 0 bs] d(1) by (auto simp: spec_alloc_def split: option.splits)
  have k: "unat (c * k) \<le> 0xFFFFFFF8" using h by blast
  then have "unat (c * k) + 7 \<le> 0xFFFFFFFF" by arith
  then have "(unat (c * k) + 7) div 8 \<le> 0xFFFFFFFF div 8" by (rule div_le_mono)
  then have "(unat (c * k) + 7) div 8 * 8 \<le> 0xFFFFFFF8" by simp
  then have "rounded (c * k) \<le> 0xFFFFFFF8" using k by (simp only: rounded_def rt_align if_True)
  then have "m < unat c * unat k" using m(1) h by simp
  then show "\<exists>bs'. heap_ok s' bs' \<and> (\<exists>m < unat c * unat k. (q, m) \<in> set (live 0 bs'))" using d(2) m(2) by blast
qed

theorem heap_wraps_witness:
  "\<exists>s s'. heap_ok s [(False, 40), (True, 40), (True, 24), (False, 56), (True, 32), (False, 808)] \<and>
     rt_smem_alloc 0xFFFFFFFF s = Some (Some 16, s') \<and> (\<exists>t. rt_smem_realloc (Some 56) 0xFFFFFFFF s = Some (None, t))"
proof -
  let ?bs = "[(False, 40), (True, 40), (True, 24), (False, 56), (True, 32), (False, 808)]"
  obtain s where s: "heap_ok s ?bs" using heap_demo_run by blast
  note W = heap_wraps [OF s, THEN conjunct1, rule_format, of "0xFFFFFFFF"]
  obtain s' where "rt_smem_alloc 0xFFFFFFFF s = Some (fst (spec_alloc 16 ?bs), s')" using W by auto
  moreover obtain t where "rt_smem_realloc (Some 56) 0xFFFFFFFF s = Some (None, t)" using W by auto
  ultimately show ?thesis using s by (auto simp: spec_alloc_def)
qed

end
