(* ===== verification/Mutex.thy ===== *)
theory Mutex
  imports Ipc
begin

text \<open>
  Mutexes with priority inheritance and priority ceilings (\<open>rt-thread/src/ipc.c\<close>), with which the I2C and SPI drivers
  lock their buses. A mutex remembers the priority of its most urgent waiting thread; the owner runs at the most
  urgent priority of its own and those of the mutexes it holds, and passes it on to the owner of the mutex
  that it waits for itself.
\<close>

section \<open>Operations\<close>

record rt_mutex =
  mutex_owner :: "nat option"
  mutex_priority :: u8
  hold :: u8
  ceiling_priority :: u8
  waiting :: "nat list"

record mutex_sys =
  ths :: threads
  init_priority :: "nat \<Rightarrow> u8"
  pending_object :: "nat \<Rightarrow> nat option"
  taken_object_list :: "nat \<Rightarrow> nat list"
  mutexes :: "nat \<Rightarrow> rt_mutex"

abbreviation prio_of :: "mutex_sys \<Rightarrow> nat \<Rightarrow> u8" where
  "prio_of s t \<equiv> current_priority (ths s t)"

definition rt_mutex_init :: rt_mutex where
  "rt_mutex_init = \<lparr>mutex_owner = None, mutex_priority = 0xFF, hold = 0, ceiling_priority = 0xFF, waiting = []\<rparr>"

definition upd_mutex :: "nat \<Rightarrow> (rt_mutex \<Rightarrow> rt_mutex) \<Rightarrow> mutex_sys \<Rightarrow> mutex_sys" where
  "upd_mutex m f s = s\<lparr>mutexes := (mutexes s)(m := f (mutexes s m))\<rparr>"

text \<open>What \<open>rt_thread_control\<close> with \<open>RT_THREAD_CTRL_CHANGE_PRIORITY\<close> does to the thread itself.\<close>

definition set_priority :: "nat \<Rightarrow> u8 \<Rightarrow> mutex_sys \<Rightarrow> mutex_sys" where
  "set_priority t p s = s\<lparr>ths := (ths s)(t := (ths s t)\<lparr>current_priority := p\<rparr>)\<rparr>"

definition set_error :: "nat \<Rightarrow> rt_err \<Rightarrow> mutex_sys \<Rightarrow> mutex_sys" where
  "set_error t e s = s\<lparr>ths := (ths s)(t := (ths s t)\<lparr>th_error := e\<rparr>)\<rparr>"

definition head_priority :: "nat \<Rightarrow> mutex_sys \<Rightarrow> u8" where
  "head_priority m s = (case waiting (mutexes s m) of [] \<Rightarrow> 0xFF | t # _ \<Rightarrow> prio_of s t)"

definition mutex_update_priority :: "nat \<Rightarrow> mutex_sys \<Rightarrow> mutex_sys" where
  "mutex_update_priority m s = upd_mutex m (\<lambda>mu. mu\<lparr>mutex_priority := head_priority m s\<rparr>) s"

definition thread_get_mutex_priority :: "nat \<Rightarrow> mutex_sys \<Rightarrow> u8" where
  "thread_get_mutex_priority t s =
    foldl (\<lambda>p m. let mu = mutexes s m;
                     mp = (if mutex_priority mu < ceiling_priority mu then mutex_priority mu else ceiling_priority mu)
                 in if p > mp then mp else p)
      (init_priority s t) (taken_object_list s t)"

text \<open>The loop along the chain of owners; \<open>None\<close> is a mutex that is waited for and has no owner, or a loop that does not end.\<close>

partial_function (option) thread_update_chain :: "nat \<Rightarrow> mutex_sys \<Rightarrow> mutex_sys option" where
  "thread_update_chain t s =
    (if suspended (ths s t)
     then (case pending_object s t of
       None \<Rightarrow> Some s
     | Some m \<Rightarrow> do {
         let (th, q) = ipc_list_suspend RT_IPC_FLAG_PRIO t (ths s) (removeAll t (waiting (mutexes s m)));
         let s = mutex_update_priority m (upd_mutex m (\<lambda>mu. mu\<lparr>waiting := q\<rparr>) (s\<lparr>ths := th\<rparr>));
         ow \<leftarrow> mutex_owner (mutexes s m);
         let p = thread_get_mutex_priority ow s;
         if p \<noteq> prio_of s ow then thread_update_chain ow (set_priority ow p s) else Some s
       })
     else Some s)"

definition thread_update_priority :: "nat \<Rightarrow> u8 \<Rightarrow> mutex_sys \<Rightarrow> mutex_sys option" where
  "thread_update_priority t p s = thread_update_chain t (set_priority t p s)"

text \<open>\<open>_rt_mutex_take\<close> up to \<open>rt_schedule\<close>.\<close>

definition rt_mutex_take :: "nat \<Rightarrow> nat \<Rightarrow> int \<Rightarrow> mutex_sys \<Rightarrow> (rt_err outcome \<times> mutex_sys) option" where
  "rt_mutex_take t m timeout s =
    (let s = set_error t RT_EOK s; mu = mutexes s m in
     if mutex_owner mu = Some t
     then (if hold mu < 0xFF then Some (Ready RT_EOK, upd_mutex m (\<lambda>mu. mu\<lparr>hold := hold mu + 1\<rparr>) s) else Some (Ready RT_EFULL, s))
     else (case mutex_owner mu of
       None \<Rightarrow> do {
         let s = upd_mutex m (\<lambda>mu. mu\<lparr>mutex_owner := Some t, mutex_priority := 0xFF, hold := 1\<rparr>) s;
         s \<leftarrow> (if ceiling_priority mu \<noteq> 0xFF \<and> ceiling_priority mu < prio_of s t
           then thread_update_priority t (ceiling_priority mu) s else Some s);
         Some (Ready RT_EOK, s\<lparr>taken_object_list := (taken_object_list s)(t := m # taken_object_list s t)\<rparr>)
       }
     | Some ow \<Rightarrow>
         if timeout = 0 then Some (Ready RT_ETIMEOUT, set_error t RT_ETIMEOUT s)
         else do {
           let p = prio_of s t;
           let (th, q) = ipc_list_suspend RT_IPC_FLAG_PRIO t (ths s) (waiting mu);
           let s = upd_mutex m (\<lambda>mu. mu\<lparr>waiting := q\<rparr>) (s\<lparr>ths := th, pending_object := (pending_object s)(t := Some m)\<rparr>);
           s \<leftarrow> (if p < mutex_priority mu
             then (let s = upd_mutex m (\<lambda>mu. mu\<lparr>mutex_priority := p\<rparr>) s
                   in if p < prio_of s ow then thread_update_priority ow p s else Some s)
             else Some s);
           Some (Suspended, s\<lparr>ths := start_thread_timer t timeout (ths s)\<rparr>)
         }))"

text \<open>The rest of the call, when the thread runs again.\<close>

definition mutex_take_rest :: "nat \<Rightarrow> nat \<Rightarrow> mutex_sys \<Rightarrow> (rt_err \<times> mutex_sys) option" where
  "mutex_take_rest t m s =
    (if th_error (ths s t) = RT_EOK then Some (RT_EOK, s)
     else do {
       let need_update = (case mutex_owner (mutexes s m) of None \<Rightarrow> False | Some ow \<Rightarrow> prio_of s ow = prio_of s t);
       let s = mutex_update_priority m s;
       s \<leftarrow> (if need_update
         then do {
           ow \<leftarrow> mutex_owner (mutexes s m);
           let p = thread_get_mutex_priority ow s;
           if p \<noteq> prio_of s ow then thread_update_priority ow p s else Some s
         }
         else Some s);
       Some (th_error (ths s t), s\<lparr>pending_object := (pending_object s)(t := None)\<rparr>)
     })"

definition rt_mutex_release :: "nat \<Rightarrow> nat \<Rightarrow> mutex_sys \<Rightarrow> rt_err \<times> mutex_sys" where
  "rt_mutex_release t m s =
    (if mutex_owner (mutexes s m) \<noteq> Some t then (RT_ERROR, set_error t RT_ERROR s)
     else (let s = upd_mutex m (\<lambda>mu. mu\<lparr>hold := hold mu - 1\<rparr>) s in
       if hold (mutexes s m) = 0
       then (let s = s\<lparr>taken_object_list := (taken_object_list s)(t := removeAll m (taken_object_list s t))\<rparr>;
                 s = (if ceiling_priority (mutexes s m) \<noteq> 0xFF \<or> prio_of s t = mutex_priority (mutexes s m)
                      then set_priority t (thread_get_mutex_priority t s) s else s)
             in case waiting (mutexes s m) of
                  n # q \<Rightarrow>
                    (let s = upd_mutex m (\<lambda>mu. mu\<lparr>waiting := q, mutex_owner := Some n, hold := 1\<rparr>) s;
                         s = s\<lparr>taken_object_list := (taken_object_list s)(n := m # taken_object_list s n),
                               pending_object := (pending_object s)(n := None),
                               ths := fst (rt_thread_resume n (ths s) q)\<rparr>
                     in (RT_EOK, mutex_update_priority m s))
                | [] \<Rightarrow> (RT_EOK, upd_mutex m (\<lambda>mu. mu\<lparr>mutex_owner := None, mutex_priority := 0xFF\<rparr>) s))
       else (RT_EOK, s)))"

definition rt_mutex_setprioceiling :: "nat \<Rightarrow> nat \<Rightarrow> u8 \<Rightarrow> mutex_sys \<Rightarrow> (u8 \<times> mutex_sys) option" where
  "rt_mutex_setprioceiling t m p s =
    (if p < 32
     then do {
       let ret = ceiling_priority (mutexes s m);
       let s = upd_mutex m (\<lambda>mu. mu\<lparr>ceiling_priority := p\<rparr>) s;
       s \<leftarrow> (case mutex_owner (mutexes s m) of
           None \<Rightarrow> Some s
         | Some ow \<Rightarrow> (let p = thread_get_mutex_priority ow s in if p \<noteq> prio_of s ow then thread_update_priority ow p s else Some s));
       Some (ret, s)
     }
     else Some (0xFF, set_error t RT_EINVAL s))"

section \<open>Histories\<close>

text \<open>
  Calls of threads; the timer of a waiting thread expires; that thread runs again and finishes its call; a
  thread waits for something else than a mutex and goes on. Mutexes have numbers below \<open>n\<close>; threads take them in any order,
  so circles of threads that wait for each other arise, and end when a timer expires.
\<close>

datatype mutex_event = Take nat nat int | Release nat nat | Expire nat | Continue nat | SetCeiling nat nat u8 | Sleep nat | Wake nat

fun mutex_do :: "mutex_event \<Rightarrow> mutex_sys \<Rightarrow> mutex_sys option" where
  "mutex_do (Take t m timeout) s = map_option snd (rt_mutex_take t m timeout s)"
| "mutex_do (Release t m) s = Some (snd (rt_mutex_release t m s))"
| "mutex_do (Expire t) s = do {
     m \<leftarrow> pending_object s t;
     let (th, q) = thread_timeout t (ths s) (waiting (mutexes s m));
     Some (upd_mutex m (\<lambda>mu. mu\<lparr>waiting := q\<rparr>) (s\<lparr>ths := th\<rparr>))
   }"
| "mutex_do (Continue t) s = do { m \<leftarrow> pending_object s t; map_option snd (mutex_take_rest t m s) }"
| "mutex_do (SetCeiling t m p) s = map_option snd (rt_mutex_setprioceiling t m p s)"
| "mutex_do (Sleep t) s = Some (s\<lparr>ths := (ths s)(t := (ths s t)\<lparr>suspended := True\<rparr>)\<rparr>)"
| "mutex_do (Wake t) s = Some (s\<lparr>ths := (ths s)(t := (ths s t)\<lparr>suspended := False\<rparr>)\<rparr>)"

definition runs :: "nat \<Rightarrow> mutex_sys \<Rightarrow> bool" where
  "runs t s \<longleftrightarrow> \<not> suspended (ths s t) \<and> pending_object s t = None"

fun mutex_event_ok :: "nat \<Rightarrow> mutex_event \<Rightarrow> mutex_sys \<Rightarrow> bool" where
  "mutex_event_ok n (Take t m timeout) s =
    (runs t s \<and> m < n)"
| "mutex_event_ok n (Release t m) s = runs t s"
| "mutex_event_ok n (Expire t) s = (suspended (ths s t) \<and> pending_object s t \<noteq> None \<and> thread_timer (ths s t) \<noteq> None)"
| "mutex_event_ok n (Continue t) s = (\<not> suspended (ths s t) \<and> pending_object s t \<noteq> None)"
| "mutex_event_ok n (SetCeiling t m p) s = (runs t s \<and> m < n)"
| "mutex_event_ok n (Sleep t) s = runs t s"
| "mutex_event_ok n (Wake t) s = (suspended (ths s t) \<and> pending_object s t = None)"

inductive mutex_reach :: "(mutex_event \<Rightarrow> bool) \<Rightarrow> nat \<Rightarrow> mutex_sys \<Rightarrow> mutex_sys \<Rightarrow> bool" for P n s0 where
  start: "mutex_reach P n s0 s0"
| step: "mutex_reach P n s0 s \<Longrightarrow> mutex_event_ok n e s \<Longrightarrow> P e \<Longrightarrow> mutex_do e s = Some s' \<Longrightarrow> mutex_reach P n s0 s'"

definition mutex_start :: "(nat \<Rightarrow> u8) \<Rightarrow> mutex_sys" where
  "mutex_start pr = \<lparr>ths = (\<lambda>t. \<lparr>current_priority = pr t, suspended = False, th_error = RT_EOK, thread_timer = None, event_set = 0, event_info = 0\<rparr>),
    init_priority = pr, pending_object = (\<lambda>_. None), taken_object_list = (\<lambda>_. []), mutexes = (\<lambda>_. rt_mutex_init)\<rparr>"

section \<open>Invariants\<close>

text \<open>Who has and who wants which mutex, whatever the priorities.\<close>

definition mutex_ok :: "nat \<Rightarrow> mutex_sys \<Rightarrow> bool" where
  "mutex_ok n s \<longleftrightarrow>
     (\<forall>m t. mutex_owner (mutexes s m) = Some t \<longleftrightarrow> m \<in> set (taken_object_list s t)) \<and>
     (\<forall>t. distinct (taken_object_list s t)) \<and>
     (\<forall>m t. mutex_owner (mutexes s m) = Some t \<longrightarrow> m < n \<and> hold (mutexes s m) \<noteq> 0) \<and>
     (\<forall>m t. t \<in> set (waiting (mutexes s m)) \<longleftrightarrow> suspended (ths s t) \<and> pending_object s t = Some m) \<and>
     (\<forall>m. distinct (waiting (mutexes s m))) \<and>
     (\<forall>m. waiting (mutexes s m) \<noteq> [] \<longrightarrow> mutex_owner (mutexes s m) \<noteq> None) \<and>
     (\<forall>t m k. pending_object s t = Some m \<longrightarrow> k \<in> set (taken_object_list s t) \<longrightarrow> k \<noteq> m) \<and>
     (\<forall>t m. pending_object s t = Some m \<longrightarrow> \<not> suspended (ths s t) \<longrightarrow> th_error (ths s t) = RT_ETIMEOUT)"

lemma mutex_okD:
  assumes "mutex_ok n s"
  shows "mutex_owner (mutexes s m) = Some t \<longleftrightarrow> m \<in> set (taken_object_list s t)" "distinct (taken_object_list s t)"
    "mutex_owner (mutexes s m) = Some t \<Longrightarrow> m < n" "mutex_owner (mutexes s m) = Some t \<Longrightarrow> hold (mutexes s m) \<noteq> 0"
    "t \<in> set (waiting (mutexes s m)) \<longleftrightarrow> suspended (ths s t) \<and> pending_object s t = Some m" "distinct (waiting (mutexes s m))"
    "waiting (mutexes s m) \<noteq> [] \<Longrightarrow> mutex_owner (mutexes s m) \<noteq> None"
    "pending_object s t = Some m \<Longrightarrow> k \<in> set (taken_object_list s t) \<Longrightarrow> k \<noteq> m"
    "pending_object s t = Some m \<Longrightarrow> \<not> suspended (ths s t) \<Longrightarrow> th_error (ths s t) = RT_ETIMEOUT"
  using assms [unfolded mutex_ok_def] by blast+

lemma mutex_okI:
  assumes "\<And>m t. mutex_owner (mutexes s m) = Some t \<longleftrightarrow> m \<in> set (taken_object_list s t)" "\<And>t. distinct (taken_object_list s t)"
    "\<And>m t. mutex_owner (mutexes s m) = Some t \<Longrightarrow> m < n \<and> hold (mutexes s m) \<noteq> 0"
    "\<And>m t. t \<in> set (waiting (mutexes s m)) \<longleftrightarrow> suspended (ths s t) \<and> pending_object s t = Some m" "\<And>m. distinct (waiting (mutexes s m))"
    "\<And>m. waiting (mutexes s m) \<noteq> [] \<Longrightarrow> mutex_owner (mutexes s m) \<noteq> None"
    "\<And>t m k. pending_object s t = Some m \<Longrightarrow> k \<in> set (taken_object_list s t) \<Longrightarrow> k \<noteq> m"
    "\<And>t m. pending_object s t = Some m \<Longrightarrow> \<not> suspended (ths s t) \<Longrightarrow> th_error (ths s t) = RT_ETIMEOUT"
  shows "mutex_ok n s"
  unfolding mutex_ok_def by (intro conjI allI impI) (use assms in blast)+

text \<open>A change of priorities and of the order of waiting only.\<close>

definition same_shape :: "mutex_sys \<Rightarrow> mutex_sys \<Rightarrow> bool" where
  "same_shape s s' \<longleftrightarrow> init_priority s' = init_priority s \<and> pending_object s' = pending_object s \<and> taken_object_list s' = taken_object_list s \<and>
     (\<forall>m. mutex_owner (mutexes s' m) = mutex_owner (mutexes s m) \<and> hold (mutexes s' m) = hold (mutexes s m) \<and>
        ceiling_priority (mutexes s' m) = ceiling_priority (mutexes s m) \<and> mset (waiting (mutexes s' m)) = mset (waiting (mutexes s m))) \<and>
     (\<forall>t. suspended (ths s' t) = suspended (ths s t) \<and> th_error (ths s' t) = th_error (ths s t) \<and> thread_timer (ths s' t) = thread_timer (ths s t))"

lemma same_shape_refl [simp]: "same_shape s s"
  by (simp add: same_shape_def)

lemma same_shape_trans: "same_shape s s1 \<Longrightarrow> same_shape s1 s2 \<Longrightarrow> same_shape s s2"
  by (simp add: same_shape_def)

lemma mutex_shapeD:
  assumes "same_shape s s'"
  shows "init_priority s' = init_priority s" "pending_object s' = pending_object s" "taken_object_list s' = taken_object_list s"
    "mutex_owner (mutexes s' m) = mutex_owner (mutexes s m)" "hold (mutexes s' m) = hold (mutexes s m)"
    "ceiling_priority (mutexes s' m) = ceiling_priority (mutexes s m)" "set (waiting (mutexes s' m)) = set (waiting (mutexes s m))"
    "distinct (waiting (mutexes s' m)) = distinct (waiting (mutexes s m))" "suspended (ths s' t) = suspended (ths s t)"
    "th_error (ths s' t) = th_error (ths s t)" "thread_timer (ths s' t) = thread_timer (ths s t)"
    "waiting (mutexes s' m) = [] \<longleftrightarrow> waiting (mutexes s m) = []"
proof -
  have q: "mset (waiting (mutexes s' m)) = mset (waiting (mutexes s m))" using assms by (simp add: same_shape_def)
  show "set (waiting (mutexes s' m)) = set (waiting (mutexes s m))" by (rule mset_eq_setD [OF q])
  show "distinct (waiting (mutexes s' m)) = distinct (waiting (mutexes s m))" by (rule mset_eq_imp_distinct_iff [OF q])
  show "waiting (mutexes s' m) = [] \<longleftrightarrow> waiting (mutexes s m) = []" using q by (metis mset_zero_iff)
qed (use assms in \<open>simp_all add: same_shape_def\<close>)

lemma mutex_ok_shape:
  assumes "mutex_ok n s" "same_shape s s'"
  shows "mutex_ok n s'"
  using assms(1) unfolding mutex_ok_def mutex_shapeD [OF assms(2)] .

text \<open>
  No inversion: lists in order, an owner no less urgent than its mutexes, and these no less urgent than who waits; apart from
  thread \<open>x\<close>, whose priority has just changed. \<open>exact\<close>: every priority is the one that is inherited, and no more.
\<close>

definition no_inversion :: "nat option \<Rightarrow> mutex_sys \<Rightarrow> bool" where
  "no_inversion x s \<longleftrightarrow>
     (\<forall>m. sorted (map (prio_of s) (filter (\<lambda>u. x \<noteq> Some u) (waiting (mutexes s m))))) \<and>
     (\<forall>m t. mutex_owner (mutexes s m) = Some t \<longrightarrow> prio_of s t \<le> mutex_priority (mutexes s m)) \<and>
     (\<forall>m u. u \<in> set (waiting (mutexes s m)) \<and> x \<noteq> Some u \<longrightarrow> mutex_priority (mutexes s m) \<le> prio_of s u)"

definition exact :: "nat option \<Rightarrow> mutex_sys \<Rightarrow> bool" where
  "exact x s \<longleftrightarrow> (\<forall>t. prio_of s t = thread_get_mutex_priority t s) \<and> (\<forall>m. ceiling_priority (mutexes s m) = 0xFF) \<and>
     (\<forall>m. (\<forall>u \<in> set (waiting (mutexes s m)). x \<noteq> Some u) \<longrightarrow> mutex_priority (mutexes s m) = head_priority m s)"

definition prio_inv :: "bool \<Rightarrow> nat option \<Rightarrow> mutex_sys \<Rightarrow> bool" where
  "prio_inv b x s \<longleftrightarrow> no_inversion x s \<and> (b \<longrightarrow> exact x s)"

lemma le_ff: "x \<le> (0xFF :: u8)"
proof -
  have e: "unat (0xFF :: u8) = 255" by simp
  show ?thesis unfolding word_le_nat_alt e using unat_u8_less [of x] by linarith
qed

text \<open>The inherited priority as a minimum.\<close>

definition effective :: "mutex_sys \<Rightarrow> nat \<Rightarrow> u8" where
  "effective s m = min (mutex_priority (mutexes s m)) (ceiling_priority (mutexes s m))"

lemma get_priority_fold: "thread_get_mutex_priority t s = foldl (\<lambda>p m. min p (effective s m)) (init_priority s t) (taken_object_list s t)"
proof -
  have "(\<lambda>p m. let mu = mutexes s m;
                     mp = (if mutex_priority mu < ceiling_priority mu then mutex_priority mu else ceiling_priority mu)
                 in if p > mp then mp else p) = (\<lambda>p m. min p (effective s m))"
    by (auto simp: fun_eq_iff effective_def Let_def min_def)
  then show ?thesis by (simp add: thread_get_mutex_priority_def)
qed

lemma foldl_min:
  fixes f :: "nat \<Rightarrow> u8"
  shows "foldl (\<lambda>p m. min p (f m)) a xs \<le> b \<longleftrightarrow> a \<le> b \<or> (\<exists>m \<in> set xs. f m \<le> b)"
  by (induction xs arbitrary: a) (auto simp: min_le_iff_disj)

lemma get_priority_le:
  "thread_get_mutex_priority t s \<le> b \<longleftrightarrow> init_priority s t \<le> b \<or> (\<exists>m \<in> set (taken_object_list s t). effective s m \<le> b)"
  by (simp add: get_priority_fold foldl_min)

lemma eq_by_le: "(\<And>b :: u8. x \<le> b \<longleftrightarrow> y \<le> b) \<Longrightarrow> x = y"
  by (metis order.refl order.antisym)

lemma get_priority_cong:
  assumes "init_priority s' t = init_priority s t" "taken_object_list s' t = taken_object_list s t"
    "\<And>m. m \<in> set (taken_object_list s t) \<Longrightarrow> effective s' m = effective s m"
  shows "thread_get_mutex_priority t s' = thread_get_mutex_priority t s"
  by (rule eq_by_le) (use assms in \<open>simp add: get_priority_le\<close>)

lemma get_priority_owner: "m \<in> set (taken_object_list s t) \<Longrightarrow> thread_get_mutex_priority t s \<le> mutex_priority (mutexes s m)"
  using get_priority_le [of t s "mutex_priority (mutexes s m)"] by (auto simp: effective_def min_le_iff_disj)

section \<open>The chain of owners\<close>

lemma upd_mutex_simps [simp]:
  "mutexes (upd_mutex m f s) k = (if k = m then f (mutexes s m) else mutexes s k)" "ths (upd_mutex m f s) = ths s"
  "init_priority (upd_mutex m f s) = init_priority s" "pending_object (upd_mutex m f s) = pending_object s"
  "taken_object_list (upd_mutex m f s) = taken_object_list s"
  by (simp_all add: upd_mutex_def)

lemma set_priority_simps [simp]:
  "mutexes (set_priority t p s) = mutexes s" "ths (set_priority t p s) u = (if u = t then (ths s t)\<lparr>current_priority := p\<rparr> else ths s u)"
  "init_priority (set_priority t p s) = init_priority s" "pending_object (set_priority t p s) = pending_object s"
  "taken_object_list (set_priority t p s) = taken_object_list s"
  by (simp_all add: set_priority_def)

lemma update_priority_simps [simp]:
  "mutexes (mutex_update_priority m s) k = (if k = m then (mutexes s m)\<lparr>mutex_priority := head_priority m s\<rparr> else mutexes s k)"
  "ths (mutex_update_priority m s) = ths s" "init_priority (mutex_update_priority m s) = init_priority s"
  "pending_object (mutex_update_priority m s) = pending_object s" "taken_object_list (mutex_update_priority m s) = taken_object_list s"
  by (simp_all add: mutex_update_priority_def)

lemma shape_set_priority: "same_shape s (set_priority t p s)"
  by (simp add: same_shape_def)

lemma shape_update_priority: "same_shape s (mutex_update_priority m s)"
  by (simp add: same_shape_def)

lemma get_priority_set [simp]: "thread_get_mutex_priority t (set_priority u p s) = thread_get_mutex_priority t s"
  by (rule get_priority_cong) (simp_all add: effective_def)

lemma no_inversionD:
  assumes "no_inversion x s"
  shows "sorted (map (prio_of s) (filter (\<lambda>u. x \<noteq> Some u) (waiting (mutexes s m))))"
    "mutex_owner (mutexes s m) = Some t \<Longrightarrow> prio_of s t \<le> mutex_priority (mutexes s m)"
    "u \<in> set (waiting (mutexes s m)) \<Longrightarrow> x \<noteq> Some u \<Longrightarrow> mutex_priority (mutexes s m) \<le> prio_of s u"
  using assms [unfolded no_inversion_def] by blast+

lemma no_inversionI:
  assumes "\<And>m. sorted (map (prio_of s) (filter (\<lambda>u. x \<noteq> Some u) (waiting (mutexes s m))))"
    "\<And>m t. mutex_owner (mutexes s m) = Some t \<Longrightarrow> prio_of s t \<le> mutex_priority (mutexes s m)"
    "\<And>m u. u \<in> set (waiting (mutexes s m)) \<Longrightarrow> x \<noteq> Some u \<Longrightarrow> mutex_priority (mutexes s m) \<le> prio_of s u"
  shows "no_inversion x s"
  unfolding no_inversion_def using assms by blast

lemma exactD:
  assumes "exact x s"
  shows "prio_of s t = thread_get_mutex_priority t s" "ceiling_priority (mutexes s m) = 0xFF"
    "\<forall>u \<in> set (waiting (mutexes s m)). x \<noteq> Some u \<Longrightarrow> mutex_priority (mutexes s m) = head_priority m s"
  using assms by (simp_all add: exact_def)

lemma exactI:
  assumes "\<And>t. prio_of s t = thread_get_mutex_priority t s" "\<And>m. ceiling_priority (mutexes s m) = 0xFF"
    "\<And>m. (\<forall>u \<in> set (waiting (mutexes s m)). x \<noteq> Some u) \<Longrightarrow> mutex_priority (mutexes s m) = head_priority m s"
  shows "exact x s"
  unfolding exact_def using assms by blast

lemma head_le: "sorted (map (prio_of s) (waiting (mutexes s m))) \<Longrightarrow> u \<in> set (waiting (mutexes s m)) \<Longrightarrow> head_priority m s \<le> prio_of s u"
  by (cases "waiting (mutexes s m)") (auto simp: head_priority_def)

lemma head_cong: "waiting (mutexes s' m) = waiting (mutexes s m) \<Longrightarrow> (\<And>u. u \<in> set (waiting (mutexes s m)) \<Longrightarrow> prio_of s' u = prio_of s u) \<Longrightarrow>
    head_priority m s' = head_priority m s"
  by (simp add: head_priority_def split: list.split)

lemma head_le_iff:
  assumes "sorted (map (prio_of s) (waiting (mutexes s m)))"
  shows "head_priority m s \<le> b \<longleftrightarrow> 0xFF \<le> b \<or> (\<exists>u \<in> set (waiting (mutexes s m)). prio_of s u \<le> b)"
proof (cases "waiting (mutexes s m)")
  case Nil
  then show ?thesis by (simp add: head_priority_def)
next
  case (Cons v q)
  have "head_priority m s = prio_of s v" using Cons by (simp add: head_priority_def)
  moreover have "prio_of s v \<le> prio_of s u" if "u \<in> set (waiting (mutexes s m))" for u
    using head_le [OF assms that] calculation by simp
  ultimately show ?thesis using Cons le_ff [of "prio_of s v"] by (auto intro: order.trans)
qed

text \<open>
  The walk ends even where threads wait for each other in a circle. \<open>urgency\<close> is the priority of the most urgent
  waiting thread. A mutex \<open>may_rise\<close> when a new look at it can only make it and its owner more urgent, and \<open>may_fall\<close> when it
  can only make them less urgent; with both it is settled. A visit settles the mutex, and a settled mutex that comes next
  may rise or fall as its waiting thread has risen or fallen: so each visit settles a mutex, or the walk goes on in one direction.
\<close>

definition next_mutex :: "mutex_sys \<Rightarrow> nat \<Rightarrow> nat option" where
  "next_mutex s t = (if suspended (ths s t) then pending_object s t else None)"

definition urgency :: "mutex_sys \<Rightarrow> nat \<Rightarrow> u8" where
  "urgency s m = Min (insert 0xFF (prio_of s ` set (waiting (mutexes s m))))"

definition may_rise :: "mutex_sys \<Rightarrow> nat \<Rightarrow> bool" where
  "may_rise s m \<longleftrightarrow> urgency s m \<le> mutex_priority (mutexes s m) \<and>
     (\<forall>ow. mutex_owner (mutexes s m) = Some ow \<longrightarrow> thread_get_mutex_priority ow s \<le> prio_of s ow)"

definition may_fall :: "mutex_sys \<Rightarrow> nat \<Rightarrow> bool" where
  "may_fall s m \<longleftrightarrow> mutex_priority (mutexes s m) \<le> urgency s m \<and>
     (\<forall>ow. mutex_owner (mutexes s m) = Some ow \<longrightarrow> prio_of s ow \<le> thread_get_mutex_priority ow s)"

definition unsettled :: "nat \<Rightarrow> mutex_sys \<Rightarrow> nat \<Rightarrow> nat set" where
  "unsettled n s t = {k. k < n \<and> next_mutex s t \<noteq> Some k \<and> \<not> (may_rise s k \<and> may_fall s k)}"

definition unsettled_measure :: "nat \<Rightarrow> nat \<times> mutex_sys \<Rightarrow> nat" where
  "unsettled_measure n x = (case x of (t, s) \<Rightarrow> 2 * card (unsettled n s t) +
     (case next_mutex s t of None \<Rightarrow> 0 | Some m \<Rightarrow> if may_rise s m \<or> may_fall s m then 0 else 1))"

definition owners_sum :: "nat \<Rightarrow> (u8 \<Rightarrow> nat) \<Rightarrow> mutex_sys \<Rightarrow> nat" where
  "owners_sum n f s = (\<Sum>k<n. case mutex_owner (mutexes s k) of None \<Rightarrow> 0 | Some ow \<Rightarrow> f (prio_of s ow))"

definition distance_measure :: "nat \<Rightarrow> nat \<times> mutex_sys \<Rightarrow> nat" where
  "distance_measure n x = (case x of (t, s) \<Rightarrow> (case next_mutex s t of
       None \<Rightarrow> 0
     | Some m \<Rightarrow> if may_rise s m \<and> may_fall s m then 0
         else 1 + owners_sum n (if may_rise s m then unat else (\<lambda>p. 255 - unat p)) s))"

lemma urgency_le: "urgency s m \<le> b \<longleftrightarrow> 0xFF \<le> b \<or> (\<exists>u \<in> set (waiting (mutexes s m)). prio_of s u \<le> b)"
  unfolding urgency_def by (subst Min_le_iff) auto

lemma urgency_ge: "b \<le> urgency s m \<longleftrightarrow> (\<forall>u \<in> set (waiting (mutexes s m)). b \<le> prio_of s u)"
  unfolding urgency_def by (subst Min_ge_iff) (auto simp: le_ff)

lemma urgency_cong:
  assumes "set (waiting (mutexes s' m)) = set (waiting (mutexes s m))" "\<And>u. u \<in> set (waiting (mutexes s m)) \<Longrightarrow> prio_of s' u = prio_of s u"
  shows "urgency s' m = urgency s m"
  by (rule eq_by_le) (use assms in \<open>simp add: urgency_le\<close>)

lemma urgency_mono:
  assumes "set (waiting (mutexes s' m)) = set (waiting (mutexes s m))" "\<And>u. u \<in> set (waiting (mutexes s m)) \<Longrightarrow> prio_of s' u \<le> prio_of s u"
  shows "urgency s' m \<le> urgency s m"
  unfolding urgency_ge using assms(1) urgency_le [of s' m] order.trans [OF _ assms(2)] assms(2)
  by (metis urgency_ge order.refl order.trans)

lemma urgency_head:
  assumes "sorted (map (prio_of s) (waiting (mutexes s m)))"
  shows "urgency s m = head_priority m s"
  by (rule eq_by_le) (simp add: urgency_le head_le_iff [OF assms])

text \<open>A visit to mutex \<open>m\<close>, for which \<open>t\<close> waits and that \<open>ow\<close> holds.\<close>

lemma visit_descends:
  assumes ok: "mutex_ok n s" and t: "next_mutex s t = Some m" and ow: "mutex_owner (mutexes s m) = Some ow"
    and S: "same_shape s s1" and th: "ths s1 = ths s" and mx: "\<And>k. k \<noteq> m \<Longrightarrow> mutexes s1 k = mutexes s k"
    and um: "mutex_priority (mutexes s1 m) = urgency s m"
    and p: "p = thread_get_mutex_priority ow s1" "p \<noteq> prio_of s ow" and s2: "s2 = set_priority ow p s1"
  shows "((ow, s2), (t, s)) \<in> measures [unsettled_measure n, distance_measure n]"
proof -
  note O = mutex_okD [OF ok]
  note D = mutex_shapeD [OF S]
  have pr: "prio_of s2 u = (if u = ow then p else prio_of s u)" for u by (simp add: s2 th)
  have own: "mutex_owner (mutexes s2 k) = mutex_owner (mutexes s k)" for k using D(4) by (simp add: s2)
  have wt: "set (waiting (mutexes s2 k)) = set (waiting (mutexes s k))" for k using D(7) by (simp add: s2)
  have mp: "mutex_priority (mutexes s2 k) = (if k = m then urgency s m else mutex_priority (mutexes s k))" for k
    using um mx [of k] by (simp add: s2)
  have nx: "next_mutex s2 u = next_mutex s u" for u using D(2) by (simp add: next_mutex_def s2 th)
  have mo: "m \<in> set (taken_object_list s ow)" using O(1) ow by blast
  have wn: "u \<in> set (waiting (mutexes s k)) \<longleftrightarrow> next_mutex s u = Some k" for u k using O(5) [of u k] by (auto simp: next_mutex_def)
  have on: "next_mutex s ow = Some k \<Longrightarrow> mutex_owner (mutexes s k) \<noteq> Some ow" for k
    using O(8) [of ow k k] O(1) [of k ow] by (auto simp: next_mutex_def split: if_splits)
  have g: "thread_get_mutex_priority v s2 = thread_get_mutex_priority v s" if "v \<noteq> ow" for v
    unfolding s2 get_priority_set
  proof (rule get_priority_cong)
    fix k assume "k \<in> set (taken_object_list s v)"
    then have "k \<noteq> m" using O(1) [of k v] ow that by auto
    then show "effective s1 k = effective s k" using mx by (simp add: effective_def)
  qed (simp_all add: D)
  have go: "thread_get_mutex_priority ow s2 = p" by (simp add: s2 p(1))
  have ur: "urgency s2 k = urgency s k" if "next_mutex s ow \<noteq> Some k" for k
    by (rule urgency_cong [OF wt]) (use that wn pr in auto)
  have "next_mutex s ow \<noteq> Some m" using on [of m] ow by blast
  then have um2: "urgency s2 m = urgency s m" by (rule ur)
  have calm_m: "may_rise s2 m" "may_fall s2 m"
    using ow um2 mp [of m] own [of m] go pr [of ow] by (simp_all add: may_rise_def may_fall_def)
  have keep: "may_rise s k \<Longrightarrow> may_rise s2 k" "may_fall s k \<Longrightarrow> may_fall s2 k" if "k \<noteq> m" "next_mutex s ow \<noteq> Some k" for k
    using that ur [of k] mp [of k] own [of k] go pr g by (auto simp: may_rise_def may_fall_def)
  have sub: "unsettled n s2 ow \<subseteq> unsettled n s t - (case next_mutex s ow of None \<Rightarrow> {} | Some k \<Rightarrow> {k})"
  proof
    fix k assume k: "k \<in> unsettled n s2 ow"
    then have "k \<noteq> m" using calm_m by (auto simp: unsettled_def)
    then show "k \<in> unsettled n s t - (case next_mutex s ow of None \<Rightarrow> {} | Some k \<Rightarrow> {k})"
      using k keep [of k] t by (auto simp: unsettled_def nx split: option.splits)
  qed
  have fin: "finite (unsettled n s t)" by (simp add: unsettled_def)
  have le: "card (unsettled n s2 ow) \<le> card (unsettled n s t)" by (rule card_mono [OF fin]) (use sub in blast)
  have mn: "m < n" by (rule O(3) [OF ow])
  have eff: "effective s1 m \<le> q \<longleftrightarrow> urgency s m \<le> q \<or> ceiling_priority (mutexes s m) \<le> q" for q
    using D(6) [of m] by (simp add: effective_def um min_le_iff_disj)
  have le_iff: "p \<le> q \<longleftrightarrow> init_priority s ow \<le> q \<or> (\<exists>k \<in> set (taken_object_list s ow). k \<noteq> m \<and> effective s k \<le> q) \<or> effective s1 m \<le> q" for q
    unfolding p(1) get_priority_le D(1,3) using mx mo by (auto simp: effective_def) metis+
  have le_iff': "thread_get_mutex_priority ow s \<le> q \<longleftrightarrow>
      init_priority s ow \<le> q \<or> (\<exists>k \<in> set (taken_object_list s ow). k \<noteq> m \<and> effective s k \<le> q) \<or> effective s m \<le> q" for q
    unfolding get_priority_le using mo by auto
  have e0: "effective s m \<le> q \<longleftrightarrow> mutex_priority (mutexes s m) \<le> q \<or> ceiling_priority (mutexes s m) \<le> q" for q
    by (simp add: effective_def min_le_iff_disj)
  have up: "p < prio_of s ow" if "may_rise s m"
  proof -
    have u: "urgency s m \<le> mutex_priority (mutexes s m)" "thread_get_mutex_priority ow s \<le> prio_of s ow"
      using that ow by (auto simp: may_rise_def)
    have "p \<le> thread_get_mutex_priority ow s"
      using le_iff' [of "thread_get_mutex_priority ow s"] e0 [of "thread_get_mutex_priority ow s"] order.trans [OF u(1)]
      unfolding le_iff eff by blast
    then show ?thesis using u(2) p(2) by (simp add: order.strict_iff_order)
  qed
  have down: "prio_of s ow < p" if "may_fall s m"
  proof -
    have u: "mutex_priority (mutexes s m) \<le> urgency s m" "prio_of s ow \<le> thread_get_mutex_priority ow s"
      using that ow by (auto simp: may_fall_def)
    have "thread_get_mutex_priority ow s \<le> p"
      using le_iff [of p] eff [of p] order.trans [OF u(1)] unfolding le_iff' e0 by blast
    then show ?thesis using u(2) p(2) by (simp add: order.strict_iff_order)
  qed
  have sum: "owners_sum n f s2 < owners_sum n f s" if "f p < f (prio_of s ow)" for f
    unfolding owners_sum_def
  proof (rule sum_strict_mono_ex1)
    show "\<forall>k \<in> {..<n}. (case mutex_owner (mutexes s2 k) of None \<Rightarrow> 0 | Some ow \<Rightarrow> f (prio_of s2 ow)) \<le>
        (case mutex_owner (mutexes s k) of None \<Rightarrow> 0 | Some ow \<Rightarrow> f (prio_of s ow))"
      using that pr own by (auto split: option.split)
    show "\<exists>k \<in> {..<n}. (case mutex_owner (mutexes s2 k) of None \<Rightarrow> 0 | Some ow \<Rightarrow> f (prio_of s2 ow)) <
        (case mutex_owner (mutexes s k) of None \<Rightarrow> 0 | Some ow \<Rightarrow> f (prio_of s ow))"
      using that pr own ow mn by (intro bexI [of _ m]) auto
  qed simp
  show ?thesis
  proof (cases "next_mutex s ow")
    case None
    then show ?thesis using le up down t
      by (auto simp: unsettled_measure_def distance_measure_def nx)
  next
    case (Some j)
    have j: "j \<noteq> m" using on [of m] Some ow by auto
    show ?thesis
    proof (cases "may_rise s j \<and> may_fall s j")
      case True
      obtain v where v: "mutex_owner (mutexes s j) = Some v" "v \<noteq> ow"
        using O(7) [of j] wn [of ow j] Some on [of j] by (cases "mutex_owner (mutexes s j)") force+
      have js: "mutex_owner (mutexes s2 j) = Some v" "thread_get_mutex_priority v s2 = thread_get_mutex_priority v s"
        "prio_of s2 v = prio_of s v" "mutex_priority (mutexes s2 j) = mutex_priority (mutexes s j)"
        using v own g pr mp j by auto
      have a: "may_rise s2 j" if "p < prio_of s ow"
      proof -
        have "urgency s2 j \<le> urgency s j" by (rule urgency_mono [OF wt]) (use that pr in auto)
        then show ?thesis using True v js by (auto simp: may_rise_def)
      qed
      have b: "may_fall s2 j" if "prio_of s ow < p"
      proof -
        have "urgency s j \<le> urgency s2 j" by (rule urgency_mono [OF wt [symmetric]]) (use that pr in auto)
        then show ?thesis using True v js by (auto simp: may_fall_def)
      qed
      have ne: "unat p < unat (prio_of s ow) \<or> unat (prio_of s ow) < unat p"
        using p(2) unfolding nat_neq_iff [symmetric] by (simp add: word_unat_eq_iff)
      have "255 - unat p < 255 - unat (prio_of s ow)" if "prio_of s ow < p"
        using that [unfolded word_less_nat_alt] unat_u8_less [of p] by linarith
      then show ?thesis using le up down a b sum [of unat] sum [of "\<lambda>p. 255 - unat p"] t Some nx [of ow] ne
        by (auto simp: unsettled_measure_def distance_measure_def word_less_nat_alt)
    next
      case False
      have "j < n" using O(3) [of j] O(7) [of j] wn [of ow j] Some by fastforce
      then have "j \<in> unsettled n s t" using False t j by (simp add: unsettled_def)
      then have "card (unsettled n s2 ow) < card (unsettled n s t)"
        by (intro psubset_card_mono [OF fin]) (use sub Some in auto)
      then show ?thesis using t Some nx [of ow] by (simp add: unsettled_measure_def)
    qed
  qed
qed

text \<open>A thread that waits gets its new place, and its mutex the priority of its first thread.\<close>

lemma reinsert:
  assumes ok: "mutex_ok n s" and inv: "prio_inv b (Some t) s" and t: "t \<in> set (waiting (mutexes s m))"
    and s1: "s1 = mutex_update_priority m (upd_mutex m (\<lambda>mu. mu\<lparr>waiting := prio_insert (ths s) t (removeAll t (waiting (mutexes s m)))\<rparr>) s)"
  shows "same_shape s s1" "ths s1 = ths s" "sorted (map (prio_of s) (waiting (mutexes s1 m)))" "mutex_priority (mutexes s1 m) = head_priority m s1"
    "k \<noteq> m \<Longrightarrow> mutexes s1 k = mutexes s k" "k \<noteq> m \<Longrightarrow> t \<notin> set (waiting (mutexes s k))"
proof -
  note O = mutex_okD [OF ok]
  have d: "distinct (waiting (mutexes s m))" by (rule O(6))
  have f: "filter (\<lambda>u. Some t \<noteq> Some u) (waiting (mutexes s m)) = removeAll t (waiting (mutexes s m))"
    by (simp add: removeAll_filter_not_eq)
  have "sorted (map (prio_of s) (removeAll t (waiting (mutexes s m))))"
    using no_inversionD(1) [of "Some t" s m] inv unfolding prio_inv_def f by blast
  then show "sorted (map (prio_of s) (waiting (mutexes s1 m)))" by (simp add: s1 sorted_prio_insert)
  have "mset (prio_insert (ths s) t (removeAll t (waiting (mutexes s m)))) = mset (waiting (mutexes s m))"
    using d t by (simp add: distinct_remove1_removeAll [symmetric])
  then show "same_shape s s1" by (simp add: s1 same_shape_def)
  show "ths s1 = ths s" by (simp add: s1)
  show "mutex_priority (mutexes s1 m) = head_priority m s1"
    by (simp add: s1) (rule head_cong [symmetric], simp_all)
  show "mutexes s1 k = mutexes s k" if "k \<noteq> m" using that by (simp add: s1)
  show "t \<notin> set (waiting (mutexes s k))" if "k \<noteq> m" using that O(5) [of t k] O(5) [of t m] t by auto
qed

lemma update_chain_ok:
  assumes "mutex_ok n s" "prio_inv b (Some t) s"
  shows "\<exists>s'. thread_update_chain t s = Some s' \<and> same_shape s s' \<and> prio_inv b None s'"
  using assms
proof (induction "(t, s)" arbitrary: t s rule: wf_induct_rule [OF wf_measures [of "[unsettled_measure n, distance_measure n]"]])
  case less: 1
  note O = mutex_okD [OF less.prems(1)]
  have inv: "no_inversion (Some t) s" "b \<Longrightarrow> exact (Some t) s" using less.prems(2) by (auto simp: prio_inv_def)
  show ?case
  proof (cases "suspended (ths s t) \<and> pending_object s t \<noteq> None")
    case False
    have out: "t \<notin> set (waiting (mutexes s m))" for m using O(5) [of t m] False by auto
    then have f: "filter (\<lambda>u. Some t \<noteq> Some u) (waiting (mutexes s m)) = filter (\<lambda>u. None \<noteq> Some u) (waiting (mutexes s m))" for m
      by (auto simp: filter_id_conv)
    have "no_inversion None s"
    proof (rule no_inversionI)
      show "mutex_priority (mutexes s m) \<le> prio_of s u" if "u \<in> set (waiting (mutexes s m))" for m u
        by (rule no_inversionD(3) [OF inv(1) that]) (use out [of m] that in auto)
    qed (use no_inversionD(1,2) [OF inv(1)] f in auto)
    moreover have "exact None s" if b
      by (rule exactI) (use exactD [OF inv(2) [OF that]] out in auto)
    moreover have "thread_update_chain t s = Some s" using False by (auto simp: thread_update_chain.simps [of t s])
    ultimately show ?thesis by (simp add: prio_inv_def)
  next
    case True
    then obtain m where m: "suspended (ths s t)" "pending_object s t = Some m" by auto
    have t: "t \<in> set (waiting (mutexes s m))" using O(5) m by simp
    obtain ow where ow: "mutex_owner (mutexes s m) = Some ow" using O(7) [of m] t by fastforce
    have mt: "m \<in> set (taken_object_list s ow)" using O(1) ow by blast
    obtain s1 where s1: "s1 = mutex_update_priority m (upd_mutex m (\<lambda>mu. mu\<lparr>waiting := prio_insert (ths s) t (removeAll t (waiting (mutexes s m)))\<rparr>) s)" by blast
    note R = reinsert [OF less.prems(1,2) t s1]
    note S = mutex_shapeD [OF R(1)]
    let ?p = "thread_get_mutex_priority ow s1"
    have step: "thread_update_chain t s = (if ?p \<noteq> prio_of s1 ow then thread_update_chain ow (set_priority ow ?p s1) else Some s1)"
      using m ow by (simp add: thread_update_chain.simps [of t s] ipc_list_suspend_def Let_def flip: s1)
        (simp add: s1)
    have oww: "ow \<notin> set (waiting (mutexes s m))" using O(8) [of ow m m] O(5) [of ow m] mt by auto
    have srt: "sorted (map (prio_of s) (waiting (mutexes s1 k)))" if "k \<noteq> m" for k
    proof -
      have "filter (\<lambda>u. Some t \<noteq> Some u) (waiting (mutexes s k)) = waiting (mutexes s k)" using R(6) [OF that] by (auto intro: filter_True)
      then show ?thesis using no_inversionD(1) [OF inv(1), of k] R(5) [OF that] by simp
    qed
    have all_sorted: "sorted (map (prio_of s1) (waiting (mutexes s1 k)))" for k using srt [of k] R(2,3) by (cases "k = m") auto
    have wle: "mutex_priority (mutexes s1 k) \<le> prio_of s1 u" if "u \<in> set (waiting (mutexes s1 k))" for k u
    proof (cases "k = m")
      case True
      then show ?thesis using head_le [OF all_sorted that] R(4) by simp
    next
      case False
      then show ?thesis using no_inversionD(3) [OF inv(1), of u k] that R(2,5,6) by auto
    qed
    have ole: "prio_of s1 v \<le> mutex_priority (mutexes s1 k)" if "mutex_owner (mutexes s1 k) = Some v" "v \<noteq> ow" for k v
      using no_inversionD(2) [OF inv(1), of k v] that ow R(2,5) S(4) by (cases "k = m") auto
    have pk: "?p \<le> mutex_priority (mutexes s1 k)" if "mutex_owner (mutexes s1 k) = Some ow" for k
      by (rule get_priority_owner) (use O(1) [of k ow] S(3,4) that in auto)
    have others: "thread_get_mutex_priority v s1 = thread_get_mutex_priority v s" if "v \<noteq> ow" for v
    proof (rule get_priority_cong)
      fix k assume "k \<in> set (taken_object_list s v)"
      then have "k \<noteq> m" using O(1) [of k v] ow that by auto
      then show "effective s1 k = effective s k" using R(5) by (simp add: effective_def)
    qed (simp_all add: S)
    show ?thesis
    proof (cases "?p = prio_of s1 ow")
      case True
      have "no_inversion None s1"
        by (rule no_inversionI) (use all_sorted wle ole pk True in \<open>auto, metis\<close>)
      moreover have "exact None s1" if b
      proof (rule exactI)
        show "prio_of s1 v = thread_get_mutex_priority v s1" for v
          using exactD(1) [OF inv(2) [OF that], of v] others [of v] True R(2) by (cases "v = ow") auto
        show "ceiling_priority (mutexes s1 k) = 0xFF" for k using exactD(2) [OF inv(2) [OF that]] S(6) by simp
        show "mutex_priority (mutexes s1 k) = head_priority k s1" for k
        proof (cases "k = m")
          case False
          then have "mutex_priority (mutexes s k) = head_priority k s" using exactD(3) [OF inv(2) [OF that], of k] R(6) by auto
          then show ?thesis using head_cong [of s1 k s] R(2,5) False by simp
        qed (use R(4) in simp)
      qed
      ultimately show ?thesis using step True R(1) by (simp add: prio_inv_def)
    next
      case False
      let ?s2 = "set_priority ow ?p s1"
      have sh: "same_shape s ?s2" by (rule same_shape_trans [OF R(1) shape_set_priority])
      have W: "mutex_ok n ?s2" by (rule mutex_ok_shape [OF less.prems(1) sh])
      have "no_inversion (Some ow) ?s2"
      proof (rule no_inversionI)
        show "sorted (map (prio_of ?s2) (filter (\<lambda>u. Some ow \<noteq> Some u) (waiting (mutexes ?s2 k))))" for k
        proof -
          have "map (prio_of ?s2) (filter (\<lambda>u. Some ow \<noteq> Some u) (waiting (mutexes s1 k))) =
            map (prio_of s1) (filter (\<lambda>u. Some ow \<noteq> Some u) (waiting (mutexes s1 k)))" by (rule map_cong) auto
          then show ?thesis unfolding set_priority_simps(1) by (simp only: sorted_filter [OF all_sorted])
        qed
      qed (use wle ole pk in auto)
      moreover have "exact (Some ow) ?s2" if b
      proof (rule exactI)
        show "prio_of ?s2 v = thread_get_mutex_priority v ?s2" for v
          using exactD(1) [OF inv(2) [OF that], of v] others [of v] R(2) by (cases "v = ow") auto
        show "ceiling_priority (mutexes ?s2 k) = 0xFF" for k using exactD(2) [OF inv(2) [OF that]] S(6) by simp
        show "mutex_priority (mutexes ?s2 k) = head_priority k ?s2" if w: "\<forall>u \<in> set (waiting (mutexes ?s2 k)). Some ow \<noteq> Some u" for k
        proof -
          have h: "head_priority k ?s2 = head_priority k s1" by (rule head_cong) (use w in auto)
          show ?thesis
          proof (cases "k = m")
            case False
            then have "mutex_priority (mutexes s k) = head_priority k s" using exactD(3) [OF inv(2) [OF \<open>b\<close>], of k] R(6) by auto
            then show ?thesis using head_cong [of s1 k s] R(2,5) False h by simp
          qed (use R(4) h in simp)
        qed
      qed
      ultimately have I: "prio_inv b (Some ow) ?s2" by (simp add: prio_inv_def)
      have nt: "next_mutex s t = Some m" using m by (simp add: next_mutex_def)
      have "urgency s m = urgency s1 m" by (rule urgency_cong) (use R(2) S(7) in auto)
      then have "mutex_priority (mutexes s1 m) = urgency s m" using R(4) urgency_head [OF all_sorted] by simp
      then have "((ow, ?s2), (t, s)) \<in> measures [unsettled_measure n, distance_measure n]"
        by (intro visit_descends [OF less.prems(1) nt ow R(1,2,5)]) (use False R(2) in auto)
      from less.hyps [OF this W I] show ?thesis using step False same_shape_trans [OF sh] by auto
    qed
  qed
qed

lemma update_priority_ok:
  assumes "mutex_ok n s" "prio_inv b (Some t) (set_priority t p s)"
  shows "\<exists>s'. thread_update_priority t p s = Some s' \<and> same_shape s s' \<and> prio_inv b None s'"
  using update_chain_ok [OF mutex_ok_shape [OF assms(1) shape_set_priority] assms(2)] same_shape_trans [OF shape_set_priority]
  by (fastforce simp: thread_update_priority_def)

lemma no_inversion_cong:
  assumes "\<And>t. prio_of s' t = prio_of s t" "\<And>m. waiting (mutexes s' m) = waiting (mutexes s m)"
    "\<And>m. mutex_owner (mutexes s' m) = mutex_owner (mutexes s m)" "\<And>m. mutex_priority (mutexes s' m) = mutex_priority (mutexes s m)"
  shows "no_inversion x s' = no_inversion x s"
  by (simp add: no_inversion_def assms)

lemma exact_cong:
  assumes "\<And>t. prio_of s' t = prio_of s t" "\<And>m. waiting (mutexes s' m) = waiting (mutexes s m)"
    "\<And>m. mutex_priority (mutexes s' m) = mutex_priority (mutexes s m)" "\<And>m. ceiling_priority (mutexes s' m) = ceiling_priority (mutexes s m)"
    "init_priority s' = init_priority s" "taken_object_list s' = taken_object_list s"
  shows "exact x s' = exact x s"
proof -
  have "thread_get_mutex_priority t s' = thread_get_mutex_priority t s" for t
    by (rule get_priority_cong) (simp_all add: assms effective_def)
  moreover have "head_priority m s' = head_priority m s" for m by (rule head_cong) (simp_all add: assms)
  ultimately show ?thesis by (simp add: exact_def assms)
qed

text \<open>The owner of a mutex takes the priority that it inherits.\<close>

lemma no_inversion_owner:
  assumes "\<And>k. sorted (map (prio_of s) (waiting (mutexes s k)))"
    "\<And>k u. u \<in> set (waiting (mutexes s k)) \<Longrightarrow> mutex_priority (mutexes s k) \<le> prio_of s u"
    "\<And>k v. mutex_owner (mutexes s k) = Some v \<Longrightarrow> v \<noteq> ow \<Longrightarrow> prio_of s v \<le> mutex_priority (mutexes s k)"
    "\<And>k. mutex_owner (mutexes s k) = Some ow \<Longrightarrow> p \<le> mutex_priority (mutexes s k)"
  shows "no_inversion (Some ow) (set_priority ow p s)"
proof (rule no_inversionI)
  fix k
  have "map (prio_of (set_priority ow p s)) (filter (\<lambda>u. Some ow \<noteq> Some u) (waiting (mutexes s k))) =
    map (prio_of s) (filter (\<lambda>u. Some ow \<noteq> Some u) (waiting (mutexes s k)))" by (rule map_cong) auto
  then show "sorted (map (prio_of (set_priority ow p s)) (filter (\<lambda>u. Some ow \<noteq> Some u) (waiting (mutexes (set_priority ow p s) k))))"
    unfolding set_priority_simps(1) by (simp only: sorted_filter [OF assms(1)])
qed (use assms(2-4) in auto)

lemma exact_owner:
  assumes "\<And>v. v \<noteq> ow \<Longrightarrow> prio_of s v = thread_get_mutex_priority v s" "p = thread_get_mutex_priority ow s"
    "\<And>m. ceiling_priority (mutexes s m) = 0xFF" "\<And>m. mutex_priority (mutexes s m) = head_priority m s"
  shows "exact (Some ow) (set_priority ow p s)"
proof (rule exactI)
  fix m assume w: "\<forall>u \<in> set (waiting (mutexes (set_priority ow p s) m)). Some ow \<noteq> Some u"
  have "head_priority m (set_priority ow p s) = head_priority m s" by (rule head_cong) (use w in auto)
  then show "mutex_priority (mutexes (set_priority ow p s) m) = head_priority m (set_priority ow p s)" using assms(4) by simp
qed (use assms in auto)

text \<open>After a change of the mutex that only its owner feels.\<close>

lemma settle:
  assumes "mutex_ok n s" "no_inversion None s" "b \<Longrightarrow> (\<forall>v. v \<noteq> ow \<longrightarrow> prio_of s v = thread_get_mutex_priority v s) \<and>
      (\<forall>m. ceiling_priority (mutexes s m) = 0xFF) \<and> (\<forall>m. mutex_priority (mutexes s m) = head_priority m s)"
  shows "\<exists>s'. (let p = thread_get_mutex_priority ow s in if p \<noteq> prio_of s ow then thread_update_priority ow p s else Some s) = Some s' \<and>
    same_shape s s' \<and> prio_inv b None s'"
proof (cases "thread_get_mutex_priority ow s = prio_of s ow")
  case True
  have "exact None s" if b by (rule exactI) (use assms(3) [OF that] True in \<open>auto, metis\<close>)
  then show ?thesis using assms(2) True by (simp add: prio_inv_def)
next
  case False
  have "no_inversion (Some ow) (set_priority ow (thread_get_mutex_priority ow s) s)"
  proof (rule no_inversion_owner)
    show "mutex_owner (mutexes s k) = Some ow \<Longrightarrow> thread_get_mutex_priority ow s \<le> mutex_priority (mutexes s k)" for k
      by (rule get_priority_owner) (use mutex_okD(1) [OF assms(1)] in blast)
  qed (use no_inversionD [OF assms(2)] in simp_all)
  moreover have "exact (Some ow) (set_priority ow (thread_get_mutex_priority ow s) s)" if b
    by (rule exact_owner) (use assms(3) [OF that] in auto)
  ultimately show ?thesis using update_priority_ok [OF assms(1), of b ow "thread_get_mutex_priority ow s"] False
    by (simp add: prio_inv_def Let_def)
qed

lemma head_ge:
  assumes "\<And>u. u \<in> set (waiting (mutexes s m)) \<Longrightarrow> p \<le> prio_of s u"
  shows "p \<le> head_priority m s"
  using assms le_ff by (auto simp: head_priority_def split: list.split)

definition mutex_inv :: "bool \<Rightarrow> nat \<Rightarrow> mutex_sys \<Rightarrow> bool" where
  "mutex_inv b n s \<longleftrightarrow> mutex_ok n s \<and> prio_inv b None s"

lemma mutex_invD:
  assumes "mutex_inv b n s"
  shows "mutex_ok n s" "no_inversion None s" "b \<Longrightarrow> exact None s" "sorted (map (prio_of s) (waiting (mutexes s m)))"
    "mutex_owner (mutexes s m) = Some t \<Longrightarrow> prio_of s t \<le> mutex_priority (mutexes s m)"
    "u \<in> set (waiting (mutexes s m)) \<Longrightarrow> mutex_priority (mutexes s m) \<le> prio_of s u"
  using assms no_inversionD [of None s] by (auto simp: mutex_inv_def prio_inv_def)

lemma exact_noneD:
  assumes "exact None s"
  shows "prio_of s t = thread_get_mutex_priority t s" "ceiling_priority (mutexes s m) = 0xFF" "mutex_priority (mutexes s m) = head_priority m s"
  using exactD [OF assms] by auto

text \<open>Changes of errors, timers and of who sleeps for other reasons.\<close>

lemma inv_same:
  assumes "mutex_inv b n s" "mutex_ok n s'" "\<And>t. prio_of s' t = prio_of s t" "mutexes s' = mutexes s"
    "init_priority s' = init_priority s" "taken_object_list s' = taken_object_list s"
  shows "mutex_inv b n s'"
proof -
  have "no_inversion None s' = no_inversion None s" "exact None s' = exact None s"
    by (rule no_inversion_cong exact_cong; use assms(3-6) in simp)+
  then show ?thesis using assms(1,2) by (simp add: mutex_inv_def prio_inv_def)
qed

lemma set_error_inv:
  assumes "mutex_inv b n s" "runs t s"
  shows "mutex_inv b n (set_error t e s)"
proof (rule inv_same [OF assms(1)])
  note O = mutex_okD [OF mutex_invD(1) [OF assms(1)]]
  show "mutex_ok n (set_error t e s)"
    by (rule mutex_okI) (use O assms(2) in \<open>auto simp: set_error_def runs_def split: if_splits\<close>)
qed (simp_all add: set_error_def)

lemma expire_inv:
  assumes "mutex_inv False n s" "mutex_event_ok n (Expire t) s"
  shows "\<exists>s'. mutex_do (Expire t) s = Some s' \<and> mutex_inv False n s'"
proof -
  note O = mutex_okD [OF mutex_invD(1) [OF assms(1)]]
  obtain m where m: "pending_object s t = Some m" "suspended (ths s t)" using assms(2) by auto
  let ?s = "upd_mutex m (\<lambda>mu. mu\<lparr>waiting := removeAll t (waiting (mutexes s m))\<rparr>)
    (s\<lparr>ths := (ths s)(t := (ths s t)\<lparr>th_error := RT_ETIMEOUT, suspended := False, thread_timer := None\<rparr>)\<rparr>)"
  have "waiting (mutexes s m) \<noteq> []" using O(5) [of t m] m by force
  then have "mutex_ok n ?s"
    by (intro mutex_okI) (use O m in \<open>auto simp: distinct_removeAll split: if_splits\<close>)
  moreover have "no_inversion None ?s"
  proof (rule no_inversionI)
    fix k
    have p: "prio_of ?s u = prio_of s u" for u by simp
    have "sorted (map (prio_of s) (removeAll t (waiting (mutexes s m))))"
      using sorted_filter [OF mutex_invD(4) [OF assms(1)]] by (simp add: removeAll_filter_not_eq)
    then show "sorted (map (prio_of ?s) (filter (\<lambda>u. None \<noteq> Some u) (waiting (mutexes ?s k))))"
      using mutex_invD(4) [OF assms(1), of k] unfolding p by simp
  qed (use mutex_invD(5,6) [OF assms(1)] in \<open>auto split: if_splits\<close>)
  ultimately show ?thesis using m by (simp add: thread_timeout_def mutex_inv_def prio_inv_def)
qed

lemma continue_inv:
  assumes "mutex_inv b n s" "mutex_event_ok n (Continue t) s"
  shows "\<exists>s'. mutex_do (Continue t) s = Some s' \<and> mutex_inv b n s'"
proof -
  note I = mutex_invD [OF assms(1)]
  note O = mutex_okD [OF I(1)]
  obtain m where m: "pending_object s t = Some m" "\<not> suspended (ths s t)" using assms(2) by auto
  have e: "th_error (ths s t) = RT_ETIMEOUT" by (rule O(9) [OF m])
  let ?s1 = "mutex_update_priority m s"
  have W1: "mutex_ok n ?s1" by (rule mutex_ok_shape [OF I(1) shape_update_priority])
  have hd: "mutex_priority (mutexes s m) \<le> head_priority m s" by (rule head_ge) (rule I(6))
  have J1: "no_inversion None ?s1"
  proof (rule no_inversionI)
    show "mutex_owner (mutexes ?s1 k) = Some v \<Longrightarrow> prio_of ?s1 v \<le> mutex_priority (mutexes ?s1 k)" for k v
      using I(5) [of k v] hd by (auto split: if_splits)
    show "u \<in> set (waiting (mutexes ?s1 k)) \<Longrightarrow> mutex_priority (mutexes ?s1 k) \<le> prio_of ?s1 u" for k u
      using I(6) [of u k] head_le [OF I(4), of u m] by (auto split: if_splits)
  qed (use I(4) in simp)
  have E1: "exact None ?s1" if b
  proof -
    have "mutex_priority (mutexes s m) = head_priority m s" by (rule exact_noneD(3) [OF I(3) [OF that]])
    then have "exact None ?s1 = exact None s" by (intro exact_cong) auto
    then show ?thesis using I(3) [OF that] by simp
  qed
  obtain nu where nu: "nu = (case mutex_owner (mutexes s m) of None \<Rightarrow> False | Some ow \<Rightarrow> prio_of s ow = prio_of s t)" by blast
  obtain s2 where s2: "(if nu then do {
        ow \<leftarrow> mutex_owner (mutexes ?s1 m);
        let p = thread_get_mutex_priority ow ?s1;
        if p \<noteq> prio_of ?s1 ow then thread_update_priority ow p ?s1 else Some ?s1
      } else Some ?s1) = Some s2" "same_shape s s2" "prio_inv b None s2"
  proof (cases nu)
    case False
    then show thesis using that [of ?s1] J1 E1 shape_update_priority by (simp add: prio_inv_def)
  next
    case True
    then obtain ow where ow: "mutex_owner (mutexes s m) = Some ow" by (auto simp: nu split: option.splits)
    have "b \<Longrightarrow> (\<forall>v. v \<noteq> ow \<longrightarrow> prio_of ?s1 v = thread_get_mutex_priority v ?s1) \<and>
      (\<forall>m. ceiling_priority (mutexes ?s1 m) = 0xFF) \<and> (\<forall>m. mutex_priority (mutexes ?s1 m) = head_priority m ?s1)"
      using exact_noneD [OF E1] by blast
    from settle [OF W1 J1 this] obtain s2 where
      "(let p = thread_get_mutex_priority ow ?s1 in if p \<noteq> prio_of ?s1 ow then thread_update_priority ow p ?s1 else Some ?s1) = Some s2"
      "same_shape ?s1 s2" "prio_inv b None s2" by blast
    then show thesis using that [of s2] True ow same_shape_trans [OF shape_update_priority] by simp
  qed
  let ?s3 = "s2\<lparr>pending_object := (pending_object s2)(t := None)\<rparr>"
  have d: "mutex_do (Continue t) s = Some ?s3"
    using m e s2(1) by (simp add: mutex_take_rest_def Let_def flip: nu)
  note O2 = mutex_okD [OF mutex_ok_shape [OF I(1) s2(2)]]
  have ns: "\<not> suspended (ths s2 t)" using m(2) mutex_shapeD(9) [OF s2(2)] by simp
  have "mutex_ok n ?s3"
    by (rule mutex_okI) (use O2 ns in \<open>auto split: if_splits\<close>)
  moreover have "mutex_inv b n s2" using s2 mutex_ok_shape [OF I(1)] by (simp add: mutex_inv_def)
  ultimately show ?thesis using d inv_same [of b n s2 ?s3] by simp
qed

lemma sleep_inv:
  assumes "mutex_inv b n s" "mutex_event_ok n (Sleep t) s"
  shows "\<exists>s'. mutex_do (Sleep t) s = Some s' \<and> mutex_inv b n s'"
proof -
  note O = mutex_okD [OF mutex_invD(1) [OF assms(1)]]
  have "mutex_ok n (s\<lparr>ths := (ths s)(t := (ths s t)\<lparr>suspended := True\<rparr>)\<rparr>)"
    by (rule mutex_okI) (use O assms(2) in \<open>auto simp: runs_def split: if_splits\<close>)
  then show ?thesis using inv_same [OF assms(1)] by simp
qed

lemma wake_inv:
  assumes "mutex_inv b n s" "mutex_event_ok n (Wake t) s"
  shows "\<exists>s'. mutex_do (Wake t) s = Some s' \<and> mutex_inv b n s'"
proof -
  note O = mutex_okD [OF mutex_invD(1) [OF assms(1)]]
  have "mutex_ok n (s\<lparr>ths := (ths s)(t := (ths s t)\<lparr>suspended := False\<rparr>)\<rparr>)"
    by (rule mutex_okI) (use O assms(2) in \<open>auto split: if_splits\<close>)
  then show ?thesis using inv_same [OF assms(1)] by simp
qed

lemma ceiling_inv:
  assumes "mutex_inv False n s" "runs t s"
  shows "\<exists>s'. mutex_do (SetCeiling t m p) s = Some s' \<and> mutex_inv False n s'"
proof (cases "p < 32")
  case False
  then show ?thesis using set_error_inv [OF assms] by (simp add: rt_mutex_setprioceiling_def)
next
  case True
  note I = mutex_invD [OF assms(1)]
  let ?s = "upd_mutex m (\<lambda>mu. mu\<lparr>ceiling_priority := p\<rparr>) s"
  have W: "mutex_ok n ?s" by (rule mutex_okI) (use mutex_okD [OF I(1)] in \<open>auto split: if_splits\<close>)
  have J: "no_inversion None ?s = no_inversion None s" by (rule no_inversion_cong) auto
  show ?thesis
  proof (cases "mutex_owner (mutexes s m)")
    case None
    then show ?thesis using True W J I(2) by (simp add: rt_mutex_setprioceiling_def mutex_inv_def prio_inv_def)
  next
    case (Some ow)
    obtain s' where s': "(let p = thread_get_mutex_priority ow ?s in if p \<noteq> prio_of ?s ow then thread_update_priority ow p ?s else Some ?s) = Some s'"
      "same_shape ?s s'" "prio_inv False None s'" using settle [OF W, of False ow] J I(2) by auto
    then show ?thesis using True Some mutex_ok_shape [OF W s'(2)] by (simp add: rt_mutex_setprioceiling_def mutex_inv_def Let_def)
  qed
qed

lemma take_free_inv:
  assumes "mutex_inv b n s" "runs t s" "m < n" "mutex_owner (mutexes s m) = None"
  shows "\<exists>r s'. rt_mutex_take t m timeout s = Some (r, s') \<and> mutex_inv b n s'"
proof -
  let ?e = "set_error t RT_EOK s"
  have inv: "mutex_inv b n ?e" by (rule set_error_inv [OF assms(1,2)])
  note I = mutex_invD [OF inv]
  note O = mutex_okD [OF I(1)]
  have E: "mutexes ?e = mutexes s" "prio_of ?e t = prio_of s t" "\<not> suspended (ths ?e t)" "pending_object ?e t = None" for t'
    using assms(2) by (simp_all add: set_error_def runs_def)
  let ?c = "ceiling_priority (mutexes s m)"
  let ?s1 = "upd_mutex m (\<lambda>mu. mu\<lparr>mutex_owner := Some t, mutex_priority := 0xFF, hold := 1\<rparr>) ?e"
  obtain p where p: "p = (if ?c \<noteq> 0xFF \<and> ?c < prio_of s t then ?c else prio_of s t)" by blast
  have ple: "p \<le> prio_of s t" by (auto simp: p)
  have out: "t \<notin> set (waiting (mutexes s k))" for k using O(5) [of t k] E by auto
  have w: "waiting (mutexes s m) = []" using O(7) [of m] E(1) assms(4) by auto
  have nm: "m \<notin> set (taken_object_list ?e u)" for u using O(1) [of m u] E(1) assms(4) by auto
  let ?s2 = "(set_priority t p ?s1)\<lparr>taken_object_list := (taken_object_list ?e)(t := m # taken_object_list ?e t)\<rparr>"
  have "thread_update_priority t ?c ?s1 = Some (set_priority t ?c ?s1)"
    using E(3) by (simp add: thread_update_priority_def thread_update_chain.simps [of t])
  moreover have "set_priority t (prio_of s t) ?s1 = ?s1" using E(2) by (simp add: set_priority_def upd_mutex_def set_error_def)
  ultimately have d: "rt_mutex_take t m timeout s = Some (Ready RT_EOK, ?s2)"
    using assms(4) E(1,2) by (simp add: rt_mutex_take_def Let_def p)
  have nw: "\<not> (suspended (ths ?e u) \<and> pending_object ?e u = Some m)" for u using O(5) [of u m] w E(1) by simp
  have sus: "suspended (ths ?s2 u) = suspended (ths ?e u)" "th_error (ths ?s2 u) = th_error (ths ?e u)" for u by simp_all
  have wt: "waiting (mutexes ?s2 k) = waiting (mutexes ?e k)" for k by simp
  have pd: "pending_object ?s2 u = pending_object ?e u" for u by simp
  have "mutex_ok n ?s2"
  proof (rule mutex_okI)
    show "mutex_owner (mutexes ?s2 k) = Some u \<longleftrightarrow> k \<in> set (taken_object_list ?s2 u)" for k u
      using O(1) [of k u] nm [of u] by (cases "k = m") auto
    show "distinct (taken_object_list ?s2 u)" for u using O(2) nm by simp
    show "mutex_owner (mutexes ?s2 k) = Some u \<Longrightarrow> k < n \<and> hold (mutexes ?s2 k) \<noteq> 0" for k u
      using O(3,4) [of k u] assms(3) by (cases "k = m") auto
    show "waiting (mutexes ?s2 k) \<noteq> [] \<Longrightarrow> mutex_owner (mutexes ?s2 k) \<noteq> None" for k
      using O(7) [of k] unfolding wt by (cases "k = m") simp_all
    show "pending_object ?s2 u = Some j \<Longrightarrow> k \<in> set (taken_object_list ?s2 u) \<Longrightarrow> k \<noteq> j" for u j k
      using O(8) [of u j k] E(4) by (cases "u = t") simp_all
  qed (use O(5,6,9) in \<open>simp_all only: sus wt pd\<close>)
  moreover have "no_inversion None ?s2"
  proof (rule no_inversionI)
    fix k
    have e: "map (prio_of ?s2) (waiting (mutexes ?e k)) = map (prio_of ?e) (waiting (mutexes ?e k))" by (rule map_cong) (use out E(1) in auto)
    have f: "filter (\<lambda>u. None \<noteq> Some u) q = q" for q :: "nat list" by simp
    show "sorted (map (prio_of ?s2) (filter (\<lambda>u. None \<noteq> Some u) (waiting (mutexes ?s2 k))))"
      unfolding wt f e by (rule I(4))
  next
    fix k v assume "mutex_owner (mutexes ?s2 k) = Some v"
    then show "prio_of ?s2 v \<le> mutex_priority (mutexes ?s2 k)"
      using I(5) [of k v] ple E(1,2) le_ff by (auto split: if_splits intro: order.trans)
  next
    fix k u assume "u \<in> set (waiting (mutexes ?s2 k))"
    then show "mutex_priority (mutexes ?s2 k) \<le> prio_of ?s2 u"
      using I(6) [of u k] E(1) w out by (auto split: if_splits)
  qed
  moreover have "exact None ?s2" if b
  proof (rule exactI)
    note X = exact_noneD [OF I(3) [OF that]]
    have c: "?c = 0xFF" using X(2) [of m] E(1) by simp
    have pp: "prio_of ?s2 v = prio_of ?e v" for v using c by (simp add: p E(2))
    have eff: "effective ?s2 k = effective ?e k" if "k \<noteq> m" for k using that by (simp add: effective_def)
    have em: "effective ?s2 m = 0xFF" using c E(1) by (simp add: effective_def)
    show "prio_of ?s2 v = thread_get_mutex_priority v ?s2" for v
    proof -
      have "thread_get_mutex_priority v ?s2 = thread_get_mutex_priority v ?e"
      proof (rule eq_by_le)
        fix q :: u8
        have i: "0xFF \<le> q \<Longrightarrow> init_priority ?e v \<le> q" using le_ff [of "init_priority ?e v"] by (rule order.trans)
        have "set (taken_object_list ?s2 v) = set (taken_object_list ?e v) \<union> (if v = t then {m} else {})" by auto
        moreover have "(\<exists>k \<in> set (taken_object_list ?e v). effective ?s2 k \<le> q) \<longleftrightarrow> (\<exists>k \<in> set (taken_object_list ?e v). effective ?e k \<le> q)"
          by (rule bex_cong [OF HOL.refl]) (use eff nm [of v] in metis)
        moreover have "init_priority ?s2 v = init_priority ?e v" by simp
        ultimately show "thread_get_mutex_priority v ?s2 \<le> q \<longleftrightarrow> thread_get_mutex_priority v ?e \<le> q"
          unfolding get_priority_le bex_Un using em i by (simp only:) auto
      qed
      then show ?thesis using X(1) [of v] pp by simp
    qed
    show "ceiling_priority (mutexes ?s2 k) = 0xFF" for k using X(2) by simp
    show "mutex_priority (mutexes ?s2 k) = head_priority k ?s2" for k
    proof (cases "k = m")
      case True
      then show ?thesis using w E(1) by (simp add: head_priority_def)
    next
      case False
      have "head_priority k ?s2 = head_priority k ?e" by (rule head_cong) (use False pp in auto)
      then show ?thesis using X(3) [of k] False by simp
    qed
  qed
  ultimately show ?thesis using d by (simp add: mutex_inv_def prio_inv_def)
qed

lemma hold_inv:
  assumes "mutex_inv b n s" "h \<noteq> 0"
  shows "mutex_inv b n (upd_mutex m (\<lambda>mu. mu\<lparr>hold := h\<rparr>) s)"
proof -
  let ?s = "upd_mutex m (\<lambda>mu. mu\<lparr>hold := h\<rparr>) s"
  have "mutex_ok n ?s"
    by (rule mutex_okI) (use mutex_okD [OF mutex_invD(1) [OF assms(1)]] assms(2) in \<open>auto split: if_splits\<close>)
  moreover have "no_inversion None ?s = no_inversion None s" "exact None ?s = exact None s"
    by (rule no_inversion_cong exact_cong; simp)+
  ultimately show ?thesis using assms(1) by (simp add: mutex_inv_def prio_inv_def)
qed

lemma take_own_inv:
  assumes "mutex_inv b n s" "runs t s" "mutex_owner (mutexes s m) = Some t"
  shows "\<exists>r s'. rt_mutex_take t m timeout s = Some (r, s') \<and> mutex_inv b n s'"
proof -
  have inv: "mutex_inv b n (set_error t RT_EOK s)" by (rule set_error_inv [OF assms(1,2)])
  have e: "mutexes (set_error t RT_EOK s) = mutexes s" by (simp add: set_error_def)
  show ?thesis
  proof (cases "hold (mutexes s m) < 0xFF")
    case True
    have "hold (mutexes s m) + 1 \<noteq> 0" 
  proof
    assume "hold (mutexes s m) + 1 = 0"
    then have "hold (mutexes s m) = - 1" by (simp add: eq_neg_iff_add_eq_0)
    then show False using True by simp
  qed
    from hold_inv [OF inv this, of m] show ?thesis using True assms(3) e
      by (simp add: rt_mutex_take_def Let_def upd_mutex_def)
  next
    case False
    then show ?thesis using assms(3) e inv by (simp add: rt_mutex_take_def Let_def)
  qed
qed

lemma prio_insert_cong:
  "(\<And>u. current_priority (th' u) = current_priority (th u)) \<Longrightarrow> prio_insert th' t q = prio_insert th t q"
  by (induction q) auto

text \<open>A thread joins those who wait, and the mutex takes its priority where that is more urgent.\<close>

definition join :: "nat \<Rightarrow> nat \<Rightarrow> mutex_sys \<Rightarrow> mutex_sys" where
  "join t m s = upd_mutex m (\<lambda>mu. mu\<lparr>waiting := prio_insert (ths s) t (waiting mu), mutex_priority := min (prio_of s t) (mutex_priority mu)\<rparr>)
     (s\<lparr>ths := (ths s)(t := (ths s t)\<lparr>suspended := True\<rparr>), pending_object := (pending_object s)(t := Some m)\<rparr>)"

lemma join_ok:
  assumes "mutex_ok n s" "runs t s" "\<forall>k \<in> set (taken_object_list s t). k \<noteq> m" "mutex_owner (mutexes s m) = Some ow"
  shows "mutex_ok n (join t m s)"
proof -
  note O = mutex_okD [OF assms(1)]
  have r: "\<not> suspended (ths s t)" "pending_object s t = None" using assms(2) by (simp_all add: runs_def)
  have out: "t \<notin> set (waiting (mutexes s k))" for k using O(5) [of t k] r by simp
  let ?s = "join t m s"
  have own: "mutex_owner (mutexes ?s k) = mutex_owner (mutexes s k)" "hold (mutexes ?s k) = hold (mutexes s k)"
    "taken_object_list ?s u = taken_object_list s u" for k u by (simp_all add: join_def)
  show ?thesis
  proof (rule mutex_okI)
    show "u \<in> set (waiting (mutexes ?s k)) \<longleftrightarrow> suspended (ths ?s u) \<and> pending_object ?s u = Some k" for k u
      using O(5) [of u k] out [of k] by (auto simp: join_def)
    show "distinct (waiting (mutexes ?s k))" for k using O(6) out by (simp add: join_def)
    show "waiting (mutexes ?s k) \<noteq> [] \<Longrightarrow> mutex_owner (mutexes ?s k) \<noteq> None" for k
      using O(7) [of k] assms(4) by (cases "k = m") (simp_all add: join_def)
    show "pending_object ?s u = Some j \<Longrightarrow> k \<in> set (taken_object_list ?s u) \<Longrightarrow> k \<noteq> j" for u j k
      using O(8) [of u j k] assms(3) by (cases "u = t") (auto simp: join_def)
    show "pending_object ?s u = Some j \<Longrightarrow> \<not> suspended (ths ?s u) \<Longrightarrow> th_error (ths ?s u) = RT_ETIMEOUT" for u j
      using O(9) [of u j] by (cases "u = t") (auto simp: join_def)
  qed (use O(1-4) in \<open>simp_all only: own, blast+\<close>)
qed

lemma join_inv:
  assumes "mutex_inv b n s" "runs t s" "\<forall>k \<in> set (taken_object_list s t). k \<noteq> m" "mutex_owner (mutexes s m) = Some ow" "ow \<noteq> t"
  shows "\<exists>s'. (if prio_of s t < mutex_priority (mutexes s m) \<and> prio_of s t < prio_of s ow
      then thread_update_priority ow (prio_of s t) (join t m s) else Some (join t m s)) = Some s' \<and> mutex_inv b n s'"
proof -
  note I = mutex_invD [OF assms(1)]
  note O = mutex_okD [OF I(1)]
  let ?s = "join t m s" and ?p = "prio_of s t"
  have W: "mutex_ok n ?s" by (rule join_ok [OF I(1) assms(2-4)])
  have pr: "prio_of ?s u = prio_of s u" for u by (simp add: join_def)
  have mx: "mutexes ?s k = (if k = m then (mutexes s m)\<lparr>waiting := prio_insert (ths s) t (waiting (mutexes s m)),
      mutex_priority := min ?p (mutex_priority (mutexes s m))\<rparr> else mutexes s k)" for k by (simp add: join_def)
  have srt: "sorted (map (prio_of ?s) (waiting (mutexes ?s k)))" for k
    unfolding pr using I(4) [of k] sorted_prio_insert [OF I(4) [of m], of t] by (simp add: mx)
  have wle: "u \<in> set (waiting (mutexes ?s k)) \<Longrightarrow> mutex_priority (mutexes ?s k) \<le> prio_of ?s u" for k u
    unfolding pr using I(6) [of u k] by (auto simp: mx min_le_iff_disj split: if_splits)
  have ole: "mutex_owner (mutexes ?s k) = Some v \<Longrightarrow> v \<noteq> ow \<Longrightarrow> prio_of ?s v \<le> mutex_priority (mutexes ?s k)" for k v
    unfolding pr using I(5) [of k v] assms(4) by (cases "k = m") (simp_all add: mx)
  have mo: "m \<in> set (taken_object_list ?s ow)" using O(1) [of m ow] assms(4) by (simp add: join_def)
  have gle: "thread_get_mutex_priority v ?s \<le> q \<longleftrightarrow> thread_get_mutex_priority v s \<le> q \<or> v = ow \<and> ?p \<le> q" if b for v q
  proof -
    note X = exact_noneD [OF I(3) [OF that]]
    have "effective ?s k \<le> q \<longleftrightarrow> effective s k \<le> q \<or> k = m \<and> ?p \<le> q" for k
      using X(2) [of k] by (auto simp: effective_def mx min_le_iff_disj intro: order.trans [OF le_ff])
    moreover have "init_priority ?s v = init_priority s v" "taken_object_list ?s v = taken_object_list s v" by (simp_all add: join_def)
    ultimately show ?thesis unfolding get_priority_le using O(1) [of m v] assms(4) by auto
  qed
  have hd: "mutex_priority (mutexes ?s k) = head_priority k ?s" if b for k
  proof (rule eq_by_le)
    fix q :: u8
    have "mutex_priority (mutexes s k) \<le> q \<longleftrightarrow> 0xFF \<le> q \<or> (\<exists>u \<in> set (waiting (mutexes s k)). prio_of s u \<le> q)"
      using exact_noneD(3) [OF I(3) [OF that], of k] head_le_iff [OF I(4) [of k], of q] by simp
    then show "mutex_priority (mutexes ?s k) \<le> q \<longleftrightarrow> head_priority k ?s \<le> q"
      unfolding head_le_iff [OF srt] pr by (auto simp: mx min_le_iff_disj)
  qed
  have cl: "ceiling_priority (mutexes ?s k) = 0xFF" if b for k using exact_noneD(2) [OF I(3) [OF that]] by (simp add: mx)
  show ?thesis
  proof (cases "?p < mutex_priority (mutexes s m) \<and> ?p < prio_of s ow")
    case True
    have "no_inversion (Some ow) (set_priority ow ?p ?s)"
    proof (rule no_inversion_owner [OF srt wle ole])
      show "?p \<le> mutex_priority (mutexes ?s k)" if "mutex_owner (mutexes ?s k) = Some ow" for k
        using I(5) [of k ow] that True by (cases "k = m") (auto simp: mx)
    qed
    moreover have "exact (Some ow) (set_priority ow ?p ?s)" if b
    proof (rule exact_owner [OF _ _ cl [OF that] hd [OF that]])
      note X = exact_noneD [OF I(3) [OF that]]
      show "?p = thread_get_mutex_priority ow ?s"
        by (rule eq_by_le) (use gle [OF that, of ow] X(1) [of ow] True in auto)
      show "prio_of ?s v = thread_get_mutex_priority v ?s" if "v \<noteq> ow" for v
        by (rule eq_by_le) (use gle [OF \<open>b\<close>, of v] X(1) [of v] pr that in auto)
    qed
    ultimately show ?thesis using update_priority_ok [OF W, of b ow ?p] True mutex_ok_shape [OF W]
      by (auto simp: prio_inv_def mutex_inv_def)
  next
    case False
    have "no_inversion None ?s"
    proof (rule no_inversionI)
      show "mutex_owner (mutexes ?s k) = Some v \<Longrightarrow> prio_of ?s v \<le> mutex_priority (mutexes ?s k)" for k v
        using ole [of k v] I(5) [of k ow] I(5) [of m ow] False assms(4) by (cases "v = ow"; cases "k = m") (auto simp: mx pr not_less)
    qed (use srt wle in simp_all)
    moreover have "exact None ?s" if b
    proof (rule exactI)
      note X = exact_noneD [OF I(3) [OF that]]
      have "prio_of s ow \<le> ?p" using False I(5) [OF assms(4)] by auto
      then show "prio_of ?s v = thread_get_mutex_priority v ?s" for v
        by (intro eq_by_le) (use gle [OF that, of v] X(1) [of v] pr in \<open>auto intro: order.trans\<close>)
    qed (use cl hd that in simp_all)
    ultimately show ?thesis using W False by (auto simp: prio_inv_def mutex_inv_def)
  qed
qed

lemma start_timer_simps [simp]:
  "current_priority (start_thread_timer t timeout th u) = current_priority (th u)"
  "suspended (start_thread_timer t timeout th u) = suspended (th u)" "th_error (start_thread_timer t timeout th u) = th_error (th u)"
  by (simp_all add: start_thread_timer_def)

lemma take_wait_inv:
  assumes "mutex_inv b n s" "runs t s" "\<forall>k \<in> set (taken_object_list s t). k \<noteq> m" "mutex_owner (mutexes s m) = Some ow" "ow \<noteq> t"
  shows "\<exists>r s'. rt_mutex_take t m timeout s = Some (r, s') \<and> mutex_inv b n s'"
proof (cases "timeout = 0")
  case True
  have "set_error t RT_ETIMEOUT (set_error t RT_EOK s) = set_error t RT_ETIMEOUT s" "mutexes (set_error t RT_EOK s) = mutexes s"
    by (simp_all add: set_error_def)
  then show ?thesis using True assms(4,5) set_error_inv [OF assms(1,2)] by (simp add: rt_mutex_take_def Let_def)
next
  case False
  let ?e = "set_error t RT_EOK s"
  have inv: "mutex_inv b n ?e" by (rule set_error_inv [OF assms(1,2)])
  have E: "mutexes ?e = mutexes s" "prio_of ?e u = prio_of s u" "taken_object_list ?e = taken_object_list s" "runs t ?e" for u
    using assms(2) by (simp_all add: set_error_def runs_def)
  let ?th = "(ths ?e)(t := (ths ?e t)\<lparr>suspended := True\<rparr>)"
  have sp: "ipc_list_suspend RT_IPC_FLAG_PRIO t (ths ?e) q = (?th, prio_insert (ths ?e) t q)" for q
    using E(4) prio_insert_cong [of ?th "ths ?e" t q] by (simp add: ipc_list_suspend_def Let_def runs_def)
  let ?a = "upd_mutex m (\<lambda>mu. mu\<lparr>waiting := prio_insert (ths ?e) t (waiting (mutexes s m))\<rparr>)
      (?e\<lparr>ths := ?th, pending_object := (pending_object ?e)(t := Some m)\<rparr>)"
  let ?b = "upd_mutex m (\<lambda>mu. mu\<lparr>mutex_priority := prio_of s t\<rparr>) ?a"
  have ab: "join t m ?e = (if prio_of s t < mutex_priority (mutexes s m) then ?b else ?a)"
    by (simp add: join_def upd_mutex_def E min_def not_le)
  obtain s' where s': "(if prio_of ?e t < mutex_priority (mutexes ?e m) \<and> prio_of ?e t < prio_of ?e ow
      then thread_update_priority ow (prio_of ?e t) (join t m ?e) else Some (join t m ?e)) = Some s'" "mutex_inv b n s'"
    using join_inv [OF inv E(4), of m ow] assms(3-5) unfolding E by blast
  have po: "prio_of ?b ow = prio_of s ow" using assms(5) by (simp add: E(2))
  have j: "(if prio_of s t < mutex_priority (mutexes s m)
      then (let s = ?b in if prio_of ?e t < prio_of s ow then thread_update_priority ow (prio_of ?e t) s else Some s) else Some ?a) = Some s'"
    using s'(1) unfolding E ab Let_def po by (auto split: if_splits)
  let ?f = "s'\<lparr>ths := start_thread_timer t timeout (ths s')\<rparr>"
  have d: "rt_mutex_take t m timeout s = Some (Suspended, ?f)"
    using False assms(4,5) j unfolding rt_mutex_take_def Let_def E sp by simp
  have "mutex_ok n ?f"
    by (rule mutex_okI) (simp_all add: mutex_okD [OF mutex_invD(1) [OF s'(2)]])
  then have "mutex_inv b n ?f" by (rule inv_same [OF s'(2)]) simp_all
  then show ?thesis using d by blast
qed

lemma take_inv:
  assumes "mutex_inv b n s" "mutex_event_ok n (Take t m timeout) s"
  shows "\<exists>s'. mutex_do (Take t m timeout) s = Some s' \<and> mutex_inv b n s'"
proof -
  have "\<exists>r s'. rt_mutex_take t m timeout s = Some (r, s') \<and> mutex_inv b n s'"
  proof (cases "mutex_owner (mutexes s m)")
    case None
    then show ?thesis using take_free_inv assms by simp
  next
    case (Some ow)
    have "k \<noteq> m" if "k \<in> set (taken_object_list s t)" "ow \<noteq> t" for k
      using mutex_okD(1) [OF mutex_invD(1) [OF assms(1)], of k t] that Some by auto
    then show ?thesis using Some take_own_inv [OF assms(1), of t m] take_wait_inv [OF assms(1), of t m ow] assms(2) by (cases "ow = t") auto
  qed
  then show ?thesis by auto
qed

text \<open>The thread gives a mutex back: the priority that it keeps is the one that the others give it.\<close>

lemma release_priority:
  assumes "mutex_inv b n s" "mutex_owner (mutexes s m) = Some t"
    and s2: "s2 = (upd_mutex m (\<lambda>mu. mu\<lparr>hold := h\<rparr>) s)\<lparr>taken_object_list := (taken_object_list s)(t := removeAll m (taken_object_list s t))\<rparr>"
    and p: "p = (if ceiling_priority (mutexes s m) \<noteq> 0xFF \<or> prio_of s t = mutex_priority (mutexes s m)
      then thread_get_mutex_priority t s2 else prio_of s t)"
  shows "k \<noteq> m \<Longrightarrow> mutex_owner (mutexes s k) = Some t \<Longrightarrow> p \<le> mutex_priority (mutexes s k)"
    "b \<Longrightarrow> p = thread_get_mutex_priority t s2"
proof -
  note I = mutex_invD [OF assms(1)]
  note O = mutex_okD [OF I(1)]
  have eff: "effective s2 k = effective s k" for k by (simp add: s2 effective_def)
  have tk: "taken_object_list s2 t = removeAll m (taken_object_list s t)" by (simp add: s2)
  have mp: "mutex_priority (mutexes s2 k) = mutex_priority (mutexes s k)" for k by (simp add: s2)
  show "p \<le> mutex_priority (mutexes s k)" if k: "k \<noteq> m" "mutex_owner (mutexes s k) = Some t"
  proof -
    have "k \<in> set (taken_object_list s2 t)" using O(1) [of k t] k tk by auto
    then show ?thesis using get_priority_owner [of k s2 t] I(5) [OF k(2)] mp by (simp add: p)
  qed
  show "p = thread_get_mutex_priority t s2" if b
  proof (cases "ceiling_priority (mutexes s m) \<noteq> 0xFF \<or> prio_of s t = mutex_priority (mutexes s m)")
    case False
    note X = exact_noneD [OF I(3) [OF that]]
    have lt: "prio_of s t < effective s m" using False I(5) [OF assms(2)] X(2) [of m] le_ff [of "mutex_priority (mutexes s m)"]
      by (auto simp: effective_def min_def)
    have le: "thread_get_mutex_priority t s \<le> q \<longleftrightarrow> thread_get_mutex_priority t s2 \<le> q \<or> effective s m \<le> q" for q
    proof -
      have "m \<in> set (taken_object_list s t)" using O(1) assms(2) by blast
      moreover have "init_priority s2 t = init_priority s t" by (simp add: s2)
      ultimately show ?thesis unfolding get_priority_le tk eff by auto
    qed
    have "thread_get_mutex_priority t s2 \<le> prio_of s t" using le [of "prio_of s t"] X(1) [of t] lt by auto
    moreover have "prio_of s t \<le> thread_get_mutex_priority t s2" using le [of "thread_get_mutex_priority t s2"] X(1) [of t] by simp
    ultimately show ?thesis using False by (simp add: p)
  qed (simp add: p)
qed

lemma release_none_inv:
  assumes "mutex_inv b n s" "runs t s" "mutex_owner (mutexes s m) = Some t" "hold (mutexes s m) - 1 = 0" "waiting (mutexes s m) = []"
  shows "mutex_inv b n (snd (rt_mutex_release t m s))"
proof -
  note I = mutex_invD [OF assms(1)]
  note O = mutex_okD [OF I(1)]
  obtain s2 where s2: "s2 = (upd_mutex m (\<lambda>mu. mu\<lparr>hold := 0\<rparr>) s)\<lparr>taken_object_list := (taken_object_list s)(t := removeAll m (taken_object_list s t))\<rparr>" by blast
  obtain p where p: "p = (if ceiling_priority (mutexes s m) \<noteq> 0xFF \<or> prio_of s t = mutex_priority (mutexes s m)
      then thread_get_mutex_priority t s2 else prio_of s t)" by blast
  note P = release_priority [OF assms(1,3) s2 p]
  obtain g where g: "g = upd_mutex m (\<lambda>mu. mu\<lparr>mutex_owner := None, mutex_priority := 0xFF\<rparr>) (set_priority t p s2)" by blast
  have "set_priority t (prio_of s t) s2 = s2" by (simp add: set_priority_def s2 upd_mutex_def)
  moreover have "upd_mutex m (\<lambda>mu. mu\<lparr>hold := hold mu - 1\<rparr>) s = upd_mutex m (\<lambda>mu. mu\<lparr>hold := 0\<rparr>) s"
    using assms(4) by (simp add: upd_mutex_def)
  ultimately have d: "snd (rt_mutex_release t m s) = g"
    using assms(3-5) unfolding rt_mutex_release_def Let_def by (auto simp: p g simp flip: s2) (auto simp: s2)
  have out: "t \<notin> set (waiting (mutexes s k))" for k using O(5) [of t k] assms(2) by (auto simp: runs_def)
  have mx: "mutexes g k = (if k = m then (mutexes s m)\<lparr>hold := 0, mutex_owner := None, mutex_priority := 0xFF\<rparr> else mutexes s k)" for k
    by (simp add: g s2)
  have fl: "taken_object_list g u = (if u = t then removeAll m (taken_object_list s t) else taken_object_list s u)"
    "pending_object g = pending_object s" "init_priority g = init_priority s" "suspended (ths g u) = suspended (ths s u)"
    "th_error (ths g u) = th_error (ths s u)" "prio_of g u = (if u = t then p else prio_of s u)" for u by (simp_all add: g s2)
  have wt: "waiting (mutexes g k) = waiting (mutexes s k)" for k by (simp add: mx)
  have "mutex_ok n g"
  proof (rule mutex_okI)
    show "mutex_owner (mutexes g k) = Some u \<longleftrightarrow> k \<in> set (taken_object_list g u)" for k u
      using O(1) [of k u] assms(3) by (auto simp: mx fl)
    show "mutex_owner (mutexes g k) = Some u \<Longrightarrow> k < n \<and> hold (mutexes g k) \<noteq> 0" for k u
      using O(3,4) [of k u] by (auto simp: mx split: if_splits)
    show "waiting (mutexes g k) \<noteq> [] \<Longrightarrow> mutex_owner (mutexes g k) \<noteq> None" for k
      using O(7) [of k] assms(5) by (auto simp: mx split: if_splits)
    show "pending_object g u = Some j \<Longrightarrow> k \<in> set (taken_object_list g u) \<Longrightarrow> k \<noteq> j" for u j k
      using O(8) [of u j k] by (auto simp: fl split: if_splits)
    show "distinct (taken_object_list g u)" for u using O(2) by (simp add: fl distinct_removeAll)
  qed (use O(5,6,9) in \<open>simp_all only: fl wt, simp_all\<close>)
  moreover have "no_inversion None g"
  proof (rule no_inversionI)
    fix k
    have e: "map (prio_of g) (waiting (mutexes s k)) = map (prio_of s) (waiting (mutexes s k))" by (rule map_cong) (use out fl(6) in auto)
    have f: "filter (\<lambda>u. None \<noteq> Some u) q = q" for q :: "nat list" by simp
    show "sorted (map (prio_of g) (filter (\<lambda>u. None \<noteq> Some u) (waiting (mutexes g k))))" unfolding wt f e by (rule I(4))
  next
    show "mutex_owner (mutexes g k) = Some v \<Longrightarrow> prio_of g v \<le> mutex_priority (mutexes g k)" for k v
      using P(1) [of k] I(5) [of k v] by (auto simp: fl mx split: if_splits)
    show "u \<in> set (waiting (mutexes g k)) \<Longrightarrow> mutex_priority (mutexes g k) \<le> prio_of g u" for k u
      using I(6) [of u k] out assms(5) unfolding wt fl by (auto simp: mx split: if_splits)
  qed
  moreover have "exact None g" if b
  proof (rule exactI)
    note X = exact_noneD [OF I(3) [OF that]]
    show "ceiling_priority (mutexes g k) = 0xFF" for k using X(2) by (simp add: mx)
    have nm: "m \<notin> set (taken_object_list g u)" for u using O(1) [of m u] assms(3) by (auto simp: fl)
    show "prio_of g v = thread_get_mutex_priority v g" for v
    proof (cases "v = t")
      case True
      have "thread_get_mutex_priority t g = thread_get_mutex_priority t s2"
        by (rule get_priority_cong) (use nm [of t] in \<open>auto simp: effective_def mx fl s2 split: if_splits\<close>)
      then show ?thesis using P(2) [OF that] True fl(6) by simp
    next
      case False
      have "thread_get_mutex_priority v g = thread_get_mutex_priority v s"
        by (rule get_priority_cong) (use nm [of v] False in \<open>auto simp: effective_def mx fl\<close>)
      then show ?thesis using X(1) [of v] False fl(6) by simp
    qed
    show "mutex_priority (mutexes g k) = head_priority k g" for k
    proof (cases "k = m")
      case True
      then show ?thesis using assms(5) by (simp add: head_priority_def mx)
    next
      case False
      have "head_priority k g = head_priority k s" by (rule head_cong) (use out wt fl(6) in auto)
      then show ?thesis using X(3) [of k] False by (simp add: mx)
    qed
  qed
  ultimately show ?thesis using d by (simp add: mutex_inv_def prio_inv_def)
qed

text \<open>The mutex goes to the first of those who wait.\<close>

lemma release_next_inv:
  assumes "mutex_inv b n s" "runs t s" "mutex_owner (mutexes s m) = Some t" "hold (mutexes s m) - 1 = 0" "waiting (mutexes s m) = w # q"
  shows "mutex_inv b n (snd (rt_mutex_release t m s))"
proof -
  note I = mutex_invD [OF assms(1)]
  note O = mutex_okD [OF I(1)]
  obtain s2 where s2: "s2 = (upd_mutex m (\<lambda>mu. mu\<lparr>hold := 0\<rparr>) s)\<lparr>taken_object_list := (taken_object_list s)(t := removeAll m (taken_object_list s t))\<rparr>" by blast
  obtain p where p: "p = (if ceiling_priority (mutexes s m) \<noteq> 0xFF \<or> prio_of s t = mutex_priority (mutexes s m)
      then thread_get_mutex_priority t s2 else prio_of s t)" by blast
  note P = release_priority [OF assms(1,3) s2 p]
  have ww: "suspended (ths s w)" "pending_object s w = Some m" using O(5) [of w m] assms(5) by auto
  have wt': "w \<noteq> t" using ww assms(2) by (auto simp: runs_def)
  have out: "t \<notin> set (waiting (mutexes s k))" for k using O(5) [of t k] assms(2) by (auto simp: runs_def)
  have wout: "w \<notin> set (waiting (mutexes s k))" if "k \<noteq> m" for k using O(5) [of w k] ww that by auto
  have dq: "w \<notin> set q" "distinct q" using O(6) [of m] assms(5) by auto
  obtain s3 where s3: "s3 = upd_mutex m (\<lambda>mu. mu\<lparr>waiting := q, mutex_owner := Some w, hold := 1\<rparr>) (set_priority t p s2)" by blast
  obtain s4 where s4: "s4 = s3\<lparr>taken_object_list := (taken_object_list s3)(w := m # taken_object_list s3 w),
      pending_object := (pending_object s3)(w := None), ths := fst (rt_thread_resume w (ths s3) q)\<rparr>" by blast
  obtain g where g: "g = mutex_update_priority m s4" by blast
  have "set_priority t (prio_of s t) s2 = s2" by (simp add: set_priority_def s2 upd_mutex_def)
  moreover have "upd_mutex m (\<lambda>mu. mu\<lparr>hold := hold mu - 1\<rparr>) s = upd_mutex m (\<lambda>mu. mu\<lparr>hold := 0\<rparr>) s"
    using assms(4) by (simp add: upd_mutex_def)
  moreover have "waiting (mutexes (set_priority t p s2) m) = w # q" using assms(5) by (simp add: s2)
  ultimately have d: "snd (rt_mutex_release t m s) = g"
    using assms(3-5) unfolding rt_mutex_release_def Let_def by (auto simp: p g s4 s3 simp flip: s2) (auto simp: s2)
  have r: "ths s4 = (ths s3)(w := (ths s3 w)\<lparr>suspended := False, thread_timer := None\<rparr>)"
    using ww wt' by (simp add: s4 s3 s2 rt_thread_resume_def)
  have fl: "taken_object_list g u = (if u = t then removeAll m (taken_object_list s t) else if u = w then m # taken_object_list s w else taken_object_list s u)"
    "pending_object g u = (if u = w then None else pending_object s u)" "init_priority g = init_priority s"
    "suspended (ths g u) = (if u = w then False else suspended (ths s u))"
    "th_error (ths g u) = th_error (ths s u)" "prio_of g u = (if u = t then p else prio_of s u)" for u
    using wt' unfolding g update_priority_simps r by (simp_all add: s4 s3 s2)
  have hp: "head_priority m s4 = (case q of [] \<Rightarrow> 0xFF | u # _ \<Rightarrow> prio_of s u)"
    using wt' out [of m] assms(5) unfolding head_priority_def r by (auto simp: s4 s3 s2 split: list.split)
  obtain hq where hq: "hq = (case q of [] \<Rightarrow> 0xFF | u # _ \<Rightarrow> prio_of s u)" by blast
  have mx: "mutexes g k = (if k = m then (mutexes s m)\<lparr>waiting := q, mutex_owner := Some w, hold := 1, mutex_priority := hq\<rparr> else mutexes s k)" for k
    unfolding g update_priority_simps hp by (simp add: s4 s3 s2 hq)
  have sq: "sorted (map (prio_of s) (w # q))" using I(4) [of m] assms(5) by simp
  have whq: "prio_of s w \<le> hq" using sq le_ff by (simp add: hq split: list.splits)
  have hqu: "u \<in> set q \<Longrightarrow> hq \<le> prio_of s u" for u using sq by (auto simp: hq split: list.splits)
  have mt: "m \<notin> set (taken_object_list s w)" using O(1) [of m w] assms(3) wt' by simp
  have "mutex_ok n g"
  proof (rule mutex_okI)
    show "mutex_owner (mutexes g k) = Some u \<longleftrightarrow> k \<in> set (taken_object_list g u)" for k u
      using O(1) [of k u] assms(3) wt' by (auto simp: mx fl)
    show "mutex_owner (mutexes g k) = Some u \<Longrightarrow> k < n \<and> hold (mutexes g k) \<noteq> 0" for k u
      using O(3,4) [of k u] O(3) [OF assms(3)] by (auto simp: mx split: if_splits)
    show "waiting (mutexes g k) \<noteq> [] \<Longrightarrow> mutex_owner (mutexes g k) \<noteq> None" for k
      using O(7) [of k] by (auto simp: mx split: if_splits)
    show "pending_object g u = Some j \<Longrightarrow> k \<in> set (taken_object_list g u) \<Longrightarrow> k \<noteq> j" for u j k
      using O(8) [of u j k] by (auto simp: fl split: if_splits)
    show "distinct (taken_object_list g u)" for u using O(2) mt by (simp add: fl distinct_removeAll)
    show "u \<in> set (waiting (mutexes g k)) \<longleftrightarrow> suspended (ths g u) \<and> pending_object g u = Some k" for u k
      using O(5) [of u k] dq(1) wout [of k] assms(5) by (auto simp: mx fl split: if_splits)
    show "distinct (waiting (mutexes g k))" for k using O(6) [of k] dq by (simp add: mx)
    show "pending_object g u = Some j \<Longrightarrow> \<not> suspended (ths g u) \<Longrightarrow> th_error (ths g u) = RT_ETIMEOUT" for u j
      using O(9) [of u j] by (auto simp: fl split: if_splits)
  qed
  moreover have "no_inversion None g"
  proof (rule no_inversionI)
    fix k
    have "map (prio_of g) (waiting (mutexes g k)) = map (prio_of s) (waiting (mutexes g k))"
      by (rule map_cong) (use out [of k] assms(5) in \<open>auto simp: fl mx split: if_splits\<close>)
    moreover have "sorted (map (prio_of s) (waiting (mutexes g k)))" using I(4) [of k] sq by (simp add: mx)
    moreover have "filter (\<lambda>u. None \<noteq> Some u) q = q" for q :: "nat list" by simp
    ultimately show "sorted (map (prio_of g) (filter (\<lambda>u. None \<noteq> Some u) (waiting (mutexes g k))))" by (simp only:)
  next
    show "mutex_owner (mutexes g k) = Some v \<Longrightarrow> prio_of g v \<le> mutex_priority (mutexes g k)" for k v
      using P(1) [of k] I(5) [of k v] whq wt' by (auto simp: fl mx split: if_splits)
    show "u \<in> set (waiting (mutexes g k)) \<Longrightarrow> mutex_priority (mutexes g k) \<le> prio_of g u" for k u
      using I(6) [of u k] out [of k] hqu [of u] assms(5) by (auto simp: fl mx split: if_splits)
  qed
  moreover have "exact None g" if b
  proof (rule exactI)
    note X = exact_noneD [OF I(3) [OF that]]
    have cl: "ceiling_priority (mutexes g k) = 0xFF" for k using X(2) by (simp add: mx)
    then show "ceiling_priority (mutexes g k) = 0xFF" for k .
    have nm: "m \<in> set (taken_object_list g u) \<longleftrightarrow> u = w" for u using O(1) [of m u] assms(3) wt' by (auto simp: fl)
    have eff: "effective g k = (if k = m then hq else effective s k)" for k
      using cl [of m] le_ff [of hq] by (auto simp: effective_def mx min_def)
    show "prio_of g v = thread_get_mutex_priority v g" for v
    proof -
      consider "v = t" | "v = w" | "v \<noteq> t" "v \<noteq> w" by blast
      then show ?thesis
      proof cases
        case 1
        have "effective s2 k = effective s k" for k by (simp add: s2 effective_def)
        then have "thread_get_mutex_priority t g = thread_get_mutex_priority t s2"
          by (intro get_priority_cong) (use nm [of t] wt' in \<open>auto simp: eff fl s2\<close>)
        then show ?thesis using P(2) [OF that] 1 fl(6) by simp
      next
        case 2
        have "thread_get_mutex_priority w g \<le> z \<longleftrightarrow> prio_of s w \<le> z" for z
        proof -
          have "set (taken_object_list g w) = insert m (set (taken_object_list s w))" using wt' by (simp add: fl)
          moreover have "(\<exists>k \<in> set (taken_object_list s w). effective g k \<le> z) \<longleftrightarrow> (\<exists>k \<in> set (taken_object_list s w). effective s k \<le> z)"
            by (rule bex_cong [OF HOL.refl]) (use eff mt in auto)
          moreover have "effective g m = hq" using eff by simp
          ultimately have "thread_get_mutex_priority w g \<le> z \<longleftrightarrow> thread_get_mutex_priority w s \<le> z \<or> hq \<le> z"
            unfolding get_priority_le fl(3) by auto
          then show ?thesis using X(1) [of w] whq by auto
        qed
        then show ?thesis using 2 wt' fl(6) [of w] by (metis eq_by_le)
      next
        case 3
        have "thread_get_mutex_priority v g = thread_get_mutex_priority v s"
          by (rule get_priority_cong) (use nm [of v] 3 in \<open>auto simp: eff fl\<close>)
        then show ?thesis using X(1) [of v] 3 fl(6) by simp
      qed
    qed
    show "mutex_priority (mutexes g k) = head_priority k g" for k
    proof (cases "k = m")
      case True
      then show ?thesis using out [of m] assms(5) by (auto simp: head_priority_def mx fl hq split: list.splits)
    next
      case False
      have "head_priority k g = head_priority k s" by (rule head_cong) (use out False in \<open>auto simp: mx fl\<close>)
      then show ?thesis using X(3) [of k] False by (simp add: mx)
    qed
  qed
  ultimately show ?thesis using d by (simp add: mutex_inv_def prio_inv_def)
qed

lemma mutex_release_inv:
  assumes "mutex_inv b n s" "mutex_event_ok n (Release t m) s"
  shows "\<exists>s'. mutex_do (Release t m) s = Some s' \<and> mutex_inv b n s'"
proof -
  have r: "runs t s" using assms(2) by simp
  consider "mutex_owner (mutexes s m) \<noteq> Some t" | "mutex_owner (mutexes s m) = Some t" "hold (mutexes s m) - 1 \<noteq> 0"
    | "mutex_owner (mutexes s m) = Some t" "hold (mutexes s m) - 1 = 0" by blast
  then have "mutex_inv b n (snd (rt_mutex_release t m s))"
  proof cases
    case 1
    then show ?thesis using set_error_inv [OF assms(1) r] by (simp add: rt_mutex_release_def)
  next
    case 2
    then show ?thesis using hold_inv [OF assms(1) 2(2), of m] by (simp add: rt_mutex_release_def Let_def upd_mutex_def)
  next
    case 3
    then show ?thesis using release_none_inv [OF assms(1) r 3] release_next_inv [OF assms(1) r 3] by (cases "waiting (mutexes s m)") auto
  qed
  then show ?thesis by simp
qed

definition inheritance_only :: "mutex_event \<Rightarrow> bool" where
  "inheritance_only e \<longleftrightarrow> (case e of Expire t \<Rightarrow> False | SetCeiling t m p \<Rightarrow> False | _ \<Rightarrow> True)"

lemma mutex_do_inv:
  assumes "mutex_inv b n s" "mutex_event_ok n e s" "b \<Longrightarrow> inheritance_only e"
  shows "\<exists>s'. mutex_do e s = Some s' \<and> mutex_inv b n s'"
proof (cases e)
  case (Take t m timeout)
  then show ?thesis using take_inv assms by blast
next
  case (Release t m)
  then show ?thesis using mutex_release_inv assms by blast
next
  case (Expire t)
  then have "\<not> b" using assms(3) by (auto simp: inheritance_only_def)
  then show ?thesis using Expire expire_inv assms by simp
next
  case (Continue t)
  then show ?thesis using continue_inv assms by blast
next
  case (SetCeiling t m p)
  then have "\<not> b" using assms(3) by (auto simp: inheritance_only_def)
  then show ?thesis using SetCeiling ceiling_inv [of n s t m p] assms by simp
next
  case (Sleep t)
  then show ?thesis using sleep_inv assms by blast
next
  case (Wake t)
  then show ?thesis using wake_inv assms by blast
qed

lemma mutex_start_inv: "mutex_inv True n (mutex_start pr)"
proof -
  have "mutex_ok n (mutex_start pr)" by (simp add: mutex_ok_def mutex_start_def rt_mutex_init_def)
  moreover have "no_inversion None (mutex_start pr)" by (simp add: no_inversion_def mutex_start_def rt_mutex_init_def)
  moreover have "exact None (mutex_start pr)"
    by (simp add: exact_def mutex_start_def rt_mutex_init_def thread_get_mutex_priority_def head_priority_def)
  ultimately show ?thesis by (simp add: mutex_inv_def prio_inv_def)
qed

lemma mutex_inv_weaken: "mutex_inv b n s \<Longrightarrow> mutex_inv False n s"
  by (simp add: mutex_inv_def prio_inv_def)

lemma mutex_reach_inv:
  assumes "mutex_reach P n (mutex_start pr) s" "\<And>e. b \<Longrightarrow> P e \<Longrightarrow> inheritance_only e"
  shows "mutex_inv b n s"
  using assms(1)
proof induction
  case start
  show ?case using mutex_start_inv [of n pr] by (cases b) (auto intro: mutex_inv_weaken)
next
  case (step s e s')
  then show ?case using mutex_do_inv [OF step.IH step.hyps(2)] assms(2) by fastforce
qed

text \<open>A history, each of whose calls is checked before it is made.\<close>

fun mutex_run :: "nat \<Rightarrow> mutex_event list \<Rightarrow> mutex_sys \<Rightarrow> mutex_sys option" where
  "mutex_run n [] s = Some s"
| "mutex_run n (e # es) s = (if mutex_event_ok n e s then mutex_do e s \<bind> mutex_run n es else None)"

lemma mutex_run_reach_from:
  assumes "mutex_run n es s = Some s'" "mutex_reach P n s0 s" "list_all P es"
  shows "mutex_reach P n s0 s'"
  using assms
proof (induction es arbitrary: s)
  case (Cons e es)
  then obtain s1 where "mutex_event_ok n e s" "mutex_do e s = Some s1" "mutex_run n es s1 = Some s'"
    by (auto split: if_splits bind_splits)
  then show ?case using Cons.IH [of s1] mutex_reach.step [OF Cons.prems(2), of e s1] Cons.prems(3) by simp
qed simp

lemma mutex_run_reach: "mutex_run n es s = Some s' \<Longrightarrow> list_all P es \<Longrightarrow> mutex_reach P n s s'"
  by (rule mutex_run_reach_from [OF _ mutex_reach.start])

section \<open>Properties\<close>

text \<open>C36: in every history every call that a thread may make comes back: the loop along the owners ends and meets no
mutex without owner. Threads take mutexes in any order: the loop ends in a circle of threads that wait for each other too.\<close>

theorem mutex_returns:
  assumes "mutex_reach (\<lambda>_. True) n (mutex_start pr) s" "mutex_event_ok n e s"
  shows "\<exists>s'. mutex_do e s = Some s'"
  using mutex_do_inv [OF mutex_reach_inv [OF assms(1)] assms(2), of False] by blast

text \<open>C34: whatever the history of takes in any order, releases, time-outs and ceilings, a mutex that is waited for has one
owner, who does not wait for it, and who runs at a priority no less urgent than that of any thread that waits.\<close>

theorem mutex_no_inversion:
  assumes "mutex_reach (\<lambda>_. True) n (mutex_start pr) s" "u \<in> set (waiting (mutexes s m))"
  shows "\<exists>t. mutex_owner (mutexes s m) = Some t \<and> t \<noteq> u \<and> (\<forall>v. m \<in> set (taken_object_list s v) \<longleftrightarrow> v = t) \<and> prio_of s t \<le> prio_of s u"
proof -
  have inv: "mutex_inv False n s" by (rule mutex_reach_inv [OF assms(1)]) simp
  note I = mutex_invD [OF inv]
  note O = mutex_okD [OF I(1)]
  obtain t where t: "mutex_owner (mutexes s m) = Some t" using O(7) [of m] assms(2) by fastforce
  have "t \<noteq> u" using O(8) [of u m m] O(1) [of m t] O(5) [of u m] t assms(2) by auto
  moreover have "\<forall>v. m \<in> set (taken_object_list s v) \<longleftrightarrow> v = t"
  proof
    fix v
    show "m \<in> set (taken_object_list s v) \<longleftrightarrow> v = t" using O(1) [of m v] t by auto
  qed
  moreover have "prio_of s t \<le> prio_of s u" using I(5) [OF t] I(6) [OF assms(2)] by (rule order.trans)
  ultimately show ?thesis using t by blast
qed

text \<open>C35: while no time-out expires and no ceiling is set, in whatever order the mutexes are taken, every thread runs
at the most urgent of its own priority and those of the threads that wait for a mutex that it holds; without a mutex that
is its own.\<close>

theorem mutex_exact:
  assumes "mutex_reach inheritance_only n (mutex_start pr) s"
  shows "prio_of s t = Min (insert (init_priority s t) (\<Union>m \<in> set (taken_object_list s t). prio_of s ` set (waiting (mutexes s m))))"
proof (rule eq_by_le)
  fix b
  have inv: "mutex_inv True n s" by (rule mutex_reach_inv [OF assms])
  note I = mutex_invD [OF inv]
  note X = exact_noneD [OF I(3) [OF TrueI]]
  have "effective s m \<le> b \<longleftrightarrow> 0xFF \<le> b \<or> (\<exists>u \<in> set (waiting (mutexes s m)). prio_of s u \<le> b)" for m
    using X(2,3) [of m] le_ff [of "head_priority m s"] head_le_iff [OF I(4), of m b] by (simp add: effective_def min_absorb1)
  then have "thread_get_mutex_priority t s \<le> b \<longleftrightarrow>
      init_priority s t \<le> b \<or> (\<exists>m \<in> set (taken_object_list s t). \<exists>u \<in> set (waiting (mutexes s m)). prio_of s u \<le> b)"
    unfolding get_priority_le using order.trans [OF le_ff [of "init_priority s t"], of b] by auto
  then show "prio_of s t \<le> b \<longleftrightarrow> Min (insert (init_priority s t) (\<Union>m \<in> set (taken_object_list s t). prio_of s ` set (waiting (mutexes s m)))) \<le> b"
    unfolding X(1) [of t] by (subst Min_le_iff) auto
qed

lemmas mutex_eval = mutex_start_def rt_mutex_init_def runs_def rt_mutex_take_def set_error_def upd_mutex_def ipc_list_suspend_def
  start_thread_timer_def thread_update_priority_def thread_update_chain.simps set_priority_def thread_get_mutex_priority_def
  mutex_update_priority_def head_priority_def thread_timeout_def mutex_take_rest_def rt_mutex_release_def rt_mutex_setprioceiling_def
  rt_thread_resume_def Let_def

definition stale_history :: "mutex_event list" where
  "stale_history = [Take 2 1 0, Take 1 0 0, Take 1 1 10, Take 0 0 5, Expire 0, Expire 1, Continue 0, Continue 1, Release 2 1]"

text \<open>C37: after two time-outs at one tick a thread keeps the priority that it inherited, though it has no mutex any more and
nobody waits.\<close>

theorem mutex_stale_boost:
  assumes "pr 0 < pr 1" "pr 1 < pr 2"
  shows "\<exists>s. mutex_run 2 stale_history (mutex_start pr) = Some s \<and> prio_of s 2 = pr 0 \<and> taken_object_list s 2 = [] \<and>
    (\<forall>t. pending_object s t = None) \<and> (\<forall>m. waiting (mutexes s m) = [])"
proof -
  obtain a b c where p: "pr 0 = a" "pr (Suc 0) = b" "pr 2 = c" by blast
  have lt: "a < b" "b < c" "a < c" using assms p by auto
  have ff: "x < y \<Longrightarrow> x < 0xFF" for x y :: u8 by (rule order.strict_trans2 [OF _ le_ff])
  have nff: "\<not> 0xFF < x" for x :: u8 using le_ff [of x] by (simp add: not_less)
  have L: "a \<noteq> b" "b \<noteq> a" "b \<noteq> c" "c \<noteq> b" "a \<noteq> c" "c \<noteq> a" "\<not> b < a" "\<not> c < b" "\<not> c < a" "a < 0xFF" "b < 0xFF" "a \<noteq> 0xFF" "b \<noteq> 0xFF"
    using lt ff [OF lt(1)] ff [OF lt(2)] by auto
  show ?thesis
    using lt L nff p
    by (simp add: stale_history_def mutex_eval)
qed

definition three_priorities :: "nat \<Rightarrow> u8" where
  "three_priorities t = (if t = 0 then 5 else if t = 1 then 10 else 20)"

text \<open>Thread 0 waits for thread 1, which waits for thread 2.\<close>

definition chain_history :: "mutex_event list" where
  "chain_history = [Take 2 1 0, Take 1 0 0, Take 1 1 10, Take 0 0 5]"

lemma chain_state:
  "\<exists>s. mutex_run 2 chain_history (mutex_start three_priorities) = Some s \<and> waiting (mutexes s 0) = [0] \<and> waiting (mutexes s 1) = [1] \<and>
    prio_of s 0 = 5 \<and> prio_of s 2 = 5 \<and> mutex_event_ok 2 (Release 2 1) s"
  by (simp add: chain_history_def three_priorities_def mutex_eval)

text \<open>Threads 1 and 2 have a mutex each and wait for that of the other; then thread 0 asks for the mutex of thread 1.\<close>

definition circle_history :: "mutex_event list" where
  "circle_history = [Take 1 1 0, Take 2 0 0, Take 2 1 10, Take 1 0 10]"

lemma circle_state:
  "\<exists>s. mutex_run 2 circle_history (mutex_start three_priorities) = Some s \<and> waiting (mutexes s 0) = [1] \<and> waiting (mutexes s 1) = [2] \<and>
    mutex_event_ok 2 (Take 0 1 5) s"
  by (simp add: circle_history_def three_priorities_def mutex_eval)

lemma mutex_returns_witness:
  "\<exists>s s'. mutex_run 2 circle_history (mutex_start three_priorities) = Some s \<and> waiting (mutexes s 0) = [1] \<and> waiting (mutexes s 1) = [2] \<and>
    mutex_do (Take 0 1 5) s = Some s'"
proof -
  obtain s where s: "mutex_run 2 circle_history (mutex_start three_priorities) = Some s" "waiting (mutexes s 0) = [1]"
    "waiting (mutexes s 1) = [2]" "mutex_event_ok 2 (Take 0 1 5) s" using circle_state by blast
  have "mutex_reach (\<lambda>_. True) 2 (mutex_start three_priorities) s" by (rule mutex_run_reach [OF s(1)]) (simp add: list_all_iff)
  from mutex_returns [OF this s(4)] show ?thesis using s by blast
qed

lemma mutex_no_inversion_witness:
  "\<exists>s t. mutex_run 2 chain_history (mutex_start three_priorities) = Some s \<and> mutex_owner (mutexes s 0) = Some t \<and> prio_of s t \<le> prio_of s 0"
proof -
  obtain s where s: "mutex_run 2 chain_history (mutex_start three_priorities) = Some s" "0 \<in> set (waiting (mutexes s 0))"
    using chain_state by fastforce
  have "mutex_reach (\<lambda>_. True) 2 (mutex_start three_priorities) s" by (rule mutex_run_reach [OF s(1)]) (simp add: list_all_iff)
  from mutex_no_inversion [OF this s(2)] show ?thesis using s(1) by blast
qed

lemma mutex_exact_witness:
  "\<exists>s. mutex_run 2 chain_history (mutex_start three_priorities) = Some s \<and>
    Min (insert (init_priority s 2) (\<Union>m \<in> set (taken_object_list s 2). prio_of s ` set (waiting (mutexes s m)))) = 5"
proof -
  obtain s where s: "mutex_run 2 chain_history (mutex_start three_priorities) = Some s" "prio_of s 2 = 5" using chain_state by blast
  have "mutex_reach inheritance_only 2 (mutex_start three_priorities) s"
    by (rule mutex_run_reach [OF s(1)]) (simp add: chain_history_def inheritance_only_def)
  from mutex_exact [OF this, of 2] show ?thesis using s by metis
qed

lemma mutex_stale_boost_witness:
  "\<exists>s. mutex_run 2 stale_history (mutex_start three_priorities) = Some s \<and> prio_of s 2 = 5 \<and> taken_object_list s 2 = [] \<and>
    (\<forall>t. pending_object s t = None) \<and> (\<forall>m. waiting (mutexes s m) = [])"
  using mutex_stale_boost [of three_priorities] by (simp add: three_priorities_def)

text \<open>A mutex that is handed over does not bring its ceiling with it, as one that is free does.\<close>

lemma ceiling_not_handed_over:
  "\<exists>s. mutex_run 1 [SetCeiling 2 0 3, Take 2 0 0, Take 1 0 10, Release 2 0] (mutex_start three_priorities) = Some s \<and>
    mutex_owner (mutexes s 0) = Some 1 \<and> ceiling_priority (mutexes s 0) = 3 \<and> prio_of s 1 = 10"
  by (simp add: three_priorities_def mutex_eval)

end
