(* ===== verification/CanTx.thy ===== *)
theory CanTx
  imports CanProto Semaphore
begin

text \<open>
  Transmission in the CAN framework (\<open>can.c\<close>, \<open>completion.c\<close>) down to the mailboxes of the controller (\<open>drv_can.c\<close>):
  a semaphore counts the free boxes, the writer puts a message into the registers of the box and waits for the
  completion that the transmit interrupt signals. The controller is the environment: it sends a requested mailbox some time
  later, with automatic repetition.
\<close>

section \<open>Completions\<close>

record completion =
  completed :: bool
  suspended_list :: "nat list"

definition rt_completion_init :: completion where
  "rt_completion_init = \<lparr>completed = False, suspended_list = []\<rparr>"

text \<open>\<open>rt_completion_wait\<close> up to \<open>rt_schedule\<close>, and from there; \<open>None\<close> is the assertion that nobody else waits.\<close>

definition rt_completion_wait :: "nat \<Rightarrow> int \<Rightarrow> threads \<Rightarrow> completion \<Rightarrow> (rt_err outcome \<times> threads \<times> completion) option" where
  "rt_completion_wait t timeout ths c =
    (if \<not> completed c
     then if suspended_list c \<noteq> [] then None
       else if timeout = 0 then Some (Ready RT_ETIMEOUT, ths, c)
       else (let ths = ths(t := (ths t)\<lparr>th_error := RT_EOK, suspended := True\<rparr>)
             in Some (Suspended, start_thread_timer t timeout ths, c\<lparr>suspended_list := suspended_list c @ [t]\<rparr>))
     else Some (Ready RT_EOK, ths, c\<lparr>completed := False\<rparr>))"

definition completion_wait_rest :: "nat \<Rightarrow> threads \<Rightarrow> completion \<Rightarrow> rt_err \<times> completion" where
  "completion_wait_rest t ths c = (th_error (ths t), c\<lparr>completed := False\<rparr>)"

definition rt_completion_done :: "threads \<Rightarrow> completion \<Rightarrow> threads \<times> completion" where
  "rt_completion_done ths c =
    (if completed c then (ths, c)
     else (case suspended_list c of
         [] \<Rightarrow> (ths, c\<lparr>completed := True\<rparr>)
       | t # _ \<Rightarrow> (let (ths, q) = rt_thread_resume t ths (suspended_list c)
                  in (ths, c\<lparr>completed := True, suspended_list := q\<rparr>))))"

section \<open>The registers\<close>

record rt_can_msg =
  msg_id :: u32
  msg_ide :: bool
  msg_rtr :: bool
  msg_len :: u8
  msg_data :: "u8 list"

text \<open>Three mailboxes, each with its identifier, property and data registers.\<close>

record can_regs =
  can_tstat :: u32
  can_inten :: u32
  can_tmi :: "u32 list"
  can_tmp :: "u32 list"
  can_tmdata0 :: "u32 list"
  can_tmdata1 :: "u32 list"

definition CAN_TMI_TEN :: u32 where "CAN_TMI_TEN = 0x1"
definition CAN_TMP_DLENC :: u32 where "CAN_TMP_DLENC = 0xF"

definition CAN_TSTAT_TME :: "nat \<Rightarrow> u32" where "CAN_TSTAT_TME k = push_bit (26 + k) 1"

text \<open>\<open>BITS(21,31) & (x << 21)\<close> and the like.\<close>

definition TMI_SFID :: "u32 \<Rightarrow> u32" where "TMI_SFID x = 0xFFE00000 AND push_bit 21 x"
definition TMI_EFID :: "u32 \<Rightarrow> u32" where "TMI_EFID x = 0xFFFFFFF8 AND push_bit 3 x"

definition TMDATA :: "nat \<Rightarrow> u8 list \<Rightarrow> u32" where
  "TMDATA i d = (0xFF000000 AND push_bit 24 (ucast (d ! (i + 3)))) OR (0x00FF0000 AND push_bit 16 (ucast (d ! (i + 2)))) OR
     (0x0000FF00 AND push_bit 8 (ucast (d ! (i + 1)))) OR (0x000000FF AND ucast (d ! i))"

text \<open>
  The request to send, the last write of \<open>gd32_can_sendmsg\<close>; the controller answers it by taking back the mark of an empty mailbox.
\<close>

definition tmi_request :: "nat \<Rightarrow> can_regs \<Rightarrow> can_regs" where
  "tmi_request k r = r\<lparr>can_tmi := (can_tmi r)[k := can_tmi r ! k OR CAN_TMI_TEN], can_tstat := can_tstat r AND NOT (CAN_TSTAT_TME k)\<rparr>"

text \<open>\<open>gd32_can_sendmsg\<close>, whose tests of the second and third mailbox are the other way round.\<close>

definition gd32_can_sendmsg :: "rt_can_msg \<Rightarrow> nat \<Rightarrow> can_regs \<Rightarrow> (rt_err \<times> can_regs) option" where
  "gd32_can_sendmsg m box_num r =
    (if \<not> msg_len m \<le> 8 \<or> \<not> box_num < 3 then None
     else if (if box_num = 0 then can_tstat r AND CAN_TSTAT_TME 0 \<noteq> CAN_TSTAT_TME 0
              else can_tstat r AND CAN_TSTAT_TME box_num = CAN_TSTAT_TME box_num)
     then Some (RT_ERROR, r)
     else if \<not> msg_id m \<le> (if msg_ide m then 0x1FFFFFFF else 0x7FF) then None
     else (let ft = (if msg_rtr m then 0x2 else 0x0);
               dlen = msg_len m AND 0xF;
               d = take (unat dlen) (msg_data m) @ replicate (8 - unat dlen) 0;
               r = r\<lparr>can_tmi := (can_tmi r)[box_num := can_tmi r ! box_num AND CAN_TMI_TEN]\<rparr>;
               r = r\<lparr>can_tmi := (can_tmi r)[box_num := can_tmi r ! box_num OR
                      (if \<not> msg_ide m then TMI_SFID (msg_id m) OR ft else TMI_EFID (msg_id m) OR 0x4 OR ft)]\<rparr>;
               r = r\<lparr>can_tmp := (can_tmp r)[box_num := can_tmp r ! box_num AND NOT CAN_TMP_DLENC]\<rparr>;
               r = r\<lparr>can_tmp := (can_tmp r)[box_num := can_tmp r ! box_num OR (ucast dlen AND CAN_TMP_DLENC)]\<rparr>;
               r = r\<lparr>can_tmdata0 := (can_tmdata0 r)[box_num := TMDATA 0 d]\<rparr>;
               r = r\<lparr>can_tmdata1 := (can_tmdata1 r)[box_num := TMDATA 4 d]\<rparr>
           in Some (RT_EOK, tmi_request box_num r)))"

text \<open>The flags of the vendor's library: bit \<open>8 k\<close> of the status is \<open>MTF\<close>, the next one \<open>MTFNERR\<close>.\<close>

definition can_flag_get :: "nat \<Rightarrow> can_regs \<Rightarrow> bool" where
  "can_flag_get pos r = bit (can_tstat r) pos"

definition can_interrupt_flag_get :: "nat \<Rightarrow> can_regs \<Rightarrow> bool" where
  "can_interrupt_flag_get pos r = (bit (can_tstat r) pos \<and> bit (can_inten r) 0)"

text \<open>A one that is written to \<open>MTF\<close> clears the four result bits of the mailbox.\<close>

definition can_interrupt_flag_clear :: "nat \<Rightarrow> can_regs \<Rightarrow> can_regs" where
  "can_interrupt_flag_clear pos r = r\<lparr>can_tstat := can_tstat r AND NOT (push_bit pos 0xF)\<rparr>"

section \<open>The controller\<close>

text \<open>What a mailbox says on the bus.\<close>

record can_frame =
  frame_ext :: bool
  frame_id :: u32
  frame_rtr :: bool
  frame_data :: "u8 list"

definition mailbox_frame :: "nat \<Rightarrow> can_regs \<Rightarrow> can_frame" where
  "mailbox_frame k r =
    (let i = can_tmi r ! k; d0 = can_tmdata0 r ! k; d1 = can_tmdata1 r ! k in
     \<lparr>frame_ext = bit i 2, frame_id = (if bit i 2 then drop_bit 3 i else drop_bit 21 i), frame_rtr = bit i 1,
      frame_data = take (unat (can_tmp r ! k AND 0xF))
        [ucast d0, ucast (drop_bit 8 d0), ucast (drop_bit 16 d0), ucast (drop_bit 24 d0),
         ucast d1, ucast (drop_bit 8 d1), ucast (drop_bit 16 d1), ucast (drop_bit 24 d1)]\<rparr>)"

definition msg_frame :: "rt_can_msg \<Rightarrow> can_frame" where
  "msg_frame m = \<lparr>frame_ext = msg_ide m, frame_id = msg_id m, frame_rtr = msg_rtr m, frame_data = take (unat (msg_len m)) (msg_data m)\<rparr>"

text \<open>A requested mailbox has been sent, \<open>ok\<close> without an error.\<close>

definition controller_sends :: "nat \<Rightarrow> bool \<Rightarrow> can_regs \<Rightarrow> can_regs" where
  "controller_sends k ok r = r\<lparr>can_tmi := (can_tmi r)[k := can_tmi r ! k AND NOT CAN_TMI_TEN],
     can_tstat := (can_tstat r AND NOT (push_bit (8 * k) 0xF)) OR CAN_TSTAT_TME k OR push_bit (8 * k) (if ok then 0x3 else 0x1)\<rparr>"

text \<open>The state after the initialisation, with the transmit interrupt enabled.\<close>

definition can_regs_start :: can_regs where
  "can_regs_start = \<lparr>can_tstat = 0x1C000000, can_inten = 0x1, can_tmi = [0, 0, 0], can_tmp = [0, 0, 0], can_tmdata0 = [0, 0, 0], can_tmdata1 = [0, 0, 0]\<rparr>"

section \<open>Writers and the interrupt\<close>

datatype snd_result = RT_CAN_SND_RESULT_OK | RT_CAN_SND_RESULT_ERR | RT_CAN_SND_RESULT_WAIT

record send_box =
  box_result :: snd_result
  box_completion :: completion

text \<open>
  Where a writer is in \<open>_can_int_tx\<close>: before the semaphore, waiting for it, with it, with a box, after the
  request, waiting for the completion, after it, and before the release with the result.
\<close>

datatype tx_phase = Idle | Loop | SemWait | Token | Box nat | Sent nat | CompWait nat | Woken nat | Release bool

record can_tx =
  tx_threads :: threads
  tx_sem :: semaphore
  boxes :: "send_box list"
  tx_freelist :: "nat list"
  sndpkg :: u32
  dropedsndpkg :: u32
  tx_regs :: can_regs
  tx_phase :: "nat \<Rightarrow> tx_phase"
  call_of :: "nat \<Rightarrow> rt_can_msg list"
  todo_of :: "nat \<Rightarrow> rt_can_msg list"
  wrote :: "(nat \<times> rt_can_msg list \<times> nat) list"
  bus :: "can_frame list"

definition RT_CANSND_BOX_NUM :: nat where "RT_CANSND_BOX_NUM = 1"

text \<open>The transmitting part of \<open>rt_can_open\<close>.\<close>

definition can_tx_open :: "nat \<Rightarrow> threads \<Rightarrow> can_tx" where
  "can_tx_open n ths =
    \<lparr>tx_threads = ths, tx_sem = rt_sem_init (of_nat n) RT_IPC_FLAG_FIFO,
     boxes = replicate n \<lparr>box_result = RT_CAN_SND_RESULT_OK, box_completion = rt_completion_init\<rparr>, tx_freelist = [0..<n],
     sndpkg = 0, dropedsndpkg = 0, tx_regs = can_regs_start, tx_phase = (\<lambda>_. Idle), call_of = (\<lambda>_. []), todo_of = (\<lambda>_. []),
     wrote = [], bus = []\<rparr>"

definition to_phase :: "nat \<Rightarrow> tx_phase \<Rightarrow> can_tx \<Rightarrow> can_tx" where
  "to_phase t p s = s\<lparr>tx_phase := (tx_phase s)(t := p)\<rparr>"

definition upd_box :: "nat \<Rightarrow> (send_box \<Rightarrow> send_box) \<Rightarrow> can_tx \<Rightarrow> can_tx" where
  "upd_box k f s = s\<lparr>boxes := (boxes s)[k := f (boxes s ! k)]\<rparr>"

text \<open>\<open>rt_can_write\<close> calls \<open>_can_int_tx\<close> for a size that is not 0; it returns the number of messages that are through.\<close>

definition rt_can_write :: "nat \<Rightarrow> rt_can_msg list \<Rightarrow> can_tx \<Rightarrow> can_tx" where
  "rt_can_write t msgs s =
    (if msgs = [] then s\<lparr>wrote := wrote s @ [(t, [], 0)]\<rparr>
     else to_phase t Loop (s\<lparr>call_of := (call_of s)(t := msgs), todo_of := (todo_of s)(t := msgs)\<rparr>))"

definition can_tx_return :: "nat \<Rightarrow> can_tx \<Rightarrow> can_tx" where
  "can_tx_return t s =
    to_phase t Idle (s\<lparr>wrote := wrote s @ [(t, call_of s t, length (call_of s t) - length (todo_of s t))], call_of := (call_of s)(t := []), todo_of := (todo_of s)(t := [])\<rparr>)"

text \<open>One section of \<open>_can_int_tx\<close>, from a point where interrupts or other threads may come in to the next.\<close>

definition can_int_tx :: "nat \<Rightarrow> can_tx \<Rightarrow> can_tx option" where
  "can_int_tx t s = (case tx_phase s t of
     Idle \<Rightarrow> Some s
   | Loop \<Rightarrow> (if todo_of s t = [] then Some (can_tx_return t s)
       else (case rt_sem_take t (-1) (tx_threads s) (tx_sem s) of
           (Ready _, ths, sm) \<Rightarrow> Some (to_phase t Token (s\<lparr>tx_threads := ths, tx_sem := sm\<rparr>))
         | (Suspended, ths, sm) \<Rightarrow> Some (to_phase t SemWait (s\<lparr>tx_threads := ths, tx_sem := sm\<rparr>))))
   | SemWait \<Rightarrow> Some (to_phase t Token s)
   | Token \<Rightarrow> (case tx_freelist s of [] \<Rightarrow> None | no # q \<Rightarrow> Some (to_phase t (Box no) (s\<lparr>tx_freelist := q\<rparr>)))
   | Box no \<Rightarrow> do {
       b \<leftarrow> rd (boxes s) no;
       let s = upd_box no (\<lambda>b. b\<lparr>box_result := RT_CAN_SND_RESULT_WAIT, box_completion := rt_completion_init\<rparr>) s;
       (e, r) \<leftarrow> gd32_can_sendmsg (hd (todo_of s t)) no (tx_regs s);
       if e \<noteq> RT_EOK then Some (to_phase t (Release False) (s\<lparr>tx_freelist := tx_freelist s @ [no], tx_regs := r\<rparr>))
       else Some (to_phase t (Sent no) (s\<lparr>tx_regs := r\<rparr>))
     }
   | Sent no \<Rightarrow> do {
       b \<leftarrow> rd (boxes s) no;
       (w, ths, c) \<leftarrow> rt_completion_wait t (-1) (tx_threads s) (box_completion b);
       Some (to_phase t (if w = Suspended then CompWait no else Woken no) (upd_box no (\<lambda>b. b\<lparr>box_completion := c\<rparr>) (s\<lparr>tx_threads := ths\<rparr>)))
     }
   | CompWait no \<Rightarrow> do {
       b \<leftarrow> rd (boxes s) no;
       Some (to_phase t (Woken no) (upd_box no (\<lambda>b. b\<lparr>box_completion := snd (completion_wait_rest t (tx_threads s) (box_completion b))\<rparr>) s))
     }
   | Woken no \<Rightarrow> do {
       b \<leftarrow> rd (boxes s) no;
       Some (to_phase t (Release (box_result b = RT_CAN_SND_RESULT_OK)) (s\<lparr>tx_freelist := tx_freelist s @ [no]\<rparr>))
     }
   | Release ok \<Rightarrow> do {
       (e, ths, sm) \<leftarrow> rt_sem_release (tx_threads s) (tx_sem s);
       let s = s\<lparr>tx_threads := ths, tx_sem := sm\<rparr>;
       if ok then Some (to_phase t Loop (s\<lparr>sndpkg := sndpkg s + 1, todo_of := (todo_of s)(t := tl (todo_of s t))\<rparr>))
       else Some (can_tx_return t (s\<lparr>dropedsndpkg := dropedsndpkg s + 1\<rparr>))
     })"

text \<open>\<open>rt_hw_can_isr\<close> for \<open>RT_CAN_EVENT_TX_DONE\<close> and \<open>RT_CAN_EVENT_TX_FAIL\<close>, and \<open>CAN0_TX_IRQHandler\<close>.\<close>

definition can_isr_tx :: "bool \<Rightarrow> nat \<Rightarrow> can_tx \<Rightarrow> can_tx option" where
  "can_isr_tx done_event no s = do {
     b \<leftarrow> rd (boxes s) no;
     let res = (if done_event then RT_CAN_SND_RESULT_OK else RT_CAN_SND_RESULT_ERR);
     let (ths, c) = rt_completion_done (tx_threads s) (box_completion b);
     Some (upd_box no (\<lambda>b. b\<lparr>box_result := res, box_completion := c\<rparr>) (s\<lparr>tx_threads := ths\<rparr>))
   }"

definition tx_irq_mailbox :: "nat \<Rightarrow> can_tx \<Rightarrow> can_tx option" where
  "tx_irq_mailbox k s = do {
     s \<leftarrow> can_isr_tx (can_flag_get (8 * k) (tx_regs s)) k s;
     Some (s\<lparr>tx_regs := can_interrupt_flag_clear (8 * k) (tx_regs s)\<rparr>)
   }"

definition CAN0_TX_IRQHandler :: "can_tx \<Rightarrow> can_tx option" where
  "CAN0_TX_IRQHandler s =
    (if can_interrupt_flag_get 0 (tx_regs s) then tx_irq_mailbox 0 s
     else if can_interrupt_flag_get 8 (tx_regs s) then tx_irq_mailbox 1 s
     else if can_interrupt_flag_get 16 (tx_regs s) then tx_irq_mailbox 2 s
     else Some s)"

section \<open>Histories\<close>

text \<open>A call, a section of a call, the controller sends a mailbox, the interrupt comes.\<close>

datatype tx_event = Write nat "rt_can_msg list" | Run nat | Sends nat | TxIrq

fun tx_do :: "tx_event \<Rightarrow> can_tx \<Rightarrow> can_tx option" where
  "tx_do (Write t msgs) s = Some (rt_can_write t msgs s)"
| "tx_do (Run t) s = can_int_tx t s"
| "tx_do (Sends k) s = Some (s\<lparr>tx_regs := controller_sends k True (tx_regs s), bus := bus s @ [mailbox_frame k (tx_regs s)]\<rparr>)"
| "tx_do TxIrq s = CAN0_TX_IRQHandler s"

definition msg_ok :: "rt_can_msg \<Rightarrow> bool" where
  "msg_ok m \<longleftrightarrow> msg_len m \<le> 8 \<and> length (msg_data m) = 8 \<and> msg_id m \<le> (if msg_ide m then 0x1FFFFFFF else 0x7FF)"

fun tx_enabled :: "tx_event \<Rightarrow> can_tx \<Rightarrow> bool" where
  "tx_enabled (Write t msgs) s \<longleftrightarrow> tx_phase s t = Idle \<and> \<not> suspended (tx_threads s t) \<and> list_all msg_ok msgs"
| "tx_enabled (Run t) s \<longleftrightarrow> tx_phase s t \<noteq> Idle \<and> \<not> suspended (tx_threads s t)"
| "tx_enabled (Sends k) s \<longleftrightarrow> k < 3 \<and> bit (can_tmi (tx_regs s) ! k) 0"
| "tx_enabled TxIrq s \<longleftrightarrow> (\<exists>k < 3. can_interrupt_flag_get (8 * k) (tx_regs s))"

fun tx_run :: "tx_event list \<Rightarrow> can_tx \<Rightarrow> can_tx option" where
  "tx_run [] s = Some s"
| "tx_run (e # es) s = (if tx_enabled e s then tx_do e s \<bind> tx_run es else None)"

definition quiet_threads :: threads where
  "quiet_threads = (\<lambda>t. \<lparr>current_priority = 10, suspended = False, th_error = RT_EOK, thread_timer = None, event_set = 0, event_info = 0\<rparr>)"

section \<open>The mailbox registers\<close>

lemma mask_consts: "(0xFFE00000 :: u32) = NOT (mask 21)" "(0xFFFFFFF8 :: u32) = NOT (mask 3)" "(0xFF000000 :: u32) = NOT (mask 24)"
  "(0x00FF0000 :: u32) = push_bit 16 (mask 8)" "(0x0000FF00 :: u32) = push_bit 8 (mask 8)" "(0x000000FF :: u32) = mask 8" "(0xF :: u32) = mask 4"
  by (simp_all add: mask_eq_exp_minus_1)

lemma can_bit_byte: "bit (w :: u8) n \<Longrightarrow> n < 8"
  using bit_imp_le_length [of w n] by simp

lemma TMDATA_bytes:
  "ucast (TMDATA i d) = d ! i" "ucast (drop_bit 8 (TMDATA i d)) = d ! (i + 1)"
  "ucast (drop_bit 16 (TMDATA i d)) = d ! (i + 2)" "ucast (drop_bit 24 (TMDATA i d)) = d ! (i + 3)"
  by (rule bit_word_eqI; auto simp: TMDATA_def mask_consts bit_simps dest: can_bit_byte)+

lemma bit_bound:
  fixes w :: "'a::len word"
  assumes "unat w < 2 ^ n" "bit w k"
  shows "k < n"
proof -
  have "take_bit n (unat w) = unat w" by (rule take_bit_nat_eq_self [OF assms(1)])
  moreover have "bit (unat w) k" using assms(2) by (simp add: bit_unsigned_iff bit_imp_le_length)
  ultimately show ?thesis by (metis bit_take_bit_iff)
qed

lemma take_bit_bound: "unat (w :: 'a::len word) < 2 ^ n \<Longrightarrow> take_bit n w = w"
  by (rule bit_word_eqI) (auto simp: bit_take_bit_iff dest: bit_bound)

lemma SFID_bits:
  assumes "x \<le> 0x7FF"
  shows "bit (TMI_SFID x) n \<longleftrightarrow> 21 \<le> n \<and> bit x (n - 21)"
proof -
  have "bit x k \<Longrightarrow> k < 11" for k using bit_bound [of x 11 k] assms by (simp add: word_le_nat_alt)
  then show ?thesis by (fastforce simp: TMI_SFID_def mask_consts bit_simps)
qed

lemma EFID_bits:
  assumes "x \<le> 0x1FFFFFFF"
  shows "bit (TMI_EFID x) n \<longleftrightarrow> 3 \<le> n \<and> bit x (n - 3)"
proof -
  have "bit x k \<Longrightarrow> k < 29" for k using bit_bound [of x 29 k] assms by (simp add: word_le_nat_alt)
  then show ?thesis by (fastforce simp: TMI_EFID_def mask_consts bit_simps)
qed

definition regs_ok :: "can_regs \<Rightarrow> bool" where
  "regs_ok r \<longleftrightarrow> length (can_tmi r) = 3 \<and> length (can_tmp r) = 3 \<and> length (can_tmdata0 r) = 3 \<and> length (can_tmdata1 r) = 3 \<and> bit (can_inten r) 0"

text \<open>A mailbox is empty, requested, or sent and not yet seen by the interrupt.\<close>

datatype mailbox_state = Empty | Requested | Finished

definition mailbox_is :: "nat \<Rightarrow> mailbox_state \<Rightarrow> can_regs \<Rightarrow> bool" where
  "mailbox_is k st r \<longleftrightarrow> bit (can_tmi r ! k) 0 = (st = Requested) \<and> bit (can_tstat r) (26 + k) = (st \<noteq> Requested) \<and> bit (can_tstat r) (8 * k) = (st = Finished)"

lemma tme_bit: "bit (CAN_TSTAT_TME k) n \<longleftrightarrow> n < 32 \<and> n = 26 + k"
  unfolding CAN_TSTAT_TME_def bit_push_bit_iff by (auto simp: bit_1_iff)

lemma tme_test: "can_tstat r AND CAN_TSTAT_TME k = CAN_TSTAT_TME k \<longleftrightarrow> bit (can_tstat r) (26 + k)" if "k < 3"
proof
  assume "can_tstat r AND CAN_TSTAT_TME k = CAN_TSTAT_TME k"
  from arg_cong [OF this, of "\<lambda>w. bit w (26 + k)"] show "bit (can_tstat r) (26 + k)" using that by (simp add: CAN_TSTAT_TME_def bit_simps)
next
  assume "bit (can_tstat r) (26 + k)"
  then show "can_tstat r AND CAN_TSTAT_TME k = CAN_TSTAT_TME k" by (intro bit_word_eqI) (auto simp: CAN_TSTAT_TME_def bit_simps)
qed

lemma upt3: "k < 3 \<longleftrightarrow> k = 0 \<or> k = 1 \<or> k = (2::nat)"
  by auto

lemma sendmsg_writes:
  assumes "msg_ok m" "regs_ok r" "k < 3" "bit (can_tstat r) (26 + k) = (k = 0)"
  shows "\<exists>r'. gd32_can_sendmsg m k r = Some (RT_EOK, r') \<and> regs_ok r' \<and> bit (can_tmi r' ! k) 0 \<and> mailbox_frame k r' = msg_frame m \<and>
    (\<forall>n. bit (can_tstat r') n \<longleftrightarrow> bit (can_tstat r) n \<and> n \<noteq> 26 + k) \<and> (\<forall>j. j \<noteq> k \<longrightarrow> can_tmi r' ! j = can_tmi r ! j)"
proof -
  have e: "msg_len m \<le> 8" "length (msg_data m) = 8" "msg_id m \<le> (if msg_ide m then 0x1FFFFFFF else 0x7FF)" using assms(1) by (simp_all add: msg_ok_def)
  have l: "length (can_tmi r) = 3" "length (can_tmp r) = 3" "length (can_tmdata0 r) = 3" "length (can_tmdata1 r) = 3" "bit (can_inten r) 0"
    using assms(2) by (simp_all add: regs_ok_def)
  have t: "(can_tstat r AND CAN_TSTAT_TME k = CAN_TSTAT_TME k) = (k = 0)" using tme_test [OF assms(3), of r] assms(4) by (rule trans)
  have tt: "(if k = 0 then can_tstat r AND CAN_TSTAT_TME 0 \<noteq> CAN_TSTAT_TME 0 else can_tstat r AND CAN_TSTAT_TME k = CAN_TSTAT_TME k) = False"
    using t by auto
  obtain r' where r': "gd32_can_sendmsg m k r = Some (RT_EOK, r')" using e(1,3) assms(3) unfolding gd32_can_sendmsg_def tt by (simp add: Let_def)
  have len: "unat (msg_len m) \<le> 8" using e(1) by (simp add: word_le_nat_alt)
  have dl: "msg_len m AND 0xF = msg_len m"
  proof -
    have "(0xF :: u8) = mask 4" by (simp add: mask_eq_exp_minus_1)
    then have "msg_len m AND 0xF = take_bit 4 (msg_len m)" by (simp add: take_bit_eq_mask and.commute)
    then show ?thesis using len take_bit_bound [of "msg_len m" 4] by simp
  qed
  obtain d where d: "d = take (unat (msg_len m)) (msg_data m) @ replicate (8 - unat (msg_len m)) 0" by blast
  obtain i where i: "i = (can_tmi r ! k AND CAN_TMI_TEN OR (if \<not> msg_ide m then TMI_SFID (msg_id m) OR (if msg_rtr m then 0x2 else 0x0)
      else TMI_EFID (msg_id m) OR 0x4 OR (if msg_rtr m then 0x2 else 0x0))) OR CAN_TMI_TEN" by blast
  have f: "can_tmi r' = (can_tmi r)[k := i]" "can_tstat r' = can_tstat r AND NOT (CAN_TSTAT_TME k)" "can_inten r' = can_inten r"
    "can_tmp r' = (can_tmp r)[k := can_tmp r ! k AND NOT CAN_TMP_DLENC OR (ucast (msg_len m) AND CAN_TMP_DLENC)]"
    "can_tmdata0 r' = (can_tmdata0 r)[k := TMDATA 0 d]" "can_tmdata1 r' = (can_tmdata1 r)[k := TMDATA 4 d]"
    using r' e(1,3) assms(3) l unfolding gd32_can_sendmsg_def dl tt by (auto simp: Let_def tmi_request_def i d)
  have b: "bit i 0" "bit i 1 \<longleftrightarrow> msg_rtr m" "bit i 2 \<longleftrightarrow> msg_ide m"
    using e(3) by (auto simp: i CAN_TMI_TEN_def SFID_bits EFID_bits bit_simps split: if_splits)
  have fid: "(if msg_ide m then drop_bit 3 i else drop_bit 21 i) = msg_id m"
    using e(3) by (auto intro!: bit_word_eqI simp: i CAN_TMI_TEN_def SFID_bits EFID_bits bit_simps dest: bit_imp_le_length split: if_splits)
  have dlc: "unat ((can_tmp r ! k AND NOT CAN_TMP_DLENC OR (ucast (msg_len m) AND CAN_TMP_DLENC)) AND 0xF) = unat (msg_len m)"
  proof -
    have "(can_tmp r ! k AND NOT CAN_TMP_DLENC OR (ucast (msg_len m) AND CAN_TMP_DLENC)) AND 0xF = (ucast (msg_len m) :: u32)"
      using bit_bound [of "msg_len m" 4] len by (intro bit_word_eqI) (auto simp: CAN_TMP_DLENC_def mask_consts bit_simps dest: can_bit_byte)
    then show ?thesis using len by (simp add: unsigned_ucast_eq take_bit_nat_eq_self)
  qed
  have dlen: "length d = 8" using len e(2) by (simp add: d)
  have by8: "[d ! 0, d ! 1, d ! 2, d ! 3, d ! 4, d ! 5, d ! 6, d ! 7] = d"
    using dlen by (intro nth_equalityI) (auto simp: less_Suc_eq numeral_eq_Suc)
  have "take (unat (msg_len m)) d = take (unat (msg_len m)) (msg_data m)" using len e(2) by (simp add: d)
  then have fr: "mailbox_frame k r' = msg_frame m"
    using b(2,3) fid dlc by8 [unfolded numeral_2_eq_2] l assms(3) by (simp add: mailbox_frame_def msg_frame_def f Let_def TMDATA_bytes)
  have st: "bit (can_tstat r') n \<longleftrightarrow> bit (can_tstat r) n \<and> n \<noteq> 26 + k" for n
    using bit_imp_le_length [of "can_tstat r" n] by (auto simp: f tme_bit bit_and_iff bit_not_iff)
  have "regs_ok r'" using l by (simp add: regs_ok_def f)
  moreover have "bit (can_tmi r' ! k) 0" "\<forall>j. j \<noteq> k \<longrightarrow> can_tmi r' ! j = can_tmi r ! j" using b(1) l assms(3) by (simp_all add: f(1))
  ultimately show ?thesis using r' fr st by blast
qed

lemma sendmsg_first:
  assumes "msg_ok m" "regs_ok r" "mailbox_is 0 Empty r"
  shows "\<exists>r'. gd32_can_sendmsg m 0 r = Some (RT_EOK, r') \<and> regs_ok r' \<and> mailbox_is 0 Requested r' \<and> mailbox_frame 0 r' = msg_frame m \<and>
    (\<forall>k st. k \<in> {1, 2} \<longrightarrow> mailbox_is k st r' = mailbox_is k st r)"
proof -
  obtain r' where r': "gd32_can_sendmsg m 0 r = Some (RT_EOK, r')" "regs_ok r'" "bit (can_tmi r' ! 0) 0" "mailbox_frame 0 r' = msg_frame m"
    "\<And>n. bit (can_tstat r') n \<longleftrightarrow> bit (can_tstat r) n \<and> n \<noteq> 26 + 0" "\<And>j. j \<noteq> 0 \<Longrightarrow> can_tmi r' ! j = can_tmi r ! j"
    using sendmsg_writes [OF assms(1,2), of 0] assms(3) by (auto simp: mailbox_is_def)
  have "mailbox_is 0 Requested r'" using r'(3) assms(3) unfolding mailbox_is_def r'(5) by simp
  moreover have "mailbox_is k st r' = mailbox_is k st r" if "k \<in> {1, 2}" for k st
    using that r'(6) [of k] unfolding mailbox_is_def r'(5) by auto
  ultimately show ?thesis using r'(1,2,4) by blast
qed

lemma sends_bits:
  "bit (can_tstat (controller_sends k ok r)) n \<longleftrightarrow> n < 32 \<and>
    (bit (can_tstat r) n \<and> \<not> (8 * k \<le> n \<and> n < 8 * k + 4) \<or> n = 26 + k \<or> 8 * k \<le> n \<and> n < 8 * k + (if ok then 2 else 1))"
proof -
  have c: "(0x3 :: u32) = mask 2" by (simp add: mask_eq_exp_minus_1)
  have "bit (push_bit (8 * k) 0x3 :: u32) n \<longleftrightarrow> n < 32 \<and> 8 * k \<le> n \<and> n < 8 * k + 2"
    unfolding c by (auto simp: bit_push_bit_iff bit_mask_iff)
  moreover have "bit (push_bit (8 * k) 0x1 :: u32) n \<longleftrightarrow> n < 32 \<and> 8 * k \<le> n \<and> n < 8 * k + 1"
    unfolding bit_push_bit_iff by (auto simp: bit_1_iff)
  moreover have "bit (push_bit (8 * k) 0xF :: u32) n \<longleftrightarrow> n < 32 \<and> 8 * k \<le> n \<and> n < 8 * k + 4"
    by (auto simp: mask_consts bit_push_bit_iff bit_mask_iff)
  ultimately show ?thesis
    using tme_bit [of k n] bit_imp_le_length [of "can_tstat r" n] by (auto simp: controller_sends_def bit_or_iff bit_and_iff bit_not_iff)
qed

lemma clear_bits:
  "bit (can_tstat (can_interrupt_flag_clear p r)) n \<longleftrightarrow> bit (can_tstat r) n \<and> \<not> (p \<le> n \<and> n < p + 4)"
  using bit_imp_le_length [of "can_tstat r" n]
  by (auto simp: can_interrupt_flag_clear_def bit_and_iff bit_not_iff bit_push_bit_iff bit_mask_iff mask_consts)

lemma ten_bit: "bit (w AND NOT CAN_TMI_TEN) 0 \<longleftrightarrow> False"
  by (simp add: CAN_TMI_TEN_def bit_and_iff bit_not_iff)

lemma sends_mailbox:
  assumes "k < 3" "regs_ok r" "mailbox_is k Requested r"
  shows "regs_ok (controller_sends k ok r)" "mailbox_is k Finished (controller_sends k ok r)"
    "j < 3 \<Longrightarrow> j \<noteq> k \<Longrightarrow> mailbox_is j st (controller_sends k ok r) = mailbox_is j st r"
proof -
  have l: "length (can_tmi r) = 3" using assms(2) by (simp add: regs_ok_def)
  have t: "can_tmi (controller_sends k ok r) = (can_tmi r)[k := can_tmi r ! k AND NOT CAN_TMI_TEN]" by (simp add: controller_sends_def)
  show "regs_ok (controller_sends k ok r)" using assms(2) by (simp add: regs_ok_def controller_sends_def)
  show "mailbox_is k Finished (controller_sends k ok r)"
    using assms(1) l unfolding mailbox_is_def t sends_bits by (simp add: ten_bit)
  show "mailbox_is j st (controller_sends k ok r) = mailbox_is j st r" if "j < 3" "j \<noteq> k"
    using assms(1) that unfolding mailbox_is_def t sends_bits by auto
qed

lemma clear_mailbox:
  assumes "k < 3" "mailbox_is k Finished r"
  shows "regs_ok (can_interrupt_flag_clear (8 * k) r) = regs_ok r" "mailbox_is k Empty (can_interrupt_flag_clear (8 * k) r)"
    "j < 3 \<Longrightarrow> j \<noteq> k \<Longrightarrow> mailbox_is j st (can_interrupt_flag_clear (8 * k) r) = mailbox_is j st r"
proof -
  have t: "can_tmi (can_interrupt_flag_clear (8 * k) r) = can_tmi r" by (simp add: can_interrupt_flag_clear_def)
  show "regs_ok (can_interrupt_flag_clear (8 * k) r) = regs_ok r" by (simp add: regs_ok_def can_interrupt_flag_clear_def)
  show "mailbox_is k Empty (can_interrupt_flag_clear (8 * k) r)"
    using assms unfolding mailbox_is_def t clear_bits by auto
  show "mailbox_is j st (can_interrupt_flag_clear (8 * k) r) = mailbox_is j st r" if "j < 3" "j \<noteq> k"
    using assms(1) that unfolding mailbox_is_def t clear_bits by auto
qed

section \<open>The invariant\<close>

text \<open>The box of the configuration, the completion of it, and who has it or the token for it.\<close>

abbreviation box0 :: "can_tx \<Rightarrow> send_box" where "box0 s \<equiv> boxes s ! 0"

abbreviation requested :: "can_tx \<Rightarrow> bool" where "requested s \<equiv> mailbox_is 0 Requested (tx_regs s)"

abbreviation finished :: "can_tx \<Rightarrow> bool" where "finished s \<equiv> mailbox_is 0 Finished (tx_regs s)"

abbreviation empty :: "can_tx \<Rightarrow> bool" where "empty s \<equiv> mailbox_is 0 Empty (tx_regs s)"

definition holds :: "can_tx \<Rightarrow> nat \<Rightarrow> bool" where
  "holds s t \<longleftrightarrow> tx_phase s t \<notin> {Idle, Loop, SemWait} \<or> tx_phase s t = SemWait \<and> \<not> suspended (tx_threads s t)"

definition in_progress :: "can_tx \<Rightarrow> nat \<Rightarrow> bool" where
  "in_progress s t \<longleftrightarrow> (requested s \<and> mailbox_frame 0 (tx_regs s) = msg_frame (hd (todo_of s t)) \<or> finished s) \<and> \<not> completed (box_completion (box0 s))"

definition through :: "can_tx \<Rightarrow> bool" where
  "through s \<longleftrightarrow> empty s \<and> completed (box_completion (box0 s)) \<and> box_result (box0 s) = RT_CAN_SND_RESULT_OK"

definition holder_ok :: "can_tx \<Rightarrow> nat \<Rightarrow> bool" where
  "holder_ok s t \<longleftrightarrow> (case tx_phase s t of
     SemWait \<Rightarrow> tx_freelist s = [0] \<and> empty s
   | Token \<Rightarrow> tx_freelist s = [0] \<and> empty s
   | Box k \<Rightarrow> k = 0 \<and> tx_freelist s = [] \<and> empty s
   | Sent k \<Rightarrow> k = 0 \<and> tx_freelist s = [] \<and> (in_progress s t \<or> through s)
   | CompWait k \<Rightarrow> k = 0 \<and> tx_freelist s = [] \<and> (if suspended (tx_threads s t) then in_progress s t else through s)
   | Woken k \<Rightarrow> k = 0 \<and> tx_freelist s = [] \<and> empty s \<and> box_result (box0 s) = RT_CAN_SND_RESULT_OK
   | Release ok \<Rightarrow> ok \<and> tx_freelist s = [0] \<and> empty s
   | _ \<Rightarrow> False)"

definition tx_lists :: "can_tx \<Rightarrow> bool" where
  "tx_lists s \<longleftrightarrow> length (boxes s) = 1 \<and> regs_ok (tx_regs s) \<and> mailbox_is 1 Empty (tx_regs s) \<and> mailbox_is 2 Empty (tx_regs s) \<and>
     list_ok (tx_threads s) (suspend_thread (tx_sem s) @ suspended_list (box_completion (box0 s))) \<and>
     (\<forall>t. t \<in> set (suspend_thread (tx_sem s)) \<longleftrightarrow> tx_phase s t = SemWait \<and> suspended (tx_threads s t)) \<and>
     (\<forall>t. t \<in> set (suspended_list (box_completion (box0 s))) \<longleftrightarrow> tx_phase s t = CompWait 0 \<and> suspended (tx_threads s t))"

definition tx_lock :: "nat option \<Rightarrow> can_tx \<Rightarrow> bool" where
  "tx_lock h s \<longleftrightarrow> (\<forall>u. holds s u \<longleftrightarrow> h = Some u) \<and>
     (case h of None \<Rightarrow> sem_value (tx_sem s) = 1 \<and> suspend_thread (tx_sem s) = [] \<and> tx_freelist s = [0] \<and> empty s
      | Some t \<Rightarrow> sem_value (tx_sem s) = 0 \<and> holder_ok s t)"

definition todo_ok :: "can_tx \<Rightarrow> bool" where
  "todo_ok s \<longleftrightarrow> (\<forall>t. (\<exists>xs. call_of s t = xs @ todo_of s t) \<and> list_all msg_ok (todo_of s t) \<and>
     (tx_phase s t = Idle \<longrightarrow> call_of s t = []) \<and> (tx_phase s t \<notin> {Idle, Loop} \<longrightarrow> todo_of s t \<noteq> []))"

text \<open>Which messages of the present call are on the bus; and the frames on the bus, each with its writer.\<close>

definition on_bus :: "can_tx \<Rightarrow> nat \<Rightarrow> bool" where
  "on_bus s t \<longleftrightarrow> (case tx_phase s t of Sent k \<Rightarrow> \<not> requested s | CompWait k \<Rightarrow> \<not> requested s | Woken k \<Rightarrow> True | Release ok \<Rightarrow> True | _ \<Rightarrow> False)"

definition progress :: "can_tx \<Rightarrow> nat \<Rightarrow> nat" where
  "progress s t = length (call_of s t) - length (todo_of s t) + (if on_bus s t then 1 else 0)"

definition written :: "can_tx \<Rightarrow> nat \<Rightarrow> rt_can_msg list" where
  "written s t = concat (map (\<lambda>(u, c, n). if u = t then take n c else []) (wrote s))"

definition bus_ok :: "can_tx \<Rightarrow> bool" where
  "bus_ok s \<longleftrightarrow> (\<exists>w. bus s = map (msg_frame \<circ> snd) w \<and>
     (\<forall>t. map snd (filter (\<lambda>x. fst x = t) w) = written s t @ take (progress s t) (call_of s t))) \<and>
     (\<forall>(t, c, n) \<in> set (wrote s). n = length c)"

definition tx_inv :: "nat option \<Rightarrow> can_tx \<Rightarrow> bool" where
  "tx_inv h s \<longleftrightarrow> tx_lists s \<and> tx_lock h s \<and> todo_ok s \<and> bus_ok s"

lemma mailbox_one: "mailbox_is k st r \<Longrightarrow> mailbox_is k st' r \<Longrightarrow> st = st'"
  by (cases st; cases st') (auto simp: mailbox_is_def)

lemma tx_open_inv: "tx_inv None (can_tx_open RT_CANSND_BOX_NUM quiet_threads)"
proof -
  let ?s = "can_tx_open RT_CANSND_BOX_NUM quiet_threads"
  have m: "mailbox_is k Empty can_regs_start" if "k < 3" for k
    using that unfolding upt3 mailbox_is_def can_regs_start_def by (elim disjE) (simp_all add: bit_numeral_simps numeral_2_eq_2 numeral_3_eq_3)
  have "regs_ok can_regs_start" by (simp add: regs_ok_def can_regs_start_def)
  then have "tx_lists ?s" using m by (simp add: tx_lists_def can_tx_open_def RT_CANSND_BOX_NUM_def list_ok_def quiet_threads_def rt_sem_init_def rt_completion_init_def)
  moreover have "tx_lock None ?s" using m by (simp add: tx_lock_def can_tx_open_def RT_CANSND_BOX_NUM_def rt_sem_init_def holds_def quiet_threads_def)
  moreover have "todo_ok ?s" by (simp add: todo_ok_def can_tx_open_def)
  moreover have "bus_ok ?s" by (simp add: bus_ok_def can_tx_open_def written_def)
  ultimately show ?thesis by (simp add: tx_inv_def)
qed

section \<open>Steps of the writers\<close>

lemma tx_invD:
  assumes "tx_inv h s"
  shows "tx_lists s" "tx_lock h s" "todo_ok s" "bus_ok s"
  using assms by (simp_all add: tx_inv_def)

lemma tx_listsD:
  assumes "tx_lists s"
  shows "length (boxes s) = 1" "regs_ok (tx_regs s)" "mailbox_is 1 Empty (tx_regs s)" "mailbox_is 2 Empty (tx_regs s)"
    "list_ok (tx_threads s) (suspend_thread (tx_sem s) @ suspended_list (box_completion (box0 s)))"
    "t \<in> set (suspend_thread (tx_sem s)) \<longleftrightarrow> tx_phase s t = SemWait \<and> suspended (tx_threads s t)"
    "t \<in> set (suspended_list (box_completion (box0 s))) \<longleftrightarrow> tx_phase s t = CompWait 0 \<and> suspended (tx_threads s t)"
  using assms unfolding tx_lists_def by blast+

lemma tx_lockD:
  assumes "tx_lock h s"
  shows "holds s u \<longleftrightarrow> h = Some u" "h = Some t \<Longrightarrow> sem_value (tx_sem s) = 0" "h = Some t \<Longrightarrow> holder_ok s t"
    "h = None \<Longrightarrow> sem_value (tx_sem s) = 1 \<and> suspend_thread (tx_sem s) = [] \<and> tx_freelist s = [0] \<and> empty s"
  using assms by (auto simp: tx_lock_def)

lemma todo_okD:
  assumes "todo_ok s"
  shows "\<exists>xs. call_of s t = xs @ todo_of s t" "list_all msg_ok (todo_of s t)" "tx_phase s t = Idle \<Longrightarrow> call_of s t = []"
    "tx_phase s t \<notin> {Idle, Loop} \<Longrightarrow> todo_of s t \<noteq> []"
  using assms unfolding todo_ok_def by blast+

lemma bus_same:
  assumes "bus s' = bus s" "wrote s' = wrote s" "call_of s' = call_of s" "\<And>u. progress s' u = progress s u"
  shows "bus_ok s' = bus_ok s"
  by (simp add: bus_ok_def written_def assms)

lemma to_phase_simps [simp]:
  "tx_phase (to_phase t p s) u = (if u = t then p else tx_phase s u)" "tx_threads (to_phase t p s) = tx_threads s"
  "tx_sem (to_phase t p s) = tx_sem s" "boxes (to_phase t p s) = boxes s" "tx_freelist (to_phase t p s) = tx_freelist s"
  "tx_regs (to_phase t p s) = tx_regs s" "call_of (to_phase t p s) = call_of s" "todo_of (to_phase t p s) = todo_of s"
  "wrote (to_phase t p s) = wrote s" "bus (to_phase t p s) = bus s"
  by (simp_all add: to_phase_def)

lemma upd_box_simps [simp]:
  "tx_phase (upd_box k f s) = tx_phase s" "tx_threads (upd_box k f s) = tx_threads s" "tx_sem (upd_box k f s) = tx_sem s"
  "boxes (upd_box k f s) = (boxes s)[k := f (boxes s ! k)]" "tx_freelist (upd_box k f s) = tx_freelist s"
  "tx_regs (upd_box k f s) = tx_regs s" "call_of (upd_box k f s) = call_of s" "todo_of (upd_box k f s) = todo_of s"
  "wrote (upd_box k f s) = wrote s" "bus (upd_box k f s) = bus s"
  by (simp_all add: upd_box_def)

text \<open>A thread that runs changes its phase only: what stays.\<close>

lemma holder_other:
  assumes "u \<noteq> t"
  shows "holds (to_phase t p s) u = holds s u" "holder_ok (to_phase t p s) u = holder_ok s u"
  using assms by (auto simp: holds_def holder_ok_def in_progress_def through_def split: tx_phase.splits)

lemma lists_phase:
  assumes "tx_lists s" "\<not> suspended (tx_threads s t)"
  shows "tx_lists (to_phase t p s)"
  using assms by (auto simp: tx_lists_def)

lemma write_inv:
  assumes inv: "tx_inv h s" and e: "tx_phase s t = Idle" "\<not> suspended (tx_threads s t)" "list_all msg_ok msgs"
  shows "tx_inv h (rt_can_write t msgs s)"
proof (cases "msgs = []")
  case True
  note I = tx_invD [OF inv]
  have "holder_ok (rt_can_write t msgs s) u = holder_ok s u" "holds (rt_can_write t msgs s) u = holds s u" for u
    using True by (auto simp: rt_can_write_def holder_ok_def holds_def in_progress_def through_def split: tx_phase.splits)
  then have "tx_lock h (rt_can_write t msgs s)" using I(2) True by (simp add: tx_lock_def rt_can_write_def split: option.splits)
  moreover have "tx_lists (rt_can_write t msgs s)" "todo_ok (rt_can_write t msgs s)" using I(1,3) True by (simp_all add: rt_can_write_def tx_lists_def todo_ok_def)
  moreover have "bus_ok (rt_can_write t msgs s)"
    using I(4) True by (simp add: bus_ok_def rt_can_write_def written_def progress_def on_bus_def cong: tx_phase.case_cong)
  ultimately show ?thesis by (simp add: tx_inv_def)
next
  case False
  note I = tx_invD [OF inv]
  let ?s = "s\<lparr>call_of := (call_of s)(t := msgs), todo_of := (todo_of s)(t := msgs)\<rparr>"
  have w: "rt_can_write t msgs s = to_phase t Loop ?s" using False by (simp add: rt_can_write_def)
  have nt: "h \<noteq> Some t" using tx_lockD(1) [OF I(2), of t] e(1) by (auto simp: holds_def)
  have o: "holds (to_phase t Loop ?s) u = holds s u" for u using e(1) by (auto simp: holds_def)
  have k: "holder_ok (to_phase t Loop ?s) u = holder_ok s u" if "u \<noteq> t" for u
    using that by (auto simp: holder_ok_def in_progress_def through_def split: tx_phase.splits)
  have "tx_lists ?s" using I(1) by (simp add: tx_lists_def)
  then have "tx_lists (to_phase t Loop ?s)" using lists_phase [of ?s t Loop] e(2) by simp
  moreover have "tx_lock h (to_phase t Loop ?s)" using I(2) o k nt by (auto simp: tx_lock_def split: option.splits)
  moreover have "todo_ok (to_phase t Loop ?s)" using I(3) e(3) by (auto simp: todo_ok_def)
  moreover have "bus_ok (to_phase t Loop ?s)"
  proof -
    have "progress (to_phase t Loop ?s) u = (if u = t then 0 else progress s u)" for u
      by (auto simp: progress_def on_bus_def split: tx_phase.splits)
    moreover have "call_of s t = []" using todo_okD(3) [OF I(3) e(1)] .
    ultimately have "take (progress (to_phase t Loop ?s) u) (call_of (to_phase t Loop ?s) u) = take (progress s u) (call_of s u)" for u by simp
    then show ?thesis using I(4) by (simp add: bus_ok_def written_def)
  qed
  ultimately show ?thesis by (simp add: w tx_inv_def)
qed

text \<open>From phase to phase, with the lock at the same thread or handed on.\<close>

lemma return_inv:
  assumes inv: "tx_inv h s" and e: "tx_phase s t = Loop" "\<not> suspended (tx_threads s t)" "todo_of s t = []"
  shows "tx_inv h (can_tx_return t s)"
proof -
  note I = tx_invD [OF inv]
  let ?s = "can_tx_return t s"
  have f: "tx_phase ?s u = (if u = t then Idle else tx_phase s u)" "tx_threads ?s = tx_threads s" "tx_sem ?s = tx_sem s" "boxes ?s = boxes s"
    "tx_freelist ?s = tx_freelist s" "tx_regs ?s = tx_regs s" "call_of ?s u = (if u = t then [] else call_of s u)"
    "todo_of ?s u = (if u = t then [] else todo_of s u)" "wrote ?s = wrote s @ [(t, call_of s t, length (call_of s t))]" "bus ?s = bus s" for u
    using e(3) by (simp_all add: can_tx_return_def)
  have nt: "h \<noteq> Some t" using tx_lockD(1) [OF I(2), of t] e(1) by (auto simp: holds_def)
  have o: "holds ?s u = holds s u" for u using e(1) by (auto simp: holds_def f)
  have k: "holder_ok ?s u = holder_ok s u" if "u \<noteq> t" for u
    using that by (auto simp: holder_ok_def in_progress_def through_def f split: tx_phase.splits)
  have "tx_lists ?s" using I(1) e(1,2) by (auto simp: tx_lists_def f)
  moreover have "tx_lock h ?s" using I(2) o k nt by (auto simp: tx_lock_def f split: option.splits)
  moreover have "todo_ok ?s" using I(3) by (auto simp: todo_ok_def f)
  moreover have "bus_ok ?s"
  proof -
    have p: "progress ?s u = (if u = t then 0 else progress s u)" for u
      by (auto simp: progress_def on_bus_def f split: tx_phase.splits)
    have q: "progress s t = length (call_of s t)" using e(1,3) by (simp add: progress_def on_bus_def)
    have "written ?s u @ take (progress ?s u) (call_of ?s u) = written s u @ take (progress s u) (call_of s u)" for u
      using q by (cases "u = t") (simp_all add: written_def f p)
    then show ?thesis using I(4) by (simp add: bus_ok_def f)
  qed
  ultimately show ?thesis by (simp add: tx_inv_def)
qed

lemma move_inv:
  assumes inv: "tx_inv (Some t) s" and run: "\<not> suspended (tx_threads s t)"
    and same: "tx_threads s' = tx_threads s" "tx_sem s' = tx_sem s" "call_of s' = call_of s" "todo_of s' = todo_of s" "wrote s' = wrote s" "bus s' = bus s"
    and ph: "\<And>u. tx_phase s' u = (if u = t then p else tx_phase s u)" "p \<notin> {Idle, Loop}"
    and lists: "length (boxes s') = 1" "regs_ok (tx_regs s')" "mailbox_is 1 Empty (tx_regs s')" "mailbox_is 2 Empty (tx_regs s')"
      "suspended_list (box_completion (box0 s')) = suspended_list (box_completion (box0 s))"
    and hold: "holder_ok s' t" "progress s' t = progress s t"
  shows "tx_inv (Some t) s'"
proof -
  note I = tx_invD [OF inv]
  note T = tx_listsD [OF I(1)]
  have o: "holds s' u = (u = t)" for u
    using tx_lockD(1) [OF I(2), of u] ph(2) run by (auto simp: holds_def ph(1) same)
  have "todo_of s t \<noteq> []"
    using todo_okD(4) [OF I(3), of t] tx_lockD(1) [OF I(2), of t] by (auto simp: holds_def)
  then have "todo_ok s'" using I(3) ph by (auto simp: todo_ok_def same)
  moreover have "tx_lists s'" using T run by (auto simp: tx_lists_def ph lists [unfolded One_nat_def] same)
  moreover have "tx_lock (Some t) s'" using o tx_lockD(2) [OF I(2)] hold(1) by (auto simp: tx_lock_def same)
  moreover have "bus_ok s' = bus_ok s"
  proof (rule bus_same)
    fix u
    show "progress s' u = progress s u"
    proof (cases "u = t")
      case False
      have "\<not> holds s u" using tx_lockD(1) [OF I(2), of u] False by simp
      then show ?thesis using False by (auto simp: progress_def on_bus_def same ph(1) holds_def split: tx_phase.splits)
    qed (use hold(2) in simp)
  qed (simp_all add: same)
  ultimately show ?thesis using I(4) by (simp add: tx_inv_def)
qed

lemma holder_ph:
  assumes "tx_inv h s" "holds s t"
  shows "h = Some t" "holder_ok s t" "sem_value (tx_sem s) = 0" "todo_of s t \<noteq> []" "list_all msg_ok (todo_of s t)"
proof -
  note I = tx_invD [OF assms(1)]
  show h: "h = Some t" using tx_lockD(1) [OF I(2)] assms(2) by simp
  show "holder_ok s t" "sem_value (tx_sem s) = 0" using tx_lockD(2,3) [OF I(2) h] by simp_all
  show "todo_of s t \<noteq> []" using todo_okD(4) [OF I(3), of t] assms(2) by (auto simp: holds_def)
  show "list_all msg_ok (todo_of s t)" by (rule todo_okD(2) [OF I(3)])
qed

lemma nobody_waits:
  assumes "tx_inv h s" "holds s t" "\<not> (tx_phase s t = CompWait 0 \<and> suspended (tx_threads s t))"
  shows "suspended_list (box_completion (box0 s)) = []"
proof (rule ccontr)
  assume "suspended_list (box_completion (box0 s)) \<noteq> []"
  then obtain u where u: "u \<in> set (suspended_list (box_completion (box0 s)))" by (metis list.set_intros(1) neq_Nil_conv)
  note I = tx_invD [OF assms(1)]
  have p: "tx_phase s u = CompWait 0" "suspended (tx_threads s u)" using tx_listsD(7) [OF I(1)] u by blast+
  then have "holds s u" by (simp add: holds_def)
  then have "u = t" using tx_lockD(1) [OF I(2)] assms(2) by auto
  then show False using p assms(3) by simp
qed

lemma not_requested: "empty s \<Longrightarrow> \<not> requested s" "finished s \<Longrightarrow> \<not> requested s" "empty s \<Longrightarrow> \<not> finished s"
  by (auto dest: mailbox_one)

lemma one_box: "length xs = Suc 0 \<Longrightarrow> xs[0 := v] ! 0 = v"
  by simp

text \<open>The holder of the lock runs.\<close>

lemma run_token:
  assumes inv: "tx_inv h s" and run: "\<not> suspended (tx_threads s t)" and ph: "tx_phase s t \<in> {SemWait, Token}"
  shows "\<exists>s'. can_int_tx t s = Some s' \<and> tx_inv h s'"
proof -
  have o: "holds s t" using run ph by (auto simp: holds_def)
  note H = holder_ph [OF inv o]
  note T = tx_listsD [OF tx_invD(1) [OF inv]]
  have k: "tx_freelist s = [0]" "empty s" using H(2) ph by (auto simp: holder_ok_def)
  have inv': "tx_inv (Some t) s" using inv H(1) by simp
  consider "tx_phase s t = SemWait" | "tx_phase s t = Token" using ph by blast
  then show ?thesis
  proof cases
    case 1
    have "tx_inv (Some t) (to_phase t Token s)"
      by (rule move_inv [OF inv' run, where p = Token]) (use T k 1 in \<open>auto simp: holder_ok_def progress_def on_bus_def\<close>)
    then show ?thesis using 1 H(1) by (simp add: can_int_tx_def)
  next
    case 2
    have "tx_inv (Some t) (to_phase t (Box 0) (s\<lparr>tx_freelist := []\<rparr>))"
      by (rule move_inv [OF inv' run, where p = "Box 0"]) (use T k 2 in \<open>auto simp: holder_ok_def progress_def on_bus_def\<close>)
    then show ?thesis using 2 H(1) k by (simp add: can_int_tx_def)
  qed
qed

lemma run_box:
  assumes inv: "tx_inv h s" and run: "\<not> suspended (tx_threads s t)" and ph: "tx_phase s t = Box k"
  shows "\<exists>s'. can_int_tx t s = Some s' \<and> tx_inv h s'"
proof -
  have o: "holds s t" using ph by (simp add: holds_def)
  note H = holder_ph [OF inv o]
  note T = tx_listsD [OF tx_invD(1) [OF inv]]
  have k: "k = 0" "tx_freelist s = []" "empty s" using H(2) ph by (auto simp: holder_ok_def)
  have inv': "tx_inv (Some t) s" using inv H(1) by simp
  have "msg_ok (hd (todo_of s t))" using H(4,5) by (cases "todo_of s t") auto
  from sendmsg_first [OF this T(2) k(3)] obtain r where r: "gd32_can_sendmsg (hd (todo_of s t)) 0 (tx_regs s) = Some (RT_EOK, r)"
    "regs_ok r" "mailbox_is 0 Requested r" "mailbox_frame 0 r = msg_frame (hd (todo_of s t))"
    "\<forall>k st. k \<in> {1, 2} \<longrightarrow> mailbox_is k st r = mailbox_is k st (tx_regs s)" by blast
  let ?s = "to_phase t (Sent 0) ((upd_box 0 (\<lambda>b. b\<lparr>box_result := RT_CAN_SND_RESULT_WAIT, box_completion := rt_completion_init\<rparr>) s)\<lparr>tx_regs := r\<rparr>)"
  have "suspended_list (box_completion (box0 s)) = []" by (rule nobody_waits [OF inv o]) (simp add: ph)
  then have "tx_inv (Some t) ?s"
    by (intro move_inv [OF inv' run, where p = "Sent 0"])
      (use T k r ph not_requested in \<open>auto simp: holder_ok_def progress_def on_bus_def in_progress_def rt_completion_init_def\<close>)
  moreover have "can_int_tx t s = Some ?s" using ph k(1) T(1) r(1) by (simp add: can_int_tx_def Let_def)
  ultimately show ?thesis using H(1) by blast
qed

lemma run_woken:
  assumes inv: "tx_inv h s" and run: "\<not> suspended (tx_threads s t)" and ph: "tx_phase s t = Woken k"
  shows "\<exists>s'. can_int_tx t s = Some s' \<and> tx_inv h s'"
proof -
  have o: "holds s t" using ph by (simp add: holds_def)
  note H = holder_ph [OF inv o]
  note T = tx_listsD [OF tx_invD(1) [OF inv]]
  have k: "k = 0" "tx_freelist s = []" "empty s" "box_result (box0 s) = RT_CAN_SND_RESULT_OK" using H(2) ph by (auto simp: holder_ok_def)
  have inv': "tx_inv (Some t) s" using inv H(1) by simp
  have "tx_inv (Some t) (to_phase t (Release True) (s\<lparr>tx_freelist := [0]\<rparr>))"
    by (rule move_inv [OF inv' run, where p = "Release True"]) (use T k ph in \<open>auto simp: holder_ok_def progress_def on_bus_def\<close>)
  then show ?thesis using ph k T(1) H(1) by (simp add: can_int_tx_def)
qed

lemma run_compwait:
  assumes inv: "tx_inv h s" and run: "\<not> suspended (tx_threads s t)" and ph: "tx_phase s t = CompWait k"
  shows "\<exists>s'. can_int_tx t s = Some s' \<and> tx_inv h s'"
proof -
  have o: "holds s t" using ph by (simp add: holds_def)
  note H = holder_ph [OF inv o]
  note T = tx_listsD [OF tx_invD(1) [OF inv]]
  have k: "k = 0" "tx_freelist s = []" "through s" using H(2) ph run by (auto simp: holder_ok_def)
  have inv': "tx_inv (Some t) s" using inv H(1) by simp
  let ?c = "(box_completion (box0 s))\<lparr>completed := False\<rparr>"
  let ?s = "to_phase t (Woken 0) (upd_box 0 (\<lambda>b. b\<lparr>box_completion := ?c\<rparr>) s)"
  have "tx_inv (Some t) ?s"
    by (rule move_inv [OF inv' run, where p = "Woken 0"])
      (use T k ph not_requested in \<open>auto simp: holder_ok_def progress_def on_bus_def through_def\<close>)
  moreover have "can_int_tx t s = Some ?s" using ph k(1) T(1) by (simp add: can_int_tx_def completion_wait_rest_def upd_box_def)
  ultimately show ?thesis using H(1) by blast
qed

lemma tx_list_ok_suspend:
  assumes "list_ok ths q" "\<not> suspended (ths t)" "mset q' = add_mset t (mset q)"
    "\<And>u. suspended (ths' u) = (u = t \<or> suspended (ths u))" "\<And>u. thread_timer (ths' u) = thread_timer (ths u)"
  shows "list_ok ths' q'"
proof -
  have "t \<notin> set q" using assms(1,2) by (auto simp: list_ok_def)
  then have "distinct q'" using assms(1,3) by (metis distinct.simps(2) list_ok_def mset.simps(2) mset_eq_imp_distinct_iff)
  moreover have "set q' = insert t (set q)" using arg_cong [OF assms(3), of set_mset] by simp
  ultimately show ?thesis using assms(1,4,5) by (auto simp: list_ok_def)
qed

lemma run_sent:
  assumes inv: "tx_inv h s" and run: "\<not> suspended (tx_threads s t)" and ph: "tx_phase s t = Sent k"
  shows "\<exists>s'. can_int_tx t s = Some s' \<and> tx_inv h s'"
proof -
  have o: "holds s t" using ph by (simp add: holds_def)
  note H = holder_ph [OF inv o]
  note I = tx_invD [OF inv]
  note T = tx_listsD [OF I(1)]
  have k: "k = 0" "tx_freelist s = []" "in_progress s t \<or> through s" using H(2) ph by (auto simp: holder_ok_def)
  have inv': "tx_inv (Some t) s" using inv H(1) by simp
  have nw: "suspended_list (box_completion (box0 s)) = []" by (rule nobody_waits [OF inv o]) (simp add: ph)
  show ?thesis
  proof (cases "completed (box_completion (box0 s))")
    case True
    then have th: "through s" using k(3) by (auto simp: in_progress_def)
    let ?c = "(box_completion (box0 s))\<lparr>completed := False\<rparr>"
    let ?s = "to_phase t (Woken 0) (upd_box 0 (\<lambda>b. b\<lparr>box_completion := ?c\<rparr>) s)"
    have "tx_inv (Some t) ?s"
      by (rule move_inv [OF inv' run, where p = "Woken 0"])
        (use T k(1,2) th ph not_requested in \<open>auto simp: holder_ok_def progress_def on_bus_def through_def\<close>)
    moreover have "can_int_tx t s = Some ?s" using ph k(1) T(1) True by (simp add: can_int_tx_def rt_completion_wait_def upd_box_def to_phase_def)
    ultimately show ?thesis using H(1) by blast
  next
    case False
    then have ip: "in_progress s t" using k(3) by (auto simp: through_def)
    let ?ths = "(tx_threads s)(t := (tx_threads s t)\<lparr>th_error := RT_EOK, suspended := True\<rparr>)"
    let ?c = "(box_completion (box0 s))\<lparr>suspended_list := [t]\<rparr>"
    obtain g where g: "g = to_phase t (CompWait 0) (upd_box 0 (\<lambda>b. b\<lparr>box_completion := ?c\<rparr>) (s\<lparr>tx_threads := ?ths\<rparr>))" by blast
    have f: "tx_phase g u = (if u = t then CompWait 0 else tx_phase s u)" "tx_threads g = ?ths" "tx_sem g = tx_sem s" "length (boxes g) = 1"
      "box0 g = (box0 s)\<lparr>box_completion := ?c\<rparr>" "tx_freelist g = tx_freelist s" "tx_regs g = tx_regs s" "call_of g = call_of s"
      "todo_of g = todo_of s" "wrote g = wrote s" "bus g = bus s" for u using T(1) by (simp_all add: g)
    have d: "can_int_tx t s = Some g" using ph k(1) T(1) False nw
      by (simp add: can_int_tx_def rt_completion_wait_def start_thread_timer_def Let_def g)
    have "list_ok ?ths (suspend_thread (tx_sem s) @ [t])"
      by (rule tx_list_ok_suspend [OF T(5) run]) (use nw in auto)
    then have "tx_lists g" using T(2-4,6,7) ph nw by (auto simp: tx_lists_def f)
    moreover have o': "holds g u = holds s u" for u using ph by (auto simp: holds_def f)
    then have "tx_lock (Some t) g"
      using tx_lockD(1) [OF I(2)] H(1,3) k(2) ip by (auto simp: tx_lock_def holder_ok_def in_progress_def f)
    moreover have "todo_ok g" using I(3) ph by (auto simp: todo_ok_def f)
    moreover have "bus_ok g = bus_ok s"
      by (rule bus_same) (use ph in \<open>auto simp: f progress_def on_bus_def split: tx_phase.splits\<close>)
    ultimately show ?thesis using d I(4) H(1) by (auto simp: tx_inv_def)
  qed
qed

lemma run_loop:
  assumes inv: "tx_inv h s" and run: "\<not> suspended (tx_threads s t)" and ph: "tx_phase s t = Loop"
  shows "\<exists>s' h'. can_int_tx t s = Some s' \<and> tx_inv h' s'"
proof (cases "todo_of s t = []")
  case True
  then show ?thesis using return_inv [OF inv ph run] ph by (auto simp: can_int_tx_def)
next
  case False
  note I = tx_invD [OF inv]
  note T = tx_listsD [OF I(1)]
  have no: "\<not> holds s t" using ph by (simp add: holds_def)
  then have nt: "h \<noteq> Some t" using tx_lockD(1) [OF I(2)] by auto
  show ?thesis
  proof (cases h)
    case None
    then have v: "sem_value (tx_sem s) = 1" "suspend_thread (tx_sem s) = []" "tx_freelist s = [0]" "empty s"
      using tx_lockD(4) [OF I(2)] by auto
    obtain g where g: "g = to_phase t Token (s\<lparr>tx_sem := (tx_sem s)\<lparr>sem_value := 0\<rparr>\<rparr>)" by blast
    have d: "can_int_tx t s = Some g" using ph False v(1) by (simp add: can_int_tx_def rt_sem_take_def g)
    have "tx_lists g" using I(1) run ph by (auto simp: tx_lists_def g)
    moreover have "holds g u \<longleftrightarrow> u = t" for u using tx_lockD(1) [OF I(2), of u] None by (auto simp: holds_def g)
    then have "tx_lock (Some t) g" using v by (auto simp: tx_lock_def holder_ok_def g)
    moreover have "todo_ok g" using I(3) False by (auto simp: todo_ok_def g)
    moreover have "bus_ok g = bus_ok s"
      by (rule bus_same) (use ph in \<open>auto simp: g progress_def on_bus_def split: tx_phase.splits\<close>)
    ultimately show ?thesis using d I(4) by (auto simp: tx_inv_def)
  next
    case (Some w)
    have v: "sem_value (tx_sem s) = 0" by (rule tx_lockD(2) [OF I(2) Some])
    obtain ths q where sp: "ipc_list_suspend (ipc_flag (tx_sem s)) t ((tx_threads s)(t := (tx_threads s t)\<lparr>th_error := RT_EINTR\<rparr>)) (suspend_thread (tx_sem s)) = (ths, q)"
      by fastforce
    note mq = mset_list_suspend [OF sp]
    have th: "suspended (ths u) = (u = t \<or> suspended (tx_threads s u))" "thread_timer (ths u) = thread_timer (tx_threads s u)" for u
      using sp run by (auto simp: ipc_list_suspend_def Let_def split: if_splits)
    obtain g where g: "g = to_phase t SemWait (s\<lparr>tx_threads := ths, tx_sem := (tx_sem s)\<lparr>suspend_thread := q\<rparr>\<rparr>)" by blast
    have d: "can_int_tx t s = Some g" using ph False v sp by (simp add: can_int_tx_def rt_sem_take_def start_thread_timer_def Let_def g)
    have sq: "set q = insert t (set (suspend_thread (tx_sem s)))" using arg_cong [OF mq, of set_mset] by simp
    have "list_ok ths (q @ suspended_list (box_completion (box0 s)))"
      by (rule tx_list_ok_suspend [OF T(5) run]) (use mq th in auto)
    then have "tx_lists g" using T(1-4,6,7) ph th(1) sq by (auto simp: tx_lists_def g)
    moreover have o': "holds g u = holds s u" for u using ph th(1) by (auto simp: holds_def g)
    moreover have "holder_ok g w = holder_ok s w" using nt Some th(1)
      by (auto simp: holder_ok_def in_progress_def through_def g split: tx_phase.splits)
    ultimately have "tx_lists g" "tx_lock h g" using I(2) Some by (auto simp: tx_lock_def g)
    moreover have "todo_ok g" using I(3) False by (auto simp: todo_ok_def g)
    moreover have "bus_ok g = bus_ok s"
      by (rule bus_same) (use ph in \<open>auto simp: g progress_def on_bus_def split: tx_phase.splits\<close>)
    ultimately show ?thesis using d I(4) by (auto simp: tx_inv_def)
  qed
qed

lemma run_release:
  assumes inv: "tx_inv h s" and run: "\<not> suspended (tx_threads s t)" and ph: "tx_phase s t = Release ok"
  shows "\<exists>s' h'. can_int_tx t s = Some s' \<and> tx_inv h' s'"
proof -
  have o: "holds s t" using ph by (simp add: holds_def)
  note H = holder_ph [OF inv o]
  note I = tx_invD [OF inv]
  note T = tx_listsD [OF I(1)]
  have k: "ok" "tx_freelist s = [0]" "empty s" using H(2) ph by (auto simp: holder_ok_def)
  have on: "holds s u \<longleftrightarrow> u = t" for u using tx_lockD(1) [OF I(2), of u] H(1) by auto
  have nw: "suspended_list (box_completion (box0 s)) = []" by (rule nobody_waits [OF inv o]) (simp add: ph)
  have bus: "bus_ok g" if "bus g = bus s" "wrote g = wrote s" "call_of g = call_of s" "\<And>u. tx_phase g u = (if u = t then Loop else tx_phase s u)"
      "todo_of g = (todo_of s)(t := tl (todo_of s t))" for g
  proof -
    have "progress g u = progress s u" for u
    proof (cases "u = t")
      case True
      obtain xs where "call_of s t = xs @ todo_of s t" using todo_okD(1) [OF I(3)] by blast
      then show ?thesis using True ph H(4) that by (cases "todo_of s t") (auto simp: progress_def on_bus_def)
    next
      case False
      then have "\<not> holds s u" using on by simp
      then show ?thesis using False that by (auto simp: progress_def on_bus_def holds_def split: tx_phase.splits)
    qed
    then show ?thesis using bus_same [of g s] that I(4) by simp
  qed
  have todo: "todo_ok g" if "call_of g = call_of s" "\<And>u. tx_phase g u = (if u = t then Loop else tx_phase s u)"
      "todo_of g = (todo_of s)(t := tl (todo_of s t))" for g
    unfolding todo_ok_def
  proof
    fix u
    show "(\<exists>xs. call_of g u = xs @ todo_of g u) \<and> list_all msg_ok (todo_of g u) \<and> (tx_phase g u = Idle \<longrightarrow> call_of g u = []) \<and>
      (tx_phase g u \<notin> {Idle, Loop} \<longrightarrow> todo_of g u \<noteq> [])"
    proof (cases "u = t")
      case True
      obtain xs where "call_of s t = xs @ todo_of s t" using todo_okD(1) [OF I(3)] by blast
      then have "call_of s t = (xs @ [hd (todo_of s t)]) @ tl (todo_of s t)" using H(4) by simp
      moreover have "list_all msg_ok (tl (todo_of s t))" using H(4,5) by (cases "todo_of s t") auto
      ultimately show ?thesis using True that by auto
    next
      case False
      then show ?thesis using I(3) that by (auto simp: todo_ok_def)
    qed
  qed
  show ?thesis
  proof (cases "suspend_thread (tx_sem s)")
    case Nil
    obtain g where g: "g = to_phase t Loop (s\<lparr>tx_sem := (tx_sem s)\<lparr>sem_value := 1\<rparr>, sndpkg := sndpkg s + 1, todo_of := (todo_of s)(t := tl (todo_of s t))\<rparr>)" by blast
    have d: "can_int_tx t s = Some g" using ph k(1) H(3) Nil by (simp add: can_int_tx_def rt_sem_release_def RT_SEM_VALUE_MAX_def Let_def g)
    have "tx_lists g" using T ph by (auto simp: tx_lists_def g)
    moreover have "\<not> holds g u" for u using on [of u] by (auto simp: holds_def g split: if_splits)
    then have "tx_lock None g" using k Nil by (auto simp: tx_lock_def g)
    moreover have "todo_ok g" "bus_ok g" by (rule todo bus; simp add: g)+
    ultimately show ?thesis using d by (auto simp: tx_inv_def)
  next
    case (Cons w q)
    let ?ths = "(tx_threads s)(w := (tx_threads s w)\<lparr>th_error := RT_EOK, suspended := False, thread_timer := None\<rparr>)"
    have w: "tx_phase s w = SemWait" "suspended (tx_threads s w)" using T(6) [of w] Cons by auto
    have wt: "w \<noteq> t" using w(2) run by auto
    have dq: "distinct (w # q)" using T(5) Cons nw by (simp add: list_ok_def)
    have rs: "ipc_list_resume (tx_threads s) (suspend_thread (tx_sem s)) = Some (?ths, q)"
      using w(2) dq Cons by (simp add: ipc_list_resume_def rt_thread_resume_def removeAll_id)
    obtain g where g: "g = to_phase t Loop (s\<lparr>tx_threads := ?ths, tx_sem := (tx_sem s)\<lparr>suspend_thread := q\<rparr>, sndpkg := sndpkg s + 1,
        todo_of := (todo_of s)(t := tl (todo_of s t))\<rparr>)" by blast
    have d: "can_int_tx t s = Some g" using ph k(1) Cons rs by (simp add: can_int_tx_def rt_sem_release_def Let_def g)
    have f: "tx_phase g u = (if u = t then Loop else tx_phase s u)" "tx_threads g = ?ths" "boxes g = boxes s" "tx_regs g = tx_regs s"
      "tx_sem g = (tx_sem s)\<lparr>suspend_thread := q\<rparr>" "tx_freelist g = tx_freelist s" for u by (simp_all add: g)
    have "list_ok ?ths (q @ suspended_list (box_completion (box0 s)))"
      using T(5) Cons dq nw by (auto simp: list_ok_def)
    then have "tx_lists g" unfolding tx_lists_def f using T(1-4) T(6,7) ph w wt Cons dq run by (auto simp: f)
    moreover have "holds g u \<longleftrightarrow> u = w" for u using on [of u] w wt by (auto simp: holds_def f)
    then have "tx_lock (Some w) g" using k w(1) wt H(3) by (auto simp: tx_lock_def holder_ok_def f)
    moreover have "todo_ok g" "bus_ok g" by (rule todo bus; simp add: g)+
    ultimately show ?thesis using d by (auto simp: tx_inv_def)
  qed
qed

lemma run_inv:
  assumes inv: "tx_inv h s" and e: "tx_phase s t \<noteq> Idle" "\<not> suspended (tx_threads s t)"
  shows "\<exists>s' h'. can_int_tx t s = Some s' \<and> tx_inv h' s'"
proof (cases "tx_phase s t")
  case Loop
  then show ?thesis using run_loop [OF inv e(2)] by simp
next
  case SemWait
  then show ?thesis using run_token [OF inv e(2)] by blast
next
  case Token
  then show ?thesis using run_token [OF inv e(2)] by blast
next
  case (Box k)
  then show ?thesis using run_box [OF inv e(2)] by blast
next
  case (Sent k)
  then show ?thesis using run_sent [OF inv e(2)] by blast
next
  case (CompWait k)
  then show ?thesis using run_compwait [OF inv e(2)] by blast
next
  case (Woken k)
  then show ?thesis using run_woken [OF inv e(2)] by blast
next
  case (Release ok)
  then show ?thesis using run_release [OF inv e(2)] by blast
qed (use e in simp)

section \<open>Steps of the controller\<close>

text \<open>A requested or finished mailbox belongs to the holder, who waits for it or is about to.\<close>

lemma busy_holder:
  assumes inv: "tx_inv h s" and busy: "\<not> empty s"
  shows "\<exists>t. h = Some t \<and> holds s t \<and> (tx_phase s t = Sent 0 \<or> tx_phase s t = CompWait 0 \<and> suspended (tx_threads s t)) \<and> in_progress s t"
proof -
  note I = tx_invD [OF inv]
  obtain t where t: "h = Some t" using tx_lockD(4) [OF I(2)] busy by (cases h) auto
  have o: "holds s t" using tx_lockD(1) [OF I(2)] t by simp
  then show ?thesis using holder_ph(2) [OF inv o] busy t
    by (auto simp: holder_ok_def through_def split: tx_phase.splits if_splits)
qed

lemma sends_inv:
  assumes inv: "tx_inv h s" and e: "tx_enabled (Sends k) s"
  shows "\<exists>s'. tx_do (Sends k) s = Some s' \<and> tx_inv h s'"
proof -
  note I = tx_invD [OF inv]
  note T = tx_listsD [OF I(1)]
  have k0: "k = 0" using e T(3,4) by (auto simp: mailbox_is_def upt3)
  then have busy: "\<not> empty s" using e by (auto simp: mailbox_is_def)
  obtain t where t: "h = Some t" "holds s t" "tx_phase s t = Sent 0 \<or> tx_phase s t = CompWait 0 \<and> suspended (tx_threads s t)" "in_progress s t"
    using busy_holder [OF inv busy] by blast
  have "\<not> finished s" using e k0 by (auto simp: mailbox_is_def)
  then have r: "requested s" "mailbox_frame 0 (tx_regs s) = msg_frame (hd (todo_of s t))" "\<not> completed (box_completion (box0 s))"
    using t(4) by (auto simp: in_progress_def)
  note H = holder_ph [OF inv t(2)]
  have on: "holds s u \<longleftrightarrow> u = t" for u using tx_lockD(1) [OF I(2), of u] t(1) by auto
  have lt: "0 < (3::nat)" by simp
  note M = sends_mailbox [where ok = True, OF lt T(2) r(1)]
  obtain g where g: "g = s\<lparr>tx_regs := controller_sends 0 True (tx_regs s), bus := bus s @ [mailbox_frame 0 (tx_regs s)]\<rparr>" by blast
  have f: "tx_phase g = tx_phase s" "tx_threads g = tx_threads s" "tx_sem g = tx_sem s" "boxes g = boxes s" "tx_freelist g = tx_freelist s"
    "call_of g = call_of s" "todo_of g = todo_of s" "wrote g = wrote s" by (simp_all add: g)
  have fin: "finished g" "\<not> requested g" using M(2) not_requested(2) [of g] by (simp_all add: g)
  have "tx_lists g" using I(1) M(1,3) unfolding tx_lists_def f by (simp add: g)
  moreover have "holder_ok g t" using H(2) t(3) fin(1) r(3) by (auto simp: holder_ok_def in_progress_def f)
  then have "tx_lock h g" using I(2) t(1) by (auto simp: tx_lock_def holds_def f)
  moreover have "todo_ok g" using I(3) by (simp add: todo_ok_def f)
  moreover have "bus_ok g"
  proof -
    obtain w where w: "bus s = map (msg_frame \<circ> snd) w"
      "\<forall>u. map snd (filter (\<lambda>x. fst x = u) w) = written s u @ take (progress s u) (call_of s u)" using I(4) by (auto simp: bus_ok_def)
    obtain xs where xs: "call_of s t = xs @ todo_of s t" using todo_okD(1) [OF I(3)] by blast
    have p: "progress s t = length xs" "progress g t = Suc (length xs)"
      using t(3) r(1) fin(2) by (auto simp: progress_def on_bus_def f xs)
    have po: "progress g u = progress s u" if "u \<noteq> t" for u
    proof -
      have "\<not> holds s u" using on that by simp
      then show ?thesis by (auto simp: progress_def on_bus_def f holds_def split: tx_phase.splits)
    qed
    have "take (progress g t) (call_of g t) = take (progress s t) (call_of s t) @ [hd (todo_of s t)]"
      using H(4) by (cases "todo_of s t") (simp_all add: p f xs)
    then have "\<forall>u. map snd (filter (\<lambda>x. fst x = u) (w @ [(t, hd (todo_of s t))])) = written g u @ take (progress g u) (call_of g u)"
      using w(2) po by (auto simp: written_def f)
    moreover have "bus g = map (msg_frame \<circ> snd) (w @ [(t, hd (todo_of s t))])" using w(1) r(2) by (simp add: g)
    ultimately show ?thesis using I(4) unfolding bus_ok_def f by blast
  qed
  ultimately show ?thesis using k0 by (auto simp: tx_inv_def g)
qed

lemma irq_inv:
  assumes inv: "tx_inv h s" and e: "tx_enabled TxIrq s"
  shows "\<exists>s'. tx_do TxIrq s = Some s' \<and> tx_inv h s'"
proof -
  note I = tx_invD [OF inv]
  note T = tx_listsD [OF I(1)]
  have fl: "can_interrupt_flag_get 0 (tx_regs s)" using e T(3,4) by (auto simp: mailbox_is_def upt3 can_interrupt_flag_get_def)
  then have busy: "\<not> empty s" by (auto simp: mailbox_is_def can_interrupt_flag_get_def)
  obtain t where t: "h = Some t" "holds s t" "tx_phase s t = Sent 0 \<or> tx_phase s t = CompWait 0 \<and> suspended (tx_threads s t)" "in_progress s t"
    using busy_holder [OF inv busy] by blast
  have "\<not> requested s" using fl by (auto simp: mailbox_is_def can_interrupt_flag_get_def)
  then have r: "finished s" "\<not> completed (box_completion (box0 s))" using t(4) by (auto simp: in_progress_def)
  note H = holder_ph [OF inv t(2)]
  have on: "holds s u \<longleftrightarrow> u = t" for u using tx_lockD(1) [OF I(2), of u] t(1) by auto
  have lt: "0 < (3::nat)" by simp
  note M = clear_mailbox [OF lt r(1), unfolded mult_0_right]
  have fg: "can_flag_get 0 (tx_regs s)" using fl by (simp add: can_flag_get_def can_interrupt_flag_get_def)
  have cl: "suspended_list (box_completion (box0 s)) = (if tx_phase s t = Sent 0 then [] else [t])"
  proof (cases "tx_phase s t = Sent 0")
    case True
    then show ?thesis using nobody_waits [OF inv t(2)] by simp
  next
    case False
    have "u = t" if "tx_phase s u = CompWait 0" for u using on [of u] that by (simp add: holds_def)
    then have "set (suspended_list (box_completion (box0 s))) = {t}" using T(7) False t(3) by auto
    moreover have "distinct (suspended_list (box_completion (box0 s)))" using T(5) by (simp add: list_ok_def)
    ultimately show ?thesis using False by (cases "suspended_list (box_completion (box0 s))" rule: remdups_adj.cases) auto
  qed
  let ?ths = "if tx_phase s t = Sent 0 then tx_threads s else (tx_threads s)(t := (tx_threads s t)\<lparr>suspended := False, thread_timer := None\<rparr>)"
  obtain c where c: "c = \<lparr>completed = True, suspended_list = []\<rparr>" by blast
  have dn: "rt_completion_done (tx_threads s) (box_completion (box0 s)) = (?ths, c)"
    using r(2) cl t(3) by (auto simp: rt_completion_done_def rt_thread_resume_def c)
  obtain g where g: "g = (upd_box 0 (\<lambda>b. b\<lparr>box_result := RT_CAN_SND_RESULT_OK, box_completion := c\<rparr>) (s\<lparr>tx_threads := ?ths\<rparr>))\<lparr>
      tx_regs := can_interrupt_flag_clear 0 (tx_regs s)\<rparr>" by blast
  have d: "tx_do TxIrq s = Some g"
    using fl fg T(1) dn by (simp add: CAN0_TX_IRQHandler_def tx_irq_mailbox_def can_isr_tx_def Let_def g)
  have f: "tx_phase g = tx_phase s" "tx_threads g = ?ths" "tx_sem g = tx_sem s" "length (boxes g) = 1"
    "box0 g = \<lparr>box_result = RT_CAN_SND_RESULT_OK, box_completion = c\<rparr>" "tx_freelist g = tx_freelist s"
    "call_of g = call_of s" "todo_of g = todo_of s" "wrote g = wrote s" "bus g = bus s" using T(1) by (simp_all add: g)
  have em: "empty g" "\<not> requested g" using M(2) not_requested(1) [of g] by (simp_all add: g)
  have th: "through g" using em by (simp add: through_def f c)
  have nts: "t \<notin> set (suspend_thread (tx_sem s))" using T(6) [of t] t(3) by auto
  have "list_ok ?ths (suspend_thread (tx_sem s))"
    using T(5) cl nts t(3) by (auto simp: list_ok_def split: if_splits)
  moreover have "regs_ok (tx_regs g)" "mailbox_is 1 Empty (tx_regs g)" "mailbox_is 2 Empty (tx_regs g)" using M(1,3) T(2-4) by (simp_all add: g)
  moreover have "u \<in> set (suspend_thread (tx_sem g)) \<longleftrightarrow> tx_phase g u = SemWait \<and> suspended (tx_threads g u)" for u
    using T(6) [of u] t(3) by (auto simp: f)
  moreover have "\<not> (tx_phase g u = CompWait 0 \<and> suspended (tx_threads g u))" for u
    using on [of u] t(3) by (auto simp: f holds_def)
  ultimately have "tx_lists g" by (simp add: tx_lists_def f c)
  moreover have "holder_ok g t" using H(2) t(3) th by (auto simp: holder_ok_def f)
  moreover have "holds g u = holds s u" for u using t(3) by (auto simp: holds_def f)
  ultimately have "tx_lists g" "tx_lock h g" using I(2) t(1) by (auto simp: tx_lock_def f)
  moreover have "todo_ok g" using I(3) by (simp add: todo_ok_def f)
  moreover have "bus_ok g = bus_ok s"
    by (rule bus_same) (use \<open>\<not> requested s\<close> em(2) in \<open>simp_all add: f progress_def on_bus_def split: tx_phase.split\<close>)
  ultimately show ?thesis using d I(4) by (auto simp: tx_inv_def)
qed

lemma tx_do_inv:
  assumes "tx_inv h s" "tx_enabled e s"
  shows "\<exists>s' h'. tx_do e s = Some s' \<and> tx_inv h' s'"
proof (cases e)
  case (Write t msgs)
  then show ?thesis using write_inv [OF assms(1), of t msgs] assms(2) by auto
next
  case (Run t)
  then show ?thesis using run_inv [OF assms(1), of t] assms(2) by simp
next
  case (Sends k)
  then show ?thesis using sends_inv assms by blast
next
  case TxIrq
  then show ?thesis using irq_inv assms by blast
qed

lemma tx_run_inv:
  assumes "tx_run es s = Some s'" "tx_inv h s"
  shows "\<exists>h'. tx_inv h' s'"
  using assms
proof (induction es arbitrary: s h)
  case (Cons e es)
  then obtain s1 where s1: "tx_enabled e s" "tx_do e s = Some s1" "tx_run es s1 = Some s'" by (auto split: if_splits bind_splits)
  obtain h1 where "tx_inv h1 s1" using tx_do_inv [OF Cons.prems(2) s1(1)] s1(2) by auto
  then show ?case using Cons.IH [OF s1(3)] by blast
qed auto

lemma tx_reach_inv: "tx_run es (can_tx_open RT_CANSND_BOX_NUM quiet_threads) = Some s \<Longrightarrow> \<exists>h. tx_inv h s"
  by (rule tx_run_inv [OF _ tx_open_inv])

section \<open>What is left to do\<close>

fun phase_rank :: "tx_phase \<Rightarrow> nat \<Rightarrow> nat" where
  "phase_rank Idle n = 0"
| "phase_rank Loop n = 10 * n + 1"
| "phase_rank SemWait n = 10 * n"
| "phase_rank Token n = 10 * n - 1"
| "phase_rank (Box k) n = 10 * n - 2"
| "phase_rank (Sent k) n = 10 * n - 5"
| "phase_rank (CompWait k) n = 10 * n - 6"
| "phase_rank (Woken k) n = 10 * n - 7"
| "phase_rank (Release ok) n = 10 * n - 8"

definition rank :: "can_tx \<Rightarrow> nat \<Rightarrow> nat" where
  "rank s t = phase_rank (tx_phase s t) (length (todo_of s t))"

definition mailbox_rank :: "can_tx \<Rightarrow> nat" where
  "mailbox_rank s = (if requested s then 2 else if finished s then 1 else 0)"

definition work :: "nat set \<Rightarrow> can_tx \<Rightarrow> nat" where
  "work F s = (\<Sum>t \<in> F. rank s t) + mailbox_rank s"

lemma run_rank:
  assumes inv: "tx_inv h s" and e: "tx_phase s t \<noteq> Idle" "\<not> suspended (tx_threads s t)" and r: "can_int_tx t s = Some s'"
  shows "rank s' t + mailbox_rank s' < rank s t + mailbox_rank s" "u \<noteq> t \<Longrightarrow> tx_phase s' u = tx_phase s u \<and> rank s' u = rank s u"
proof -
  note I = tx_invD [OF inv]
  have "u \<noteq> t \<Longrightarrow> tx_phase s' u = tx_phase s u \<and> todo_of s' u = todo_of s u" for u
    using r by (auto simp: can_int_tx_def can_tx_return_def Let_def split: tx_phase.splits if_splits outcome.splits prod.splits bind_splits list.splits)
  then show "u \<noteq> t \<Longrightarrow> tx_phase s' u = tx_phase s u \<and> rank s' u = rank s u" by (simp add: rank_def)
  have l: "0 < length (todo_of s t)" if "tx_phase s t \<noteq> Loop"
  proof -
    have "todo_of s t \<noteq> []" by (rule todo_okD(4) [OF I(3)]) (use e(1) that in simp)
    then show ?thesis by simp
  qed
  show "rank s' t + mailbox_rank s' < rank s t + mailbox_rank s"
  proof (cases "\<exists>k. tx_phase s t = Box k")
    case True
    then obtain k where k: "tx_phase s t = Box k" by blast
    have o: "holds s t" using k by (simp add: holds_def)
    note H = holder_ph [OF inv o]
    have em: "k = 0" "empty s" using H(2) k by (auto simp: holder_ok_def)
    have "msg_ok (hd (todo_of s t))" using H(4,5) by (cases "todo_of s t") auto
    from sendmsg_first [OF this tx_listsD(2) [OF I(1)] em(2)] obtain q where
      q: "gd32_can_sendmsg (hd (todo_of s t)) 0 (tx_regs s) = Some (RT_EOK, q)" "mailbox_is 0 Requested q" by blast
    have "tx_phase s' t = Sent 0" "todo_of s' t = todo_of s t" "tx_regs s' = q"
      using r k em(1) q(1) tx_listsD(1) [OF I(1)] by (auto simp: can_int_tx_def Let_def)
    moreover obtain n where "length (todo_of s t) = Suc n" using H(4) by (cases "todo_of s t") auto
    ultimately show ?thesis using q(2) k not_requested(1,3) em(2) by (auto simp: rank_def mailbox_rank_def)
  next
    case False
    have m: "tx_regs s' = tx_regs s"
      using r False by (auto simp: can_int_tx_def can_tx_return_def Let_def split: tx_phase.splits if_splits outcome.splits prod.splits bind_splits list.splits)
    have "rank s' t < rank s t"
    proof (cases "tx_phase s t = Loop")
      case True
      then show ?thesis using r by (auto simp: rank_def can_int_tx_def can_tx_return_def Let_def split: if_splits outcome.splits prod.splits)
    next
      case no: False
      obtain m q where mq: "todo_of s t = m # q" using l [OF no] by (cases "todo_of s t") auto
      show ?thesis using r e(1) no mq False by (auto simp: rank_def can_int_tx_def can_tx_return_def Let_def
        split: tx_phase.splits if_splits outcome.splits prod.splits bind_splits list.splits)
    qed
    then show ?thesis by (simp add: mailbox_rank_def m)
  qed
qed

definition no_call :: "tx_event \<Rightarrow> bool" where
  "no_call e \<longleftrightarrow> (case e of Write t msgs \<Rightarrow> False | _ \<Rightarrow> True)"

definition active :: "can_tx \<Rightarrow> nat set" where
  "active s = {t. tx_phase s t \<noteq> Idle}"

lemma step_work:
  assumes inv: "tx_inv h s" and e: "tx_enabled e s" "no_call e" and F: "finite F" "active s \<subseteq> F" and d: "tx_do e s = Some s'"
  shows "work F s' < work F s" "active s' \<subseteq> active s"
proof -
  have "work F s' < work F s \<and> active s' \<subseteq> active s"
  proof (cases e)
    case (Run t)
    then have r: "tx_phase s t \<noteq> Idle" "\<not> suspended (tx_threads s t)" "can_int_tx t s = Some s'" using e(1) d by auto
    note R = run_rank [OF inv r]
    have t: "t \<in> F" using F(2) r(1) by (auto simp: active_def)
    have "(\<Sum>u \<in> F - {t}. rank s' u) = (\<Sum>u \<in> F - {t}. rank s u)" by (rule sum.cong) (use R(2) in auto)
    moreover have "(\<Sum>u \<in> F. rank q u) = rank q t + (\<Sum>u \<in> F - {t}. rank q u)" for q by (rule sum.remove [OF F(1) t])
    ultimately have "work F s' < work F s" using R(1) by (simp add: work_def)
    moreover have "active s' \<subseteq> active s"
    proof
      fix u assume "u \<in> active s'"
      then show "u \<in> active s" using R(2) [of u] r(1) by (cases "u = t") (auto simp: active_def)
    qed
    ultimately show ?thesis by blast
  next
    case (Sends k)
    note T = tx_listsD [OF tx_invD(1) [OF inv]]
    have k0: "k = 0" using e(1) Sends T(3,4) by (auto simp: mailbox_is_def upt3)
    have busy: "\<not> empty s" using e(1) Sends k0 by (auto simp: mailbox_is_def)
    have "\<not> finished s" using e(1) Sends k0 by (auto simp: mailbox_is_def)
    then have r: "requested s" using busy_holder [OF inv busy] by (auto simp: in_progress_def)
    have s': "s' = s\<lparr>tx_regs := controller_sends 0 True (tx_regs s), bus := bus s @ [mailbox_frame 0 (tx_regs s)]\<rparr>" using d Sends k0 by simp
    have "finished s'" using sends_mailbox(2) [of 0 "tx_regs s" True] T(2) r by (simp add: s')
    then have "mailbox_rank s' = 1" "mailbox_rank s = 2" using r not_requested(2) by (auto simp: mailbox_rank_def)
    then show ?thesis by (simp add: work_def rank_def active_def s')
  next
    case TxIrq
    note T = tx_listsD [OF tx_invD(1) [OF inv]]
    have fl: "can_interrupt_flag_get 0 (tx_regs s)" using e(1) TxIrq T(3,4) by (auto simp: mailbox_is_def upt3 can_interrupt_flag_get_def)
    then have busy: "\<not> empty s" by (auto simp: mailbox_is_def can_interrupt_flag_get_def)
    have nr: "\<not> requested s" using fl by (auto simp: mailbox_is_def can_interrupt_flag_get_def)
    then have r: "finished s" using busy_holder [OF inv busy] by (auto simp: in_progress_def)
    have s': "tx_regs s' = can_interrupt_flag_clear 0 (tx_regs s)" "tx_phase s' = tx_phase s" "todo_of s' = todo_of s"
      using d TxIrq fl by (auto simp: CAN0_TX_IRQHandler_def tx_irq_mailbox_def can_isr_tx_def Let_def split: bind_splits prod.splits)
    have "empty s'" using clear_mailbox(2) [of 0 "tx_regs s"] r by (simp add: s')
    then have "mailbox_rank s' = 0" "mailbox_rank s = 1" using r nr not_requested(1,3) by (auto simp: mailbox_rank_def)
    then show ?thesis by (simp add: work_def rank_def active_def s')
  qed (use e(2) in \<open>simp add: no_call_def\<close>)
  then show "work F s' < work F s" "active s' \<subseteq> active s" by simp_all
qed

lemma run_work:
  assumes "tx_run es s = Some s'" "tx_inv h s" "list_all no_call es" "finite F" "active s \<subseteq> F"
  shows "length es + work F s' \<le> work F s"
  using assms
proof (induction es arbitrary: s h)
  case (Cons e es)
  then obtain s1 where s1: "tx_enabled e s" "tx_do e s = Some s1" "tx_run es s1 = Some s'" by (auto split: if_splits bind_splits)
  obtain h1 where h1: "tx_inv h1 s1" using tx_do_inv [OF Cons.prems(2) s1(1)] s1(2) by auto
  have n: "no_call e" "list_all no_call es" using Cons.prems(3) by auto
  note W = step_work [OF Cons.prems(2) s1(1) n(1) Cons.prems(4,5) s1(2)]
  have "length es + work F s' \<le> work F s1" using Cons.IH [OF s1(3) h1 n(2) Cons.prems(4)] W(2) Cons.prems(5) by blast
  then show ?case using W(1) by simp
qed simp

lemma finite_active:
  assumes "tx_run es s = Some s'" "tx_inv h s" "finite (active s)"
  shows "finite (active s')"
  using assms
proof (induction es arbitrary: s h)
  case (Cons e es)
  then obtain s1 where s1: "tx_enabled e s" "tx_do e s = Some s1" "tx_run es s1 = Some s'" by (auto split: if_splits bind_splits)
  obtain h1 where h1: "tx_inv h1 s1" using tx_do_inv [OF Cons.prems(2) s1(1)] s1(2) by auto
  have "finite (active s1)"
  proof (cases "no_call e")
    case True
    show ?thesis by (rule finite_subset [OF step_work(2) [OF Cons.prems(2) s1(1) True Cons.prems(3) order.refl s1(2)] Cons.prems(3)])
  next
    case False
    then obtain t msgs where "e = Write t msgs" by (auto simp: no_call_def split: tx_event.splits)
    then have "active s1 \<subseteq> insert t (active s)" using s1(2) by (auto simp: active_def rt_can_write_def split: if_splits)
    then show ?thesis using Cons.prems(3) by (auto intro: finite_subset)
  qed
  then show ?case using Cons.IH [OF s1(3) h1] by blast
qed auto

text \<open>Where no step is left, every call has returned.\<close>

lemma stuck_idle:
  assumes inv: "tx_inv h s" and stuck: "\<And>e. no_call e \<Longrightarrow> \<not> tx_enabled e s"
  shows "tx_phase s t = Idle"
proof (rule ccontr)
  assume t: "tx_phase s t \<noteq> Idle"
  have susp: "tx_phase s u \<noteq> Idle \<Longrightarrow> suspended (tx_threads s u)" for u using stuck [of "Run u"] by (auto simp: no_call_def)
  note I = tx_invD [OF inv]
  have em: "empty s"
  proof (rule ccontr)
    assume "\<not> empty s"
    from busy_holder [OF inv this] have "requested s \<or> finished s" by (auto simp: in_progress_def)
    then have en: "tx_enabled (Sends 0) s \<or> tx_enabled TxIrq s"
    proof
      assume "finished s"
      then have "can_interrupt_flag_get (8 * 0) (tx_regs s)"
        using tx_listsD(2) [OF I(1)] by (simp add: mailbox_is_def can_interrupt_flag_get_def regs_ok_def)
      moreover have "0 < (3::nat)" by simp
      ultimately show ?thesis unfolding tx_enabled.simps by blast
    qed (simp add: mailbox_is_def)
    have "no_call (Sends 0)" "no_call TxIrq" by (simp_all add: no_call_def)
    from stuck [OF this(1)] stuck [OF this(2)] en show False by blast
  qed
  have lk: "list_ok (tx_threads s) (suspend_thread (tx_sem s) @ suspended_list (box_completion (box0 s)))" by (rule tx_listsD(5) [OF I(1)])
  have w: "tx_phase s u = SemWait \<or> tx_phase s u = CompWait 0" if "suspended (tx_threads s u)" for u
  proof -
    have "u \<in> set (suspend_thread (tx_sem s)) \<or> u \<in> set (suspended_list (box_completion (box0 s)))" using list_okD(2) [OF lk, of u] that by simp
    then show ?thesis using tx_listsD(6,7) [OF I(1), of u] by blast
  qed
  have no: "\<not> holds s u" for u
  proof
    assume o: "holds s u"
    then have su: "suspended (tx_threads s u)" using susp by (auto simp: holds_def)
    moreover have "tx_phase s u \<noteq> SemWait" using o su by (simp add: holds_def)
    ultimately have "tx_phase s u = CompWait 0" using w by blast
    then have "in_progress s u" using holder_ph(2) [OF inv o] su by (simp add: holder_ok_def)
    then show False using not_requested(1,3) [OF em] by (simp add: in_progress_def)
  qed
  then have "h = None" using tx_lockD(1) [OF I(2)] by (cases h) blast+
  then have n: "suspend_thread (tx_sem s) = []" using tx_lockD(4) [OF I(2)] by blast
  have su: "suspended (tx_threads s t)" by (rule susp [OF t])
  have "tx_phase s t \<noteq> SemWait" using tx_listsD(6) [OF I(1), of t] n su by auto
  then have "tx_phase s t = CompWait 0" using w [OF su] by blast
  then show False using no [of t] by (simp add: holds_def)
qed

section \<open>Properties\<close>

text \<open>Whatever the order of calls, threads, the controller and its interrupt, no section of the code fails.\<close>

lemma can_tx_safe:
  assumes "tx_run es (can_tx_open RT_CANSND_BOX_NUM quiet_threads) = Some s" "tx_enabled e s"
  shows "\<exists>s'. tx_do e s = Some s'"
  using tx_reach_inv [OF assms(1)] tx_do_inv assms(2) by blast

text \<open>C38: the frames on the bus are, in order, the messages that the writers have sent: those of the calls that have returned, all of
them, and a first part of the present call.\<close>

theorem can_tx_frames:
  assumes "tx_run es (can_tx_open RT_CANSND_BOX_NUM quiet_threads) = Some s"
  shows "\<exists>w. bus s = map (msg_frame \<circ> snd) w \<and> (\<forall>t. \<exists>j. map snd (filter (\<lambda>x. fst x = t) w) =
      concat (map (\<lambda>(u, c, n). if u = t then c else []) (wrote s)) @ take j (call_of s t)) \<and> (\<forall>(t, c, n) \<in> set (wrote s). n = length c)"
proof -
  obtain h where "tx_inv h s" using tx_reach_inv [OF assms] by blast
  then have b: "bus_ok s" by (rule tx_invD)
  then obtain w where w: "bus s = map (msg_frame \<circ> snd) w" "\<forall>t. map snd (filter (\<lambda>x. fst x = t) w) = written s t @ take (progress s t) (call_of s t)"
    by (auto simp: bus_ok_def)
  have n: "\<forall>(t, c, n) \<in> set (wrote s). n = length c" using b by (simp add: bus_ok_def)
  have "written s t = concat (map (\<lambda>(u, c, n). if u = t then c else []) (wrote s))" for t
    unfolding written_def by (rule arg_cong [of _ _ concat], rule map_cong) (use n in auto)
  then show ?thesis using w n by auto
qed

text \<open>C39: calls end: without new calls only a bounded number of steps is possible, and when none is left, every call has returned.\<close>

theorem can_tx_ends:
  assumes "tx_run es (can_tx_open RT_CANSND_BOX_NUM quiet_threads) = Some s"
  shows "\<exists>N. \<forall>es' s'. list_all no_call es' \<and> tx_run es' s = Some s' \<longrightarrow>
    length es' \<le> N \<and> ((\<forall>e. no_call e \<longrightarrow> \<not> tx_enabled e s') \<longrightarrow> (\<forall>t. tx_phase s' t = Idle))"
proof (intro exI allI impI, elim conjE)
  fix es' s'
  assume e: "list_all no_call es'" "tx_run es' s = Some s'"
  obtain h where h: "tx_inv h s" using tx_reach_inv [OF assms] by blast
  have "finite (active s)" by (rule finite_active [OF assms tx_open_inv]) (simp add: active_def can_tx_open_def)
  from run_work [OF e(2) h e(1) this order.refl] have "length es' \<le> work (active s) s" by simp
  moreover obtain h' where "tx_inv h' s'" using tx_run_inv [OF e(2) h] by blast
  then have "(\<forall>e. no_call e \<longrightarrow> \<not> tx_enabled e s') \<longrightarrow> (\<forall>t. tx_phase s' t = Idle)" using stuck_idle by blast
  ultimately show "length es' \<le> work (active s) s \<and> ((\<forall>e. no_call e \<longrightarrow> \<not> tx_enabled e s') \<longrightarrow> (\<forall>t. tx_phase s' t = Idle))" by blast
qed

text \<open>C40: the driver refuses a second or third mailbox that is empty, and writes over one whose message is not sent yet.\<close>

theorem can_sendmsg_inverted:
  assumes "msg_ok m" "regs_ok r" "k \<in> {1, 2}"
  shows "(mailbox_is k Empty r \<longrightarrow> gd32_can_sendmsg m k r = Some (RT_ERROR, r)) \<and>
    (mailbox_is k Requested r \<longrightarrow> (\<exists>r'. gd32_can_sendmsg m k r = Some (RT_EOK, r') \<and> mailbox_frame k r' = msg_frame m))"
proof (intro conjI impI)
  have k: "k < 3" "k \<noteq> 0" using assms(3) by auto
  show "gd32_can_sendmsg m k r = Some (RT_ERROR, r)" if "mailbox_is k Empty r"
    using that k tme_test [OF k(1), of r] assms(1) by (simp add: gd32_can_sendmsg_def mailbox_is_def msg_ok_def)
  show "\<exists>r'. gd32_can_sendmsg m k r = Some (RT_EOK, r') \<and> mailbox_frame k r' = msg_frame m" if "mailbox_is k Requested r"
    using sendmsg_writes [OF assms(1,2) k(1)] that k(2) by (auto simp: mailbox_is_def)
qed

text \<open>The interrupt takes every finished transmission for a good one.\<close>

lemma can_failure_hidden:
  assumes "boxes s \<noteq> []" "regs_ok (tx_regs s)" "mailbox_is 0 Requested (tx_regs s)"
  shows "\<exists>s'. CAN0_TX_IRQHandler (s\<lparr>tx_regs := controller_sends 0 False (tx_regs s)\<rparr>) = Some s' \<and> box_result (box0 s') = RT_CAN_SND_RESULT_OK"
proof -
  have "bit (can_tstat (controller_sends 0 False (tx_regs s))) 0" unfolding sends_bits by simp
  moreover have "bit (can_inten (controller_sends 0 False (tx_regs s))) 0" using assms(2) by (simp add: controller_sends_def regs_ok_def)
  ultimately show ?thesis using assms(1)
    by (auto simp: CAN0_TX_IRQHandler_def can_interrupt_flag_get_def tx_irq_mailbox_def can_flag_get_def can_isr_tx_def Let_def split: prod.split)
qed

definition demo_msg :: "u8 \<Rightarrow> rt_can_msg" where
  "demo_msg b = \<lparr>msg_id = 0x123, msg_ide = False, msg_rtr = False, msg_len = 2, msg_data = [b, 7, 0, 0, 0, 0, 0, 0]\<rparr>"

definition demo_events :: "tx_event list" where
  "demo_events = [Write 1 [demo_msg 1], Write 2 [demo_msg 2], Run 1, Run 2, Run 1, Run 1, Run 1, Sends 0, TxIrq, Run 1, Run 1, Run 1, Run 2, Run 2, Run 2, Run 1, Sends 0]"

lemma tx_demo_run: "map_option (\<lambda>s. length (bus s)) (tx_run demo_events (can_tx_open RT_CANSND_BOX_NUM quiet_threads)) = Some 2"
  by code_simp

lemma can_tx_frames_witness:
  "\<exists>s (w :: (nat \<times> rt_can_msg) list). tx_run demo_events (can_tx_open RT_CANSND_BOX_NUM quiet_threads) = Some s \<and>
    length (bus s) = 2 \<and> bus s = map (msg_frame \<circ> snd) w"
proof -
  obtain s where s: "tx_run demo_events (can_tx_open RT_CANSND_BOX_NUM quiet_threads) = Some s" "length (bus s) = 2" using tx_demo_run by auto
  from can_tx_frames [OF s(1)] have "\<exists>w :: (nat \<times> rt_can_msg) list. bus s = map (msg_frame \<circ> snd) w" by (elim exE conjE) (erule exI)
  then show ?thesis using s by blast
qed

lemma can_tx_ends_witness:
  "\<exists>s N. tx_run demo_events (can_tx_open RT_CANSND_BOX_NUM quiet_threads) = Some s \<and>
    (\<forall>es' s'. list_all no_call es' \<and> tx_run es' s = Some s' \<longrightarrow> length es' \<le> N)"
proof -
  obtain s where s: "tx_run demo_events (can_tx_open RT_CANSND_BOX_NUM quiet_threads) = Some s" using tx_demo_run by auto
  from can_tx_ends [OF s] obtain N where "\<forall>es' s'. list_all no_call es' \<and> tx_run es' s = Some s' \<longrightarrow>
    length es' \<le> N \<and> ((\<forall>e. no_call e \<longrightarrow> \<not> tx_enabled e s') \<longrightarrow> (\<forall>t. tx_phase s' t = Idle))" by blast
  then show ?thesis using s by blast
qed

lemma can_sendmsg_inverted_witness:
  "gd32_can_sendmsg (demo_msg 1) 1 can_regs_start = Some (RT_ERROR, can_regs_start)"
proof -
  have "msg_ok (demo_msg 1)" "regs_ok can_regs_start" by (simp_all add: msg_ok_def demo_msg_def regs_ok_def can_regs_start_def)
  moreover have "mailbox_is 1 Empty can_regs_start" using tx_listsD(3) [OF tx_invD(1) [OF tx_open_inv]] by (simp add: can_tx_open_def)
  ultimately show ?thesis using can_sendmsg_inverted [of "demo_msg 1" can_regs_start 1] by simp
qed

section \<open>Bit rates\<close>

text \<open>
  The prescalers of \<open>gd32_can_configure\<close>. A bit has 1 + 13 + 2 quanta, and the clock of the controller is 50 MHz, as the comment there
  says: only the rate that the program uses comes out right.
\<close>

definition can_prescaler :: "nat \<Rightarrow> nat" where
  "can_prescaler baud_rate =
    (if baud_rate = 1000000 then 5 else if baud_rate = 500000 then 10 else if baud_rate = 250000 then 20
     else if baud_rate = 125000 then 25 else if baud_rate = 100000 then 50 else if baud_rate = 50000 then 100
     else if baud_rate = 20000 then 250 else if baud_rate = 10000 then 500 else 10)"

lemma can_bit_rates:
  "50000000 div (can_prescaler 125000 * (1 + 13 + 2)) = 125000"
  "b \<in> {1000000, 500000, 250000, 100000, 50000, 20000, 10000} \<Longrightarrow> 50000000 div (can_prescaler b * (1 + 13 + 2)) \<noteq> b"
  by (auto simp: can_prescaler_def)

end
