(* ===== verification/Spec2Isabelle.thy ===== *)
theory Spec2Isabelle
  imports LmsUart KeyMenu CanProto IoMonitor ModbusSlave Eeprom Pulse Shell UpsMaster Hmi I2cWires Semaphore EventFlags MailboxWait CanFifo KTimer Scheduler SmallMem Mutex CanTx
begin

text \<open>
  Verification library for lightControlMonitor, the firmware of an airfield lamp monitor on a GD32F4
  board under RT-Thread.

  The program. The monitor is a node between a CAN network and a bus of lamp units that is coupled to the
  mains: it sends one bit per half wave as a pulse behind the zero crossing, polls the lamps, switches
  them on command, reads digital inputs and drives outputs through two I2C port expanders, polls an
  uninterruptible power supply over RS-485 with Modbus, serves its own registers by Modbus, keeps calibration
  parameters in an EEPROM, and shows everything on a serial display with four keys. The threads and
  interrupt handlers share the parameter block \<open>sys.mycan.para\<close> and talk through mailboxes, semaphores
  and event flags of the kernel.

  Conventions. A C function that can leave its arrays, divide by zero, shift too far or fail an assertion
  has result type \<open>option\<close>, and \<open>None\<close> is that undefined or stopped run; error codes of the program are values.
  Integers keep their width as words where they wrap; offsets, lengths and ticks that cannot wrap are \<open>nat\<close> or
  \<open>int\<close>. State is passed explicitly in records that follow the structures of the source; what leaves the
  program (frames, pins, mails) is appended to a list of the state. Hardware and peers are arguments: the
  lamp bus, the UPS, the EEPROM chip, the I2C chips, the clock of the interrupts. Blocking calls return
  \<open>Suspended\<close> where the caller waits. Where threads and interrupts interleave, the system is an inductive step
  relation or a list of events in any order.

  The theories, bottom up.

  \<^item> \<open>Prelude\<close>: words and bytes, array access \<open>rd\<close> and \<open>wr\<close>, bytes of numbers, bounded lists (\<open>newest\<close>).
  \<^item> \<open>Crc\<close> (\<open>crc16.c\<close>, \<open>agile_modbus_rtu.c\<close>, \<open>lms.c\<close>): the three table-driven CRC routines and the checksum of the lamp
    bus; the routines agree with a shift register, and which damage they detect.
  \<^item> \<open>BoundedQueue\<close>, \<open>Mailbox\<close> (\<open>ipc.c\<close>): the contract of a bounded queue as a locale and the ring buffer of a
    mailbox as its instance. \<open>SysState\<close> (\<open>mycan.h\<close>, \<open>event_monitor.c\<close>): the shared parameter block.
  \<^item> \<open>LmsFrame\<close>, \<open>LmsUart\<close> (\<open>lms.c\<close>, \<open>lmsuart.c\<close>): Hamming-coded synchronisation frames, command and reply frames, and the
    master of the lamp bus, one step per half wave. The wire shows exactly the sync, command and reply
    slots of an abstract schedule; no array is left but by a command for a group above 7, which nothing
    refuses; a command is sent completely after it was accepted; a round of polling reports every lamp.
  \<^item> \<open>MultiButton\<close>, \<open>KeyMenu\<close> (\<open>multi_button.c\<close>, \<open>key_function.c\<close>): the button state machine with its linked list, and the
    menu of pages and values it drives: clicks are counted, glitches ignored, all sequences of keys safe.
  \<^item> \<open>CanProto\<close> (\<open>can_response.c\<close>, \<open>mycan.c\<close>): the command table, handlers and frames of the CAN protocol;
    frames of any length are parsed, too short ones with left-over bytes.
  \<^item> \<open>IoMonitor\<close> (\<open>tca9535.c\<close>, \<open>io.c\<close>, \<open>main.c\<close>): inputs, outputs and the indicator.
  \<^item> \<open>ModbusRtu\<close>, \<open>ModbusSlave\<close> (\<open>agile_modbus.c\<close>, \<open>agile_modbus_rtu.c\<close>, \<open>agile_modbus_slave_util.c\<close>, \<open>modbus_master.c\<close>): requests
    and responses of every function code, the request handler with its register maps, and the register
    server of the program; an exchange of master and server reads or writes the server's registers.
  \<^item> \<open>Serial\<close> (\<open>serial.c\<close>, \<open>drv_usart.c\<close>): the receive side of a port, a queue of bytes by the locale \<open>byte_queue\<close>.
    \<open>UpsMaster\<close> (\<open>rs_485.c\<close>, \<open>modbus_master.c\<close>): one thread that polls the UPS through such a port,
    with buffers of 64 bytes, the limit that the configured Modbus library has.
  \<^item> \<open>Eeprom\<close> (\<open>i2c_app.c\<close>): parameters with checksum and retries; round trip, damage, defaults,
    and what is used when the repair fails.
  \<^item> \<open>I2cBus\<close>, \<open>I2cWires\<close> (\<open>i2c-bit-ops.c\<close>, \<open>drv_soft_i2c.c\<close>): the bit-banged master over an abstract wire, and the pins
    with a chip on them, which receives the bytes of the messages between start and stop. The error codes are
    those of \<open>rtdef.h\<close> with the C library: 255 and newlib's numbers.
  \<^item> \<open>Pulse\<close> (\<open>pulse_generate.c\<close>): edges of the comparator, three timers, and the pulse that leaves. What
    the capture timer reads is arbitrary (its driver computes it through a float); only the spacing of
    pulses is stated for exact readings.
  \<^item> \<open>Shell\<close> (\<open>main.c\<close>): the lamp command, other commands and the idle hook.
  \<^item> \<open>Oled\<close>, \<open>Hmi\<close> (\<open>spi_driver.c\<close>, \<open>oled_driver.c\<close>, \<open>hmi.c\<close>): drawing commands down to the SPI pins, and the pages.
    The display thread makes one step per access to what keys and lamp bus change in interrupts; the three
    reads of the page number in a pass race with the keys, and a page can be drawn over the home page.
  \<^item> \<open>Ipc\<close>, \<open>Semaphore\<close>, \<open>EventFlags\<close>, \<open>MailboxWait\<close> (\<open>ipc.c\<close>, \<open>thread.c\<close>): suspend lists and time-outs, and the kernel objects
    with threads that wait, in every interleaving: no token is lost, no wake-up is lost, order is kept.
    \<open>Mutex\<close> (\<open>ipc.c\<close>): the locks of the I2C and SPI buses, with priorities inherited along chains of owners: no
    owner is less urgent than who waits for it, and without time-outs nothing more is inherited, even among
    threads that wait for each other in a circle; time-outs can leave a thread at a priority it inherited.
  \<^item> \<open>CanFifo\<close> (\<open>can.c\<close>, \<open>mycan.c\<close>): the pool of received CAN messages with its readers, and the receiving thread.
    \<open>CanTx\<close> (\<open>can.c\<close>, \<open>completion.c\<close>, \<open>drv_can.c\<close>): writers that share a send box, the completion they sleep on, the registers of
    the mailboxes and the transmit interrupt: every call puts its messages on the bus and returns.
  \<^item> \<open>KTimer\<close> (\<open>timer.c\<close>, \<open>clock.c\<close>): the timers of the kernel in wrapping ticks, with call-backs that use timers; they
    refine a queue of timers with the ticks left, and a timer expires exactly on time, as long as no timer runs
    with time 0; a periodic one that does keeps the tick interrupt for ever.
  \<^item> \<open>Scheduler\<close> (\<open>scheduler_up.c\<close>, \<open>thread.c\<close>, \<open>kservice.c\<close>): bit map and ready lists, and which thread runs: the most
    urgent one, but with three of one priority the time slices go to two of them only. The lock counter has
    16 bits and overflows as in the code.
  \<^item> \<open>Simulation\<close>, \<open>SmallMem\<close> (\<open>mem.c\<close>, \<open>kservice.c\<close>): forward simulation of failing operations as a locale, and the heap of
    the kernel byte by byte, headers and data in one memory: it simulates first fit on a list of blocks, keeps the
    clients' bytes and leaks nothing; sizes near the end of 32 bits wrap around.

  How they are connected. The locales state what a client needs of a component, and their interpretations
  on the models are the bridges: the bounded queue of mails for the senders, the queue of bytes of a port
  for the UPS poller, the wire of the I2C master for the pins with a chip. \<open>CanFifo\<close> runs the interrupt
  handler, the semaphore of \<open>Semaphore\<close> and the handlers of \<open>CanProto\<close> together, and \<open>CanTx\<close> the same semaphore with
  completions and the driver; \<open>ModbusSlave\<close> joins the master and the
  server of the library; \<open>Hmi\<close> shows the table that \<open>LmsUart\<close> fills.

  Bounds and fuel. A lamp bus cycle is 39 half waves, the length of the schedule in the code. A button click
  train is measured in ticks of 5 ms. Writing the EEPROM is tried three times. The serial ring buffer of 64
  bytes keeps 63. Receiving on RS-485 polls in steps of 33 ticks and ends after the configured silence, by a
  measure on the bytes to come. A check of the timers ends by a measure on the timers that are due, when none
  runs with time 0. The searches of the heap and the loop along the owners of mutexes are partial functions; that
  they return is proved, for the loop by a measure on the mutexes whose priority is not settled and, among settled
  ones, on the sum of the priorities, which moves in one direction. The clock line of the I2C bus is waited for at most 101 ticks; a chip that
  stretches the clock up to 100 ms is served. The timers of the pulse generator run with fuel 10 between two
  edges, more than the pulses that fit there, and the properties show that all fall due. The CAN box has
  16 messages and 28 filters, the numbers of the configuration. Everything else terminates by structure
  or by a proved measure.

  Not modelled. The object container and the device registry of RT-Thread, message queues (the only
  queue is initialised and never used), deletion of heap objects and of mutexes, soft timers, which are not configured, and
  signals. The models of the threads take any interleaving, whatever the scheduler chooses, and time-outs at
  any moment, so they do not rest on \<open>Scheduler\<close> and \<open>KTimer\<close>. The transmit side and DMA of serial
  ports, the private boxes of CAN, which are not configured, and the remaining board drivers, which write to registers of the GD32 whose behaviour is in no source file. The
  vendor's firmware library, USB, file systems, network, C library glue and tools, which the build does not
  link into the application or which carry no logic of it. The demonstration threads \<open>uart5.c\<close> and \<open>dma_uart.c\<close>, the
  thread of \<open>adc_sample.c\<close>, whose sampling code is commented out, and the start-up code, which calls initialisers.
\<close>

end
